(* ===== verification/Prelude.thy ===== *)
theory Prelude
  imports Main "HOL-Library.Sublist" "HOL-Library.Char_ord" "HOL-Library.List_Lexorder"
    "HOL-Library.AList"
begin

text \<open>
  What every component of the development shares: the operations of Go's
  \<open>strings\<close> and \<open>slices\<close> packages the sources call, over byte strings, with
  the laws the component proofs use.

  A Go string is a finite sequence of bytes, and so is an Isabelle \<open>string\<close> (a
  list of 8-bit characters): \<open>len(s)\<close> is \<open>length s\<close>, \<open>s[i]\<close> is
  \<open>s ! i\<close> within bounds, \<open>s[:i]\<close> is \<open>take i s\<close>, \<open>s[i:]\<close> is
  \<open>drop i s\<close>, and the byte-wise order \<open>cmp.Compare\<close> uses is the
  lexicographic order of \<open>List_Lexorder\<close> over \<open>Char_ord\<close>.
\<close>

section \<open>Bytes\<close>

text \<open>\<open>lo <= c && c <= hi\<close>.\<close>

definition byte_in :: "char \<Rightarrow> char \<Rightarrow> char \<Rightarrow> bool" where
  [simp]: "byte_in lo hi c \<longleftrightarrow> lo \<le> c \<and> c \<le> hi"

text \<open>A value of a \<open>map[string]any\<close> as far as a type assertion to \<open>string\<close> sees it.\<close>

datatype dyn = DynString string | DynOther

section \<open>Cutting and splitting\<close>

text \<open>\<open>strings.CutPrefix(s, p)\<close>: the rest after \<open>p\<close>, or nothing.\<close>

fun cut_prefix :: "string \<Rightarrow> string \<Rightarrow> string option" where
  "cut_prefix [] s = Some s"
| "cut_prefix (p # ps) [] = None"
| "cut_prefix (p # ps) (c # s) = (if p = c then cut_prefix ps s else None)"

definition has_prefix :: "string \<Rightarrow> string \<Rightarrow> bool" where
  "has_prefix p s \<longleftrightarrow> cut_prefix p s \<noteq> None"

text \<open>\<open>strings.CutSuffix(s, p)\<close>.\<close>

definition cut_suffix :: "string \<Rightarrow> string \<Rightarrow> string option" where
  "cut_suffix p s = map_option rev (cut_prefix (rev p) (rev s))"

text \<open>
  \<open>strings.Cut(s, sep)\<close> for a one-byte separator: what is before the first
  separator and what is after it; the whole string and nothing when there is none.
\<close>

definition cut_before :: "char \<Rightarrow> string \<Rightarrow> string" where
  "cut_before c s = takeWhile (\<lambda>x. x \<noteq> c) s"

definition cut_after :: "char \<Rightarrow> string \<Rightarrow> string" where
  "cut_after c s = drop 1 (dropWhile (\<lambda>x. x \<noteq> c) s)"

text \<open>\<open>strings.Split(s, sep)\<close> for a one-byte separator.\<close>

fun split_on :: "char \<Rightarrow> string \<Rightarrow> string list" where
  "split_on c [] = [[]]"
| "split_on c (x # s) =
     (if x = c then [] # split_on c s
      else (case split_on c s of
              [] \<Rightarrow> [[x]]
            | seg # segs \<Rightarrow> (x # seg) # segs))"

text \<open>\<open>strings.Join(segs, sep)\<close> for a one-byte separator.\<close>

fun join_with :: "char \<Rightarrow> string list \<Rightarrow> string" where
  "join_with c [] = []"
| "join_with c [s] = s"
| "join_with c (s # t # ts) = s @ c # join_with c (t # ts)"

text \<open>\<open>strconv.Itoa\<close> of a number that is not negative.\<close>

fun Itoa :: "nat \<Rightarrow> string" where
  "Itoa n = (if n < 10 then [char_of (48 + n)] else Itoa (n div 10) @ [char_of (48 + n mod 10)])"

declare Itoa.simps [simp del]

text \<open>\<open>strings.Index(s, sub)\<close>: the first offset at which \<open>sub\<close> occurs.\<close>

fun index_sub :: "string \<Rightarrow> string \<Rightarrow> nat option" where
  "index_sub sub [] = (if sub = [] then Some 0 else None)"
| "index_sub sub (c # s) =
     (if has_prefix sub (c # s) then Some 0 else map_option Suc (index_sub sub s))"

text \<open>\<open>strings.TrimRight(s, cutset)\<close>.\<close>

definition trim_right :: "char list \<Rightarrow> string \<Rightarrow> string" where
  "trim_right cutset s = rev (dropWhile (\<lambda>c. c \<in> set cutset) (rev s))"

text \<open>\<open>strings.ReplaceAll(s, old, new)\<close> for one byte each.\<close>

definition replace_byte :: "char \<Rightarrow> char \<Rightarrow> string \<Rightarrow> string" where
  "replace_byte a b s = map (\<lambda>c. if c = a then b else c) s"

text \<open>
  The loop \<open>if _, dup := seen[key]; dup {continue}; seen[key] = ...; out = append(out, x)\<close>:
  the first element of each key, in order. \<open>seen\<close> is the set of keys met so far.
\<close>

fun dedup_by :: "('a \<Rightarrow> 'k) \<Rightarrow> 'k list \<Rightarrow> 'a list \<Rightarrow> 'a list" where
  "dedup_by key seen [] = []"
| "dedup_by key seen (x # xs) =
     (if key x \<in> set seen then dedup_by key seen xs
      else x # dedup_by key (key x # seen) xs)"

section \<open>Laws\<close>

lemma cut_prefix_Some: "cut_prefix p s = Some r \<longleftrightarrow> s = p @ r"
  by (induction p s rule: cut_prefix.induct) auto

lemma cut_prefix_append [simp]: "cut_prefix p (p @ r) = Some r"
  by (simp add: cut_prefix_Some)

lemma has_prefix_iff: "has_prefix p s \<longleftrightarrow> (\<exists>r. s = p @ r)"
  by (auto simp: has_prefix_def cut_prefix_Some)

lemma has_prefix_append [simp]: "has_prefix p (p @ r)"
  by (auto simp: has_prefix_iff)

lemma cut_suffix_Some: "cut_suffix p s = Some r \<longleftrightarrow> s = r @ p"
proof -
  have "cut_suffix p s = Some r \<longleftrightarrow> cut_prefix (rev p) (rev s) = Some (rev r)"
    by (auto simp: cut_suffix_def)
  also have "\<dots> \<longleftrightarrow> s = r @ p"
    by (simp add: cut_prefix_Some) (metis rev_append rev_rev_ident)
  finally show ?thesis .
qed

lemma cut_suffix_append [simp]: "cut_suffix p (r @ p) = Some r"
  by (simp add: cut_suffix_Some)

lemma cut_before_id [simp]: "c \<notin> set s \<Longrightarrow> cut_before c s = s"
  by (induction s) (auto simp: cut_before_def)

lemma cut_before_append [simp]: "c \<notin> set s \<Longrightarrow> cut_before c (s @ c # t) = s"
  by (induction s) (auto simp: cut_before_def)

lemma cut_after_none [simp]: "c \<notin> set s \<Longrightarrow> cut_after c s = []"
  by (induction s) (auto simp: cut_after_def)

lemma cut_after_append [simp]: "c \<notin> set s \<Longrightarrow> cut_after c (s @ c # t) = t"
proof -
  assume "c \<notin> set s"
  then have "dropWhile (\<lambda>x. x \<noteq> c) (s @ c # t) = c # t"
    by (induction s) auto
  then show ?thesis by (simp add: cut_after_def)
qed

lemma cut_before_not_in [simp]: "c \<notin> set (cut_before c s)"
  by (auto simp: cut_before_def dest: set_takeWhileD)

lemma set_cut_before: "x \<in> set (cut_before c s) \<Longrightarrow> x \<in> set s"
  by (auto simp: cut_before_def dest: set_takeWhileD)

lemma set_cut_after: "x \<in> set (cut_after c s) \<Longrightarrow> x \<in> set s"
  by (auto simp: cut_after_def dest: in_set_dropD set_dropWhileD)

lemma length_cut_after [termination_simp]: "s \<noteq> [] \<Longrightarrow> length (cut_after c s) < length s"
proof -
  assume "s \<noteq> []"
  moreover have "length (dropWhile (\<lambda>x. x \<noteq> c) s) \<le> length s"
    by (rule length_dropWhile_le)
  moreover have "0 < length s" using \<open>s \<noteq> []\<close> by simp
  ultimately show ?thesis unfolding cut_after_def length_drop by linarith
qed

lemma split_on_not_Nil [simp]: "split_on c s \<noteq> []"
  by (induction c s rule: split_on.induct) (auto split: list.splits)

lemma split_on_no_sep: "seg \<in> set (split_on c s) \<Longrightarrow> c \<notin> set seg"
  by (induction c s arbitrary: seg rule: split_on.induct) (auto split: if_splits list.splits)

lemma split_on_subset: "seg \<in> set (split_on c s) \<Longrightarrow> set seg \<subseteq> set s"
  by (induction c s arbitrary: seg rule: split_on.induct)
     (fastforce split: if_splits list.splits)+

lemma split_on_single [simp]: "c \<notin> set s \<Longrightarrow> split_on c s = [s]"
  by (induction s) auto

lemma split_on_append [simp]:
  "c \<notin> set s \<Longrightarrow> split_on c (s @ c # t) = s # split_on c t"
  by (induction s) auto

lemma split_on_append_sep: "split_on c (s @ c # t) = split_on c s @ split_on c t"
proof (induction s)
  case (Cons x s)
  have "split_on c s \<noteq> []" by simp
  with Cons show ?case by (auto simp: neq_Nil_conv split: list.split)
qed simp

lemma join_split_on: "join_with c (split_on c s) = s"
proof (induction s)
  case Nil
  show ?case by simp
next
  case (Cons x s)
  have "split_on c s \<noteq> []" by simp
  then obtain seg segs where eq: "split_on c s = seg # segs"
    by (meson neq_Nil_conv)
  with Cons show ?case by (cases segs) auto
qed

lemma split_on_join:
  "segs \<noteq> [] \<Longrightarrow> \<forall>seg \<in> set segs. c \<notin> set seg \<Longrightarrow> split_on c (join_with c segs) = segs"
  by (induction c segs rule: join_with.induct) auto

lemma join_with_append:
  "xs \<noteq> [] \<Longrightarrow> ys \<noteq> [] \<Longrightarrow> join_with c (xs @ ys) = join_with c xs @ c # join_with c ys"
proof (induction c xs rule: join_with.induct)
  case (2 c s)
  then show ?case by (cases ys) auto
qed auto

lemma set_join_with: "set (join_with c segs) \<subseteq> \<Union> (set ` set segs) \<union> {c}"
  by (induction c segs rule: join_with.induct) auto

lemma index_sub_Some:
  "index_sub sub s = Some i \<Longrightarrow>
     has_prefix sub (drop i s) \<and> i \<le> length s \<and> (\<forall>j < i. \<not> has_prefix sub (drop j s))"
proof (induction sub s arbitrary: i rule: index_sub.induct)
  case (2 sub c s)
  show ?case
  proof (cases "has_prefix sub (c # s)")
    case True
    with "2.prems" show ?thesis by simp
  next
    case False
    with "2.prems" obtain k where k: "index_sub sub s = Some k" "i = Suc k"
      by auto
    from "2.IH" [OF False k(1)] have IH:
      "has_prefix sub (drop k s) \<and> k \<le> length s \<and> (\<forall>j < k. \<not> has_prefix sub (drop j s))" .
    have "\<not> has_prefix sub (drop j (c # s))" if "j < i" for j
      using that IH False k(2) by (cases j) auto
    with IH k(2) show ?thesis by simp
  qed
qed (auto simp: has_prefix_iff split: if_splits)

lemma index_sub_None:
  "index_sub sub s = None \<Longrightarrow> sub \<noteq> [] \<Longrightarrow> \<not> has_prefix sub (drop j s)"
proof (induction sub s arbitrary: j rule: index_sub.induct)
  case (1 sub)
  then show ?case by (simp add: has_prefix_iff)
next
  case (2 sub c s)
  then show ?case by (cases j) (auto split: if_splits)
qed

lemma index_sub_exists:
  "sub \<noteq> [] \<Longrightarrow> has_prefix sub (drop j s) \<Longrightarrow> \<exists>i \<le> j. index_sub sub s = Some i"
  by (metis index_sub_None index_sub_Some not_le option.exhaust)

lemma trim_right_id [simp]: "s = [] \<or> last s \<notin> set cutset \<Longrightarrow> trim_right cutset s = s"
  by (cases s rule: rev_cases) (auto simp: trim_right_def)

lemma trim_right_append:
  "set t \<subseteq> set cutset \<Longrightarrow> s \<noteq> [] \<Longrightarrow> last s \<notin> set cutset \<Longrightarrow> trim_right cutset (s @ t) = s"
proof -
  assume t: "set t \<subseteq> set cutset" and s: "s \<noteq> []" "last s \<notin> set cutset"
  have "dropWhile (\<lambda>c. c \<in> set cutset) (rev t @ rev s) = dropWhile (\<lambda>c. c \<in> set cutset) (rev s)"
    using t by (intro dropWhile_append2) auto
  with s show ?thesis
    by (cases s rule: rev_cases) (simp_all add: trim_right_def)
qed

lemma trim_right_prefix: "prefix (trim_right cutset s) s"
proof -
  have "suffix (dropWhile (\<lambda>c. c \<in> set cutset) (rev s)) (rev s)"
    by (rule suffix_dropWhile)
  then show ?thesis by (simp add: trim_right_def suffix_to_prefix)
qed

lemma set_replace_byte: "a \<noteq> b \<Longrightarrow> a \<notin> set (replace_byte a b s)"
  by (auto simp: replace_byte_def split: if_splits)

lemma replace_byte_id [simp]: "a \<notin> set s \<Longrightarrow> replace_byte a b s = s"
  by (induction s) (auto simp: replace_byte_def)

lemma replace_byte_append [simp]:
  "replace_byte a b (s @ t) = replace_byte a b s @ replace_byte a b t"
  by (simp add: replace_byte_def)

lemma replace_byte_join:
  "\<forall>seg \<in> set segs. a \<notin> set seg \<Longrightarrow> replace_byte a b (join_with a segs) = join_with b segs"
proof (induction a segs rule: join_with.induct)
  case (1 c)
  show ?case by (simp add: replace_byte_def)
next
  case (3 c s t ts)
  then have "replace_byte c b s = s" by simp
  with 3 show ?case by (simp add: replace_byte_def)
qed auto

lemma split_on_replace: "b \<notin> set s \<Longrightarrow> split_on b (replace_byte a b s) = split_on a s"
proof -
  assume b: "b \<notin> set s"
  let ?segs = "split_on a s"
  have "replace_byte a b (join_with a ?segs) = join_with b ?segs"
    by (rule replace_byte_join) (auto dest: split_on_no_sep)
  moreover have "split_on b (join_with b ?segs) = ?segs"
    using b by (intro split_on_join) (auto dest: split_on_subset)
  ultimately show ?thesis by (simp add: join_split_on)
qed

lemma set_update_subset: "set (AList.update k v al) \<subseteq> insert (k, v) (set al)"
  by (induction al) auto

lemma find_SomeD: "List.find P xs = Some x \<Longrightarrow> x \<in> set xs \<and> P x"
  by (auto simp: find_Some_iff)

lemma in_map_filter: "y \<in> set (List.map_filter f xs) \<longleftrightarrow> (\<exists>x \<in> set xs. f x = Some y)"
  by (induction xs) (auto simp: List.map_filter_simps split: option.splits)

lemma map_of_filter_distinct:
  "distinct (map fst xs) \<Longrightarrow>
     map_of (filter P xs) k = Option.bind (map_of xs k) (\<lambda>v. if P (k, v) then Some v else None)"
proof (induction xs)
  case (Cons x xs)
  then have "map_of xs (fst x) = None" by (simp add: map_of_eq_None_iff)
  with Cons show ?case by (cases x) auto
qed simp

lemma dedup_by_set:
  "key ` set (dedup_by key seen xs) = key ` set xs - set seen"
  by (induction key seen xs rule: dedup_by.induct) auto

lemma set_dedup_id [simp]: "set (dedup_by id [] xs) = set xs"
  using dedup_by_set [of id "[]" xs] by simp

lemma dedup_by_subset: "set (dedup_by key seen xs) \<subseteq> set xs"
  by (induction key seen xs rule: dedup_by.induct) auto

lemma dedup_by_distinct: "distinct (map key (dedup_by key seen xs))"
  by (induction key seen xs rule: dedup_by.induct) (auto simp: dedup_by_set)

lemma distinct_dedup_id [simp]: "distinct (dedup_by id [] xs)"
  using dedup_by_distinct [of id "[]" xs] by simp

lemma dedup_by_id:
  "distinct (map key xs) \<Longrightarrow> key ` set xs \<inter> set seen = {} \<Longrightarrow> dedup_by key seen xs = xs"
  by (induction key seen xs rule: dedup_by.induct) auto

section \<open>Machines whose operations never fail\<close>

text \<open>
  The contract shared by the stateful components: every operation, run from a state that
  satisfies the invariant, returns (no Go panic) a state that satisfies it again. A run of
  operations then returns, and its final state satisfies the invariant.
\<close>

fun run_ops :: "('s \<Rightarrow> 'op \<Rightarrow> 'e + 's) \<Rightarrow> 's \<Rightarrow> 'op list \<Rightarrow> 'e + 's" where
  "run_ops step s [] = Inr s"
| "run_ops step s (op # ops) =
     (case step s op of Inl e \<Rightarrow> Inl e | Inr s' \<Rightarrow> run_ops step s' ops)"

lemma run_ops_append:
  "run_ops step s (ops @ ops') =
     (case run_ops step s ops of Inl e \<Rightarrow> Inl e | Inr s' \<Rightarrow> run_ops step s' ops')"
  by (induction step s ops rule: run_ops.induct) (auto split: sum.splits)

locale safe_machine =
  fixes step :: "'s \<Rightarrow> 'op \<Rightarrow> 'e + 's"
    and init :: 's
    and inv :: "'s \<Rightarrow> bool"
  assumes inv_init: "inv init"
    and step_safe: "inv s \<Longrightarrow> \<exists>s'. step s op = Inr s' \<and> inv s'"
begin

lemma run_safe_from: "inv s \<Longrightarrow> \<exists>s'. run_ops step s ops = Inr s' \<and> inv s'"
proof (induction ops arbitrary: s)
  case Nil
  then show ?case by simp
next
  case (Cons op ops)
  from step_safe [OF Cons.prems] obtain s1 where "step s op = Inr s1" "inv s1"
    by blast
  with Cons.IH show ?case by simp
qed

lemma run_safe: "\<exists>s'. run_ops step init ops = Inr s' \<and> inv s'"
  by (rule run_safe_from [OF inv_init])

lemma run_inv: "run_ops step init ops = Inr s \<Longrightarrow> inv s"
  using run_safe [of ops] by auto

end

end
