(* ===== verification/EventHub.thy ===== *)
theory EventHub
  imports Prelude
begin

text \<open>
  The in-memory broadcast hub of the event bus (src/internal/server/events\_hub.go) and the
  event envelope (src/internal/api/event.go).

  Every operation of the hub runs under one mutex, so an execution is a sequence of whole
  operations. A subscriber's channel is a bounded buffer with a closed flag; it belongs to one
  subscription for its whole life, so the subscription id is its address and \<open>hChans\<close> is
  the store of channels. Sending on a closed channel and closing one twice panic in Go: both are
  values of \<open>hub_panic\<close> here. \<open>hSubs\<close> holds the entries of the map \<open>subs\<close> in
  the order one iteration meets them.
\<close>

section \<open>Events and filters\<close>

record EventSender =
  sndIdentity :: string
  sndSelf :: bool

record Event =
  evType :: string
  evScope :: string
  evSpaceId :: string
  evTarget :: string
  evData :: string
  evSender :: "EventSender option"

definition EventScopeDevice :: string where "EventScopeDevice = ''device''"
definition EventScopeAccount :: string where "EventScopeAccount = ''account''"
definition EventScopeSpace :: string where "EventScopeSpace = ''space''"

record eventFilter =
  scopes :: "string list"
  spaceIds :: "string list"
  types :: "string list"
  targets :: "string list"

definition typeFilterMatches :: "string \<Rightarrow> string \<Rightarrow> bool" where
  "typeFilterMatches entry typ =
     (case cut_suffix ''.*'' entry of
        Some pre \<Rightarrow> typ = pre \<or> has_prefix (pre @ ''.'') typ
      | None \<Rightarrow> typ = entry)"

definition filter_matches :: "eventFilter \<Rightarrow> Event \<Rightarrow> bool" where
  "filter_matches f ev \<longleftrightarrow>
     (if scopes f \<noteq> [] \<and> evScope ev \<notin> set (scopes f) then False
      else if spaceIds f \<noteq> [] \<and> evSpaceId ev \<notin> set (spaceIds f) then False
      else if targets f \<noteq> [] \<and> evTarget ev \<notin> set (targets f) then False
      else if types f \<noteq> [] then list_ex (\<lambda>t. typeFilterMatches t (evType ev)) (types f)
      else True)"

section \<open>The hub\<close>

definition eventSubBuffer :: nat where "eventSubBuffer = 16"

record chan =
  cbuf :: "Event list"
  cclosed :: bool

datatype hub_panic = SendOnClosed nat | CloseOfClosed nat

record eventHub =
  hNext :: nat
  hSubs :: "(nat \<times> eventFilter) list"
  hChans :: "nat \<Rightarrow> chan"

definition newEventHub :: eventHub where
  "newEventHub = \<lparr>hNext = 0, hSubs = [], hChans = (\<lambda>_. \<lparr>cbuf = [], cclosed = False\<rparr>)\<rparr>"

definition close_chan :: "nat \<Rightarrow> eventHub \<Rightarrow> hub_panic + eventHub" where
  "close_chan i h =
     (if cclosed (hChans h i) then Inl (CloseOfClosed i)
      else Inr (h\<lparr>hChans := (hChans h)(i := (hChans h i)\<lparr>cclosed := True\<rparr>)\<rparr>))"

definition subscribe :: "eventFilter \<Rightarrow> eventHub \<Rightarrow> nat \<times> eventHub" where
  "subscribe f h =
     (let i = hNext h
      in (i, h\<lparr>hNext := hNext h + 1,
               hSubs := AList.update i f (hSubs h),
               hChans := (hChans h)(i := \<lparr>cbuf = [], cclosed = False\<rparr>)\<rparr>))"

definition unsubscribe :: "nat \<Rightarrow> eventHub \<Rightarrow> hub_panic + eventHub" where
  "unsubscribe i h =
     (case map_of (hSubs h) i of
        None \<Rightarrow> Inr h
      | Some _ \<Rightarrow> close_chan i (h\<lparr>hSubs := AList.delete i (hSubs h)\<rparr>))"

text \<open>
  One turn of the loop in \<open>fanout\<close>: the non-blocking send, or the drop of a matching
  subscriber whose buffer is full.
\<close>

definition fanout_one ::
  "Event \<Rightarrow> nat \<times> eventFilter \<Rightarrow> eventHub \<times> nat \<Rightarrow> hub_panic + eventHub \<times> nat" where
  "fanout_one ev s st =
     (case (s, st) of ((i, f), (h, delivered)) \<Rightarrow>
       if \<not> filter_matches f ev then Inr (h, delivered)
       else if cclosed (hChans h i) then Inl (SendOnClosed i)
       else if length (cbuf (hChans h i)) < eventSubBuffer
       then Inr (h\<lparr>hChans := (hChans h)(i := (hChans h i)\<lparr>cbuf := cbuf (hChans h i) @ [ev]\<rparr>)\<rparr>,
                 delivered + 1)
       else (case close_chan i (h\<lparr>hSubs := AList.delete i (hSubs h)\<rparr>) of
               Inl p \<Rightarrow> Inl p
             | Inr h' \<Rightarrow> Inr (h', delivered)))"

fun fanout_loop ::
  "Event \<Rightarrow> (nat \<times> eventFilter) list \<Rightarrow> eventHub \<times> nat \<Rightarrow> hub_panic + eventHub \<times> nat" where
  "fanout_loop ev [] st = Inr st"
| "fanout_loop ev (s # ss) st =
     (case fanout_one ev s st of Inl p \<Rightarrow> Inl p | Inr st' \<Rightarrow> fanout_loop ev ss st')"

definition fanout :: "Event \<Rightarrow> eventHub \<Rightarrow> hub_panic + eventHub \<times> nat" where
  "fanout ev h = fanout_loop ev (hSubs h) (h, 0)"

text \<open>
  \<open>publish\<close> fans out and then runs the taps on the event, outside the lock. A tap is a
  function on its own state \<open>'t\<close>.
\<close>

definition publish ::
  "(Event \<Rightarrow> 't \<Rightarrow> 't) list \<Rightarrow> Event \<Rightarrow> eventHub \<times> 't \<Rightarrow> hub_panic + (eventHub \<times> 't) \<times> nat" where
  "publish taps ev st =
     (case fanout ev (fst st) of
        Inl p \<Rightarrow> Inl p
      | Inr (h, n) \<Rightarrow> Inr ((h, foldl (\<lambda>t tap. tap ev t) (snd st) taps), n))"

definition matchCount :: "Event \<Rightarrow> eventHub \<Rightarrow> nat" where
  "matchCount ev h =
     length (filter (\<lambda>(i, f). filter_matches f ev \<and>
               \<not> (evScope ev = EventScopeSpace \<and> evSpaceId ev \<notin> set (spaceIds f))) (hSubs h))"

text \<open>
  The stream handler's receive: the oldest buffered event; nothing while an open channel is empty
  (the receiver waits) and the overflow signal (\<open>ok == false\<close>) once a closed one is drained.
\<close>

datatype recv_result = Got Event | Waits | Ended

definition receive :: "nat \<Rightarrow> eventHub \<Rightarrow> recv_result \<times> eventHub" where
  "receive i h =
     (case cbuf (hChans h i) of
        [] \<Rightarrow> (if cclosed (hChans h i) then Ended else Waits, h)
      | ev # evs \<Rightarrow> (Got ev, h\<lparr>hChans := (hChans h)(i := (hChans h i)\<lparr>cbuf := evs\<rparr>)\<rparr>))"

section \<open>Executions\<close>

text \<open>
  An execution interleaves subscribes, unsubscribes, publishes and receives. \<open>wGot\<close> records
  what each subscriber has received so far.
\<close>

datatype hub_op = is_OpSubscribe: OpSubscribe eventFilter | OpUnsubscribe nat | OpPublish Event | OpReceive nat

record hub_world =
  wHub :: eventHub
  wGot :: "nat \<Rightarrow> Event list"

definition hub_world0 :: hub_world where
  "hub_world0 = \<lparr>wHub = newEventHub, wGot = (\<lambda>_. [])\<rparr>"

fun hub_step :: "hub_world \<Rightarrow> hub_op \<Rightarrow> hub_panic + hub_world" where
  "hub_step w (OpSubscribe f) = Inr (w\<lparr>wHub := snd (subscribe f (wHub w))\<rparr>)"
| "hub_step w (OpUnsubscribe i) =
     (case unsubscribe i (wHub w) of Inl p \<Rightarrow> Inl p | Inr h \<Rightarrow> Inr (w\<lparr>wHub := h\<rparr>))"
| "hub_step w (OpPublish ev) =
     (case fanout ev (wHub w) of Inl p \<Rightarrow> Inl p | Inr (h, n) \<Rightarrow> Inr (w\<lparr>wHub := h\<rparr>))"
| "hub_step w (OpReceive i) =
     (case receive i (wHub w) of
        (Got ev, h) \<Rightarrow> Inr (w\<lparr>wHub := h, wGot := (wGot w)(i := wGot w i @ [ev])\<rparr>)
      | (_, h) \<Rightarrow> Inr (w\<lparr>wHub := h\<rparr>))"

text \<open>The filter of the \<open>i\<close>-th subscription of a run and the operations after it.\<close>

fun after_subscribe :: "nat \<Rightarrow> hub_op list \<Rightarrow> (eventFilter \<times> hub_op list) option" where
  "after_subscribe i [] = None"
| "after_subscribe 0 (OpSubscribe f # ops) = Some (f, ops)"
| "after_subscribe (Suc i) (OpSubscribe f # ops) = after_subscribe i ops"
| "after_subscribe i (OpUnsubscribe j # ops) = after_subscribe i ops"
| "after_subscribe i (OpPublish ev # ops) = after_subscribe i ops"
| "after_subscribe i (OpReceive j # ops) = after_subscribe i ops"

fun published :: "hub_op list \<Rightarrow> Event list" where
  "published [] = []"
| "published (OpPublish ev # ops) = ev # published ops"
| "published (op # ops) = published ops"

definition hub_inv :: "eventHub \<Rightarrow> bool" where
  "hub_inv h \<longleftrightarrow> distinct (map fst (hSubs h)) \<and>
     (\<forall>i. length (cbuf (hChans h i)) \<le> eventSubBuffer) \<and>
     (\<forall>i. i \<in> fst ` set (hSubs h) \<longleftrightarrow> i < hNext h \<and> \<not> cclosed (hChans h i)) \<and>
     (\<forall>i \<ge> hNext h. hChans h i = \<lparr>cbuf = [], cclosed = False\<rparr>)"

section \<open>What one fan-out does\<close>

definition chan_after :: "Event \<Rightarrow> eventFilter \<Rightarrow> chan \<Rightarrow> chan" where
  "chan_after ev f c =
     (if \<not> filter_matches f ev then c
      else if length (cbuf c) < eventSubBuffer then c\<lparr>cbuf := cbuf c @ [ev]\<rparr>
      else c\<lparr>cclosed := True\<rparr>)"

definition overflows :: "Event \<Rightarrow> eventHub \<Rightarrow> nat \<times> eventFilter \<Rightarrow> bool" where
  "overflows ev h s \<longleftrightarrow> filter_matches (snd s) ev \<and> \<not> length (cbuf (hChans h (fst s))) < eventSubBuffer"

definition hub_after :: "Event \<Rightarrow> (nat \<times> eventFilter) list \<Rightarrow> eventHub \<Rightarrow> eventHub" where
  "hub_after ev ss h =
     h\<lparr>hSubs := filter (\<lambda>(i, _). \<not> (\<exists>f. map_of ss i = Some f \<and> overflows ev h (i, f))) (hSubs h),
       hChans := (\<lambda>i. case map_of ss i of None \<Rightarrow> hChans h i
                       | Some f \<Rightarrow> chan_after ev f (hChans h i))\<rparr>"

lemma fanout_loop_eq:
  "distinct (map fst ss) \<Longrightarrow> \<forall>i \<in> fst ` set ss. \<not> cclosed (hChans h i) \<Longrightarrow>
   fanout_loop ev ss (h, d) =
     Inr (hub_after ev ss h,
          d + length (filter (\<lambda>s. filter_matches (snd s) ev \<and> \<not> overflows ev h s) ss))"
proof (induction ss arbitrary: h d)
  case Nil
  then show ?case by (simp add: hub_after_def)
next
  case (Cons s ss)
  obtain i f where s: "s = (i, f)" by (cases s)
  define h1 where "h1 = (if overflows ev h s then h\<lparr>hSubs := AList.delete i (hSubs h),
      hChans := (hChans h)(i := (hChans h i)\<lparr>cclosed := True\<rparr>)\<rparr>
    else if filter_matches f ev
    then h\<lparr>hChans := (hChans h)(i := (hChans h i)\<lparr>cbuf := cbuf (hChans h i) @ [ev]\<rparr>)\<rparr> else h)"
  define d1 where "d1 = (if filter_matches f ev \<and> \<not> overflows ev h s then d + 1 else d)"
  have one: "fanout_one ev s (h, d) = Inr (h1, d1)"
    using Cons.prems(2) s
    by (auto simp: fanout_one_def h1_def d1_def overflows_def close_chan_def)
  have same: "hChans h1 j = hChans h j" if "j \<noteq> i" for j
    using that by (auto simp: h1_def)
  have i: "i \<notin> fst ` set ss" using Cons.prems(1) s by auto
  then have none: "map_of ss i = None" by (simp add: map_of_eq_None_iff)
  have ov: "overflows ev h1 t = overflows ev h t" if "t \<in> set ss" for t
  proof -
    have "fst t \<noteq> i" using that i by force
    then show ?thesis by (simp add: overflows_def same)
  qed
  have ov': "overflows ev h1 (j, g) = overflows ev h (j, g)" if "map_of ss j = Some g" for j g
    using ov [OF map_of_SomeD [OF that]] .
  have step: "fanout_loop ev ss (h1, d1) = Inr (hub_after ev ss h1,
      d1 + length (filter (\<lambda>s. filter_matches (snd s) ev \<and> \<not> overflows ev h1 s) ss))"
  proof (rule Cons.IH)
    show "\<forall>j \<in> fst ` set ss. \<not> cclosed (hChans h1 j)"
      using Cons.prems(2) same i by (metis image_insert insertCI list.simps(15))
  qed (use Cons.prems(1) in simp)
  have len: "filter (\<lambda>s. filter_matches (snd s) ev \<and> \<not> overflows ev h1 s) ss =
      filter (\<lambda>s. filter_matches (snd s) ev \<and> \<not> overflows ev h s) ss"
    using ov by (auto intro: filter_cong)
  have chans: "hChans (hub_after ev ss h1) = hChans (hub_after ev (s # ss) h)"
    using s none same
    by (auto simp: hub_after_def chan_after_def overflows_def h1_def fun_eq_iff split: option.split)
  have subs: "hSubs (hub_after ev ss h1) = hSubs (hub_after ev (s # ss) h)"
  proof -
    have "hSubs (hub_after ev (s # ss) h) =
        filter (\<lambda>(j, _). \<not> (\<exists>g. map_of ss j = Some g \<and> overflows ev h (j, g)))
          (filter (\<lambda>(j, _). \<not> (j = i \<and> overflows ev h s)) (hSubs h))"
      using s none by (auto simp: hub_after_def intro!: filter_cong split: if_splits)
    also have "filter (\<lambda>(j, _). \<not> (j = i \<and> overflows ev h s)) (hSubs h) = hSubs h1"
      by (auto simp: h1_def AList.delete_eq split: if_splits intro: filter_cong)
    finally show ?thesis
      using ov' by (auto simp: hub_after_def intro!: filter_cong)
  qed
  have "hub_after ev ss h1 = hub_after ev (s # ss) h"
    using chans subs by (simp add: hub_after_def h1_def)
  with one step len s show ?case by (auto simp: d1_def)
qed

lemma fanout_eq:
  "hub_inv h \<Longrightarrow> fanout ev h =
     Inr (hub_after ev (hSubs h) h,
          length (filter (\<lambda>s. filter_matches (snd s) ev \<and> \<not> overflows ev h s) (hSubs h)))"
  unfolding fanout_def by (subst fanout_loop_eq) (auto simp: hub_inv_def)

lemma hub_after_subs:
  "distinct (map fst (hSubs h)) \<Longrightarrow>
     hSubs (hub_after ev (hSubs h) h) = filter (\<lambda>s. \<not> overflows ev h s) (hSubs h)"
  by (auto simp: hub_after_def intro!: filter_cong dest: eq_key_imp_eq_value)

lemma chan_after_bound:
  "length (cbuf c) \<le> eventSubBuffer \<Longrightarrow> length (cbuf (chan_after ev f c)) \<le> eventSubBuffer"
  by (simp add: chan_after_def)

lemma hub_inv_after:
  assumes "hub_inv h"
  shows "hub_inv (hub_after ev (hSubs h) h)"
proof -
  let ?h = "hub_after ev (hSubs h) h"
  have d: "distinct (map fst (hSubs h))" using assms by (simp add: hub_inv_def)
  have chans: "hChans ?h i = (case map_of (hSubs h) i of None \<Rightarrow> hChans h i
      | Some f \<Rightarrow> chan_after ev f (hChans h i))" for i
    by (simp add: hub_after_def)
  have subs: "i \<in> fst ` set (hSubs ?h) \<longleftrightarrow>
      (\<exists>f. map_of (hSubs h) i = Some f \<and> \<not> overflows ev h (i, f))" for i
    using d by (force simp: hub_after_subs)
  have "i \<in> fst ` set (hSubs ?h) \<longleftrightarrow> i < hNext ?h \<and> \<not> cclosed (hChans ?h i)" for i
  proof (cases "map_of (hSubs h) i")
    case None
    then have "i \<notin> fst ` set (hSubs h)" by (simp add: map_of_eq_None_iff)
    then show ?thesis using assms None chans [of i] subs [of i]
      by (auto simp: hub_inv_def hub_after_def)
  next
    case (Some f)
    then have "i \<in> fst ` set (hSubs h)" by (metis domI dom_map_of_conv_image_fst)
    then have "i < hNext h \<and> \<not> cclosed (hChans h i)"
      using assms by (auto simp: hub_inv_def)
    then show ?thesis using Some chans [of i] subs [of i]
      by (auto simp: overflows_def chan_after_def hub_after_def)
  qed
  moreover have "hChans ?h i = \<lparr>cbuf = [], cclosed = False\<rparr>" if "i \<ge> hNext ?h" for i
  proof -
    have "i \<notin> fst ` set (hSubs h)" using assms that by (auto simp: hub_inv_def hub_after_def)
    then have "map_of (hSubs h) i = None" by (simp add: map_of_eq_None_iff)
    with chans assms that show ?thesis by (simp add: hub_inv_def hub_after_def)
  qed
  moreover have "distinct (map fst (hSubs ?h))"
    using d by (simp add: hub_after_subs distinct_map_filter)
  moreover have "length (cbuf (hChans ?h i)) \<le> eventSubBuffer" for i
    using assms chans [of i] chan_after_bound by (auto simp: hub_inv_def split: option.split)
  ultimately show ?thesis by (simp add: hub_inv_def)
qed

lemma hub_inv_subscribe:
  assumes "hub_inv h"
  shows "hub_inv (snd (subscribe f h))"
proof -
  have "hNext h \<notin> fst ` set (hSubs h)" using assms by (auto simp: hub_inv_def)
  then show ?thesis using assms
    by (auto simp: hub_inv_def subscribe_def Let_def distinct_update dom_update image_iff
        split: if_splits) 
qed

lemma hub_inv_unsubscribe:
  assumes "hub_inv h"
  shows "\<exists>h'. unsubscribe i h = Inr h' \<and> hub_inv h'"
proof (cases "map_of (hSubs h) i")
  case None
  with assms show ?thesis by (simp add: unsubscribe_def)
next
  case (Some f)
  then have i: "i \<in> fst ` set (hSubs h)" by (metis domI dom_map_of_conv_image_fst)
  then have open_: "\<not> cclosed (hChans h i)" "i < hNext h" using assms by (auto simp: hub_inv_def)
  let ?h = "h\<lparr>hSubs := AList.delete i (hSubs h),
             hChans := (hChans h)(i := (hChans h i)\<lparr>cclosed := True\<rparr>)\<rparr>"
  have "unsubscribe i h = Inr ?h"
    using Some open_ by (simp add: unsubscribe_def close_chan_def)
  moreover have "fst ` set (AList.delete i (hSubs h)) = fst ` set (hSubs h) - {i}"
    by (auto simp: AList.delete_eq)
  then have "hub_inv ?h"
    using assms open_ by (simp add: hub_inv_def AList.delete_eq distinct_map_filter)
  ultimately show ?thesis by blast
qed

lemma hub_inv_receive: "hub_inv h \<Longrightarrow> hub_inv (snd (receive i h))"
  by (cases "cbuf (hChans h i)") (auto simp: hub_inv_def receive_def dest: spec [of _ i])

lemma hub_step_safe:
  assumes "hub_inv (wHub w)"
  shows "\<exists>w'. hub_step w op = Inr w' \<and> hub_inv (wHub w')"
proof (cases op)
  case (OpSubscribe f)
  with hub_inv_subscribe [OF assms] show ?thesis by simp
next
  case (OpUnsubscribe i)
  with hub_inv_unsubscribe [OF assms, of i] show ?thesis by auto
next
  case (OpPublish ev)
  with fanout_eq [OF assms, of ev] hub_inv_after [OF assms, of ev] show ?thesis by simp
next
  case (OpReceive i)
  with hub_inv_receive [OF assms, of i] show ?thesis
    by (auto split: prod.splits recv_result.splits)
qed

lemma hub_inv_new: "hub_inv newEventHub"
  by (simp add: newEventHub_def hub_inv_def)

interpretation hub: safe_machine hub_step hub_world0 "\<lambda>w. hub_inv (wHub w)"
  by unfold_locales (simp add: hub_world0_def hub_inv_new, rule hub_step_safe)

text \<open>
  What the hub asks of a tap: it is a total function on its own state that keeps that state's
  invariant. A publish then returns and keeps both the hub's and the tap's.
\<close>

locale hub_tap =
  fixes tap :: "Event \<Rightarrow> 't \<Rightarrow> 't"
    and tap_inv :: "'t \<Rightarrow> bool"
  assumes tap_keeps: "tap_inv t \<Longrightarrow> tap_inv (tap ev t)"
begin

lemma publish_keeps:
  assumes "hub_inv h" "tap_inv t"
  shows "\<exists>h' n. publish [tap] ev (h, t) = Inr ((h', tap ev t), n) \<and> hub_inv h' \<and> tap_inv (tap ev t)"
  using fanout_eq [OF assms(1), of ev] hub_inv_after [OF assms(1), of ev] tap_keeps [OF assms(2)]
  by (simp add: publish_def)

end

section \<open>Properties of the hub\<close>

text \<open>
  No interleaving of subscribes, unsubscribes, publishes and receives makes the hub send on
  a closed channel or close one twice; in every state it reaches, each backlog is within the
  buffer bound and a subscription's channel is closed exactly when the hub has dropped it.
\<close>

theorem hub_never_panics:
  "\<exists>w. run_ops hub_step hub_world0 ops = Inr w \<and>
       (\<forall>i. length (cbuf (hChans (wHub w) i)) \<le> eventSubBuffer) \<and>
       (\<forall>i < hNext (wHub w). cclosed (hChans (wHub w) i) \<longleftrightarrow> i \<notin> fst ` set (hSubs (wHub w)))"
proof -
  obtain w where "run_ops hub_step hub_world0 ops = Inr w" "hub_inv (wHub w)"
    using hub.run_safe by blast
  then show ?thesis by (auto simp: hub_inv_def)
qed

theorem hub_never_panics_witness:
  "\<exists>w. run_ops hub_step hub_world0
         [OpSubscribe \<lparr>scopes = [], spaceIds = [], types = [], targets = []\<rparr>, OpUnsubscribe 0] = Inr w \<and>
       0 < hNext (wHub w) \<and> cclosed (hChans (wHub w) 0)"
proof -
  let ?ops = "[OpSubscribe \<lparr>scopes = [], spaceIds = [], types = [], targets = []\<rparr>, OpUnsubscribe 0]"
  obtain w where w: "run_ops hub_step hub_world0 ?ops = Inr w"
    "\<forall>i < hNext (wHub w). cclosed (hChans (wHub w) i) \<longleftrightarrow> i \<notin> fst ` set (hSubs (wHub w))"
    using hub_never_panics [of ?ops] by blast
  have "hNext (wHub w) = 1" "hSubs (wHub w) = []"
    using w(1) by (auto simp: hub_world0_def newEventHub_def subscribe_def unsubscribe_def
        close_chan_def Let_def)
  with w show ?thesis by simp
qed

text \<open>
  How the events a subscriber is due grow with the run, one operation at a time.
\<close>

lemma published_append [simp]: "published (ops @ ops') = published ops @ published ops'"
  by (induction ops rule: published.induct) auto

lemma after_subscribe_append:
  "after_subscribe i (ops @ [op]) =
     (case after_subscribe i ops of
        Some (f, rest) \<Rightarrow> Some (f, rest @ [op])
      | None \<Rightarrow> (case op of
                   OpSubscribe f \<Rightarrow>
                     if i = length (filter is_OpSubscribe ops) then Some (f, []) else None
                 | _ \<Rightarrow> None))"
proof (induction i ops rule: after_subscribe.induct)
  case (1 i)
  then show ?case by (cases op; cases i) auto
qed (auto split: hub_op.splits)

definition sub_ok :: "hub_world \<Rightarrow> nat \<Rightarrow> eventFilter \<Rightarrow> hub_op list \<Rightarrow> bool" where
  "sub_ok w i f rest \<longleftrightarrow>
     (let due = filter (filter_matches f) (published rest);
          seen = wGot w i @ cbuf (hChans (wHub w) i)
      in prefix seen due \<and> (\<forall>g. map_of (hSubs (wHub w)) i = Some g \<longrightarrow> g = f \<and> seen = due))"

lemma sub_ok_publish:
  assumes inv: "hub_inv (wHub w)" and ok: "sub_ok w i f rest"
  shows "sub_ok (w\<lparr>wHub := hub_after ev (hSubs (wHub w)) (wHub w)\<rparr>) i f (rest @ [OpPublish ev])"
proof -
  let ?h = "wHub w"
  have d: "distinct (map fst (hSubs ?h))" using inv by (simp add: hub_inv_def)
  have subs: "map_of (hSubs (hub_after ev (hSubs ?h) ?h)) i =
      (case map_of (hSubs ?h) i of None \<Rightarrow> None
       | Some g \<Rightarrow> if overflows ev ?h (i, g) then None else Some g)"
    using d by (simp add: hub_after_subs map_of_filter_distinct split: option.split)
  show ?thesis
  proof (cases "map_of (hSubs ?h) i")
    case None
    then show ?thesis using ok subs
      by (auto simp: sub_ok_def Let_def hub_after_def)
  next
    case (Some g)
    then have "g = f" using ok by (auto simp: sub_ok_def Let_def)
    with Some ok subs show ?thesis
      by (auto simp: sub_ok_def Let_def hub_after_def chan_after_def overflows_def)
  qed
qed

lemma sub_ok_step:
  assumes inv: "hub_inv (wHub w)" and step: "hub_step w op = Inr w'"
    and i: "i < hNext (wHub w)" and ok: "sub_ok w i f rest"
  shows "sub_ok w' i f (rest @ [op])"
proof (cases op)
  case (OpSubscribe g)
  with step i ok show ?thesis
    by (auto simp: sub_ok_def Let_def subscribe_def update_conv)
next
  case (OpUnsubscribe j)
  with step obtain h where "unsubscribe j (wHub w) = Inr h" "w' = w\<lparr>wHub := h\<rparr>"
    by (auto split: sum.splits)
  then show ?thesis using ok OpUnsubscribe
    by (auto simp: sub_ok_def Let_def unsubscribe_def close_chan_def delete_conv
        split: option.splits if_splits)
next
  case (OpPublish ev)
  with step fanout_eq [OF inv, of ev] sub_ok_publish [OF inv ok, of ev] show ?thesis by auto
next
  case (OpReceive j)
  with step ok show ?thesis
    by (auto simp: sub_ok_def Let_def receive_def split: list.splits if_splits)
qed

lemma hub_step_next:
  assumes "hub_inv (wHub w)" "hub_step w op = Inr w'"
  shows "hNext (wHub w') = hNext (wHub w) + (if is_OpSubscribe op then 1 else 0)"
  using assms fanout_eq [OF assms(1)]
  by (cases op) (auto simp: subscribe_def unsubscribe_def close_chan_def hub_after_def receive_def
      Let_def split: option.splits if_splits list.splits sum.splits)

lemma hub_step_got_fresh:
  assumes "hub_inv (wHub w)" "hub_step w op = Inr w'" "hNext (wHub w) \<le> i" "wGot w i = []"
  shows "wGot w' i = []"
proof (cases op)
  case (OpReceive j)
  have "cbuf (hChans (wHub w) i) = []" using assms(1,3) by (simp add: hub_inv_def)
  with OpReceive assms(2,4) show ?thesis
    by (auto simp: receive_def split: list.splits if_splits)
qed (use assms in \<open>auto split: sum.splits\<close>)

lemma sub_ok_new:
  assumes "hub_inv (wHub w)" "hub_step w (OpSubscribe f) = Inr w'" "wGot w (hNext (wHub w)) = []"
  shows "sub_ok w' (hNext (wHub w)) f []"
  using assms by (auto simp: sub_ok_def subscribe_def Let_def update_conv)

lemma hub_run_sub_ok:
  "run_ops hub_step hub_world0 ops = Inr w \<Longrightarrow>
     hNext (wHub w) = length (filter is_OpSubscribe ops) \<and>
     (\<forall>i f rest. after_subscribe i ops = Some (f, rest) \<longrightarrow>
        i < hNext (wHub w) \<and> sub_ok w i f rest) \<and>
     (\<forall>i \<ge> hNext (wHub w). wGot w i = [])"
proof (induction ops arbitrary: w rule: rev_induct)
  case Nil
  then show ?case by (auto simp: hub_world0_def newEventHub_def)
next
  case (snoc op ops)
  from snoc.prems obtain w0 where w0: "run_ops hub_step hub_world0 ops = Inr w0"
    and step: "hub_step w0 op = Inr w"
    by (auto simp: run_ops_append split: sum.splits)
  note IH = snoc.IH [OF w0]
  have inv: "hub_inv (wHub w0)" by (rule hub.run_inv [OF w0])
  note next' = hub_step_next [OF inv step]
  have subs: "i < hNext (wHub w) \<and> sub_ok w i f rest"
    if after: "after_subscribe i (ops @ [op]) = Some (f, rest)" for i f rest
  proof (cases "after_subscribe i ops")
    case None
    with after IH have "op = OpSubscribe f" "i = hNext (wHub w0)" "rest = []"
      by (auto simp: after_subscribe_append split: hub_op.splits if_splits)
    with sub_ok_new [OF inv, of f w] step IH next' show ?thesis by simp
  next
    case (Some fr)
    with after obtain rest0 where "fr = (f, rest0)" "rest = rest0 @ [op]"
      by (cases fr) (auto simp: after_subscribe_append)
    with Some IH next' sub_ok_step [OF inv step] show ?thesis by force
  qed
  have "wGot w i = []" if "i \<ge> hNext (wHub w)" for i
    using that IH next' hub_step_got_fresh [OF inv step, of i] by auto
  with subs IH next' show ?case by auto
qed

text \<open>
  C3. Delivery is in order, without duplicates and without gaps: at any point of any run, what a
  subscriber has received followed by its backlog is a prefix of the events published since it
  subscribed that its filter accepts, and it is all of them as long as the hub has not dropped
  the subscription.
\<close>

theorem hub_delivery:
  assumes run: "run_ops hub_step hub_world0 ops = Inr w"
    and sub: "after_subscribe i ops = Some (f, rest)"
  shows "prefix (wGot w i @ cbuf (hChans (wHub w) i)) (filter (filter_matches f) (published rest)) \<and>
    (i \<in> fst ` set (hSubs (wHub w)) \<longrightarrow>
       wGot w i @ cbuf (hChans (wHub w) i) = filter (filter_matches f) (published rest))"
proof -
  have ok: "sub_ok w i f rest" using hub_run_sub_ok [OF run] sub by blast
  have "\<exists>g. map_of (hSubs (wHub w)) i = Some g" if "i \<in> fst ` set (hSubs (wHub w))"
    using that by (metis domD dom_map_of_conv_image_fst)
  with ok show ?thesis by (auto simp: sub_ok_def Let_def)
qed

definition demo_event :: "string \<Rightarrow> Event" where
  "demo_event t = \<lparr>evType = t, evScope = ''device'', evSpaceId = [], evTarget = [], evData = [],
                   evSender = None\<rparr>"

theorem hub_delivery_witness:
  "\<exists>w. run_ops hub_step hub_world0
         [OpSubscribe \<lparr>scopes = [], spaceIds = [], types = [''process.*''], targets = []\<rparr>,
          OpPublish (demo_event ''ui.open''), OpPublish (demo_event ''process.done''), OpReceive 0,
          OpPublish (demo_event ''process'')] = Inr w \<and>
       wGot w 0 @ cbuf (hChans (wHub w) 0) = [demo_event ''process.done'', demo_event ''process'']"
proof -
  let ?f = "\<lparr>scopes = [], spaceIds = [], types = [''process.*''], targets = []\<rparr>"
  let ?rest = "[OpPublish (demo_event ''ui.open''), OpPublish (demo_event ''process.done''),
                OpReceive 0, OpPublish (demo_event ''process'')]"
  obtain w where w: "run_ops hub_step hub_world0 (OpSubscribe ?f # ?rest) = Inr w"
    using hub.run_safe by blast
  have sub: "after_subscribe 0 (OpSubscribe ?f # ?rest) = Some (?f, ?rest)" by simp
  have due: "filter (filter_matches ?f) (published ?rest) =
      [demo_event ''process.done'', demo_event ''process'']"
    by code_simp
  have m: "\<not> filter_matches ?f (demo_event ''ui.open'')"
    "filter_matches ?f (demo_event ''process.done'')" "filter_matches ?f (demo_event ''process'')"
    by code_simp+
  have "fst ` set (hSubs (wHub w)) = {0}"
    using w m by (simp add: hub_world0_def newEventHub_def subscribe_def fanout_def fanout_one_def
        eventSubBuffer_def receive_def Let_def) auto
  with hub_delivery [OF w sub] due w show ?thesis by auto
qed

end
