(* ===== verification/EventTopics.thy ===== *)
theory EventTopics
  imports EventHub
begin

text \<open>
  The mapping between events and pub/sub topics (src/internal/server/events\_topics.go) and the
  grammar of the event vocabulary (src/internal/server/handlers\_events.go): the topic an event is
  published on, the interest patterns a subscription's filter needs, and the maximal patterns
  the bridge subscribes.

  Patterns are matched by the pub/sub layer, which is not part of the repository;
  \<open>pattern_accepts\<close> states the meaning the sources document for it: \<open>*\<close> stands for
  exactly one segment and a final \<open>>\<close> for one or more.
\<close>

section \<open>Grammar\<close>

definition slugByte :: "char \<Rightarrow> bool" where
  "slugByte c \<longleftrightarrow> CHR ''a'' \<le> c \<and> c \<le> CHR ''z'' \<or> CHR ''0'' \<le> c \<and> c \<le> CHR ''9'' \<or> c = CHR ''_''"

definition targetByte :: "char \<Rightarrow> bool" where
  "targetByte c \<longleftrightarrow>
     CHR ''A'' \<le> c \<and> c \<le> CHR ''Z'' \<or> CHR ''a'' \<le> c \<and> c \<le> CHR ''z'' \<or>
     CHR ''0'' \<le> c \<and> c \<le> CHR ''9'' \<or> c \<in> set ''._-''"

text \<open>\<open>^[a-z0-9_]+(\.[a-z0-9_]+)*$\<close>: the dot-separated segments are slugs.\<close>

definition eventTypeRe :: "string \<Rightarrow> bool" where
  "eventTypeRe t \<longleftrightarrow> list_all (\<lambda>seg. seg \<noteq> [] \<and> list_all slugByte seg) (split_on CHR ''.'' t)"

text \<open>\<open>^[a-z0-9_]+(\.[a-z0-9_]+)*(\.\*)?$\<close>.\<close>

definition eventFilterRe :: "string \<Rightarrow> bool" where
  "eventFilterRe t \<longleftrightarrow>
     (case cut_suffix ''.*'' t of Some pre \<Rightarrow> eventTypeRe pre | None \<Rightarrow> eventTypeRe t)"

text \<open>\<open>^[A-Za-z0-9._-]{1,128}$\<close>.\<close>

definition eventTargetRe :: "string \<Rightarrow> bool" where
  "eventTargetRe t \<longleftrightarrow> 1 \<le> length t \<and> length t \<le> 128 \<and> list_all targetByte t"

section \<open>Topics and patterns\<close>

definition selfOwnedEventTypes :: "string list" where
  "selfOwnedEventTypes = [''editor.cursor'']"

definition eventTopicPrefix :: string where "eventTopicPrefix = ''ev/''"
definition eventAccTopicPrefix :: string where "eventAccTopicPrefix = ''acc/ev/''"

definition eventTopic :: "string \<Rightarrow> string \<Rightarrow> string \<Rightarrow> string" where
  "eventTopic typ target accountId =
     (let segs = replace_byte CHR ''.'' CHR ''/'' typ;
          tgt = (if target = [] then ''-'' else target)
      in if typ \<in> set selfOwnedEventTypes
         then eventAccTopicPrefix @ segs @ ''/'' @ tgt @ ''/'' @ accountId
         else eventTopicPrefix @ segs @ ''/'' @ tgt)"

text \<open>The patterns one entry of the type filter adds, in order.\<close>

definition entryPatterns :: "string list \<Rightarrow> string \<Rightarrow> string list" where
  "entryPatterns tgts t =
     (case cut_suffix ''.*'' t of
        Some pre \<Rightarrow>
          (let segs = replace_byte CHR ''.'' CHR ''/'' pre
           in (eventTopicPrefix @ segs @ ''/>'') #
              (if list_ex (typeFilterMatches t) selfOwnedEventTypes
               then [eventAccTopicPrefix @ segs @ ''/>''] else []))
      | None \<Rightarrow>
          (let segs = replace_byte CHR ''.'' CHR ''/'' t
           in if t \<in> set selfOwnedEventTypes then [eventAccTopicPrefix @ segs @ ''/>'']
              else if tgts = [] then [eventTopicPrefix @ segs @ ''/*'']
              else map (\<lambda>target. eventTopicPrefix @ segs @ ''/'' @ target) tgts))"

definition filterPatterns :: "eventFilter \<Rightarrow> string list" where
  "filterPatterns f =
     (if types f = [] then [eventTopicPrefix @ ''>'', eventAccTopicPrefix @ ''>'']
      else dedup_by id [] (concat (map (entryPatterns (targets f)) (types f))))"

text \<open>The loop of \<open>patternSubsumes\<close> over the segments of both patterns.\<close>

fun segsSubsume :: "string list \<Rightarrow> string list \<Rightarrow> bool" where
  "segsSubsume [] bs = (bs = [])"
| "segsSubsume (a # as) bs =
     (if a = ''>'' then bs \<noteq> []
      else (case bs of
              [] \<Rightarrow> False
            | b # bs' \<Rightarrow>
                (if a = ''*'' then (if b = ''>'' then False else segsSubsume as bs')
                 else if b \<noteq> a then False else segsSubsume as bs')))"

definition patternSubsumes :: "string \<Rightarrow> string \<Rightarrow> bool" where
  "patternSubsumes a b \<longleftrightarrow>
     (if a = b then True else segsSubsume (split_on CHR ''/'' a) (split_on CHR ''/'' b))"

text \<open>The keys of the interest map, in the order one iteration meets them.\<close>

definition maximalPatterns :: "string list \<Rightarrow> string list" where
  "maximalPatterns ps =
     sort (filter (\<lambda>p. \<not> list_ex (\<lambda>q. q \<noteq> p \<and> patternSubsumes q p) ps) ps)"

section \<open>What a pattern accepts\<close>

fun segs_accept :: "string list \<Rightarrow> string list \<Rightarrow> bool" where
  "segs_accept [] ts = (ts = [])"
| "segs_accept (p # ps) [] = False"
| "segs_accept (p # ps) (t # ts) =
     (p = ''>'' \<or> (p = ''*'' \<or> p = t) \<and> segs_accept ps ts)"

definition pattern_accepts :: "string \<Rightarrow> string \<Rightarrow> bool" where
  "pattern_accepts p topic \<longleftrightarrow> segs_accept (split_on CHR ''/'' p) (split_on CHR ''/'' topic)"

text \<open>
  The pattern family the filters generate: wildcards only as the final segment.
\<close>

definition final_wild :: "string list \<Rightarrow> bool" where
  "final_wild ps \<longleftrightarrow> list_all (\<lambda>p. p \<noteq> ''*'' \<and> p \<noteq> ''>'') (butlast ps)"

definition family_pattern :: "string \<Rightarrow> bool" where
  "family_pattern p \<longleftrightarrow> final_wild (split_on CHR ''/'' p)"

section \<open>Subsumption is inclusion\<close>

lemma segsSubsume_refl: "segsSubsume ps ps"
  by (induction ps) auto

lemma segsSubsume_sound: "segsSubsume as bs \<Longrightarrow> segs_accept bs ts \<Longrightarrow> segs_accept as ts"
proof (induction as bs arbitrary: ts rule: segsSubsume.induct)
  case (2 a as bs)
  then show ?case by (cases bs; cases ts) (auto split: if_splits)
qed auto

text \<open>Every pattern accepts a topic, whose segments hold no separator.\<close>

definition sample :: "string list \<Rightarrow> string list" where
  "sample ps = map (\<lambda>p. if p = ''*'' \<or> p = ''>'' then ''x'' else p) ps"

lemma segs_accept_sample: "segs_accept ps (sample ps)"
  by (induction ps) (auto simp: sample_def)

lemma sample_no_sep:
  "\<forall>p \<in> set ps. CHR ''/'' \<notin> set p \<Longrightarrow> \<forall>t \<in> set (sample ps). CHR ''/'' \<notin> set t"
  by (auto simp: sample_def)

lemma segsSubsume_complete:
  assumes "\<forall>p \<in> set bs. CHR ''/'' \<notin> set p"
    and "\<forall>ts. (\<forall>t \<in> set ts. CHR ''/'' \<notin> set t) \<longrightarrow> segs_accept bs ts \<longrightarrow> segs_accept as ts"
  shows "segsSubsume as bs"
  using assms
proof (induction as bs rule: segsSubsume.induct)
  case (1 bs)
  then have "segs_accept [] (sample bs)" using segs_accept_sample sample_no_sep by blast
  then show ?case by (simp add: sample_def)
next
  case (2 a as bs)
  show ?case
  proof (cases bs)
    case Nil
    with "2.prems"(2) have "segs_accept (a # as) []" by (metis empty_iff empty_set segs_accept.simps(1))
    then show ?thesis by simp
  next
    case (Cons b bs')
    define w where "w = (if b = ''*'' \<or> b = ''>'' then if a = ''x'' then ''y'' else ''x'' else b)"
    have w: "CHR ''/'' \<notin> set w" using "2.prems"(1) Cons by (auto simp: w_def)
    have acc: "a = ''>'' \<or> (a = ''*'' \<or> a = w) \<and> segs_accept as ts"
      if "\<forall>t \<in> set ts. CHR ''/'' \<notin> set t" "b = ''>'' \<or> segs_accept bs' ts" for ts
    proof -
      have "segs_accept bs (w # ts)" using that(2) Cons by (auto simp: w_def)
      then have "segs_accept (a # as) (w # ts)" using spec [OF "2.prems"(2), of "w # ts"] that(1) w by simp
      then show ?thesis by auto
    qed
    have sample: "\<forall>t \<in> set (sample bs'). CHR ''/'' \<notin> set t" "segs_accept bs' (sample bs')"
      using "2.prems"(1) Cons sample_no_sep segs_accept_sample by auto
    have bs': "\<forall>p \<in> set bs'. CHR ''/'' \<notin> set p" using "2.prems"(1) Cons by simp
    consider "a = ''>''" | "a \<noteq> ''>''" "a = ''*''" | "a \<noteq> ''>''" "a \<noteq> ''*''" "a = w"
      using acc [OF sample(1)] sample(2) by blast
    then show ?thesis
    proof cases
      case 1
      with Cons show ?thesis by simp
    next
      case 2
      have "b \<noteq> ''>''"
      proof
        assume "b = ''>''"
        with acc [of "[]"] acc [of "[w]"] 2 w show False by (cases as) auto
      qed
      with 2 "2.IH"(1) [OF 2(1) Cons 2(2) _ bs'] acc Cons show ?thesis by auto
    next
      case 3
      then have "a = b" by (auto simp: w_def split: if_splits)
      with 3 "2.IH"(2) [OF 3(1) Cons 3(2) _ bs'] acc Cons show ?thesis by auto
    qed
  qed
qed

lemma patternSubsumes_sound:
  "patternSubsumes a b \<Longrightarrow> pattern_accepts b topic \<Longrightarrow> pattern_accepts a topic"
  by (auto simp: patternSubsumes_def pattern_accepts_def split: if_splits
      intro: segsSubsume_sound)

lemma patternSubsumes_complete:
  assumes "\<forall>topic. pattern_accepts b topic \<longrightarrow> pattern_accepts a topic"
  shows "patternSubsumes a b"
proof -
  have "segs_accept (split_on CHR ''/'' a) ts"
    if ts: "\<forall>t \<in> set ts. CHR ''/'' \<notin> set t" "segs_accept (split_on CHR ''/'' b) ts" for ts
  proof -
    have "ts \<noteq> []" using ts(2) by (metis segs_accept.simps(2) split_on_not_Nil neq_Nil_conv)
    then have "split_on CHR ''/'' (join_with CHR ''/'' ts) = ts"
      using ts(1) by (rule split_on_join)
    with assms ts(2) show ?thesis by (metis pattern_accepts_def)
  qed
  then have "segsSubsume (split_on CHR ''/'' a) (split_on CHR ''/'' b)"
    by (intro segsSubsume_complete) (auto dest: split_on_no_sep)
  then show ?thesis by (simp add: patternSubsumes_def)
qed

text \<open>
  \<open>patternSubsumes\<close> decides inclusion: it answers true exactly when every topic the
  second pattern accepts is accepted by the first.
\<close>

theorem patternSubsumes_iff:
  "patternSubsumes a b \<longleftrightarrow> (\<forall>topic. pattern_accepts b topic \<longrightarrow> pattern_accepts a topic)"
  using patternSubsumes_sound patternSubsumes_complete by blast

theorem patternSubsumes_iff_witness:
  "patternSubsumes ''ev/process/>'' ''ev/process/progress/p1'' \<and>
   pattern_accepts ''ev/process/>'' ''ev/process/progress/p1''"
proof -
  have "patternSubsumes ''ev/process/>'' ''ev/process/progress/p1''" by code_simp
  moreover have "pattern_accepts ''ev/process/progress/p1'' ''ev/process/progress/p1''" by code_simp
  ultimately show ?thesis
    using patternSubsumes_iff [of "''ev/process/>''" "''ev/process/progress/p1''"] by blast
qed

section \<open>The maximal cover\<close>

lemma final_wild_Cons:
  "final_wild (p # ps) \<longleftrightarrow> ps = [] \<or> p \<noteq> ''*'' \<and> p \<noteq> ''>'' \<and> final_wild ps"
  by (simp add: final_wild_def)

text \<open>Two patterns of the family nest or are disjoint, and each language has one pattern.\<close>

lemma final_wild_nest:
  "final_wild as \<Longrightarrow> final_wild bs \<Longrightarrow> segs_accept as ts \<Longrightarrow> segs_accept bs ts \<Longrightarrow>
     segsSubsume as bs \<or> segsSubsume bs as"
proof (induction as ts arbitrary: bs rule: segs_accept.induct)
  case (1 ts)
  then show ?case by (cases bs) auto
next
  case (3 p ps t ts)
  then obtain b bs' where bs: "bs = b # bs'" by (cases bs) auto
  from "3.prems" bs have fw: "ps = [] \<or> final_wild ps" "bs' = [] \<or> final_wild bs'"
    by (auto simp: final_wild_Cons)
  have nil: "final_wild []" by (simp add: final_wild_def)
  show ?case
  proof (cases "p = ''>'' \<or> b = ''>''")
    case True
    then show ?thesis using bs by auto
  next
    case False
    with "3.prems" bs have acc: "segs_accept ps ts" "segs_accept bs' ts"
      "p = ''*'' \<or> p = t" "b = ''*'' \<or> b = t" by auto
    have IH: "segsSubsume ps bs' \<or> segsSubsume bs' ps"
      using "3.IH" [of bs'] False acc fw nil by blast
    show ?thesis
    proof (cases "p = ''*'' \<or> b = ''*''")
      case True
      then have "ps = [] \<or> bs' = []" using "3.prems"(1,2) bs by (auto simp: final_wild_Cons)
      then have "ts = []" using acc by auto
      then have "ps = []" "bs' = []" using acc by (cases ps; cases bs'; auto)+
      with True False bs show ?thesis by auto
    next
      case False
      with acc IH bs show ?thesis by auto
    qed
  qed
qed auto

lemma final_wild_antisym:
  "final_wild as \<Longrightarrow> final_wild bs \<Longrightarrow> segsSubsume as bs \<Longrightarrow> segsSubsume bs as \<Longrightarrow> as = bs"
proof (induction as arbitrary: bs)
  case Nil
  then show ?case by simp
next
  case (Cons a as)
  then obtain b bs' where bs: "bs = b # bs'" by (cases bs) (auto split: if_splits)
  with Cons.prems Cons.IH [of bs'] show ?case
    by (auto simp: final_wild_Cons final_wild_def split: if_splits)
qed

lemma split_on_inj: "split_on c s = split_on c t \<Longrightarrow> s = t"
  by (metis join_split_on)

lemma family_nest:
  assumes "family_pattern p" "family_pattern q" "pattern_accepts p topic" "pattern_accepts q topic"
  shows "patternSubsumes p q \<or> patternSubsumes q p"
  using final_wild_nest assms unfolding family_pattern_def pattern_accepts_def patternSubsumes_def
  by (metis (full_types))

lemma family_antisym:
  assumes "family_pattern p" "family_pattern q" "patternSubsumes p q" "patternSubsumes q p"
  shows "p = q"
proof (rule ccontr)
  assume "p \<noteq> q"
  with assms show False
    using final_wild_antisym split_on_inj unfolding family_pattern_def patternSubsumes_def by metis
qed

lemma patternSubsumes_trans:
  "patternSubsumes p q \<Longrightarrow> patternSubsumes q r \<Longrightarrow> patternSubsumes p r"
  using patternSubsumes_sound patternSubsumes_complete by meson

lemma set_maximalPatterns:
  "p \<in> set (maximalPatterns ps) \<longleftrightarrow>
     p \<in> set ps \<and> (\<forall>q \<in> set ps. patternSubsumes q p \<longrightarrow> q = p)"
  by (auto simp: maximalPatterns_def list_ex_iff)

lemma maximal_above:
  assumes fam: "\<forall>p \<in> set ps. family_pattern p" and "p \<in> set ps"
  shows "\<exists>m \<in> set (maximalPatterns ps). patternSubsumes m p"
  using assms(2)
proof (induction "card {q \<in> set ps. patternSubsumes q p}" arbitrary: p rule: less_induct)
  case less
  show ?case
  proof (cases "p \<in> set (maximalPatterns ps)")
    case True
    then show ?thesis by (auto simp: patternSubsumes_def)
  next
    case False
    then obtain q where q: "q \<in> set ps" "patternSubsumes q p" "q \<noteq> p"
      using less.prems by (auto simp: set_maximalPatterns)
    have "p \<notin> {r \<in> set ps. patternSubsumes r q}"
      using family_antisym fam q less.prems by blast
    moreover have "p \<in> {r \<in> set ps. patternSubsumes r p}"
      using less.prems by (simp add: patternSubsumes_def)
    ultimately have "{r \<in> set ps. patternSubsumes r q} \<subset> {r \<in> set ps. patternSubsumes r p}"
      using q(2) patternSubsumes_trans by blast
    then have "card {r \<in> set ps. patternSubsumes r q} < card {r \<in> set ps. patternSubsumes r p}"
      by (intro psubset_card_mono) auto
    from less.hyps [OF this q(1)] q(2) show ?thesis
      using patternSubsumes_trans by blast
  qed
qed

lemma exact_cover:
  assumes fam: "\<forall>p \<in> set ps. family_pattern p"
  shows "(\<exists>p \<in> set ps. pattern_accepts p topic) \<longleftrightarrow>
         (\<exists>!p. p \<in> set (maximalPatterns ps) \<and> pattern_accepts p topic)"
proof
  assume "\<exists>p \<in> set ps. pattern_accepts p topic"
  then obtain m where m: "m \<in> set (maximalPatterns ps)" "pattern_accepts m topic"
    using maximal_above [OF fam] patternSubsumes_sound by blast
  moreover have "q = m" if "q \<in> set (maximalPatterns ps)" "pattern_accepts q topic" for q
    using that m family_nest fam unfolding set_maximalPatterns by metis
  ultimately show "\<exists>!p. p \<in> set (maximalPatterns ps) \<and> pattern_accepts p topic" by blast
next
  assume "\<exists>!p. p \<in> set (maximalPatterns ps) \<and> pattern_accepts p topic"
  then show "\<exists>p \<in> set ps. pattern_accepts p topic"
    by (auto simp: set_maximalPatterns)
qed

text \<open>
  The bridge never hears a message twice and misses none: for interest patterns of the
  family the filters generate, a topic is accepted by some pattern exactly when it is accepted
  by one and only one of the maximal patterns the bridge subscribes.
\<close>

theorem maximalPatterns_exact_cover:
  assumes "\<forall>p \<in> set ps. family_pattern p"
  shows "(\<exists>p \<in> set ps. pattern_accepts p topic) \<longleftrightarrow>
         (\<exists>!p. p \<in> set (maximalPatterns ps) \<and> pattern_accepts p topic)"
  using assms by (rule exact_cover)

theorem maximalPatterns_exact_cover_witness:
  "list_all family_pattern [''ev/a/>'', ''ev/a/b/*'', ''ev/c/x''] \<and>
   (\<exists>!p. p \<in> set (maximalPatterns [''ev/a/>'', ''ev/a/b/*'', ''ev/c/x'']) \<and>
         pattern_accepts p ''ev/a/b/t'')"
proof -
  have fam: "\<forall>p \<in> set [''ev/a/>'', ''ev/a/b/*'', ''ev/c/x'']. family_pattern p" by code_simp
  have "\<exists>p \<in> set [''ev/a/>'', ''ev/a/b/*'', ''ev/c/x'']. pattern_accepts p ''ev/a/b/t''"
    by code_simp
  with maximalPatterns_exact_cover [OF fam, of "''ev/a/b/t''"] fam show ?thesis
    unfolding list_all_iff by blast
qed

section \<open>The patterns of a filter cover what it accepts\<close>

definition filter_valid :: "eventFilter \<Rightarrow> bool" where
  "filter_valid f \<longleftrightarrow> list_all eventFilterRe (types f) \<and> list_all eventTargetRe (targets f)"

definition event_valid :: "Event \<Rightarrow> bool" where
  "event_valid ev \<longleftrightarrow> eventTypeRe (evType ev) \<and> (evTarget ev = [] \<or> eventTargetRe (evTarget ev))"

lemma eventTypeRe_bytes: "eventTypeRe t \<Longrightarrow> c \<in> set t \<Longrightarrow> slugByte c \<or> c = CHR ''.''"
  using set_join_with [of "CHR ''.''" "split_on CHR ''.'' t"]
  by (auto simp: eventTypeRe_def join_split_on list_all_iff)

lemma eventTypeRe_no_slash: "eventTypeRe t \<Longrightarrow> CHR ''/'' \<notin> set t"
  by (auto simp: slugByte_def dest: eventTypeRe_bytes)

lemma eventTargetRe_no_slash: "eventTargetRe t \<Longrightarrow> CHR ''/'' \<notin> set t \<and> t \<noteq> []"
  by (auto simp: eventTargetRe_def targetByte_def list_all_iff)

lemma split_ev [simp]:
  "split_on CHR ''/'' (eventTopicPrefix @ s) = ''ev'' # split_on CHR ''/'' s"
  "split_on CHR ''/'' (eventAccTopicPrefix @ s) = ''acc'' # ''ev'' # split_on CHR ''/'' s"
  by (auto simp: eventTopicPrefix_def eventAccTopicPrefix_def)

lemma segs_accept_gt: "R \<noteq> [] \<Longrightarrow> segs_accept (S @ [''>'']) (S @ R)"
  by (induction S) (auto simp: neq_Nil_conv)

lemma segs_accept_same: "segs_accept ps ts \<Longrightarrow> segs_accept (S @ ps) (S @ ts)"
  by (induction S) auto

lemma topic_segs:
  assumes "eventTypeRe typ" "target = [] \<or> eventTargetRe target"
  shows "split_on CHR ''/'' (eventTopic typ target acc) =
    (let tgt = if target = [] then ''-'' else target
     in if typ \<in> set selfOwnedEventTypes
        then ''acc'' # ''ev'' # split_on CHR ''.'' typ @ tgt # split_on CHR ''/'' acc
        else ''ev'' # split_on CHR ''.'' typ @ [tgt])"
proof -
  define tgt where "tgt = (if target = [] then ''-'' else target)"
  have tgt: "CHR ''/'' \<notin> set tgt" using assms(2) eventTargetRe_no_slash by (auto simp: tgt_def)
  have ty: "split_on CHR ''/'' (replace_byte CHR ''.'' CHR ''/'' typ) = split_on CHR ''.'' typ"
    by (rule split_on_replace [OF eventTypeRe_no_slash [OF assms(1)]])
  show ?thesis using tgt ty
    by (simp add: eventTopic_def Let_def split_on_append_sep flip: tgt_def)
qed

lemma prefix_entry_segs:
  assumes "cut_suffix ''.*'' t = Some pre" "typeFilterMatches t typ"
  shows "\<exists>R. split_on CHR ''.'' typ = split_on CHR ''.'' pre @ R"
  using assms
  by (auto simp: typeFilterMatches_def has_prefix_iff split_on_append_sep)

lemma entryPatterns_cover:
  assumes t: "eventFilterRe t" "typeFilterMatches t typ"
    and ty: "eventTypeRe typ" and target: "target = [] \<or> eventTargetRe target"
    and tgts: "tgts = [] \<or> target \<in> set tgts \<and> eventTargetRe target"
  shows "\<exists>p \<in> set (entryPatterns tgts t). pattern_accepts p (eventTopic typ target acc)"
proof (cases "cut_suffix ''.*'' t")
  case (Some pre)
  then have pre: "split_on CHR ''/'' (replace_byte CHR ''.'' CHR ''/'' pre) = split_on CHR ''.'' pre"
    using t(1) by (intro split_on_replace) (auto simp: eventFilterRe_def dest: eventTypeRe_no_slash)
  obtain R where R: "split_on CHR ''.'' typ = split_on CHR ''.'' pre @ R"
    using prefix_entry_segs [OF Some t(2)] by blast
  let ?p = "replace_byte CHR ''.'' CHR ''/'' pre @ ''/>''"
  have p: "split_on CHR ''/'' ?p = split_on CHR ''.'' pre @ [''>'']"
    using pre by (simp add: split_on_append_sep)
  show ?thesis
  proof (cases "typ \<in> set selfOwnedEventTypes")
    case True
    then have "pattern_accepts (eventAccTopicPrefix @ ?p) (eventTopic typ target acc)"
      using segs_accept_gt [of "R @ _ # _" "split_on CHR ''.'' pre"]
      by (simp add: pattern_accepts_def topic_segs [OF ty target] R p Let_def)
    moreover have "list_ex (typeFilterMatches t) selfOwnedEventTypes"
      using True t(2) by (auto simp: list_ex_iff)
    ultimately show ?thesis using Some by (auto simp: entryPatterns_def Let_def)
  next
    case False
    then have "pattern_accepts (eventTopicPrefix @ ?p) (eventTopic typ target acc)"
      using segs_accept_gt [of "R @ [_]" "split_on CHR ''.'' pre"]
      by (simp add: pattern_accepts_def topic_segs [OF ty target] R p Let_def)
    then show ?thesis using Some by (auto simp: entryPatterns_def Let_def)
  qed
next
  case None
  with t(2) have eq: "t = typ" by (simp add: typeFilterMatches_def)
  have seg: "split_on CHR ''/'' (replace_byte CHR ''.'' CHR ''/'' typ) = split_on CHR ''.'' typ"
    by (rule split_on_replace [OF eventTypeRe_no_slash [OF ty]])
  show ?thesis
  proof (cases "typ \<in> set selfOwnedEventTypes")
    case True
    then show ?thesis using None eq seg segs_accept_gt [of "_ # _" "split_on CHR ''.'' typ"]
      by (simp add: entryPatterns_def Let_def pattern_accepts_def topic_segs [OF ty target]
          split_on_append_sep)
  next
    case False
    show ?thesis
    proof (cases "tgts = []")
      case True
      with False None eq seg segs_accept_same [of "[''*'']" "[_]" "split_on CHR ''.'' typ"]
      show ?thesis
        by (simp add: entryPatterns_def Let_def pattern_accepts_def topic_segs [OF ty target]
            split_on_append_sep)
    next
      case ne: False
      let ?p = "eventTopicPrefix @ replace_byte CHR ''.'' CHR ''/'' typ @ ''/'' @ target"
      have "target \<noteq> []" "CHR ''/'' \<notin> set target"
        using ne tgts eventTargetRe_no_slash by auto
      then have "pattern_accepts ?p (eventTopic typ target acc)"
        using False seg segs_accept_same [of "[target]" "[target]" "split_on CHR ''.'' typ"]
        by (simp add: pattern_accepts_def topic_segs [OF ty target] split_on_append_sep Let_def)
      moreover have "?p \<in> set (entryPatterns tgts t)"
        using False None eq ne tgts by (auto simp: entryPatterns_def Let_def)
      ultimately show ?thesis by blast
    qed
  qed
qed

lemma filter_covers:
  assumes f: "filter_valid f" and ev: "event_valid ev" and m: "filter_matches f ev"
  shows "\<exists>p \<in> set (filterPatterns f). pattern_accepts p (eventTopic (evType ev) (evTarget ev) acc)"
proof (cases "types f = []")
  case True
  have "pattern_accepts (eventTopicPrefix @ ''>'') (eventTopicPrefix @ x)"
    "pattern_accepts (eventAccTopicPrefix @ ''>'') (eventAccTopicPrefix @ x)" for x
    by (cases "split_on CHR ''/'' x"; simp add: pattern_accepts_def)+
  with True show ?thesis
    by (auto simp: filterPatterns_def eventTopic_def Let_def)
next
  case False
  with m obtain t where t: "t \<in> set (types f)" "typeFilterMatches t (evType ev)"
    by (auto simp: filter_matches_def list_ex_iff split: if_splits)
  have tgts: "targets f = [] \<or> evTarget ev \<in> set (targets f) \<and> eventTargetRe (evTarget ev)"
    using m f by (auto simp: filter_matches_def filter_valid_def list_all_iff split: if_splits)
  have "eventFilterRe t" using f t(1) by (auto simp: filter_valid_def list_all_iff)
  from entryPatterns_cover [OF this t(2) _ _ tgts, of acc] ev
  obtain p where "p \<in> set (entryPatterns (targets f) t)"
    "pattern_accepts p (eventTopic (evType ev) (evTarget ev) acc)"
    by (auto simp: event_valid_def)
  moreover have "set (filterPatterns f) = \<Union> (set ` entryPatterns (targets f) ` set (types f))"
    using False by (simp add: filterPatterns_def)
  ultimately show ?thesis using t(1) by auto
qed

text \<open>
  C4. A subscription's interest patterns never narrow its filter: whenever a valid filter accepts
  a valid event, one of the filter's patterns accepts the topic the event is published on, also
  for the self-owned types that live in the account namespace.
\<close>

theorem filterPatterns_cover:
  assumes "filter_valid f" "event_valid ev" "filter_matches f ev"
  shows "\<exists>p \<in> set (filterPatterns f). pattern_accepts p (eventTopic (evType ev) (evTarget ev) acc)"
  using assms by (rule filter_covers)

theorem filterPatterns_cover_witness:
  "\<exists>p \<in> set (filterPatterns \<lparr>scopes = [], spaceIds = [], types = [''editor.*''], targets = []\<rparr>).
     pattern_accepts p (eventTopic ''editor.cursor'' ''o1'' ''Acc'')"
proof -
  let ?f = "\<lparr>scopes = [], spaceIds = [], types = [''editor.*''], targets = []\<rparr>"
  let ?ev = "(demo_event ''editor.cursor'')\<lparr>evTarget := ''o1''\<rparr>"
  have 1: "filter_valid ?f" by code_simp
  have 2: "event_valid ?ev" by code_simp
  have 3: "filter_matches ?f ?ev" by code_simp
  show ?thesis using filterPatterns_cover [OF 1 2 3, of "''Acc''"] by (simp add: demo_event_def)
qed

end
