(* ===== verification/Processes.thy ===== *)
theory Processes
  imports EventTopics "HOL-Library.Product_Lexorder"
begin

text \<open>
  The live process view (src/internal/server/processes.go), its HTTP handlers
  (src/internal/server/handlers\_processes.go) and its wire types (src/internal/api/process.go).

  The registry is a map from (identity, id) to the last known row and the time it was last heard
  of; times are nanoseconds of the local clock, and each operation takes the readings of
  \<open>r.now()\<close> it makes as arguments. \<open>json.Unmarshal\<close> of an event's payload is the
  argument \<open>decode\<close> and \<open>json.Marshal\<close> the argument \<open>encode\<close>: the
  properties hold for every decoder, and the ones about re-applying an emitted frame ask that
  decoding undoes encoding.
\<close>

section \<open>Data\<close>

record ProcessError =
  peCode :: string
  peMessage :: string

record Process =
  pIdentity :: string
  pSelf :: bool
  pId :: string
  pKind :: string
  pTitle :: string
  pScope :: string
  pSpaceId :: string
  pTarget :: string
  pState :: string
  pDone :: int
  pTotal :: int
  pMessage :: string
  pError :: "ProcessError option"
  pStartedAt :: int
  pUpdatedAt :: int

definition ProcessStateRunning :: string where "ProcessStateRunning = ''running''"
definition ProcessStateDone :: string where "ProcessStateDone = ''done''"
definition ProcessStateFailed :: string where "ProcessStateFailed = ''failed''"
definition ProcessStateCancelled :: string where "ProcessStateCancelled = ''cancelled''"

lemmas state_defs = ProcessStateRunning_def ProcessStateDone_def ProcessStateFailed_def
  ProcessStateCancelled_def

definition EventProcessStarted :: string where "EventProcessStarted = ''process.started''"
definition EventProcessProgress :: string where "EventProcessProgress = ''process.progress''"
definition EventProcessDone :: string where "EventProcessDone = ''process.done''"
definition EventProcessFailed :: string where "EventProcessFailed = ''process.failed''"
definition EventProcessCancelled :: string where "EventProcessCancelled = ''process.cancelled''"
definition EventProcessCancel :: string where "EventProcessCancel = ''process.cancel''"

lemmas process_event_defs = EventProcessStarted_def EventProcessProgress_def EventProcessDone_def
  EventProcessFailed_def EventProcessCancelled_def EventProcessCancel_def

definition nanos_per_second :: int where "nanos_per_second = 1000000000"

definition processStaleTTL :: int where "processStaleTTL = 45 * nanos_per_second"
definition processTerminalTTL :: int where "processTerminalTTL = 60 * nanos_per_second"

definition processTitleMaxLen :: nat where "processTitleMaxLen = 256"
definition processMessageMaxLen :: nat where "processMessageMaxLen = 1024"

definition Unix :: "int \<Rightarrow> int" where
  "Unix t = t div nanos_per_second"

type_synonym processKey = "string \<times> string"

record processEntry =
  proc :: Process
  seen :: int

type_synonym processRegistry = "(processKey \<times> processEntry) list"

text \<open>
  The payload of a state event: as this server emits it and as it decodes one, where an absent
  counter or message is distinguishable.
\<close>

record processEventData =
  oKind :: string
  oTitle :: string
  oTarget :: string
  oDone :: int
  oTotal :: int
  oMessage :: string
  oError :: "ProcessError option"

record processEventDataIn =
  dKind :: string
  dTitle :: string
  dTarget :: string
  dDone :: "int option"
  dTotal :: "int option"
  dMessage :: "string option"
  dError :: "ProcessError option"

section \<open>The registry\<close>

text \<open>\<open>utf8.RuneStart\<close>: any byte that is not a continuation byte.\<close>

definition RuneStart :: "char \<Rightarrow> bool" where
  "RuneStart c \<longleftrightarrow> \<not> (128 \<le> (of_char c :: nat) \<and> (of_char c :: nat) < 192)"

fun clip_back :: "string \<Rightarrow> nat \<Rightarrow> nat" where
  "clip_back s 0 = 0"
| "clip_back s (Suc m) = (if RuneStart (s ! Suc m) then Suc m else clip_back s m)"

definition clipUTF8 :: "string \<Rightarrow> nat \<Rightarrow> string" where
  "clipUTF8 s mx = (if length s \<le> mx then s else take (clip_back s mx) s)"

definition expired :: "processEntry \<Rightarrow> int \<Rightarrow> bool" where
  "expired e t \<longleftrightarrow>
     (let ttl = (if pState (proc e) \<noteq> ProcessStateRunning then processTerminalTTL else processStaleTTL)
      in t - seen e > ttl)"

definition sweepLocked :: "int \<Rightarrow> processRegistry \<Rightarrow> processRegistry" where
  "sweepLocked now r = filter (\<lambda>(key, e). \<not> expired e now) r"

definition state_of_type :: "string \<Rightarrow> string option" where
  "state_of_type typ =
     (if typ = EventProcessStarted \<or> typ = EventProcessProgress then Some ProcessStateRunning
      else if typ = EventProcessDone then Some ProcessStateDone
      else if typ = EventProcessFailed then Some ProcessStateFailed
      else if typ = EventProcessCancelled then Some ProcessStateCancelled
      else None)"

definition sanitize :: "processEventDataIn \<Rightarrow> processEventDataIn" where
  "sanitize d =
     d\<lparr>dKind := (if dKind d \<noteq> [] \<and> \<not> eventTargetRe (dKind d) then [] else dKind d),
       dTarget := (if dTarget d \<noteq> [] \<and> \<not> eventTargetRe (dTarget d) then [] else dTarget d),
       dTitle := clipUTF8 (dTitle d) processTitleMaxLen,
       dMessage := map_option (\<lambda>m. clipUTF8 m processMessageMaxLen) (dMessage d),
       dError := map_option (\<lambda>e. e\<lparr>peMessage := clipUTF8 (peMessage e) processMessageMaxLen\<rparr>)
                   (dError d)\<rparr>"

definition new_proc :: "EventSender \<Rightarrow> string \<Rightarrow> int \<Rightarrow> Process" where
  "new_proc sndr target now =
     \<lparr>pIdentity = sndIdentity sndr, pSelf = sndSelf sndr, pId = target, pKind = [], pTitle = [],
      pScope = [], pSpaceId = [], pTarget = [], pState = [], pDone = 0, pTotal = 0,
      pMessage = [], pError = None, pStartedAt = Unix now, pUpdatedAt = 0\<rparr>"

definition fold_event :: "Event \<Rightarrow> string \<Rightarrow> processEventDataIn \<Rightarrow> int \<Rightarrow> Process \<Rightarrow> Process" where
  "fold_event ev state d now p =
     p\<lparr>pScope := evScope ev,
       pSpaceId := evSpaceId ev,
       pState := state,
       pKind := (if dKind d \<noteq> [] then dKind d else pKind p),
       pTitle := (if dTitle d \<noteq> [] then dTitle d else pTitle p),
       pTarget := (if dTarget d \<noteq> [] then dTarget d else pTarget p),
       pDone := (case dDone d of Some n \<Rightarrow> max 0 n | None \<Rightarrow> pDone p),
       pTotal := (case dTotal d of Some n \<Rightarrow> max 0 n | None \<Rightarrow> pTotal p),
       pMessage := (case dMessage d of Some m \<Rightarrow> m | None \<Rightarrow> pMessage p),
       pError := (if evType ev = EventProcessFailed then dError d else None),
       pUpdatedAt := Unix now\<rparr>"

definition process_apply ::
  "(string \<Rightarrow> processEventDataIn) \<Rightarrow> int \<Rightarrow> Event \<Rightarrow> processRegistry \<Rightarrow> processRegistry" where
  "process_apply decode now ev r =
     (case state_of_type (evType ev) of
        None \<Rightarrow> r
      | Some state \<Rightarrow>
          (case evSender ev of
             None \<Rightarrow> r
           | Some sndr \<Rightarrow>
               if evTarget ev = [] then r
               else
                 let d = sanitize (decode (evData ev));
                     key = (sndIdentity sndr, evTarget ev);
                     p = (case map_of r key of
                            None \<Rightarrow> new_proc sndr (evTarget ev) now
                          | Some e \<Rightarrow> if evType ev = EventProcessStarted
                                      then new_proc sndr (evTarget ev) now else proc e)
                 in sweepLocked now
                      (AList.update key \<lparr>proc = fold_event ev state d now p, seen = now\<rparr> r)))"

definition process_list :: "int \<Rightarrow> processRegistry \<Rightarrow> Process list \<times> processRegistry" where
  "process_list now r =
     (let r' = sweepLocked now r
      in (sort_key (\<lambda>p. (pStartedAt p, pIdentity p, pId p)) (map (\<lambda>(k, e). proc e) r'), r'))"

definition process_get :: "int \<Rightarrow> string \<Rightarrow> string \<Rightarrow> processRegistry \<Rightarrow> Process option" where
  "process_get now identity pid r =
     (case map_of r (identity, pid) of
        None \<Rightarrow> None
      | Some e \<Rightarrow> if expired e now then None else Some (proc e))"

definition process_byId :: "int \<Rightarrow> string \<Rightarrow> processRegistry \<Rightarrow> Process list" where
  "process_byId now pid r =
     sort_key pIdentity
       (map (\<lambda>(k, e). proc e) (filter (\<lambda>(k, e). snd k = pid \<and> \<not> expired e now) r))"

text \<open>\<open>mergeOwn\<close> reads the clock twice: for the expiry check and for the new stamp.\<close>

definition mergeOwn ::
  "int \<Rightarrow> int \<Rightarrow> string \<Rightarrow> string \<Rightarrow> int option \<Rightarrow> int option \<Rightarrow> string option \<Rightarrow>
   processRegistry \<Rightarrow> Process option \<times> processRegistry" where
  "mergeOwn now1 now2 identity pid done tot msg r =
     (case map_of r (identity, pid) of
        None \<Rightarrow> (None, r)
      | Some e \<Rightarrow>
          if expired e now1 then (None, r)
          else
            let p = proc e;
                p' = p\<lparr>pDone := (case done of Some n \<Rightarrow> max 0 n | None \<Rightarrow> pDone p),
                       pTotal := (case tot of Some n \<Rightarrow> max 0 n | None \<Rightarrow> pTotal p),
                       pMessage := (case msg of Some m \<Rightarrow> m | None \<Rightarrow> pMessage p),
                       pState := ProcessStateRunning,
                       pError := None,
                       pUpdatedAt := Unix now2\<rparr>
            in (Some p', AList.update (identity, pid) \<lparr>proc = p', seen = now2\<rparr> r))"

definition process_reset :: "processRegistry \<Rightarrow> processRegistry" where
  "process_reset r = []"

section \<open>The HTTP handlers\<close>

text \<open>
  A handler answers an error envelope (status and code) or hands one event to the scope dispatch.
  \<open>account\<close> is the identity of this account.
\<close>

datatype api_error = ApiError nat string

definition validateEventScope :: "string \<Rightarrow> string \<Rightarrow> api_error option" where
  "validateEventScope scope spaceId =
     (if scope = EventScopeDevice \<or> scope = EventScopeAccount \<or> scope = EventScopeSpace then
        (if scope = EventScopeSpace \<and> spaceId = []
         then Some (ApiError 400 ''request.missing_field'')
         else if scope \<noteq> EventScopeSpace \<and> spaceId \<noteq> []
         then Some (ApiError 400 ''request.invalid_field'')
         else None)
      else if scope = [] then Some (ApiError 400 ''request.missing_field'')
      else Some (ApiError 400 ''request.invalid_field''))"

definition validTargetToken :: "string \<Rightarrow> api_error option" where
  "validTargetToken v = (if eventTargetRe v then None else Some (ApiError 400 ''request.invalid_field''))"

definition emitProcess ::
  "('d \<Rightarrow> string) \<Rightarrow> string \<Rightarrow> string \<Rightarrow> string \<Rightarrow> string \<Rightarrow> string \<Rightarrow> 'd \<Rightarrow> Event" where
  "emitProcess encode account typ scope spaceId pid data =
     \<lparr>evType = typ, evScope = scope, evSpaceId = spaceId, evTarget = pid, evData = encode data,
      evSender = Some \<lparr>sndIdentity = account, sndSelf = True\<rparr>\<rparr>"

record ProcessRegisterRequest =
  rrId :: string
  rrKind :: string
  rrTitle :: string
  rrScope :: string
  rrSpaceId :: string
  rrTarget :: string

definition processRegister ::
  "(processEventData \<Rightarrow> string) \<Rightarrow> string \<Rightarrow> ProcessRegisterRequest \<Rightarrow> api_error + Event" where
  "processRegister encode account req =
     (if rrId req = [] then Inl (ApiError 400 ''request.missing_field'')
      else case validTargetToken (rrId req) of Some e \<Rightarrow> Inl e | None \<Rightarrow>
      if rrKind req = [] then Inl (ApiError 400 ''request.missing_field'')
      else case validTargetToken (rrKind req) of Some e \<Rightarrow> Inl e | None \<Rightarrow>
      if rrTitle req = [] then Inl (ApiError 400 ''request.missing_field'')
      else if length (rrTitle req) > processTitleMaxLen
      then Inl (ApiError 400 ''request.invalid_field'')
      else case validateEventScope (rrScope req) (rrSpaceId req) of Some e \<Rightarrow> Inl e | None \<Rightarrow>
      case (if rrTarget req \<noteq> [] then validTargetToken (rrTarget req) else None) of
        Some e \<Rightarrow> Inl e
      | None \<Rightarrow>
          Inr (emitProcess encode account EventProcessStarted (rrScope req) (rrSpaceId req)
                 (rrId req)
                 \<lparr>oKind = rrKind req, oTitle = rrTitle req, oTarget = rrTarget req, oDone = 0,
                  oTotal = 0, oMessage = [], oError = None\<rparr>))"

definition frame_of :: "Process \<Rightarrow> ProcessError option \<Rightarrow> processEventData" where
  "frame_of p err =
     \<lparr>oKind = pKind p, oTitle = pTitle p, oTarget = pTarget p, oDone = pDone p, oTotal = pTotal p,
      oMessage = pMessage p, oError = err\<rparr>"

record ProcessProgressRequest =
  prDone :: "int option"
  prTotal :: "int option"
  prMessage :: "string option"

definition negative :: "int option \<Rightarrow> bool" where
  "negative v = (case v of None \<Rightarrow> False | Some n \<Rightarrow> n < 0)"

definition processProgress ::
  "(processEventData \<Rightarrow> string) \<Rightarrow> int \<Rightarrow> int \<Rightarrow> string \<Rightarrow> string \<Rightarrow> ProcessProgressRequest \<Rightarrow>
   processRegistry \<Rightarrow> (api_error + Event) \<times> processRegistry" where
  "processProgress encode now1 now2 account pid req r =
     (if negative (prDone req) \<or> negative (prTotal req)
      then (Inl (ApiError 400 ''request.invalid_field''), r)
      else if (case prMessage req of None \<Rightarrow> False | Some m \<Rightarrow> length m > processMessageMaxLen)
      then (Inl (ApiError 400 ''request.invalid_field''), r)
      else case validTargetToken pid of Some e \<Rightarrow> (Inl e, r) | None \<Rightarrow>
      case mergeOwn now1 now2 account pid (prDone req) (prTotal req) (prMessage req) r of
        (None, r') \<Rightarrow> (Inl (ApiError 404 ''process.not_found''), r')
      | (Some p, r') \<Rightarrow>
          (Inr (emitProcess encode account EventProcessProgress (pScope p) (pSpaceId p) (pId p)
                  (frame_of p None)), r'))"

record ProcessFinishRequest =
  pfStatus :: string
  pfError :: "ProcessError option"

definition ownProcess :: "int \<Rightarrow> string \<Rightarrow> string \<Rightarrow> processRegistry \<Rightarrow> api_error + Process" where
  "ownProcess now account pid r =
     (case validTargetToken pid of
        Some e \<Rightarrow> Inl e
      | None \<Rightarrow> (case process_get now account pid r of
                    None \<Rightarrow> Inl (ApiError 404 ''process.not_found'')
                  | Some p \<Rightarrow> Inr p))"

definition finish_type :: "string \<Rightarrow> api_error + string" where
  "finish_type status =
     (if status = ProcessStateDone then Inr EventProcessDone
      else if status = ProcessStateFailed then Inr EventProcessFailed
      else if status = ProcessStateCancelled then Inr EventProcessCancelled
      else if status = [] then Inl (ApiError 400 ''request.missing_field'')
      else Inl (ApiError 400 ''request.invalid_field''))"

definition processFinish ::
  "(processEventData \<Rightarrow> string) \<Rightarrow> int \<Rightarrow> string \<Rightarrow> string \<Rightarrow> ProcessFinishRequest \<Rightarrow>
   processRegistry \<Rightarrow> api_error + Event" where
  "processFinish encode now account pid req r =
     (case finish_type (pfStatus req) of
        Inl e \<Rightarrow> Inl e
      | Inr typ \<Rightarrow>
          if pfStatus req = ProcessStateFailed \<and>
             (case pfError req of None \<Rightarrow> True | Some e \<Rightarrow> peMessage e = [])
          then Inl (ApiError 400 ''request.missing_field'')
          else if pfStatus req \<noteq> ProcessStateFailed \<and> pfError req \<noteq> None
          then Inl (ApiError 400 ''request.invalid_field'')
          else if (case pfError req of None \<Rightarrow> False
                   | Some e \<Rightarrow> length (peMessage e) > processMessageMaxLen)
          then Inl (ApiError 400 ''request.invalid_field'')
          else (case ownProcess now account pid r of
                  Inl e \<Rightarrow> Inl e
                | Inr p \<Rightarrow>
                    Inr (emitProcess encode account typ (pScope p) (pSpaceId p) (pId p)
                           (frame_of p (pfError req)))))"

text \<open>The payload of a cancel directive is the identity it is addressed to.\<close>

definition processCancel ::
  "(string \<Rightarrow> string) \<Rightarrow> int \<Rightarrow> string \<Rightarrow> string \<Rightarrow> string \<Rightarrow> processRegistry \<Rightarrow> api_error + Event" where
  "processCancel encode now account pid identity r =
     (case validTargetToken pid of
        Some e \<Rightarrow> Inl e
      | None \<Rightarrow>
          let target = (if identity \<noteq> [] then
                (case process_get now identity pid r of
                   None \<Rightarrow> Inl (ApiError 404 ''process.not_found'')
                 | Some p \<Rightarrow> Inr p)
              else (case process_byId now pid r of
                      [] \<Rightarrow> Inl (ApiError 404 ''process.not_found'')
                    | [p] \<Rightarrow> Inr p
                    | _ \<Rightarrow> Inl (ApiError 409 ''process.ambiguous'')))
          in case target of
               Inl e \<Rightarrow> Inl e
             | Inr p \<Rightarrow>
                 Inr (emitProcess encode account EventProcessCancel (pScope p) (pSpaceId p) (pId p)
                        (pIdentity p)))"

section \<open>Well-formed views\<close>

definition row_ok :: "Process \<Rightarrow> bool" where
  "row_ok p \<longleftrightarrow>
     0 \<le> pDone p \<and> 0 \<le> pTotal p \<and>
     (pKind p = [] \<or> eventTargetRe (pKind p)) \<and> (pTarget p = [] \<or> eventTargetRe (pTarget p)) \<and>
     length (pTitle p) \<le> processTitleMaxLen \<and> length (pMessage p) \<le> processMessageMaxLen \<and>
     pState p \<in> {ProcessStateRunning, ProcessStateDone, ProcessStateFailed, ProcessStateCancelled} \<and>
     (case pError p of None \<Rightarrow> True
      | Some e \<Rightarrow> pState p = ProcessStateFailed \<and> length (peMessage e) \<le> processMessageMaxLen)"

definition reg_inv :: "processRegistry \<Rightarrow> bool" where
  "reg_inv r \<longleftrightarrow> distinct (map fst r) \<and>
     list_all (\<lambda>(k, e). k = (pIdentity (proc e), pId (proc e)) \<and> row_ok (proc e)) r"

lemma clip_back_le: "clip_back s m \<le> m"
  by (induction m) auto

lemma clipUTF8_le: "length (clipUTF8 s mx) \<le> mx"
  using clip_back_le [of s mx] by (auto simp: clipUTF8_def)

lemma clipUTF8_short [simp]: "length s \<le> mx \<Longrightarrow> clipUTF8 s mx = s"
  by (simp add: clipUTF8_def)

lemma reg_inv_distinct: "reg_inv r \<Longrightarrow> distinct (map fst r)"
  by (simp add: reg_inv_def)

lemma reg_inv_lookup:
  "reg_inv r \<Longrightarrow> map_of r k = Some e \<Longrightarrow> k = (pIdentity (proc e), pId (proc e)) \<and> row_ok (proc e)"
  by (auto simp: reg_inv_def list_all_iff dest!: map_of_SomeD)

lemma reg_inv_update:
  "reg_inv r \<Longrightarrow> k = (pIdentity (proc e), pId (proc e)) \<Longrightarrow> row_ok (proc e) \<Longrightarrow>
     reg_inv (AList.update k e r)"
  using set_update_subset [of k e r]
  by (auto simp: reg_inv_def list_all_iff distinct_update)

lemma reg_inv_sweep: "reg_inv r \<Longrightarrow> reg_inv (sweepLocked now r)"
  by (auto simp: reg_inv_def sweepLocked_def list_all_iff intro: distinct_map_filter)

lemma map_of_sweep:
  "distinct (map fst r) \<Longrightarrow> map_of (sweepLocked now r) k =
     (case map_of r k of None \<Rightarrow> None | Some e \<Rightarrow> if expired e now then None else Some e)"
  by (simp add: sweepLocked_def map_of_filter_distinct split: option.split)

lemma fold_event_key [simp]:
  "pIdentity (fold_event ev st d now p) = pIdentity p" "pId (fold_event ev st d now p) = pId p"
  by (simp_all add: fold_event_def)

lemma new_proc_key [simp]:
  "pIdentity (new_proc sndr target now) = sndIdentity sndr" "pId (new_proc sndr target now) = target"
  by (simp_all add: new_proc_def)

lemma fold_event_ok:
  assumes st: "state_of_type (evType ev) = Some st"
    and p: "row_ok p \<or> p = new_proc sndr target t"
  shows "row_ok (fold_event ev st (sanitize d) now p)"
proof -
  have "st \<in> {ProcessStateRunning, ProcessStateDone, ProcessStateFailed, ProcessStateCancelled}"
    "evType ev = EventProcessFailed \<longrightarrow> st = ProcessStateFailed"
    using st by (auto simp: state_of_type_def process_event_defs split: if_splits)
  moreover have "0 \<le> pDone p" "0 \<le> pTotal p" "pKind p = [] \<or> eventTargetRe (pKind p)"
    "pTarget p = [] \<or> eventTargetRe (pTarget p)" "length (pTitle p) \<le> processTitleMaxLen"
    "length (pMessage p) \<le> processMessageMaxLen"
    using p by (auto simp: row_ok_def new_proc_def)
  ultimately show ?thesis
    unfolding row_ok_def fold_event_def sanitize_def
    by (intro conjI) (simp_all add: clipUTF8_le split: option.split)
qed

lemma process_apply_inv: "reg_inv r \<Longrightarrow> reg_inv (process_apply decode now ev r)"
  by (auto simp: process_apply_def Let_def split: option.splits
      intro!: reg_inv_sweep reg_inv_update fold_event_ok dest: reg_inv_lookup)

lemma mergeOwn_inv:
  assumes r: "reg_inv r" and m: "\<forall>m. msg = Some m \<longrightarrow> length m \<le> processMessageMaxLen"
  shows "reg_inv (snd (mergeOwn now1 now2 identity pid dn tot msg r))"
proof (cases "map_of r (identity, pid)")
  case (Some e)
  note e = reg_inv_lookup [OF r Some]
  define p where "p = (proc e)\<lparr>pDone := (case dn of Some n \<Rightarrow> max 0 n | None \<Rightarrow> pDone (proc e)),
      pTotal := (case tot of Some n \<Rightarrow> max 0 n | None \<Rightarrow> pTotal (proc e)),
      pMessage := (case msg of Some m \<Rightarrow> m | None \<Rightarrow> pMessage (proc e)),
      pState := ProcessStateRunning, pError := None, pUpdatedAt := Unix now2\<rparr>"
  have "row_ok p" using e m unfolding row_ok_def p_def
    by (intro conjI) (simp_all split: option.split)
  moreover have "pIdentity p = identity" "pId p = pid" using e by (simp_all add: p_def)
  ultimately have "reg_inv (AList.update (identity, pid) \<lparr>proc = p, seen = now2\<rparr> r)"
    by (intro reg_inv_update [OF r]) simp_all
  with Some r show ?thesis by (simp add: mergeOwn_def Let_def p_def)
qed (simp add: mergeOwn_def r)

lemma processProgress_inv:
  assumes "reg_inv r"
  shows "reg_inv (snd (processProgress encode now1 now2 account pid req r))"
proof -
  have "reg_inv (snd (mergeOwn now1 now2 account pid (prDone req) (prTotal req) (prMessage req) r))"
    if "\<not> (case prMessage req of None \<Rightarrow> False | Some m \<Rightarrow> length m > processMessageMaxLen)"
    using that by (intro mergeOwn_inv [OF assms]) (auto split: option.splits)
  then show ?thesis using assms
    by (auto simp: processProgress_def split: option.splits prod.splits)
qed

section \<open>The bus and the view together\<close>

text \<open>
  The hub with the registry's \<open>apply\<close> as its tap, under any interleaving of subscriptions,
  publishes, receives, progress reports, listings and account resets.
\<close>

interpretation view_tap: hub_tap "process_apply decode now" reg_inv for decode now
  by unfold_locales (rule process_apply_inv)

datatype bus_op =
    BusSubscribe eventFilter
  | BusUnsubscribe nat
  | BusPublish int Event
  | BusReceive nat
  | BusProgress int int string string ProcessProgressRequest
  | BusList int
  | BusReset

fun bus_step ::
  "(string \<Rightarrow> processEventDataIn) \<Rightarrow> (processEventData \<Rightarrow> string) \<Rightarrow>
   eventHub \<times> processRegistry \<Rightarrow> bus_op \<Rightarrow> hub_panic + eventHub \<times> processRegistry" where
  "bus_step decode encode (h, r) (BusSubscribe f) = Inr (snd (subscribe f h), r)"
| "bus_step decode encode (h, r) (BusUnsubscribe i) =
     (case unsubscribe i h of Inl p \<Rightarrow> Inl p | Inr h' \<Rightarrow> Inr (h', r))"
| "bus_step decode encode (h, r) (BusPublish now ev) =
     (case publish [process_apply decode now] ev (h, r) of Inl p \<Rightarrow> Inl p | Inr (st, n) \<Rightarrow> Inr st)"
| "bus_step decode encode (h, r) (BusReceive i) = Inr (snd (receive i h), r)"
| "bus_step decode encode (h, r) (BusProgress now1 now2 account pid req) =
     Inr (h, snd (processProgress encode now1 now2 account pid req r))"
| "bus_step decode encode (h, r) (BusList now) = Inr (h, snd (process_list now r))"
| "bus_step decode encode (h, r) BusReset = Inr (h, process_reset r)"

lemma bus_step_safe:
  assumes "hub_inv h" "reg_inv r"
  shows "\<exists>h' r'. bus_step decode encode (h, r) op = Inr (h', r') \<and> hub_inv h' \<and> reg_inv r'"
proof (cases op)
  case (BusSubscribe f)
  then show ?thesis using assms hub_inv_subscribe by auto
next
  case (BusUnsubscribe i)
  then show ?thesis using assms hub_inv_unsubscribe [OF assms(1), of i] by auto
next
  case (BusPublish now ev)
  then show ?thesis using view_tap.publish_keeps [OF assms, of decode now ev] by auto
next
  case (BusReceive i)
  then show ?thesis using assms hub_inv_receive by auto
next
  case (BusProgress n1 n2 account pid req)
  then show ?thesis using assms processProgress_inv by auto
next
  case (BusList now)
  then show ?thesis using assms reg_inv_sweep by (auto simp: process_list_def Let_def)
next
  case BusReset
  then show ?thesis using assms by (auto simp: process_reset_def reg_inv_def)
qed

interpretation bus: safe_machine "bus_step decode encode" "(newEventHub, [])"
  "\<lambda>(h, r). hub_inv h \<and> reg_inv r" for decode encode
proof unfold_locales
  show "case (newEventHub, []) of (h, r) \<Rightarrow> hub_inv h \<and> reg_inv r"
    by (simp add: hub_inv_new reg_inv_def)
next
  fix s :: "eventHub \<times> processRegistry" and op
  assume "case s of (h, r) \<Rightarrow> hub_inv h \<and> reg_inv r"
  then show "\<exists>s'. bus_step decode encode s op = Inr s' \<and> (case s' of (h, r) \<Rightarrow> hub_inv h \<and> reg_inv r)"
    using bus_step_safe [of "fst s" "snd s" decode encode op] by (cases s) auto
qed

text \<open>A failed event of a peer, with an error of any code.\<close>

definition failed_event :: "string \<Rightarrow> string \<Rightarrow> Event" where
  "failed_event peer pid =
     \<lparr>evType = EventProcessFailed, evScope = EventScopeAccount, evSpaceId = [], evTarget = pid,
      evData = [], evSender = Some \<lparr>sndIdentity = peer, sndSelf = False\<rparr>\<rparr>"

definition failed_data :: "string \<Rightarrow> processEventDataIn" where
  "failed_data code =
     \<lparr>dKind = [], dTitle = [], dTarget = [], dDone = None, dTotal = None, dMessage = None,
      dError = Some \<lparr>peCode = code, peMessage = []\<rparr>\<rparr>"

lemma error_code_kept:
  "pid \<noteq> [] \<Longrightarrow>
     map_option pError (process_get now peer pid
       (process_apply (\<lambda>_. failed_data code) now (failed_event peer pid) [])) =
     Some (Some \<lparr>peCode = code, peMessage = []\<rparr>)"
  by (simp add: process_apply_def failed_event_def failed_data_def state_of_type_def
      process_event_defs Let_def sanitize_def fold_event_def new_proc_def process_get_def
      sweepLocked_def expired_def processTerminalTTL_def processStaleTTL_def nanos_per_second_def)

text \<open>
  C9. Whatever members of a space broadcast and owners report, in any order, the bus does not
  panic and the process view stays well formed: one row per (identity, id), filed under its own
  identity and id, with non-negative counters, a title, a message and an error message of bounded
  length, token-shaped kind and target, one of the four states, and an error only on a failed row.
  The code of an error is not bounded: a failed event of a peer files whatever code it carries,
  where the comment in \<open>apply\<close> says nothing oversized may enter the view.
\<close>

theorem process_view_wellformed:
  "(\<exists>h r. run_ops (bus_step decode encode) (newEventHub, []) ops = Inr (h, r) \<and> reg_inv r) \<and>
   map_option pError (process_get now peer (CHR ''p'' # pid)
     (process_apply (\<lambda>_. failed_data code) now (failed_event peer (CHR ''p'' # pid)) [])) =
     Some (Some \<lparr>peCode = code, peMessage = []\<rparr>)"
  using bus.run_safe [of decode encode ops] error_code_kept [of "CHR ''p'' # pid"] by auto

section \<open>Lookups after an event\<close>

lemma expired_mono: "expired e t \<Longrightarrow> t \<le> t' \<Longrightarrow> expired e t'"
  by (auto simp: expired_def Let_def)

lemma get_update_other [simp]:
  "k \<noteq> (identity, pid) \<Longrightarrow>
     process_get now identity pid (AList.update k e r) = process_get now identity pid r"
  by (simp add: process_get_def update_conv)

lemma get_update_same [simp]:
  "process_get now identity pid (AList.update (identity, pid) e r) =
     (if expired e now then None else Some (proc e))"
  by (simp add: process_get_def update_conv)

lemma get_sweep [simp]:
  "distinct (map fst r) \<Longrightarrow> now \<le> now' \<Longrightarrow>
     process_get now' identity pid (sweepLocked now r) = process_get now' identity pid r"
  by (auto simp: process_get_def map_of_sweep split: option.split dest: expired_mono)

text \<open>The row an event leaves under its key, before expiry.\<close>

definition row_after ::
  "(string \<Rightarrow> processEventDataIn) \<Rightarrow> int \<Rightarrow> Event \<Rightarrow> EventSender \<Rightarrow> string \<Rightarrow> processRegistry \<Rightarrow> Process" where
  "row_after decode now ev sndr st r =
     fold_event ev st (sanitize (decode (evData ev))) now
       (case map_of r (sndIdentity sndr, evTarget ev) of
          None \<Rightarrow> new_proc sndr (evTarget ev) now
        | Some e \<Rightarrow> if evType ev = EventProcessStarted then new_proc sndr (evTarget ev) now else proc e)"

lemma process_apply_state_event:
  assumes "state_of_type (evType ev) = Some st" "evSender ev = Some sndr" "evTarget ev \<noteq> []"
  shows "process_apply decode now ev r =
    sweepLocked now (AList.update (sndIdentity sndr, evTarget ev)
      \<lparr>proc = row_after decode now ev sndr st r, seen = now\<rparr> r)"
  using assms by (simp add: process_apply_def row_after_def Let_def)

lemma get_apply:
  assumes "reg_inv r" "now \<le> now'"
    and "state_of_type (evType ev) = Some st" "evSender ev = Some sndr" "evTarget ev \<noteq> []"
  shows "process_get now' identity pid (process_apply decode now ev r) =
    (if (identity, pid) = (sndIdentity sndr, evTarget ev)
     then if now' - now > (if st = ProcessStateRunning then processStaleTTL else processTerminalTTL)
          then None else Some (row_after decode now ev sndr st r)
     else process_get now' identity pid r)"
proof -
  have "distinct (map fst (AList.update (sndIdentity sndr, evTarget ev) e r))" for e
    using assms(1) by (simp add: reg_inv_distinct distinct_update)
  then show ?thesis using assms(2)
    by (auto simp: process_apply_state_event [OF assms(3,4,5)] expired_def row_after_def fold_event_def)
qed

lemma apply_ignored:
  "state_of_type (evType ev) = None \<or> evSender ev = None \<or> evTarget ev = [] \<Longrightarrow>
     process_apply decode now ev r = r"
  by (auto simp: process_apply_def split: option.splits)

text \<open>
  C10. Rows are isolated per publisher: an event changes at most the row of its own sender's
  identity and its own target. Every other lookup, at that time or later, returns what it
  returned before, so no sender can create, alter or remove another identity's process.
\<close>

theorem process_apply_isolated:
  assumes "reg_inv r" "now \<le> now'"
    and "\<forall>sndr. evSender ev = Some sndr \<longrightarrow> (sndIdentity sndr, evTarget ev) \<noteq> (identity, pid)"
  shows "process_get now' identity pid (process_apply decode now ev r) = process_get now' identity pid r"
proof (cases "state_of_type (evType ev) = None \<or> evSender ev = None \<or> evTarget ev = []")
  case True
  then show ?thesis by (simp add: apply_ignored)
next
  case False
  then obtain st sndr where "state_of_type (evType ev) = Some st" "evSender ev = Some sndr"
    "evTarget ev \<noteq> []" by auto
  with get_apply [OF assms(1,2) this] assms(3) show ?thesis by auto
qed

definition demo_data :: processEventDataIn where
  "demo_data = \<lparr>dKind = ''index'', dTitle = ''Indexing'', dTarget = [], dDone = Some (-4), dTotal = None,
                dMessage = None, dError = None\<rparr>"

definition process_event :: "string \<Rightarrow> string \<Rightarrow> string \<Rightarrow> Event" where
  "process_event typ identity pid =
     \<lparr>evType = typ, evScope = ''account'', evSpaceId = [], evTarget = pid, evData = [],
      evSender = Some \<lparr>sndIdentity = identity, sndSelf = False\<rparr>\<rparr>"

lemmas demo_process_defs = demo_data_def process_event_def process_apply_def process_get_def
  state_of_type_def process_event_defs state_defs sweepLocked_def expired_def nanos_per_second_def
  processStaleTTL_def processTerminalTTL_def fold_event_def new_proc_def sanitize_def Let_def

theorem process_apply_isolated_witness:
  "process_get 5 ''B'' ''p''
     (process_apply (\<lambda>_. demo_data) 5 (process_event ''process.failed'' ''A'' ''p'')
        (process_apply (\<lambda>_. demo_data) 0 (process_event ''process.started'' ''B'' ''p'') [])) \<noteq> None"
proof -
  let ?r = "process_apply (\<lambda>_. demo_data) 0 (process_event ''process.started'' ''B'' ''p'') []"
  have r: "reg_inv ?r" by (rule process_apply_inv) (simp add: reg_inv_def)
  have "process_get 5 ''B'' ''p''
      (process_apply (\<lambda>_. demo_data) 5 (process_event ''process.failed'' ''A'' ''p'') ?r) =
      process_get 5 ''B'' ''p'' ?r"
    by (rule process_apply_isolated [OF r]) (simp_all add: process_event_def)
  moreover have "process_get 5 ''B'' ''p'' ?r \<noteq> None" by (simp add: demo_process_defs)
  ultimately show ?thesis by simp
qed

text \<open>
  The last event wins and rows expire on time: after a state event with a sender and a
  target, the sender's row carries that event's state and scope for exactly the staleness budget
  of the state (45 seconds while running, 60 seconds once terminal), and then it is gone; a
  restart takes a new start time.
\<close>

theorem process_apply_last_wins:
  assumes "reg_inv r" "state_of_type (evType ev) = Some st" "evSender ev = Some sndr"
    "evTarget ev \<noteq> []"
  shows "\<exists>p. pState p = st \<and> pScope p = evScope ev \<and> pSpaceId p = evSpaceId ev \<and>
      pUpdatedAt p = Unix now \<and>
      (pError p \<noteq> None \<longrightarrow> evType ev = EventProcessFailed) \<and>
      (evType ev = EventProcessStarted \<longrightarrow> pStartedAt p = Unix now) \<and>
      (\<forall>now' \<ge> now. process_get now' (sndIdentity sndr) (evTarget ev) (process_apply decode now ev r) =
         (if now' > now + (if st = ProcessStateRunning then processStaleTTL else processTerminalTTL)
          then None else Some p))"
proof (intro exI conjI allI impI)
  let ?p = "row_after decode now ev sndr st r"
  show "pState ?p = st" "pScope ?p = evScope ev" "pSpaceId ?p = evSpaceId ev"
    "pUpdatedAt ?p = Unix now"
    by (simp_all add: row_after_def fold_event_def)
  show "pError ?p \<noteq> None \<Longrightarrow> evType ev = EventProcessFailed"
    by (auto simp: row_after_def fold_event_def split: if_splits)
  show "evType ev = EventProcessStarted \<Longrightarrow> pStartedAt ?p = Unix now"
    by (simp add: row_after_def fold_event_def new_proc_def split: option.split)
  show "process_get now' (sndIdentity sndr) (evTarget ev) (process_apply decode now ev r) =
      (if now' > now + (if st = ProcessStateRunning then processStaleTTL else processTerminalTTL)
       then None else Some ?p)" if "now \<le> now'" for now'
    using get_apply [OF assms(1) that assms(2,3,4), of "sndIdentity sndr" "evTarget ev" decode] by auto
qed

theorem process_apply_last_wins_witness:
  "process_get (44 * nanos_per_second) ''A'' ''p''
     (process_apply (\<lambda>_. demo_data) 0 (process_event ''process.progress'' ''A'' ''p'') []) \<noteq> None \<and>
   process_get (46 * nanos_per_second) ''A'' ''p''
     (process_apply (\<lambda>_. demo_data) 0 (process_event ''process.progress'' ''A'' ''p'') []) = None"
proof -
  have "reg_inv []" by (simp add: reg_inv_def)
  from process_apply_last_wins [OF this, of "process_event ''process.progress'' ''A'' ''p''"
      ProcessStateRunning "\<lparr>sndIdentity = ''A'', sndSelf = False\<rparr>" 0 "\<lambda>_. demo_data"]
  show ?thesis
    by (auto simp: process_event_def state_of_type_def process_event_defs processStaleTTL_def
        nanos_per_second_def)
qed

section \<open>The owner's reports\<close>

text \<open>
  What \<open>json.Unmarshal\<close> makes of the JSON of an emitted payload: the descriptor fields
  left out when empty, the counters and the message always present.
\<close>

definition data_in :: "processEventData \<Rightarrow> processEventDataIn" where
  "data_in d =
     \<lparr>dKind = oKind d, dTitle = oTitle d, dTarget = oTarget d, dDone = Some (oDone d),
      dTotal = Some (oTotal d), dMessage = Some (oMessage d), dError = oError d\<rparr>"

lemma eventTargetRe_nonempty: "eventTargetRe t \<Longrightarrow> t \<noteq> []"
  using eventTargetRe_no_slash by blast

lemma refold_frame:
  assumes "row_ok p" "evScope ev = pScope p" "evSpaceId ev = pSpaceId p"
    and "\<forall>e. err = Some e \<longrightarrow> length (peMessage e) \<le> processMessageMaxLen"
  shows "fold_event ev st (sanitize (data_in (frame_of p err))) now p =
    p\<lparr>pState := st, pError := (if evType ev = EventProcessFailed then err else None),
      pUpdatedAt := Unix now\<rparr>"
  using assms
  by (cases err)
    (auto simp: fold_event_def sanitize_def data_in_def frame_of_def row_ok_def max_def
      intro!: Process.equality)

lemma mergeOwn_Some:
  assumes "mergeOwn now1 now2 identity pid dn tot msg r = (Some p, r')"
  shows "\<exists>e. map_of r (identity, pid) = Some e \<and> \<not> expired e now1 \<and>
    r' = AList.update (identity, pid) \<lparr>proc = p, seen = now2\<rparr> r \<and>
    p = (proc e)\<lparr>pDone := (case dn of Some n \<Rightarrow> max 0 n | None \<Rightarrow> pDone (proc e)),
                 pTotal := (case tot of Some n \<Rightarrow> max 0 n | None \<Rightarrow> pTotal (proc e)),
                 pMessage := (case msg of Some m \<Rightarrow> m | None \<Rightarrow> pMessage (proc e)),
                 pState := ProcessStateRunning, pError := None, pUpdatedAt := Unix now2\<rparr>"
  using assms by (auto simp: mergeOwn_def Let_def split: option.splits if_splits)

lemma processProgress_Inr:
  assumes "processProgress encode now1 now2 account pid req r = (Inr ev, r')"
  shows "\<exists>p. mergeOwn now1 now2 account pid (prDone req) (prTotal req) (prMessage req) r = (Some p, r') \<and>
    eventTargetRe pid \<and>
    ev = emitProcess encode account EventProcessProgress (pScope p) (pSpaceId p) (pId p) (frame_of p None)"
  using assms
  by (auto simp: processProgress_def validTargetToken_def split: if_splits option.splits prod.splits)

text \<open>
  The tap's re-application of a progress frame is an idempotent overwrite: the frame an
  accepted progress report emits carries the whole folded row, so applying it to the view that
  the report already updated changes nothing but the time of the last update, on this device
  and with every value the request left out kept. The encoder and decoder of the frame's JSON
  are asked to round-trip that one frame.
\<close>

theorem progress_frame_idempotent:
  assumes inv: "reg_inv r"
    and ok: "processProgress encode now1 now2 account pid req r = (Inr ev, r')"
    and json: "\<forall>p. process_get now2 account pid r' = Some p \<longrightarrow>
                 decode (encode (frame_of p None)) = data_in (frame_of p None)"
    and time: "now2 \<le> now3" "now3 \<le> now" "now \<le> now3 + processStaleTTL"
  shows "\<exists>p. process_get now2 account pid r' = Some p \<and> pState p = ProcessStateRunning \<and>
    process_get now account pid (process_apply decode now3 ev r') = Some (p\<lparr>pUpdatedAt := Unix now3\<rparr>)"
proof -
  obtain p where merged: "mergeOwn now1 now2 account pid (prDone req) (prTotal req) (prMessage req) r = (Some p, r')"
    and pid: "eventTargetRe pid"
    and ev: "ev = emitProcess encode account EventProcessProgress (pScope p) (pSpaceId p) (pId p) (frame_of p None)"
    using processProgress_Inr [OF ok] by blast
  then obtain e where e: "map_of r (account, pid) = Some e"
    and r': "r' = AList.update (account, pid) \<lparr>proc = p, seen = now2\<rparr> r"
    and p: "pState p = ProcessStateRunning" "pError p = None" "pId p = pId (proc e)"
    using mergeOwn_Some [OF merged] by auto
  have inv': "reg_inv r'" using processProgress_inv [OF inv, of encode now1 now2 account pid req] ok by simp
  have row: "map_of r' (account, pid) = Some \<lparr>proc = p, seen = now2\<rparr>" by (simp add: r' update_conv)
  have key: "pId p = pid" "row_ok p" using reg_inv_lookup [OF inv' row] by auto
  have get: "process_get now2 account pid r' = Some p"
    by (simp add: r' expired_def processStaleTTL_def processTerminalTTL_def nanos_per_second_def)
  let ?s = "\<lparr>sndIdentity = account, sndSelf = True\<rparr>"
  have st: "state_of_type (evType ev) = Some ProcessStateRunning" "evSender ev = Some ?s"
    "evTarget ev = pid" "pid \<noteq> []" "evType ev \<noteq> EventProcessFailed" "evType ev \<noteq> EventProcessStarted"
    using eventTargetRe_nonempty [OF pid] key(1)
    by (simp_all add: ev emitProcess_def state_of_type_def process_event_defs)
  have "row_after decode now3 ev ?s ProcessStateRunning r' =
      fold_event ev ProcessStateRunning (sanitize (data_in (frame_of p None))) now3 p"
    using row st json get by (simp add: row_after_def ev emitProcess_def)
  also have "\<dots> = p\<lparr>pUpdatedAt := Unix now3\<rparr>"
    using refold_frame [OF key(2), of ev None] p st(5) by (simp add: ev emitProcess_def)
  finally have "process_get now account pid (process_apply decode now3 ev r') =
      Some (p\<lparr>pUpdatedAt := Unix now3\<rparr>)"
    using get_apply [OF inv' time(2), of ev ProcessStateRunning ?s account pid decode] st time(3) by simp
  with get p(1) show ?thesis by blast
qed

definition demo_row :: Process where
  "demo_row =
     \<lparr>pIdentity = ''A'', pSelf = True, pId = ''p'', pKind = ''index'', pTitle = ''Indexing'',
      pScope = ''device'', pSpaceId = [], pTarget = [], pState = ProcessStateRunning, pDone = 1,
      pTotal = 9, pMessage = ''hi'', pError = None, pStartedAt = 0, pUpdatedAt = 0\<rparr>"

theorem progress_frame_idempotent_witness:
  "\<exists>r' ev p. processProgress (\<lambda>_. []) 1 2 ''A'' ''p'' \<lparr>prDone = Some 4, prTotal = None, prMessage = None\<rparr>
       [((''A'', ''p''), \<lparr>proc = demo_row, seen = 0\<rparr>)] = (Inr ev, r') \<and>
     process_get 3 ''A'' ''p''
       (process_apply (\<lambda>_. data_in (frame_of (demo_row\<lparr>pDone := 4\<rparr>) None)) 3 ev r') = Some p \<and>
     pDone p = 4 \<and> pTotal p = 9"
proof -
  let ?r = "[((''A'', ''p''), \<lparr>proc = demo_row, seen = 0\<rparr>)]"
  let ?req = "\<lparr>prDone = Some 4, prTotal = None, prMessage = None\<rparr>"
  let ?dec = "\<lambda>_::string. data_in (frame_of (demo_row\<lparr>pDone := 4\<rparr>) None)"
  have inv: "reg_inv ?r" by code_simp
  have "isl (fst (processProgress (\<lambda>_. []) 1 2 ''A'' ''p'' ?req ?r)) = False" by code_simp
  then obtain ev r' where ok: "processProgress (\<lambda>_. []) 1 2 ''A'' ''p'' ?req ?r = (Inr ev, r')"
    by (metis isl_def old.sum.exhaust prod.collapse)
  then have r': "r' = snd (processProgress (\<lambda>_. []) 1 2 ''A'' ''p'' ?req ?r)" by simp
  have get: "process_get 2 ''A'' ''p'' r' = Some (demo_row\<lparr>pDone := 4\<rparr>)"
    unfolding r' by code_simp
  have "now = 3 \<Longrightarrow> now \<le> 3 + processStaleTTL" for now :: int
    by (simp add: processStaleTTL_def nanos_per_second_def)
  then show ?thesis
    using progress_frame_idempotent [OF inv ok, of ?dec 3 3] ok get
    by (auto simp: frame_of_def demo_row_def)
qed

lemma processRegister_Inr:
  assumes "processRegister encode account req = Inr ev"
  shows "eventTargetRe (rrId req) \<and> eventTargetRe (rrKind req) \<and> rrTitle req \<noteq> [] \<and>
    length (rrTitle req) \<le> processTitleMaxLen \<and> (rrTarget req = [] \<or> eventTargetRe (rrTarget req)) \<and>
    evType ev = EventProcessStarted \<and> evScope ev = rrScope req \<and> evSpaceId ev = rrSpaceId req \<and>
    evTarget ev = rrId req \<and> evSender ev = Some \<lparr>sndIdentity = account, sndSelf = True\<rparr>"
  using assms
  by (auto simp: processRegister_def validTargetToken_def emitProcess_def
      split: if_splits option.splits)

lemma finish_type_Inr:
  "finish_type status = Inr typ \<Longrightarrow>
     state_of_type typ = Some status \<and> status \<noteq> ProcessStateRunning \<and>
     (typ = EventProcessFailed \<longleftrightarrow> status = ProcessStateFailed) \<and> typ \<noteq> EventProcessStarted"
  by (auto simp: finish_type_def state_of_type_def process_event_defs state_defs split: if_splits)

lemma processFinish_Inr:
  assumes "processFinish encode now account pid req r = Inr ev"
  shows "\<exists>p. process_get now account pid r = Some p \<and> pfStatus req \<noteq> ProcessStateRunning \<and>
    (pfError req \<noteq> None \<longleftrightarrow> pfStatus req = ProcessStateFailed) \<and>
    (\<forall>e. pfError req = Some e \<longrightarrow> length (peMessage e) \<le> processMessageMaxLen) \<and>
    (evType ev = EventProcessFailed \<longleftrightarrow> pfStatus req = ProcessStateFailed) \<and>
    state_of_type (evType ev) = Some (pfStatus req) \<and> evType ev \<noteq> EventProcessStarted \<and>
    evScope ev = pScope p \<and> evSpaceId ev = pSpaceId p \<and> evTarget ev = pId p \<and>
    evSender ev = Some \<lparr>sndIdentity = account, sndSelf = True\<rparr> \<and>
    evData ev = encode (frame_of p (pfError req))"
  using assms
  by (auto simp: processFinish_def ownProcess_def emitProcess_def
      split: sum.splits if_splits option.splits dest!: finish_type_Inr)

text \<open>The row a registration leaves, and the one its finish leaves.\<close>

definition registered_row :: "string \<Rightarrow> ProcessRegisterRequest \<Rightarrow> int \<Rightarrow> Process" where
  "registered_row account req t =
     \<lparr>pIdentity = account, pSelf = True, pId = rrId req, pKind = rrKind req, pTitle = rrTitle req,
      pScope = rrScope req, pSpaceId = rrSpaceId req, pTarget = rrTarget req,
      pState = ProcessStateRunning, pDone = 0, pTotal = 0, pMessage = [], pError = None,
      pStartedAt = Unix t, pUpdatedAt = Unix t\<rparr>"

lemma register_row:
  assumes inv: "reg_inv r" and reg: "processRegister encode account req = Inr ev"
    and json: "decode (evData ev) = data_in (frame_of (registered_row account req t1) None)"
    and t: "t1 \<le> t"
  shows "process_get t account (rrId req) (process_apply decode t1 ev r) =
    (if t > t1 + processStaleTTL then None else Some (registered_row account req t1))"
proof -
  let ?s = "\<lparr>sndIdentity = account, sndSelf = True\<rparr>"
  note req = processRegister_Inr [OF reg]
  have st: "state_of_type (evType ev) = Some ProcessStateRunning" "evSender ev = Some ?s" "evTarget ev \<noteq> []"
    using req eventTargetRe_nonempty by (auto simp: state_of_type_def)
  have "row_after decode t1 ev ?s ProcessStateRunning r = registered_row account req t1"
    using req eventTargetRe_nonempty [of "rrKind req"] json
    by (auto simp: row_after_def fold_event_def new_proc_def registered_row_def data_in_def
        frame_of_def sanitize_def process_event_defs processMessageMaxLen_def split: option.split)
  then show ?thesis
    using get_apply [OF inv t st, of account "rrId req" decode] req by auto
qed

text \<open>
  A process from registration to outcome: when a registration and, later, a finish are
  accepted, the view shows the registered descriptor with the reported outcome, the error
  exactly on failure, and drops the row 60 seconds after the terminal event. The two frames are
  assumed to decode to what was encoded.
\<close>

theorem process_lifecycle:
  assumes inv: "reg_inv r"
    and reg: "processRegister encode account req = Inr ev1"
    and fin: "processFinish encode t2 account (rrId req) freq (process_apply decode t1 ev1 r) = Inr ev2"
    and json: "decode (evData ev1) = data_in (frame_of (registered_row account req t1) None)"
      "decode (evData ev2) = data_in (frame_of (registered_row account req t1) (pfError freq))"
    and t: "t1 \<le> t2" "t2 \<le> t3" "t3 \<le> t"
  shows "process_get t account (rrId req) (process_apply decode t3 ev2 (process_apply decode t1 ev1 r)) =
      (if t > t3 + processTerminalTTL then None
       else Some ((registered_row account req t1)\<lparr>pState := pfStatus freq, pError := pfError freq,
                    pUpdatedAt := Unix t3\<rparr>)) \<and>
    (pfError freq \<noteq> None \<longleftrightarrow> pfStatus freq = ProcessStateFailed)"
proof -
  let ?s = "\<lparr>sndIdentity = account, sndSelf = True\<rparr>"
  let ?p = "registered_row account req t1"
  let ?r1 = "process_apply decode t1 ev1 r"
  have inv1: "reg_inv ?r1" by (rule process_apply_inv [OF inv])
  have get: "process_get t2 account (rrId req) ?r1 = Some ?p"
    using processFinish_Inr [OF fin] register_row [where decode = decode, OF inv reg json(1) t(1)] by (auto split: if_splits)
  note ev2 = processFinish_Inr [OF fin, unfolded get]
  have st: "state_of_type (evType ev2) = Some (pfStatus freq)" "evSender ev2 = Some ?s"
    "evTarget ev2 = rrId req" "evTarget ev2 \<noteq> []"
    using ev2 processRegister_Inr [OF reg] eventTargetRe_nonempty by (auto simp: registered_row_def)
  obtain e where e: "map_of ?r1 (account, rrId req) = Some e" "proc e = ?p"
    using get by (auto simp: process_get_def split: option.splits if_splits)
  have "row_after decode t3 ev2 ?s (pfStatus freq) ?r1 =
      fold_event ev2 (pfStatus freq) (sanitize (data_in (frame_of ?p (pfError freq)))) t3 ?p"
    using e ev2 st(3) json(2) by (simp add: row_after_def)
  also have "\<dots> = ?p\<lparr>pState := pfStatus freq, pError := pfError freq, pUpdatedAt := Unix t3\<rparr>"
    using refold_frame [of ?p ev2 "pfError freq"] reg_inv_lookup [OF inv1 e(1)] e(2) ev2
    by (cases "pfError freq") auto
  finally have "row_after decode t3 ev2 ?s (pfStatus freq) ?r1 =
      ?p\<lparr>pState := pfStatus freq, pError := pfError freq, pUpdatedAt := Unix t3\<rparr>" .
  then show ?thesis
    using get_apply [OF inv1 t(3) st(1,2,4), of account "rrId req" decode] st(3) ev2 by auto
qed

text \<open>A decoder that answers the two frames of the demonstration by their event type tag.\<close>

definition demo_req :: ProcessRegisterRequest where
  "demo_req = \<lparr>rrId = ''p'', rrKind = ''index'', rrTitle = ''Indexing'', rrScope = ''device'',
               rrSpaceId = [], rrTarget = []\<rparr>"

definition demo_err :: ProcessError where
  "demo_err = \<lparr>peCode = [], peMessage = ''disk full''\<rparr>"

definition demo_encode :: "processEventData \<Rightarrow> string" where
  "demo_encode d = (case oError d of None \<Rightarrow> ''ok'' | Some _ \<Rightarrow> ''err'')"

definition demo_decode :: "string \<Rightarrow> processEventDataIn" where
  "demo_decode s = data_in (frame_of (registered_row ''A'' demo_req 0)
                     (if s = ''ok'' then None else Some demo_err))"

theorem process_lifecycle_witness:
  "\<exists>ev1 ev2 p. processRegister demo_encode ''A'' demo_req = Inr ev1 \<and>
     processFinish demo_encode 1 ''A'' ''p'' \<lparr>pfStatus = ''failed'', pfError = Some demo_err\<rparr>
       (process_apply demo_decode 0 ev1 []) = Inr ev2 \<and>
     process_get 3 ''A'' ''p'' (process_apply demo_decode 2 ev2 (process_apply demo_decode 0 ev1 [])) = Some p \<and>
     pState p = ''failed'' \<and> pError p = Some demo_err"
proof -
  let ?freq = "\<lparr>pfStatus = ''failed'', pfError = Some demo_err\<rparr>"
  define ev1 where "ev1 = projr (processRegister demo_encode ''A'' demo_req)"
  define ev2 where "ev2 = projr (processFinish demo_encode 1 ''A'' (rrId demo_req) ?freq
                                   (process_apply demo_decode 0 ev1 []))"
  have reg: "processRegister demo_encode ''A'' demo_req = Inr ev1"
    unfolding ev1_def by code_simp
  have fin: "processFinish demo_encode 1 ''A'' (rrId demo_req) ?freq
      (process_apply demo_decode 0 ev1 []) = Inr ev2"
    unfolding ev2_def ev1_def by code_simp
  have json: "demo_decode (evData ev1) = data_in (frame_of (registered_row ''A'' demo_req 0) None)"
    unfolding ev1_def by code_simp
  have json2: "demo_decode (evData ev2) =
      data_in (frame_of (registered_row ''A'' demo_req 0) (pfError ?freq))"
    unfolding ev2_def ev1_def by code_simp
  have "reg_inv []" by (simp add: reg_inv_def)
  from process_lifecycle [OF this reg fin json json2, of 2 3]
  have "process_get 3 ''A'' (rrId demo_req) (process_apply demo_decode 2 ev2 (process_apply demo_decode 0 ev1 [])) =
      Some ((registered_row ''A'' demo_req 0)\<lparr>pState := ''failed'', pError := Some demo_err, pUpdatedAt := Unix 2\<rparr>)"
    by (simp add: processTerminalTTL_def nanos_per_second_def)
  with reg fin show ?thesis by (simp add: demo_req_def)
qed

section \<open>Listing\<close>

lemma swept_rows:
  "(\<lambda>(k, e). proc e) ` set (sweepLocked now r) = {proc e | k e. (k, e) \<in> set r \<and> \<not> expired e now}"
  unfolding sweepLocked_def by force

lemma live_rows:
  assumes "reg_inv r"
  shows "p \<in> (\<lambda>(k, e). proc e) ` set (sweepLocked now r) \<longleftrightarrow>
    process_get now (pIdentity p) (pId p) r = Some p"
proof -
  have eq: "((pIdentity p, pId p), e) \<in> set r \<longleftrightarrow> map_of r (pIdentity p, pId p) = Some e" for e
    by (simp add: map_of_eq_Some_iff [OF reg_inv_distinct [OF assms]])
  have "process_get now (pIdentity p) (pId p) r = Some p \<longleftrightarrow>
      (\<exists>e. ((pIdentity p, pId p), e) \<in> set r \<and> \<not> expired e now \<and> proc e = p)"
    unfolding eq by (auto simp: process_get_def split: option.split)
  moreover have "k = (pIdentity (proc e), pId (proc e))" if "(k, e) \<in> set r" for k e
    using assms that by (auto simp: reg_inv_def list_all_iff)
  ultimately show ?thesis unfolding swept_rows by blast
qed

text \<open>
  The listing shows exactly the live rows, each once, in a stable order: by start time, then
  identity, then id; and it changes no lookup.
\<close>

theorem process_list_live:
  assumes "reg_inv r"
  shows "set (fst (process_list now r)) = {p. process_get now (pIdentity p) (pId p) r = Some p} \<and>
    distinct (map (\<lambda>p. (pIdentity p, pId p)) (fst (process_list now r))) \<and>
    sorted (map (\<lambda>p. (pStartedAt p, pIdentity p, pId p)) (fst (process_list now r))) \<and>
    (\<forall>t \<ge> now. process_get t identity pid (snd (process_list now r)) = process_get t identity pid r)"
proof (intro conjI allI impI)
  define rows where "rows = map (\<lambda>(k, e). proc e) (sweepLocked now r)"
  have fst_list: "fst (process_list now r) = sort_key (\<lambda>p. (pStartedAt p, pIdentity p, pId p)) rows"
    by (simp add: process_list_def Let_def rows_def)
  show "set (fst (process_list now r)) = {p. process_get now (pIdentity p) (pId p) r = Some p}"
    using live_rows [OF assms, of _ now] by (simp add: fst_list rows_def set_eq_iff)
  have "map (\<lambda>p. (pIdentity p, pId p)) rows = map fst (sweepLocked now r)"
    using reg_inv_sweep [OF assms, of now] by (auto simp: rows_def reg_inv_def list_all_iff)
  with reg_inv_distinct [OF reg_inv_sweep [OF assms, of now]]
  have "distinct (map (\<lambda>p. (pIdentity p, pId p)) rows)" by (simp only:)
  then show "distinct (map (\<lambda>p. (pIdentity p, pId p)) (fst (process_list now r)))"
    unfolding fst_list distinct_map by simp
  show "sorted (map (\<lambda>p. (pStartedAt p, pIdentity p, pId p)) (fst (process_list now r)))"
    by (simp add: fst_list)
  show "process_get t identity pid (snd (process_list now r)) = process_get t identity pid r"
    if "now \<le> t" for t
    using that assms by (simp add: process_list_def Let_def reg_inv_distinct)
qed

theorem process_list_live_witness:
  "fst (process_list 1 [((''A'', ''p''), \<lparr>proc = demo_row, seen = 0\<rparr>)]) \<noteq> []"
proof -
  let ?r = "[((''A'', ''p''), \<lparr>proc = demo_row, seen = 0\<rparr>)]"
  have "reg_inv ?r" by code_simp
  moreover have "process_get 1 (pIdentity demo_row) (pId demo_row) ?r = Some demo_row" by code_simp
  ultimately show ?thesis using process_list_live [of ?r 1] by auto
qed
end
