(* ===== verification/EventBridge.thy ===== *)
theory EventBridge
  imports Processes
begin

text \<open>
  The bridge between local subscriptions and the network pub/sub
  (src/internal/server/events\_bridge.go) and the publish and subscribe handlers of the event bus
  (src/internal/server/handlers\_events.go).

  The bridge keeps, per scope, how many live subscriptions want each pattern and which patterns
  are subscribed. Each locked section is one operation. Subscribing a pattern is a call into the
  SDK that may fail and Go visits a map in any order, so a resync takes both as its argument
  \<open>net_env\<close>: the patterns that fail this time and the order of the visit. \<open>gen\<close> is
  a \<open>nat\<close>: a \<open>uint64\<close> that counts detaches does not reach its bound.
\<close>

section \<open>The bridge\<close>

record wireEvent =
  wType :: string
  wTarget :: string
  wData :: string

record bridgeScope =
  desired :: "(string \<times> int) list"
  active :: "string list"
  retryScheduled :: bool

record eventsBridge =
  brScopes :: "(string \<times> bridgeScope) list"
  brGen :: nat

record net_env =
  visits :: "string list"
  fails :: "string \<Rightarrow> bool"

definition newEventsBridge :: eventsBridge where
  "newEventsBridge = \<lparr>brScopes = [], brGen = 0\<rparr>"

definition detach :: "eventsBridge \<Rightarrow> eventsBridge" where
  "detach b = b\<lparr>brScopes := [], brGen := brGen b + 1\<rparr>"

text \<open>The subscribing loop of \<open>resyncLocked\<close>: true when a subscribe failed.\<close>

fun subscribe_loop :: "(string \<Rightarrow> bool) \<Rightarrow> string list \<Rightarrow> string list \<Rightarrow> bool \<times> string list" where
  "subscribe_loop fl [] act = (False, act)"
| "subscribe_loop fl (p # ps) act =
     (if p \<in> set act then subscribe_loop fl ps act
      else if fl p then (True, act)
      else subscribe_loop fl ps (act @ [p]))"

definition resyncLocked :: "net_env \<Rightarrow> bridgeScope \<Rightarrow> bool \<times> bridgeScope" where
  "resyncLocked env sc =
     (let want = maximalPatterns (map fst (desired sc));
          kept = filter (\<lambda>p. p \<in> set want) (active sc);
          order = filter (\<lambda>p. p \<in> set want) (visits env) @ want;
          (failed, act) = subscribe_loop (fails env) order kept
      in (failed, sc\<lparr>active := act\<rparr>))"

definition bump :: "string \<Rightarrow> (string \<times> int) list \<Rightarrow> (string \<times> int) list" where
  "bump p d = AList.update p (case map_of d p of Some n \<Rightarrow> n + 1 | None \<Rightarrow> 1) d"

definition drop_ref :: "string \<Rightarrow> (string \<times> int) list \<Rightarrow> (string \<times> int) list" where
  "drop_ref p d =
     (let n = (case map_of d p of Some n \<Rightarrow> n | None \<Rightarrow> 0) - 1
      in if n \<le> 0 then AList.delete p d else AList.update p n d)"

definition releaseLocked :: "net_env \<Rightarrow> string \<Rightarrow> string list \<Rightarrow> eventsBridge \<Rightarrow> eventsBridge" where
  "releaseLocked env key patterns b =
     (case map_of (brScopes b) key of
        None \<Rightarrow> b
      | Some sc \<Rightarrow>
          let sc1 = sc\<lparr>desired := fold drop_ref patterns (desired sc)\<rparr>;
              (failed, sc2) = resyncLocked env sc1;
              sc3 = (if failed then sc2\<lparr>retryScheduled := True\<rparr> else sc2)
          in if desired sc3 = [] then b\<lparr>brScopes := AList.delete key (brScopes b)\<rparr>
             else b\<lparr>brScopes := AList.update key sc3 (brScopes b)\<rparr>)"

text \<open>
  The locked half of \<open>acquireScope\<close>, after the handle is resolved; \<open>gen\<close> is the
  generation the first locked section read. A failed subscribe rolls back, with a resync of its
  own.
\<close>

datatype acquire_error = ErrCancelled | ErrBridgeDetached | ErrSubscribe | ErrResolve string

definition acquireScope ::
  "net_env \<Rightarrow> net_env \<Rightarrow> nat \<Rightarrow> string \<Rightarrow> string list \<Rightarrow> eventsBridge \<Rightarrow>
   (acquire_error + nat) \<times> eventsBridge" where
  "acquireScope env env' gen key patterns b =
     (if brGen b \<noteq> gen then (Inl ErrBridgeDetached, b)
      else
        let sc = (case map_of (brScopes b) key of
                    Some sc \<Rightarrow> sc
                  | None \<Rightarrow> \<lparr>desired = [], active = [], retryScheduled = False\<rparr>);
            sc1 = sc\<lparr>desired := fold bump patterns (desired sc)\<rparr>;
            (failed, sc2) = resyncLocked env sc1;
            b1 = b\<lparr>brScopes := AList.update key sc2 (brScopes b)\<rparr>
        in if failed then (Inl ErrSubscribe, releaseLocked env' key patterns b1)
           else (Inr gen, b1))"

text \<open>The \<open>release\<close> closure over the scopes it acquired.\<close>

fun release_held ::
  "(nat \<Rightarrow> net_env) \<Rightarrow> (string \<times> nat) list \<Rightarrow> string list \<Rightarrow> eventsBridge \<Rightarrow> eventsBridge" where
  "release_held envs [] patterns b = b"
| "release_held envs ((key, gen) # held) patterns b =
     release_held envs held patterns
       (if gen = brGen b then releaseLocked (envs (length held)) key patterns b else b)"

text \<open>
  The loop of \<open>acquire\<close> without an interleaved detach: the scopes in order, rolled back on
  the first error. \<open>resolve\<close> answers whether the SDK gives a handle for the key; the three
  environments are those of the acquisitions, of their own roll-back and of the release.
\<close>

fun acquire_loop ::
  "(string \<Rightarrow> bool) \<Rightarrow> (nat \<Rightarrow> net_env) \<Rightarrow> (nat \<Rightarrow> net_env) \<Rightarrow> (nat \<Rightarrow> net_env) \<Rightarrow> string list \<Rightarrow>
   (string \<times> nat) list \<Rightarrow> string list \<Rightarrow> eventsBridge \<Rightarrow>
   (acquire_error + (string \<times> nat) list) \<times> eventsBridge" where
  "acquire_loop resolve ea er ef [] acquired patterns b = (Inr acquired, b)"
| "acquire_loop resolve ea er ef (key # keys) acquired patterns b =
     (if \<not> resolve key then (Inl (ErrResolve key), release_held ef acquired patterns b)
      else case acquireScope (ea (length acquired)) (er (length acquired)) (brGen b) key patterns b of
             (Inl e, b') \<Rightarrow> (Inl e, release_held ef acquired patterns b')
           | (Inr gen, b') \<Rightarrow>
               acquire_loop resolve ea er ef keys (acquired @ [(key, gen)]) patterns b')"

text \<open>
  The whole of \<open>acquire\<close>; \<open>cancelled\<close> is whether the context of the request has ended (its engine
  is going away), which is asked once, before the first scope.
\<close>

definition acquire ::
  "bool \<Rightarrow> (string \<Rightarrow> bool) \<Rightarrow> (nat \<Rightarrow> net_env) \<Rightarrow> (nat \<Rightarrow> net_env) \<Rightarrow> (nat \<Rightarrow> net_env) \<Rightarrow> bool \<Rightarrow>
   string list \<Rightarrow> string list \<Rightarrow> eventsBridge \<Rightarrow> (acquire_error + (string \<times> nat) list) \<times> eventsBridge" where
  "acquire cancelled resolve ea er ef wantAccount spaces patterns b =
     (if patterns = [] \<or> (\<not> wantAccount \<and> spaces = []) then (Inr [], b)
      else if cancelled then (Inl ErrCancelled, b)
      else acquire_loop resolve ea er ef ((if wantAccount then [[]] else []) @ spaces) [] patterns b)"

text \<open>The body of the retry timer while its engine lives.\<close>

definition resync_retry :: "net_env \<Rightarrow> string \<Rightarrow> eventsBridge \<Rightarrow> eventsBridge" where
  "resync_retry env key b =
     (case map_of (brScopes b) key of
        None \<Rightarrow> b
      | Some sc \<Rightarrow>
          let (failed, sc') = resyncLocked env (sc\<lparr>retryScheduled := False\<rparr>)
          in b\<lparr>brScopes := AList.update key (if failed then sc'\<lparr>retryScheduled := True\<rparr> else sc')
                           (brScopes b)\<rparr>)"

section \<open>Messages from the network\<close>

record PubSubMessage =
  mTopic :: string
  mPayload :: string
  mSenderIdentity :: string
  mSelf :: bool
  mSpaceId :: string

definition eventTypeMaxLen :: nat where "eventTypeMaxLen = 128"

text \<open>\<open>decode\<close> is \<open>json.Unmarshal\<close> into a \<open>wireEvent\<close>.\<close>

definition deliver :: "(string \<Rightarrow> wireEvent option) \<Rightarrow> string \<Rightarrow> PubSubMessage \<Rightarrow> Event option" where
  "deliver decode key msg =
     (case decode (mPayload msg) of
        None \<Rightarrow> None
      | Some w \<Rightarrow>
          if wType w = [] \<or> length (wType w) > eventTypeMaxLen \<or> \<not> eventTypeRe (wType w) then None
          else if wTarget w \<noteq> [] \<and> \<not> eventTargetRe (wTarget w) then None
          else if wType w \<in> set selfOwnedEventTypes \<and> \<not> has_prefix eventAccTopicPrefix (mTopic msg)
          then None
          else Some
            \<lparr>evType = wType w,
             evScope = (if key = [] then EventScopeAccount else EventScopeSpace),
             evSpaceId = (if key = [] then [] else mSpaceId msg),
             evTarget = wTarget w, evData = wData w,
             evSender = Some \<lparr>sndIdentity = mSenderIdentity msg, sndSelf = mSelf msg\<rparr>\<rparr>)"

section \<open>The handlers\<close>

definition eventDataLimit :: nat where "eventDataLimit = 64 * 1024"

record EventPublishRequest =
  epType :: string
  epScope :: string
  epSpaceId :: string
  epTarget :: string
  epData :: string

text \<open>\<open>validTopic\<close> is \<open>pubsub.ValidateTopic\<close> of the SDK.\<close>

definition eventsPublish ::
  "(string \<Rightarrow> bool) \<Rightarrow> string \<Rightarrow> EventPublishRequest \<Rightarrow> api_error + Event" where
  "eventsPublish validTopic account req =
     (if epType req = [] then Inl (ApiError 400 ''request.missing_field'')
      else if length (epType req) > eventTypeMaxLen \<or> \<not> eventTypeRe (epType req)
      then Inl (ApiError 400 ''request.invalid_field'')
      else case validateEventScope (epScope req) (epSpaceId req) of Some e \<Rightarrow> Inl e | None \<Rightarrow>
      case (if epTarget req \<noteq> [] then validTargetToken (epTarget req) else None) of
        Some e \<Rightarrow> Inl e
      | None \<Rightarrow>
      if length (epData req) > eventDataLimit then Inl (ApiError 400 ''events.payload_too_large'')
      else if \<not> validTopic (eventTopic (epType req) (epTarget req) account)
      then Inl (ApiError 400 ''request.invalid_field'')
      else Inr \<lparr>evType = epType req, evScope = epScope req, evSpaceId = epSpaceId req,
                evTarget = epTarget req, evData = epData req,
                evSender = Some \<lparr>sndIdentity = account, sndSelf = True\<rparr>\<rparr>)"

text \<open>Where \<open>publishScoped\<close> sends an event, and the message a network publish puts on the wire.\<close>

datatype route = DeviceHub | AccountPubSub | SpacePubSub string

definition publishScoped :: "Event \<Rightarrow> route" where
  "publishScoped ev =
     (if evScope ev = EventScopeDevice then DeviceHub
      else if evScope ev = EventScopeAccount then AccountPubSub
      else SpacePubSub (evSpaceId ev))"

definition networkPublish :: "(wireEvent \<Rightarrow> string) \<Rightarrow> string \<Rightarrow> Event \<Rightarrow> string \<times> string" where
  "networkPublish encode account ev =
     (eventTopic (evType ev) (evTarget ev) account,
      encode \<lparr>wType = evType ev, wTarget = evTarget ev, wData = evData ev\<rparr>)"

datatype pubsub_error = ErrPubSubPayloadTooLarge | ErrPubSubNoReadKey | ErrPubSubTooManyPatterns
  | ErrPubSubTopicNotOwned | ErrPubSubInvalidTopic

definition pubsubError :: "pubsub_error \<Rightarrow> api_error" where
  "pubsubError e =
     (case e of
        ErrPubSubPayloadTooLarge \<Rightarrow> ApiError 400 ''events.payload_too_large''
      | ErrPubSubNoReadKey \<Rightarrow> ApiError 409 ''events.no_read_key''
      | ErrPubSubTooManyPatterns \<Rightarrow> ApiError 409 ''events.too_many_patterns''
      | ErrPubSubTopicNotOwned \<Rightarrow> ApiError 403 ''events.topic_not_owned''
      | ErrPubSubInvalidTopic \<Rightarrow> ApiError 400 ''request.invalid_field'')"

text \<open>
  The checks of \<open>eventsSubscribe\<close>: an error, or the network interest the subscription
  acquires, as \<open>wantAccount\<close> and the spaces.
\<close>

definition eventsSubscribe :: "eventFilter \<Rightarrow> api_error + bool \<times> string list" where
  "eventsSubscribe f =
     (if \<not> list_all (\<lambda>s. s \<in> {EventScopeDevice, EventScopeAccount, EventScopeSpace}) (scopes f)
      then Inl (ApiError 400 ''request.invalid_field'')
      else if list_ex (\<lambda>t. length t > eventTypeMaxLen \<or> \<not> eventFilterRe t) (types f)
      then Inl (ApiError 400 ''request.invalid_field'')
      else if list_ex (\<lambda>t. validTargetToken t \<noteq> None) (targets f)
      then Inl (ApiError 400 ''request.invalid_field'')
      else
        let catchAll = (scopes f = []);
            hasSpaceScope = (EventScopeSpace \<in> set (scopes f))
        in if hasSpaceScope \<and> spaceIds f = [] then Inl (ApiError 400 ''request.missing_field'')
           else if spaceIds f \<noteq> [] \<and> \<not> catchAll \<and> \<not> hasSpaceScope
           then Inl (ApiError 400 ''request.invalid_field'')
           else
             let wantAccount = (catchAll \<or> EventScopeAccount \<in> set (scopes f)) \<and> spaceIds f = [];
                 wantSpace = catchAll \<or> hasSpaceScope;
                 netSpaceIds = (if wantSpace then spaceIds f else [])
             in Inr (wantAccount, netSpaceIds))"

section \<open>A resync subscribes the maximal cover\<close>

lemma subscribe_loop_spec:
  "subscribe_loop fl ps act = (failed, act') \<Longrightarrow>
     set act \<subseteq> set act' \<and> set act' \<subseteq> set act \<union> set ps \<and> (distinct act \<longrightarrow> distinct act') \<and>
     (\<not> failed \<longrightarrow> set act' = set act \<union> set ps) \<and> (failed \<longrightarrow> (\<exists>p \<in> set ps. fl p))"
proof (induction fl ps act arbitrary: failed act' rule: subscribe_loop.induct)
  case (2 fl p ps act)
  consider "p \<in> set act" | "p \<notin> set act" "fl p" | "p \<notin> set act" "\<not> fl p" by blast
  then show ?case
  proof cases
    case 1
    with "2.IH"(1) [OF 1, of failed act'] "2.prems" show ?thesis by auto
  next
    case 2
    with "2.prems" show ?thesis by auto
  next
    case 3
    with "2.IH"(2) [OF 3, of failed act'] "2.prems" show ?thesis by auto
  qed
qed simp

lemma resyncLocked_spec:
  assumes "resyncLocked env sc = (failed, sc')"
  shows "desired sc' = desired sc \<and> retryScheduled sc' = retryScheduled sc \<and>
    set (active sc') \<subseteq> set (maximalPatterns (map fst (desired sc))) \<and>
    (distinct (active sc) \<longrightarrow> distinct (active sc')) \<and>
    (\<not> failed \<longrightarrow> set (active sc') = set (maximalPatterns (map fst (desired sc)))) \<and>
    (failed \<longrightarrow> (\<exists>p \<in> set (maximalPatterns (map fst (desired sc))). fails env p))"
proof -
  let ?want = "maximalPatterns (map fst (desired sc))"
  let ?kept = "filter (\<lambda>p. p \<in> set ?want) (active sc)"
  let ?order = "filter (\<lambda>p. p \<in> set ?want) (visits env) @ ?want"
  obtain act where act: "subscribe_loop (fails env) ?order ?kept = (failed, act)"
    and sc': "sc' = sc\<lparr>active := act\<rparr>"
    using assms by (auto simp: resyncLocked_def Let_def split: prod.splits)
  from subscribe_loop_spec [OF act] show ?thesis by (auto simp: sc')
qed

section \<open>Reference counts\<close>

definition refs :: "(string \<times> int) list \<Rightarrow> string \<Rightarrow> int" where
  "refs d p = (case map_of d p of Some n \<Rightarrow> n | None \<Rightarrow> 0)"

definition counts_ok :: "(string \<times> int) list \<Rightarrow> bool" where
  "counts_ok d \<longleftrightarrow> distinct (map fst d) \<and> list_all (\<lambda>(p, n). 0 < n) d"

lemma counts_ok_update: "counts_ok d \<Longrightarrow> 0 < n \<Longrightarrow> counts_ok (AList.update p n d)"
  using set_update_subset [of p n d] by (auto simp: counts_ok_def list_all_iff distinct_update)

lemma refs_pos: "counts_ok d \<Longrightarrow> map_of d p = Some n \<Longrightarrow> 0 < n"
  by (auto simp: counts_ok_def list_all_iff dest!: map_of_SomeD)

lemma refs_ge0: "counts_ok d \<Longrightarrow> 0 \<le> refs d p"
  by (auto simp: refs_def dest: refs_pos split: option.split)

lemma refs_keys:
  assumes "counts_ok d"
  shows "p \<in> fst ` set d \<longleftrightarrow> 0 < refs d p"
proof (cases "map_of d p")
  case None
  then have "p \<notin> fst ` set d" by (simp add: map_of_eq_None_iff)
  with None show ?thesis by (simp add: refs_def)
next
  case (Some n)
  then have "p \<in> fst ` set d" by (metis map_of_eq_None_iff option.distinct(1))
  with Some refs_pos [OF assms Some] show ?thesis by (simp add: refs_def)
qed

lemma counts_empty:
  assumes "counts_ok d"
  shows "d = [] \<longleftrightarrow> (\<forall>p. refs d p = 0)"
proof
  assume "\<forall>p. refs d p = 0"
  then have "fst ` set d = {}" using refs_keys [OF assms] by fastforce
  then show "d = []" by simp
qed (simp add: refs_def)

lemma bump_spec:
  "counts_ok d \<Longrightarrow> counts_ok (bump p d) \<and> refs (bump p d) q = refs d q + (if p = q then 1 else 0)"
  by (auto simp: bump_def refs_def update_conv intro!: counts_ok_update dest: refs_pos
      split: option.split)

lemma bumps_spec:
  "counts_ok d \<Longrightarrow>
     counts_ok (fold bump ps d) \<and> refs (fold bump ps d) q = refs d q + int (count_list ps q)"
  by (induction ps arbitrary: d) (auto simp: bump_spec)

lemma drop_ref_spec:
  assumes "counts_ok d"
  shows "counts_ok (drop_ref p d) \<and>
    refs (drop_ref p d) q = (if p = q then max 0 (refs d q - 1) else refs d q)"
proof -
  have "counts_ok (AList.delete p d)"
    using assms by (auto simp: counts_ok_def list_all_iff AList.delete_eq distinct_map_filter)
  then show ?thesis using assms
    by (auto simp: drop_ref_def Let_def refs_def update_conv delete_conv intro!: counts_ok_update
        split: option.split)
qed

lemma drops_spec:
  "counts_ok d \<Longrightarrow>
     counts_ok (fold drop_ref ps d) \<and>
     refs (fold drop_ref ps d) q = max 0 (refs d q - int (count_list ps q))"
proof (induction ps arbitrary: d)
  case Nil
  then show ?case by (simp add: refs_ge0)
next
  case (Cons p ps)
  then show ?case by (auto simp: drop_ref_spec)
qed

section \<open>The bridge under any interleaving\<close>

text \<open>
  A hold is one scope a live subscription has acquired: its key, the generation it was counted
  in, and the patterns. Releasing is one hold at a time; a hold is released once.
\<close>

type_synonym hold = "string \<times> nat \<times> string list"

datatype bridge_op =
    BAcquire net_env net_env nat string "string list"
  | BRelease net_env hold
  | BDetach
  | BRetry net_env string

fun bridge_step ::
  "eventsBridge \<times> hold list \<Rightarrow> bridge_op \<Rightarrow> hub_panic + eventsBridge \<times> hold list" where
  "bridge_step (b, hs) (BAcquire env env' gen key patterns) =
     (if patterns = [] then Inr (b, hs)
      else case acquireScope env env' gen key patterns b of
             (Inl e, b') \<Rightarrow> Inr (b', hs)
           | (Inr g, b') \<Rightarrow> Inr (b', (key, g, patterns) # hs))"
| "bridge_step (b, hs) (BRelease env (key, gen, patterns)) =
     (if (key, gen, patterns) \<in> set hs
      then Inr (if gen = brGen b then releaseLocked env key patterns b else b,
                remove1 (key, gen, patterns) hs)
      else Inr (b, hs))"
| "bridge_step (b, hs) BDetach = Inr (detach b, hs)"
| "bridge_step (b, hs) (BRetry env key) = Inr (resync_retry env key b, hs)"

definition scope_refs :: "eventsBridge \<Rightarrow> string \<Rightarrow> string \<Rightarrow> int" where
  "scope_refs b key p =
     (case map_of (brScopes b) key of None \<Rightarrow> 0 | Some sc \<Rightarrow> refs (desired sc) p)"

definition wanted :: "hold list \<Rightarrow> nat \<Rightarrow> string \<Rightarrow> string \<Rightarrow> nat" where
  "wanted hs gen key p =
     sum_list (map (\<lambda>(k, g, ps). if k = key \<and> g = gen then count_list ps p else 0) hs)"

text \<open>
  A scope in good order: positive counts for some pattern, only patterns of the maximal cover
  subscribed, each once, and all of them unless a retry is pending.
\<close>

definition scope_ok :: "bridgeScope \<Rightarrow> bool" where
  "scope_ok sc \<longleftrightarrow> counts_ok (desired sc) \<and> desired sc \<noteq> [] \<and> distinct (active sc) \<and>
     set (active sc) \<subseteq> set (maximalPatterns (map fst (desired sc))) \<and>
     (retryScheduled sc \<or> set (active sc) = set (maximalPatterns (map fst (desired sc))))"

definition bridge_ok :: "eventsBridge \<Rightarrow> bool" where
  "bridge_ok b \<longleftrightarrow> distinct (map fst (brScopes b)) \<and> list_all (\<lambda>(key, sc). scope_ok sc) (brScopes b)"

definition bridge_inv :: "eventsBridge \<times> hold list \<Rightarrow> bool" where
  "bridge_inv w \<longleftrightarrow> bridge_ok (fst w) \<and>
     (\<forall>key p. scope_refs (fst w) key p = int (wanted (snd w) (brGen (fst w)) key p)) \<and>
     list_all (\<lambda>(k, g, ps). g \<le> brGen (fst w)) (snd w)"

lemma bridge_ok_lookup: "bridge_ok b \<Longrightarrow> map_of (brScopes b) key = Some sc \<Longrightarrow> scope_ok sc"
  by (auto simp: bridge_ok_def list_all_iff dest!: map_of_SomeD)

lemma bridge_ok_update:
  "bridge_ok b \<Longrightarrow> scope_ok sc \<Longrightarrow> bridge_ok (b\<lparr>brScopes := AList.update key sc (brScopes b)\<rparr>)"
  using set_update_subset [of key sc "brScopes b"]
  by (auto simp: bridge_ok_def list_all_iff distinct_update)

lemma bridge_ok_delete:
  "bridge_ok b \<Longrightarrow> bridge_ok (b\<lparr>brScopes := AList.delete key (brScopes b)\<rparr>)"
  by (auto simp: bridge_ok_def list_all_iff AList.delete_eq distinct_map_filter)

lemma scope_refs_update:
  "scope_refs (b\<lparr>brScopes := AList.update key sc (brScopes b)\<rparr>) k p =
     (if k = key then refs (desired sc) p else scope_refs b k p)"
  by (simp add: scope_refs_def update_conv)

lemma scope_refs_delete:
  "scope_refs (b\<lparr>brScopes := AList.delete key (brScopes b)\<rparr>) k p =
     (if k = key then 0 else scope_refs b k p)"
  by (simp add: scope_refs_def delete_conv)

text \<open>
  A release keeps a bridge in good order and takes its patterns off; only the counts, their
  distinctness and the scope's subscriptions matter, so it also undoes a half-made acquisition.
\<close>

lemma releaseLocked_spec:
  assumes scope: "map_of (brScopes b) key = Some sc"
    and sc: "counts_ok (desired sc)" "distinct (active sc)"
    and rest: "distinct (map fst (brScopes b))"
      "\<forall>(k, s) \<in> set (brScopes b). k \<noteq> key \<longrightarrow> scope_ok s"
  shows "bridge_ok (releaseLocked env key ps b) \<and> brGen (releaseLocked env key ps b) = brGen b \<and>
    scope_refs (releaseLocked env key ps b) k p =
      (if k = key then max 0 (scope_refs b k p - int (count_list ps p)) else scope_refs b k p)"
proof -
  define sc1 where "sc1 = sc\<lparr>desired := fold drop_ref ps (desired sc)\<rparr>"
  obtain failed sc2 where sync: "resyncLocked env sc1 = (failed, sc2)" by fastforce
  define sc3 where "sc3 = (if failed then sc2\<lparr>retryScheduled := True\<rparr> else sc2)"
  note spec = resyncLocked_spec [OF sync]
  have d3: "desired sc3 = fold drop_ref ps (desired sc)"
    using spec by (simp add: sc3_def sc1_def)
  have refs3: "counts_ok (desired sc3)"
    "refs (desired sc3) p = max 0 (scope_refs b key p - int (count_list ps p))" for p
    using drops_spec [OF sc(1)] by (auto simp: d3 scope_refs_def scope)
  have ok3: "scope_ok sc3" if "desired sc3 \<noteq> []"
    using that refs3(1) spec sc(2) by (auto simp: scope_ok_def sc3_def sc1_def)
  have eq: "releaseLocked env key ps b =
      (if desired sc3 = [] then b\<lparr>brScopes := AList.delete key (brScopes b)\<rparr>
       else b\<lparr>brScopes := AList.update key sc3 (brScopes b)\<rparr>)"
    by (simp add: releaseLocked_def scope Let_def sync sc3_def flip: sc1_def)
  show ?thesis
  proof (cases "desired sc3 = []")
    case True
    then have "bridge_ok (releaseLocked env key ps b)"
      using rest by (auto simp: eq bridge_ok_def list_all_iff AList.delete_eq distinct_map_filter)
    with True refs3(2) [of p] show ?thesis by (auto simp: eq scope_refs_delete refs_def)
  next
    case False
    have "(k, s) \<in> set (AList.update key sc3 (brScopes b)) \<Longrightarrow> scope_ok s" for k s
      using rest ok3 [OF False] map_of_is_SomeI [of "AList.update key sc3 (brScopes b)" k s]
      by (auto simp: distinct_update update_conv split: if_splits dest: map_of_SomeD)
    then have "bridge_ok (releaseLocked env key ps b)"
      using rest False by (auto simp: eq bridge_ok_def list_all_iff distinct_update)
    with False refs3(2) [of p] show ?thesis by (simp add: eq scope_refs_update)
  qed
qed

lemma releaseLocked_ok:
  assumes "bridge_ok b"
  shows "bridge_ok (releaseLocked env key ps b) \<and> brGen (releaseLocked env key ps b) = brGen b \<and>
    scope_refs (releaseLocked env key ps b) k p =
      (if k = key then max 0 (scope_refs b k p - int (count_list ps p)) else scope_refs b k p)"
proof (cases "map_of (brScopes b) key")
  case None
  with assms show ?thesis by (auto simp: releaseLocked_def scope_refs_def)
next
  case (Some sc)
  from bridge_ok_lookup [OF assms this] have "counts_ok (desired sc)" "distinct (active sc)"
    by (auto simp: scope_ok_def)
  moreover have "distinct (map fst (brScopes b))"
    "\<forall>(k, s) \<in> set (brScopes b). k \<noteq> key \<longrightarrow> scope_ok s"
    using assms by (auto simp: bridge_ok_def list_all_iff)
  ultimately show ?thesis by (rule releaseLocked_spec [OF Some])
qed

lemma scope_refs_ge0: "bridge_ok b \<Longrightarrow> 0 \<le> scope_refs b key p"
  by (auto simp: scope_refs_def scope_ok_def refs_ge0 dest!: bridge_ok_lookup split: option.split)

text \<open>An acquisition adds its patterns, or leaves every count as it was.\<close>

lemma acquireScope_spec:
  assumes ok: "bridge_ok b" and ps: "ps \<noteq> []"
    and acq: "acquireScope env env' gen key ps b = (res, b')"
  shows "bridge_ok b' \<and> brGen b' = brGen b \<and>
    (case res of
       Inr g \<Rightarrow> g = brGen b \<and>
         scope_refs b' k p = scope_refs b k p + (if k = key then int (count_list ps p) else 0)
     | Inl e \<Rightarrow> scope_refs b' k p = scope_refs b k p)"
proof (cases "brGen b = gen")
  case False
  with acq ok show ?thesis by (auto simp: acquireScope_def)
next
  case True
  define sc where "sc = (case map_of (brScopes b) key of Some sc \<Rightarrow> sc
      | None \<Rightarrow> \<lparr>desired = [], active = [], retryScheduled = False\<rparr>)"
  define sc1 where "sc1 = sc\<lparr>desired := fold bump ps (desired sc)\<rparr>"
  obtain failed sc2 where sync: "resyncLocked env sc1 = (failed, sc2)" by fastforce
  define b1 where "b1 = b\<lparr>brScopes := AList.update key sc2 (brScopes b)\<rparr>"
  have sc: "counts_ok (desired sc)" "distinct (active sc)" "refs (desired sc) p = scope_refs b key p" for p
    using bridge_ok_lookup [OF ok, of key]
    by (auto simp: sc_def scope_ok_def counts_ok_def scope_refs_def refs_def split: option.split)
  note spec = resyncLocked_spec [OF sync]
  have d2: "desired sc2 = fold bump ps (desired sc)" using spec by (simp add: sc1_def)
  have c2: "counts_ok (desired sc2)"
    "refs (desired sc2) p = scope_refs b key p + int (count_list ps p)" for p
    using bumps_spec [OF sc(1)] sc(3) by (auto simp: d2)
  have refs1: "scope_refs b1 k p = scope_refs b k p + (if k = key then int (count_list ps p) else 0)" for k p
    by (simp add: b1_def scope_refs_update c2(2))
  have eq: "(res, b') = (if failed then (Inl ErrSubscribe, releaseLocked env' key ps b1) else (Inr gen, b1))"
    using acq [symmetric] True
    by (simp add: acquireScope_def Let_def sync flip: sc_def sc1_def) (simp add: b1_def)
  show ?thesis
  proof (cases failed)
    case True
    have lookup: "map_of (brScopes b1) key = Some sc2" by (simp add: b1_def update_conv)
    have rest: "distinct (map fst (brScopes b1))"
      "\<forall>(k, s) \<in> set (brScopes b1). k \<noteq> key \<longrightarrow> scope_ok s"
      using ok set_update_subset [of key sc2 "brScopes b"]
      by (auto simp: b1_def bridge_ok_def list_all_iff distinct_update)
    have d: "distinct (active sc2)" using spec sc(2) by (simp add: sc1_def)
    have gen: "brGen b1 = brGen b" by (simp add: b1_def)
    from releaseLocked_spec [OF lookup c2(1) d rest, of env' ps k p] True eq
      scope_refs_ge0 [OF ok, of k p] gen
    show ?thesis by (auto simp: refs1)
  next
    case False
    have "desired sc2 \<noteq> []"
    proof -
      obtain q where "q \<in> set ps" using ps by (cases ps) auto
      then have "count_list ps q \<noteq> 0" by (simp add: count_list_0_iff)
      then have "0 < refs (desired sc2) q"
        using c2(2) [of q] scope_refs_ge0 [OF ok, of key q] by simp
      then show ?thesis by (auto simp: refs_def)
    qed
    with False spec sc(2) c2(1) have "scope_ok sc2" by (auto simp: scope_ok_def sc1_def)
    with False eq ok \<open>brGen b = gen\<close> show ?thesis
      by (simp add: refs1) (simp add: b1_def bridge_ok_update)
  qed
qed

lemma resync_retry_ok:
  assumes "bridge_ok b"
  shows "bridge_ok (resync_retry env key b) \<and> brGen (resync_retry env key b) = brGen b \<and>
    scope_refs (resync_retry env key b) k p = scope_refs b k p"
proof (cases "map_of (brScopes b) key")
  case None
  with assms show ?thesis by (simp add: resync_retry_def)
next
  case (Some sc)
  obtain failed sc' where sync: "resyncLocked env (sc\<lparr>retryScheduled := False\<rparr>) = (failed, sc')"
    by fastforce
  define sc3 where "sc3 = (if failed then sc'\<lparr>retryScheduled := True\<rparr> else sc')"
  have "scope_ok sc3" "desired sc3 = desired sc"
    using bridge_ok_lookup [OF assms Some] resyncLocked_spec [OF sync] by (auto simp: scope_ok_def sc3_def)
  moreover have "resync_retry env key b = b\<lparr>brScopes := AList.update key sc3 (brScopes b)\<rparr>"
    by (simp add: resync_retry_def Some sync sc3_def)
  ultimately show ?thesis
    using bridge_ok_update [OF assms, of sc3 key] scope_refs_update [where b = b and key = key and sc = sc3 and k = k and p = p]
    by (auto simp: scope_refs_def Some)
qed

lemma wanted_Cons [simp]:
  "wanted ((k, g, ps) # hs) gen key p =
     (if k = key \<and> g = gen then count_list ps p else 0) + wanted hs gen key p"
  by (simp add: wanted_def)

lemma wanted_remove1:
  "h \<in> set hs \<Longrightarrow>
     wanted hs gen key p = wanted [h] gen key p + wanted (remove1 h hs) gen key p"
  by (induction hs) (auto simp: wanted_def)

lemma wanted_future: "list_all (\<lambda>(k, g, ps). g \<le> n) hs \<Longrightarrow> n < gen \<Longrightarrow> wanted hs gen key p = 0"
  by (induction hs) (auto simp: wanted_def)

lemma bridge_step_inv:
  assumes inv: "bridge_inv (b, hs)"
  shows "\<exists>w. bridge_step (b, hs) op = Inr w \<and> bridge_inv w"
proof (cases op)
  case (BAcquire env env' gen key ps)
  obtain res b' where acq: "acquireScope env env' gen key ps b = (res, b')" by fastforce
  show ?thesis
  proof (cases "ps = []")
    case True
    with BAcquire inv show ?thesis by simp
  next
    case False
    have ok: "bridge_ok b" using inv by (simp add: bridge_inv_def)
    note spec = acquireScope_spec [OF ok False acq]
    from spec inv False acq BAcquire show ?thesis
      by (cases res) (auto simp: bridge_inv_def)
  qed
next
  case (BRelease env h)
  obtain key gen ps where h: "h = (key, gen, ps)" by (cases h)
  have ok: "bridge_ok b" and refs: "scope_refs b k p = int (wanted hs (brGen b) k p)" for k p
    using inv by (simp_all add: bridge_inv_def)
  show ?thesis
  proof (cases "h \<in> set hs")
    case False
    with BRelease h inv show ?thesis by simp
  next
    case True
    have le: "list_all (\<lambda>(k, g, ps). g \<le> brGen b) (remove1 h hs)"
      using inv set_remove1_subset [of h hs] by (auto simp: bridge_inv_def list_all_iff)
    let ?b = "if gen = brGen b then releaseLocked env key ps b else b"
    have "bridge_ok ?b" "brGen ?b = brGen b" using ok releaseLocked_ok by auto
    moreover have "scope_refs ?b k p = int (wanted (remove1 h hs) (brGen b) k p)" for k p
      using wanted_remove1 [OF True, of "brGen b" k p] refs [of k p]
        releaseLocked_ok [OF ok, of env key ps k p]
      by (auto simp: h wanted_def)
    ultimately have "bridge_inv (?b, remove1 h hs)" using le by (simp add: bridge_inv_def)
    then show ?thesis using BRelease True h by simp
  qed
next
  case BDetach
  have "wanted hs (Suc (brGen b)) key p = 0" for key p
    using inv by (intro wanted_future) (auto simp: bridge_inv_def)
  then show ?thesis using BDetach inv
    by (auto simp: bridge_inv_def detach_def bridge_ok_def scope_refs_def list_all_iff)
next
  case (BRetry env key)
  then show ?thesis using inv resync_retry_ok [of b env key] by (auto simp: bridge_inv_def)
qed

interpretation bridge: safe_machine bridge_step "(newEventsBridge, [])" bridge_inv
proof unfold_locales
  show "bridge_inv (newEventsBridge, [])"
    by (simp add: bridge_inv_def bridge_ok_def newEventsBridge_def scope_refs_def wanted_def)
next
  fix w op
  assume "bridge_inv w"
  then show "\<exists>w'. bridge_step w op = Inr w' \<and> bridge_inv w'"
    using bridge_step_inv by (cases w) blast
qed

section \<open>Properties of the bridge\<close>

text \<open>
  C5. Interest is reference counted exactly: under any interleaving of acquisitions (failed ones
  included, with handles resolved before a detach), releases, detaches and retries, the count of
  every pattern on every scope is the number of live subscriptions of the current generation that
  want it, a scope exists exactly while something wants it, and what is subscribed is the maximal
  cover of the wanted patterns, or a part of it with a retry pending.
\<close>

theorem bridge_refcounts_exact:
  "\<exists>b hs. run_ops bridge_step (newEventsBridge, []) ops = Inr (b, hs) \<and>
     (\<forall>key p. scope_refs b key p = int (wanted hs (brGen b) key p)) \<and>
     (\<forall>key. map_of (brScopes b) key = None \<longleftrightarrow> (\<forall>p. wanted hs (brGen b) key p = 0)) \<and>
     list_all (\<lambda>(key, sc).
        set (active sc) \<subseteq> set (maximalPatterns (map fst (desired sc))) \<and>
        (retryScheduled sc \<or> set (active sc) = set (maximalPatterns (map fst (desired sc)))))
       (brScopes b)"
proof -
  obtain b hs where run: "run_ops bridge_step (newEventsBridge, []) ops = Inr (b, hs)"
    and inv: "bridge_inv (b, hs)"
    using bridge.run_safe [of ops] by auto
  from inv have ok: "bridge_ok b" and refs: "\<forall>key p. scope_refs b key p = int (wanted hs (brGen b) key p)"
    by (simp_all add: bridge_inv_def)
  have "map_of (brScopes b) key = None \<longleftrightarrow> (\<forall>p. wanted hs (brGen b) key p = 0)" for key
  proof (cases "map_of (brScopes b) key")
    case None
    then have "scope_refs b key p = 0" for p by (simp add: scope_refs_def)
    with None refs show ?thesis by simp
  next
    case (Some sc)
    with bridge_ok_lookup [OF ok] have "counts_ok (desired sc)" "desired sc \<noteq> []"
      by (auto simp: scope_ok_def)
    then obtain p where "refs (desired sc) p \<noteq> 0" using counts_empty by blast
    then have "scope_refs b key p \<noteq> 0" by (simp add: scope_refs_def Some)
    with Some refs show ?thesis by auto
  qed
  moreover have "list_all (\<lambda>(key, sc).
        set (active sc) \<subseteq> set (maximalPatterns (map fst (desired sc))) \<and>
        (retryScheduled sc \<or> set (active sc) = set (maximalPatterns (map fst (desired sc)))))
       (brScopes b)"
    using ok unfolding bridge_ok_def scope_ok_def list_all_iff by blast
  ultimately show ?thesis using run refs by blast
qed

lemma release_held_refs:
  assumes "bridge_ok b" "\<forall>(k, g) \<in> set held. g = brGen b"
    and "\<forall>k p. scope_refs b k p =
           refs0 k p + int (count_list (map fst held) k * count_list ps p)"
    and "\<forall>k p. 0 \<le> refs0 k p"
  shows "bridge_ok (release_held envs held ps b) \<and> brGen (release_held envs held ps b) = brGen b \<and>
    (\<forall>k p. scope_refs (release_held envs held ps b) k p = refs0 k p)"
  using assms
proof (induction envs held ps b rule: release_held.induct)
  case (1 envs ps b)
  then show ?case by simp
next
  case (2 envs key gen held ps b)
  let ?b = "releaseLocked (envs (length held)) key ps b"
  have gen: "gen = brGen b" using "2.prems"(2) by simp
  note rel = releaseLocked_ok [OF "2.prems"(1), of "envs (length held)" key ps]
  have "scope_refs ?b k p = refs0 k p + int (count_list (map fst held) k * count_list ps p)" for k p
    using rel [of k p] spec [OF spec [OF "2.prems"(3), of k], of p] spec [OF spec [OF "2.prems"(4), of k], of p]
    by (auto simp: algebra_simps)
  then show ?case using "2.IH" "2.prems"(2,4) rel gen by auto
qed

lemma acquire_loop_refs:
  assumes "acquire_loop resolve ea er ef keys acquired ps b = (Inl e, b')" "ps \<noteq> []"
    and "bridge_ok b" "\<forall>(k, g) \<in> set acquired. g = brGen b"
    and "\<forall>k p. scope_refs b k p =
           refs0 k p + int (count_list (map fst acquired) k * count_list ps p)"
    and "\<forall>k p. 0 \<le> refs0 k p"
  shows "bridge_ok b' \<and> brGen b' = brGen b \<and> (\<forall>k p. scope_refs b' k p = refs0 k p)"
  using assms
proof (induction resolve ea er ef keys acquired ps b rule: acquire_loop.induct)
  case (1 resolve ea er ef acquired ps b)
  then show ?case by simp
next
  case (2 resolve ea er ef key keys acquired ps b)
  note undo = release_held_refs [where ?refs0.0 = refs0 and envs = ef and ps = ps and held = acquired]
  obtain res b1 where acq: "acquireScope (ea (length acquired)) (er (length acquired)) (brGen b) key ps b = (res, b1)"
    by fastforce
  note spec = acquireScope_spec [OF "2.prems"(3,2) acq]
  show ?case
  proof (cases "resolve key")
    case False
    with "2.prems" undo [of b] show ?thesis by auto
  next
    case res: True
    show ?thesis
    proof (cases res)
      case (Inl err)
      with "2.prems" res acq spec undo [of b1] show ?thesis by (auto simp: Inl)
    next
      case (Inr g)
      with "2.prems" res acq have "acquire_loop resolve ea er ef keys (acquired @ [(key, g)]) ps b1 = (Inl e, b')"
        by simp
      moreover have "scope_refs b1 k p =
          refs0 k p + int (count_list (map fst (acquired @ [(key, g)])) k * count_list ps p)" for k p
        using spec [of k p] "2.prems"(5) Inr by (auto simp: algebra_simps)
      ultimately show ?thesis
        using "2.IH" [OF _ acq [symmetric] Inr] res spec Inr "2.prems"(2,4,6) by auto
    qed
  qed
qed

text \<open>
  C6. A failed acquisition is rolled back completely: if acquiring a list of scopes fails at any
  of them, or is refused because the context of the request has ended, every reference count is
  what it was before.
\<close>

theorem acquire_rolls_back:
  assumes "bridge_ok b" "acquire cancelled resolve ea er ef wantAccount spaces patterns b = (Inl e, b')"
  shows "bridge_ok b' \<and> brGen b' = brGen b \<and> (\<forall>key p. scope_refs b' key p = scope_refs b key p)"
proof (cases cancelled)
  case True
  with assms show ?thesis by (auto simp: acquire_def split: if_splits)
next
  case False
  then have ne: "patterns \<noteq> []"
    and loop: "acquire_loop resolve ea er ef ((if wantAccount then [[]] else []) @ spaces) [] patterns b = (Inl e, b')"
    using assms(2) by (auto simp: acquire_def split: if_splits)
  show ?thesis
    using acquire_loop_refs [OF loop ne assms(1), of "scope_refs b"] scope_refs_ge0 [OF assms(1)] by simp
qed

definition demo_env :: net_env where
  "demo_env = \<lparr>visits = [], fails = (\<lambda>_. False)\<rparr>"

theorem acquire_rolls_back_witness:
  "\<exists>b'. acquire False (\<lambda>key. key = []) (\<lambda>_. demo_env) (\<lambda>_. demo_env) (\<lambda>_. demo_env) True [''s1'']
          [''ev/process/>''] newEventsBridge = (Inl (ErrResolve ''s1''), b') \<and>
        scope_refs b' [] ''ev/process/>'' = 0"
proof -
  let ?acq = "acquire False (\<lambda>key. key = []) (\<lambda>_. demo_env) (\<lambda>_. demo_env) (\<lambda>_. demo_env) True [''s1'']
          [''ev/process/>''] newEventsBridge"
  have "fst ?acq = Inl (ErrResolve ''s1'')" by code_simp
  then obtain b' where acq: "?acq = (Inl (ErrResolve ''s1''), b')" by (metis prod.collapse)
  have ok: "bridge_ok newEventsBridge" by code_simp
  have "scope_refs newEventsBridge [] ''ev/process/>'' = 0" by code_simp
  with acquire_rolls_back [OF ok acq] acq show ?thesis by simp
qed

section \<open>From a publish to a subscriber\<close>

text \<open>The patterns a valid filter generates belong to the family with final wildcards.\<close>

lemma slug_segs:
  "eventTypeRe t \<Longrightarrow> \<forall>seg \<in> set (split_on CHR ''.'' t). seg \<noteq> ''*'' \<and> seg \<noteq> ''>''"
  by (auto simp: eventTypeRe_def list_all_iff slugByte_def)

lemma final_wild_snoc: "\<forall>seg \<in> set segs. seg \<noteq> ''*'' \<and> seg \<noteq> ''>'' \<Longrightarrow> final_wild (segs @ [x])"
  by (auto simp: final_wild_def list_all_iff)

lemma family_parts:
  assumes "eventTypeRe t" "CHR ''/'' \<notin> set x"
  shows "family_pattern (eventTopicPrefix @ replace_byte CHR ''.'' CHR ''/'' t @ ''/'' @ x)"
    "family_pattern (eventAccTopicPrefix @ replace_byte CHR ''.'' CHR ''/'' t @ ''/'' @ x)"
proof -
  have segs: "split_on CHR ''/'' (replace_byte CHR ''.'' CHR ''/'' t @ CHR ''/'' # x) =
      split_on CHR ''.'' t @ [x]"
    using split_on_replace [OF eventTypeRe_no_slash [OF assms(1)]] assms(2)
    by (simp add: split_on_append_sep)
  show "family_pattern (eventTopicPrefix @ replace_byte CHR ''.'' CHR ''/'' t @ ''/'' @ x)"
    "family_pattern (eventAccTopicPrefix @ replace_byte CHR ''.'' CHR ''/'' t @ ''/'' @ x)"
    using final_wild_snoc [of "''ev'' # split_on CHR ''.'' t" x] slug_segs [OF assms(1)]
      final_wild_snoc [of "''acc'' # ''ev'' # split_on CHR ''.'' t" x]
    by (simp_all add: family_pattern_def segs)
qed

lemma entryPatterns_family:
  assumes "eventFilterRe t" "list_all eventTargetRe tgts" "p \<in> set (entryPatterns tgts t)"
  shows "family_pattern p"
proof (cases "cut_suffix ''.*'' t")
  case None
  then have "eventTypeRe t" using assms(1) by (simp add: eventFilterRe_def)
  then show ?thesis using assms(2,3) None family_parts [of t] eventTargetRe_no_slash
    by (auto simp: entryPatterns_def Let_def list_all_iff split: if_splits)
next
  case (Some pre)
  then have "eventTypeRe pre" using assms(1) by (simp add: eventFilterRe_def)
  then show ?thesis using assms(3) Some family_parts [of pre "''>''"]
    by (auto simp: entryPatterns_def Let_def split: if_splits)
qed

lemma filterPatterns_family:
  assumes "filter_valid f" "p \<in> set (filterPatterns f)"
  shows "family_pattern p"
proof (cases "types f = []")
  case True
  with assms(2) show ?thesis
    by (auto simp: filterPatterns_def family_pattern_def final_wild_def)
next
  case False
  with assms show ?thesis
    by (auto simp: filterPatterns_def filter_valid_def list_all_iff intro: entryPatterns_family)
qed

lemma eventsSubscribe_valid: "eventsSubscribe f = Inr x \<Longrightarrow> filter_valid f"
  by (auto simp: eventsSubscribe_def filter_valid_def validTargetToken_def list_ex_iff list_all_iff
      split: if_splits)

lemma eventsPublish_valid:
  assumes "eventsPublish validTopic account req = Inr ev"
  shows "event_valid ev \<and> evType ev \<noteq> [] \<and> length (evType ev) \<le> eventTypeMaxLen \<and>
    validateEventScope (evScope ev) (evSpaceId ev) = None \<and>
    evSender ev = Some \<lparr>sndIdentity = account, sndSelf = True\<rparr>"
  using assms
  by (auto simp: eventsPublish_def event_valid_def validTargetToken_def split: if_splits option.splits)

text \<open>The scope key of a network event and the keys a subscription acquires.\<close>

definition event_key :: "Event \<Rightarrow> string" where
  "event_key ev = (if evScope ev = EventScopeAccount then [] else evSpaceId ev)"

definition interest_keys :: "bool \<times> string list \<Rightarrow> string list" where
  "interest_keys i = (if fst i then [[]] else []) @ snd i"

lemmas scope_defs = EventScopeDevice_def EventScopeAccount_def EventScopeSpace_def

lemma validateEventScope_None:
  "validateEventScope s i = None \<Longrightarrow>
     s = EventScopeDevice \<and> i = [] \<or> s = EventScopeAccount \<and> i = [] \<or> s = EventScopeSpace \<and> i \<noteq> []"
  by (auto simp: validateEventScope_def split: if_splits)

lemma subscribe_covers_key:
  assumes sub: "eventsSubscribe f = Inr i" and m: "filter_matches f ev"
    and ev: "validateEventScope (evScope ev) (evSpaceId ev) = None" "evScope ev \<noteq> EventScopeDevice"
    and named: "scopes f \<noteq> [] \<or> spaceIds f \<noteq> [] \<or> evScope ev = EventScopeAccount"
  shows "event_key ev \<in> set (interest_keys i)"
proof -
  have f: "scopes f = [] \<or> evScope ev \<in> set (scopes f)" "spaceIds f = [] \<or> evSpaceId ev \<in> set (spaceIds f)"
    using m by (auto simp: filter_matches_def split: if_splits)
  have i: "i = ((scopes f = [] \<or> EventScopeAccount \<in> set (scopes f)) \<and> spaceIds f = [],
      if scopes f = [] \<or> EventScopeSpace \<in> set (scopes f) then spaceIds f else [])"
    and ok: "\<not> (EventScopeSpace \<in> set (scopes f) \<and> spaceIds f = [])"
      "\<not> (spaceIds f \<noteq> [] \<and> scopes f \<noteq> [] \<and> EventScopeSpace \<notin> set (scopes f))"
    using sub by (auto simp: eventsSubscribe_def Let_def split: if_splits)
  consider "evScope ev = EventScopeAccount" "evSpaceId ev = []" | "evScope ev = EventScopeSpace"
    using validateEventScope_None [OF ev(1)] ev(2) by blast
  then show ?thesis
  proof cases
    case 1
    with f ok show ?thesis by (auto simp: i interest_keys_def event_key_def)
  next
    case 2
    with f ok named show ?thesis by (auto simp: i interest_keys_def event_key_def scope_defs)
  qed
qed

lemma deliver_roundtrip:
  assumes ev: "event_valid ev" "evType ev \<noteq> []" "length (evType ev) \<le> eventTypeMaxLen"
    "validateEventScope (evScope ev) (evSpaceId ev) = None" "evScope ev \<noteq> EventScopeDevice"
    and msg: "networkPublish encode account ev = (mTopic msg, mPayload msg)" "evScope ev = EventScopeSpace \<Longrightarrow> mSpaceId msg = evSpaceId ev"
    and json: "decode (mPayload msg) =
       Some \<lparr>wType = evType ev, wTarget = evTarget ev, wData = evData ev\<rparr>"
  shows "deliver decode (event_key ev) msg =
    Some (ev\<lparr>evSender := Some \<lparr>sndIdentity = mSenderIdentity msg, sndSelf = mSelf msg\<rparr>\<rparr>)"
proof -
  have topic: "mTopic msg = eventTopic (evType ev) (evTarget ev) account"
    using msg(1) by (simp add: networkPublish_def)
  have acc: "has_prefix eventAccTopicPrefix (mTopic msg)" if "evType ev \<in> set selfOwnedEventTypes"
    using that by (simp add: topic eventTopic_def Let_def has_prefix_iff)
  have key: "event_key ev = [] \<longleftrightarrow> evScope ev = EventScopeAccount"
    "event_key ev \<noteq> [] \<Longrightarrow> evScope ev = EventScopeSpace \<and> event_key ev = evSpaceId ev"
    "evScope ev = EventScopeAccount \<Longrightarrow> evSpaceId ev = []"
    "evScope ev = EventScopeAccount \<or> evScope ev = EventScopeSpace"
    using validateEventScope_None [OF ev(4)] ev(5) by (auto simp: event_key_def scope_defs split: if_splits)
  show ?thesis using ev(1,2,3) acc key msg(2) json
    by (auto simp: deliver_def event_valid_def)
qed

lemma hold_desired:
  assumes inv: "bridge_inv (b, hs)" and h: "(key, brGen b, ps) \<in> set hs" and p: "p \<in> set ps"
  shows "\<exists>sc. map_of (brScopes b) key = Some sc \<and> scope_ok sc \<and> p \<in> fst ` set (desired sc)"
proof -
  have "0 < wanted hs (brGen b) key p"
    using wanted_remove1 [OF h, of "brGen b" key p] p by (simp add: wanted_def count_list_0_iff neq0_conv [symmetric] del: neq0_conv)
  then have "0 < scope_refs b key p" using inv by (simp add: bridge_inv_def)
  then obtain sc where sc: "map_of (brScopes b) key = Some sc" "0 < refs (desired sc) p"
    by (auto simp: scope_refs_def split: option.splits)
  have "scope_ok sc" using inv bridge_ok_lookup [OF _ sc(1)] by (simp add: bridge_inv_def)
  with sc refs_keys [of "desired sc" p] show ?thesis by (auto simp: scope_ok_def)
qed

text \<open>
  C7. A network event reaches an accepted subscription exactly once: when the publish handler
  accepts an account or space event that the filter of an accepted subscription matches (a
  subscription to space events names its spaces), the subscription holds an interest on the
  event's scope, exactly one of the active pub/sub subscriptions of that scope accepts the event's
  topic, and what it delivers to the hub is the published event, stamped with the verified sender,
  which the filter matches. A message of an account event may carry any space id (the SDK sends
  that of the tech space): it is not passed on, since the delivered event has none. Assumed: the
  acquisition succeeded, no retry is pending on the scope, every wanted pattern comes from a valid
  filter, the message of a space event carries the id of its space, and the payload decodes to
  what was encoded.
\<close>

theorem network_event_delivered_once:
  assumes sub: "eventsSubscribe f = Inr i"
    and pub: "eventsPublish validTopic account req = Inr ev"
    and m: "filter_matches f ev" and net: "evScope ev \<noteq> EventScopeDevice"
    and named: "scopes f \<noteq> [] \<or> spaceIds f \<noteq> [] \<or> evScope ev = EventScopeAccount"
    and inv: "bridge_inv (b, hs)"
    and held: "\<forall>key \<in> set (interest_keys i). (key, brGen b, filterPatterns f) \<in> set hs"
    and synced: "\<forall>(key, sc) \<in> set (brScopes b).
       \<not> retryScheduled sc \<and> (\<forall>p \<in> fst ` set (desired sc). family_pattern p)"
    and msg: "networkPublish encode account ev = (mTopic msg, mPayload msg)" "evScope ev = EventScopeSpace \<Longrightarrow> mSpaceId msg = evSpaceId ev"
    and json: "decode (mPayload msg) =
       Some \<lparr>wType = evType ev, wTarget = evTarget ev, wData = evData ev\<rparr>"
  shows "\<exists>sc. map_of (brScopes b) (event_key ev) = Some sc \<and>
    (\<exists>!p. p \<in> set (active sc) \<and> pattern_accepts p (mTopic msg)) \<and>
    (\<exists>ev'. deliver decode (event_key ev) msg = Some ev' \<and> filter_matches f ev' \<and>
       ev' = ev\<lparr>evSender := Some \<lparr>sndIdentity = mSenderIdentity msg, sndSelf = mSelf msg\<rparr>\<rparr>)"
proof -
  have ev: "event_valid ev" "evType ev \<noteq> []" "length (evType ev) \<le> eventTypeMaxLen"
    "validateEventScope (evScope ev) (evSpaceId ev) = None"
    using eventsPublish_valid [OF pub] by auto
  have "event_key ev \<in> set (interest_keys i)"
    by (rule subscribe_covers_key [OF sub m ev(4) net named])
  with held have h: "(event_key ev, brGen b, filterPatterns f) \<in> set hs" by blast
  have topic: "mTopic msg = eventTopic (evType ev) (evTarget ev) account"
    using msg(1) by (simp add: networkPublish_def)
  obtain p where p: "p \<in> set (filterPatterns f)" "pattern_accepts p (mTopic msg)"
    using filter_covers [OF eventsSubscribe_valid [OF sub] ev(1) m] topic by metis
  obtain sc where sc: "map_of (brScopes b) (event_key ev) = Some sc" "scope_ok sc"
    "p \<in> fst ` set (desired sc)"
    using hold_desired [OF inv h p(1)] by blast
  have "\<not> retryScheduled sc" and fam: "\<forall>p \<in> set (map fst (desired sc)). family_pattern p"
    using synced map_of_SomeD [OF sc(1)] by auto
  then have "set (active sc) = set (maximalPatterns (map fst (desired sc)))"
    using sc(2) by (simp add: scope_ok_def)
  moreover have "\<exists>!p. p \<in> set (maximalPatterns (map fst (desired sc))) \<and> pattern_accepts p (mTopic msg)"
    using exact_cover [OF fam, of "mTopic msg"] sc(3) p(2) by auto
  moreover have "deliver decode (event_key ev) msg =
      Some (ev\<lparr>evSender := Some \<lparr>sndIdentity = mSenderIdentity msg, sndSelf = mSelf msg\<rparr>\<rparr>)"
    by (rule deliver_roundtrip [where decode = decode, OF ev net msg json])
  moreover have "filter_matches f (ev\<lparr>evSender := x\<rparr>) = filter_matches f ev" for x
    by (simp add: filter_matches_def)
  ultimately show ?thesis using sc(1) m by simp
qed

definition demo_pub :: EventPublishRequest where
  "demo_pub = \<lparr>epType = ''process.done'', epScope = ''account'', epSpaceId = [], epTarget = ''p1'', epData = []\<rparr>"

definition demo_filter :: eventFilter where
  "demo_filter = \<lparr>scopes = [''account''], spaceIds = [], types = [''process.*''], targets = []\<rparr>"

definition demo_wire :: wireEvent where
  "demo_wire = \<lparr>wType = ''process.done'', wTarget = ''p1'', wData = []\<rparr>"

theorem network_event_delivered_once_witness:
  "\<exists>b hs ev. run_ops bridge_step (newEventsBridge, [])
       [BAcquire demo_env demo_env 0 [] (filterPatterns demo_filter)] = Inr (b, hs) \<and>
     eventsPublish (\<lambda>_. True) ''Acc'' demo_pub = Inr ev \<and>
     (\<exists>sc. map_of (brScopes b) [] = Some sc \<and>
        (\<exists>!p. p \<in> set (active sc) \<and> pattern_accepts p ''ev/process/done/p1'')) \<and>
     deliver (\<lambda>_. Some demo_wire) [] \<lparr>mTopic = ''ev/process/done/p1'', mPayload = [],
       mSenderIdentity = ''Acc'', mSelf = True, mSpaceId = ''tech-space-id''\<rparr> = Some ev"
proof -
  let ?ops = "[BAcquire demo_env demo_env 0 [] (filterPatterns demo_filter)]"
  define w where "w = projr (run_ops bridge_step (newEventsBridge, []) ?ops)"
  define ev where "ev = \<lparr>evType = ''process.done'', evScope = ''account'', evSpaceId = [],
      evTarget = ''p1'', evData = [], evSender = Some \<lparr>sndIdentity = ''Acc'', sndSelf = True\<rparr>\<rparr>"
  define msg where "msg = \<lparr>mTopic = fst (networkPublish (\<lambda>_. []) ''Acc'' ev), mPayload = [],
      mSenderIdentity = ''Acc'', mSelf = True, mSpaceId = ''tech-space-id''\<rparr>"
  have run: "run_ops bridge_step (newEventsBridge, []) ?ops = Inr w"
    unfolding w_def by (rule exE [OF bridge.run_safe [of ?ops]]) (erule conjE, simp only: sum.sel)
  have sub: "eventsSubscribe demo_filter = Inr (True, [])" by code_simp
  have ok: "eventTypeRe ''process.done''" "eventTargetRe ''p1''" "validateEventScope ''account'' [] = None"
    by code_simp+
  have pub: "eventsPublish (\<lambda>_. True) ''Acc'' demo_pub = Inr ev"
    using ok by (simp add: eventsPublish_def demo_pub_def ev_def eventTypeMaxLen_def validTargetToken_def)
  have m: "filter_matches demo_filter ev" unfolding ev_def by code_simp
  have net: "evScope ev = EventScopeAccount" "evScope ev \<noteq> EventScopeDevice" "event_key ev = []"
    "evSpaceId ev = []" unfolding ev_def by code_simp+
  have held: "\<forall>key \<in> set (interest_keys (True, [])). (key, brGen (fst w), filterPatterns demo_filter) \<in> set (snd w)"
    unfolding w_def by code_simp
  have synced: "\<forall>(key, sc) \<in> set (brScopes (fst w)).
      \<not> retryScheduled sc \<and> (\<forall>p \<in> fst ` set (desired sc). family_pattern p)"
    unfolding w_def by code_simp
  have json: "Some demo_wire = Some \<lparr>wType = evType ev, wTarget = evTarget ev, wData = evData ev\<rparr>"
    unfolding ev_def by code_simp
  have topic: "mTopic msg = ''ev/process/done/p1''" unfolding msg_def ev_def by code_simp
  have inv: "bridge_inv (fst w, snd w)" using bridge.run_inv [OF run] by simp
  have sent: "networkPublish (\<lambda>_. []) ''Acc'' ev = (mTopic msg, mPayload msg)"
    by (simp add: msg_def networkPublish_def)
  have space: "evScope ev = EventScopeSpace \<Longrightarrow> mSpaceId msg = evSpaceId ev"
    using net(1) by (simp add: scope_defs)
  note once = network_event_delivered_once [OF sub pub m net(2) _ inv held synced sent space,
      where decode = "\<lambda>_. Some demo_wire"]
  have got: "\<exists>sc. map_of (brScopes (fst w)) [] = Some sc \<and>
      (\<exists>!p. p \<in> set (active sc) \<and> pattern_accepts p ''ev/process/done/p1'')"
    "deliver (\<lambda>_. Some demo_wire) [] msg =
      Some (ev\<lparr>evSender := Some \<lparr>sndIdentity = mSenderIdentity msg, sndSelf = mSelf msg\<rparr>\<rparr>)"
    using once net(1) json unfolding net(3) topic by auto
  have "msg = \<lparr>mTopic = ''ev/process/done/p1'', mPayload = [],
      mSenderIdentity = ''Acc'', mSelf = True, mSpaceId = ''tech-space-id''\<rparr>"
    using topic by (simp add: msg_def)
  moreover have "ev\<lparr>evSender := Some \<lparr>sndIdentity = mSenderIdentity msg, sndSelf = mSelf msg\<rparr>\<rparr> = ev"
    by (simp add: ev_def msg_def)
  ultimately show ?thesis using run pub got by (intro exI [of _ "fst w"] exI [of _ "snd w"] exI [of _ ev] conjI) simp_all
qed

end
