(* ===== verification/EngineGate.thy ===== *)
theory EngineGate
  imports Prelude
begin

text \<open>
  The engine gate (src/internal/server/gate.go): the admission counter that lets a teardown refuse
  new requests and wait for the running ones before the engine is replaced.

  Generations and drain channels live in a store: \<open>gens\<close> is the list of \<open>gateGen\<close>
  objects allocated so far and a token is its index; \<open>drains\<close> is the list of channels
  allocated so far, true when closed. Closing a channel twice panics in Go and is the error of
  the operations. Every operation runs under the gate's mutex.
\<close>

record gateGen =
  gn :: int
  gclosed :: bool
  gdrained :: "nat option"

record engineGate =
  cur :: "nat option"
  gens :: "gateGen list"
  drains :: "bool list"

datatype gate_panic = CloseOfClosedDrain nat

definition newGate :: engineGate where
  "newGate = \<lparr>cur = None, gens = [], drains = []\<rparr>"

definition freshGen :: gateGen where
  "freshGen = \<lparr>gn = 0, gclosed = False, gdrained = None\<rparr>"

text \<open>\<open>if g.cur == nil { g.cur = &gateGen{} }\<close>, with the address of the current generation.\<close>

definition ensure_cur :: "engineGate \<Rightarrow> nat \<times> engineGate" where
  "ensure_cur g =
     (case cur g of
        Some i \<Rightarrow> (i, g)
      | None \<Rightarrow> (length (gens g), g\<lparr>cur := Some (length (gens g)), gens := gens g @ [freshGen]\<rparr>))"

definition gate_enter :: "engineGate \<Rightarrow> nat option \<times> engineGate" where
  "gate_enter g0 =
     (let (i, g) = ensure_cur g0; gen = gens g ! i
      in if gclosed gen then (None, g)
         else (Some i, g\<lparr>gens := (gens g)[i := gen\<lparr>gn := gn gen + 1\<rparr>]\<rparr>))"

definition close_drain :: "nat \<Rightarrow> engineGate \<Rightarrow> gate_panic + engineGate" where
  "close_drain c g =
     (if drains g ! c then Inl (CloseOfClosedDrain c) else Inr (g\<lparr>drains := (drains g)[c := True]\<rparr>))"

definition gate_leave :: "nat \<Rightarrow> engineGate \<Rightarrow> gate_panic + engineGate" where
  "gate_leave h g =
     (let gen = (gens g ! h)\<lparr>gn := gn (gens g ! h) - 1\<rparr>;
          g1 = g\<lparr>gens := (gens g)[h := gen]\<rparr>
      in if gn gen = 0 \<and> gclosed gen
         then (case gdrained gen of
                 None \<Rightarrow> Inr g1
               | Some c \<Rightarrow>
                   (case close_drain c g1 of
                      Inl p \<Rightarrow> Inl p
                    | Inr g2 \<Rightarrow> Inr (g2\<lparr>gens := (gens g2)[h := gen\<lparr>gdrained := None\<rparr>]\<rparr>)))
         else Inr g1)"

definition gate_close :: "engineGate \<Rightarrow> gate_panic + nat \<times> engineGate" where
  "gate_close g0 =
     (let (i, g) = ensure_cur g0; gen = gens g ! i;
          r = (if gclosed gen then Inr g
               else
                 let c = length (drains g);
                     g1 = g\<lparr>drains := drains g @ [False],
                            gens := (gens g)[i := gen\<lparr>gclosed := True, gdrained := Some c\<rparr>]\<rparr>
                 in if gn gen = 0
                    then (case close_drain c g1 of
                            Inl p \<Rightarrow> Inl p
                          | Inr g2 \<Rightarrow>
                              Inr (g2\<lparr>gens := (gens g2)[i := gen\<lparr>gclosed := True, gdrained := None\<rparr>]\<rparr>))
                    else Inr g1)
      in case r of
           Inl p \<Rightarrow> Inl p
         | Inr g2 \<Rightarrow>
             (case gdrained (gens g2 ! i) of
                None \<Rightarrow>
                  let d = length (drains g2)
                  in (case close_drain d (g2\<lparr>drains := drains g2 @ [False]\<rparr>) of
                        Inl p \<Rightarrow> Inl p
                      | Inr g3 \<Rightarrow> Inr (d, g3))
              | Some c \<Rightarrow> Inr (c, g2)))"

definition gate_reset :: "engineGate \<Rightarrow> engineGate" where
  "gate_reset g = g\<lparr>cur := Some (length (gens g)), gens := gens g @ [freshGen]\<rparr>"

definition enterGate :: "bool \<Rightarrow> engineGate \<Rightarrow> nat option \<times> engineGate" where
  "enterGate ready g = (if \<not> ready then (None, g) else gate_enter g)"

section \<open>Executions\<close>

text \<open>
  A world is the gate with the tokens held and the channels handed to teardowns, each with the
  generation it drains. A token is left once, by its holder, at any later time.
\<close>

record gate_world =
  wGate :: engineGate
  holders :: "nat list"
  waits :: "(nat \<times> nat) list"

datatype gate_op = GEnter bool | GLeave nat | GClose | GReset

fun gate_step :: "gate_world \<Rightarrow> gate_op \<Rightarrow> gate_panic + gate_world" where
  "gate_step w (GEnter ready) =
     (case enterGate ready (wGate w) of
        (None, g) \<Rightarrow> Inr (w\<lparr>wGate := g\<rparr>)
      | (Some i, g) \<Rightarrow> Inr (w\<lparr>wGate := g, holders := i # holders w\<rparr>))"
| "gate_step w (GLeave h) =
     (if h \<in> set (holders w)
      then (case gate_leave h (wGate w) of
              Inl p \<Rightarrow> Inl p
            | Inr g \<Rightarrow> Inr (w\<lparr>wGate := g, holders := remove1 h (holders w)\<rparr>))
      else Inr w)"
| "gate_step w GClose =
     (case gate_close (wGate w) of
        Inl p \<Rightarrow> Inl p
      | Inr (c, g) \<Rightarrow>
          Inr (w\<lparr>wGate := g, waits := (the (cur g), c) # waits w\<rparr>))"
| "gate_step w GReset = Inr (w\<lparr>wGate := gate_reset (wGate w)\<rparr>)"

definition gate_world0 :: gate_world where
  "gate_world0 = \<lparr>wGate = newGate, holders = [], waits = []\<rparr>"

text \<open>What one generation promises about its count and its pending channel.\<close>

definition gen_ok :: "bool list \<Rightarrow> nat \<Rightarrow> gateGen \<Rightarrow> bool" where
  "gen_ok ds n gen \<longleftrightarrow> gn gen = int n \<and>
     (case gdrained gen of
        None \<Rightarrow> gclosed gen \<longrightarrow> n = 0
      | Some c \<Rightarrow> gclosed gen \<and> 0 < n \<and> c < length ds \<and> \<not> ds ! c)"

text \<open>What a channel handed out for a generation promises: closed once the last holder has left.\<close>

definition wait_ok :: "bool list \<Rightarrow> gateGen \<Rightarrow> nat \<Rightarrow> bool" where
  "wait_ok ds gen c \<longleftrightarrow> c < length ds \<and> gclosed gen \<and>
     (if gn gen = 0 then ds ! c else gdrained gen = Some c)"

definition gate_ok :: "engineGate \<Rightarrow> nat list \<Rightarrow> (nat \<times> nat) list \<Rightarrow> bool" where
  "gate_ok g hs ws \<longleftrightarrow>
     (\<forall>i < length (gens g). gen_ok (drains g) (count_list hs i) (gens g ! i)) \<and>
     (\<forall>h \<in> set hs. h < length (gens g)) \<and>
     (\<forall>i. cur g = Some i \<longrightarrow> i < length (gens g)) \<and>
     (\<forall>i < length (gens g). \<forall>j < length (gens g).
        i \<noteq> j \<longrightarrow> gdrained (gens g ! i) \<noteq> None \<longrightarrow> gdrained (gens g ! i) \<noteq> gdrained (gens g ! j)) \<and>
     (\<forall>(i, c) \<in> set ws. i < length (gens g) \<and> wait_ok (drains g) (gens g ! i) c)"

lemma count_beyond: "\<forall>h \<in> set hs. h < (n :: nat) \<Longrightarrow> count_list hs n = 0"
  by (fastforce simp: count_list_0_iff)

lemma gate_ok_fresh:
  assumes "gate_ok g hs ws"
  shows "gate_ok (g\<lparr>cur := Some (length (gens g)), gens := gens g @ [freshGen]\<rparr>) hs ws"
  using assms count_beyond [of hs "length (gens g)"]
  by (auto simp: gate_ok_def freshGen_def nth_append less_Suc_eq gen_ok_def)

lemma ensure_cur_ok:
  assumes "gate_ok g hs ws" "ensure_cur g = (i, g')"
  shows "gate_ok g' hs ws \<and> cur g' = Some i \<and> i < length (gens g')"
proof (cases "cur g")
  case None
  with assms gate_ok_fresh [OF assms(1)] show ?thesis by (auto simp: ensure_cur_def)
next
  case (Some j)
  then have "j < length (gens g)" using assms(1) by (simp add: gate_ok_def)
  with Some assms show ?thesis by (simp add: ensure_cur_def)
qed

text \<open>Replacing one generation, with the store of channels only growing or closing its own one.\<close>

lemma gate_ok_update:
  assumes ok: "gate_ok g hs ws" and i: "i < length (gens g)"
    and gen: "gen_ok ds' (count_list hs' i) gen'"
    and hs: "\<forall>j. j \<noteq> i \<longrightarrow> count_list hs' j = count_list hs j" "\<forall>h \<in> set hs'. h < length (gens g)"
    and ds: "length (drains g) \<le> length ds'"
      "\<forall>c < length (drains g). ds' ! c \<noteq> drains g ! c \<longrightarrow> ds' ! c \<and> gdrained (gens g ! i) = Some c"
    and own: "\<forall>c. gdrained gen' = Some c \<longrightarrow> gdrained (gens g ! i) = Some c \<or> length (drains g) \<le> c"
    and ws: "\<forall>(j, c) \<in> set ws'. if j = i then wait_ok ds' gen' c else (j, c) \<in> set ws"
  shows "gate_ok (g\<lparr>gens := (gens g)[i := gen'], drains := ds'\<rparr>) hs' ws'"
proof -
  have keep: "gen_ok ds' (count_list hs' j) (gens g ! j)" if "j < length (gens g)" "j \<noteq> i" for j
  proof -
    have "gdrained (gens g ! j) \<noteq> Some c \<or> gdrained (gens g ! i) \<noteq> Some c" for c
      using ok that i unfolding gate_ok_def by (metis option.distinct(1))
    moreover have "gen_ok (drains g) (count_list hs j) (gens g ! j)" using ok that by (simp add: gate_ok_def)
    ultimately show ?thesis using ds hs(1) that
      by (auto simp: gen_ok_def split: option.splits)
  qed
  have wait: "wait_ok ds' (gens g ! j) c" if "j \<noteq> i" "(j, c) \<in> set ws" for j c
  proof -
    have j: "j < length (gens g)" "wait_ok (drains g) (gens g ! j) c" using ok that by (auto simp: gate_ok_def)
    have "ds' ! c = drains g ! c \<or> ds' ! c" using ds(2) j(2) by (auto simp: wait_ok_def)
    then show ?thesis using j ds(1) by (auto simp: wait_ok_def)
  qed
  have sep: "c < length (drains g)" if "j < length (gens g)" "gdrained (gens g ! j) = Some c" for j c
    using ok that unfolding gate_ok_def gen_ok_def by fastforce
  have old: "gdrained (gens g ! j) = Some c \<Longrightarrow> gdrained (gens g ! k) \<noteq> Some c"
    if "j < length (gens g)" "k < length (gens g)" "j \<noteq> k" for j k c
    using ok that unfolding gate_ok_def by (metis option.distinct(1))
  have new: "gdrained gen' = Some c \<Longrightarrow> gdrained (gens g ! k) \<noteq> Some c"
    if "k < length (gens g)" "k \<noteq> i" for k c
    using own old [OF i that(1), of c] sep [OF that(1), of c] that(2) by fastforce
  show ?thesis
    unfolding gate_ok_def
  proof (intro conjI)
    show "\<forall>j < length (gens (g\<lparr>gens := (gens g)[i := gen'], drains := ds'\<rparr>)).
      gen_ok (drains (g\<lparr>gens := (gens g)[i := gen'], drains := ds'\<rparr>)) (count_list hs' j)
        (gens (g\<lparr>gens := (gens g)[i := gen'], drains := ds'\<rparr>) ! j)"
      using keep gen i by (auto simp: nth_list_update)
    show "\<forall>(j, c) \<in> set ws'. j < length (gens (g\<lparr>gens := (gens g)[i := gen'], drains := ds'\<rparr>)) \<and>
      wait_ok (drains (g\<lparr>gens := (gens g)[i := gen'], drains := ds'\<rparr>))
        (gens (g\<lparr>gens := (gens g)[i := gen'], drains := ds'\<rparr>) ! j) c"
      using ws wait i ok by (fastforce simp: gate_ok_def nth_list_update split: if_splits)
    show "\<forall>j < length (gens (g\<lparr>gens := (gens g)[i := gen'], drains := ds'\<rparr>)).
      \<forall>k < length (gens (g\<lparr>gens := (gens g)[i := gen'], drains := ds'\<rparr>)). j \<noteq> k \<longrightarrow>
        gdrained (gens (g\<lparr>gens := (gens g)[i := gen'], drains := ds'\<rparr>) ! j) \<noteq> None \<longrightarrow>
        gdrained (gens (g\<lparr>gens := (gens g)[i := gen'], drains := ds'\<rparr>) ! j) \<noteq>
        gdrained (gens (g\<lparr>gens := (gens g)[i := gen'], drains := ds'\<rparr>) ! k)"
    proof (intro allI impI)
      fix j k
      assume "j < length (gens (g\<lparr>gens := (gens g)[i := gen'], drains := ds'\<rparr>))"
        "k < length (gens (g\<lparr>gens := (gens g)[i := gen'], drains := ds'\<rparr>))" and ne: "j \<noteq> k"
        and "gdrained (gens (g\<lparr>gens := (gens g)[i := gen'], drains := ds'\<rparr>) ! j) \<noteq> None"
      then obtain c where "j < length (gens g)" "k < length (gens g)"
        "gdrained ((gens g)[i := gen'] ! j) = Some c" by auto
      then have "gdrained ((gens g)[i := gen'] ! k) \<noteq> Some c"
        using old [of j k c] new [of k c] new [of j c] ne by (cases "j = i"; cases "k = i") auto
      with \<open>gdrained ((gens g)[i := gen'] ! j) = Some c\<close>
      show "gdrained (gens (g\<lparr>gens := (gens g)[i := gen'], drains := ds'\<rparr>) ! j) \<noteq>
        gdrained (gens (g\<lparr>gens := (gens g)[i := gen'], drains := ds'\<rparr>) ! k)" by simp
    qed
  qed (use ok hs in \<open>auto simp: gate_ok_def\<close>)
qed

lemma gate_ok_gen:
  "gate_ok g hs ws \<Longrightarrow> i < length (gens g) \<Longrightarrow> gen_ok (drains g) (count_list hs i) (gens g ! i)"
  by (simp add: gate_ok_def)

lemma gate_ok_wait:
  "gate_ok g hs ws \<Longrightarrow> (i, c) \<in> set ws \<Longrightarrow> i < length (gens g) \<and> wait_ok (drains g) (gens g ! i) c"
  by (auto simp: gate_ok_def)

lemma gate_enter_ok:
  assumes "gate_ok g hs ws" "gate_enter g = (r, g')"
  shows "gate_ok g' (case r of None \<Rightarrow> hs | Some i \<Rightarrow> i # hs) ws"
proof -
  obtain i g1 where e: "ensure_cur g = (i, g1)" by fastforce
  note g1 = ensure_cur_ok [OF assms(1) e]
  let ?gen = "gens g1 ! i"
  show ?thesis
  proof (cases "gclosed ?gen")
    case True
    with assms(2) e g1 show ?thesis by (auto simp: gate_enter_def Let_def)
  next
    case False
    have ok: "gen_ok (drains g1) (count_list hs i) ?gen" using g1 gate_ok_gen by blast
    have "gate_ok (g1\<lparr>gens := (gens g1)[i := ?gen\<lparr>gn := gn ?gen + 1\<rparr>], drains := drains g1\<rparr>) (i # hs) ws"
    proof (rule gate_ok_update [OF conjunct1 [OF g1]])
      show "gen_ok (drains g1) (count_list (i # hs) i) (?gen\<lparr>gn := gn ?gen + 1\<rparr>)"
        using ok False by (auto simp: gen_ok_def split: option.splits)
      show "\<forall>(j, c) \<in> set ws. if j = i then wait_ok (drains g1) (?gen\<lparr>gn := gn ?gen + 1\<rparr>) c else (j, c) \<in> set ws"
        using False gate_ok_wait [OF conjunct1 [OF g1]] by (auto simp: wait_ok_def)
      show "\<forall>h \<in> set (i # hs). h < length (gens g1)" using g1 by (auto simp: gate_ok_def)
    qed (use g1 in auto)
    with assms(2) e False show ?thesis by (auto simp: gate_enter_def Let_def)
  qed
qed

lemma gate_leave_ok:
  assumes ok: "gate_ok g hs ws" and h: "h \<in> set hs"
  shows "\<exists>g'. gate_leave h g = Inr g' \<and> gate_ok g' (remove1 h hs) ws"
proof -
  have lt: "h < length (gens g)" using ok h by (simp add: gate_ok_def)
  let ?old = "gens g ! h"
  let ?gen = "?old\<lparr>gn := gn ?old - 1\<rparr>"
  have gen: "gen_ok (drains g) (count_list hs h) ?old" by (rule gate_ok_gen [OF ok lt])
  have cnt: "count_list (remove1 h hs) h = count_list hs h - 1" "0 < count_list hs h"
    "\<And>j. j \<noteq> h \<Longrightarrow> count_list (remove1 h hs) j = count_list hs j"
    using h by (induction hs) auto
  have hs: "\<forall>x \<in> set (remove1 h hs). x < length (gens g)"
    using ok set_remove1_subset [of h hs] by (auto simp: gate_ok_def)
  note upd = gate_ok_update [OF ok lt, where hs' = "remove1 h hs" and ws' = ws]
  show ?thesis
  proof (cases "\<exists>c. gdrained ?old = Some c \<and> gn ?gen = 0")
    case True
    then obtain c where c: "gdrained ?old = Some c" "gn ?gen = 0" by blast
    with gen have cl: "gclosed ?old" "c < length (drains g)" "\<not> drains g ! c" by (auto simp: gen_ok_def)
    have "gate_ok (g\<lparr>gens := (gens g)[h := ?gen\<lparr>gdrained := None\<rparr>], drains := (drains g)[c := True]\<rparr>)
        (remove1 h hs) ws"
    proof (rule upd)
      show "gen_ok ((drains g)[c := True]) (count_list (remove1 h hs) h) (?gen\<lparr>gdrained := None\<rparr>)"
        using gen c cnt(1) by (auto simp: gen_ok_def)
      show "\<forall>(j, d) \<in> set ws. if j = h then wait_ok ((drains g)[c := True]) (?gen\<lparr>gdrained := None\<rparr>) d
          else (j, d) \<in> set ws"
        using c cl gate_ok_wait [OF ok] by (auto simp: wait_ok_def nth_list_update split: if_splits)
    qed (use c cl cnt hs in \<open>auto simp: nth_list_update\<close>)
    moreover have "gate_leave h g =
        Inr (g\<lparr>gens := (gens g)[h := ?gen\<lparr>gdrained := None\<rparr>], drains := (drains g)[c := True]\<rparr>)"
      using c cl lt by (simp add: gate_leave_def Let_def close_drain_def)
    ultimately show ?thesis by blast
  next
    case False
    have "gate_ok (g\<lparr>gens := (gens g)[h := ?gen], drains := drains g\<rparr>) (remove1 h hs) ws"
    proof (rule upd)
      show "gen_ok (drains g) (count_list (remove1 h hs) h) ?gen"
        using gen False cnt(1,2) by (auto simp: gen_ok_def split: option.splits)
      show "\<forall>(j, d) \<in> set ws. if j = h then wait_ok (drains g) ?gen d else (j, d) \<in> set ws"
        using gen False cnt(2) gate_ok_wait [OF ok]
        by (auto simp: wait_ok_def gen_ok_def split: option.splits if_splits)
    qed (use cnt hs in auto)
    moreover have "gate_leave h g = Inr (g\<lparr>gens := (gens g)[h := ?gen]\<rparr>)"
      using False by (auto simp: gate_leave_def Let_def split: option.splits)
    ultimately show ?thesis by auto
  qed
qed

lemma gate_ok_wait_Cons:
  "gate_ok g hs ws \<Longrightarrow> i < length (gens g) \<Longrightarrow> wait_ok (drains g) (gens g ! i) c \<Longrightarrow>
     gate_ok g hs ((i, c) # ws)"
  by (simp add: gate_ok_def)

lemma gate_ok_new_drain:
  assumes ok: "gate_ok g hs ws"
  shows "gate_ok (g\<lparr>drains := drains g @ [b]\<rparr>) hs ws"
proof -
  have "gen_ok (drains g @ [b]) n gen" if "gen_ok (drains g) n gen" for n gen
    using that by (auto simp: gen_ok_def nth_append split: option.splits)
  moreover have "wait_ok (drains g @ [b]) gen c" if "wait_ok (drains g) gen c" for gen c
    using that by (auto simp: wait_ok_def nth_append)
  ultimately show ?thesis using ok by (auto simp: gate_ok_def)
qed

lemma gate_close_ok:
  assumes "gate_ok g hs ws"
  shows "\<exists>c g' i. gate_close g = Inr (c, g') \<and> cur g' = Some i \<and> gate_ok g' hs ((i, c) # ws)"
proof -
  obtain i g1 where e: "ensure_cur g = (i, g1)" by fastforce
  from ensure_cur_ok [OF assms e] have ok: "gate_ok g1 hs ws" and i: "cur g1 = Some i" "i < length (gens g1)"
    by auto
  let ?gen = "gens g1 ! i"
  have gen: "gen_ok (drains g1) (count_list hs i) ?gen" by (rule gate_ok_gen [OF ok i(2)])
  have noW: "\<forall>(j, c) \<in> set ws. j \<noteq> i" if "\<not> gclosed ?gen"
    using that gate_ok_wait [OF ok] by (auto simp: wait_ok_def)
  let ?d = "length (drains g1)"
  consider (again_done) "gclosed ?gen" "gdrained ?gen = None"
    | (again_wait) c where "gclosed ?gen" "gdrained ?gen = Some c"
    | (idle) "\<not> gclosed ?gen" "gn ?gen = 0" | (busy) "\<not> gclosed ?gen" "gn ?gen \<noteq> 0"
    by (cases "gdrained ?gen") blast+
  then show ?thesis
  proof cases
    case again_done
    let ?g = "g1\<lparr>drains := drains g1 @ [True]\<rparr>"
    have "gate_close g = Inr (?d, ?g)"
      using again_done e by (simp add: gate_close_def Let_def close_drain_def nth_append)
    moreover have "gate_ok ?g hs ((i, ?d) # ws)"
      using again_done gen i gate_ok_new_drain [OF ok, of True]
      by (intro gate_ok_wait_Cons) (auto simp: wait_ok_def nth_append gen_ok_def)
    ultimately show ?thesis using i by auto
  next
    case again_wait
    have "gate_close g = Inr (c, g1)"
      using again_wait e by (simp add: gate_close_def Let_def)
    moreover have "gate_ok g1 hs ((i, c) # ws)"
      using again_wait gen i ok by (intro gate_ok_wait_Cons) (auto simp: wait_ok_def gen_ok_def)
    ultimately show ?thesis using i by blast
  next
    case idle
    let ?new = "?gen\<lparr>gclosed := True, gdrained := None\<rparr>"
    let ?g = "g1\<lparr>gens := (gens g1)[i := ?new], drains := drains g1 @ [True, True]\<rparr>"
    have "(drains g1 @ [True, False])[Suc ?d := True] = drains g1 @ [True, True]"
      by (simp add: list_update_append)
    then have "gate_close g = Inr (?d + 1, ?g)"
      using idle e i by (simp add: gate_close_def Let_def close_drain_def nth_append)
    moreover have "gate_ok ?g hs ((i, ?d + 1) # ws)"
    proof (rule gate_ok_wait_Cons)
      show "gate_ok ?g hs ws"
        by (rule gate_ok_update [OF ok i(2)])
          (use idle gen noW ok in \<open>auto simp: gen_ok_def nth_append gate_ok_def\<close>)
    qed (use idle i in \<open>auto simp: wait_ok_def nth_append\<close>)
    ultimately show ?thesis using i by auto
  next
    case busy
    let ?new = "?gen\<lparr>gclosed := True, gdrained := Some ?d\<rparr>"
    let ?g = "g1\<lparr>gens := (gens g1)[i := ?new], drains := drains g1 @ [False]\<rparr>"
    have "gate_close g = Inr (?d, ?g)"
      using busy e i by (simp add: gate_close_def Let_def)
    moreover have "gate_ok ?g hs ((i, ?d) # ws)"
    proof (rule gate_ok_wait_Cons)
      show "gate_ok ?g hs ws"
        by (rule gate_ok_update [OF ok i(2)])
          (use busy gen noW ok in \<open>auto simp: gen_ok_def nth_append gate_ok_def\<close>)
    qed (use busy i in \<open>auto simp: wait_ok_def nth_append\<close>)
    ultimately show ?thesis using i by auto
  qed
qed

interpretation gate: safe_machine gate_step gate_world0
  "\<lambda>w. gate_ok (wGate w) (holders w) (waits w)"
proof unfold_locales
  show "gate_ok (wGate gate_world0) (holders gate_world0) (waits gate_world0)"
    by (simp add: gate_world0_def newGate_def gate_ok_def)
next
  fix w :: gate_world and op
  assume ok: "gate_ok (wGate w) (holders w) (waits w)"
  show "\<exists>w'. gate_step w op = Inr w' \<and> gate_ok (wGate w') (holders w') (waits w')"
  proof (cases op)
    case (GEnter ready)
    obtain r g where "enterGate ready (wGate w) = (r, g)" by fastforce
    with GEnter ok gate_enter_ok [OF ok, of r g] show ?thesis
      by (cases r) (auto simp: enterGate_def split: if_splits)
  next
    case (GLeave h)
    with ok gate_leave_ok [OF ok, of h] show ?thesis by auto
  next
    case GClose
    with gate_close_ok [OF ok] show ?thesis by auto
  next
    case GReset
    with gate_ok_fresh [OF ok] show ?thesis by (simp add: gate_reset_def)
  qed
qed

text \<open>
  C8. A drain is exact: under any interleaving of admissions, departures (also of stragglers from
  before a reset), closes and resets, no channel is closed twice, every generation counts exactly
  its own holders, and a channel handed out by a close is closed if and only if every holder of
  that generation has left.
\<close>

theorem gate_drain_exact:
  "\<exists>w. run_ops gate_step gate_world0 ops = Inr w \<and>
     map gn (gens (wGate w)) = map (\<lambda>i. int (count_list (holders w) i)) [0..<length (gens (wGate w))] \<and>
     list_all (\<lambda>(i, c). gclosed (gens (wGate w) ! i) \<and>
                 (drains (wGate w) ! c \<longleftrightarrow> i \<notin> set (holders w))) (waits w)"
proof -
  obtain w where w: "run_ops gate_step gate_world0 ops = Inr w"
    and ok: "gate_ok (wGate w) (holders w) (waits w)"
    using gate.run_safe by blast
  have "gn (gens (wGate w) ! i) = int (count_list (holders w) i)" if "i < length (gens (wGate w))" for i
    using gate_ok_gen [OF ok that] by (simp add: gen_ok_def)
  then have "map gn (gens (wGate w)) = map (\<lambda>i. int (count_list (holders w) i)) [0..<length (gens (wGate w))]"
    by (intro nth_equalityI) auto
  moreover have "gclosed (gens (wGate w) ! i) \<and> (drains (wGate w) ! c \<longleftrightarrow> i \<notin> set (holders w))"
    if "(i, c) \<in> set (waits w)" for i c
    using gate_ok_wait [OF ok that] gate_ok_gen [OF ok, of i]
    by (auto simp: wait_ok_def gen_ok_def count_list_0_iff split: if_splits)
  ultimately show ?thesis using w by (auto simp: list_all_iff)
qed

definition gate_shut :: "engineGate \<Rightarrow> bool" where
  "gate_shut g = (case cur g of None \<Rightarrow> False | Some i \<Rightarrow> i < length (gens g) \<and> gclosed (gens g ! i))"

lemma gate_shut_refuses: "gate_shut g \<Longrightarrow> enterGate ready g = (None, g)"
  by (auto simp: gate_shut_def enterGate_def gate_enter_def ensure_cur_def split: option.splits)

lemma gate_shut_leave:
  "gate_shut g \<Longrightarrow> gate_leave h g = Inr g' \<Longrightarrow> gate_shut g'"
  by (cases "h < length (gens g)")
    (auto simp: gate_shut_def gate_leave_def close_drain_def Let_def nth_list_update
      split: option.splits if_splits)

lemma gate_shut_close: "gate_ok g hs ws \<Longrightarrow> gate_close g = Inr (c, g') \<Longrightarrow> gate_shut g'"
  using gate_close_ok [of g hs ws] gate_ok_wait [of g' hs "(_, c) # ws"]
  by (fastforce simp: gate_shut_def wait_ok_def)

lemma gate_shut_step:
  assumes ok: "gate_ok (wGate w) (holders w) (waits w)" and shut: "gate_shut (wGate w)"
    and step: "gate_step w op = Inr w'" and op: "op \<noteq> GReset"
  shows "gate_shut (wGate w')"
proof (cases op)
  case (GEnter ready)
  with step shut gate_shut_refuses [OF shut, of ready] show ?thesis by auto
next
  case (GLeave h)
  with step shut gate_shut_leave [OF shut, of h] show ?thesis by (auto split: if_splits sum.splits)
next
  case GClose
  with step gate_shut_close [OF ok] show ?thesis by (auto split: sum.splits)
qed (use op in simp)

lemma gate_shut_run:
  assumes "gate_ok (wGate w) (holders w) (waits w)" "gate_shut (wGate w)"
    and "run_ops gate_step w ops = Inr w'" "GReset \<notin> set ops"
  shows "gate_shut (wGate w')"
  using assms
proof (induction ops arbitrary: w)
  case (Cons op ops)
  from Cons.prems(3) obtain w1 where w1: "gate_step w op = Inr w1" "run_ops gate_step w1 ops = Inr w'"
    by (auto split: sum.splits)
  have "gate_ok (wGate w1) (holders w1) (waits w1)"
    using gate.step_safe [OF Cons.prems(1), of op] w1(1) by simp
  moreover have "gate_shut (wGate w1)"
    using gate_shut_step [OF Cons.prems(1,2) w1(1)] Cons.prems(4) by auto
  ultimately show ?case using Cons.IH w1(2) Cons.prems(4) by simp
qed simp

text \<open>
  A closed gate refuses: after a close, and until the next reset, no admission is granted,
  whatever leaves or closes again in between; after a reset the next admission is granted, to a
  generation of its own.
\<close>

theorem gate_closed_refuses:
  assumes "run_ops gate_step gate_world0 ops = Inr w" "gate_step w GClose = Inr w1"
    and "run_ops gate_step w1 ops' = Inr w2" "GReset \<notin> set ops'"
  shows "fst (enterGate ready (wGate w2)) = None \<and>
    fst (enterGate True (gate_reset (wGate w2))) = Some (length (gens (wGate w2)))"
proof -
  have ok: "gate_ok (wGate w) (holders w) (waits w)" by (rule gate.run_inv [OF assms(1)])
  have "gate_ok (wGate w1) (holders w1) (waits w1)"
    using gate.step_safe [OF ok, of GClose] assms(2) by simp
  moreover have "gate_shut (wGate w1)"
    using assms(2) gate_shut_close [OF ok] by (auto split: sum.splits)
  ultimately have "gate_shut (wGate w2)" using gate_shut_run assms(3,4) by blast
  then show ?thesis
    by (simp add: gate_shut_refuses)
      (simp add: gate_reset_def enterGate_def gate_enter_def ensure_cur_def freshGen_def)
qed

theorem gate_closed_refuses_witness:
  "\<exists>w. run_ops gate_step gate_world0 [GEnter True, GClose, GLeave 0] = Inr w \<and>
     fst (enterGate True (wGate w)) = None"
proof -
  have "\<exists>w. run_ops gate_step gate_world0 [GEnter True] = Inr w" using gate.run_safe by blast
  then obtain w where w: "run_ops gate_step gate_world0 [GEnter True] = Inr w" by blast
  obtain w1 where w1: "gate_step w GClose = Inr w1"
    using gate.step_safe [OF gate.run_inv [OF w], of GClose] by blast
  obtain w2 where w2: "run_ops gate_step gate_world0 [GEnter True, GClose, GLeave 0] = Inr w2"
    using gate.run_safe by blast
  have "run_ops gate_step w1 [GLeave 0] = Inr w2"
    using w w1 w2 run_ops_append [of gate_step gate_world0 "[GEnter True]" "[GClose, GLeave 0]"]
    by (simp del: gate_step.simps)
  from gate_closed_refuses [OF w w1 this, of True] w2 show ?thesis by simp
qed

end
