(* ===== verification/AnyEnc.thy ===== *)
theory AnyEnc
  imports Prelude
begin

text \<open>
  The interface to document values. Records, payloads and their fields are values of the
  any-store codec (package \<open>anyenc\<close>), which is not part of the repository: the type of
  values is a type variable \<open>'v\<close> and the accessors the sources call are the fields of a
  record that every definition takes as an argument. \<open>vbytes\<close> is \<open>GetStringBytes()\<close>
  on the value itself, \<open>vvisit\<close> the fields \<open>Object.Visit\<close> walks, in its order,
  \<open>vget\<close> is \<open>Get(path...)\<close> with \<open>None\<close> for nil, \<open>vstr\<close> is
  \<open>GetStringBytes(path...)\<close>, \<open>varray\<close> is \<open>GetArray(path...)\<close> and
  \<open>vbool\<close> is \<open>GetBool(path...)\<close>.

  The hooks of the SDK's change pipeline (package \<open>handler\<close>): an operation of a record
  change, the change being applied, and the context a hook sees.
\<close>

datatype vtype = TypeNull | TypeNumber | TypeString | TypeFalse | TypeTrue | TypeArray | TypeObject
  | TypeBinary | TypeDateTime

record 'v anyenc =
  vtyp :: "'v \<Rightarrow> vtype"
  vbytes :: "'v \<Rightarrow> string"
  vvisit :: "'v \<Rightarrow> (string \<times> 'v) list"
  vget :: "'v \<Rightarrow> string list \<Rightarrow> 'v option"
  vstr :: "'v \<Rightarrow> string list \<Rightarrow> string"
  varray :: "'v \<Rightarrow> string list \<Rightarrow> 'v list"
  vbool :: "'v \<Rightarrow> string list \<Rightarrow> bool"

text \<open>
  The payload of an operation: absent, a value that came with the change, or one a handler made
  on an arena.
\<close>

datatype 'v payload = NoPayload | Given 'v | NewString string | NewDateTimeMillis int
  | NewStringArray "string list"

datatype op_type = OpSet | OpUnset | OpDelete | OpOther

record 'v Op =
  opType :: op_type
  opPath :: "string list"
  opPayload :: "'v payload"

record Change =
  chCreator :: string
  chTimestamp :: int
  chVersionId :: string

record 'v ChangeCtx =
  cxChange :: "Change option"
  cxBefore :: "'v option"
  cxGet :: "(string \<Rightarrow> string \<Rightarrow> 'v option) option"
  cxRecordId :: string
  cxSelfIdentity :: string

record 'v RecordChange =
  rcId :: string
  rcUpsert :: bool
  rcOps :: "'v Op list"

section \<open>Walking the fields of an object\<close>

text \<open>
  \<open>Visit\<close> with a callback that stops at the first error: every field must pass its check,
  and the accumulator is updated by each field that does.
\<close>

definition visit_fields ::
  "('s \<Rightarrow> string \<Rightarrow> 'v \<Rightarrow> 'e option) \<Rightarrow> ('s \<Rightarrow> string \<Rightarrow> 'v \<Rightarrow> 's) \<Rightarrow> 's \<Rightarrow> (string \<times> 'v) list \<Rightarrow> 'e + 's" where
  "visit_fields check mark s fs =
     run_ops (\<lambda>s (key, v). case check s key v of Some e \<Rightarrow> Inl e | None \<Rightarrow> Inr (mark s key v)) s fs"

lemma visit_fields_simps [simp]:
  "visit_fields check mark s [] = Inr s"
  "visit_fields check mark s ((key, v) # fs) =
     (case check s key v of Some e \<Rightarrow> Inl e | None \<Rightarrow> visit_fields check mark (mark s key v) fs)"
  by (simp_all add: visit_fields_def split: option.split)

text \<open>With a check that does not read the accumulator, a walk succeeds when every field passes.\<close>

lemma visit_fields_Inr:
  "visit_fields (\<lambda>_. check) mark s fs = Inr s' \<longleftrightarrow>
     (\<forall>(key, v) \<in> set fs. check key v = None) \<and>
     s' = foldl (\<lambda>s (key, v). mark s key v) s fs"
  by (induction fs arbitrary: s) (auto split: option.splits)

lemma visit_fields_cases:
  "(\<exists>e. visit_fields check mark s fs = Inl e) \<or> (\<exists>s'. visit_fields check mark s fs = Inr s')"
  by (cases "visit_fields check mark s fs") auto

definition bool_field :: "'v anyenc \<Rightarrow> 'v \<Rightarrow> bool" where
  "bool_field enc v \<longleftrightarrow> vtyp enc v = TypeTrue \<or> vtyp enc v = TypeFalse"

definition is_text :: "'v anyenc \<Rightarrow> nat \<Rightarrow> 'v \<Rightarrow> bool" where
  "is_text enc mx v \<longleftrightarrow> vtyp enc v = TypeString \<and> vbytes enc v \<noteq> [] \<and> length (vbytes enc v) \<le> mx"

definition has_key :: "'v anyenc \<Rightarrow> 'v \<Rightarrow> string \<Rightarrow> bool" where
  "has_key enc v key \<longleftrightarrow> key \<in> fst ` set (vvisit enc v)"

definition all_fields :: "'v anyenc \<Rightarrow> 'v \<Rightarrow> (string \<Rightarrow> 'v \<Rightarrow> bool) \<Rightarrow> bool" where
  "all_fields enc v P \<longleftrightarrow> (\<forall>(key, x) \<in> set (vvisit enc v). P key x)"

lemma foldl_flag:
  "foldl (\<lambda>h (key, v). h \<or> key = k) b fs \<longleftrightarrow> b \<or> k \<in> fst ` set fs"
  by (induction fs arbitrary: b) auto

lemma foldl_flags:
  "foldl (\<lambda>h (key, v). (case h of (h1, h2) \<Rightarrow> \<lambda>key _. (h1 \<or> key = k1, h2 \<or> key = k2)) key v) (b1, b2) fs =
     (b1 \<or> k1 \<in> fst ` set fs, b2 \<or> k2 \<in> fst ` set fs)"
  by (induction fs arbitrary: b1 b2) auto

lemma visit_accepts:
  "(case visit_fields (\<lambda>_. check) mark s fs of Inl e \<Rightarrow> Some e | Inr s' \<Rightarrow> f s') = None \<longleftrightarrow>
     (\<forall>(key, v) \<in> set fs. check key v = None) \<and> f (foldl (\<lambda>s (key, v). mark s key v) s fs) = None"
  by (induction fs arbitrary: s) (auto split: option.splits)

section \<open>A concrete codec\<close>

text \<open>A small codec, to evaluate the hooks on: JSON-like trees.\<close>

datatype tree = TStr string | TBool bool | TObj "(string \<times> tree) list" | TArr "tree list"

fun tree_get :: "tree \<Rightarrow> string list \<Rightarrow> tree option" where
  "tree_get t [] = Some t"
| "tree_get (TObj m) (k # ks) = (case map_of m k of None \<Rightarrow> None | Some t \<Rightarrow> tree_get t ks)"
| "tree_get _ (k # ks) = None"

definition tree_enc :: "tree anyenc" where
  "tree_enc =
     \<lparr>vtyp = (\<lambda>t. case t of TStr _ \<Rightarrow> TypeString | TBool b \<Rightarrow> (if b then TypeTrue else TypeFalse)
                | TObj _ \<Rightarrow> TypeObject | TArr _ \<Rightarrow> TypeArray),
      vbytes = (\<lambda>t. case t of TStr s \<Rightarrow> s | _ \<Rightarrow> []),
      vvisit = (\<lambda>t. case t of TObj m \<Rightarrow> AList.clearjunk m | _ \<Rightarrow> []),
      vget = tree_get,
      vstr = (\<lambda>t ks. case tree_get t ks of Some (TStr s) \<Rightarrow> s | _ \<Rightarrow> []),
      varray = (\<lambda>t ks. case tree_get t ks of Some (TArr ts) \<Rightarrow> ts | _ \<Rightarrow> []),
      vbool = (\<lambda>t ks. case tree_get t ks of Some (TBool b) \<Rightarrow> b | _ \<Rightarrow> False)\<rparr>"

lemma tree_keys: "\<forall>v. distinct (map fst (vvisit tree_enc v))"
  by (auto simp: tree_enc_def distinct_clearjunk split: tree.split)

end
