(* ===== verification/AnyUri.thy ===== *)
theory AnyUri
  imports Prelude
begin

text \<open>
  The package \<open>anyuri\<close> (src/anyuri): the \<open>any://\<close> references to objects,
  records, identities, spaces, property values and files. The theory models the
  builders, the parser, the printer, the canonical key form (\<open>anyuri.go\<close>,
  \<open>links.go\<close>) and the scanners that find links and mentions in text
  (\<open>links.go\<close>, \<open>mentions.go\<close>).

  \<open>Parse\<close> returns \<open>Inl\<close> of the sentinel its error wraps: \<open>ErrInvalid\<close>
  for the reject branch and \<open>ErrKindUnknown\<close> for the degrade-to-plain-link branch.
  The message text of an error carries no behaviour and is left out.
\<close>

section \<open>Data\<close>

type_synonym Kind = string

definition uri_prefix :: string where
  "uri_prefix = ''any://''"

definition KindObject :: Kind where "KindObject = ''o''"
definition KindIdentity :: Kind where "KindIdentity = ''u''"
definition KindSpace :: Kind where "KindSpace = ''s''"
definition KindProp :: Kind where "KindProp = ''p''"
definition KindFile :: Kind where "KindFile = ''f''"
definition KindMention :: Kind where "KindMention = ''m''"

lemmas kind_defs = KindObject_def KindIdentity_def KindSpace_def KindProp_def
  KindFile_def KindMention_def

datatype uri_error = ErrInvalid | ErrKindUnknown

record URI =
  uKind :: Kind
  uSpaceId :: string
  uObjectId :: string
  uDataset :: string
  uRecordId :: string
  uPropId :: string
  uIdentity :: string
  uFileId :: string
  uVariant :: string
  uFragment :: string
  uLegacy :: bool

text \<open>The zero value \<open>URI{}\<close>.\<close>

definition URI_zero :: URI where
  "URI_zero = \<lparr>uKind = [], uSpaceId = [], uObjectId = [], uDataset = [], uRecordId = [],
     uPropId = [], uIdentity = [], uFileId = [], uVariant = [], uFragment = [], uLegacy = False\<rparr>"

section \<open>Builders\<close>

definition BuildObject :: "string \<Rightarrow> string" where
  "BuildObject objectId = uri_prefix @ objectId"

definition BuildObjectGlobal :: "string \<Rightarrow> string \<Rightarrow> string" where
  "BuildObjectGlobal spaceId objectId = uri_prefix @ KindObject @ ''/'' @ spaceId @ ''/'' @ objectId"

definition BuildRecord :: "string \<Rightarrow> string \<Rightarrow> string \<Rightarrow> string \<Rightarrow> string" where
  "BuildRecord spaceId objectId dataset recordId =
     uri_prefix @ KindObject @ ''/'' @ spaceId @ ''/'' @ objectId @ ''/'' @ dataset @ ''/'' @ recordId"

definition BuildIdentity :: "string \<Rightarrow> string" where
  "BuildIdentity identity = uri_prefix @ KindIdentity @ ''/'' @ identity"

definition BuildMention :: "string \<Rightarrow> string \<Rightarrow> string" where
  "BuildMention spaceId identity = BuildIdentity identity"

definition BuildSpace :: "string \<Rightarrow> string" where
  "BuildSpace spaceId = uri_prefix @ KindSpace @ ''/'' @ spaceId"

definition BuildProp :: "string \<Rightarrow> string \<Rightarrow> string \<Rightarrow> string" where
  "BuildProp spaceId objectId propId =
     uri_prefix @ KindProp @ ''/'' @ spaceId @ ''/'' @ objectId @ ''/'' @ propId"

definition BuildFile :: "string \<Rightarrow> string \<Rightarrow> string" where
  "BuildFile spaceId fileId = uri_prefix @ KindFile @ ''/'' @ spaceId @ ''/'' @ fileId"

definition BuildFileVariant :: "string \<Rightarrow> string \<Rightarrow> string \<Rightarrow> string" where
  "BuildFileVariant spaceId fileId variant = BuildFile spaceId fileId @ ''?variant='' @ variant"

section \<open>Printing\<close>

definition URI_String :: "URI \<Rightarrow> string" where
  "URI_String u =
     uri_prefix @
     (if uKind u = [] \<or> uLegacy u \<and> uKind u = KindObject
      then (if uSpaceId u \<noteq> [] then uSpaceId u @ ''/'' else []) @ uObjectId u
      else if uKind u = KindIdentity
      then uKind u @ ''/'' @ uIdentity u
      else uKind u @ ''/'' @ uSpaceId u @
           (if uKind u = KindObject
            then ''/'' @ uObjectId u @
                 (if uDataset u \<noteq> [] then ''/'' @ uDataset u @ ''/'' @ uRecordId u else [])
            else if uKind u = KindMention then ''/'' @ uIdentity u
            else if uKind u = KindSpace then []
            else if uKind u = KindProp then ''/'' @ uObjectId u @ ''/'' @ uPropId u
            else if uKind u = KindFile
            then ''/'' @ uFileId u @ (if uVariant u \<noteq> [] then ''?variant='' @ uVariant u else [])
            else [])) @
     (if uFragment u \<noteq> [] then ''#'' @ uFragment u else [])"

section \<open>Parsing\<close>

definition isKindSlug :: "string \<Rightarrow> bool" where
  "isKindSlug s \<longleftrightarrow> \<not> (length s = 0 \<or> length s > 4) \<and>
     list_all (\<lambda>c. CHR ''a'' \<le> c \<and> c \<le> CHR ''z'' \<or> CHR ''0'' \<le> c \<and> c \<le> CHR ''9'') s"

definition isBase58Byte :: "char \<Rightarrow> bool" where
  "isBase58Byte c \<longleftrightarrow>
     CHR ''1'' \<le> c \<and> c \<le> CHR ''9'' \<or> CHR ''a'' \<le> c \<and> c \<le> CHR ''k'' \<or>
     CHR ''m'' \<le> c \<and> c \<le> CHR ''z'' \<or> CHR ''A'' \<le> c \<and> c \<le> CHR ''H'' \<or>
     CHR ''J'' \<le> c \<and> c \<le> CHR ''N'' \<or> CHR ''P'' \<le> c \<and> c \<le> CHR ''Z''"

definition isBase58 :: "string \<Rightarrow> bool" where
  "isBase58 s \<longleftrightarrow> s \<noteq> [] \<and> list_all isBase58Byte s"

fun paramValue :: "string \<Rightarrow> string \<Rightarrow> string" where
  "paramValue rawParams key =
     (if rawParams = [] then []
      else let pair = cut_before CHR ''&'' rawParams; rest = cut_after CHR ''&'' rawParams
           in if CHR ''='' \<in> set pair \<and> cut_before CHR ''='' pair = key
              then cut_after CHR ''='' pair
              else paramValue rest key)"

declare paramValue.simps [simp del]

text \<open>
  The two halves of \<open>Parse\<close> after the path is split: the legacy bare forms, whose first
  segment is an id, and the typed forms, whose first segment is a kind slug.
\<close>

definition parse_legacy :: "string list \<Rightarrow> string \<Rightarrow> uri_error + URI" where
  "parse_legacy segs frag =
     (let u = URI_zero\<lparr>uFragment := frag, uKind := KindObject, uLegacy := True\<rparr> in
      case segs of
        [a] \<Rightarrow> Inr (u\<lparr>uObjectId := a\<rparr>)
      | [a, b] \<Rightarrow> Inr (u\<lparr>uSpaceId := a, uObjectId := b\<rparr>)
      | _ \<Rightarrow> Inl ErrInvalid)"

definition parse_typed :: "Kind \<Rightarrow> string list \<Rightarrow> string \<Rightarrow> string \<Rightarrow> uri_error + URI" where
  "parse_typed k args rawParams frag =
     (let u = URI_zero\<lparr>uFragment := frag, uKind := k\<rparr> in
      if k = KindObject then
        (case args of
           [sp, ob] \<Rightarrow> Inr (u\<lparr>uSpaceId := sp, uObjectId := ob\<rparr>)
         | [sp, ob, ds, rec] \<Rightarrow>
             Inr (u\<lparr>uSpaceId := sp, uObjectId := ob, uDataset := ds, uRecordId := rec\<rparr>)
         | _ \<Rightarrow> Inl ErrInvalid)
      else if k = KindIdentity then
        (case args of [i] \<Rightarrow> Inr (u\<lparr>uIdentity := i\<rparr>) | _ \<Rightarrow> Inl ErrInvalid)
      else if k = KindMention then
        (case args of
           [sp, i] \<Rightarrow> Inr (u\<lparr>uSpaceId := sp, uIdentity := i, uLegacy := True\<rparr>)
         | _ \<Rightarrow> Inl ErrInvalid)
      else if k = KindSpace then
        (case args of [sp] \<Rightarrow> Inr (u\<lparr>uSpaceId := sp\<rparr>) | _ \<Rightarrow> Inl ErrInvalid)
      else if k = KindProp then
        (case args of
           [sp, ob, p] \<Rightarrow> Inr (u\<lparr>uSpaceId := sp, uObjectId := ob, uPropId := p\<rparr>)
         | _ \<Rightarrow> Inl ErrInvalid)
      else if k = KindFile then
        (case args of
           [sp, fl] \<Rightarrow>
             Inr (u\<lparr>uSpaceId := sp, uFileId := fl, uVariant := paramValue rawParams ''variant''\<rparr>)
         | _ \<Rightarrow> Inl ErrInvalid)
      else Inl ErrKindUnknown)"

definition parse_segs :: "string list \<Rightarrow> string \<Rightarrow> string \<Rightarrow> uri_error + URI" where
  "parse_segs segs rawParams frag =
     (if list_ex (\<lambda>seg. seg = []) segs then Inl ErrInvalid
      else if \<not> isKindSlug (hd segs) then parse_legacy segs frag
      else parse_typed (hd segs) (tl segs) rawParams frag)"

definition Parse :: "string \<Rightarrow> uri_error + URI" where
  "Parse s =
     (case cut_prefix uri_prefix s of
        None \<Rightarrow> Inl ErrInvalid
      | Some rest0 \<Rightarrow>
          (let frag = cut_after CHR ''#'' rest0; rest1 = cut_before CHR ''#'' rest0;
               rawParams = cut_after CHR ''?'' rest1; rest = cut_before CHR ''?'' rest1
           in if rest = [] then Inl ErrInvalid
              else parse_segs (split_on CHR ''/'' rest) rawParams frag))"

definition IsValid :: "string \<Rightarrow> bool" where
  "IsValid s \<longleftrightarrow> (case Parse s of Inl _ \<Rightarrow> False | Inr _ \<Rightarrow> True)"

definition IsPropertyValueRef :: "string \<Rightarrow> bool" where
  "IsPropertyValueRef s \<longleftrightarrow>
     (case Parse s of
        Inl _ \<Rightarrow> False
      | Inr u \<Rightarrow> uLegacy u \<and> uKind u = KindObject \<and> uSpaceId u = [] \<and> uFragment u = [] \<and>
                 URI_String u = s)"

definition IsIdentityValueRef :: "string \<Rightarrow> bool" where
  "IsIdentityValueRef s \<longleftrightarrow>
     (case Parse s of
        Inl _ \<Rightarrow> False
      | Inr u \<Rightarrow> uKind u = KindIdentity \<and> uFragment u = [] \<and> isBase58 (uIdentity u) \<and>
                 URI_String u = s)"

section \<open>The canonical key form\<close>

definition URI_Canonical :: "URI \<Rightarrow> string \<Rightarrow> URI option" where
  "URI_Canonical u spaceId =
     (if uKind u = KindIdentity \<or> uKind u = KindMention then
        (if uIdentity u = [] then None
         else Some (URI_zero\<lparr>uKind := KindIdentity, uIdentity := uIdentity u\<rparr>))
      else
        let sp = (if uSpaceId u = [] then spaceId else uSpaceId u);
            c = URI_zero\<lparr>uKind := uKind u, uSpaceId := sp\<rparr>
        in if sp = [] then None
           else if uKind u = KindObject then
             (if uObjectId u = [] then None
              else Some (c\<lparr>uObjectId := uObjectId u, uDataset := uDataset u,
                           uRecordId := uRecordId u\<rparr>))
           else if uKind u = KindProp then
             (if uObjectId u = [] \<or> uPropId u = [] then None
              else Some (c\<lparr>uObjectId := uObjectId u, uPropId := uPropId u\<rparr>))
           else if uKind u = KindFile then
             (if uFileId u = [] then None else Some (c\<lparr>uFileId := uFileId u\<rparr>))
           else None)"

definition URI_ObjectKey :: "URI \<Rightarrow> string option" where
  "URI_ObjectKey u =
     (if uKind u = KindObject \<or> uKind u = KindProp then
        (if uSpaceId u = [] \<or> uObjectId u = [] then None
         else Some (BuildObjectGlobal (uSpaceId u) (uObjectId u)))
      else None)"

definition URI_IsPart :: "URI \<Rightarrow> bool" where
  "URI_IsPart u \<longleftrightarrow>
     (if uKind u = KindObject then uRecordId u \<noteq> [] else uKind u = KindProp)"

section \<open>Scanning text\<close>

definition isAlnumByte :: "char \<Rightarrow> bool" where
  "isAlnumByte c \<longleftrightarrow>
     byte_in CHR ''a'' CHR ''z'' c \<or> byte_in CHR ''A'' CHR ''Z'' c \<or> byte_in CHR ''0'' CHR ''9'' c"

definition isTailByte :: "char \<Rightarrow> bool" where
  "isTailByte c \<longleftrightarrow> isAlnumByte c \<or> c \<in> set ''/?&=#_-.''"

definition isSchemeByte :: "char \<Rightarrow> bool" where
  "isSchemeByte c \<longleftrightarrow> isAlnumByte c \<or> c = CHR ''+'' \<or> c = CHR ''-'' \<or> c = CHR ''.''"

text \<open>\<open>shedGluedPeriod\<close> returns the cut URI, or \<open>None\<close> where the Go function reports false.\<close>

definition shedGluedPeriod :: "URI \<Rightarrow> URI option" where
  "shedGluedPeriod u =
     (let cut = (\<lambda>s upd. let s' = cut_before CHR ''.'' s in if s' = [] then None else Some (upd s'))
      in if uKind u = KindObject then
           (if uRecordId u \<noteq> [] then cut (uRecordId u) (\<lambda>s. u\<lparr>uRecordId := s\<rparr>)
            else cut (uObjectId u) (\<lambda>s. u\<lparr>uObjectId := s\<rparr>))
         else if uKind u = KindIdentity \<or> uKind u = KindMention then
           cut (uIdentity u) (\<lambda>s. u\<lparr>uIdentity := s\<rparr>)
         else if uKind u = KindProp then cut (uPropId u) (\<lambda>s. u\<lparr>uPropId := s\<rparr>)
         else if uKind u = KindFile then cut (uFileId u) (\<lambda>s. u\<lparr>uFileId := s\<rparr>)
         else Some u)"

text \<open>The token that starts with the scheme at offset \<open>start\<close>, and the link it denotes.\<close>

definition link_token :: "string \<Rightarrow> nat \<Rightarrow> string" where
  "link_token text start =
     (let i = start + length uri_prefix;
          stop = i + length (takeWhile isTailByte (drop i text))
      in trim_right ''.,;:!?'' (take (stop - start) (drop start text)))"

definition link_at :: "string \<Rightarrow> nat \<Rightarrow> URI option" where
  "link_at text start =
     (if 0 < start \<and> isSchemeByte (text ! (start - 1)) then None
      else case Parse (link_token text start) of
             Inl _ \<Rightarrow> None
           | Inr u \<Rightarrow> shedGluedPeriod u)"

function extract_from :: "string \<Rightarrow> nat \<Rightarrow> string list \<Rightarrow> URI list" where
  "extract_from text i seen =
     (if i < length text then
        (case index_sub uri_prefix (drop i text) of
           None \<Rightarrow> []
         | Some idx \<Rightarrow>
             (let start = i + idx; next = start + length uri_prefix in
              case link_at text start of
                None \<Rightarrow> extract_from text next seen
              | Some u \<Rightarrow>
                  (if URI_String u \<in> set seen then extract_from text next seen
                   else u # extract_from text next (URI_String u # seen))))
      else [])"
  by pat_completeness auto
termination
  by (relation "measure (\<lambda>(text, i, seen). length text - i)") (auto simp: uri_prefix_def)

declare extract_from.simps [simp del]

definition ExtractLinks :: "string \<Rightarrow> URI list" where
  "ExtractLinks text = extract_from text 0 []"

definition ExtractMentions :: "string \<Rightarrow> string list" where
  "ExtractMentions text =
     dedup_by id []
       (map uIdentity
         (filter (\<lambda>u. (uKind u = KindIdentity \<or> uKind u = KindMention) \<and> uIdentity u \<noteq> [])
            (ExtractLinks text)))"

section \<open>Well-formed references\<close>

text \<open>A path segment of a reference, and the nine shapes of references \<open>Parse\<close> returns.\<close>

definition seg_ok :: "string \<Rightarrow> bool" where
  "seg_ok s \<longleftrightarrow> s \<noteq> [] \<and> CHR ''/'' \<notin> set s \<and> CHR ''#'' \<notin> set s \<and> CHR ''?'' \<notin> set s"

inductive wf_uri :: "URI \<Rightarrow> bool" where
  wf_bare: "seg_ok ob \<Longrightarrow> \<not> isKindSlug ob \<Longrightarrow>
     wf_uri (URI_zero\<lparr>uFragment := f, uKind := KindObject, uLegacy := True, uObjectId := ob\<rparr>)"
| wf_bare_global: "seg_ok sp \<Longrightarrow> \<not> isKindSlug sp \<Longrightarrow> seg_ok ob \<Longrightarrow>
     wf_uri (URI_zero\<lparr>uFragment := f, uKind := KindObject, uLegacy := True,
                      uSpaceId := sp, uObjectId := ob\<rparr>)"
| wf_object: "seg_ok sp \<Longrightarrow> seg_ok ob \<Longrightarrow>
     wf_uri (URI_zero\<lparr>uFragment := f, uKind := KindObject, uSpaceId := sp, uObjectId := ob\<rparr>)"
| wf_record: "seg_ok sp \<Longrightarrow> seg_ok ob \<Longrightarrow> seg_ok ds \<Longrightarrow> seg_ok rec \<Longrightarrow>
     wf_uri (URI_zero\<lparr>uFragment := f, uKind := KindObject, uSpaceId := sp, uObjectId := ob,
                      uDataset := ds, uRecordId := rec\<rparr>)"
| wf_identity: "seg_ok i \<Longrightarrow>
     wf_uri (URI_zero\<lparr>uFragment := f, uKind := KindIdentity, uIdentity := i\<rparr>)"
| wf_mention: "seg_ok sp \<Longrightarrow> seg_ok i \<Longrightarrow>
     wf_uri (URI_zero\<lparr>uFragment := f, uKind := KindMention, uSpaceId := sp, uIdentity := i,
                      uLegacy := True\<rparr>)"
| wf_space: "seg_ok sp \<Longrightarrow>
     wf_uri (URI_zero\<lparr>uFragment := f, uKind := KindSpace, uSpaceId := sp\<rparr>)"
| wf_prop: "seg_ok sp \<Longrightarrow> seg_ok ob \<Longrightarrow> seg_ok p \<Longrightarrow>
     wf_uri (URI_zero\<lparr>uFragment := f, uKind := KindProp, uSpaceId := sp, uObjectId := ob,
                      uPropId := p\<rparr>)"
| wf_file: "seg_ok sp \<Longrightarrow> seg_ok fl \<Longrightarrow> CHR ''&'' \<notin> set v \<Longrightarrow> CHR ''#'' \<notin> set v \<Longrightarrow>
     wf_uri (URI_zero\<lparr>uFragment := f, uKind := KindFile, uSpaceId := sp, uFileId := fl,
                      uVariant := v\<rparr>)"

lemma seg_okD [dest]:
  "seg_ok s \<Longrightarrow> s \<noteq> []" "seg_ok s \<Longrightarrow> CHR ''/'' \<notin> set s"
  "seg_ok s \<Longrightarrow> CHR ''#'' \<notin> set s" "seg_ok s \<Longrightarrow> CHR ''?'' \<notin> set s"
  by (auto simp: seg_ok_def)

lemma isKindSlug_kinds [simp]:
  "isKindSlug ''o''" "isKindSlug ''u''" "isKindSlug ''s''"
  "isKindSlug ''p''" "isKindSlug ''f''" "isKindSlug ''m''"
  by (simp_all add: isKindSlug_def)

text \<open>The path, parameter and fragment part of a reference determines its parse.\<close>

lemma join_seg_ok:
  "segs \<noteq> [] \<Longrightarrow> list_all seg_ok segs \<Longrightarrow>
     join_with CHR ''/'' segs \<noteq> [] \<and> CHR ''#'' \<notin> set (join_with CHR ''/'' segs) \<and>
     CHR ''?'' \<notin> set (join_with CHR ''/'' segs)"
  by (induction "CHR ''/''" segs rule: join_with.induct) (auto simp: seg_ok_def)

lemma Parse_parts:
  assumes segs: "segs \<noteq> []" "list_all seg_ok segs" and par: "CHR ''#'' \<notin> set par"
    and q: "q = (if par = [] then [] else CHR ''?'' # par)"
    and h: "h = (if f = [] then [] else CHR ''#'' # f)"
  shows "Parse (uri_prefix @ join_with CHR ''/'' segs @ q @ h) = parse_segs segs par f"
proof -
  let ?p = "join_with CHR ''/'' segs"
  from join_seg_ok [OF segs] have p: "?p \<noteq> []" "CHR ''#'' \<notin> set (?p @ q)" "CHR ''?'' \<notin> set ?p"
    using par q by auto
  have hash: "cut_before CHR ''#'' ((?p @ q) @ h) = ?p @ q" "cut_after CHR ''#'' ((?p @ q) @ h) = f"
    using p(2) h by (auto simp del: append_assoc)
  have quest: "cut_before CHR ''?'' (?p @ q) = ?p" "cut_after CHR ''?'' (?p @ q) = par"
    using p(3) q by auto
  have "split_on CHR ''/'' ?p = segs"
    using segs by (intro split_on_join) (auto simp: list_all_iff)
  then show ?thesis using hash quest p(1)
    by (simp add: Parse_def Let_def del: split_on_append)
qed

lemma paramValue_variant:
  "v \<noteq> [] \<Longrightarrow> CHR ''&'' \<notin> set v \<Longrightarrow> paramValue (''variant='' @ v) ''variant'' = v"
  using cut_before_append [of "CHR ''=''" "''variant''" v]
    cut_after_append [of "CHR ''=''" "''variant''" v]
  by (subst paramValue.simps) (auto simp: Let_def)

lemma paramValue_Nil [simp]: "paramValue [] key = []"
  by (simp add: paramValue.simps)

lemma paramValue_set:
  "CHR ''&'' \<notin> set (paramValue raw key) \<and> set (paramValue raw key) \<subseteq> set raw"
proof (induction raw key rule: paramValue.induct)
  case (1 raw key)
  let ?pair = "cut_before CHR ''&'' raw"
  have pair: "CHR ''&'' \<notin> set (cut_after CHR ''='' ?pair)"
    "set (cut_after CHR ''='' ?pair) \<subseteq> set raw"
    using set_cut_after set_cut_before cut_before_not_in by blast+
  have rest: "set (cut_after CHR ''&'' raw) \<subseteq> set raw"
    using set_cut_after by blast
  show ?case
  proof (cases "raw = []")
    case False
    note IH = 1 [OF False refl refl]
    show ?thesis
    proof (cases "CHR ''='' \<in> set ?pair \<and> cut_before CHR ''='' ?pair = key")
      case True
      with False pair show ?thesis by (simp add: paramValue.simps [of raw key])
    next
      case False
      with IH rest have "CHR ''&'' \<notin> set (paramValue (cut_after CHR ''&'' raw) key) \<and>
          set (paramValue (cut_after CHR ''&'' raw) key) \<subseteq> set raw" by blast
      with False \<open>raw \<noteq> []\<close> show ?thesis by (auto simp: paramValue.simps [of raw key] Let_def)
    qed
  qed simp
qed

text \<open>Printing a well-formed reference and parsing it back is the identity.\<close>

lemmas print_parse_defs = URI_String_def URI_zero_def parse_segs_def parse_legacy_def
  parse_typed_def seg_ok_def kind_defs

lemma Parse_String_wf: "wf_uri u \<Longrightarrow> Parse (URI_String u) = Inr u"
proof (induction rule: wf_uri.induct)
  case (wf_bare ob f)
  then show ?case using Parse_parts [of "[ob]" "[]" "[]" _ f, OF _ _ _ _ refl]
    by (auto simp: print_parse_defs Let_def split: if_splits)
next
  case (wf_bare_global sp ob f)
  then show ?case using Parse_parts [of "[sp, ob]" "[]" "[]" _ f, OF _ _ _ _ refl]
    by (auto simp: print_parse_defs Let_def split: if_splits)
next
  case (wf_object sp ob f)
  then show ?case using Parse_parts [of "[KindObject, sp, ob]" "[]" "[]" _ f, OF _ _ _ _ refl]
    by (auto simp: print_parse_defs Let_def split: if_splits)
next
  case (wf_record sp ob ds rec f)
  then show ?case
    using Parse_parts [of "[KindObject, sp, ob, ds, rec]" "[]" "[]" _ f, OF _ _ _ _ refl]
    by (auto simp: print_parse_defs Let_def split: if_splits)
next
  case (wf_identity i f)
  then show ?case using Parse_parts [of "[KindIdentity, i]" "[]" "[]" _ f, OF _ _ _ _ refl]
    by (auto simp: print_parse_defs Let_def split: if_splits)
next
  case (wf_mention sp i f)
  then show ?case using Parse_parts [of "[KindMention, sp, i]" "[]" "[]" _ f, OF _ _ _ _ refl]
    by (auto simp: print_parse_defs Let_def split: if_splits)
next
  case (wf_space sp f)
  then show ?case using Parse_parts [of "[KindSpace, sp]" "[]" "[]" _ f, OF _ _ _ _ refl]
    by (auto simp: print_parse_defs Let_def split: if_splits)
next
  case (wf_prop sp ob p f)
  then show ?case using Parse_parts [of "[KindProp, sp, ob, p]" "[]" "[]" _ f, OF _ _ _ _ refl]
    by (auto simp: print_parse_defs Let_def split: if_splits)
next
  case (wf_file sp fl v f)
  then show ?case
    using Parse_parts [of "[KindFile, sp, fl]" "if v = [] then [] else ''variant='' @ v"
        _ _ f, OF _ _ _ refl refl] paramValue_variant [of v]
    by (auto simp: print_parse_defs Let_def split: if_splits)
qed

text \<open>Whatever \<open>Parse\<close> accepts is one of the nine shapes.\<close>

lemma parse_legacy_wf:
  "parse_legacy segs f = Inr u \<Longrightarrow> list_all seg_ok segs \<Longrightarrow> \<not> isKindSlug (hd segs) \<Longrightarrow> wf_uri u"
  by (auto simp: parse_legacy_def Let_def intro: wf_bare wf_bare_global split: list.splits)

lemma parse_typed_wf:
  assumes "parse_typed k args raw f = Inr u" "list_all seg_ok args" "CHR ''#'' \<notin> set raw"
  shows "wf_uri u"
proof -
  have v: "CHR ''&'' \<notin> set (paramValue raw ''variant'')"
    "CHR ''#'' \<notin> set (paramValue raw ''variant'')"
    using paramValue_set [of raw "''variant''"] assms(3) by auto
  show ?thesis using assms(1,2) v
    by (auto simp: parse_typed_def Let_def split: list.splits if_splits intro: wf_uri.intros)
qed

lemma Parse_wf: "Parse s = Inr u \<Longrightarrow> wf_uri u"
proof -
  assume "Parse s = Inr u"
  then obtain rest0 where p: "cut_prefix uri_prefix s = Some rest0"
    by (auto simp: Parse_def split: option.splits)
  define rest1 where "rest1 = cut_before CHR ''#'' rest0"
  define rest where "rest = cut_before CHR ''?'' rest1"
  let ?segs = "split_on CHR ''/'' rest"
  from \<open>Parse s = Inr u\<close> p
  have u: "parse_segs ?segs (cut_after CHR ''?'' rest1) (cut_after CHR ''#'' rest0) = Inr u"
    by (auto simp: Parse_def Let_def rest_def rest1_def split: if_splits)
  have hash: "CHR ''#'' \<notin> set rest1" "CHR ''#'' \<notin> set rest" "CHR ''?'' \<notin> set rest"
    by (auto simp: rest1_def rest_def dest: set_cut_before)
  have raw: "CHR ''#'' \<notin> set (cut_after CHR ''?'' rest1)"
    using hash(1) by (auto dest: set_cut_after)
  have "seg_ok seg" if "seg \<in> set ?segs" "seg \<noteq> []" for seg
    using that split_on_no_sep [OF that(1)] split_on_subset [OF that(1)] hash
    by (auto simp: seg_ok_def)
  with u have ok: "list_all seg_ok ?segs"
    by (auto simp: parse_segs_def list_all_iff list_ex_iff split: if_splits)
  then have "list_all seg_ok (tl ?segs)"
    by (cases ?segs) auto
  with u ok raw show "wf_uri u"
    by (auto simp: parse_segs_def split: if_splits intro: parse_legacy_wf parse_typed_wf)
qed

section \<open>Properties of the parser\<close>

text \<open>
  C1. Parsing is idempotent through printing: whatever text \<open>Parse\<close> accepts, printing the
  parsed reference gives a text that parses to the same reference, legacy forms included, so a
  stored reference is never rewritten into another one and only unknown parameters are lost.
\<close>

theorem Parse_String_Parse: "Parse s = Inr u \<Longrightarrow> Parse (URI_String u) = Inr u"
  by (rule Parse_String_wf [OF Parse_wf])

theorem Parse_String_Parse_witness:
  "\<exists>u. Parse ''any://f/bafySpace/file1?x=1&variant=thumb#top'' = Inr u \<and>
       URI_String u = ''any://f/bafySpace/file1?variant=thumb#top'' \<and>
       Parse (URI_String u) = Inr u"
proof -
  define s where "s = ''any://f/bafySpace/file1?x=1&variant=thumb#top''"
  define u where "u = URI_zero\<lparr>uFragment := ''top'', uKind := KindFile, uSpaceId := ''bafySpace'',
                      uFileId := ''file1'', uVariant := ''thumb''\<rparr>"
  have p: "Parse s = Inr u"
    unfolding s_def u_def by code_simp
  have "URI_String u = ''any://f/bafySpace/file1?variant=thumb#top''"
    unfolding u_def by code_simp
  with Parse_String_Parse [OF p] p show ?thesis unfolding s_def by blast
qed

lemma isBase58_seg_ok: "isBase58 i \<Longrightarrow> seg_ok i"
  by (auto simp: isBase58_def seg_ok_def isBase58Byte_def list_all_iff)

text \<open>
  The two strict value forms are exactly what their builders print: a relation property value
  is \<open>any://<objectId>\<close> with one segment that is no kind slug, and a member property value
  is \<open>any://u/<identity>\<close> with a base58 identity; no parameter, fragment or legacy form
  passes either check.
\<close>

theorem value_refs_exact:
  "(IsPropertyValueRef s \<longleftrightarrow> (\<exists>ob. s = BuildObject ob \<and> seg_ok ob \<and> \<not> isKindSlug ob)) \<and>
   (IsIdentityValueRef s \<longleftrightarrow> (\<exists>i. s = BuildIdentity i \<and> isBase58 i))"
proof (intro conjI iffI)
  assume "IsPropertyValueRef s"
  then obtain u where u: "Parse s = Inr u" "uLegacy u" "uKind u = KindObject" "uSpaceId u = []"
    "uFragment u = []" "URI_String u = s"
    by (auto simp: IsPropertyValueRef_def split: sum.splits)
  from Parse_wf [OF u(1)] u(2-) show "\<exists>ob. s = BuildObject ob \<and> seg_ok ob \<and> \<not> isKindSlug ob"
    by cases (auto simp: URI_String_def URI_zero_def BuildObject_def kind_defs seg_ok_def)
next
  assume "\<exists>ob. s = BuildObject ob \<and> seg_ok ob \<and> \<not> isKindSlug ob"
  then obtain ob where ob: "s = BuildObject ob" "seg_ok ob" "\<not> isKindSlug ob"
    by blast
  let ?u = "URI_zero\<lparr>uFragment := [], uKind := KindObject, uLegacy := True, uObjectId := ob\<rparr>"
  have str: "URI_String ?u = s" using ob(1)
    by (simp add: URI_String_def URI_zero_def BuildObject_def)
  from Parse_String_wf [OF wf_bare [OF ob(2,3), of "[]"]] str have "Parse s = Inr ?u" by simp
  with str show "IsPropertyValueRef s"
    by (simp add: IsPropertyValueRef_def URI_zero_def)
next
  assume "IsIdentityValueRef s"
  then obtain u where u: "Parse s = Inr u" "uKind u = KindIdentity" "uFragment u = []"
    "isBase58 (uIdentity u)" "URI_String u = s"
    by (auto simp: IsIdentityValueRef_def split: sum.splits)
  from Parse_wf [OF u(1)] u(2-) show "\<exists>i. s = BuildIdentity i \<and> isBase58 i"
    by cases (auto simp: URI_String_def URI_zero_def BuildIdentity_def kind_defs)
next
  assume "\<exists>i. s = BuildIdentity i \<and> isBase58 i"
  then obtain i where i: "s = BuildIdentity i" "isBase58 i" by blast
  let ?u = "URI_zero\<lparr>uFragment := [], uKind := KindIdentity, uIdentity := i\<rparr>"
  have str: "URI_String ?u = s" using i(1)
    by (simp add: URI_String_def URI_zero_def BuildIdentity_def kind_defs)
  from Parse_String_wf [OF wf_identity [OF isBase58_seg_ok [OF i(2)], of "[]"]] str
  have "Parse s = Inr ?u" by simp
  with str i(2) show "IsIdentityValueRef s"
    by (simp add: IsIdentityValueRef_def URI_zero_def)
qed

section \<open>Properties of the canonical form\<close>

lemmas canon_defs = URI_Canonical_def URI_zero_def Let_def kind_defs

lemma Canonical_wf:
  assumes "wf_uri u" "URI_Canonical u sp = Some c" "sp = [] \<or> seg_ok sp"
  shows "wf_uri c \<and> uFragment c = [] \<and> uVariant c = [] \<and> \<not> uLegacy c \<and>
         URI_Canonical c sp' = Some c"
  using assms(1)
proof cases
  case (wf_bare ob f)
  then have "sp \<noteq> []" and c: "c = URI_zero\<lparr>uKind := KindObject, uSpaceId := sp, uObjectId := ob\<rparr>"
    using assms(2) by (simp_all add: canon_defs split: if_splits)
  with assms(3) show ?thesis using wf_uri.wf_object [of sp ob "[]"] wf_bare seg_okD(1)
    by (simp add: canon_defs)
next
  case (wf_bare_global sp1 ob f)
  then have "c = URI_zero\<lparr>uKind := KindObject, uSpaceId := sp1, uObjectId := ob\<rparr>"
    using assms(2) seg_okD(1) by (simp add: canon_defs split: if_splits)
  with wf_bare_global show ?thesis using wf_uri.wf_object [of sp1 ob "[]"] seg_okD(1)
    by (simp add: canon_defs)
next
  case (wf_object sp1 ob f)
  then have "c = URI_zero\<lparr>uKind := KindObject, uSpaceId := sp1, uObjectId := ob\<rparr>"
    using assms(2) seg_okD(1) by (simp add: canon_defs split: if_splits)
  with wf_object show ?thesis using wf_uri.wf_object [of sp1 ob "[]"] seg_okD(1)
    by (simp add: canon_defs)
next
  case (wf_record sp1 ob ds rec f)
  then have "c = URI_zero\<lparr>uKind := KindObject, uSpaceId := sp1, uObjectId := ob,
                      uDataset := ds, uRecordId := rec\<rparr>"
    using assms(2) seg_okD(1) by (simp add: canon_defs split: if_splits)
  with wf_record show ?thesis using wf_uri.wf_record [of sp1 ob ds rec "[]"] seg_okD(1)
    by (simp add: canon_defs)
next
  case (wf_identity i f)
  then have "c = URI_zero\<lparr>uKind := KindIdentity, uIdentity := i\<rparr>"
    using assms(2) seg_okD(1) by (simp add: canon_defs split: if_splits)
  with wf_identity show ?thesis using wf_uri.wf_identity [of i "[]"] seg_okD(1)
    by (simp add: canon_defs)
next
  case (wf_mention sp1 i f)
  then have "c = URI_zero\<lparr>uKind := KindIdentity, uIdentity := i\<rparr>"
    using assms(2) seg_okD(1) by (simp add: canon_defs split: if_splits)
  with wf_mention show ?thesis using wf_uri.wf_identity [of i "[]"] seg_okD(1)
    by (simp add: canon_defs)
next
  case (wf_prop sp1 ob p f)
  then have "c = URI_zero\<lparr>uKind := KindProp, uSpaceId := sp1, uObjectId := ob, uPropId := p\<rparr>"
    using assms(2) seg_okD(1) by (simp add: canon_defs split: if_splits)
  with wf_prop show ?thesis using wf_uri.wf_prop [of sp1 ob p "[]"] seg_okD(1)
    by (simp add: canon_defs)
next
  case (wf_file sp1 fl v f)
  then have "c = URI_zero\<lparr>uKind := KindFile, uSpaceId := sp1, uFileId := fl\<rparr>"
    using assms(2) seg_okD(1) by (simp add: canon_defs split: if_splits)
  with wf_file show ?thesis using wf_uri.wf_file [of sp1 fl "[]" "[]"] seg_okD(1)
    by (simp add: canon_defs)
next
  case (wf_space sp1 f)
  then show ?thesis using assms(2) by (simp add: canon_defs split: if_splits)
qed

text \<open>
  The canonical form of a parsed reference is a fixed point: it carries no fragment, variant
  or legacy mark, it is its own canonical form in every space, and its text parses back to it, so
  the link index can use the text as a key.
\<close>

theorem Canonical_fixpoint:
  assumes "Parse s = Inr u" "URI_Canonical u sp = Some c" "sp = [] \<or> seg_ok sp"
  shows "Parse (URI_String c) = Inr c \<and> uFragment c = [] \<and> uVariant c = [] \<and> \<not> uLegacy c \<and>
         URI_Canonical c sp' = Some c"
  using Canonical_wf [OF Parse_wf [OF assms(1)] assms(2,3)] Parse_String_wf by blast

theorem Canonical_fixpoint_witness:
  "\<exists>u c. Parse ''any://objectOne#h'' = Inr u \<and> URI_Canonical u ''spc.k'' = Some c \<and>
         Parse (URI_String c) = Inr c \<and> URI_Canonical c ''other'' = Some c \<and>
         URI_String c = ''any://o/spc.k/objectOne''"
proof -
  define u where "u = URI_zero\<lparr>uFragment := ''h'', uKind := KindObject, uLegacy := True,
                      uObjectId := ''objectOne''\<rparr>"
  define c where "c = URI_zero\<lparr>uKind := KindObject, uSpaceId := ''spc.k'',
                      uObjectId := ''objectOne''\<rparr>"
  have 1: "Parse ''any://objectOne#h'' = Inr u" unfolding u_def by code_simp
  have 2: "URI_Canonical u ''spc.k'' = Some c" unfolding u_def c_def by code_simp
  have 3: "''spc.k'' = [] \<or> seg_ok ''spc.k''" by code_simp
  have 4: "URI_String c = ''any://o/spc.k/objectOne''" unfolding c_def by code_simp
  show ?thesis using 1 2 4 Canonical_fixpoint [OF 1 2 3, of "''other''"] by blast
qed

section \<open>Properties of the scanners\<close>

definition occurs_at :: "string \<Rightarrow> nat \<Rightarrow> bool" where
  "occurs_at doc i \<longleftrightarrow> has_prefix uri_prefix (drop i doc)"

text \<open>The scheme never overlaps itself, so resuming after a match skips no occurrence.\<close>

lemma uri_prefix_borderless:
  assumes "occurs_at doc i" "i < j" "j < i + length uri_prefix"
  shows "\<not> occurs_at doc j"
proof
  assume "occurs_at doc j"
  then have j: "drop j doc ! 0 = CHR ''a''" "drop j doc \<noteq> []"
    by (auto simp: occurs_at_def has_prefix_iff uri_prefix_def)
  obtain r where r: "drop i doc = uri_prefix @ r"
    using assms(1) by (auto simp: occurs_at_def has_prefix_iff)
  define k where "k = j - i"
  have k: "j = i + k" "0 < k" "k < 6"
    using assms(2,3) by (simp_all add: k_def uri_prefix_def)
  have "drop j doc = drop k (uri_prefix @ r)"
    using r k(1) by (metis add.commute drop_drop)
  with j k have "(uri_prefix @ r) ! k = CHR ''a''"
    by (simp add: nth_drop uri_prefix_def)
  moreover have "k = 1 \<or> k = 2 \<or> k = 3 \<or> k = 4 \<or> k = 5"
    using k by arith
  ultimately show False
    by (auto simp: uri_prefix_def)
qed

lemma filter_upt_first:
  assumes "P k" "i \<le> k" "k < n" "\<forall>j. i \<le> j \<and> j < k \<longrightarrow> \<not> P j" "k < m"
    and "\<forall>j. k < j \<and> j < m \<longrightarrow> \<not> P j"
  shows "filter P [i..<n] = k # filter P [m..<n]"
proof -
  have "[i..<n] = [i..<k] @ k # [Suc k..<n]"
    using assms(2,3) by (metis upt_conv_Cons le_add_diff_inverse less_imp_le upt_add_eq_append)
  moreover have "filter P [i..<k] = []" using assms(4) by (auto simp: filter_empty_conv)
  moreover have "filter P [Suc k..<n] = filter P [m..<n]"
  proof (cases "m \<le> n")
    case True
    then have "[Suc k..<n] = [Suc k..<m] @ [m..<n]"
      using assms(5) by (metis Suc_leI le_add_diff_inverse upt_add_eq_append)
    moreover have "filter P [Suc k..<m] = []" using assms(6) by (auto simp: filter_empty_conv)
    ultimately show ?thesis by simp
  next
    case False
    then have "filter P [Suc k..<n] = []" using assms(6) by (auto simp: filter_empty_conv)
    with False show ?thesis by simp
  qed
  ultimately show ?thesis using assms(1) by simp
qed

lemma extract_from_eq:
  "extract_from doc i seen =
     dedup_by URI_String seen
       (List.map_filter (link_at doc) (filter (occurs_at doc) [i..<length doc]))"
proof (induction doc i seen rule: extract_from.induct)
  case (1 doc i seen)
  show ?case
  proof (cases "i < length doc")
    case False
    then show ?thesis by (simp add: extract_from.simps [of doc i seen])
  next
    case True
    note in_range = True
    show ?thesis
    proof (cases "index_sub uri_prefix (drop i doc)")
      case None
      have "\<not> occurs_at doc j" if "i \<le> j" for j
        using index_sub_None [OF None, of "j - i"] that by (simp add: occurs_at_def uri_prefix_def)
      then have "filter (occurs_at doc) [i..<length doc] = []"
        by (auto simp: filter_empty_conv)
      with True None show ?thesis by (simp add: extract_from.simps [of doc i seen])
    next
      case (Some idx)
      let ?start = "i + idx" and ?next = "i + idx + length uri_prefix"
      note idx = index_sub_Some [OF Some]
      have here: "occurs_at doc ?start"
        using idx by (simp add: occurs_at_def add.commute)
      have before: "\<forall>j. i \<le> j \<and> j < ?start \<longrightarrow> \<not> occurs_at doc j"
      proof (intro allI impI)
        fix j assume "i \<le> j \<and> j < ?start"
        then have "j - i < idx" "j - i + i = j" by auto
        with idx show "\<not> occurs_at doc j" by (auto simp: occurs_at_def)
      qed
      have after: "\<forall>j. ?start < j \<and> j < ?next \<longrightarrow> \<not> occurs_at doc j"
        using uri_prefix_borderless [OF here] by blast
      have "drop ?start doc \<noteq> []"
        using here by (auto simp: occurs_at_def has_prefix_iff uri_prefix_def)
      then have "?start < length doc" by (simp add: not_le)
      then have rest: "filter (occurs_at doc) [i..<length doc] =
          ?start # filter (occurs_at doc) [?next..<length doc]"
        using here before after by (intro filter_upt_first) (auto simp: uri_prefix_def)
      show ?thesis
      proof (cases "link_at doc ?start")
        case None
        with True Some rest 1 show ?thesis
          by (simp add: extract_from.simps [of doc i seen] Let_def List.map_filter_simps)
      next
        case (Some u)
        with True \<open>index_sub _ _ = Some idx\<close> rest 1 show ?thesis
          by (simp add: extract_from.simps [of doc i seen] Let_def List.map_filter_simps)
      qed
    qed
  qed
qed

text \<open>
  C2. \<open>ExtractLinks\<close> is its specification: the links at the offsets where the scheme occurs
  in the text, in order, without repeats of the printed form. The loop's jumps past each match
  and its early exits lose nothing.
\<close>

theorem ExtractLinks_spec:
  "ExtractLinks doc =
     dedup_by URI_String []
       (List.map_filter (link_at doc) (filter (occurs_at doc) [0..<length doc]))"
  by (simp add: ExtractLinks_def extract_from_eq)

lemma base58_alnum: "isBase58Byte c \<Longrightarrow> isAlnumByte c"
  by (simp add: isBase58Byte_def isAlnumByte_def less_eq_char_def) linarith

lemma base58_tail: "isBase58 i \<Longrightarrow> list_all isTailByte i \<and> CHR ''.'' \<notin> set i \<and>
    last i \<notin> set ''.,;:!?''"
proof -
  assume i: "isBase58 i"
  then have b: "\<forall>c \<in> set i. isBase58Byte c" by (simp add: isBase58_def list_all_iff)
  moreover have "last i \<in> set i" using i by (simp add: isBase58_def)
  ultimately have "isBase58Byte (last i)" "CHR ''.'' \<notin> set i"
    by (auto simp: isBase58Byte_def)
  moreover have "list_all isTailByte i"
    using b by (simp add: list_all_iff isTailByte_def base58_alnum)
  ultimately show ?thesis by (auto simp: isBase58Byte_def)
qed

text \<open>
  Shedding a glued period keeps a reference well formed, except that a legacy bare object id may
  shrink into the kind slug namespace.
\<close>

lemma seg_ok_cut: "seg_ok s \<Longrightarrow> cut_before c s \<noteq> [] \<Longrightarrow> seg_ok (cut_before c s)"
  by (auto simp: seg_ok_def dest: set_cut_before)

lemma shed_wf:
  assumes "wf_uri u" "shedGluedPeriod u = Some v"
  shows "wf_uri v \<or>
    (\<exists>ob f. v = URI_zero\<lparr>uFragment := f, uKind := KindObject, uLegacy := True, uObjectId := ob\<rparr> \<and>
            seg_ok ob)"
  using assms
  by cases (auto simp: shedGluedPeriod_def URI_zero_def kind_defs Let_def split: if_splits
      intro!: seg_ok_cut wf_uri.intros [unfolded URI_zero_def kind_defs, simplified])

lemma ExtractLinks_identity:
  assumes v: "v \<in> set (ExtractLinks doc)" and i: "seg_ok i"
    and str: "URI_String v = URI_String (URI_zero\<lparr>uKind := KindIdentity, uIdentity := i\<rparr>)"
  shows "v = URI_zero\<lparr>uKind := KindIdentity, uIdentity := i\<rparr>"
proof -
  let ?u = "URI_zero\<lparr>uKind := KindIdentity, uIdentity := i\<rparr>"
  have "v \<in> set (List.map_filter (link_at doc) (filter (occurs_at doc) [0..<length doc]))"
    using v unfolding ExtractLinks_def extract_from_eq by (rule subsetD [OF dedup_by_subset])
  then obtain start where "link_at doc start = Some v"
    by (auto simp: in_map_filter)
  then obtain w where w: "Parse (link_token doc start) = Inr w" "shedGluedPeriod w = Some v"
    by (auto simp: link_at_def split: if_splits sum.splits)
  have u: "Parse (URI_String ?u) = Inr ?u"
    using Parse_String_wf [OF wf_identity [OF i, of "[]"]] by (simp add: URI_zero_def)
  from shed_wf [OF Parse_wf [OF w(1)] w(2)] show ?thesis
  proof
    assume "wf_uri v"
    from Parse_String_wf [OF this] str u show ?thesis by simp
  next
    assume "\<exists>ob f. v = URI_zero\<lparr>uFragment := f, uKind := KindObject, uLegacy := True,
                                  uObjectId := ob\<rparr> \<and> seg_ok ob"
    then obtain ob f where ob: "seg_ok ob" and "v = URI_zero\<lparr>uFragment := f, uKind := KindObject,
        uLegacy := True, uObjectId := ob\<rparr>" by blast
    with str have eq: "ob @ (if f = [] then [] else CHR ''#'' # f) = ''u/'' @ i"
      by (simp add: URI_String_def URI_zero_def kind_defs split: if_splits)
    have "f = []"
    proof (rule ccontr)
      assume "f \<noteq> []"
      with eq have "CHR ''#'' \<in> set (''u/'' @ i)"
        by (metis (full_types) in_set_conv_decomp)
      with i show False by (auto simp: seg_ok_def)
    qed
    with eq have "CHR ''/'' \<in> set ob" by simp
    with ob show ?thesis by (simp add: seg_ok_def)
  qed
qed

lemma link_token_identity:
  assumes i: "isBase58 i" and post: "set (takeWhile isTailByte post) \<subseteq> {CHR ''.''}"
  shows "link_token (pre @ BuildIdentity i @ post) (length pre) = BuildIdentity i"
proof -
  let ?tw = "takeWhile isTailByte post"
  have tail: "drop (length pre + length uri_prefix) (pre @ BuildIdentity i @ post) = ''u/'' @ i @ post"
    by (simp add: BuildIdentity_def KindIdentity_def)
  have u: "isTailByte CHR ''u''" "isTailByte CHR ''/''"
    by (simp_all add: isTailByte_def isAlnumByte_def)
  have tw: "takeWhile isTailByte (''u/'' @ i @ post) = ''u/'' @ i @ ?tw"
    using base58_tail [OF i] u by (simp add: takeWhile_append2 list_all_iff)
  have len: "length (BuildIdentity i) = length uri_prefix + 2 + length i"
    by (simp add: BuildIdentity_def KindIdentity_def)
  have "take (length ?tw) post = ?tw"
    by (metis takeWhile_eq_take length_takeWhile_le min.absorb1 length_take)
  then have cut: "take (length uri_prefix + length (''u/'' @ i @ ?tw)) (BuildIdentity i @ post)
      = BuildIdentity i @ ?tw"
    using len by simp
  have "last (BuildIdentity i) = last i" "BuildIdentity i \<noteq> []"
    using i by (auto simp: BuildIdentity_def KindIdentity_def uri_prefix_def isBase58_def)
  with base58_tail [OF i] post
  have "trim_right ''.,;:!?'' (BuildIdentity i @ ?tw) = BuildIdentity i"
    by (intro trim_right_append) auto
  with tail tw cut show ?thesis
    by (simp add: link_token_def Let_def)
qed

lemma link_at_identity:
  assumes i: "isBase58 i" and pre: "pre = [] \<or> \<not> isSchemeByte (last pre)"
    and post: "set (takeWhile isTailByte post) \<subseteq> {CHR ''.''}"
  shows "link_at (pre @ BuildIdentity i @ post) (length pre) =
           Some (URI_zero\<lparr>uKind := KindIdentity, uIdentity := i\<rparr>)"
proof -
  let ?u = "URI_zero\<lparr>uFragment := [], uKind := KindIdentity, uIdentity := i\<rparr>"
  have "URI_String ?u = BuildIdentity i"
    by (simp add: URI_String_def URI_zero_def BuildIdentity_def kind_defs)
  with Parse_String_wf [OF wf_identity [OF isBase58_seg_ok [OF i], of "[]"]]
  have parse: "Parse (BuildIdentity i) = Inr ?u" by simp
  have shed: "shedGluedPeriod ?u = Some ?u"
    using base58_tail [OF i] i
    by (simp add: shedGluedPeriod_def URI_zero_def kind_defs Let_def isBase58_def)
  have scheme: "\<not> (0 < length pre \<and>
      isSchemeByte ((pre @ BuildIdentity i @ post) ! (length pre - 1)))"
    using pre by (auto simp: nth_append last_conv_nth)
  from scheme parse shed show ?thesis
    by (simp add: link_at_def link_token_identity [OF i post] URI_zero_def)
qed

text \<open>
  A mention written in a text is found: wherever \<open>any://u/<identity>\<close> with a base58
  identity stands in a text, not glued to a longer scheme on its left and followed by a byte that
  ends a token (or by sentence periods), \<open>ExtractMentions\<close> reports the identity, whatever
  else the text holds.
\<close>

theorem ExtractMentions_complete:
  assumes i: "isBase58 i" and pre: "pre = [] \<or> \<not> isSchemeByte (last pre)"
    and post: "set (takeWhile isTailByte post) \<subseteq> {CHR ''.''}"
  shows "i \<in> set (ExtractMentions (pre @ BuildIdentity i @ post))"
proof -
  let ?doc = "pre @ BuildIdentity i @ post"
  let ?u = "URI_zero\<lparr>uKind := KindIdentity, uIdentity := i\<rparr>"
  let ?links = "List.map_filter (link_at ?doc) (filter (occurs_at ?doc) [0..<length ?doc])"
  have "occurs_at ?doc (length pre)" "length pre < length ?doc"
    by (auto simp: occurs_at_def BuildIdentity_def uri_prefix_def has_prefix_iff)
  with link_at_identity [OF i pre post] have "?u \<in> set ?links"
    unfolding in_map_filter by (intro bexI [of _ "length pre"]) simp_all
  then have "URI_String ?u \<in> URI_String ` set (ExtractLinks ?doc)"
    by (simp add: ExtractLinks_def extract_from_eq dedup_by_set)
  then obtain v where v: "v \<in> set (ExtractLinks ?doc)" "URI_String v = URI_String ?u"
    by auto
  have "v = ?u"
    by (rule ExtractLinks_identity [OF v(1) isBase58_seg_ok [OF i] v(2)])
  with v(1) i show ?thesis
    by (force simp: ExtractMentions_def dedup_by_set [where key = id, simplified] URI_zero_def
        isBase58_def)
qed

theorem ExtractMentions_complete_witness:
  "''5Kd3'' \<in> set (ExtractMentions (''hi [z]('' @ BuildIdentity ''5Kd3'' @ ''). Bye''))"
proof -
  have 1: "isBase58 ''5Kd3''" by code_simp
  have 2: "''hi [z]('' = [] \<or> \<not> isSchemeByte (last ''hi [z]('')" by code_simp
  have 3: "set (takeWhile isTailByte ''). Bye'') \<subseteq> {CHR ''.''}" by code_simp
  show ?thesis by (rule ExtractMentions_complete [OF 1 2 3])
qed

end
