(* ===== verification/ChatHandler.thy ===== *)
theory ChatHandler
  imports AnyEnc AnyUri
begin

text \<open>
  The handler of the \<open>chat_messages\<close> dataset (src/internal/chat/handler.go, with the field
  names and limits of src/internal/chat/chat.go): what a peer's change may create, edit, react to
  and delete, and the fields the handler derives. A hook answers a rejection or the operations it
  hands to \<open>sink.Derive\<close>; \<open>BeforeModify\<close> also answers the operation itself, whose
  payload a reaction rewrites. Rejection messages are kept without the numbers they print.
\<close>

section \<open>Fields and limits\<close>

definition FieldCreator :: string where "FieldCreator = ''creator''"
definition FieldCreatedAt :: string where "FieldCreatedAt = ''createdAt''"
definition FieldModifiedAt :: string where "FieldModifiedAt = ''modifiedAt''"
definition FieldReplyToMessageId :: string where "FieldReplyToMessageId = ''replyToMessageId''"
definition FieldText :: string where "FieldText = ''text''"
definition FieldMentions :: string where "FieldMentions = ''mentions''"
definition FieldReactions :: string where "FieldReactions = ''reactions''"
definition FieldAgent :: string where "FieldAgent = ''agent''"
definition FieldAttachments :: string where "FieldAttachments = ''attachments''"
definition FieldContext :: string where "FieldContext = ''context''"
definition FieldControl :: string where "FieldControl = ''control''"

definition FieldAgentName :: string where "FieldAgentName = ''name''"
definition FieldAgentDebugLink :: string where "FieldAgentDebugLink = ''debugLink''"
definition FieldAgentDone :: string where "FieldAgentDone = ''done''"
definition FieldAgentOutcome :: string where "FieldAgentOutcome = ''outcome''"
definition FieldAttachmentType :: string where "FieldAttachmentType = ''type''"
definition FieldAttachmentLink :: string where "FieldAttachmentLink = ''link''"
definition FieldControlKind :: string where "FieldControlKind = ''kind''"
definition FieldControlHard :: string where "FieldControlHard = ''hard''"
definition FieldContextSpaceId :: string where "FieldContextSpaceId = ''spaceId''"
definition FieldContextObjectId :: string where "FieldContextObjectId = ''objectId''"
definition FieldContextView :: string where "FieldContextView = ''view''"

lemmas chat_fields = FieldCreator_def FieldCreatedAt_def FieldModifiedAt_def
  FieldReplyToMessageId_def FieldText_def FieldMentions_def FieldReactions_def FieldAgent_def
  FieldAttachments_def FieldContext_def FieldControl_def FieldAgentName_def
  FieldAgentDebugLink_def FieldAgentDone_def FieldAgentOutcome_def FieldAttachmentType_def
  FieldAttachmentLink_def FieldControlKind_def FieldControlHard_def FieldContextSpaceId_def
  FieldContextObjectId_def FieldContextView_def

definition MaxTextBytes :: nat where "MaxTextBytes = 32 * 1024"
definition MaxReplyIdBytes :: nat where "MaxReplyIdBytes = 256"
definition MaxEmojiBytes :: nat where "MaxEmojiBytes = 64"
definition MaxAgentNameBytes :: nat where "MaxAgentNameBytes = 256"
definition MaxDebugLinkBytes :: nat where "MaxDebugLinkBytes = 2 * 1024"
definition MaxAgentOutcomeBytes :: nat where "MaxAgentOutcomeBytes = 64"
definition MaxAttachments :: nat where "MaxAttachments = 32"
definition MaxAttachmentIdBytes :: nat where "MaxAttachmentIdBytes = 64"
definition MaxAttachmentTypeBytes :: nat where "MaxAttachmentTypeBytes = 64"
definition MaxAttachmentLinkBytes :: nat where "MaxAttachmentLinkBytes = 2 * 1024"
definition MaxContextIdBytes :: nat where "MaxContextIdBytes = 256"
definition MaxContextViewBytes :: nat where "MaxContextViewBytes = 64"
definition MaxControlKindBytes :: nat where "MaxControlKindBytes = 64"
definition MaxMentions :: nat where "MaxMentions = 64"

definition Dataset :: string where "Dataset = ''chat_messages''"

datatype chat_error = RejectCreate string | RejectRecord string | RejectOp string

section \<open>The groups of a creation payload\<close>

text \<open>
  The check every bounded string field shares; the message of the empty string differs between
  required fields and optional ones.
\<close>

definition bounded_text :: "'v anyenc \<Rightarrow> string \<Rightarrow> string \<Rightarrow> nat \<Rightarrow> 'v \<Rightarrow> chat_error option" where
  "bounded_text enc name ifEmpty mx v =
     (if vtyp enc v \<noteq> TypeString then Some (RejectCreate (name @ '' must be a string''))
      else if vbytes enc v = [] then Some (RejectCreate (name @ ifEmpty))
      else if length (vbytes enc v) > mx then Some (RejectCreate (name @ '' too long''))
      else None)"

abbreviation required_text :: "'v anyenc \<Rightarrow> string \<Rightarrow> nat \<Rightarrow> 'v \<Rightarrow> chat_error option" where
  "required_text enc name \<equiv> bounded_text enc name '' required''"

abbreviation optional_text :: "'v anyenc \<Rightarrow> string \<Rightarrow> nat \<Rightarrow> 'v \<Rightarrow> chat_error option" where
  "optional_text enc name \<equiv> bounded_text enc name '' must be non-empty when present''"

definition context_check :: "'v anyenc \<Rightarrow> string \<Rightarrow> 'v \<Rightarrow> chat_error option" where
  "context_check enc key v =
     (let name = ''context.'' @ key
      in if key = FieldContextSpaceId \<or> key = FieldContextObjectId
         then optional_text enc name MaxContextIdBytes v
         else if key = FieldContextView then optional_text enc name MaxContextViewBytes v
         else Some (RejectCreate (''context: unknown field '' @ key)))"

definition validateContext :: "'v anyenc \<Rightarrow> 'v \<Rightarrow> chat_error option" where
  "validateContext enc v =
     (if vtyp enc v \<noteq> TypeObject then Some (RejectCreate ''context must be an object'')
      else case visit_fields (\<lambda>_. context_check enc) (\<lambda>hasSpaceId key _. hasSpaceId \<or> key = FieldContextSpaceId)
                  False (vvisit enc v) of
             Inl e \<Rightarrow> Some e
           | Inr hasSpaceId \<Rightarrow>
               if \<not> hasSpaceId then Some (RejectCreate ''context.spaceId required'') else None)"

definition control_check :: "'v anyenc \<Rightarrow> string \<Rightarrow> 'v \<Rightarrow> chat_error option" where
  "control_check enc key v =
     (if key = FieldControlKind then required_text enc ''control.kind'' MaxControlKindBytes v
      else if key = FieldControlHard
      then (if \<not> bool_field enc v then Some (RejectCreate ''control.hard must be a boolean'') else None)
      else Some (RejectCreate (''control: unknown field '' @ key)))"

definition validateControl :: "'v anyenc \<Rightarrow> 'v \<Rightarrow> chat_error option" where
  "validateControl enc v =
     (if vtyp enc v \<noteq> TypeObject then Some (RejectCreate ''control must be an object'')
      else case visit_fields (\<lambda>_. control_check enc) (\<lambda>hasKind key _. hasKind \<or> key = FieldControlKind)
                  False (vvisit enc v) of
             Inl e \<Rightarrow> Some e
           | Inr hasKind \<Rightarrow>
               if \<not> hasKind then Some (RejectCreate ''control.kind required'') else None)"

definition agent_check :: "'v anyenc \<Rightarrow> string \<Rightarrow> 'v \<Rightarrow> chat_error option" where
  "agent_check enc key v =
     (if key = FieldAgentName then required_text enc ''agent.name'' MaxAgentNameBytes v
      else if key = FieldAgentDebugLink then optional_text enc ''agent.debugLink'' MaxDebugLinkBytes v
      else if key = FieldAgentDone
      then (if \<not> bool_field enc v then Some (RejectCreate ''agent.done must be a boolean'') else None)
      else if key = FieldAgentOutcome then optional_text enc ''agent.outcome'' MaxAgentOutcomeBytes v
      else Some (RejectCreate (''agent: field_not_allowed: '' @ key)))"

definition validateAgent :: "'v anyenc \<Rightarrow> 'v \<Rightarrow> chat_error option" where
  "validateAgent enc v =
     (if vtyp enc v \<noteq> TypeObject then Some (RejectCreate ''agent must be an object'')
      else case visit_fields (\<lambda>_. agent_check enc)
                  (\<lambda>(hasName, hasDone) key _. (hasName \<or> key = FieldAgentName, hasDone \<or> key = FieldAgentDone))
                  (False, False) (vvisit enc v) of
             Inl e \<Rightarrow> Some e
           | Inr (hasName, hasDone) \<Rightarrow>
               if \<not> hasName then Some (RejectCreate ''agent.name required'')
               else if \<not> hasDone then Some (RejectCreate ''agent.done required'')
               else None)"

definition attachmentIdByte :: "char \<Rightarrow> bool" where
  "attachmentIdByte c \<longleftrightarrow>
     CHR ''A'' \<le> c \<and> c \<le> CHR ''Z'' \<or> CHR ''a'' \<le> c \<and> c \<le> CHR ''z'' \<or>
     CHR ''0'' \<le> c \<and> c \<le> CHR ''9'' \<or> c = CHR ''_'' \<or> c = CHR ''-''"

definition ValidAttachmentId :: "string \<Rightarrow> bool" where
  "ValidAttachmentId i \<longleftrightarrow>
     (if i = [] \<or> length i > MaxAttachmentIdBytes then False else list_all attachmentIdByte i)"

definition attachment_check :: "'v anyenc \<Rightarrow> string \<Rightarrow> string \<Rightarrow> 'v \<Rightarrow> chat_error option" where
  "attachment_check enc i key v =
     (if key = FieldAttachmentType
      then required_text enc (''attachments['' @ i @ ''].type'') MaxAttachmentTypeBytes v
      else if key = FieldAttachmentLink
      then required_text enc (''attachments['' @ i @ ''].link'') MaxAttachmentLinkBytes v
      else Some (RejectCreate (''attachments['' @ i @ '']: unknown field '' @ key)))"

definition validateAttachmentEntry :: "'v anyenc \<Rightarrow> string \<Rightarrow> 'v \<Rightarrow> chat_error option" where
  "validateAttachmentEntry enc i entry =
     (if vtyp enc entry \<noteq> TypeObject
      then Some (RejectCreate (''attachments['' @ i @ '']: must be an object''))
      else case visit_fields (\<lambda>_. attachment_check enc i)
                  (\<lambda>(hasType, hasLnk) key _. (hasType \<or> key = FieldAttachmentType, hasLnk \<or> key = FieldAttachmentLink))
                  (False, False) (vvisit enc entry) of
             Inl e \<Rightarrow> Some e
           | Inr (hasType, hasLnk) \<Rightarrow>
               if \<not> hasType then Some (RejectCreate (''attachments['' @ i @ ''].type required''))
               else if \<not> hasLnk then Some (RejectCreate (''attachments['' @ i @ ''].link required''))
               else None)"

text \<open>The accumulator is the number of entries visited before this one.\<close>

definition entry_check :: "'v anyenc \<Rightarrow> nat \<Rightarrow> string \<Rightarrow> 'v \<Rightarrow> chat_error option" where
  "entry_check enc seen i entry =
     (if seen + 1 > MaxAttachments then Some (RejectCreate ''attachments: too many entries'')
      else if \<not> ValidAttachmentId i then Some (RejectCreate (''attachments: invalid id: '' @ i))
      else validateAttachmentEntry enc i entry)"

definition validateAttachments :: "'v anyenc \<Rightarrow> 'v \<Rightarrow> chat_error option" where
  "validateAttachments enc v =
     (if vtyp enc v \<noteq> TypeObject then Some (RejectCreate ''attachments must be an object'')
      else case visit_fields (entry_check enc) (\<lambda>seen _ _. seen + 1) 0 (vvisit enc v) of
             Inl e \<Rightarrow> Some e
           | Inr seen \<Rightarrow>
               if seen = 0 then Some (RejectCreate ''attachments: must be non-empty when present'')
               else None)"

section \<open>The creation payload\<close>

record create_flags =
  hasText :: bool
  hasAttachments :: bool
  hasControl :: bool

definition create_check :: "'v anyenc \<Rightarrow> string \<Rightarrow> 'v \<Rightarrow> chat_error option" where
  "create_check enc key v =
     (if key = FieldText
      then (if vtyp enc v \<noteq> TypeString then Some (RejectCreate ''text must be a string'')
            else if length (vbytes enc v) > MaxTextBytes then Some (RejectCreate ''text too long'')
            else None)
      else if key = FieldReplyToMessageId
      then optional_text enc ''replyToMessageId'' MaxReplyIdBytes v
      else if key = FieldAgent then validateAgent enc v
      else if key = FieldAttachments then validateAttachments enc v
      else if key = FieldContext then validateContext enc v
      else if key = FieldControl then validateControl enc v
      else Some (RejectCreate (''field_not_allowed: '' @ key)))"

definition create_mark :: "'v anyenc \<Rightarrow> create_flags \<Rightarrow> string \<Rightarrow> 'v \<Rightarrow> create_flags" where
  "create_mark enc fl key v =
     (if key = FieldText then fl\<lparr>hasText := (vbytes enc v \<noteq> [])\<rparr>
      else if key = FieldAttachments then fl\<lparr>hasAttachments := True\<rparr>
      else if key = FieldControl then fl\<lparr>hasControl := True\<rparr>
      else fl)"

definition validateCreatePayload :: "'v anyenc \<Rightarrow> 'v \<Rightarrow> chat_error option" where
  "validateCreatePayload enc v =
     (case visit_fields (\<lambda>_. create_check enc) (create_mark enc)
             \<lparr>hasText = False, hasAttachments = False, hasControl = False\<rparr> (vvisit enc v) of
        Inl e \<Rightarrow> Some e
      | Inr fl \<Rightarrow>
          if \<not> hasText fl \<and> \<not> hasAttachments fl \<and> \<not> hasControl fl
          then Some (RejectCreate ''text or attachment required'') else None)"

section \<open>Derived fields\<close>

definition set_op :: "string \<Rightarrow> 'v payload \<Rightarrow> 'v Op" where
  "set_op field p = \<lparr>opType = OpSet, opPath = [field], opPayload = p\<rparr>"

definition stampCreate :: "'v ChangeCtx option \<Rightarrow> 'v Op list" where
  "stampCreate ctx =
     (case ctx of None \<Rightarrow> [] | Some c \<Rightarrow>
      case cxChange c of None \<Rightarrow> [] | Some ch \<Rightarrow>
        (if chCreator ch \<noteq> [] then [set_op FieldCreator (NewString (chCreator ch))] else []) @
        (if chTimestamp ch > 0
         then [set_op FieldCreatedAt (NewDateTimeMillis (chTimestamp ch * 1000)),
               set_op FieldModifiedAt (NewDateTimeMillis (chTimestamp ch * 1000))]
         else []))"

text \<open>The author of a live replied-to message, as \<open>deriveMentions\<close> reads it.\<close>

definition replied_author :: "'v anyenc \<Rightarrow> 'v ChangeCtx option \<Rightarrow> string \<Rightarrow> string option" where
  "replied_author enc ctx replyTo =
     (if replyTo = [] then None
      else case ctx of None \<Rightarrow> None | Some c \<Rightarrow>
           case cxGet c of None \<Rightarrow> None | Some get \<Rightarrow>
           case get Dataset replyTo of None \<Rightarrow> None | Some rec \<Rightarrow>
             if vget enc rec [''_deletedAt''] \<noteq> None then None
             else if vstr enc rec [FieldCreator] = [] then None
             else Some (vstr enc rec [FieldCreator]))"

definition mention_ids :: "'v anyenc \<Rightarrow> 'v ChangeCtx option \<Rightarrow> string \<Rightarrow> string \<Rightarrow> string list" where
  "mention_ids enc ctx txt replyTo =
     (let ids = ExtractMentions txt;
          ids1 = (if length ids > MaxMentions then take MaxMentions ids else ids)
      in case replied_author enc ctx replyTo of
           None \<Rightarrow> ids1
         | Some creator \<Rightarrow>
             if creator \<in> set ids1 then ids1
             else (if length ids1 = MaxMentions then take (MaxMentions - 1) ids1 else ids1) @ [creator])"

definition deriveMentions ::
  "'v anyenc \<Rightarrow> 'v ChangeCtx option \<Rightarrow> string \<Rightarrow> string \<Rightarrow> bool \<Rightarrow> 'v Op list" where
  "deriveMentions enc ctx txt replyTo isEdit =
     (let ids = mention_ids enc ctx txt replyTo
      in if ids = []
         then (if isEdit then [\<lparr>opType = OpUnset, opPath = [FieldMentions], opPayload = NoPayload\<rparr>] else [])
         else [set_op FieldMentions (NewStringArray ids)])"

section \<open>The hooks\<close>

definition BeforeCreate ::
  "'v anyenc \<Rightarrow> 'v ChangeCtx option \<Rightarrow> 'v RecordChange \<Rightarrow> chat_error + 'v Op list" where
  "BeforeCreate enc ctx rec =
     (case rcOps rec of
        [op] \<Rightarrow>
          if opType op \<noteq> OpSet \<or> opPath op \<noteq> []
          then Inl (RejectCreate ''expected multi-field $set with empty path'')
          else (case opPayload op of
                  Given v \<Rightarrow>
                    if vtyp enc v \<noteq> TypeObject then Inl (RejectCreate ''payload must be a JSON object'')
                    else (case validateCreatePayload enc v of
                            Some e \<Rightarrow> Inl e
                          | None \<Rightarrow>
                              Inr (stampCreate ctx @
                                   deriveMentions enc ctx (vstr enc v [FieldText])
                                     (vstr enc v [FieldReplyToMessageId]) False))
                | _ \<Rightarrow> Inl (RejectCreate ''payload must be a JSON object''))
      | _ \<Rightarrow> Inl (RejectCreate ''expected exactly one multi-field $set op''))"

definition isAuthor :: "'v anyenc \<Rightarrow> 'v ChangeCtx option \<Rightarrow> bool" where
  "isAuthor enc ctx =
     (case ctx of None \<Rightarrow> False | Some c \<Rightarrow>
      case cxChange c of None \<Rightarrow> False | Some ch \<Rightarrow>
      case cxBefore c of None \<Rightarrow> False | Some before \<Rightarrow>
        if chCreator ch = [] then False
        else case vget enc before [FieldCreator] of
               None \<Rightarrow> False
             | Some creator \<Rightarrow>
                 if vtyp enc creator \<noteq> TypeString then False
                 else vbytes enc creator = chCreator ch)"

definition isTextEdit :: "'v Op \<Rightarrow> bool" where
  "isTextEdit op \<longleftrightarrow> opType op = OpSet \<and> opPath op = [FieldText]"

definition validateTextEdit ::
  "'v anyenc \<Rightarrow> 'v ChangeCtx option \<Rightarrow> 'v Op \<Rightarrow> chat_error + 'v Op list" where
  "validateTextEdit enc ctx op =
     (if \<not> isAuthor enc ctx then Inl (RejectOp ''not_author'')
      else case opPayload op of
             Given v \<Rightarrow>
               if vtyp enc v \<noteq> TypeString then Inl (RejectOp ''text must be a string'')
               else if vbytes enc v = [] then Inl (RejectOp ''text required'')
               else if length (vbytes enc v) > MaxTextBytes then Inl (RejectOp ''text too long'')
               else
                 let stamp = (case ctx of None \<Rightarrow> [] | Some c \<Rightarrow>
                              case cxChange c of None \<Rightarrow> [] | Some ch \<Rightarrow>
                                if chTimestamp ch > 0
                                then [set_op FieldModifiedAt (NewDateTimeMillis (chTimestamp ch * 1000))]
                                else []);
                     replyTo = (case ctx of None \<Rightarrow> [] | Some c \<Rightarrow>
                                case cxBefore c of None \<Rightarrow> []
                                | Some before \<Rightarrow> vstr enc before [FieldReplyToMessageId])
                 in Inr (stamp @ deriveMentions enc ctx (vbytes enc v) replyTo True)
           | _ \<Rightarrow> Inl (RejectOp ''text must be a string''))"

definition isReactionToggle :: "'v Op \<Rightarrow> bool" where
  "isReactionToggle op \<longleftrightarrow>
     (if opType op \<noteq> OpSet \<and> opType op \<noteq> OpUnset then False
      else (case opPath op of
              [f, emoji, identity] \<Rightarrow> f = FieldReactions \<and> emoji \<noteq> [] \<and> identity \<noteq> []
            | _ \<Rightarrow> False))"

text \<open>The operation is answered with the payload that lands.\<close>

definition validateReactionToggle :: "'v ChangeCtx option \<Rightarrow> 'v Op \<Rightarrow> chat_error + 'v Op" where
  "validateReactionToggle ctx op =
     (case ctx of None \<Rightarrow> Inl (RejectOp ''missing change context'') | Some c \<Rightarrow>
      case cxChange c of None \<Rightarrow> Inl (RejectOp ''missing change context'') | Some ch \<Rightarrow>
        if length (opPath op ! 1) > MaxEmojiBytes then Inl (RejectOp ''emoji too long'')
        else if opPath op ! 2 \<noteq> chCreator ch then Inl (RejectOp ''not_own_reaction_key'')
        else if opType op = OpSet
        then (if chTimestamp ch \<le> 0 then Inl (RejectOp ''missing change timestamp'')
              else Inr (op\<lparr>opPayload := NewDateTimeMillis (chTimestamp ch * 1000)\<rparr>))
        else Inr op)"

definition BeforeModify ::
  "'v anyenc \<Rightarrow> 'v ChangeCtx option \<Rightarrow> 'v Op \<Rightarrow> chat_error + 'v Op \<times> 'v Op list" where
  "BeforeModify enc ctx op =
     (if isTextEdit op
      then (case validateTextEdit enc ctx op of Inl e \<Rightarrow> Inl e | Inr ds \<Rightarrow> Inr (op, ds))
      else if isReactionToggle op
      then (case validateReactionToggle ctx op of Inl e \<Rightarrow> Inl e | Inr op' \<Rightarrow> Inr (op', []))
      else Inl (RejectOp ''field_not_modifiable''))"

definition BeforeDelete :: "'v anyenc \<Rightarrow> 'v ChangeCtx option \<Rightarrow> chat_error option" where
  "BeforeDelete enc ctx = (if \<not> isAuthor enc ctx then Some (RejectRecord ''not_author'') else None)"


section \<open>What the validators accept\<close>

definition context_ok :: "'v anyenc \<Rightarrow> 'v \<Rightarrow> bool" where
  "context_ok enc v \<longleftrightarrow> vtyp enc v = TypeObject \<and> has_key enc v FieldContextSpaceId \<and>
     all_fields enc v (\<lambda>key x.
       key \<in> {FieldContextSpaceId, FieldContextObjectId} \<and> is_text enc MaxContextIdBytes x \<or>
       key = FieldContextView \<and> is_text enc MaxContextViewBytes x)"

definition control_ok :: "'v anyenc \<Rightarrow> 'v \<Rightarrow> bool" where
  "control_ok enc v \<longleftrightarrow> vtyp enc v = TypeObject \<and> has_key enc v FieldControlKind \<and>
     all_fields enc v (\<lambda>key x.
       key = FieldControlKind \<and> is_text enc MaxControlKindBytes x \<or>
       key = FieldControlHard \<and> bool_field enc x)"

definition agent_ok :: "'v anyenc \<Rightarrow> 'v \<Rightarrow> bool" where
  "agent_ok enc v \<longleftrightarrow> vtyp enc v = TypeObject \<and>
     has_key enc v FieldAgentName \<and> has_key enc v FieldAgentDone \<and>
     all_fields enc v (\<lambda>key x.
       key = FieldAgentName \<and> is_text enc MaxAgentNameBytes x \<or>
       key = FieldAgentDebugLink \<and> is_text enc MaxDebugLinkBytes x \<or>
       key = FieldAgentDone \<and> bool_field enc x \<or>
       key = FieldAgentOutcome \<and> is_text enc MaxAgentOutcomeBytes x)"

definition attachment_ok :: "'v anyenc \<Rightarrow> 'v \<Rightarrow> bool" where
  "attachment_ok enc v \<longleftrightarrow> vtyp enc v = TypeObject \<and>
     has_key enc v FieldAttachmentType \<and> has_key enc v FieldAttachmentLink \<and>
     all_fields enc v (\<lambda>key x.
       key = FieldAttachmentType \<and> is_text enc MaxAttachmentTypeBytes x \<or>
       key = FieldAttachmentLink \<and> is_text enc MaxAttachmentLinkBytes x)"

definition attachments_ok :: "'v anyenc \<Rightarrow> 'v \<Rightarrow> bool" where
  "attachments_ok enc v \<longleftrightarrow> vtyp enc v = TypeObject \<and>
     1 \<le> length (vvisit enc v) \<and> length (vvisit enc v) \<le> MaxAttachments \<and>
     all_fields enc v (\<lambda>key x. ValidAttachmentId key \<and> attachment_ok enc x)"

lemma bounded_text_None [simp]: "bounded_text enc name e mx v = None \<longleftrightarrow> is_text enc mx v"
  by (auto simp: bounded_text_def is_text_def)

lemma validateContext_iff: "validateContext enc v = None \<longleftrightarrow> context_ok enc v"
proof -
  have "context_check enc key x = None \<longleftrightarrow>
      key \<in> {FieldContextSpaceId, FieldContextObjectId} \<and> is_text enc MaxContextIdBytes x \<or>
      key = FieldContextView \<and> is_text enc MaxContextViewBytes x" for key x
    by (auto simp: context_check_def Let_def chat_fields)
  then show ?thesis
    by (simp add: validateContext_def visit_accepts foldl_flag context_ok_def has_key_def all_fields_def conj_ac)
qed

lemma validateControl_iff: "validateControl enc v = None \<longleftrightarrow> control_ok enc v"
proof -
  have "control_check enc key x = None \<longleftrightarrow>
      key = FieldControlKind \<and> is_text enc MaxControlKindBytes x \<or>
      key = FieldControlHard \<and> bool_field enc x" for key x
    by (auto simp: control_check_def chat_fields)
  then show ?thesis
    by (simp add: validateControl_def visit_accepts foldl_flag control_ok_def has_key_def all_fields_def conj_ac)
qed

lemma validateAgent_iff: "validateAgent enc v = None \<longleftrightarrow> agent_ok enc v"
proof -
  have "agent_check enc key x = None \<longleftrightarrow>
      key = FieldAgentName \<and> is_text enc MaxAgentNameBytes x \<or>
      key = FieldAgentDebugLink \<and> is_text enc MaxDebugLinkBytes x \<or>
      key = FieldAgentDone \<and> bool_field enc x \<or>
      key = FieldAgentOutcome \<and> is_text enc MaxAgentOutcomeBytes x" for key x
    by (auto simp: agent_check_def chat_fields)
  then show ?thesis
    by (simp add: validateAgent_def visit_accepts foldl_flags agent_ok_def has_key_def all_fields_def conj_ac)
qed

lemma validateAttachmentEntry_iff: "validateAttachmentEntry enc i v = None \<longleftrightarrow> attachment_ok enc v"
proof -
  have "attachment_check enc i key x = None \<longleftrightarrow>
      key = FieldAttachmentType \<and> is_text enc MaxAttachmentTypeBytes x \<or>
      key = FieldAttachmentLink \<and> is_text enc MaxAttachmentLinkBytes x" for key x
    by (auto simp: attachment_check_def chat_fields)
  then show ?thesis
    by (simp add: validateAttachmentEntry_def visit_accepts foldl_flags attachment_ok_def has_key_def all_fields_def conj_ac)
qed

lemma visit_entries:
  "visit_fields (entry_check enc) (\<lambda>n _ _. n + 1) n fs = Inr m \<longleftrightarrow>
     m = n + length fs \<and> (fs \<noteq> [] \<longrightarrow> n + length fs \<le> MaxAttachments) \<and>
     (\<forall>(key, x) \<in> set fs. ValidAttachmentId key \<and> attachment_ok enc x)"
proof (induction fs arbitrary: n)
  case (Cons f fs)
  obtain key x where f: "f = (key, x)" by fastforce
  show ?case
  proof (cases "entry_check enc n key x")
    case None
    then have "n + 1 \<le> MaxAttachments" "ValidAttachmentId key" "attachment_ok enc x"
      by (auto simp: entry_check_def validateAttachmentEntry_iff split: if_splits)
    with None Cons.IH [of "n + 1"] f show ?thesis by (cases fs) auto
  next
    case (Some e)
    then have "\<not> (n + 1 \<le> MaxAttachments \<and> ValidAttachmentId key \<and> attachment_ok enc x)"
      using validateAttachmentEntry_iff [of enc key x] by (auto simp: entry_check_def split: if_splits)
    with Some f show ?thesis by auto
  qed
qed auto

lemma validateAttachments_iff: "validateAttachments enc v = None \<longleftrightarrow> attachments_ok enc v"
proof -
  let ?walk = "visit_fields (entry_check enc) (\<lambda>n _ _. n + 1) 0 (vvisit enc v)"
  have "validateAttachments enc v = None \<longleftrightarrow> vtyp enc v = TypeObject \<and> (\<exists>m. ?walk = Inr m \<and> m \<noteq> 0)"
    by (auto simp: validateAttachments_def split: sum.splits)
  then show ?thesis
    unfolding visit_entries by (auto simp: attachments_ok_def all_fields_def Suc_le_eq)
qed

text \<open>The whole creation payload: allowed fields only, each in its own grammar, and some content.\<close>

definition create_field_ok :: "'v anyenc \<Rightarrow> string \<Rightarrow> 'v \<Rightarrow> bool" where
  "create_field_ok enc key x \<longleftrightarrow>
     key = FieldText \<and> vtyp enc x = TypeString \<and> length (vbytes enc x) \<le> MaxTextBytes \<or>
     key = FieldReplyToMessageId \<and> is_text enc MaxReplyIdBytes x \<or>
     key = FieldAgent \<and> agent_ok enc x \<or>
     key = FieldAttachments \<and> attachments_ok enc x \<or>
     key = FieldContext \<and> context_ok enc x \<or>
     key = FieldControl \<and> control_ok enc x"

lemma create_check_iff: "create_check enc key x = None \<longleftrightarrow> create_field_ok enc key x"
  by (auto simp: create_check_def create_field_ok_def chat_fields validateAgent_iff
      validateAttachments_iff validateContext_iff validateControl_iff)

lemma create_flags:
  assumes "distinct (map fst fs)"
  shows "foldl (\<lambda>fl (key, v). create_mark enc fl key v) fl fs =
    \<lparr>hasText = (case map_of fs FieldText of None \<Rightarrow> hasText fl | Some v \<Rightarrow> vbytes enc v \<noteq> []),
     hasAttachments = (hasAttachments fl \<or> FieldAttachments \<in> fst ` set fs),
     hasControl = (hasControl fl \<or> FieldControl \<in> fst ` set fs)\<rparr>"
  using assms
proof (induction fs arbitrary: fl)
  case (Cons f fs)
  then have "FieldText = fst f \<Longrightarrow> map_of fs FieldText = None" by (simp add: map_of_eq_None_iff)
  with Cons show ?case
    by (cases f) (auto simp: create_mark_def chat_fields intro!: create_flags.equality split: option.splits)
qed (simp split: option.split)

definition has_content :: "'v anyenc \<Rightarrow> 'v \<Rightarrow> bool" where
  "has_content enc v \<longleftrightarrow> has_key enc v FieldAttachments \<or> has_key enc v FieldControl \<or>
     (case map_of (vvisit enc v) FieldText of None \<Rightarrow> False | Some x \<Rightarrow> vbytes enc x \<noteq> [])"

lemma validateCreatePayload_iff:
  assumes "distinct (map fst (vvisit enc v))"
  shows "validateCreatePayload enc v = None \<longleftrightarrow> all_fields enc v (create_field_ok enc) \<and> has_content enc v"
  unfolding validateCreatePayload_def visit_accepts create_flags [OF assms]
  by (auto simp: create_check_iff all_fields_def has_content_def has_key_def split: option.splits)

section \<open>Properties of the hooks\<close>

lemma BeforeCreate_Inr:
  "BeforeCreate enc ctx rec = Inr ds \<longleftrightarrow>
     (\<exists>op v. rcOps rec = [op] \<and> opType op = OpSet \<and> opPath op = [] \<and> opPayload op = Given v \<and>
        vtyp enc v = TypeObject \<and> validateCreatePayload enc v = None \<and>
        ds = stampCreate ctx @ deriveMentions enc ctx (vstr enc v [FieldText])
               (vstr enc v [FieldReplyToMessageId]) False)"
  by (auto simp: BeforeCreate_def split: list.splits if_splits payload.splits option.splits)

text \<open>
  C11. What creation accepts, as a grammar: exactly one operation, a multi-field set at the
  record's root, of an object whose every field is one of six (text, replyToMessageId, agent,
  attachments, context, control) and within its own grammar and limits, and that carries a
  non-empty text, an attachment or a control signal. Assumed: the keys of an object are distinct.
  The comment of \<open>BeforeCreate\<close> is narrower: it requires a non-empty text and does not list
  control; the code and its comment on emptiness accept a message without text.
\<close>

theorem BeforeCreate_accepts_iff:
  assumes "\<forall>v. distinct (map fst (vvisit enc v))"
  shows "(\<exists>ds. BeforeCreate enc ctx rec = Inr ds) \<longleftrightarrow>
    (\<exists>v. rcOps rec = [\<lparr>opType = OpSet, opPath = [], opPayload = Given v\<rparr>] \<and> vtyp enc v = TypeObject \<and>
       all_fields enc v (create_field_ok enc) \<and> has_content enc v)"
proof -
  have "(\<exists>op. rcOps rec = [op] \<and> opType op = OpSet \<and> opPath op = [] \<and> opPayload op = Given v) \<longleftrightarrow>
      rcOps rec = [\<lparr>opType = OpSet, opPath = [], opPayload = Given v\<rparr>]" for v
    by auto
  moreover have "(\<exists>ds. BeforeCreate enc ctx rec = Inr ds) \<longleftrightarrow>
      (\<exists>v. (\<exists>op. rcOps rec = [op] \<and> opType op = OpSet \<and> opPath op = [] \<and> opPayload op = Given v) \<and>
         vtyp enc v = TypeObject \<and> validateCreatePayload enc v = None)"
    unfolding BeforeCreate_Inr by blast
  moreover have "validateCreatePayload enc v = None \<longleftrightarrow>
      all_fields enc v (create_field_ok enc) \<and> has_content enc v" for v
    using assms by (intro validateCreatePayload_iff) simp
  ultimately show ?thesis by simp
qed

lemma stampCreate_paths: "op \<in> set (stampCreate ctx) \<Longrightarrow> opType op = OpSet \<and>
    opPath op \<in> {[FieldCreator], [FieldCreatedAt], [FieldModifiedAt]}"
  by (auto simp: stampCreate_def set_op_def split: option.splits if_splits)

lemma deriveMentions_paths:
  "op \<in> set (deriveMentions enc ctx txt replyTo isEdit) \<Longrightarrow> opPath op = [FieldMentions]"
  by (auto simp: deriveMentions_def Let_def set_op_def split: if_splits)

text \<open>
  Authorship cannot be forged at creation: no field of an accepted payload is the creator, a
  timestamp, the mentions or the reactions, and the handler itself writes the creator, once, with
  the signer of the change, and both timestamps with the time of the change.
\<close>

theorem BeforeCreate_authorship:
  assumes acc: "BeforeCreate enc (Some c) rec = Inr ds"
    and ch: "cxChange c = Some ch" "chCreator ch \<noteq> []" "chTimestamp ch > 0"
    and keys: "\<forall>v. distinct (map fst (vvisit enc v))"
  shows "\<exists>v. rcOps rec = [\<lparr>opType = OpSet, opPath = [], opPayload = Given v\<rparr>] \<and>
    fst ` set (vvisit enc v) \<subseteq>
      {FieldText, FieldReplyToMessageId, FieldAgent, FieldAttachments, FieldContext, FieldControl} \<and>
    filter (\<lambda>op. opPath op = [FieldCreator]) ds = [set_op FieldCreator (NewString (chCreator ch))] \<and>
    filter (\<lambda>op. opPath op \<in> {[FieldCreatedAt], [FieldModifiedAt]}) ds =
      [set_op FieldCreatedAt (NewDateTimeMillis (chTimestamp ch * 1000)),
       set_op FieldModifiedAt (NewDateTimeMillis (chTimestamp ch * 1000))]"
proof -
  obtain op v where op: "rcOps rec = [op]" "opType op = OpSet" "opPath op = []" "opPayload op = Given v"
    and v: "validateCreatePayload enc v = None"
    and ds: "ds = stampCreate (Some c) @ deriveMentions enc (Some c) (vstr enc v [FieldText])
               (vstr enc v [FieldReplyToMessageId]) False"
    using acc unfolding BeforeCreate_Inr by blast
  have allowed: "all_fields enc v (create_field_ok enc)"
    using v validateCreatePayload_iff [of enc v] keys by simp
  then have "fst ` set (vvisit enc v) \<subseteq>
      {FieldText, FieldReplyToMessageId, FieldAgent, FieldAttachments, FieldContext, FieldControl}"
    unfolding all_fields_def create_field_ok_def by (auto split: prod.splits)
  moreover have "filter (\<lambda>op. opPath op \<in> P) (deriveMentions enc (Some c) t r e) = []"
    if "[FieldMentions] \<notin> P" for P t r e
    using that deriveMentions_paths by (fastforce simp: filter_empty_conv)
  from this [of "{[FieldCreator]}"] this [of "{[FieldCreatedAt], [FieldModifiedAt]}"]
  have "filter (\<lambda>op. opPath op = [FieldCreator]) ds = [set_op FieldCreator (NewString (chCreator ch))]"
    "filter (\<lambda>op. opPath op \<in> {[FieldCreatedAt], [FieldModifiedAt]}) ds =
      [set_op FieldCreatedAt (NewDateTimeMillis (chTimestamp ch * 1000)),
       set_op FieldModifiedAt (NewDateTimeMillis (chTimestamp ch * 1000))]"
    using ch by (simp_all add: ds stampCreate_def set_op_def chat_fields)
  moreover have "op = \<lparr>opType = OpSet, opPath = [], opPayload = Given v\<rparr>" using op by simp
  ultimately show ?thesis using op(1) by blast
qed

text \<open>
  The derived mentions are the text's mentions in order, each identity once and at most
  \<open>MaxMentions\<close> of them, and the author of a live replied-to message is always among them:
  a text stuffed with links never squeezes that author out.
\<close>

theorem mention_ids_spec:
  "distinct (mention_ids enc ctx txt replyTo) \<and>
   length (mention_ids enc ctx txt replyTo) \<le> MaxMentions \<and>
   set (mention_ids enc ctx txt replyTo) \<subseteq>
     set (ExtractMentions txt) \<union> set_option (replied_author enc ctx replyTo) \<and>
   set_option (replied_author enc ctx replyTo) \<subseteq> set (mention_ids enc ctx txt replyTo) \<and>
   set (take (MaxMentions - 1) (ExtractMentions txt)) \<subseteq> set (mention_ids enc ctx txt replyTo)"
proof -
  let ?ids = "ExtractMentions txt"
  let ?capped = "take MaxMentions ?ids"
  have d: "distinct ?ids" by (simp add: ExtractMentions_def)
  have cap: "(if length ?ids > MaxMentions then take MaxMentions ?ids else ?ids) = ?capped" by simp
  have sub: "set (take (MaxMentions - 1) ?ids) \<subseteq> set ?capped"
    by (intro set_take_subset_set_take) simp
  have "set ?capped \<subseteq> set ?ids" by (rule set_take_subset)
  show ?thesis
  proof (cases "replied_author enc ctx replyTo")
    case None
    then show ?thesis using d sub set_take_subset [of MaxMentions ?ids]
      by (auto simp: mention_ids_def Let_def cap)
  next
    case (Some creator)
    show ?thesis
    proof (cases "creator \<in> set ?capped")
      case True
      with Some d sub \<open>set ?capped \<subseteq> set ?ids\<close> show ?thesis
        by (auto simp: mention_ids_def Let_def cap)
    next
      case False
      let ?short = "if length ?capped = MaxMentions then take (MaxMentions - 1) ?capped else ?capped"
      have "set ?short \<subseteq> set ?capped" using sub by auto
      moreover have "length ?short < MaxMentions" "distinct ?short"
        using d by (auto simp: MaxMentions_def)
      moreover have "set (take (MaxMentions - 1) ?ids) \<subseteq> set ?short"
        using sub by (auto simp: min_def)
      moreover have "mention_ids enc ctx txt replyTo = ?short @ [creator]"
        using Some False by (simp add: mention_ids_def Let_def cap)
      ultimately show ?thesis
        using Some False \<open>set ?capped \<subseteq> set ?ids\<close> by auto
    qed
  qed
qed

lemma BeforeModify_cases:
  "(case BeforeModify enc ctx op of
      Inl _ \<Rightarrow> True
    | Inr (op', ds) \<Rightarrow>
        opPath op' = opPath op \<and> opType op' = opType op \<and>
        list_all (\<lambda>d. opPath d \<in> {[FieldModifiedAt], [FieldMentions]}) ds \<and>
        (opPath op = [FieldText] \<and> opType op = OpSet \<and> op' = op \<and> isAuthor enc ctx \<and>
          (\<exists>v. opPayload op = Given v \<and> is_text enc MaxTextBytes v) \<or>
         (\<exists>c ch emoji. ctx = Some c \<and> cxChange c = Some ch \<and> opPath op = [FieldReactions, emoji, chCreator ch] \<and>
            chCreator ch \<noteq> [] \<and> emoji \<noteq> [] \<and> length emoji \<le> MaxEmojiBytes \<and> ds = [] \<and>
            (opType op = OpUnset \<and> op' = op \<or>
             opType op = OpSet \<and> opPayload op' = NewDateTimeMillis (chTimestamp ch * 1000))))) \<and>
   (BeforeDelete enc ctx = None \<longleftrightarrow> isAuthor enc ctx)"
proof (intro conjI)
  show "BeforeDelete enc ctx = None \<longleftrightarrow> isAuthor enc ctx" by (simp add: BeforeDelete_def)
  consider (edit) "isTextEdit op" | (react) "\<not> isTextEdit op" "isReactionToggle op"
    | (other) "\<not> isTextEdit op" "\<not> isReactionToggle op" by blast
  then show "case BeforeModify enc ctx op of
      Inl _ \<Rightarrow> True
    | Inr (op', ds) \<Rightarrow>
        opPath op' = opPath op \<and> opType op' = opType op \<and>
        list_all (\<lambda>d. opPath d \<in> {[FieldModifiedAt], [FieldMentions]}) ds \<and>
        (opPath op = [FieldText] \<and> opType op = OpSet \<and> op' = op \<and> isAuthor enc ctx \<and>
          (\<exists>v. opPayload op = Given v \<and> is_text enc MaxTextBytes v) \<or>
         (\<exists>c ch emoji. ctx = Some c \<and> cxChange c = Some ch \<and> opPath op = [FieldReactions, emoji, chCreator ch] \<and>
            chCreator ch \<noteq> [] \<and> emoji \<noteq> [] \<and> length emoji \<le> MaxEmojiBytes \<and> ds = [] \<and>
            (opType op = OpUnset \<and> op' = op \<or>
             opType op = OpSet \<and> opPayload op' = NewDateTimeMillis (chTimestamp ch * 1000))))"
  proof cases
    case edit
    have "isAuthor enc ctx \<and> (\<exists>v. opPayload op = Given v \<and> is_text enc MaxTextBytes v) \<and> list_all (\<lambda>d. opPath d \<in> {[FieldModifiedAt], [FieldMentions]}) ds"
      if "validateTextEdit enc ctx op = Inr ds" for ds
      using that
      by (auto simp: validateTextEdit_def Let_def list_all_iff is_text_def set_op_def dest: deriveMentions_paths
          split: if_splits payload.splits option.splits)
    with edit show ?thesis by (auto simp: BeforeModify_def isTextEdit_def split: sum.splits)
  next
    case react
    then obtain emoji identity where path: "opPath op = [FieldReactions, emoji, identity]"
      "emoji \<noteq> []" "identity \<noteq> []" and ty: "opType op = OpSet \<or> opType op = OpUnset"
      by (auto simp: isReactionToggle_def split: if_splits list.splits)
    then show ?thesis using react
      by (auto simp: BeforeModify_def validateReactionToggle_def split: sum.splits option.splits if_splits)
  next
    case other
    then show ?thesis by (simp add: BeforeModify_def)
  qed
qed

text \<open>\<open>isAuthor\<close> read as what it compares.\<close>

lemma isAuthor_iff:
  "isAuthor enc ctx \<longleftrightarrow>
   (\<exists>c ch before creator. ctx = Some c \<and> cxChange c = Some ch \<and> cxBefore c = Some before \<and>
     vget enc before [FieldCreator] = Some creator \<and> vtyp enc creator = TypeString \<and>
     vbytes enc creator = chCreator ch \<and> chCreator ch \<noteq> [])"
  by (auto simp: isAuthor_def split: option.splits if_splits)

text \<open>
  C12. Nobody edits for somebody else: an operation the handler lets through is either a set of a
  non-empty text within the limit, by a signer whose non-empty identity is the string the message
  records as its creator, or a set or unset of a reaction leaf that is the signer's own, with the
  time of the change as its value whatever the client sent; and all it derives are the
  modification time and the mentions. A delete passes exactly for such a signer: one whose
  non-empty identity is the string the deleted message records as its creator.
\<close>

theorem BeforeModify_authorized:
  "(case BeforeModify enc ctx op of
      Inl _ \<Rightarrow> True
    | Inr (op', ds) \<Rightarrow>
        opPath op' = opPath op \<and> opType op' = opType op \<and>
        list_all (\<lambda>d. opPath d \<in> {[FieldModifiedAt], [FieldMentions]}) ds \<and>
        (opPath op = [FieldText] \<and> opType op = OpSet \<and> op' = op \<and>
          (\<exists>v. opPayload op = Given v \<and> is_text enc MaxTextBytes v) \<and>
          (\<exists>c ch before creator. ctx = Some c \<and> cxChange c = Some ch \<and> cxBefore c = Some before \<and>
             vget enc before [FieldCreator] = Some creator \<and> vtyp enc creator = TypeString \<and>
             vbytes enc creator = chCreator ch \<and> chCreator ch \<noteq> []) \<or>
         (\<exists>c ch emoji. ctx = Some c \<and> cxChange c = Some ch \<and> opPath op = [FieldReactions, emoji, chCreator ch] \<and>
            chCreator ch \<noteq> [] \<and> emoji \<noteq> [] \<and> length emoji \<le> MaxEmojiBytes \<and> ds = [] \<and>
            (opType op = OpUnset \<and> op' = op \<or>
             opType op = OpSet \<and> opPayload op' = NewDateTimeMillis (chTimestamp ch * 1000))))) \<and>
   (BeforeDelete enc ctx = None \<longleftrightarrow>
   (\<exists>c ch before creator. ctx = Some c \<and> cxChange c = Some ch \<and> cxBefore c = Some before \<and>
     vget enc before [FieldCreator] = Some creator \<and> vtyp enc creator = TypeString \<and>
     vbytes enc creator = chCreator ch \<and> chCreator ch \<noteq> []))"
proof -
  show ?thesis
    unfolding isAuthor_iff [symmetric]
    using BeforeModify_cases [where enc = enc and ctx = ctx and op = op] by (auto split: sum.splits)
qed

section \<open>Sending a message\<close>

text \<open>
  The payload \<open>Send\<close> builds (src/internal/chat/api.go) as the Go value it is, and when a
  document value represents one: strings and booleans as themselves, a map as an object with
  the same keys, in any order. The encoding is the SDK's.
\<close>

datatype goval = GoString string | GoBool bool | GoMap "(string \<times> goval) list"

fun represents :: "'v anyenc \<Rightarrow> 'v \<Rightarrow> goval \<Rightarrow> bool" where
  "represents enc v (GoString s) \<longleftrightarrow> vtyp enc v = TypeString \<and> vbytes enc v = s"
| "represents enc v (GoBool b) \<longleftrightarrow> vtyp enc v = (if b then TypeTrue else TypeFalse)"
| "represents enc v (GoMap m) \<longleftrightarrow> vtyp enc v = TypeObject \<and> distinct (map fst (vvisit enc v)) \<and>
     set (map fst (vvisit enc v)) = set (map fst m) \<and>
     list_all (\<lambda>(key, x). list_all (\<lambda>(key', g). key = key' \<longrightarrow> represents enc x g) m) (vvisit enc v)"

record ChatAgentMeta =
  amName :: string
  amDebugLink :: string
  amDone :: bool
  amOutcome :: string

record ChatAttachment =
  atType :: string
  atLink :: string

record ChatMessageContext =
  mcSpaceId :: string
  mcObjectId :: string
  mcView :: string

record ChatMessageControl =
  ctKind :: string
  ctHard :: bool

record SendOpts =
  soText :: string
  soReplyTo :: string
  soAgent :: "ChatAgentMeta option"
  soAttachments :: "(string \<times> ChatAttachment) list"
  soContext :: "ChatMessageContext option"
  soControl :: "ChatMessageControl option"

definition opt_str :: "string \<Rightarrow> string \<Rightarrow> (string \<times> goval) list" where
  "opt_str key s = (if s \<noteq> [] then [(key, GoString s)] else [])"

definition send_agent :: "ChatAgentMeta \<Rightarrow> goval" where
  "send_agent a = GoMap ([(FieldAgentName, GoString (amName a)), (FieldAgentDone, GoBool (amDone a))] @
     opt_str FieldAgentDebugLink (amDebugLink a) @ opt_str FieldAgentOutcome (amOutcome a))"

definition send_attachment :: "ChatAttachment \<Rightarrow> goval" where
  "send_attachment a = GoMap [(FieldAttachmentType, GoString (atType a)), (FieldAttachmentLink, GoString (atLink a))]"

definition send_context :: "ChatMessageContext \<Rightarrow> goval" where
  "send_context c = GoMap ((FieldContextSpaceId, GoString (mcSpaceId c)) #
     opt_str FieldContextObjectId (mcObjectId c) @ opt_str FieldContextView (mcView c))"

definition send_control :: "ChatMessageControl \<Rightarrow> goval" where
  "send_control c = GoMap ((FieldControlKind, GoString (ctKind c)) #
     (if ctHard c then [(FieldControlHard, GoBool True)] else []))"

definition send_payload :: "SendOpts \<Rightarrow> goval" where
  "send_payload opts = GoMap
     ((FieldText, GoString (soText opts)) # opt_str FieldReplyToMessageId (soReplyTo opts) @
      (case soAgent opts of None \<Rightarrow> [] | Some a \<Rightarrow> [(FieldAgent, send_agent a)]) @
      (if soAttachments opts \<noteq> []
       then [(FieldAttachments, GoMap (map (\<lambda>(i, a). (i, send_attachment a)) (soAttachments opts)))]
       else []) @
      (case soContext opts of None \<Rightarrow> [] | Some c \<Rightarrow> [(FieldContext, send_context c)]) @
      (case soControl opts of None \<Rightarrow> [] | Some c \<Rightarrow> [(FieldControl, send_control c)]))"

text \<open>The limits on what a client asks to send.\<close>

definition within :: "nat \<Rightarrow> string \<Rightarrow> bool" where
  "within mx s \<longleftrightarrow> s \<noteq> [] \<and> length s \<le> mx"

definition sendable :: "SendOpts \<Rightarrow> bool" where
  "sendable opts \<longleftrightarrow>
     length (soText opts) \<le> MaxTextBytes \<and> length (soReplyTo opts) \<le> MaxReplyIdBytes \<and>
     (case soAgent opts of None \<Rightarrow> True
      | Some a \<Rightarrow> within MaxAgentNameBytes (amName a) \<and> length (amDebugLink a) \<le> MaxDebugLinkBytes \<and>
                   length (amOutcome a) \<le> MaxAgentOutcomeBytes) \<and>
     length (soAttachments opts) \<le> MaxAttachments \<and>
     list_all (\<lambda>(i, a). ValidAttachmentId i \<and> within MaxAttachmentTypeBytes (atType a) \<and>
                 within MaxAttachmentLinkBytes (atLink a)) (soAttachments opts) \<and>
     (case soContext opts of None \<Rightarrow> True
      | Some c \<Rightarrow> within MaxContextIdBytes (mcSpaceId c) \<and> length (mcObjectId c) \<le> MaxContextIdBytes \<and>
                   length (mcView c) \<le> MaxContextViewBytes) \<and>
     (case soControl opts of None \<Rightarrow> True | Some c \<Rightarrow> within MaxControlKindBytes (ctKind c)) \<and>
     (soText opts \<noteq> [] \<or> soAttachments opts \<noteq> [] \<or> soControl opts \<noteq> None)"

lemma rep_string:
  "represents enc v (GoString s) \<Longrightarrow> is_text enc mx v \<longleftrightarrow> within mx s"
  by (auto simp: is_text_def within_def)

text \<open>The fields of a represented map: each is one of the map's entries, and every entry is there.\<close>

lemma rep_fields:
  assumes "represents enc v (GoMap m)" "distinct (map fst m)"
  shows "all_fields enc v P \<longleftrightarrow> (\<forall>(key, g) \<in> set m. \<forall>x. map_of (vvisit enc v) key = Some x \<longrightarrow> P key x)"
    "(key, g) \<in> set m \<Longrightarrow> \<exists>x. map_of (vvisit enc v) key = Some x \<and> represents enc x g"
    "has_key enc v key \<longleftrightarrow> key \<in> fst ` set m"
    "length (vvisit enc v) = length m"
proof -
  have d: "distinct (map fst (vvisit enc v))" and keys: "fst ` set (vvisit enc v) = fst ` set m"
    and rep: "\<And>key x g. (key, x) \<in> set (vvisit enc v) \<Longrightarrow> (key, g) \<in> set m \<Longrightarrow> represents enc x g"
    using assms(1) by (auto simp: list_all_iff)
  show "has_key enc v key \<longleftrightarrow> key \<in> fst ` set m" by (simp add: has_key_def keys)
  show "length (vvisit enc v) = length m"
    using keys d assms(2) by (metis distinct_card length_map set_map)
  show "(key, g) \<in> set m \<Longrightarrow> \<exists>x. map_of (vvisit enc v) key = Some x \<and> represents enc x g"
  proof -
    assume m: "(key, g) \<in> set m"
    then have "key \<in> fst ` set (vvisit enc v)" using imageI [OF m, of fst] keys by simp
    then obtain x where "map_of (vvisit enc v) key = Some x"
      by (metis map_of_eq_None_iff not_None_eq)
    with rep m show ?thesis by (blast dest: map_of_SomeD)
  qed
  show "all_fields enc v P \<longleftrightarrow> (\<forall>(key, g) \<in> set m. \<forall>x. map_of (vvisit enc v) key = Some x \<longrightarrow> P key x)"
  proof -
    have "(\<exists>g. (key, g) \<in> set m)" if "(key, x) \<in> set (vvisit enc v)" for key x
    proof -
      have "key \<in> fst ` set m" using imageI [OF that, of fst] keys by simp
      then show ?thesis by auto
    qed
    then show ?thesis
      unfolding all_fields_def using map_of_eq_Some_iff [OF d] by fastforce
  qed
qed

lemma rep_all_fields:
  assumes "represents enc v (GoMap m)" "distinct (map fst m)"
    and "\<And>key g x. (key, g) \<in> set m \<Longrightarrow> represents enc x g \<Longrightarrow> P key x \<longleftrightarrow> Q key g"
  shows "all_fields enc v P \<longleftrightarrow> (\<forall>(key, g) \<in> set m. Q key g)"
  unfolding rep_fields(1) [OF assms(1,2)] using rep_fields(2) [OF assms(1,2)] assms(3) by fastforce

definition go_text :: "nat \<Rightarrow> goval \<Rightarrow> bool" where
  "go_text mx g = (case g of GoString s \<Rightarrow> within mx s | _ \<Rightarrow> False)"

lemma rep_text: "represents enc x (GoString s) \<Longrightarrow> is_text enc mx x \<longleftrightarrow> go_text mx (GoString s)"
  by (auto simp: is_text_def go_text_def within_def)

lemma rep_bool: "represents enc x (GoBool b) \<Longrightarrow> bool_field enc x"
  by (simp add: bool_field_def)

lemma within_opt: "go_text mx (GoString s) \<longleftrightarrow> s \<noteq> [] \<and> length s \<le> mx"
  by (simp add: go_text_def within_def)

lemma send_agent_ok:
  assumes "represents enc v (send_agent a)"
  shows "agent_ok enc v \<longleftrightarrow> within MaxAgentNameBytes (amName a) \<and>
    length (amDebugLink a) \<le> MaxDebugLinkBytes \<and> length (amOutcome a) \<le> MaxAgentOutcomeBytes"
proof -
  let ?m = "[(FieldAgentName, GoString (amName a)), (FieldAgentDone, GoBool (amDone a))] @
     opt_str FieldAgentDebugLink (amDebugLink a) @ opt_str FieldAgentOutcome (amOutcome a)"
  have rep: "represents enc v (GoMap ?m)" using assms by (simp add: send_agent_def)
  have d: "distinct (map fst ?m)" by (simp add: opt_str_def chat_fields)
  have "all_fields enc v (\<lambda>key x.
       key = FieldAgentName \<and> is_text enc MaxAgentNameBytes x \<or>
       key = FieldAgentDebugLink \<and> is_text enc MaxDebugLinkBytes x \<or>
       key = FieldAgentDone \<and> bool_field enc x \<or>
       key = FieldAgentOutcome \<and> is_text enc MaxAgentOutcomeBytes x) \<longleftrightarrow>
     (\<forall>(key, g) \<in> set ?m.
       key = FieldAgentName \<and> go_text MaxAgentNameBytes g \<or>
       key = FieldAgentDebugLink \<and> go_text MaxDebugLinkBytes g \<or> key = FieldAgentDone \<or>
       key = FieldAgentOutcome \<and> go_text MaxAgentOutcomeBytes g)"
  proof (rule rep_all_fields [OF rep d])
    fix key g x
    assume "(key, g) \<in> set ?m" and x: "represents enc x g"
    then consider "key = FieldAgentName" "g = GoString (amName a)" | "key = FieldAgentDone" "g = GoBool (amDone a)"
      | "key = FieldAgentDebugLink" "g = GoString (amDebugLink a)"
      | "key = FieldAgentOutcome" "g = GoString (amOutcome a)"
      by (auto simp: opt_str_def simp del: represents.simps split: if_splits)
    then show "(key = FieldAgentName \<and> is_text enc MaxAgentNameBytes x \<or>
         key = FieldAgentDebugLink \<and> is_text enc MaxDebugLinkBytes x \<or>
         key = FieldAgentDone \<and> bool_field enc x \<or>
         key = FieldAgentOutcome \<and> is_text enc MaxAgentOutcomeBytes x) =
       (key = FieldAgentName \<and> go_text MaxAgentNameBytes g \<or>
         key = FieldAgentDebugLink \<and> go_text MaxDebugLinkBytes g \<or> key = FieldAgentDone \<or>
         key = FieldAgentOutcome \<and> go_text MaxAgentOutcomeBytes g)"
      by cases (use x in \<open>simp_all add: rep_text rep_bool chat_fields del: represents.simps\<close>)
  qed
  moreover have "vtyp enc v = TypeObject" using rep by simp
  ultimately show ?thesis
    by (cases "amDebugLink a = []"; cases "amOutcome a = []")
      (simp_all add: agent_ok_def rep_fields(3) [OF rep d] opt_str_def within_opt within_def chat_fields)
qed

lemma send_context_ok:
  assumes "represents enc v (send_context c)"
  shows "context_ok enc v \<longleftrightarrow> within MaxContextIdBytes (mcSpaceId c) \<and>
    length (mcObjectId c) \<le> MaxContextIdBytes \<and> length (mcView c) \<le> MaxContextViewBytes"
proof -
  let ?m = "(FieldContextSpaceId, GoString (mcSpaceId c)) #
     opt_str FieldContextObjectId (mcObjectId c) @ opt_str FieldContextView (mcView c)"
  have rep: "represents enc v (GoMap ?m)" using assms by (simp add: send_context_def)
  have d: "distinct (map fst ?m)" by (simp add: opt_str_def chat_fields)
  have "all_fields enc v (\<lambda>key x.
       key \<in> {FieldContextSpaceId, FieldContextObjectId} \<and> is_text enc MaxContextIdBytes x \<or>
       key = FieldContextView \<and> is_text enc MaxContextViewBytes x) \<longleftrightarrow>
     (\<forall>(key, g) \<in> set ?m.
       key \<in> {FieldContextSpaceId, FieldContextObjectId} \<and> go_text MaxContextIdBytes g \<or>
       key = FieldContextView \<and> go_text MaxContextViewBytes g)"
    by (rule rep_all_fields [OF rep d])
      (auto simp: opt_str_def rep_text chat_fields simp del: represents.simps split: if_splits)
  moreover have "vtyp enc v = TypeObject" using rep by simp
  ultimately show ?thesis
    by (cases "mcObjectId c = []"; cases "mcView c = []")
      (simp_all add: context_ok_def rep_fields(3) [OF rep d] opt_str_def within_opt within_def chat_fields)
qed

lemma send_control_ok:
  assumes "represents enc v (send_control c)"
  shows "control_ok enc v \<longleftrightarrow> within MaxControlKindBytes (ctKind c)"
proof -
  let ?m = "(FieldControlKind, GoString (ctKind c)) # (if ctHard c then [(FieldControlHard, GoBool True)] else [])"
  have rep: "represents enc v (GoMap ?m)" using assms by (simp only: send_control_def)
  have d: "distinct (map fst ?m)" by (simp add: chat_fields)
  have "all_fields enc v (\<lambda>key x.
       key = FieldControlKind \<and> is_text enc MaxControlKindBytes x \<or>
       key = FieldControlHard \<and> bool_field enc x) \<longleftrightarrow>
     (\<forall>(key, g) \<in> set ?m. key = FieldControlKind \<and> go_text MaxControlKindBytes g \<or> key = FieldControlHard)"
    by (rule rep_all_fields [OF rep d])
      (auto simp: rep_text chat_fields rep_bool simp del: represents.simps split: if_splits)
  moreover have "vtyp enc v = TypeObject" using rep by simp
  ultimately show ?thesis
    by (auto simp: control_ok_def rep_fields(3) [OF rep d] within_opt within_def chat_fields
        split: if_splits)
qed

lemma send_attachment_ok:
  assumes "represents enc v (send_attachment a)"
  shows "attachment_ok enc v \<longleftrightarrow>
    within MaxAttachmentTypeBytes (atType a) \<and> within MaxAttachmentLinkBytes (atLink a)"
proof -
  let ?m = "[(FieldAttachmentType, GoString (atType a)), (FieldAttachmentLink, GoString (atLink a))]"
  have rep: "represents enc v (GoMap ?m)" using assms by (simp only: send_attachment_def)
  have d: "distinct (map fst ?m)" by (simp add: chat_fields)
  have "all_fields enc v (\<lambda>key x.
       key = FieldAttachmentType \<and> is_text enc MaxAttachmentTypeBytes x \<or>
       key = FieldAttachmentLink \<and> is_text enc MaxAttachmentLinkBytes x) \<longleftrightarrow>
     (\<forall>(key, g) \<in> set ?m.
       key = FieldAttachmentType \<and> go_text MaxAttachmentTypeBytes g \<or>
       key = FieldAttachmentLink \<and> go_text MaxAttachmentLinkBytes g)"
    by (rule rep_all_fields [OF rep d])
      (auto simp: rep_text chat_fields simp del: represents.simps split: if_splits)
  moreover have "vtyp enc v = TypeObject" using rep by simp
  ultimately show ?thesis
    by (auto simp: attachment_ok_def rep_fields(3) [OF rep d] within_opt within_def chat_fields)
qed

lemma send_attachments_ok:
  assumes "represents enc v (GoMap (map (\<lambda>(i, a). (i, send_attachment a)) atts))"
    and "distinct (map fst atts)"
  shows "attachments_ok enc v \<longleftrightarrow> atts \<noteq> [] \<and> length atts \<le> MaxAttachments \<and>
    list_all (\<lambda>(i, a). ValidAttachmentId i \<and> within MaxAttachmentTypeBytes (atType a) \<and>
                within MaxAttachmentLinkBytes (atLink a)) atts"
proof -
  let ?m = "map (\<lambda>(i, a). (i, send_attachment a)) atts"
  have fst_m: "map fst ?m = map fst atts" by (induction atts) auto
  then have d: "distinct (map fst ?m)" using assms(2) by (simp only:)
  have "all_fields enc v (\<lambda>key x. ValidAttachmentId key \<and> attachment_ok enc x) \<longleftrightarrow>
     (\<forall>(key, g) \<in> set ?m. ValidAttachmentId key \<and>
       (\<exists>a. g = send_attachment a \<and> within MaxAttachmentTypeBytes (atType a) \<and>
          within MaxAttachmentLinkBytes (atLink a)))"
    by (rule rep_all_fields [OF assms(1) d])
      (auto simp: send_attachment_ok send_attachment_def simp del: represents.simps)
  also have "\<dots> \<longleftrightarrow> list_all (\<lambda>(i, a). ValidAttachmentId i \<and> within MaxAttachmentTypeBytes (atType a) \<and>
                within MaxAttachmentLinkBytes (atLink a)) atts"
    by (fastforce simp: list_all_iff send_attachment_def)
  finally show ?thesis
    using assms(1) rep_fields(4) [OF assms(1) d] by (cases atts) (auto simp: attachments_ok_def)
qed

text \<open>The entries of the payload, and the limits each must keep.\<close>

definition send_fields :: "SendOpts \<Rightarrow> (string \<times> goval) list" where
  "send_fields opts = (case send_payload opts of GoMap m \<Rightarrow> m | _ \<Rightarrow> [])"

lemma send_payload_fields: "send_payload opts = GoMap (send_fields opts)"
  by (simp add: send_fields_def send_payload_def)

lemma send_fields_distinct: "distinct (map fst (send_fields opts))"
  by (simp add: send_fields_def send_payload_def opt_str_def chat_fields split: option.split)

lemma send_fields_keys:
  "FieldAttachments \<in> fst ` set (send_fields opts) \<longleftrightarrow> soAttachments opts \<noteq> []"
  "FieldControl \<in> fst ` set (send_fields opts) \<longleftrightarrow> soControl opts \<noteq> None"
  "(FieldText, GoString (soText opts)) \<in> set (send_fields opts)"
  by (cases "soAgent opts"; cases "soContext opts"; cases "soControl opts"; cases "soAttachments opts = []";
      cases "soReplyTo opts = []";
      simp add: send_fields_def send_payload_def opt_str_def chat_fields)+

definition field_sendable :: "SendOpts \<Rightarrow> string \<Rightarrow> bool" where
  "field_sendable opts key \<longleftrightarrow>
     (key = FieldText \<longrightarrow> length (soText opts) \<le> MaxTextBytes) \<and>
     (key = FieldReplyToMessageId \<longrightarrow> length (soReplyTo opts) \<le> MaxReplyIdBytes) \<and>
     (key = FieldAgent \<longrightarrow> (case soAgent opts of None \<Rightarrow> True
      | Some a \<Rightarrow> within MaxAgentNameBytes (amName a) \<and> length (amDebugLink a) \<le> MaxDebugLinkBytes \<and>
                   length (amOutcome a) \<le> MaxAgentOutcomeBytes)) \<and>
     (key = FieldAttachments \<longrightarrow> length (soAttachments opts) \<le> MaxAttachments \<and>
      list_all (\<lambda>(i, a). ValidAttachmentId i \<and> within MaxAttachmentTypeBytes (atType a) \<and>
                 within MaxAttachmentLinkBytes (atLink a)) (soAttachments opts)) \<and>
     (key = FieldContext \<longrightarrow> (case soContext opts of None \<Rightarrow> True
      | Some c \<Rightarrow> within MaxContextIdBytes (mcSpaceId c) \<and> length (mcObjectId c) \<le> MaxContextIdBytes \<and>
                   length (mcView c) \<le> MaxContextViewBytes)) \<and>
     (key = FieldControl \<longrightarrow> (case soControl opts of None \<Rightarrow> True | Some c \<Rightarrow> within MaxControlKindBytes (ctKind c)))"

lemma send_field_cases:
  assumes "(key, g) \<in> set (send_fields opts)"
  obtains (body) "key = FieldText" "g = GoString (soText opts)"
  | (reply) "key = FieldReplyToMessageId" "g = GoString (soReplyTo opts)" "soReplyTo opts \<noteq> []"
  | (agent) a where "key = FieldAgent" "soAgent opts = Some a" "g = send_agent a"
  | (atts) "key = FieldAttachments" "soAttachments opts \<noteq> []"
      "g = GoMap (map (\<lambda>(i, a). (i, send_attachment a)) (soAttachments opts))"
  | (ctx) c where "key = FieldContext" "soContext opts = Some c" "g = send_context c"
  | (ctl) c where "key = FieldControl" "soControl opts = Some c" "g = send_control c"
  using assms
  by (cases "soAgent opts"; cases "soContext opts"; cases "soControl opts")
    (auto simp: send_fields_def send_payload_def opt_str_def split: if_splits)

lemma send_field_ok:
  assumes f: "(key, g) \<in> set (send_fields opts)" and x: "represents enc x g"
    and d: "distinct (map fst (soAttachments opts))"
  shows "create_field_ok enc key x \<longleftrightarrow> field_sendable opts key"
  using f
proof (cases rule: send_field_cases)
  case body
  then show ?thesis using x by (simp add: create_field_ok_def field_sendable_def chat_fields)
next
  case reply
  then show ?thesis using x
    by (simp add: create_field_ok_def field_sendable_def chat_fields is_text_def)
next
  case (agent a)
  with send_agent_ok [of enc x a] x show ?thesis
    by (simp add: create_field_ok_def field_sendable_def chat_fields)
next
  case atts
  then show ?thesis using send_attachments_ok [OF _ d, of enc x] x
    by (simp add: create_field_ok_def field_sendable_def chat_fields del: represents.simps)
next
  case (ctx c)
  with send_context_ok [of enc x c] x show ?thesis
    by (simp add: create_field_ok_def field_sendable_def chat_fields)
next
  case (ctl c)
  with send_control_ok [of enc x c] x show ?thesis
    by (simp add: create_field_ok_def field_sendable_def chat_fields)
qed

lemma sendable_fields:
  "sendable opts \<longleftrightarrow> (\<forall>(key, g) \<in> set (send_fields opts). field_sendable opts key) \<and>
     (soText opts \<noteq> [] \<or> soAttachments opts \<noteq> [] \<or> soControl opts \<noteq> None)"
  by (cases "soAgent opts"; cases "soContext opts"; cases "soControl opts"; cases "soAttachments opts = []";
      cases "soReplyTo opts = []")
    (simp_all add: sendable_def field_sendable_def send_fields_def send_payload_def opt_str_def chat_fields conj_ac)

text \<open>
  Sending and validating agree: the handler accepts the record \<open>Send\<close> builds exactly
  when the request is within the limits and has content, so a valid message is never refused and
  an oversized or empty one never stored. The payload's document value is assumed to represent
  the Go map, and the attachment ids, the keys of a map, to be distinct.
\<close>

theorem Send_accepted_iff:
  assumes rep: "represents enc v (send_payload opts)"
    and d: "distinct (map fst (soAttachments opts))"
    and rec: "rcOps rec = [\<lparr>opType = OpSet, opPath = [], opPayload = Given v\<rparr>]"
  shows "(\<exists>ds. BeforeCreate enc ctx rec = Inr ds) \<longleftrightarrow> sendable opts"
proof -
  have rep': "represents enc v (GoMap (send_fields opts))" using rep by (simp only: send_payload_fields)
  note fields = rep_fields [OF rep' send_fields_distinct]
  have keys: "distinct (map fst (vvisit enc v))" "vtyp enc v = TypeObject" using rep' by simp_all
  have "(\<exists>ds. BeforeCreate enc ctx rec = Inr ds) \<longleftrightarrow> validateCreatePayload enc v = None"
    unfolding BeforeCreate_Inr using rec keys(2) by auto
  also have "\<dots> \<longleftrightarrow> all_fields enc v (create_field_ok enc) \<and> has_content enc v"
    by (rule validateCreatePayload_iff [OF keys(1)])
  also have "all_fields enc v (create_field_ok enc) \<longleftrightarrow>
      (\<forall>(key, g) \<in> set (send_fields opts). field_sendable opts key)"
    by (rule rep_all_fields [OF rep' send_fields_distinct]) (rule send_field_ok [OF _ _ d])
  also have "has_content enc v \<longleftrightarrow> soText opts \<noteq> [] \<or> soAttachments opts \<noteq> [] \<or> soControl opts \<noteq> None"
    using fields(2) [OF send_fields_keys(3)] by (auto simp: has_content_def fields(3) send_fields_keys)
  finally show ?thesis by (simp only: sendable_fields)
qed

section \<open>Witnesses\<close>

definition demo_record :: "tree RecordChange" where
  "demo_record = \<lparr>rcId = [], rcUpsert = True,
     rcOps = [\<lparr>opType = OpSet, opPath = [], opPayload = Given (TObj [(''text'', TStr ''hi'')])\<rparr>]\<rparr>"

definition demo_ctx :: "tree ChangeCtx" where
  "demo_ctx = \<lparr>cxChange = Some \<lparr>chCreator = ''alice'', chTimestamp = 7, chVersionId = ''v1''\<rparr>, cxBefore = None,
     cxGet = None, cxRecordId = ''m1'', cxSelfIdentity = ''bob''\<rparr>"

lemmas demo_chat_defs = demo_record_def demo_ctx_def tree_enc_def BeforeCreate_def
  validateCreatePayload_def create_check_def create_mark_def chat_fields MaxTextBytes_def

theorem BeforeCreate_accepts_iff_witness:
  "\<exists>ds. BeforeCreate tree_enc (Some demo_ctx) demo_record = Inr ds"
proof -
  let ?v = "TObj [(''text'', TStr ''hi'')]"
  have "rcOps demo_record = [\<lparr>opType = OpSet, opPath = [], opPayload = Given ?v\<rparr>]"
    by (simp add: demo_record_def)
  moreover have "vtyp tree_enc ?v = TypeObject" "has_content tree_enc ?v" by code_simp+
  moreover have "all_fields tree_enc ?v (create_field_ok tree_enc)"
    by (simp add: all_fields_def create_field_ok_def tree_enc_def chat_fields MaxTextBytes_def)
  ultimately show ?thesis
    using BeforeCreate_accepts_iff [OF tree_keys, of "Some demo_ctx" demo_record] by blast
qed

theorem BeforeCreate_authorship_witness:
  "\<exists>ds. BeforeCreate tree_enc (Some demo_ctx) demo_record = Inr ds \<and>
     filter (\<lambda>op. opPath op = [FieldCreator]) ds = [set_op FieldCreator (NewString ''alice'')]"
proof -
  have "\<exists>ds. BeforeCreate tree_enc (Some demo_ctx) demo_record = Inr ds"
    by (simp add: demo_chat_defs)
  then obtain ds where ds: "BeforeCreate tree_enc (Some demo_ctx) demo_record = Inr ds" by blast
  from BeforeCreate_authorship [OF ds _ _ _ tree_keys] ds show ?thesis by (auto simp: demo_ctx_def)
qed

definition demo_send :: SendOpts where
  "demo_send = \<lparr>soText = [], soReplyTo = [], soAgent = None,
     soAttachments = [(''a1'', \<lparr>atType = ''image'', atLink = ''any://f''\<rparr>)], soContext = None, soControl = None\<rparr>"

theorem Send_accepted_iff_witness:
  "\<exists>v ds. represents tree_enc v (send_payload demo_send) \<and>
     BeforeCreate tree_enc None \<lparr>rcId = [], rcUpsert = True,
       rcOps = [\<lparr>opType = OpSet, opPath = [], opPayload = Given v\<rparr>]\<rparr> = Inr ds"
proof -
  let ?v = "TObj [(''text'', TStr []), (''attachments'', TObj [(''a1'', TObj [(''type'', TStr ''image''),
      (''link'', TStr ''any://f'')])])]"
  have rep: "represents tree_enc ?v (send_payload demo_send)" by code_simp
  have d: "distinct (map fst (soAttachments demo_send))" by (simp add: demo_send_def)
  have ok: "ValidAttachmentId ''a1''" by code_simp
  have "sendable demo_send"
    using ok by (simp add: sendable_def demo_send_def within_def MaxTextBytes_def MaxAttachments_def
        MaxAttachmentTypeBytes_def MaxAttachmentLinkBytes_def)
  with Send_accepted_iff [OF rep d, of "\<lparr>rcId = [], rcUpsert = True,
       rcOps = [\<lparr>opType = OpSet, opPath = [], opPayload = Given ?v\<rparr>]\<rparr>" None] rep
  show ?thesis by auto
qed

end
