(* ===== verification/ChatReading.thy ===== *)
theory ChatReading
  imports ChatHandler
begin

text \<open>
  Read tracking of the chat (src/internal/chat/reading.go): the verdict one applied record change
  gets. \<open>Audience\<close> is the identity the target record's creator must equal, when the
  verdict is restricted.
\<close>

definition TagMessage :: string where "TagMessage = ''message''"
definition TagMention :: string where "TagMention = ''mention''"
definition TagReaction :: string where "TagReaction = ''reaction''"

record ReadClassification =
  rdTrack :: bool
  rdTags :: "string list"
  rdKey :: string
  rdAudience :: "string option"
  rdTrackSelfAuthored :: bool

definition noVerdict :: ReadClassification where
  "noVerdict = \<lparr>rdTrack = False, rdTags = [], rdKey = [], rdAudience = None, rdTrackSelfAuthored = False\<rparr>"

definition postApplyRecord :: "'v ChangeCtx \<Rightarrow> 'v option" where
  "postApplyRecord c =
     (case cxGet c of
        None \<Rightarrow> None
      | Some get \<Rightarrow> if cxRecordId c = [] then None else get Dataset (cxRecordId c))"

definition createdBy :: "'v anyenc \<Rightarrow> 'v option \<Rightarrow> 'v ChangeCtx \<Rightarrow> bool" where
  "createdBy enc post c =
     (case post of None \<Rightarrow> True | Some rec \<Rightarrow>
      case cxChange c of None \<Rightarrow> True | Some ch \<Rightarrow> vstr enc rec [''_ver'', ''id''] = chVersionId ch)"

definition mentionsSelf :: "'v anyenc \<Rightarrow> 'v option \<Rightarrow> 'v ChangeCtx \<Rightarrow> bool" where
  "mentionsSelf enc post c =
     (case post of None \<Rightarrow> False | Some rec \<Rightarrow>
        if cxSelfIdentity c = [] then False
        else list_ex (\<lambda>v. vbytes enc v = cxSelfIdentity c) (varray enc rec [FieldMentions]))"

definition audienceAuthor :: "string \<Rightarrow> string option" where
  "audienceAuthor self = Some self"

definition reaction_key :: "string \<Rightarrow> string \<Rightarrow> string \<Rightarrow> string" where
  "reaction_key emoji identity recId = ''reaction:'' @ emoji @ '':'' @ identity @ '':'' @ recId"

text \<open>
  One turn of the loop over the operations: \<open>None\<close> is the early return on a delete; otherwise
  the pending reaction verdict and whether a text edit was seen.
\<close>

definition reaction_verdict :: "string \<Rightarrow> string \<Rightarrow> 'v Op \<Rightarrow> ReadClassification option" where
  "reaction_verdict self recId op =
     (case opPath op of
        [f, emoji, identity] \<Rightarrow>
          if f = FieldReactions then
            (if opType op = OpSet
             then Some (noVerdict\<lparr>rdTrack := True, rdTags := [TagReaction],
                          rdKey := reaction_key emoji identity recId, rdAudience := audienceAuthor self\<rparr>)
             else Some (noVerdict\<lparr>rdKey := reaction_key emoji identity recId\<rparr>))
          else None
      | _ \<Rightarrow> None)"

fun scan_ops ::
  "string \<Rightarrow> string \<Rightarrow> bool \<Rightarrow> 'v Op list \<Rightarrow> ReadClassification option \<times> bool \<Rightarrow>
   (ReadClassification option \<times> bool) option" where
  "scan_ops self recId creating [] st = Some st"
| "scan_ops self recId creating (op # ops) (reaction, textEdit) =
     (case opType op of
        OpDelete \<Rightarrow> None
      | OpOther \<Rightarrow> scan_ops self recId creating ops (reaction, textEdit)
      | _ \<Rightarrow>
          scan_ops self recId creating ops
            (if reaction = None then reaction_verdict self recId op else reaction,
             textEdit \<or> \<not> creating \<and> opType op = OpSet \<and> opPath op = [FieldText]))"

definition classifyRead :: "'v anyenc \<Rightarrow> 'v ChangeCtx \<Rightarrow> 'v RecordChange \<Rightarrow> ReadClassification" where
  "classifyRead enc c rec =
     (let post0 = (if rcUpsert rec then postApplyRecord c else None);
          creating = (rcUpsert rec \<and> createdBy enc post0 c)
      in case scan_ops (cxSelfIdentity c) (rcId rec) creating (rcOps rec) (None, False) of
           None \<Rightarrow> noVerdict
         | Some (reaction, textEdit) \<Rightarrow>
             let post = (if textEdit \<and> post0 = None then postApplyRecord c else post0);
                 mentionKey = ''mention:'' @ rcId rec
             in if textEdit \<and> mentionsSelf enc post c
                then noVerdict\<lparr>rdTrack := True, rdTags := [TagMention], rdKey := mentionKey\<rparr>
                else case reaction of
                  Some v \<Rightarrow> v
                | None \<Rightarrow>
                    if textEdit then noVerdict\<lparr>rdKey := mentionKey\<rparr>
                    else if creating
                    then noVerdict\<lparr>rdTrack := True,
                           rdTags := TagMessage # (if mentionsSelf enc post c then [TagMention] else []),
                           rdTrackSelfAuthored :=
                             (case post of None \<Rightarrow> False | Some r \<Rightarrow> vbool enc r [FieldAgent, FieldAgentDone])\<rparr>
                    else noVerdict)"

section \<open>What the scan finds\<close>

definition toggles :: "'v Op list \<Rightarrow> 'v Op list" where
  "toggles ops = filter (\<lambda>op. opType op \<in> {OpSet, OpUnset}) ops"

lemma scan_ops_eq:
  "scan_ops self recId creating ops (reaction, textEdit) =
     (if list_ex (\<lambda>op. opType op = OpDelete) ops then None
      else Some (case reaction of
                   Some v \<Rightarrow> Some v
                 | None \<Rightarrow> (case List.map_filter (reaction_verdict self recId) (toggles ops) of
                              [] \<Rightarrow> None | v # _ \<Rightarrow> Some v),
                 textEdit \<or> \<not> creating \<and> list_ex isTextEdit ops))"
proof (induction ops arbitrary: reaction textEdit)
  case (Cons op ops)
  show ?case
    by (cases "opType op"; cases reaction; cases "reaction_verdict self recId op")
      (simp_all add: Cons.IH toggles_def isTextEdit_def [of op] map_filter_simps conj_disj_distribL)
qed (simp add: toggles_def map_filter_simps split: option.split)

text \<open>A verdict on a reaction always carries a reaction key, and only a set of a leaf tracks.\<close>

lemma reaction_verdict_Some:
  assumes "reaction_verdict self recId op = Some v"
  shows "\<exists>emoji identity. opPath op = [FieldReactions, emoji, identity] \<and>
    rdKey v = reaction_key emoji identity recId \<and> rdTrack v = (opType op = OpSet) \<and>
    (rdTrack v \<longrightarrow> rdTags v = [TagReaction] \<and> rdAudience v = Some self)"
  using assms
  by (auto simp: reaction_verdict_def noVerdict_def audienceAuthor_def split: list.splits if_splits)


section \<open>Properties of the verdict\<close>

definition first_reaction :: "string \<Rightarrow> string \<Rightarrow> 'v Op list \<Rightarrow> ReadClassification option" where
  "first_reaction self recId ops =
     (case List.map_filter (reaction_verdict self recId) (toggles ops) of [] \<Rightarrow> None | v # _ \<Rightarrow> Some v)"

lemma classifyRead_table:
  "classifyRead enc c rec =
     (let post = postApplyRecord c;
          creating = (rcUpsert rec \<and> createdBy enc post c);
          edit = (\<not> creating \<and> list_ex isTextEdit (rcOps rec));
          reaction = first_reaction (cxSelfIdentity c) (rcId rec) (rcOps rec)
      in if list_ex (\<lambda>op. opType op = OpDelete) (rcOps rec) then noVerdict
         else if edit \<and> mentionsSelf enc post c
         then noVerdict\<lparr>rdTrack := True, rdTags := [TagMention], rdKey := ''mention:'' @ rcId rec\<rparr>
         else if reaction \<noteq> None then the reaction
         else if edit then noVerdict\<lparr>rdKey := ''mention:'' @ rcId rec\<rparr>
         else if creating
         then noVerdict\<lparr>rdTrack := True,
                rdTags := TagMessage # (if mentionsSelf enc post c then [TagMention] else []),
                rdTrackSelfAuthored :=
                  (case post of None \<Rightarrow> False | Some r \<Rightarrow> vbool enc r [FieldAgent, FieldAgentDone])\<rparr>
         else noVerdict)"
  unfolding classifyRead_def scan_ops_eq first_reaction_def [symmetric]
  by (cases "rcUpsert rec"; cases "postApplyRecord c") (auto simp: Let_def split: option.split)

text \<open>
  One operation never shadows another: the verdict of a change is decided by its operations as
  a set, in the order delete, mentioning edit, first reaction, other edit, creation. A deletion is
  never tracked; an edit that mentions this account is tracked as a mention whatever else the change
  bundles, and never as a new message; only the change that created the record tracks a message.
\<close>

theorem classifyRead_verdict:
  "classifyRead enc c rec =
     (let post = postApplyRecord c;
          creating = (rcUpsert rec \<and> createdBy enc post c);
          edit = (\<not> creating \<and> list_ex isTextEdit (rcOps rec));
          reaction = first_reaction (cxSelfIdentity c) (rcId rec) (rcOps rec)
      in if list_ex (\<lambda>op. opType op = OpDelete) (rcOps rec) then noVerdict
         else if edit \<and> mentionsSelf enc post c
         then noVerdict\<lparr>rdTrack := True, rdTags := [TagMention], rdKey := ''mention:'' @ rcId rec\<rparr>
         else if reaction \<noteq> None then the reaction
         else if edit then noVerdict\<lparr>rdKey := ''mention:'' @ rcId rec\<rparr>
         else if creating
         then noVerdict\<lparr>rdTrack := True,
                rdTags := TagMessage # (if mentionsSelf enc post c then [TagMention] else []),
                rdTrackSelfAuthored :=
                  (case post of None \<Rightarrow> False | Some r \<Rightarrow> vbool enc r [FieldAgent, FieldAgentDone])\<rparr>
         else noVerdict)"
  by (rule classifyRead_table)

lemma first_reaction_op:
  assumes "first_reaction self recId ops = Some v"
  shows "\<exists>op \<in> set ops. opType op \<in> {OpSet, OpUnset} \<and> reaction_verdict self recId op = Some v"
proof -
  have "v \<in> set (List.map_filter (reaction_verdict self recId) (toggles ops))"
    using assms by (auto simp: first_reaction_def split: list.splits)
  then show ?thesis by (auto simp: in_map_filter toggles_def)
qed

lemma modify_reaction_signer:
  assumes "BeforeModify enc (Some c) op = Inr r" "cxChange c = Some ch"
    "opPath op = [FieldReactions, emoji, identity]"
  shows "identity = chCreator ch"
  using assms
  by (auto simp: BeforeModify_def isTextEdit_def validateReactionToggle_def chat_fields
      split: if_splits sum.splits)

text \<open>The reaction key determines its parts: the emoji is free text, the ids hold no colon.\<close>

lemma split_colon_unique:
  "c \<notin> set t \<Longrightarrow> c \<notin> set t' \<Longrightarrow> s @ c # t = s' @ c # t' \<Longrightarrow> s = s' \<and> t = t'"
proof (induction s arbitrary: s')
  case Nil
  then show ?case by (cases s') auto
next
  case (Cons x s)
  then show ?case by (cases s') auto
qed

lemma reaction_key_inj:
  assumes "CHR '':'' \<notin> set identity" "CHR '':'' \<notin> set identity'" "CHR '':'' \<notin> set r" "CHR '':'' \<notin> set r'"
    and "reaction_key emoji identity r = reaction_key emoji' identity' r'"
  shows "emoji = emoji' \<and> identity = identity' \<and> r = r'"
proof -
  have "(emoji @ CHR '':'' # identity) @ CHR '':'' # r = (emoji' @ CHR '':'' # identity') @ CHR '':'' # r'"
    using assms(5) by (simp add: reaction_key_def)
  note outer = split_colon_unique [OF assms(3,4) this]
  from split_colon_unique [OF assms(1,2) conjunct1 [OF outer]] outer show ?thesis by simp
qed

text \<open>
  A change clears or raises an unread reaction only in its signer's name: when every operation
  of an edit is one the handler let through, a verdict with a reaction key carries a key of the
  signer and of this record, and that key is no other reaction's: it differs from the key of every
  other emoji, identity or record.
\<close>

theorem reaction_verdict_is_signers:
  assumes ops: "\<forall>op \<in> set (rcOps rec). \<exists>r. BeforeModify enc (Some c) op = Inr r"
    and ch: "cxChange c = Some ch"
    and key: "has_prefix ''reaction:'' (rdKey (classifyRead enc c rec))"
  shows "\<exists>emoji. rdKey (classifyRead enc c rec) = reaction_key emoji (chCreator ch) (rcId rec) \<and>
    (\<forall>emoji' identity' r'. CHR '':'' \<notin> set (chCreator ch @ rcId rec @ identity' @ r') \<longrightarrow>
       reaction_key emoji' identity' r' = rdKey (classifyRead enc c rec) \<longrightarrow>
       emoji' = emoji \<and> identity' = chCreator ch \<and> r' = rcId rec)"
proof -
  obtain v where v: "first_reaction (cxSelfIdentity c) (rcId rec) (rcOps rec) = Some v"
    and eq: "classifyRead enc c rec = v"
  proof (cases "first_reaction (cxSelfIdentity c) (rcId rec) (rcOps rec)")
    case None
    then have "rdKey (classifyRead enc c rec) \<in> {[], ''mention:'' @ rcId rec}"
      by (simp add: classifyRead_table noVerdict_def Let_def)
    with key show ?thesis by (auto simp: has_prefix_iff)
  next
    case (Some v)
    then have "rdKey (classifyRead enc c rec) \<in> {[], ''mention:'' @ rcId rec} \<or> classifyRead enc c rec = v"
      by (simp add: classifyRead_table noVerdict_def Let_def)
    with key Some that show ?thesis by (auto simp: has_prefix_iff)
  qed
  obtain op where op: "op \<in> set (rcOps rec)" "reaction_verdict (cxSelfIdentity c) (rcId rec) op = Some v"
    using first_reaction_op [OF v] by blast
  then obtain emoji identity where path: "opPath op = [FieldReactions, emoji, identity]"
    and k: "rdKey v = reaction_key emoji identity (rcId rec)"
    using reaction_verdict_Some by blast
  have "identity = chCreator ch" using ops op(1) modify_reaction_signer [OF _ ch path] by blast
  with k eq have rk: "rdKey (classifyRead enc c rec) = reaction_key emoji (chCreator ch) (rcId rec)" by simp
  moreover have "emoji' = emoji \<and> identity' = chCreator ch \<and> r' = rcId rec"
    if "CHR '':'' \<notin> set (chCreator ch @ rcId rec @ identity' @ r')"
      "reaction_key emoji' identity' r' = rdKey (classifyRead enc c rec)" for emoji' identity' r'
    using that by (intro reaction_key_inj) (simp_all add: rk)
  ultimately show ?thesis by blast
qed

theorem reaction_verdict_is_signers_witness:
  "\<exists>emoji. rdKey (classifyRead tree_enc demo_ctx
     \<lparr>rcId = ''m1'', rcUpsert = False,
      rcOps = [\<lparr>opType = OpUnset, opPath = [''reactions'', ''+1'', ''alice''], opPayload = NoPayload\<rparr>]\<rparr>) =
   reaction_key emoji ''alice'' ''m1''"
proof -
  let ?op = "\<lparr>opType = OpUnset, opPath = [''reactions'', ''+1'', ''alice''], opPayload = NoPayload\<rparr> :: tree Op"
  let ?rec = "\<lparr>rcId = ''m1'', rcUpsert = False, rcOps = [?op]\<rparr>"
  let ?ch = "\<lparr>chCreator = ''alice'', chTimestamp = 7, chVersionId = ''v1''\<rparr>"
  have ops: "\<forall>op \<in> set (rcOps ?rec). \<exists>r. BeforeModify tree_enc (Some demo_ctx) op = Inr r"
    by (simp add: BeforeModify_def isTextEdit_def isReactionToggle_def validateReactionToggle_def
        demo_ctx_def chat_fields MaxEmojiBytes_def)
  have ch: "cxChange demo_ctx = Some ?ch" by (simp add: demo_ctx_def)
  have k: "rdKey (classifyRead tree_enc demo_ctx ?rec) = reaction_key ''+1'' ''alice'' ''m1''" by code_simp
  then have "has_prefix ''reaction:'' (rdKey (classifyRead tree_enc demo_ctx ?rec))"
    by (simp add: reaction_key_def has_prefix_iff)
  from reaction_verdict_is_signers [OF ops ch this]
  obtain emoji where "rdKey (classifyRead tree_enc demo_ctx ?rec) = reaction_key emoji (chCreator ?ch) (rcId ?rec)"
    by blast
  then have "rdKey (classifyRead tree_enc demo_ctx ?rec) = reaction_key emoji ''alice'' ''m1''"
    by (simp only: Change.select_convs RecordChange.select_convs)
  then show ?thesis by (rule exI [of _ emoji])
qed

end
