(* ===== verification/MarkdownSplit.thy ===== *)
theory MarkdownSplit
  imports Prelude
begin

text \<open>
  Markdown documents as block records: \<open>Split\<close> (src/internal/markdown/split.go) and
  \<open>Join\<close> (src/internal/markdown/join.go). Strings are byte strings. Where the source walks
  a slice of lines with an index, the model recurses on the lines that are left; a consumer takes
  the lines after the block's first one and answers those it takes and those it leaves.
\<close>

section \<open>Lines\<close>

text \<open>
  \<open>strings.TrimSpace(l) == ""\<close>: the line is a sequence of Unicode white space, given by its
  UTF-8 encodings.
\<close>

definition asciiSpace :: "char \<Rightarrow> bool" where
  "asciiSpace c \<longleftrightarrow> c \<in> {CHR '' '', CHR 0x09, CHR 0x0A, CHR 0x0B, CHR 0x0C, CHR 0x0D}"

definition space2 :: "char \<Rightarrow> char \<Rightarrow> bool" where
  "space2 a b \<longleftrightarrow> a = CHR 0xC2 \<and> (b = CHR 0x85 \<or> b = CHR 0xA0)"

definition space3 :: "char \<Rightarrow> char \<Rightarrow> char \<Rightarrow> bool" where
  "space3 a b c \<longleftrightarrow>
     a = CHR 0xE1 \<and> b = CHR 0x9A \<and> c = CHR 0x80 \<or>
     a = CHR 0xE2 \<and> b = CHR 0x80 \<and>
       (CHR 0x80 \<le> c \<and> c \<le> CHR 0x8A \<or> c \<in> {CHR 0xA8, CHR 0xA9, CHR 0xAF}) \<or>
     a = CHR 0xE2 \<and> b = CHR 0x81 \<and> c = CHR 0x9F \<or>
     a = CHR 0xE3 \<and> b = CHR 0x80 \<and> c = CHR 0x80"

fun isBlank :: "string \<Rightarrow> bool" where
  "isBlank [] = True"
| "isBlank (a # s) =
     (if asciiSpace a then isBlank s
      else case s of
             [] \<Rightarrow> False
           | b # s' \<Rightarrow>
               if space2 a b then isBlank s'
               else (case s' of [] \<Rightarrow> False | c # s'' \<Rightarrow> space3 a b c \<and> isBlank s''))"

text \<open>\<open>strings.TrimSpace\<close>: Unicode white space off both ends.\<close>

fun trim_left_space :: "string \<Rightarrow> string" where
  "trim_left_space [] = []"
| "trim_left_space (a # s) =
     (if asciiSpace a then trim_left_space s
      else case s of
             [] \<Rightarrow> a # s
           | b # s' \<Rightarrow>
               if space2 a b then trim_left_space s'
               else (case s' of [] \<Rightarrow> a # s | c # s'' \<Rightarrow> if space3 a b c then trim_left_space s'' else a # s))"

fun trim_rev_space :: "string \<Rightarrow> string" where
  "trim_rev_space [] = []"
| "trim_rev_space (a # s) =
     (if asciiSpace a then trim_rev_space s
      else case s of
             [] \<Rightarrow> a # s
           | b # s' \<Rightarrow>
               if space2 b a then trim_rev_space s'
               else (case s' of [] \<Rightarrow> a # s | c # s'' \<Rightarrow> if space3 c b a then trim_rev_space s'' else a # s))"

definition TrimSpace :: "string \<Rightarrow> string" where
  "TrimSpace s = rev (trim_rev_space (rev (trim_left_space s)))"

definition strip_cr :: "string \<Rightarrow> string" where
  "strip_cr l = (case cut_suffix [CHR 0x0D] l of Some l' \<Rightarrow> l' | None \<Rightarrow> l)"

definition splitLines :: "string \<Rightarrow> string list" where
  "splitLines s =
     (let out = map strip_cr (split_on CHR 0x0A s)
      in if out \<noteq> [] \<and> last out = [] then butlast out else out)"

fun trimLeadingSpaces :: "string \<Rightarrow> nat \<Rightarrow> string" where
  "trimLeadingSpaces (c # l) (Suc n) = (if c = CHR '' '' then trimLeadingSpaces l n else c # l)"
| "trimLeadingSpaces l n = l"

fun indent_from :: "nat \<Rightarrow> string \<Rightarrow> nat" where
  "indent_from col [] = col"
| "indent_from col (c # l) =
     (if c = CHR '' '' then indent_from (col + 1) l
      else if c = CHR 0x09 then indent_from (col + (4 - col mod 4)) l
      else col)"

definition indentColumns :: "string \<Rightarrow> nat" where
  "indentColumns l = indent_from 0 l"

definition isDigit :: "char \<Rightarrow> bool" where
  "isDigit b \<longleftrightarrow> CHR ''0'' \<le> b \<and> b \<le> CHR ''9''"

definition isASCIILetter :: "char \<Rightarrow> bool" where
  "isASCIILetter b \<longleftrightarrow> CHR ''A'' \<le> b \<and> b \<le> CHR ''Z'' \<or> CHR ''a'' \<le> b \<and> b \<le> CHR ''z''"

definition allByte :: "string \<Rightarrow> char \<Rightarrow> bool" where
  "allByte s c \<longleftrightarrow> list_all (\<lambda>b. b = c) s"

definition spaceOrTab :: "char \<Rightarrow> bool" where
  "spaceOrTab c \<longleftrightarrow> c = CHR '' '' \<or> c = CHR 0x09"

section \<open>What opens a block\<close>

definition isATXHeading :: "string \<Rightarrow> bool" where
  "isATXHeading l =
     (let t = trimLeadingSpaces l 3
      in if t = [] \<or> hd t \<noteq> CHR ''#'' then False
         else
           let n = length (takeWhile (\<lambda>c. c = CHR ''#'') t)
           in if n < 1 \<or> n > 6 then False
              else if n = length t then True
              else spaceOrTab (t ! n))"

definition isSetextUnderline :: "string \<Rightarrow> bool" where
  "isSetextUnderline l =
     (case trim_right [CHR '' '', CHR 0x09] (trimLeadingSpaces l 3) of
        [] \<Rightarrow> False
      | c # t \<Rightarrow> if c \<noteq> CHR ''='' \<and> c \<noteq> CHR ''-'' then False else allByte (c # t) c)"

definition fenceOpener :: "string \<Rightarrow> string option" where
  "fenceOpener l =
     (let t = trimLeadingSpaces l 3
      in if length t < 3 then None
         else
           let c = hd t
           in if c \<noteq> CHR ''`'' \<and> c \<noteq> CHR ''~'' then None
              else
                let n = length (takeWhile (\<lambda>b. b = c) t)
                in if n < 3 then None else Some (replicate n c))"

definition isFenceOpen :: "string \<Rightarrow> bool" where
  "isFenceOpen l \<longleftrightarrow> fenceOpener l \<noteq> None"

definition isBlockquoteLine :: "string \<Rightarrow> bool" where
  "isBlockquoteLine l = (case trimLeadingSpaces l 3 of [] \<Rightarrow> False | c # _ \<Rightarrow> c = CHR ''>'')"

text \<open>The continuation indent of a list item, when the line is one.\<close>

definition listItemMarker :: "string \<Rightarrow> nat option" where
  "listItemMarker l =
     (let leading = length (takeWhile spaceOrTab (take 4 l))
      in case drop leading l of
           [] \<Rightarrow> None
         | c # cs \<Rightarrow>
             if c \<in> {CHR ''-'', CHR ''*'', CHR ''+''}
             then (case cs of
                     [] \<Rightarrow> Some (leading + 2)
                   | d # _ \<Rightarrow> if spaceOrTab d then Some (leading + 2) else None)
             else if \<not> isDigit c then None
             else
               let j = leading + length (takeWhile isDigit (take 9 (c # cs)))
               in (case drop j l of
                     [] \<Rightarrow> None
                   | d # ds \<Rightarrow>
                       if d \<noteq> CHR ''.'' \<and> d \<noteq> CHR '')'' then None
                       else (case ds of
                               [] \<Rightarrow> Some (j + 2)
                             | e # _ \<Rightarrow> if spaceOrTab e then Some (j + 2) else None)))"

definition isListItemLine :: "string \<Rightarrow> bool" where
  "isListItemLine l \<longleftrightarrow> listItemMarker l \<noteq> None"

definition isHTMLBlockLine :: "string \<Rightarrow> bool" where
  "isHTMLBlockLine l =
     (case trimLeadingSpaces l 3 of
        a # c # _ \<Rightarrow>
          if a \<noteq> CHR ''<'' then False
          else c = CHR ''/'' \<or> c = CHR ''!'' \<or> c = CHR ''?'' \<or> isASCIILetter c
      | _ \<Rightarrow> False)"

definition isTableLine :: "string \<Rightarrow> bool" where
  "isTableLine l = (case trimLeadingSpaces l 3 of [] \<Rightarrow> False | c # _ \<Rightarrow> c = CHR ''|'')"

definition looksLikeAnyOpener :: "string \<Rightarrow> bool" where
  "looksLikeAnyOpener l \<longleftrightarrow>
     isFenceOpen l \<or> isATXHeading l \<or> isBlockquoteLine l \<or> isListItemLine l \<or>
     isHTMLBlockLine l \<or> isTableLine l"

section \<open>Consumers\<close>

text \<open>The backing up over trailing blank lines, which never reaches the block's first line.\<close>

definition give_back_blanks :: "string list \<times> string list \<Rightarrow> string list \<times> string list" where
  "give_back_blanks tr =
     (let blanks = takeWhile isBlank (rev (fst tr))
      in (take (length (fst tr) - length blanks) (fst tr), rev blanks @ snd tr))"

definition closesFence :: "string \<Rightarrow> string \<Rightarrow> bool" where
  "closesFence opener l =
     (let t = trim_right [CHR '' '', CHR 0x09] (trimLeadingSpaces l 3)
      in length t \<ge> length opener \<and> allByte t (hd opener))"

fun fence_close :: "string \<Rightarrow> string list \<Rightarrow> (string list \<times> string list) option" where
  "fence_close opener [] = None"
| "fence_close opener (l # ls) =
     (if closesFence opener l then Some ([l], ls)
      else map_option (\<lambda>(t, r). (l # t, r)) (fence_close opener ls))"

definition consumeFence :: "string \<Rightarrow> string list \<Rightarrow> string list \<times> string list" where
  "consumeFence first ls =
     (case fenceOpener first of
        None \<Rightarrow> ([], ls)
      | Some opener \<Rightarrow>
          (case fence_close opener ls of
             Some tr \<Rightarrow> tr
           | None \<Rightarrow> give_back_blanks (ls, [])))"

definition consumeBlockquote :: "string list \<Rightarrow> string list \<times> string list" where
  "consumeBlockquote ls = (takeWhile isBlockquoteLine ls, dropWhile isBlockquoteLine ls)"

fun list_item_lines :: "nat \<Rightarrow> string list \<Rightarrow> string list \<times> string list" where
  "list_item_lines cont [] = ([], [])"
| "list_item_lines cont (l # ls) =
     (let more = (let (t, r) = list_item_lines cont ls in (l # t, r))
      in if isBlank l
         then (case ls of
                 [] \<Rightarrow> ([], l # ls)
               | n # _ \<Rightarrow> if indentColumns n \<ge> cont \<and> \<not> isBlank n then more else ([], l # ls))
         else if listItemMarker l \<noteq> None \<and> indentColumns l < cont then ([], l # ls)
         else if indentColumns l \<ge> cont then more
         else ([], l # ls))"

definition consumeListItem :: "string \<Rightarrow> string list \<Rightarrow> string list \<times> string list" where
  "consumeListItem first ls =
     (let cont = (case listItemMarker first of None \<Rightarrow> 0 | Some c \<Rightarrow> c)
      in give_back_blanks (list_item_lines cont ls))"

definition consumeUntilBlank :: "string list \<Rightarrow> string list \<times> string list" where
  "consumeUntilBlank ls = (takeWhile (\<lambda>l. \<not> isBlank l) ls, dropWhile (\<lambda>l. \<not> isBlank l) ls)"

definition consumeParagraph :: "string list \<Rightarrow> string list \<times> string list" where
  "consumeParagraph ls =
     (let go = (\<lambda>l. \<not> isBlank l \<and> \<not> looksLikeAnyOpener l) in (takeWhile go ls, dropWhile go ls))"

text \<open>The switch of \<open>Split\<close> on the first line of a block.\<close>

definition consume_block :: "string \<Rightarrow> string list \<Rightarrow> string list \<times> string list" where
  "consume_block l ls =
     (if isFenceOpen l then consumeFence l ls
      else if isATXHeading l then ([], ls)
      else if (case ls of [] \<Rightarrow> False | n # _ \<Rightarrow> isSetextUnderline n \<and> \<not> looksLikeAnyOpener l)
      then ([hd ls], tl ls)
      else if isBlockquoteLine l then consumeBlockquote ls
      else if isListItemLine l then consumeListItem l ls
      else if isHTMLBlockLine l then consumeUntilBlank ls
      else if isTableLine l then consumeUntilBlank ls
      else consumeParagraph ls)"

section \<open>Split and Join\<close>

definition empties :: "nat \<Rightarrow> bool \<Rightarrow> string list" where
  "empties n afterContent = replicate (if afterContent then n - 1 else n) []"

text \<open>A consumer leaves a suffix of the lines it is given.\<close>

definition parts :: "string list \<Rightarrow> string list \<times> string list \<Rightarrow> bool" where
  "parts ls tr \<longleftrightarrow> fst tr @ snd tr = ls"

lemma give_back_parts: "parts ls tr \<Longrightarrow> parts ls (give_back_blanks tr)"
proof -
  let ?t = "fst tr"
  have "take (length ?t - length (takeWhile isBlank (rev ?t))) ?t @ rev (takeWhile isBlank (rev ?t)) = ?t"
    by (metis append_take_drop_id rev_rev_ident rev_take takeWhile_eq_take length_rev)
  then show "parts ls tr \<Longrightarrow> ?thesis" by (simp add: parts_def give_back_blanks_def Let_def flip: append_assoc)
qed

lemma fence_close_parts: "fence_close opener ls = Some tr \<Longrightarrow> parts ls tr"
  by (induction ls arbitrary: tr) (auto simp: parts_def split: if_splits)

lemma list_item_parts: "parts ls (list_item_lines cont ls)"
  by (induction cont ls rule: list_item_lines.induct)
    (auto simp: parts_def Let_def split: list.splits prod.splits)

lemma consumer_parts:
  "parts ls (consumeFence l ls)" "parts ls (consumeBlockquote ls)" "parts ls (consumeListItem l ls)"
  "parts ls (consumeUntilBlank ls)" "parts ls (consumeParagraph ls)"
proof -
  have whole: "parts ls (ls, [])" by (simp add: parts_def)
  show "parts ls (consumeFence l ls)"
    using fence_close_parts give_back_parts [OF whole]
    by (auto simp: consumeFence_def parts_def split: option.split)
  show "parts ls (consumeListItem l ls)"
    by (simp add: consumeListItem_def Let_def give_back_parts list_item_parts)
qed (simp_all add: consumeBlockquote_def consumeUntilBlank_def consumeParagraph_def parts_def Let_def)

lemma consume_block_parts: "parts ls (consume_block l ls)"
  unfolding consume_block_def
  by (auto simp: consumer_parts) (simp_all add: parts_def split: list.splits)

lemma consume_block_shorter: "length (snd (consume_block l ls)) \<le> length ls"
  using consume_block_parts [of ls l] unfolding parts_def
  by (metis le_add2 length_append)

text \<open>
  The loop of \<open>Split\<close>, with the run of blank lines met so far and whether a content block
  came before it.
\<close>

function split_loop :: "string list \<Rightarrow> nat \<Rightarrow> bool \<Rightarrow> string list" where
  "split_loop [] blanks sawContent = empties blanks False"
| "split_loop (l # ls) blanks sawContent =
     (if isBlank l then split_loop ls (blanks + 1) sawContent
      else
        let (t, r) = consume_block l ls
        in empties blanks sawContent @ join_with CHR 0x0A (l # t) # split_loop r 0 True)"
  by pat_completeness auto

termination
proof (relation "measure (\<lambda>(ls, _). length ls)", goal_cases)
  case (3 l ls blanks sawContent x xa y)
  then show ?case using consume_block_shorter [of l ls] by (cases "consume_block l ls") simp
qed auto

definition Split :: "string \<Rightarrow> string list" where
  "Split md = (if md = [] then [] else split_loop (splitLines md) 0 False)"

text \<open>The loop of \<open>Join\<close> after the first content block: the writes, and the pending gap.\<close>

fun join_tail :: "nat \<Rightarrow> string list \<Rightarrow> string" where
  "join_tail gap [] = (if gap > 0 then replicate (gap + 1) CHR 0x0A else [])"
| "join_tail gap (block # blocks) =
     (if block = [] then join_tail (gap + 1) blocks
      else [CHR 0x0A, CHR 0x0A] @ replicate gap CHR 0x0A @ block @ join_tail 0 blocks)"

definition Join :: "string list \<Rightarrow> string" where
  "Join blocks =
     (if blocks = [] then []
      else
        let first = length (takeWhile (\<lambda>b. b = []) blocks)
        in if first = length blocks then replicate first CHR 0x0A
           else replicate first CHR 0x0A @ blocks ! first @ join_tail 0 (drop (first + 1) blocks))"

section \<open>Blocks survive a change of what follows them\<close>

text \<open>
  What \<open>Join\<close> makes of the lines after a block: the same number of blank lines, now empty
  (at least one before a further block), then the same first line, or nothing.
\<close>

definition refollows :: "string list \<Rightarrow> string list \<Rightarrow> bool" where
  "refollows r r' \<longleftrightarrow>
     (let bl = takeWhile isBlank r; r0 = dropWhile isBlank r
      in if r0 = [] then r' = replicate (length bl) []
         else \<exists>r0'. r' = replicate (max 1 (length bl)) [] @ hd r0 # r0')"

text \<open>
  The contract of a consumer of the lines after a block's first line: it splits off a prefix,
  leaves its result unchanged when the rest is laid out anew, and ends on a line that is not blank.
\<close>

locale block_consumer =
  fixes consume :: "string list \<Rightarrow> string list \<times> string list"
  assumes splits: "parts ls (consume ls)"
    and stable: "consume ls = (t, r) \<Longrightarrow> refollows r r' \<Longrightarrow> consume (t @ r') = (t, r')"
    and ends: "consume ls = (t, r) \<Longrightarrow> t = [] \<or> \<not> isBlank (last t)"
begin

lemma lines_of: "consume ls = (t, r) \<Longrightarrow> ls = t @ r"
  using splits [of ls] by (simp add: parts_def)

lemma rest_shorter: "consume ls = (t, r) \<Longrightarrow> length r \<le> length ls"
  using lines_of by fastforce

lemma again: "consume ls = (t, r) \<Longrightarrow> refollows r r' \<Longrightarrow> refollows r' r'' \<Longrightarrow>
    consume (t @ r'') = (t, r'')"
  using stable by metis

end

lemma refollows_hd:
  "refollows r r' \<Longrightarrow> r' = [] \<or> hd r' = []"
  by (cases "length (takeWhile isBlank r)") (auto simp: refollows_def Let_def split: if_splits)

lemma takeWhile_stops:
  assumes "\<forall>x \<in> set t. P x" "r' = [] \<or> \<not> P (hd r')"
  shows "takeWhile P (t @ r') = t \<and> dropWhile P (t @ r') = r'"
  using assms by (cases r') (auto simp: takeWhile_append2 dropWhile_append2)

lemma takeWhile_consumer:
  assumes "\<And>l. P l \<Longrightarrow> \<not> isBlank l"
  shows "block_consumer (\<lambda>ls. (takeWhile P ls, dropWhile P ls))"
proof
  fix ls t r r'
  assume tr: "(takeWhile P ls, dropWhile P ls) = (t, r)"
  show "t = [] \<or> \<not> isBlank (last t)"
    using tr assms by (metis last_in_set prod.inject set_takeWhileD)
  assume f: "refollows r r'"
  have "\<not> P []" using assms [of "[]"] by auto
  then have "r' = [] \<or> \<not> P (hd r')" using refollows_hd [OF f] by metis
  moreover have "\<forall>x \<in> set t. P x" using tr by (auto dest: set_takeWhileD)
  ultimately show "(takeWhile P (t @ r'), dropWhile P (t @ r')) = (t, r')"
    using takeWhile_stops [of t P r'] by (simp only:)
qed (simp add: parts_def)

definition high :: "char \<Rightarrow> bool" where
  "high c \<longleftrightarrow> 128 \<le> (of_char c :: nat)"

lemma space_high:
  "space2 a b \<Longrightarrow> high a \<and> high b" "space3 a b c \<Longrightarrow> high a \<and> high b \<and> high c"
  by (auto simp: space2_def space3_def high_def less_eq_char_def)

lemma isBlank_bytes: "isBlank s \<Longrightarrow> list_all (\<lambda>c. asciiSpace c \<or> high c) s"
proof (induction s rule: isBlank.induct)
  case (2 a s)
  show ?case
  proof (cases "asciiSpace a")
    case True
    with 2 show ?thesis by simp
  next
    case na: False
    with "2.prems" obtain b s' where s: "s = b # s'" by (cases s) auto
    show ?thesis
    proof (cases "space2 a b")
      case True
      with "2.prems" na s have "isBlank s'" by simp
      from "2.IH"(2) [OF na s True this] s space_high(1) [OF True] show ?thesis by simp
    next
      case False
      with "2.prems" na s obtain c s'' where s': "s' = c # s''" and sp: "space3 a b c" and bl: "isBlank s''"
        by (cases s') simp_all
      have "list_all (\<lambda>c. asciiSpace c \<or> high c) s''" by (rule "2.IH"(3) [OF na s False s' bl])
      with s s' space_high(2) [OF sp] show ?thesis by simp
    qed
  qed
qed simp

lemma set_trimLeadingSpaces: "set (trimLeadingSpaces l n) \<subseteq> set l"
  by (induction l n rule: trimLeadingSpaces.induct) auto

lemma marker_not_space:
  "c \<in> {CHR ''>'', CHR ''`'', CHR ''~'', CHR ''='', CHR ''-''} \<Longrightarrow> \<not> asciiSpace c \<and> \<not> high c"
  by (elim insertE emptyE) (simp_all add: asciiSpace_def high_def)

lemma marker_not_blank:
  assumes "c \<in> set (trimLeadingSpaces l n)" "c \<in> {CHR ''>'', CHR ''`'', CHR ''~'', CHR ''='', CHR ''-''}"
  shows "\<not> isBlank l"
  using isBlank_bytes [of l] set_trimLeadingSpaces [of l n] assms(1) marker_not_space [OF assms(2)]
  unfolding list_all_iff by blast

lemma blockquote_not_blank: "isBlockquoteLine l \<Longrightarrow> \<not> isBlank l"
  using marker_not_blank [of "CHR ''>''" l 3]
  by (auto simp: isBlockquoteLine_def split: list.splits)

interpretation blockquote: block_consumer consumeBlockquote
  unfolding consumeBlockquote_def by (rule takeWhile_consumer) (rule blockquote_not_blank)

interpretation until_blank: block_consumer consumeUntilBlank
  unfolding consumeUntilBlank_def by (rule takeWhile_consumer)

interpretation para: block_consumer consumeParagraph
  unfolding consumeParagraph_def Let_def by (rule takeWhile_consumer) simp

interpretation heading: block_consumer "\<lambda>ls. ([], ls)"
  by unfold_locales (auto simp: parts_def)

text \<open>Giving back blanks splits the taken lines at the last one that is not blank.\<close>

lemma give_back_eq:
  assumes "\<forall>l \<in> set bl. isBlank l" "t = [] \<or> \<not> isBlank (last t)"
  shows "give_back_blanks (t @ bl, r) = (t, bl @ r)"
proof -
  have "takeWhile isBlank (rev t) = []" using assms(2) by (cases t rule: rev_cases) auto
  then have "takeWhile isBlank (rev (t @ bl)) = rev bl"
    using assms(1) takeWhile_append2 [of "rev bl" isBlank "rev t"] by auto
  then show ?thesis by (simp add: give_back_blanks_def Let_def)
qed

lemma give_back_form:
  assumes "give_back_blanks (u, r) = (t, q)"
  shows "\<exists>bl. u = t @ bl \<and> (\<forall>l \<in> set bl. isBlank l) \<and> q = bl @ r \<and> (t = [] \<or> \<not> isBlank (last t))"
proof -
  let ?bl = "rev (takeWhile isBlank (rev u))" and ?t = "rev (dropWhile isBlank (rev u))"
  have u: "u = ?t @ ?bl" by (metis rev_append rev_rev_ident takeWhile_dropWhile_id)
  have bl: "\<forall>l \<in> set ?bl. isBlank l" by (auto dest: set_takeWhileD)
  have t: "?t = [] \<or> \<not> isBlank (last ?t)" by (metis hd_dropWhile last_rev rev.simps(1) rev_rev_ident)
  have "give_back_blanks (u, r) = (?t, ?bl @ r)" using give_back_eq [OF bl t, of r] u by simp
  with assms u bl t show ?thesis by auto
qed

section \<open>Fences\<close>

lemma fenceOpener_length:
  assumes "fenceOpener l = Some opener"
  shows "3 \<le> length opener \<and> hd opener \<in> {CHR ''`'', CHR ''~''}"
proof -
  define t where "t = trimLeadingSpaces l 3"
  define n where "n = length (takeWhile (\<lambda>b. b = hd t) t)"
  have "opener = replicate n (hd t)" "3 \<le> n" "hd t \<in> {CHR ''`'', CHR ''~''}"
    using assms unfolding fenceOpener_def t_def [symmetric] Let_def n_def [symmetric]
    by (simp_all split: if_splits)
  then show ?thesis by (cases n) auto
qed

lemma closesFence_not_blank:
  assumes "fenceOpener f = Some opener" "closesFence opener l"
  shows "\<not> isBlank l"
proof -
  let ?s = "trimLeadingSpaces l 3"
  let ?t = "trim_right [CHR '' '', CHR 0x09] ?s"
  have "?t \<noteq> []" "list_all (\<lambda>b. b = hd opener) ?t"
    using assms fenceOpener_length [OF assms(1)] by (auto simp: closesFence_def Let_def allByte_def)
  then have "hd opener \<in> set ?t" by (cases ?t) auto
  moreover have "set ?t \<subseteq> set ?s" using trim_right_prefix [of _ ?s] by (meson set_mono_prefix)
  ultimately show ?thesis
    using marker_not_blank [of "hd opener" l 3] fenceOpener_length [OF assms(1)] by auto
qed

lemma fence_close_stable:
  "fence_close opener ls = Some (t, r) \<Longrightarrow>
     fence_close opener (t @ r') = Some (t, r') \<and> t \<noteq> [] \<and> closesFence opener (last t)"
  by (induction ls arbitrary: t) (auto split: if_splits)

lemma fence_close_None: "fence_close opener ls = None \<longleftrightarrow> (\<forall>l \<in> set ls. \<not> closesFence opener l)"
  by (induction ls) auto

interpretation fence: block_consumer "consumeFence l" for l
proof
  fix ls t r r'
  show "parts ls (consumeFence l ls)" by (rule consumer_parts)
  assume tr: "consumeFence l ls = (t, r)"
  show end_ok: "t = [] \<or> \<not> isBlank (last t)"
  proof (cases "fenceOpener l")
    case (Some opener)
    show ?thesis
    proof (cases "fence_close opener ls")
      case None
      with Some tr have "give_back_blanks (ls, []) = (t, r)" by (simp add: consumeFence_def)
      then show ?thesis using give_back_form by blast
    next
      case (Some u)
      with \<open>fenceOpener l = Some opener\<close> tr have "fence_close opener ls = Some (t, r)"
        by (simp add: consumeFence_def)
      with fence_close_stable closesFence_not_blank [OF \<open>fenceOpener l = Some opener\<close>] show ?thesis by blast
    qed
  qed (use tr in \<open>simp add: consumeFence_def\<close>)
  assume f: "refollows r r'"
  show "consumeFence l (t @ r') = (t, r')"
  proof (cases "fenceOpener l")
    case (Some opener)
    show ?thesis
    proof (cases "fence_close opener ls")
      case None
      with Some tr obtain bl where ls: "ls = t @ bl" "\<forall>l \<in> set bl. isBlank l" "r = bl"
        using give_back_form [of ls "[]" t r] by (auto simp: consumeFence_def)
      then have "dropWhile isBlank r = []" "takeWhile isBlank r = r" by auto
      with f have r': "r' = replicate (length r) []" by (simp add: refollows_def)
      have "\<not> closesFence opener []"
        using fenceOpener_length [OF Some] by (auto simp: closesFence_def Let_def trim_right_def)
      then have "fence_close opener (t @ r') = None"
        using None ls(1) r' by (auto simp: fence_close_None)
      moreover have "give_back_blanks (t @ r', []) = (t, r')"
        using give_back_eq [of r' t "[]"] end_ok r' by simp
      ultimately show ?thesis using Some by (simp add: consumeFence_def)
    next
      case (Some u)
      with \<open>fenceOpener l = Some opener\<close> tr have "fence_close opener ls = Some (t, r)"
        by (simp add: consumeFence_def)
      from fence_close_stable [OF this, of r'] \<open>fenceOpener l = Some opener\<close> show ?thesis
        by (simp add: consumeFence_def)
    qed
  qed (use tr in \<open>simp add: consumeFence_def\<close>)
qed

section \<open>List items\<close>

text \<open>Where an item stops.\<close>

definition item_stops :: "nat \<Rightarrow> string list \<Rightarrow> bool" where
  "item_stops cont r =
     (case r of
        [] \<Rightarrow> True
      | l # ls \<Rightarrow>
          if isBlank l then (case ls of [] \<Rightarrow> True | n # _ \<Rightarrow> indentColumns n < cont \<or> isBlank n)
          else indentColumns l < cont)"

lemma list_item_stops: "item_stops cont r \<longleftrightarrow> list_item_lines cont r = ([], r)"
  by (cases r) (auto simp: item_stops_def Let_def split: list.splits prod.splits)

lemma list_item_rest: "list_item_lines cont ls = (t, r) \<Longrightarrow> item_stops cont r"
proof (induction ls arbitrary: t)
  case Nil
  then show ?case by (simp add: item_stops_def)
next
  case (Cons l ls)
  obtain t' r1 where rec: "list_item_lines cont ls = (t', r1)" by fastforce
  show ?case
  proof (cases "t = []")
    case True
    then have "r = l # ls" using Cons.prems rec by (auto simp: Let_def split: if_splits list.splits)
    with Cons.prems True show ?thesis by (simp add: list_item_stops)
  next
    case False
    with Cons.prems rec have "r1 = r" by (auto simp: Let_def split: if_splits list.splits)
    with Cons.IH rec show ?thesis by simp
  qed
qed

lemma list_item_taken:
  "list_item_lines cont ls = (t, r) \<Longrightarrow> t = [] \<or> \<not> isBlank (last t)"
proof (induction ls arbitrary: t)
  case (Cons l ls)
  obtain t' r1 where rec: "list_item_lines cont ls = (t', r1)" by fastforce
  show ?case
  proof (cases "t = []")
    case False
    with Cons.prems rec have t: "t = l # t'" "r1 = r"
      by (auto simp: Let_def split: if_splits list.splits)
    have "t' \<noteq> []" if "isBlank l"
      using that Cons.prems False rec by (cases ls) (auto simp: Let_def split: if_splits prod.splits)
    with Cons.IH [of t'] rec t show ?thesis by auto
  qed simp
qed simp

lemma list_item_again:
  assumes "item_stops cont r'"
  shows "list_item_lines cont ls = (t, r) \<Longrightarrow> list_item_lines cont (t @ r') = (t, r')"
proof (induction ls arbitrary: t)
  case Nil
  then show ?case using assms by (simp add: list_item_stops)
next
  case (Cons l ls)
  obtain t' r1 where rec: "list_item_lines cont ls = (t', r1)" by fastforce
  show ?case
  proof (cases "t = []")
    case True
    then show ?thesis using assms by (simp add: list_item_stops)
  next
    case False
    with Cons.prems rec have t: "t = l # t'" "r1 = r"
      by (auto simp: Let_def split: if_splits list.splits)
    have IH: "list_item_lines cont (t' @ r') = (t', r')" using Cons.IH rec t(2) by simp
    show ?thesis
    proof (cases "isBlank l")
      case True
      with Cons.prems False obtain n ns where ls: "ls = n # ns" "indentColumns n \<ge> cont" "\<not> isBlank n"
        by (auto simp: Let_def split: list.splits if_splits)
      then obtain t'' where "t' = n # t''" using rec by (auto simp: Let_def split: prod.splits if_splits)
      with True IH ls t show ?thesis by (simp add: Let_def)
    next
      case nb: False
      with Cons.prems False have "\<not> (listItemMarker l \<noteq> None \<and> indentColumns l < cont)"
        "indentColumns l \<ge> cont" by (auto simp: Let_def split: if_splits)
      with nb IH t show ?thesis by (simp add: Let_def)
    qed
  qed
qed

lemma refollows_blank:
  assumes "refollows (l # ls) r'" "isBlank l"
  shows "\<exists>q. r' = [] # q \<and> (case ls of [] \<Rightarrow> q = [] | n # _ \<Rightarrow> \<exists>q'. q = (if isBlank n then [] else n) # q')"
proof (cases ls)
  case (Cons n ns)
  show ?thesis
  proof (cases "isBlank n")
    case True
    define k where "k = length (takeWhile isBlank ns)"
    have "\<exists>w. r' = replicate (Suc (Suc k)) [] @ w"
      using assms Cons True unfolding refollows_def k_def
      by (auto simp: Let_def max_def split: if_splits intro: exI [of _ "[]"])
    then show ?thesis using Cons True by auto
  next
    case False
    then show ?thesis using assms Cons by (auto simp: refollows_def Let_def)
  qed
qed (use assms in \<open>simp add: refollows_def Let_def\<close>)

lemma item_stops_refollows:
  assumes "item_stops cont r" "refollows r r'"
  shows "item_stops cont r'"
proof (cases r)
  case Nil
  then show ?thesis using assms by (simp add: refollows_def item_stops_def)
next
  case (Cons l ls)
  show ?thesis
  proof (cases "isBlank l")
    case True
    with refollows_blank [of l ls r'] assms Cons show ?thesis
      by (cases ls) (auto simp: item_stops_def)
  next
    case False
    with assms Cons have "indentColumns l < cont" "\<exists>q. r' = [] # l # q"
      by (auto simp: item_stops_def refollows_def)
    then show ?thesis by (auto simp: item_stops_def)
  qed
qed

lemma give_back_list_item: "give_back_blanks (list_item_lines cont ls) = list_item_lines cont ls"
  using give_back_eq [of "[]" "fst (list_item_lines cont ls)" "snd (list_item_lines cont ls)"]
    list_item_taken [of cont ls "fst (list_item_lines cont ls)" "snd (list_item_lines cont ls)"]
  by simp

interpretation list_item: block_consumer "consumeListItem l" for l
proof
  fix ls t r r'
  show "parts ls (consumeListItem l ls)" by (rule consumer_parts)
  define cont where "cont = (case listItemMarker l of None \<Rightarrow> 0 | Some c \<Rightarrow> c)"
  have item: "consumeListItem l ks = list_item_lines cont ks" for ks
    by (simp add: consumeListItem_def cont_def give_back_list_item)
  assume tr: "consumeListItem l ls = (t, r)"
  then show "t = [] \<or> \<not> isBlank (last t)" using list_item_taken item by simp
  assume "refollows r r'"
  then show "consumeListItem l (t @ r') = (t, r')"
    using tr by (metis item list_item_again item_stops_refollows list_item_rest)
qed

section \<open>Every block\<close>

lemma setext_not_blank: "isSetextUnderline l \<Longrightarrow> \<not> isBlank l"
proof -
  assume a: "isSetextUnderline l"
  obtain c t where ct: "trim_right [CHR '' '', CHR 0x09] (trimLeadingSpaces l 3) = c # t"
    "c = CHR ''='' \<or> c = CHR ''-''"
    using a by (auto simp: isSetextUnderline_def split: list.splits if_splits)
  then have "c \<in> set (trimLeadingSpaces l 3)"
    using trim_right_prefix [of "[CHR '' '', CHR 0x09]" "trimLeadingSpaces l 3"]
    by (metis list.set_intros(1) set_mono_prefix subsetD)
  then show ?thesis using marker_not_blank [of c l 3] ct(2) by blast
qed

definition setext_next :: "string \<Rightarrow> string list \<Rightarrow> bool" where
  "setext_next l ls = (case ls of [] \<Rightarrow> False | n # _ \<Rightarrow> isSetextUnderline n \<and> \<not> looksLikeAnyOpener l)"

text \<open>The consumer the switch picks once the setext case is ruled out, a function of the line alone.\<close>

definition block_kind :: "string \<Rightarrow> string list \<Rightarrow> string list \<times> string list" where
  "block_kind l =
     (if isFenceOpen l then consumeFence l
      else if isATXHeading l then (\<lambda>ls. ([], ls))
      else if isBlockquoteLine l then consumeBlockquote
      else if isListItemLine l then consumeListItem l
      else if isHTMLBlockLine l \<or> isTableLine l then consumeUntilBlank
      else consumeParagraph)"

lemma consume_block_cases:
  "consume_block l ls = (if setext_next l ls then ([hd ls], tl ls) else block_kind l ls)"
  by (auto simp: consume_block_def setext_next_def block_kind_def looksLikeAnyOpener_def split: list.split)

lemma block_kind_consumer: "block_consumer (block_kind l)"
  by (simp add: block_kind_def fence.block_consumer_axioms heading.block_consumer_axioms
      blockquote.block_consumer_axioms list_item.block_consumer_axioms
      until_blank.block_consumer_axioms para.block_consumer_axioms)

interpretation kind: block_consumer "block_kind l" for l
  by (rule block_kind_consumer)

interpretation block: block_consumer "consume_block l" for l
proof
  fix ls t r r'
  show "parts ls (consume_block l ls)" by (rule consume_block_parts)
  assume tr: "consume_block l ls = (t, r)"
  have "isSetextUnderline (hd ls)" if "setext_next l ls" using that by (simp add: setext_next_def split: list.splits)
  with tr kind.ends show "t = [] \<or> \<not> isBlank (last t)"
    by (auto simp: consume_block_cases setext_not_blank split: if_splits)
  assume f: "refollows r r'"
  show "consume_block l (t @ r') = (t, r')"
  proof (cases "setext_next l ls")
    case True
    then obtain n ns where "ls = n # ns" by (cases ls) (auto simp: setext_next_def)
    with True tr show ?thesis by (auto simp: consume_block_cases setext_next_def)
  next
    case False
    with tr have k: "block_kind l ls = (t, r)" by (simp add: consume_block_cases)
    have "\<not> isSetextUnderline []" by (simp add: isSetextUnderline_def trim_right_def)
    then have "\<not> setext_next l (t @ r')"
      using False kind.lines_of [OF k] refollows_hd [OF f]
      by (cases t; cases r') (auto simp: setext_next_def)
    with kind.stable [OF k f] show ?thesis by (simp add: consume_block_cases)
  qed
qed


section \<open>The normal layout of a document\<close>

text \<open>
  The lines \<open>Join\<close> lays out for the blocks of some lines: blank lines become empty, at least
  one stands between two blocks, and blocks are kept.
\<close>

function normal :: "string list \<Rightarrow> nat \<Rightarrow> bool \<Rightarrow> string list" where
  "normal [] blanks sawContent = replicate blanks []"
| "normal (l # ls) blanks sawContent =
     (if isBlank l then normal ls (blanks + 1) sawContent
      else
        let (t, r) = consume_block l ls
        in replicate (if sawContent then max 1 blanks else blanks) [] @ (l # t) @ normal r 0 True)"
  by pat_completeness auto

termination
proof (relation "measure (\<lambda>(ls, _). length ls)", goal_cases)
  case (3 l ls blanks sawContent x xa y)
  then show ?case using consume_block_shorter [of l ls] by (cases "consume_block l ls") simp
qed auto

lemma refollows_normal_from:
  "if dropWhile isBlank r = [] then normal r b True = replicate (b + length r) []
   else \<exists>q. normal r b True = replicate (max 1 (b + length (takeWhile isBlank r))) [] @ hd (dropWhile isBlank r) # q"
proof (induction r arbitrary: b)
  case (Cons l r)
  show ?case
  proof (cases "isBlank l")
    case True
    with Cons.IH [of "b + 1"] show ?thesis by (auto split: if_splits)
  next
    case False
    then show ?thesis by (simp split: prod.split)
  qed
qed simp

lemma refollows_normal: "refollows r (normal r 0 True)"
proof (cases "dropWhile isBlank r = []")
  case True
  then have "length (takeWhile isBlank r) = length r" by (metis append_Nil2 takeWhile_dropWhile_id)
  with True refollows_normal_from [of r 0] show ?thesis by (simp add: refollows_def)
next
  case False
  with refollows_normal_from [of r 0] show ?thesis by (auto simp: refollows_def Let_def split: if_splits)
qed

lemma isBlank_Nil_lines: "split_loop (replicate n [] @ ls) b saw = split_loop ls (b + n) saw"
  by (induction n arbitrary: b) simp_all

lemma split_normal: "split_loop (normal ls b saw) 0 saw = split_loop ls b saw"
proof (induction ls b saw rule: split_loop.induct)
  case (1 b saw)
  show ?case using isBlank_Nil_lines [of b "[]" 0 saw] by simp
next
  case (2 l ls b saw)
  show ?case
  proof (cases "isBlank l")
    case True
    with 2 show ?thesis by simp
  next
    case False
    obtain t r where tr: "consume_block l ls = (t, r)" by fastforce
    let ?N = "normal r 0 True"
    have IH: "split_loop ?N 0 True = split_loop r 0 True" using 2(2) False tr by simp
    have "consume_block l (t @ ?N) = (t, ?N)" by (rule block.stable [OF tr refollows_normal])
    moreover have "max (Suc 0) b - Suc 0 = b - Suc 0" by (cases b) simp_all
    ultimately show ?thesis using False tr IH by (simp add: isBlank_Nil_lines empties_def)
  qed
qed

text \<open>A list of lines as a text that \<open>splitLines\<close> reads back.\<close>

definition nl_lines :: "string list \<Rightarrow> string" where
  "nl_lines ls = concat (map ((#) CHR 0x0A) ls)"

definition final_nl :: "string list \<Rightarrow> string" where
  "final_nl ls = (if ls \<noteq> [] \<and> last ls = [] then [CHR 0x0A] else [])"

definition lay :: "string list \<Rightarrow> string" where
  "lay ls = join_with CHR 0x0A ls @ final_nl ls"

lemma nl_lines_simps [simp]:
  "nl_lines [] = []" "nl_lines (l # ls) = CHR 0x0A # l @ nl_lines ls" "nl_lines (xs @ ys) = nl_lines xs @ nl_lines ys"
  "nl_lines (replicate n []) = replicate n CHR 0x0A"
  by (induction n) (simp_all add: nl_lines_def)

lemma join_with_Cons: "join_with CHR 0x0A (l # ls) = l @ nl_lines ls"
  by (induction ls arbitrary: l) simp_all

definition plain_line :: "string \<Rightarrow> bool" where
  "plain_line l \<longleftrightarrow> CHR 0x0A \<notin> set l \<and> strip_cr l = l"

lemma plain_line_Nil [simp]: "plain_line []"
  by (simp add: plain_line_def strip_cr_def cut_suffix_def)

lemma splitLines_lay:
  assumes "\<forall>l \<in> set ls. plain_line l"
  shows "splitLines (lay ls) = ls"
proof (cases "ls = []")
  case False
  have id: "map strip_cr ls = ls" using assms by (simp add: map_idI plain_line_def)
  have sp: "split_on CHR 0x0A (join_with CHR 0x0A ls) = ls"
    using False assms by (intro split_on_join) (auto simp: plain_line_def)
  show ?thesis
  proof (cases "last ls = []")
    case True
    have "split_on CHR 0x0A (lay ls) = ls @ [[]]"
      using False True sp split_on_append_sep [of "CHR 0x0A" "join_with CHR 0x0A ls" "[]"]
      by (simp add: lay_def final_nl_def)
    then show ?thesis using id plain_line_Nil by (simp add: splitLines_def plain_line_def)
  next
    case False
    then show ?thesis using sp id \<open>ls \<noteq> []\<close> by (simp add: splitLines_def lay_def final_nl_def)
  qed
qed (simp add: splitLines_def lay_def final_nl_def strip_cr_def cut_suffix_def)

lemma final_nl_append: "final_nl (xs @ ys) = (if ys = [] then final_nl xs else final_nl ys)"
  by (simp add: final_nl_def)

lemma final_nl_block:
  assumes "\<not> isBlank l" "consume_block l ls = (t, r)"
  shows "final_nl (replicate n [] @ l # t @ N) = final_nl N"
proof -
  have "final_nl (l # t) = []" using block.ends [OF assms(2)] assms(1) by (auto simp: final_nl_def)
  then show ?thesis
    using final_nl_append [of "replicate n [] @ l # t" N] final_nl_append [of "replicate n []" "l # t"]
    by (simp add: final_nl_def)
qed

lemma join_tail_empties: "join_tail g (replicate n [] @ bs) = join_tail (g + n) bs"
  by (induction n arbitrary: g) simp_all

lemma join_tail_normal:
  "join_tail 0 (split_loop ls b True) = nl_lines (normal ls b True) @ final_nl (normal ls b True)"
proof (induction ls b True rule: split_loop.induct)
  case (1 b)
  show ?case using join_tail_empties [of 0 b "[]"]
    by (auto simp: empties_def final_nl_def replicate_append_same)
next
  case (2 l ls b)
  show ?case
  proof (cases "isBlank l")
    case True
    with 2 show ?thesis by simp
  next
    case False
    obtain t r where tr: "consume_block l ls = (t, r)" by fastforce
    have l: "l \<noteq> []" using False by auto
    note fin = final_nl_block [OF False tr]
    have reps: "replicate (max 1 b) CHR 0x0A = CHR 0x0A # replicate (b - 1) CHR 0x0A"
      by (cases b) simp_all
    have "join_tail 0 (split_loop r 0 True) = nl_lines (normal r 0 True) @ final_nl (normal r 0 True)"
      using 2(2) False tr by simp
    then show ?thesis using False tr l reps fin
      by (simp add: empties_def join_tail_empties join_with_Cons replicate_app_Cons_same)
  qed
qed

lemma Join_normal: "Join (split_loop ls b False) = lay (normal ls b False)"
proof (induction ls arbitrary: b)
  case Nil
  show ?case
    by (cases b) (simp_all add: Join_def empties_def lay_def final_nl_def join_with_Cons replicate_append_same)
next
  case (Cons l ls)
  show ?case
  proof (cases "isBlank l")
    case True
    with Cons.IH show ?thesis by simp
  next
    case False
    obtain t r where tr: "consume_block l ls = (t, r)" by fastforce
    let ?N = "normal r 0 True" and ?B = "join_with CHR 0x0A (l # t)"
    have B: "?B \<noteq> []" using False by (auto simp: join_with_Cons)
    note fin = final_nl_block [OF False tr]
    have "takeWhile (\<lambda>b. b = []) (replicate b [] @ ?B # split_loop r 0 True) = replicate b []"
      using B by (induction b) simp_all
    then have "Join (split_loop (l # ls) b False) = replicate b CHR 0x0A @ ?B @ nl_lines ?N @ final_nl ?N"
      using False tr join_tail_normal [of r 0]
      by (simp add: Join_def empties_def nth_append)
    also have "\<dots> = lay (normal (l # ls) b False)"
      using False tr fin by (cases b) (simp_all add: lay_def join_with_Cons replicate_app_Cons_same fin [of 0, simplified]
          fin [of "Suc _", simplified])
    finally show ?thesis .
  qed
qed


section \<open>The round trip\<close>

lemma normal_lines: "set (normal ls b saw) \<subseteq> set ls \<union> {[]}"
proof (induction ls b saw rule: normal.induct)
  case (2 l ls b saw)
  show ?case
  proof (cases "isBlank l")
    case True
    with 2 show ?thesis by auto
  next
    case False
    obtain t r where tr: "consume_block l ls = (t, r)" by fastforce
    then have "set (normal r 0 True) \<subseteq> set r \<union> {[]}" using 2(2) False by simp
    with False tr block.lines_of [OF tr] show ?thesis by auto
  qed
qed (simp add: set_replicate_conv_if)

lemma splitLines_no_nl: "l \<in> set (splitLines s) \<Longrightarrow> CHR 0x0A \<notin> set l"
proof -
  assume "l \<in> set (splitLines s)"
  then have "l \<in> set (map strip_cr (split_on CHR 0x0A s))"
    unfolding splitLines_def Let_def by (split if_split_asm) (auto simp only: dest: in_set_butlastD)
  then obtain k where k: "k \<in> set (split_on CHR 0x0A s)" "l = strip_cr k" by auto
  have "set (strip_cr k) \<subseteq> set k"
    by (auto simp: strip_cr_def cut_suffix_Some split: option.splits)
  with k split_on_no_sep show ?thesis by blast
qed

lemma Split_Nil: "Split [] = split_loop (splitLines []) 0 False"
  by (simp add: Split_def splitLines_def strip_cr_def cut_suffix_def empties_def)

lemma Split_eq: "Split md = split_loop (splitLines md) 0 False"
  using Split_Nil by (cases "md = []") (simp_all add: Split_def)

lemma Split_Join_plain:
  assumes "\<forall>l \<in> set (splitLines md). strip_cr l = l"
  shows "Split (Join (Split md)) = Split md"
proof -
  let ?ls = "splitLines md"
  have "\<forall>l \<in> set (normal ?ls 0 False). plain_line l"
    using normal_lines [of ?ls 0 False] assms splitLines_no_nl [of _ md] plain_line_Nil
    unfolding plain_line_def by blast
  then have "splitLines (Join (split_loop ?ls 0 False)) = normal ?ls 0 False"
    by (simp add: Join_normal splitLines_lay)
  then show ?thesis by (simp add: Split_eq split_normal)
qed

text \<open>
  C13. Split and Join round-trip: for a document none of whose lines still ends in a carriage
  return after its line ending is taken off, splitting what \<open>Join\<close> prints for the blocks of
  the document gives those very blocks, whatever mix of fences, headings, quotes, lists, HTML,
  tables, paragraphs and blank lines it has.
\<close>

theorem Split_Join_Split:
  assumes "\<forall>l \<in> set (splitLines md). strip_cr l = l"
  shows "Split (Join (Split md)) = Split md"
  by (rule Split_Join_plain [OF assms])

theorem Split_Join_Split_witness:
  "let md = ''- a'' @ [CHR 0x0A] @ ''  b'' @ [CHR 0x0A, CHR 0x0A, CHR 0x0A] @ ''# c'' @ [CHR 0x0A] @ ''d''
   in Split (Join (Split md)) = Split md \<and>
      Split md = [''- a'' @ [CHR 0x0A] @ ''  b'', [], ''# c'', ''d'']"
proof -
  let ?md = "''- a'' @ [CHR 0x0A] @ ''  b'' @ [CHR 0x0A, CHR 0x0A, CHR 0x0A] @ ''# c'' @ [CHR 0x0A] @ ''d''"
  have "\<forall>l \<in> set (splitLines ?md). strip_cr l = l" by code_simp
  from Split_Join_Split [OF this] show ?thesis unfolding Let_def
    by (rule conjI) code_simp
qed

text \<open>The proviso is needed: only one carriage return is taken off the end of a line.\<close>

lemma Split_Join_Split_cr:
  "let md = ''a'' @ [CHR 0x0D, CHR 0x0D, CHR 0x0A] in Split (Join (Split md)) \<noteq> Split md"
  by code_simp


section \<open>Nothing is lost or invented\<close>

definition block_lines :: "string \<Rightarrow> string list" where
  "block_lines b = split_on CHR 0x0A b"

definition framed :: "string \<Rightarrow> bool" where
  "framed b \<longleftrightarrow> \<not> isBlank (hd (block_lines b)) \<and> \<not> isBlank (last (block_lines b))"

lemma block_lines_join:
  "\<forall>l \<in> set (l # t). CHR 0x0A \<notin> set l \<Longrightarrow> block_lines (join_with CHR 0x0A (l # t)) = l # t"
  unfolding block_lines_def by (rule split_on_join) simp_all

lemma split_loop_lines:
  "\<forall>l \<in> set ls. CHR 0x0A \<notin> set l \<Longrightarrow>
     filter (\<lambda>l. \<not> isBlank l) (concat (map block_lines (split_loop ls b saw))) = filter (\<lambda>l. \<not> isBlank l) ls \<and>
     (\<forall>blk \<in> set (split_loop ls b saw).
        blk = [] \<or> framed blk)"
proof (induction ls b saw rule: split_loop.induct)
  case (1 b saw)
  show ?case by (simp add: empties_def block_lines_def filter_concat comp_def map_replicate_const)
next
  case (2 l ls b saw)
  show ?case
  proof (cases "isBlank l")
    case True
    with 2 show ?thesis by simp
  next
    case False
    obtain t r where tr: "consume_block l ls = (t, r)" by fastforce
    note ls = block.lines_of [OF tr]
    have IH: "filter (\<lambda>l. \<not> isBlank l) (concat (map block_lines (split_loop r 0 True))) = filter (\<lambda>l. \<not> isBlank l) r"
      "\<forall>blk \<in> set (split_loop r 0 True).
        blk = [] \<or> framed blk"
      using 2(2) [OF False tr [symmetric] refl] "2.prems" ls by simp_all
    have bl: "block_lines (join_with CHR 0x0A (l # t)) = l # t"
      using "2.prems" ls by (intro block_lines_join) auto
    have e: "filter (\<lambda>l. \<not> isBlank l) (concat (map block_lines (empties b saw))) = []"
      by (simp add: empties_def block_lines_def filter_concat comp_def map_replicate_const)
    have "\<forall>blk \<in> set (empties b saw). blk = []" by (simp add: empties_def)
    moreover have "last (l # t) = l \<or> \<not> isBlank (last (l # t))" using block.ends [OF tr] by auto
    ultimately show ?thesis using False tr IH bl e ls by (auto simp: framed_def)
  qed
qed

text \<open>
  \<open>Split\<close> loses and invents nothing: the lines of the document that are not blank are
  exactly the lines of the blocks that are not blank, in the same order; and a block that is not an
  empty paragraph starts and ends with a line that is not blank.
\<close>

theorem Split_keeps_content:
  "filter (\<lambda>l. \<not> isBlank l) (concat (map block_lines (Split md))) = filter (\<lambda>l. \<not> isBlank l) (splitLines md) \<and>
   list_all framed (filter (\<lambda>blk. blk \<noteq> []) (Split md))"
  using split_loop_lines [of "splitLines md" 0 False] splitLines_no_nl [of _ md]
  unfolding Split_eq list_all_iff set_filter by blast

end
