(* ===== verification/MarkdownMatch.thy ===== *)
theory MarkdownMatch
  imports MarkdownSplit "HOL-Library.Product_Lexorder"
begin

text \<open>
  Targeted edits of a rendered markdown document (src/internal/markdown/match.go): every edit is
  matched against the original text, exactly or else line by line after folding, and the matched
  spans are replaced back to front. \<open>nfkc\<close> stands for \<open>norm.NFKC.String\<close> of
  golang.org/x/text, which is not part of the sources.
\<close>

section \<open>Edits and errors\<close>

record Edit =
  OldText :: string
  NewText :: string
  ReplaceAll :: bool

text \<open>The typed errors, with \<open>fmt.Errorf("... oldText must not be empty")\<close> as the first.\<close>

datatype edit_error =
    EmptyOldText nat
  | NoMatchError nat
  | AmbiguousMatchError nat nat
  | OverlapError nat nat

record span =
  span_start :: nat
  span_end :: nat
  span_newText :: string
  span_edit :: nat

section \<open>Normalisation\<close>

fun replace_crlf :: "string \<Rightarrow> string" where
  "replace_crlf (a # b # s) =
     (if a = CHR 0x0D \<and> b = CHR 0x0A then CHR 0x0A # replace_crlf s else a # replace_crlf (b # s))"
| "replace_crlf s = s"

definition normalizeLF :: "string \<Rightarrow> string" where
  "normalizeLF s = replace_byte CHR 0x0D CHR 0x0A (replace_crlf s)"

definition fuzzyReplacer :: "(string \<times> string) list" where
  "fuzzyReplacer =
     map (\<lambda>c. ([CHR 0xE2, CHR 0x80, c], [CHR 0x27])) [CHR 0x98, CHR 0x99, CHR 0x9A, CHR 0x9B] @
     map (\<lambda>c. ([CHR 0xE2, CHR 0x80, c], [CHR 0x22])) [CHR 0x9C, CHR 0x9D, CHR 0x9E] @
     map (\<lambda>c. ([CHR 0xE2, CHR 0x80, c], ''-'')) [CHR 0x90, CHR 0x91, CHR 0x92, CHR 0x93, CHR 0x94] @
     [([CHR 0xE2, CHR 0x88, CHR 0x92], ''-''), ([CHR 0xC2, CHR 0xA0], '' '')]"

text \<open>\<open>strings.Replacer.Replace\<close>: at each byte the first pair whose key is there.\<close>

function replacer :: "(string \<times> string) list \<Rightarrow> string \<Rightarrow> string" where
  "replacer pairs [] = []"
| "replacer pairs (c # s) =
     (case find (\<lambda>p. has_prefix (fst p) (c # s)) pairs of
        None \<Rightarrow> c # replacer pairs s
      | Some p \<Rightarrow> snd p @ replacer pairs (drop (length (fst p) - 1) s))"
  by pat_completeness auto
termination by (relation "measure (length \<circ> snd)") auto

definition normalizeFuzzyLine :: "(string \<Rightarrow> string) \<Rightarrow> string \<Rightarrow> string" where
  "normalizeFuzzyLine nfkc s = trim_right [CHR '' '', CHR 0x09] (replacer fuzzyReplacer (nfkc s))"

section \<open>Matching\<close>

text \<open>
  The loop of \<open>exactMatches\<close> over \<open>content[from:]\<close>. An empty pattern never reaches
  it (\<open>resolveEdits\<close> refuses it).
\<close>

function exact_from :: "string \<Rightarrow> nat \<Rightarrow> string \<Rightarrow> (nat \<times> nat) list" where
  "exact_from oldText from s =
     (case index_sub oldText s of
        None \<Rightarrow> []
      | Some i \<Rightarrow>
          if oldText = [] then []
          else (from + i, from + i + length oldText) #
               exact_from oldText (from + i + length oldText) (drop (i + length oldText) s))"
  by pat_completeness auto
termination
proof (relation "measure (\<lambda>(_, _, s). length s)", goal_cases)
  case (2 oldText off s i)
  then have "s \<noteq> []" by (cases s) auto
  with 2 show ?case by (cases s; cases oldText) auto
qed simp

definition exactMatches :: "string \<Rightarrow> string \<Rightarrow> (nat \<times> nat) list" where
  "exactMatches content oldText = exact_from oldText 0 content"

fun line_starts :: "nat \<Rightarrow> string list \<Rightarrow> nat list" where
  "line_starts off [] = []"
| "line_starts off (l # ls) = off # line_starts (off + length l + 1) ls"

function fuzzy_loop :: "string list \<Rightarrow> nat list \<Rightarrow> string list \<Rightarrow> string list \<Rightarrow> nat \<Rightarrow> (nat \<times> nat) list" where
  "fuzzy_loop lins starts normContent normOld i =
     (if normOld \<noteq> [] \<and> i + length normOld \<le> length normContent
      then
        if take (length normOld) (drop i normContent) \<noteq> normOld
        then fuzzy_loop lins starts normContent normOld (i + 1)
        else
          let last = i + length normOld - 1
          in (starts ! i, starts ! last + length (lins ! last)) #
             fuzzy_loop lins starts normContent normOld (last + 1)
      else [])"
  by pat_completeness auto
termination
proof (relation "measure (\<lambda>(_, _, c, _, i). length c + 1 - i)", goal_cases)
  case (3 lins starts normContent normOld i x)
  then show ?case by (cases normOld) auto
qed auto

definition fuzzyMatches :: "(string \<Rightarrow> string) \<Rightarrow> string \<Rightarrow> string \<Rightarrow> (nat \<times> nat) list" where
  "fuzzyMatches nfkc content oldText =
     (if isBlank oldText then []
      else
        let lins = split_on CHR 0x0A content;
            starts = line_starts 0 lins;
            normContent = map (normalizeFuzzyLine nfkc) lins;
            oldLines = split_on CHR 0x0A
              (case cut_suffix [CHR 0x0A] oldText of Some s \<Rightarrow> s | None \<Rightarrow> oldText);
            normOld = map (normalizeFuzzyLine nfkc) oldLines
        in fuzzy_loop lins starts normContent normOld 0)"

section \<open>Whole-block deletions\<close>

definition countNewlinesBefore :: "string \<Rightarrow> nat \<Rightarrow> nat" where
  "countNewlinesBefore content at = length (takeWhile (\<lambda>c. c = CHR 0x0A) (rev (take at content)))"

definition countNewlinesAfter :: "string \<Rightarrow> nat \<Rightarrow> nat" where
  "countNewlinesAfter content at = length (takeWhile (\<lambda>c. c = CHR 0x0A) (drop at content))"

definition widenBlockDeletion :: "string \<Rightarrow> nat \<Rightarrow> nat \<Rightarrow> nat \<times> nat" where
  "widenBlockDeletion content start stop =
     (let left = countNewlinesBefore content start;
          right = countNewlinesAfter content stop;
          atBlockStart = (start = 0 \<or> left \<ge> 2);
          atBlockEnd = (stop = length content \<or> right \<ge> 2 \<or> stop + right = length content)
      in if \<not> atBlockStart \<or> \<not> atBlockEnd then (start, stop)
         else
           let want = (if right = 0 \<and> stop = length content then 1 else 2);
               want = (if want > left + right then left + right else want);
               fromLeft = min want left
           in (start - fromLeft, stop + (want - fromLeft)))"

section \<open>Resolving and applying\<close>

definition resolve_edit ::
    "(string \<Rightarrow> string) \<Rightarrow> string \<Rightarrow> nat \<Rightarrow> Edit \<Rightarrow> edit_error + span list" where
  "resolve_edit nfkc content i e =
     (let oldText = normalizeLF (OldText e)
      in if oldText = [] then Inl (EmptyOldText i)
         else
           let exact = exactMatches content oldText;
               matches = (if exact = [] then fuzzyMatches nfkc content oldText else exact)
           in if matches = [] then Inl (NoMatchError i)
              else if length matches > 1 \<and> \<not> ReplaceAll e
              then Inl (AmbiguousMatchError i (length matches))
              else
                let newText = normalizeLF (NewText e)
                in Inr (map (\<lambda>(start, stop).
                     let (start, stop) = (if newText = [] then widenBlockDeletion content start stop else (start, stop))
                     in \<lparr>span_start = start, span_end = stop, span_newText = newText, span_edit = i\<rparr>) matches))"

fun resolve_each ::
    "(string \<Rightarrow> string) \<Rightarrow> string \<Rightarrow> nat \<Rightarrow> Edit list \<Rightarrow> edit_error + span list" where
  "resolve_each nfkc content i [] = Inr []"
| "resolve_each nfkc content i (e # es) =
     (case resolve_edit nfkc content i e of
        Inl err \<Rightarrow> Inl err
      | Inr spans \<Rightarrow>
          (case resolve_each nfkc content (i + 1) es of
             Inl err \<Rightarrow> Inl err
           | Inr rest \<Rightarrow> Inr (spans @ rest)))"

fun find_overlap :: "span list \<Rightarrow> edit_error option" where
  "find_overlap (a # b # spans) =
     (if span_end a > span_start b then Some (OverlapError (span_edit a) (span_edit b))
      else find_overlap (b # spans))"
| "find_overlap spans = None"

definition resolveEdits :: "(string \<Rightarrow> string) \<Rightarrow> string \<Rightarrow> Edit list \<Rightarrow> edit_error + span list" where
  "resolveEdits nfkc content edits =
     (case resolve_each nfkc content 0 edits of
        Inl err \<Rightarrow> Inl err
      | Inr spans \<Rightarrow>
          let sorted_spans = sort_key (\<lambda>s. (span_start s, span_end s)) spans
          in (case find_overlap sorted_spans of
                Some err \<Rightarrow> Inl err
              | None \<Rightarrow> Inr sorted_spans))"

definition splice :: "span \<Rightarrow> string \<Rightarrow> string" where
  "splice s out = take (span_start s) out @ span_newText s @ drop (span_end s) out"

definition applyEdits :: "(string \<Rightarrow> string) \<Rightarrow> string \<Rightarrow> Edit list \<Rightarrow> edit_error + string" where
  "applyEdits nfkc content edits =
     (case resolveEdits nfkc content edits of
        Inl err \<Rightarrow> Inl err
      | Inr spans \<Rightarrow> Inr (foldr splice spans content))"


section \<open>Splicing\<close>

definition slice :: "string \<Rightarrow> nat \<Rightarrow> nat \<Rightarrow> string" where
  "slice s a b = take (b - a) (drop a s)"

text \<open>Spans in order, apart, and within the text from \<open>pos\<close> on.\<close>

fun spans_ok :: "nat \<Rightarrow> string \<Rightarrow> span list \<Rightarrow> bool" where
  "spans_ok pos content [] \<longleftrightarrow> pos \<le> length content"
| "spans_ok pos content (s # ss) \<longleftrightarrow>
     pos \<le> span_start s \<and> span_start s \<le> span_end s \<and> spans_ok (span_end s) content ss"

text \<open>The edited text read front to back: what is between the spans, and the replacements.\<close>

fun rewritten :: "nat \<Rightarrow> string \<Rightarrow> span list \<Rightarrow> string" where
  "rewritten pos content [] = drop pos content"
| "rewritten pos content (s # ss) =
     slice content pos (span_start s) @ span_newText s @ rewritten (span_end s) content ss"

lemma spans_ok_bound: "spans_ok pos content ss \<Longrightarrow> pos \<le> length content"
  by (induction pos content ss rule: spans_ok.induct) auto

lemma take_slice: "a \<le> b \<Longrightarrow> take a s @ slice s a b = take b s"
  by (metis le_add_diff_inverse slice_def take_add)

lemma splice_rewritten:
  "spans_ok pos content ss \<Longrightarrow> foldr splice ss content = take pos content @ rewritten pos content ss"
proof (induction pos content ss rule: spans_ok.induct)
  case (2 pos content s ss)
  let ?e = "span_end s" and ?b = "span_start s"
  have le: "pos \<le> ?b" "?b \<le> ?e" "?e \<le> length content"
    using "2.prems" spans_ok_bound by auto
  have IH: "foldr splice ss content = take ?e content @ rewritten ?e content ss" using 2 by simp
  have "foldr splice (s # ss) content = take ?b content @ span_newText s @ rewritten ?e content ss"
    using le IH by (simp add: splice_def min_absorb1)
  then show ?case using le by (simp flip: take_slice)
qed simp

section \<open>Exact matches\<close>

text \<open>Matches in order, apart, and within \<open>n\<close> bytes.\<close>

fun matches_ok :: "nat \<Rightarrow> nat \<Rightarrow> (nat \<times> nat) list \<Rightarrow> bool" where
  "matches_ok pos n [] \<longleftrightarrow> pos \<le> n"
| "matches_ok pos n (m # ms) \<longleftrightarrow> pos \<le> fst m \<and> fst m \<le> snd m \<and> matches_ok (snd m) n ms"

declare exact_from.simps [simp del]

lemma index_sub_fits:
  assumes "index_sub old s = Some i"
  shows "i + length old \<le> length s \<and> take (length old) (drop i s) = old"
proof -
  have p: "has_prefix old (drop i s)" using index_sub_Some [OF assms] by blast
  then obtain r where r: "drop i s = old @ r" by (auto simp: has_prefix_iff)
  then have "length s - i = length old + length r" by (metis length_append length_drop)
  moreover have "i \<le> length s"
    using index_sub_Some [OF assms] by blast
  ultimately show ?thesis using r by simp
qed

lemma exact_from_ok:
  "old \<noteq> [] \<Longrightarrow> content = pre @ s \<Longrightarrow> length pre = off \<Longrightarrow>
     matches_ok off (length content) (exact_from old off s) \<and>
     (\<forall>(a, b) \<in> set (exact_from old off s). slice content a b = old)"
proof (induction old off s arbitrary: pre rule: exact_from.induct)
  case (1 old off s)
  show ?case
  proof (cases "index_sub old s")
    case None
    with 1 show ?thesis by (simp add: exact_from.simps [of old off s])
  next
    case (Some i)
    note fits = index_sub_fits [OF Some]
    let ?m = "off + i" and ?n = "off + i + length old" and ?s = "drop (i + length old) s"
    let ?pre = "pre @ take (i + length old) s"
    have IH: "matches_ok ?n (length content) (exact_from old ?n ?s)"
      "\<forall>(a, b) \<in> set (exact_from old ?n ?s). slice content a b = old"
      using "1.IH" [OF Some "1.prems"(1), of ?pre] "1.prems" fits by simp_all
    have hit: "slice content ?m ?n = old" using "1.prems" fits by (simp add: slice_def)
    show ?thesis using Some "1.prems"(1) IH hit
      by (simp add: exact_from.simps [of old off s])
  qed
qed

lemma exact_from_complete:
  "old \<noteq> [] \<Longrightarrow> has_prefix old (drop p s) \<Longrightarrow>
     \<exists>(a, b) \<in> set (exact_from old off s). a \<le> off + p \<and> off + p < b"
proof (induction old off s arbitrary: p rule: exact_from.induct)
  case (1 old off s)
  obtain i where i: "i \<le> p" "index_sub old s = Some i" using index_sub_exists [OF "1.prems"] by blast
  let ?n = "off + i + length old" and ?s = "drop (i + length old) s"
  show ?case
  proof (cases "p < i + length old")
    case True
    with i "1.prems"(1) show ?thesis by (auto simp: exact_from.simps [of old off s])
  next
    case False
    then have "has_prefix old (drop (p - (i + length old)) ?s)" using "1.prems"(2) by simp
    with "1.IH" [OF i(2) "1.prems"(1) "1.prems"(1)] False
    have "\<exists>(a, b) \<in> set (exact_from old ?n ?s). a \<le> off + p \<and> off + p < b" by fastforce
    with i "1.prems"(1) show ?thesis by (auto simp: exact_from.simps [of old off s])
  qed
qed


section \<open>Line matches\<close>

declare fuzzy_loop.simps [simp del]

abbreviation NL :: char where "NL \<equiv> CHR 0x0A"

lemma join_Cons_NL: "ls \<noteq> [] \<Longrightarrow> join_with c (l # ls) = l @ c # join_with c ls"
  by (cases ls) simp_all

lemma line_starts_nth:
  "i < length ls \<Longrightarrow> line_starts off ls ! i = off + sum_list (map (\<lambda>l. length l + 1) (take i ls))"
  by (induction off ls arbitrary: i rule: line_starts.induct) (auto simp: nth_Cons' take_Cons')

lemma drop_join:
  "i < length ls \<Longrightarrow> drop (line_starts 0 ls ! i) (join_with c ls) = join_with c (drop i ls)"
proof (induction ls arbitrary: i)
  case (Cons l ls)
  show ?case
  proof (cases i)
    case (Suc k)
    with Cons.prems have k: "k < length ls" "ls \<noteq> []" by auto
    with Cons.IH [OF k(1)] Suc show ?thesis by (simp add: join_Cons_NL line_starts_nth)
  qed simp
qed simp

lemma length_join_take:
  "Suc n \<le> length ls \<Longrightarrow>
     length (join_with c (take (Suc n) ls)) = sum_list (map (\<lambda>l. length l + 1) (take n ls)) + length (ls ! n)"
proof (induction n arbitrary: ls)
  case 0
  then show ?case by (cases ls) simp_all
next
  case (Suc n)
  then obtain l ls' where ls: "ls = l # ls'" "Suc n \<le> length ls'" by (cases ls) auto
  then have "take (Suc n) ls' \<noteq> []" by auto
  with Suc.IH [OF ls(2)] ls(1) show ?case by (simp add: join_Cons_NL del: take_Suc)
qed

lemma take_join:
  assumes "0 < n" "n \<le> length ls"
  shows "take (length (join_with c (take n ls))) (join_with c ls) = join_with c (take n ls)"
proof (cases "drop n ls = []")
  case False
  have "take n ls \<noteq> []" using assms by auto
  then have "join_with c (take n ls @ drop n ls) = join_with c (take n ls) @ c # join_with c (drop n ls)"
    using False by (rule join_with_append)
  then show ?thesis by (metis append_eq_conv_conj append_take_drop_id)
qed (use assms in simp)

lemma line_block_slice:
  assumes "i + length old \<le> length ls" "old \<noteq> []"
  shows "slice (join_with c ls) (line_starts 0 ls ! i)
           (line_starts 0 ls ! (i + length old - 1) + length (ls ! (i + length old - 1)))
         = join_with c (take (length old) (drop i ls))"
    and "line_starts 0 ls ! i \<le> line_starts 0 ls ! (i + length old - 1) + length (ls ! (i + length old - 1))"
proof -
  obtain n where n: "length old = Suc n" using assms(2) by (cases old) auto
  have i: "i < length ls" "i + n < length ls" using assms(1) n by auto
  have tk: "take (i + n) ls = take i ls @ take n (drop i ls)" by (rule take_add)
  have len: "length (join_with c (take (Suc n) (drop i ls))) =
      line_starts 0 ls ! (i + n) + length (ls ! (i + n)) - line_starts 0 ls ! i"
    using length_join_take [of n "drop i ls" c] i assms(1) n
    by (simp add: line_starts_nth tk)
  show "slice (join_with c ls) (line_starts 0 ls ! i)
           (line_starts 0 ls ! (i + length old - 1) + length (ls ! (i + length old - 1)))
         = join_with c (take (length old) (drop i ls))"
    using take_join [of "Suc n" "drop i ls" c] drop_join [OF i(1), of c] len n assms(1)
    by (simp add: slice_def)
  show "line_starts 0 ls ! i \<le> line_starts 0 ls ! (i + length old - 1) + length (ls ! (i + length old - 1))"
    using i n by (simp add: line_starts_nth tk)
qed

text \<open>Where the line \<open>i\<close> starts, the end of the text past the last line.\<close>

definition line_at :: "string list \<Rightarrow> nat \<Rightarrow> nat" where
  "line_at ls i = (if i < length ls then line_starts 0 ls ! i else length (join_with NL ls))"

lemma line_at_steps:
  assumes "i < length ls"
  shows "line_at ls i \<le> length (join_with NL ls)"
    and "line_starts 0 ls ! i + length (ls ! i) \<le> line_at ls (i + 1)"
    and "line_at ls i \<le> line_at ls (i + 1)"
proof -
  have tot: "length (join_with NL ls) = line_starts 0 ls ! (length ls - 1) + length (ls ! (length ls - 1))"
    using length_join_take [of "length ls - 1" ls NL] assms by (simp add: line_starts_nth)
  have nxt: "line_starts 0 ls ! (i + 1) = line_starts 0 ls ! i + length (ls ! i) + 1" if "i + 1 < length ls"
    using that by (simp add: line_starts_nth take_Suc_conv_app_nth)
  show b: "line_starts 0 ls ! i + length (ls ! i) \<le> line_at ls (i + 1)"
    using assms tot nxt by (auto simp: line_at_def not_less le_Suc_eq Suc_le_eq)
  show "line_at ls i \<le> line_at ls (i + 1)" using b assms by (simp add: line_at_def)
  have "i \<le> length ls - 1" using assms by simp
  then have "sum_list (map (\<lambda>l. length l + 1) (take i ls)) \<le> sum_list (map (\<lambda>l. length l + 1) (take (length ls - 1) ls))"
    by (metis le_add1 le_add_diff_inverse map_append sum_list_append take_add)
  then show "line_at ls i \<le> length (join_with NL ls)" using assms tot by (simp add: line_at_def line_starts_nth)
qed


lemma line_at_bound: "line_at ls i \<le> length (join_with NL ls)"
  using line_at_steps(1) by (cases "i < length ls") (simp_all add: line_at_def)

lemma fuzzy_loop_ok:
  "nc = map f ls \<Longrightarrow> sts = line_starts 0 ls \<Longrightarrow> \<forall>l \<in> set ls. NL \<notin> set l \<Longrightarrow> pos \<le> line_at ls i \<Longrightarrow>
     matches_ok pos (length (join_with NL ls)) (fuzzy_loop ls sts nc old i) \<and>
     (\<forall>(a, b) \<in> set (fuzzy_loop ls sts nc old i).
        map f (split_on NL (slice (join_with NL ls) a b)) = old)"
proof (induction ls sts nc old i arbitrary: pos rule: fuzzy_loop.induct)
  case (1 ls sts nc old i)
  let ?L = "fuzzy_loop ls sts nc old"
  show ?case
  proof (cases "old \<noteq> [] \<and> i + length old \<le> length nc")
    case False
    then have "?L i = []" by (auto simp add: fuzzy_loop.simps [of ls sts nc old i])
    with "1.prems"(4) line_at_bound [of ls i] show ?thesis by simp
  next
    case in_range: True
    then have i: "i < length ls" using "1.prems"(1) by (cases old) auto
    show ?thesis
    proof (cases "take (length old) (drop i nc) = old")
      case False
      have "pos \<le> line_at ls (i + 1)" using "1.prems"(4) line_at_steps(3) [OF i] by simp
      moreover have "?L i = ?L (i + 1)" using in_range False by (simp add: fuzzy_loop.simps [of ls sts nc old i])
      ultimately show ?thesis using "1.IH"(1) [OF in_range False "1.prems"(1-3), of pos] by simp
    next
      case True
      let ?l = "i + length old - 1"
      let ?b = "sts ! ?l + length (ls ! ?l)"
      have fits: "i + length old \<le> length ls" "old \<noteq> []" "?l < length ls"
        using in_range "1.prems"(1) by (cases old; simp)+
      have L: "?L i = (sts ! i, ?b) # ?L (?l + 1)"
        using in_range True by (simp add: fuzzy_loop.simps [of ls sts nc old i] Let_def)
      have nxt: "?b \<le> line_at ls (?l + 1)" using line_at_steps(2) [OF fits(3)] "1.prems"(2) by simp
      have IH: "matches_ok ?b (length (join_with NL ls)) (?L (?l + 1))"
        "\<forall>(a, b) \<in> set (?L (?l + 1)). map f (split_on NL (slice (join_with NL ls) a b)) = old"
        using "1.IH"(2) [OF in_range _ refl "1.prems"(1-3) nxt] True by auto
      have here: "map f (split_on NL (slice (join_with NL ls) (sts ! i) ?b)) = old"
      proof -
        have "split_on NL (join_with NL (take (length old) (drop i ls))) = take (length old) (drop i ls)"
          using fits i "1.prems"(3) by (intro split_on_join) (auto dest: in_set_takeD in_set_dropD)
        with True "1.prems"(1,2) line_block_slice(1) [OF fits(1,2), of NL] show ?thesis
          by (simp add: take_map drop_map)
      qed
      have "pos \<le> sts ! i" using "1.prems"(2,4) i by (simp add: line_at_def)
      moreover have "sts ! i \<le> ?b" using line_block_slice(2) [OF fits(1,2)] "1.prems"(2) by simp
      ultimately show ?thesis using L IH here by simp
    qed
  qed
qed

definition old_lines :: "string \<Rightarrow> string list" where
  "old_lines oldText = split_on NL (case cut_suffix [NL] oldText of Some s \<Rightarrow> s | None \<Rightarrow> oldText)"

lemma fuzzyMatches_ok:
  "matches_ok 0 (length content) (fuzzyMatches nfkc content old) \<and>
   (\<forall>(a, b) \<in> set (fuzzyMatches nfkc content old).
      map (normalizeFuzzyLine nfkc) (split_on NL (slice content a b)) = map (normalizeFuzzyLine nfkc) (old_lines old))"
proof (cases "isBlank old")
  case False
  let ?ls = "split_on NL content"
  have "join_with NL ?ls = content" "\<forall>l \<in> set ?ls. NL \<notin> set l"
    by (auto simp: join_split_on dest: split_on_no_sep)
  with fuzzy_loop_ok [OF refl refl, of ?ls 0 0 "normalizeFuzzyLine nfkc" "map (normalizeFuzzyLine nfkc) (old_lines old)"] False
  show ?thesis by (simp add: fuzzyMatches_def Let_def old_lines_def)
qed (simp add: fuzzyMatches_def)

lemma exactMatches_ok:
  assumes "old \<noteq> []"
  shows "matches_ok 0 (length content) (exactMatches content old)"
    and "\<forall>(a, b) \<in> set (exactMatches content old). slice content a b = old"
    and "has_prefix old (drop p content) \<Longrightarrow> \<exists>(a, b) \<in> set (exactMatches content old). a \<le> p \<and> p < b"
  using exact_from_ok [OF assms, of content "[]" content 0] exact_from_complete [OF assms, of p content 0]
  by (simp_all add: exactMatches_def)

section \<open>Widening\<close>

lemma takeWhile_same: "takeWhile (\<lambda>c. c = x) s = replicate (length (takeWhile (\<lambda>c. c = x) s)) x"
  by (induction s) simp_all

lemma newlines_before:
  "slice content (at - countNewlinesBefore content at) at = replicate (countNewlinesBefore content at) NL"
  if "at \<le> length content"
proof -
  let ?w = "takeWhile (\<lambda>c. c = NL) (rev (take at content))" and ?d = "dropWhile (\<lambda>c. c = NL) (rev (take at content))"
  have w: "?w = replicate (length ?w) NL" by (rule takeWhile_same)
  have tk: "take at content = rev ?d @ rev ?w" by (metis rev_append rev_rev_ident takeWhile_dropWhile_id)
  have len: "length (rev ?d) = at - length ?w" using arg_cong [OF tk, of length] that by simp
  have "slice content (at - length ?w) at = drop (at - length ?w) (take at content)"
    by (simp add: slice_def drop_take)
  also have "\<dots> = rev ?w" using tk len by (metis append_eq_conv_conj)
  finally show ?thesis using w by (metis countNewlinesBefore_def rev_replicate)
qed

lemma newlines_after:
  "slice content at (at + countNewlinesAfter content at) = replicate (countNewlinesAfter content at) NL"
proof -
  let ?w = "takeWhile (\<lambda>c. c = NL) (drop at content)"
  have "?w = replicate (length ?w) NL" by (rule takeWhile_same)
  moreover have "take (length ?w) (drop at content) = ?w" by (metis takeWhile_eq_take)
  ultimately show ?thesis by (simp add: slice_def countNewlinesAfter_def)
qed


lemma slice_sub_replicate:
  assumes "slice s a c = replicate (c - a) x" "a \<le> b" "b \<le> c"
  shows "slice s b c = replicate (c - b) x" and "slice s a b = replicate (b - a) x"
proof -
  have "slice s b c = drop (b - a) (slice s a c)" using assms(2,3) by (simp add: slice_def drop_take)
  then show "slice s b c = replicate (c - b) x" using assms by (simp only: assms(1) drop_replicate) simp
  have "slice s a b = take (b - a) (slice s a c)" using assms(2,3) by (simp add: slice_def)
  then show "slice s a b = replicate (b - a) x" using assms by simp
qed

lemma countNewlinesBefore_le: "countNewlinesBefore content at \<le> at"
  unfolding countNewlinesBefore_def
  by (rule order.trans [OF length_takeWhile_le]) simp

lemma countNewlinesAfter_le: "at \<le> length content \<Longrightarrow> at + countNewlinesAfter content at \<le> length content"
  unfolding countNewlinesAfter_def using length_takeWhile_le [of "\<lambda>c. c = NL" "drop at content"] by simp

lemma widen_ok:
  assumes "widenBlockDeletion content start stop = (a, b)" "start \<le> length content" "stop \<le> length content"
  shows "a \<le> start" "stop \<le> b" "b \<le> length content" "(start - a) + (b - stop) \<le> 2"
    "slice content a start = replicate (start - a) NL" "slice content stop b = replicate (b - stop) NL"
proof -
  let ?l = "countNewlinesBefore content start" and ?r = "countNewlinesAfter content stop"
  obtain x y where xy: "a = start - x" "b = stop + y" "x \<le> ?l" "y \<le> ?r" "x + y \<le> 2"
  proof (cases "(start = 0 \<or> ?l \<ge> 2) \<and> (stop = length content \<or> ?r \<ge> 2 \<or> stop + ?r = length content)")
    case False
    then show ?thesis using assms(1) that [of 0 0] by (auto simp: widenBlockDeletion_def Let_def split: if_splits)
  next
    case True
    define want where "want = (let w = (if ?r = 0 \<and> stop = length content then 1 else 2) in if w > ?l + ?r then ?l + ?r else w)"
    have "want \<le> 2" "want \<le> ?l + ?r" by (auto simp: want_def Let_def)
    moreover have "(a, b) = (start - min want ?l, stop + (want - min want ?l))"
      using assms(1) True unfolding widenBlockDeletion_def want_def Let_def by auto
    ultimately show ?thesis using that [of "min want ?l" "want - min want ?l"] by auto
  qed
  note le = countNewlinesBefore_le [of content start] countNewlinesAfter_le [OF assms(3)]
  show "a \<le> start" "stop \<le> b" "b \<le> length content" "(start - a) + (b - stop) \<le> 2" using xy le by auto
  show "slice content a start = replicate (start - a) NL"
    using slice_sub_replicate(1) [of content "start - ?l" start NL a] newlines_before [OF assms(2)] xy le by simp
  show "slice content stop b = replicate (b - stop) NL"
    using slice_sub_replicate(2) [of content stop "stop + ?r" NL b] newlines_after [of content stop] xy by simp
qed

section \<open>What a resolved span is\<close>

text \<open>The text an edit quotes is there: as it is, or line by line after folding.\<close>

definition quoted :: "(string \<Rightarrow> string) \<Rightarrow> string \<Rightarrow> Edit \<Rightarrow> nat \<Rightarrow> nat \<Rightarrow> bool" where
  "quoted nfkc content e a b \<longleftrightarrow>
     slice content a b = normalizeLF (OldText e) \<or>
     map (normalizeFuzzyLine nfkc) (split_on NL (slice content a b)) =
       map (normalizeFuzzyLine nfkc) (old_lines (normalizeLF (OldText e)))"

definition all_newlines :: "string \<Rightarrow> bool" where
  "all_newlines s \<longleftrightarrow> list_all (\<lambda>c. c = NL) s"

definition span_of :: "(string \<Rightarrow> string) \<Rightarrow> string \<Rightarrow> nat \<Rightarrow> Edit \<Rightarrow> span \<Rightarrow> bool" where
  "span_of nfkc content i e s \<longleftrightarrow>
     span_edit s = i \<and> span_newText s = normalizeLF (NewText e) \<and>
     (\<exists>a b. quoted nfkc content e a b \<and>
        span_start s \<le> a \<and> a \<le> b \<and> b \<le> span_end s \<and> span_end s \<le> length content \<and>
        all_newlines (slice content (span_start s) a) \<and> all_newlines (slice content b (span_end s)) \<and>
        (span_start s, span_end s) = (if span_newText s = [] then widenBlockDeletion content a b else (a, b)))"

lemma matches_ok_mem: "matches_ok pos n ms \<Longrightarrow> (a, b) \<in> set ms \<Longrightarrow> a \<le> b \<and> b \<le> n"
proof (induction pos n ms rule: matches_ok.induct)
  case (2 pos n m ms)
  have "matches_ok p n ms \<Longrightarrow> p \<le> n" for p ms
    by (induction p n ms rule: matches_ok.induct) auto
  with 2 show ?case by auto
qed simp

lemma resolve_edit_spans:
  assumes "resolve_edit nfkc content i e = Inr spans"
  shows "spans \<noteq> []" "s \<in> set spans \<Longrightarrow> span_of nfkc content i e s"
proof -
  let ?old = "normalizeLF (OldText e)" and ?new = "normalizeLF (NewText e)"
  define ms where "ms = (if exactMatches content ?old = [] then fuzzyMatches nfkc content ?old else exactMatches content ?old)"
  define widened where "widened = (\<lambda>(start, stop). if ?new = [] then widenBlockDeletion content start stop else (start, stop))"
  have old: "?old \<noteq> []" and ms: "ms \<noteq> []" and
    sp: "spans = map (\<lambda>m. \<lparr>span_start = fst (widened m), span_end = snd (widened m), span_newText = ?new, span_edit = i\<rparr>) ms"
    using assms unfolding resolve_edit_def Let_def ms_def [symmetric] widened_def
    by (auto split: if_splits prod.splits simp: fun_eq_iff)
  show "spans \<noteq> []" using sp ms by simp
  assume "s \<in> set spans"
  then obtain a b where ab: "(a, b) \<in> set ms"
    and s: "s = \<lparr>span_start = fst (widened (a, b)), span_end = snd (widened (a, b)), span_newText = ?new, span_edit = i\<rparr>"
    using sp by auto
  have q: "a \<le> b \<and> b \<le> length content \<and> quoted nfkc content e a b"
    using ab matches_ok_mem exactMatches_ok(1,2) [OF old, of content] fuzzyMatches_ok [of content nfkc ?old]
    by (auto simp: ms_def quoted_def split: if_splits)
  obtain a' b' where w: "widenBlockDeletion content a b = (a', b')" by fastforce
  have "a \<le> length content" using q by simp
  note wide = widen_ok [OF w this] 
  show "span_of nfkc content i e s"
    unfolding span_of_def using s q w wide
    by (intro conjI exI [of _ a] exI [of _ b]) (auto simp: widened_def all_newlines_def list_all_iff slice_def)
qed


lemma resolve_each_spans:
  "resolve_each nfkc content i es = Inr spans \<Longrightarrow>
     (\<forall>s \<in> set spans. \<exists>j < length es. span_of nfkc content (i + j) (es ! j) s) \<and>
     (\<forall>j < length es. \<exists>s \<in> set spans. span_edit s = i + j)"
proof (induction nfkc content i es arbitrary: spans rule: resolve_each.induct)
  case (2 nfkc content i e es)
  then obtain ss rest where ss: "resolve_edit nfkc content i e = Inr ss"
    and rest: "resolve_each nfkc content (i + 1) es = Inr rest" and sp: "spans = ss @ rest"
    by (auto split: sum.splits)
  note IH = "2.IH" [OF ss rest]
  have "\<exists>j < length (e # es). span_of nfkc content (i + j) ((e # es) ! j) s" if "s \<in> set spans" for s
  proof (cases "s \<in> set ss")
    case True
    with resolve_edit_spans(2) [OF ss] show ?thesis by (intro exI [of _ 0]) simp
  next
    case False
    with that sp IH obtain j where "j < length es" "span_of nfkc content (i + 1 + j) (es ! j) s" by auto
    then show ?thesis by (intro exI [of _ "Suc j"]) simp
  qed
  moreover have "\<exists>s \<in> set spans. span_edit s = i + j" if "j < length (e # es)" for j
  proof (cases j)
    case 0
    obtain s where "s \<in> set ss" using resolve_edit_spans(1) [OF ss] by (cases ss) auto
    with resolve_edit_spans(2) [OF ss] sp 0 show ?thesis by (auto simp: span_of_def)
  next
    case (Suc k)
    with that IH have "\<exists>s \<in> set rest. span_edit s = i + 1 + k" by simp
    with sp Suc show ?thesis by auto
  qed
  ultimately show ?case by blast
qed simp

lemma span_of_bounds: "span_of nfkc content i e s \<Longrightarrow> span_start s \<le> span_end s \<and> span_end s \<le> length content"
  unfolding span_of_def by (elim conjE exE) simp

lemma find_overlap_None:
  "find_overlap ss = None \<Longrightarrow> \<forall>s \<in> set ss. span_start s \<le> span_end s \<and> span_end s \<le> length content \<Longrightarrow>
     ss = [] \<or> pos \<le> span_start (hd ss) \<Longrightarrow> pos \<le> length content \<Longrightarrow> spans_ok pos content ss"
  by (induction ss arbitrary: pos rule: find_overlap.induct) (auto split: if_splits)

lemma resolveEdits_spans:
  assumes "resolveEdits nfkc content edits = Inr spans"
  shows "spans_ok 0 content spans"
    "\<forall>s \<in> set spans. \<exists>j < length edits. span_of nfkc content j (edits ! j) s"
    "\<forall>j < length edits. \<exists>s \<in> set spans. span_edit s = j"
proof -
  obtain raw where raw: "resolve_each nfkc content 0 edits = Inr raw"
    and sp: "spans = sort_key (\<lambda>s. (span_start s, span_end s)) raw" and no: "find_overlap spans = None"
    using assms by (auto simp: resolveEdits_def Let_def split: sum.splits option.splits)
  have set_eq: "set spans = set raw" by (simp add: sp)
  show of_edit: "\<forall>s \<in> set spans. \<exists>j < length edits. span_of nfkc content j (edits ! j) s"
    and "\<forall>j < length edits. \<exists>s \<in> set spans. span_edit s = j"
    using resolve_each_spans [OF raw] unfolding set_eq by simp_all
  have "\<forall>s \<in> set spans. span_start s \<le> span_end s \<and> span_end s \<le> length content"
    using of_edit span_of_bounds by blast
  with find_overlap_None [OF no] show "spans_ok 0 content spans" by blast
qed

text \<open>
  Exact matches are the leftmost non-overlapping occurrences: for a pattern that is not empty
  they come in order and apart, each is the pattern, and every occurrence of the pattern in the text
  shares a byte with one of them, so that none is reported only when the pattern does not occur.
\<close>

theorem exactMatches_spec:
  assumes "oldText \<noteq> []"
  shows "matches_ok 0 (length content) (exactMatches content oldText) \<and>
    (\<forall>(a, b) \<in> set (exactMatches content oldText). slice content a b = oldText) \<and>
    (\<forall>p. has_prefix oldText (drop p content) \<longrightarrow>
       (\<exists>(a, b) \<in> set (exactMatches content oldText). a \<le> p \<and> p < b))"
  by (intro conjI allI impI exactMatches_ok [OF assms])

theorem exactMatches_spec_witness:
  "exactMatches ''aaaba'' ''aa'' = [(0, 2)] \<and> slice ''aaaba'' 0 2 = ''aa'' \<and>
   (\<exists>(a, b) \<in> set (exactMatches ''aaaba'' ''aa''). a \<le> 1 \<and> 1 < b)"
proof -
  have e: "exactMatches ''aaaba'' ''aa'' = [(0, 2)]" by code_simp
  have "has_prefix ''aa'' (drop 1 ''aaaba'')" by code_simp
  with exactMatches_spec [of "''aa''" "''aaaba''"] e show ?thesis by auto
qed

text \<open>
  C14. An edit that goes through changes what it quotes and nothing else. The result is the
  original text with the resolved spans replaced, read front to back although the code splices back
  to front; the spans are in order, apart and within the text; every edit has one; and each is where
  its edit's text is quoted, exactly or line by line after folding, widened by nothing but newlines,
  and only when the replacement is empty.
\<close>

theorem applyEdits_correct:
  assumes "applyEdits nfkc content edits = Inr out"
  shows "\<exists>spans. spans_ok 0 content spans \<and> out = rewritten 0 content spans \<and>
    (\<forall>s \<in> set spans. \<exists>j < length edits. span_of nfkc content j (edits ! j) s) \<and>
    (\<forall>j < length edits. \<exists>s \<in> set spans. span_edit s = j)"
proof -
  obtain spans where sp: "resolveEdits nfkc content edits = Inr spans" and out: "out = foldr splice spans content"
    using assms by (auto simp: applyEdits_def split: sum.splits)
  have "out = rewritten 0 content spans" using splice_rewritten [OF resolveEdits_spans(1) [OF sp]] out by simp
  with resolveEdits_spans [OF sp] show ?thesis by blast
qed

theorem applyEdits_correct_witness:
  "\<exists>spans. spans_ok 0 ''one two'' spans \<and> ''1 2!'' = rewritten 0 ''one two'' spans \<and>
    (\<forall>j < 2. \<exists>s \<in> set spans. span_edit s = j)"
proof -
  let ?edits = "[\<lparr>OldText = ''two'', NewText = ''2!'', ReplaceAll = False\<rparr>,
    \<lparr>OldText = ''one'', NewText = ''1'', ReplaceAll = True\<rparr>]"
  have "applyEdits (\<lambda>s. s) ''one two'' ?edits = Inr ''1 2!''" by code_simp
  from applyEdits_correct [OF this] show ?thesis by (simp add: numeral_2_eq_2) blast
qed

section \<open>Errors\<close>

text \<open>What each error says of the edits it names.\<close>

definition edit_matches :: "(string \<Rightarrow> string) \<Rightarrow> string \<Rightarrow> Edit \<Rightarrow> (nat \<times> nat) list" where
  "edit_matches nfkc content e =
     (let oldText = normalizeLF (OldText e); exact = exactMatches content oldText
      in if exact = [] then fuzzyMatches nfkc content oldText else exact)"

fun justified :: "(string \<Rightarrow> string) \<Rightarrow> string \<Rightarrow> Edit list \<Rightarrow> edit_error \<Rightarrow> bool" where
  "justified nfkc content es (EmptyOldText i) \<longleftrightarrow> i < length es \<and> OldText (es ! i) = []"
| "justified nfkc content es (NoMatchError i) \<longleftrightarrow>
     i < length es \<and> \<not> sublist (normalizeLF (OldText (es ! i))) content \<and>
     fuzzyMatches nfkc content (normalizeLF (OldText (es ! i))) = []"
| "justified nfkc content es (AmbiguousMatchError i n) \<longleftrightarrow>
     i < length es \<and> \<not> ReplaceAll (es ! i) \<and> n = length (edit_matches nfkc content (es ! i)) \<and> 2 \<le> n"
| "justified nfkc content es (OverlapError i j) \<longleftrightarrow>
     i < length es \<and> j < length es \<and>
     (\<exists>s t. span_of nfkc content i (es ! i) s \<and> span_of nfkc content j (es ! j) t \<and>
        span_start s \<le> span_start t \<and> span_start t < span_end s)"


lemma normalizeLF_Nil: "normalizeLF s = [] \<longleftrightarrow> s = []"
  by (induction s rule: replace_crlf.induct) (simp_all add: normalizeLF_def replace_byte_def)

lemma sublist_iff_prefix: "sublist old s \<longleftrightarrow> (\<exists>p. has_prefix old (drop p s))"
proof
  assume "sublist old s"
  then obtain xs ys where "s = xs @ old @ ys" by (auto simp: sublist_def)
  then have "has_prefix old (drop (length xs) s)" by simp
  then show "\<exists>p. has_prefix old (drop p s)" ..
next
  assume "\<exists>p. has_prefix old (drop p s)"
  then show "sublist old s" by (metis append_take_drop_id has_prefix_iff sublist_def)
qed

lemma resolve_edit_error:
  assumes "resolve_edit nfkc content i (es ! i) = Inl err" "i < length es"
  shows "justified nfkc content es err"
proof -
  let ?old = "normalizeLF (OldText (es ! i))" and ?ms = "edit_matches nfkc content (es ! i)"
  have r: "resolve_edit nfkc content i (es ! i) =
      (if ?old = [] then Inl (EmptyOldText i)
       else if ?ms = [] then Inl (NoMatchError i)
       else if length ?ms > 1 \<and> \<not> ReplaceAll (es ! i) then Inl (AmbiguousMatchError i (length ?ms))
       else resolve_edit nfkc content i (es ! i))"
    by (simp add: resolve_edit_def edit_matches_def Let_def)
  show ?thesis
  proof (cases "?old = []")
    case True
    with r assms show ?thesis by (simp add: normalizeLF_Nil)
  next
    case old: False
    show ?thesis
    proof (cases "?ms = []")
      case True
      then have "exactMatches content ?old = [] \<and> fuzzyMatches nfkc content ?old = []"
        by (simp add: edit_matches_def Let_def split: if_splits)
      moreover from this have "\<not> sublist ?old content"
        using exactMatches_ok(3) [OF old, of _ content] by (auto simp: sublist_iff_prefix)
      ultimately show ?thesis using r old True assms by simp
    next
      case False
      then have "err = AmbiguousMatchError i (length ?ms)" "length ?ms > 1" "\<not> ReplaceAll (es ! i)"
        using assms(1) old by (auto simp: resolve_edit_def edit_matches_def Let_def split: if_splits)
      with assms show ?thesis by simp
    qed
  qed
qed

lemma resolve_each_error:
  "resolve_each nfkc content i rest = Inl err \<Longrightarrow> es = pre @ rest \<Longrightarrow> length pre = i \<Longrightarrow>
     justified nfkc content es err"
proof (induction nfkc content i rest arbitrary: pre rule: resolve_each.induct)
  case (2 nfkc content i e rest)
  show ?case
  proof (cases "resolve_edit nfkc content i e")
    case (Inl x)
    with 2 have "err = x" "es ! i = e" "i < length es" by auto
    with Inl resolve_edit_error [of nfkc content i es err] show ?thesis by simp
  next
    case (Inr ss)
    with "2.prems" have "resolve_each nfkc content (i + 1) rest = Inl err" by (simp split: sum.splits)
    from "2.IH" [OF Inr this, of "pre @ [e]"] "2.prems" show ?thesis by simp
  qed
qed simp

lemma find_overlap_Some:
  "find_overlap ss = Some err \<Longrightarrow> sorted (map (\<lambda>s. (span_start s, span_end s)) ss) \<Longrightarrow>
     \<exists>a \<in> set ss. \<exists>b \<in> set ss. err = OverlapError (span_edit a) (span_edit b) \<and>
       span_start a \<le> span_start b \<and> span_start b < span_end a"
proof (induction ss rule: find_overlap.induct)
  case (1 a b spans)
  show ?case
  proof (cases "span_end a > span_start b")
    case True
    with "1.prems" have "err = OverlapError (span_edit a) (span_edit b)" "span_start a \<le> span_start b" by auto
    with True show ?thesis by auto
  next
    case False
    with 1 show ?thesis by auto
  qed
qed simp_all

lemma applyEdits_error_justified:
  assumes "applyEdits nfkc content edits = Inl err"
  shows "justified nfkc content edits err"
proof (cases "resolve_each nfkc content 0 edits")
  case (Inl x)
  with assms have "x = err" by (simp add: applyEdits_def resolveEdits_def)
  with Inl resolve_each_error [of nfkc content 0 edits err edits "[]"] show ?thesis by simp
next
  case (Inr raw)
  let ?ss = "sort_key (\<lambda>s. (span_start s, span_end s)) raw"
  from assms Inr have "find_overlap ?ss = Some err"
    by (simp add: applyEdits_def resolveEdits_def Let_def split: option.splits)
  then obtain a b where ab: "a \<in> set raw" "b \<in> set raw" "err = OverlapError (span_edit a) (span_edit b)"
    "span_start a \<le> span_start b" "span_start b < span_end a"
    using find_overlap_Some [of ?ss err] by auto
  then obtain i j where "i < length edits" "span_of nfkc content i (edits ! i) a"
    "j < length edits" "span_of nfkc content j (edits ! j) b"
    using resolve_each_spans [OF Inr] by (metis add_0)
  moreover from this have "span_edit a = i" "span_edit b = j" by (simp_all add: span_of_def)
  ultimately show ?thesis using ab by auto
qed

text \<open>
  An edit is refused only for the reason the error names: an empty quotation; a quotation that
  occurs nowhere in the document, neither as it is nor line by line after folding; one that was to
  be unique and matches as many times, twice or more, as the error counts; or two edits whose matched
  regions overlap. No edit is applied then: an error carries no text.
\<close>

theorem applyEdits_refusal:
  assumes "applyEdits nfkc content edits = Inl err"
  shows "justified nfkc content edits err"
  by (rule applyEdits_error_justified [OF assms])

theorem applyEdits_refusal_witness:
  "justified (\<lambda>s. s) ''abab'' [\<lparr>OldText = ''ab'', NewText = [], ReplaceAll = False\<rparr>] (AmbiguousMatchError 0 2)"
proof -
  have "applyEdits (\<lambda>s. s) ''abab'' [\<lparr>OldText = ''ab'', NewText = [], ReplaceAll = False\<rparr>] =
      Inl (AmbiguousMatchError 0 2)" by code_simp
  from applyEdits_refusal [OF this] show ?thesis .
qed

end
