(* ===== verification/MarkdownDelete.thy ===== *)
theory MarkdownDelete
  imports MarkdownMatch
begin

text \<open>
  Where the block codec and the targeted edits meet: an edit that deletes the text of a whole block
  of a rendered document, which \<open>widenBlockDeletion\<close> (src/internal/markdown/match.go)
  widens by the separator, read back with \<open>Split\<close>.
\<close>

section \<open>Deleting a whole block\<close>

text \<open>\<open>Join\<close> around a block: the text before the blank lines that lead to it, and their number.\<close>

fun head_text :: "nat \<Rightarrow> string list \<Rightarrow> string" where
  "head_text gap [] = []"
| "head_text gap (b # bs) =
     (if b = [] then head_text (gap + 1) bs else [NL, NL] @ replicate gap NL @ b @ head_text 0 bs)"

fun run_after :: "nat \<Rightarrow> string list \<Rightarrow> nat" where
  "run_after gap [] = gap"
| "run_after gap (b # bs) = (if b = [] then run_after (gap + 1) bs else run_after 0 bs)"

lemma join_tail_append:
  "join_tail gap (us @ ys) = head_text gap us @ join_tail (run_after gap us) ys"
  by (induction gap us rule: head_text.induct) auto

lemma join_tail_block: "b \<noteq> [] \<Longrightarrow> join_tail k (b # ys) = replicate (2 + k) NL @ b @ join_tail 0 ys"
  by (simp add: numeral_2_eq_2)

lemma join_tail_run:
  "join_tail k (replicate m [] @ ys) = join_tail (k + m) ys"
  by (rule join_tail_empties)

lemma Join_lead:
  "c \<noteq> [] \<Longrightarrow> Join (replicate f [] @ c # bs) = replicate f NL @ c @ join_tail 0 bs"
proof -
  assume c: "c \<noteq> []"
  then have "takeWhile (\<lambda>b. b = []) (replicate f [] @ c # bs) = replicate f []" by (induction f) simp_all
  then show ?thesis by (simp add: Join_def nth_append)
qed

lemma leading_empties:
  "(\<exists>m. bs = replicate m []) \<or> (\<exists>m c cs. bs = replicate m [] @ c # cs \<and> c \<noteq> [])"
proof (induction bs)
  case (Cons b bs)
  show ?case
  proof (cases "b = []")
    case True
    from Cons show ?thesis
    proof
      assume "\<exists>m. bs = replicate m []"
      with True show ?thesis by (metis replicate_Suc)
    next
      assume "\<exists>m c cs. bs = replicate m [] @ c # cs \<and> c \<noteq> []"
      with True show ?thesis by (metis append_Cons replicate_Suc)
    qed
  next
    case False
    then show ?thesis by (metis append_Nil replicate_0)
  qed
qed simp

lemma takeWhile_run: "takeWhile (\<lambda>c. c = x) (replicate n x @ s) = replicate n x @ takeWhile (\<lambda>c. c = x) s"
  by (induction n) simp_all

text \<open>The widened deletion of a text set off by runs of newlines.\<close>

lemma widen_text:
  assumes content: "content = A @ replicate L NL @ b @ replicate R NL @ Q"
    and A: "A = [] \<or> last A \<noteq> NL" and Q: "Q = [] \<or> hd Q \<noteq> NL"
    and edge: "A = [] \<and> L = 0 \<or> 2 \<le> L" "Q = [] \<or> 2 \<le> R"
    and start: "start = length A + L" and stop: "stop = start + length b"
    and want: "want = min (if R = 0 \<and> Q = [] then 1 else 2) (L + R)"
    and w: "widenBlockDeletion content start stop = (s, e)"
  shows "take s content @ drop e content = A @ replicate (L + R - want) NL @ Q"
proof -
  have "rev (take start content) = replicate L NL @ rev A" by (simp add: content start)
  moreover have "takeWhile (\<lambda>c. c = NL) (rev A) = []" using A by (cases A rule: rev_cases) auto
  ultimately have left: "countNewlinesBefore content start = L"
    by (simp add: countNewlinesBefore_def takeWhile_run)
  have dr: "drop stop content = replicate R NL @ Q" by (simp add: content start stop)
  have "takeWhile (\<lambda>c. c = NL) Q = []" using Q by (cases Q) auto
  with dr have right: "countNewlinesAfter content stop = R"
    by (simp add: countNewlinesAfter_def takeWhile_run)
  have len: "length content = stop + R + length Q" by (simp add: content start stop)
  have g1: "start = 0 \<or> L \<ge> 2" and g2: "stop = length content \<or> R \<ge> 2 \<or> stop + R = length content"
    using edge start len by auto
  have g3: "R = 0 \<and> stop = length content \<longleftrightarrow> R = 0 \<and> Q = []" using len by auto
  have g4: "(if (if R = 0 \<and> Q = [] then 1 else 2) > L + R then L + R else if R = 0 \<and> Q = [] then 1 else 2) = want"
    by (auto simp: want)
  have "(s, e) = (start - min want L, stop + (want - min want L))"
    using w unfolding widenBlockDeletion_def left right Let_def
    by (simp only: g1 g2 g3 g4 simp_thms if_False)
  then have se: "s = start - min want L" "e = stop + (want - min want L)" by simp_all
  have "want \<le> L + R" by (simp add: want)
  then have n: "L - min want L + (R - (want - min want L)) = L + R - want" and wR: "want - min want L \<le> R" by auto
  have "start - min want L = length A + (L - min want L)" using start by simp
  then have tk: "take s content = A @ replicate (L - min want L) NL" by (simp add: se content)
  have "drop e content = drop (want - min want L) (drop stop content)" by (simp add: se add.commute)
  then have dre: "drop e content = replicate (R - (want - min want L)) NL @ Q" using dr wR by simp
  have "replicate (L - min want L) NL @ replicate (R - (want - min want L)) NL = replicate (L + R - want) NL"
    by (simp only: n flip: replicate_add)
  then show ?thesis unfolding tk dre by (metis append_assoc)
qed


lemma framed_edges:
  assumes "framed b" "b \<noteq> []"
  shows "hd b \<noteq> NL" "last b \<noteq> NL"
proof -
  show "hd b \<noteq> NL"
    using assms by (cases b) (auto simp: framed_def block_lines_def)
  show "last b \<noteq> NL"
  proof
    assume "last b = NL"
    then have "block_lines b = block_lines (butlast b) @ [[]]"
      using assms(2) split_on_append_sep [of NL "butlast b" "[]"] unfolding block_lines_def
      by (metis append_butlast_last_id split_on.simps(1))
    with assms(1) show False by (simp add: framed_def)
  qed
qed

definition edged :: "string \<Rightarrow> bool" where
  "edged b \<longleftrightarrow> b = [] \<or> hd b \<noteq> NL \<and> last b \<noteq> NL"

lemma Split_edged: "\<forall>b \<in> set (Split md). edged b"
  using split_loop_lines [of "splitLines md" 0 False] splitLines_no_nl [of _ md] framed_edges
  unfolding Split_eq edged_def by blast

lemma head_text_last:
  "\<forall>b \<in> set us. edged b \<Longrightarrow> head_text gap us = [] \<or> last (head_text gap us) \<noteq> NL"
  by (induction gap us rule: head_text.induct) (auto simp: edged_def last_append)

text \<open>The text of a document with content before the block, or a first block with content after it.\<close>

lemma join_tail_form:
  assumes "\<forall>b \<in> set ys. edged b"
  shows "\<exists>R Q. join_tail 0 ys = replicate R NL @ Q \<and> (Q = [] \<or> hd Q \<noteq> NL \<and> 2 \<le> R) \<and>
    (join_tail k ys = replicate (k + R) NL @ Q \<or> R = 0 \<and> Q = [] \<and> ys = []) \<and>
    ((\<exists>y \<in> set ys. y \<noteq> []) \<longrightarrow> Q \<noteq> [] \<and> Join (replicate f [] @ ys) = replicate (f + R - 2) NL @ Q) \<and>
    (R = 0 \<longrightarrow> ys = [])"
  using leading_empties [of ys]
proof (elim disjE exE conjE)
  fix m assume ys: "ys = replicate m []"
  show ?thesis
  proof (cases m)
    case 0
    with ys show ?thesis by auto
  next
    case (Suc n)
    have "join_tail j ys = replicate (j + m + 1) NL" for j
      using join_tail_run [of j m "[]"] ys Suc by simp
    with ys Suc show ?thesis by (intro exI [of _ "m + 1"] exI [of _ "[]"]) auto
  qed
next
  fix m c cs assume ys: "ys = replicate m [] @ c # cs" and c: "c \<noteq> []"
  have j: "join_tail j ys = replicate (j + (m + 2)) NL @ c @ join_tail 0 cs" for j
    using join_tail_run [of j m "c # cs"] join_tail_block [OF c, of "j + m" cs] ys by (simp add: add.commute add.left_commute)
  have J: "Join (replicate f [] @ ys) = replicate (f + m) NL @ c @ join_tail 0 cs"
    using Join_lead [OF c, of "f + m" cs] ys by (simp add: replicate_add)
  have "hd c \<noteq> NL" using assms ys c by (simp add: edged_def)
  with j J c show ?thesis by (intro exI [of _ "m + 2"] exI [of _ "c @ join_tail 0 cs"]) auto
qed


lemma delete_after_content:
  assumes ok: "\<forall>x \<in> set xs. edged x" "\<forall>y \<in> set ys. edged y" "edged b" and b: "b \<noteq> []"
    and xs: "xs = replicate f [] @ c # us" "c \<noteq> []"
    and start: "start = length (Join (xs @ [b])) - length b"
    and w: "widenBlockDeletion (Join (xs @ b # ys)) start (start + length b) = (s, e)"
  defines "content \<equiv> Join (xs @ b # ys)"
  shows "take s content @ drop e content = Join (xs @ ys) \<or>
    ys = [] \<and> take s content @ drop e content = Join xs @ [NL] \<and> Join xs \<noteq> [] \<and> last (Join xs) \<noteq> NL"
proof -
  define A where "A = replicate f NL @ c @ head_text 0 us"
  define k where "k = run_after 0 us"
  have J: "Join (xs @ zs) = A @ join_tail k zs" for zs
    using Join_lead [OF xs(2), of f "us @ zs"] join_tail_append [of 0 us zs] xs(1) by (simp add: A_def k_def)
  have A: "A \<noteq> []" "last A \<noteq> NL"
    using head_text_last [of us 0] ok(1) xs by (auto simp: A_def edged_def last_append)
  obtain R Q where RQ: "join_tail 0 ys = replicate R NL @ Q" "Q = [] \<or> hd Q \<noteq> NL \<and> 2 \<le> R"
    "join_tail k ys = replicate (k + R) NL @ Q \<or> R = 0 \<and> Q = [] \<and> ys = []" "R = 0 \<longrightarrow> ys = []"
    using join_tail_form [OF ok(2), of k 0] by blast
  have c: "content = A @ replicate (2 + k) NL @ b @ replicate R NL @ Q"
    using J [of "b # ys"] join_tail_block [OF b] RQ(1) by (simp add: content_def)
  have st: "start = length A + (2 + k)" using start J [of "[b]"] join_tail_block [OF b, of k "[]"] by simp
  let ?want = "min (if R = 0 \<and> Q = [] then 1 else 2) (2 + k + R)"
  have out: "take s content @ drop e content = A @ replicate (2 + k + R - ?want) NL @ Q"
    by (rule widen_text [OF c _ _ _ _ st refl refl w [folded content_def]]) (use A RQ(2) in auto)
  show ?thesis
  proof (cases "R = 0 \<and> Q = []")
    case True
    with RQ(4) have "ys = []" by simp
    with out True A J [of "[]"] show ?thesis by (cases k) (auto simp: replicate_append_same)
  next
    case False
    with out RQ(3) J [of ys] show ?thesis by auto
  qed
qed

lemma delete_first_content:
  assumes ok: "\<forall>y \<in> set ys. edged y" "edged b" and b: "b \<noteq> []"
    and f: "f \<noteq> 1" and ys: "\<exists>y \<in> set ys. y \<noteq> []"
    and start: "start = length (Join (replicate f [] @ [b])) - length b"
    and w: "widenBlockDeletion (Join (replicate f [] @ b # ys)) start (start + length b) = (s, e)"
  defines "content \<equiv> Join (replicate f [] @ b # ys)"
  shows "take s content @ drop e content = Join (replicate f [] @ ys)"
proof -
  obtain R Q where RQ: "join_tail 0 ys = replicate R NL @ Q" "Q = [] \<or> hd Q \<noteq> NL \<and> 2 \<le> R"
    "Q \<noteq> []" "Join (replicate f [] @ ys) = replicate (f + R - 2) NL @ Q"
    using join_tail_form [OF ok(1), of 0 f] ys by blast
  have c: "content = [] @ replicate f NL @ b @ replicate R NL @ Q"
    using Join_lead [OF b, of f ys] RQ(1) by (simp add: content_def)
  have st: "start = length [] + f" using start Join_lead [OF b, of f "[]"] by simp
  have "take s content @ drop e content =
      [] @ replicate (f + R - min (if R = 0 \<and> Q = [] then 1 else 2) (f + R)) NL @ Q"
    by (rule widen_text [OF c _ _ _ _ st refl refl w [folded content_def]]) (use RQ f in auto)
  with RQ show ?thesis by auto
qed

lemma splitLines_final_nl:
  assumes "CHR 0x0D \<notin> set s" "s \<noteq> []" "last s \<noteq> NL"
  shows "splitLines (s @ [NL]) = splitLines s"
proof -
  have id: "map strip_cr (split_on NL s) = split_on NL s"
  proof (rule map_idI)
    fix l assume "l \<in> set (split_on NL s)"
    with split_on_subset [of l NL s] assms(1) show "strip_cr l = l"
      by (auto simp: strip_cr_def cut_suffix_Some split: option.splits)
  qed
  have "last (split_on NL s) \<noteq> []"
  proof
    assume l: "last (split_on NL s) = []"
    let ?i = "butlast (split_on NL s)"
    have eq: "split_on NL s = ?i @ [[]]" using l by (metis append_butlast_last_id split_on_not_Nil)
    then have "s = join_with NL (?i @ [[]])" by (metis join_split_on)
    then have "s = [] \<or> s = join_with NL ?i @ [NL]"
      using join_with_append [of ?i "[[]]" NL] by (cases "?i = []") simp_all
    with assms(2,3) show False by (metis last_snoc)
  qed
  with id split_on_append_sep [of NL s "[]"] show ?thesis
    by (simp add: splitLines_def strip_cr_def cut_suffix_def)
qed


section \<open>The edit that removes a block\<close>

lemma Split_chars:
  assumes "blk \<in> set (Split md)"
  shows "set blk \<subseteq> set md \<union> {NL}"
proof -
  have lns: "set l \<subseteq> set md" if "l \<in> set (splitLines md)" for l
  proof -
    have "l \<in> set (map strip_cr (split_on NL md))" using that
      unfolding splitLines_def Let_def by (split if_split_asm) (auto simp only: dest: in_set_butlastD)
    then obtain k where k: "k \<in> set (split_on NL md)" "l = strip_cr k" by auto
    have "set (strip_cr k) \<subseteq> set k" by (auto simp: strip_cr_def cut_suffix_Some split: option.splits)
    with k split_on_subset show ?thesis by blast
  qed
  have "\<forall>blk \<in> set (split_loop ls b saw). set blk \<subseteq> \<Union> (set ` set ls) \<union> {NL}" for ls b saw
  proof (induction ls b saw rule: split_loop.induct)
    case (2 l ls b saw)
    show ?case
    proof (cases "isBlank l")
      case True
      with 2 show ?thesis by auto
    next
      case False
      obtain t r where tr: "consume_block l ls = (t, r)" by fastforce
      have "\<forall>blk \<in> set (split_loop r 0 True). set blk \<subseteq> \<Union> (set ` set r) \<union> {NL}"
        using 2(2) [OF False tr [symmetric] refl] by simp
      with False tr block.lines_of [OF tr] set_join_with [of NL "l # t"] show ?thesis
        by (auto simp: empties_def)
    qed
  qed (simp add: empties_def)
  with assms lns show ?thesis unfolding Split_eq by fastforce
qed

lemma normalizeLF_id: "CHR 0x0D \<notin> set s \<Longrightarrow> normalizeLF s = s"
proof -
  assume a: "CHR 0x0D \<notin> set s"
  then have "replace_crlf s = s" by (induction s rule: replace_crlf.induct) auto
  with a show ?thesis by (auto simp: normalizeLF_def replace_byte_def intro: map_idI)
qed

lemma applyEdits_delete:
  assumes "CHR 0x0D \<notin> set b" "exactMatches content b = [(start, start + length b)]" "b \<noteq> []"
    "widenBlockDeletion content start (start + length b) = (s, e)"
  shows "applyEdits nfkc content [\<lparr>OldText = b, NewText = [], ReplaceAll = False\<rparr>] =
    Inr (take s content @ drop e content)"
  using assms by (simp add: applyEdits_def resolveEdits_def resolve_edit_def normalizeLF_id Let_def splice_def)

lemma Join_chars: "CHR 0x0D \<notin> (\<Union> (set ` set bs)) \<Longrightarrow> CHR 0x0D \<notin> set (Join bs)"
proof -
  have t: "CHR 0x0D \<notin> (\<Union> (set ` set bs)) \<Longrightarrow> CHR 0x0D \<notin> set (join_tail g bs)" for g bs
    by (induction g bs rule: join_tail.induct) auto
  assume a: "CHR 0x0D \<notin> (\<Union> (set ` set bs))"
  show ?thesis
    using leading_empties [of bs]
  proof (elim disjE exE conjE)
    fix m assume "bs = replicate m []"
    then show ?thesis by (auto simp: Join_def)
  next
    fix m c cs assume "bs = replicate m [] @ c # cs" "c \<noteq> []"
    with a Join_lead [of c m cs] t [of cs 0] show ?thesis by auto
  qed
qed

text \<open>Content before the block; or content after it and not exactly one empty paragraph before it.\<close>

definition deletable :: "string list \<Rightarrow> string list \<Rightarrow> bool" where
  "deletable xs ys \<longleftrightarrow>
     list_ex (\<lambda>x. x \<noteq> []) xs \<or> length xs \<noteq> 1 \<and> list_ex (\<lambda>y. y \<noteq> []) ys"

lemma delete_block:
  assumes "CHR 0x0D \<notin> set md" "Split md = xs @ b # ys" "b \<noteq> []" "deletable xs ys"
    "start = length (Join (xs @ [b])) - length b"
    "exactMatches (Join (Split md)) b = [(start, start + length b)]"
  shows "\<exists>out. applyEdits nfkc (Join (Split md)) [\<lparr>OldText = b, NewText = [], ReplaceAll = False\<rparr>] = Inr out \<and>
    Split out = Split (Join (xs @ ys))"
proof -
  obtain s e where w: "widenBlockDeletion (Join (Split md)) start (start + length b) = (s, e)" by fastforce
  let ?out = "take s (Join (Split md)) @ drop e (Join (Split md))"
  have nocr: "CHR 0x0D \<notin> set blk" if "blk \<in> set (Split md)" for blk
    using Split_chars [OF that] assms(1) by auto
  have ok: "\<forall>x \<in> set xs. edged x" "\<forall>y \<in> set ys. edged y" "edged b"
    using Split_edged [of md] assms(2) by auto
  have "?out = Join (xs @ ys) \<or> ys = [] \<and> ?out = Join xs @ [NL] \<and> Join xs \<noteq> [] \<and> last (Join xs) \<noteq> NL"
    using leading_empties [of xs]
  proof (elim disjE exE conjE)
    fix m assume xs: "xs = replicate m []"
    with assms(4) have "m \<noteq> 1" "\<exists>y \<in> set ys. y \<noteq> []" by (auto simp: deletable_def list_ex_iff)
    from delete_first_content [OF ok(2,3) assms(3) this assms(5) [unfolded xs]] w assms(2) xs show ?thesis by simp
  next
    fix m c cs assume "xs = replicate m [] @ c # cs" "c \<noteq> []"
    from delete_after_content [OF ok assms(3) this assms(5)] w assms(2) show ?thesis by simp
  qed
  moreover have "CHR 0x0D \<notin> set (Join xs)" using Join_chars [of xs] nocr assms(2) by auto
  ultimately have "Split ?out = Split (Join (xs @ ys))"
    using splitLines_final_nl [of "Join xs"] by (auto simp: Split_eq)
  moreover have "CHR 0x0D \<notin> set b" using nocr assms(2) by simp
  ultimately show ?thesis using applyEdits_delete [OF _ assms(6,3) w, of nfkc] by blast
qed


text \<open>
  Deleting a block through an edit removes that block and leaves no empty paragraph behind:
  take the rendering of a document, quote one of its blocks whole with an empty replacement (the
  quotation matching there and nowhere else), and the edited text splits into the blocks the rendering
  of the others splits into. This is what the widening of whole-block deletions is for. It needs a
  block with content before it, or one after it and not exactly one empty paragraph before.
\<close>

theorem delete_block_removes_it:
  assumes "CHR 0x0D \<notin> set md" "Split md = xs @ b # ys" "b \<noteq> []" "deletable xs ys"
    "start = length (Join (xs @ [b])) - length b"
    "exactMatches (Join (Split md)) b = [(start, start + length b)]"
  shows "\<exists>out. applyEdits nfkc (Join (Split md)) [\<lparr>OldText = b, NewText = [], ReplaceAll = False\<rparr>] = Inr out \<and>
    Split out = Split (Join (xs @ ys))"
  by (rule delete_block [OF assms])

theorem delete_block_removes_it_witness:
  "\<exists>out. applyEdits (\<lambda>s. s) (''a'' @ [NL, NL] @ ''b'' @ [NL, NL] @ ''c'')
      [\<lparr>OldText = ''b'', NewText = [], ReplaceAll = False\<rparr>] = Inr out \<and>
    Split out = Split (Join [''a'', ''c''])"
proof -
  let ?md = "''a'' @ [NL, NL] @ ''b'' @ [NL, NL] @ ''c''"
  have sp: "Split ?md = [''a''] @ ''b'' # [''c'']" by code_simp
  have j: "Join (Split ?md) = ?md" by code_simp
  have h: "CHR 0x0D \<notin> set ?md" "''b'' \<noteq> []" "deletable [''a''] [''c'']"
    "3 = length (Join ([''a''] @ [''b''])) - length ''b''"
    by code_simp+
  have m: "exactMatches (Join (Split ?md)) ''b'' = [(3, 3 + length ''b'')]" by code_simp
  from delete_block_removes_it [OF h(1) sp h(2-4) m, of "\<lambda>s. s"] show ?thesis unfolding j by simp
qed

text \<open>
  With exactly one empty paragraph before the block the deletion is not widened, although the block
  starts on a block boundary: two empty paragraphs too many stay.
\<close>

lemma delete_after_one_empty:
  "Split ([NL] @ ''b'' @ [NL, NL] @ ''c'') = [[], ''b'', ''c''] \<and>
   applyEdits (\<lambda>s. s) ([NL] @ ''b'' @ [NL, NL] @ ''c'') [\<lparr>OldText = ''b'', NewText = [], ReplaceAll = False\<rparr>] =
     Inr ([NL, NL, NL] @ ''c'') \<and>
   Split ([NL, NL, NL] @ ''c'') = [[], [], [], ''c''] \<and> Split (Join [[], ''c'']) = [[], ''c'']"
  by code_simp

end
