(* ===== verification/EditorBlocks.thy ===== *)
theory EditorBlocks
  imports AnyEnc
begin

text \<open>
  The block records of a document body (src/internal/editor): the handler that gates what a change
  may create and modify (handler.go, with the names and limits of blocks.go), the reading of a record
  and the document order (api.go), and the allocation of sibling positions (lexids.go). The allocator
  of the \<open>lexid\<close> package and the codec of document values are parameters.
\<close>

section \<open>Fields and limits\<close>

definition FieldType :: string where "FieldType = ''type''"
definition FieldStyle :: string where "FieldStyle = ''style''"
definition FieldText :: string where "FieldText = ''text''"
definition FieldNav :: string where "FieldNav = ''nav''"
definition NavParentId :: string where "NavParentId = ''parentId''"
definition NavPos :: string where "NavPos = ''pos''"
definition RootParentId :: string where "RootParentId = []"

lemmas block_fields = FieldType_def FieldStyle_def FieldText_def FieldNav_def NavParentId_def NavPos_def

definition MaxTextBytes :: nat where "MaxTextBytes = 64 * 1024"
definition MaxTypeBytes :: nat where "MaxTypeBytes = 64"
definition MaxParentIdBytes :: nat where "MaxParentIdBytes = 256"
definition MaxPosBytes :: nat where "MaxPosBytes = 256"

text \<open>The block types and the style keys the markdown path gives a meaning.\<close>

definition TypeParagraph :: string where "TypeParagraph = ''paragraph''"
definition TypeHeading :: string where "TypeHeading = ''heading''"
definition TypeListItem :: string where "TypeListItem = ''list_item''"
definition TypeCheckListItem :: string where "TypeCheckListItem = ''check_list_item''"
definition TypeCode :: string where "TypeCode = ''code''"
definition TypeQuote :: string where "TypeQuote = ''quote''"
definition TypeDivider :: string where "TypeDivider = ''divider''"
definition TypeHTML :: string where "TypeHTML = ''html''"
definition TypeTable :: string where "TypeTable = ''table''"
definition TypeImage :: string where "TypeImage = ''image''"

lemmas block_types = TypeParagraph_def TypeHeading_def TypeListItem_def TypeCheckListItem_def TypeCode_def
  TypeQuote_def TypeDivider_def TypeHTML_def TypeTable_def TypeImage_def

definition StyleLevel :: string where "StyleLevel = ''level''"
definition StyleOrdered :: string where "StyleOrdered = ''ordered''"
definition StyleNumber :: string where "StyleNumber = ''number''"
definition StyleChecked :: string where "StyleChecked = ''checked''"
definition StyleLang :: string where "StyleLang = ''lang''"

lemmas style_keys = StyleLevel_def StyleOrdered_def StyleNumber_def StyleChecked_def StyleLang_def

text \<open>\<open>rejectCreate\<close> and \<open>rejectOp\<close>; the messages are kept without the numbers they print.\<close>

datatype block_error = RejectCreate string | RejectOp string

fun pathString :: "string list \<Rightarrow> string" where
  "pathString [] = ''<root>''"
| "pathString (p # ps) = p @ concat (map (\<lambda>seg. CHR ''.'' # seg) ps)"

section \<open>Creation\<close>

definition nav_check :: "'v anyenc \<Rightarrow> string \<Rightarrow> 'v \<Rightarrow> block_error option" where
  "nav_check enc key v =
     (if key = NavParentId
      then (if vtyp enc v \<noteq> TypeString then Some (RejectCreate ''nav.parentId must be a string'')
            else if length (vbytes enc v) > MaxParentIdBytes then Some (RejectCreate ''nav.parentId too long'')
            else None)
      else if key = NavPos
      then (if vtyp enc v \<noteq> TypeString then Some (RejectCreate ''nav.pos must be a string'')
            else if vbytes enc v = [] then Some (RejectCreate ''nav.pos required'')
            else if length (vbytes enc v) > MaxPosBytes then Some (RejectCreate ''nav.pos too long'')
            else None)
      else Some (RejectCreate (''nav field_not_allowed: '' @ key)))"

definition validateNavObject :: "'v anyenc \<Rightarrow> 'v \<Rightarrow> block_error option" where
  "validateNavObject enc v =
     (if vtyp enc v \<noteq> TypeObject then Some (RejectCreate ''nav must be an object'')
      else case visit_fields (\<lambda>_. nav_check enc) (\<lambda>hasPos key _. hasPos \<or> key = NavPos) False (vvisit enc v) of
             Inl e \<Rightarrow> Some e
           | Inr hasPos \<Rightarrow> if \<not> hasPos then Some (RejectCreate ''nav.pos required'') else None)"

definition create_check :: "'v anyenc \<Rightarrow> string \<Rightarrow> 'v \<Rightarrow> block_error option" where
  "create_check enc key v =
     (if key = FieldType
      then (if vtyp enc v \<noteq> TypeString then Some (RejectCreate ''type must be a string'')
            else if vbytes enc v = [] then Some (RejectCreate ''type required'')
            else if length (vbytes enc v) > MaxTypeBytes then Some (RejectCreate ''type too long'')
            else None)
      else if key = FieldStyle
      then (if vtyp enc v \<noteq> TypeObject then Some (RejectCreate ''style must be an object'') else None)
      else if key = FieldText
      then (if vtyp enc v \<noteq> TypeString then Some (RejectCreate ''text must be a string'')
            else if length (vbytes enc v) > MaxTextBytes then Some (RejectCreate ''text too long'')
            else None)
      else if key = FieldNav then validateNavObject enc v
      else Some (RejectCreate (''field_not_allowed: '' @ key)))"

definition validateCreatePayload :: "'v anyenc \<Rightarrow> 'v \<Rightarrow> block_error option" where
  "validateCreatePayload enc v =
     (case visit_fields (\<lambda>_. create_check enc) (\<lambda>hasType key _. hasType \<or> key = FieldType) False (vvisit enc v) of
        Inl e \<Rightarrow> Some e
      | Inr hasType \<Rightarrow> if \<not> hasType then Some (RejectCreate ''type required'') else None)"

definition BeforeCreate :: "'v anyenc \<Rightarrow> 'v RecordChange \<Rightarrow> block_error option" where
  "BeforeCreate enc rec =
     (case rcOps rec of
        [op] \<Rightarrow>
          if opType op \<noteq> OpSet \<or> opPath op \<noteq> []
          then Some (RejectCreate ''expected multi-field $set with empty path'')
          else (case opPayload op of
                  Given v \<Rightarrow>
                    if vtyp enc v \<noteq> TypeObject then Some (RejectCreate ''payload must be a JSON object'')
                    else validateCreatePayload enc v
                | _ \<Rightarrow> Some (RejectCreate ''payload must be a JSON object''))
      | _ \<Rightarrow> Some (RejectCreate ''expected exactly one multi-field $set op''))"

section \<open>Modification\<close>

text \<open>
  A payload that came with the change is \<open>Given\<close>; the ones a handler makes itself never
  reach this gate.
\<close>

definition with_payload :: "'v payload \<Rightarrow> string \<Rightarrow> ('v \<Rightarrow> block_error option) \<Rightarrow> block_error option" where
  "with_payload p missing f = (case p of Given v \<Rightarrow> f v | _ \<Rightarrow> Some (RejectOp missing))"

definition set_field :: "'v anyenc \<Rightarrow> string \<Rightarrow> 'v payload \<Rightarrow> block_error option" where
  "set_field enc field p =
     (if field = FieldType
      then with_payload p ''type must be a string'' (\<lambda>v.
             if vtyp enc v \<noteq> TypeString then Some (RejectOp ''type must be a string'')
             else if vbytes enc v = [] then Some (RejectOp ''type required'')
             else if length (vbytes enc v) > MaxTypeBytes then Some (RejectOp ''type too long'')
             else None)
      else if field = FieldText
      then with_payload p ''text payload missing'' (\<lambda>v.
             if vtyp enc v \<noteq> TypeString then Some (RejectOp ''text must be a string'')
             else if length (vbytes enc v) > MaxTextBytes then Some (RejectOp ''text too long'')
             else None)
      else if field = FieldStyle
      then with_payload p ''style must be an object'' (\<lambda>v.
             if vtyp enc v \<noteq> TypeObject then Some (RejectOp ''style must be an object'') else None)
      else if field = FieldNav
      then with_payload p ''nav payload missing'' (validateNavObject enc)
      else Some (RejectOp (''field_not_modifiable: '' @ pathString [field])))"

definition set_nav :: "'v anyenc \<Rightarrow> string \<Rightarrow> 'v payload \<Rightarrow> block_error option" where
  "set_nav enc key p =
     (if key = NavParentId
      then with_payload p ''nav.parentId must be a string'' (\<lambda>v.
             if vtyp enc v \<noteq> TypeString then Some (RejectOp ''nav.parentId must be a string'') else None)
      else if key = NavPos
      then with_payload p ''nav.pos must be a string'' (\<lambda>v.
             if vtyp enc v \<noteq> TypeString then Some (RejectOp ''nav.pos must be a string'')
             else if vbytes enc v = [] then Some (RejectOp ''nav.pos required'')
             else None)
      else Some (RejectOp (''field_not_modifiable: '' @ pathString [FieldNav, key])))"

definition validateSet :: "'v anyenc \<Rightarrow> 'v Op \<Rightarrow> block_error option" where
  "validateSet enc op =
     (case opPath op of
        [field] \<Rightarrow> set_field enc field (opPayload op)
      | [field, key] \<Rightarrow>
          if field = FieldStyle then None
          else if field = FieldNav then set_nav enc key (opPayload op)
          else Some (RejectOp (''field_not_modifiable: '' @ pathString (opPath op)))
      | _ \<Rightarrow> Some (RejectOp (''field_not_modifiable: '' @ pathString (opPath op))))"

definition validateUnset :: "'v Op \<Rightarrow> block_error option" where
  "validateUnset op =
     (case opPath op of
        [field] \<Rightarrow>
          if field = FieldText \<or> field = FieldStyle then None
          else if field = FieldType \<or> field = FieldNav
          then Some (RejectOp (''cannot unset required field: '' @ pathString (opPath op)))
          else Some (RejectOp (''field_not_modifiable: '' @ pathString (opPath op)))
      | [field, key] \<Rightarrow>
          if field = FieldStyle then None
          else if field = FieldNav
          then (if key = NavParentId
                then Some (RejectOp ''cannot unset nav.parentId; $set to empty string for root'')
                else if key = NavPos then Some (RejectOp ''cannot unset nav.pos'')
                else Some (RejectOp (''field_not_modifiable: '' @ pathString (opPath op))))
          else Some (RejectOp (''field_not_modifiable: '' @ pathString (opPath op)))
      | _ \<Rightarrow> Some (RejectOp (''field_not_modifiable: '' @ pathString (opPath op))))"

definition BeforeModify :: "'v anyenc \<Rightarrow> 'v Op \<Rightarrow> block_error option" where
  "BeforeModify enc op =
     (case opType op of
        OpSet \<Rightarrow> validateSet enc op
      | OpUnset \<Rightarrow> validateUnset op
      | _ \<Rightarrow> Some (RejectOp ''op_not_supported''))"

definition BeforeDelete :: "block_error option" where
  "BeforeDelete = None"

section \<open>Blocks in document order\<close>

record Nav =
  ParentId :: string
  Pos :: string

record 'v Block =
  blkId :: string
  blkVer :: "'v option"
  blkType :: string
  blkStyle :: "'v option"
  blkText :: string
  blkNav :: Nav

definition getString :: "'v anyenc \<Rightarrow> 'v \<Rightarrow> string list \<Rightarrow> string" where
  "getString enc v path =
     (case vget enc v path of
        None \<Rightarrow> []
      | Some got \<Rightarrow> if vtyp enc got \<noteq> TypeString then [] else vbytes enc got)"

text \<open>\<open>anyencToMap\<close> of an object is kept as the object.\<close>

definition object_at :: "'v anyenc \<Rightarrow> 'v \<Rightarrow> string \<Rightarrow> 'v option" where
  "object_at enc rec key =
     (case vget enc rec [key] of
        Some v \<Rightarrow> if vtyp enc v = TypeObject then Some v else None
      | None \<Rightarrow> None)"

definition recordToBlock :: "'v anyenc \<Rightarrow> 'v \<Rightarrow> 'v Block option" where
  "recordToBlock enc rec =
     (let i = getString enc rec [''id'']
      in if i = [] then None
         else Some \<lparr>blkId = i, blkVer = object_at enc rec ''_ver'',
                    blkType = getString enc rec [FieldType], blkStyle = object_at enc rec FieldStyle,
                    blkText = getString enc rec [FieldText],
                    blkNav = \<lparr>ParentId = getString enc rec [FieldNav, NavParentId],
                              Pos = getString enc rec [FieldNav, NavPos]\<rparr>\<rparr>)"

abbreviation blkParent :: "('v, 'z) Block_scheme \<Rightarrow> string" where
  "blkParent b \<equiv> ParentId (blkNav b)"

text \<open>\<open>byParent\<close> after the stable sort by position.\<close>

definition byParent :: "'v Block list \<Rightarrow> string \<Rightarrow> 'v Block list" where
  "byParent blocks parent = sort_key (\<lambda>b. Pos (blkNav b)) (filter (\<lambda>b. blkParent b = parent) blocks)"

text \<open>
  The recursive \<open>walk\<close>, bounded by a depth: \<open>None\<close> when the depth is used up, which
  stands for a recursion that does not end.
\<close>

fun append_all :: "'a list option list \<Rightarrow> 'a list option" where
  "append_all [] = Some []"
| "append_all (x # xs) =
     (case x of None \<Rightarrow> None
      | Some a \<Rightarrow> (case append_all xs of None \<Rightarrow> None | Some b \<Rightarrow> Some (a @ b)))"

fun walk :: "nat \<Rightarrow> 'v Block list \<Rightarrow> string \<Rightarrow> 'v Block list option" where
  "walk 0 blocks parent = None"
| "walk (Suc depth) blocks parent =
     append_all (map (\<lambda>b. map_option ((#) b) (walk depth blocks (blkId b))) (byParent blocks parent))"

definition orphans :: "'v Block list \<Rightarrow> 'v Block list" where
  "orphans blocks =
     filter (\<lambda>b. blkParent b \<noteq> RootParentId \<and> blkParent b \<notin> blkId ` set blocks) blocks"

definition treeOrder :: "'v Block list \<Rightarrow> 'v Block list option" where
  "treeOrder blocks =
     (case walk (length blocks + 1) blocks RootParentId of
        None \<Rightarrow> None
      | Some out \<Rightarrow> Some (out @ orphans blocks))"

section \<open>Positions\<close>

record lexid =
  lexMiddle :: string
  lexNext :: "string \<Rightarrow> string"
  lexNextBefore :: "string \<Rightarrow> string \<Rightarrow> string option"

definition NextPos :: "lexid \<Rightarrow> string \<Rightarrow> string" where
  "NextPos g prev = (if prev = [] then lexMiddle g else lexNext g prev)"

text \<open>\<open>out[k] = Next(out[k-1])\<close>, and the same before a bound.\<close>

fun run_next :: "lexid \<Rightarrow> string \<Rightarrow> nat \<Rightarrow> string list" where
  "run_next g prev 0 = []"
| "run_next g prev (Suc n) = (let i = lexNext g prev in i # run_next g i n)"

fun run_before :: "lexid \<Rightarrow> string \<Rightarrow> string \<Rightarrow> nat \<Rightarrow> string list option" where
  "run_before g prev nxt 0 = Some []"
| "run_before g prev nxt (Suc n) =
     (case lexNextBefore g prev nxt of
        None \<Rightarrow> None
      | Some i \<Rightarrow> map_option ((#) i) (run_before g i nxt n))"

definition AllocateRun :: "lexid \<Rightarrow> string \<Rightarrow> string \<Rightarrow> int \<Rightarrow> string list option" where
  "AllocateRun g prev nxt n =
     (if n \<le> 0 then Some []
      else if prev = [] \<and> nxt = [] then Some (lexMiddle g # run_next g (lexMiddle g) (nat n - 1))
      else if nxt = [] then Some (run_next g prev (nat n))
      else run_before g prev nxt (nat n))"


section \<open>What the handler lets through\<close>

definition is_string :: "'v anyenc \<Rightarrow> nat \<Rightarrow> 'v \<Rightarrow> bool" where
  "is_string enc mx v \<longleftrightarrow> vtyp enc v = TypeString \<and> length (vbytes enc v) \<le> mx"

definition nav_ok :: "'v anyenc \<Rightarrow> 'v \<Rightarrow> bool" where
  "nav_ok enc v \<longleftrightarrow> vtyp enc v = TypeObject \<and> has_key enc v NavPos \<and>
     all_fields enc v (\<lambda>key x.
       key = NavParentId \<and> is_string enc MaxParentIdBytes x \<or> key = NavPos \<and> is_text enc MaxPosBytes x)"

definition block_field_ok :: "'v anyenc \<Rightarrow> string \<Rightarrow> 'v \<Rightarrow> bool" where
  "block_field_ok enc key x \<longleftrightarrow>
     key = FieldType \<and> is_text enc MaxTypeBytes x \<or>
     key = FieldStyle \<and> vtyp enc x = TypeObject \<or>
     key = FieldText \<and> is_string enc MaxTextBytes x \<or>
     key = FieldNav \<and> nav_ok enc x"

text \<open>The modifications a block admits.\<close>

inductive op_allowed :: "'v anyenc \<Rightarrow> 'v Op \<Rightarrow> bool" for enc :: "'v anyenc" where
  set_root: "block_field_ok enc field v \<Longrightarrow> op_allowed enc \<lparr>opType = OpSet, opPath = [field], opPayload = Given v\<rparr>"
| set_style: "op_allowed enc \<lparr>opType = OpSet, opPath = [FieldStyle, key], opPayload = p\<rparr>"
| set_parent: "vtyp enc v = TypeString \<Longrightarrow>
    op_allowed enc \<lparr>opType = OpSet, opPath = [FieldNav, NavParentId], opPayload = Given v\<rparr>"
| set_pos: "vtyp enc v = TypeString \<Longrightarrow> vbytes enc v \<noteq> [] \<Longrightarrow>
    op_allowed enc \<lparr>opType = OpSet, opPath = [FieldNav, NavPos], opPayload = Given v\<rparr>"
| unset_root: "field \<in> {FieldText, FieldStyle} \<Longrightarrow>
    op_allowed enc \<lparr>opType = OpUnset, opPath = [field], opPayload = p\<rparr>"
| unset_style: "op_allowed enc \<lparr>opType = OpUnset, opPath = [FieldStyle, key], opPayload = p\<rparr>"

lemma validateNavObject_iff: "validateNavObject enc v = None \<longleftrightarrow> nav_ok enc v"
proof -
  have "nav_check enc key x = None \<longleftrightarrow>
      key = NavParentId \<and> is_string enc MaxParentIdBytes x \<or> key = NavPos \<and> is_text enc MaxPosBytes x" for key x
    by (auto simp: nav_check_def is_string_def is_text_def block_fields)
  then show ?thesis
    by (simp add: validateNavObject_def visit_accepts foldl_flag nav_ok_def has_key_def all_fields_def conj_ac)
qed

lemma block_create_check_iff: "create_check enc key x = None \<longleftrightarrow> block_field_ok enc key x"
  by (auto simp: create_check_def block_field_ok_def block_fields is_text_def is_string_def validateNavObject_iff)

lemma block_payload_iff:
  "validateCreatePayload enc v = None \<longleftrightarrow> all_fields enc v (block_field_ok enc) \<and> has_key enc v FieldType"
  by (simp add: validateCreatePayload_def visit_accepts foldl_flag block_create_check_iff all_fields_def has_key_def)

lemma BeforeCreate_iff:
  "BeforeCreate enc rec = None \<longleftrightarrow>
     (\<exists>v. rcOps rec = [\<lparr>opType = OpSet, opPath = [], opPayload = Given v\<rparr>] \<and> vtyp enc v = TypeObject \<and>
        all_fields enc v (block_field_ok enc) \<and> has_key enc v FieldType)"
  unfolding BeforeCreate_def block_payload_iff [symmetric]
  by (auto split: list.splits payload.splits if_splits intro!: Op.equality)

lemma with_payload_None: "with_payload p m f = None \<longleftrightarrow> (\<exists>v. p = Given v \<and> f v = None)"
  by (auto simp: with_payload_def split: payload.splits)

lemma set_field_iff: "set_field enc field p = None \<longleftrightarrow> (\<exists>v. p = Given v \<and> block_field_ok enc field v)"
proof (cases "field \<in> {FieldType, FieldText, FieldStyle, FieldNav}")
  case True
  then show ?thesis
    by (elim insertE emptyE; cases p) (auto simp: set_field_def with_payload_def block_field_ok_def block_fields
        is_text_def is_string_def validateNavObject_iff)
qed (auto simp: set_field_def block_field_ok_def)

inductive_simps op_allowed_simps: "op_allowed enc \<lparr>opType = ty, opPath = path, opPayload = p\<rparr>"

lemma validateSet_iff:
  "validateSet enc op = None \<longleftrightarrow>
     (\<exists>field. opPath op = [field] \<and> set_field enc field (opPayload op) = None) \<or>
     (\<exists>key. opPath op = [FieldStyle, key]) \<or>
     (\<exists>key. opPath op = [FieldNav, key] \<and> set_nav enc key (opPayload op) = None)"
  by (auto simp: validateSet_def block_fields split: list.splits)

lemma validateUnset_iff:
  "validateUnset op = None \<longleftrightarrow> opPath op \<in> {[FieldText], [FieldStyle]} \<or> (\<exists>key. opPath op = [FieldStyle, key])"
  by (auto simp: validateUnset_def block_fields split: list.splits)

lemma set_nav_iff:
  "set_nav enc key p = None \<longleftrightarrow>
     (\<exists>v. p = Given v \<and> vtyp enc v = TypeString \<and> (key = NavParentId \<or> key = NavPos \<and> vbytes enc v \<noteq> []))"
  by (auto simp: set_nav_def with_payload_None block_fields split: if_splits)

lemma BeforeModify_iff: "BeforeModify enc op = None \<longleftrightarrow> op_allowed enc op"
proof (cases op)
  case (fields ty path p)
  show ?thesis
  proof (cases ty)
    case OpSet
    then show ?thesis
      by (auto simp: fields BeforeModify_def validateSet_iff set_field_iff set_nav_iff op_allowed_simps)
  next
    case OpUnset
    then show ?thesis by (auto simp: fields BeforeModify_def validateUnset_iff op_allowed_simps)
  qed (auto simp: fields BeforeModify_def op_allowed_simps)
qed

text \<open>
  C18. The handler of the block dataset admits exactly these changes: a creation is one
  multi-field set of an object with a type, all of whose fields are among the four allowed ones and
  within their grammar and limits; a modification is a set of such a field, of a style key, of the
  parent or of a position that is not empty, or an unset of the text, the style or a style key. So no
  accepted operation removes the type or the position of a block, and none touches another field.
  This is wider than the comments of the handler, which require the parent and the position at
  creation: a creation without nav passes.
\<close>

theorem block_changes_exact:
  "(BeforeCreate enc rec = None \<longleftrightarrow>
     (\<exists>v. rcOps rec = [\<lparr>opType = OpSet, opPath = [], opPayload = Given v\<rparr>] \<and> vtyp enc v = TypeObject \<and>
        all_fields enc v (block_field_ok enc) \<and> has_key enc v FieldType)) \<and>
   (BeforeModify enc op = None \<longleftrightarrow> op_allowed enc op)"
  by (intro conjI BeforeCreate_iff BeforeModify_iff)

text \<open>Unlike at creation, the length of a position set on its own is not bounded.\<close>

lemma set_pos_unbounded:
  "BeforeModify tree_enc \<lparr>opType = OpSet, opPath = [FieldNav, NavPos], opPayload = Given (TStr (replicate 300 CHR ''a''))\<rparr> = None"
  by (simp add: BeforeModify_iff op_allowed.set_pos tree_enc_def)

section \<open>Runs of positions\<close>

text \<open>What the allocator promises: ids after the given one, and before the bound.\<close>

definition lexid_laws :: "lexid \<Rightarrow> bool" where
  "lexid_laws g \<longleftrightarrow> lexMiddle g \<noteq> [] \<and> (\<forall>p. p < lexNext g p) \<and>
     (\<forall>p q i. lexNextBefore g p q = Some i \<longrightarrow> p < i \<and> i < q)"

lemma run_next_ok:
  assumes "lexid_laws g"
  shows "length (run_next g p n) = n \<and> sorted_wrt (<) (p # run_next g p n)"
proof (induction n arbitrary: p)
  case (Suc n)
  have "p < lexNext g p" using assms by (simp add: lexid_laws_def)
  with Suc [of "lexNext g p"] show ?case by (auto simp: Let_def intro: less_trans)
qed simp

lemma run_before_ok:
  assumes "lexid_laws g"
  shows "run_before g p q n = Some is \<Longrightarrow>
    length is = n \<and> sorted_wrt (<) (p # is) \<and> (\<forall>i \<in> set is. i < q)"
proof (induction n arbitrary: p "is")
  case (Suc n)
  then obtain i js where i: "lexNextBefore g p q = Some i" and js: "run_before g i q n = Some js" "is = i # js"
    by (auto split: option.splits)
  have "p < i" "i < q" using assms i by (auto simp: lexid_laws_def)
  with Suc.IH [OF js(1)] js(2) show ?case by (auto intro: less_trans)
qed simp

lemma AllocateRun_ok:
  assumes "lexid_laws g" "AllocateRun g prev nxt n = Some is"
  shows "length is = nat n \<and> sorted_wrt (<) (prev # is) \<and> (nxt \<noteq> [] \<longrightarrow> (\<forall>i \<in> set is. i < nxt))"
proof (cases "n \<le> 0")
  case False
  then obtain m where m: "nat n = Suc m" by (cases "nat n") auto
  have low: "[] < i" if "lexMiddle g < i \<or> i = lexMiddle g" for i
    using that assms(1) by (cases i; cases "lexMiddle g") (auto simp: lexid_laws_def)
  show ?thesis
  proof (cases "nxt = []")
    case True
    show ?thesis
    proof (cases "prev = []")
      case True
      with run_next_ok [OF assms(1), of "lexMiddle g" m] assms(2) False m \<open>nxt = []\<close> low show ?thesis
        by (auto simp: AllocateRun_def)
    next
      case prev: False
      with run_next_ok [OF assms(1), of prev "nat n"] assms(2) False True show ?thesis
        by (auto simp: AllocateRun_def)
    qed
  next
    case nxt: False
    with run_before_ok [OF assms(1), of prev nxt "nat n"] assms(2) False show ?thesis
      by (auto simp: AllocateRun_def)
  qed
qed (use assms in \<open>auto simp: AllocateRun_def\<close>)


section \<open>The document order\<close>

text \<open>Block ids are distinct and not empty; \<open>recordToBlock\<close> drops a record without one.\<close>

definition good_ids :: "'v Block list \<Rightarrow> bool" where
  "good_ids blocks \<longleftrightarrow> distinct (map blkId blocks) \<and> list_all (\<lambda>b. blkId b \<noteq> []) blocks"

text \<open>The blocks from one up to the root, the nearest first.\<close>

inductive ancestry :: "'v Block list \<Rightarrow> 'v Block list \<Rightarrow> string \<Rightarrow> bool" for blocks :: "'v Block list" where
  root: "ancestry blocks [] RootParentId"
| below: "ancestry blocks anc (blkParent b) \<Longrightarrow> b \<in> set blocks \<Longrightarrow> ancestry blocks (b # anc) (blkId b)"

inductive_cases ancestry_NilE: "ancestry blocks [] p"
inductive_cases ancestry_ConsE: "ancestry blocks (b # anc) p"

lemma ancestry_end: "ancestry blocks anc p \<Longrightarrow> p = (case anc of [] \<Rightarrow> RootParentId | b # _ \<Rightarrow> blkId b)"
  by (cases rule: ancestry.cases) auto

lemma ancestry_mem: "ancestry blocks anc p \<Longrightarrow> set anc \<subseteq> set blocks"
  by (induction rule: ancestry.induct) auto

lemma ancestry_suffix: "ancestry blocks (xs @ b # anc) p \<Longrightarrow> ancestry blocks (b # anc) (blkId b)"
proof (induction xs arbitrary: p)
  case Nil
  then show ?case using ancestry_end by fastforce
next
  case (Cons x xs)
  then show ?case by (auto elim: ancestry_ConsE)
qed

lemma good_ids_inj: "good_ids blocks \<Longrightarrow> a \<in> set blocks \<Longrightarrow> b \<in> set blocks \<Longrightarrow> blkId a = blkId b \<Longrightarrow> a = b"
  by (auto simp: good_ids_def distinct_map dest: inj_onD)

lemma ancestry_unique:
  assumes "good_ids blocks"
  shows "ancestry blocks anc p \<Longrightarrow> ancestry blocks anc' p \<Longrightarrow> anc = anc'"
proof (induction arbitrary: anc' rule: ancestry.induct)
  case root
  then show ?case using assms
    by (cases anc') (auto elim!: ancestry_ConsE simp: good_ids_def list_all_iff RootParentId_def)
next
  case (below anc b)
  obtain b' anc'' where a: "anc' = b' # anc''"
    using below assms by (cases anc') (auto elim!: ancestry_NilE simp: good_ids_def list_all_iff RootParentId_def)
  with below.prems have b': "b' \<in> set blocks" "blkId b' = blkId b" "ancestry blocks anc'' (blkParent b')"
    by (auto elim: ancestry_ConsE)
  then have "b' = b" using good_ids_inj [OF assms] below.hyps by auto
  with below.IH b' a show ?case by auto
qed

lemma ancestry_distinct:
  assumes "good_ids blocks"
  shows "ancestry blocks anc p \<Longrightarrow> distinct anc"
proof (induction rule: ancestry.induct)
  case (below anc b)
  have "b \<notin> set anc"
  proof
    assume "b \<in> set anc"
    then obtain xs ys where anc: "anc = xs @ b # ys" by (meson split_list)
    with below have "ancestry blocks (b # ys) (blkId b)" "ancestry blocks (b # anc) (blkId b)"
      using ancestry_suffix ancestry.below by blast+
    from ancestry_unique [OF assms this] anc show False by simp
  qed
  with below show ?case by simp
qed simp

lemma append_all_eq: "append_all xs = (if None \<in> set xs then None else Some (concat (map the xs)))"
  by (induction xs) (auto split: option.splits)

lemma append_all_Some:
  "append_all xs = Some out \<longleftrightarrow> None \<notin> set xs \<and> out = concat (map the xs)"
  by (auto simp: append_all_eq)

lemma set_byParent: "set (byParent blocks p) = {b \<in> set blocks. blkParent b = p}"
  by (auto simp: byParent_def)

lemma walk_ends:
  assumes g: "good_ids blocks"
  shows "ancestry blocks anc p \<Longrightarrow> length blocks < n + length anc \<Longrightarrow> \<exists>out. walk n blocks p = Some out"
proof (induction n arbitrary: anc p)
  case 0
  have "length anc = card (set anc)" using ancestry_distinct [OF g 0(1)] by (simp add: distinct_card)
  also have "\<dots> \<le> card (set blocks)" using ancestry_mem [OF 0(1)] by (simp add: card_mono)
  also have "\<dots> \<le> length blocks" by (rule card_length)
  finally show ?case using 0 by simp
next
  case (Suc n)
  have "walk n blocks (blkId c) \<noteq> None" if c: "c \<in> set (byParent blocks p)" for c
  proof -
    have "ancestry blocks (c # anc) (blkId c)" using c Suc.prems(1) by (auto simp: set_byParent intro: ancestry.below)
    with Suc.IH [of "c # anc" "blkId c"] Suc.prems(2) show ?thesis by auto
  qed
  then show ?case by (fastforce simp: append_all_Some)
qed

lemma walk_unfold:
  assumes "walk (Suc n) blocks p = Some out"
  shows "\<exists>sub. (\<forall>c \<in> set (byParent blocks p). walk n blocks (blkId c) = Some (sub c)) \<and>
    out = concat (map (\<lambda>c. c # sub c) (byParent blocks p))"
proof (intro exI conjI)
  let ?sub = "\<lambda>c. the (walk n blocks (blkId c))"
  have ne: "walk n blocks (blkId c) \<noteq> None" if "c \<in> set (byParent blocks p)" for c
    using assms that by (auto simp: append_all_Some)
  then show "\<forall>c \<in> set (byParent blocks p). walk n blocks (blkId c) = Some (?sub c)" by auto
  have "out = concat (map the (map (\<lambda>b. map_option ((#) b) (walk n blocks (blkId b))) (byParent blocks p)))"
    using assms by (simp add: append_all_Some del: map_map)
  also have "map the (map (\<lambda>b. map_option ((#) b) (walk n blocks (blkId b))) (byParent blocks p)) =
      map (\<lambda>c. c # ?sub c) (byParent blocks p)"
    unfolding map_map using ne by (intro map_cong refl) (simp add: option.map_sel)
  finally show "out = concat (map (\<lambda>c. c # ?sub c) (byParent blocks p))" .
qed

lemma ancestry_child:
  assumes "ancestry blocks anc p"
  shows "c \<in> set (byParent blocks p) \<longleftrightarrow> ancestry blocks (c # anc) (blkId c)"
proof
  assume "c \<in> set (byParent blocks p)"
  with assms show "ancestry blocks (c # anc) (blkId c)" by (auto simp: set_byParent intro: ancestry.below)
next
  assume "ancestry blocks (c # anc) (blkId c)"
  then have "ancestry blocks anc (blkParent c)" "c \<in> set blocks" by (auto elim: ancestry_ConsE)
  then show "c \<in> set (byParent blocks p)"
    using ancestry_end [OF assms] ancestry_end [of blocks anc "blkParent c"] by (simp add: set_byParent)
qed

text \<open>What a walk visits: the blocks whose ancestry goes through its start.\<close>

lemma walk_set:
  assumes "good_ids blocks"
  shows "ancestry blocks anc p \<Longrightarrow> walk n blocks p = Some out \<Longrightarrow>
    b \<in> set out \<longleftrightarrow> (\<exists>q. ancestry blocks (b # q @ anc) (blkId b))"
proof (induction n arbitrary: anc p out)
  case (Suc n)
  obtain sub where sub: "\<forall>c \<in> set (byParent blocks p). walk n blocks (blkId c) = Some (sub c)"
    and out: "out = concat (map (\<lambda>c. c # sub c) (byParent blocks p))" using walk_unfold [OF Suc.prems(2)] by blast
  have child: "c \<in> set (byParent blocks p) \<longleftrightarrow> ancestry blocks (c # anc) (blkId c)" for c
    by (rule ancestry_child [OF Suc.prems(1)])
  have IH: "b \<in> set (sub c) \<longleftrightarrow> (\<exists>q. ancestry blocks (b # q @ c # anc) (blkId b))"
    if "c \<in> set (byParent blocks p)" for c
    using Suc.IH that child sub by simp
  have "b \<in> set out \<longleftrightarrow> (\<exists>c \<in> set (byParent blocks p). b = c \<or> b \<in> set (sub c))" by (auto simp: out)
  also have "\<dots> \<longleftrightarrow> (\<exists>c \<in> set (byParent blocks p). b = c \<or> (\<exists>q. ancestry blocks (b # q @ c # anc) (blkId b)))"
    using IH by blast
  also have "\<dots> \<longleftrightarrow> (\<exists>q. ancestry blocks (b # q @ anc) (blkId b))"
  proof
    assume "\<exists>c \<in> set (byParent blocks p). b = c \<or> (\<exists>q. ancestry blocks (b # q @ c # anc) (blkId b))"
    then obtain c where c: "c \<in> set (byParent blocks p)" "b = c \<or> (\<exists>q. ancestry blocks (b # q @ c # anc) (blkId b))" by blast
    from c(2) show "\<exists>q. ancestry blocks (b # q @ anc) (blkId b)"
    proof
      assume "b = c"
      with c(1) child show ?thesis by (intro exI [of _ "[]"]) simp
    next
      assume "\<exists>q. ancestry blocks (b # q @ c # anc) (blkId b)"
      then obtain q where "ancestry blocks (b # q @ c # anc) (blkId b)" ..
      then show ?thesis by (intro exI [of _ "q @ [c]"]) simp
    qed
  next
    assume "\<exists>q. ancestry blocks (b # q @ anc) (blkId b)"
    then obtain q where q: "ancestry blocks (b # q @ anc) (blkId b)" ..
    show "\<exists>c \<in> set (byParent blocks p). b = c \<or> (\<exists>q. ancestry blocks (b # q @ c # anc) (blkId b))"
    proof (cases q rule: rev_cases)
      case Nil
      with q child show ?thesis by auto
    next
      case (snoc q' c)
      have "ancestry blocks (c # anc) (blkId c)" using q snoc ancestry_suffix [of blocks "b # q'" c anc] by simp
      with q snoc child show ?thesis by auto
    qed
  qed
  finally show ?case .
qed simp


lemma walk_disjoint:
  assumes "good_ids blocks" "ancestry blocks (c # anc) (blkId c)" "ancestry blocks (c' # anc) (blkId c')"
    and w: "walk n blocks (blkId c) = Some out" "walk n blocks (blkId c') = Some out'"
    and b: "b \<in> insert c (set out)" "b \<in> insert c' (set out')"
  shows "c = c'"
proof -
  have up: "\<exists>q. ancestry blocks (q @ x # anc) (blkId b)"
    if "ancestry blocks (x # anc) (blkId x)" "walk n blocks (blkId x) = Some o'" "b \<in> insert x (set o')" for x o'
  proof (cases "b = x")
    case True
    with that show ?thesis by (intro exI [of _ "[]"]) simp
  next
    case False
    with that walk_set [OF assms(1) that(1,2), of b] obtain q where "ancestry blocks (b # q @ x # anc) (blkId b)" by auto
    then show ?thesis by (intro exI [of _ "b # q"]) simp
  qed
  obtain q q' where "ancestry blocks (q @ c # anc) (blkId b)" "ancestry blocks (q' @ c' # anc) (blkId b)"
    using up assms(2,3) w b by meson
  from ancestry_unique [OF assms(1) this] show ?thesis by simp
qed

lemma walk_not_above:
  assumes "good_ids blocks" "ancestry blocks anc p" "walk n blocks p = Some out" "b \<in> set out"
  shows "blkId b \<noteq> p"
proof
  assume "blkId b = p"
  with assms walk_set [OF assms(1-3), of b] obtain q where "ancestry blocks (b # q @ anc) p" by auto
  from ancestry_unique [OF assms(1) this assms(2)] show False by simp
qed

lemma distinct_byParent: "good_ids blocks \<Longrightarrow> distinct (byParent blocks p)"
  by (simp add: good_ids_def byParent_def distinct_map)

lemma walk_distinct:
  assumes g: "good_ids blocks"
  shows "ancestry blocks anc p \<Longrightarrow> walk n blocks p = Some out \<Longrightarrow> distinct out"
proof (induction n arbitrary: anc p out)
  case (Suc n)
  obtain sub where sub: "\<forall>c \<in> set (byParent blocks p). walk n blocks (blkId c) = Some (sub c)"
    and out: "out = concat (map (\<lambda>c. c # sub c) (byParent blocks p))" using walk_unfold [OF Suc.prems(2)] by blast
  note child = ancestry_child [OF Suc.prems(1)]
  have own: "distinct (c # sub c)" if "c \<in> set (byParent blocks p)" for c
    using Suc.IH [of "c # anc" "blkId c" "sub c"] walk_not_above [OF g, of "c # anc" "blkId c" n "sub c" c] sub child that
    by auto
  have other: "set (c # sub c) \<inter> set (c' # sub c') = {}"
    if "c \<in> set (byParent blocks p)" "c' \<in> set (byParent blocks p)" "c \<noteq> c'" for c c'
    using walk_disjoint [OF g, of c anc c' n "sub c" "sub c'"] that sub child by auto
  have "distinct (concat (map (\<lambda>c. c # sub c) cs))" if "set cs \<subseteq> set (byParent blocks p)" "distinct cs" for cs
    using that
  proof (induction cs)
    case (Cons c cs)
    have "set (c # sub c) \<inter> set (concat (map (\<lambda>c. c # sub c) cs)) = {}"
      using Cons.prems other [of c] by fastforce
    with Cons own [of c] show ?case by simp
  qed simp
  with distinct_byParent [OF g] out show ?case by blast
qed simp

lemma concat_single:
  "distinct cs \<Longrightarrow> c \<in> set cs \<Longrightarrow> \<forall>x \<in> set cs. x \<noteq> c \<longrightarrow> f x = [] \<Longrightarrow> concat (map f cs) = f c"
proof (induction cs)
  case (Cons x cs)
  then show ?case by (cases "x = c") (auto simp: concat_eq_Nil_conv)
qed simp

text \<open>The children of a visited block come in the order of their positions.\<close>

lemma walk_siblings:
  assumes g: "good_ids blocks"
  shows "ancestry blocks anc p \<Longrightarrow> walk n blocks p = Some out \<Longrightarrow>
    filter (\<lambda>b. blkParent b = q) out =
      (if q = p \<or> q \<in> blkId ` set out then byParent blocks q else [])"
proof (induction n arbitrary: anc p out)
  case (Suc n)
  let ?cs = "byParent blocks p" and ?f = "filter (\<lambda>b. blkParent b = q)"
  obtain sub where sub: "\<forall>c \<in> set ?cs. walk n blocks (blkId c) = Some (sub c)"
    and out: "out = concat (map (\<lambda>c. c # sub c) ?cs)" using walk_unfold [OF Suc.prems(2)] by blast
  note child = ancestry_child [OF Suc.prems(1)]
  have IH: "?f (sub c) = (if q \<in> blkId ` set (c # sub c) then byParent blocks q else [])" if "c \<in> set ?cs" for c
    using Suc.IH [of "c # anc" "blkId c" "sub c"] that sub child by auto
  have fout: "?f out = concat (map (\<lambda>c. ?f (c # sub c)) ?cs)"
    by (simp add: out filter_concat comp_def del: filter.simps)
  show ?case
  proof (cases "q = p")
    case True
    have "?f (c # sub c) = [c]" if c: "c \<in> set ?cs" for c
    proof -
      have "set (c # sub c) \<subseteq> set out" using c by (auto simp: out)
      then have "p \<notin> blkId ` set (c # sub c)"
        using walk_not_above [OF g Suc.prems] by auto
      with IH [OF c] True c show ?thesis by (simp add: set_byParent)
    qed
    then have "?f out = concat (map (\<lambda>c. [c]) ?cs)" unfolding fout by (metis (no_types, lifting) map_cong)
    with True show ?thesis by simp
  next
    case False
    have drop_own: "?f (c # sub c) = ?f (sub c)" if "c \<in> set ?cs" for c
      using that False by (simp add: set_byParent)
    show ?thesis
    proof (cases "q \<in> blkId ` set out")
      case True
      then obtain c b where c: "c \<in> set ?cs" and b: "b \<in> set (c # sub c)" "blkId b = q" by (auto simp: out)
      have "?f (x # sub x) = []" if x: "x \<in> set ?cs" "x \<noteq> c" for x
      proof -
        have "q \<notin> blkId ` set (x # sub x)"
        proof
          assume "q \<in> blkId ` set (x # sub x)"
          then obtain b' where b': "b' \<in> set (x # sub x)" "blkId b' = blkId b" using b(2) by (metis imageE)
          have "set out \<subseteq> set blocks" using walk_set [OF g Suc.prems] ancestry_mem by fastforce
          moreover have "b \<in> set out" "b' \<in> set out" using b(1) b'(1) c x(1) by (auto simp: out)
          ultimately have "b' = b" using good_ids_inj [OF g _ _ b'(2)] by blast
          with walk_disjoint [OF g, of c anc x n "sub c" "sub x" b] c x sub child b b' show False by auto
        qed
        with IH [OF x(1)] drop_own [OF x(1)] show ?thesis by simp
      qed
      then have "?f out = ?f (c # sub c)" unfolding fout
        using c distinct_byParent [OF g] by (intro concat_single) auto
      also have "\<dots> = byParent blocks q" using IH [OF c] drop_own [OF c] b by auto
      finally show ?thesis using True by simp
    next
      case nowhere: False
      have "?f (c # sub c) = []" if c: "c \<in> set ?cs" for c
      proof -
        have "q \<notin> blkId ` set (c # sub c)" using nowhere c by (auto simp: out)
        with IH [OF c] drop_own [OF c] show ?thesis by simp
      qed
      then show ?thesis unfolding fout using False nowhere by (simp add: concat_eq_Nil_conv)
    qed
  qed
qed simp


text \<open>A visited block comes after its parent.\<close>

definition comes_before :: "'a list \<Rightarrow> 'a \<Rightarrow> 'a \<Rightarrow> bool" where
  "comes_before xs a b \<longleftrightarrow> (\<exists>us vs. xs = us @ a # vs \<and> b \<in> set vs)"

lemma comes_before_append:
  "comes_before xs a b \<Longrightarrow> comes_before (us @ xs @ vs) a b"
  unfolding comes_before_def by (metis append.assoc append_Cons in_set_conv_decomp)

lemma walk_parents:
  assumes g: "good_ids blocks"
  shows "ancestry blocks anc p \<Longrightarrow> walk n blocks p = Some out \<Longrightarrow> b \<in> set out \<Longrightarrow> blkParent b \<noteq> p \<Longrightarrow>
    \<exists>a. comes_before out a b \<and> blkId a = blkParent b"
proof (induction n arbitrary: anc p out)
  case (Suc n)
  obtain sub where sub: "\<forall>c \<in> set (byParent blocks p). walk n blocks (blkId c) = Some (sub c)"
    and out: "out = concat (map (\<lambda>c. c # sub c) (byParent blocks p))" using walk_unfold [OF Suc.prems(2)] by blast
  note child = ancestry_child [OF Suc.prems(1)]
  obtain c where c: "c \<in> set (byParent blocks p)" "b \<in> set (c # sub c)" using Suc.prems(3) by (auto simp: out)
  then have b: "b \<in> set (sub c)" using Suc.prems(4) by (auto simp: set_byParent)
  have "\<exists>a. comes_before (c # sub c) a b \<and> blkId a = blkParent b"
  proof (cases "blkParent b = blkId c")
    case True
    with b show ?thesis unfolding comes_before_def by (metis append_Nil)
  next
    case False
    with Suc.IH [of "c # anc" "blkId c" "sub c"] c child sub b obtain a
      where "comes_before (sub c) a b" "blkId a = blkParent b" by blast
    then show ?thesis using comes_before_append [of "sub c" a b "[c]" "[]"] by auto
  qed
  moreover obtain us vs where "byParent blocks p = us @ c # vs" using c(1) by (meson split_list)
  then have "out = concat (map (\<lambda>c. c # sub c) us) @ (c # sub c) @ concat (map (\<lambda>c. c # sub c) vs)" by (simp add: out)
  ultimately show ?case using comes_before_append by metis
qed simp

text \<open>The blocks connected to the root.\<close>

inductive reached :: "'v Block list \<Rightarrow> 'v Block \<Rightarrow> bool" for blocks :: "'v Block list" where
  top: "b \<in> set blocks \<Longrightarrow> blkParent b = RootParentId \<Longrightarrow> reached blocks b"
| child: "b \<in> set blocks \<Longrightarrow> reached blocks a \<Longrightarrow> blkParent b = blkId a \<Longrightarrow> reached blocks b"

lemma reached_iff: "reached blocks b \<longleftrightarrow> (\<exists>anc. ancestry blocks (b # anc) (blkId b))"
proof
  show "reached blocks b \<Longrightarrow> \<exists>anc. ancestry blocks (b # anc) (blkId b)"
  proof (induction rule: reached.induct)
    case (top b)
    then show ?case using ancestry.below [of blocks "[]" b] ancestry.root [of blocks] by auto
  next
    case (child b a)
    then show ?case using ancestry.below [of blocks _ b] by metis
  qed
  have "ancestry blocks anc p \<Longrightarrow> anc = b # rest \<Longrightarrow> reached blocks b" for anc p rest
  proof (induction arbitrary: b rest rule: ancestry.induct)
    case (below anc b')
    show ?case
    proof (cases anc)
      case Nil
      with below show ?thesis by (auto elim!: ancestry_NilE intro: reached.top)
    next
      case (Cons a as)
      with below have "reached blocks a" "blkParent b' = blkId a" using ancestry_end by fastforce+
      with below show ?thesis by (auto intro: reached.child)
    qed
  qed simp
  then show "\<exists>anc. ancestry blocks (b # anc) (blkId b) \<Longrightarrow> reached blocks b" by blast
qed

text \<open>
  A document is listed in tree order: for blocks with distinct, non-empty ids the recursive walk
  ends, whatever their parents say; what it lists has no repeats and is exactly the blocks
  connected to the root; the children of the root and of every listed block come in the order of
  their positions (equal positions in the order of the input); and a block comes after its parent. The blocks whose
  parent is missing follow.
\<close>

theorem treeOrder_document_order:
  assumes "good_ids blocks"
  shows "\<exists>tree. treeOrder blocks = Some (tree @ orphans blocks) \<and> distinct tree \<and>
    set tree = {b. reached blocks b} \<and>
    (\<forall>q. filter (\<lambda>b. blkParent b = q) tree =
       (if q = RootParentId \<or> q \<in> blkId ` set tree then byParent blocks q else [])) \<and>
    (\<forall>b \<in> set tree. blkParent b \<noteq> RootParentId \<longrightarrow> (\<exists>a. comes_before tree a b \<and> blkId a = blkParent b))"
proof -
  note r = ancestry.root [of blocks]
  obtain tree where w: "walk (length blocks + 1) blocks RootParentId = Some tree"
    using walk_ends [OF assms r, of "length blocks + 1"] by auto
  have "set tree = {b. reached blocks b}"
    using walk_set [OF assms r w] by (auto simp: reached_iff)
  with w walk_distinct [OF assms r w] walk_siblings [OF assms r w] walk_parents [OF assms r w] show ?thesis
    by (intro exI [of _ tree]) (simp add: treeOrder_def)
qed

definition demo_block :: "string \<Rightarrow> string \<Rightarrow> string \<Rightarrow> tree Block" where
  "demo_block i parent pos = \<lparr>blkId = i, blkVer = None, blkType = ''paragraph'', blkStyle = None, blkText = i,
     blkNav = \<lparr>ParentId = parent, Pos = pos\<rparr>\<rparr>"

theorem treeOrder_document_order_witness:
  "\<exists>tree. distinct tree \<and> map blkId tree = [''a'', ''c'', ''b''] \<and>
     treeOrder [demo_block ''b'' [] ''2'', demo_block ''c'' ''a'' ''1'', demo_block ''a'' [] ''1''] = Some tree"
proof -
  let ?bs = "[demo_block ''b'' [] ''2'', demo_block ''c'' ''a'' ''1'', demo_block ''a'' [] ''1'']"
  have "good_ids ?bs" by code_simp
  from treeOrder_document_order [OF this] obtain tree
    where "treeOrder ?bs = Some (tree @ orphans ?bs)" "distinct tree" by blast
  moreover have "orphans ?bs = []" by code_simp
  moreover have "map_option (map blkId) (treeOrder ?bs) = Some [''a'', ''c'', ''b'']" by code_simp
  ultimately show ?thesis by auto
qed

text \<open>A child of a block whose parent is missing is in neither part.\<close>

lemma orphan_child_lost:
  "map_option (map blkId) (treeOrder [demo_block ''b'' ''gone'' ''1'', demo_block ''c'' ''b'' ''1'']) = Some [''b'']"
  by code_simp

text \<open>An allocator that satisfies the laws.\<close>

definition demo_lexid :: lexid where
  "demo_lexid = \<lparr>lexMiddle = ''m'', lexNext = (\<lambda>p. p @ ''a''),
     lexNextBefore = (\<lambda>p q. if p @ ''a'' < q then Some (p @ ''a'') else None)\<rparr>"

lemma demo_lexid_laws: "lexid_laws demo_lexid"
proof -
  have "p < p @ ''a''" for p :: string by (induction p) simp_all
  then show ?thesis by (auto simp: lexid_laws_def demo_lexid_def split: if_splits)
qed

end
