(* ===== verification/IndexLinks.thy ===== *)
theory IndexLinks
  imports EditorBlocks AnyUri MarkdownSplit
begin

text \<open>
  What a record contributes to the indexes: the edges of the link index (src/internal/index/links.go),
  the edges of an editor block (src/internal/editor/links.go) and the windows a document is cut into
  for search (src/internal/editor/window.go). The decoder of the synced-block envelope's JSON is a
  parameter.
\<close>

section \<open>Edges\<close>

definition LinkKindMention :: string where "LinkKindMention = ''mention''"
definition LinkKindLink :: string where "LinkKindLink = ''link''"
definition LinkKindRelation :: string where "LinkKindRelation = ''relation''"
definition LinkKindCard :: string where "LinkKindCard = ''card''"
definition LinkKindEmbed :: string where "LinkKindEmbed = ''embed''"

record LinkEntry =
  leObjectId :: string
  leDataset :: string
  leRecordId :: string
  leTypeId :: string
  leField :: string
  leKind :: string
  leTarget :: URI

definition LinkModeOne :: string where "LinkModeOne = ''link''"
definition LinkModeMany :: string where "LinkModeMany = ''links''"
definition LinkModeMarkdown :: string where "LinkModeMarkdown = ''markdown''"
definition LinkModeNone :: string where "LinkModeNone = ''none''"

definition LinkMode :: "(string \<Rightarrow> dyn option) option \<Rightarrow> string" where
  "LinkMode xf =
     (case xf of
        None \<Rightarrow> []
      | Some m \<Rightarrow>
          (case m ''links'' of
             Some raw \<Rightarrow>
               (let s = (case raw of DynString s \<Rightarrow> s | DynOther \<Rightarrow> [])
                in if s \<in> {LinkModeOne, LinkModeMany, LinkModeMarkdown} then s else [])
           | None \<Rightarrow>
               (case m ''type'' of
                  Some (DynString s) \<Rightarrow>
                    if s = ''relation'' \<or> s = ''member'' then LinkModeMany
                    else if s = ''markdown'' then LinkModeMarkdown
                    else []
                | _ \<Rightarrow> [])))"

definition ValidLinkMode :: "string \<Rightarrow> bool" where
  "ValidLinkMode s \<longleftrightarrow> s \<in> {LinkModeOne, LinkModeMany, LinkModeMarkdown, LinkModeNone}"

definition isSelf :: "URI \<Rightarrow> string \<Rightarrow> string \<Rightarrow> bool" where
  "isSelf c spaceId objectId \<longleftrightarrow>
     uKind c = KindObject \<and> uSpaceId c = spaceId \<and> uObjectId c = objectId \<and> uRecordId c = []"

text \<open>
  The body both loops share: the canonical target of a reference, unless there is none or it is the
  source object; the loops then keep the first target of each printed form.
\<close>

definition edge_target :: "string \<Rightarrow> string \<Rightarrow> URI \<Rightarrow> URI option" where
  "edge_target spaceId objectId u =
     (case URI_Canonical u spaceId of
        None \<Rightarrow> None
      | Some c \<Rightarrow> if isSelf c spaceId objectId then None else Some c)"

definition edge_targets :: "string \<Rightarrow> string \<Rightarrow> URI list \<Rightarrow> URI list" where
  "edge_targets spaceId objectId us = dedup_by URI_String [] (List.map_filter (edge_target spaceId objectId) us)"

definition mk_edge :: "string \<Rightarrow> string \<Rightarrow> string \<Rightarrow> string \<Rightarrow> URI \<Rightarrow> LinkEntry" where
  "mk_edge objectId dataset recordId kind c =
     \<lparr>leObjectId = objectId, leDataset = dataset, leRecordId = recordId, leTypeId = [], leField = [],
      leKind = kind, leTarget = c\<rparr>"

definition TextLinks :: "string \<Rightarrow> string \<Rightarrow> string \<Rightarrow> string \<Rightarrow> string \<Rightarrow> LinkEntry list" where
  "TextLinks spaceId objectId dataset recordId txt =
     map (\<lambda>c. mk_edge objectId dataset recordId
                (if uKind c = KindIdentity then LinkKindMention else LinkKindLink) c)
       (edge_targets spaceId objectId (ExtractLinks txt))"

definition parsed_refs :: "string list \<Rightarrow> URI list" where
  "parsed_refs refs = List.map_filter (\<lambda>ref. case Parse ref of Inl _ \<Rightarrow> None | Inr u \<Rightarrow> Some u) refs"

definition refLinks :: "string \<Rightarrow> string \<Rightarrow> string \<Rightarrow> string \<Rightarrow> string list \<Rightarrow> LinkEntry list" where
  "refLinks spaceId objectId dataset recordId refs =
     map (mk_edge objectId dataset recordId LinkKindRelation)
       (edge_targets spaceId objectId (parsed_refs refs))"

definition ValueLinks ::
  "'v anyenc \<Rightarrow> string \<Rightarrow> string \<Rightarrow> string \<Rightarrow> string \<Rightarrow> string \<Rightarrow> 'v option \<Rightarrow> LinkEntry list" where
  "ValueLinks enc spaceId objectId dataset recordId mode val =
     (case val of
        None \<Rightarrow> []
      | Some v \<Rightarrow>
          if mode = LinkModeMarkdown
          then (if vtyp enc v \<noteq> TypeString then [] else TextLinks spaceId objectId dataset recordId (vbytes enc v))
          else if mode = LinkModeOne
          then (if vtyp enc v \<noteq> TypeString then [] else refLinks spaceId objectId dataset recordId [vbytes enc v])
          else if mode = LinkModeMany
          then refLinks spaceId objectId dataset recordId
                 (if vtyp enc v = TypeArray
                  then map (vbytes enc) (filter (\<lambda>el. vtyp enc el = TypeString) (varray enc v []))
                  else if vtyp enc v = TypeString then [vbytes enc v] else [])
          else [])"

section \<open>Edges of a block\<close>

definition envelopeOpen :: string where "envelopeOpen = ''<!-- any:block ''"
definition envelopeClose :: string where "envelopeClose = ''-->''"
definition syncedBlock :: string where "syncedBlock = ''synced-block''"

text \<open>The label up to its closing bracket, and what follows the bracket; escapes are skipped.\<close>

fun label_end :: "string \<Rightarrow> (string \<times> string) option" where
  "label_end [] = None"
| "label_end (c # s) =
     (if c = CHR 0x5C
      then (case s of
              [] \<Rightarrow> None
            | d # s' \<Rightarrow> map_option (\<lambda>(l, r). (c # d # l, r)) (label_end s'))
      else if c = CHR '']'' then Some ([], s)
      else map_option (\<lambda>(l, r). (c # l, r)) (label_end s))"

definition wholeLineLink :: "string \<Rightarrow> string option" where
  "wholeLineLink txt =
     (let t = TrimSpace txt
      in if length t < 5 \<or> hd t \<noteq> CHR ''['' \<or> last t \<noteq> CHR '')'' then None
         else (case label_end (tl t) of
                 None \<Rightarrow> None
               | Some (label, rest) \<Rightarrow>
                   if label = [] \<or> rest = [] \<or> hd rest \<noteq> CHR ''('' then None
                   else
                     let dest = butlast (tl rest)
                     in if dest = [] \<or> (\<exists>c \<in> set dest. c \<in> {CHR '' '', CHR 0x09, CHR ''('', CHR '')'', CHR 0x5C})
                        then None else Some dest))"

definition isCardTarget :: "string \<Rightarrow> bool" where
  "isCardTarget dest =
     (case Parse dest of
        Inl _ \<Rightarrow> False
      | Inr u \<Rightarrow>
          if uLegacy u then False
          else if uKind u = KindObject then uRecordId u = []
          else uKind u = KindFile)"

record envelope =
  envKind :: string
  envRole :: string
  envRef :: string

definition embedLink ::
  "(string \<Rightarrow> envelope option) \<Rightarrow> string \<Rightarrow> string \<Rightarrow> string \<Rightarrow> 'v Block \<Rightarrow> LinkEntry option" where
  "embedLink unmarshal spaceId objectId collection b =
     (let t = TrimSpace (blkText b)
      in if \<not> has_prefix envelopeOpen t \<or> cut_suffix envelopeClose t = None then None
         else
           let raw = TrimSpace (take (length t - length envelopeClose - length envelopeOpen) (drop (length envelopeOpen) t))
           in (case unmarshal raw of
                 None \<Rightarrow> None
               | Some env \<Rightarrow>
                   if envKind env \<noteq> syncedBlock \<or> envRole env \<noteq> ''reference'' \<or> envRef env = [] then None
                   else (case Parse (envRef env) of
                           Inl _ \<Rightarrow> None
                         | Inr u \<Rightarrow>
                             (case URI_Canonical u spaceId of
                                None \<Rightarrow> None
                              | Some c \<Rightarrow> Some (mk_edge objectId collection (blkId b) LinkKindEmbed c)))))"

definition BlockLinks ::
  "(string \<Rightarrow> envelope option) \<Rightarrow> string \<Rightarrow> string \<Rightarrow> string \<Rightarrow> 'v Block \<Rightarrow> LinkEntry list" where
  "BlockLinks unmarshal spaceId objectId collection b =
     (case (if blkType b = TypeHTML then embedLink unmarshal spaceId objectId collection b else None) of
        Some e \<Rightarrow> [e]
      | None \<Rightarrow>
          let out = TextLinks spaceId objectId collection (blkId b) (blkText b)
          in if blkType b = TypeParagraph \<and> length out = 1
             then (case wholeLineLink (blkText b) of
                     Some dest \<Rightarrow> if isCardTarget dest then [(hd out)\<lparr>leKind := LinkKindCard\<rparr>] else out
                   | None \<Rightarrow> out)
             else out)"

section \<open>Windows\<close>

definition windowBudgetBytes :: nat where "windowBudgetBytes = 1500"

definition windowRecordPrefix :: string where "windowRecordPrefix = ''win_''"

record Window =
  AnchorId :: string
  BlockIds :: "string list"
  winText :: string
  winTitle :: string

text \<open>\<open>cur\<close> with \<open>started\<close> is an option; \<open>flush\<close> answers what it appends.\<close>

definition flush :: "Window option \<Rightarrow> Window list" where
  "flush cur =
     (case cur of
        None \<Rightarrow> []
      | Some w \<Rightarrow> if isBlank (winText w) then [] else [w])"

definition open_window :: "'v Block \<Rightarrow> Window" where
  "open_window b =
     \<lparr>AnchorId = blkId b, BlockIds = [], winText = [],
      winTitle = (if blkType b = TypeHeading then blkText b else [])\<rparr>"

definition add_block :: "Window \<Rightarrow> 'v Block \<Rightarrow> Window" where
  "add_block w b =
     w\<lparr>BlockIds := BlockIds w @ [blkId b],
       winText := (if blkText b = [] then winText w
                   else (if winText w = [] then [] else winText w @ [CHR 0x0A]) @ blkText b)\<rparr>"

definition breaks :: "Window \<Rightarrow> 'v Block \<Rightarrow> bool" where
  "breaks w b \<longleftrightarrow>
     blkType b = TypeHeading \<or> length (winText w) + length (blkText b) + 1 > windowBudgetBytes"

fun windows_from :: "Window option \<Rightarrow> 'v Block list \<Rightarrow> Window list" where
  "windows_from cur [] = flush cur"
| "windows_from cur (b # bs) =
     (case cur of
        Some w \<Rightarrow>
          if breaks w b then flush cur @ windows_from (Some (add_block (open_window b) b)) bs
          else windows_from (Some (add_block w b)) bs
      | None \<Rightarrow> windows_from (Some (add_block (open_window b) b)) bs)"

definition Windows :: "'v Block list \<Rightarrow> Window list" where
  "Windows ordered = windows_from None ordered"


section \<open>Edges are canonical, unique and complete\<close>

text \<open>A reference as the parser or the scanner of texts yields it.\<close>

definition near_wf :: "URI \<Rightarrow> bool" where
  "near_wf u \<longleftrightarrow> wf_uri u \<or>
     (\<exists>ob f. u = URI_zero\<lparr>uFragment := f, uKind := KindObject, uLegacy := True, uObjectId := ob\<rparr> \<and> seg_ok ob)"

definition canonical_uri :: "URI \<Rightarrow> bool" where
  "canonical_uri c \<longleftrightarrow> Parse (URI_String c) = Inr c \<and> (\<forall>sp. URI_Canonical c sp = Some c)"

lemma canonical_of_near:
  assumes "near_wf u" "URI_Canonical u sp = Some c" "seg_ok sp"
  shows "canonical_uri c"
proof -
  have wf: "canonical_uri c" if "wf_uri v" "URI_Canonical v sp = Some c" for v
    using Canonical_wf [OF that, where sp' = "_"] Parse_String_wf assms(3) unfolding canonical_uri_def by blast
  from assms(1) show ?thesis unfolding near_wf_def
  proof
    assume "wf_uri u"
    with wf assms(2) show ?thesis by blast
  next
    assume "\<exists>ob f. u = URI_zero\<lparr>uFragment := f, uKind := KindObject, uLegacy := True, uObjectId := ob\<rparr> \<and> seg_ok ob"
    then obtain ob f where u: "u = URI_zero\<lparr>uFragment := f, uKind := KindObject, uLegacy := True, uObjectId := ob\<rparr>"
      and ob: "seg_ok ob" by blast
    let ?v = "URI_zero\<lparr>uFragment := f, uKind := KindObject, uSpaceId := sp, uObjectId := ob\<rparr>"
    have "wf_uri ?v" by (rule wf_uri.wf_object [OF assms(3) ob])
    moreover have "URI_Canonical ?v sp = URI_Canonical u sp"
      by (simp add: u URI_Canonical_def URI_zero_def kind_defs Let_def)
    ultimately show ?thesis using wf [of ?v] assms(2) by simp
  qed
qed

lemma canonical_inj: "canonical_uri c \<Longrightarrow> canonical_uri d \<Longrightarrow> URI_String c = URI_String d \<Longrightarrow> c = d"
  unfolding canonical_uri_def by (metis sum.inject(2))

lemma edge_target_Some:
  "edge_target sp ob u = Some c \<longleftrightarrow> URI_Canonical u sp = Some c \<and> \<not> isSelf c sp ob"
  by (auto simp: edge_target_def split: option.splits if_splits)

text \<open>
  The contract of an extractor of edges: its targets are those of the references it reads from its
  input, in their order.
\<close>

locale edge_source =
  fixes links :: "string \<Rightarrow> string \<Rightarrow> 'i \<Rightarrow> LinkEntry list"
    and refs :: "'i \<Rightarrow> URI list"
  assumes targets: "map leTarget (links sp ob i) = edge_targets sp ob (refs i)"
    and refs_near: "u \<in> set (refs i) \<Longrightarrow> near_wf u"
begin

lemma target_from:
  assumes "e \<in> set (links sp ob i)"
  shows "\<exists>u \<in> set (refs i). URI_Canonical u sp = Some (leTarget e) \<and> \<not> isSelf (leTarget e) sp ob"
proof -
  have "leTarget e \<in> set (edge_targets sp ob (refs i))" using assms targets by (metis image_eqI list.set_map)
  then have "leTarget e \<in> set (List.map_filter (edge_target sp ob) (refs i))"
    unfolding edge_targets_def by (rule subsetD [OF dedup_by_subset])
  then show ?thesis by (auto simp: in_map_filter edge_target_Some)
qed

lemma target_canonical: "seg_ok sp \<Longrightarrow> e \<in> set (links sp ob i) \<Longrightarrow> canonical_uri (leTarget e)"
  using target_from canonical_of_near refs_near by blast

lemma targets_distinct: "distinct (map (\<lambda>e. URI_String (leTarget e)) (links sp ob i))"
proof -
  have "distinct (map URI_String (edge_targets sp ob (refs i)))"
    unfolding edge_targets_def by (rule dedup_by_distinct)
  then show ?thesis by (simp add: comp_def flip: targets)
qed

lemma targets_complete:
  assumes "seg_ok sp" "u \<in> set (refs i)" "URI_Canonical u sp = Some c" "\<not> isSelf c sp ob"
  shows "\<exists>e \<in> set (links sp ob i). leTarget e = c"
proof -
  have "c \<in> set (List.map_filter (edge_target sp ob) (refs i))"
    using assms(2-4) by (auto simp: in_map_filter edge_target_Some)
  then have "URI_String c \<in> URI_String ` set (edge_targets sp ob (refs i))"
    unfolding edge_targets_def dedup_by_set by simp
  then obtain e where e: "e \<in> set (links sp ob i)" "URI_String (leTarget e) = URI_String c"
    unfolding targets [symmetric] by auto
  have "canonical_uri c" using canonical_of_near refs_near assms by blast
  with e target_canonical [OF assms(1) e(1)] canonical_inj show ?thesis by blast
qed

end

lemma ExtractLinks_near: "u \<in> set (ExtractLinks doc) \<Longrightarrow> near_wf u"
proof -
  assume "u \<in> set (ExtractLinks doc)"
  then have "u \<in> set (List.map_filter (link_at doc) (filter (occurs_at doc) [0..<length doc]))"
    unfolding ExtractLinks_def extract_from_eq by (rule subsetD [OF dedup_by_subset])
  then obtain start where "link_at doc start = Some u" by (auto simp: in_map_filter)
  then obtain w where "Parse (link_token doc start) = Inr w" "shedGluedPeriod w = Some u"
    by (auto simp: link_at_def split: if_splits sum.splits)
  with shed_wf [OF Parse_wf] show ?thesis unfolding near_wf_def by blast
qed

interpretation text_edges: edge_source "\<lambda>sp ob txt. TextLinks sp ob ds rc txt" ExtractLinks for ds rc
  by unfold_locales (simp_all add: TextLinks_def mk_edge_def comp_def ExtractLinks_near)

lemma parsed_refs_near: "u \<in> set (parsed_refs rs) \<Longrightarrow> near_wf u"
proof -
  assume "u \<in> set (parsed_refs rs)"
  then obtain ref where "(case Parse ref of Inl _ \<Rightarrow> None | Inr u \<Rightarrow> Some u) = Some u"
    by (auto simp: parsed_refs_def in_map_filter)
  then have "Parse ref = Inr u" by (simp split: sum.splits)
  then show ?thesis using Parse_wf by (simp add: near_wf_def)
qed

interpretation ref_edges: edge_source "\<lambda>sp ob refs. refLinks sp ob ds rc refs" parsed_refs for ds rc
  by unfold_locales (simp_all add: refLinks_def mk_edge_def comp_def parsed_refs_near)


text \<open>What the link index asks of the edges of one source.\<close>

definition edges_ok :: "string \<Rightarrow> string \<Rightarrow> string \<Rightarrow> string \<Rightarrow> URI list \<Rightarrow> LinkEntry list \<Rightarrow> bool" where
  "edges_ok sp ob ds rc refs es \<longleftrightarrow>
     distinct (map (\<lambda>e. URI_String (leTarget e)) es) \<and>
     (\<forall>e \<in> set es. canonical_uri (leTarget e) \<and> \<not> isSelf (leTarget e) sp ob \<and>
        leObjectId e = ob \<and> leDataset e = ds \<and> leRecordId e = rc) \<and>
     (\<forall>u \<in> set refs. \<forall>c. URI_Canonical u sp = Some c \<longrightarrow> \<not> isSelf c sp ob \<longrightarrow> (\<exists>e \<in> set es. leTarget e = c))"

context edge_source
begin

lemma edges_okI:
  assumes "seg_ok sp" "\<forall>e \<in> set (links sp ob i). leObjectId e = ob \<and> leDataset e = ds \<and> leRecordId e = rc"
  shows "edges_ok sp ob ds rc (refs i) (links sp ob i)"
  unfolding edges_ok_def
  using targets_distinct target_canonical [OF assms(1)] target_from targets_complete [OF assms(1)] assms(2) by blast

end

lemma TextLinks_ok: "seg_ok sp \<Longrightarrow> edges_ok sp ob ds rc (ExtractLinks txt) (TextLinks sp ob ds rc txt)"
  by (rule text_edges.edges_okI) (auto simp: TextLinks_def mk_edge_def)

lemma refLinks_ok: "seg_ok sp \<Longrightarrow> edges_ok sp ob ds rc (parsed_refs rs) (refLinks sp ob ds rc rs)"
  by (rule ref_edges.edges_okI) (auto simp: refLinks_def mk_edge_def)

text \<open>A card differs from the edge of the text in its kind only.\<close>

lemma BlockLinks_text:
  assumes "blkType b \<noteq> TypeHTML \<or> embedLink unm sp ob ds b = None"
  shows "\<exists>k. BlockLinks unm sp ob ds b = TextLinks sp ob ds (blkId b) (blkText b) \<or>
    (\<exists>e. TextLinks sp ob ds (blkId b) (blkText b) = [e] \<and> BlockLinks unm sp ob ds b = [e\<lparr>leKind := k\<rparr>])"
proof -
  let ?out = "TextLinks sp ob ds (blkId b) (blkText b)"
  have none: "(if blkType b = TypeHTML then embedLink unm sp ob ds b else None) = None" using assms by auto
  show ?thesis
  proof (cases "length ?out = 1")
    case True
    then obtain e where "?out = [e]" by (auto simp: length_Suc_conv)
    then show ?thesis unfolding BlockLinks_def none by (auto simp: Let_def split: option.splits)
  next
    case False
    then show ?thesis unfolding BlockLinks_def none by (auto simp: Let_def)
  qed
qed

lemma BlockLinks_ok:
  assumes "seg_ok sp" "blkType b \<noteq> TypeHTML \<or> embedLink unm sp ob ds b = None"
  shows "edges_ok sp ob ds (blkId b) (ExtractLinks (blkText b)) (BlockLinks unm sp ob ds b)"
  using TextLinks_ok [OF assms(1), of ob ds "blkId b" "blkText b"] BlockLinks_text [OF assms(2)]
  by (auto simp: edges_ok_def)

lemma embedLink_ok:
  assumes "seg_ok sp" "embedLink unm sp ob ds b = Some e"
  shows "canonical_uri (leTarget e) \<and> leObjectId e = ob \<and> leDataset e = ds \<and> leRecordId e = blkId b"
proof -
  obtain u ref where "Parse ref = Inr u" "URI_Canonical u sp = Some (leTarget e)"
    "e = mk_edge ob ds (blkId b) LinkKindEmbed (leTarget e)"
    using assms(2) by (auto simp: embedLink_def mk_edge_def Let_def split: if_splits option.splits sum.splits)
  moreover from this have "canonical_uri (leTarget e)"
    using canonical_of_near [of u sp] Parse_wf assms(1) by (auto simp: near_wf_def)
  ultimately show ?thesis by (metis LinkEntry.select_convs(1-3) mk_edge_def)
qed

text \<open>
  The edges a block contributes to the link index can be keyed by their target: each target is
  canonical (it parses back from its printed form and is its own canonical form in every space), no
  two edges have the same one, none is the source object itself, all carry the block as their source,
  and no reference of the block's text that has a canonical form is missing. A block that embeds
  another one contributes the one canonical edge to it.
\<close>

theorem block_edges_exact:
  assumes "seg_ok spaceId"
  shows "if blkType b = TypeHTML \<and> embedLink unm spaceId ob ds b \<noteq> None
    then (\<exists>e. BlockLinks unm spaceId ob ds b = [e] \<and> canonical_uri (leTarget e) \<and>
            leObjectId e = ob \<and> leDataset e = ds \<and> leRecordId e = blkId b)
    else edges_ok spaceId ob ds (blkId b) (ExtractLinks (blkText b)) (BlockLinks unm spaceId ob ds b)"
proof (cases "blkType b = TypeHTML \<and> embedLink unm spaceId ob ds b \<noteq> None")
  case True
  then obtain e where "embedLink unm spaceId ob ds b = Some e" by auto
  with True embedLink_ok [OF assms this] show ?thesis by (simp add: BlockLinks_def)
next
  case False
  with BlockLinks_ok [OF assms, of b unm ob ds] show ?thesis by auto
qed

definition demo_link_block :: "tree Block" where
  "demo_link_block = (demo_block ''b1'' [] ''1'')\<lparr>blkText := ''see any://objectOne and any://o/spc.k/objectOne''\<rparr>"

theorem block_edges_exact_witness:
  "edges_ok ''spc.k'' ''src'' ''editor_blocks'' ''b1'' (ExtractLinks (blkText demo_link_block))
     (BlockLinks (\<lambda>_. None) ''spc.k'' ''src'' ''editor_blocks'' demo_link_block) \<and>
   map (\<lambda>e. URI_String (leTarget e)) (BlockLinks (\<lambda>_. None) ''spc.k'' ''src'' ''editor_blocks'' demo_link_block) =
     [''any://o/spc.k/objectOne'']"
proof -
  have "seg_ok ''spc.k''" by code_simp
  from block_edges_exact [OF this, of demo_link_block "\<lambda>_. None" "''src''" "''editor_blocks''"]
  have "edges_ok ''spc.k'' ''src'' ''editor_blocks'' ''b1'' (ExtractLinks (blkText demo_link_block))
     (BlockLinks (\<lambda>_. None) ''spc.k'' ''src'' ''editor_blocks'' demo_link_block)"
    by (simp add: demo_link_block_def demo_block_def TypeHTML_def)
  moreover have "map (\<lambda>e. URI_String (leTarget e)) (BlockLinks (\<lambda>_. None) ''spc.k'' ''src'' ''editor_blocks'' demo_link_block) =
     [''any://o/spc.k/objectOne'']"
    by code_simp
  ultimately show ?thesis by blast
qed

section \<open>Windows partition the document\<close>

text \<open>The texts of a run of blocks, joined by newlines, without the empty ones.\<close>

definition run_text :: "'v Block list \<Rightarrow> string" where
  "run_text g = join_with CHR 0x0A (filter (\<lambda>t. t \<noteq> []) (map blkText g))"

definition window_of :: "'v Block list \<Rightarrow> Window" where
  "window_of g =
     \<lparr>AnchorId = blkId (hd g), BlockIds = map blkId g, winText = run_text g,
      winTitle = (if blkType (hd g) = TypeHeading then blkText (hd g) else [])\<rparr>"

lemma add_open: "add_block (open_window b) b = window_of [b]"
  by (simp add: add_block_def open_window_def window_of_def run_text_def)

lemma run_text_snoc:
  "run_text (g @ [b]) =
     (if blkText b = [] then run_text g
      else (if run_text g = [] then [] else run_text g @ [CHR 0x0A]) @ blkText b)"
proof -
  let ?ts = "filter (\<lambda>t. t \<noteq> []) (map blkText g)"
  have "join_with c ts = [] \<longleftrightarrow> ts = []" if "\<forall>t \<in> set ts. t \<noteq> []" for c and ts :: "string list"
    using that by (induction c ts rule: join_with.induct) auto
  then have "run_text g = [] \<longleftrightarrow> ?ts = []" by (simp add: run_text_def)
  then show ?thesis
    by (cases "?ts = []") (auto simp: run_text_def join_with_append)
qed

lemma add_window: "g \<noteq> [] \<Longrightarrow> add_block (window_of g) b = window_of (g @ [b])"
  by (simp add: add_block_def window_of_def run_text_snoc)


definition run_ok :: "'v Block list \<Rightarrow> bool" where
  "run_ok g \<longleftrightarrow> g \<noteq> [] \<and> list_all (\<lambda>b. blkType b \<noteq> TypeHeading) (tl g) \<and>
     (length (run_text g) \<le> windowBudgetBytes \<or> length g = 1)"

text \<open>A cut into runs at exactly the breaks, and its windows.\<close>

definition cut_into :: "'v Block list \<Rightarrow> 'v Block list list \<Rightarrow> Window list \<Rightarrow> bool" where
  "cut_into bs gs ws \<longleftrightarrow> concat gs = bs \<and> list_all run_ok gs \<and>
     successively (\<lambda>g h. breaks (window_of g) (hd h)) gs \<and>
     ws = map window_of (filter (\<lambda>g. \<not> isBlank (run_text g)) gs)"

lemma run_ok_single: "run_ok [b]"
  by (simp add: run_ok_def)

lemma run_ok_snoc: "run_ok g \<Longrightarrow> \<not> breaks (window_of g) b \<Longrightarrow> run_ok (g @ [b])"
  by (auto simp: run_ok_def breaks_def window_of_def run_text_snoc)

lemma flush_window: "flush (Some (window_of g)) = map window_of (filter (\<lambda>g. \<not> isBlank (run_text g)) [g])"
  by (simp add: flush_def window_of_def)

lemma windows_from_cut:
  "run_ok g \<Longrightarrow> \<exists>gs. cut_into (g @ bs) gs (windows_from (Some (window_of g)) bs) \<and> gs \<noteq> [] \<and> hd (hd gs) = hd g"
proof (induction bs arbitrary: g)
  case Nil
  then show ?case by (intro exI [of _ "[g]"]) (auto simp: cut_into_def flush_window)
next
  case (Cons b bs)
  have g: "g \<noteq> []" using Cons.prems by (simp add: run_ok_def)
  show ?case
  proof (cases "breaks (window_of g) b")
    case True
    obtain gs where gs: "cut_into ([b] @ bs) gs (windows_from (Some (window_of [b])) bs)" "gs \<noteq> []" "hd (hd gs) = b"
      using Cons.IH [OF run_ok_single [of b]] by auto
    have "cut_into (g @ b # bs) (g # gs) (windows_from (Some (window_of g)) (b # bs))"
      using gs True Cons.prems flush_window [of g]
      by (cases gs) (auto simp: cut_into_def add_open)
    then show ?thesis by (intro exI [of _ "g # gs"]) simp
  next
    case False
    with Cons.IH [OF run_ok_snoc [OF Cons.prems False]] g show ?thesis by (simp add: add_window)
  qed
qed

text \<open>
  The windows of a document partition it: the blocks, in document order, are cut into runs
  at exactly the places where a heading comes or the budget would be exceeded; a run has a heading
  only at its front, and its text is within the budget unless it is a single block; the windows are
  those of the runs whose text is not blank, each with its first block's id as the anchor, all its
  block ids, their texts joined and the heading's text as the title.
\<close>

theorem Windows_partition:
  "\<exists>runs. cut_into ordered runs (Windows ordered)"
proof (cases ordered)
  case Nil
  then show ?thesis by (intro exI [of _ "[]"]) (simp add: cut_into_def Windows_def flush_def)
next
  case (Cons b bs)
  with windows_from_cut [OF run_ok_single [of b], of bs] show ?thesis
    by (auto simp: Windows_def add_open)
qed

end
