(* ===== verification/PushTopics.thy ===== *)
theory PushTopics
  imports ChatHandler
begin

text \<open>
  Push topics: what an account subscribes to (src/internal/push/topics.go) and what the chat hooks
  publish on (src/internal/push/chatpush.go). The digest \<open>sha256.Sum256\<close> is a parameter; its
  hexadecimal rendering is defined.
\<close>

named_theorems push_names "the mode and topic names"

definition SettingNotifyMode :: string where [push_names]: "SettingNotifyMode = ''notifyMode''"
definition ModeAll :: string where [push_names]: "ModeAll = ''all''"
definition ModeMentions :: string where [push_names]: "ModeMentions = ''mentions''"
definition ModeNone :: string where [push_names]: "ModeNone = ''none''"
definition TopicChats :: string where [push_names]: "TopicChats = ''chats''"

record chatNotify =
  cnObjectId :: string
  cnMode :: string

section \<open>Topics\<close>

definition hexDigit :: "nat \<Rightarrow> char" where
  "hexDigit n = ''0123456789abcdef'' ! n"

definition EncodeToString :: "string \<Rightarrow> string" where
  "EncodeToString bs = concat (map (\<lambda>c. [hexDigit (of_char c div 16), hexDigit (of_char c mod 16)]) bs)"

definition sha256hex :: "(string \<Rightarrow> string) \<Rightarrow> string \<Rightarrow> string" where
  "sha256hex sha i = EncodeToString (sha i)"

definition topicChat :: "(string \<Rightarrow> string) \<Rightarrow> string \<Rightarrow> string" where
  "topicChat sha chatObjectId = TopicChats @ ''/'' @ sha256hex sha chatObjectId"

definition topicChatMention :: "(string \<Rightarrow> string) \<Rightarrow> string \<Rightarrow> string \<Rightarrow> string" where
  "topicChatMention sha chatObjectId identity = topicChat sha chatObjectId @ ''/'' @ identity"

definition validMode :: "string \<Rightarrow> bool" where
  "validMode v \<longleftrightarrow> v = ModeAll \<or> v = ModeMentions \<or> v = ModeNone"

definition notifyMode :: "(string \<Rightarrow> dyn option) \<Rightarrow> string" where
  "notifyMode settings =
     (let v = (case settings SettingNotifyMode of Some (DynString s) \<Rightarrow> s | _ \<Rightarrow> [])
      in if validMode v then v else ModeAll)"

definition chat_topics :: "(string \<Rightarrow> string) \<Rightarrow> string \<Rightarrow> string \<Rightarrow> chatNotify \<Rightarrow> string list" where
  "chat_topics sha spaceMode identity ce =
     (let eff = (if validMode (cnMode ce) then cnMode ce else spaceMode)
      in if eff = ModeAll
         then [topicChat sha (cnObjectId ce), topicChatMention sha (cnObjectId ce) identity]
         else if eff = ModeMentions then [topicChatMention sha (cnObjectId ce) identity]
         else [])"

definition spaceTopics :: "(string \<Rightarrow> string) \<Rightarrow> string \<Rightarrow> chatNotify list \<Rightarrow> string \<Rightarrow> string list" where
  "spaceTopics sha spaceMode entries identity =
     (if \<not> list_ex (\<lambda>ce. validMode (cnMode ce)) entries
      then (if spaceMode = ModeAll then [TopicChats, identity]
            else if spaceMode = ModeMentions then [identity]
            else [])
      else concat (map (chat_topics sha spaceMode identity) entries))"

text \<open>The fields of the SDK's \<open>SpaceInfo\<close> the computation reads, the comparisons done.\<close>

record SpaceInfo =
  siId :: string
  siActive :: bool
  siOwner :: bool
  siOneToOne :: bool
  siSettings :: "string \<Rightarrow> dyn option"

record PushSpaceTopics =
  pstSpaceId :: string
  pstTopics :: "string list"

definition desiredSubs ::
  "(string \<Rightarrow> string) \<Rightarrow> SpaceInfo list \<Rightarrow> (string \<Rightarrow> chatNotify list) \<Rightarrow> string \<Rightarrow>
   PushSpaceTopics list \<times> string list" where
  "desiredSubs sha infos chats identity =
     (let actives = filter siActive infos;
          register = map siId (filter (\<lambda>i. siOwner i \<or> siOneToOne i) actives);
          subs = filter (\<lambda>s. pstTopics s \<noteq> [])
            (map (\<lambda>i. \<lparr>pstSpaceId = siId i,
                       pstTopics = spaceTopics sha (notifyMode (siSettings i)) (chats (siId i)) identity\<rparr>) actives)
      in (sort_key pstSpaceId subs, sort register))"

text \<open>The bytes \<open>desiredHash\<close> writes to the digest, and its value.\<close>

definition desired_bytes :: "string list \<Rightarrow> PushSpaceTopics list \<Rightarrow> string" where
  "desired_bytes register subs =
     concat (map (\<lambda>i. ''r'' @ [CHR 0x00] @ i @ [CHR 0x00]) register) @
     concat (map (\<lambda>s. ''s'' @ [CHR 0x00] @ pstSpaceId s @ [CHR 0x00] @
       concat (map (\<lambda>t. t @ [CHR 0x00]) (pstTopics s))) subs)"

definition desiredHash :: "(string \<Rightarrow> string) \<Rightarrow> string list \<Rightarrow> PushSpaceTopics list \<Rightarrow> string" where
  "desiredHash sha register subs = EncodeToString (sha (desired_bytes register subs))"

section \<open>What the hooks publish\<close>

definition stringArray :: "'v anyenc \<Rightarrow> 'v \<Rightarrow> string \<Rightarrow> string list" where
  "stringArray enc rec field = map (vbytes enc) (filter (\<lambda>v. vtyp enc v = TypeString) (varray enc rec [field]))"

definition mention_topics :: "(string \<Rightarrow> string) \<Rightarrow> string \<Rightarrow> string list \<Rightarrow> string list" where
  "mention_topics sha objectId ms = concat (map (\<lambda>m. [topicChatMention sha objectId m, m]) ms)"

text \<open>\<open>NotifyChatMessage\<close>: the broadcast on the superset of topics.\<close>

definition send_topics :: "(string \<Rightarrow> string) \<Rightarrow> string \<Rightarrow> string list \<Rightarrow> string list" where
  "send_topics sha objectId mentions = [TopicChats, topicChat sha objectId] @ mention_topics sha objectId mentions"

definition addedMentions :: "string list \<Rightarrow> string list \<Rightarrow> string list" where
  "addedMentions before after = filter (\<lambda>m. m \<notin> set before) after"

text \<open>\<open>NotifyChatEdit\<close>: the mentions the edit added, or no notification.\<close>

definition edit_topics :: "(string \<Rightarrow> string) \<Rightarrow> string \<Rightarrow> string list \<Rightarrow> string list \<Rightarrow> string list option" where
  "edit_topics sha objectId before after =
     (let added = addedMentions before after
      in if added = [] then None else Some (mention_topics sha objectId added))"

text \<open>The topics of \<open>notifyOwnDevices\<close>.\<close>

definition own_topics :: "(string \<Rightarrow> string) \<Rightarrow> string \<Rightarrow> string \<Rightarrow> string list" where
  "own_topics sha objectId self = [self, topicChatMention sha objectId self]"

text \<open>
  The hooks of the chat handlers, as the jobs they enqueue in order. \<open>rec\<close> is the message read
  back (\<open>None\<close> when the read fails), \<open>payload\<close> its encrypted preview to be (\<open>None\<close> when building
  it fails), and \<open>snap\<close> the record ids of the account's unread changes two seconds later (\<open>None\<close>
  when the context ended or the snapshot failed).
\<close>

record notifyJob =
  jobSpaceId :: string
  jobTopics :: "string list"
  jobPayload :: string
  jobGroupId :: string
  jobSilent :: bool
  jobOwnDevices :: bool

definition AgentNameNudgePrefix :: string where "AgentNameNudgePrefix = ''trigger:''"

definition IsNudgeAgentName :: "string \<Rightarrow> bool" where
  "IsNudgeAgentName name \<longleftrightarrow> has_prefix AgentNameNudgePrefix name"

definition notifyOwnDevices ::
  "(string \<Rightarrow> string) \<Rightarrow> string \<Rightarrow> string \<Rightarrow> string \<Rightarrow> string \<Rightarrow> string \<Rightarrow>
   string list list option \<Rightarrow> notifyJob list" where
  "notifyOwnDevices sha self spaceId objectId msgId payload snap =
     (case snap of None \<Rightarrow> []
      | Some changes \<Rightarrow>
          if \<not> list_ex (\<lambda>ids. msgId \<in> set ids) changes then []
          else [\<lparr>jobSpaceId = spaceId, jobTopics = own_topics sha objectId self, jobPayload = payload,
                 jobGroupId = sha256hex sha objectId, jobSilent = False, jobOwnDevices = True\<rparr>])"

definition NotifyChatMessage ::
  "(string \<Rightarrow> string) \<Rightarrow> 'v anyenc \<Rightarrow> string \<Rightarrow> string \<Rightarrow> string \<Rightarrow> string \<Rightarrow> 'v option \<Rightarrow>
   ('v \<Rightarrow> string option) \<Rightarrow> string list list option \<Rightarrow> notifyJob list" where
  "NotifyChatMessage sha enc self spaceId objectId msgId rec chatPayload snap =
     (case rec of None \<Rightarrow> [] | Some rec \<Rightarrow>
      case chatPayload rec of None \<Rightarrow> [] | Some payload \<Rightarrow>
        \<lparr>jobSpaceId = spaceId, jobTopics = send_topics sha objectId (stringArray enc rec FieldMentions),
         jobPayload = payload, jobGroupId = sha256hex sha objectId, jobSilent = False, jobOwnDevices = False\<rparr> #
        (if vbool enc rec [FieldAgent, FieldAgentDone] \<and>
            \<not> IsNudgeAgentName (vstr enc rec [FieldAgent, FieldAgentName])
         then notifyOwnDevices sha self spaceId objectId msgId payload snap else []))"

definition NotifyChatEdit ::
  "(string \<Rightarrow> string) \<Rightarrow> 'v anyenc \<Rightarrow> string \<Rightarrow> string \<Rightarrow> string list \<Rightarrow> 'v option \<Rightarrow>
   ('v \<Rightarrow> string option) \<Rightarrow> notifyJob list" where
  "NotifyChatEdit sha enc spaceId objectId before rec chatPayload =
     (case rec of None \<Rightarrow> [] | Some rec \<Rightarrow>
      case edit_topics sha objectId before (stringArray enc rec FieldMentions) of None \<Rightarrow> [] | Some topics \<Rightarrow>
      case chatPayload rec of None \<Rightarrow> [] | Some payload \<Rightarrow>
        [\<lparr>jobSpaceId = spaceId, jobTopics = topics, jobPayload = payload,
          jobGroupId = sha256hex sha objectId, jobSilent = False, jobOwnDevices = False\<rparr>])"

definition ChatMentionsBefore :: "'v anyenc \<Rightarrow> 'v option \<Rightarrow> string list option" where
  "ChatMentionsBefore enc rec = map_option (\<lambda>rec. stringArray enc rec FieldMentions) rec"

definition NotifyChatRead :: "(string \<Rightarrow> string) \<Rightarrow> string \<Rightarrow> string \<Rightarrow> notifyJob list" where
  "NotifyChatRead sha spaceId objectId =
     [\<lparr>jobSpaceId = spaceId, jobTopics = [], jobPayload = [], jobGroupId = sha256hex sha objectId,
       jobSilent = True, jobOwnDevices = False\<rparr>]"

section \<open>Topic names do not collide\<close>


lemma hexDigit_noslash: "n < 16 \<Longrightarrow> hexDigit n \<noteq> CHR ''/''"
proof -
  assume n: "n < 16"
  have "hexDigit n \<in> set ''0123456789abcdef''" unfolding hexDigit_def by (rule nth_mem) (use n in simp)
  then show ?thesis by auto
qed

lemma char_nibbles: "of_char c div 16 < (16::nat)" "of_char c mod 16 < (16::nat)" for c :: char
  by (cases c; simp add: of_char_def)+

lemma hexDigit_inj: "m < 16 \<Longrightarrow> n < 16 \<Longrightarrow> hexDigit m = hexDigit n \<Longrightarrow> m = n"
proof -
  have "distinct ''0123456789abcdef''" by simp
  then show "m < 16 \<Longrightarrow> n < 16 \<Longrightarrow> hexDigit m = hexDigit n \<Longrightarrow> m = n"
    unfolding hexDigit_def by (subst (asm) nth_eq_iff_index_eq) simp_all
qed

lemma EncodeToString_Cons:
  "EncodeToString (c # bs) = hexDigit (of_char c div 16) # hexDigit (of_char c mod 16) # EncodeToString bs"
  by (simp add: EncodeToString_def)

lemma EncodeToString_noslash: "CHR ''/'' \<notin> set (EncodeToString bs)"
proof (induction bs)
  case (Cons c bs)
  then show ?case using hexDigit_noslash char_nibbles [of c] by (metis EncodeToString_Cons set_ConsD)
qed (simp add: EncodeToString_def)

lemma EncodeToString_inj: "EncodeToString as = EncodeToString bs \<Longrightarrow> as = bs"
proof (induction as arbitrary: bs)
  case Nil
  then show ?case by (cases bs) (simp_all add: EncodeToString_def)
next
  case (Cons a as)
  then obtain b bs' where bs: "bs = b # bs'" by (cases bs) (simp_all add: EncodeToString_def)
  with Cons.prems have "(of_char a div 16 :: nat) = of_char b div 16" "(of_char a mod 16 :: nat) = of_char b mod 16"
    "EncodeToString as = EncodeToString bs'"
    using hexDigit_inj char_nibbles by (auto simp: EncodeToString_Cons)
  then have "(of_char a :: nat) = of_char b" "as = bs'" using Cons.IH by (metis div_mult_mod_eq)+
  then show ?case using bs by simp
qed

text \<open>An identity is never a chat topic: it has no slash, and it is not the word of the space-wide topic.\<close>

definition plain_identity :: "string \<Rightarrow> bool" where
  "plain_identity i \<longleftrightarrow> CHR ''/'' \<notin> set i \<and> i \<noteq> TopicChats"

lemma topicChat_eq:
  assumes "inj_on sha S" "a \<in> S" "b \<in> S"
  shows "topicChat sha a = topicChat sha b \<longleftrightarrow> a = b"
  using assms EncodeToString_inj by (auto simp: topicChat_def sha256hex_def dest: inj_onD)

lemma slash_append: "CHR ''/'' \<notin> set x \<Longrightarrow> CHR ''/'' \<notin> set y \<Longrightarrow>
    x @ CHR ''/'' # u = y @ CHR ''/'' # v \<longleftrightarrow> x = y \<and> u = v"
  by (auto simp: append_eq_append_conv2 Cons_eq_append_conv append_eq_Cons_conv)

lemma topicChatMention_eq:
  assumes "inj_on sha S" "a \<in> S" "b \<in> S"
  shows "topicChatMention sha a i = topicChatMention sha b j \<longleftrightarrow> a = b \<and> i = j"
proof -
  have "topicChatMention sha a i = topicChatMention sha b j \<longleftrightarrow> sha256hex sha a = sha256hex sha b \<and> i = j"
    using slash_append [of "sha256hex sha a" "sha256hex sha b" i j] EncodeToString_noslash
    by (simp add: topicChatMention_def topicChat_def sha256hex_def)
  then show ?thesis using assms EncodeToString_inj by (auto simp: sha256hex_def dest: inj_onD)
qed

lemma topic_kinds [simp]:
  "topicChat sha a \<noteq> TopicChats" "TopicChats \<noteq> topicChat sha a"
  "topicChatMention sha a i \<noteq> TopicChats" "TopicChats \<noteq> topicChatMention sha a i"
  by (simp_all add: topicChatMention_def topicChat_def)

lemma topic_levels [simp]: "topicChat sha a \<noteq> topicChatMention sha b i" "topicChatMention sha b i \<noteq> topicChat sha a"
proof -
  have "CHR ''/'' \<notin> set (sha256hex sha a)" by (simp add: sha256hex_def EncodeToString_noslash)
  then have "sha256hex sha a \<noteq> sha256hex sha b @ CHR ''/'' # i" by auto
  then show "topicChat sha a \<noteq> topicChatMention sha b i" "topicChatMention sha b i \<noteq> topicChat sha a"
    by (auto simp: topicChatMention_def topicChat_def)
qed

lemma topic_not_identity:
  assumes "plain_identity i"
  shows "topicChat sha a \<noteq> i" "topicChatMention sha a j \<noteq> i" "TopicChats \<noteq> i"
  using assms by (auto simp: plain_identity_def topicChatMention_def topicChat_def)

lemma topics_not_mentions:
  assumes "\<forall>m \<in> set ms. plain_identity m"
  shows "topicChat sha a \<notin> set ms" "topicChatMention sha a j \<notin> set ms" "TopicChats \<notin> set ms"
  using assms topic_not_identity by blast+

lemma modes_differ [simp]:
  "ModeAll \<noteq> ModeMentions" "ModeAll \<noteq> ModeNone" "ModeMentions \<noteq> ModeNone"
  "ModeMentions \<noteq> ModeAll" "ModeNone \<noteq> ModeAll" "ModeNone \<noteq> ModeMentions"
  by (simp_all add: push_names)

section \<open>Modes decide who is notified\<close>

definition eff_mode :: "string \<Rightarrow> chatNotify \<Rightarrow> string" where
  "eff_mode spaceMode ce = (if validMode (cnMode ce) then cnMode ce else spaceMode)"

definition hears :: "string list \<Rightarrow> string list \<Rightarrow> bool" where
  "hears held published \<longleftrightarrow> set held \<inter> set published \<noteq> {}"

lemma mention_topics_set:
  "set (mention_topics sha c ms) = topicChatMention sha c ` set ms \<union> set ms"
  by (auto simp: mention_topics_def)

lemma chat_topics_hear:
  assumes "inj_on sha S" "cnObjectId ce \<in> S" "chat \<in> S" "plain_identity me" "\<forall>m \<in> set ms. plain_identity m"
  shows "hears (chat_topics sha mode me ce) (mention_topics sha chat ms) \<longleftrightarrow>
      cnObjectId ce = chat \<and> eff_mode mode ce \<in> {ModeAll, ModeMentions} \<and> me \<in> set ms"
    and "hears (chat_topics sha mode me ce) [TopicChats, topicChat sha chat] \<longleftrightarrow>
      cnObjectId ce = chat \<and> eff_mode mode ce = ModeAll"
proof -
  let ?x = "cnObjectId ce" and ?held = "chat_topics sha mode me ce"
  have ct: "?held = (if eff_mode mode ce = ModeAll then [topicChat sha ?x, topicChatMention sha ?x me]
      else if eff_mode mode ce = ModeMentions then [topicChatMention sha ?x me] else [])"
    unfolding chat_topics_def eff_mode_def Let_def ..
  have "topicChat sha ?x \<notin> set (mention_topics sha chat ms)"
    using topics_not_mentions [OF assms(5)] by (auto simp: mention_topics_set)
  moreover have "topicChatMention sha ?x me \<in> set (mention_topics sha chat ms) \<longleftrightarrow> ?x = chat \<and> me \<in> set ms"
    using topics_not_mentions [OF assms(5)] topicChatMention_eq [OF assms(1-3)] by (auto simp: mention_topics_set)
  ultimately show "hears ?held (mention_topics sha chat ms) \<longleftrightarrow>
      ?x = chat \<and> eff_mode mode ce \<in> {ModeAll, ModeMentions} \<and> me \<in> set ms"
    unfolding ct hears_def by auto
  show "hears ?held [TopicChats, topicChat sha chat] \<longleftrightarrow> ?x = chat \<and> eff_mode mode ce = ModeAll"
    unfolding ct hears_def using topicChat_eq [OF assms(1-3)] by auto
qed

lemma hears_append: "hears held (a @ b) \<longleftrightarrow> hears held a \<or> hears held b"
  "hears (concat hs) p \<longleftrightarrow> (\<exists>h \<in> set hs. hears h p)"
  by (auto simp: hears_def)


lemma bulk_hears:
  assumes "plain_identity me" "\<forall>m \<in> set ms. plain_identity m"
  shows "hears [me] (mention_topics sha chat ms) \<longleftrightarrow> me \<in> set ms"
    and "\<not> hears [me] [TopicChats, topicChat sha chat]"
    and "\<not> hears [TopicChats] (mention_topics sha chat ms)"
  using topic_not_identity [OF assms(1)] topics_not_mentions [OF assms(2)]
  by (auto simp: hears_def mention_topics_set) blast

lemma hears_Cons: "hears (a # b) p \<longleftrightarrow> hears [a] p \<or> hears b p"
  by (auto simp: hears_def)

text \<open>
  Who hears what, in both granularities: broadcasts need the mode \<open>all\<close>, mentions any mode but
  \<open>none\<close>.
\<close>

lemma space_hears:
  assumes inj: "inj_on sha (cnObjectId ` set entries)" and d: "distinct (map cnObjectId entries)"
    and ce: "ce \<in> set entries" and ids: "plain_identity me" "\<forall>m \<in> set ms. plain_identity m"
    and mode: "validMode mode"
  shows "hears (spaceTopics sha mode entries me) (mention_topics sha (cnObjectId ce) ms) \<longleftrightarrow>
      eff_mode mode ce \<noteq> ModeNone \<and> me \<in> set ms"
    and "hears (spaceTopics sha mode entries me) [TopicChats, topicChat sha (cnObjectId ce)] \<longleftrightarrow>
      eff_mode mode ce = ModeAll"
proof -
  let ?held = "spaceTopics sha mode entries me" and ?c = "cnObjectId ce"
  have none: "eff_mode mode ce \<noteq> ModeNone \<longleftrightarrow> eff_mode mode ce \<in> {ModeAll, ModeMentions}"
    using mode by (auto simp: eff_mode_def validMode_def push_names)
  have "(hears ?held (mention_topics sha ?c ms) \<longleftrightarrow> eff_mode mode ce \<noteq> ModeNone \<and> me \<in> set ms) \<and>
      (hears ?held [TopicChats, topicChat sha ?c] \<longleftrightarrow> eff_mode mode ce = ModeAll)"
  proof (cases "list_ex (\<lambda>ce. validMode (cnMode ce)) entries")
    case True
    have held: "?held = concat (map (chat_topics sha mode me) entries)" using True by (simp add: spaceTopics_def)
    have own: "x = ce" if "x \<in> set entries" "cnObjectId x = ?c" for x
      using d ce that by (auto simp: distinct_map dest: inj_onD)
    have hear: "hears (chat_topics sha mode me x) (mention_topics sha ?c ms) \<longleftrightarrow>
        x = ce \<and> eff_mode mode ce \<noteq> ModeNone \<and> me \<in> set ms"
      "hears (chat_topics sha mode me x) [TopicChats, topicChat sha ?c] \<longleftrightarrow> x = ce \<and> eff_mode mode ce = ModeAll"
      if "x \<in> set entries" for x
      using chat_topics_hear [OF inj, of x ?c me ms mode] that ce ids own [OF that] none by auto
    show ?thesis unfolding held hears_append set_map using hear ce by blast
  next
    case False
    then have eff: "eff_mode mode ce = mode" using ce by (auto simp: eff_mode_def list_ex_iff)
    have all: "hears [TopicChats] [TopicChats, topicChat sha ?c]" and no: "\<not> hears [] p" for p
      by (simp_all add: hears_def)
    have held: "?held = (if mode = ModeAll then [TopicChats, me] else if mode = ModeMentions then [me] else [])"
      using False by (simp add: spaceTopics_def)
    note bulk = bulk_hears [OF ids, of sha ?c]
    consider "mode = ModeAll" | "mode = ModeMentions" | "mode = ModeNone" using mode by (auto simp: validMode_def)
    then show ?thesis
    proof cases
      case 1
      then show ?thesis using all bulk eff unfolding held by (simp add: hears_Cons [of TopicChats "[me]"])
    next
      case 2
      then show ?thesis using bulk eff unfolding held by simp
    next
      case 3
      then show ?thesis using no eff unfolding held by simp
    qed
  qed
  then show "hears ?held (mention_topics sha ?c ms) \<longleftrightarrow> eff_mode mode ce \<noteq> ModeNone \<and> me \<in> set ms"
    "hears ?held [TopicChats, topicChat sha ?c] \<longleftrightarrow> eff_mode mode ce = ModeAll" by blast+
qed

lemma notifyMode_valid: "validMode (notifyMode settings)"
  by (auto simp: notifyMode_def Let_def validMode_def)

text \<open>
  The push node's part, as its clients document it: a loud notification goes to the devices of the
  accounts that hold one of its topics, the publisher's own account only with the own-devices flag.
\<close>

definition notified :: "string list \<Rightarrow> string \<Rightarrow> string \<Rightarrow> notifyJob list \<Rightarrow> bool" where
  "notified held me self jobs \<longleftrightarrow>
     list_ex (\<lambda>job. \<not> jobSilent job \<and> hears held (jobTopics job) \<and> (me = self \<longrightarrow> jobOwnDevices job)) jobs"

lemma own_topics_mention: "hears held (own_topics sha c self) \<longleftrightarrow> hears held (mention_topics sha c [self])"
  by (auto simp: hears_def own_topics_def mention_topics_def)

text \<open>
  C19. The notification mode is respected, across sender and receiver: whether a space is subscribed in
  bulk or per chat, with the member's mode for the chat its own valid setting or else the space's,
  a new message reaches another member exactly when the member's mode is \<open>all\<close>, or is \<open>mentions\<close>
  and the message mentions the member; it reaches the sender's own account exactly when it is the
  last message of an agent's reply (not a service nudge), is still unread after the delay and the
  mode is not \<open>none\<close>, so an owner in mode \<open>mentions\<close> gets every agent reply; an edit reaches exactly
  the other members it newly mentions whose mode is not \<open>none\<close>. So a muted chat stays silent. Assumed:
  the message is read back and its payload built, the digest does not collide on the space's chats,
  each chat is listed once, and identities are plain words.
\<close>

theorem notify_mode_respected:
  fixes settings :: "string \<Rightarrow> dyn option" and snap :: "string list list option" and msgId :: string
  assumes "inj_on sha (cnObjectId ` set entries)" "distinct (map cnObjectId entries)" "ce \<in> set entries"
    and "plain_identity me" "plain_identity self"
    and "\<forall>m \<in> set (stringArray enc rec FieldMentions). plain_identity m"
    and "chatPayload rec = Some payload"
  defines "mode \<equiv> eff_mode (notifyMode settings) ce"
    and "held \<equiv> spaceTopics sha (notifyMode settings) entries me"
    and "mentions \<equiv> stringArray enc rec FieldMentions"
    and "agent_reply \<equiv> vbool enc rec [FieldAgent, FieldAgentDone] \<and>
      \<not> IsNudgeAgentName (vstr enc rec [FieldAgent, FieldAgentName])"
    and "unread \<equiv> case snap of None \<Rightarrow> False | Some changes \<Rightarrow> list_ex (\<lambda>ids. msgId \<in> set ids) changes"
  shows "(notified held me self
        (NotifyChatMessage sha enc self spaceId (cnObjectId ce) msgId (Some rec) chatPayload snap) \<longleftrightarrow>
      (if me = self then agent_reply \<and> unread \<and> mode \<noteq> ModeNone
       else mode = ModeAll \<or> mode = ModeMentions \<and> me \<in> set mentions)) \<and>
    (notified held me self (NotifyChatEdit sha enc spaceId (cnObjectId ce) before (Some rec) chatPayload) \<longleftrightarrow>
      me \<noteq> self \<and> mode \<noteq> ModeNone \<and> me \<in> set mentions \<and> me \<notin> set before)"
proof -
  note h = space_hears [OF assms(1-4) _ notifyMode_valid]
  let ?c = "cnObjectId ce"
  have mode: "mode = ModeAll \<or> mode = ModeMentions \<or> mode = ModeNone"
    unfolding mode_def eff_mode_def using notifyMode_valid by (auto simp: validMode_def)
  have ids: "\<forall>m \<in> set mentions. plain_identity m" using assms(6) by (simp add: mentions_def)
  then have added: "\<forall>m \<in> set (addedMentions before mentions). plain_identity m"
    by (auto simp: addedMentions_def)
  have "hears held (send_topics sha ?c mentions) \<longleftrightarrow> mode = ModeAll \<or> mode \<noteq> ModeNone \<and> me \<in> set mentions"
    unfolding send_topics_def hears_append held_def mode_def using h [OF ids] by blast
  also have "\<dots> \<longleftrightarrow> mode = ModeAll \<or> mode = ModeMentions \<and> me \<in> set mentions"
    using mode by (auto simp: push_names)
  finally have send: "hears held (send_topics sha ?c mentions) \<longleftrightarrow>
      mode = ModeAll \<or> mode = ModeMentions \<and> me \<in> set mentions" .
  have own: "hears held (own_topics sha ?c self) \<longleftrightarrow> mode \<noteq> ModeNone \<and> me = self"
    unfolding own_topics_mention held_def mode_def using h(1) [of "[self]"] assms(5) by simp
  have edit: "hears held (mention_topics sha ?c (addedMentions before mentions)) \<longleftrightarrow>
      mode \<noteq> ModeNone \<and> me \<in> set mentions \<and> me \<notin> set before"
    using h(1) [OF added] by (simp add: held_def mode_def addedMentions_def)
  have "notified held me self (NotifyChatMessage sha enc self spaceId ?c msgId (Some rec) chatPayload snap) \<longleftrightarrow>
      me \<noteq> self \<and> hears held (send_topics sha ?c mentions) \<or>
      agent_reply \<and> unread \<and> hears held (own_topics sha ?c self)"
    using assms(7) by (auto simp: notified_def NotifyChatMessage_def notifyOwnDevices_def mentions_def
        agent_reply_def unread_def split: option.splits)
  moreover have "notified held me self (NotifyChatEdit sha enc spaceId ?c before (Some rec) chatPayload) \<longleftrightarrow>
      me \<noteq> self \<and> hears held (mention_topics sha ?c (addedMentions before mentions))"
    using assms(7) by (auto simp: notified_def NotifyChatEdit_def edit_topics_def Let_def mentions_def [symmetric]
        mention_topics_def [of sha ?c "[]"] hears_def)
  ultimately show ?thesis using send own edit by auto
qed

definition demo_reply :: tree where
  "demo_reply = TObj [(''text'', TStr ''done''), (''agent'', TObj [(''name'', TStr ''bot''), (''done'', TBool True)])]"

theorem notify_mode_respected_witness:
  "notified (spaceTopics (\<lambda>s. s) ModeAll [\<lparr>cnObjectId = ''c1'', cnMode = ''mentions''\<rparr>] ''bob'') ''bob'' ''bob''
      (NotifyChatMessage (\<lambda>s. s) tree_enc ''bob'' ''sp1'' ''c1'' ''m1'' (Some demo_reply) (\<lambda>_. Some []) (Some [[''m1'']]))"
proof -
  let ?ce = "\<lparr>cnObjectId = ''c1'', cnMode = ''mentions''\<rparr>"
  have h: "inj_on (\<lambda>s. s) (cnObjectId ` set [?ce])" "distinct (map cnObjectId [?ce])" "?ce \<in> set [?ce]"
    "plain_identity ''bob''"
    by (simp_all add: inj_on_def plain_identity_def push_names)
  have ids: "stringArray tree_enc demo_reply FieldMentions = []" by code_simp
  have mode: "eff_mode (notifyMode (\<lambda>_. None)) ?ce = ModeMentions" "notifyMode (\<lambda>_. None) = ModeAll"
    by (simp_all add: eff_mode_def validMode_def notifyMode_def push_names)
  have reply: "vbool tree_enc demo_reply [FieldAgent, FieldAgentDone]"
    "\<not> IsNudgeAgentName (vstr tree_enc demo_reply [FieldAgent, FieldAgentName])" by code_simp+
  show ?thesis
    using notify_mode_respected [OF h h(4), where enc = tree_enc and rec = demo_reply and settings = "\<lambda>_. None"
        and chatPayload = "\<lambda>_. Some []" and snap = "Some [[''m1'']]" and msgId = "''m1''" and spaceId = "''sp1''"]
      ids mode reply by simp
qed

end
