(* ===== verification/PushService.thy ===== *)
theory PushService
  imports PushTopics
begin

text \<open>
  The push service of an account (src/internal/push/push.go): the device token and its forwarding,
  the round that reconciles the account's subscriptions with the push node, and the delivery queue.
  The push node and the space list are the environment: their answers are inputs of the steps, and
  what the node has accepted is recorded beside the service's own state. Locks make each step atomic;
  a call to the node is a step of its own, so that other handlers interleave with it. Whether a push
  node is configured is fixed when the SDK opens (\<open>ErrPushNotConfigured\<close> otherwise). Logging,
  timers and the token file are left out.
\<close>

section \<open>State\<close>

record deviceToken =
  Platform :: string
  Token :: string

text \<open>How a call to the node ends; a lost one took effect although its reply is an error.\<close>

datatype rpc = RpcOk | RpcFail | RpcLost

record Service =
  svToken :: "deviceToken option"
  svForwarded :: bool
  svLastHash :: string
  svNotConfigured :: bool
  svChatModes :: "string \<rightharpoonup> chatNotify list"
  svQueue :: "notifyJob list"
  svSetCalls :: "deviceToken list"
  svEnsureCall :: "deviceToken option"
  svRound :: bool
  nodeTokens :: "deviceToken list"
  nodeSubs :: "PushSpaceTopics list option"
  nodeDrift :: bool

text \<open>
  \<open>svSetCalls\<close>, \<open>svEnsureCall\<close> and \<open>svRound\<close> are the calls under way: the \<open>SetToken\<close> requests, the
  forward of \<open>ensureToken\<close>, and a round past its idle check. The last three fields record what the
  node accepted; \<open>nodeDrift\<close> tells that it took a subscription set which the service does not
  account for, because the round was partial or the reply was lost.
\<close>

definition notifyQueueCap :: nat where "notifyQueueCap = 256"

definition notifyAttempts :: nat where "notifyAttempts = 6"

definition Service_New :: Service where
  "Service_New =
     \<lparr>svToken = None, svForwarded = False, svLastHash = [], svNotConfigured = False,
      svChatModes = Map.empty, svQueue = [], svSetCalls = [], svEnsureCall = None,
      svRound = False, nodeTokens = [], nodeSubs = None, nodeDrift = False\<rparr>"

text \<open>\<open>Start\<close> loads the persisted token.\<close>

definition Service_Start :: "deviceToken option \<Rightarrow> Service \<Rightarrow> Service" where
  "Service_Start tok s = s\<lparr>svToken := tok\<rparr>"

section \<open>The device token\<close>

definition markForwarded :: "deviceToken \<Rightarrow> Service \<Rightarrow> Service" where
  "markForwarded sent s = (if svToken s = Some sent then s\<lparr>svForwarded := True\<rparr> else s)"

definition syncFailure :: "bool \<Rightarrow> Service \<Rightarrow> Service" where
  "syncFailure configured s = (if \<not> configured then s\<lparr>svNotConfigured := True\<rparr> else s)"

text \<open>What the node records of a token it is sent.\<close>

definition node_token :: "rpc \<Rightarrow> deviceToken \<Rightarrow> Service \<Rightarrow> Service" where
  "node_token r t s = (if r = RpcFail then s else s\<lparr>nodeTokens := t # nodeTokens s\<rparr>)"

text \<open>\<open>SetToken\<close> up to its call, and from the call's answer on.\<close>

datatype set_error = UnknownPlatform | EmptyToken

definition SetToken_begin :: "deviceToken \<Rightarrow> Service \<Rightarrow> set_error + Service" where
  "SetToken_begin t s =
     (if Platform t \<notin> {''ios'', ''android''} then Inl UnknownPlatform
      else if Token t = [] then Inl EmptyToken
      else Inr (s\<lparr>svToken := Some t, svForwarded := False, svSetCalls := t # svSetCalls s\<rparr>))"

definition SetToken_end :: "bool \<Rightarrow> deviceToken \<Rightarrow> rpc \<Rightarrow> Service \<Rightarrow> Service" where
  "SetToken_end configured t r s =
     (if t \<notin> set (svSetCalls s) then s
      else
        let s1 = s\<lparr>svSetCalls := remove1 t (svSetCalls s)\<rparr>
        in if \<not> configured then s1\<lparr>svToken := None\<rparr>
           else if r = RpcOk then markForwarded t (node_token r t s1)
           else node_token r t s1)"

definition RevokeToken :: "bool \<Rightarrow> Service \<Rightarrow> Service" where
  "RevokeToken configured s = (if \<not> configured then s else s\<lparr>svToken := None, svForwarded := False\<rparr>)"

definition TokenStatus :: "Service \<Rightarrow> bool \<times> string" where
  "TokenStatus s = (case svToken s of None \<Rightarrow> (False, []) | Some t \<Rightarrow> (True, Platform t))"

text \<open>
  The head of \<open>syncOnce\<close>, its idle check and the snapshot \<open>ensureToken\<close> takes, and what follows the
  answer to the forward. There is one sync loop, so one round at a time.
\<close>

definition ensureToken_begin :: "Service \<Rightarrow> Service" where
  "ensureToken_begin s =
     (if svNotConfigured s \<or> svRound s then s
      else s\<lparr>svRound := True, svEnsureCall := (if svForwarded s then None else svToken s)\<rparr>)"

definition ensureToken_end :: "bool \<Rightarrow> rpc \<Rightarrow> Service \<Rightarrow> Service" where
  "ensureToken_end configured r s =
     (case svEnsureCall s of
        None \<Rightarrow> s
      | Some snap \<Rightarrow>
          let s1 = s\<lparr>svEnsureCall := None\<rparr>
          in if \<not> configured then syncFailure configured s1
             else if r = RpcOk then markForwarded snap (node_token r snap s1)
             else node_token r snap s1)"

section \<open>The reconcile round\<close>

text \<open>
  What a round meets: the space list (or the error of listing it), the enumeration of each space's
  chats, and how the calls end. \<open>rdDead\<close> tells whether the round's context has ended when the
  registration of a space returns.
\<close>

record round =
  rdInfos :: "SpaceInfo list option"
  rdEnum :: "string \<Rightarrow> chatNotify list option"
  rdRegister :: "string \<Rightarrow> rpc"
  rdDead :: "string \<Rightarrow> bool"
  rdSubscribe :: rpc

definition cachedChatModes :: "Service \<Rightarrow> string \<Rightarrow> chatNotify list option" where
  "cachedChatModes s i = svChatModes s i"

definition storeChatModes :: "string \<Rightarrow> chatNotify list \<Rightarrow> Service \<Rightarrow> Service" where
  "storeChatModes i entries s = s\<lparr>svChatModes := (svChatModes s)(i \<mapsto> entries)\<rparr>"

definition pruneChatModes :: "string set \<Rightarrow> Service \<Rightarrow> Service" where
  "pruneChatModes active s = s\<lparr>svChatModes := (svChatModes s) |` active\<rparr>"

text \<open>The loop: the entries of each active space (\<open>None\<close> when it is omitted), and the cache.\<close>

fun collect_loop ::
  "(string \<Rightarrow> chatNotify list option) \<Rightarrow> SpaceInfo list \<Rightarrow> (string \<Rightarrow> chatNotify list) \<Rightarrow> string list \<Rightarrow> Service \<Rightarrow>
   (string \<Rightarrow> chatNotify list) \<times> string list \<times> Service" where
  "collect_loop enum [] out omit s = (out, omit, s)"
| "collect_loop enum (info # infos) out omit s =
     (if \<not> siActive info then collect_loop enum infos out omit s
      else (case enum (siId info) of
              None \<Rightarrow>
                (case cachedChatModes s (siId info) of
                   None \<Rightarrow> collect_loop enum infos out (siId info # omit) s
                 | Some cached \<Rightarrow> collect_loop enum infos (out(siId info := cached)) omit s)
            | Some entries \<Rightarrow>
                collect_loop enum infos (out(siId info := entries)) omit (storeChatModes (siId info) entries s)))"

definition collectChatModes ::
  "(string \<Rightarrow> chatNotify list option) \<Rightarrow> SpaceInfo list \<Rightarrow> Service \<Rightarrow>
   (string \<Rightarrow> chatNotify list) \<times> string list \<times> Service" where
  "collectChatModes enum infos s =
     (let (out, omit, s1) = collect_loop enum infos (\<lambda>_. []) [] s
      in (out, omit, pruneChatModes (siId ` set (filter siActive infos)) s1))"

fun register_all :: "bool \<Rightarrow> round \<Rightarrow> string list \<Rightarrow> bool" where
  "register_all configured rd [] = True"
| "register_all configured rd (i # register) =
     (if rdRegister rd i \<noteq> RpcOk \<and> (\<not> configured \<or> rdDead rd i) then False
      else register_all configured rd register)"

text \<open>
  \<open>reconcile\<close>: whether the subscriptions landed. Without a push node every call fails.
\<close>

definition reconcile ::
  "bool \<Rightarrow> round \<Rightarrow> string list \<Rightarrow> PushSpaceTopics list \<Rightarrow> Service \<Rightarrow> bool \<times> Service" where
  "reconcile configured rd register subs s =
     (if \<not> configured then (False, syncFailure configured s)
      else if \<not> register_all configured rd register then (False, syncFailure configured s)
      else if rdSubscribe rd = RpcOk then (True, s\<lparr>nodeSubs := Some subs\<rparr>)
      else if rdSubscribe rd = RpcLost then (False, s\<lparr>nodeSubs := Some subs\<rparr>)
      else (False, s))"

text \<open>\<open>syncOnce\<close> after \<open>ensureToken\<close>. The desired state is computed from the spaces that are kept.\<close>

definition desired ::
  "(string \<Rightarrow> string) \<Rightarrow> string \<Rightarrow> round \<Rightarrow> SpaceInfo list \<Rightarrow> Service \<Rightarrow>
   (PushSpaceTopics list \<times> string list) \<times> string list \<times> Service" where
  "desired sha self rd infos s =
     (let (chats, omit, s1) = collectChatModes (rdEnum rd) infos s
      in (desiredSubs sha (filter (\<lambda>i. siId i \<notin> set omit) infos) chats self, omit, s1))"

definition syncOnce_rest :: "(string \<Rightarrow> string) \<Rightarrow> string \<Rightarrow> bool \<Rightarrow> round \<Rightarrow> Service \<Rightarrow> Service" where
  "syncOnce_rest sha self configured rd s0 =
     (if \<not> svRound s0 \<or> svEnsureCall s0 \<noteq> None then s0
      else
        let s = s0\<lparr>svRound := False\<rparr>
        in case rdInfos rd of
             None \<Rightarrow> s
           | Some infos \<Rightarrow>
               let ((subs, register), omit, s1) = desired sha self rd infos s;
                   h = desiredHash sha register subs
               in if h = svLastHash s1 then s1
                  else
                    let (landed, s2) = reconcile configured rd register subs s1
                    in if \<not> landed then s2\<lparr>nodeDrift := nodeDrift s2 \<or> nodeSubs s2 \<noteq> nodeSubs s1\<rparr>
                       else if omit \<noteq> [] then s2\<lparr>nodeDrift := True\<rparr>
                       else s2\<lparr>svLastHash := h, nodeDrift := False\<rparr>)"

section \<open>The delivery queue\<close>

definition Enqueue :: "notifyJob \<Rightarrow> Service \<Rightarrow> Service" where
  "Enqueue job s =
     (if length (svQueue s) < notifyQueueCap then s\<lparr>svQueue := svQueue s @ [job]\<rparr> else s)"

datatype notify_result = NotifyOk | NoValidTopics | NotConfigured | NotifyFail

datatype notify_call =
    NotifySilent string string
  | NotifyOwnDevices string "string list" string string
  | Notify string "string list" string string

definition notifyOnce :: "notifyJob \<Rightarrow> notify_call" where
  "notifyOnce job =
     (if jobSilent job then NotifySilent (jobSpaceId job) (jobGroupId job)
      else if jobOwnDevices job
      then NotifyOwnDevices (jobSpaceId job) (jobTopics job) (jobPayload job) (jobGroupId job)
      else Notify (jobSpaceId job) (jobTopics job) (jobPayload job) (jobGroupId job))"

text \<open>
  \<open>deliver\<close>: the calls it makes and the service after them, given how each call ends and whether the
  service is closed by then. \<open>n\<close> attempts are left.
\<close>

fun deliver_loop ::
  "nat \<Rightarrow> notifyJob \<Rightarrow> (nat \<Rightarrow> notify_result) \<Rightarrow> (nat \<Rightarrow> bool) \<Rightarrow> nat \<Rightarrow> Service \<Rightarrow> notify_call list \<times> Service" where
  "deliver_loop 0 job result closed attempt s = ([], s)"
| "deliver_loop (Suc n) job result closed attempt s =
     (case result attempt of
        NotifyOk \<Rightarrow> ([notifyOnce job], s)
      | NoValidTopics \<Rightarrow> ([notifyOnce job], s)
      | NotConfigured \<Rightarrow> ([notifyOnce job], syncFailure False s)
      | NotifyFail \<Rightarrow>
          if closed attempt then ([notifyOnce job], s)
          else (let (calls, s1) = deliver_loop n job result closed (attempt + 1) s
                in (notifyOnce job # calls, s1)))"

definition deliverJob ::
  "notifyJob \<Rightarrow> (nat \<Rightarrow> notify_result) \<Rightarrow> (nat \<Rightarrow> bool) \<Rightarrow> Service \<Rightarrow> notify_call list \<times> Service" where
  "deliverJob job result closed s = deliver_loop notifyAttempts job result closed 1 s"

text \<open>One turn of \<open>notifyLoop\<close>.\<close>

definition notify_turn :: "bool \<Rightarrow> (nat \<Rightarrow> notify_result) \<Rightarrow> (nat \<Rightarrow> bool) \<Rightarrow> Service \<Rightarrow> Service" where
  "notify_turn configured result closed s =
     (case svQueue s of
        [] \<Rightarrow> s
      | job # jobs \<Rightarrow>
          snd (deliverJob job (\<lambda>k. if configured then (if result k = NotConfigured then NotifyFail else result k) else NotConfigured)
                 closed (s\<lparr>svQueue := jobs\<rparr>)))"

section \<open>Steps\<close>

datatype push_op =
    SetBegin deviceToken
  | SetEnd deviceToken rpc
  | Revoke
  | EnsureBegin
  | EnsureEnd rpc
  | Round round
  | Queue notifyJob
  | Turn "nat \<Rightarrow> notify_result" "nat \<Rightarrow> bool"

fun push_step :: "(string \<Rightarrow> string) \<Rightarrow> string \<Rightarrow> bool \<Rightarrow> Service \<Rightarrow> push_op \<Rightarrow> Service" where
  "push_step sha self conf s (SetBegin t) = (case SetToken_begin t s of Inl _ \<Rightarrow> s | Inr s' \<Rightarrow> s')"
| "push_step sha self conf s (SetEnd t r) = SetToken_end conf t r s"
| "push_step sha self conf s Revoke = RevokeToken conf s"
| "push_step sha self conf s EnsureBegin = ensureToken_begin s"
| "push_step sha self conf s (EnsureEnd r) = ensureToken_end conf r s"
| "push_step sha self conf s (Round rd) = syncOnce_rest sha self conf rd s"
| "push_step sha self conf s (Queue job) = Enqueue job s"
| "push_step sha self conf s (Turn result closed) = notify_turn conf result closed s"

text \<open>The service after its start on a persisted token and a sequence of steps.\<close>

abbreviation push_run :: "(string \<Rightarrow> string) \<Rightarrow> string \<Rightarrow> bool \<Rightarrow> deviceToken option \<Rightarrow> push_op list \<Rightarrow> Service" where
  "push_run sha self conf tok ops \<equiv> foldl (push_step sha self conf) (Service_Start tok Service_New) ops"

section \<open>The last known chat modes\<close>

text \<open>The loop against its specification: what is known of a space's chats in a round.\<close>

definition last_good :: "(string \<Rightarrow> chatNotify list option) \<Rightarrow> Service \<Rightarrow> string \<Rightarrow> chatNotify list option" where
  "last_good enum s i = (case enum i of Some entries \<Rightarrow> Some entries | None \<Rightarrow> svChatModes s i)"

definition actives :: "SpaceInfo list \<Rightarrow> string set" where
  "actives infos = siId ` set (filter siActive infos)"

lemma actives_simps [simp]:
  "actives [] = {}"
  "actives (info # infos) = (if siActive info then insert (siId info) (actives infos) else actives infos)"
  by (simp_all add: actives_def)

definition learned :: "(string \<Rightarrow> chatNotify list option) \<Rightarrow> string set \<Rightarrow> Service \<Rightarrow> Service" where
  "learned enum A s = s\<lparr>svChatModes := \<lambda>i. if i \<in> A then last_good enum s i else svChatModes s i\<rparr>"

definition known :: "(string \<Rightarrow> chatNotify list option) \<Rightarrow> Service \<Rightarrow> string set \<Rightarrow> (string \<Rightarrow> chatNotify list) \<Rightarrow> string \<Rightarrow> chatNotify list" where
  "known enum s A out i = (if i \<in> A then (case last_good enum s i of Some e \<Rightarrow> e | None \<Rightarrow> out i) else out i)"

lemma last_good_store:
  "enum i = Some e \<Longrightarrow> last_good enum (storeChatModes i e s) j = last_good enum s j"
  by (auto simp: last_good_def storeChatModes_def split: option.splits)

lemma collect_loop_learned:
  "snd (snd (collect_loop enum infos out omit s)) = learned enum (actives infos) s"
proof (induction infos arbitrary: out omit s)
  case Nil
  show ?case by (simp add: learned_def)
next
  case (Cons info infos)
  show ?case
  proof (cases "siActive info")
    case False
    with Cons.IH show ?thesis by simp
  next
    case True
    show ?thesis
    proof (cases "enum (siId info)")
      case None
      have "learned enum (insert (siId info) (actives infos)) s = learned enum (actives infos) s"
        unfolding learned_def by (rule arg_cong [where f = "\<lambda>m. s\<lparr>svChatModes := m\<rparr>"]) (use None in \<open>auto simp: last_good_def\<close>)
      with True None Cons.IH show ?thesis by (simp split: option.split)
    next
      case (Some e)
      let ?s = "storeChatModes (siId info) e s"
      have "(\<lambda>i. if i \<in> actives infos then last_good enum ?s i else svChatModes ?s i) =
          (\<lambda>i. if i \<in> insert (siId info) (actives infos) then last_good enum s i else svChatModes s i)"
        using last_good_store [where enum = enum and i = "siId info" and e = e and s = s, OF Some] Some
        by (auto simp: fun_eq_iff last_good_def storeChatModes_def)
      then have "learned enum (actives infos) ?s = learned enum (insert (siId info) (actives infos)) s"
        unfolding learned_def by (simp only:) (simp add: storeChatModes_def)
      with True Some Cons.IH show ?thesis by simp
    qed
  qed
qed

lemma collect_loop_known:
  "fst (collect_loop enum infos out omit s) = known enum s (actives infos) out"
proof (induction infos arbitrary: out omit s)
  case Nil
  show ?case by (simp add: known_def fun_eq_iff)
next
  case (Cons info infos)
  show ?case
  proof (cases "siActive info")
    case False
    with Cons.IH show ?thesis by simp
  next
    case True
    show ?thesis
    proof (cases "last_good enum s (siId info)")
      case None
      then have n: "enum (siId info) = None" "cachedChatModes s (siId info) = None"
        by (auto simp: last_good_def cachedChatModes_def split: option.splits)
      with True Cons.IH None show ?thesis by (auto simp: known_def fun_eq_iff)
    next
      case (Some e)
      have k: "known enum s' (actives infos) (out(siId info := e)) = known enum s (insert (siId info) (actives infos)) out"
        if "\<And>j. last_good enum s' j = last_good enum s j" for s'
        using Some that by (auto simp: known_def fun_eq_iff split: option.split)
      show ?thesis
      proof (cases "enum (siId info)")
        case None
        then have "cachedChatModes s (siId info) = Some e" using Some by (simp add: last_good_def cachedChatModes_def)
        with True None Cons.IH k [of s] show ?thesis by (simp add: fun_upd_def)
      next
        case e': (Some e')
        then have "e' = e" using Some by (simp add: last_good_def)
        with True e' Cons.IH k [of "storeChatModes (siId info) e s"] last_good_store [where enum = enum and i = "siId info" and e = e' and s = s, OF e'] show ?thesis by (simp add: fun_upd_def)
      qed
    qed
  qed
qed

lemma collect_loop_omit:
  "set (fst (snd (collect_loop enum infos out omit s))) =
     set omit \<union> {i \<in> actives infos. last_good enum s i = None}"
proof (induction infos arbitrary: out omit s)
  case (Cons info infos)
  show ?case
  proof (cases "siActive info")
    case False
    with Cons.IH show ?thesis by simp
  next
    case True
    show ?thesis
    proof (cases "enum (siId info)")
      case None
      show ?thesis
      proof (cases "cachedChatModes s (siId info)")
        case n: None
        then have "last_good enum s (siId info) = None" using None by (simp add: last_good_def cachedChatModes_def)
        with True None n Cons.IH show ?thesis by auto
      next
        case (Some e)
        then have "last_good enum s (siId info) = Some e" using None by (simp add: last_good_def cachedChatModes_def)
        with True None Some Cons.IH show ?thesis by auto
      qed
    next
      case (Some e)
      then have "last_good enum s (siId info) = Some e" by (simp add: last_good_def)
      with True Some Cons.IH last_good_store [where enum = enum and i = "siId info" and e = e and s = s, OF Some] show ?thesis by auto
    qed
  qed
qed simp

text \<open>So a round computes its desired state from the last known modes, and only from them.\<close>

definition subs_of ::
  "(string \<Rightarrow> string) \<Rightarrow> string \<Rightarrow> (string \<Rightarrow> chatNotify list option) \<Rightarrow> SpaceInfo list \<Rightarrow> Service \<Rightarrow> PushSpaceTopics set" where
  "subs_of sha self enum infos s =
     {sub. \<exists>info entries. info \<in> set infos \<and> siActive info \<and> last_good enum s (siId info) = Some entries \<and>
        sub = \<lparr>pstSpaceId = siId info, pstTopics = spaceTopics sha (notifyMode (siSettings info)) entries self\<rparr> \<and>
        pstTopics sub \<noteq> []}"

lemma collectChatModes_eq:
  "collectChatModes enum infos s =
     (known enum s (actives infos) (\<lambda>_. []), fst (snd (collect_loop enum infos (\<lambda>_. []) [] s)),
      s\<lparr>svChatModes := \<lambda>i. if i \<in> actives infos then last_good enum s i else None\<rparr>)"
proof -
  obtain out omit s1 where l: "collect_loop enum infos (\<lambda>_. []) [] s = (out, omit, s1)" by (metis prod.exhaust)
  have "out = known enum s (actives infos) (\<lambda>_. [])" using collect_loop_known [of enum infos _ _ s] l by (metis fst_conv)
  moreover have "s1 = learned enum (actives infos) s" using collect_loop_learned [of enum infos _ _ s] l by (metis snd_conv)
  moreover have "pruneChatModes (actives infos) (learned enum (actives infos) s) =
      s\<lparr>svChatModes := \<lambda>i. if i \<in> actives infos then last_good enum s i else None\<rparr>"
    by (simp add: pruneChatModes_def learned_def restrict_map_def fun_eq_iff)
  ultimately show ?thesis using l by (simp add: collectChatModes_def actives_def)
qed

lemma desired_spec:
  assumes "desired sha self rd infos s = ((subs, register), omit, s')"
  shows "set subs = subs_of sha self (rdEnum rd) infos s"
    and "set omit = {i \<in> actives infos. last_good (rdEnum rd) s i = None}"
    and "s' = s\<lparr>svChatModes := \<lambda>i. if i \<in> actives infos then last_good (rdEnum rd) s i else None\<rparr>"
proof -
  let ?omit = "fst (snd (collect_loop (rdEnum rd) infos (\<lambda>_. []) [] s))"
  have eq: "omit = ?omit" "s' = s\<lparr>svChatModes := \<lambda>i. if i \<in> actives infos then last_good (rdEnum rd) s i else None\<rparr>"
    "subs = fst (desiredSubs sha (filter (\<lambda>i. siId i \<notin> set ?omit) infos) (known (rdEnum rd) s (actives infos) (\<lambda>_. [])) self)"
    using assms by (auto simp: desired_def collectChatModes_eq)
  then show "s' = s\<lparr>svChatModes := \<lambda>i. if i \<in> actives infos then last_good (rdEnum rd) s i else None\<rparr>" by simp
  show omit: "set omit = {i \<in> actives infos. last_good (rdEnum rd) s i = None}"
    using eq(1) collect_loop_omit [of "rdEnum rd" infos _ "[]" s] by simp
  have act: "siId info \<in> actives infos" if "info \<in> set infos" "siActive info" for info
    using that by (auto simp: actives_def)
  show "set subs = subs_of sha self (rdEnum rd) infos s"
  proof (rule set_eqI)
    fix sub
    have "sub \<in> set subs \<longleftrightarrow> pstTopics sub \<noteq> [] \<and> (\<exists>info. info \<in> set infos \<and> siActive info \<and> siId info \<notin> set omit \<and>
        sub = \<lparr>pstSpaceId = siId info, pstTopics = spaceTopics sha (notifyMode (siSettings info))
          (known (rdEnum rd) s (actives infos) (\<lambda>_. []) (siId info)) self\<rparr>)"
      unfolding eq(3) eq(1) desiredSubs_def Let_def by auto
    also have "\<dots> \<longleftrightarrow> sub \<in> subs_of sha self (rdEnum rd) infos s"
      unfolding subs_of_def omit using act by (auto simp: known_def)
    finally show "sub \<in> set subs \<longleftrightarrow> sub \<in> subs_of sha self (rdEnum rd) infos s" .
  qed
qed


lemma syncOnce_Some:
  assumes "svRound s" "svEnsureCall s = None" "rdInfos rd = Some infos"
    and "desired sha self rd infos (s\<lparr>svRound := False\<rparr>) = ((subs, register), omit, s1)"
    and "reconcile conf rd register subs s1 = (landed, s2)"
  shows "syncOnce_rest sha self conf rd s =
    (if desiredHash sha register subs = svLastHash s1 then s1
     else if \<not> landed then s2\<lparr>nodeDrift := nodeDrift s2 \<or> nodeSubs s2 \<noteq> nodeSubs s1\<rparr>
     else if omit \<noteq> [] then s2\<lparr>nodeDrift := True\<rparr>
     else s2\<lparr>svLastHash := desiredHash sha register subs, nodeDrift := False\<rparr>)"
  using assms by (simp add: syncOnce_rest_def Let_def)

section \<open>Examples\<close>

definition demo_sha :: "string \<Rightarrow> string" where
  "demo_sha s = CHR ''h'' # s"

definition demo_info :: "string \<Rightarrow> string \<Rightarrow> SpaceInfo" where
  "demo_info i mode =
     \<lparr>siId = i, siActive = True, siOwner = False, siOneToOne = False,
      siSettings = (\<lambda>k. if k = SettingNotifyMode then Some (DynString mode) else None)\<rparr>"

definition demo_round :: "SpaceInfo list \<Rightarrow> string list \<Rightarrow> round" where
  "demo_round infos failing =
     \<lparr>rdInfos = Some infos, rdEnum = (\<lambda>i. if i \<in> set failing then None else Some []), rdRegister = (\<lambda>_. RpcOk),
      rdDead = (\<lambda>_. False), rdSubscribe = RpcOk\<rparr>"

definition demo_rounds :: "round list \<Rightarrow> push_op list" where
  "demo_rounds rds = concat (map (\<lambda>rd. [EnsureBegin, Round rd]) rds)"

text \<open>
  Failing to enumerate a space's chats never unmutes one. A round that reaches its desired state takes
  for each active space the chats of a successful enumeration, or else those last enumerated
  successfully, and subscribes exactly to the topics of their modes; a space with neither is left out
  of the round and reported, and a round with such a space does not advance the remembered digest, so that it
  is retried. The cache after the round holds the active spaces only.
\<close>

theorem mute_fail_safe:
  fixes sha :: "string \<Rightarrow> string" and self :: string
  assumes "svRound s" "svEnsureCall s = None" "rdInfos rd = Some infos"
  defines "D \<equiv> desired sha self rd infos (s\<lparr>svRound := False\<rparr>)"
  shows "set (fst (fst D)) = subs_of sha self (rdEnum rd) infos s \<and>
    set (fst (snd D)) = {i \<in> actives infos. last_good (rdEnum rd) s i = None} \<and>
    svChatModes (syncOnce_rest sha self conf rd s) = (\<lambda>i. if i \<in> actives infos then last_good (rdEnum rd) s i else None) \<and>
    (fst (snd D) \<noteq> [] \<longrightarrow> svLastHash (syncOnce_rest sha self conf rd s) = svLastHash s)"
proof -
  obtain subs register omit s1 where d: "desired sha self rd infos (s\<lparr>svRound := False\<rparr>) = ((subs, register), omit, s1)"
    by (metis prod.exhaust)
  obtain landed s2 where r: "reconcile conf rd register subs s1 = (landed, s2)" by (metis prod.exhaust)
  have lg: "last_good (rdEnum rd) (s\<lparr>svRound := False\<rparr>) = last_good (rdEnum rd) s"
    by (simp add: last_good_def fun_eq_iff split: option.split)
  have s2: "svChatModes s2 = svChatModes s1" "svLastHash s2 = svLastHash s1"
    using r by (auto simp: reconcile_def syncFailure_def split: if_splits)
  note spec = desired_spec [OF d, unfolded subs_of_def lg, folded subs_of_def]
  have s1: "svChatModes s1 = (\<lambda>i. if i \<in> actives infos then last_good (rdEnum rd) s i else None)" "svLastHash s1 = svLastHash s"
    unfolding spec(3) by simp_all
  show ?thesis using spec(1,2) s1 s2 syncOnce_Some [OF assms(1-3) d r] unfolding D_def d by simp
qed

theorem mute_fail_safe_witness:
  "svLastHash (syncOnce_rest demo_sha ''me'' True (demo_round [demo_info ''b'' ''all''] [''b'']) (Service_New\<lparr>svRound := True\<rparr>)) = []"
proof -
  let ?s = "Service_New\<lparr>svRound := True\<rparr>" and ?rd = "demo_round [demo_info ''b'' ''all''] [''b'']"
  have "svRound ?s" "svEnsureCall ?s = None" "rdInfos ?rd = Some [demo_info ''b'' ''all'']" "svLastHash ?s = []"
    by (simp_all add: demo_round_def Service_New_def)
  moreover have "fst (snd (desired demo_sha ''me'' ?rd [demo_info ''b'' ''all''] (?s\<lparr>svRound := False\<rparr>))) \<noteq> []"
    by code_simp
  ultimately show ?thesis using mute_fail_safe [of ?s ?rd "[demo_info ''b'' ''all'']" demo_sha "''me''" True] by simp
qed

section \<open>The token\<close>

lemma foldl_keeps: "P s \<Longrightarrow> (\<And>s op. P s \<Longrightarrow> op \<in> set ops \<Longrightarrow> P (f s op)) \<Longrightarrow> P (foldl f s ops)"
  by (induction ops arbitrary: s) auto

definition token_ok :: "bool \<Rightarrow> Service \<Rightarrow> bool" where
  "token_ok conf s \<longleftrightarrow>
     (svForwarded s \<longrightarrow> conf \<and> (\<exists>t. svToken s = Some t \<and> t \<in> set (nodeTokens s))) \<and>
     length (svQueue s) \<le> notifyQueueCap"

text \<open>The part of the state a round leaves alone.\<close>

definition token_part :: "Service \<Rightarrow> deviceToken option \<times> bool \<times> deviceToken list \<times> notifyJob list" where
  "token_part s = (svToken s, svForwarded s, nodeTokens s, svQueue s)"

lemma token_part_ok: "token_part s' = token_part s \<Longrightarrow> token_ok conf s' = token_ok conf s"
  by (simp add: token_part_def token_ok_def)

lemma reconcile_part: "token_part (snd (reconcile conf rd register subs s)) = token_part s"
  by (simp add: reconcile_def syncFailure_def token_part_def)

lemma deliver_loop_form:
  "snd (deliver_loop n job result closed k s) \<in> {s, s\<lparr>svNotConfigured := True\<rparr>}"
  by (induction n arbitrary: k) (simp_all add: syncFailure_def case_prod_beta split: notify_result.split)

lemma deliver_part: "token_part (snd (deliver_loop n job result closed k s)) = token_part s"
  using deliver_loop_form [of n job result closed k s] by (auto simp: token_part_def)

lemma syncOnce_part: "token_part (syncOnce_rest sha self conf rd s) = token_part s"
proof (cases "svRound s \<and> svEnsureCall s = None \<and> rdInfos rd \<noteq> None")
  case False
  then show ?thesis by (auto simp: syncOnce_rest_def token_part_def)
next
  case True
  then obtain infos where infos: "rdInfos rd = Some infos" by blast
  obtain subs register omit s1 where d: "desired sha self rd infos (s\<lparr>svRound := False\<rparr>) = ((subs, register), omit, s1)"
    by (metis prod.exhaust)
  obtain landed s2 where r: "reconcile conf rd register subs s1 = (landed, s2)" by (metis prod.exhaust)
  have "token_part s1 = token_part s" using desired_spec(3) [OF d] by (simp add: token_part_def)
  moreover have "token_part s2 = token_part s1" using reconcile_part [of conf rd register subs s1] r by simp
  ultimately show ?thesis using True syncOnce_Some [OF _ _ infos d r] by (simp add: token_part_def)
qed

lemma forward_ok:
  assumes "token_ok conf s" "conf"
  shows "token_ok conf (markForwarded t (node_token RpcOk t s))" "token_ok conf (node_token r t s)"
  using assms by (auto simp: token_ok_def markForwarded_def node_token_def)

lemma token_ok_step: "token_ok conf s \<Longrightarrow> token_ok conf (push_step sha self conf s op)"
proof (cases op)
  case (SetBegin t)
  then show "token_ok conf s \<Longrightarrow> ?thesis" by (simp add: SetToken_begin_def token_ok_def)
next
  case (SetEnd t r)
  assume ok: "token_ok conf s"
  let ?s = "s\<lparr>svSetCalls := remove1 t (svSetCalls s)\<rparr>"
  have "token_ok conf ?s" using ok by (simp add: token_ok_def)
  then show ?thesis using ok forward_ok [of conf ?s] SetEnd
    by (auto simp: SetToken_end_def Let_def) (simp_all add: token_ok_def)
next
  case Revoke
  then show "token_ok conf s \<Longrightarrow> ?thesis" by (auto simp: RevokeToken_def token_ok_def)
next
  case EnsureBegin
  then show "token_ok conf s \<Longrightarrow> ?thesis" by (simp add: ensureToken_begin_def token_ok_def)
next
  case (EnsureEnd r)
  assume ok: "token_ok conf s"
  let ?s = "s\<lparr>svEnsureCall := None\<rparr>"
  have "token_ok conf ?s" using ok by (simp add: token_ok_def)
  then show ?thesis using ok forward_ok [of conf ?s] EnsureEnd
    by (auto simp: ensureToken_end_def Let_def split: option.split) (simp_all add: token_ok_def syncFailure_def)
next
  case (Round rd)
  then show "token_ok conf s \<Longrightarrow> ?thesis" using token_part_ok [OF syncOnce_part] by simp
next
  case (Queue job)
  then show "token_ok conf s \<Longrightarrow> ?thesis" by (simp add: Enqueue_def token_ok_def)
next
  case (Turn result closed)
  assume ok: "token_ok conf s"
  then have "token_ok conf (s\<lparr>svQueue := tl (svQueue s)\<rparr>)" by (auto simp: token_ok_def)
  then show ?thesis using ok token_part_ok [OF deliver_part] Turn
    by (auto simp: notify_turn_def deliverJob_def split: list.split)
qed

lemma token_ok_run: "token_ok conf (push_run sha self conf tok ops)"
proof (rule foldl_keeps)
  show "token_ok conf (Service_Start tok Service_New)" by (simp add: token_ok_def Service_Start_def Service_New_def)
qed (rule token_ok_step)

text \<open>
  The device token is never believed registered when it is not: after any interleaving of requests
  that set and revoke the token, sync rounds and lost or failed calls, \<open>tokenForwarded\<close> holds only if the
  current token is one the push node accepted. And a round that finds the token not yet forwarded
  registers it when the node answers, whatever happened before. The delivery queue stays within its bound.
\<close>

theorem token_forwarding:
  fixes sha self conf tok ops
  defines "s \<equiv> push_run sha self conf tok ops"
  shows "(svForwarded s \<longrightarrow> (\<exists>t. svToken s = Some t \<and> t \<in> set (nodeTokens s))) \<and>
    length (svQueue s) \<le> notifyQueueCap \<and>
    (conf \<and> \<not> svNotConfigured s \<and> \<not> svRound s \<and> svToken s = Some t \<longrightarrow>
      (let s' = push_step sha self conf (push_step sha self conf s EnsureBegin) (EnsureEnd RpcOk)
       in svForwarded s' \<and> t \<in> set (nodeTokens s')))"
  using token_ok_run [of conf sha self tok ops] unfolding s_def [symmetric]
  by (auto simp: token_ok_def Let_def ensureToken_begin_def ensureToken_end_def markForwarded_def node_token_def)


theorem token_forwarding_witness:
  "let t = \<lparr>Platform = ''ios'', Token = ''x''\<rparr>;
       s = push_step demo_sha ''me'' True (push_step demo_sha ''me'' True (push_run demo_sha ''me'' True (Some t) []) EnsureBegin) (EnsureEnd RpcOk)
   in svForwarded s \<and> t \<in> set (nodeTokens s)"
proof -
  let ?t = "\<lparr>Platform = ''ios'', Token = ''x''\<rparr>"
  let ?s = "push_run demo_sha ''me'' True (Some ?t) []"
  have "\<not> svNotConfigured ?s" "\<not> svRound ?s" "svToken ?s = Some ?t"
    by (simp_all add: Service_Start_def Service_New_def)
  then show ?thesis using token_forwarding [of demo_sha "''me''" True "Some ?t" "[]" ?t] unfolding Let_def by blast
qed

section \<open>The digest of a desired state\<close>

definition NUL :: char where "NUL = CHR 0x00"

definition no_nul :: "string \<Rightarrow> bool" where
  "no_nul s \<longleftrightarrow> NUL \<notin> set s"

text \<open>The strings the digest is fed, each ended by a zero byte.\<close>

definition sub_words :: "PushSpaceTopics \<Rightarrow> string list" where
  "sub_words sub = ''s'' # pstSpaceId sub # pstTopics sub"

definition desired_words :: "string list \<Rightarrow> PushSpaceTopics list \<Rightarrow> string list" where
  "desired_words register subs =
     concat (map (\<lambda>i. [''r'', i]) register) @ concat (map sub_words subs)"

definition zero_ended :: "string list \<Rightarrow> string" where
  "zero_ended ws = concat (map (\<lambda>w. w @ [NUL]) ws)"

lemma zero_ended_append: "zero_ended (a @ b) = zero_ended a @ zero_ended b"
  by (simp add: zero_ended_def)

lemma desired_bytes_words: "desired_bytes register subs = zero_ended (desired_words register subs)"
proof -
  have "concat (map (\<lambda>i. ''r'' @ [CHR 0x00] @ i @ [CHR 0x00]) register) = zero_ended (concat (map (\<lambda>i. [''r'', i]) register))"
    by (induction register) (simp_all add: zero_ended_def NUL_def)
  moreover have "concat (map (\<lambda>s. ''s'' @ [CHR 0x00] @ pstSpaceId s @ [CHR 0x00] @
       concat (map (\<lambda>t. t @ [CHR 0x00]) (pstTopics s))) subs) = zero_ended (concat (map sub_words subs))"
    by (induction subs) (simp_all add: zero_ended_def NUL_def sub_words_def)
  ultimately show ?thesis by (simp add: desired_bytes_def desired_words_def zero_ended_append)
qed

lemma zero_ended_inj: "list_all no_nul ws \<Longrightarrow> list_all no_nul us \<Longrightarrow> zero_ended ws = zero_ended us \<Longrightarrow> ws = us"
proof (induction ws arbitrary: us)
  case Nil
  then show ?case by (cases us) (simp_all add: zero_ended_def)
next
  case (Cons w ws)
  then obtain u us' where us: "us = u # us'" by (cases us) (simp_all add: zero_ended_def)
  have eq: "w @ NUL # zero_ended ws = u @ NUL # zero_ended us'" using Cons.prems(3) us by (simp add: zero_ended_def)
  have "takeWhile (\<lambda>c. c \<noteq> NUL) (x @ NUL # y) = x" if "no_nul x" for x y
    using that by (subst takeWhile_append2) (auto simp: no_nul_def)
  then have "w = u" using eq Cons.prems us by (metis list.pred_inject(2))
  then show ?case using eq Cons us by simp
qed

lemma sub_words_inj:
  "list_all (\<lambda>s. ''s'' \<notin> set (pstTopics s)) a \<Longrightarrow> list_all (\<lambda>s. ''s'' \<notin> set (pstTopics s)) b \<Longrightarrow>
     concat (map sub_words a) = concat (map sub_words b) \<Longrightarrow> a = b"
proof (induction a arbitrary: b)
  case Nil
  then show ?case by (cases b) (simp_all add: sub_words_def)
next
  case (Cons x a)
  then obtain y b' where b: "b = y # b'" by (cases b) (simp_all add: sub_words_def)
  let ?rest = "\<lambda>a. concat (map sub_words a)"
  have eq: "pstSpaceId x = pstSpaceId y" "pstTopics x @ ?rest a = pstTopics y @ ?rest b'"
    using Cons.prems(3) b by (simp_all add: sub_words_def [of x] sub_words_def [of y])
  have stop: "takeWhile (\<lambda>w. w \<noteq> ''s'') (pstTopics z @ ?rest c) = pstTopics z" if "''s'' \<notin> set (pstTopics z)" for z c
  proof -
    have "takeWhile (\<lambda>w. w \<noteq> ''s'') (?rest c) = []" by (cases c) (simp_all add: sub_words_def)
    then show ?thesis using that by (subst takeWhile_append2) auto
  qed
  have "pstTopics x = pstTopics y" using eq(2) stop [of x a] stop [of y b'] Cons.prems b by simp
  moreover from this have "a = b'" using eq(2) Cons.IH [of b'] Cons.prems b by simp
  ultimately show ?case using eq(1) b by simp
qed

lemma register_words_inj:
  "concat (map (\<lambda>i. [''r'', i]) r) @ a = concat (map (\<lambda>i. [''r'', i]) r') @ b \<Longrightarrow>
     a = [] \<or> hd a = ''s'' \<Longrightarrow> b = [] \<or> hd b = ''s'' \<Longrightarrow> r = r' \<and> a = b"
proof (induction r arbitrary: r')
  case Nil
  then show ?case by (cases r') auto
next
  case (Cons x r)
  then show ?case by (cases r') auto
qed

definition subs_plain :: "PushSpaceTopics list \<Rightarrow> bool" where
  "subs_plain subs \<longleftrightarrow> list_all (\<lambda>s. no_nul (pstSpaceId s) \<and> list_all (\<lambda>t. no_nul t \<and> t \<noteq> ''s'') (pstTopics s)) subs"

lemma desired_bytes_inj:
  assumes "list_all no_nul r" "subs_plain a" "list_all no_nul r'" "subs_plain b"
    and "desired_bytes r a = desired_bytes r' b"
  shows "r = r' \<and> a = b"
proof -
  have words: "list_all no_nul (desired_words r a)" if "list_all no_nul r" "subs_plain a" for r a
    using that by (auto simp: desired_words_def sub_words_def subs_plain_def list_all_iff no_nul_def NUL_def)
  have "desired_words r a = desired_words r' b"
    using assms words zero_ended_inj unfolding desired_bytes_words by blast
  moreover have "concat (map sub_words x) = [] \<or> hd (concat (map sub_words x)) = ''s''" for x
    by (cases x) (simp_all add: sub_words_def)
  ultimately have r: "r = r'" and c: "concat (map sub_words a) = concat (map sub_words b)"
    using register_words_inj unfolding desired_words_def by blast+
  have "list_all (\<lambda>s. ''s'' \<notin> set (pstTopics s)) x" if "subs_plain x" for x
    using that by (auto simp: subs_plain_def list_all_iff)
  with c r sub_words_inj assms show ?thesis by blast
qed


section \<open>The subscriptions the node holds\<close>

definition plain_self :: "string \<Rightarrow> bool" where
  "plain_self self \<longleftrightarrow> no_nul self \<and> self \<noteq> ''s''"

definition infos_plain :: "SpaceInfo list \<Rightarrow> bool" where
  "infos_plain infos \<longleftrightarrow> list_all (\<lambda>i. no_nul (siId i)) infos"

fun op_plain :: "push_op \<Rightarrow> bool" where
  "op_plain (Round rd) = (case rdInfos rd of None \<Rightarrow> True | Some infos \<Rightarrow> infos_plain infos)"
| "op_plain op = True"

lemma hex_no_nul: "no_nul (EncodeToString bs)"
proof (induction bs)
  case (Cons c bs)
  have "hexDigit n \<noteq> NUL" if "n < 16" for n
  proof -
    have "hexDigit n \<in> set ''0123456789abcdef''" unfolding hexDigit_def by (rule nth_mem) (use that in simp)
    then show ?thesis by (auto simp: NUL_def)
  qed
  then have "NUL \<noteq> hexDigit (of_char c div 16)" "NUL \<noteq> hexDigit (of_char c mod 16)" using char_nibbles [of c] by metis+
  then show ?case using Cons by (simp add: EncodeToString_Cons no_nul_def)
qed (simp add: EncodeToString_def no_nul_def)

lemma topics_plain:
  assumes "plain_self self"
  shows "list_all (\<lambda>t. no_nul t \<and> t \<noteq> ''s'') (spaceTopics sha mode entries self)"
proof -
  have c: "no_nul (topicChat sha c)" "topicChat sha c \<noteq> ''s''" for c
    using hex_no_nul [of "sha c"] by (auto simp: topicChat_def sha256hex_def no_nul_def NUL_def push_names)
  have m: "no_nul (topicChatMention sha c self)" "topicChatMention sha c self \<noteq> ''s''" for c
    using c [of c] assms by (auto simp: topicChatMention_def plain_self_def no_nul_def NUL_def topicChat_def push_names)
  have "list_all (\<lambda>t. no_nul t \<and> t \<noteq> ''s'') (chat_topics sha mode self ce)" for ce
    using c m by (simp add: chat_topics_def Let_def)
  then show ?thesis using assms
    by (auto simp: spaceTopics_def plain_self_def list_all_iff no_nul_def NUL_def push_names)
qed

lemma desiredSubs_plain:
  assumes "plain_self self" "infos_plain infos" "desiredSubs sha infos chats self = (subs, register)"
  shows "subs_plain subs" "list_all no_nul register"
proof -
  have "\<exists>i mode entries. i \<in> set infos \<and> sub = \<lparr>pstSpaceId = siId i, pstTopics = spaceTopics sha mode entries self\<rparr>"
    if "sub \<in> set subs" for sub
  proof -
    have "sub \<in> set (fst (desiredSubs sha infos chats self))" using assms(3) that by simp
    then have "sub \<in> (\<lambda>i. \<lparr>pstSpaceId = siId i, pstTopics = spaceTopics sha (notifyMode (siSettings i)) (chats (siId i)) self\<rparr>) ` set infos"
      by (auto simp: desiredSubs_def Let_def)
    then show ?thesis by blast
  qed
  then show "subs_plain subs"
    using topics_plain [OF assms(1)] assms(2) unfolding subs_plain_def infos_plain_def list_all_iff by fastforce
  show "list_all no_nul register" using assms(2,3) by (auto simp: desiredSubs_def Let_def infos_plain_def list_all_iff)
qed

lemma desired_plain:
  assumes "plain_self self" "infos_plain infos" "desired sha self rd infos s = ((subs, register), omit, s')"
  shows "subs_plain subs \<and> list_all no_nul register"
proof -
  have "\<exists>chats. desiredSubs sha (filter (\<lambda>i. siId i \<notin> set omit) infos) chats self = (subs, register)"
    using assms(3) by (auto simp: desired_def split: prod.splits)
  moreover have "infos_plain (filter (\<lambda>i. siId i \<notin> set omit) infos)" using assms(2) by (auto simp: infos_plain_def list_all_iff)
  ultimately show ?thesis using desiredSubs_plain [OF assms(1)] by blast
qed

text \<open>What the remembered digest says of the node, unless it has drifted.\<close>

definition synced :: "(string \<Rightarrow> string) \<Rightarrow> Service \<Rightarrow> bool" where
  "synced sha s \<longleftrightarrow>
     (svLastHash s \<noteq> [] \<and> \<not> nodeDrift s \<longrightarrow>
        (\<exists>register subs. nodeSubs s = Some subs \<and> subs_plain subs \<and> list_all no_nul register \<and>
           svLastHash s = desiredHash sha register subs))"

lemma synced_keep:
  "svLastHash s' = svLastHash s \<Longrightarrow> nodeDrift s' = nodeDrift s \<Longrightarrow> nodeSubs s' = nodeSubs s \<Longrightarrow> synced sha s' = synced sha s"
  by (simp add: synced_def)

lemma reconcile_hash:
  "reconcile conf rd register subs s = (landed, s') \<Longrightarrow>
     svLastHash s' = svLastHash s \<and> nodeDrift s' = nodeDrift s \<and>
     (nodeSubs s' = nodeSubs s \<and> \<not> landed \<or> nodeSubs s' = Some subs)"
  by (auto simp: reconcile_def syncFailure_def split: if_splits)

lemma reconcile_ok:
  assumes "rdSubscribe rd = RpcOk" "\<forall>i. \<not> rdDead rd i"
  shows "reconcile True rd register subs s = (True, s\<lparr>nodeSubs := Some subs\<rparr>)"
proof -
  have "register_all True rd register" using assms(2) by (induction register) auto
  then show ?thesis using assms(1) by (simp add: reconcile_def)
qed

lemma synced_round:
  assumes "synced sha s" "plain_self self" "op_plain (Round rd)"
  shows "synced sha (syncOnce_rest sha self conf rd s)"
proof (cases "svRound s \<and> svEnsureCall s = None \<and> rdInfos rd \<noteq> None")
  case False
  then show ?thesis using assms(1) synced_keep [of "s\<lparr>svRound := False\<rparr>" s] by (auto simp: syncOnce_rest_def)
next
  case True
  then obtain infos where infos: "rdInfos rd = Some infos" by blast
  obtain subs register omit s1 where d: "desired sha self rd infos (s\<lparr>svRound := False\<rparr>) = ((subs, register), omit, s1)"
    by (metis prod.exhaust)
  obtain landed s2 where r: "reconcile conf rd register subs s1 = (landed, s2)" by (metis prod.exhaust)
  have plain: "subs_plain subs \<and> list_all no_nul register" using desired_plain [OF assms(2) _ d] assms(3) infos by simp
  have s1: "synced sha s1" using assms(1) desired_spec(3) [OF d] by (simp add: synced_def)
  note h = reconcile_hash [OF r]
  show ?thesis using s1 h plain syncOnce_Some [OF _ _ infos d r] True unfolding synced_def by auto
qed


lemma synced_step:
  assumes "synced sha s" "plain_self self" "op_plain op"
  shows "synced sha (push_step sha self conf s op)"
proof (cases op)
  case (Round rd)
  then show ?thesis using synced_round assms by simp
next
  case (SetEnd t r)
  then show ?thesis using assms(1)
    by (auto simp: SetToken_end_def markForwarded_def node_token_def Let_def synced_def)
next
  case (EnsureEnd r)
  then show ?thesis using assms(1)
    by (auto simp: ensureToken_end_def markForwarded_def node_token_def syncFailure_def Let_def synced_def split: option.split)
next
  case (Turn result closed)
  show ?thesis
  proof (cases "svQueue s")
    case (Cons job jobs)
    then have "push_step sha self conf s op \<in> {s\<lparr>svQueue := jobs\<rparr>, s\<lparr>svQueue := jobs, svNotConfigured := True\<rparr>}"
      using Turn deliver_loop_form [of notifyAttempts job _ closed 1 "s\<lparr>svQueue := jobs\<rparr>"]
      by (simp add: notify_turn_def deliverJob_def)
    then show ?thesis using assms(1) by (auto simp: synced_def)
  qed (use Turn assms(1) in \<open>simp add: notify_turn_def\<close>)
qed (use assms(1) in \<open>auto simp: SetToken_begin_def RevokeToken_def ensureToken_begin_def Enqueue_def synced_def\<close>)

lemma synced_run:
  assumes "plain_self self" "list_all op_plain ops"
  shows "synced sha (push_run sha self conf tok ops)"
proof (rule foldl_keeps)
  show "synced sha (Service_Start tok Service_New)" by (simp add: synced_def Service_Start_def Service_New_def)
qed (use assms synced_step in \<open>auto simp: list_all_iff\<close>)

text \<open>
  A complete round brings the node up to date. After any run in which the node has not drifted, a
  round that lists the spaces, omits none and whose \<open>SubscribeAll\<close> (if it is made) succeeds leaves the
  node with exactly the desired subscriptions, also when the digest gate skips the call, unless the digest
  maps two different desired states, of which the node holds the other, to one value. Assumed of the
  environment: space ids hold no zero byte, nor does the account's identity, which is not the word \<open>s\<close>; a
  digest is not empty.
\<close>

theorem full_round_subscribes:
  assumes "plain_self self" "list_all op_plain ops" "\<forall>x. sha x \<noteq> []"
    and "s = push_run sha self True tok ops" "svRound s" "svEnsureCall s = None" "\<not> nodeDrift s"
    and "rdInfos rd = Some infos" "infos_plain infos" "rdSubscribe rd = RpcOk" "\<forall>i. \<not> rdDead rd i"
    and "desired sha self rd infos (s\<lparr>svRound := False\<rparr>) = ((subs, register), [], s1)"
  shows "nodeSubs (push_step sha self True s (Round rd)) = Some subs \<or>
    (\<exists>register' subs'. nodeSubs s = Some subs' \<and>
       desired_bytes register' subs' \<noteq> desired_bytes register subs \<and>
       sha (desired_bytes register' subs') = sha (desired_bytes register subs))"
proof -
  note step = syncOnce_Some [OF assms(5,6,8,12) reconcile_ok [OF assms(10,11)]]
  have s1: "svLastHash s1 = svLastHash s" "nodeSubs s1 = nodeSubs s" using desired_spec(3) [OF assms(12)] by simp_all
  show ?thesis
  proof (cases "desiredHash sha register subs = svLastHash s1")
    case False
    then show ?thesis using step by simp
  next
    case True
    have "EncodeToString (sha x) \<noteq> []" for x using assms(3) by (cases "sha x") (auto simp: EncodeToString_Cons)
    then have "svLastHash s \<noteq> []" using True s1 by (metis desiredHash_def)
    then obtain register' subs' where n: "nodeSubs s = Some subs'" "subs_plain subs'" "list_all no_nul register'"
      "svLastHash s = desiredHash sha register' subs'"
      using synced_run [OF assms(1,2)] assms(4,7) unfolding synced_def by blast
    have same: "sha (desired_bytes register' subs') = sha (desired_bytes register subs)"
      using True n(4) s1 EncodeToString_inj by (metis desiredHash_def)
    have "subs' = subs" if "desired_bytes register' subs' = desired_bytes register subs"
      using desired_bytes_inj [OF n(3,2)] desired_plain [OF assms(1,9,12)] that by blast
    with n(1) same step True s1 show ?thesis by auto
  qed
qed

theorem full_round_subscribes_witness:
  "nodeSubs (push_run demo_sha ''me'' True None
     (demo_rounds [demo_round [demo_info ''a'' ''all''] [], demo_round [demo_info ''a'' ''mentions''] []]))
   = Some [\<lparr>pstSpaceId = ''a'', pstTopics = [''me'']\<rparr>]"
proof -
  let ?rd = "demo_round [demo_info ''a'' ''mentions''] []" and ?infos = "[demo_info ''a'' ''mentions'']"
  let ?ops = "demo_rounds [demo_round [demo_info ''a'' ''all''] []] @ [EnsureBegin]"
  let ?s = "push_run demo_sha ''me'' True None ?ops"
  let ?D = "desired demo_sha ''me'' ?rd ?infos (?s\<lparr>svRound := False\<rparr>)"
  have self: "plain_self ''me''" and ops: "list_all op_plain ?ops" and infos: "infos_plain ?infos"
    by (simp_all add: plain_self_def no_nul_def NUL_def demo_rounds_def demo_round_def infos_plain_def demo_info_def)
  have sha: "\<forall>x. demo_sha x \<noteq> []" "demo_sha x = demo_sha y \<longleftrightarrow> x = y" for x y by (simp_all add: demo_sha_def)
  have st: "svRound ?s" "svEnsureCall ?s = None" "\<not> nodeDrift ?s" by code_simp+
  have rd: "rdInfos ?rd = Some ?infos" "rdSubscribe ?rd = RpcOk" "\<forall>i. \<not> rdDead ?rd i" by (simp_all add: demo_round_def)
  have D: "fst (snd ?D) = []" "fst (fst ?D) = [\<lparr>pstSpaceId = ''a'', pstTopics = [''me'']\<rparr>]" by code_simp+
  have "?D = ((fst (fst ?D), snd (fst ?D)), [], snd (snd ?D))" using D(1) by (metis prod.collapse)
  from full_round_subscribes [OF self ops sha(1) refl st rd(1) infos rd(2,3) this] sha(2) D(2)
  have "nodeSubs (push_step demo_sha ''me'' True ?s (Round ?rd)) = Some [\<lparr>pstSpaceId = ''a'', pstTopics = [''me'']\<rparr>]"
    by auto
  then show ?thesis by (simp add: demo_rounds_def)
qed

text \<open>
  The condition on drift is needed: a partial round sends its subscriptions to the node without
  recording their digest, so the digest gate of a later complete round can skip the call although the node holds
  something else. Here space \<open>a\<close> is muted, is unmuted while the chats of a new space \<open>b\<close> cannot be enumerated,
  and is muted again; the last round is complete, desires no subscription, has every call succeed, and
  leaves the node with the topics of the muted space.
\<close>

theorem partial_round_unmutes:
  "let before = push_run demo_sha ''me'' True None
         (demo_rounds [demo_round [demo_info ''a'' ''none''] [],
            demo_round [demo_info ''a'' ''all'', demo_info ''b'' ''none''] [''b'']] @ [EnsureBegin]);
       infos = [demo_info ''a'' ''none'', demo_info ''b'' ''none''];
       D = desired demo_sha ''me'' (demo_round infos []) infos (before\<lparr>svRound := False\<rparr>)
   in fst D = ([], []) \<and> fst (snd D) = [] \<and>
      nodeSubs (push_step demo_sha ''me'' True before (Round (demo_round infos []))) =
        Some [\<lparr>pstSpaceId = ''a'', pstTopics = [''chats'', ''me'']\<rparr>]"
  by code_simp

section \<open>Delivery\<close>

lemma deliver_loop_calls:
  "set (fst (deliver_loop n job result closed k s)) \<subseteq> {notifyOnce job} \<and> length (fst (deliver_loop n job result closed k s)) \<le> n"
  by (induction n arbitrary: k) (auto simp: case_prod_beta split: notify_result.split)

text \<open>A notification is attempted at least once and at most six times, always as the same call.\<close>

lemma deliverJob_bounded:
  fixes job result closed s
  defines "calls \<equiv> fst (deliverJob job result closed s)"
  shows "calls \<noteq> [] \<and> length calls \<le> 6 \<and> set calls = {notifyOnce job}"
proof -
  have "set calls \<subseteq> {notifyOnce job} \<and> length calls \<le> notifyAttempts"
    unfolding calls_def deliverJob_def by (rule deliver_loop_calls)
  moreover have "calls \<noteq> []"
    by (simp add: calls_def deliverJob_def notifyAttempts_def numeral_eq_Suc case_prod_beta split: notify_result.split)
  ultimately show ?thesis by (auto simp: notifyAttempts_def) (metis hd_in_set singletonD subset_iff)
qed

end
