(* ===== verification/MarkdownDiff.thy ===== *)
theory MarkdownDiff
  imports MarkdownSplit
begin

text \<open>
  The block diff of the markdown write path (src/internal/markdown/diff.go): anchors by a longest
  common subsequence of block hashes, then a greedy pairing of what is left in the gaps between them. The
  hash (\<open>xxh3\<close>), the count of equal bytes of two texts (the \<open>diffmatchpatch\<close> package) and the
  quotient of two integers as floating-point numbers are parameters; a score is a value of any
  linear order.
\<close>

section \<open>The plan\<close>

datatype OpKind = OpKeep | OpUpdate | OpInsert

record NewOp =
  Kind :: OpKind
  OldIdx :: int

record DiffResult =
  NewSeq :: "NewOp list"
  Deletes :: "nat list"

record 's scoring =
  equalMass :: "string \<Rightarrow> string \<Rightarrow> nat"
  fquot :: "nat \<Rightarrow> nat \<Rightarrow> 's"

definition similarity :: "'s scoring \<Rightarrow> string \<Rightarrow> string \<Rightarrow> 's" where
  "similarity sc a b =
     (if a = b then fquot sc 1 1
      else if a = [] \<or> b = [] then fquot sc 0 1
      else fquot sc (2 * equalMass sc a b) (length a + length b))"

section \<open>Anchors\<close>

text \<open>The entry \<open>dp[i][j]\<close> of the table.\<close>

fun lcs_dp :: "'h list \<Rightarrow> 'h list \<Rightarrow> nat \<Rightarrow> nat \<Rightarrow> nat" where
  "lcs_dp a b 0 j = 0"
| "lcs_dp a b (Suc i) 0 = 0"
| "lcs_dp a b (Suc i) (Suc j) =
     (if a ! i = b ! j then lcs_dp a b i j + 1
      else if lcs_dp a b i (Suc j) \<ge> lcs_dp a b (Suc i) j then lcs_dp a b i (Suc j)
      else lcs_dp a b (Suc i) j)"

text \<open>The walk back from the last entry; the list is built in ascending order, which the source's final reversal gives.\<close>

fun lcs_back :: "'h list \<Rightarrow> 'h list \<Rightarrow> nat \<Rightarrow> nat \<Rightarrow> (nat \<times> nat) list \<Rightarrow> (nat \<times> nat) list" where
  "lcs_back a b 0 j out = out"
| "lcs_back a b (Suc i) 0 out = out"
| "lcs_back a b (Suc i) (Suc j) out =
     (if a ! i = b ! j then lcs_back a b i j ((i, j) # out)
      else if lcs_dp a b i (Suc j) \<ge> lcs_dp a b (Suc i) j then lcs_back a b i (Suc j) out
      else lcs_back a b (Suc i) j out)"

definition lcsByHash :: "'h list \<Rightarrow> 'h list \<Rightarrow> (nat \<times> nat) list" where
  "lcsByHash a b = (if a = [] \<or> b = [] then [] else lcs_back a b (length a) (length b) [])"

section \<open>Gaps\<close>

record 's gapPair =
  gpOld :: nat
  gpNew :: nat
  gpScore :: 's

text \<open>
  The insertion sort: an element moves left past every smaller score. \<open>sorted_rev\<close> is the part already
  sorted, from its last element back.
\<close>

fun move_left :: "('s::linorder) gapPair \<Rightarrow> 's gapPair list \<Rightarrow> 's gapPair list" where
  "move_left p [] = [p]"
| "move_left p (q # sorted_rev) =
     (if gpScore q < gpScore p then q # move_left p sorted_rev else p # q # sorted_rev)"

definition sortPairsDescending :: "('s::linorder) gapPair list \<Rightarrow> 's gapPair list" where
  "sortPairsDescending ps = rev (foldl (\<lambda>sorted_rev p. move_left p sorted_rev) [] ps)"

text \<open>The two arrays the pass writes, and \<open>accepted\<close>.\<close>

type_synonym plan = "NewOp list \<times> bool list"

definition assign :: "OpKind \<Rightarrow> nat \<Rightarrow> nat \<Rightarrow> plan \<Rightarrow> plan" where
  "assign k old new pl = ((fst pl)[new := \<lparr>Kind = k, OldIdx = int old\<rparr>], (snd pl)[old := True])"

definition conflict :: "nat \<Rightarrow> nat \<Rightarrow> (nat \<times> nat) list \<Rightarrow> bool" where
  "conflict old new accepted = list_ex (\<lambda>(o', n'). (old < o') \<noteq> (new < n')) accepted"

text \<open>\<open>usedOld\<close> and \<open>usedNew\<close> are the old and new indices of \<open>accepted\<close>.\<close>

fun accept_pairs :: "'s gapPair list \<Rightarrow> (nat \<times> nat) list \<Rightarrow> plan \<Rightarrow> (nat \<times> nat) list \<times> plan" where
  "accept_pairs [] accepted pl = (accepted, pl)"
| "accept_pairs (p # ps) accepted pl =
     (if gpOld p \<in> fst ` set accepted \<or> gpNew p \<in> snd ` set accepted then accept_pairs ps accepted pl
      else if conflict (gpOld p) (gpNew p) accepted then accept_pairs ps accepted pl
      else accept_pairs ps ((gpOld p, gpNew p) # accepted) (assign OpUpdate (gpOld p) (gpNew p) pl))"

fun accept_empties :: "string list \<Rightarrow> string list \<Rightarrow> (nat \<times> nat) list \<Rightarrow> (nat \<times> nat) list \<Rightarrow> plan \<Rightarrow> plan" where
  "accept_empties oldBlocks newBlocks [] accepted pl = pl"
| "accept_empties oldBlocks newBlocks ((old, new) # rest) accepted pl =
     (if oldBlocks ! old \<noteq> [] \<and> newBlocks ! new \<noteq> [] then accept_empties oldBlocks newBlocks rest accepted pl
      else if conflict old new accepted then accept_empties oldBlocks newBlocks rest accepted pl
      else accept_empties oldBlocks newBlocks rest ((old, new) # accepted) (assign OpUpdate old new pl))"

definition gap_pairs ::
  "('s::linorder) scoring \<Rightarrow> 's \<Rightarrow> string list \<Rightarrow> string list \<Rightarrow> nat \<Rightarrow> nat \<Rightarrow> nat \<Rightarrow> nat \<Rightarrow> 's gapPair list" where
  "gap_pairs sc threshold oldBlocks newBlocks oldLo oldHi newLo newHi =
     filter (\<lambda>p. \<not> gpScore p < threshold)
       (concat (map (\<lambda>old. map (\<lambda>new. \<lparr>gpOld = old, gpNew = new,
          gpScore = similarity sc (oldBlocks ! old) (newBlocks ! new)\<rparr>) [newLo..<newHi]) [oldLo..<oldHi]))"

definition fillGap ::
  "('s::linorder) scoring \<Rightarrow> 's \<Rightarrow> string list \<Rightarrow> string list \<Rightarrow> nat \<Rightarrow> nat \<Rightarrow> nat \<Rightarrow> nat \<Rightarrow> plan \<Rightarrow> plan" where
  "fillGap sc threshold oldBlocks newBlocks oldLo oldHi newLo newHi pl =
     (if oldLo \<ge> oldHi \<or> newLo \<ge> newHi then pl
      else
        let pairs = gap_pairs sc threshold oldBlocks newBlocks oldLo oldHi newLo newHi;
            (accepted, pl1) = accept_pairs (sortPairsDescending pairs) [] pl;
            leftoverOld = filter (\<lambda>old. \<not> snd pl1 ! old) [oldLo..<oldHi];
            leftoverNew = filter (\<lambda>new. Kind (fst pl1 ! new) = OpInsert) [newLo..<newHi]
        in accept_empties oldBlocks newBlocks (zip leftoverOld leftoverNew) accepted pl1)"

text \<open>The gaps before each anchor and after the last; \<open>oldLo\<close> is \<open>prevOld+1\<close>, \<open>newLo\<close> is \<open>prevNew+1\<close>.\<close>

fun fill_gaps ::
  "('s::linorder) scoring \<Rightarrow> 's \<Rightarrow> string list \<Rightarrow> string list \<Rightarrow> (nat \<times> nat) list \<Rightarrow> nat \<Rightarrow> nat \<Rightarrow> plan \<Rightarrow> plan" where
  "fill_gaps sc threshold oldBlocks newBlocks [] oldLo newLo pl =
     fillGap sc threshold oldBlocks newBlocks oldLo (length oldBlocks) newLo (length newBlocks) pl"
| "fill_gaps sc threshold oldBlocks newBlocks ((oldIdx, newIdx) # anchors) oldLo newLo pl =
     fill_gaps sc threshold oldBlocks newBlocks anchors (oldIdx + 1) (newIdx + 1)
       (fillGap sc threshold oldBlocks newBlocks oldLo oldIdx newLo newIdx pl)"

definition DiffWithThreshold ::
  "(string \<Rightarrow> 'h) \<Rightarrow> ('s::linorder) scoring \<Rightarrow> string list \<Rightarrow> string list \<Rightarrow> 's \<Rightarrow> DiffResult" where
  "DiffWithThreshold hash sc oldBlocks newBlocks threshold =
     (let anchors = lcsByHash (map hash oldBlocks) (map hash newBlocks);
          start = (replicate (length newBlocks) \<lparr>Kind = OpInsert, OldIdx = - 1\<rparr>, replicate (length oldBlocks) False);
          kept = foldl (\<lambda>pl (oldIdx, newIdx). assign OpKeep oldIdx newIdx pl) start anchors;
          (newSeq, oldUsed) = fill_gaps sc threshold oldBlocks newBlocks anchors 0 0 kept
      in \<lparr>NewSeq = newSeq, Deletes = filter (\<lambda>i. \<not> oldUsed ! i) [0..<length oldBlocks]\<rparr>)"

text \<open>\<open>DefaultSimilarityThreshold\<close> is one half.\<close>

definition Diff :: "(string \<Rightarrow> 'h) \<Rightarrow> ('s::linorder) scoring \<Rightarrow> string list \<Rightarrow> string list \<Rightarrow> DiffResult" where
  "Diff hash sc oldBlocks newBlocks = DiffWithThreshold hash sc oldBlocks newBlocks (fquot sc 1 2)"

section \<open>The anchors are a longest common subsequence\<close>

definition common_chain :: "'h list \<Rightarrow> 'h list \<Rightarrow> nat \<Rightarrow> nat \<Rightarrow> (nat \<times> nat) list \<Rightarrow> bool" where
  "common_chain a b m n cs \<longleftrightarrow>
     list_all (\<lambda>(i, j). i < m \<and> j < n \<and> a ! i = b ! j) cs \<and>
     sorted_wrt (\<lambda>(i, j) (i', j'). i < i' \<and> j < j') cs"

lemma common_chain_snoc:
  assumes "common_chain a b m n (cs @ [(i, j)])"
  shows "common_chain a b i j cs" "i < m" "j < n" "a ! i = b ! j"
  using assms by (auto simp: common_chain_def sorted_wrt_append list_all_iff)

lemma common_chain_distinct: "common_chain a b m n cs \<Longrightarrow> distinct (map snd cs)"
  by (induction cs) (auto simp: common_chain_def)

lemma common_chain_mono: "common_chain a b m n cs \<Longrightarrow> m \<le> m' \<Longrightarrow> n \<le> n' \<Longrightarrow> common_chain a b m' n' cs"
  by (auto simp: common_chain_def list_all_iff)


lemma lcs_dp_bound: "common_chain a b i j cs \<Longrightarrow> length cs \<le> lcs_dp a b i j"
proof (induction a b i j arbitrary: cs rule: lcs_dp.induct)
  case (3 a b i j)
  show ?case
  proof (cases cs rule: rev_cases)
    case (snoc cs' p)
    obtain x y where p: "p = (x, y)" by force
    note s = common_chain_snoc [OF "3.prems" [unfolded snoc p]]
    show ?thesis
    proof (cases "a ! i = b ! j")
      case True
      have "common_chain a b i j cs'" using s by (intro common_chain_mono [OF s(1)]) auto
      then show ?thesis using "3.IH"(1) [OF True] True snoc by simp
    next
      case False
      then have "x < i \<or> y < j" using s(2-4) by (metis less_SucE)
      then have "common_chain a b i (Suc j) cs \<or> common_chain a b (Suc i) j cs"
        using "3.prems" s unfolding snoc p common_chain_def by (auto simp: list_all_iff sorted_wrt_append)
      then have "length cs \<le> lcs_dp a b i (Suc j) \<or> length cs \<le> lcs_dp a b (Suc i) j"
        using "3.IH"(2,3) [OF False] by blast
      then show ?thesis using False by auto
    qed
  qed simp
qed (case_tac cs; auto simp: common_chain_def)+

lemma lcs_back_chain:
  "common_chain a b m n out \<Longrightarrow> list_all (\<lambda>(x, y). i \<le> x \<and> j \<le> y) out \<Longrightarrow> i \<le> m \<Longrightarrow> j \<le> n \<Longrightarrow>
     common_chain a b m n (lcs_back a b i j out) \<and>
     length (lcs_back a b i j out) = length out + lcs_dp a b i j"
proof (induction a b i j out rule: lcs_back.induct)
  case (3 a b i j out)
  have weaker: "list_all (\<lambda>(x, y). i \<le> x \<and> Suc j \<le> y) out" "list_all (\<lambda>(x, y). Suc i \<le> x \<and> j \<le> y) out"
    "list_all (\<lambda>(x, y). i < x \<and> j < y) out"
    using "3.prems"(2) by (auto simp: list_all_iff)
  show ?case
  proof (cases "a ! i = b ! j")
    case True
    have "common_chain a b m n ((i, j) # out)" "list_all (\<lambda>(x, y). i \<le> x \<and> j \<le> y) ((i, j) # out)"
      using "3.prems" True weaker by (auto simp: common_chain_def list_all_iff)
    then show ?thesis using "3.IH"(1) [OF True] "3.prems" True by simp
  next
    case False
    then show ?thesis using "3.IH"(2,3) [OF False] "3.prems" weaker by simp
  qed
qed simp_all

lemma lcsByHash_chain: "common_chain a b (length a) (length b) (lcsByHash a b)" (is ?chain)
  and lcsByHash_longest: "common_chain a b (length a) (length b) cs \<Longrightarrow> length cs \<le> length (lcsByHash a b)"
proof -
  have nil: "common_chain a b m n []" for m n by (simp add: common_chain_def)
  have bk: "common_chain a b (length a) (length b) (lcs_back a b (length a) (length b) []) \<and>
      length (lcs_back a b (length a) (length b) []) = lcs_dp a b (length a) (length b)"
    using lcs_back_chain [where a = a and b = b and m = "length a" and n = "length b" and out = "[]" and i = "length a" and j = "length b"]
    by (simp add: nil)
  show ?chain using bk nil by (simp add: lcsByHash_def)
  assume c: "common_chain a b (length a) (length b) cs"
  show "length cs \<le> length (lcsByHash a b)"
  proof (cases "a = [] \<or> b = []")
    case True
    then have "cs = []" using c by (cases cs) (auto simp: common_chain_def)
    then show ?thesis by simp
  next
    case False
    then show ?thesis using lcs_dp_bound [OF c] bk by (simp add: lcsByHash_def)
  qed
qed

section \<open>The plan is a monotone matching\<close>

text \<open>The pairs of a plan: the old index each position of the new document is taken from.\<close>

definition pairs_of :: "NewOp list \<Rightarrow> (nat \<times> nat) set" where
  "pairs_of seq = {(nat (OldIdx (seq ! n)), n) |n. n < length seq \<and> Kind (seq ! n) \<noteq> OpInsert}"

definition monotone_pairs :: "(nat \<times> nat) set \<Rightarrow> bool" where
  "monotone_pairs A \<longleftrightarrow> (\<forall>(i, j) \<in> A. \<forall>(i', j') \<in> A. (i < i') = (j < j'))"

definition plan_ok :: "(string \<Rightarrow> 'h) \<Rightarrow> string list \<Rightarrow> string list \<Rightarrow> plan \<Rightarrow> bool" where
  "plan_ok hash olds news pl \<longleftrightarrow>
     length (fst pl) = length news \<and> length (snd pl) = length olds \<and>
     monotone_pairs (pairs_of (fst pl)) \<and>
     (\<forall>(i, j) \<in> pairs_of (fst pl). i < length olds) \<and>
     (\<forall>i < length olds. snd pl ! i \<longleftrightarrow> i \<in> fst ` pairs_of (fst pl)) \<and>
     (\<forall>op \<in> set (fst pl). if Kind op = OpInsert then OldIdx op = - 1 else 0 \<le> OldIdx op) \<and>
     (\<forall>j < length news. Kind (fst pl ! j) = OpKeep \<longrightarrow> hash (olds ! nat (OldIdx (fst pl ! j))) = hash (news ! j))"

lemma pairs_of_update:
  assumes "j < length seq" "Kind (seq ! j) = OpInsert" "k \<noteq> OpInsert"
  shows "pairs_of (seq[j := \<lparr>Kind = k, OldIdx = int i\<rparr>]) = insert (i, j) (pairs_of seq)"
  using assms unfolding pairs_of_def by (auto simp: nth_list_update)

lemma monotone_insert:
  assumes "monotone_pairs A" "\<And>i' j'. (i', j') \<in> A \<Longrightarrow> i < i' \<and> j < j' \<or> i' < i \<and> j' < j"
  shows "monotone_pairs (insert (i, j) A)"
  using assms unfolding monotone_pairs_def by fastforce

lemma assign_ok:
  assumes ok: "plan_ok hash olds news pl" and ij: "i < length olds" "j < length news"
    and free: "Kind (fst pl ! j) = OpInsert"
    and order: "\<And>i' j'. (i', j') \<in> pairs_of (fst pl) \<Longrightarrow> i < i' \<and> j < j' \<or> i' < i \<and> j' < j"
    and k: "k = OpUpdate \<or> k = OpKeep \<and> hash (olds ! i) = hash (news ! j)"
  shows "plan_ok hash olds news (assign k i j pl) \<and> pairs_of (fst (assign k i j pl)) = insert (i, j) (pairs_of (fst pl))"
proof -
  have len: "length (fst pl) = length news" "length (snd pl) = length olds" using ok by (simp_all add: plan_ok_def)
  have P: "pairs_of (fst (assign k i j pl)) = insert (i, j) (pairs_of (fst pl))"
    using pairs_of_update [of j "fst pl" k i] len ij free k by (auto simp: assign_def)
  have "monotone_pairs (insert (i, j) (pairs_of (fst pl)))"
    using ok order by (intro monotone_insert) (auto simp: plan_ok_def)
  moreover have "\<forall>x < length olds. snd (assign k i j pl) ! x \<longleftrightarrow> x \<in> fst ` insert (i, j) (pairs_of (fst pl))"
  proof -
    have "snd (assign k i j pl) ! x \<longleftrightarrow> x = i \<or> snd pl ! x" for x
      using ij len by (auto simp: assign_def nth_list_update)
    then show ?thesis using ok by (auto simp: plan_ok_def)
  qed
  moreover have "\<forall>op \<in> set (fst (assign k i j pl)). if Kind op = OpInsert then OldIdx op = - 1 else 0 \<le> OldIdx op"
  proof
    fix op assume "op \<in> set (fst (assign k i j pl))"
    then have "op = \<lparr>Kind = k, OldIdx = int i\<rparr> \<or> op \<in> set (fst pl)"
      using set_update_subset_insert by (fastforce simp: assign_def)
    then show "if Kind op = OpInsert then OldIdx op = - 1 else 0 \<le> OldIdx op" using ok k unfolding plan_ok_def by auto
  qed
  moreover have "\<forall>y < length news. Kind (fst (assign k i j pl) ! y) = OpKeep \<longrightarrow>
      hash (olds ! nat (OldIdx (fst (assign k i j pl) ! y))) = hash (news ! y)"
    using ok len ij k by (auto simp: plan_ok_def assign_def nth_list_update)
  moreover have "\<forall>(x, y) \<in> insert (i, j) (pairs_of (fst pl)). x < length olds" using ok ij by (auto simp: plan_ok_def)
  ultimately show ?thesis using len unfolding plan_ok_def P by (simp add: assign_def)
qed

text \<open>
  One gap: the pairs the plan had lie below or above it on both sides. What the pass accepts lies in the gap,
  and the plan's pairs are those it had and the accepted ones.
\<close>

record gap =
  oldLo :: nat
  oldHi :: nat
  newLo :: nat
  newHi :: nat

definition box :: "gap \<Rightarrow> nat \<Rightarrow> nat \<Rightarrow> bool" where
  "box g i j \<longleftrightarrow> oldLo g \<le> i \<and> i < oldHi g \<and> newLo g \<le> j \<and> j < newHi g"

definition apart :: "gap \<Rightarrow> (nat \<times> nat) set \<Rightarrow> bool" where
  "apart g A \<longleftrightarrow> (\<forall>(i, j) \<in> A. i < oldLo g \<and> j < newLo g \<or> oldHi g \<le> i \<and> newHi g \<le> j)"

definition extends :: "NewOp list \<Rightarrow> NewOp list \<Rightarrow> bool" where
  "extends seq seq' \<longleftrightarrow> length seq' = length seq \<and>
     (\<forall>j < length seq. Kind (seq ! j) \<noteq> OpInsert \<longrightarrow> seq' ! j = seq ! j)"

lemma extends_trans: "extends a b \<Longrightarrow> extends b c \<Longrightarrow> extends a c"
  by (auto simp: extends_def)

lemma extends_assign: "Kind (fst pl ! j) = OpInsert \<Longrightarrow> extends (fst pl) (fst (assign k i j pl))"
  unfolding extends_def assign_def by (metis fst_conv length_list_update nth_list_update_neq)

definition gap_progress ::
  "(string \<Rightarrow> 'h) \<Rightarrow> string list \<Rightarrow> string list \<Rightarrow> gap \<Rightarrow> NewOp list \<Rightarrow> (nat \<times> nat) list \<Rightarrow> plan \<Rightarrow> bool" where
  "gap_progress hash olds news g before accepted pl \<longleftrightarrow>
     plan_ok hash olds news pl \<and> pairs_of (fst pl) = pairs_of before \<union> set accepted \<and> extends before (fst pl) \<and>
     (\<forall>(i, j) \<in> set accepted. box g i j) \<and> apart g (pairs_of before) \<and> oldHi g \<le> length olds \<and> newHi g \<le> length news"

lemma gap_free_new:
  assumes "gap_progress hash olds news g before accepted pl" "box g i j"
  shows "Kind (fst pl ! j) = OpInsert \<longleftrightarrow> j \<notin> snd ` set accepted"
proof -
  have "j < length (fst pl)" using assms by (auto simp: gap_progress_def plan_ok_def box_def)
  then have "Kind (fst pl ! j) \<noteq> OpInsert \<longleftrightarrow> (\<exists>i. (i, j) \<in> pairs_of before \<union> set accepted)"
    using assms(1) unfolding gap_progress_def by (auto simp: pairs_of_def [of "fst pl"])
  moreover have "(i', j) \<notin> pairs_of before" for i' using assms unfolding gap_progress_def apart_def box_def by fastforce
  ultimately show ?thesis by (force simp: image_iff)
qed

lemma gap_free_old:
  assumes "gap_progress hash olds news g before accepted pl" "box g i j"
  shows "snd pl ! i \<longleftrightarrow> i \<in> fst ` set accepted"
proof -
  have "snd pl ! i \<longleftrightarrow> i \<in> fst ` (pairs_of before \<union> set accepted)"
    using assms unfolding gap_progress_def plan_ok_def box_def by auto
  moreover have "(i, j') \<notin> pairs_of before" for j' using assms unfolding gap_progress_def apart_def box_def by fastforce
  ultimately show ?thesis by (auto simp: image_iff)
qed

lemma gap_step:
  assumes p: "gap_progress hash olds news g before accepted pl" and b: "box g i j"
    and fresh: "i \<notin> fst ` set accepted" "j \<notin> snd ` set accepted" "\<not> conflict i j accepted"
  shows "gap_progress hash olds news g before ((i, j) # accepted) (assign OpUpdate i j pl)"
proof -
  have order: "i < i' \<and> j < j' \<or> i' < i \<and> j' < j" if "(i', j') \<in> pairs_of (fst pl)" for i' j'
  proof (cases "(i', j') \<in> set accepted")
    case True
    then have "i \<noteq> i'" "j \<noteq> j'" "(i < i') = (j < j')"
      using fresh by (force simp: image_iff conflict_def list_ex_iff)+
    then show ?thesis by auto
  next
    case False
    then have "(i', j') \<in> pairs_of before" using p that by (auto simp: gap_progress_def)
    then show ?thesis using p b unfolding gap_progress_def apart_def box_def by fastforce
  qed
  have "i < length olds" "j < length news" using p b by (auto simp: gap_progress_def box_def)
  then have "plan_ok hash olds news (assign OpUpdate i j pl) \<and>
      pairs_of (fst (assign OpUpdate i j pl)) = insert (i, j) (pairs_of (fst pl))"
    using p order gap_free_new [OF p b] fresh(2) by (intro assign_ok) (auto simp: gap_progress_def)
  moreover have "extends before (fst (assign OpUpdate i j pl))"
    using p extends_assign [of pl j] gap_free_new [OF p b] fresh(2) unfolding gap_progress_def by (blast intro: extends_trans)
  ultimately show ?thesis using p b by (auto simp: gap_progress_def)
qed

lemma accept_pairs_progress:
  "gap_progress hash olds news g before accepted pl \<Longrightarrow> \<forall>p \<in> set ps. box g (gpOld p) (gpNew p) \<Longrightarrow>
     gap_progress hash olds news g before (fst (accept_pairs ps accepted pl)) (snd (accept_pairs ps accepted pl))"
proof (induction ps accepted pl rule: accept_pairs.induct)
  case (2 p ps accepted pl)
  then show ?case using gap_step [OF "2.prems"(1), of "gpOld p" "gpNew p"] by simp
qed simp

lemma accept_empties_progress:
  "gap_progress hash olds news g before accepted pl \<Longrightarrow>
     \<forall>(i, j) \<in> set ps. box g i j \<and> i \<notin> fst ` set accepted \<and> j \<notin> snd ` set accepted \<Longrightarrow>
     distinct (map fst ps) \<Longrightarrow> distinct (map snd ps) \<Longrightarrow>
     \<exists>accepted'. gap_progress hash olds news g before accepted' (accept_empties obs nbs ps accepted pl)"
proof (induction obs nbs ps accepted pl rule: accept_empties.induct)
  case (2 obs nbs i j ps accepted pl)
  have rest: "\<forall>(x, y) \<in> set ps. box g x y \<and> x \<notin> fst ` set ((i, j) # accepted) \<and> y \<notin> snd ` set ((i, j) # accepted)"
    using "2.prems" by (force simp: image_iff)
  show ?case
  proof (cases "obs ! i \<noteq> [] \<and> nbs ! j \<noteq> [] \<or> conflict i j accepted")
    case True
    then show ?thesis using "2.IH"(1,2) "2.prems" by auto
  next
    case False
    then have "gap_progress hash olds news g before ((i, j) # accepted) (assign OpUpdate i j pl)"
      using "2.prems" by (intro gap_step) auto
    then show ?thesis using "2.IH"(3) "2.prems" False rest by auto
  qed
qed auto

lemma set_move_left: "set (move_left p ps) = insert p (set ps)"
  by (induction p ps rule: move_left.induct) auto

lemma set_sortPairs: "set (sortPairsDescending ps) = set ps"
proof -
  have "set (foldl (\<lambda>sorted_rev p. move_left p sorted_rev) acc ps) = set acc \<union> set ps" for acc
    by (induction ps arbitrary: acc) (auto simp: set_move_left)
  then show ?thesis by (simp add: sortPairsDescending_def)
qed

lemma fillGap_ok:
  assumes ok: "plan_ok hash olds news pl" and "apart \<lparr>oldLo = ol, oldHi = oh, newLo = nl, newHi = nh\<rparr> (pairs_of (fst pl))"
    and "oh \<le> length olds" "nh \<le> length news"
  shows "\<exists>accepted. gap_progress hash olds news \<lparr>oldLo = ol, oldHi = oh, newLo = nl, newHi = nh\<rparr> (fst pl) accepted
      (fillGap sc thr obs nbs ol oh nl nh pl)"
proof -
  let ?g = "\<lparr>oldLo = ol, oldHi = oh, newLo = nl, newHi = nh\<rparr>" and ?B = "fst pl"
  have start: "gap_progress hash olds news ?g ?B [] pl" using assms by (simp add: gap_progress_def extends_def)
  show ?thesis
  proof (cases "ol \<ge> oh \<or> nl \<ge> nh")
    case True
    then show ?thesis using start by (auto simp: fillGap_def)
  next
    case False
    let ?ps = "sortPairsDescending (gap_pairs sc thr obs nbs ol oh nl nh)"
    obtain accepted pl1 where a: "accept_pairs ?ps [] pl = (accepted, pl1)" by (metis prod.exhaust)
    have "\<forall>p \<in> set ?ps. box ?g (gpOld p) (gpNew p)" by (auto simp: set_sortPairs gap_pairs_def box_def)
    from accept_pairs_progress [OF start this] a have p1: "gap_progress hash olds news ?g ?B accepted pl1" by simp
    let ?lo = "filter (\<lambda>old. \<not> snd pl1 ! old) [ol..<oh]" and ?ln = "filter (\<lambda>new. Kind (fst pl1 ! new) = OpInsert) [nl..<nh]"
    have "box ?g i j \<and> i \<notin> fst ` set accepted \<and> j \<notin> snd ` set accepted" if "(i, j) \<in> set (zip ?lo ?ln)" for i j
    proof -
      have i: "i \<in> set ?lo" and j: "j \<in> set ?ln" using that by (auto dest: set_zip_leftD set_zip_rightD)
      then have b: "box ?g i j" by (simp add: box_def)
      then show ?thesis using i j gap_free_old [OF p1 b] gap_free_new [OF p1 b] by simp
    qed
    moreover have "distinct (map fst (zip ?lo ?ln))" "distinct (map snd (zip ?lo ?ln))"
      by (auto simp: map_fst_zip_take map_snd_zip_take)
    ultimately have "\<exists>accepted'. gap_progress hash olds news ?g ?B accepted' (accept_empties obs nbs (zip ?lo ?ln) accepted pl1)"
      by (intro accept_empties_progress [OF p1]) blast+
    then show ?thesis using a False by (simp add: fillGap_def)
  qed
qed

lemma fill_gaps_ok:
  "plan_ok hash olds news pl \<Longrightarrow>
     \<forall>(i, j) \<in> pairs_of (fst pl). i < ol \<and> j < nl \<or> (i, j) \<in> set anchors \<Longrightarrow>
     set anchors \<subseteq> pairs_of (fst pl) \<Longrightarrow> \<forall>(i, j) \<in> set anchors. ol \<le> i \<and> nl \<le> j \<Longrightarrow>
     sorted_wrt (\<lambda>(i, j) (i', j'). i < i' \<and> j < j') anchors \<Longrightarrow>
     plan_ok hash olds news (fill_gaps sc thr olds news anchors ol nl pl) \<and>
     extends (fst pl) (fst (fill_gaps sc thr olds news anchors ol nl pl))"
proof (induction anchors arbitrary: ol nl pl)
  case Nil
  let ?g = "\<lparr>oldLo = ol, oldHi = length olds, newLo = nl, newHi = length news\<rparr>"
  have "apart ?g (pairs_of (fst pl))" using Nil by (auto simp: apart_def)
  from fillGap_ok [OF Nil(1) this] show ?case by (auto simp: gap_progress_def)
next
  case (Cons a anchors)
  obtain x y where a: "a = (x, y)" by force
  let ?g = "\<lparr>oldLo = ol, oldHi = x, newLo = nl, newHi = y\<rparr>"
  let ?pl = "fillGap sc thr olds news ol x nl y pl"
  have mem: "(x, y) \<in> pairs_of (fst pl)" using Cons.prems(3) a by simp
  then have xy: "x \<le> length olds" "y \<le> length news" using Cons.prems(1) by (auto simp: plan_ok_def pairs_of_def)
  have "apart ?g (pairs_of (fst pl))" using Cons.prems(2,5) a unfolding apart_def by fastforce
  from fillGap_ok [OF Cons.prems(1) this xy] obtain accepted where
    acc: "gap_progress hash olds news ?g (fst pl) accepted ?pl" by blast
  then have ok: "plan_ok hash olds news ?pl" and P: "pairs_of (fst ?pl) = pairs_of (fst pl) \<union> set accepted"
    and ext: "extends (fst pl) (fst ?pl)" and box: "\<forall>(i, j) \<in> set accepted. i < x \<and> j < y"
    by (auto simp: gap_progress_def box_def)
  have "\<forall>(i, j) \<in> pairs_of (fst ?pl). i < x + 1 \<and> j < y + 1 \<or> (i, j) \<in> set anchors"
    using P box Cons.prems(2,4) a by fastforce
  moreover have "set anchors \<subseteq> pairs_of (fst ?pl)" using P Cons.prems(3) by auto
  moreover have "\<forall>(i, j) \<in> set anchors. x + 1 \<le> i \<and> y + 1 \<le> j" using Cons.prems(5) a by fastforce
  ultimately show ?case using Cons.IH [OF ok] Cons.prems(5) a extends_trans [OF ext] by simp
qed

lemma keep_anchors:
  "plan_ok hash olds news pl \<Longrightarrow> common_chain (map hash olds) (map hash news) (length olds) (length news) anchors \<Longrightarrow>
     \<forall>(i, j) \<in> pairs_of (fst pl). \<forall>(i', j') \<in> set anchors. i < i' \<and> j < j' \<Longrightarrow>
     (let pl' = foldl (\<lambda>pl (i, j). assign OpKeep i j pl) pl anchors
      in plan_ok hash olds news pl' \<and> pairs_of (fst pl') = pairs_of (fst pl) \<union> set anchors \<and> extends (fst pl) (fst pl') \<and>
         (\<forall>(i, j) \<in> set anchors. Kind (fst pl' ! j) = OpKeep))"
proof (induction anchors arbitrary: pl)
  case (Cons a anchors)
  obtain x y where a: "a = (x, y)" by force
  have xy: "x < length olds" "y < length news" "hash (olds ! x) = hash (news ! y)"
    using Cons.prems(2) a by (auto simp: common_chain_def)
  have below: "i' < x \<and> j' < y" if "(i', j') \<in> pairs_of (fst pl)" for i' j'
    using Cons.prems(3) a that by auto
  have free: "Kind (fst pl ! y) = OpInsert"
    using below [of "nat (OldIdx (fst pl ! y))" y] xy(2) Cons.prems(1) by (auto simp: pairs_of_def plan_ok_def)
  have step: "plan_ok hash olds news (assign OpKeep x y pl) \<and>
      pairs_of (fst (assign OpKeep x y pl)) = insert (x, y) (pairs_of (fst pl))"
    using free Cons.prems(1) xy below by (intro assign_ok) blast+
  have "\<forall>(i, j) \<in> insert (x, y) (pairs_of (fst pl)). \<forall>(i', j') \<in> set anchors. i < i' \<and> j < j'"
    using Cons.prems(2,3) a by (fastforce simp: common_chain_def)
  moreover have "common_chain (map hash olds) (map hash news) (length olds) (length news) anchors"
    using Cons.prems(2) by (auto simp: common_chain_def)
  ultimately have IH: "let pl' = foldl (\<lambda>pl (i, j). assign OpKeep i j pl) (assign OpKeep x y pl) anchors
      in plan_ok hash olds news pl' \<and> pairs_of (fst pl') = insert (x, y) (pairs_of (fst pl)) \<union> set anchors \<and>
         extends (fst (assign OpKeep x y pl)) (fst pl') \<and> (\<forall>(i, j) \<in> set anchors. Kind (fst pl' ! j) = OpKeep)"
    using Cons.IH [of "assign OpKeep x y pl"] step by simp
  let ?pl' = "foldl (\<lambda>pl (i, j). assign OpKeep i j pl) (assign OpKeep x y pl) anchors"
  have "y < length (fst (assign OpKeep x y pl))" "fst (assign OpKeep x y pl) ! y = \<lparr>Kind = OpKeep, OldIdx = int x\<rparr>"
    using xy(2) Cons.prems(1) by (simp_all add: assign_def plan_ok_def)
  then have "Kind (fst ?pl' ! y) = OpKeep" using IH by (auto simp: extends_def Let_def)
  moreover have "extends (fst pl) (fst ?pl')" using IH extends_trans [OF extends_assign [OF free]] by (auto simp: Let_def)
  ultimately show ?case using IH a by (simp add: Let_def)
qed (simp add: Let_def extends_def)

text \<open>What a diff promises.\<close>

definition diff_ok :: "(string \<Rightarrow> 'h) \<Rightarrow> string list \<Rightarrow> string list \<Rightarrow> DiffResult \<Rightarrow> bool" where
  "diff_ok hash olds news d \<longleftrightarrow>
     length (NewSeq d) = length news \<and> monotone_pairs (pairs_of (NewSeq d)) \<and>
     (\<forall>op \<in> set (NewSeq d). if Kind op = OpInsert then OldIdx op = - 1 else 0 \<le> OldIdx op \<and> OldIdx op < int (length olds)) \<and>
     (\<forall>j < length news. Kind (NewSeq d ! j) = OpKeep \<longrightarrow> hash (olds ! nat (OldIdx (NewSeq d ! j))) = hash (news ! j)) \<and>
     (\<forall>cs. common_chain (map hash olds) (map hash news) (length olds) (length news) cs \<longrightarrow>
        length cs \<le> length (filter (\<lambda>op. Kind op = OpKeep) (NewSeq d))) \<and>
     Deletes d = filter (\<lambda>i. i \<notin> fst ` pairs_of (NewSeq d)) [0..<length olds]"

lemma pairs_of_nth: "j < length seq \<Longrightarrow> Kind (seq ! j) \<noteq> OpInsert \<Longrightarrow> (nat (OldIdx (seq ! j)), j) \<in> pairs_of seq"
  by (auto simp: pairs_of_def)

lemma DiffWithThreshold_ok: "diff_ok hash olds news (DiffWithThreshold hash sc olds news thr)"
proof -
  let ?anchors = "lcsByHash (map hash olds) (map hash news)"
  let ?start = "(replicate (length news) \<lparr>Kind = OpInsert, OldIdx = - 1\<rparr>, replicate (length olds) False)"
  let ?kept = "foldl (\<lambda>pl (i, j). assign OpKeep i j pl) ?start ?anchors"
  obtain seq used where f: "fill_gaps sc thr olds news ?anchors 0 0 ?kept = (seq, used)" by (metis prod.exhaust)
  have chain: "common_chain (map hash olds) (map hash news) (length olds) (length news) ?anchors"
    using lcsByHash_chain [of "map hash olds" "map hash news"] by simp
  have none: "pairs_of (replicate (length news) \<lparr>Kind = OpInsert, OldIdx = - 1\<rparr>) = {}" by (auto simp: pairs_of_def)
  then have "plan_ok hash olds news ?start" by (auto simp: plan_ok_def monotone_pairs_def)
  from keep_anchors [OF this chain] have kept: "plan_ok hash olds news ?kept" "pairs_of (fst ?kept) = set ?anchors"
    and keeps: "\<forall>(i, j) \<in> set ?anchors. Kind (fst ?kept ! j) = OpKeep"
    by (simp_all add: none Let_def)
  have "plan_ok hash olds news (fill_gaps sc thr olds news ?anchors 0 0 ?kept) \<and>
      extends (fst ?kept) (fst (fill_gaps sc thr olds news ?anchors 0 0 ?kept))"
    using kept chain by (intro fill_gaps_ok) (auto simp: common_chain_def)
  then have ok: "plan_ok hash olds news (seq, used)" and ext: "extends (fst ?kept) seq" by (simp_all add: f)
  have "length cs \<le> length (filter (\<lambda>op. Kind op = OpKeep) seq)"
    if "common_chain (map hash olds) (map hash news) (length olds) (length news) cs" for cs
  proof -
    have d: "distinct (map snd ?anchors)" by (rule common_chain_distinct [OF chain])
    have "j < length seq \<and> Kind (seq ! j) = OpKeep" if "(i, j) \<in> set ?anchors" for i j
    proof -
      have "Kind (fst ?kept ! j) = OpKeep" using keeps that by blast
      moreover have "j < length (fst ?kept)" using that kept(2) by (auto simp: pairs_of_def)
      ultimately show ?thesis using ext by (auto simp: extends_def)
    qed
    then have "snd ` set ?anchors \<subseteq> {j. j < length seq \<and> Kind (seq ! j) = OpKeep}" by auto
    from card_mono [OF _ this] have "length ?anchors \<le> length (filter (\<lambda>op. Kind op = OpKeep) seq)"
      using distinct_card [OF d] by (simp add: length_filter_conv_card)
    then show ?thesis using lcsByHash_longest [of "map hash olds" "map hash news" cs] that by simp
  qed
  note longest = this
  note parts = ok [unfolded plan_ok_def fst_conv snd_conv]
  have "if Kind op = OpInsert then OldIdx op = - 1 else 0 \<le> OldIdx op \<and> OldIdx op < int (length olds)" if m: "op \<in> set seq" for op
  proof (cases "Kind op = OpInsert")
    case False
    obtain j where j: "j < length seq" "op = seq ! j" using m by (metis in_set_conv_nth)
    then have "nat (OldIdx op) < length olds" using pairs_of_nth [of j seq] False parts by blast
    then show ?thesis using False parts m by auto
  qed (use parts m in auto)
  moreover have "filter (\<lambda>i. \<not> used ! i) [0..<length olds] = filter (\<lambda>i. i \<notin> fst ` pairs_of seq) [0..<length olds]"
    by (rule filter_cong) (use parts in auto)
  moreover have "DiffWithThreshold hash sc olds news thr =
      \<lparr>NewSeq = seq, Deletes = filter (\<lambda>i. \<not> used ! i) [0..<length olds]\<rparr>"
    using f by (simp add: DiffWithThreshold_def Let_def)
  ultimately show ?thesis using parts longest by (simp only: diff_ok_def DiffResult.select_convs) blast
qed

text \<open>
  C16. A diff is a plan that turns the old blocks into the new ones, and it keeps as much as can be kept: every
  new block is kept, updated or inserted; kept and updated blocks come from distinct old blocks in the same
  order; a kept block's hash is unchanged; exactly the old blocks without a counterpart are deleted; and no
  order-preserving matching of equal hashes is longer than the number of blocks kept. This holds for every
  hash, for every similarity score, and for every document.
\<close>

theorem Diff_plan: "diff_ok hash olds news (Diff hash sc olds news)"
  unfolding Diff_def by (rule DiffWithThreshold_ok)

end
