(* ===== verification/MarkdownConvert.thy ===== *)
theory MarkdownConvert
  imports Complex_Main EditorBlocks MarkdownSplit
begin

text \<open>
  Markdown blocks as typed records (src/internal/markdown/convert.go): the classification of a raw block
  and its canonical rendering. A style is an association list with distinct keys, nil being the empty one. A
  number in it is an integer or a floating-point number, which is its exact value here.
\<close>

section \<open>Styles\<close>

datatype sval = SvNil | SvBool bool | SvString string | SvInt int | SvFloat rat | SvOther

type_synonym style = "(string \<times> sval) list"

record ParsedBlock =
  pbType :: string
  pbStyle :: style
  pbText :: string

definition int_of_float :: "rat \<Rightarrow> int" where
  "int_of_float x = (if 0 \<le> x then \<lfloor>x\<rfloor> else - \<lfloor>- x\<rfloor>)"

definition intStyle :: "style \<Rightarrow> string \<Rightarrow> int \<Rightarrow> int" where
  "intStyle st key dflt =
     (case map_of st key of Some (SvInt v) \<Rightarrow> v | Some (SvFloat v) \<Rightarrow> int_of_float v | _ \<Rightarrow> dflt)"

definition boolStyle :: "style \<Rightarrow> string \<Rightarrow> bool \<Rightarrow> bool" where
  "boolStyle st key dflt = (case map_of st key of Some (SvBool v) \<Rightarrow> v | _ \<Rightarrow> dflt)"

definition stringStyle :: "style \<Rightarrow> string \<Rightarrow> string \<Rightarrow> string" where
  "stringStyle st key dflt = (case map_of st key of Some (SvString v) \<Rightarrow> v | _ \<Rightarrow> dflt)"

section \<open>Recognisers\<close>

abbreviation trim_blanks :: "string \<Rightarrow> string" where
  "trim_blanks s \<equiv> trim_right [CHR '' '', CHR 0x09] s"

definition closingSequenceStart :: "string \<Rightarrow> nat option" where
  "closingSequenceStart body =
     (let i = length body - length (takeWhile (\<lambda>c. c = CHR ''#'') (rev body))
      in if i = length body then None
         else if i = 0 \<or> spaceOrTab (body ! (i - 1)) then Some i
         else None)"

definition parseATXHeading :: "string \<Rightarrow> (nat \<times> string) option" where
  "parseATXHeading l =
     (let t = trimLeadingSpaces l 3
      in if t = [] \<or> hd t \<noteq> CHR ''#'' then None
         else
           let n = length (takeWhile (\<lambda>c. c = CHR ''#'') t)
           in if n < 1 \<or> n > 6 then None
              else if n = length t then Some (n, [])
              else if \<not> spaceOrTab (t ! n) then None
              else
                let body = TrimSpace (drop n t)
                in Some (n, case closingSequenceStart body of None \<Rightarrow> body | Some i \<Rightarrow> trim_blanks (take i body)))"

definition parseSetextUnderline :: "string \<Rightarrow> nat option" where
  "parseSetextUnderline l =
     (case trim_blanks (trimLeadingSpaces l 3) of
        [] \<Rightarrow> None
      | c # t \<Rightarrow>
          if c = CHR ''='' then (if allByte (c # t) c then Some 1 else None)
          else if c = CHR ''-'' then (if allByte (c # t) c then Some 2 else None)
          else None)"

definition isDividerLine :: "string \<Rightarrow> bool" where
  "isDividerLine l =
     (let t = trim_blanks (trimLeadingSpaces l 3)
      in if length t < 3 then False
         else
           let c = hd t
           in if c \<notin> {CHR ''-'', CHR ''_'', CHR ''*''} then False
              else list_all (\<lambda>b. b = c \<or> b = CHR '' '') t)"

definition parseFencedCode :: "string list \<Rightarrow> string \<times> string" where
  "parseFencedCode lines =
     (if lines = [] then ([], [])
      else
        let t = trimLeadingSpaces (hd lines) 3;
            c = hd t;
            n = length (takeWhile (\<lambda>b. b = c) t);
            lang = TrimSpace (drop n t);
            last_line = trim_blanks (trimLeadingSpaces (last lines) 3);
            fin = (if length lines \<ge> 2 \<and> length last_line \<ge> n \<and> allByte last_line c
                   then length lines - 1 else length lines)
        in if fin \<le> 1 then (lang, []) else (lang, join_with CHR 0x0A (drop 1 (take fin lines))))"

text \<open>The loop of \<open>codeFence\<close>: the fence length so far and the current run of backticks.\<close>

fun fence_len :: "nat \<Rightarrow> nat \<Rightarrow> string \<Rightarrow> nat" where
  "fence_len n run [] = n"
| "fence_len n run (c # body) =
     (if c \<noteq> CHR ''`'' then fence_len n 0 body
      else fence_len (if run + 1 \<ge> n then run + 2 else n) (run + 1) body)"

definition codeFence :: "string \<Rightarrow> string" where
  "codeFence body = replicate (fence_len 3 0 body) CHR ''`''"

section \<open>List items\<close>

text \<open>\<open>strconv.Atoi\<close> on decimal digits; a marker has at most nine of them.\<close>

definition Atoi :: "string \<Rightarrow> nat" where
  "Atoi ds = foldl (\<lambda>a d. 10 * a + (of_char d - 48)) 0 ds"

definition listMarker :: "style \<Rightarrow> string" where
  "listMarker st =
     (if \<not> boolStyle st StyleOrdered False then ''-''
      else
        let n = intStyle st StyleNumber 1;
            n = (if n < 0 \<or> n > 999999999 then 1 else n)
        in Itoa (nat n) @ ''.'')"

definition parseListItem :: "string \<Rightarrow> (bool \<times> nat \<times> string) option" where
  "parseListItem l =
     (case listItemMarker l of
        None \<Rightarrow> None
      | Some cont \<Rightarrow>
          let body = TrimSpace (drop cont l);
              leading = length (takeWhile spaceOrTab l)
          in if leading \<ge> length l then Some (False, 0, body)
             else
               let ordered = isDigit (l ! leading)
               in Some (ordered, if ordered then Atoi (drop leading (take (cont - 2) l)) else 0, body))"

definition parseCheckListItem :: "string \<Rightarrow> (bool \<times> string) option" where
  "parseCheckListItem l =
     (case listItemMarker l of
        None \<Rightarrow> None
      | Some cont \<Rightarrow>
          (case drop cont l of
             a # b # c # rest \<Rightarrow>
               if a \<noteq> CHR ''['' \<or> c \<noteq> CHR '']'' then None
               else if b = CHR '' '' then Some (False, TrimSpace rest)
               else if b = CHR ''x'' \<or> b = CHR ''X'' then Some (True, TrimSpace rest)
               else None
           | _ \<Rightarrow> None))"

definition columnAfter :: "nat \<Rightarrow> string \<Rightarrow> nat" where
  "columnAfter col s = indent_from col s"

definition listContentCol :: "string \<Rightarrow> nat" where
  "listContentCol l =
     (case listItemMarker l of
        None \<Rightarrow> 0
      | Some cont \<Rightarrow>
          let fin = cont - 1;
              leading = length (takeWhile spaceOrTab l);
              markerEnd = indentColumns (take leading l) + fin - leading;
              rest = drop fin l
          in if isBlank rest then markerEnd + 1
             else
               let sep = columnAfter markerEnd rest - markerEnd
               in if sep \<le> 4 then markerEnd + sep else markerEnd + 1)"

fun drop_columns :: "nat \<Rightarrow> nat \<Rightarrow> string \<Rightarrow> string" where
  "drop_columns col n [] = replicate (col - n) CHR '' ''"
| "drop_columns col n (c # l) =
     (if col \<ge> n then replicate (col - n) CHR '' '' @ c # l
      else if c = CHR '' '' then drop_columns (col + 1) n l
      else if c = CHR 0x09 then drop_columns (col + (4 - col mod 4)) n l
      else c # l)"

definition dropColumns :: "string \<Rightarrow> nat \<Rightarrow> string" where
  "dropColumns l n = drop_columns 0 n l"

definition alignContinuation :: "string list \<Rightarrow> nat \<Rightarrow> string list" where
  "alignContinuation lines contentCol =
     (if listContentCol (hd lines) \<le> contentCol then tl lines
      else
        let shift = listContentCol (hd lines) - contentCol
        in map (\<lambda>l. dropColumns l (min shift (indentColumns l - contentCol))) (tl lines))"

definition joinListBody :: "string \<Rightarrow> string list \<Rightarrow> string" where
  "joinListBody firstLine rest =
     (if rest = [] then firstLine else firstLine @ [CHR 0x0A] @ join_with CHR 0x0A rest)"

section \<open>Quotes\<close>

definition strip_quote :: "string \<Rightarrow> string" where
  "strip_quote l =
     (case trimLeadingSpaces l 3 of
        [] \<Rightarrow> l
      | c # body \<Rightarrow>
          if c = CHR ''>''
          then (case body of [] \<Rightarrow> [] | d # body' \<Rightarrow> if spaceOrTab d then body' else body)
          else l)"

definition stripQuotePrefixes :: "string list \<Rightarrow> string" where
  "stripQuotePrefixes lines = join_with CHR 0x0A (map strip_quote lines)"

definition prefixLines :: "string \<Rightarrow> string \<Rightarrow> string" where
  "prefixLines txt pre =
     (if txt = [] then trim_right '' '' pre
      else join_with CHR 0x0A (map (\<lambda>l. if l = [] then trim_right '' '' pre else pre @ l) (split_on CHR 0x0A txt)))"

section \<open>Parsing and rendering\<close>

definition plain_block :: "string \<Rightarrow> string \<Rightarrow> ParsedBlock" where
  "plain_block typ' txt = \<lparr>pbType = typ', pbStyle = [], pbText = txt\<rparr>"

definition heading_block :: "nat \<Rightarrow> string \<Rightarrow> ParsedBlock" where
  "heading_block level txt = \<lparr>pbType = TypeHeading, pbStyle = [(StyleLevel, SvInt (int level))], pbText = txt\<rparr>"

definition code_block :: "string \<Rightarrow> string \<Rightarrow> ParsedBlock" where
  "code_block lang body =
     \<lparr>pbType = TypeCode, pbStyle = (if lang \<noteq> [] then [(StyleLang, SvString lang)] else []), pbText = body\<rparr>"

definition parse_list_block :: "string list \<Rightarrow> ParsedBlock option" where
  "parse_list_block lines =
     (case parseCheckListItem (hd lines) of
        Some (checked, txt) \<Rightarrow>
          Some \<lparr>pbType = TypeCheckListItem, pbStyle = [(StyleChecked, SvBool checked)],
                pbText = joinListBody txt (alignContinuation lines (length ''- ''))\<rparr>
      | None \<Rightarrow>
          (case parseListItem (hd lines) of
             Some (ordered, number, txt) \<Rightarrow>
               let st = (StyleOrdered, SvBool ordered) #
                          (if ordered \<and> number \<noteq> 1 then [(StyleNumber, SvInt (int number))] else [])
               in Some \<lparr>pbType = TypeListItem, pbStyle = st,
                        pbText = joinListBody txt (alignContinuation lines (length (listMarker st) + 1))\<rparr>
           | None \<Rightarrow> None))"

definition parse_heading_block :: "string list \<Rightarrow> ParsedBlock option" where
  "parse_heading_block lines =
     (case (if length lines = 1 then parseATXHeading (hd lines) else None) of
        Some (level, txt) \<Rightarrow> Some (heading_block level txt)
      | None \<Rightarrow>
          if length lines = 2 \<and> \<not> looksLikeAnyOpener (hd lines)
          then map_option (\<lambda>level. heading_block level (TrimSpace (hd lines))) (parseSetextUnderline (lines ! 1))
          else None)"

definition ParseBlock :: "string \<Rightarrow> ParsedBlock" where
  "ParseBlock raw =
     (if raw = [] then plain_block TypeParagraph []
      else
        let lines = split_on CHR 0x0A raw
        in if length lines = 1 \<and> isDividerLine (hd lines) then plain_block TypeDivider []
           else (case parse_heading_block lines of
                   Some b \<Rightarrow> b
                 | None \<Rightarrow>
                     if isFenceOpen (hd lines)
                     then (let (lang, body) = parseFencedCode lines in code_block lang body)
                     else if isBlockquoteLine (hd lines) then plain_block TypeQuote (stripQuotePrefixes lines)
                     else (case parse_list_block lines of
                             Some b \<Rightarrow> b
                           | None \<Rightarrow>
                               if isHTMLBlockLine (hd lines) then plain_block TypeHTML raw
                               else if isTableLine (hd lines) then plain_block TypeTable raw
                               else plain_block TypeParagraph raw)))"

definition RenderBlock :: "ParsedBlock \<Rightarrow> string" where
  "RenderBlock b =
     (if pbType b = TypeHeading
      then
        let level = intStyle (pbStyle b) StyleLevel 1;
            level = (if level < 1 then 1 else if level > 6 then 6 else level);
            fence = replicate (nat level) CHR ''#'';
            txt = (if closingSequenceStart (pbText b) \<noteq> None then pbText b @ '' '' @ fence else pbText b)
        in fence @ '' '' @ txt
      else if pbType b = TypeListItem then listMarker (pbStyle b) @ '' '' @ pbText b
      else if pbType b = TypeCheckListItem
      then (if boolStyle (pbStyle b) StyleChecked False then ''- [x]'' else ''- [ ]'') @ '' '' @ pbText b
      else if pbType b = TypeCode
      then
        let lang = stringStyle (pbStyle b) StyleLang []; fence = codeFence (pbText b)
        in if pbText b = [] then fence @ lang @ [CHR 0x0A] @ fence
           else fence @ lang @ [CHR 0x0A] @ pbText b @ [CHR 0x0A] @ fence
      else if pbType b = TypeQuote then prefixLines (pbText b) ''> ''
      else if pbType b = TypeDivider then ''---''
      else pbText b)"

section \<open>Headings\<close>

lemma trimLeadingSpaces_id: "c \<noteq> CHR '' '' \<Longrightarrow> trimLeadingSpaces (c # l) n = c # l"
  by (cases n) simp_all

lemma low_bytes [simp]: "\<not> high CHR ''#''" "\<not> high CHR '' ''" "\<not> high CHR ''`''" "\<not> asciiSpace CHR ''#''" "\<not> asciiSpace CHR ''`''" "asciiSpace CHR '' ''"
  by (simp_all add: high_def asciiSpace_def less_eq_char_def)

text \<open>Whether a string opens with white space.\<close>

fun starts_space :: "string \<Rightarrow> bool" where
  "starts_space [] = False"
| "starts_space [a] = asciiSpace a"
| "starts_space [a, b] = (asciiSpace a \<or> space2 a b)"
| "starts_space (a # b # c # s) = (asciiSpace a \<or> space2 a b \<or> space3 a b c)"

lemma trim_left_length: "length (trim_left_space s) \<le> length s"
proof (induction s rule: trim_left_space.induct)
  case (2 a s)
  show ?case
  proof (cases s)
    case (Cons b s')
    with 2 show ?thesis by (cases s') (simp_all add: le_SucI)
  qed simp
qed simp

lemma trim_left_shorter:
  assumes "starts_space s"
  shows "length (trim_left_space s) < length s"
proof (cases s rule: starts_space.cases)
  case (4 a b c u)
  have "length (trim_left_space (b # c # u)) \<le> length (b # c # u)" "length (trim_left_space (c # u)) \<le> length (c # u)"
    "length (trim_left_space u) \<le> length u" by (rule trim_left_length)+
  then show ?thesis using 4 assms by (auto simp del: trim_left_space.simps simp add: trim_left_space.simps(2) [of a])
qed (use assms in auto)

lemma trim_left_id: "\<not> starts_space s \<Longrightarrow> trim_left_space s = s"
  by (cases s rule: starts_space.cases) simp_all

lemma starts_space_append:
  assumes "x \<noteq> []" "\<not> high c"
  shows "starts_space (x @ c # y) = starts_space x"
proof (cases x rule: starts_space.cases)
  case (2 a)
  then show ?thesis using assms(2) space_high by (cases y) auto
next
  case (3 a b)
  then show ?thesis using assms(2) space_high by auto
qed (use assms in simp_all)

lemma trim_rev_space_id: "\<not> asciiSpace a \<Longrightarrow> \<not> high a \<Longrightarrow> trim_rev_space (a # s) = a # s"
proof -
  assume "\<not> asciiSpace a" "\<not> high a"
  moreover have "\<not> space2 b a" "\<not> space3 c b a" for b c using \<open>\<not> high a\<close> space_high by blast+
  ultimately show ?thesis by (cases s; cases "tl s") simp_all
qed

lemma trim_rev_length: "length (trim_rev_space s) \<le> length s"
proof (induction s rule: trim_rev_space.induct)
  case (2 a s)
  show ?case
  proof (cases s)
    case (Cons b s')
    with 2 show ?thesis by (cases s') (simp_all add: le_SucI)
  qed simp
qed simp

lemma TrimSpace_space: "TrimSpace (CHR '' '' # s) = TrimSpace s"
  by (simp add: TrimSpace_def)

lemma TrimSpace_left:
  assumes "TrimSpace s = s"
  shows "\<not> starts_space s"
proof
  assume "starts_space s"
  then show False
    using assms trim_left_shorter [of s] trim_rev_length [of "rev (trim_left_space s)"] by (metis TrimSpace_def length_rev not_le)
qed

lemma TrimSpace_hash:
  assumes "TrimSpace s = s" "s \<noteq> []" "0 < n"
  shows "TrimSpace (s @ CHR '' '' # replicate n CHR ''#'') = s @ CHR '' '' # replicate n CHR ''#''"
proof -
  let ?t = "s @ CHR '' '' # replicate n CHR ''#''"
  have "\<not> starts_space ?t" using starts_space_append [OF assms(2)] TrimSpace_left [OF assms(1)] by simp
  then have l: "trim_left_space ?t = ?t" by (rule trim_left_id)
  have "rev ?t = CHR ''#'' # (replicate (n - 1) CHR ''#'' @ CHR '' '' # rev s)"
    using assms(3) by (cases n) (simp_all flip: replicate_append_same)
  then have "trim_rev_space (rev ?t) = rev ?t" using trim_rev_space_id [OF low_bytes(4) low_bytes(1)] by metis
  then show ?thesis by (simp only: TrimSpace_def l rev_rev_ident)
qed

lemma closing_after:
  assumes "0 < n"
  shows "closingSequenceStart (s @ CHR '' '' # replicate n CHR ''#'') = Some (length s + 1)"
proof -
  have "takeWhile (\<lambda>c. c = CHR ''#'') (rev (s @ CHR '' '' # replicate n CHR ''#'')) = replicate n CHR ''#''"
    by (simp add: takeWhile_append)
  then show ?thesis using assms by (simp add: closingSequenceStart_def spaceOrTab_def)
qed

lemma closing_last:
  assumes "closingSequenceStart s = Some i"
  shows "s \<noteq> []" "last s = CHR ''#''"
proof -
  have n: "takeWhile (\<lambda>c. c = CHR ''#'') (rev s) \<noteq> []"
    using assms by (auto simp: closingSequenceStart_def Let_def split: if_splits)
  then show "s \<noteq> []" by auto
  then obtain s' c where s: "s = s' @ [c]" by (metis rev_exhaust)
  then show "last s = CHR ''#''" using n by (auto split: if_splits)
qed

lemma RenderBlock_heading:
  "1 \<le> level \<Longrightarrow> level \<le> 6 \<Longrightarrow> RenderBlock (heading_block level txt) =
     replicate level CHR ''#'' @ CHR '' '' #
       (if closingSequenceStart txt \<noteq> None then txt @ CHR '' '' # replicate level CHR ''#'' else txt)"
  by (simp add: RenderBlock_def heading_block_def intStyle_def Let_def)

lemma trim_right_Cons: "c \<notin> set cs \<Longrightarrow> trim_right cs (c # s) = c # trim_right cs s"
  by (auto simp: trim_right_def dropWhile_append)

lemma parse_rendered_heading:
  assumes "1 \<le> level" "level \<le> 6" "TrimSpace txt = txt"
  shows "parseATXHeading (RenderBlock (heading_block level txt)) = Some (level, txt)"
proof -
  let ?f = "replicate level CHR ''#''"
  let ?txt = "if closingSequenceStart txt \<noteq> None then txt @ CHR '' '' # ?f else txt"
  have r: "RenderBlock (heading_block level txt) = ?f @ CHR '' '' # ?txt"
    using RenderBlock_heading [OF assms(1,2)] .
  obtain u where f: "?f = CHR ''#'' # u" using assms(1) by (cases level) simp_all
  have t: "trimLeadingSpaces (?f @ CHR '' '' # ?txt) 3 = ?f @ CHR '' '' # ?txt"
    unfolding f append_Cons by (rule trimLeadingSpaces_id) simp
  have n: "length (takeWhile (\<lambda>c. c = CHR ''#'') (?f @ CHR '' '' # ?txt)) = level"
    by (simp add: takeWhile_append)
  have body: "drop level (?f @ CHR '' '' # ?txt) = CHR '' '' # ?txt" "(?f @ CHR '' '' # ?txt) ! level = CHR '' ''"
    by (simp_all add: nth_append)
  have parsed: "(case closingSequenceStart (TrimSpace ?txt) of None \<Rightarrow> TrimSpace ?txt | Some i \<Rightarrow> trim_blanks (take i (TrimSpace ?txt))) = txt"
  proof (cases "closingSequenceStart txt")
    case None
    then show ?thesis using assms(3) by simp
  next
    case (Some i)
    note ends = closing_last [OF Some]
    have T: "TrimSpace ?txt = txt @ CHR '' '' # ?f" using Some TrimSpace_hash [OF assms(3) ends(1), of level] assms(1) by simp
    have "trim_blanks (txt @ '' '') = txt" using ends by (intro trim_right_append) simp_all
    then show ?thesis using closing_after [of level "txt"] assms(1) unfolding T by simp
  qed
  have "?f @ CHR '' '' # ?txt \<noteq> [] \<and> hd (?f @ CHR '' '' # ?txt) = CHR ''#''" unfolding f by simp
  then show ?thesis using assms(1,2) parsed
    unfolding r parseATXHeading_def t n Let_def body TrimSpace_space by (simp add: spaceOrTab_def)
qed

lemma heading_roundtrip:
  assumes "1 \<le> level" "level \<le> 6" "TrimSpace txt = txt" "CHR 0x0A \<notin> set txt"
  shows "ParseBlock (RenderBlock (heading_block level txt)) = heading_block level txt"
proof -
  let ?r = "RenderBlock (heading_block level txt)"
  obtain rest where r: "?r = CHR ''#'' # rest" and nl: "CHR 0x0A \<notin> set ?r"
    unfolding RenderBlock_heading [OF assms(1,2)] using assms(1,4) by (cases level) auto
  have lines: "split_on CHR 0x0A ?r = [?r]" using nl by simp
  have "hd (trim_blanks (trimLeadingSpaces ?r 3)) = CHR ''#''"
  proof -
    have "trimLeadingSpaces ?r 3 = ?r" unfolding r by (rule trimLeadingSpaces_id) simp
    moreover have "trim_blanks ?r = CHR ''#'' # trim_blanks rest" unfolding r by (rule trim_right_Cons) simp
    ultimately show ?thesis by simp
  qed
  then have "\<not> isDividerLine ?r" by (auto simp: isDividerLine_def Let_def)
  then show ?thesis
    using lines parse_rendered_heading [OF assms(1-3)] r by (simp add: ParseBlock_def parse_heading_block_def)
qed

section \<open>Code blocks\<close>

lemma fence_len_le: "n \<le> fence_len n run body"
proof (induction n run body rule: fence_len.induct)
  case (2 n run c body)
  then show ?case by (auto split: if_splits)
qed simp

lemma fence_len_prefix: "run < n \<Longrightarrow> run + k < fence_len n run (replicate k CHR ''`'' @ s)"
proof (induction k arbitrary: n run)
  case 0
  then show ?case using fence_len_le [of n run s] by simp
next
  case (Suc k)
  let ?n = "if run + 1 \<ge> n then run + 2 else n"
  have "run + 1 < ?n" by simp
  from Suc.IH [OF this] show ?case by simp
qed

lemma fence_len_run: "run < n \<Longrightarrow> k < fence_len n run (p @ replicate k CHR ''`'' @ s)"
proof (induction p arbitrary: n run)
  case Nil
  then show ?case using fence_len_prefix [of run n k s] by simp
next
  case (Cons c p)
  then show ?case by simp
qed

text \<open>No run of backticks in the text is as long as the fence.\<close>

lemma codeFence_longer: "sublist (replicate k CHR ''`'') body \<Longrightarrow> k < length (codeFence body)"
  using fence_len_run [of 0 3 k] by (auto simp: codeFence_def sublist_def)

lemma trimLeadingSpaces_suffix: "suffix (trimLeadingSpaces l n) l"
  by (induction l n rule: trimLeadingSpaces.induct) (auto simp: suffix_Cons)

lemma line_sublist: "l \<in> set (split_on c s) \<Longrightarrow> sublist l s"
proof -
  assume "l \<in> set (split_on c s)"
  then obtain xs ys where s: "split_on c s = xs @ l # ys" by (meson split_list)
  have "sublist l (join_with c (xs @ l # ys))"
  proof (cases xs)
    case Nil
    then show ?thesis by (cases ys) simp_all
  next
    case (Cons x xs')
    have "join_with c (xs @ l # ys) = join_with c xs @ c # join_with c (l # ys)"
      using Cons by (intro join_with_append) simp_all
    moreover have "sublist l (join_with c (l # ys))" by (cases ys) simp_all
    ultimately show ?thesis by (metis sublist_append_leftI sublist_order.order.trans sublist_Cons_right)
  qed
  then show ?thesis using s by (metis join_split_on)
qed

lemma body_keeps_open:
  assumes "l \<in> set (split_on CHR 0x0A body)"
  shows "\<not> closesFence (codeFence body) l"
proof
  assume c: "closesFence (codeFence body) l"
  let ?t = "trim_blanks (trimLeadingSpaces l 3)"
  have n: "codeFence body \<noteq> [] \<and> hd (codeFence body) = CHR ''`''"
    using fence_len_le [of 3 0 body] by (cases "fence_len 3 0 body") (simp_all add: codeFence_def)
  then have "length (codeFence body) \<le> length ?t" "list_all (\<lambda>b. b = CHR ''`'') ?t"
    using c by (simp_all add: closesFence_def Let_def allByte_def)
  then have t1: "length (codeFence body) \<le> length ?t" "\<And>b. b \<in> set ?t \<Longrightarrow> b = CHR ''`''"
    by (simp_all add: list_all_iff)
  then have t: "length (codeFence body) \<le> length ?t" "?t = replicate (length ?t) CHR ''`''"
    using t1(1) replicate_eqI [of ?t "length ?t" "CHR ''`''"] t1(2) by blast+
  have "sublist ?t l"
    using trim_right_prefix [of _ "trimLeadingSpaces l 3"] trimLeadingSpaces_suffix [of l 3]
    by (meson prefix_imp_sublist suffix_imp_sublist sublist_order.order.trans)
  then have "sublist (replicate (length ?t) CHR ''`'') body"
    using line_sublist [OF assms] t(2) by (metis sublist_order.order.trans)
  then show False using codeFence_longer t(1) by (metis not_le)
qed

text \<open>The lines of a rendered code block.\<close>

definition code_lines :: "string \<Rightarrow> string list" where
  "code_lines body = (if body = [] then [] else split_on CHR 0x0A body)"

lemma RenderBlock_code:
  "RenderBlock (code_block lang body) =
     join_with CHR 0x0A ((codeFence body @ lang) # code_lines body @ [codeFence body])"
proof -
  have st: "stringStyle (pbStyle (code_block lang body)) StyleLang [] = lang"
    by (simp add: stringStyle_def code_block_def)
  show ?thesis
  proof (cases "body = []")
    case True
    then show ?thesis using st by (simp add: RenderBlock_def code_block_def block_types code_lines_def Let_def)
  next
    case False
    have "join_with CHR 0x0A (code_lines body @ [codeFence body]) = body @ CHR 0x0A # codeFence body"
      using False by (subst join_with_append) (simp_all add: code_lines_def join_split_on)
    moreover obtain x xs where "code_lines body @ [codeFence body] = x # xs" by (cases "code_lines body") auto
    ultimately show ?thesis
      using False st by (simp add: RenderBlock_def code_block_def block_types Let_def)
  qed
qed

lemma code_fence_parts:
  obtains n where "codeFence body = replicate (n + 3) CHR ''`''"
  using fence_len_le [of 3 0 body] by (metis codeFence_def le_add_diff_inverse add.commute)

lemma fenceOpener_code:
  assumes "lang = [] \<or> hd lang \<noteq> CHR ''`''"
  shows "fenceOpener (codeFence body @ lang) = Some (codeFence body)"
    and "trimLeadingSpaces (codeFence body @ lang) 3 = codeFence body @ lang"
    and "takeWhile (\<lambda>b. b = CHR ''`'') (codeFence body @ lang) = codeFence body"
proof -
  obtain n where n: "codeFence body = replicate (n + 3) CHR ''`''" by (rule code_fence_parts)
  then obtain u where u: "codeFence body = CHR ''`'' # u" by (metis add_Suc_right numeral_3_eq_3 replicate_Suc)
  show t: "trimLeadingSpaces (codeFence body @ lang) 3 = codeFence body @ lang"
    unfolding u append_Cons by (rule trimLeadingSpaces_id) simp
  have "takeWhile (\<lambda>b. b = CHR ''`'') lang = []" using assms by (cases lang) auto
  then show w: "takeWhile (\<lambda>b. b = CHR ''`'') (codeFence body @ lang) = codeFence body"
    unfolding n by (simp add: takeWhile_append)
  have "hd (codeFence body @ lang) = CHR ''`''" "length (codeFence body) = n + 3" using u by simp (simp add: n)
  then show "fenceOpener (codeFence body @ lang) = Some (codeFence body)"
    unfolding fenceOpener_def t Let_def using w n by simp
qed

lemma fence_close_code:
  "fence_close (codeFence body) (code_lines body @ [codeFence body]) = Some (code_lines body @ [codeFence body], [])"
proof -
  obtain n where n: "codeFence body = replicate (n + 3) CHR ''`''" by (rule code_fence_parts)
  have "trim_blanks (codeFence body) = codeFence body" unfolding n by (rule trim_right_id) simp
  moreover have "trimLeadingSpaces (codeFence body) 3 = codeFence body"
    using fenceOpener_code(2) [of "[]" body] by simp
  ultimately have own: "closesFence (codeFence body) (codeFence body)"
    unfolding n closesFence_def Let_def by (simp add: allByte_def list_all_iff)
  have "fence_close (codeFence body) (ls @ [codeFence body]) = Some (ls @ [codeFence body], [])"
    if "\<forall>l \<in> set ls. \<not> closesFence (codeFence body) l" for ls
    using that own by (induction ls) simp_all
  then show ?thesis using body_keeps_open by (simp add: code_lines_def)
qed

lemma split_code:
  assumes "CHR 0x0A \<notin> set lang"
  shows "split_on CHR 0x0A (RenderBlock (code_block lang body)) = (codeFence body @ lang) # code_lines body @ [codeFence body]"
proof -
  have "CHR 0x0A \<notin> set (codeFence body)" by (simp add: codeFence_def)
  moreover have "\<forall>l \<in> set (code_lines body). CHR 0x0A \<notin> set l" by (auto simp: code_lines_def dest: split_on_no_sep)
  ultimately show ?thesis unfolding RenderBlock_code using assms by (intro split_on_join) auto
qed

lemma parse_code:
  assumes "TrimSpace lang = lang" "lang = [] \<or> hd lang \<noteq> CHR ''`''"
  shows "parseFencedCode ((codeFence body @ lang) # code_lines body @ [codeFence body]) = (lang, body)"
proof -
  let ?f = "codeFence body" and ?lines = "(codeFence body @ lang) # code_lines body @ [codeFence body]"
  obtain n where n: "?f = replicate (n + 3) CHR ''`''" by (rule code_fence_parts)
  note fo = fenceOpener_code [OF assms(2), of body]
  have c: "hd (?f @ lang) = CHR ''`''" unfolding n by simp
  have last: "trim_blanks (trimLeadingSpaces (last ?lines) 3) = ?f"
    using fenceOpener_code(2) [of "[]" body] n by (simp add: trim_right_id)
  have all: "allByte ?f CHR ''`''" unfolding n by (simp add: allByte_def list_all_iff)
  have "join_with CHR 0x0A (code_lines body) = body" by (simp add: code_lines_def join_split_on)
  moreover have "code_lines body = [] \<longleftrightarrow> body = []" by (simp add: code_lines_def)
  ultimately show ?thesis
    unfolding parseFencedCode_def last Let_def list.sel fo c using all assms(1) by simp
qed

lemma code_not_blank: "\<not> isBlank (codeFence body @ s)"
proof -
  obtain n where n: "codeFence body = replicate (n + 3) CHR ''`''" by (rule code_fence_parts)
  then obtain u where "codeFence body @ s = CHR ''`'' # u" by (metis add_Suc_right append_Cons numeral_3_eq_3 replicate_Suc)
  then show ?thesis using isBlank_bytes [of "CHR ''`'' # u"] by (auto simp del: isBlank.simps)
qed

lemma code_roundtrip:
  assumes lang: "CHR 0x0A \<notin> set lang" "TrimSpace lang = lang" "lang = [] \<or> hd lang \<noteq> CHR ''`''"
  shows "ParseBlock (RenderBlock (code_block lang body)) = code_block lang body"
proof -
  let ?r = "RenderBlock (code_block lang body)"
  note lines = split_code [OF lang(1), of body] and fo = fenceOpener_code [OF lang(3), of body]
  have "?r \<noteq> []" using lines by auto
  moreover have "isFenceOpen (codeFence body @ lang)" using fo by (simp add: isFenceOpen_def)
  then have "parse_heading_block ((codeFence body @ lang) # code_lines body @ [codeFence body]) = None"
    by (simp add: parse_heading_block_def looksLikeAnyOpener_def)
  ultimately show ?thesis
    using lines parse_code [OF lang(2,3)] \<open>isFenceOpen (codeFence body @ lang)\<close> by (simp add: ParseBlock_def)
qed

lemma code_one_block:
  assumes lang: "CHR 0x0A \<notin> set lang" "CHR 0x0D \<notin> set lang" "lang = [] \<or> hd lang \<noteq> CHR ''`''"
    and cr: "\<forall>l \<in> set (split_on CHR 0x0A body). strip_cr l = l"
  shows "Split (RenderBlock (code_block lang body)) = [RenderBlock (code_block lang body)]"
proof -
  let ?r = "RenderBlock (code_block lang body)" and ?f = "codeFence body"
  note lines = split_code [OF lang(1), of body] and fo = fenceOpener_code [OF lang(3), of body]
  have no_cr: "strip_cr x = x" if "CHR 0x0D \<notin> set x" for x
    using that by (auto simp: strip_cr_def cut_suffix_Some split: option.split)
  have "strip_cr (?f @ lang) = ?f @ lang" "strip_cr ?f = ?f" by (rule no_cr; use lang(2) in \<open>simp add: codeFence_def\<close>)+
  then have "map strip_cr (split_on CHR 0x0A ?r) = split_on CHR 0x0A ?r"
    using cr unfolding lines by (simp add: code_lines_def map_idI)
  moreover have "?f \<noteq> []" using code_fence_parts [of body] by (metis add_is_0 replicate_empty zero_neq_numeral)
  ultimately have sl: "splitLines ?r = (?f @ lang) # code_lines body @ [?f]"
    unfolding splitLines_def Let_def by (simp add: lines)
  have "consume_block (?f @ lang) (code_lines body @ [?f]) = (code_lines body @ [?f], [])"
    using fo(1) fence_close_code [of body] by (simp add: consume_block_def isFenceOpen_def consumeFence_def)
  then have "split_loop ((?f @ lang) # code_lines body @ [?f]) 0 False = [?r]"
    using code_not_blank [of body lang] by (simp add: empties_def RenderBlock_code)
  then show ?thesis unfolding Split_eq sl .
qed

text \<open>
  C15. A stored heading or code block reads back. A heading of level one to six, whose text has no
  newline and no white space at its ends, renders to a line that parses to the same level and text,
  also when the text ends in what reads as a closing sequence. A code block, also one whose text holds fences, renders to a fence no line of
  the text closes: it parses to the same language and text, and the splitter takes the rendering for
  one block. Its language has no newline, no carriage return, no white space at its ends and does not
  begin with a backtick, and no line of its text ends in a carriage return (the splitter drops one
  at the end of a line).
\<close>

theorem block_roundtrip:
  assumes "1 \<le> level" "level \<le> 6" "TrimSpace txt = txt" "CHR 0x0A \<notin> set txt"
    and "CHR 0x0A \<notin> set lang" "CHR 0x0D \<notin> set lang" "TrimSpace lang = lang" "lang = [] \<or> hd lang \<noteq> CHR ''`''"
    and "\<forall>l \<in> set (split_on CHR 0x0A body). strip_cr l = l"
  shows "ParseBlock (RenderBlock (heading_block level txt)) = heading_block level txt \<and>
    ParseBlock (RenderBlock (code_block lang body)) = code_block lang body \<and>
    Split (RenderBlock (code_block lang body)) = [RenderBlock (code_block lang body)]"
  using heading_roundtrip code_roundtrip code_one_block assms by blast

theorem block_roundtrip_witness:
  "ParseBlock ''## a # ##'' = heading_block 2 ''a #'' \<and>
   Split (RenderBlock (code_block ''go'' ''```'')) = [RenderBlock (code_block ''go'' ''```'')]"
proof -
  have "RenderBlock (heading_block 2 ''a #'') = ''## a # ##''" by code_simp
  moreover have "TrimSpace ''a #'' = ''a #''" "TrimSpace ''go'' = ''go''"
    "\<forall>l \<in> set (split_on CHR 0x0A ''```''). strip_cr l = l" by code_simp+
  ultimately show ?thesis using block_roundtrip [of 2 "''a #''" "''go''" "''```''"] by simp
qed

text \<open>
  Not every block reads back: a list item written with another bullet and the text of a divider renders as
  a line that parses as a divider, which has no text.
\<close>

lemma bullet_divider_lost:
  "pbType (ParseBlock ''+ ---'') = TypeListItem \<and> pbText (ParseBlock ''+ ---'') = ''---'' \<and>
   ParseBlock (RenderBlock (ParseBlock ''+ ---'')) = plain_block TypeDivider []"
  by code_simp

end
