(* ===== verification/MarkdownWrite.thy ===== *)
theory MarkdownWrite
  imports "HOL-Library.Multiset" MarkdownDiff MarkdownConvert MarkdownMatch
begin

text \<open>
  Writing a markdown body (src/internal/markdown/api.go, version.go and edit.go): the plan of a diff turned
  into one change of the block records, the positions of new blocks, the conditional write with its retries,
  the edit and the append path. The SDK's \<open>Modify\<close> and the reads of the collection are an
  environment; the hashes and the position allocator are parameters.
\<close>

section \<open>Records and changes\<close>

record existingBlock =
  exId :: string
  exType :: string
  exStyle :: style
  exText :: string
  exPos :: string

record block_payload =
  cpType :: string
  cpParentId :: string
  cpPos :: string
  cpText :: "string option"
  cpStyle :: "style option"

datatype write_value = WText string | WStyle sval | WBlock block_payload | WNone

record write_op =
  woType :: op_type
  woPath :: string
  woValue :: write_value

record RecordModify =
  rmId :: string
  rmUpsert :: bool
  rmOps :: "write_op list"

text \<open>The top-level blocks of a listing in document order.\<close>

definition topLevel :: "('v \<Rightarrow> style) \<Rightarrow> 'v Block list \<Rightarrow> existingBlock list" where
  "topLevel toMap blocks =
     map (\<lambda>b. \<lparr>exId = blkId b, exType = blkType b,
               exStyle = (case blkStyle b of None \<Rightarrow> [] | Some v \<Rightarrow> toMap v),
               exText = blkText b, exPos = Pos (blkNav b)\<rparr>)
       (filter (\<lambda>b. blkParent b = RootParentId) blocks)"

definition as_parsed :: "existingBlock \<Rightarrow> ParsedBlock" where
  "as_parsed b = \<lparr>pbType = exType b, pbStyle = exStyle b, pbText = exText b\<rparr>"

definition renderExisting :: "existingBlock list \<Rightarrow> string list" where
  "renderExisting existing = map (\<lambda>b. RenderBlock (as_parsed b)) existing"

definition buildCreateRecord :: "ParsedBlock \<Rightarrow> string \<Rightarrow> RecordModify" where
  "buildCreateRecord p pos =
     \<lparr>rmId = [], rmUpsert = True,
      rmOps = [\<lparr>woType = OpSet, woPath = [],
        woValue = WBlock \<lparr>cpType = pbType p, cpParentId = RootParentId, cpPos = pos,
          cpText = (if pbText p \<noteq> [] then Some (pbText p) else None),
          cpStyle = (if pbStyle p \<noteq> [] then Some (pbStyle p) else None)\<rparr>\<rparr>]\<rparr>"

text \<open>
  \<open>scalarEqual\<close> for a number compares as floating-point numbers, which is exact for the numbers a parsed
  block holds (levels, and markers of at most nine digits). Two values of different kinds are different.
\<close>

fun scalarEqual :: "sval \<Rightarrow> sval \<Rightarrow> bool" where
  "scalarEqual (SvBool a) (SvBool b) = (a = b)"
| "scalarEqual (SvString a) (SvString b) = (a = b)"
| "scalarEqual (SvInt a) (SvInt b) = (a = b)"
| "scalarEqual (SvInt a) (SvFloat b) = (of_int a = b)"
| "scalarEqual (SvFloat a) (SvInt b) = (a = of_int b)"
| "scalarEqual (SvFloat a) (SvFloat b) = (a = b)"
| "scalarEqual SvNil SvNil = True"
| "scalarEqual _ _ = False"

definition markdownStyleKeys :: "string \<Rightarrow> string list" where
  "markdownStyleKeys typ' =
     (if typ' = TypeHeading then [StyleLevel]
      else if typ' = TypeListItem then [StyleOrdered, StyleNumber]
      else if typ' = TypeCheckListItem then [StyleChecked]
      else if typ' = TypeCode then [StyleLang]
      else [])"

definition style_path :: "string \<Rightarrow> string" where
  "style_path key = FieldStyle @ ''.'' @ key"

definition style_op :: "style \<Rightarrow> style \<Rightarrow> string \<Rightarrow> write_op list" where
  "style_op ostyle nstyle key =
     (case (map_of nstyle key, map_of ostyle key) of
        (Some nv, None) \<Rightarrow> [\<lparr>woType = OpSet, woPath = style_path key, woValue = WStyle nv\<rparr>]
      | (Some nv, Some ov) \<Rightarrow>
          if \<not> scalarEqual ov nv then [\<lparr>woType = OpSet, woPath = style_path key, woValue = WStyle nv\<rparr>] else []
      | (None, Some ov) \<Rightarrow> [\<lparr>woType = OpUnset, woPath = style_path key, woValue = WNone\<rparr>]
      | (None, None) \<Rightarrow> [])"

text \<open>\<open>slices.Sort\<close> and \<open>slices.Compact\<close>.\<close>

definition owned_keys :: "existingBlock \<Rightarrow> ParsedBlock \<Rightarrow> string list" where
  "owned_keys old p = remdups (sort (markdownStyleKeys (exType old) @ markdownStyleKeys (pbType p) @ map fst (pbStyle p)))"

definition buildUpdateRecord :: "existingBlock \<Rightarrow> ParsedBlock \<Rightarrow> RecordModify" where
  "buildUpdateRecord old p =
     (let ops =
        (if exType old \<noteq> pbType p then [\<lparr>woType = OpSet, woPath = FieldType, woValue = WText (pbType p)\<rparr>] else []) @
        (if exText old \<noteq> pbText p then [\<lparr>woType = OpSet, woPath = FieldText, woValue = WText (pbText p)\<rparr>] else []) @
        concat (map (style_op (exStyle old) (pbStyle p)) (owned_keys old p))
      in \<lparr>rmId = exId old, rmUpsert = False,
          rmOps = (if ops = [] then [\<lparr>woType = OpSet, woPath = FieldText, woValue = WText (pbText p)\<rparr>] else ops)\<rparr>)"

definition delete_record :: "string \<Rightarrow> RecordModify" where
  "delete_record i = \<lparr>rmId = i, rmUpsert = False, rmOps = [\<lparr>woType = OpDelete, woPath = [], woValue = WNone\<rparr>]\<rparr>"

section \<open>Positions\<close>

definition kept_pos :: "existingBlock list \<Rightarrow> NewOp \<Rightarrow> string" where
  "kept_pos existing op =
     (if Kind op \<noteq> OpInsert \<and> 0 \<le> OldIdx op \<and> OldIdx op < int (length existing)
      then exPos (existing ! nat (OldIdx op)) else [])"

text \<open>
  The final \<open>posByNewIdx\<close>, from a position of the new document on: \<open>prev\<close> is the position of the entry before
  it, and each entry comes with its kind and the position it keeps.
\<close>

function alloc_runs :: "lexid \<Rightarrow> string \<Rightarrow> (OpKind \<times> string) list \<Rightarrow> string list option" where
  "alloc_runs g prev [] = Some []"
| "alloc_runs g prev ((k, p) # rest) =
     (if k \<noteq> OpInsert then map_option ((#) p) (alloc_runs g p rest)
      else
        let run = takeWhile (\<lambda>e. fst e = OpInsert) ((k, p) # rest);
            after = dropWhile (\<lambda>e. fst e = OpInsert) ((k, p) # rest);
            nxt = (case after of [] \<Rightarrow> [] | e # _ \<Rightarrow> snd e)
        in case AllocateRun g prev nxt (int (length run)) of
             None \<Rightarrow> None
           | Some ids \<Rightarrow> map_option ((@) ids) (alloc_runs g (last ids) after))"
  by pat_completeness auto
termination
  by (relation "measure (\<lambda>(g, prev, es). length es)") (auto simp: less_Suc_eq_le length_dropWhile_le)

definition allocateInsertPositions :: "lexid \<Rightarrow> existingBlock list \<Rightarrow> DiffResult \<Rightarrow> string list option" where
  "allocateInsertPositions g existing d =
     alloc_runs g [] (map (\<lambda>op. (Kind op, kept_pos existing op)) (NewSeq d))"

section \<open>One write\<close>

record Document =
  Content :: string
  Version :: string

record SetResult =
  Inserted :: "string list"
  Updated :: "string list"
  Deleted :: "string list"
  Unchanged :: nat
  srVersion :: string

datatype modify_error = PreconditionFailed | ModifyFailed

text \<open>\<open>res.Rejections\<close>: the record of each, and whether its reason is that the record is deleted.\<close>

record ModifyResult =
  RecordIds :: "string list"
  ApplySeq :: nat
  Rejections :: "(string \<times> bool) list"

datatype write_error =
    GenerationFailed
  | ReadFailed
  | AllocateFailed
  | PositionTooLong
  | BlockTooLargeError nat nat
  | ModifyError modify_error
  | RejectedError
  | ConflictError Document
  | EditError edit_error

definition op_record :: "existingBlock list \<Rightarrow> ParsedBlock list \<Rightarrow> string list \<Rightarrow> nat \<Rightarrow> NewOp \<Rightarrow> RecordModify list" where
  "op_record existing newParsed positions i op =
     (case Kind op of
        OpKeep \<Rightarrow> []
      | OpInsert \<Rightarrow> [buildCreateRecord (newParsed ! i) (positions ! i)]
      | OpUpdate \<Rightarrow> [buildUpdateRecord (existing ! nat (OldIdx op)) (newParsed ! i)])"

definition diff_records :: "existingBlock list \<Rightarrow> ParsedBlock list \<Rightarrow> string list \<Rightarrow> DiffResult \<Rightarrow> RecordModify list" where
  "diff_records existing newParsed positions d =
     concat (map (\<lambda>i. op_record existing newParsed positions i (NewSeq d ! i)) [0..<length (NewSeq d)]) @
     map (\<lambda>oldIdx. delete_record (exId (existing ! oldIdx))) (Deletes d)"

definition checkPositions :: "DiffResult \<Rightarrow> string list \<Rightarrow> bool" where
  "checkPositions d positions \<longleftrightarrow>
     list_all (\<lambda>(op, pos). Kind op = OpInsert \<longrightarrow> length pos \<le> MaxPosBytes) (zip (NewSeq d) positions)"

definition updated_ids :: "existingBlock list \<Rightarrow> DiffResult \<Rightarrow> string list" where
  "updated_ids existing d = map (\<lambda>op. exId (existing ! nat (OldIdx op))) (filter (\<lambda>op. Kind op = OpUpdate) (NewSeq d))"

text \<open>The ids of the records created, in order; a short answer leaves the rest empty.\<close>

definition inserted_ids :: "RecordModify list \<Rightarrow> string list \<Rightarrow> string list" where
  "inserted_ids recs ids =
     map (\<lambda>(i, r). if i < length ids then ids ! i else []) (filter (\<lambda>(i, r). rmId r = []) (List.enumerate 0 recs))"

definition applyDiff ::
  "(string \<Rightarrow> 'h) \<Rightarrow> ('s::linorder) scoring \<Rightarrow> lexid \<Rightarrow>
   (RecordModify list \<Rightarrow> nat option \<Rightarrow> modify_error + ModifyResult) \<Rightarrow> existingBlock list \<Rightarrow> nat option \<Rightarrow>
   ParsedBlock list \<Rightarrow> string list \<Rightarrow> write_error + SetResult \<times> nat" where
  "applyDiff hash sc g modify existing ifUnchangedSince newParsed newRendered =
     (let d = Diff hash sc (renderExisting existing) newRendered
      in case allocateInsertPositions g existing d of
           None \<Rightarrow> Inl AllocateFailed
         | Some positions \<Rightarrow>
             if \<not> checkPositions d positions then Inl PositionTooLong
             else
               let records = diff_records existing newParsed positions d;
                   result = \<lparr>Inserted = [], Updated = updated_ids existing d,
                             Deleted = map (\<lambda>oldIdx. exId (existing ! oldIdx)) (Deletes d),
                             Unchanged = length (filter (\<lambda>op. Kind op = OpKeep) (NewSeq d)), srVersion = []\<rparr>
               in if records = [] then Inr (result, 0)
                  else (case modify records ifUnchangedSince of
                          Inl e \<Rightarrow> Inl (ModifyError e)
                        | Inr res \<Rightarrow>
                            if list_ex (\<lambda>(i, deleted). \<not> (ifUnchangedSince = None \<and> deleted)) (Rejections res)
                            then Inl RejectedError
                            else Inr (result\<lparr>Inserted := inserted_ids records (RecordIds res),
                                    Updated := filter (\<lambda>i. i \<notin> fst ` set (Rejections res)) (Updated result)\<rparr>,
                                  ApplySeq res)))"

section \<open>Contents and versions\<close>

definition checkBlockSizes :: "ParsedBlock list \<Rightarrow> write_error option" where
  "checkBlockSizes parsed =
     map_option (\<lambda>(i, p). BlockTooLargeError i (length (pbText p)))
       (List.find (\<lambda>(i, p). length (pbText p) > MaxTextBytes) (List.enumerate 0 parsed))"

definition parseBlocks :: "string list \<Rightarrow> write_error + ParsedBlock list \<times> string list" where
  "parseBlocks raw =
     (let parsed = map ParseBlock raw
      in case checkBlockSizes parsed of
           Some e \<Rightarrow> Inl e
         | None \<Rightarrow> Inr (parsed, map RenderBlock parsed))"

definition parseContent :: "string \<Rightarrow> write_error + ParsedBlock list \<times> string list" where
  "parseContent content = parseBlocks (Split content)"

text \<open>\<open>hash36\<close> is the hash of the body in base 36.\<close>

definition formatVersion :: "(string \<Rightarrow> string) \<Rightarrow> string \<Rightarrow> nat \<Rightarrow> string \<Rightarrow> string" where
  "formatVersion hash36 gen seq content = gen @ ''.'' @ Itoa seq @ ''.'' @ hash36 content"

definition readDocument :: "(string \<Rightarrow> string) \<Rightarrow> string \<Rightarrow> existingBlock list \<times> nat \<Rightarrow> Document" where
  "readDocument hash36 gen r =
     (let content = Join (renderExisting (fst r))
      in \<lparr>Content = content, Version = formatVersion hash36 gen (snd r) content\<rparr>)"

section \<open>The conditional write\<close>

definition maxWriteAttempts :: nat where "maxWriteAttempts = 3"

text \<open>
  What a write meets: the generation of the space, what each attempt reads, and how \<open>Modify\<close> answers it;
  the two reads may fail.
\<close>

record write_env =
  weGen :: "string option"
  weRead :: "nat \<Rightarrow> (existingBlock list \<times> nat) option"
  weModify :: "nat \<Rightarrow> RecordModify list \<Rightarrow> nat option \<Rightarrow> modify_error + ModifyResult"

text \<open>The loop, from an attempt on with \<open>n\<close> more to go; \<open>write\<close> is told the attempt.\<close>

fun write_attempts ::
  "nat \<Rightarrow> (string \<Rightarrow> string) \<Rightarrow> write_env \<Rightarrow> string \<Rightarrow> bool \<Rightarrow>
   (nat \<Rightarrow> Document \<Rightarrow> existingBlock list \<Rightarrow> nat option \<Rightarrow> write_error + SetResult) \<Rightarrow> nat \<Rightarrow> write_error + SetResult" where
  "write_attempts 0 hash36 env gen unconditional write attempt = Inl (ModifyError PreconditionFailed)"
| "write_attempts (Suc n) hash36 env gen unconditional write attempt =
     (case weRead env attempt of
        None \<Rightarrow> Inl ReadFailed
      | Some r \<Rightarrow>
          let ifUnchangedSince = (if unconditional \<and> attempt = maxWriteAttempts then None else Some (snd r));
              res = write attempt (readDocument hash36 gen r) (fst r) ifUnchangedSince
          in if res \<noteq> Inl (ModifyError PreconditionFailed) then res
             else write_attempts n hash36 env gen unconditional write (attempt + 1))"

definition writeAgainstRead ::
  "(string \<Rightarrow> string) \<Rightarrow> write_env \<Rightarrow> string \<Rightarrow> bool \<Rightarrow>
   (nat \<Rightarrow> Document \<Rightarrow> existingBlock list \<Rightarrow> nat option \<Rightarrow> write_error + SetResult) \<Rightarrow> write_error + SetResult" where
  "writeAgainstRead hash36 env gen unconditional write =
     write_attempts maxWriteAttempts hash36 env gen unconditional write 1"

definition set_write ::
  "(string \<Rightarrow> 'h) \<Rightarrow> (string \<Rightarrow> string) \<Rightarrow> ('s::linorder) scoring \<Rightarrow> lexid \<Rightarrow> write_env \<Rightarrow> string \<Rightarrow> string \<Rightarrow>
   ParsedBlock list \<Rightarrow> string list \<Rightarrow> nat \<Rightarrow> Document \<Rightarrow> existingBlock list \<Rightarrow> nat option \<Rightarrow> write_error + SetResult" where
  "set_write hash hash36 sc g env gen ifVersion parsed rendered attempt read existing ifUnchangedSince =
     (if ifVersion \<noteq> [] \<and> ifVersion \<noteq> Version read then Inl (ConflictError read)
      else (case applyDiff hash sc g (weModify env attempt) existing ifUnchangedSince parsed rendered of
              Inl e \<Rightarrow> Inl e
            | Inr (res, applied) \<Rightarrow>
                Inr (res\<lparr>srVersion :=
                  (if length (Inserted res) + length (Updated res) + length (Deleted res) > 0
                   then formatVersion hash36 gen applied (Join rendered) else Version read)\<rparr>)))"

definition Set ::
  "(string \<Rightarrow> 'h) \<Rightarrow> (string \<Rightarrow> string) \<Rightarrow> ('s::linorder) scoring \<Rightarrow> lexid \<Rightarrow> write_env \<Rightarrow> string \<Rightarrow> string \<Rightarrow>
   write_error + SetResult" where
  "Set hash hash36 sc g env content ifVersion =
     (case parseContent content of
        Inl e \<Rightarrow> Inl e
      | Inr (parsed, rendered) \<Rightarrow>
          (case weGen env of
             None \<Rightarrow> Inl GenerationFailed
           | Some gen \<Rightarrow>
               writeAgainstRead hash36 env gen (ifVersion = []) (set_write hash hash36 sc g env gen ifVersion parsed rendered)))"

definition Get :: "(string \<Rightarrow> string) \<Rightarrow> write_env \<Rightarrow> write_error + Document" where
  "Get hash36 env =
     (case weGen env of
        None \<Rightarrow> Inl GenerationFailed
      | Some gen \<Rightarrow> (case weRead env 1 of None \<Rightarrow> Inl ReadFailed | Some r \<Rightarrow> Inr (readDocument hash36 gen r)))"

definition edit_write ::
  "(string \<Rightarrow> 'h) \<Rightarrow> (string \<Rightarrow> string) \<Rightarrow> ('s::linorder) scoring \<Rightarrow> lexid \<Rightarrow> write_env \<Rightarrow> Edit list \<Rightarrow>
   nat \<Rightarrow> Document \<Rightarrow> existingBlock list \<Rightarrow> nat option \<Rightarrow> write_error + SetResult" where
  "edit_write hash nfkc sc g env edits attempt read existing ifUnchangedSince =
     (case applyEdits nfkc (Content read) edits of
        Inl e \<Rightarrow> Inl (EditError e)
      | Inr edited \<Rightarrow>
          (case parseContent edited of
             Inl e \<Rightarrow> Inl e
           | Inr (parsed, rendered) \<Rightarrow>
               map_sum id fst (applyDiff hash sc g (weModify env attempt) existing ifUnchangedSince parsed rendered)))"

definition EditContent ::
  "(string \<Rightarrow> 'h) \<Rightarrow> (string \<Rightarrow> string) \<Rightarrow> (string \<Rightarrow> string) \<Rightarrow> ('s::linorder) scoring \<Rightarrow> lexid \<Rightarrow> write_env \<Rightarrow> Edit list \<Rightarrow>
   write_error + SetResult" where
  "EditContent hash hash36 nfkc sc g env edits =
     (case weGen env of
        None \<Rightarrow> Inl GenerationFailed
      | Some gen \<Rightarrow> writeAgainstRead hash36 env gen True (edit_write hash nfkc sc g env edits))"

section \<open>Appending\<close>

definition trimEdgeEmpties :: "string list \<Rightarrow> string list" where
  "trimEdgeEmpties blocks = rev (dropWhile (\<lambda>b. b = []) (rev (dropWhile (\<lambda>b. b = []) blocks)))"

text \<open>
  The records an append sends, none when there is nothing to append; \<open>maxPos\<close> is the position of the last
  top-level block, whose lookup may fail.
\<close>

definition append_records :: "lexid \<Rightarrow> string option \<Rightarrow> string \<Rightarrow> write_error + RecordModify list" where
  "append_records g maxPos content =
     (let rawNew = trimEdgeEmpties (Split content)
      in if rawNew = [] then Inr []
         else (case parseBlocks rawNew of
                 Inl e \<Rightarrow> Inl e
               | Inr (parsed, _) \<Rightarrow>
                   (case maxPos of
                      None \<Rightarrow> Inl ReadFailed
                    | Some prev \<Rightarrow>
                        (case AllocateRun g prev [] (int (length rawNew)) of
                           None \<Rightarrow> Inl AllocateFailed
                         | Some positions \<Rightarrow>
                             if \<not> list_all (\<lambda>pos. length pos \<le> MaxPosBytes) positions then Inl PositionTooLong
                             else Inr (map (\<lambda>(p, pos). buildCreateRecord p pos) (zip parsed positions))))))"

definition Append ::
  "lexid \<Rightarrow> string option \<Rightarrow> (RecordModify list \<Rightarrow> nat option \<Rightarrow> modify_error + ModifyResult) \<Rightarrow> string \<Rightarrow> write_error + SetResult" where
  "Append g maxPos modify content =
     (case append_records g maxPos content of
        Inl e \<Rightarrow> Inl e
      | Inr records \<Rightarrow>
          let none = \<lparr>Inserted = [], Updated = [], Deleted = [], Unchanged = 0, srVersion = []\<rparr>
          in if records = [] then Inr none
             else (case modify records None of
                     Inl e \<Rightarrow> Inl (ModifyError e)
                   | Inr res \<Rightarrow>
                       if Rejections res \<noteq> [] then Inl RejectedError
                       else Inr (none\<lparr>Inserted := take (length records) (RecordIds res)\<rparr>)))"

section \<open>What a change does\<close>

text \<open>
  The SDK's documented effect of a change on the listed blocks: \<open>$set\<close> and \<open>$unset\<close> of a field, removal of a
  deleted record, and a block with an id of the SDK's choice for each created one.
\<close>

definition op_effect :: "existingBlock \<Rightarrow> write_op \<Rightarrow> existingBlock" where
  "op_effect b op =
     (if woType op = OpSet \<and> woPath op = FieldType
      then (case woValue op of WText t \<Rightarrow> b\<lparr>exType := t\<rparr> | _ \<Rightarrow> b)
      else if woType op = OpSet \<and> woPath op = FieldText
      then (case woValue op of WText t \<Rightarrow> b\<lparr>exText := t\<rparr> | _ \<Rightarrow> b)
      else (case cut_prefix (style_path []) (woPath op) of
              None \<Rightarrow> b
            | Some key \<Rightarrow>
                if woType op = OpUnset then b\<lparr>exStyle := AList.delete key (exStyle b)\<rparr>
                else (case woValue op of WStyle v \<Rightarrow> b\<lparr>exStyle := AList.update key v (exStyle b)\<rparr> | _ \<Rightarrow> b)))"

definition block_of :: "block_payload \<Rightarrow> string \<Rightarrow> existingBlock" where
  "block_of p i = \<lparr>exId = i, exType = cpType p, exStyle = (case cpStyle p of None \<Rightarrow> [] | Some st \<Rightarrow> st),
     exText = (case cpText p of None \<Rightarrow> [] | Some t \<Rightarrow> t), exPos = cpPos p\<rparr>"

definition touch_block :: "RecordModify list \<Rightarrow> existingBlock \<Rightarrow> existingBlock list" where
  "touch_block recs b =
     (case List.find (\<lambda>r. rmId r = exId b) recs of
        None \<Rightarrow> [b]
      | Some r \<Rightarrow> if list_ex (\<lambda>op. woType op = OpDelete) (rmOps r) then [] else [foldl op_effect b (rmOps r)])"

definition creates :: "RecordModify list \<Rightarrow> block_payload list" where
  "creates recs = concat (map (\<lambda>r. case rmOps r of
       [op] \<Rightarrow> (case woValue op of WBlock p \<Rightarrow> [p] | _ \<Rightarrow> [])
     | _ \<Rightarrow> []) recs)"

definition modify_effect :: "RecordModify list \<Rightarrow> existingBlock list \<Rightarrow> existingBlock list \<Rightarrow> bool" where
  "modify_effect recs before after \<longleftrightarrow>
     (\<exists>cs. list_all2 (\<lambda>p c. c = block_of p (exId c)) (creates recs) cs \<and>
        mset after = mset (concat (map (touch_block recs) before) @ cs))"

section \<open>An update renders as the new block\<close>

lemma style_path_key [simp]: "cut_prefix (style_path []) (style_path key) = Some key"
  by (simp add: style_path_def cut_prefix_Some)

lemma style_path_neq [simp]: "style_path key \<noteq> FieldType" "style_path key \<noteq> FieldText"
  by (simp_all add: style_path_def block_fields)

lemma style_op_effect:
  fixes nstyle :: style
  assumes "map_of (exStyle b) key = map_of ostyle key"
  defines "b' \<equiv> foldl op_effect b (style_op ostyle nstyle key)"
  shows "b' = b\<lparr>exStyle := exStyle b'\<rparr>"
    and "map_of (exStyle b') key =
      (case map_of nstyle key of
         None \<Rightarrow> None
       | Some nv \<Rightarrow> (case map_of ostyle key of Some ov \<Rightarrow> Some (if scalarEqual ov nv then ov else nv) | None \<Rightarrow> Some nv))"
    and "k \<noteq> key \<Longrightarrow> map_of (exStyle b') k = map_of (exStyle b) k"
  using assms(1) unfolding b'_def
  by (auto simp: style_op_def op_effect_def update_conv' delete_conv' split: option.splits)

definition style_agrees :: "style \<Rightarrow> style \<Rightarrow> string \<Rightarrow> bool" where
  "style_agrees a b key \<longleftrightarrow> rel_option (\<lambda>x y. x = y \<or> scalarEqual x y) (map_of a key) (map_of b key)"

lemma style_ops_effect:
  "distinct keys \<Longrightarrow> \<forall>key \<in> set keys. map_of (exStyle b) key = map_of ostyle key \<Longrightarrow>
     (let b' = foldl op_effect b (concat (map (style_op ostyle nstyle) keys))
      in b' = b\<lparr>exStyle := exStyle b'\<rparr> \<and> (\<forall>key \<in> set keys. style_agrees (exStyle b') nstyle key) \<and>
         (\<forall>k. k \<notin> set keys \<longrightarrow> map_of (exStyle b') k = map_of (exStyle b) k))"
proof (induction keys arbitrary: b)
  case (Cons key keys)
  let ?b = "foldl op_effect b (style_op ostyle nstyle key)"
  have here: "map_of (exStyle b) key = map_of ostyle key" using Cons.prems by simp
  note step = style_op_effect [OF here, where nstyle = nstyle]
  have "\<forall>k \<in> set keys. map_of (exStyle ?b) k = map_of ostyle k" using Cons.prems step(3) by (metis distinct.simps(2) list.set_intros(2))
  with Cons.IH [of ?b] Cons.prems(1) have IH: "let b' = foldl op_effect ?b (concat (map (style_op ostyle nstyle) keys))
      in b' = ?b\<lparr>exStyle := exStyle b'\<rparr> \<and> (\<forall>key \<in> set keys. style_agrees (exStyle b') nstyle key) \<and>
         (\<forall>k. k \<notin> set keys \<longrightarrow> map_of (exStyle b') k = map_of (exStyle ?b) k)" by simp
  let ?b' = "foldl op_effect ?b (concat (map (style_op ostyle nstyle) keys))"
  have "map_of (exStyle ?b') key = map_of (exStyle ?b) key" using IH Cons.prems(1) by (simp add: Let_def)
  then have own: "style_agrees (exStyle ?b') nstyle key"
    unfolding style_agrees_def step(2) by (auto split: option.split)
  have same: "?b' = b\<lparr>exStyle := exStyle ?b'\<rparr>" using IH step(1)
    by (metis (no_types, lifting) existingBlock.surjective existingBlock.update_convs(3))
  show ?case using IH own same step(3) unfolding Let_def
    by (auto simp: Let_def)
qed (simp add: Let_def)

lemma scalarEqual_reads:
  assumes "style_agrees a b key"
  shows "intStyle a key d = intStyle b key d" "boolStyle a key e = boolStyle b key e" "stringStyle a key f = stringStyle b key f"
proof -
  have "map_of a key = map_of b key \<or> (\<exists>x y. map_of a key = Some x \<and> map_of b key = Some y \<and> scalarEqual x y)"
    using assms unfolding style_agrees_def by (cases "map_of a key"; cases "map_of b key") auto
  moreover have "int_of_float (of_int i) = i" for i by (simp add: int_of_float_def)
  ultimately show "intStyle a key d = intStyle b key d" "boolStyle a key e = boolStyle b key e" "stringStyle a key f = stringStyle b key f"
    unfolding intStyle_def boolStyle_def stringStyle_def by (auto elim!: scalarEqual.elims(2))
qed

lemma RenderBlock_agrees:
  assumes "pbType a = pbType b" "pbText a = pbText b" "\<forall>key \<in> set (markdownStyleKeys (pbType b)). style_agrees (pbStyle a) (pbStyle b) key"
  shows "RenderBlock a = RenderBlock b"
proof -
  note reads = scalarEqual_reads [of "pbStyle a" "pbStyle b"]
  consider "pbType b = TypeHeading" | "pbType b = TypeListItem" | "pbType b = TypeCheckListItem" | "pbType b = TypeCode"
    | "pbType b \<notin> {TypeHeading, TypeListItem, TypeCheckListItem, TypeCode}" by blast
  then show ?thesis
  proof cases
    case 1
    then have "style_agrees (pbStyle a) (pbStyle b) StyleLevel" using assms(3) by (simp add: markdownStyleKeys_def)
    then show ?thesis unfolding RenderBlock_def assms(1,2) using 1 by (simp add: reads)
  next
    case 2
    then have "style_agrees (pbStyle a) (pbStyle b) StyleOrdered" "style_agrees (pbStyle a) (pbStyle b) StyleNumber"
      using assms(3) by (simp_all add: markdownStyleKeys_def block_types)
    then show ?thesis unfolding RenderBlock_def assms(1,2) using 2 by (simp add: reads listMarker_def block_types)
  next
    case 3
    then have "style_agrees (pbStyle a) (pbStyle b) StyleChecked" using assms(3) by (simp add: markdownStyleKeys_def block_types)
    then show ?thesis unfolding RenderBlock_def assms(1,2) using 3 by (simp add: reads block_types)
  next
    case 4
    then have "style_agrees (pbStyle a) (pbStyle b) StyleLang" using assms(3) by (simp add: markdownStyleKeys_def block_types)
    then show ?thesis unfolding RenderBlock_def assms(1,2) using 4 by (simp add: reads block_types)
  next
    case 5
    then show ?thesis unfolding RenderBlock_def assms(1,2) by simp
  qed
qed

lemma style_only:
  "b' = b\<lparr>exStyle := st\<rparr> \<Longrightarrow> exType b' = exType b \<and> exText b' = exText b \<and> exPos b' = exPos b \<and> exId b' = exId b"
  by simp

lemma update_renders:
  fixes old p
  defines "b' \<equiv> foldl op_effect old (rmOps (buildUpdateRecord old p))"
  shows "RenderBlock (as_parsed b') = RenderBlock p \<and> exPos b' = exPos old \<and> exId b' = exId old"
proof -
  let ?T = "if exType old \<noteq> pbType p then [\<lparr>woType = OpSet, woPath = FieldType, woValue = WText (pbType p)\<rparr>] else []"
  let ?X = "if exText old \<noteq> pbText p then [\<lparr>woType = OpSet, woPath = FieldText, woValue = WText (pbText p)\<rparr>] else []"
  let ?S = "concat (map (style_op (exStyle old) (pbStyle p)) (owned_keys old p))"
  let ?b2 = "old\<lparr>exType := pbType p, exText := pbText p\<rparr>"
  let ?bb = "foldl op_effect old (?T @ ?X @ ?S)"
  have old2: "exType ?b2 = pbType p" "exText ?b2 = pbText p" "exPos ?b2 = exPos old" "exId ?b2 = exId old" by simp_all
  have FT: "FieldText \<noteq> FieldType" by (simp add: block_fields)
  have "foldl op_effect old ?T = old\<lparr>exType := pbType p\<rparr>" by (auto simp: op_effect_def)
  moreover have "foldl op_effect (old\<lparr>exType := pbType p\<rparr>) ?X = ?b2"
    using FT by (auto simp: op_effect_def)
  ultimately have bb: "?bb = foldl op_effect ?b2 ?S" by (simp only: foldl_append)
  have d: "distinct (owned_keys old p)" by (simp add: owned_keys_def)
  from style_ops_effect [OF d, of ?b2 "exStyle old" "pbStyle p"] bb
  have eff: "?bb = ?b2\<lparr>exStyle := exStyle ?bb\<rparr>" "\<forall>key \<in> set (owned_keys old p). style_agrees (exStyle ?bb) (pbStyle p) key"
    by (simp_all add: Let_def)
  then have f: "exType ?bb = pbType p" "exText ?bb = pbText p" "exPos ?bb = exPos old" "exId ?bb = exId old"
    using style_only [OF eff(1)] unfolding old2 by blast+
  have "set (markdownStyleKeys (pbType p)) \<subseteq> set (owned_keys old p)" by (auto simp: owned_keys_def)
  then have "RenderBlock (as_parsed ?bb) = RenderBlock p"
    using f eff(2) by (intro RenderBlock_agrees) (auto simp: as_parsed_def)
  moreover have "b' = ?bb"
  proof (cases "?T @ ?X @ ?S = []")
    case True
    then have "?bb = old" by (simp only: foldl_Nil)
    with f(2) have "op_effect old \<lparr>woType = OpSet, woPath = FieldText, woValue = WText (pbText p)\<rparr> = old"
      using FT by (simp add: op_effect_def)
    moreover have "rmOps (buildUpdateRecord old p) = [\<lparr>woType = OpSet, woPath = FieldText, woValue = WText (pbText p)\<rparr>]"
      unfolding buildUpdateRecord_def Let_def using True by (simp only: RecordModify.select_convs if_True refl)
    ultimately show ?thesis using \<open>?bb = old\<close> unfolding b'_def by (simp only: foldl_Cons foldl_Nil)
  next
    case False
    then show ?thesis unfolding b'_def buildUpdateRecord_def Let_def by (simp only: RecordModify.select_convs if_False)
  qed
  ultimately show ?thesis using f by simp
qed

section \<open>Positions\<close>

text \<open>The positions a document ends up with increase, and entries that stay keep theirs.\<close>

lemma sorted_le_last: "sorted_wrt (<) xs \<Longrightarrow> x \<in> set xs \<Longrightarrow> x \<le> last xs" for x :: "'a::linorder"
  by (induction xs rule: rev_induct) (auto simp: sorted_wrt_append)

lemma alloc_runs_ok:
  "lexid_laws g \<Longrightarrow> alloc_runs g prev es = Some ps \<Longrightarrow> sorted_wrt (<) (prev # map snd (filter (\<lambda>e. fst e \<noteq> OpInsert) es)) \<Longrightarrow>
    length ps = length es \<and> sorted_wrt (<) (prev # ps) \<and> (\<forall>i < length es. fst (es ! i) \<noteq> OpInsert \<longrightarrow> ps ! i = snd (es ! i))"
proof (induction g prev es arbitrary: ps rule: alloc_runs.induct)
  case (2 g prev k p rest)
  show ?case
  proof (cases "k = OpInsert")
    case False
    then obtain ps' where ps: "alloc_runs g p rest = Some ps'" "ps = p # ps'" using "2.prems"(2) by auto
    have "prev < p" and "sorted_wrt (<) (p # map snd (filter (\<lambda>e. fst e \<noteq> OpInsert) rest))"
      using "2.prems"(3) False by auto
    from "2.IH"(1) [OF False "2.prems"(1) ps(1) this(2)] \<open>prev < p\<close> show ?thesis
      unfolding ps(2) by (auto simp: nth_Cons' intro: less_trans)
  next
    case True
    let ?es = "(k, p) # rest" and ?ins = "\<lambda>e. fst e = OpInsert"
    let ?run = "takeWhile ?ins ?es" and ?after = "dropWhile ?ins ?es"
    let ?nxt = "case ?after of [] \<Rightarrow> [] | e # _ \<Rightarrow> snd e"
    obtain ids ps' where ids: "AllocateRun g prev ?nxt (int (length ?run)) = Some ids"
      and ps': "alloc_runs g (last ids) ?after = Some ps'" "ps = ids @ ps'"
      using "2.prems"(2) True by (auto simp: Let_def split: option.splits)
    have split: "?es = ?run @ ?after" by simp
    have runI: "\<forall>e \<in> set ?run. fst e = OpInsert" by (auto dest: set_takeWhileD)
    have ne: "?run \<noteq> []" using True by simp
    have kept: "filter (\<lambda>e. fst e \<noteq> OpInsert) ?es = filter (\<lambda>e. fst e \<noteq> OpInsert) ?after"
    proof -
      have "filter (\<lambda>e. fst e \<noteq> OpInsert) ?run = []" unfolding filter_empty_conv using runI by blast
      then have "filter (\<lambda>e. fst e \<noteq> OpInsert) (?run @ ?after) = filter (\<lambda>e. fst e \<noteq> OpInsert) ?after"
        by (simp only: filter_append append_Nil)
      then show ?thesis by (simp only: takeWhile_dropWhile_id)
    qed
    note ar = AllocateRun_ok [OF "2.prems"(1) ids]
    then have len: "length ids = length ?run" by simp
    then have idne: "ids \<noteq> []" using ne by auto
    have low: "last ids < q" if "q \<in> set (map snd (filter (\<lambda>e. fst e \<noteq> OpInsert) ?after))" for q
    proof -
      have "?after \<noteq> []"
      proof
        assume "?after = []"
        from that [unfolded this] show False by simp
      qed
      then obtain e rest' where after: "?after = e # rest'" by (meson neq_Nil_conv)
      then have "fst e \<noteq> OpInsert" using hd_dropWhile [of ?ins ?es] by (metis list.sel(1) list.distinct(1))
      then have srt: "sorted_wrt (<) (prev # snd e # map snd (filter (\<lambda>e. fst e \<noteq> OpInsert) rest'))"
        using "2.prems"(3) kept after by simp
      then have "snd e \<noteq> []" by (cases "snd e") auto
      then have "last ids < snd e" using ar after idne by (simp only: list.case) simp
      moreover have "q = snd e \<or> snd e < q" using that after srt \<open>fst e \<noteq> OpInsert\<close> by auto
      ultimately show ?thesis by (auto intro: less_trans)
    qed
    have "sorted_wrt (<) (last ids # map snd (filter (\<lambda>e. fst e \<noteq> OpInsert) ?after))"
      using "2.prems"(3) kept low by simp
    from "2.IH"(2) [OF _ refl refl refl ids "2.prems"(1) ps'(1) this] True
    have IH: "length ps' = length ?after" "sorted_wrt (<) (last ids # ps')"
      "\<forall>i < length ?after. fst (?after ! i) \<noteq> OpInsert \<longrightarrow> ps' ! i = snd (?after ! i)" by simp_all
    have "length ps = length ?es" using split len IH(1) ps'(2) by (metis length_append)
    moreover have "sorted_wrt (<) (prev # ps)"
    proof -
      have "x \<le> last ids" if "x \<in> set ids" for x
        using ar that by (intro sorted_le_last) simp_all
      then have lt: "x < y" if "x \<in> set ids" "y \<in> set ps'" for x y
        using that IH(2) le_less_trans [of x "last ids" y] by simp
      have prev: "prev < x" if "x \<in> set ids" for x using ar that by simp
      have "prev < y" if "y \<in> set ps'" for y
        using less_trans [OF prev lt, of "last ids" y] that idne by simp
      then show ?thesis using ar IH(2) lt prev unfolding ps'(2) by (auto simp: sorted_wrt_append)
    qed
    moreover have "ps ! i = snd (?es ! i)" if "i < length ?es" "fst (?es ! i) \<noteq> OpInsert" for i
    proof -
      have i: "\<not> i < length ?run"
      proof
        assume i: "i < length ?run"
        then have "(?run @ ?after) ! i = ?run ! i" by (simp only: nth_append if_True)
        then show False using that(2) runI nth_mem [OF i] unfolding takeWhile_dropWhile_id by metis
      qed
      have "(?run @ ?after) ! i = ?after ! (i - length ?run)" using i by (simp only: nth_append if_False)
      then have "?es ! i = ?after ! (i - length ?run)" by (simp only: takeWhile_dropWhile_id)
      moreover have "length ?es = length ?run + length ?after" by (metis length_append takeWhile_dropWhile_id)
      then have "i - length ?run < length ?after" using that(1) i by linarith
      ultimately show ?thesis using IH(3) that(2) i len unfolding ps'(2) by (simp only: nth_append) simp
    qed
    ultimately show ?thesis by blast
  qed
qed simp

section \<open>A saved document reads back\<close>

lemma monotone_pairsD: "monotone_pairs A \<Longrightarrow> (i, j) \<in> A \<Longrightarrow> (i', j') \<in> A \<Longrightarrow> (i < i') = (j < j')"
  unfolding monotone_pairs_def by blast

lemma sorted_listing:
  fixes ps :: "'k::linorder list"
  assumes "sorted_wrt (<) ps" "distinct (map key xs)" "key ` set xs = set ps" "length rs = length ps"
    and each: "\<forall>b \<in> set xs. \<exists>j < length ps. key b = ps ! j \<and> f b = rs ! j"
  shows "map f (sort_key key xs) = rs"
proof -
  let ?s = "sort_key key xs"
  have d: "distinct ps" using assms(1) by (simp add: strict_sorted_iff)
  have "map key ?s = ps"
  proof (rule sorted_distinct_set_unique)
    show "distinct (map key ?s)" using assms(2) by (metis mset_map mset_sort mset_eq_imp_distinct_iff)
  qed (use assms d in \<open>auto simp: strict_sorted_iff\<close>)
  then have pos: "key (?s ! j) = ps ! j" if "j < length ps" for j
    using that nth_map [of j ?s key] by (metis length_map)
  show ?thesis
  proof (rule nth_equalityI)
    show l: "length (map f ?s) = length rs" using \<open>map key ?s = ps\<close> assms(4) by (metis length_map)
    fix j assume "j < length (map f ?s)"
    then have j: "j < length ps" "?s ! j \<in> set xs" using l assms(4) nth_mem [of j ?s] by simp_all
    then obtain i where i: "i < length ps" "key (?s ! j) = ps ! i" "f (?s ! j) = rs ! i" using each by blast
    then have "i = j" using pos [OF j(1)] d j(1) by (simp add: nth_eq_iff_index_eq)
    then show "map f ?s ! j = rs ! j" using i(3) \<open>j < length (map f ?s)\<close> by simp
  qed
qed

text \<open>What a save starts from: a listing with increasing positions and distinct ids, and the plan of the diff.\<close>

definition listing_ok :: "existingBlock list \<Rightarrow> bool" where
  "listing_ok existing \<longleftrightarrow> sorted_wrt (<) ([] # map exPos existing) \<and> distinct (map exId existing) \<and> [] \<notin> exId ` set existing"

definition save_plan ::
  "(string \<Rightarrow> 'h) \<Rightarrow> lexid \<Rightarrow> existingBlock list \<Rightarrow> ParsedBlock list \<Rightarrow> DiffResult \<Rightarrow> string list \<Rightarrow> bool" where
  "save_plan hash g existing parsed d ps \<longleftrightarrow>
     listing_ok existing \<and> lexid_laws g \<and> diff_ok hash (renderExisting existing) (map RenderBlock parsed) d \<and>
     allocateInsertPositions g existing d = Some ps"

lemma plan_seq:
  assumes "save_plan hash g existing parsed d ps" "j < length parsed"
  shows "length (NewSeq d) = length parsed"
    and "Kind (NewSeq d ! j) \<noteq> OpInsert \<Longrightarrow> 0 \<le> OldIdx (NewSeq d ! j) \<and> OldIdx (NewSeq d ! j) < int (length existing)"
proof -
  show "length (NewSeq d) = length parsed" using assms(1) by (simp add: save_plan_def diff_ok_def)
  then have "NewSeq d ! j \<in> set (NewSeq d)" using assms(2) by simp
  then show "Kind (NewSeq d ! j) \<noteq> OpInsert \<Longrightarrow> 0 \<le> OldIdx (NewSeq d ! j) \<and> OldIdx (NewSeq d ! j) < int (length existing)"
    using assms(1) by (fastforce simp: save_plan_def diff_ok_def renderExisting_def)
qed

lemma plan_positions:
  assumes p: "save_plan hash g existing parsed d ps"
  shows "length ps = length parsed" "sorted_wrt (<) ps"
    and "j < length parsed \<Longrightarrow> Kind (NewSeq d ! j) \<noteq> OpInsert \<Longrightarrow> ps ! j = exPos (existing ! nat (OldIdx (NewSeq d ! j)))"
proof -
  let ?es = "map (\<lambda>op. (Kind op, kept_pos existing op)) (NewSeq d)"
  let ?kept = "\<lambda>e. fst e \<noteq> OpInsert"
  have len: "length (NewSeq d) = length parsed" using p by (simp add: save_plan_def diff_ok_def)
  have kp: "kept_pos existing (NewSeq d ! j) = exPos (existing ! nat (OldIdx (NewSeq d ! j)))"
    if "j < length parsed" "Kind (NewSeq d ! j) \<noteq> OpInsert" for j
    using plan_seq(2) [OF p that] that(2) by (simp add: kept_pos_def)
  have srt: "sorted_wrt (<) ([] # map exPos existing)" using p by (simp add: save_plan_def listing_ok_def)
  have "sorted_wrt (\<lambda>e e'. ?kept e \<longrightarrow> ?kept e' \<longrightarrow> snd e < snd e') ?es"
    unfolding sorted_wrt_iff_nth_less
  proof (intro allI impI)
    fix i j assume ij: "i < j" "j < length ?es" "?kept (?es ! i)" "?kept (?es ! j)"
    then have il: "i < length parsed" "j < length parsed" and k: "Kind (NewSeq d ! i) \<noteq> OpInsert" "Kind (NewSeq d ! j) \<noteq> OpInsert"
      using len by simp_all
    let ?o = "\<lambda>i. nat (OldIdx (NewSeq d ! i))"
    have "(?o i, i) \<in> pairs_of (NewSeq d)" "(?o j, j) \<in> pairs_of (NewSeq d)" using il k len by (simp_all add: pairs_of_nth)
    moreover have "monotone_pairs (pairs_of (NewSeq d))" using p by (simp add: save_plan_def diff_ok_def)
    ultimately have "?o i < ?o j" using ij(1) monotone_pairsD by blast
    moreover have o: "?o j < length existing" using plan_seq(2) [OF p il(2) k(2)] by linarith
    ultimately have "map exPos existing ! ?o i < map exPos existing ! ?o j"
      using srt by (intro sorted_wrt_nth_less [of "(<)"]) simp_all
    then have "exPos (existing ! ?o i) < exPos (existing ! ?o j)" using o less_trans [OF \<open>?o i < ?o j\<close> o] by (simp only: nth_map)
    then show "snd (?es ! i) < snd (?es ! j)" using kp il k len by simp
  qed
  then have "sorted_wrt (\<lambda>e e'. ?kept e \<longrightarrow> ?kept e' \<longrightarrow> snd e < snd e') (filter ?kept ?es)" by (rule sorted_wrt_filter)
  then have s1: "sorted_wrt (<) (map snd (filter ?kept ?es))"
    unfolding sorted_wrt_map by (rule sorted_wrt_mono_rel [rotated]) auto
  have "[] < x" if m: "x \<in> set (map snd (filter ?kept ?es))" for x
  proof -
    obtain op where "op \<in> set (NewSeq d)" "Kind op \<noteq> OpInsert" "x = kept_pos existing op"
      using m by (auto simp del: in_set_conv_nth)
    then obtain j where "j < length parsed" "Kind (NewSeq d ! j) \<noteq> OpInsert" "x = kept_pos existing (NewSeq d ! j)"
      using len by (metis in_set_conv_nth)
    then have "x \<in> set (map exPos existing)" using kp plan_seq(2) [OF p] by (auto simp: nat_less_iff)
    then show ?thesis using srt by auto
  qed
  with s1 have s2: "sorted_wrt (<) ([] # map snd (filter ?kept ?es))" by simp
  have a: "alloc_runs g [] ?es = Some ps" "lexid_laws g" using p by (simp_all add: save_plan_def allocateInsertPositions_def)
  from alloc_runs_ok [OF a(2,1) s2] have r: "length ps = length ?es" "sorted_wrt (<) ([] # ps)"
    "\<forall>i < length ?es. fst (?es ! i) \<noteq> OpInsert \<longrightarrow> ps ! i = snd (?es ! i)" by blast+
  show "length ps = length parsed" "sorted_wrt (<) ps" using r len by simp_all
  show "ps ! j = exPos (existing ! nat (OldIdx (NewSeq d ! j)))" if "j < length parsed" "Kind (NewSeq d ! j) \<noteq> OpInsert"
    using r(3) len that kp by simp
qed

lemma update_ops_values:
  assumes "op \<in> set (rmOps (buildUpdateRecord old p))"
  shows "woType op \<noteq> OpDelete" "woValue op \<noteq> WBlock q"
proof -
  have "woType x \<noteq> OpDelete \<and> woValue x \<noteq> WBlock q" if "x \<in> set (style_op a b key)" for x a b key
    using that by (auto simp: style_op_def split: option.splits if_splits)
  then show "woType op \<noteq> OpDelete" "woValue op \<noteq> WBlock q"
    using assms by (auto simp: buildUpdateRecord_def Let_def split: if_splits)
qed

lemma creates_simps:
  "creates (a @ b) = creates a @ creates b"
  "creates [] = []"
  "creates [buildUpdateRecord old p] = []"
  "creates (map (\<lambda>x. delete_record (f x)) xs) = []"
  "creates [buildCreateRecord p pos] = [\<lparr>cpType = pbType p, cpParentId = RootParentId, cpPos = pos,
     cpText = (if pbText p \<noteq> [] then Some (pbText p) else None), cpStyle = (if pbStyle p \<noteq> [] then Some (pbStyle p) else None)\<rparr>]"
proof -
  show "creates [buildUpdateRecord old p] = []"
    using update_ops_values(2) [of _ old p] by (auto simp: creates_def split: list.split write_value.split)
  show "creates (map (\<lambda>x. delete_record (f x)) xs) = []"
    by (induction xs) (simp_all add: creates_def delete_record_def)
qed (simp_all add: creates_def buildCreateRecord_def)

definition create_payload :: "ParsedBlock \<Rightarrow> string \<Rightarrow> block_payload" where
  "create_payload p pos = \<lparr>cpType = pbType p, cpParentId = RootParentId, cpPos = pos,
     cpText = (if pbText p \<noteq> [] then Some (pbText p) else None), cpStyle = (if pbStyle p \<noteq> [] then Some (pbStyle p) else None)\<rparr>"

lemma created_renders: "as_parsed (block_of (create_payload p pos) i) = p" "exPos (block_of (create_payload p pos) i) = pos"
  by (simp_all add: as_parsed_def block_of_def create_payload_def)

lemma creates_plan:
  "creates (diff_records existing parsed ps d) =
     map (\<lambda>j. create_payload (parsed ! j) (ps ! j)) (filter (\<lambda>j. Kind (NewSeq d ! j) = OpInsert) [0..<length (NewSeq d)])"
proof -
  have "creates (concat (map (\<lambda>i. op_record existing parsed ps i (NewSeq d ! i)) is)) =
      map (\<lambda>j. create_payload (parsed ! j) (ps ! j)) (filter (\<lambda>j. Kind (NewSeq d ! j) = OpInsert) is)" for "is"
    by (induction "is") (auto simp: creates_simps op_record_def create_payload_def split: OpKind.split)
  then show ?thesis by (simp add: diff_records_def creates_simps)
qed

lemma plan_records:
  assumes p: "save_plan hash g existing parsed d ps" and o: "i < length existing"
    and r: "r \<in> set (diff_records existing parsed ps d)" "rmId r = exId (existing ! i)"
  shows "(\<exists>j < length parsed. Kind (NewSeq d ! j) = OpUpdate \<and> nat (OldIdx (NewSeq d ! j)) = i \<and>
      r = buildUpdateRecord (existing ! i) (parsed ! j)) \<or> i \<in> set (Deletes d) \<and> r = delete_record (exId (existing ! i))"
proof -
  have ids: "distinct (map exId existing)" "exId (existing ! i) \<noteq> []"
    using p nth_mem [OF o] by (auto simp: save_plan_def listing_ok_def image_iff)
  have same: "i' = i" if "i' < length existing" "exId (existing ! i') = exId (existing ! i)" for i'
    using ids(1) that o by (simp add: distinct_conv_nth) metis
  have del: "i' < length existing" if "i' \<in> set (Deletes d)" for i'
    using p that by (auto simp: save_plan_def diff_ok_def renderExisting_def)
  from r(1) consider (seq) j where "j < length (NewSeq d)" "r \<in> set (op_record existing parsed ps j (NewSeq d ! j))"
    | (del) i' where "i' \<in> set (Deletes d)" "r = delete_record (exId (existing ! i'))"
    by (auto simp: diff_records_def)
  then show ?thesis
  proof cases
    case seq
    have len: "length (NewSeq d) = length parsed" using p by (simp add: save_plan_def diff_ok_def)
    have "Kind (NewSeq d ! j) = OpUpdate \<and> r = buildUpdateRecord (existing ! nat (OldIdx (NewSeq d ! j))) (parsed ! j)"
      using seq(2) r(2) ids(2) by (auto simp: op_record_def buildCreateRecord_def split: OpKind.splits)
    moreover from this have "exId (existing ! nat (OldIdx (NewSeq d ! j))) = exId (existing ! i)"
      using r(2) by (simp add: buildUpdateRecord_def Let_def)
    moreover have "nat (OldIdx (NewSeq d ! j)) < length existing"
      using plan_seq(2) [OF p, of j] seq(1) len calculation(1) by auto
    ultimately show ?thesis using same seq(1) len by metis
  next
    case del
    then show ?thesis using same \<open>\<And>i'. i' \<in> set (Deletes d) \<Longrightarrow> i' < length existing\<close> r(2) by (auto simp: delete_record_def)
  qed
qed

text \<open>The old blocks a plan keeps, and what a change leaves of a block.\<close>

lemma kept_iff:
  assumes "save_plan hash g existing parsed d ps" "i < length existing"
  shows "i \<notin> set (Deletes d) \<longleftrightarrow> (\<exists>j < length parsed. Kind (NewSeq d ! j) \<noteq> OpInsert \<and> nat (OldIdx (NewSeq d ! j)) = i)"
  using assms by (auto simp: save_plan_def diff_ok_def renderExisting_def pairs_of_def image_iff)

lemma find_only:
  assumes "r \<in> set rs" "P r" "\<And>x. x \<in> set rs \<Longrightarrow> P x \<Longrightarrow> x = r"
  shows "List.find P rs = Some r"
proof (cases "List.find P rs")
  case None
  then show ?thesis using assms(1,2) by (auto simp: find_None_iff)
next
  case (Some x)
  then have "x \<in> set rs \<and> P x" unfolding find_Some_iff by auto
  then show ?thesis using Some assms(3) by blast
qed

lemma touch_plan:
  fixes recs existing parsed ps d
  defines "recs \<equiv> diff_records existing parsed ps d"
  assumes p: "save_plan hash g existing parsed d ps" and i: "i < length existing"
    and inj: "inj_on hash (set (renderExisting existing) \<union> RenderBlock ` set parsed)"
  shows "i \<in> set (Deletes d) \<Longrightarrow> touch_block recs (existing ! i) = []"
    and "j < length parsed \<Longrightarrow> Kind (NewSeq d ! j) \<noteq> OpInsert \<Longrightarrow> nat (OldIdx (NewSeq d ! j)) = i \<Longrightarrow>
      \<exists>b. touch_block recs (existing ! i) = [b] \<and> exPos b = exPos (existing ! i) \<and>
        RenderBlock (as_parsed b) = RenderBlock (parsed ! j)"
proof -
  let ?b = "existing ! i"
  note recs = plan_records [OF p i, folded recs_def]
  have len: "length (NewSeq d) = length parsed" using p by (simp add: save_plan_def diff_ok_def)
  have uniq: "j = j'" if "j < length parsed" "j' < length parsed" "Kind (NewSeq d ! j) \<noteq> OpInsert"
    "Kind (NewSeq d ! j') \<noteq> OpInsert" "nat (OldIdx (NewSeq d ! j)) = nat (OldIdx (NewSeq d ! j'))" for j j'
  proof -
    have "monotone_pairs (pairs_of (NewSeq d))" using p by (simp add: save_plan_def diff_ok_def)
    note mono = monotone_pairsD [OF this]
    have "(nat (OldIdx (NewSeq d ! j)), j) \<in> pairs_of (NewSeq d)" "(nat (OldIdx (NewSeq d ! j')), j') \<in> pairs_of (NewSeq d)"
      by (rule pairs_of_nth; use that len in simp)+
    from mono [OF this] mono [OF this(2,1)] show ?thesis unfolding that(5) by simp
  qed
  show "touch_block recs ?b = []" if del: "i \<in> set (Deletes d)"
  proof -
    have m: "delete_record (exId ?b) \<in> set recs" using del by (auto simp: recs_def diff_records_def)
    have u: "x = delete_record (exId ?b)" if "x \<in> set recs" "rmId x = exId ?b" for x
      using recs [OF that] kept_iff [OF p i] del by (metis OpKind.distinct(5))
    have "List.find (\<lambda>r. rmId r = exId ?b) recs = Some (delete_record (exId ?b))"
      by (rule find_only [OF m _ u]) (simp_all add: delete_record_def)
    then show ?thesis by (simp add: touch_block_def delete_record_def)
  qed
  assume j: "j < length parsed" "Kind (NewSeq d ! j) \<noteq> OpInsert" "nat (OldIdx (NewSeq d ! j)) = i"
  then have nd: "i \<notin> set (Deletes d)" using kept_iff [OF p i] by blast
  show "\<exists>b. touch_block recs ?b = [b] \<and> exPos b = exPos ?b \<and> RenderBlock (as_parsed b) = RenderBlock (parsed ! j)"
  proof (cases "Kind (NewSeq d ! j) = OpUpdate")
    case True
    let ?r = "buildUpdateRecord ?b (parsed ! j)"
    have "?r \<in> set (op_record existing parsed ps j (NewSeq d ! j))" using True j(3) by (simp add: op_record_def)
    then have m: "?r \<in> set recs" using j(1) len by (force simp: recs_def diff_records_def)
    have u: "x = ?r" if "x \<in> set recs" "rmId x = exId ?b" for x
      using recs [OF that]
    proof (elim disjE exE conjE)
      fix j' assume j': "j' < length parsed" "Kind (NewSeq d ! j') = OpUpdate" "nat (OldIdx (NewSeq d ! j')) = i"
        "x = buildUpdateRecord ?b (parsed ! j')"
      have "j = j'" by (rule uniq [OF j(1) j'(1) j(2)]) (simp_all only: j'(2,3) j(3) OpKind.distinct not_False_eq_True)
      then show ?thesis using j'(4) by simp
    qed (use nd in simp)
    have "List.find (\<lambda>r. rmId r = exId ?b) recs = Some ?r"
      by (rule find_only [OF m _ u]) (simp_all add: buildUpdateRecord_def Let_def)
    moreover have "\<not> list_ex (\<lambda>op. woType op = OpDelete) (rmOps ?r)" using update_ops_values(1) by (auto simp: list_ex_iff)
    ultimately show ?thesis using update_renders [of ?b "parsed ! j"] by (simp add: touch_block_def)
  next
    case False
    then have keep: "Kind (NewSeq d ! j) = OpKeep" using j(2) by (cases "Kind (NewSeq d ! j)") auto
    have "rmId x \<noteq> exId ?b" if "x \<in> set recs" for x
    proof
      assume "rmId x = exId ?b"
      from recs [OF that this] obtain j' where j': "j' < length parsed" "Kind (NewSeq d ! j') = OpUpdate"
        "nat (OldIdx (NewSeq d ! j')) = i" using nd by blast
      have "j = j'" by (rule uniq [OF j(1) j'(1) j(2)]) (simp_all only: j'(2,3) j(3) OpKind.distinct not_False_eq_True)
      then show False using j'(2) False by simp
    qed
    then have "List.find (\<lambda>r. rmId r = exId ?b) recs = None" by (simp add: find_None_iff)
    then have "touch_block recs ?b = [?b]" by (simp add: touch_block_def)
    moreover have "hash (renderExisting existing ! i) = hash (RenderBlock (parsed ! j))"
      using p j(1,3) keep by (auto simp: save_plan_def diff_ok_def)
    then have "renderExisting existing ! i = RenderBlock (parsed ! j)"
      using inj i j(1) by (intro inj_onD [OF inj]) (auto simp: renderExisting_def)
    then have "RenderBlock (as_parsed ?b) = RenderBlock (parsed ! j)" using i by (simp add: renderExisting_def)
    ultimately show ?thesis by simp
  qed
qed

lemma created_blocks:
  assumes p: "save_plan hash g existing parsed d ps"
    and cs: "list_all2 (\<lambda>p c. c = block_of p (exId c)) (creates (diff_records existing parsed ps d)) cs"
  defines "ins \<equiv> filter (\<lambda>j. Kind (NewSeq d ! j) = OpInsert) [0..<length parsed]"
  shows "map exPos cs = map ((!) ps) ins" "\<forall>c \<in> set cs. \<exists>j \<in> set ins. exPos c = ps ! j \<and> as_parsed c = parsed ! j"
proof -
  have len: "length (NewSeq d) = length parsed" using p by (simp add: save_plan_def diff_ok_def)
  have l2: "list_all2 (\<lambda>j c. c = block_of (create_payload (parsed ! j) (ps ! j)) (exId c)) ins cs"
    using cs unfolding creates_plan len ins_def [symmetric] by (simp add: list_all2_map1)
  have "exPos c = ps ! j \<and> as_parsed c = parsed ! j" if "c = block_of (create_payload (parsed ! j) (ps ! j)) (exId c)" for c j
    by (metis that created_renders)
  with l2 have l3: "list_all2 (\<lambda>j c. exPos c = ps ! j \<and> as_parsed c = parsed ! j) ins cs" by (rule list_all2_mono)
  then show "map exPos cs = map ((!) ps) ins" by (auto simp: list_all2_conv_all_nth intro!: nth_equalityI)
  show "\<forall>c \<in> set cs. \<exists>j \<in> set ins. exPos c = ps ! j \<and> as_parsed c = parsed ! j"
  proof
    fix c assume "c \<in> set cs"
    then obtain k where k: "k < length cs" "c = cs ! k" by (auto simp: in_set_conv_nth)
    then have "exPos c = ps ! (ins ! k) \<and> as_parsed c = parsed ! (ins ! k)" "ins ! k \<in> set ins"
      using l3 by (simp_all add: list_all2_conv_all_nth)
    then show "\<exists>j \<in> set ins. exPos c = ps ! j \<and> as_parsed c = parsed ! j" by blast
  qed
qed

lemma touched_blocks:
  fixes existing parsed ps d
  assumes p: "save_plan hash g existing parsed d ps"
    and inj: "inj_on hash (set (renderExisting existing) \<union> RenderBlock ` set parsed)"
  defines "T \<equiv> concat (map (touch_block (diff_records existing parsed ps d)) existing)"
    and "keep \<equiv> filter (\<lambda>i. i \<notin> set (Deletes d)) [0..<length existing]"
    and "stays j \<equiv> j < length parsed \<and> Kind (NewSeq d ! j) \<noteq> OpInsert"
  shows "map exPos T = map (\<lambda>i. exPos (existing ! i)) keep"
    and "\<forall>b \<in> set T. \<exists>j. stays j \<and> exPos b = ps ! j \<and> RenderBlock (as_parsed b) = RenderBlock (parsed ! j)"
    and "(\<lambda>i. exPos (existing ! i)) ` set keep = (!) ps ` Collect stays"
proof -
  note touch = touch_plan [OF p _ inj] and pos = plan_positions(3) [OF p]
  let ?recs = "diff_records existing parsed ps d"
  have one: "\<exists>j b. stays j \<and> nat (OldIdx (NewSeq d ! j)) = i \<and> touch_block ?recs (existing ! i) = [b] \<and> exPos b = exPos (existing ! i) \<and>
      RenderBlock (as_parsed b) = RenderBlock (parsed ! j)" if "i < length existing" "i \<notin> set (Deletes d)" for i
    using kept_iff [OF p that(1)] that(2) touch(2) [OF that(1)] unfolding stays_def by blast
  have "map exPos (concat (map (\<lambda>i. touch_block ?recs (existing ! i)) is)) = map (\<lambda>i. exPos (existing ! i)) (filter (\<lambda>i. i \<notin> set (Deletes d)) is)"
    if "set is \<subseteq> {..<length existing}" for "is"
    using that
  proof (induction "is")
    case (Cons i "is")
    then show ?case using one [of i] touch(1) [of i] by (cases "i \<in> set (Deletes d)") auto
  qed simp
  note all = this
  have "set [0..<length existing] \<subseteq> {..<length existing}" by auto
  from all [OF this]
  have "map exPos (concat (map (\<lambda>i. touch_block ?recs (existing ! i)) [0..<length existing])) = map (\<lambda>i. exPos (existing ! i)) keep"
    unfolding keep_def .
  moreover have "map (\<lambda>i. touch_block ?recs (existing ! i)) [0..<length existing] = map (touch_block ?recs) existing"
    by (intro nth_equalityI) simp_all
  ultimately show "map exPos T = map (\<lambda>i. exPos (existing ! i)) keep" unfolding T_def by simp
  show "\<forall>b \<in> set T. \<exists>j. stays j \<and> exPos b = ps ! j \<and> RenderBlock (as_parsed b) = RenderBlock (parsed ! j)"
  proof
    fix b assume "b \<in> set T"
    then obtain i where i: "i < length existing" "b \<in> set (touch_block ?recs (existing ! i))"
      unfolding T_def by (auto simp: in_set_conv_nth [of _ existing])
    then have "i \<notin> set (Deletes d)" using touch(1) by auto
    from one [OF i(1) this] i(2) show "\<exists>j. stays j \<and> exPos b = ps ! j \<and> RenderBlock (as_parsed b) = RenderBlock (parsed ! j)"
      using pos unfolding stays_def by fastforce
  qed
  show "(\<lambda>i. exPos (existing ! i)) ` set keep = (!) ps ` Collect stays"
  proof (intro subset_antisym subsetI)
    fix x assume "x \<in> (\<lambda>i. exPos (existing ! i)) ` set keep"
    then obtain i where "i < length existing" "i \<notin> set (Deletes d)" "x = exPos (existing ! i)" by (auto simp: keep_def)
    then show "x \<in> (!) ps ` Collect stays" using one [of i] pos unfolding stays_def by fastforce
  next
    fix x assume "x \<in> (!) ps ` Collect stays"
    then obtain j where j: "stays j" "x = ps ! j" by blast
    let ?i = "nat (OldIdx (NewSeq d ! j))"
    have i: "?i < length existing" using plan_seq(2) [OF p] j(1) unfolding stays_def by (metis nat_less_iff)
    then have "?i \<in> set keep" using kept_iff [OF p i] j(1) unfolding stays_def keep_def by auto
    then show "x \<in> (\<lambda>i. exPos (existing ! i)) ` set keep" using j pos unfolding stays_def by blast
  qed
qed

lemma save_renders:
  assumes p: "save_plan hash g existing parsed d ps"
    and inj: "inj_on hash (set (renderExisting existing) \<union> RenderBlock ` set parsed)"
    and m: "modify_effect (diff_records existing parsed ps d) existing after"
  shows "renderExisting (sort_key exPos after) = map RenderBlock parsed"
proof -
  let ?recs = "diff_records existing parsed ps d"
  let ?T = "concat (map (touch_block ?recs) existing)"
  let ?keep = "filter (\<lambda>i. i \<notin> set (Deletes d)) [0..<length existing]"
  let ?ins = "filter (\<lambda>j. Kind (NewSeq d ! j) = OpInsert) [0..<length parsed]"
  let ?stays = "\<lambda>j. j < length parsed \<and> Kind (NewSeq d ! j) \<noteq> OpInsert"
  obtain cs where cs: "list_all2 (\<lambda>p c. c = block_of p (exId c)) (creates ?recs) cs" "mset after = mset (?T @ cs)"
    using m unfolding modify_effect_def by blast
  note created = created_blocks [OF p cs(1)] and touched = touched_blocks [OF p inj] and pos = plan_positions [OF p]
  have dps: "distinct ps" using pos(2) by (simp add: strict_sorted_iff)
  have "distinct (map exPos existing)" using p by (simp add: save_plan_def listing_ok_def strict_sorted_iff)
  then have "inj_on (\<lambda>i. exPos (existing ! i)) (set ?keep)"
    by (intro inj_onI) (auto simp: distinct_conv_nth)
  then have d1: "distinct (map exPos ?T)" unfolding touched(1) by (simp add: distinct_map)
  have d2: "distinct (map exPos cs)" unfolding created(1) using dps pos(1) by (auto simp: distinct_map inj_on_def nth_eq_iff_index_eq)
  have sT: "exPos ` set ?T = (!) ps ` Collect ?stays" using touched(1,3) by (metis list.set_map)
  have sC: "exPos ` set cs = (!) ps ` set ?ins" using created(1) by (metis list.set_map)
  have disj: "exPos ` set ?T \<inter> exPos ` set cs = {}" unfolding sT sC using dps pos(1) by (auto simp: nth_eq_iff_index_eq)
  have all: "set after = set ?T \<union> set cs" using cs(2) by (metis set_append set_mset_mset)
  show ?thesis unfolding renderExisting_def
  proof (rule sorted_listing [OF pos(2)])
    have "mset (map exPos after) = mset (map exPos (?T @ cs))" using cs(2) by (simp only: mset_map)
    moreover have "distinct (map exPos (?T @ cs))" using d1 d2 disj by (simp only: map_append distinct_append set_map)
    ultimately show "distinct (map exPos after)" by (metis mset_eq_imp_distinct_iff)
    have "Collect ?stays \<union> set ?ins = {..<length ps}" using pos(1) by auto
    then have "(!) ps ` Collect ?stays \<union> (!) ps ` set ?ins = set ps"
      unfolding image_Un [symmetric] by (simp add: set_conv_nth image_def Bex_def) blast
    then show "exPos ` set after = set ps" unfolding all image_Un sT sC .
    show "length (map RenderBlock parsed) = length ps" using pos(1) by simp
    show "\<forall>b \<in> set after. \<exists>j < length ps. exPos b = ps ! j \<and> RenderBlock (as_parsed b) = map RenderBlock parsed ! j"
    proof
      fix b assume "b \<in> set after"
      then consider "b \<in> set ?T" | "b \<in> set cs" unfolding all by blast
      then show "\<exists>j < length ps. exPos b = ps ! j \<and> RenderBlock (as_parsed b) = map RenderBlock parsed ! j"
      proof cases
        case 1
        with touched(2) obtain j where "?stays j" "exPos b = ps ! j" "RenderBlock (as_parsed b) = RenderBlock (parsed ! j)" by blast
        then show ?thesis using pos(1) by auto
      next
        case 2
        with created(2) obtain j where "j \<in> set ?ins" "exPos b = ps ! j" "as_parsed b = parsed ! j" by blast
        then show ?thesis using pos(1) by auto
      qed
    qed
  qed
qed

lemma write_attempts_accepted:
  assumes "write_attempts n hash36 env gen unconditional write a = Inr res"
  shows "\<exists>k r. a \<le> k \<and> k < a + n \<and> weRead env k = Some r \<and>
    write k (readDocument hash36 gen r) (fst r) (if unconditional \<and> k = maxWriteAttempts then None else Some (snd r)) = Inr res"
  using assms
proof (induction n arbitrary: a)
  case (Suc n)
  then obtain r where r: "weRead env a = Some r" by (auto split: option.splits)
  let ?w = "write a (readDocument hash36 gen r) (fst r) (if unconditional \<and> a = maxWriteAttempts then None else Some (snd r))"
  show ?case
  proof (cases "?w = Inl (ModifyError PreconditionFailed)")
    case True
    with Suc.prems r have "write_attempts n hash36 env gen unconditional write (a + 1) = Inr res" by (simp add: Let_def)
    from Suc.IH [OF this] show ?thesis using Suc_leD by fastforce
  next
    case False
    then have "?w = Inr res" using Suc.prems r by (simp add: Let_def)
    then show ?thesis using r by (intro exI [of _ a] exI [of _ r]) simp
  qed
qed simp

lemma write_attempts_result:
  "write_attempts n hash36 env gen unconditional write a \<in> {Inl (ModifyError PreconditionFailed), Inl ReadFailed} \<or>
     (\<exists>k doc existing cond. write_attempts n hash36 env gen unconditional write a = write k doc existing cond)"
proof (induction n arbitrary: a)
  case (Suc n)
  show ?case
  proof (cases "weRead env a")
    case (Some r)
    let ?cond = "if unconditional \<and> a = maxWriteAttempts then None else Some (snd r)"
    let ?w = "write a (readDocument hash36 gen r) (fst r) ?cond"
    have "write_attempts (Suc n) hash36 env gen unconditional write a =
        (if ?w \<noteq> Inl (ModifyError PreconditionFailed) then ?w else write_attempts n hash36 env gen unconditional write (a + 1))"
      using Some by (simp add: Let_def)
    note step = this
    show ?thesis
    proof (cases "?w = Inl (ModifyError PreconditionFailed)")
      case True
      show ?thesis unfolding step if_not_P [OF not_not [THEN iffD2, OF True]] by (rule Suc.IH)
    next
      case False
      then show ?thesis unfolding step if_P [OF False] by blast
    qed
  qed simp
qed simp

lemma applyDiff_accepted:
  assumes "applyDiff hash sc g modify existing cond parsed rendered = Inr (res, applied)"
  shows "\<exists>ps. let d = Diff hash sc (renderExisting existing) rendered; recs = diff_records existing parsed ps d
    in allocateInsertPositions g existing d = Some ps \<and> (recs = [] \<or> (\<exists>r. modify recs cond = Inr r))"
  using assms unfolding applyDiff_def Let_def by (auto split: option.splits if_splits sum.splits)

lemma write_attempts_last:
  assumes "a + n = maxWriteAttempts"
    and last: "\<And>k doc existing. write k doc existing None \<noteq> Inl (ModifyError PreconditionFailed)"
  shows "write_attempts (Suc n) hash36 env gen True write a \<noteq> Inl (ModifyError PreconditionFailed)"
  using assms(1)
proof (induction n arbitrary: a)
  case 0
  then show ?case using last by (simp add: Let_def split: option.split)
next
  case (Suc n)
  then have "write_attempts (Suc n) hash36 env gen True write (a + 1) \<noteq> Inl (ModifyError PreconditionFailed)"
    using Suc.IH [of "a + 1"] by simp
  then show ?case by (subst write_attempts.simps(2)) (simp add: Let_def del: write_attempts.simps split: option.split)
qed

lemma applyDiff_unconditional:
  assumes "\<And>recs. modify recs None \<noteq> Inl PreconditionFailed"
  shows "applyDiff hash sc g modify existing None parsed rendered \<noteq> Inl (ModifyError PreconditionFailed)"
  using assms unfolding applyDiff_def Let_def by (auto split: option.splits if_splits sum.splits)

text \<open>
  C17. A save that succeeds wrote against one of its at most three reads: the read's version was the caller's when
  one was given, and the change then carried the sequence number read as its condition. The change sent (none
  when nothing differs), applied to the blocks read, leaves a document that renders exactly as the new content,
  block by block: kept blocks match, changed ones are updated in place, the rest is deleted, and new blocks
  stand where the content has them. Assumed of the world: the allocator of positions answers ids after
  the given one and before the bound (\<open>lexid_laws\<close>); every read lists blocks with ids that are
  distinct and not empty, in the strict order of their positions, which are not empty either
  (\<open>listing_ok\<close>); and the digest does not collide on the blocks that are compared, those of a read
  and those of the new content.
\<close>

theorem Set_saves:
  assumes "lexid_laws g" "parseContent content = Inr (parsed, rendered)" "weGen env = Some gen"
    and "\<And>k r. weRead env k = Some r \<Longrightarrow> listing_ok (fst r) \<and> inj_on hash (set (renderExisting (fst r)) \<union> set rendered)"
    and "Set hash hash36 sc g env content ifVersion = Inr res"
  shows "\<exists>k existing seq recs cond. 1 \<le> k \<and> k \<le> maxWriteAttempts \<and> weRead env k = Some (existing, seq) \<and>
    (ifVersion = [] \<or> Version (readDocument hash36 gen (existing, seq)) = ifVersion \<and> cond = Some seq) \<and>
    (recs = [] \<or> (\<exists>r. weModify env k recs cond = Inr r)) \<and>
    (\<forall>after. modify_effect recs existing after \<longrightarrow> renderExisting (sort_key exPos after) = rendered)"
proof -
  have rendered: "rendered = map RenderBlock parsed" "parsed = map ParseBlock (Split content)"
    using assms(2) by (auto simp: parseContent_def parseBlocks_def Let_def split: option.splits)
  have "write_attempts maxWriteAttempts hash36 env gen (ifVersion = []) (set_write hash hash36 sc g env gen ifVersion parsed rendered) 1 = Inr res"
    using assms(2,3,5) by (simp add: Set_def writeAgainstRead_def)
  from write_attempts_accepted [OF this] obtain k r where r: "1 \<le> k" "k < 1 + maxWriteAttempts" "weRead env k = Some r"
    "set_write hash hash36 sc g env gen ifVersion parsed rendered k (readDocument hash36 gen r) (fst r)
       (if ifVersion = [] \<and> k = maxWriteAttempts then None else Some (snd r)) = Inr res" by blast
  define ex seq where "ex = fst r" and "seq = snd r"
  have r_def: "r = (ex, seq)" by (simp add: ex_def seq_def)
  from r [unfolded r_def fst_conv snd_conv] have k: "1 \<le> k" "k < 1 + maxWriteAttempts" "weRead env k = Some (ex, seq)"
    and w: "set_write hash hash36 sc g env gen ifVersion parsed rendered k (readDocument hash36 gen (ex, seq)) ex
       (if ifVersion = [] \<and> k = maxWriteAttempts then None else Some seq) = Inr res" by blast+
  let ?cond = "if ifVersion = [] \<and> k = maxWriteAttempts then None else Some seq"
  let ?d = "Diff hash sc (renderExisting ex) rendered"
  have v: "ifVersion = [] \<or> Version (readDocument hash36 gen (ex, seq)) = ifVersion"
    using w by (auto simp: set_write_def split: if_splits)
  obtain res' applied where "applyDiff hash sc g (weModify env k) ex ?cond parsed rendered = Inr (res', applied)"
    using w unfolding set_write_def by (auto split: if_splits sum.splits)
  from applyDiff_accepted [OF this] obtain ps where ps: "allocateInsertPositions g ex ?d = Some ps"
    "diff_records ex parsed ps ?d = [] \<or> (\<exists>r. weModify env k (diff_records ex parsed ps ?d) ?cond = Inr r)"
    by (auto simp: Let_def)
  have ok: "listing_ok ex" "inj_on hash (set (renderExisting ex) \<union> RenderBlock ` set parsed)"
    using assms(4) [OF k(3)] rendered(1) by simp_all
  have plan: "save_plan hash g ex parsed ?d ps"
    using assms(1) ok(1) ps(1) DiffWithThreshold_ok unfolding save_plan_def Diff_def rendered(1) by blast
  have "renderExisting (sort_key exPos after) = rendered" if "modify_effect (diff_records ex parsed ps ?d) ex after" for after
    using save_renders [OF plan ok(2) that] rendered(1) by simp
  then show ?thesis using k v ps(2)
    by (intro exI [of _ k] exI [of _ ex] exI [of _ seq] exI [of _ "diff_records ex parsed ps ?d"] exI [of _ "?cond"]) auto
qed

text \<open>
  A save without a version is never refused because the document changed in between: whatever other writers
  do between its reads and its writes, it neither reports a conflict nor a failed precondition, as its last
  attempt writes without a condition.
\<close>

theorem Set_unconditional:
  assumes "\<And>k recs. weModify env k recs None \<noteq> Inl PreconditionFailed"
  shows "Set hash hash36 sc g env content [] \<noteq> Inl (ModifyError PreconditionFailed) \<and>
    Set hash hash36 sc g env content [] \<noteq> Inl (ConflictError doc)"
proof (cases "parseContent content")
  case (Inl e)
  then show ?thesis by (auto simp: Set_def parseContent_def parseBlocks_def checkBlockSizes_def Let_def split: option.splits)
next
  case (Inr pr)
  obtain parsed rendered where pr: "pr = (parsed, rendered)" by (cases pr)
  show ?thesis
  proof (cases "weGen env")
    case None
    then show ?thesis using Inr pr by (simp add: Set_def)
  next
    case (Some gen)
    let ?w = "set_write hash hash36 sc g env gen [] parsed rendered"
    let ?run = "write_attempts (Suc 2) hash36 env gen True ?w 1"
    have s: "Set hash hash36 sc g env content [] = ?run"
      using Inr pr Some by (simp add: Set_def writeAgainstRead_def maxWriteAttempts_def numeral_3_eq_3 numeral_2_eq_2)
    have w: "?w k doc existing cond \<noteq> Inl (ConflictError doc')" for k doc existing cond doc'
      by (auto simp: set_write_def applyDiff_def Let_def split: option.splits if_splits sum.splits)
    have "?w k doc existing None \<noteq> Inl (ModifyError PreconditionFailed)" for k doc existing
    proof -
      have "applyDiff hash sc g (weModify env k) existing None parsed rendered \<noteq> Inl (ModifyError PreconditionFailed)"
        by (rule applyDiff_unconditional) (rule assms)
      then show ?thesis by (auto simp: set_write_def split: sum.splits)
    qed
    then have "?run \<noteq> Inl (ModifyError PreconditionFailed)"
      by (intro write_attempts_last) (simp_all add: maxWriteAttempts_def)
    moreover have "?run \<noteq> Inl (ConflictError doc)"
    proof
      assume c: "?run = Inl (ConflictError doc)"
      have "Inl (ConflictError doc) \<notin> {Inl (ModifyError PreconditionFailed), Inl ReadFailed :: write_error + SetResult}" by simp
      with write_attempts_result [of "Suc 2" hash36 env gen True ?w 1, unfolded c]
      obtain k d existing cond where "?w k d existing cond = Inl (ConflictError doc)" by metis
      then show False using w by blast
    qed
    ultimately show ?thesis unfolding s by blast
  qed
qed

definition demo_read :: "existingBlock list" where
  "demo_read = [\<lparr>exId = ''b1'', exType = TypeParagraph, exStyle = [], exText = ''alpha'', exPos = ''b''\<rparr>,
                \<lparr>exId = ''b2'', exType = TypeParagraph, exStyle = [], exText = ''beta'', exPos = ''d''\<rparr>]"

definition demo_env :: write_env where
  "demo_env = \<lparr>weGen = Some ''g'', weRead = (\<lambda>_. Some (demo_read, 7)),
     weModify = (\<lambda>k recs cond. if k = 1 then Inl PreconditionFailed else Inr \<lparr>RecordIds = [''b3''], ApplySeq = 8, Rejections = []\<rparr>)\<rparr>"

definition demo_scoring :: "nat scoring" where
  "demo_scoring = \<lparr>equalMass = (\<lambda>_ _. 0), fquot = (\<lambda>a b. a)\<rparr>"

definition demo_content :: string where
  "demo_content = ''alpha'' @ [CHR 0x0A, CHR 0x0A] @ ''## new'' @ [CHR 0x0A, CHR 0x0A] @ ''beta''"

definition demo_parsed :: "ParsedBlock list" where
  "demo_parsed = [\<lparr>pbType = TypeParagraph, pbStyle = [], pbText = ''alpha''\<rparr>, heading_block 2 ''new'',
     \<lparr>pbType = TypeParagraph, pbStyle = [], pbText = ''beta''\<rparr>]"

definition demo_plan :: DiffResult where
  "demo_plan = \<lparr>NewSeq = [\<lparr>Kind = OpKeep, OldIdx = 0\<rparr>, \<lparr>Kind = OpInsert, OldIdx = -1\<rparr>, \<lparr>Kind = OpKeep, OldIdx = 1\<rparr>], Deletes = []\<rparr>"

lemma demo_parseContent: "parseContent demo_content = Inr (demo_parsed, [''alpha'', ''## new'', ''beta''])"
proof -
  have "Split demo_content = [''alpha'', ''## new'', ''beta'']" "map ParseBlock [''alpha'', ''## new'', ''beta''] = demo_parsed"
    "map RenderBlock demo_parsed = [''alpha'', ''## new'', ''beta'']" by code_simp+
  moreover have "checkBlockSizes demo_parsed = None"
    by (simp add: checkBlockSizes_def demo_parsed_def MaxTextBytes_def heading_block_def)
  ultimately show ?thesis by (simp only: parseContent_def parseBlocks_def Let_def option.case)
qed

lemma demo_apply:
  fixes modify cond
  defines "result \<equiv> applyDiff id demo_scoring demo_lexid modify demo_read cond demo_parsed [''alpha'', ''## new'', ''beta'']"
    and "sent \<equiv> modify [buildCreateRecord (heading_block 2 ''new'') ''ba''] cond"
  shows "sent = Inl e \<Longrightarrow> result = Inl (ModifyError e)"
    and "sent = Inr r \<Longrightarrow> Rejections r = [] \<Longrightarrow> \<exists>res. result = Inr res"
proof -
  have "Diff id demo_scoring (renderExisting demo_read) [''alpha'', ''## new'', ''beta''] = demo_plan"
    "allocateInsertPositions demo_lexid demo_read demo_plan = Some [''b'', ''ba'', ''d'']" by code_simp+
  moreover have "checkPositions demo_plan [''b'', ''ba'', ''d'']" by (simp add: checkPositions_def demo_plan_def MaxPosBytes_def)
  moreover have "diff_records demo_read demo_parsed [''b'', ''ba'', ''d''] demo_plan = [buildCreateRecord (heading_block 2 ''new'') ''ba'']"
    by (simp add: diff_records_def demo_plan_def op_record_def demo_parsed_def upt_rec)
  ultimately show "sent = Inl e \<Longrightarrow> result = Inl (ModifyError e)"
    and "sent = Inr r \<Longrightarrow> Rejections r = [] \<Longrightarrow> \<exists>res. result = Inr res"
    unfolding result_def applyDiff_def sent_def by (simp_all add: Let_def)
qed

lemma demo_set:
  defines "ver \<equiv> Version (readDocument id ''g'' (demo_read, 7))"
  shows "\<exists>res. Set id id demo_scoring demo_lexid demo_env demo_content ver = Inr res"
proof -
  let ?w = "set_write id id demo_scoring demo_lexid demo_env ''g'' ver demo_parsed [''alpha'', ''## new'', ''beta'']"
  let ?doc = "readDocument id ''g'' (demo_read, 7)"
  have 1: "?w 1 ?doc demo_read (Some 7) = Inl (ModifyError PreconditionFailed)"
    using demo_apply(1) [of "weModify demo_env 1"] by (simp add: set_write_def ver_def demo_env_def)
  have "\<exists>res. ?w 2 ?doc demo_read (Some 7) = Inr res"
  proof -
    have "weModify demo_env 2 recs cond = Inr \<lparr>RecordIds = [''b3''], ApplySeq = 8, Rejections = []\<rparr>" for recs cond
      by (simp add: demo_env_def)
    from demo_apply(2) [of "weModify demo_env 2" "Some 7", OF this]
    obtain res where "applyDiff id demo_scoring demo_lexid (weModify demo_env 2) demo_read (Some 7) demo_parsed [''alpha'', ''## new'', ''beta''] = Inr res"
      by auto
    then show ?thesis by (cases res) (simp add: set_write_def ver_def)
  qed
  then obtain res where 2: "?w 2 ?doc demo_read (Some 7) = Inr res" by blast
  have env: "weRead demo_env k = Some (demo_read, 7)" "weGen demo_env = Some ''g''" for k by (simp_all add: demo_env_def)
  have "ver \<noteq> []" by (simp add: ver_def readDocument_def formatVersion_def Let_def)
  then have "Set id id demo_scoring demo_lexid demo_env demo_content ver = write_attempts (Suc (Suc (Suc 0))) id demo_env ''g'' False ?w 1"
    by (simp add: Set_def demo_parseContent env writeAgainstRead_def maxWriteAttempts_def numeral_3_eq_3 del: write_attempts.simps)
  also have "\<dots> = write_attempts (Suc (Suc 0)) id demo_env ''g'' False ?w 2"
    by (subst write_attempts.simps) (simp add: Let_def env 1 one_add_one del: One_nat_def write_attempts.simps)
  also have "\<dots> = Inr res" by (subst write_attempts.simps) (simp add: Let_def env 2 del: write_attempts.simps)
  finally show ?thesis by blast
qed

theorem Set_saves_witness:
  "\<exists>k recs cond. 1 \<le> k \<and> k \<le> maxWriteAttempts \<and> cond = Some 7 \<and>
    (recs = [] \<or> (\<exists>r. weModify demo_env k recs cond = Inr r)) \<and>
    (\<forall>after. modify_effect recs demo_read after \<longrightarrow> renderExisting (sort_key exPos after) = [''alpha'', ''## new'', ''beta''])"
proof -
  have env: "weRead demo_env k = Some (demo_read, 7)" "weGen demo_env = Some ''g''" for k by (simp_all add: demo_env_def)
  have ok: "listing_ok (fst r) \<and> inj_on id (set (renderExisting (fst r)) \<union> set [''alpha'', ''## new'', ''beta''])"
    if "weRead demo_env k = Some r" for k r
    using that by (auto simp: listing_ok_def demo_env_def demo_read_def)
  obtain res where s: "Set id id demo_scoring demo_lexid demo_env demo_content (Version (readDocument id ''g'' (demo_read, 7))) = Inr res"
    using demo_set by blast
  have ne: "Version (readDocument id ''g'' (demo_read, 7)) \<noteq> []" by (simp add: readDocument_def formatVersion_def Let_def)
  show ?thesis using Set_saves [OF demo_lexid_laws demo_parseContent env(2) ok s] ne by (auto simp: env(1))
qed

text \<open>The premise of the unconditional save holds of a store that refuses every conditional write.\<close>

definition contended_env :: write_env where
  "contended_env = demo_env\<lparr>weModify := \<lambda>k recs cond. if cond = None then Inl ModifyFailed else Inl PreconditionFailed\<rparr>"

theorem Set_unconditional_witness:
  "Set id id demo_scoring demo_lexid contended_env demo_content [] \<noteq> Inl (ModifyError PreconditionFailed)"
proof -
  have "weModify contended_env k recs None \<noteq> Inl PreconditionFailed" for k recs by (simp add: contended_env_def)
  from Set_unconditional [OF this] show ?thesis by blast
qed

end
