(* ===== verification/Projection.thy ===== *)
theory Projection
  imports Complex_Main Prelude
begin

text \<open>
  The projection of query results (src/internal/server/projection.go and projection_shape.go): the parsed
  field list, the shaping of a stored record with its version map, and the shaping of the operations a
  subscription delivers. A stored value and its \<open>FastJson\<close> rendering are one tree, a scalar being its
  rendering; keys of an object are distinct. The arena is a pool of memory and has no counterpart.
\<close>

section \<open>Values\<close>

datatype json = JAtom string | JArr "json list" | JObj "(string \<times> json) list"

fun jget :: "json \<Rightarrow> string \<Rightarrow> json option" where
  "jget (JObj m) key = map_of m key"
| "jget _ key = None"

fun jdel :: "json \<Rightarrow> string \<Rightarrow> json" where
  "jdel (JObj m) key = JObj (AList.delete key m)"
| "jdel v key = v"

section \<open>The parsed projection\<close>

datatype mark = MarkNone | MarkInclude | MarkExclude

datatype projNode = ProjNode (pnKey: string) (pnMark: mark) (pnChildren: "projNode list")
  (incBelow: bool) (excBelow: bool) (incChild: bool)

record projection =
  pjRoot :: projNode
  userInclude :: bool
  freeform :: bool

definition maxProjectionEntries :: nat where "maxProjectionEntries = 128"
definition maxProjectionDepth :: nat where "maxProjectionDepth = 8"
definition verDefaultKey :: string where "verDefaultKey = ''*''"
definition idField :: string where "idField = ''id''"
definition verField :: string where "verField = ''_ver''"
definition projectionDefaultDropped :: "string list" where "projectionDefaultDropped = [''_addSeq'', ''_applySeq'']"
definition projectionPassthrough :: "string list" where "projectionPassthrough = [''_traces'', ''_deletedAt'']"

datatype proj_error = NotAnObject | TooManyEntries | BadMark | EmptyPath | EmptySegment | ReservedSegment | TooDeep | IdExcluded

text \<open>What the body holds under \<open>projection\<close>; \<open>None\<close> is an absent key.\<close>

datatype mark_value = MvTrue | MvFalse | MvNumber rat | MvOther

datatype proj_raw = RawNull | RawObject "(string \<times> mark_value) list" | RawOther

definition projectionMark :: "mark_value \<Rightarrow> mark option" where
  "projectionMark v =
     (case v of
        MvTrue \<Rightarrow> Some MarkInclude
      | MvFalse \<Rightarrow> Some MarkExclude
      | MvNumber n \<Rightarrow> if n = 1 then Some MarkInclude else if n = 0 \<or> n = - 1 then Some MarkExclude else None
      | MvOther \<Rightarrow> None)"

text \<open>\<open>child\<close> followed by an update of the node it answers.\<close>

definition newNode :: "string \<Rightarrow> projNode" where
  "newNode key = ProjNode key MarkNone [] False False False"

fun upd_child :: "string \<Rightarrow> (projNode \<Rightarrow> projNode) \<Rightarrow> projNode list \<Rightarrow> projNode list" where
  "upd_child key f [] = [f (newNode key)]"
| "upd_child key f (c # cs) = (if pnKey c = key then f c # cs else c # upd_child key f cs)"

primrec set_mark :: "string list \<Rightarrow> mark \<Rightarrow> projNode \<Rightarrow> projNode" where
  "set_mark [] m n = ProjNode (pnKey n) m (pnChildren n) (incBelow n) (excBelow n) (incChild n)"
| "set_mark (s # ss) m n =
     ProjNode (pnKey n) (pnMark n) (upd_child s (set_mark ss m) (pnChildren n)) (incBelow n) (excBelow n) (incChild n)"

definition findNode :: "projNode \<Rightarrow> string \<Rightarrow> projNode option" where
  "findNode n key = List.find (\<lambda>c. pnKey c = key) (pnChildren n)"

text \<open>The loop of \<open>add\<close> over the dotted path.\<close>

function path_segs :: "nat \<Rightarrow> string \<Rightarrow> proj_error + string list" where
  "path_segs depth rest =
     (let seg = cut_before CHR ''.'' rest; rest' = cut_after CHR ''.'' rest
      in if seg = [] then Inl EmptySegment
         else if seg = verDefaultKey then Inl ReservedSegment
         else if depth + 1 > maxProjectionDepth then Inl TooDeep
         else if rest' = [] then Inr [seg]
         else map_sum id ((#) seg) (path_segs (depth + 1) rest'))"
  by pat_completeness auto
termination
  by (relation "measure (\<lambda>(d, rest). length rest)") (auto intro!: length_cut_after simp: cut_before_def)

declare path_segs.simps [simp del]

definition projection_add :: "projection \<Rightarrow> string \<Rightarrow> mark \<Rightarrow> proj_error + projection" where
  "projection_add p path m =
     (if path = [] then Inl EmptyPath
      else (case path_segs 0 path of
              Inl e \<Rightarrow> Inl e
            | Inr segs \<Rightarrow>
                let top = cut_before CHR ''.'' path
                in if top = idField \<and> m = MarkExclude then Inl IdExcluded
                   else Inr (p\<lparr>pjRoot := set_mark segs m (pjRoot p),
                     userInclude := (userInclude p \<or> (m = MarkInclude \<and> (freeform p \<or> \<not> has_prefix ''_'' top)))\<rparr>)))"

fun seal :: "projNode \<Rightarrow> projNode" where
  "seal (ProjNode key m cs _ _ _) =
     (let cs' = map seal cs
      in ProjNode key m cs' (m = MarkInclude \<or> list_ex incBelow cs') (m = MarkExclude \<or> list_ex excBelow cs')
           (list_ex incBelow cs'))"

definition add_entry :: "projection \<Rightarrow> string \<times> mark_value \<Rightarrow> proj_error + projection" where
  "add_entry p e = (case projectionMark (snd e) of None \<Rightarrow> Inl BadMark | Some m \<Rightarrow> projection_add p (fst e) m)"

definition parseProjection :: "bool \<Rightarrow> proj_raw option \<Rightarrow> proj_error + projection option" where
  "parseProjection free raw =
     (case raw of
        None \<Rightarrow> Inr None
      | Some RawNull \<Rightarrow> Inr None
      | Some RawOther \<Rightarrow> Inl NotAnObject
      | Some (RawObject kvs) \<Rightarrow>
          if kvs = [] then Inr None
          else if length kvs > maxProjectionEntries then Inl TooManyEntries
          else (case run_ops add_entry \<lparr>pjRoot = newNode [], userInclude = False, freeform = free\<rparr> kvs of
                  Inl e \<Rightarrow> Inl e
                | Inr p \<Rightarrow> Inr (Some (p\<lparr>pjRoot := seal (pjRoot p)\<rparr>))))"

section \<open>Shaping a record\<close>

lemma child_size [termination_simp]: "c \<in> set (pnChildren n) \<Longrightarrow> size c < size n"
  by (cases n) (auto dest: size_list_estimation' [where f = size and y = "size c"] simp: less_Suc_eq_le)

lemma field_size [termination_simp]: "map_of m key = Some x \<Longrightarrow> size x < size (JObj m)"
proof (induction m)
  case (Cons f m)
  then show ?case by (cases f) (auto split: if_splits)
qed simp

function carveNode :: "json \<Rightarrow> projNode \<Rightarrow> json" where
  "carveNode (JAtom a) n = JAtom a"
| "carveNode (JArr xs) n = JArr (map (\<lambda>x. carveNode x n) xs)"
| "carveNode (JObj m) n =
     JObj (foldl (\<lambda>m c.
       if pnMark c = MarkExclude then AList.delete (pnKey c) m
       else if pnChildren c \<noteq> []
       then (case map_of m (pnKey c) of None \<Rightarrow> m | Some x \<Rightarrow> AList.update (pnKey c) (carveNode x c) m)
       else m) m (pnChildren n))"
  by pat_completeness auto
termination
  by (relation "measures [\<lambda>(v, n). size n, \<lambda>(v, n). size v]")
    (auto simp: child_size intro: size_list_estimation le_imp_less_Suc dest: size_list_estimation' [where f = size])

function projectValue :: "json \<Rightarrow> projNode \<Rightarrow> json option" where
  "projectValue v n =
     (if \<not> incChild n then Some (if excBelow n then carveNode v n else v)
      else (case v of
              JArr xs \<Rightarrow> Some (JArr (map (\<lambda>x. case projectValue x n of None \<Rightarrow> JObj [] | Some y \<Rightarrow> y) xs))
            | JAtom a \<Rightarrow> None
            | JObj m \<Rightarrow>
                let fs = foldl (\<lambda>out c.
                      if \<not> incBelow c then out
                      else (case map_of m (pnKey c) of
                              None \<Rightarrow> out
                            | Some sub \<Rightarrow>
                                (case projectValue sub c of None \<Rightarrow> out | Some cv \<Rightarrow> AList.update (pnKey c) cv out)))
                      [] (pnChildren n)
                in if fs = [] then None else Some (JObj fs)))"
  by pat_completeness auto
termination
  by (relation "measure (\<lambda>(v, n). size v)")
    (auto simp: less_Suc_eq_le dest: field_size size_list_estimation' [where f = size])

declare projectValue.simps [simp del]

function projectVer :: "json \<Rightarrow> projNode \<Rightarrow> bool \<Rightarrow> json" where
  "projectVer (JAtom a) n isRoot = JAtom a"
| "projectVer (JArr xs) n isRoot = JArr xs"
| "projectVer (JObj ver) n isRoot =
     (let dflt = (case map_of ver verDefaultKey of None \<Rightarrow> [] | Some x \<Rightarrow> [(verDefaultKey, x)]);
          start = (case (if isRoot then map_of ver idField else None) of
                     None \<Rightarrow> dflt | Some x \<Rightarrow> AList.update idField x dflt)
      in JObj (foldl (\<lambda>out c.
           if isRoot \<and> pnKey c = idField \<or> has_prefix ''_'' (pnKey c) \<or> \<not> incBelow c then out
           else (case map_of ver (pnKey c) of
                   None \<Rightarrow> out
                 | Some sub \<Rightarrow> AList.update (pnKey c) (if \<not> incChild c then sub else projectVer sub c False) out))
           start (pnChildren n)))"
  by pat_completeness auto
termination
  by (relation "measure (\<lambda>(v, n, r). size v)") (auto dest: field_size)

definition carveVer :: "json \<Rightarrow> projNode \<Rightarrow> json" where
  "carveVer ver rootNode = (if excBelow rootNode then carveNode ver rootNode else ver)"

definition excluded :: "projection \<Rightarrow> string \<Rightarrow> bool" where
  "excluded p key = (case findNode (pjRoot p) key of None \<Rightarrow> False | Some n \<Rightarrow> pnMark n = MarkExclude)"

definition applyProtocolDefaults :: "projection \<Rightarrow> json \<Rightarrow> json" where
  "applyProtocolDefaults p v =
     foldl (\<lambda>v key. case findNode (pjRoot p) key of
              Some n \<Rightarrow> if pnMark n = MarkInclude then v else jdel v key
            | None \<Rightarrow> jdel v key) v projectionDefaultDropped"

definition projectProtocolFields :: "projection \<Rightarrow> json \<Rightarrow> (string \<times> json) list \<Rightarrow> (string \<times> json) list" where
  "projectProtocolFields p doc out =
     (let out1 = (case (if excluded p verField then None else jget doc verField) of
                    None \<Rightarrow> out
                  | Some ver \<Rightarrow> AList.update verField (carveVer (projectVer ver (pjRoot p) True) (pjRoot p)) out);
          out2 = foldl (\<lambda>out key. case (if excluded p key then None else jget doc key) of
                    None \<Rightarrow> out | Some sub \<Rightarrow> AList.update key sub out) out1 projectionPassthrough
      in foldl (\<lambda>out n.
           if \<not> has_prefix ''_'' (pnKey n) \<or> pnMark n \<noteq> MarkInclude then out
           else if pnKey n = verField \<or> pnKey n \<in> set projectionPassthrough then out
           else (case jget doc (pnKey n) of None \<Rightarrow> out | Some sub \<Rightarrow> AList.update (pnKey n) sub out))
           out2 (pnChildren (pjRoot p)))"

definition include_fields :: "projection \<Rightarrow> json \<Rightarrow> (string \<times> json) list \<Rightarrow> (string \<times> json) list" where
  "include_fields p doc start =
     foldl (\<lambda>out n.
       if pnKey n = idField \<or> (\<not> freeform p \<and> has_prefix ''_'' (pnKey n)) then out
       else if \<not> incBelow n then out
       else (case jget doc (pnKey n) of
               None \<Rightarrow> out
             | Some sub \<Rightarrow> (case projectValue sub n of None \<Rightarrow> out | Some v \<Rightarrow> AList.update (pnKey n) v out)))
       start (pnChildren (pjRoot p))"

definition jmap :: "json \<Rightarrow> string \<Rightarrow> (json \<Rightarrow> json) \<Rightarrow> json" where
  "jmap v key f = (case v of
     JObj m \<Rightarrow> (case map_of m key of None \<Rightarrow> v | Some x \<Rightarrow> JObj (AList.update key (f x) m)) | _ \<Rightarrow> v)"

definition projection_record :: "projection \<Rightarrow> json \<Rightarrow> json" where
  "projection_record p doc =
     (if \<not> userInclude p
      then
        let out = carveNode doc (pjRoot p)
        in if freeform p then out
           else applyProtocolDefaults p (jmap out verField (\<lambda>ver. carveVer ver (pjRoot p)))
      else
        let out0 = (case jget doc idField of None \<Rightarrow> [] | Some i \<Rightarrow> [(idField, i)]);
            out = include_fields p doc out0
        in JObj (if freeform p then out else projectProtocolFields p doc out))"

section \<open>Shaping operations\<close>

datatype verdict = ProjOpDrop | ProjOpKeep "projNode option" | ProjOpNarrow projNode

fun verdict_from :: "projNode \<Rightarrow> bool \<Rightarrow> string list \<Rightarrow> verdict" where
  "verdict_from node inherited [] =
     (if inherited then ProjOpKeep (Some node) else if incBelow node then ProjOpNarrow node else ProjOpDrop)"
| "verdict_from node inherited (seg # path) =
     (case findNode node seg of
        None \<Rightarrow> if inherited then ProjOpKeep None else ProjOpDrop
      | Some c \<Rightarrow>
          (case pnMark c of
             MarkExclude \<Rightarrow> if \<not> incBelow c then ProjOpDrop else verdict_from c False path
           | MarkInclude \<Rightarrow> verdict_from c True path
           | MarkNone \<Rightarrow> verdict_from c inherited path))"

definition opVerdict :: "projection \<Rightarrow> string list \<Rightarrow> verdict" where
  "opVerdict p path = verdict_from (pjRoot p) (\<not> userInclude p) path"

text \<open>The walk over a dotted key, whose segments are cut off one at a time.\<close>

function verdict_bytes :: "projNode \<Rightarrow> bool \<Rightarrow> string \<Rightarrow> verdict" where
  "verdict_bytes node inherited rest =
     (if rest = []
      then (if inherited then ProjOpKeep (Some node) else if incBelow node then ProjOpNarrow node else ProjOpDrop)
      else
        let seg = cut_before CHR ''.'' rest; rest' = cut_after CHR ''.'' rest
        in case findNode node seg of
             None \<Rightarrow> if inherited then ProjOpKeep None else ProjOpDrop
           | Some c \<Rightarrow>
               (case pnMark c of
                  MarkExclude \<Rightarrow> if \<not> incBelow c then ProjOpDrop else verdict_bytes c False rest'
                | MarkInclude \<Rightarrow> verdict_bytes c True rest'
                | MarkNone \<Rightarrow> verdict_bytes c inherited rest'))"
  by pat_completeness auto
termination
  by (relation "measure (\<lambda>(n, i, rest). length rest)") (auto intro!: length_cut_after)

declare verdict_bytes.simps [simp del]

definition opVerdictBytes :: "projection \<Rightarrow> string \<Rightarrow> verdict" where
  "opVerdictBytes p key = verdict_bytes (pjRoot p) (\<not> userInclude p) key"

datatype ev_type = EvSet | EvUnset | EvOther

record EventOp =
  eoType :: ev_type
  eoPath :: "string list"
  eoPayload :: "json option"

record recordShaper =
  shProj :: "projection option"
  shStrip :: "string list"

definition shaper_record :: "recordShaper \<Rightarrow> json option \<Rightarrow> json option" where
  "shaper_record s doc =
     map_option (\<lambda>d. foldl jdel (case shProj s of None \<Rightarrow> d | Some p \<Rightarrow> projection_record p d) (shStrip s)) doc"

definition stripped :: "recordShaper \<Rightarrow> string list \<Rightarrow> bool" where
  "stripped s path = (case path of [] \<Rightarrow> False | seg # _ \<Rightarrow> seg \<in> set (shStrip s))"

definition shapePayload :: "json \<Rightarrow> projNode option \<Rightarrow> json option" where
  "shapePayload v node = (case node of None \<Rightarrow> Some v | Some n \<Rightarrow> projectValue v n)"

text \<open>\<open>None\<close> when the key is withheld by the blocklist.\<close>

definition multiFieldKey :: "recordShaper \<Rightarrow> string \<Rightarrow> verdict option" where
  "multiFieldKey s key =
     (if cut_before CHR ''.'' key \<in> set (shStrip s) then None
      else Some (case shProj s of None \<Rightarrow> ProjOpKeep None | Some p \<Rightarrow> opVerdictBytes p key))"

definition verdict_node :: "verdict \<Rightarrow> projNode option" where
  "verdict_node v = (case v of ProjOpDrop \<Rightarrow> None | ProjOpKeep n \<Rightarrow> n | ProjOpNarrow n \<Rightarrow> Some n)"

text \<open>The visit of the payload: the fields kept and the keys that vanished, so far.\<close>

definition multi_field ::
  "recordShaper \<Rightarrow> bool \<Rightarrow> (string \<times> json) list \<times> (string \<times> json) list \<Rightarrow> string \<times> json \<Rightarrow>
   (string \<times> json) list \<times> (string \<times> json) list" where
  "multi_field s unsetForm acc f =
     (case multiFieldKey s (fst f) of
        None \<Rightarrow> acc
      | Some ProjOpDrop \<Rightarrow> acc
      | Some v \<Rightarrow>
          if unsetForm then (AList.update (fst f) (snd f) (fst acc), snd acc)
          else (case shapePayload (snd f) (verdict_node v) of
                  None \<Rightarrow> (fst acc, AList.update (fst f) (JAtom ''true'') (snd acc))
                | Some shaped \<Rightarrow> (AList.update (fst f) shaped (fst acc), snd acc)))"

definition multiFieldOp :: "recordShaper \<Rightarrow> ev_type \<Rightarrow> (string \<times> json) list \<Rightarrow> EventOp list" where
  "multiFieldOp s ty fs =
     (let (kept, vanished) = foldl (multi_field s (ty = EvUnset)) ([], []) fs
      in (if kept \<noteq> [] then [\<lparr>eoType = ty, eoPath = [], eoPayload = Some (JObj kept)\<rparr>] else []) @
         (if vanished \<noteq> [] then [\<lparr>eoType = EvUnset, eoPath = [], eoPayload = Some (JObj vanished)\<rparr>] else []))"

definition single_op :: "EventOp \<Rightarrow> verdict \<Rightarrow> EventOp list" where
  "single_op op v =
     (if v = ProjOpDrop then []
      else (case eoPayload op of
              None \<Rightarrow> [op]
            | Some payload \<Rightarrow>
                (case shapePayload payload (verdict_node v) of
                   None \<Rightarrow> [op\<lparr>eoType := EvUnset, eoPayload := None\<rparr>]
                 | Some shaped \<Rightarrow> [op\<lparr>eoPayload := Some shaped\<rparr>])))"

definition shaper_op :: "recordShaper \<Rightarrow> EventOp \<Rightarrow> EventOp list" where
  "shaper_op s op =
     (if shProj s = None \<and> shStrip s = [] then [op]
      else if stripped s (eoPath op) then []
      else (case (eoPath op, eoPayload op) of
              ([], Some (JObj fs)) \<Rightarrow> multiFieldOp s (eoType op) fs
            | _ \<Rightarrow> single_op op (case shProj s of None \<Rightarrow> ProjOpKeep None | Some p \<Rightarrow> opVerdict p (eoPath op))))"

section \<open>The marks of a projection\<close>

fun mark_at :: "projNode \<Rightarrow> string list \<Rightarrow> mark" where
  "mark_at n [] = pnMark n"
| "mark_at n (seg # path) = (case findNode n seg of None \<Rightarrow> MarkNone | Some c \<Rightarrow> mark_at c path)"

lemma findNode_key: "findNode n key = Some c \<Longrightarrow> c \<in> set (pnChildren n) \<and> pnKey c = key"
  by (auto simp: findNode_def find_Some_iff)

lemma pnKey_set_mark [simp]: "pnKey (set_mark p m n) = pnKey n"
  by (cases p) simp_all

lemma find_upd_child:
  assumes "\<And>c. pnKey (f c) = pnKey c"
  shows "List.find (\<lambda>c. pnKey c = key) (upd_child s f cs) =
    (if key = s then Some (f (case List.find (\<lambda>c. pnKey c = s) cs of None \<Rightarrow> newNode s | Some c \<Rightarrow> c))
     else List.find (\<lambda>c. pnKey c = key) cs)"
  using assms by (induction cs) (auto simp: newNode_def)

lemma mark_at_newNode [simp]: "mark_at (newNode key) q = MarkNone"
  by (cases q) (simp_all add: newNode_def findNode_def)

lemma mark_at_set_mark: "mark_at (set_mark p m n) q = (if q = p then m else mark_at n q)"
proof (induction p arbitrary: n q)
  case Nil
  then show ?case by (cases q) (simp_all add: findNode_def)
next
  case (Cons s p)
  show ?case
  proof (cases q)
    case Nil
    then show ?thesis by simp
  next
    case (Cons t q')
    have "findNode (set_mark (s # p) m n) t =
        (if t = s then Some (set_mark p m (case findNode n s of None \<Rightarrow> newNode s | Some c \<Rightarrow> c)) else findNode n t)"
      unfolding findNode_def by (simp add: find_upd_child)
    then show ?thesis using Cons.IH Cons by (auto split: option.split simp: Cons.IH)
  qed
qed

text \<open>What \<open>add\<close> and \<open>seal\<close> keep: children have distinct keys, and the summaries are right.\<close>

fun wf_node :: "projNode \<Rightarrow> bool" where
  "wf_node (ProjNode key m cs i e ic) \<longleftrightarrow> distinct (map pnKey cs) \<and> (\<forall>c \<in> set cs. wf_node c)"

fun node_ok :: "projNode \<Rightarrow> bool" where
  "node_ok (ProjNode key m cs i e ic) \<longleftrightarrow>
     distinct (map pnKey cs) \<and> i = (m = MarkInclude \<or> list_ex incBelow cs) \<and> e = (m = MarkExclude \<or> list_ex excBelow cs) \<and>
     ic = list_ex incBelow cs \<and> (\<forall>c \<in> set cs. node_ok c)"

lemma wf_nodeD: "wf_node n \<Longrightarrow> distinct (map pnKey (pnChildren n)) \<and> (\<forall>c \<in> set (pnChildren n). wf_node c)"
  by (cases n) simp

lemma wf_upd_child:
  assumes "distinct (map pnKey cs)" "\<forall>c \<in> set cs. wf_node c" "\<And>c. pnKey (f c) = pnKey c" "\<And>c. wf_node c \<Longrightarrow> wf_node (f c)"
  shows "distinct (map pnKey (upd_child s f cs)) \<and> (\<forall>c \<in> set (upd_child s f cs). wf_node c) \<and>
    pnKey ` set (upd_child s f cs) = insert s (pnKey ` set cs)"
  using assms(1,2)
proof (induction cs)
  case Nil
  have "wf_node (newNode s)" by (simp add: newNode_def)
  then show ?case using assms(3,4) by (simp add: newNode_def)
next
  case (Cons c cs)
  then show ?case using assms(3,4) by (cases "pnKey c = s") (auto simp: image_iff)
qed

lemma wf_set_mark: "wf_node n \<Longrightarrow> wf_node (set_mark p m n)"
proof (induction p arbitrary: n)
  case (Cons s p)
  then show ?case using wf_upd_child [of "pnChildren n" "set_mark p m" s] by (auto dest: wf_nodeD)
qed (auto dest: wf_nodeD)

lemma node_ok_seal: "wf_node n \<Longrightarrow> node_ok (seal n)"
proof (induction n rule: seal.induct)
  case (1 key m cs i e ic)
  have k: "pnKey (seal c) = pnKey c" for c by (cases c) (simp add: Let_def)
  then have "map pnKey (map seal cs) = map pnKey cs" by simp
  then show ?case using 1 by (simp add: Let_def del: map_map)
qed

lemma pnKey_seal [simp]: "pnKey (seal n) = pnKey n" and pnMark_seal [simp]: "pnMark (seal n) = pnMark n"
  by (cases n; simp add: Let_def)+

lemma mark_at_seal: "mark_at (seal n) q = mark_at n q"
proof (induction n q rule: mark_at.induct)
  case (2 n seg path)
  have "findNode (seal n) seg = map_option seal (findNode n seg)"
  proof (cases n)
    case (ProjNode key m cs i e ic)
    have "List.find (\<lambda>c. pnKey c = seg) (map seal cs) = map_option seal (List.find (\<lambda>c. pnKey c = seg) cs)"
      by (induction cs) simp_all
    then show ?thesis using ProjNode by (simp add: findNode_def Let_def)
  qed
  then show ?case using 2 by (simp split: option.split)
qed simp

lemma node_okD:
  assumes "node_ok n"
  shows "distinct (map pnKey (pnChildren n))" "incBelow n \<longleftrightarrow> pnMark n = MarkInclude \<or> incChild n"
    "incChild n \<longleftrightarrow> (\<exists>c \<in> set (pnChildren n). incBelow c)"
    "excBelow n \<longleftrightarrow> pnMark n = MarkExclude \<or> (\<exists>c \<in> set (pnChildren n). excBelow c)"
    "c \<in> set (pnChildren n) \<Longrightarrow> node_ok c"
  using assms by (cases n; auto simp: list_ex_iff)+

lemma findNode_child:
  assumes "node_ok n" "c \<in> set (pnChildren n)"
  shows "findNode n (pnKey c) = Some c"
proof -
  have "List.find (\<lambda>d. pnKey d = pnKey c) cs = Some c" if "distinct (map pnKey cs)" "c \<in> set cs" for cs
    using that by (induction cs) (auto simp: image_iff)
  then show ?thesis using assms node_okD(1) by (auto simp: findNode_def)
qed

lemma find_ok: "node_ok n \<Longrightarrow> findNode n key = Some c \<Longrightarrow> node_ok c"
  using findNode_key node_okD(5) by blast

lemma mark_below:
  assumes "node_ok n"
  shows "incBelow n \<longleftrightarrow> (\<exists>q. mark_at n q = MarkInclude)" "excBelow n \<longleftrightarrow> (\<exists>q. mark_at n q = MarkExclude)"
proof -
  have "(incBelow n \<longleftrightarrow> (\<exists>q. mark_at n q = MarkInclude)) \<and> (excBelow n \<longleftrightarrow> (\<exists>q. mark_at n q = MarkExclude))"
    using assms
  proof (induction n rule: measure_induct_rule [of size])
    case (less n)
    have IH: "(incBelow c \<longleftrightarrow> (\<exists>q. mark_at c q = MarkInclude)) \<and> (excBelow c \<longleftrightarrow> (\<exists>q. mark_at c q = MarkExclude))"
      if "c \<in> set (pnChildren n)" for c using less child_size that node_okD(5) by blast
    have ex: "(\<exists>q. mark_at n q = mk) \<longleftrightarrow> pnMark n = mk \<or> (\<exists>c \<in> set (pnChildren n). \<exists>q. mark_at c q = mk)" if "mk \<noteq> MarkNone" for mk
    proof (intro iffI; elim disjE exE bexE)
      fix q assume q: "mark_at n q = mk"
      show "pnMark n = mk \<or> (\<exists>c \<in> set (pnChildren n). \<exists>q. mark_at c q = mk)"
        using q that findNode_key [of n] by (cases q) (auto split: option.splits)
    next
      fix c q assume "c \<in> set (pnChildren n)" "mark_at c q = mk"
      then have "mark_at n (pnKey c # q) = mk" using findNode_child [OF less.prems] by simp
      then show "\<exists>q. mark_at n q = mk" by blast
    qed (use mark_at.simps(1) in blast)
    show ?case using node_okD(2-4) [OF less.prems] ex [of MarkInclude] ex [of MarkExclude] IH by auto
  qed
  then show "incBelow n \<longleftrightarrow> (\<exists>q. mark_at n q = MarkInclude)" "excBelow n \<longleftrightarrow> (\<exists>q. mark_at n q = MarkExclude)" by blast+
qed

section \<open>What a record shows\<close>

text \<open>The scalars of a value at a path of object keys, arrays being descended element by element.\<close>

function atoms :: "json \<Rightarrow> string list \<Rightarrow> string list" where
  "atoms (JAtom a) path = (if path = [] then [a] else [])"
| "atoms (JArr xs) path = concat (map (\<lambda>x. atoms x path) xs)"
| "atoms (JObj m) [] = []"
| "atoms (JObj m) (key # path) = (case map_of m key of None \<Rightarrow> [] | Some x \<Rightarrow> atoms x path)"
  by pat_completeness auto
termination
  by (relation "measure (\<lambda>(v, path). size v)") (auto simp: less_Suc_eq_le dest: field_size size_list_estimation' [where f = size])

text \<open>A field update for each child, with distinct keys, seen at one key.\<close>

lemma fold_children:
  assumes "distinct (map pnKey cs)"
    and step: "\<And>out c key. map_of (step out c) key = (if key = pnKey c then upd c (map_of out key) else map_of out key)"
  shows "map_of (foldl step out cs) key =
    (case List.find (\<lambda>c. pnKey c = key) cs of None \<Rightarrow> map_of out key | Some c \<Rightarrow> upd c (map_of out key))"
  using assms(1)
proof (induction cs arbitrary: out)
  case (Cons c cs)
  have "List.find (\<lambda>c. pnKey c = key) cs = None" if "pnKey c = key" using Cons.prems that by (auto simp: find_None_iff) (metis imageI)
  then show ?case using Cons step [of out c key] by (cases "pnKey c = key") (auto split: option.split)
qed simp

fun hidden :: "projNode \<Rightarrow> string list \<Rightarrow> bool" where
  "hidden n [] \<longleftrightarrow> False"
| "hidden n (seg # path) \<longleftrightarrow>
     (case findNode n seg of None \<Rightarrow> False | Some c \<Rightarrow> pnMark c = MarkExclude \<or> hidden c path)"

lemma carve_field:
  assumes "node_ok n" "carveNode (JObj m) n = JObj m'"
  shows "map_of m' key =
    (case findNode n key of
       None \<Rightarrow> map_of m key
     | Some c \<Rightarrow> if pnMark c = MarkExclude then None
                else if pnChildren c \<noteq> [] then map_option (\<lambda>x. carveNode x c) (map_of m key) else map_of m key)"
proof -
  let ?upd = "\<lambda>c old. if pnMark c = MarkExclude then None
      else if pnChildren c \<noteq> [] then map_option (\<lambda>x. carveNode x c) old else old"
  let ?step = "\<lambda>m c. if pnMark c = MarkExclude then AList.delete (pnKey c) m
      else if pnChildren c \<noteq> []
      then (case map_of m (pnKey c) of None \<Rightarrow> m | Some x \<Rightarrow> AList.update (pnKey c) (carveNode x c) m)
      else m"
  have m': "m' = foldl ?step m (pnChildren n)" using assms(2) by simp
  have "map_of (?step out c) key = (if key = pnKey c then ?upd c (map_of out key) else map_of out key)" for out c key
    by (auto simp: delete_conv' update_conv' split: option.splits)
  from fold_children [of _ ?step ?upd, OF node_okD(1) [OF assms(1)] this] show ?thesis unfolding m' findNode_def by simp
qed

lemma hidden_leaf: "pnChildren n = [] \<Longrightarrow> \<not> hidden n path"
  by (cases path) (simp_all add: findNode_def)

lemma carve_atoms: "node_ok n \<Longrightarrow> atoms (carveNode v n) path = (if hidden n path then [] else atoms v path)"
proof (induction v n arbitrary: path rule: carveNode.induct)
  case (2 xs n)
  then show ?case by (auto simp: comp_def cong: map_cong)
next
  case (3 m n)
  obtain m' where m': "carveNode (JObj m) n = JObj m'" by simp
  show ?case
  proof (cases path)
    case (Cons key path')
    have IH: "atoms (carveNode x c) path' = (if hidden c path' then [] else atoms x path')"
      if "findNode n key = Some c" "pnMark c \<noteq> MarkExclude" "pnChildren c \<noteq> []" for c x
      using 3(1) [of c "[(pnKey c, x)]" x path'] findNode_key [OF that(1)] that find_ok [OF "3.prems" that(1)] by simp
    show ?thesis unfolding m' Cons
      using IH carve_field [OF "3.prems" m', of key] by (auto split: option.splits simp: hidden_leaf)
  qed simp
qed simp

fun vis :: "projNode \<Rightarrow> string list \<Rightarrow> bool" where
  "vis n [] \<longleftrightarrow> \<not> incChild n"
| "vis n (seg # path) \<longleftrightarrow>
     (if \<not> incChild n then \<not> hidden n (seg # path)
      else (case findNode n seg of None \<Rightarrow> False | Some c \<Rightarrow> incBelow c \<and> vis c path))"

lemma hidden_excBelow: "node_ok n \<Longrightarrow> hidden n path \<Longrightarrow> excBelow n"
proof (induction n path rule: hidden.induct)
  case (2 n seg path)
  then obtain c where c: "findNode n seg = Some c" "pnMark c = MarkExclude \<or> hidden c path" by (auto split: option.splits)
  then have "excBelow c" using 2(1) [OF c(1)] find_ok [OF 2(2) c(1)] node_okD(4) [of c] by blast
  then show ?case using node_okD(4) [OF 2(2)] findNode_key [OF c(1)] by blast
qed simp

lemma project_field:
  assumes "node_ok n" "incChild n"
  shows "(case projectValue (JObj m) n of None \<Rightarrow> None | Some y \<Rightarrow> jget y key) =
    (case findNode n key of
       None \<Rightarrow> None
     | Some c \<Rightarrow> if incBelow c then Option.bind (map_of m key) (\<lambda>sub. projectValue sub c) else None)"
proof -
  let ?step = "\<lambda>out c. if \<not> incBelow c then out
      else (case map_of m (pnKey c) of
              None \<Rightarrow> out
            | Some sub \<Rightarrow> (case projectValue sub c of None \<Rightarrow> out | Some cv \<Rightarrow> AList.update (pnKey c) cv out))"
  let ?upd = "\<lambda>c old. case if incBelow c then Option.bind (map_of m (pnKey c)) (\<lambda>sub. projectValue sub c) else None of
      None \<Rightarrow> old | Some v \<Rightarrow> Some v"
  let ?fs = "foldl ?step [] (pnChildren n)"
  have "map_of (?step out c) key = (if key = pnKey c then ?upd c (map_of out key) else map_of out key)" for out c key
    by (auto simp: update_conv' split: option.splits)
  from fold_children [of _ ?step ?upd, OF node_okD(1) [OF assms(1)] this]
  have f: "map_of ?fs key = (case findNode n key of None \<Rightarrow> None | Some c \<Rightarrow> ?upd c None)"
    unfolding findNode_def by (simp only: map_of.simps(1))
  have "projectValue (JObj m) n = (if ?fs = [] then None else Some (JObj ?fs))"
    using assms(2) by (simp add: projectValue.simps [of "JObj m" n] Let_def)
  then have "(case projectValue (JObj m) n of None \<Rightarrow> None | Some y \<Rightarrow> jget y key) = map_of ?fs key" by simp
  then show ?thesis using f findNode_key [of n key] by (auto split: option.splits)
qed

lemma project_atoms:
  "node_ok n \<Longrightarrow> (case projectValue v n of None \<Rightarrow> [] | Some y \<Rightarrow> atoms y path) = (if vis n path then atoms v path else [])"
proof (induction v arbitrary: n path rule: measure_induct_rule [of size])
  case (less v)
  show ?case
  proof (cases "incChild n")
    case False
    then have "vis n path \<longleftrightarrow> \<not> hidden n path" by (cases path) simp_all
    then show ?thesis using False carve_atoms [OF less.prems] hidden_excBelow [OF less.prems, of path]
      by (simp add: projectValue.simps [of v n])
  next
    case True
    show ?thesis
    proof (cases v)
      case (JAtom a)
      then show ?thesis using True by (cases path) (simp_all add: projectValue.simps [of "JAtom a" n])
    next
      case (JArr xs)
      have "atoms (case projectValue x n of None \<Rightarrow> JObj [] | Some y \<Rightarrow> y) path = (if vis n path then atoms x path else [])"
        if "x \<in> set xs" for x
      proof -
        have "size x < size v" using that JArr by (auto simp: less_Suc_eq_le dest: size_list_estimation' [where f = size])
        from less.IH [OF this less.prems, of path] show ?thesis by (cases path) (auto split: option.splits)
      qed
      then show ?thesis using True JArr by (auto simp: projectValue.simps [of "JArr xs" n] comp_def cong: map_cong)
    next
      case (JObj m)
      show ?thesis
      proof (cases path)
        case Nil
        then show ?thesis using True JObj by (auto simp: projectValue.simps [of "JObj m" n] Let_def split: option.splits)
      next
        case (Cons key path')
        let ?pv = "projectValue v n"
        have obj: "atoms y path = (case jget y key of None \<Rightarrow> [] | Some z \<Rightarrow> atoms z path')" if "?pv = Some y" for y
          using that True JObj Cons by (auto simp: projectValue.simps [of "JObj m" n] Let_def split: if_splits)
        have "(case ?pv of None \<Rightarrow> [] | Some y \<Rightarrow> atoms y path) =
            (case (case ?pv of None \<Rightarrow> None | Some y \<Rightarrow> jget y key) of None \<Rightarrow> [] | Some z \<Rightarrow> atoms z path')"
          using obj by (auto split: option.split)
        also have "\<dots> = (if vis n path then atoms v path else [])"
          unfolding JObj project_field [OF less.prems True] Cons
          using True less.IH [of _ _ path'] find_ok [OF less.prems, of key] field_size [of m key] JObj
          by (auto split: option.splits simp: bind_eq_Some_conv bind_eq_None_conv)
        finally show ?thesis .
      qed
    qed
  qed
qed

text \<open>
  The rule, on the marks alone: an exclusion hides what is at or below it, and an inclusion shows what is at
  or below it up to the next exclusion, unless another inclusion below it narrows it.
\<close>

definition excluded_on :: "(string list \<Rightarrow> mark) \<Rightarrow> string list \<Rightarrow> bool" where
  "excluded_on E path \<longleftrightarrow> (\<exists>a. a \<noteq> [] \<and> prefix a path \<and> E a = MarkExclude)"

definition included_on :: "(string list \<Rightarrow> mark) \<Rightarrow> string list \<Rightarrow> bool" where
  "included_on E path \<longleftrightarrow>
     (\<exists>a b. path = a @ b \<and> E a = MarkInclude \<and> (\<forall>r. r \<noteq> [] \<longrightarrow> E (a @ r) \<noteq> MarkInclude) \<and>
        (\<forall>c. c \<noteq> [] \<longrightarrow> prefix c b \<longrightarrow> E (a @ c) \<noteq> MarkExclude))"

lemma excluded_on_Cons:
  "excluded_on (mark_at n) (seg # path) \<longleftrightarrow>
     (case findNode n seg of None \<Rightarrow> False | Some c \<Rightarrow> pnMark c = MarkExclude \<or> excluded_on (mark_at c) path)"
proof -
  have "excluded_on (mark_at n) (seg # path) \<longleftrightarrow> (\<exists>a. prefix a path \<and> mark_at n (seg # a) = MarkExclude)"
    unfolding excluded_on_def by (auto simp: prefix_Cons)
  also have "\<dots> \<longleftrightarrow> mark_at n [seg] = MarkExclude \<or> (\<exists>a. a \<noteq> [] \<and> prefix a path \<and> mark_at n (seg # a) = MarkExclude)"
    by (metis Nil_prefix)
  finally show ?thesis by (simp add: excluded_on_def split: option.split)
qed

lemma hidden_iff: "hidden n path \<longleftrightarrow> excluded_on (mark_at n) path"
proof (induction n path rule: hidden.induct)
  case (1 n)
  then show ?case by (simp add: excluded_on_def)
qed (auto simp: excluded_on_Cons split: option.split)

lemma included_on_Cons:
  assumes "pnMark n \<noteq> MarkInclude \<or> (\<exists>r. r \<noteq> [] \<and> mark_at n r = MarkInclude)"
  shows "included_on (mark_at n) (seg # path) \<longleftrightarrow>
    (case findNode n seg of None \<Rightarrow> False | Some c \<Rightarrow> included_on (mark_at c) path)"
proof -
  have "included_on (mark_at n) (seg # path) \<longleftrightarrow>
      (\<exists>a b. path = a @ b \<and> mark_at n (seg # a) = MarkInclude \<and> (\<forall>r. r \<noteq> [] \<longrightarrow> mark_at n (seg # a @ r) \<noteq> MarkInclude) \<and>
        (\<forall>c. c \<noteq> [] \<longrightarrow> prefix c b \<longrightarrow> mark_at n (seg # a @ c) \<noteq> MarkExclude))" (is "?l \<longleftrightarrow> ?r")
  proof
    assume ?l
    then obtain a b where ab: "seg # path = a @ b" "mark_at n a = MarkInclude" "\<forall>r. r \<noteq> [] \<longrightarrow> mark_at n (a @ r) \<noteq> MarkInclude"
      "\<forall>c. c \<noteq> [] \<longrightarrow> prefix c b \<longrightarrow> mark_at n (a @ c) \<noteq> MarkExclude" unfolding included_on_def by blast
    have "a \<noteq> []" using assms ab(2,3) by (metis append_Nil mark_at.simps(1))
    then show ?r using ab by (cases a) auto
  next
    assume ?r
    then show ?l unfolding included_on_def by (metis append_Cons)
  qed
  then show ?thesis by (simp add: included_on_def split: option.split)
qed

lemma incChild_iff:
  assumes "node_ok n"
  shows "incChild n \<longleftrightarrow> (\<exists>r. r \<noteq> [] \<and> mark_at n r = MarkInclude)"
proof
  assume "incChild n"
  then obtain c where c: "c \<in> set (pnChildren n)" "incBelow c" using node_okD(3) [OF assms] by blast
  then obtain q where "mark_at c q = MarkInclude" using mark_below(1) node_okD(5) [OF assms] by blast
  then have "mark_at n (pnKey c # q) = MarkInclude" using findNode_child [OF assms c(1)] by simp
  then show "\<exists>r. r \<noteq> [] \<and> mark_at n r = MarkInclude" by blast
next
  assume "\<exists>r. r \<noteq> [] \<and> mark_at n r = MarkInclude"
  then obtain seg q c where c: "findNode n seg = Some c" "mark_at c q = MarkInclude"
    by (metis mark.distinct(1) mark_at.elims option.case_eq_if option.collapse)
  then have "incBelow c" using mark_below(1) find_ok [OF assms] by blast
  then show "incChild n" using node_okD(3) [OF assms] findNode_key [OF c(1)] by blast
qed

lemma vis_iff: "node_ok n \<Longrightarrow> incBelow n \<Longrightarrow> vis n path \<longleftrightarrow> included_on (mark_at n) path"
proof (induction n path rule: vis.induct)
  case (1 n)
  then show ?case using incChild_iff [OF 1(1)] node_okD(2) [OF 1(1)] by (auto simp: included_on_def)
next
  case (2 n seg path)
  show ?case
  proof (cases "incChild n")
    case True
    then have "\<exists>r. r \<noteq> [] \<and> mark_at n r = MarkInclude" using incChild_iff [OF 2(2)] by blast
    note c = included_on_Cons [OF disjI2, OF this]
    have "included_on (mark_at c) path \<Longrightarrow> incBelow c" if "findNode n seg = Some c" for c
      using mark_below(1) [OF find_ok [OF 2(2) that]] unfolding included_on_def by blast
    then show ?thesis using True 2(1) c find_ok [OF 2(2)] by (auto split: option.split)
  next
    case False
    then have m: "pnMark n = MarkInclude" "\<forall>r. r \<noteq> [] \<longrightarrow> mark_at n r \<noteq> MarkInclude"
      using 2(3) node_okD(2) [OF 2(2)] incChild_iff [OF 2(2)] by blast+
    have "included_on (mark_at n) (seg # path) \<longleftrightarrow> \<not> excluded_on (mark_at n) (seg # path)"
    proof
      assume "included_on (mark_at n) (seg # path)"
      then obtain a b where ab: "seg # path = a @ b" "mark_at n a = MarkInclude" "\<forall>c. c \<noteq> [] \<longrightarrow> prefix c b \<longrightarrow> mark_at n (a @ c) \<noteq> MarkExclude"
        unfolding included_on_def by blast
      then have "a = []" using m(2) by blast
      then show "\<not> excluded_on (mark_at n) (seg # path)" using ab unfolding excluded_on_def by auto
    next
      assume "\<not> excluded_on (mark_at n) (seg # path)"
      then show "included_on (mark_at n) (seg # path)" using m unfolding included_on_def excluded_on_def
        by (intro exI [of _ "[]"] exI [of _ "seg # path"]) auto
    qed
    then show ?thesis using False by (simp add: hidden_iff del: hidden.simps)
  qed
qed

section \<open>What a request asks for\<close>

text \<open>The mark a list of entries gives a path: the last entry that names it decides.\<close>

definition entry_mark :: "(string \<times> mark_value) list \<Rightarrow> string list \<Rightarrow> mark" where
  "entry_mark kvs r =
     (case List.find (\<lambda>(path, v). path_segs 0 path = Inr r) (rev kvs) of
        None \<Rightarrow> MarkNone
      | Some (path, v) \<Rightarrow> (case projectionMark v of None \<Rightarrow> MarkNone | Some m \<Rightarrow> m))"

definition includes_user :: "bool \<Rightarrow> (string \<times> mark_value) list \<Rightarrow> bool" where
  "includes_user free kvs =
     list_ex (\<lambda>(path, v). projectionMark v = Some MarkInclude \<and> (free \<or> \<not> has_prefix ''_'' path)) kvs"

text \<open>What the entries show of a record, at a path of user fields.\<close>

definition projects :: "bool \<Rightarrow> (string \<times> mark_value) list \<Rightarrow> string list \<Rightarrow> bool" where
  "projects free kvs path =
     (if includes_user free kvs then included_on (entry_mark kvs) path else \<not> excluded_on (entry_mark kvs) path)"

lemma path_segs_Inr:
  "path_segs d path = Inr segs \<Longrightarrow>
     segs \<noteq> [] \<and> hd segs = cut_before CHR ''.'' path \<and> hd segs \<noteq> [] \<and> verDefaultKey \<notin> set segs \<and> [] \<notin> set segs"
proof (induction d path arbitrary: segs rule: path_segs.induct)
  case (1 d rest)
  let ?seg = "cut_before CHR ''.'' rest" and ?rest = "cut_after CHR ''.'' rest"
  from "1.prems" have c: "?seg \<noteq> []" "?seg \<noteq> verDefaultKey" "\<not> d + 1 > maxProjectionDepth"
    and r: "if ?rest = [] then segs = [?seg] else \<exists>tl. path_segs (d + 1) ?rest = Inr tl \<and> segs = ?seg # tl"
    by (subst (asm) path_segs.simps, auto simp: Let_def split: if_splits simp: map_sum_def split: sum.splits)+
  show ?case
  proof (cases "?rest = []")
    case True
    then show ?thesis using c r by simp
  next
    case False
    then obtain tl where tl: "path_segs (d + 1) ?rest = Inr tl" "segs = ?seg # tl" using r by auto
    then show ?thesis using "1.IH" [OF refl refl c(1,2,3) False tl(1)] c by auto
  qed
qed

lemma projection_add_Inr:
  assumes "projection_add p path m = Inr p'"
  obtains segs where "path_segs 0 path = Inr segs" "pjRoot p' = set_mark segs m (pjRoot p)" "freeform p' = freeform p"
    "userInclude p' \<longleftrightarrow> userInclude p \<or> (m = MarkInclude \<and> (freeform p \<or> \<not> has_prefix ''_'' path))"
    "\<not> (hd segs = idField \<and> m = MarkExclude)"
proof -
  obtain segs where segs: "path_segs 0 path = Inr segs" using assms by (auto simp: projection_add_def split: if_splits sum.splits)
  note s = path_segs_Inr [OF segs]
  have ne: "path \<noteq> []" using assms by (auto simp: projection_add_def)
  have pre: "has_prefix ''_'' (cut_before CHR ''.'' path) \<longleftrightarrow> has_prefix ''_'' path"
    using s ne by (cases path) (auto simp: has_prefix_iff cut_before_def)
  have "\<not> (cut_before CHR ''.'' path = idField \<and> m = MarkExclude)"
    and "p' = p\<lparr>pjRoot := set_mark segs m (pjRoot p),
       userInclude := (userInclude p \<or> (m = MarkInclude \<and> (freeform p \<or> \<not> has_prefix ''_'' path)))\<rparr>"
    using assms segs ne pre by (auto simp: projection_add_def Let_def split: if_splits)
  then show ?thesis using that [OF segs] s by simp
qed

lemma parsed_marks:
  assumes "run_ops add_entry \<lparr>pjRoot = newNode [], userInclude = False, freeform = free\<rparr> kvs = Inr p"
  shows "wf_node (pjRoot p) \<and> freeform p = free \<and> mark_at (pjRoot p) = entry_mark kvs \<and> userInclude p = includes_user free kvs \<and>
    pnMark (pjRoot p) = MarkNone"
  using assms
proof (induction kvs arbitrary: p rule: rev_induct)
  case Nil
  then show ?case by (auto simp: newNode_def entry_mark_def includes_user_def mark_at_newNode [unfolded newNode_def])
next
  case (snoc e kvs)
  then obtain p0 where p0: "run_ops add_entry \<lparr>pjRoot = newNode [], userInclude = False, freeform = free\<rparr> kvs = Inr p0"
    "add_entry p0 e = Inr p" by (auto simp: run_ops_append split: sum.splits)
  note IH = snoc.IH [OF p0(1)]
  obtain m where m: "projectionMark (snd e) = Some m" "projection_add p0 (fst e) m = Inr p"
    using p0(2) by (auto simp: add_entry_def split: option.splits)
  from m(2) obtain segs where s: "path_segs 0 (fst e) = Inr segs" "pjRoot p = set_mark segs m (pjRoot p0)" "freeform p = freeform p0"
    "userInclude p \<longleftrightarrow> userInclude p0 \<or> (m = MarkInclude \<and> (freeform p0 \<or> \<not> has_prefix ''_'' (fst e)))" by (rule projection_add_Inr)
  have "mark_at (pjRoot p) r = entry_mark (kvs @ [e]) r" for r
    using IH m(1) s(1) unfolding s(2) mark_at_set_mark by (cases e) (auto simp: entry_mark_def)
  moreover have "pnMark (pjRoot p) = MarkNone" using IH path_segs_Inr [OF s(1)] unfolding s(2) by (cases segs) simp_all
  moreover have "userInclude p = includes_user free (kvs @ [e])" using IH m(1) s(4) by (cases e) (auto simp: includes_user_def)
  ultimately show ?case using IH s(2,3) wf_set_mark by auto
qed

lemma parseProjection_Inr:
  assumes "parseProjection free (Some (RawObject kvs)) = Inr (Some p)"
  shows "node_ok (pjRoot p)" "mark_at (pjRoot p) = entry_mark kvs" "freeform p = free" "userInclude p = includes_user free kvs"
    "pnMark (pjRoot p) = MarkNone"
proof -
  obtain p0 where p0: "run_ops add_entry \<lparr>pjRoot = newNode [], userInclude = False, freeform = free\<rparr> kvs = Inr p0"
    "p = p0\<lparr>pjRoot := seal (pjRoot p0)\<rparr>" using assms by (auto simp: parseProjection_def split: if_splits sum.splits)
  from parsed_marks [OF p0(1)] p0(2)
  show "node_ok (pjRoot p)" "mark_at (pjRoot p) = entry_mark kvs" "freeform p = free" "userInclude p = includes_user free kvs"
    "pnMark (pjRoot p) = MarkNone" by (auto simp: node_ok_seal mark_at_seal)
qed

lemma foldl_other:
  assumes "\<And>out x. x \<in> set xs \<Longrightarrow> map_of (f out x) key = map_of out key"
  shows "map_of (foldl f out xs) key = map_of out key"
  using assms by (induction xs arbitrary: out) auto

lemma has_prefix_us [simp]: "has_prefix ''_'' verField" "key \<in> set projectionPassthrough \<Longrightarrow> has_prefix ''_'' key"
  "key \<in> set projectionDefaultDropped \<Longrightarrow> has_prefix ''_'' key" "\<not> has_prefix ''_'' idField"
  by (auto simp: has_prefix_iff verField_def projectionPassthrough_def projectionDefaultDropped_def idField_def)

lemma protocol_fields_user:
  assumes k: "\<not> has_prefix ''_'' key"
  shows "map_of (projectProtocolFields p doc out) key = map_of out key"
proof -
  have ne: "key \<noteq> key'" if "has_prefix ''_'' key'" for key' using that k by auto
  have "map_of (projectProtocolFields p doc out) key =
      map_of (foldl (\<lambda>out key. case (if excluded p key then None else jget doc key) of
          None \<Rightarrow> out | Some sub \<Rightarrow> AList.update key sub out)
        (case (if excluded p verField then None else jget doc verField) of
           None \<Rightarrow> out
         | Some ver \<Rightarrow> AList.update verField (carveVer (projectVer ver (pjRoot p) True) (pjRoot p)) out) projectionPassthrough) key"
    unfolding projectProtocolFields_def Let_def
    by (rule foldl_other) (use ne in \<open>auto simp: update_conv' split: option.split\<close>)
  also have "\<dots> = map_of (case (if excluded p verField then None else jget doc verField) of
           None \<Rightarrow> out
         | Some ver \<Rightarrow> AList.update verField (carveVer (projectVer ver (pjRoot p) True) (pjRoot p)) out) key"
    by (rule foldl_other) (use ne has_prefix_us(2) in \<open>auto simp: update_conv' split: option.split\<close>)
  also have "\<dots> = map_of out key" using ne [OF has_prefix_us(1)] by (auto simp: update_conv' split: option.split)
  finally show ?thesis .
qed

lemma include_field:
  assumes ok: "node_ok (pjRoot p)" and key: "key \<noteq> idField" "freeform p \<or> \<not> has_prefix ''_'' key"
  shows "map_of (include_fields p doc start) key =
    (case findNode (pjRoot p) key of
       None \<Rightarrow> map_of start key
     | Some n \<Rightarrow> (case if incBelow n then Option.bind (jget doc key) (\<lambda>sub. projectValue sub n) else None of
                   None \<Rightarrow> map_of start key | Some v \<Rightarrow> Some v))"
proof -
  let ?skip = "\<lambda>n. pnKey n = idField \<or> (\<not> freeform p \<and> has_prefix ''_'' (pnKey n))"
  let ?step = "\<lambda>out n. if ?skip n then out else if \<not> incBelow n then out
      else (case jget doc (pnKey n) of
              None \<Rightarrow> out
            | Some sub \<Rightarrow> (case projectValue sub n of None \<Rightarrow> out | Some v \<Rightarrow> AList.update (pnKey n) v out))"
  let ?upd = "\<lambda>n old. if ?skip n then old
      else (case if incBelow n then Option.bind (jget doc (pnKey n)) (\<lambda>sub. projectValue sub n) else None of None \<Rightarrow> old | Some v \<Rightarrow> Some v)"
  have "map_of (?step out n) key = (if key = pnKey n then ?upd n (map_of out key) else map_of out key)" for out n key
    by (auto simp: update_conv' split: option.splits)
  from fold_children [of _ ?step ?upd, OF node_okD(1) [OF ok] this]
  have "map_of (include_fields p doc start) key =
      (case findNode (pjRoot p) key of None \<Rightarrow> map_of start key | Some n \<Rightarrow> ?upd n (map_of start key))"
    unfolding include_fields_def findNode_def by blast
  then show ?thesis using key findNode_key [of "pjRoot p" key] by (auto split: option.splits)
qed

lemma defaults_user:
  assumes "\<not> has_prefix ''_'' key"
  shows "jget (applyProtocolDefaults p v) key = jget v key"
proof -
  have "jget (jdel v key') key = jget v key" if "has_prefix ''_'' key'" for v key'
    using that assms by (cases v) (auto simp: delete_conv')
  then have "jget (foldl (\<lambda>v key. case findNode (pjRoot p) key of
              Some n \<Rightarrow> if pnMark n = MarkInclude then v else jdel v key
            | None \<Rightarrow> jdel v key) v keys) key = jget v key" if "\<forall>key' \<in> set keys. has_prefix ''_'' key'" for keys
    using that by (induction keys arbitrary: v) (auto split: option.split)
  then show ?thesis unfolding applyProtocolDefaults_def using has_prefix_us(3) by blast
qed

lemma atoms_get: "atoms v (key # path) = (case jget v key of None \<Rightarrow> [] | Some x \<Rightarrow> atoms x path)" if "v = JObj m"
  using that by simp

lemma jmap_user: "key \<noteq> key' \<Longrightarrow> jget (jmap v key' f) key = jget v key"
  by (auto simp: jmap_def update_conv' split: json.split option.split)

lemma exclude_record:
  assumes "\<not> userInclude p" "freeform p \<or> \<not> has_prefix ''_'' key"
  shows "jget (projection_record p (JObj m)) key = jget (carveNode (JObj m) (pjRoot p)) key"
proof (cases "freeform p")
  case False
  then have k: "\<not> has_prefix ''_'' key" using assms(2) by blast
  then have "key \<noteq> verField" by auto
  then show ?thesis using assms(1) False defaults_user [OF k] by (simp add: projection_record_def Let_def jmap_user del: carveNode.simps)
qed (use assms in \<open>simp add: projection_record_def Let_def\<close>)

lemma record_is_object: "\<exists>m'. projection_record p (JObj m) = JObj m'"
proof -
  have d: "\<exists>m'. jdel (JObj m) key = JObj m'" for m key by simp
  have "\<exists>m'. applyProtocolDefaults p (JObj m) = JObj m'" for m
    unfolding applyProtocolDefaults_def projectionDefaultDropped_def by (auto split: option.split)
  moreover have "\<exists>m'. jmap (JObj m) key f = JObj m'" for m key f by (auto simp: jmap_def split: option.split)
  ultimately show ?thesis by (auto simp: projection_record_def Let_def) metis
qed

text \<open>
  C30. A projected record holds exactly what was asked for. At every path of user fields the answer has the
  scalars of the stored record when the entries show that path, and none otherwise: in a request that includes
  some user field, a path is shown when an inclusion covers it that is not narrowed by another one below it
  and not undone by an exclusion between; in one that only excludes, when no exclusion covers it.
  Arrays are projected element by element.
\<close>

theorem projection_body:
  assumes "parseProjection free (Some (RawObject kvs)) = Inr (Some p)"
    and "key \<noteq> idField" "free \<or> \<not> has_prefix ''_'' key"
  shows "atoms (projection_record p (JObj m)) (key # path) =
    (if projects free kvs (key # path) then atoms (JObj m) (key # path) else [])"
proof -
  note p = parseProjection_Inr [OF assms(1)]
  obtain m' where m': "projection_record p (JObj m) = JObj m'" using record_is_object by blast
  show ?thesis
  proof (cases "userInclude p")
    case False
    have "atoms (projection_record p (JObj m)) (key # path) = atoms (carveNode (JObj m) (pjRoot p)) (key # path)"
      using exclude_record [OF False, of key m] assms(3) p(3) unfolding m' by simp
    then show ?thesis using False p(2,4)
      unfolding carve_atoms [OF p(1)] by (simp add: hidden_iff projects_def del: carveNode.simps atoms.simps hidden.simps)
  next
    case True
    let ?n = "findNode (pjRoot p) key"
    have "jget (projection_record p (JObj m)) key =
        (case ?n of None \<Rightarrow> None | Some n \<Rightarrow> if incBelow n then Option.bind (map_of m key) (\<lambda>sub. projectValue sub n) else None)"
      using True include_field [OF p(1) assms(2), of "JObj m"] assms(2,3) p(3) protocol_fields_user [of key]
      by (auto simp: projection_record_def Let_def split: option.splits if_splits)
    then have "atoms (projection_record p (JObj m)) (key # path) =
        (case ?n of None \<Rightarrow> [] | Some n \<Rightarrow> if incBelow n \<and> vis n path then atoms (JObj m) (key # path) else [])"
      using project_atoms [OF find_ok [OF p(1)]] atoms_get [OF m'] by (auto split: option.splits simp: bind_eq_Some_conv)
    moreover have "included_on (entry_mark kvs) (key # path) \<longleftrightarrow> (case ?n of None \<Rightarrow> False | Some n \<Rightarrow> included_on (mark_at n) path)"
      using included_on_Cons [of "pjRoot p" key path] p(2,5) by simp
    moreover have "included_on (mark_at n) path \<longleftrightarrow> incBelow n \<and> vis n path" if "?n = Some n" for n
      using vis_iff [OF find_ok [OF p(1) that]] mark_below(1) [OF find_ok [OF p(1) that]] unfolding included_on_def by blast
    ultimately show ?thesis using True p(4) by (auto simp: projects_def split: option.splits)
  qed
qed

section \<open>The version map\<close>

text \<open>
  How a reader resolves the version of a path in a version map, as the SDK does: a bare version covers
  everything below, a missing key falls back to the default of its level, and an inner node stands for the newest
  version in it.
\<close>

function newest :: "json \<Rightarrow> string" where
  "newest (JAtom a) = a"
| "newest (JArr xs) = []"
| "newest (JObj m) = foldl max [] (map (\<lambda>f. newest (snd f)) m)"
  by pat_completeness auto
termination
  by (relation "measure size") (auto simp: less_Suc_eq_le intro: size_list_estimation' [where f = "size_prod (\<lambda>_. 0) size"])

definition default_version :: "(string \<times> json) list \<Rightarrow> string" where
  "default_version m = (case map_of m verDefaultKey of Some (JAtom a) \<Rightarrow> a | _ \<Rightarrow> [])"

fun ver_lookup :: "json \<Rightarrow> string list \<Rightarrow> string" where
  "ver_lookup v [] = newest v"
| "ver_lookup (JAtom a) (key # path) = a"
| "ver_lookup (JArr xs) (key # path) = []"
| "ver_lookup (JObj m) (key # path) =
     (case map_of m key of Some x \<Rightarrow> ver_lookup x path | None \<Rightarrow> default_version m)"

lemma update_same: "map_of m key = Some x \<Longrightarrow> AList.update key x m = m"
  by (induction m) (auto split: if_splits)

lemma carve_id: "node_ok n \<Longrightarrow> \<forall>a. a \<noteq> [] \<longrightarrow> mark_at n a \<noteq> MarkExclude \<Longrightarrow> carveNode v n = v"
proof (induction v n rule: carveNode.induct)
  case (3 m n)
  let ?step = "\<lambda>m c. if pnMark c = MarkExclude then AList.delete (pnKey c) m
      else if pnChildren c \<noteq> []
      then (case map_of m (pnKey c) of None \<Rightarrow> m | Some x \<Rightarrow> AList.update (pnKey c) (carveNode x c) m)
      else m"
  have step: "?step out c = out" if c: "c \<in> set (pnChildren n)" for c out
  proof -
    have at: "mark_at n (pnKey c # a) = mark_at c a" for a using findNode_child [OF "3.prems"(1) c] by simp
    have mk: "mark_at c a \<noteq> MarkExclude" for a using "3.prems"(2) unfolding at [symmetric] by blast
    then have "pnMark c \<noteq> MarkExclude" by (metis mark_at.simps(1))
    moreover have "carveNode x c = x" if "pnChildren c \<noteq> []" "map_of out (pnKey c) = Some x" for x
      using "3.IH" [OF c \<open>pnMark c \<noteq> MarkExclude\<close> that] node_okD(5) [OF "3.prems"(1) c] mk by blast
    ultimately show ?thesis by (auto split: option.split simp: update_same)
  qed
  have "foldl ?step m cs = m" if "set cs \<subseteq> set (pnChildren n)" for cs
    using that step by (induction cs) auto
  from this [OF subset_refl] show ?case by (simp only: carveNode.simps)
qed (auto intro: map_idI)

text \<open>A path that no exclusion is on, above or below.\<close>

definition clear_of :: "(string list \<Rightarrow> mark) \<Rightarrow> string list \<Rightarrow> bool" where
  "clear_of E path \<longleftrightarrow> (\<forall>a. a \<noteq> [] \<longrightarrow> prefix a path \<or> prefix path a \<longrightarrow> E a \<noteq> MarkExclude)"

lemma clear_of_child:
  assumes "clear_of (mark_at n) (key # path)" "findNode n key = Some c"
  shows "pnMark c \<noteq> MarkExclude" "clear_of (mark_at c) path"
proof -
  have at: "mark_at n (key # a) = mark_at c a" for a using assms(2) by simp
  have "prefix [key] (key # path)" by simp
  then have "mark_at n [key] \<noteq> MarkExclude" using assms(1) unfolding clear_of_def by blast
  then show "pnMark c \<noteq> MarkExclude" using at [of "[]"] by simp
  show "clear_of (mark_at c) path" unfolding clear_of_def at [symmetric]
  proof (intro allI impI)
    fix a assume "prefix a path \<or> prefix path a"
    then have "prefix (key # a) (key # path) \<or> prefix (key # path) (key # a)" by simp
    then show "mark_at n (key # a) \<noteq> MarkExclude" using assms(1) unfolding clear_of_def by blast
  qed
qed

lemma carve_lookup:
  "node_ok n \<Longrightarrow> clear_of (mark_at n) path \<Longrightarrow> mark_at n [verDefaultKey] \<noteq> MarkExclude \<Longrightarrow>
     \<forall>r. mark_at n r \<noteq> MarkNone \<longrightarrow> verDefaultKey \<notin> set r \<Longrightarrow> ver_lookup (carveNode v n) path = ver_lookup v path"
proof (induction path arbitrary: v n)
  case Nil
  then have "carveNode v n = v" by (intro carve_id) (auto simp: clear_of_def)
  then show ?case by simp
next
  case (Cons key path)
  show ?case
  proof (cases v)
    case (JObj m)
    obtain m' where m': "carveNode (JObj m) n = JObj m'" by simp
    note f = carve_field [OF Cons.prems(1) m']
    have "default_version m' = default_version m"
      using f [of verDefaultKey] Cons.prems(3)
      by (cases "map_of m verDefaultKey") (auto simp: default_version_def split: option.splits json.splits if_splits)
    moreover have "ver_lookup (carveNode x c) path = ver_lookup x path" if "findNode n key = Some c" for c x
    proof (rule Cons.IH)
      have at: "mark_at n (key # a) = mark_at c a" for a using that by simp
      show "\<forall>r. mark_at c r \<noteq> MarkNone \<longrightarrow> verDefaultKey \<notin> set r"
        using Cons.prems(4) unfolding at [symmetric] by (meson list.set_intros(2))
      then show "mark_at c [verDefaultKey] \<noteq> MarkExclude" by (metis list.set_intros(1) mark.distinct(3))
    qed (use find_ok [OF Cons.prems(1) that] clear_of_child [OF Cons.prems(2) that] in blast)+
    ultimately show ?thesis unfolding JObj m'
      using f [of key] clear_of_child(1) [OF Cons.prems(2)] by (auto split: option.splits)
  qed simp_all
qed

lemma projectVer_field:
  assumes ok: "node_ok n" and k: "\<not> (isRoot \<and> key = idField)" "\<not> has_prefix ''_'' key"
    and none: "key = verDefaultKey \<Longrightarrow> \<forall>c. findNode n key = Some c \<longrightarrow> \<not> incBelow c"
    and pv: "projectVer (JObj ver) n isRoot = JObj out"
  shows "map_of out key =
    (if key = verDefaultKey then map_of ver key
     else (case findNode n key of
             None \<Rightarrow> None
           | Some c \<Rightarrow> if incBelow c then map_option (\<lambda>sub. if \<not> incChild c then sub else projectVer sub c False) (map_of ver key)
                      else None))"
proof -
  let ?skip = "\<lambda>c. isRoot \<and> pnKey c = idField \<or> has_prefix ''_'' (pnKey c) \<or> \<not> incBelow c"
  let ?new = "\<lambda>c. map_option (\<lambda>sub. if \<not> incChild c then sub else projectVer sub c False) (map_of ver (pnKey c))"
  let ?step = "\<lambda>out c. if ?skip c then out
      else (case map_of ver (pnKey c) of
              None \<Rightarrow> out
            | Some sub \<Rightarrow> AList.update (pnKey c) (if \<not> incChild c then sub else projectVer sub c False) out)"
  let ?upd = "\<lambda>c old. if ?skip c then old else (case ?new c of None \<Rightarrow> old | Some v \<Rightarrow> Some v)"
  define start where "start = (case (if isRoot then map_of ver idField else None) of
      None \<Rightarrow> (case map_of ver verDefaultKey of None \<Rightarrow> [] | Some x \<Rightarrow> [(verDefaultKey, x)])
    | Some x \<Rightarrow> AList.update idField x (case map_of ver verDefaultKey of None \<Rightarrow> [] | Some x \<Rightarrow> [(verDefaultKey, x)]))"
  have out: "out = foldl ?step start (pnChildren n)" using pv by (simp add: Let_def start_def)
  have "map_of (?step out c) key = (if key = pnKey c then ?upd c (map_of out key) else map_of out key)" for out c key
    by (auto simp: update_conv' split: option.splits)
  from fold_children [of _ ?step ?upd, OF node_okD(1) [OF ok] this]
  have f: "map_of out key = (case findNode n key of None \<Rightarrow> map_of start key | Some c \<Rightarrow> ?upd c (map_of start key))"
    unfolding out findNode_def by blast
  have id: "idField \<noteq> verDefaultKey" by (simp add: idField_def verDefaultKey_def)
  have st: "map_of start key = (if key = verDefaultKey then map_of ver key else None)"
    using k(1) id by (auto simp: start_def update_conv' split: option.splits)
  show ?thesis using k none findNode_key [of n key] unfolding f st by (auto split: option.splits)
qed

lemma projectVer_lookup:
  "node_ok n \<Longrightarrow> incChild n \<Longrightarrow> path \<noteq> [] \<Longrightarrow> included_on (mark_at n) path \<Longrightarrow> \<forall>seg \<in> set path. \<not> has_prefix ''_'' seg \<Longrightarrow>
     \<not> (isRoot \<and> hd path = idField) \<Longrightarrow> \<forall>r. mark_at n r \<noteq> MarkNone \<longrightarrow> verDefaultKey \<notin> set r \<Longrightarrow>
     ver_lookup (projectVer v n isRoot) path = ver_lookup v path"
proof (induction path arbitrary: v n isRoot)
  case (Cons key path)
  show ?case
  proof (cases v)
    case (JObj ver)
    obtain out where out: "projectVer (JObj ver) n isRoot = JObj out" by (simp add: Let_def)
    have inc: "\<exists>r. r \<noteq> [] \<and> mark_at n r = MarkInclude" using incChild_iff [OF Cons.prems(1)] Cons.prems(2) by blast
    from included_on_Cons [OF disjI2, OF inc, of key path] Cons.prems(4)
    obtain c where c: "findNode n key = Some c" "included_on (mark_at c) path" by (auto split: option.splits)
    have okc: "node_ok c" by (rule find_ok [OF Cons.prems(1) c(1)])
    have at: "mark_at n (key # a) = mark_at c a" for a using c(1) by simp
    obtain q where q: "mark_at c q = MarkInclude" using c(2) unfolding included_on_def by blast
    then have below: "incBelow c" using mark_below(1) [OF okc] by blast
    have star: "\<forall>r. mark_at c r \<noteq> MarkNone \<longrightarrow> verDefaultKey \<notin> set r"
      using Cons.prems(7) unfolding at [symmetric] by (meson list.set_intros(2))
    have "mark_at n (key # q) \<noteq> MarkNone" using q at by simp
    then have key: "key \<noteq> verDefaultKey" using Cons.prems(7) by (metis list.set_intros(1))
    have def_none: "\<not> incBelow d" if fd: "findNode n verDefaultKey = Some d" for d
    proof
      assume "incBelow d"
      then obtain r where "mark_at d r = MarkInclude" using mark_below(1) [OF find_ok [OF Cons.prems(1) fd]] by blast
      then have "mark_at n (verDefaultKey # r) \<noteq> MarkNone" using fd by simp
      then show False using Cons.prems(7) by (metis list.set_intros(1))
    qed
    have us: "\<not> has_prefix ''_'' verDefaultKey" by (simp add: has_prefix_iff verDefaultKey_def)
    have idf: "\<not> (isRoot \<and> verDefaultKey = idField)" by (simp add: idField_def verDefaultKey_def)
    have "default_version out = default_version ver"
      using projectVer_field [OF Cons.prems(1) idf us _ out] def_none by (simp add: default_version_def)
    moreover have "map_of out key = map_option (\<lambda>sub. if \<not> incChild c then sub else projectVer sub c False) (map_of ver key)"
      using projectVer_field [OF Cons.prems(1) _ _ _ out, of key] Cons.prems(5,6) key c(1) below by simp
    moreover have "ver_lookup (projectVer sub c False) path = ver_lookup sub path" if ic: "incChild c" for sub
    proof (rule Cons.IH [OF okc ic _ c(2) _ _ star])
      show "path \<noteq> []"
      proof
        assume "path = []"
        then have "\<forall>r. r \<noteq> [] \<longrightarrow> mark_at c r \<noteq> MarkInclude" using c(2) unfolding included_on_def by simp
        then show False using incChild_iff [OF okc] ic by blast
      qed
    qed (use Cons.prems(5) in auto)
    ultimately show ?thesis unfolding JObj out by (auto split: option.split)
  qed simp_all
qed simp

lemma entry_mark_segs:
  assumes "entry_mark kvs r \<noteq> MarkNone"
  shows "verDefaultKey \<notin> set r" "r \<noteq> []"
proof -
  obtain path where "path_segs 0 path = Inr r"
    using assms by (auto simp: entry_mark_def find_Some_iff split: option.splits)
  then show "verDefaultKey \<notin> set r" "r \<noteq> []" using path_segs_Inr by blast+
qed

text \<open>
  The version map of a projected record is right for what the request includes: for every included path of
  user fields that no exclusion is on, above or below, the narrowed map resolves to the version the full map
  gives it.
\<close>

theorem projection_versions:
  assumes "parseProjection False (Some (RawObject kvs)) = Inr (Some p)" "includes_user False kvs" "\<not> excluded p verField"
    and "map_of m verField = Some ver" "included_on (entry_mark kvs) path" "clear_of (entry_mark kvs) path"
    and "\<forall>seg \<in> set path. \<not> has_prefix ''_'' seg" "hd path \<noteq> idField"
  shows "\<exists>ver'. jget (projection_record p (JObj m)) verField = Some ver' \<and> ver_lookup ver' path = ver_lookup ver path"
proof -
  note p = parseProjection_Inr [OF assms(1)]
  let ?root = "pjRoot p"
  let ?ver = "carveVer (projectVer ver ?root True) ?root"
  have pt: "verField \<notin> set projectionPassthrough" by (simp add: verField_def projectionPassthrough_def)
  have "jget (projection_record p (JObj m)) verField = Some ?ver"
  proof -
    have "map_of (projectProtocolFields p (JObj m) out) verField = Some ?ver" for out
    proof -
      let ?out1 = "AList.update verField ?ver out"
      let ?out2 = "foldl (\<lambda>out key. case (if excluded p key then None else jget (JObj m) key) of
          None \<Rightarrow> out | Some sub \<Rightarrow> AList.update key sub out) ?out1 projectionPassthrough"
      have "map_of (projectProtocolFields p (JObj m) out) verField = map_of ?out2 verField"
        unfolding projectProtocolFields_def Let_def using assms(3,4)
        by (simp, intro foldl_other) (auto simp: update_conv' split: option.split)
      also have "\<dots> = map_of ?out1 verField"
        by (rule foldl_other) (use pt in \<open>auto simp: update_conv' split: option.split\<close>)
      finally show ?thesis by (simp add: update_conv')
    qed
    then show ?thesis using assms(2) p(3,4) by (simp add: projection_record_def Let_def)
  qed
  moreover have "ver_lookup ?ver path = ver_lookup ver path"
  proof -
    have star: "\<forall>r. mark_at ?root r \<noteq> MarkNone \<longrightarrow> verDefaultKey \<notin> set r" using entry_mark_segs(1) p(2) by metis
    obtain a b where ab: "path = a @ b" "entry_mark kvs a = MarkInclude" using assms(5) unfolding included_on_def by blast
    then have "a \<noteq> []" using entry_mark_segs(2) by (metis mark.distinct(1))
    then have "path \<noteq> []" "incChild ?root" using ab incChild_iff [OF p(1)] p(2) by auto
    then have "ver_lookup (projectVer ver ?root True) path = ver_lookup ver path"
      using projectVer_lookup [OF p(1) _ _ _ _ _ star, of path True ver] assms(5,7,8) p(2) by simp
    moreover have "mark_at ?root [verDefaultKey] \<noteq> MarkExclude" using star by (metis list.set_intros(1) mark.distinct(3))
    then have "ver_lookup (carveNode v ?root) path = ver_lookup v path" for v
      using carve_lookup [OF p(1) _ _ star] assms(6) p(2) by simp
    ultimately show ?thesis by (simp add: carveVer_def)
  qed
  ultimately show ?thesis by blast
qed

section \<open>What a subscription delivers\<close>

datatype reach = Whole | Part | Nothing

fun reach_of :: "verdict \<Rightarrow> reach" where
  "reach_of ProjOpDrop = Nothing"
| "reach_of (ProjOpKeep n) = Whole"
| "reach_of (ProjOpNarrow n) = Part"

lemma verdict_inside:
  "node_ok n \<Longrightarrow> \<forall>r. r \<noteq> [] \<longrightarrow> mark_at n r \<noteq> MarkInclude \<Longrightarrow>
     reach_of (verdict_from n True path) = (if excluded_on (mark_at n) path then Nothing else Whole)"
proof (induction path arbitrary: n)
  case Nil
  then show ?case by (simp add: excluded_on_def)
next
  case (Cons seg path)
  show ?case
  proof (cases "findNode n seg")
    case None
    then show ?thesis by (simp add: excluded_on_Cons)
  next
    case (Some c)
    have at: "mark_at n (seg # a) = mark_at c a" for a using Some by simp
    have inc: "\<forall>r. mark_at c r \<noteq> MarkInclude" using Cons.prems(2) unfolding at [symmetric] by blast
    then have "pnMark c \<noteq> MarkInclude" by (metis mark_at.simps(1))
    moreover have "\<not> incBelow c" using mark_below(1) [OF find_ok [OF Cons.prems(1) Some]] inc by blast
    ultimately show ?thesis using Some Cons.IH [OF find_ok [OF Cons.prems(1) Some]] inc
      by (cases "pnMark c") (simp_all add: excluded_on_Cons)
  qed
qed

lemma included_on_mark:
  assumes "pnMark n = MarkInclude" "\<forall>r. r \<noteq> [] \<longrightarrow> mark_at n r \<noteq> MarkInclude"
  shows "included_on (mark_at n) path \<longleftrightarrow> \<not> excluded_on (mark_at n) path"
proof
  assume "included_on (mark_at n) path"
  then obtain a b where ab: "path = a @ b" "mark_at n a = MarkInclude" "\<forall>c. c \<noteq> [] \<longrightarrow> prefix c b \<longrightarrow> mark_at n (a @ c) \<noteq> MarkExclude"
    unfolding included_on_def by blast
  then have "a = []" using assms(2) by blast
  then show "\<not> excluded_on (mark_at n) path" using ab unfolding excluded_on_def by auto
next
  assume "\<not> excluded_on (mark_at n) path"
  then show "included_on (mark_at n) path" using assms unfolding included_on_def excluded_on_def
    by (intro exI [of _ "[]"] exI [of _ path]) auto
qed

lemma verdict_outside:
  "node_ok n \<Longrightarrow> pnMark n \<noteq> MarkInclude \<Longrightarrow> \<forall>a r. r \<noteq> [] \<longrightarrow> mark_at n a = MarkInclude \<longrightarrow> mark_at n (a @ r) \<noteq> MarkInclude \<Longrightarrow>
     reach_of (verdict_from n False path) =
       (if included_on (mark_at n) path then Whole else if \<exists>r. mark_at n (path @ r) = MarkInclude then Part else Nothing)"
proof (induction path arbitrary: n)
  case Nil
  then have "\<not> included_on (mark_at n) []" by (simp add: included_on_def)
  then show ?case using mark_below(1) [OF Nil(1)] by simp
next
  case (Cons seg path)
  note split = included_on_Cons [OF disjI1, OF Cons.prems(2), of seg path]
  show ?case
  proof (cases "findNode n seg")
    case None
    then show ?thesis using split by simp
  next
    case (Some c)
    have at: "mark_at n (seg # a) = mark_at c a" for a using Some by simp
    have okc: "node_ok c" by (rule find_ok [OF Cons.prems(1) Some])
    have nest: "\<forall>a r. r \<noteq> [] \<longrightarrow> mark_at c a = MarkInclude \<longrightarrow> mark_at c (a @ r) \<noteq> MarkInclude"
      using Cons.prems(3) unfolding at [symmetric] by (metis append_Cons)
    have inc: "included_on (mark_at n) (seg # path) \<longleftrightarrow> included_on (mark_at c) path" using split Some by simp
    have ext: "(\<exists>r. mark_at n ((seg # path) @ r) = MarkInclude) \<longleftrightarrow> (\<exists>r. mark_at c (path @ r) = MarkInclude)" using at by simp
    show ?thesis
    proof (cases "pnMark c")
      case MarkNone
      then show ?thesis using Cons.IH [OF okc _ nest] Some unfolding inc ext by simp
    next
      case MarkInclude
      then have below: "\<forall>r. r \<noteq> [] \<longrightarrow> mark_at c r \<noteq> MarkInclude" using nest by (metis append_Nil mark_at.simps(1))
      have "\<not> (\<exists>r. mark_at c (path @ r) = MarkInclude)" if "excluded_on (mark_at c) path"
        using that below unfolding excluded_on_def by (metis append_is_Nil_conv prefix_Nil)
      then show ?thesis using MarkInclude Some verdict_inside [OF okc below, of path] included_on_mark [OF MarkInclude below, of path]
        unfolding inc ext by auto
    next
      case MarkExclude
      have "\<not> included_on (mark_at c) path \<and> \<not> (\<exists>r. mark_at c (path @ r) = MarkInclude)" if "\<not> incBelow c"
        using that mark_below(1) [OF okc] unfolding included_on_def by blast
      then show ?thesis using MarkExclude Cons.IH [OF okc _ nest] Some unfolding inc ext by auto
    qed
  qed
qed

lemma entry_mark_user:
  assumes "entry_mark kvs (key # path) = MarkInclude" "free \<or> \<not> has_prefix ''_'' key"
  shows "includes_user free kvs"
proof -
  obtain pth v where e: "(pth, v) \<in> set kvs" "path_segs 0 pth = Inr (key # path)" "projectionMark v = Some MarkInclude"
    using assms(1) by (auto simp: entry_mark_def split: option.splits dest!: find_SomeD)
  have "has_prefix ''_'' pth \<Longrightarrow> has_prefix ''_'' key"
    using path_segs_Inr [OF e(2)] by (cases pth) (auto simp: has_prefix_iff cut_before_def)
  then show ?thesis using e assms(2) by (force simp: includes_user_def list_ex_iff)
qed

text \<open>
  A subscription delivers what the record shows. For a request that does not include a field and a part of it,
  an operation on a user field is delivered whole exactly when the projected record shows its path, is narrowed
  exactly when only something below the path is included, and is dropped otherwise.
\<close>

theorem projection_operations:
  assumes "parseProjection free (Some (RawObject kvs)) = Inr (Some p)" "free \<or> \<not> has_prefix ''_'' key"
    and "\<And>a r. r \<noteq> [] \<Longrightarrow> entry_mark kvs a = MarkInclude \<Longrightarrow> entry_mark kvs (a @ r) \<noteq> MarkInclude"
  shows "reach_of (opVerdict p (key # path)) =
    (if projects free kvs (key # path) then Whole
     else if \<exists>r. entry_mark kvs (key # path @ r) = MarkInclude then Part else Nothing)"
proof (cases "includes_user free kvs")
  case True
  note p = parseProjection_Inr [OF assms(1)]
  have "pnMark (pjRoot p) \<noteq> MarkInclude" using p(5) by simp
  from verdict_outside [OF p(1) this, of "key # path"] show ?thesis
    using True p(2,4) assms(3) by (simp add: opVerdict_def projects_def)
next
  case False
  note p = parseProjection_Inr [OF assms(1)]
  have no: "entry_mark kvs (key # r) \<noteq> MarkInclude" for r using entry_mark_user [OF _ assms(2)] False by blast
  have n: "\<not> userInclude p" using p(4) False by simp
  show ?thesis
  proof (cases "findNode (pjRoot p) key")
    case None
    then have "\<not> excluded_on (entry_mark kvs) (key # path)" using excluded_on_Cons [of "pjRoot p"] p(2) by simp
    then show ?thesis using None n False no by (simp add: opVerdict_def projects_def)
  next
    case (Some c)
    have okc: "node_ok c" by (rule find_ok [OF p(1) Some])
    have at: "mark_at c a = entry_mark kvs (key # a)" for a using Some p(2) by (metis mark_at.simps(2) option.simps(5))
    have inc: "mark_at c a \<noteq> MarkInclude" for a using no at by simp
    then have "\<not> incBelow c" "pnMark c \<noteq> MarkInclude" using mark_below(1) [OF okc] by (blast, metis mark_at.simps(1))
    moreover have "excluded_on (entry_mark kvs) (key # path) \<longleftrightarrow> pnMark c = MarkExclude \<or> excluded_on (mark_at c) path"
      using excluded_on_Cons [of "pjRoot p"] p(2) Some by simp
    ultimately show ?thesis using Some n False no verdict_inside [OF okc] inc
      by (cases "pnMark c") (simp_all add: opVerdict_def projects_def)
  qed
qed

text \<open>The verdict on a dotted key is the verdict on its segments.\<close>

lemma split_on_cut: "split_on c s = cut_before c s # (if c \<in> set s then split_on c (cut_after c s) else [])"
  by (induction s) (auto simp: cut_before_def cut_after_def)

lemma verdict_bytes_split:
  "rest \<noteq> [] \<Longrightarrow> last rest \<noteq> CHR ''.'' \<Longrightarrow> verdict_bytes n inherited rest = verdict_from n inherited (split_on CHR ''.'' rest)"
proof (induction n inherited rest rule: verdict_bytes.induct)
  case (1 n inherited rest)
  let ?seg = "cut_before CHR ''.'' rest" and ?rest = "cut_after CHR ''.'' rest"
  have v: "verdict_bytes n inherited rest =
      (case findNode n ?seg of
         None \<Rightarrow> if inherited then ProjOpKeep None else ProjOpDrop
       | Some c \<Rightarrow>
           (case pnMark c of
              MarkExclude \<Rightarrow> if \<not> incBelow c then ProjOpDrop else verdict_bytes c False ?rest
            | MarkInclude \<Rightarrow> verdict_bytes c True ?rest
            | MarkNone \<Rightarrow> verdict_bytes c inherited ?rest))"
    using "1.prems"(1) by (subst verdict_bytes.simps) (simp add: Let_def)
  show ?case
  proof (cases "CHR ''.'' \<in> set rest")
    case True
    then obtain a b where ab: "rest = a @ CHR ''.'' # b" "CHR ''.'' \<notin> set a" by (metis split_list_first)
    then have "b \<noteq> []" "last b \<noteq> CHR ''.''" "?rest = b" "?seg = a" using "1.prems" by (auto split: if_splits)
    then show ?thesis using 1 v True split_on_cut [of "CHR ''.''" rest]
      by (auto split: option.split mark.split)
  next
    case False
    have e: "verdict_bytes c i [] = verdict_from c i []" for c i by (simp add: verdict_bytes.simps)
    show ?thesis using v False split_on_cut [of "CHR ''.''" rest] by (simp add: e split: option.split mark.split)
  qed
qed

section \<open>The blocklist\<close>

lemma foldl_jdel: "key \<in> set keys \<or> jget v key = None \<Longrightarrow> jget (foldl jdel v keys) key = None"
proof (induction keys arbitrary: v)
  case (Cons k keys)
  have "jget (jdel v k) key = None" if "key = k \<or> jget v key = None" using that by (cases v) (auto simp: delete_conv')
  then show ?case using Cons by auto
qed simp

definition key_visible :: "recordShaper \<Rightarrow> string \<Rightarrow> bool" where
  "key_visible s key \<longleftrightarrow> cut_before CHR ''.'' key \<notin> set (shStrip s)"

lemma multi_field_step:
  assumes "multi_field s u (kept, vanished) f = (kept', vanished')"
  shows "fst ` set kept' \<union> fst ` set vanished' \<subseteq> fst ` set kept \<union> fst ` set vanished \<union> {key. key = fst f \<and> key_visible s key}"
proof (cases "key_visible s (fst f)")
  case True
  have upd: "a = key \<or> a \<in> fst ` set al" if "(a, b) \<in> set (AList.update key x al)" for a b key x and al :: "(string \<times> json) list"
    using set_update_subset [of key x al] that by force
  show ?thesis using assms True
    by (auto simp: multi_field_def split: option.splits verdict.splits if_splits dest!: upd intro: rev_image_eqI)
next
  case False
  then show ?thesis using assms by (simp add: multi_field_def multiFieldKey_def key_visible_def)
qed

lemma multi_field_keys:
  assumes "foldl (multi_field s u) (kept, vanished) fs = (kept', vanished')"
    and "\<forall>key \<in> fst ` set kept \<union> fst ` set vanished. key_visible s key"
  shows "\<forall>key \<in> fst ` set kept' \<union> fst ` set vanished'. key_visible s key"
  using assms
proof (induction fs arbitrary: kept vanished)
  case (Cons f fs)
  obtain k v where kv: "multi_field s u (kept, vanished) f = (k, v)" by fastforce
  then have "\<forall>key \<in> fst ` set k \<union> fst ` set v. key_visible s key" using multi_field_step [OF kv] Cons.prems(2) by blast
  then show ?case using Cons.IH Cons.prems(1) kv by simp
qed simp

lemma shapePayload_object: "shapePayload v node = Some (JObj fs) \<Longrightarrow> \<exists>m. v = JObj m"
proof -
  have c: "carveNode v n = JObj fs \<Longrightarrow> \<exists>m. v = JObj m" for n by (cases v) auto
  then show "shapePayload v node = Some (JObj fs) \<Longrightarrow> \<exists>m. v = JObj m"
    by (auto simp: shapePayload_def projectValue.simps [of v] split: option.splits if_splits json.splits)
qed

text \<open>What may leave the server: a record without the withheld fields, an operation that is not on one.\<close>

definition doc_cleared :: "recordShaper \<Rightarrow> json \<Rightarrow> bool" where
  "doc_cleared s d = list_all (\<lambda>key. jget d key = None) (shStrip s)"

definition op_cleared :: "recordShaper \<Rightarrow> EventOp \<Rightarrow> bool" where
  "op_cleared s op \<longleftrightarrow> \<not> stripped s (eoPath op) \<and>
     (case (eoPath op, eoPayload op) of
        ([], Some (JObj fs)) \<Rightarrow> list_all (\<lambda>f. key_visible s (fst f)) fs
      | _ \<Rightarrow> True)"

lemma multiFieldOp_cleared: "list_all (op_cleared s) (multiFieldOp s ty fs)"
proof -
  obtain k v where kv: "foldl (multi_field s (ty = EvUnset)) ([], []) fs = (k, v)" by fastforce
  from multi_field_keys [OF kv] have "\<forall>key \<in> fst ` set k \<union> fst ` set v. key_visible s key" by simp
  then have "list_all (\<lambda>f. key_visible s (fst f)) k" "list_all (\<lambda>f. key_visible s (fst f)) v" by (auto simp: list_all_iff)
  then show ?thesis using kv by (simp add: multiFieldOp_def op_cleared_def stripped_def)
qed

lemma op_cleared_same:
  assumes "\<not> stripped s (eoPath op)" "eoPath op = [] \<Longrightarrow> \<forall>fs. eoPayload op \<noteq> Some (JObj fs)"
  shows "op_cleared s op"
  using assms by (auto simp: op_cleared_def split: list.split option.split json.split)

text \<open>
  A field the server withholds never leaves it, whatever the request asks for: it is in no record, no
  delivered operation is on it or below it, and no delivered multi-field operation names it or a path below it.
\<close>

theorem blocklist_holds: "pred_option (doc_cleared s) (shaper_record s doc) \<and> list_all (op_cleared s) (shaper_op s op)"
proof
  show "pred_option (doc_cleared s) (shaper_record s doc)"
    by (cases doc) (auto simp: shaper_record_def doc_cleared_def list_all_iff foldl_jdel)
  show "list_all (op_cleared s) (shaper_op s op)"
  proof (cases "eoPath op = [] \<and> (\<exists>fs. eoPayload op = Some (JObj fs))")
    case True
    then obtain fs where fs: "eoPath op = []" "eoPayload op = Some (JObj fs)" by blast
    have "op_cleared s op" if "shStrip s = []" using that fs by (simp add: op_cleared_def stripped_def key_visible_def list_all_iff)
    then show ?thesis using fs multiFieldOp_cleared [of s "eoType op" fs] by (simp add: shaper_op_def stripped_def)
  next
    case False
    let ?v = "case shProj s of None \<Rightarrow> ProjOpKeep None | Some p \<Rightarrow> opVerdict p (eoPath op)"
    have form: "shaper_op s op = (if shProj s = None \<and> shStrip s = [] then [op] else if stripped s (eoPath op) then [] else single_op op ?v)"
      using False by (auto simp: shaper_op_def split: list.split option.split json.split)
    have "\<not> stripped s (eoPath op)" if "shStrip s = []" using that by (simp add: stripped_def split: list.split)
    moreover have "list_all (op_cleared s) [op]" if "\<not> stripped s (eoPath op)" using that False by (auto intro: op_cleared_same)
    moreover have "list_all (op_cleared s) (single_op op ?v)" if "\<not> stripped s (eoPath op)"
    proof (cases "eoPayload op")
      case None
      then show ?thesis using that False op_cleared_same [of s op] by (simp add: single_op_def)
    next
      case (Some x)
      have "op_cleared s (op\<lparr>eoType := EvUnset, eoPayload := None\<rparr>)" using that by (intro op_cleared_same) auto
      moreover have "op_cleared s (op\<lparr>eoPayload := Some y\<rparr>)" if "shapePayload x (verdict_node ?v) = Some y" for y
        using False Some shapePayload_object [OF that [THEN trans]] \<open>\<not> stripped s (eoPath op)\<close> by (intro op_cleared_same) auto
      ultimately show ?thesis using Some by (simp add: single_op_def split: option.split)
    qed
    ultimately show ?thesis unfolding form by auto
  qed
qed

section \<open>Examples\<close>

definition demo_row :: "(string \<times> json) list" where
  "demo_row = [(''id'', JAtom ''r1''),
     (''any'', JObj [(''name'', JAtom ''N''), (''tags'', JArr [JObj [(''t'', JAtom ''x'')], JAtom ''y''])]),
     (''_ver'', JObj [(''*'', JAtom ''v0''), (''any'', JObj [(''name'', JAtom ''v2'')])]),
     (''_applySeq'', JAtom ''7'')]"

definition demo_entries :: "(string \<times> mark_value) list" where
  "demo_entries = [(''any'', MvTrue), (''any.tags'', MvFalse)]"

definition parsed :: "(string \<times> mark_value) list \<Rightarrow> projection" where
  "parsed kvs = (case parseProjection False (Some (RawObject kvs)) of
     Inr (Some p) \<Rightarrow> p | _ \<Rightarrow> \<lparr>pjRoot = newNode [], userInclude = False, freeform = False\<rparr>)"

theorem projection_body_witness:
  "projects False demo_entries [''any'', ''name''] \<and> \<not> projects False demo_entries [''any'', ''tags'', ''t'']"
proof -
  have p: "parseProjection False (Some (RawObject demo_entries)) = Inr (Some (parsed demo_entries))" by code_simp
  have key: "''any'' \<noteq> idField" "False \<or> \<not> has_prefix ''_'' ''any''" by code_simp+
  have "atoms (projection_record (parsed demo_entries) (JObj demo_row)) [''any'', ''name''] = [''N'']"
    "atoms (projection_record (parsed demo_entries) (JObj demo_row)) [''any'', ''tags'', ''t''] = []"
    "atoms (JObj demo_row) [''any'', ''tags'', ''t''] = [''x'']" by code_simp+
  then show ?thesis using projection_body [OF p key, of demo_row "[''name'']"] projection_body [OF p key, of demo_row "[''tags'', ''t'']"]
    by (auto split: if_splits)
qed

lemma any_only: "entry_mark [(''any'', MvTrue)] r = (if r = [''any''] then MarkInclude else MarkNone)"
proof -
  have "path_segs 0 ''any'' = Inr [''any'']" by code_simp
  then show ?thesis by (auto simp: entry_mark_def projectionMark_def)
qed

theorem projection_versions_witness:
  "\<exists>ver'. jget (projection_record (parsed [(''any'', MvTrue)]) (JObj demo_row)) verField = Some ver' \<and>
     ver_lookup ver' [''any'', ''name''] = ''v2''"
proof -
  let ?kvs = "[(''any'', MvTrue)]" and ?ver = "JObj [(''*'', JAtom ''v0''), (''any'', JObj [(''name'', JAtom ''v2'')])]"
  have p: "parseProjection False (Some (RawObject ?kvs)) = Inr (Some (parsed ?kvs))" by code_simp
  have c: "includes_user False ?kvs" "\<not> excluded (parsed ?kvs) verField" "map_of demo_row verField = Some ?ver"
    "\<forall>seg \<in> set [''any'', ''name'']. \<not> has_prefix ''_'' seg" "hd [''any'', ''name''] \<noteq> idField"
    "ver_lookup ?ver [''any'', ''name''] = ''v2''" by code_simp+
  have "included_on (entry_mark ?kvs) [''any'', ''name'']" unfolding included_on_def any_only
    by (intro exI [of _ "[''any'']"] exI [of _ "[''name'']"]) auto
  moreover have "clear_of (entry_mark ?kvs) [''any'', ''name'']" by (simp add: clear_of_def any_only)
  ultimately show ?thesis using projection_versions [OF p c(1-3) _ _ c(4,5)] c(6) by auto
qed

theorem projection_operations_witness:
  "reach_of (opVerdict (parsed [(''any'', MvTrue)]) [''any'', ''name'']) = Whole \<and>
   reach_of (opVerdict (parsed [(''any'', MvTrue)]) [''nav'']) = Nothing"
proof -
  let ?kvs = "[(''any'', MvTrue)]"
  have p: "parseProjection False (Some (RawObject ?kvs)) = Inr (Some (parsed ?kvs))" by code_simp
  have inc: "includes_user False ?kvs" "False \<or> \<not> has_prefix ''_'' ''any''" "False \<or> \<not> has_prefix ''_'' ''nav''" by code_simp+
  have "included_on (entry_mark ?kvs) [''any'', ''name'']" unfolding included_on_def any_only
    by (intro exI [of _ "[''any'']"] exI [of _ "[''name'']"]) auto
  moreover have "\<not> included_on (entry_mark ?kvs) [''nav'']" unfolding included_on_def any_only by (auto simp: Cons_eq_append_conv)
  moreover have "entry_mark ?kvs (a @ r) \<noteq> MarkInclude" if "r \<noteq> []" "entry_mark ?kvs a = MarkInclude" for a r
    using that by (auto simp: any_only split: if_splits)
  ultimately show ?thesis using projection_operations [OF p inc(2), of "[''name'']"] projection_operations [OF p inc(3), of "[]"] inc(1)
    by (auto simp: projects_def any_only)
qed

text \<open>
  Where the operations and the versions are not those of the record. An included field with an included part:
  the record shows the part alone, and an operation on the rest of the field is delivered whole. An
  excluded field with an included part: the record shows the part, and its version is gone. An
  included field that begins with an underscore below the root: its version is gone too. A path that ends in
  a dot is read as the path without it.
\<close>

lemma operation_wider_than_record:
  defines "p \<equiv> parsed [(''any'', MvTrue), (''any.tags'', MvTrue)]"
  shows "atoms (projection_record p (JObj demo_row)) [''any'', ''name''] = []"
    and "opVerdict p [''any'', ''name''] = ProjOpKeep None"
  unfolding p_def by code_simp+

lemma version_lost:
  defines "p \<equiv> parsed [(''any'', MvFalse), (''any.name'', MvTrue)]"
  shows "atoms (projection_record p (JObj demo_row)) [''any'', ''name''] = [''N'']"
    and "map_option (\<lambda>ver. ver_lookup ver [''any'', ''name'']) (jget (projection_record p (JObj demo_row)) verField) = Some ''v0''"
    and "map_option (\<lambda>ver. ver_lookup ver [''any'', ''name'']) (jget (JObj demo_row) verField) = Some ''v2''"
  unfolding p_def by code_simp+

lemma version_lost_underscore:
  defines "p \<equiv> parsed [(''any._x'', MvTrue)]"
    and "row \<equiv> [(''any'', JObj [(''_x'', JAtom ''X'')]), (''_ver'', JObj [(''*'', JAtom ''v0''), (''any'', JObj [(''*'', JAtom ''v1''), (''_x'', JAtom ''v2'')])])]"
  shows "atoms (projection_record p (JObj row)) [''any'', ''_x''] = [''X'']"
    and "map_option (\<lambda>ver. ver_lookup ver [''any'', ''_x'']) (jget (projection_record p (JObj row)) verField) = Some ''v1''"
  unfolding p_def row_def by code_simp+

lemma trailing_dot: "path_segs 0 ''any.'' = Inr [''any'']" "path_segs 0 ''any..name'' = Inl EmptySegment"
  by code_simp+

end
