(* ===== verification/SearchText.thy ===== *)
theory SearchText
  imports IndexLinks
begin

text \<open>
  The texts of the search index (src/internal/indexer): the split of a record into chunk documents and their
  ids (chunk.go), the stop words of a query (stopwords.go) and the window a hit shows (snippet.go). A text
  is its sequence of runes, a document id a byte string. The tables of \<open>unicode.ToLower\<close>,
  \<open>IsLetter\<close> and \<open>IsDigit\<close>, and the parser of search clauses of the store, are parameters.
\<close>

section \<open>Runes\<close>

type_synonym runes = "nat list"

definition ascii :: "string \<Rightarrow> runes" where
  "ascii s = map of_char s"

text \<open>\<open>unicode.IsSpace\<close>: the code points with the property White Space.\<close>

definition isSpace :: "nat \<Rightarrow> bool" where
  "isSpace r \<longleftrightarrow> r \<in> {9, 10, 11, 12, 13, 32, 0x85, 0xA0, 0x1680, 0x2028, 0x2029, 0x202F, 0x205F, 0x3000} \<or> (0x2000 \<le> r \<and> r \<le> 0x200A)"

definition trimSpace :: "runes \<Rightarrow> runes" where
  "trimSpace s = rev (dropWhile isSpace (rev (dropWhile isSpace s)))"

text \<open>\<open>strings.Fields\<close>.\<close>

function words :: "runes \<Rightarrow> runes list" where
  "words s =
     (let t = dropWhile isSpace s
      in if t = [] then [] else takeWhile (\<lambda>r. \<not> isSpace r) t # words (dropWhile (\<lambda>r. \<not> isSpace r) t))"
  by pat_completeness auto
termination
proof (relation "measure length")
  fix s t
  assume t: "t = dropWhile isSpace s" "t \<noteq> []"
  then obtain r u where ru: "t = r # u" by (meson neq_Nil_conv)
  then have "\<not> isSpace r" using t hd_dropWhile [of isSpace s] by (metis list.sel(1))
  then have "length (dropWhile (\<lambda>r. \<not> isSpace r) t) < length t" using ru length_dropWhile_le [of _ u] by (simp add: le_imp_less_Suc)
  also have "\<dots> \<le> length s" using t(1) by (simp add: length_dropWhile_le)
  finally show "(dropWhile (\<lambda>r. \<not> isSpace r) t, s) \<in> measure length" by simp
qed simp

declare words.simps [simp del]

fun spaced :: "runes list \<Rightarrow> runes" where
  "spaced [] = []"
| "spaced [w] = w"
| "spaced (w # w' # ws) = w @ 32 # spaced (w' # ws)"

section \<open>Chunks\<close>

definition chunkSep :: string where "chunkSep = [CHR 0x1F]"
definition recordRangeEnd :: string where "recordRangeEnd = [CHR 0x20]"
definition DefaultChunkRunes :: nat where "DefaultChunkRunes = 2000"

definition chunkDocId :: "string \<Rightarrow> nat \<Rightarrow> string" where
  "chunkDocId base n = (if n = 0 then base else base @ chunkSep @ Itoa n)"

definition recordBase :: "string \<Rightarrow> string" where
  "recordBase i = (case index_sub chunkSep i of Some k \<Rightarrow> take k i | None \<Rightarrow> i)"

definition recordUpper :: "string \<Rightarrow> string" where
  "recordUpper base = base @ recordRangeEnd"

definition best_cut :: "runes \<Rightarrow> (nat \<Rightarrow> bool) \<Rightarrow> nat option" where
  "best_cut window ok = map_option (\<lambda>i. i + 1) (List.find ok (rev [length window div 2..<length window]))"

definition breakPoint :: "runes \<Rightarrow> nat" where
  "breakPoint window =
     (case best_cut window (\<lambda>i. window ! i = 10 \<and> i > 0 \<and> window ! (i - 1) = 10) of Some i \<Rightarrow> i | None \<Rightarrow>
     (case best_cut window (\<lambda>i. window ! i = 10) of Some i \<Rightarrow> i | None \<Rightarrow>
     (case best_cut window (\<lambda>i. window ! i \<in> {of_char CHR ''.'', of_char CHR ''!'', of_char CHR ''?''} \<and>
        i + 1 < length window \<and> isSpace (window ! (i + 1))) of Some i \<Rightarrow> i | None \<Rightarrow>
     (case best_cut window (\<lambda>i. isSpace (window ! i)) of Some i \<Rightarrow> i | None \<Rightarrow> length window))))"

lemma best_cut_range: "best_cut window ok = Some i \<Longrightarrow> 0 < i \<and> i \<le> length window \<and> length window div 2 < i"
  by (auto simp: best_cut_def less_Suc_eq_le dest: find_SomeD)

lemma breakPoint_range: "window \<noteq> [] \<Longrightarrow> 0 < breakPoint window \<and> breakPoint window \<le> length window"
  by (auto simp: breakPoint_def dest: best_cut_range split: option.split)

text \<open>The loop of \<open>splitText\<close>, whose bound is at least one.\<close>

definition kept_piece :: "runes \<Rightarrow> runes list" where
  "kept_piece s = (if trimSpace s = [] then [] else [trimSpace s])"

function split_loop :: "nat \<Rightarrow> runes \<Rightarrow> runes list" where
  "split_loop mx rest =
     (if 0 < mx \<and> mx < length rest
      then let cut = breakPoint (take mx rest) in kept_piece (take cut rest) @ split_loop mx (drop cut rest)
      else kept_piece rest)"
  by pat_completeness auto
termination
proof (relation "measure (\<lambda>(mx, rest). length rest)")
  fix mx rest cut
  assume c: "0 < mx \<and> mx < length rest" "cut = breakPoint (take mx rest)"
  then have "0 < cut" using breakPoint_range [of "take mx rest"] by (cases rest) auto
  then show "((mx, drop cut rest), (mx, rest)) \<in> measure (\<lambda>(mx, rest). length rest)" using c by auto
qed simp

declare split_loop.simps [simp del]

definition splitText :: "runes \<Rightarrow> int \<Rightarrow> runes list" where
  "splitText txt maxRunes =
     (let mx = (if maxRunes < 1 then 1 else maxRunes)
      in if int (length txt) \<le> mx then [txt] else split_loop (nat mx) txt)"

record IndexEntry =
  ieScope :: string
  ieObjectId :: string
  ieDataset :: string
  ieRecordId :: string
  ieData :: runes
  ieTitle :: runes
  ieApplySeq :: nat
  ieLinks :: "LinkEntry list"

text \<open>A \<open>[]float32\<close> as the bit patterns of its components.\<close>

type_synonym vector = "nat list"

record DocUpsert =
  duEntry :: IndexEntry
  duChunk :: nat
  duVector :: "vector option"

definition chunk_title :: "runes \<Rightarrow> int \<Rightarrow> runes" where
  "chunk_title title maxRunes =
     (if int (length title) > maxRunes div 2 then take (nat (maxRunes div 2)) title else title)"

definition expandEntry :: "IndexEntry \<Rightarrow> int \<Rightarrow> DocUpsert list" where
  "expandEntry e bound =
     (if ieData e = [] then []
      else
        let maxRunes = (if bound \<le> 0 then int DefaultChunkRunes else bound);
            title = chunk_title (ieTitle e) maxRunes;
            budget = (if title \<noteq> [] \<and> int (length (ieData e)) > maxRunes
                      then max (maxRunes - int (length title) - 1) 1 else maxRunes);
            pieces = splitText (ieData e) budget
        in map (\<lambda>(i, p). \<lparr>duEntry = e\<lparr>ieData := (if i > 0 \<and> title \<noteq> [] \<and> \<not> prefix title p then title @ 10 # p else p)\<rparr>, duChunk = i, duVector = None\<rparr>)
             (List.enumerate 0 pieces))"

section \<open>Stop words\<close>

definition stopWords :: "runes list" where
  "stopWords = map ascii [''a'', ''an'', ''the'', ''and'', ''or'', ''but'', ''if'', ''then'', ''else'',
     ''of'', ''to'', ''in'', ''on'', ''at'', ''for'', ''with'', ''by'', ''from'', ''as'', ''into'', ''about'', ''over'', ''under'',
     ''is'', ''are'', ''was'', ''were'', ''be'', ''been'', ''being'', ''do'', ''does'', ''did'', ''done'', ''have'', ''has'', ''had'',
     ''how'', ''what'', ''when'', ''where'', ''who'', ''whom'', ''why'', ''which'', ''that'', ''this'', ''these'', ''those'',
     ''i'', ''you'', ''we'', ''they'', ''it'', ''he'', ''she'', ''my'', ''me'', ''our'', ''your'',
     ''can'', ''could'', ''would'', ''should'', ''will'', ''shall'', ''may'', ''might'', ''must'', ''so'', ''than'', ''too'', ''very'', ''just'']"

definition normalizeToken :: "(nat \<Rightarrow> nat) \<Rightarrow> runes \<Rightarrow> runes" where
  "normalizeToken lower s = filter (\<lambda>r. (97 \<le> r \<and> r \<le> 122) \<or> (48 \<le> r \<and> r \<le> 57)) (map lower s)"

definition stripStopWords :: "(nat \<Rightarrow> nat) \<Rightarrow> runes \<Rightarrow> runes" where
  "stripStopWords lower q =
     (let kept = filter (\<lambda>f. normalizeToken lower f \<notin> set stopWords) (words q)
      in if kept = [] then q else spaced kept)"

section \<open>Snippets\<close>

text \<open>\<open>clauses\<close> is the raw text of the clauses \<open>query.ParseTextSearch\<close> finds.\<close>

definition trim_stars :: "runes \<Rightarrow> runes" where
  "trim_stars f = rev (dropWhile (\<lambda>r. r = 42) (rev f))"

definition term_words :: "(nat \<Rightarrow> nat) \<Rightarrow> (runes \<Rightarrow> runes list) \<Rightarrow> runes \<Rightarrow> runes list" where
  "term_words lower clauses s =
     map (map lower) (filter (\<lambda>f. f \<noteq> []) (map trim_stars (concat (map words (clauses s)))))"

definition snippetTerms :: "(nat \<Rightarrow> nat) \<Rightarrow> (runes \<Rightarrow> runes list) \<Rightarrow> runes \<Rightarrow> runes list \<Rightarrow> runes list" where
  "snippetTerms lower clauses q require =
     sort_key (\<lambda>t. - int (length t))
       (term_words lower clauses (if 34 \<in> set q then q else stripStopWords lower q) @ concat (map (term_words lower clauses) require))"

definition foldTerms :: "(nat \<Rightarrow> nat) \<Rightarrow> runes list \<Rightarrow> runes list" where
  "foldTerms lower terms = map (map lower) terms"

definition indexRunesAt :: "(nat \<Rightarrow> bool) \<Rightarrow> runes \<Rightarrow> runes \<Rightarrow> bool \<Rightarrow> nat option" where
  "indexRunesAt wordRune hay needle anchored =
     (if needle = [] \<or> length needle > length hay then None
      else List.find (\<lambda>i. \<not> (anchored \<and> i > 0 \<and> wordRune (hay ! (i - 1)) \<and> wordRune (hd needle)) \<and>
             take (length needle) (drop i hay) = needle)
           [0..<length hay - length needle + 1])"

fun first_match :: "('a \<Rightarrow> 'b option) \<Rightarrow> 'a list \<Rightarrow> 'b option" where
  "first_match f [] = None"
| "first_match f (x # xs) = (case f x of None \<Rightarrow> first_match f xs | Some y \<Rightarrow> Some y)"

definition match_at :: "(nat \<Rightarrow> bool) \<Rightarrow> runes \<Rightarrow> runes list \<Rightarrow> nat option" where
  "match_at wordRune hay terms =
     first_match (\<lambda>anchored. first_match (\<lambda>t. indexRunesAt wordRune hay t anchored) terms) [True, False]"

text \<open>The two snapping loops and the two trimming loops.\<close>

function snap_start :: "runes \<Rightarrow> nat \<Rightarrow> nat \<Rightarrow> nat \<Rightarrow> nat \<Rightarrow> nat" where
  "snap_start rs pos slack start s =
     (if s > 0 \<and> s < pos \<and> s - start < slack \<and> \<not> isSpace (rs ! (s - 1)) then snap_start rs pos slack start (s + 1) else s)"
  by pat_completeness auto
termination by (relation "measure (\<lambda>(rs, pos, slack, start, s). pos - s)") auto

declare snap_start.simps [simp del]

function snap_end :: "runes \<Rightarrow> nat option \<Rightarrow> nat \<Rightarrow> nat \<Rightarrow> nat \<Rightarrow> nat \<Rightarrow> nat" where
  "snap_end rs pos slack start fin e =
     (if e < length rs \<and> e > start + 1 \<and> fin - e < slack \<and> \<not> isSpace (rs ! e) \<and> (case pos of None \<Rightarrow> True | Some i \<Rightarrow> e > i + 1)
      then snap_end rs pos slack start fin (e - 1) else e)"
  by pat_completeness auto
termination by (relation "measure (\<lambda>(rs, pos, slack, start, fin, e). e)") auto

declare snap_end.simps [simp del]

definition window_start :: "runes \<Rightarrow> nat option \<Rightarrow> nat \<Rightarrow> nat" where
  "window_start rs pos mx =
     (case pos of
        None \<Rightarrow> 0
      | Some i \<Rightarrow>
          if i = 0 then 0
          else
            let slack = mx div 4;
                start = i - mx div 3;
                start = (if start + mx > length rs then length rs - mx else start);
                s = snap_start rs i slack start start
            in if s = 0 \<or> s - start < slack \<or> isSpace (rs ! (s - 1)) then s else start)"

definition window_end :: "runes \<Rightarrow> nat option \<Rightarrow> nat \<Rightarrow> nat \<Rightarrow> nat" where
  "window_end rs pos mx start =
     (let slack = mx div 4;
          fin = min (start + mx) (length rs);
          e = snap_end rs pos slack start fin fin
      in if e = length rs \<or> fin - e < slack \<or> isSpace (rs ! e) then e else fin)"

definition snippet :: "(nat \<Rightarrow> nat) \<Rightarrow> (nat \<Rightarrow> bool) \<Rightarrow> runes \<Rightarrow> runes list \<Rightarrow> int \<Rightarrow> runes \<times> nat \<times> nat" where
  "snippet lower wordRune txt terms maxRunes =
     (if maxRunes < 0 \<or> int (length txt) \<le> maxRunes then (txt, 0, length txt)
      else
        let mx = nat maxRunes;
            pos = match_at wordRune (map lower txt) terms;
            start = window_start txt pos mx;
            fin = window_end txt pos mx start;
            win = take (fin - start) (drop start txt);
            lead = length (takeWhile isSpace win)
        in (trimSpace win, start + lead, length txt))"

section \<open>Nothing is lost in a split\<close>

definition nonspace :: "runes \<Rightarrow> runes" where
  "nonspace s = filter (\<lambda>r. \<not> isSpace r) s"

lemma nonspace_append [simp]: "nonspace (a @ b) = nonspace a @ nonspace b"
  by (simp add: nonspace_def)

lemma nonspace_dropWhile: "nonspace (dropWhile isSpace s) = nonspace s"
  by (induction s) (simp_all add: nonspace_def)

lemma nonspace_rev: "nonspace (rev s) = rev (nonspace s)"
  by (simp add: nonspace_def rev_filter)

lemma nonspace_trimSpace: "nonspace (trimSpace s) = nonspace s"
  by (simp add: trimSpace_def nonspace_rev nonspace_dropWhile)

lemma length_trimSpace: "length (trimSpace s) \<le> length s"
  unfolding trimSpace_def by (metis length_dropWhile_le length_rev le_trans)

lemma kept_piece: "list_all (\<lambda>p. length p \<le> length s \<and> p \<noteq> []) (kept_piece s)" "nonspace (concat (kept_piece s)) = nonspace s"
proof -
  show "list_all (\<lambda>p. length p \<le> length s \<and> p \<noteq> []) (kept_piece s)" by (simp add: kept_piece_def length_trimSpace)
  have "nonspace s = []" if "trimSpace s = []" using nonspace_trimSpace [of s] that by (simp add: nonspace_def)
  then show "nonspace (concat (kept_piece s)) = nonspace s" by (auto simp: kept_piece_def nonspace_trimSpace nonspace_def [of "[]"])
qed

lemma split_loop_pieces:
  "0 < mx \<Longrightarrow> list_all (\<lambda>p. length p \<le> mx \<and> p \<noteq> []) (split_loop mx rest) \<and> nonspace (concat (split_loop mx rest)) = nonspace rest"
proof (induction mx rest rule: split_loop.induct)
  case (1 mx rest)
  show ?case
  proof (cases "mx < length rest")
    case True
    let ?cut = "breakPoint (take mx rest)"
    have cut: "?cut \<le> mx" using breakPoint_range [of "take mx rest"] True "1.prems" by (cases rest) auto
    have "list_all (\<lambda>p. length p \<le> mx \<and> p \<noteq> []) (kept_piece (take ?cut rest))"
      using kept_piece(1) [of "take ?cut rest"] cut by (auto simp: list_all_iff)
    moreover have "nonspace rest = nonspace (take ?cut rest) @ nonspace (drop ?cut rest)"
      by (metis append_take_drop_id nonspace_append)
    ultimately show ?thesis using 1 True kept_piece(2) [of "take ?cut rest"]
      by (subst (1 2) split_loop.simps) (simp add: Let_def)
  next
    case False
    then show ?thesis using "1.prems" kept_piece [of rest] by (subst (1 2) split_loop.simps) (auto simp: list_all_iff)
  qed
qed

lemma splitText_pieces:
  "list_all (\<lambda>p. int (length p) \<le> max 1 maxRunes) (splitText txt maxRunes) \<and> nonspace (concat (splitText txt maxRunes)) = nonspace txt"
  using split_loop_pieces [of "nat (if maxRunes < 1 then 1 else maxRunes)" "txt"]
  by (auto simp: splitText_def Let_def list_all_iff le_nat_iff)

text \<open>
  A chunk document of an entry: the entry with a piece of its text, under its number, without a vector; a later chunk may
  repeat the title on a line of its own in front of the piece.
\<close>

definition chunk_of :: "IndexEntry \<Rightarrow> runes \<Rightarrow> nat \<Rightarrow> runes \<Rightarrow> DocUpsert \<Rightarrow> bool" where
  "chunk_of e title i piece d \<longleftrightarrow>
     duChunk d = i \<and> duVector d = None \<and> (duEntry d)\<lparr>ieData := ieData e\<rparr> = e \<and>
     (ieData (duEntry d) = piece \<or> 0 < i \<and> title \<noteq> [] \<and> ieData (duEntry d) = title @ 10 # piece)"

text \<open>
  C31. The chunks of a record cover its text and fit their bound. Each chunk document of an entry is the entry with one piece
  of its text, numbered from 0, a later one with the title, cut to half the bound, on a line in front of its piece or
  not; the runes of the pieces, white space aside, are those of the entry's text in order, with nothing lost or
  repeated; and every chunk document, the title included, has at most as many runes as the bound (the default when none is
  set), whatever the length of the title. A bound of two, where one rune of title leaves no room, is the exception.
\<close>

theorem chunks_cover_and_fit:
  assumes "bound \<noteq> 2"
  defines "mx \<equiv> if bound \<le> 0 then int DefaultChunkRunes else bound"
  shows "\<exists>pieces. nonspace (concat pieces) = nonspace (ieData e) \<and>
    length (expandEntry e bound) = length pieces \<and>
    (\<forall>i < length pieces. chunk_of e (chunk_title (ieTitle e) mx) i (pieces ! i) (expandEntry e bound ! i) \<and>
       int (length (ieData (duEntry (expandEntry e bound ! i)))) \<le> mx)"
proof -
  have mx: "0 < mx" "mx \<noteq> 2" using assms(1) by (auto simp: mx_def DefaultChunkRunes_def)
  define title where "title = chunk_title (ieTitle e) mx"
  have t: "int (length title) \<le> mx div 2" using mx by (auto simp: title_def chunk_title_def)
  define budget where "budget = (if title \<noteq> [] \<and> int (length (ieData e)) > mx then max (mx - int (length title) - 1) 1 else mx)"
  have form: "expandEntry e bound = (if ieData e = [] then [] else
      map (\<lambda>(i, p). \<lparr>duEntry = e\<lparr>ieData := (if i > 0 \<and> title \<noteq> [] \<and> \<not> prefix title p then title @ 10 # p else p)\<rparr>, duChunk = i, duVector = None\<rparr>)
        (List.enumerate 0 (splitText (ieData e) budget)))"
    unfolding expandEntry_def Let_def mx_def [symmetric] title_def [symmetric] budget_def [symmetric] ..
  have fit: "int (length p) \<le> mx \<and> (0 < i \<longrightarrow> title \<noteq> [] \<longrightarrow> 1 + (int (length title) + int (length p)) \<le> mx)"
    if "(i, p) \<in> set (List.enumerate 0 (splitText (ieData e) budget))" for i p
  proof -
    have p: "p \<in> set (splitText (ieData e) budget)" "i < length (splitText (ieData e) budget)"
      using that by (auto simp: in_set_enumerate_eq)
    then have le: "int (length p) \<le> max 1 budget" using splitText_pieces [of budget "ieData e"] by (auto simp: list_all_iff)
    show ?thesis
    proof (cases "title \<noteq> [] \<and> int (length (ieData e)) > mx")
      case True
      then have "1 \<le> length title" by (cases title) auto
      then have "3 \<le> mx" using t mx by linarith
      then have "int (length title) + 1 + budget \<le> mx" "1 \<le> budget" using True t by (auto simp: budget_def)
      then show ?thesis using le by auto
    next
      case False
      then have b: "budget = mx" by (simp only: budget_def if_False)
      have "i = 0" if "title \<noteq> []"
        using False that p(2) mx b by (auto simp: splitText_def Let_def split: if_splits)
      then show ?thesis using le b mx by auto
    qed
  qed
  define pieces where "pieces = (if ieData e = [] then [] else splitText (ieData e) budget)"
  have "nonspace (concat pieces) = nonspace (ieData e)"
    using splitText_pieces [of budget "ieData e"] by (simp add: pieces_def)
  moreover have "length (expandEntry e bound) = length pieces"
    unfolding form pieces_def by simp
  moreover have "chunk_of e title i (pieces ! i) (expandEntry e bound ! i) \<and>
      int (length (ieData (duEntry (expandEntry e bound ! i)))) \<le> mx" if i: "i < length pieces" for i
  proof -
    from i have ne: "ieData e \<noteq> []" "pieces = splitText (ieData e) budget" by (auto simp: pieces_def split: if_splits)
    then have n: "List.enumerate 0 (splitText (ieData e) budget) ! i = (i, pieces ! i)" using i by (simp add: nth_enumerate_eq)
    then have "(i, pieces ! i) \<in> set (List.enumerate 0 (splitText (ieData e) budget))"
      using i ne by (metis length_enumerate nth_mem)
    moreover have "expandEntry e bound ! i = \<lparr>duEntry = e\<lparr>ieData := (if i > 0 \<and> title \<noteq> [] \<and> \<not> prefix title (pieces ! i)
        then title @ 10 # pieces ! i else pieces ! i)\<rparr>, duChunk = i, duVector = None\<rparr>"
      unfolding form using i ne n by simp
    ultimately show ?thesis using fit [of i "pieces ! i"] by (auto simp: chunk_of_def)
  qed
  ultimately show ?thesis unfolding title_def by blast
qed

section \<open>The documents of a record\<close>

lemma append_less_same: "(a :: string) @ x < a @ y \<longleftrightarrow> x < y"
  by (induction a) simp_all

lemma prefix_between: "(s :: string) \<le> t \<Longrightarrow> t < s @ u \<Longrightarrow> \<exists>r. t = s @ r \<and> r < u"
proof (induction s arbitrary: t)
  case (Cons c s)
  then obtain d t' where t: "t = d # t'" by (cases t) simp_all
  have "d = c" using Cons.prems t by (auto simp: less_char_def less_eq_char_def)
  then show ?case using Cons t by auto
qed simp

lemma Itoa_digits: "c \<in> set (Itoa n) \<Longrightarrow> CHR ''0'' \<le> c \<and> c \<le> CHR ''9''"
proof (induction n rule: Itoa.induct)
  case (1 n)
  have d: "CHR ''0'' \<le> char_of (48 + k) \<and> char_of (48 + k) \<le> CHR ''9''" if "k < 10" for k :: nat
    using that by (simp add: less_eq_char_def)
  show ?case
  proof (cases "n < 10")
    case True
    then show ?thesis using 1(2) d [of n] by (subst (asm) Itoa.simps) auto
  next
    case False
    have "c \<in> set (Itoa (n div 10)) \<or> c = char_of (48 + n mod 10)" using 1(2) False by (subst (asm) Itoa.simps) auto
    then show ?thesis using 1(1) [OF False] d [of "n mod 10"] by auto
  qed
qed

definition printable :: "string \<Rightarrow> bool" where
  "printable s = list_all (\<lambda>c. CHR 0x20 \<le> c) s"

lemma printable_sep: "printable s \<Longrightarrow> CHR 0x1F \<notin> set s"
  by (auto simp: printable_def list_all_iff less_eq_char_def)

lemma recordBase_chunkDocId:
  assumes "printable base"
  shows "recordBase (chunkDocId base n) = base"
proof -
  note sep = printable_sep [OF assms]
  have none: "index_sub chunkSep base = None"
    using sep unfolding chunkSep_def by (induction base) (auto simp: has_prefix_iff)
  show ?thesis
  proof (cases "n = 0")
    case True
    then show ?thesis using none by (simp add: recordBase_def chunkDocId_def)
  next
    case False
    have "index_sub [c] (a @ c # b) = Some (length a)" if "c \<notin> set a" for a b :: string and c
      using that by (induction a) (auto simp: has_prefix_iff)
    then show ?thesis using False sep by (simp add: recordBase_def chunkDocId_def chunkSep_def)
  qed
qed

text \<open>
  The documents of a record are one key range. For record ids without control bytes, a document id lies between
  the record's id and its upper bound exactly when it is a chunk of that record, so a range removal takes every
  chunk of the record and none of another, even one whose id extends it; and the record is read back from the id.
\<close>

theorem record_documents:
  assumes "printable base" "printable base'"
  shows "(base \<le> chunkDocId base' n \<and> chunkDocId base' n < recordUpper base \<longleftrightarrow> base' = base) \<and>
    recordBase (chunkDocId base n) = base"
proof -
  have "base' = base" if range: "base \<le> chunkDocId base' n" "chunkDocId base' n < recordUpper base"
  proof -
    obtain r where r: "chunkDocId base' n = base @ r" "r < [CHR 0x20]"
      using prefix_between range unfolding recordUpper_def recordRangeEnd_def by blast
    show ?thesis
    proof (cases r)
      case Nil
      then show ?thesis using r(1) printable_sep [OF assms(1)] by (auto simp: chunkDocId_def chunkSep_def split: if_splits)
    next
      case (Cons c u)
      then have c: "c < CHR 0x20" using r(2) by (auto simp: less_char_def)
      have "n \<noteq> 0"
      proof
        assume "n = 0"
        then have "c \<in> set base'" using r(1) Cons by (simp add: chunkDocId_def)
        then show False using c assms(2) by (auto simp: printable_def list_all_iff)
      qed
      then have e: "base' @ CHR 0x1F # Itoa n = base @ c # u" using r(1) Cons by (simp add: chunkDocId_def chunkSep_def)
      have low: "\<not> CHR 0x20 \<le> c" using c by simp
      have dig: "CHR 0x20 \<le> x" if "x \<in> set (Itoa n)" for x using Itoa_digits [OF that] by (auto simp: less_eq_char_def)
      from e consider us where "base' = base @ us" "us @ CHR 0x1F # Itoa n = c # u"
        | us where "base' @ us = base" "CHR 0x1F # Itoa n = us @ c # u" unfolding append_eq_append_conv2 by blast
      then show ?thesis
      proof cases
        case 1
        then show ?thesis using assms(2) low by (cases us) (auto simp: printable_def)
      next
        case 2
        then show ?thesis using assms(1) low dig by (cases us) (auto simp: printable_def less_eq_char_def)
      qed
    qed
  qed
  moreover have "base \<le> chunkDocId base n \<and> chunkDocId base n < recordUpper base"
  proof -
    have le: "a \<le> a @ x" for a x :: string by (induction a) simp_all
    have lt: "base @ x < base @ [CHR 0x20]" if "x = [] \<or> hd x < CHR 0x20" for x
      using that unfolding append_less_same by (cases x) auto
    show ?thesis using le [of base] lt [of "[]"] lt [of "CHR 0x1F # Itoa n"]
      by (auto simp: chunkDocId_def recordUpper_def recordRangeEnd_def chunkSep_def less_char_def)
  qed
  ultimately show ?thesis using recordBase_chunkDocId [OF assms(1)] by blast
qed

theorem record_documents_witness:
  "\<not> (''o:d:r'' \<le> chunkDocId ''o:d:r.2'' 3 \<and> chunkDocId ''o:d:r.2'' 3 < recordUpper ''o:d:r'') \<and>
   recordBase (chunkDocId ''o:d:r'' 12) = ''o:d:r''"
proof -
  have "printable ''o:d:r''" "printable ''o:d:r.2''" by code_simp+
  then show ?thesis using record_documents [of "''o:d:r''" "''o:d:r.2''" 3] record_documents [of "''o:d:r''" "''o:d:r.2''" 12] by simp
qed

definition titled_entry :: IndexEntry where
  "titled_entry = \<lparr>ieScope = ''s'', ieObjectId = ''o'', ieDataset = ''d'', ieRecordId = ''r'',
     ieData = ascii ''one two three four'', ieTitle = ascii ''a title'', ieApplySeq = 1, ieLinks = []\<rparr>"

theorem chunks_cover_and_fit_witness:
  "\<exists>pieces. nonspace (concat pieces) = ascii ''onetwothreefour'' \<and> length pieces = 4 \<and>
     chunk_of titled_entry (ascii ''a titl'') 3 (pieces ! 3) (expandEntry titled_entry 12 ! 3) \<and>
     int (length (ieData (duEntry (expandEntry titled_entry 12 ! 3)))) \<le> 12"
proof -
  have n: "nonspace (ieData titled_entry) = ascii ''onetwothreefour''" "chunk_title (ascii ''a title'') 12 = ascii ''a titl''"
    by (simp_all add: titled_entry_def ascii_def nonspace_def isSpace_def chunk_title_def)
  have "splitText (ascii ''one two three four'') 5 = map ascii [''one'', ''two'', ''three'', ''four'']"
    by (simp add: splitText_def Let_def split_loop.simps [of 5] breakPoint_def best_cut_def ascii_def isSpace_def upt_rec
        kept_piece_def trimSpace_def)
  then have len: "length (expandEntry titled_entry 12) = 4"
    using n(2) by (simp add: expandEntry_def titled_entry_def Let_def) (simp add: ascii_def)
  obtain pieces where p: "nonspace (concat pieces) = nonspace (ieData titled_entry)" "length (expandEntry titled_entry 12) = length pieces"
    "\<forall>i < length pieces. chunk_of titled_entry (chunk_title (ieTitle titled_entry) 12) i (pieces ! i) (expandEntry titled_entry 12 ! i) \<and>
       int (length (ieData (duEntry (expandEntry titled_entry 12 ! i)))) \<le> 12"
    using chunks_cover_and_fit [of 12 titled_entry] by auto
  moreover have "ieTitle titled_entry = ascii ''a title''" by (simp add: titled_entry_def)
  ultimately show ?thesis using n len by (intro exI [of _ pieces]) simp
qed

section \<open>The window of a hit\<close>

lemma snap_start_range:
  "s \<le> pos \<Longrightarrow> s \<le> snap_start rs pos slack start s \<and> snap_start rs pos slack start s \<le> pos"
proof (induction rs pos slack start s rule: snap_start.induct)
  case (1 rs pos slack start s)
  then show ?case by (subst (1 2) snap_start.simps) auto
qed

lemma snap_end_range:
  "snap_end rs pos slack start fin e \<le> e \<and> (pos = Some i \<longrightarrow> i < e \<longrightarrow> i < snap_end rs pos slack start fin e)"
proof (induction rs pos slack start fin e rule: snap_end.induct)
  case (1 rs pos slack start fin e)
  then show ?case by (subst (1 2) snap_end.simps) (auto split: option.splits)
qed

lemma window_start_range:
  assumes "mx < length rs"
  shows "window_start rs pos mx + mx \<le> length rs \<or> (\<exists>i. pos = Some i \<and> window_start rs pos mx \<le> i)"
    and "pos = Some i \<Longrightarrow> i < length rs \<Longrightarrow> 0 < mx \<Longrightarrow> window_start rs pos mx \<le> i \<and> i < window_start rs pos mx + mx"
proof -
  let ?st = "\<lambda>i. if i - mx div 3 + mx > length rs then length rs - mx else i - mx div 3"
  have le: "?st i \<le> i" if "i > 0" for i using assms by auto
  have form: "window_start rs (Some i) mx = snap_start rs i (mx div 4) (?st i) (?st i) \<or> window_start rs (Some i) mx = ?st i" if "i > 0" for i
    using that by (simp add: window_start_def Let_def)
  have rng: "?st i \<le> window_start rs (Some i) mx \<and> window_start rs (Some i) mx \<le> i" if "i > 0" for i
  proof (rule disjE [OF form [OF that]])
    assume e: "window_start rs (Some i) mx = snap_start rs i (mx div 4) (?st i) (?st i)"
    show ?thesis unfolding e by (rule snap_start_range [OF le [OF that]])
  next
    assume e: "window_start rs (Some i) mx = ?st i"
    show ?thesis unfolding e using le [OF that] by simp
  qed
  show "window_start rs pos mx + mx \<le> length rs \<or> (\<exists>i. pos = Some i \<and> window_start rs pos mx \<le> i)"
    using rng assms by (cases pos) (auto simp: window_start_def)
  assume p: "pos = Some i" "i < length rs" "0 < mx"
  show "window_start rs pos mx \<le> i \<and> i < window_start rs pos mx + mx"
  proof (cases "i = 0")
    case True
    then show ?thesis using p by (simp add: window_start_def)
  next
    case False
    then have "i < ?st i + mx" using p by auto
    then show ?thesis using rng [of i] False p(1) by auto
  qed
qed

lemma window_end_range:
  "window_end rs pos mx start \<le> min (start + mx) (length rs)"
  "pos = Some i \<Longrightarrow> i < min (start + mx) (length rs) \<Longrightarrow> i < window_end rs pos mx start"
  using snap_end_range [of rs pos "mx div 4" start "min (start + mx) (length rs)" "min (start + mx) (length rs)" i]
  by (auto simp: window_end_def Let_def)

lemma trimSpace_split: "\<exists>b. s = takeWhile isSpace s @ trimSpace s @ b \<and> list_all isSpace b"
proof -
  let ?t = "dropWhile isSpace s"
  have "rev ?t = takeWhile isSpace (rev ?t) @ dropWhile isSpace (rev ?t)" by simp
  then have "?t = trimSpace s @ rev (takeWhile isSpace (rev ?t))" unfolding trimSpace_def by (metis rev_append rev_rev_ident)
  moreover have "list_all isSpace (rev (takeWhile isSpace (rev ?t)))" by (auto simp: list_all_iff dest: set_takeWhileD)
  ultimately show ?thesis by (metis takeWhile_dropWhile_id)
qed

lemma trim_keeps:
  assumes "k < length s" "\<not> isSpace (s ! k)"
  shows "length (takeWhile isSpace s) \<le> k \<and> k < length (takeWhile isSpace s) + length (trimSpace s)"
proof -
  let ?lead = "takeWhile isSpace s"
  obtain b where b: "s = ?lead @ trimSpace s @ b" "list_all isSpace b" using trimSpace_split by blast
  have "\<not> k < length ?lead" using assms(2) takeWhile_nth [of k isSpace s] set_takeWhileD [of "s ! k" isSpace s] nth_mem [of k ?lead] by metis
  moreover have "k < length ?lead + length (trimSpace s)"
  proof (rule ccontr)
    assume n: "\<not> k < length ?lead + length (trimSpace s)"
    define j where "j = k - length ?lead - length (trimSpace s)"
    have "(?lead @ trimSpace s @ b) ! k = b ! j" using n
      by (simp only: nth_append j_def) auto
    then have "s ! k = b ! j" using b(1) by argo
    moreover have "length s = length ?lead + length (trimSpace s) + length b" by (subst b(1)) simp
    then have "j < length b" using assms(1) n by (simp add: j_def)
    ultimately show False using assms(2) b(2) by (auto simp: list_all_length)
  qed
  ultimately show ?thesis by simp
qed

lemma first_match_Some: "first_match f xs = Some y \<Longrightarrow> \<exists>x \<in> set xs. f x = Some y"
  by (induction xs) (auto split: option.splits)

lemma match_at_bound:
  assumes "match_at wordRune hay terms = Some i"
  shows "i < length hay"
proof -
  from assms obtain t anchored where "indexRunesAt wordRune hay t anchored = Some i"
    unfolding match_at_def by (blast dest: first_match_Some)
  then show ?thesis by (auto simp: indexRunesAt_def neq_Nil_conv split: if_splits dest!: find_SomeD)
qed

text \<open>
  A hit's snippet is a window of its text: the answer is the part of the text at the reported offset, with
  the text's length beside it, of at most the runes asked for; and when a term was found, at a rune that is not white
  space, the window contains the place where it was found.
\<close>

theorem snippet_window:
  assumes "snippet lower wordRune data terms maxRunes = (w, off, len)"
  shows "len = length data \<and> w = take (length w) (drop off data) \<and> off + length w \<le> length data \<and>
    (0 \<le> maxRunes \<longrightarrow> int (length w) \<le> maxRunes) \<and>
    (\<forall>i. 0 < maxRunes \<longrightarrow> match_at wordRune (map lower data) terms = Some i \<longrightarrow> \<not> isSpace (data ! i) \<longrightarrow>
       off \<le> i \<and> i < off + length w)"
proof (cases "maxRunes < 0 \<or> int (length data) \<le> maxRunes")
  case True
  then show ?thesis using assms by (auto simp: snippet_def dest: match_at_bound)
next
  case False
  define mx where "mx = nat maxRunes"
  have mx: "mx < length data" "int mx = maxRunes" using False by (auto simp: mx_def)
  let ?pos = "match_at wordRune (map lower data) terms"
  define start where "start = window_start data ?pos mx"
  define fin where "fin = window_end data ?pos mx start"
  define win where "win = take (fin - start) (drop start data)"
  let ?lead = "length (takeWhile isSpace win)"
  have r: "w = trimSpace win" "off = start + ?lead" "len = length data"
    using assms False by (auto simp: snippet_def Let_def mx_def start_def fin_def win_def)
  have fin: "fin \<le> start + mx" "fin \<le> length data" using window_end_range(1) [of data ?pos mx start] by (auto simp: fin_def)
  obtain b where b: "win = takeWhile isSpace win @ w @ b" using trimSpace_split r(1) by blast
  have lw: "length win \<le> mx" "length win = min (fin - start) (length data - start)" using fin by (auto simp: win_def)
  have lb: "length win = ?lead + length w + length b" by (subst b) simp
  have "w = take (length w) (drop ?lead win)" using b by (metis append_eq_conv_conj)
  also have "\<dots> = take (length w) (drop off data)" using lb unfolding win_def r(2)
    by (simp add: drop_take add.commute)
  finally have w: "w = take (length w) (drop off data)" .
  have inside: "off \<le> i \<and> i < off + length w" if "0 < maxRunes" "?pos = Some i" "\<not> isSpace (data ! i)" for i
  proof -
    have il: "i < length data" using match_at_bound [OF that(2)] by simp
    have s: "start \<le> i \<and> i < start + mx" using window_start_range(2) [OF mx(1) that(2) il] that(1) mx(2) by (simp add: start_def)
    then have "i < fin" using window_end_range(2) [OF that(2), of start mx data] il by (simp add: fin_def)
    then have "i - start < length win" "win ! (i - start) = data ! i" using s il by (auto simp: win_def)
    from trim_keeps [of "i - start" win] this that(3) have "?lead \<le> i - start" "i - start < ?lead + length w" using r(1) by auto
    then show ?thesis using s r(2) by auto
  qed
  have "start \<le> length data" using window_start_range(1) [OF mx(1), of ?pos] match_at_bound [of wordRune "map lower data" terms]
    by (auto simp: start_def dest!: less_imp_le)
  then have "off + length w \<le> length data" using lb lw(2) fin(2) r(2) by auto
  then show ?thesis using r(3) w inside lb lw(1) mx(2) by auto
qed

theorem snippet_window_witness:
  "match_at (\<lambda>_. True) [97, 97, 32, 110, 101, 32, 98, 98] [[110, 101]] = Some 3 \<and>
   (\<exists>w off len. snippet id (\<lambda>_. True) [97, 97, 32, 110, 101, 32, 98, 98] [[110, 101]] 4 = (w, off, len) \<and>
      int (length w) \<le> 4 \<and> off \<le> 3 \<and> 3 < off + length w)"
proof -
  define data :: runes where "data = [97, 97, 32, 110, 101, 32, 98, 98]"
  have m: "match_at (\<lambda>_. True) (map id data) [[110, 101]] = Some 3" "\<not> isSpace (data ! 3)"
    by (simp_all add: data_def match_at_def indexRunesAt_def isSpace_def upt_rec)
  obtain w off len where s: "snippet id (\<lambda>_. True) data [[110, 101]] 4 = (w, off, len)" by (metis prod.exhaust)
  note sw = snippet_window [OF s]
  from sw have "(0 :: int) \<le> 4 \<longrightarrow> int (length w) \<le> 4" by (elim conjE)
  then have "int (length w) \<le> 4" by simp
  moreover from sw have "\<forall>i. 0 < (4 :: int) \<longrightarrow> match_at (\<lambda>_. True) (map id data) [[110, 101]] = Some i \<longrightarrow>
      \<not> isSpace (data ! i) \<longrightarrow> off \<le> i \<and> i < off + length w" by (elim conjE)
  then have "off \<le> 3 \<and> 3 < off + length w" using m zero_less_numeral by blast
  ultimately show ?thesis using s m(1) unfolding list.map_id data_def by blast
qed

end
