(* ===== verification/SearchRank.thy ===== *)
theory SearchRank
  imports SearchText "HOL-Library.Multiset"
begin

text \<open>
  The ranking of search results (src/internal/indexer/rrf.go and the \<open>Hit\<close> of store.go): the fusion of the
  two legs by reciprocal rank, the records the chunk hits are grouped into and the order of both. A score is a value of
  a linear order (a \<open>float64\<close> that is not NaN), its arithmetic the parameter \<open>FloatOps\<close>; the order in which
  Go walks a map is a parameter too, an arbitrary rearrangement.
\<close>

section \<open>Hits\<close>

record 's Hit =
  hScope :: string
  hObjectId :: string
  hDataset :: string
  hRecordId :: string
  hChunk :: nat
  hData :: runes
  hScore :: 's
  hMatch :: string

definition docId :: "string \<Rightarrow> string \<Rightarrow> string \<Rightarrow> string" where
  "docId objectId dataset recordId = objectId @ '':'' @ dataset @ '':'' @ recordId"

definition hitDocId :: "'s Hit \<Rightarrow> string" where
  "hitDocId h = chunkDocId (docId (hObjectId h) (hDataset h) (hRecordId h)) (hChunk h)"

definition groupKey :: "'s Hit \<Rightarrow> string" where
  "groupKey h = docId (hObjectId h) (hDataset h) (hRecordId h)"

section \<open>Comparing and sorting\<close>

text \<open>\<open>cmp.Compare\<close>, \<open>cmp.Or\<close> of two results and \<open>slices.SortFunc\<close>.\<close>

definition cmpCompare :: "'a::linorder \<Rightarrow> 'a \<Rightarrow> int" where
  "cmpCompare a b = (if a < b then -1 else if b < a then 1 else 0)"

definition cmpOr :: "int \<Rightarrow> int \<Rightarrow> int" where
  "cmpOr a b = (if a \<noteq> 0 then a else b)"

fun insertBy :: "('a \<Rightarrow> 'a \<Rightarrow> int) \<Rightarrow> 'a \<Rightarrow> 'a list \<Rightarrow> 'a list" where
  "insertBy cmp x [] = [x]"
| "insertBy cmp x (y # ys) = (if cmp x y \<le> 0 then x # y # ys else y # insertBy cmp x ys)"

definition SortFunc :: "('a \<Rightarrow> 'a \<Rightarrow> int) \<Rightarrow> 'a list \<Rightarrow> 'a list" where
  "SortFunc cmp xs = foldr (insertBy cmp) xs []"

definition hitCmp :: "'s::linorder Hit \<Rightarrow> 's Hit \<Rightarrow> int" where
  "hitCmp a b = cmpOr (cmpCompare (hScore b) (hScore a)) (cmpCompare (hitDocId a) (hitDocId b))"

definition hitLess :: "'s::linorder Hit \<Rightarrow> 's Hit \<Rightarrow> bool" where
  "hitLess a b \<longleftrightarrow> hitCmp a b < 0"

section \<open>A Go map in the order its keys were added\<close>

fun upsert :: "('v option \<Rightarrow> 'v) \<Rightarrow> 'k \<Rightarrow> ('k \<times> 'v) list \<Rightarrow> ('k \<times> 'v) list" where
  "upsert f k [] = [(k, f None)]"
| "upsert f k ((k', v) # m) = (if k' = k then (k', f (Some v)) # m else (k', v) # upsert f k m)"

section \<open>Fusion\<close>

definition rrfK :: nat where "rrfK = 60"

record 's FloatOps =
  fNat :: "nat \<Rightarrow> 's"
  fAdd :: "'s \<Rightarrow> 's \<Rightarrow> 's"
  fSub :: "'s \<Rightarrow> 's \<Rightarrow> 's"
  fMul :: "'s \<Rightarrow> 's \<Rightarrow> 's"
  fDiv :: "'s \<Rightarrow> 's \<Rightarrow> 's"

definition legConfidence :: "'s::linorder FloatOps \<Rightarrow> 's Hit list \<Rightarrow> 's" where
  "legConfidence F hits =
     (if length hits < 2 then fNat F 1
      else let best = hScore (hd hits) in
        if best \<le> fNat F 0 then fNat F 0
        else let rest = foldl (\<lambda>r h. fAdd F r (hScore h)) (fNat F 0) (tl hits);
                 mean = fDiv F rest (fNat F (length hits - 1));
                 c = fSub F (fNat F 1) (fDiv F mean best);
                 c = (if c < fNat F 0 then fNat F 0 else c)
             in if fNat F 1 < c then fNat F 1 else c)"

definition legWeight :: "'s::linorder FloatOps \<Rightarrow> 's list \<Rightarrow> nat \<Rightarrow> 's" where
  "legWeight F weights li = (if li < length weights \<and> fNat F 0 < weights ! li then weights ! li else fNat F 1)"

text \<open>
  \<open>a, ok := byKey[key]; if !ok {a = &acc{hit: h}}; a.score += c\<close>.
\<close>

definition acc_step :: "'s FloatOps \<Rightarrow> 's \<Rightarrow> 's Hit \<Rightarrow> ('s Hit \<times> 's) option \<Rightarrow> 's Hit \<times> 's" where
  "acc_step F c h a = (case a of None \<Rightarrow> (h, fAdd F (fNat F 0) c) | Some (g, s) \<Rightarrow> (g, fAdd F s c))"

definition fuse_list :: "'s FloatOps \<Rightarrow> 's \<Rightarrow> 's Hit list \<Rightarrow> (string \<times> 's Hit \<times> 's) list \<Rightarrow> (string \<times> 's Hit \<times> 's) list" where
  "fuse_list F w hits =
     fold (\<lambda>(rank, h). upsert (acc_step F (fDiv F w (fNat F (rrfK + rank + 1))) h) (hitDocId h)) (enumerate 0 hits)"

definition fuse_lists :: "'s::linorder FloatOps \<Rightarrow> 's Hit list list \<Rightarrow> 's list \<Rightarrow> (string \<times> 's Hit \<times> 's) list" where
  "fuse_lists F legs weights = fold (\<lambda>(li, hits). fuse_list F (legWeight F weights li) hits) (enumerate 0 legs) []"

definition fuseRRF :: "((string \<times> 's Hit \<times> 's) list \<Rightarrow> (string \<times> 's Hit \<times> 's) list) \<Rightarrow> 's::linorder FloatOps \<Rightarrow>
    's Hit list list \<Rightarrow> 's list \<Rightarrow> nat \<Rightarrow> 's Hit list" where
  "fuseRRF visit F legs weights limit =
     (let out = SortFunc hitCmp (map (\<lambda>(k, h, s). h\<lparr>hScore := s\<rparr>) (visit (fuse_lists F legs weights)))
      in if limit > 0 \<and> length out > limit then take limit out else out)"

section \<open>Records\<close>

record 's Group =
  gHit :: "'s Hit"
  gPassages :: "'s Hit list"

definition countGroups :: "'s Hit list \<Rightarrow> nat" where
  "countGroups hits = card (groupKey ` set hits)"

definition group_step :: "'s::linorder Hit \<Rightarrow> 's Group option \<Rightarrow> 's Group" where
  "group_step h g = (case g of
       None \<Rightarrow> \<lparr>gHit = h, gPassages = []\<rparr>
     | Some g \<Rightarrow> if hitLess h (gHit g) then \<lparr>gHit = h, gPassages = gPassages g @ [gHit g]\<rparr>
                 else g\<lparr>gPassages := gPassages g @ [h]\<rparr>)"

definition groupCmp :: "'s::linorder Group \<Rightarrow> 's Group \<Rightarrow> int" where
  "groupCmp a b = cmpOr (cmpCompare (hScore (gHit b)) (hScore (gHit a))) (cmpCompare (groupKey (gHit a)) (groupKey (gHit b)))"

definition cut_passages :: "int \<Rightarrow> 's::linorder Group \<Rightarrow> 's Group" where
  "cut_passages passages g =
     (if passages \<le> 0 then g\<lparr>gPassages := []\<rparr>
      else g\<lparr>gPassages := take (nat passages) (SortFunc hitCmp (gPassages g))\<rparr>)"

definition groupHits :: "((string \<times> 's Group) list \<Rightarrow> (string \<times> 's Group) list) \<Rightarrow> 's::linorder Hit list \<Rightarrow> nat \<Rightarrow> int \<Rightarrow> 's Group list" where
  "groupHits visit hits limit passages =
     (let groups = fold (\<lambda>h. upsert (group_step h) (groupKey h)) hits [];
          out = SortFunc groupCmp (map snd (visit groups));
          out = (if limit > 0 \<and> length out > limit then take limit out else out)
      in map (cut_passages passages) out)"

section \<open>Sorting\<close>

text \<open>What \<open>slices.SortFunc\<close> asks of its comparison, and what it then promises.\<close>

locale sort_order =
  fixes cmp :: "'a \<Rightarrow> 'a \<Rightarrow> int"
  assumes total_cmp: "cmp a b \<le> 0 \<or> cmp b a \<le> 0"
    and trans_cmp: "cmp a b \<le> 0 \<Longrightarrow> cmp b c \<le> 0 \<Longrightarrow> cmp a c \<le> 0"
begin

lemma mset_insertBy [simp]: "mset (insertBy cmp x xs) = add_mset x (mset xs)"
  by (induction xs) auto

lemma mset_SortFunc [simp]: "mset (SortFunc cmp xs) = mset xs"
  by (induction xs) (auto simp: SortFunc_def)

lemma set_SortFunc [simp]: "set (SortFunc cmp xs) = set xs"
  by (rule mset_eq_setD) simp

lemma length_SortFunc [simp]: "length (SortFunc cmp xs) = length xs"
  using mset_eq_length mset_SortFunc by blast

lemma set_insertBy [simp]: "set (insertBy cmp x xs) = insert x (set xs)"
  by (induction xs) auto

lemma sorted_insertBy:
  "sorted_wrt (\<lambda>a b. cmp a b \<le> 0) xs \<Longrightarrow> sorted_wrt (\<lambda>a b. cmp a b \<le> 0) (insertBy cmp x xs)"
  using total_cmp trans_cmp by (induction xs) fastforce+

lemma sorted_SortFunc: "sorted_wrt (\<lambda>a b. cmp a b \<le> 0) (SortFunc cmp xs)"
proof (induction xs)
  case Nil
  show ?case by (simp add: SortFunc_def)
next
  case (Cons x xs)
  then show ?case by (simp add: SortFunc_def sorted_insertBy)
qed

lemma sorted_unique:
  assumes "sorted_wrt (\<lambda>a b. cmp a b \<le> 0) xs" "sorted_wrt (\<lambda>a b. cmp a b \<le> 0) ys" "mset xs = mset ys"
    and "\<And>a b. a \<in> set xs \<Longrightarrow> b \<in> set xs \<Longrightarrow> cmp a b \<le> 0 \<Longrightarrow> cmp b a \<le> 0 \<Longrightarrow> a = b"
  shows "xs = ys"
  using assms
proof (induction xs arbitrary: ys)
  case Nil
  then show ?case by simp
next
  case (Cons x xs)
  then obtain y ys' where ys: "ys = y # ys'" by (cases ys) auto
  have sets: "set (x # xs) = set (y # ys')" using Cons.prems(3) ys mset_eq_setD by metis
  have "cmp x y \<le> 0" using sets Cons.prems(1) total_cmp [of x x] by auto
  moreover have "cmp y x \<le> 0" using sets Cons.prems(2) ys total_cmp [of y y] by auto
  moreover have "y \<in> set (x # xs)" using sets by auto
  ultimately have eq: "x = y" using Cons.prems(4) by auto
  have "xs = ys'" by (rule Cons.IH) (use Cons.prems ys eq in auto)
  then show ?case using ys eq by simp
qed

lemma SortFunc_perm:
  assumes "mset xs = mset ys" "\<And>a b. a \<in> set xs \<Longrightarrow> b \<in> set xs \<Longrightarrow> cmp a b \<le> 0 \<Longrightarrow> cmp b a \<le> 0 \<Longrightarrow> a = b"
  shows "SortFunc cmp xs = SortFunc cmp ys"
  by (rule sorted_unique) (use assms in \<open>auto simp: sorted_SortFunc\<close>)

end

text \<open>The two comparisons of the file are of one shape: the higher score first, then the smaller key.\<close>

definition rankCmp :: "('a \<Rightarrow> 's::linorder) \<Rightarrow> ('a \<Rightarrow> 'k::linorder) \<Rightarrow> 'a \<Rightarrow> 'a \<Rightarrow> int" where
  "rankCmp score key a b = cmpOr (cmpCompare (score b) (score a)) (cmpCompare (key a) (key b))"

lemma rankCmp_le: "rankCmp score key a b \<le> 0 \<longleftrightarrow> score b < score a \<or> score a = score b \<and> key a \<le> key b"
  by (auto simp: rankCmp_def cmpOr_def cmpCompare_def)

lemma hitCmp_rank: "hitCmp = rankCmp hScore hitDocId"
  by (intro ext) (simp add: hitCmp_def rankCmp_def)

lemma groupCmp_rank: "groupCmp = rankCmp (\<lambda>g. hScore (gHit g)) (\<lambda>g. groupKey (gHit g))"
  by (intro ext) (simp add: groupCmp_def rankCmp_def)

lemma hitCmp_le: "hitCmp a b \<le> 0 \<longleftrightarrow> hScore b < hScore a \<or> hScore a = hScore b \<and> hitDocId a \<le> hitDocId b"
  by (simp add: hitCmp_rank rankCmp_le)

lemma hitLess_iff: "hitLess a b \<longleftrightarrow> \<not> hitCmp b a \<le> 0"
  by (auto simp: hitLess_def hitCmp_rank rankCmp_def cmpOr_def cmpCompare_def)

interpretation hits: sort_order hitCmp
  by unfold_locales (auto simp: hitCmp_le)

interpretation groups: sort_order groupCmp
  by unfold_locales (auto simp: groupCmp_rank rankCmp_le)

section \<open>Maps built by a loop\<close>

lemma map_of_upsert: "map_of (upsert f k m) k' = (if k' = k then Some (f (map_of m k)) else map_of m k')"
  by (induction f k m rule: upsert.induct) auto

lemma keys_upsert: "fst ` set (upsert f k m) = insert k (fst ` set m)"
  by (induction f k m rule: upsert.induct) auto

lemma distinct_upsert: "distinct (map fst m) \<Longrightarrow> distinct (map fst (upsert f k m))"
proof (induction f k m rule: upsert.induct)
  case (2 f k k' v m)
  then show ?case using keys_upsert [of f k m] by (auto simp flip: set_map)
qed simp

lemma distinct_upserts: "distinct (map fst m) \<Longrightarrow> distinct (map fst (fold (\<lambda>x. upsert (step x) (key x)) xs m))"
  by (induction xs arbitrary: m) (auto simp: distinct_upsert)

lemma map_of_upserts:
  "map_of (fold (\<lambda>x. upsert (step x) (key x)) xs m) k =
     fold (\<lambda>x v. Some (step x v)) (filter (\<lambda>x. key x = k) xs) (map_of m k)"
  by (induction xs arbitrary: m) (auto simp: map_of_upsert)

lemma keys_upserts: "fst ` set (fold (\<lambda>x. upsert (step x) (key x)) xs m) = key ` set xs \<union> fst ` set m"
  by (induction xs arbitrary: m) (auto simp: keys_upsert)

section \<open>The fused ranking\<close>

text \<open>
  The contributions of the legs in the order the loops add them: a document at rank \<open>r\<close> of a leg of weight
  \<open>w\<close> contributes \<open>w / (rrfK + r + 1)\<close>.
\<close>

definition contribs :: "'s::linorder FloatOps \<Rightarrow> 's Hit list list \<Rightarrow> 's list \<Rightarrow> ('s \<times> 's Hit) list" where
  "contribs F legs weights =
     concat (map (\<lambda>(li, hits). map (\<lambda>(rank, h). (fDiv F (legWeight F weights li) (fNat F (rrfK + rank + 1)), h))
       (enumerate 0 hits)) (enumerate 0 legs))"

lemma fold_concat_map: "fold (\<lambda>x. fold g (f x)) xs m = fold g (concat (map f xs)) m"
  by (induction xs arbitrary: m) auto

lemma fuse_lists_fold:
  "fuse_lists F legs weights = fold (\<lambda>p. upsert (acc_step F (fst p) (snd p)) (hitDocId (snd p))) (contribs F legs weights) []"
proof -
  have "fuse_list F w hits = fold (\<lambda>p. upsert (acc_step F (fst p) (snd p)) (hitDocId (snd p)))
      (map (\<lambda>(rank, h). (fDiv F w (fNat F (rrfK + rank + 1)), h)) (enumerate 0 hits))" for w hits
    by (simp add: fuse_list_def fold_map comp_def case_prod_unfold)
  then show ?thesis
    unfolding fuse_lists_def contribs_def fold_concat_map [symmetric] by (simp add: case_prod_unfold)
qed

lemma acc_steps:
  "fold (\<lambda>p v. Some (acc_step F (fst p) (snd p) v)) ps (Some (g, s)) = Some (g, foldl (fAdd F) s (map fst ps))"
  by (induction ps arbitrary: s) (auto simp: acc_step_def)

lemma fuse_entry:
  assumes "(k, h, s) \<in> set (fuse_lists F legs weights)"
  shows "hitDocId h = k \<and> s = foldl (fAdd F) (fNat F 0) (map fst (filter (\<lambda>p. hitDocId (snd p) = k) (contribs F legs weights)))"
proof -
  let ?ps = "filter (\<lambda>p. hitDocId (snd p) = k) (contribs F legs weights)"
  have "distinct (map fst (fuse_lists F legs weights))" unfolding fuse_lists_fold by (rule distinct_upserts) simp
  then have "map_of (fuse_lists F legs weights) k = Some (h, s)" using assms by (simp add: map_of_eq_Some_iff)
  then have e: "fold (\<lambda>p v. Some (acc_step F (fst p) (snd p) v)) ?ps None = Some (h, s)"
    unfolding fuse_lists_fold map_of_upserts by simp
  then obtain p ps where ps: "?ps = p # ps" by (cases ?ps) auto
  have "p \<in> set ?ps" unfolding ps by simp
  then have "hitDocId (snd p) = k" by simp
  moreover have "acc_step F (fst p) (snd p) None = (snd p, fAdd F (fNat F 0) (fst p))" by (simp add: acc_step_def)
  ultimately show ?thesis using e unfolding ps by (auto simp: acc_steps)
qed

lemma contribs_hits: "snd ` set (contribs F legs weights) = \<Union> (set ` set legs)"
proof -
  have leg: "map (snd \<circ> (\<lambda>(rank, h). (g rank, h))) (enumerate 0 hits) = hits" for g and hits :: "'a Hit list"
    by (rule nth_equalityI) (auto simp: nth_enumerate_eq)
  have "map snd (contribs F legs weights) = concat (map snd (enumerate 0 legs))"
    unfolding contribs_def map_concat map_map by (rule arg_cong [where f = concat], rule map_cong) (auto simp: leg)
  then show ?thesis by (metis list.set_map map_snd_enumerate set_concat)
qed

text \<open>A rearrangement: what walking a map is.\<close>

definition rearranges :: "('a list \<Rightarrow> 'a list) \<Rightarrow> bool" where
  "rearranges visit \<longleftrightarrow> (\<forall>xs. mset (visit xs) = mset xs)"

lemma rearranges_set: "rearranges visit \<Longrightarrow> set (visit xs) = set xs"
  unfolding rearranges_def using mset_eq_setD by blast

lemma distinct_map_mset: "mset xs = mset ys \<Longrightarrow> distinct (map f xs) = distinct (map f ys)"
  by (metis mset_eq_imp_distinct_iff mset_map)

lemma sorted_take_drop: "sorted_wrt P xs \<Longrightarrow> x \<in> set (take n xs) \<Longrightarrow> y \<in> set (drop n xs) \<Longrightarrow> P x y"
  by (metis append_take_drop_id sorted_wrt_append)

text \<open>
  Fusion is deterministic and per document: whatever the order in which the map is walked, the ranking is the
  same; it lists every document once, best first, each with the sum of \<open>w / (rrfK + rank + 1)\<close> over its places
  in the legs; without a limit every document of a leg is listed.
\<close>

theorem fusion_ranking:
  assumes "rearranges visit"
  shows "fuseRRF visit F legs weights limit = fuseRRF (\<lambda>m. m) F legs weights limit \<and>
    distinct (map hitDocId (fuseRRF visit F legs weights limit)) \<and>
    sorted_wrt (\<lambda>a b. hitCmp a b \<le> 0) (fuseRRF visit F legs weights limit) \<and>
    list_all (\<lambda>h. hScore h = foldl (fAdd F) (fNat F 0)
      (map fst (filter (\<lambda>p. hitDocId (snd p) = hitDocId h) (contribs F legs weights)))) (fuseRRF visit F legs weights limit) \<and>
    hitDocId ` set (fuseRRF visit F legs weights 0) = hitDocId ` (\<Union> (set ` set legs))"
proof -
  let ?m = "fuse_lists F legs weights"
  let ?mk = "\<lambda>(k, h, s). h\<lparr>hScore := s\<rparr>"
  let ?raw = "map ?mk ?m"
  have ids: "map hitDocId ?raw = map fst ?m"
    using fuse_entry by (fastforce simp: hitDocId_def)
  have "distinct (map fst ?m)" unfolding fuse_lists_fold by (rule distinct_upserts) simp
  then have d: "distinct (map hitDocId ?raw)" unfolding ids .
  have perm: "mset (map ?mk (visit ?m)) = mset ?raw" using assms by (simp add: rearranges_def)
  have anti: "a = b" if "a \<in> set (map ?mk (visit ?m))" "b \<in> set (map ?mk (visit ?m))" "hitCmp a b \<le> 0" "hitCmp b a \<le> 0" for a b
  proof -
    have "a \<in> set ?raw" "b \<in> set ?raw" using that(1,2) mset_eq_setD [OF perm] by auto
    moreover have "hitDocId a = hitDocId b" using that(3,4) by (auto simp: hitCmp_le)
    ultimately show ?thesis using d by (meson distinct_map inj_onD)
  qed
  have det: "SortFunc hitCmp (map ?mk (visit ?m)) = SortFunc hitCmp ?raw" by (rule hits.SortFunc_perm [OF perm anti])
  let ?out = "SortFunc hitCmp ?raw"
  have out: "fuseRRF visit F legs weights limit = fuseRRF (\<lambda>m. m) F legs weights limit" for limit
    by (simp add: fuseRRF_def det)
  have cut: "fuseRRF (\<lambda>m. m) F legs weights limit = take (if limit = 0 then length ?out else limit) ?out" for limit
    by (simp add: fuseRRF_def Let_def)
  have "distinct (map hitDocId ?out)" using d distinct_map_mset [of ?out ?raw hitDocId] by simp
  moreover have sc: "list_all (\<lambda>h. hScore h = foldl (fAdd F) (fNat F 0)
      (map fst (filter (\<lambda>p. hitDocId (snd p) = hitDocId h) (contribs F legs weights)))) ?out"
    using fuse_entry [of _ _ _ F legs weights] by (fastforce simp: list_all_iff hitDocId_def)
  moreover have "hitDocId ` set ?out = hitDocId ` (\<Union> (set ` set legs))"
  proof -
    have "hitDocId ` set ?out = fst ` set ?m" using ids by (metis hits.set_SortFunc list.set_map)
    also have "\<dots> = hitDocId ` snd ` set (contribs F legs weights)" unfolding fuse_lists_fold keys_upserts by (simp add: image_image)
    finally show ?thesis unfolding contribs_hits .
  qed
  ultimately have 1: "distinct (map hitDocId ?out)" and 3: "hitDocId ` set (take (length ?out) ?out) = hitDocId ` (\<Union> (set ` set legs))"
    by simp_all
  have 2: "list_all (\<lambda>h. hScore h = foldl (fAdd F) (fNat F 0)
      (map fst (filter (\<lambda>p. hitDocId (snd p) = hitDocId h) (contribs F legs weights)))) (take n ?out)" for n
    using sc unfolding list_all_iff by (blast dest: in_set_takeD)
  have "distinct (map hitDocId (take n ?out))" for n using distinct_take [OF 1] by (simp add: take_map)
  then show ?thesis unfolding out cut using 2 3 sorted_wrt_take [OF hits.sorted_SortFunc [of ?raw]] by (simp only: if_True simp_thms)
qed

section \<open>The records of a page\<close>

definition group_ok :: "'s::linorder Hit list \<Rightarrow> 's Group \<Rightarrow> bool" where
  "group_ok hs g \<longleftrightarrow> mset (gHit g # gPassages g) = mset hs \<and> (\<forall>h \<in> set hs. hitCmp (gHit g) h \<le> 0)"

lemma group_step_ok: "group_ok hs g \<Longrightarrow> group_ok (hs @ [h]) (group_step h (Some g))"
  using hits.total_cmp [of h h] hits.trans_cmp [of h "gHit g"] hits.total_cmp [of h "gHit g"]
  by (auto simp: group_ok_def group_step_def hitLess_iff)

lemma group_steps_ok:
  "group_ok hs0 g \<Longrightarrow> \<exists>g'. fold (\<lambda>h v. Some (group_step h v)) hs (Some g) = Some g' \<and> group_ok (hs0 @ hs) g'"
proof (induction hs arbitrary: hs0 g)
  case (Cons h hs)
  from Cons.IH [OF group_step_ok [OF Cons.prems, of h]] show ?case by simp
qed simp

abbreviation record_groups :: "'s::linorder Hit list \<Rightarrow> (string \<times> 's Group) list" where
  "record_groups hits \<equiv> fold (\<lambda>h. upsert (group_step h) (groupKey h)) hits []"

lemma distinct_records: "distinct (map fst (record_groups hits))"
  by (rule distinct_upserts) simp

lemma record_group_ok:
  assumes "(k, g) \<in> set (record_groups hits)"
  shows "k = groupKey (gHit g) \<and> group_ok (filter (\<lambda>h. groupKey h = k) hits) g"
proof -
  let ?hs = "filter (\<lambda>h. groupKey h = k) hits"
  have "map_of (record_groups hits) k = Some g" using assms distinct_records [of hits] by (simp add: map_of_eq_Some_iff)
  then have e: "fold (\<lambda>h v. Some (group_step h v)) ?hs None = Some g" unfolding map_of_upserts by simp
  then obtain h hs where hs: "?hs = h # hs" by (cases ?hs) auto
  have "group_ok [h] (group_step h None)" using hits.total_cmp [of h h] by (auto simp: group_ok_def group_step_def)
  from group_steps_ok [OF this, of hs] e hs have ok: "group_ok ?hs g" by auto
  then have "gHit g \<in> set ?hs" unfolding group_ok_def by (metis list.set_intros(1) mset_eq_setD)
  then show ?thesis using ok by simp
qed

text \<open>
  What a group of the page shows: the best chunk of its record among the hits, and then, best first, the next
  best of the record's other chunks, as many as asked for.
\<close>

definition shows_record :: "'s::linorder Hit list \<Rightarrow> int \<Rightarrow> 's Group \<Rightarrow> bool" where
  "shows_record hits passages g \<longleftrightarrow>
     (let others = filter (\<lambda>h. groupKey h = groupKey (gHit g)) hits in
      gHit g \<in> set others \<and> (\<forall>h \<in> set others. hitCmp (gHit g) h \<le> 0) \<and>
      (\<exists>rest. mset (gHit g # gPassages g @ rest) = mset others \<and> sorted_wrt (\<lambda>a b. hitCmp a b \<le> 0) (gPassages g @ rest)) \<and>
      length (gPassages g) = min (nat passages) (length others - 1))"

lemma cut_passages_shows:
  assumes "group_ok (filter (\<lambda>h. groupKey h = groupKey (gHit g)) hits) g"
  shows "shows_record hits passages (cut_passages passages g)"
proof -
  let ?hs = "filter (\<lambda>h. groupKey h = groupKey (gHit g)) hits"
  let ?ps = "SortFunc hitCmp (gPassages g)"
  have ok: "mset (gHit g # gPassages g) = mset ?hs" "\<forall>h \<in> set ?hs. hitCmp (gHit g) h \<le> 0" using assms by (auto simp: group_ok_def)
  have mem: "gHit g \<in> set ?hs" using mset_eq_setD [OF ok(1)] by auto
  have len: "length (gPassages g) = length ?hs - 1" using mset_eq_length [OF ok(1)] by simp
  have gp: "gPassages (cut_passages passages g) = take (nat passages) ?ps" "gHit (cut_passages passages g) = gHit g"
    by (auto simp: cut_passages_def)
  have m: "mset (gHit g # take (nat passages) ?ps @ drop (nat passages) ?ps) = mset ?hs" unfolding append_take_drop_id using ok(1) by simp
  have s: "sorted_wrt (\<lambda>a b. hitCmp a b \<le> 0) (take (nat passages) ?ps @ drop (nat passages) ?ps)"
    unfolding append_take_drop_id by (rule hits.sorted_SortFunc)
  have l: "length (take (nat passages) ?ps) = min (nat passages) (length ?hs - 1)" using len by simp
  show ?thesis unfolding shows_record_def gp Let_def using mem ok(2) m s l by blast
qed

text \<open>
  A page of records: whatever the order in which the map is walked, \<open>groupHits\<close> gives the same page; every
  record of the hits appears at most once, by its best chunk and its next best passages, best record first; the page
  has all the records, or the limit's worth of them, and a record it leaves out has no hit that scores above a shown one.
\<close>

theorem record_page:
  fixes hits :: "'s::linorder Hit list"
  assumes "rearranges visit"
  shows "groupHits visit hits limit passages = groupHits (\<lambda>m. m) hits limit passages \<and>
    distinct (map (\<lambda>g. groupKey (gHit g)) (groupHits visit hits limit passages)) \<and>
    list_all (shows_record hits passages) (groupHits visit hits limit passages) \<and>
    sorted_wrt (\<lambda>a b. groupCmp a b \<le> 0) (groupHits visit hits limit passages) \<and>
    length (groupHits visit hits limit passages) = (if limit = 0 then countGroups hits else min limit (countGroups hits)) \<and>
    list_all (\<lambda>h. groupKey h \<in> (\<lambda>g. groupKey (gHit g)) ` set (groupHits visit hits limit passages) \<or>
      list_all (\<lambda>g. hScore h \<le> hScore (gHit g)) (groupHits visit hits limit passages)) hits"
proof -
  let ?m = "record_groups hits" and ?key = "\<lambda>g. groupKey (gHit g)"
  let ?raw = "map snd ?m"
  have keys: "map ?key ?raw = map fst ?m" using record_group_ok [of _ _ hits] by fastforce
  have d: "distinct (map ?key ?raw)" unfolding keys by (rule distinct_records)
  have perm: "mset (map snd (visit ?m)) = mset ?raw" using assms by (simp add: rearranges_def)
  have anti: "a = b" if "a \<in> set (map snd (visit ?m))" "b \<in> set (map snd (visit ?m))" "groupCmp a b \<le> 0" "groupCmp b a \<le> 0" for a b
  proof -
    have "a \<in> set ?raw" "b \<in> set ?raw" using that(1,2) mset_eq_setD [OF perm] by auto
    moreover have "?key a = ?key b" using that(3,4) by (auto simp: groupCmp_rank rankCmp_le)
    ultimately show ?thesis using d by (meson distinct_map inj_onD)
  qed
  let ?all = "SortFunc groupCmp ?raw"
  let ?n = "if limit = 0 then length ?all else limit"
  define out where "out = take ?n ?all"
  have det: "SortFunc groupCmp (map snd (visit ?m)) = ?all" by (rule groups.SortFunc_perm [OF perm anti])
  have page: "groupHits visit hits limit passages = map (cut_passages passages) out"
    "groupHits (\<lambda>m. m) hits limit passages = map (cut_passages passages) out"
    using mset_eq_length [OF perm] by (simp_all add: groupHits_def det out_def Let_def)
  have same: "gHit (cut_passages passages g) = gHit g" for g by (simp add: cut_passages_def)
  have ok: "group_ok (filter (\<lambda>h. groupKey h = ?key g) hits) g" if "g \<in> set ?all" for g
    using that record_group_ok [of _ g hits] by force
  have len: "length ?all = countGroups hits"
  proof -
    have "length ?all = length ?m" by simp
    also have "length ?m = card (fst ` set ?m)" using distinct_card [OF distinct_records [of hits]] by simp
    finally show ?thesis by (simp add: keys_upserts countGroups_def)
  qed
  have "distinct (map ?key ?all)" using d distinct_map_mset [of ?all ?raw ?key] by simp
  then have 1: "distinct (map ?key out)" by (simp add: out_def flip: take_map)
  have 2: "list_all (shows_record hits passages) (map (cut_passages passages) out)"
    using ok cut_passages_shows by (fastforce simp: list_all_iff out_def dest: in_set_takeD)
  have 3: "sorted_wrt (\<lambda>a b. groupCmp a b \<le> 0) (map (cut_passages passages) out)"
  proof -
    have "groupCmp (cut_passages passages a) (cut_passages passages b) = groupCmp a b" for a b :: "'s Group" by (simp add: groupCmp_def same)
    then have e: "(\<lambda>a b :: 's Group. groupCmp (cut_passages passages a) (cut_passages passages b) \<le> 0) = (\<lambda>a b. groupCmp a b \<le> 0)" by simp
    show ?thesis unfolding sorted_wrt_map out_def e by (rule sorted_wrt_take [OF groups.sorted_SortFunc])
  qed
  have 4: "length (map (cut_passages passages) out) = (if limit = 0 then countGroups hits else min limit (countGroups hits))"
    using len by (simp add: out_def min.commute)
  have 5: "groupKey h \<in> ?key ` set out \<or> list_all (\<lambda>g. hScore h \<le> hScore (gHit g)) out" if "h \<in> set hits" for h
  proof (cases "groupKey h \<in> ?key ` set out")
    case False
    from that have "groupKey h \<in> fst ` set ?m" unfolding keys_upserts by simp
    then obtain g0 where g0: "(groupKey h, g0) \<in> set ?m" by auto
    then have k0: "?key g0 = groupKey h" and g0a: "g0 \<in> set ?all" using record_group_ok by force+
    have "hitCmp (gHit g0) h \<le> 0" using ok [OF g0a] that k0 by (simp add: group_ok_def)
    then have le: "hScore h \<le> hScore (gHit g0)" by (auto simp: hitCmp_le)
    have "g0 \<notin> set (take ?n ?all)" using False k0 unfolding out_def by force
    moreover have "set ?all = set (take ?n ?all) \<union> set (drop ?n ?all)" by (simp only: append_take_drop_id flip: set_append)
    ultimately have "g0 \<in> set (drop ?n ?all)" using g0a by blast
    then have "groupCmp g g0 \<le> 0" if "g \<in> set out" for g
      using that sorted_take_drop [OF groups.sorted_SortFunc] unfolding out_def by blast
    then show ?thesis using le by (fastforce simp: list_all_iff groupCmp_rank rankCmp_le)
  qed simp
  show ?thesis unfolding page using 1 2 3 4 5 by (simp add: same list_all_iff image_image comp_def)
qed

text \<open>Fixed-point numbers in place of floats, for the witnesses.\<close>

definition intFloats :: "int FloatOps" where
  "intFloats = \<lparr>fNat = int, fAdd = (+), fSub = (-), fMul = (*), fDiv = (\<lambda>a b. a * 1000 div b)\<rparr>"

definition demo_hit :: "string \<Rightarrow> nat \<Rightarrow> int \<Rightarrow> int Hit" where
  "demo_hit r n s = \<lparr>hScope = ''basic'', hObjectId = ''o'', hDataset = ''d'', hRecordId = r, hChunk = n, hData = [], hScore = s, hMatch = []\<rparr>"

theorem fusion_ranking_witness:
  "rearranges (rev :: (string \<times> int Hit \<times> int) list \<Rightarrow> _) \<and>
   fuseRRF rev intFloats [[demo_hit ''a'' 0 9, demo_hit ''b'' 0 7], [demo_hit ''b'' 0 1]] [] 0 =
     fuseRRF (\<lambda>m. m) intFloats [[demo_hit ''a'' 0 9, demo_hit ''b'' 0 7], [demo_hit ''b'' 0 1]] [] 0"
proof -
  have r: "rearranges (rev :: (string \<times> int Hit \<times> int) list \<Rightarrow> _)" by (simp add: rearranges_def)
  from fusion_ranking [OF r] show ?thesis using r by blast
qed

theorem record_page_witness:
  "length (groupHits rev [demo_hit ''a'' 0 9, demo_hit ''b'' 0 7, demo_hit ''a'' 1 5] 2 1) = 2"
proof -
  have "rearranges (rev :: (string \<times> int Group) list \<Rightarrow> _)" by (simp add: rearranges_def)
  from record_page [OF this, of "[demo_hit ''a'' 0 9, demo_hit ''b'' 0 7, demo_hit ''a'' 1 5]" 2 1]
  have "length (groupHits rev [demo_hit ''a'' 0 9, demo_hit ''b'' 0 7, demo_hit ''a'' 1 5] 2 1) =
      (if (2 :: nat) = 0 then countGroups [demo_hit ''a'' 0 9, demo_hit ''b'' 0 7, demo_hit ''a'' 1 5]
       else min 2 (countGroups [demo_hit ''a'' 0 9, demo_hit ''b'' 0 7, demo_hit ''a'' 1 5]))" by (elim conjE)
  also have "countGroups [demo_hit ''a'' 0 9, demo_hit ''b'' 0 7, demo_hit ''a'' 1 5] = 2"
    by (simp add: countGroups_def groupKey_def docId_def demo_hit_def card_insert_if)
  finally show ?thesis by simp
qed

end
