(* ===== verification/IndexStore.thy ===== *)
theory IndexStore
  imports SearchRank "HOL-Library.Word" "HOL-Library.Finite_Map"
begin

text \<open>
  The store of the search index (src/internal/indexer/store.go, links_store.go, embed_backfill.go): the documents and
  edges of a space, the page of changes that lands on them in one transaction, the cursor row, the pending marks
  and vectors, and the checks of the database's meta row.

  The collections live in any-store, which is not part of the repository: a collection is a value of a type variable,
  with the operations the sources call as the fields of \<open>anystore\<close> and what its documentation promises as
  \<open>any_store\<close>. A failed call aborts the transaction, whose rollback leaves the collection as it was: the
  parameter \<open>fault\<close> is the error of a page, if it has one.
\<close>

unbundle bit_operations_syntax

section \<open>Bytes of a text\<close>

definition utf8_rune :: "nat \<Rightarrow> nat list" where
  "utf8_rune r =
     (if r < 0x80 then [r]
      else if r < 0x800 then [0xC0 + r div 64, 0x80 + r mod 64]
      else if r < 0x10000 then [0xE0 + r div 4096, 0x80 + r div 64 mod 64, 0x80 + r mod 64]
      else [0xF0 + r div 262144, 0x80 + r div 4096 mod 64, 0x80 + r div 64 mod 64, 0x80 + r mod 64])"

definition utf8 :: "runes \<Rightarrow> nat list" where
  "utf8 rs = concat (map utf8_rune rs)"

text \<open>\<open>fnv.New64a\<close> and \<open>strconv.FormatUint\<close>.\<close>

definition fnv64a :: "nat list \<Rightarrow> 64 word" where
  "fnv64a bs = foldl (\<lambda>h b. (h XOR of_nat b) * 1099511628211) 14695981039346656037 bs"

fun FormatUint :: "nat \<Rightarrow> nat \<Rightarrow> string" where
  "FormatUint base n =
     (let digit = (\<lambda>d. char_of (if d < 10 then 48 + d else 87 + d)) in
      if base \<le> 1 \<or> n < base then [digit n] else FormatUint base (n div base) @ [digit (n mod base)])"

declare FormatUint.simps [simp del]

definition docHash :: "runes \<Rightarrow> runes \<Rightarrow> string" where
  "docHash data title = FormatUint 16 (unat (fnv64a (utf8 data @ 0x1F # utf8 title)))"

section \<open>Collections\<close>

record ('c, 'd) anystore =
  asGet :: "'c \<Rightarrow> string \<Rightarrow> 'd option"
  asPut :: "string \<Rightarrow> 'd \<Rightarrow> 'c \<Rightarrow> 'c"
  asUpd :: "string \<Rightarrow> ('d \<Rightarrow> 'd) \<Rightarrow> 'c \<Rightarrow> 'c"
  asDel :: "string \<Rightarrow> 'c \<Rightarrow> 'c"
  asDelRange :: "string \<Rightarrow> string \<Rightarrow> 'c \<Rightarrow> 'c"
  asRange :: "string \<Rightarrow> string \<Rightarrow> 'c \<Rightarrow> (string \<times> 'd) list"
  asAll :: "'c \<Rightarrow> (string \<times> 'd) list"
  asNone :: 'c

text \<open>
  What a collection promises: \<open>UpsertOne\<close> replaces a document, \<open>UpdateId\<close> changes an existing one,
  \<open>DeleteId\<close> and the deletion of an id range remove, a query by id range lists the documents whose ids lie in
  it, and a query without one lists every document, in the order of the ids.
\<close>

definition any_store :: "('c, 'd) anystore \<Rightarrow> bool" where
  "any_store S \<longleftrightarrow>
     (\<forall>c k d k'. asGet S (asPut S k d c) k' = (if k' = k then Some d else asGet S c k')) \<and>
     (\<forall>c k f k'. asGet S (asUpd S k f c) k' = (if k' = k then map_option f (asGet S c k) else asGet S c k')) \<and>
     (\<forall>c k k'. asGet S (asDel S k c) k' = (if k' = k then None else asGet S c k')) \<and>
     (\<forall>c lo hi k. asGet S (asDelRange S lo hi c) k = (if lo \<le> k \<and> k < hi then None else asGet S c k)) \<and>
     (\<forall>c lo hi. set (asRange S lo hi c) = {(k, d). lo \<le> k \<and> k < hi \<and> asGet S c k = Some d}) \<and>
     (\<forall>c. set (asAll S c) = {(k, d). asGet S c k = Some d} \<and> sorted_wrt (<) (map fst (asAll S c))) \<and>
     (\<forall>k. asGet S (asNone S) k = None)"

record Doc =
  dScope :: string
  dObjectId :: string
  dDataset :: string
  dRecordId :: string
  dChunk :: nat
  dName :: "runes option"
  dData :: "runes option"
  dTitle :: runes
  dHash :: string
  dApplySeq :: nat
  dVector :: "vector option"
  dPending :: bool

definition prefixUpper :: "string \<Rightarrow> string" where
  "prefixUpper pfx = butlast pfx @ '';''"

section \<open>What is embedded\<close>

definition ScopeBasic :: string where "ScopeBasic = ''basic''"
definition ScopeProps :: string where "ScopeProps = ''props''"
definition DatasetProp :: string where "DatasetProp = ''prop''"
definition NamePropRecordId :: string where "NamePropRecordId = ''name''"

definition isNameDoc :: "IndexEntry \<Rightarrow> bool" where
  "isNameDoc e \<longleftrightarrow> ieDataset e = DatasetProp \<and> ieRecordId e = NamePropRecordId"

definition minPropEmbedBytes :: nat where "minPropEmbedBytes = 64"

definition embedRule :: "string \<Rightarrow> string \<Rightarrow> nat \<Rightarrow> bool" where
  "embedRule scope dataset textBytes =
     (if textBytes = 0 \<or> scope = ScopeProps then False
      else dataset \<noteq> DatasetProp \<or> minPropEmbedBytes \<le> textBytes)"

definition shouldEmbed :: "IndexEntry \<Rightarrow> bool" where
  "shouldEmbed e = embedRule (ieScope e) (ieDataset e) (length (utf8 (ieData e)))"

definition docText :: "Doc \<Rightarrow> runes" where
  "docText d = (case dData d of Some (r # rs) \<Rightarrow> r # rs | _ \<Rightarrow> (case dName d of Some t \<Rightarrow> t | None \<Rightarrow> []))"

section \<open>A page of text documents\<close>

record removals =
  rmRecords :: "string list"
  rmPrefixes :: "string list"

definition newRemovals :: "string list \<Rightarrow> string list \<Rightarrow> removals" where
  "newRemovals dels prefixDels = \<lparr>rmRecords = dels, rmPrefixes = prefixDels\<rparr>"

text \<open>\<open>strings.IndexByte(s, ':')\<close> and the part of \<open>s\<close> up to and including that byte.\<close>

definition through_colon :: "string \<Rightarrow> (string \<times> string) option" where
  "through_colon s = (case index_sub '':'' s of None \<Rightarrow> None | Some i \<Rightarrow> Some (take (i + 1) s, drop (i + 1) s))"

definition covers :: "removals \<Rightarrow> string \<Rightarrow> bool" where
  "covers r i =
     (if rmRecords r \<noteq> [] \<and> (i \<in> set (rmRecords r) \<or> recordBase i \<noteq> i \<and> recordBase i \<in> set (rmRecords r)) then True
      else if rmPrefixes r = [] then False
      else case through_colon i of
        None \<Rightarrow> False
      | Some (obj, rest) \<Rightarrow>
          if obj \<in> set (rmPrefixes r) then True
          else case through_colon rest of
            None \<Rightarrow> False
          | Some (ds, _) \<Rightarrow> obj @ ds \<in> set (rmPrefixes r))"

definition up_id :: "DocUpsert \<Rightarrow> string" where
  "up_id up = (let e = duEntry up in chunkDocId (docId (ieObjectId e) (ieDataset e) (ieRecordId e)) (duChunk up))"

definition up_doc :: "bool \<Rightarrow> DocUpsert \<Rightarrow> Doc" where
  "up_doc markPending up =
     (let e = duEntry up; named = isNameDoc e \<and> duChunk up = 0 in
      \<lparr>dScope = ieScope e, dObjectId = ieObjectId e, dDataset = ieDataset e, dRecordId = ieRecordId e, dChunk = duChunk up,
       dName = (if named then Some (ieData e) else None), dData = (if named then None else Some (ieData e)),
       dTitle = ieTitle e, dHash = docHash (ieData e) (ieTitle e), dApplySeq = ieApplySeq e, dVector = duVector up,
       dPending = (duVector up = None \<and> markPending \<and> shouldEmbed e)\<rparr>)"

definition delete_prefixes :: "('c, 'd) anystore \<Rightarrow> string list \<Rightarrow> 'c \<Rightarrow> 'c" where
  "delete_prefixes S ps = fold (\<lambda>p. asDelRange S p (prefixUpper p)) ps"

definition delete_records :: "('c, 'd) anystore \<Rightarrow> string list \<Rightarrow> 'c \<Rightarrow> 'c" where
  "delete_records S ids = fold (\<lambda>i. asDelRange S i (recordUpper i)) ids"

definition put_docs :: "('c, Doc) anystore \<Rightarrow> bool \<Rightarrow> removals \<Rightarrow> DocUpsert list \<Rightarrow> 'c \<Rightarrow> 'c" where
  "put_docs S markPending gone ups =
     fold (\<lambda>up c. if covers gone (up_id up) then c else asPut S (up_id up) (up_doc markPending up) c) ups"

definition apply_docs :: "('c, Doc) anystore \<Rightarrow> bool \<Rightarrow> DocUpsert list \<Rightarrow> string list \<Rightarrow> string list \<Rightarrow> string list \<Rightarrow> 'c \<Rightarrow> 'c" where
  "apply_docs S markPending ups dels prefixDels textPrefixDels c =
     (let c = delete_prefixes S (prefixDels @ textPrefixDels) c;
          c = delete_records S dels c
      in put_docs S markPending (newRemovals dels (prefixDels @ textPrefixDels)) ups c)"

section \<open>A page of edges\<close>

record LinkDoc =
  ldEntry :: LinkEntry
  ldTargetKey :: string
  ldTargetObject :: string
  ldApplySeq :: nat

record LinkOps =
  loUps :: "LinkEntry list"
  loSeqs :: "nat list"
  loDels :: "string list"
  loTouched :: "string list"

definition links_empty :: "LinkOps option \<Rightarrow> bool" where
  "links_empty ops = (case ops of None \<Rightarrow> True | Some p \<Rightarrow> loUps p = [] \<and> loDels p = [])"

definition bytes_of :: "string \<Rightarrow> nat list" where
  "bytes_of s = map of_char s"

definition linkRecordPrefix :: "string \<Rightarrow> string \<Rightarrow> string \<Rightarrow> string" where
  "linkRecordPrefix objectId dataset recordId = docId objectId dataset recordId @ chunkSep"

definition linkRecordUpper :: "string \<Rightarrow> string" where
  "linkRecordUpper pfx = take (length pfx - length chunkSep) pfx @ recordRangeEnd"

definition linkDocId :: "LinkEntry \<Rightarrow> string" where
  "linkDocId e = linkRecordPrefix (leObjectId e) (leDataset e) (leRecordId e) @
     FormatUint 36 (unat (fnv64a (bytes_of (leKind e) @ 0 # bytes_of (leField e) @ 0 # bytes_of (URI_String (leTarget e)))))"

definition linkTargetKey :: "URI \<Rightarrow> string" where
  "linkTargetKey u = (case URI_ObjectKey u of Some k \<Rightarrow> k | None \<Rightarrow> URI_String u)"

definition link_doc :: "nat option \<Rightarrow> LinkEntry \<Rightarrow> LinkDoc" where
  "link_doc seq e =
     \<lparr>ldEntry = e, ldTargetKey = URI_String (leTarget e),
      ldTargetObject = (case URI_ObjectKey (leTarget e) of Some k \<Rightarrow> k | None \<Rightarrow> []),
      ldApplySeq = (case seq of Some n \<Rightarrow> n | None \<Rightarrow> 0)\<rparr>"

text \<open>The liveness key of a stored edge, when it has one.\<close>

definition stored_key :: "LinkDoc \<Rightarrow> string" where
  "stored_key d = (if ldTargetObject d \<noteq> [] then ldTargetObject d else ldTargetKey d)"

definition evict_links :: "('l, LinkDoc) anystore \<Rightarrow> string list \<Rightarrow> 'l \<Rightarrow> string list \<times> 'l" where
  "evict_links L prefixDels c =
     fold (\<lambda>p (touched, c). (touched @ filter (\<lambda>k. k \<noteq> []) (map (\<lambda>(k, d). stored_key d) (asRange L p (prefixUpper p) c)),
       asDelRange L p (prefixUpper p) c)) prefixDels ([], c)"

definition put_links :: "('l, LinkDoc) anystore \<Rightarrow> removals \<Rightarrow> LinkOps \<Rightarrow> 'l \<Rightarrow> 'l" where
  "put_links L gone ops =
     fold (\<lambda>(i, e) c. if covers gone (linkDocId e) then c
       else asPut L (linkDocId e) (link_doc (if i < length (loSeqs ops) then Some (loSeqs ops ! i) else None) e) c)
       (enumerate 0 (loUps ops))"

text \<open>The keys come back as a set, in the order Go walks its map; here with repetitions, in the order they were met.\<close>

definition applyLinks :: "('l, LinkDoc) anystore \<Rightarrow> string list \<Rightarrow> LinkOps option \<Rightarrow> 'l \<Rightarrow> string list \<times> 'l" where
  "applyLinks L prefixDels ops c =
     (let (touched, c) = evict_links L prefixDels c in
      case ops of
        None \<Rightarrow> (touched, c)
      | Some p \<Rightarrow>
          let c = fold (asDel L) (loDels p) c;
              c = put_links L (newRemovals [] prefixDels) p c
          in (touched @ loTouched p, c))"

definition ApplyPage :: "('c, Doc) anystore \<Rightarrow> ('l, LinkDoc) anystore \<Rightarrow> bool \<Rightarrow> 'e option \<Rightarrow>
    DocUpsert list \<Rightarrow> string list \<Rightarrow> string list \<Rightarrow> string list \<Rightarrow> LinkOps option \<Rightarrow> 'c \<times> 'l \<Rightarrow> ('e + string list) \<times> 'c \<times> 'l" where
  "ApplyPage S L markPending fault ups dels prefixDels textPrefixDels links st =
     (if ups = [] \<and> dels = [] \<and> prefixDels = [] \<and> textPrefixDels = [] \<and> links_empty links then (Inr [], st)
      else case fault of
        Some e \<Rightarrow> (Inl e, st)
      | None \<Rightarrow>
          let docs = apply_docs S markPending ups dels prefixDels textPrefixDels (fst st);
              (touched, edges) = applyLinks L prefixDels links (snd st)
          in (Inr touched, docs, edges))"

section \<open>Reading back\<close>

definition DocHashes :: "('c, Doc) anystore \<Rightarrow> 'c \<Rightarrow> string \<Rightarrow> (string \<times> string) list" where
  "DocHashes S c idPrefix = map (\<lambda>(k, d). (k, dHash d)) (asRange S idPrefix (prefixUpper idPrefix) c)"

text \<open>The rows of each record are added to one map, in turn; with the same documents the later row is the same.\<close>

definition DocHashesByRecords :: "('c, Doc) anystore \<Rightarrow> 'c \<Rightarrow> string list \<Rightarrow> (string \<times> string) list" where
  "DocHashesByRecords S c bases =
     concat (map (\<lambda>base. map (\<lambda>(k, d). (k, dHash d)) (asRange S base (recordUpper base) c)) bases)"

definition LinkIds :: "('l, LinkDoc) anystore \<Rightarrow> 'l \<Rightarrow> string \<Rightarrow> (string \<times> string) list" where
  "LinkIds L c pfx = map (\<lambda>(k, d). (k, stored_key d)) (asRange L pfx (prefixUpper pfx) c)"

definition maxLinksRead :: nat where "maxLinksRead = 1000"

definition collectLinks :: "(string \<times> LinkDoc) list \<Rightarrow> int \<Rightarrow> LinkDoc list \<times> bool" where
  "collectLinks rows limit =
     (let n = (if limit \<le> 0 \<or> limit > int maxLinksRead then maxLinksRead else nat limit);
          got = take (n + 1) rows
      in (map snd (take n got), length got > n))"

definition kind_ok :: "string list \<Rightarrow> LinkDoc \<Rightarrow> bool" where
  "kind_ok kinds d \<longleftrightarrow> kinds = [] \<or> leKind (ldEntry d) \<in> set kinds"

definition Store_Backlinks :: "('l, LinkDoc) anystore \<Rightarrow> 'l \<Rightarrow> string \<Rightarrow> bool \<Rightarrow> string list \<Rightarrow> int \<Rightarrow> LinkDoc list \<times> bool" where
  "Store_Backlinks L c key byObject kinds limit =
     collectLinks (filter (\<lambda>(k, d). (if byObject then ldTargetObject d = key \<and> key \<noteq> [] else ldTargetKey d = key) \<and> kind_ok kinds d) (asAll L c)) limit"

definition in_range :: "string \<Rightarrow> string \<Rightarrow> string \<Rightarrow> bool" where
  "in_range lo hi k \<longleftrightarrow> lo \<le> k \<and> k < hi"

definition Store_Links :: "('l, LinkDoc) anystore \<Rightarrow> 'l \<Rightarrow> string \<Rightarrow> string list \<Rightarrow> int \<Rightarrow> LinkDoc list \<times> bool" where
  "Store_Links L c pfx kinds limit =
     (let upper = (if cut_suffix chunkSep pfx \<noteq> None then linkRecordUpper pfx else prefixUpper pfx)
      in collectLinks (filter (\<lambda>(k, d). in_range pfx upper k \<and> kind_ok kinds d) (asAll L c)) limit)"

definition backlinkKey :: "URI \<Rightarrow> string \<times> bool" where
  "backlinkKey target =
     (if uKind target = KindObject \<and> uRecordId target = []
      then (case URI_ObjectKey target of Some k \<Rightarrow> (k, True) | None \<Rightarrow> (URI_String target, False))
      else (URI_String target, False))"

definition Backlinks :: "('l, LinkDoc) anystore \<Rightarrow> 'l \<Rightarrow> URI \<Rightarrow> string list \<Rightarrow> int \<Rightarrow> LinkDoc list \<times> bool" where
  "Backlinks L c target kinds limit =
     (let (key, byObject) = backlinkKey target in Store_Backlinks L c key byObject kinds limit)"

definition Links :: "('l, LinkDoc) anystore \<Rightarrow> 'l \<Rightarrow> string \<Rightarrow> string \<Rightarrow> string \<Rightarrow> string list \<Rightarrow> int \<Rightarrow> LinkDoc list \<times> bool" where
  "Links L c objectId dataset recordId kinds limit =
     (let pfx = (if dataset \<noteq> [] then (if recordId \<noteq> [] then linkRecordPrefix objectId dataset recordId
                                          else objectId @ '':'' @ dataset @ '':'')
                    else objectId @ '':'')
      in Store_Links L c pfx kinds limit)"

section \<open>Pending documents and vectors\<close>

definition Pending :: "('c, Doc) anystore \<Rightarrow> 'c \<Rightarrow> nat \<Rightarrow> (string \<times> runes) list" where
  "Pending S c limit = take limit (map (\<lambda>(k, d). (k, docText d)) (filter (\<lambda>(k, d). dPending d) (asAll S c)))"

definition PendingCount :: "('c, Doc) anystore \<Rightarrow> 'c \<Rightarrow> nat" where
  "PendingCount S c = length (filter (\<lambda>(k, d). dPending d) (asAll S c))"

definition set_vector :: "vector \<Rightarrow> Doc \<Rightarrow> Doc" where
  "set_vector v d = d\<lparr>dVector := Some v, dPending := False\<rparr>"

datatype 'e store_error = StoreFault 'e | BadVectors nat nat

definition SetVectors :: "('c, Doc) anystore \<Rightarrow> 'e option \<Rightarrow> string list \<Rightarrow> vector list \<Rightarrow> 'c \<Rightarrow> ('e store_error + unit) \<times> 'c" where
  "SetVectors S fault ids vecs c =
     (if length ids \<noteq> length vecs then (Inl (BadVectors (length ids) (length vecs)), c)
      else case fault of
        Some e \<Rightarrow> (Inl (StoreFault e), c)
      | None \<Rightarrow> (Inr (), fold (\<lambda>(i, v). asUpd S i (set_vector v)) (zip ids vecs) c))"

section \<open>The cursor row of a space\<close>

record CursorRow =
  crSeq :: nat
  crGen :: string
  crEmbed :: nat
  crLinks :: nat

definition row_of :: "CursorRow option \<Rightarrow> CursorRow" where
  "row_of row = (case row of Some r \<Rightarrow> r | None \<Rightarrow> \<lparr>crSeq = 0, crGen = [], crEmbed = 0, crLinks = 0\<rparr>)"

definition Cursor :: "CursorRow option \<Rightarrow> nat \<times> string" where
  "Cursor row = (crSeq (row_of row), crGen (row_of row))"

definition setCursor :: "nat \<Rightarrow> string \<Rightarrow> bool \<Rightarrow> CursorRow option \<Rightarrow> CursorRow option" where
  "setCursor seq generation marked row =
     (let r = row_of row;
          r = (if marked \<and> crEmbed r = crSeq r then r\<lparr>crEmbed := seq\<rparr> else r);
          r = r\<lparr>crSeq := seq\<rparr>
      in Some (if generation \<noteq> [] then r\<lparr>crGen := generation\<rparr> else r))"

definition SetCursor :: "nat \<Rightarrow> string \<Rightarrow> CursorRow option \<Rightarrow> CursorRow option" where
  "SetCursor seq generation = setCursor seq generation False"

definition AdvanceCursor :: "bool \<Rightarrow> nat \<Rightarrow> string \<Rightarrow> CursorRow option \<Rightarrow> CursorRow option" where
  "AdvanceCursor markPending seq generation = setCursor seq generation markPending"

definition EmbedBackfillNeeded :: "CursorRow option \<Rightarrow> bool \<times> nat" where
  "EmbedBackfillNeeded row = (case row of None \<Rightarrow> (False, 0) | Some r \<Rightarrow> (crEmbed r \<noteq> crSeq r, crSeq r))"

definition StampEmbed :: "nat \<Rightarrow> CursorRow option \<Rightarrow> CursorRow option" where
  "StampEmbed seq row = Some ((row_of row)\<lparr>crEmbed := seq\<rparr>)"

definition linksSchemaVersion :: nat where "linksSchemaVersion = 2"

definition LinksVersion :: "CursorRow option \<Rightarrow> nat" where
  "LinksVersion row = crLinks (row_of row)"

definition LinksBackfillNeeded :: "CursorRow option \<Rightarrow> bool" where
  "LinksBackfillNeeded row = (if fst (Cursor row) = 0 then False else LinksVersion row \<noteq> linksSchemaVersion)"

definition stampLinksVersionAs :: "nat \<Rightarrow> CursorRow option \<Rightarrow> CursorRow option" where
  "stampLinksVersionAs version row = Some ((row_of row)\<lparr>crLinks := version\<rparr>)"

definition StampLinksVersion :: "CursorRow option \<Rightarrow> CursorRow option" where
  "StampLinksVersion = stampLinksVersionAs linksSchemaVersion"

section \<open>The sweep for documents without a vector\<close>

definition backfillPage :: nat where "backfillPage = 500"

definition unembedded :: "Doc \<Rightarrow> bool" where
  "unembedded d \<longleftrightarrow> dVector d = None \<and> \<not> dPending d \<and> embedRule (dScope d) (dDataset d) (length (utf8 (docText d)))"

definition unembeddedPage :: "('c, Doc) anystore \<Rightarrow> 'c \<Rightarrow> string \<Rightarrow> string list \<times> string \<times> bool" where
  "unembeddedPage S c lst =
     (let page = take backfillPage (filter (\<lambda>(k, d). lst = [] \<or> lst < k) (asAll S c))
      in (map fst (filter (\<lambda>(k, d). unembedded d) page), (if page = [] then [] else fst (last page)), length page = backfillPage))"

definition mark_pending :: "Doc \<Rightarrow> Doc" where
  "mark_pending d = (if dVector d \<noteq> None then d else d\<lparr>dPending := True\<rparr>)"

definition markPendingBatch :: "('c, Doc) anystore \<Rightarrow> string list \<Rightarrow> 'c \<Rightarrow> nat \<times> 'c" where
  "markPendingBatch S ids c =
     fold (\<lambda>i (n, c). (n + (case asGet S c i of Some d \<Rightarrow> (if dVector d = None then 1 else 0) | None \<Rightarrow> 0), asUpd S i mark_pending c)) ids (0, c)"

text \<open>\<open>faults k\<close> is the error the page numbered \<open>k\<close> meets, if any.\<close>

partial_function (option) backfill_loop :: "('c, Doc) anystore \<Rightarrow> (nat \<Rightarrow> 'e option) \<Rightarrow> nat \<Rightarrow> nat \<Rightarrow> string \<Rightarrow> 'c \<Rightarrow>
    (nat \<times> 'e option \<times> 'c) option" where
  "backfill_loop S faults k marked lst c =
     (case faults k of
        Some e \<Rightarrow> Some (marked, Some e, c)
      | None \<Rightarrow>
          let (ids, nxt, more) = unembeddedPage S c lst;
              (n, c') = markPendingBatch S ids c
          in if more then backfill_loop S faults (k + 1) (marked + n) nxt c' else Some (marked + n, None, c'))"

definition BackfillPending :: "('c, Doc) anystore \<Rightarrow> (nat \<Rightarrow> 'e option) \<Rightarrow> 'c \<Rightarrow> (nat \<times> 'e option \<times> 'c) option" where
  "BackfillPending S faults c = backfill_loop S faults 0 0 [] c"

section \<open>The meta row\<close>

text \<open>The errors that ask for a rebuild, and that of a dimension that is none.\<close>

datatype meta_error = BadDim int | RebuildSchema int | RebuildDim int int | RebuildChunk int int

definition indexSchemaVersion :: int where "indexSchemaVersion = 8"

record Meta =
  mSchema :: int
  mDim :: int
  mChunkRunes :: int

record StoreConf =
  scDim :: int
  scChunkRunes :: int

definition writeMeta :: "StoreConf \<Rightarrow> int \<Rightarrow> Meta option" where
  "writeMeta s dim = Some \<lparr>mSchema = indexSchemaVersion, mDim = dim, mChunkRunes = scChunkRunes s\<rparr>"

definition checkMeta :: "Meta option \<Rightarrow> StoreConf \<Rightarrow> meta_error + (Meta option \<times> StoreConf)" where
  "checkMeta meta s =
     (case meta of
        None \<Rightarrow> Inr (writeMeta s (scDim s), s)
      | Some v \<Rightarrow>
          if mSchema v \<noteq> indexSchemaVersion \<and> mSchema v \<noteq> indexSchemaVersion - 1 then Inl (RebuildSchema (mSchema v))
          else
            let s = (if mSchema v = indexSchemaVersion - 1 \<and> scChunkRunes s = 0 then s\<lparr>scChunkRunes := mChunkRunes v\<rparr> else s)
            in if mDim v \<noteq> scDim s \<and> scDim s \<noteq> 0 \<and> mDim v \<noteq> 0 then Inl (RebuildDim (mDim v) (scDim s))
               else
                 let s = (if mDim v \<noteq> scDim s \<and> scDim s = 0 then s\<lparr>scDim := mDim v\<rparr> else s)
                 in Inr (if mSchema v \<noteq> indexSchemaVersion \<or> mDim v \<noteq> scDim s then writeMeta s (scDim s) else meta, s))"

definition PinChunkRunes :: "int \<Rightarrow> Meta option \<Rightarrow> StoreConf \<Rightarrow> (meta_error + Meta option) \<times> StoreConf" where
  "PinChunkRunes n meta s =
     (let n = (if n \<le> 0 then int DefaultChunkRunes else n);
          s = s\<lparr>scChunkRunes := n\<rparr>
      in (case meta of
            Some v \<Rightarrow> if mChunkRunes v \<noteq> 0 \<and> mChunkRunes v \<noteq> n then Inl (RebuildChunk (mChunkRunes v) n) else Inr (writeMeta s (scDim s))
          | None \<Rightarrow> Inr (writeMeta s (scDim s)), s))"

definition EnsureDim :: "int \<Rightarrow> Meta option \<Rightarrow> StoreConf \<Rightarrow> meta_error + (Meta option \<times> StoreConf)" where
  "EnsureDim dim meta s =
     (if dim \<le> 0 then Inl (BadDim dim)
      else if scDim s = dim then Inr (meta, s)
      else if scDim s \<noteq> 0 then Inl (RebuildDim (scDim s) dim)
      else Inr (writeMeta s dim, s\<lparr>scDim := dim\<rparr>))"

section \<open>Key ranges\<close>

text \<open>
  The keys of the documents: object ids and dataset names have no colon, and no part has a control byte
  (\<open>indexableId\<close>). A removal names a document or a record, or an object or one of its datasets.
\<close>

definition key_ok :: "string \<Rightarrow> string \<Rightarrow> string \<Rightarrow> bool" where
  "key_ok obj ds rec \<longleftrightarrow> CHR '':'' \<notin> set obj \<and> CHR '':'' \<notin> set ds \<and> printable obj \<and> printable ds \<and> printable rec"

definition doc_key :: "string \<Rightarrow> bool" where
  "doc_key k \<longleftrightarrow> (\<exists>obj ds rec n. key_ok obj ds rec \<and> k = chunkDocId (docId obj ds rec) n)"

definition prefix_key :: "string \<Rightarrow> bool" where
  "prefix_key p \<longleftrightarrow> (\<exists>obj. CHR '':'' \<notin> set obj \<and> p = obj @ '':'') \<or>
     (\<exists>obj ds. CHR '':'' \<notin> set obj \<and> CHR '':'' \<notin> set ds \<and> p = obj @ '':'' @ ds @ '':'')"

lemma printable_docId: "key_ok obj ds rec \<Longrightarrow> printable (docId obj ds rec)"
  by (simp add: key_ok_def docId_def printable_def less_eq_char_def)

lemma sep_split: "c \<notin> set a \<Longrightarrow> c \<notin> set b \<Longrightarrow> a @ c # r = b @ c # s \<Longrightarrow> a = b \<and> r = s"
proof (induction a arbitrary: b)
  case Nil
  then show ?case by (cases b) auto
next
  case (Cons x a)
  then show ?case by (cases b) auto
qed

lemma colon_split: "CHR '':'' \<notin> set a \<Longrightarrow> CHR '':'' \<notin> set b \<Longrightarrow> a @ '':'' @ r = b @ '':'' @ s \<Longrightarrow> a = b \<and> r = s"
  using sep_split [of "CHR '':''" a b r s] by simp

lemma chunk_key_form: "\<exists>t. chunkDocId (docId obj ds rec) n = obj @ '':'' @ ds @ '':'' @ t"
  by (cases "n = 0") (simp_all add: chunkDocId_def docId_def)

lemma append_le_same: "(a :: string) @ x \<le> a @ y \<longleftrightarrow> x \<le> y"
  by (induction a) simp_all

lemma prefixUpper_exact:
  assumes "p = q @ '':''"
  shows "in_range p (prefixUpper p) x \<longleftrightarrow> prefix p x"
proof
  assume r: "in_range p (prefixUpper p) x"
  have up: "prefixUpper p = q @ '';''" by (simp add: assms prefixUpper_def)
  have "q @ [] \<le> p" unfolding assms append_le_same by simp
  then have "q \<le> x" using r by (auto simp: in_range_def)
  then obtain t where t: "x = q @ t" "t < '';''" using r prefix_between [of q x "'';''"] unfolding in_range_def up by auto
  have "'':'' \<le> t" using r unfolding in_range_def assms t(1) append_le_same by simp
  with t(2) obtain c t' where "t = c # t'" "c = CHR '':''"
    by (cases t) (auto simp: less_char_def less_eq_char_def)
  then show "prefix p x" using t(1) assms by (simp add: prefix_def)
next
  assume "prefix p x"
  then obtain t where t: "x = q @ CHR '':'' # t" by (auto simp: assms prefix_def)
  have "'':'' \<le> CHR '':'' # t" by simp
  moreover have "CHR '':'' # t < '';''" by (simp add: less_char_def)
  ultimately show "in_range p (prefixUpper p) x"
    unfolding in_range_def t assms prefixUpper_def by (simp add: append_le_same append_less_same)
qed

lemma prefix_key_ends: "prefix_key p \<Longrightarrow> \<exists>q. p = q @ '':''"
  unfolding prefix_key_def by (metis append_assoc)

lemma chunk_range:
  assumes "doc_key x" "printable base"
  shows "in_range x (recordUpper x) (chunkDocId base n) \<longleftrightarrow> x = chunkDocId base n \<or> x = base"
proof -
  from assms(1) obtain obj ds rec m where x: "key_ok obj ds rec" "x = chunkDocId (docId obj ds rec) m" by (auto simp: doc_key_def)
  let ?b = "docId obj ds rec"
  note pb = printable_docId [OF x(1)]
  show ?thesis
  proof (cases "m = 0")
    case True
    then have "x = ?b" using x(2) by (simp add: chunkDocId_def)
    then show ?thesis using record_documents [OF pb assms(2), of n] recordBase_chunkDocId [OF assms(2), of n] recordBase_chunkDocId [OF pb, of 0]
      unfolding in_range_def by (auto simp: chunkDocId_def)
  next
    case False
    have ne: "x \<noteq> base" using x(2) False printable_sep [OF assms(2)] by (auto simp: chunkDocId_def chunkSep_def)
    have "in_range x (recordUpper x) (chunkDocId base n) \<longleftrightarrow> x = chunkDocId base n"
    proof
      assume "in_range x (recordUpper x) (chunkDocId base n)"
      then obtain r where r: "chunkDocId base n = x @ r" "r < '' ''"
        using prefix_between [of x "chunkDocId base n" recordRangeEnd] by (auto simp: in_range_def recordUpper_def recordRangeEnd_def)
      have xs: "x = ?b @ CHR 0x1F # Itoa m" using x(2) False by (simp add: chunkDocId_def chunkSep_def)
      have "CHR 0x1F \<in> set (chunkDocId base n)" unfolding r(1) xs by simp
      then have n0: "n \<noteq> 0" using printable_sep [OF assms(2)] by (cases "n = 0") (auto simp: chunkDocId_def)
      then have e: "base @ CHR 0x1F # Itoa n = ?b @ CHR 0x1F # Itoa m @ r" using r(1) xs by (simp add: chunkDocId_def chunkSep_def)
      then have "Itoa n = Itoa m @ r" using sep_split [OF printable_sep [OF assms(2)] printable_sep [OF pb]] by blast
      then have "c \<in> set r \<Longrightarrow> CHR ''0'' \<le> c" for c using Itoa_digits [of c n] by auto
      note dig = this
      have "r = []"
      proof (cases r)
        case (Cons a l)
        then show ?thesis using dig [of a] r(2) by (simp add: less_char_def less_eq_char_def)
      qed simp
      then show "x = chunkDocId base n" using r(1) by simp
    next
      assume "x = chunkDocId base n"
      then show "in_range x (recordUpper x) (chunkDocId base n)"
        by (simp add: in_range_def recordUpper_def recordRangeEnd_def append_less_same [where x = "[]", simplified])
    qed
    then show ?thesis using ne by simp
  qed
qed

lemma through_colon_append: "CHR '':'' \<notin> set a \<Longrightarrow> through_colon (a @ '':'' @ r) = Some (a @ '':'', r)"
proof -
  assume a: "CHR '':'' \<notin> set a"
  have "index_sub [c] (a @ c # b) = Some (length a)" if "c \<notin> set a" for a b :: string and c
    using that by (induction a) (auto simp: has_prefix_iff)
  from this [OF a] show ?thesis by (simp add: through_colon_def)
qed

lemma prefix_key_docId:
  assumes "key_ok obj ds rec" "prefix_key p"
  shows "prefix p (chunkDocId (docId obj ds rec) n) \<longleftrightarrow> p = obj @ '':'' \<or> p = obj @ '':'' @ ds @ '':''"
proof -
  obtain t where k: "chunkDocId (docId obj ds rec) n = obj @ '':'' @ ds @ '':'' @ t" using chunk_key_form by blast
  have c: "CHR '':'' \<notin> set obj" "CHR '':'' \<notin> set ds" using assms(1) by (auto simp: key_ok_def)
  show ?thesis
  proof
    assume "prefix p (chunkDocId (docId obj ds rec) n)"
    then obtain s where s: "obj @ '':'' @ ds @ '':'' @ t = p @ s" unfolding k by (auto simp: prefix_def)
    from assms(2) consider (ob) o' where "CHR '':'' \<notin> set o'" "p = o' @ '':''"
      | (d) o' d' where "CHR '':'' \<notin> set o'" "CHR '':'' \<notin> set d'" "p = o' @ '':'' @ d' @ '':''"
      unfolding prefix_key_def by blast
    then show "p = obj @ '':'' \<or> p = obj @ '':'' @ ds @ '':''"
    proof cases
      case ob
      then show ?thesis using colon_split [OF c(1) ob(1), of "ds @ '':'' @ t" s] s by simp
    next
      case d
      then have "obj = o'" "ds @ '':'' @ t = d' @ '':'' @ s" using colon_split [OF c(1) d(1), of "ds @ '':'' @ t" "d' @ '':'' @ s"] s by simp_all
      then show ?thesis using colon_split [OF c(2) d(2), of t s] d(3) by simp
    qed
  next
    assume "p = obj @ '':'' \<or> p = obj @ '':'' @ ds @ '':''"
    then show "prefix p (chunkDocId (docId obj ds rec) n)" unfolding k by (auto simp: prefix_def)
  qed
qed

definition removed :: "string list \<Rightarrow> string list \<Rightarrow> string \<Rightarrow> bool" where
  "removed dels pres k \<longleftrightarrow> list_ex (\<lambda>p. in_range p (prefixUpper p) k) pres \<or> list_ex (\<lambda>x. in_range x (recordUpper x) k) dels"

lemma covers_exact:
  assumes "key_ok obj ds rec" "list_all doc_key dels" "list_all prefix_key pres"
  shows "covers (newRemovals dels pres) (chunkDocId (docId obj ds rec) n) \<longleftrightarrow> removed dels pres (chunkDocId (docId obj ds rec) n)"
proof -
  let ?k = "chunkDocId (docId obj ds rec) n"
  note pb = printable_docId [OF assms(1)]
  obtain t where k: "?k = obj @ '':'' @ ds @ '':'' @ t" using chunk_key_form by blast
  have c: "CHR '':'' \<notin> set obj" "CHR '':'' \<notin> set ds" using assms(1) by (auto simp: key_ok_def)
  have "through_colon ?k = Some (obj @ '':'', ds @ '':'' @ t)" "through_colon (ds @ '':'' @ t) = Some (ds @ '':'', t)"
    unfolding k using through_colon_append [OF c(1)] through_colon_append [OF c(2)] by simp_all
  then have "covers (newRemovals dels pres) ?k \<longleftrightarrow> ?k \<in> set dels \<or> docId obj ds rec \<in> set dels \<or>
      obj @ '':'' \<in> set pres \<or> obj @ '':'' @ ds @ '':'' \<in> set pres"
    unfolding covers_def recordBase_chunkDocId [OF pb] by (auto simp: newRemovals_def)
  moreover have "list_ex (\<lambda>x. in_range x (recordUpper x) ?k) dels \<longleftrightarrow> ?k \<in> set dels \<or> docId obj ds rec \<in> set dels"
    using assms(2) chunk_range [OF _ pb] by (auto simp: list_ex_iff list_all_iff)
  moreover have "list_ex (\<lambda>p. in_range p (prefixUpper p) ?k) pres \<longleftrightarrow> obj @ '':'' \<in> set pres \<or> obj @ '':'' @ ds @ '':'' \<in> set pres"
  proof -
    have "in_range p (prefixUpper p) ?k \<longleftrightarrow> p = obj @ '':'' \<or> p = obj @ '':'' @ ds @ '':''" if "p \<in> set pres" for p
      using that assms(3) prefixUpper_exact prefix_key_ends prefix_key_docId [OF assms(1), of p n] by (metis list_all_iff)
    then show ?thesis by (auto simp: list_ex_iff)
  qed
  ultimately show ?thesis unfolding removed_def by blast
qed

section \<open>What a page leaves\<close>

lemma any_storeD:
  assumes "any_store S"
  shows get_put: "asGet S (asPut S k d c) k' = (if k' = k then Some d else asGet S c k')"
    and get_upd: "asGet S (asUpd S k f c) k' = (if k' = k then map_option f (asGet S c k) else asGet S c k')"
    and get_del: "asGet S (asDel S k c) k' = (if k' = k then None else asGet S c k')"
    and get_del_range: "asGet S (asDelRange S lo hi c) k = (if in_range lo hi k then None else asGet S c k)"
    and range_set: "set (asRange S lo hi c) = {(k, d). in_range lo hi k \<and> asGet S c k = Some d}"
    and all_set: "set (asAll S c) = {(k, d). asGet S c k = Some d}"
    and all_sorted: "sorted_wrt (<) (map fst (asAll S c))"
    and get_none: "asGet S (asNone S) k = None"
  using assms unfolding any_store_def in_range_def by auto

lemma get_delete_ranges:
  "any_store S \<Longrightarrow> asGet S (fold (\<lambda>p. asDelRange S p (upper p)) ps c) k =
     (if list_ex (\<lambda>p. in_range p (upper p) k) ps then None else asGet S c k)"
  by (induction ps arbitrary: c) (auto simp: get_del_range)

lemma get_puts:
  assumes "any_store S"
  shows "asGet S (fold (\<lambda>x c. if skip x then c else asPut S (key x) (doc x) c) xs c) k =
     (case find (\<lambda>x. key x = k \<and> \<not> skip x) (rev xs) of Some x \<Rightarrow> Some (doc x) | None \<Rightarrow> asGet S c k)"
proof (induction xs rule: rev_induct)
  case (snoc x xs)
  then show ?case by (auto simp: get_put [OF assms])
qed simp

definition up_ok :: "DocUpsert \<Rightarrow> bool" where
  "up_ok up \<longleftrightarrow> key_ok (ieObjectId (duEntry up)) (ieDataset (duEntry up)) (ieRecordId (duEntry up))"

lemma up_covers:
  assumes "up_ok up" "list_all doc_key dels" "list_all prefix_key pres"
  shows "covers (newRemovals dels pres) (up_id up) \<longleftrightarrow> removed dels pres (up_id up)"
  using covers_exact [OF _ assms(2,3)] assms(1) by (simp add: up_ok_def up_id_def Let_def)

lemma page_documents_law:
  assumes "any_store S" "list_all up_ok ups" "list_all doc_key dels" "list_all prefix_key (prefixDels @ textPrefixDels)"
  shows "asGet S (apply_docs S markPending ups dels prefixDels textPrefixDels c) k =
    (if removed dels (prefixDels @ textPrefixDels) k then None
     else case find (\<lambda>up. up_id up = k) (rev ups) of Some up \<Rightarrow> Some (up_doc markPending up) | None \<Rightarrow> asGet S c k)"
proof -
  let ?gone = "newRemovals dels (prefixDels @ textPrefixDels)"
  let ?c = "delete_records S dels (delete_prefixes S (prefixDels @ textPrefixDels) c)"
  have c: "asGet S ?c k = (if removed dels (prefixDels @ textPrefixDels) k then None else asGet S c k)"
    unfolding delete_records_def delete_prefixes_def removed_def get_delete_ranges [OF assms(1)] by simp
  have "find (\<lambda>up. up_id up = k \<and> \<not> covers ?gone (up_id up)) (rev ups) =
      (if removed dels (prefixDels @ textPrefixDels) k then None else find (\<lambda>up. up_id up = k) (rev ups))"
  proof -
    have "up_id up = k \<and> \<not> covers ?gone (up_id up) \<longleftrightarrow> \<not> removed dels (prefixDels @ textPrefixDels) k \<and> up_id up = k"
      if "up \<in> set (rev ups)" for up
      using that assms(2) up_covers [OF _ assms(3,4), of up] by (auto simp: list_all_iff)
    then have "find (\<lambda>up. up_id up = k \<and> \<not> covers ?gone (up_id up)) (rev ups) =
        find (\<lambda>up. \<not> removed dels (prefixDels @ textPrefixDels) k \<and> up_id up = k) (rev ups)" by (intro find_cong) auto
    then show ?thesis by (simp add: find_None_iff)
  qed
  then show ?thesis unfolding apply_docs_def put_docs_def Let_def get_puts [OF assms(1)] c by simp
qed

text \<open>
  A page lands exactly its operations on the text documents: a document in a removed range (the prefix of an
  object or of one of its datasets, the record of a deletion or one of its chunks) is gone, and an upsert of the same
  page does not bring it back; any other document is the last upsert of its id, or what it was. The test that
  drops an upsert, two look-ups in a set, agrees with the ranges the store deletes.
\<close>

theorem page_documents:
  assumes "any_store S" "list_all up_ok ups" "list_all doc_key dels" "list_all prefix_key (prefixDels @ textPrefixDels)"
  shows "asGet S (apply_docs S markPending ups dels prefixDels textPrefixDels c) k =
    (if removed dels (prefixDels @ textPrefixDels) k then None
     else case find (\<lambda>up. up_id up = k) (rev ups) of Some up \<Rightarrow> Some (up_doc markPending up) | None \<Rightarrow> asGet S c k)"
  by (rule page_documents_law [OF assms])

section \<open>A collection that keeps the promises\<close>

definition mapStore :: "((string, 'd) fmap, 'd) anystore" where
  "mapStore = \<lparr>asGet = fmlookup, asPut = fmupd,
     asUpd = (\<lambda>k f c. case fmlookup c k of Some d \<Rightarrow> fmupd k (f d) c | None \<Rightarrow> c),
     asDel = fmdrop, asDelRange = (\<lambda>lo hi. fmfilter (\<lambda>k. \<not> in_range lo hi k)),
     asRange = (\<lambda>lo hi c. filter (\<lambda>(k, d). in_range lo hi k) (sorted_list_of_fmap c)),
     asAll = sorted_list_of_fmap, asNone = fmempty\<rparr>"

lemma mapStore_none [simp]: "asNone mapStore = fmempty"
  by (simp add: mapStore_def)

lemma set_sorted_list_of_fmap: "set (sorted_list_of_fmap m) = {(k, d). fmlookup m k = Some d}"
  unfolding sorted_list_of_fmap_def by (auto simp: fmlookup_dom_iff image_iff)

lemma sorted_list_of_fmap_sorted: "sorted_wrt (<) (map fst (sorted_list_of_fmap m))"
proof -
  have "map fst (sorted_list_of_fmap m) = sorted_list_of_set (fset (fmdom m))"
    by (simp add: sorted_list_of_fmap_def comp_def sorted_list_of_fset.rep_eq)
  then show ?thesis by simp
qed

lemma any_store_mapStore: "any_store mapStore"
  unfolding any_store_def mapStore_def using sorted_list_of_fmap_sorted
  by (auto simp: set_sorted_list_of_fmap in_range_def fmfilter_alt_defs split: option.splits)

definition demo_up :: DocUpsert where
  "demo_up = \<lparr>duEntry = \<lparr>ieScope = ''basic'', ieObjectId = ''o'', ieDataset = ''d'', ieRecordId = ''r'', ieData = [104, 105], ieTitle = [],
     ieApplySeq = 7, ieLinks = []\<rparr>, duChunk = 0, duVector = None\<rparr>"

lemma demo_up_ok: "up_ok demo_up" "up_id demo_up = ''o:d:r''"
  by (simp_all add: up_ok_def key_ok_def demo_up_def printable_def up_id_def chunkDocId_def docId_def less_eq_char_def)

theorem page_documents_witness:
  "asGet mapStore (apply_docs mapStore True [demo_up] [] [''p:''] [] fmempty) ''o:d:r'' = Some (up_doc True demo_up) \<and>
   asGet mapStore (apply_docs mapStore True [demo_up] [] [''o:''] [] fmempty) ''o:d:r'' = None"
proof -
  have p: "prefix_key ''p:''" "prefix_key ''o:''" unfolding prefix_key_def by (rule disjI1, rule exI [of _ "''p''"], simp, rule disjI1, rule exI [of _ "''o''"], simp)
  have "\<not> removed [] [''p:''] ''o:d:r''" "removed [] [''o:''] ''o:d:r''"
    by (simp_all add: removed_def in_range_def prefixUpper_def less_char_def less_eq_char_def)
  then show ?thesis using p demo_up_ok page_documents [OF any_store_mapStore, of "[demo_up]" "[]" "[''p:'']" "[]" True fmempty "''o:d:r''"]
      page_documents [OF any_store_mapStore, of "[demo_up]" "[]" "[''o:'']" "[]" True fmempty "''o:d:r''"] by simp
qed

section \<open>Opening a database again\<close>

text \<open>\<open>OpenStore\<close> (with an embedder's dimension, or 0) and \<open>PinChunkRunes\<close>, as the boot calls them.\<close>

definition open_pinned :: "int \<Rightarrow> int \<Rightarrow> Meta option \<Rightarrow> meta_error + (Meta option \<times> StoreConf)" where
  "open_pinned dim n meta =
     (case checkMeta meta \<lparr>scDim = dim, scChunkRunes = 0\<rparr> of
        Inl e \<Rightarrow> Inl e
      | Inr (meta', s) \<Rightarrow> (case PinChunkRunes n meta' s of (Inl e, _) \<Rightarrow> Inl e | (Inr meta'', s') \<Rightarrow> Inr (meta'', s')))"

lemmas meta_defs = open_pinned_def checkMeta_def PinChunkRunes_def writeMeta_def indexSchemaVersion_def Let_def

lemma open_pinned_result:
  assumes "open_pinned d n meta = Inr (meta', s)" "0 < n"
  shows "scChunkRunes s = n \<and> meta' = writeMeta s (scDim s)"
  using assms by (cases meta) (auto simp: meta_defs split: if_splits)

text \<open>
  What a database was built on is held to: once it was opened and pinned with a known vector dimension,
  opening it again succeeds exactly for that dimension (or none configured) and that chunk target, and then leaves
  its record and the store's settings as they were.
\<close>

theorem meta_held:
  assumes "open_pinned d1 n1 meta = Inr (meta1, s1)" "0 < n1" "0 < n2" "scDim s1 \<noteq> 0"
  shows "((\<exists>x. open_pinned d2 n2 meta1 = Inr x) \<longleftrightarrow> (d2 = 0 \<or> d2 = scDim s1) \<and> n2 = n1) \<and>
    open_pinned 0 n1 meta1 = Inr (meta1, s1) \<and> open_pinned (scDim s1) n1 meta1 = Inr (meta1, s1)"
proof -
  from open_pinned_result [OF assms(1,2)] have s1: "scChunkRunes s1 = n1" "meta1 = writeMeta s1 (scDim s1)" by auto
  have eq: "\<lparr>scDim = scDim s1, scChunkRunes = n1\<rparr> = s1" using s1(1) by (cases s1) simp
  show ?thesis using assms(2-4) s1 eq
    by (auto simp: meta_defs split: if_splits)
qed

text \<open>
  The record of the chunk target is lost when a dimension is first configured: the check at open writes the meta
  row with the chunk target the store has not been given yet, so the next pin accepts any.
\<close>

lemma chunk_pin_lost:
  assumes "open_pinned 0 n1 None = Inr (meta1, s1)" "0 < n1" "0 < n2" "d2 \<noteq> 0"
  shows "\<exists>x. open_pinned d2 n2 meta1 = Inr x"
  using assms by (auto simp: meta_defs)

theorem meta_held_witness:
  "(\<exists>x. open_pinned 3 900 None = Inr x) \<and> (\<nexists>x. open_pinned 3 800 (writeMeta \<lparr>scDim = 3, scChunkRunes = 900\<rparr> 3) = Inr x)"
proof -
  have o: "open_pinned 3 900 None = Inr (writeMeta \<lparr>scDim = 3, scChunkRunes = 900\<rparr> 3, \<lparr>scDim = 3, scChunkRunes = 900\<rparr>)"
    by (simp add: meta_defs)
  from meta_held [OF o, of 800 3] show ?thesis using o by simp
qed

end
