(* ===== verification/IndexEmbed.thy ===== *)
theory IndexEmbed
  imports IndexStore
begin

text \<open>
  The marks of the embedding queue over the life of a space's index (src/internal/indexer/store.go,
  embed_backfill.go): what the sweep of \<open>BackfillPending\<close> leaves, and that a cursor row whose embed field agrees with
  its cursor vouches for every document, along every run of the store's operations.
\<close>

section \<open>The sweep\<close>

lemma mark_pending_idem [simp]: "mark_pending (mark_pending d) = mark_pending d"
  by (simp add: mark_pending_def)

lemma mark_pending_marks [simp]: "\<not> unembedded (mark_pending d)"
  by (simp add: mark_pending_def unembedded_def)

lemma get_markPendingBatch:
  assumes "any_store S"
  shows "asGet S (snd (markPendingBatch S ids c)) k = (if k \<in> set ids then map_option mark_pending (asGet S c k) else asGet S c k)"
proof -
  have "asGet S (snd (fold (\<lambda>i (n, c). (n + f c i, asUpd S i mark_pending c)) ids (n, c))) k =
      (if k \<in> set ids then map_option mark_pending (asGet S c k) else asGet S c k)" for f and n :: nat
  proof (induction ids arbitrary: n c)
    case (Cons i ids)
    have *: "(mark_pending \<circ> mark_pending) = mark_pending" by (rule ext) simp
    show ?case by (simp add: Cons.IH get_upd [OF assms] option.map_comp *)
  qed simp
  from this [of "\<lambda>c i. case asGet S c i of Some d \<Rightarrow> (if dVector d = None then 1 else 0) | None \<Rightarrow> 0" 0] show ?thesis by (simp add: markPendingBatch_def)
qed

lemma all_keys: "any_store S \<Longrightarrow> set (map fst (asAll S c)) = {k. asGet S c k \<noteq> None}"
  by (force simp: all_set)

lemma keys_eq:
  assumes "any_store S" "\<And>k. asGet S c' k = None \<longleftrightarrow> asGet S c k = None"
  shows "map fst (asAll S c') = map fst (asAll S c)"
  by (rule strict_sorted_equal) (simp_all add: all_sorted [OF assms(1)] all_keys [OF assms(1)] assms(2) del: set_map)

definition keys_after :: "('c, Doc) anystore \<Rightarrow> 'c \<Rightarrow> string \<Rightarrow> string list" where
  "keys_after S c lst = filter (\<lambda>k. lst = [] \<or> lst < k) (map fst (asAll S c))"

lemma page_keys: "map fst (take n (filter (\<lambda>(k, d). lst = [] \<or> lst < k) (asAll S c))) = take n (keys_after S c lst)"
  by (simp add: keys_after_def filter_map comp_def case_prod_unfold flip: take_map)

lemma keys_after_sorted: "any_store S \<Longrightarrow> sorted_wrt (<) (keys_after S c lst)"
  unfolding keys_after_def by (intro sorted_wrt_filter all_sorted)

lemma sorted_filter_after:
  assumes "sorted_wrt (<) (xs :: string list)" "n < length xs"
  shows "filter (\<lambda>k. xs ! n < k) xs = drop (Suc n) xs"
proof -
  have "filter (\<lambda>k. xs ! n < k) (take (Suc n) xs) = []"
    using assms by (auto simp: filter_empty_conv in_set_conv_nth sorted_wrt_iff_nth_less less_Suc_eq) (metis less_asym)
  moreover have "filter (\<lambda>k. xs ! n < k) (drop (Suc n) xs) = drop (Suc n) xs"
    using assms by (auto simp: filter_id_conv in_set_conv_nth sorted_wrt_iff_nth_less)
  ultimately show ?thesis by (metis append_Nil append_take_drop_id filter_append)
qed

definition swept :: "Doc \<Rightarrow> Doc \<Rightarrow> bool" where
  "swept d d' \<longleftrightarrow> d' = d \<or> unembedded d \<and> d' = mark_pending d"

definition sweeps :: "('c, Doc) anystore \<Rightarrow> 'c \<Rightarrow> 'c \<Rightarrow> bool" where
  "sweeps S c c' \<longleftrightarrow> (\<forall>k. rel_option swept (asGet S c k) (asGet S c' k))"

lemma swept_trans: "swept d d' \<Longrightarrow> swept d' d'' \<Longrightarrow> swept d d''"
  by (auto simp: swept_def)

lemma sweeps_refl: "sweeps S c c"
  by (simp add: sweeps_def swept_def option.rel_refl)

lemma sweeps_trans:
  assumes "sweeps S c c'" "sweeps S c' c''"
  shows "sweeps S c c''"
  unfolding sweeps_def
proof
  fix k
  have "rel_option swept (asGet S c k) (asGet S c' k)" "rel_option swept (asGet S c' k) (asGet S c'' k)"
    using assms by (simp_all add: sweeps_def)
  then show "rel_option swept (asGet S c k) (asGet S c'' k)"
    by (cases "asGet S c k"; cases "asGet S c' k"; cases "asGet S c'' k") (auto intro: swept_trans)
qed

lemma sweeps_None: "sweeps S c c' \<Longrightarrow> asGet S c' k = None \<longleftrightarrow> asGet S c k = None"
  unfolding sweeps_def by (metis option.rel_distinct(1,2) option.exhaust)

lemma batch_sweeps:
  assumes "any_store S" "\<And>k. k \<in> set ids \<Longrightarrow> \<exists>d. asGet S c k = Some d \<and> unembedded d"
  shows "sweeps S c (snd (markPendingBatch S ids c))"
  unfolding sweeps_def get_markPendingBatch [OF assms(1)]
  using assms(2) by (fastforce simp: swept_def option.rel_refl)

text \<open>The documents up to a key are settled.\<close>

definition settled :: "('c, Doc) anystore \<Rightarrow> 'c \<Rightarrow> string set \<Rightarrow> bool" where
  "settled S c K \<longleftrightarrow> (\<forall>k \<in> K. pred_option (\<lambda>d. \<not> unembedded d) (asGet S c k))"

lemma settled_sweeps: "settled S c K \<Longrightarrow> sweeps S c c' \<Longrightarrow> settled S c' K"
  unfolding settled_def sweeps_def
proof
  fix k
  assume a: "\<forall>k \<in> K. pred_option (\<lambda>d. \<not> unembedded d) (asGet S c k)" "\<forall>k. rel_option swept (asGet S c k) (asGet S c' k)" "k \<in> K"
  then have "pred_option (\<lambda>d. \<not> unembedded d) (asGet S c k)" "rel_option swept (asGet S c k) (asGet S c' k)" by simp_all
  then show "pred_option (\<lambda>d. \<not> unembedded d) (asGet S c' k)" by (cases "asGet S c k"; cases "asGet S c' k") (auto simp: swept_def)
qed

lemma page_step:
  assumes S: "any_store S" and page: "unembeddedPage S c lst = (ids, nxt, mre)"
  defines "ks \<equiv> keys_after S c lst"
  shows "ids = filter (\<lambda>k. \<exists>d. asGet S c k = Some d \<and> unembedded d) (take backfillPage ks)"
    and "mre \<longleftrightarrow> backfillPage \<le> length ks" and "mre \<Longrightarrow> nxt = ks ! (backfillPage - 1)"
proof -
  let ?page = "take backfillPage (filter (\<lambda>(k, d). lst = [] \<or> lst < k) (asAll S c))"
  have keys: "map fst ?page = take backfillPage ks" unfolding ks_def by (rule page_keys)
  have len: "length ?page = min backfillPage (length ks)" using arg_cong [OF keys, of length] by (simp add: min.commute)
  have mem: "asGet S c k = Some d" if "(k, d) \<in> set ?page" for k d
    using that all_set [OF S, of c] by (auto dest: in_set_takeD)
  have e: "ids = map fst (filter (\<lambda>(k, d). unembedded d) ?page)" "nxt = (if ?page = [] then [] else fst (last ?page))" "mre \<longleftrightarrow> length ?page = backfillPage"
    using page unfolding unembeddedPage_def Let_def by auto
  have "map fst (filter (\<lambda>(k, d). unembedded d) ?page) = map fst (filter (\<lambda>x. \<exists>d. asGet S c (fst x) = Some d \<and> unembedded d) ?page)"
    using mem by (intro arg_cong [where f = "map fst"] filter_cong) auto
  then show "ids = filter (\<lambda>k. \<exists>d. asGet S c k = Some d \<and> unembedded d) (take backfillPage ks)"
    unfolding e(1) keys [symmetric] by (simp add: filter_map comp_def)
  show m: "mre \<longleftrightarrow> backfillPage \<le> length ks" unfolding e(3) len by auto
  assume mre
  then have l: "length ?page = backfillPage" using e(3) by simp
  have ne: "?page \<noteq> []" using l by (auto simp: backfillPage_def)
  have "fst (last ?page) = last (map fst ?page)" using ne by (simp add: last_map)
  also have "\<dots> = ks ! (backfillPage - 1)" unfolding keys using \<open>mre\<close> m
    by (subst last_conv_nth) (auto simp: backfillPage_def)
  finally show "nxt = ks ! (backfillPage - 1)" using e(2) ne by simp
qed

lemma next_keys:
  assumes S: "any_store S" and page: "unembeddedPage S c lst = (ids, nxt, mre)" and mre
  shows "nxt \<noteq> []" and "keys_after S c nxt = drop backfillPage (keys_after S c lst)"
proof -
  let ?ks = "keys_after S c lst"
  note step = page_step [OF S page]
  have len: "backfillPage \<le> length ?ks" using step(2) assms(3) by simp
  have nxt: "nxt = ?ks ! (backfillPage - 1)" using step(3) assms(3) by simp
  have "?ks ! 0 < nxt" unfolding nxt using keys_after_sorted [OF S, of c lst] len
    by (auto simp: sorted_wrt_iff_nth_less backfillPage_def)
  then show ne: "nxt \<noteq> []" by auto
  have "lst = [] \<or> lst < nxt" using nxt len nth_mem [of "backfillPage - 1" ?ks] by (auto simp: keys_after_def backfillPage_def)
  then have "keys_after S c nxt = filter (\<lambda>k. nxt < k) ?ks"
    unfolding keys_after_def filter_filter using ne by (intro filter_cong) auto
  also have "\<dots> = drop backfillPage ?ks"
    unfolding nxt using sorted_filter_after [OF keys_after_sorted [OF S, of c lst], of "backfillPage - 1"] len
    by (simp add: backfillPage_def)
  finally show "keys_after S c nxt = drop backfillPage ?ks" .
qed

lemma keys_after_eq:
  assumes "any_store S" "\<And>k. asGet S c' k = None \<longleftrightarrow> asGet S c k = None"
  shows "keys_after S c' lst = keys_after S c lst"
  using keys_eq [OF assms] by (simp add: keys_after_def)

lemma sweep_loop:
  assumes S: "any_store S"
  shows "settled S c (- set (keys_after S c lst)) \<Longrightarrow>
    \<exists>n e c'. backfill_loop S faults k marked lst c = Some (n, e, c') \<and> sweeps S c c' \<and> (e = None \<longrightarrow> settled S c' UNIV) \<and>
      (e = None \<or> (\<exists>k. e = faults k))"
proof (induction "length (keys_after S c lst)" arbitrary: c lst k marked rule: less_induct)
  case less
  let ?ks = "keys_after S c lst"
  obtain ids nxt mre where page: "unembeddedPage S c lst = (ids, nxt, mre)" by (metis prod.exhaust)
  note step = page_step [OF S page]
  obtain n c1 where batch: "markPendingBatch S ids c = (n, c1)" by (metis prod.exhaust)
  have sw: "sweeps S c c1" using batch_sweeps [OF S, of ids c] step(1) batch by auto
  have settled1: "settled S c1 (- set (drop backfillPage ?ks))"
    unfolding settled_def
  proof
    fix x assume x: "x \<in> - set (drop backfillPage ?ks)"
    show "pred_option (\<lambda>d. \<not> unembedded d) (asGet S c1 x)"
    proof (cases "x \<in> set ?ks")
      case True
      then have "x \<in> set (take backfillPage ?ks)" using x by (metis ComplD UnE append_take_drop_id set_append)
      then show ?thesis using get_markPendingBatch [OF S, of ids c x] batch step(1) by (cases "asGet S c x") auto
    next
      case False
      then show ?thesis using settled_sweeps [OF less.prems sw] by (simp add: settled_def)
    qed
  qed
  show ?case
  proof (cases "faults k")
    case (Some e)
    then show ?thesis using sweeps_refl [of S c] by (subst backfill_loop.simps) (auto intro: exI [of _ k])
  next
    case None
    note ok = this
    show ?thesis
    proof (cases mre)
      case False
      then have "drop backfillPage ?ks = []" using step(2) by simp
      then show ?thesis using settled1 sw False by (subst backfill_loop.simps) (simp add: page batch ok)
    next
      case True
      then have len: "backfillPage \<le> length ?ks" using step(2) by simp
      have ks1: "keys_after S c1 nxt = drop backfillPage ?ks"
        using keys_after_eq [OF S sweeps_None [OF sw]] next_keys(2) [OF S page True] by simp
      have "length (keys_after S c1 nxt) < length ?ks" unfolding ks1 using len by (simp add: backfillPage_def)
      from less.hyps [OF this, of "k + 1" "marked + n"] settled1 obtain m e c' where
        "backfill_loop S faults (k + 1) (marked + n) nxt c1 = Some (m, e, c')" "sweeps S c1 c'"
        "e = None \<longrightarrow> settled S c' UNIV" "e = None \<or> (\<exists>k. e = faults k)"
        unfolding ks1 by blast
      then show ?thesis using sweeps_trans [OF sw] True by (subst backfill_loop.simps) (auto simp: page batch ok)
    qed
  qed
qed

lemma sweep_marks:
  assumes "any_store S" "BackfillPending S faults c = Some (n, e, c')"
  shows "sweeps S c c' \<and> (e = None \<longrightarrow> settled S c' UNIV)"
proof -
  have "settled S c (- set (keys_after S c []))"
    using all_keys [OF assms(1), of c] by (auto simp: settled_def keys_after_def)
  from sweep_loop [OF assms(1) this, of faults 0 0] show ?thesis using assms(2) unfolding BackfillPending_def by auto
qed

text \<open>
  The sweep ends, and marks everything: whatever faults it meets, \<open>BackfillPending\<close> returns after finitely
  many pages, having changed only marks of documents without a vector; and when it reports no error, which it does when
  there was none, every document the upsert rule embeds has a vector or the pending mark.
\<close>

theorem sweep_marks_all:
  assumes "any_store S"
  shows "\<exists>n e c'. BackfillPending S faults c = Some (n, e, c') \<and> sweeps S c c' \<and> (e = None \<longrightarrow> settled S c' UNIV) \<and>
    (e = None \<or> (\<exists>k. e = faults k))"
proof -
  have "settled S c (- set (keys_after S c []))"
    using all_keys [OF assms, of c] by (auto simp: settled_def keys_after_def)
  from sweep_loop [OF assms this] show ?thesis unfolding BackfillPending_def by blast
qed

theorem sweep_marks_all_witness:
  "\<exists>n c'. BackfillPending mapStore (\<lambda>_. None :: string option) (fmupd ''o:d:r'' (up_doc False demo_up) fmempty) = Some (n, None, c') \<and>
     pred_option (\<lambda>d. \<not> unembedded d) (asGet mapStore c' ''o:d:r'')"
proof -
  from sweep_marks_all [OF any_store_mapStore, of "\<lambda>_. None :: string option" "fmupd ''o:d:r'' (up_doc False demo_up) fmempty"]
  obtain n c' where "BackfillPending mapStore (\<lambda>_. None :: string option) (fmupd ''o:d:r'' (up_doc False demo_up) fmempty) = Some (n, None, c')"
    "settled mapStore c' UNIV" by auto
  then show ?thesis unfolding settled_def by blast
qed

section \<open>Runs of the store\<close>

text \<open>
  The writes of one space's index over the life of a database, across runs with and without an embedder. A page and
  its cursor are two transactions (\<open>advancePages\<close>), between which a run may end. The sweep reads a page, marks it,
  and stamps the row when no page is left; it runs where the pages land, before them, so of the other writes only
  batches of vectors interleave with it, and it may end anywhere. The drop of a space whose index does not belong to
  the feed is a drop of the collection, then of the row; the rule \<open>stamp\<close> then writes the first row.

  \<open>ixOrphans\<close> follows the documents a page of a run without an embedder wrote, until that run lands the cursor
  (which makes the row ask for a sweep), a page of a run with an embedder rewrites them, or a sweep ends.
\<close>

datatype index_phase =
    NoSweep
  | Reading nat string
  | Marking nat "string list" string bool
  | Swept nat
  | Dropped

record 'c ixState =
  ixColl :: 'c
  ixRow :: "CursorRow option"
  ixSweep :: index_phase
  ixOrphans :: "string set"

inductive index_step :: "('c, Doc) anystore \<Rightarrow> 'c ixState \<Rightarrow> 'c ixState \<Rightarrow> bool" for S where
  page: "ixSweep st = NoSweep \<Longrightarrow> list_all up_ok ups \<Longrightarrow> list_all doc_key dels \<Longrightarrow>
    list_all prefix_key (prefixDels @ textPrefixDels) \<Longrightarrow>
    index_step S st (st\<lparr>ixColl := apply_docs S markPending ups dels prefixDels textPrefixDels (ixColl st),
      ixOrphans := (if markPending then ixOrphans st - up_id ` set ups else ixOrphans st \<union> up_id ` set ups)\<rparr>)"
| advance: "ixSweep st = NoSweep \<Longrightarrow> fst (Cursor (ixRow st)) < seq \<Longrightarrow>
    index_step S st (st\<lparr>ixRow := AdvanceCursor markPending seq gen (ixRow st),
      ixOrphans := (if markPending then ixOrphans st else {})\<rparr>)"
| stamp: "ixSweep st = NoSweep \<Longrightarrow> index_step S st (st\<lparr>ixRow := SetCursor (fst (Cursor (ixRow st))) gen (ixRow st)\<rparr>)"
| links: "ixSweep st = NoSweep \<Longrightarrow> index_step S st (st\<lparr>ixRow := StampLinksVersion (ixRow st)\<rparr>)"
| vectors: "SetVectors S (None :: string option) ids vecs (ixColl st) = (Inr (), c') \<Longrightarrow> index_step S st (st\<lparr>ixColl := c'\<rparr>)"
| sweep: "ixSweep st = NoSweep \<Longrightarrow> EmbedBackfillNeeded (ixRow st) = (True, seq) \<Longrightarrow>
    index_step S st (st\<lparr>ixSweep := Reading seq []\<rparr>)"
| sweep_read: "ixSweep st = Reading seq lst \<Longrightarrow> unembeddedPage S (ixColl st) lst = (ids, nxt, mre) \<Longrightarrow>
    index_step S st (st\<lparr>ixSweep := Marking seq ids nxt mre\<rparr>)"
| sweep_mark: "ixSweep st = Marking seq ids nxt mre \<Longrightarrow>
    index_step S st (st\<lparr>ixColl := snd (markPendingBatch S ids (ixColl st)), ixSweep := (if mre then Reading seq nxt else Swept seq)\<rparr>)"
| sweep_stamp: "ixSweep st = Swept seq \<Longrightarrow>
    index_step S st (st\<lparr>ixRow := StampEmbed seq (ixRow st), ixSweep := NoSweep, ixOrphans := {}\<rparr>)"
| sweep_ends: "index_step S st (st\<lparr>ixSweep := NoSweep\<rparr>)"
| drop: "ixSweep st = NoSweep \<Longrightarrow> index_step S st (st\<lparr>ixColl := asNone S, ixSweep := Dropped, ixOrphans := {}\<rparr>)"
| drop_row: "ixSweep st = Dropped \<Longrightarrow> index_step S st (st\<lparr>ixRow := None, ixSweep := NoSweep\<rparr>)"

inductive index_run :: "('c, Doc) anystore \<Rightarrow> 'c ixState \<Rightarrow> bool" for S where
  start: "index_run S \<lparr>ixColl = asNone S, ixRow = None, ixSweep = NoSweep, ixOrphans = {}\<rparr>"
| step: "index_run S st \<Longrightarrow> index_step S st st' \<Longrightarrow> index_run S st'"

text \<open>What a sweep in progress has left to look at.\<close>

definition unswept :: "('c, Doc) anystore \<Rightarrow> 'c \<Rightarrow> index_phase \<Rightarrow> string set" where
  "unswept S c ph =
     (case ph of NoSweep \<Rightarrow> UNIV
      | Reading seq lst \<Rightarrow> set (keys_after S c lst)
      | Marking seq ids nxt mre \<Rightarrow> set ids \<union> (if mre then set (keys_after S c nxt) else {})
      | Swept seq \<Rightarrow> {}
      | Dropped \<Rightarrow> {})"

definition phase_seq :: "index_phase \<Rightarrow> nat option" where
  "phase_seq ph = (case ph of NoSweep \<Rightarrow> None | Dropped \<Rightarrow> None | Reading seq lst \<Rightarrow> Some seq | Marking seq ids nxt mre \<Rightarrow> Some seq | Swept seq \<Rightarrow> Some seq)"

definition embed_inv :: "('c, Doc) anystore \<Rightarrow> 'c ixState \<Rightarrow> bool" where
  "embed_inv S st \<longleftrightarrow>
     crEmbed (row_of (ixRow st)) \<le> crSeq (row_of (ixRow st)) \<and>
     (crEmbed (row_of (ixRow st)) = crSeq (row_of (ixRow st)) \<longrightarrow> settled S (ixColl st) (- ixOrphans st)) \<and>
     (\<forall>seq. phase_seq (ixSweep st) = Some seq \<longrightarrow> seq = crSeq (row_of (ixRow st))) \<and>
     settled S (ixColl st) (- unswept S (ixColl st) (ixSweep st))"

lemmas row_defs = row_of_def Cursor_def SetCursor_def AdvanceCursor_def setCursor_def StampEmbed_def StampLinksVersion_def
  stampLinksVersionAs_def EmbedBackfillNeeded_def

lemma row_fields [simp]:
  "crSeq (row_of (AdvanceCursor m seq gen r)) = seq"
  "crEmbed (row_of (AdvanceCursor m seq gen r)) = (if m \<and> crEmbed (row_of r) = crSeq (row_of r) then seq else crEmbed (row_of r))"
  "crSeq (row_of (SetCursor seq gen r)) = seq"
  "crEmbed (row_of (SetCursor seq gen r)) = crEmbed (row_of r)"
  "crSeq (row_of (StampLinksVersion r)) = crSeq (row_of r)"
  "crEmbed (row_of (StampLinksVersion r)) = crEmbed (row_of r)"
  "crSeq (row_of (StampEmbed seq r)) = crSeq (row_of r)"
  "crEmbed (row_of (StampEmbed seq r)) = seq"
  "fst (Cursor r) = crSeq (row_of r)"
  "crSeq (row_of None) = 0" "crEmbed (row_of None) = 0"
  by (simp_all add: row_defs Let_def split: option.split)

lemma needed_row: "fst (EmbedBackfillNeeded r) \<longleftrightarrow> crEmbed (row_of r) \<noteq> crSeq (row_of r)"
  by (simp add: row_defs split: option.split)

lemma needed_seq: "EmbedBackfillNeeded r = (True, seq) \<Longrightarrow> seq = crSeq (row_of r)"
  by (simp add: row_defs split: option.splits)

lemma docText_up_doc: "docText (up_doc m up) = ieData (duEntry up)"
  by (simp add: docText_def up_doc_def Let_def split: list.split)

lemma up_doc_settled: "\<not> unembedded (up_doc True up)"
  by (simp add: unembedded_def docText_up_doc) (auto simp: up_doc_def Let_def shouldEmbed_def)

lemma settled_none: "any_store S \<Longrightarrow> settled S (asNone S) UNIV"
  by (simp add: settled_def get_none)

text \<open>Writes that keep the documents and unsettle none.\<close>

definition keeps_settled :: "('c, Doc) anystore \<Rightarrow> 'c \<Rightarrow> 'c \<Rightarrow> bool" where
  "keeps_settled S c c' \<longleftrightarrow>
     (\<forall>k. rel_option (\<lambda>d d'. \<not> unembedded d \<longrightarrow> \<not> unembedded d') (asGet S c k) (asGet S c' k))"

lemma keeps_settledD: "keeps_settled S c c' \<Longrightarrow> settled S c K \<Longrightarrow> settled S c' K"
  unfolding settled_def keeps_settled_def
proof
  fix k
  assume a: "\<forall>k. rel_option (\<lambda>d d'. \<not> unembedded d \<longrightarrow> \<not> unembedded d') (asGet S c k) (asGet S c' k)"
    "\<forall>k \<in> K. pred_option (\<lambda>d. \<not> unembedded d) (asGet S c k)" "k \<in> K"
  then have "rel_option (\<lambda>d d'. \<not> unembedded d \<longrightarrow> \<not> unembedded d') (asGet S c k) (asGet S c' k)"
    "pred_option (\<lambda>d. \<not> unembedded d) (asGet S c k)" by simp_all
  then show "pred_option (\<lambda>d. \<not> unembedded d) (asGet S c' k)" by (cases "asGet S c k"; cases "asGet S c' k") auto
qed

lemma keeps_settled_keys:
  assumes "any_store S" "keeps_settled S c c'"
  shows "keys_after S c' lst = keys_after S c lst"
proof (rule keys_after_eq [OF assms(1)])
  fix k
  show "asGet S c' k = None \<longleftrightarrow> asGet S c k = None"
    using assms(2) unfolding keeps_settled_def by (metis option.rel_distinct(1,2) option.exhaust)
qed

lemma keeps_settled_trans: "keeps_settled S c c' \<Longrightarrow> keeps_settled S c' c'' \<Longrightarrow> keeps_settled S c c''"
  unfolding keeps_settled_def
proof
  fix k
  assume "\<forall>k. rel_option (\<lambda>d d'. \<not> unembedded d \<longrightarrow> \<not> unembedded d') (asGet S c k) (asGet S c' k)"
    "\<forall>k. rel_option (\<lambda>d d'. \<not> unembedded d \<longrightarrow> \<not> unembedded d') (asGet S c' k) (asGet S c'' k)"
  then have "rel_option (\<lambda>d d'. \<not> unembedded d \<longrightarrow> \<not> unembedded d') (asGet S c k) (asGet S c' k)"
    "rel_option (\<lambda>d d'. \<not> unembedded d \<longrightarrow> \<not> unembedded d') (asGet S c' k) (asGet S c'' k)" by simp_all
  then show "rel_option (\<lambda>d d'. \<not> unembedded d \<longrightarrow> \<not> unembedded d') (asGet S c k) (asGet S c'' k)"
    by (cases "asGet S c k"; cases "asGet S c' k"; cases "asGet S c'' k") auto
qed

lemma keeps_settled_upd:
  assumes "any_store S" "\<And>d. \<not> unembedded d \<Longrightarrow> \<not> unembedded (f d)"
  shows "keeps_settled S c (asUpd S i f c)"
  unfolding keeps_settled_def get_upd [OF assms(1)] using assms(2)
  by (auto simp: option.rel_map intro!: option.rel_refl_strong)

lemma vectors_keep:
  assumes S: "any_store S" and v: "SetVectors S fault ids vecs c = (Inr (), c')"
  shows "keeps_settled S c c'"
proof -
  have "keeps_settled S c (fold (\<lambda>(i, v). asUpd S i (set_vector v)) ps c)" for ps c
  proof (induction ps arbitrary: c)
    case Nil
    show ?case by (auto simp: keeps_settled_def intro!: option.rel_refl)
  next
    case (Cons p ps)
    have "keeps_settled S c (asUpd S (fst p) (set_vector (snd p)) c)"
      by (rule keeps_settled_upd [OF S]) (simp add: set_vector_def unembedded_def)
    from keeps_settled_trans [OF this Cons.IH] show ?case by (simp add: case_prod_unfold)
  qed
  then show ?thesis using v keeps_settled_trans by (auto simp: SetVectors_def split: if_splits option.splits)
qed

lemma batch_keeps:
  assumes "any_store S"
  shows "keeps_settled S c (snd (markPendingBatch S ids c))"
  unfolding keeps_settled_def get_markPendingBatch [OF assms]
  by (auto simp: option.rel_map intro!: option.rel_refl_strong)

lemma find_rev_None: "find (\<lambda>up. up_id up = k) (rev ups) = None \<longleftrightarrow> k \<notin> up_id ` set ups"
  by (auto simp: find_None_iff)

lemma find_rev_Some: "find (\<lambda>up. up_id up = k) (rev ups) = Some up \<Longrightarrow> k \<in> up_id ` set ups"
  by (auto simp: find_Some_iff in_set_conv_nth) (metis in_set_conv_nth length_rev rev_nth set_rev image_eqI)

lemma settled_page:
  assumes S: "any_store S" "list_all up_ok ups" "list_all doc_key dels" "list_all prefix_key (prefixDels @ textPrefixDels)"
    and left: "settled S c (- left)"
  shows "settled S (apply_docs S markPending ups dels prefixDels textPrefixDels c)
    (- (if markPending then left - up_id ` set ups else left \<union> up_id ` set ups))"
  unfolding settled_def
proof
  fix k assume k: "k \<in> - (if markPending then left - up_id ` set ups else left \<union> up_id ` set ups)"
  let ?find = "find (\<lambda>up. up_id up = k) (rev ups)"
  show "pred_option (\<lambda>d. \<not> unembedded d) (asGet S (apply_docs S markPending ups dels prefixDels textPrefixDels c) k)"
  proof (cases ?find)
    case None
    then have "k \<notin> left" using k find_rev_None [of k ups] by (auto split: if_splits)
    then show ?thesis using left None unfolding page_documents_law [OF S] by (simp add: settled_def)
  next
    case (Some up)
    then have markPending using k find_rev_Some [OF Some] by (auto split: if_splits)
    then show ?thesis using Some unfolding page_documents_law [OF S] by (simp add: up_doc_settled)
  qed
qed

lemma settled_mono: "settled S c K \<Longrightarrow> K' \<subseteq> K \<Longrightarrow> settled S c K'"
  by (auto simp: settled_def)

lemma unswept_keeps:
  assumes "any_store S" "keeps_settled S c c'"
  shows "unswept S c' ph = unswept S c ph"
  by (simp add: unswept_def keeps_settled_keys [OF assms] split: index_phase.split)

text \<open>A page read: what it does not hand on to be marked is settled, or comes after it.\<close>

lemma settled_read:
  assumes S: "any_store S" and page: "unembeddedPage S c lst = (ids, nxt, mre)" and c: "settled S c (- set (keys_after S c lst))"
  shows "settled S c (- (set ids \<union> (if mre then set (keys_after S c nxt) else {})))"
  unfolding settled_def
proof
  let ?ks = "keys_after S c lst"
  note step = page_step [OF S page]
  fix k assume k: "k \<in> - (set ids \<union> (if mre then set (keys_after S c nxt) else {}))"
  have rest: "set (drop backfillPage ?ks) = (if mre then set (keys_after S c nxt) else {})"
    using next_keys(2) [OF S page] step(2) by (cases mre) simp_all
  show "pred_option (\<lambda>d. \<not> unembedded d) (asGet S c k)"
  proof (cases "k \<in> set ?ks")
    case True
    moreover have "k \<notin> set (drop backfillPage ?ks)" using k rest by simp
    ultimately have "k \<in> set (take backfillPage ?ks)" by (metis UnE append_take_drop_id set_append)
    then have "\<not> (\<exists>d. asGet S c k = Some d \<and> unembedded d)" using k unfolding step(1) by simp
    then show ?thesis by (cases "asGet S c k") auto
  next
    case False
    with c show ?thesis by (simp add: settled_def)
  qed
qed

lemma settled_mark:
  assumes S: "any_store S" and c: "settled S c (- (set ids \<union> K))"
  shows "settled S (snd (markPendingBatch S ids c)) (- K)"
  using c unfolding settled_def get_markPendingBatch [OF S] by (auto simp: option.pred_map comp_def pred_option_def split: option.splits)

lemma settled_empty [simp]: "settled S c {}"
  by (simp add: settled_def)

lemma embed_inv_step:
  assumes S: "any_store S" and st: "index_step S st st'" and inv: "embed_inv S st"
  shows "embed_inv S st'"
proof -
  note i = inv [unfolded embed_inv_def]
  show ?thesis
    using st
  proof cases
    case (page ups dels prefixDels textPrefixDels m)
    from settled_page [OF S page(3,4,5), of "ixColl st" "ixOrphans st" m] show ?thesis
      using i unfolding page(1) embed_inv_def by (simp add: page(2) unswept_def phase_seq_def settled_def)
  next
    case (advance m seq gen)
    from i show ?thesis unfolding advance(1) embed_inv_def using advance(2,3)
      by (cases m) (auto simp: unswept_def phase_seq_def settled_def)
  next
    case (vectors ids vecs c')
    note k = vectors_keep [OF S vectors(2)]
    from i keeps_settledD [OF k] show ?thesis unfolding vectors(1) embed_inv_def by (simp add: unswept_keeps [OF S k])
  next
    case (sweep seq)
    have "settled S (ixColl st) (- set (keys_after S (ixColl st) []))"
      using all_keys [OF S, of "ixColl st"] by (auto simp: settled_def keys_after_def)
    then show ?thesis using i needed_seq [OF sweep(3)] unfolding sweep(1) embed_inv_def by (simp add: unswept_def phase_seq_def)
  next
    case (sweep_read seq lst ids nxt mre)
    have "settled S (ixColl st) (- set (keys_after S (ixColl st) lst))" using i sweep_read(2) by (simp add: unswept_def)
    from settled_read [OF S sweep_read(3) this] show ?thesis
      using i sweep_read(2) unfolding sweep_read(1) embed_inv_def by (simp add: unswept_def phase_seq_def)
  next
    case (sweep_mark seq ids nxt mre)
    let ?c = "snd (markPendingBatch S ids (ixColl st))"
    note k = batch_keeps [OF S, of "ixColl st" ids]
    have "settled S ?c (- (if mre then set (keys_after S (ixColl st) nxt) else {}))"
      using i sweep_mark(2) by (intro settled_mark [OF S]) (simp add: unswept_def)
    then show ?thesis using i keeps_settledD [OF k] sweep_mark(2) unfolding sweep_mark(1) embed_inv_def
      by (cases mre) (simp_all add: unswept_def phase_seq_def keeps_settled_keys [OF S k])
  next
    case (sweep_stamp seq)
    then show ?thesis using i unfolding sweep_stamp(1) embed_inv_def by (simp add: unswept_def phase_seq_def)
  next
    case drop
    then show ?thesis using i settled_none [OF S] by (simp add: embed_inv_def unswept_def phase_seq_def settled_def)
  next
    case drop_row
    then show ?thesis using i by (simp add: embed_inv_def unswept_def phase_seq_def settled_def)
  qed (use i in \<open>simp_all add: embed_inv_def unswept_def phase_seq_def settled_def\<close>)
qed

text \<open>
  C32. A cursor row vouches for the index, up to what a run without an embedder left behind. Along every run of the store's
  writes, with an embedder configured or not from one run of the process to the next, with pages and cursors landing in
  transactions of their own, sweeps read, marked and stamped page by page while vectors land, and every one of these
  ending anywhere: whenever the row does not ask for a sweep, every document the upsert rule embeds has its vector or
  waits in the queue for one, except those that a page of a run without an embedder wrote, where that run ended before
  its cursor landed, and that no page of a run with an embedder and no sweep has reached since. A sweep that
  comes to its end leaves no such document. The comment of embed_backfill.go promises this of every document, without the
  exception; \<open>page_without_cursor\<close> reaches it.
\<close>

theorem row_vouches:
  assumes "any_store S" "index_run S st"
  shows "(\<not> fst (EmbedBackfillNeeded (ixRow st)) \<longrightarrow> settled S (ixColl st) (- ixOrphans st)) \<and>
    (\<forall>seq. ixSweep st = Swept seq \<longrightarrow> settled S (ixColl st) UNIV)"
proof -
  have "embed_inv S st" if "index_run S st" for st
    using that
  proof induction
    case start
    then show ?case using settled_none [OF assms(1)] by (simp add: embed_inv_def unswept_def phase_seq_def settled_def)
  next
    case (step st st')
    then show ?case using embed_inv_step [OF assms(1)] by blast
  qed
  from this [OF assms(2)] show ?thesis
    by (auto simp: embed_inv_def unswept_def needed_row)
qed

definition demo_landed :: "(string, Doc) fmap ixState" where
  "demo_landed = \<lparr>ixColl = apply_docs mapStore True [demo_up] [] [] [] fmempty, ixRow = AdvanceCursor True 7 ''g'' None,
     ixSweep = NoSweep, ixOrphans = {}\<rparr>"

theorem row_vouches_witness:
  "index_run mapStore demo_landed \<and> \<not> fst (EmbedBackfillNeeded (ixRow demo_landed)) \<and> settled mapStore (ixColl demo_landed) UNIV"
proof -
  let ?s0 = "\<lparr>ixColl = asNone mapStore, ixRow = None, ixSweep = NoSweep, ixOrphans = {}\<rparr>"
  let ?s1 = "?s0\<lparr>ixColl := apply_docs mapStore True [demo_up] [] [] [] (asNone mapStore)\<rparr>"
  have "index_step mapStore ?s0 ?s1"
    using index_step.page [of ?s0 "[demo_up]" "[]" "[]" "[]" mapStore True] demo_up_ok by simp
  moreover have "index_step mapStore ?s1 demo_landed"
    using index_step.advance [of ?s1 7 mapStore True "''g''"] by (simp add: demo_landed_def mapStore_none row_defs)
  ultimately have r: "index_run mapStore demo_landed" by (metis index_run.start index_run.step)
  have "\<not> fst (EmbedBackfillNeeded (ixRow demo_landed))" by (simp add: demo_landed_def row_defs)
  with row_vouches [OF any_store_mapStore r] r show ?thesis by (simp add: demo_landed_def)
qed

section \<open>Two gaps\<close>

text \<open>
  The embed loop reads a batch, asks the embedder and lands the vectors while the advance loop lands pages. A document
  that is rewritten in between gets the vector of its old text and loses its mark: it then counts as embedded.
\<close>

lemma stale_vector:
  assumes "any_store S" "up_ok up" "duVector up = None"
  shows "\<exists>c'. SetVectors S (None :: string option) [up_id up] [v] (apply_docs S True [up] [] [] [] c) = (Inr (), c') \<and>
    (\<exists>d. asGet S c' (up_id up) = Some d \<and> docText d = ieData (duEntry up) \<and> dVector d = Some v \<and> \<not> dPending d)"
proof -
  have "asGet S (apply_docs S True [up] [] [] [] c) (up_id up) = Some (up_doc True up)"
    using page_documents_law [OF assms(1), of "[up]" "[]" "[]" "[]" True c "up_id up"] assms(2) by (simp add: removed_def)
  moreover have "docText (set_vector v (up_doc True up)) = docText (up_doc True up)" by (simp add: docText_def set_vector_def split: option.split list.split)
  ultimately show ?thesis using get_upd [OF assms(1)] by (simp add: SetVectors_def docText_up_doc) (simp add: set_vector_def)
qed

text \<open>
  A run without an embedder that stops between a page and its cursor leaves documents without a mark under a row that
  asks for no sweep.
\<close>

lemma page_without_cursor:
  assumes "any_store S" "up_ok up" "duVector up = None" "shouldEmbed (duEntry up)"
    and st: "index_run S st" "ixSweep st = NoSweep" "crEmbed (row_of (ixRow st)) = crSeq (row_of (ixRow st))"
  shows "\<exists>st'. index_run S st' \<and> ixRow st' = ixRow st \<and> \<not> fst (EmbedBackfillNeeded (ixRow st')) \<and>
    up_id up \<in> ixOrphans st' \<and> \<not> settled S (ixColl st') {up_id up}"
proof -
  let ?c = "apply_docs S False [up] [] [] [] (ixColl st)"
  have "asGet S ?c (up_id up) = Some (up_doc False up)"
    using page_documents_law [OF assms(1), of "[up]" "[]" "[]" "[]" False "ixColl st" "up_id up"] assms(2) by (simp add: removed_def)
  moreover have "unembedded (up_doc False up)"
    using assms(3,4) by (simp add: unembedded_def docText_up_doc) (simp add: up_doc_def Let_def shouldEmbed_def)
  ultimately have "\<not> settled S ?c {up_id up}" by (simp add: settled_def)
  moreover have "index_step S st (st\<lparr>ixColl := ?c, ixOrphans := insert (up_id up) (ixOrphans st)\<rparr>)"
    using index_step.page [of st "[up]" "[]" "[]" "[]" S False] st(2) assms(2) by simp
  ultimately show ?thesis using st
    by (intro exI [of _ "st\<lparr>ixColl := ?c, ixOrphans := insert (up_id up) (ixOrphans st)\<rparr>"]) (auto simp: needed_row intro: index_run.step)
qed

end
