(* ===== verification/IndexWorker.thy ===== *)
theory IndexWorker
  imports IndexEmbed
begin

text \<open>
  The worker of a space (src/internal/indexer/worker.go): the plan that turns a chunker's entries and the stored hashes
  into a page of upserts and deletions, the difference of an object's edges, the collection of a changed object over the
  registered chunkers, the loop that advances the cursor page by page, the alignment of a stored index
  with the feed, and the loop that embeds what is pending.

  Parameters are the code of other packages: the chunkers (the interfaces of src/internal/index/index.go), the
  change feed, the objects row and the embedder. The log and the process reports are left out.
\<close>

section \<open>A page under construction\<close>

record pageOps =
  pgUps :: "DocUpsert list"
  pgDels :: "string list"
  pgPrefixDels :: "string list"
  pgTextPrefixDels :: "string list"
  pgLinks :: LinkOps

definition no_links :: LinkOps where
  "no_links = \<lparr>loUps = [], loSeqs = [], loDels = [], loTouched = []\<rparr>"

definition empty_page :: pageOps where
  "empty_page = \<lparr>pgUps = [], pgDels = [], pgPrefixDels = [], pgTextPrefixDels = [], pgLinks = no_links\<rparr>"

definition indexableId :: "string \<Rightarrow> bool" where
  "indexableId part = list_all (\<lambda>c. \<not> c < CHR 0x20) part"

definition entry_base :: "IndexEntry \<Rightarrow> string" where
  "entry_base e = docId (ieObjectId e) (ieDataset e) (ieRecordId e)"

text \<open>
  \<open>planDocs\<close>: the fields of the accumulator are \<open>seen\<close>, \<open>gone\<close> and \<open>unindexable\<close>; \<open>stored\<close> is
  the map from document ids to hashes, in the order it is walked at the end.
\<close>

record planAcc =
  paUps :: "DocUpsert list"
  paDels :: "string list"
  paSeen :: "string list"
  paGone :: "string list"
  paSkipped :: "string list"

definition unchanged :: "(string \<times> string) list \<Rightarrow> DocUpsert \<Rightarrow> bool" where
  "unchanged stored up \<longleftrightarrow> map_of stored (up_id up) = Some (docHash (ieData (duEntry up)) (ieTitle (duEntry up)))"

definition plan_entry :: "(string \<times> string) list \<Rightarrow> int \<Rightarrow> IndexEntry \<Rightarrow> planAcc \<Rightarrow> planAcc" where
  "plan_entry stored chunkRunes e acc =
     (if \<not> indexableId (ieRecordId e) \<or> \<not> indexableId (ieDataset e)
      then acc\<lparr>paSkipped := paSkipped acc @ [ieDataset e @ '':'' @ ieRecordId e]\<rparr>
      else if ieData e = []
      then acc\<lparr>paDels := paDels acc @ [entry_base e], paGone := paGone acc @ [entry_base e]\<rparr>
      else
        let ups = expandEntry e chunkRunes in
        acc\<lparr>paSeen := paSeen acc @ map up_id ups, paUps := paUps acc @ filter (\<lambda>up. \<not> unchanged stored up) ups\<rparr>)"

definition planDocs :: "IndexEntry list \<Rightarrow> (string \<times> string) list \<Rightarrow> int \<Rightarrow> pageOps \<Rightarrow> pageOps \<times> string list" where
  "planDocs entries stored chunkRunes page =
     (let acc = fold (plan_entry stored chunkRunes) entries
                  \<lparr>paUps = pgUps page, paDels = pgDels page, paSeen = [], paGone = [], paSkipped = []\<rparr>;
          vanished = filter (\<lambda>i. i \<notin> set (paSeen acc) \<and> recordBase i \<notin> set (paGone acc)) (map fst stored)
      in (page\<lparr>pgUps := paUps acc, pgDels := paDels acc @ vanished\<rparr>, paSkipped acc))"

section \<open>Edges of an object\<close>

record objectLinks =
  olEdges :: "(string \<times> LinkEntry \<times> nat) list"
  olScopes :: "string list"

definition objectLinks_add :: "LinkEntry \<Rightarrow> nat \<Rightarrow> objectLinks \<Rightarrow> objectLinks" where
  "objectLinks_add e seq ls = ls\<lparr>olEdges := upsert (\<lambda>_. (e, seq)) (linkDocId e) (olEdges ls)\<rparr>"

definition plan_links_entry :: "bool \<Rightarrow> IndexEntry \<Rightarrow> objectLinks \<Rightarrow> objectLinks" where
  "plan_links_entry full e ls =
     (if \<not> indexableId (ieRecordId e) \<or> \<not> indexableId (ieDataset e) then ls
      else
        let ls = (if \<not> full then ls\<lparr>olScopes := olScopes ls @ [linkRecordPrefix (ieObjectId e) (ieDataset e) (ieRecordId e)]\<rparr> else ls)
        in fold (\<lambda>l ls. if \<not> indexableId (leRecordId l) \<or> \<not> indexableId (leDataset l) then ls
                        else objectLinks_add l (ieApplySeq e) ls) (ieLinks e) ls)"

definition planLinks :: "IndexEntry list \<Rightarrow> string \<Rightarrow> string \<Rightarrow> bool \<Rightarrow> objectLinks \<Rightarrow> objectLinks" where
  "planLinks entries objectId dataset full ls =
     fold (plan_links_entry full) entries
       (if full then ls\<lparr>olScopes := olScopes ls @ [objectId @ '':'' @ dataset @ '':'']\<rparr> else ls)"

text \<open>\<open>stored\<close> maps the stored ids under the object to their liveness keys.\<close>

definition diffLinks :: "(string \<times> string) list \<Rightarrow> nat \<Rightarrow> objectLinks \<Rightarrow> pageOps \<Rightarrow> pageOps" where
  "diffLinks stored_links cursor ls page =
     (if olScopes ls = [] \<and> olEdges ls = [] then page
      else
        let stored = (if cursor > 0 then stored_links else []);
            dels = filter (\<lambda>(i, key). map_of (olEdges ls) i = None \<and> list_ex (\<lambda>p. has_prefix p i) (olScopes ls)) stored;
            ups = filter (\<lambda>(i, up). map_of stored i = None) (olEdges ls);
            touched = remdups (map snd dels @ map (\<lambda>(i, e, seq). linkTargetKey (leTarget e)) ups);
            o' = pgLinks page
        in page\<lparr>pgLinks := o'\<lparr>loDels := loDels o' @ map fst dels, loUps := loUps o' @ map (\<lambda>(i, e, seq). e) ups,
              loSeqs := loSeqs o' @ map (\<lambda>(i, e, seq). seq) ups, loTouched := loTouched o' @ touched\<rparr>\<rparr>)"

section \<open>Chunkers\<close>

text \<open>A chunker with its optional capabilities.\<close>

record 'e Chunker =
  ckDataset :: string
  ckTypeId :: string
  ckEvictDatasets :: "(string list \<Rightarrow> 'e + string list) option"
  ckEvictText :: "(string list \<Rightarrow> string list) option"
  ckReconcileAll :: "(string \<Rightarrow> nat \<Rightarrow> 'e + (string \<times> IndexEntry list) list) option"
  ckReconcile :: "(string \<Rightarrow> nat \<Rightarrow> 'e + IndexEntry list) option"
  ckChunksSince :: "string \<Rightarrow> nat \<Rightarrow> 'e + IndexEntry list"
  ckWholeLinks :: bool

text \<open>What the worker reads: its collections and the chunk target.\<close>

record ('c, 'l) worker =
  wkDocs :: "('c, Doc) anystore"
  wkLinks :: "('l, LinkDoc) anystore"
  wkChunkRunes :: int

definition plan_collection :: "('c, 'l) worker \<Rightarrow> 'c \<Rightarrow> string \<Rightarrow> string \<Rightarrow> IndexEntry list \<Rightarrow> pageOps \<times> objectLinks \<Rightarrow> pageOps \<times> objectLinks" where
  "plan_collection w c objectId coll entries st =
     (fst (planDocs entries (DocHashes (wkDocs w) c (objectId @ '':'' @ coll @ '':'')) (wkChunkRunes w) (fst st)),
      planLinks entries objectId coll True (snd st))"

definition reconcile :: "('c, 'l) worker \<Rightarrow> 'c \<Rightarrow> (string \<Rightarrow> nat \<Rightarrow> 'e + IndexEntry list) \<Rightarrow> string \<Rightarrow> string \<Rightarrow> nat \<Rightarrow> pageOps \<times> objectLinks \<Rightarrow> 'e + pageOps \<times> objectLinks" where
  "reconcile w c rc dataset objectId cursor st =
     (case rc objectId cursor of Inl e \<Rightarrow> Inl e | Inr entries \<Rightarrow> Inr (plan_collection w c objectId dataset entries st))"

definition reconcileMulti :: "('c, 'l) worker \<Rightarrow> 'c \<Rightarrow> (string \<Rightarrow> nat \<Rightarrow> 'e + (string \<times> IndexEntry list) list) \<Rightarrow> string \<Rightarrow> nat \<Rightarrow> pageOps \<times> objectLinks \<Rightarrow> 'e + pageOps \<times> objectLinks" where
  "reconcileMulti w c mr objectId cursor st =
     (case mr objectId cursor of Inl e \<Rightarrow> Inl e
      | Inr sets \<Rightarrow> Inr (fold (\<lambda>(coll, entries). plan_collection w c objectId coll entries) sets st))"

definition stream_bases :: "IndexEntry list \<Rightarrow> string list" where
  "stream_bases entries = map entry_base (filter (\<lambda>e. ieData e \<noteq> [] \<and> indexableId (ieRecordId e) \<and> indexableId (ieDataset e)) entries)"

definition streamChunks :: "('c, 'l) worker \<Rightarrow> 'c \<Rightarrow> 'e Chunker \<Rightarrow> string \<Rightarrow> nat \<Rightarrow> pageOps \<times> objectLinks \<Rightarrow> 'e + pageOps \<times> objectLinks" where
  "streamChunks w c ch objectId cursor st =
     (case ckChunksSince ch objectId cursor of Inl e \<Rightarrow> Inl e
      | Inr entries \<Rightarrow>
          let ls = planLinks entries objectId (ckDataset ch) (ckWholeLinks ch) (snd st);
              stored = (if cursor = 0 then [] else DocHashesByRecords (wkDocs w) c (stream_bases entries))
          in Inr (fst (planDocs entries stored (wkChunkRunes w) (fst st)), ls))"

text \<open>
  The eviction a chunker asks for, and the run over its entries: \<open>None\<close> when the gate leaves the chunker out.
\<close>

definition chunker_evicts :: "'e Chunker \<Rightarrow> string list \<Rightarrow> string \<Rightarrow> pageOps \<Rightarrow> ('e + pageOps) \<times> bool" where
  "chunker_evicts ch attached objectId page =
     (case ckEvictDatasets ch of
        Some evict \<Rightarrow>
          (case evict attached of
             Inl e \<Rightarrow> (Inl e, True)
           | Inr evicted \<Rightarrow>
               (Inr (page\<lparr>pgPrefixDels := pgPrefixDels page @ map (\<lambda>ds. objectId @ '':'' @ ds @ '':'') evicted,
                  pgTextPrefixDels := pgTextPrefixDels page @
                    (case ckEvictText ch of Some f \<Rightarrow> map (\<lambda>ds. objectId @ '':'' @ ds @ '':'') (f attached) | None \<Rightarrow> [])\<rparr>), True))
      | None \<Rightarrow>
          if ckTypeId ch \<noteq> [] \<and> ckTypeId ch \<notin> set attached
          then (Inr (page\<lparr>pgPrefixDels := pgPrefixDels page @ [objectId @ '':'' @ ckDataset ch @ '':'']\<rparr>), False)
          else (Inr page, True))"

definition run_chunker :: "('c, 'l) worker \<Rightarrow> 'c \<Rightarrow> 'e Chunker \<Rightarrow> string \<Rightarrow> nat \<Rightarrow> pageOps \<times> objectLinks \<Rightarrow> 'e + pageOps \<times> objectLinks" where
  "run_chunker w c ch objectId cursor st =
     (case ckReconcileAll ch of
        Some mr \<Rightarrow> reconcileMulti w c mr objectId cursor st
      | None \<Rightarrow>
          (case ckReconcile ch of
             Some rc \<Rightarrow> reconcile w c rc (ckDataset ch) objectId cursor st
           | None \<Rightarrow> streamChunks w c ch objectId cursor st))"

text \<open>The state of an objects row as the worker reads it: absent, deleted, or live with its membership.\<close>

datatype row_state = NoRow | DeletedRow | LiveRow "string list"

definition typeSet :: "row_state \<Rightarrow> string list" where
  "typeSet row = (case row of LiveRow members \<Rightarrow> members | _ \<Rightarrow> [])"

text \<open>
  The loop of \<open>collectObject\<close> over the chunkers: \<open>Inr None\<close> is the return after the row was found deleted. The
  row is read again only after a chunker failed; \<open>reread\<close> is what that read returns.
\<close>

fun collect_chunkers :: "('c, 'l) worker \<Rightarrow> 'c \<Rightarrow> ('e + row_state) \<Rightarrow> string list \<Rightarrow> string \<Rightarrow> nat \<Rightarrow> 'e Chunker list \<Rightarrow>
    pageOps \<times> objectLinks \<Rightarrow> 'e + (pageOps \<times> objectLinks option)" where
  "collect_chunkers w c reread attached objectId cursor [] st = Inr (fst st, Some (snd st))"
| "collect_chunkers w c reread attached objectId cursor (ch # chs) st =
     (case chunker_evicts ch attached objectId (fst st) of
        (Inl e, _) \<Rightarrow> Inl e
      | (Inr page, False) \<Rightarrow> collect_chunkers w c reread attached objectId cursor chs (page, snd st)
      | (Inr page, True) \<Rightarrow>
          (case run_chunker w c ch objectId cursor (page, snd st) of
             Inr st' \<Rightarrow> collect_chunkers w c reread attached objectId cursor chs st'
           | Inl e \<Rightarrow>
               if reread = Inr DeletedRow
               then Inr (page\<lparr>pgPrefixDels := pgPrefixDels page @ [objectId @ '':'']\<rparr>, None)
               else Inl e))"

definition collectObject :: "('c, 'l) worker \<Rightarrow> 'c \<times> 'l \<Rightarrow> (string \<Rightarrow> 'e + row_state) \<Rightarrow> (string \<Rightarrow> 'e + row_state) \<Rightarrow> 'e Chunker list \<Rightarrow>
    string \<Rightarrow> nat \<Rightarrow> pageOps \<Rightarrow> 'e + pageOps" where
  "collectObject w st objectRow reread chunkers objectId cursor page =
     (case objectRow objectId of
        Inl e \<Rightarrow> Inl e
      | Inr DeletedRow \<Rightarrow> Inr (page\<lparr>pgPrefixDels := pgPrefixDels page @ [objectId @ '':'']\<rparr>)
      | Inr row \<Rightarrow>
          (case collect_chunkers w (fst st) (reread objectId) (typeSet row) objectId cursor chunkers (page, \<lparr>olEdges = [], olScopes = []\<rparr>) of
             Inl e \<Rightarrow> Inl e
           | Inr (page', None) \<Rightarrow> Inr page'
           | Inr (page', Some ls) \<Rightarrow> Inr (diffLinks (LinkIds (wkLinks w) (snd st) (objectId @ '':'')) cursor ls page')))"

section \<open>The chunk documents of an entry\<close>

lemma Itoa_value: "foldl (\<lambda>a c. 10 * a + (of_char c - 48)) 0 (Itoa n) = n"
proof (induction n rule: Itoa.induct)
  case (1 n)
  show ?case
  proof (cases "n < 10")
    case True
    then show ?thesis by (subst Itoa.simps) simp
  next
    case False
    have "foldl (\<lambda>a c. 10 * a + (of_char c - 48)) 0 (Itoa n) = 10 * (n div 10) + (48 + n mod 10 - 48)"
      using False by (subst Itoa.simps) (simp add: "1.IH")
    then show ?thesis by simp
  qed
qed

lemma Itoa_inj: "Itoa m = Itoa n \<longleftrightarrow> m = n"
  using arg_cong [of "Itoa m" "Itoa n" "foldl (\<lambda>a c. 10 * a + (of_char c - 48)) (0 :: nat)"] unfolding Itoa_value by blast

lemma chunkDocId_inj:
  assumes "printable base" "printable base'"
  shows "chunkDocId base m = chunkDocId base' n \<longleftrightarrow> base = base' \<and> m = n"
proof
  assume e: "chunkDocId base m = chunkDocId base' n"
  then have b: "base = base'" using recordBase_chunkDocId [OF assms(1), of m] recordBase_chunkDocId [OF assms(2), of n] by simp
  have "m = n" using e b by (auto simp: chunkDocId_def chunkSep_def Itoa_inj split: if_splits)
  then show "base = base' \<and> m = n" using b by simp
qed simp

lemma expandEntry_chunks: "map duChunk (expandEntry e b) = [0..<length (expandEntry e b)]"
  by (auto simp: expandEntry_def Let_def case_prod_unfold comp_def nth_enumerate_eq intro!: nth_equalityI)

lemma expandEntry_entry: "up \<in> set (expandEntry e b) \<Longrightarrow> \<exists>p. duEntry up = e\<lparr>ieData := p\<rparr>"
  by (auto simp: expandEntry_def Let_def split: if_splits)

lemma up_id_entry: "up \<in> set (expandEntry e b) \<Longrightarrow> up_id up = chunkDocId (entry_base e) (duChunk up)"
  using expandEntry_entry [of up e b] by (auto simp: up_id_def entry_base_def Let_def)

lemma map_up_id: "map up_id (expandEntry e b) = map (chunkDocId (entry_base e)) [0..<length (expandEntry e b)]"
  unfolding expandEntry_chunks [symmetric, of e b] map_map comp_def by (intro map_cong) (auto simp: up_id_entry)

definition entry_ok :: "IndexEntry \<Rightarrow> bool" where
  "entry_ok e \<longleftrightarrow> key_ok (ieObjectId e) (ieDataset e) (ieRecordId e)"

lemma entry_ok_base: "entry_ok e \<Longrightarrow> printable (entry_base e)"
  by (simp add: entry_ok_def entry_base_def printable_docId)

lemma entry_ok_up: "entry_ok e \<Longrightarrow> up \<in> set (expandEntry e b) \<Longrightarrow> up_ok up"
  using expandEntry_entry [of up e b] by (auto simp: entry_ok_def up_ok_def)

lemma entry_ok_indexable: "entry_ok e \<Longrightarrow> indexableId (ieRecordId e) \<and> indexableId (ieDataset e)"
  by (auto simp: entry_ok_def key_ok_def indexableId_def printable_def list_all_iff less_char_def less_eq_char_def)

definition chunk_docs :: "int \<Rightarrow> IndexEntry list \<Rightarrow> DocUpsert list" where
  "chunk_docs b entries = concat (map (\<lambda>e. expandEntry e b) entries)"

lemma distinct_chunk_docs:
  assumes "list_all entry_ok entries" "distinct (map entry_base entries)"
  shows "distinct (map up_id (chunk_docs b entries))"
  using assms
proof (induction entries)
  case (Cons e es)
  have d: "distinct (map up_id (expandEntry e b))"
    unfolding map_up_id using chunkDocId_inj [OF entry_ok_base entry_ok_base] Cons.prems(1) by (auto simp: distinct_map inj_on_def)
  have "up_id up \<noteq> up_id up'" if "up \<in> set (expandEntry e b)" "up' \<in> set (chunk_docs b es)" for up up'
  proof -
    from that(2) obtain e' where e': "e' \<in> set es" "up' \<in> set (expandEntry e' b)" by (auto simp: chunk_docs_def)
    then have "entry_base e \<noteq> entry_base e'" using Cons.prems(2) by auto
    moreover have "printable (entry_base e)" "printable (entry_base e')" using Cons.prems(1) e'(1) entry_ok_base by (auto simp: list_all_iff)
    ultimately show ?thesis using up_id_entry [OF that(1)] up_id_entry [OF e'(2)] chunkDocId_inj by simp
  qed
  then show ?case using d Cons by (fastforce simp: chunk_docs_def)
qed (simp add: chunk_docs_def)

lemma plan_entries:
  assumes "list_all entry_ok entries"
  shows "fold (plan_entry stored b) entries acc = acc\<lparr>
    paUps := paUps acc @ filter (\<lambda>up. \<not> unchanged stored up) (chunk_docs b entries),
    paDels := paDels acc @ map entry_base (filter (\<lambda>e. ieData e = []) entries),
    paSeen := paSeen acc @ map up_id (chunk_docs b entries),
    paGone := paGone acc @ map entry_base (filter (\<lambda>e. ieData e = []) entries)\<rparr>"
  using assms
proof (induction entries arbitrary: acc)
  case (Cons e es)
  have "plan_entry stored b e acc = acc\<lparr>
    paUps := paUps acc @ filter (\<lambda>up. \<not> unchanged stored up) (expandEntry e b),
    paDels := paDels acc @ (if ieData e = [] then [entry_base e] else []),
    paSeen := paSeen acc @ map up_id (expandEntry e b),
    paGone := paGone acc @ (if ieData e = [] then [entry_base e] else [])\<rparr>"
    using Cons.prems entry_ok_indexable [of e] by (simp add: plan_entry_def Let_def expandEntry_def [of e, symmetric]) (simp add: expandEntry_def)
  then show ?case using Cons by (simp add: chunk_docs_def)
qed (simp add: chunk_docs_def)

section \<open>What a plan leaves in the store\<close>

text \<open>
  A plan may rely on this of the stored hashes: they are those of stored documents; they cover the documents of every
  entry that has a text; and with one document of a record they list all of them.
\<close>

definition hashes_of :: "('c, Doc) anystore \<Rightarrow> 'c \<Rightarrow> IndexEntry list \<Rightarrow> (string \<times> string) list \<Rightarrow> bool" where
  "hashes_of S c entries stored \<longleftrightarrow>
     (\<forall>k h. (k, h) \<in> set stored \<longrightarrow> (\<exists>d. asGet S c k = Some d \<and> dHash d = h)) \<and>
     (\<forall>e n d. e \<in> set entries \<longrightarrow> ieData e \<noteq> [] \<longrightarrow> asGet S c (chunkDocId (entry_base e) n) = Some d \<longrightarrow> chunkDocId (entry_base e) n \<in> fst ` set stored) \<and>
     (\<forall>k x d. x \<in> fst ` set stored \<longrightarrow> asGet S c k = Some d \<longrightarrow> recordBase k = recordBase x \<longrightarrow> k \<in> fst ` set stored)"

definition keys_wf :: "('c, Doc) anystore \<Rightarrow> 'c \<Rightarrow> bool" where
  "keys_wf S c \<longleftrightarrow> (\<forall>k d. asGet S c k = Some d \<longrightarrow> doc_key k)"

definition land_plan :: "('c, Doc) anystore \<Rightarrow> bool \<Rightarrow> int \<Rightarrow> IndexEntry list \<Rightarrow> (string \<times> string) list \<Rightarrow> 'c \<Rightarrow> 'c" where
  "land_plan S m b entries stored c =
     (let page = fst (planDocs entries stored b empty_page)
      in apply_docs S m (pgUps page) (pgDels page) (pgPrefixDels page) (pgTextPrefixDels page) c)"

definition up_hash :: "DocUpsert \<Rightarrow> string" where
  "up_hash up = docHash (ieData (duEntry up)) (ieTitle (duEntry up))"

definition keep_or_put :: "bool \<Rightarrow> Doc option \<Rightarrow> DocUpsert \<Rightarrow> Doc" where
  "keep_or_put m old up = (case old of Some d \<Rightarrow> if dHash d = up_hash up then d else up_doc m up | None \<Rightarrow> up_doc m up)"

lemma map_of_hashes:
  assumes "hashes_of S c entries stored"
  shows "map_of stored k = (if k \<in> fst ` set stored then map_option dHash (asGet S c k) else None)"
proof (cases "k \<in> fst ` set stored")
  case True
  then obtain h where h: "map_of stored k = Some h" by (metis domD dom_map_of_conv_image_fst)
  from map_of_SomeD [OF this] assms show ?thesis using h True unfolding hashes_of_def by fastforce
next
  case False
  then show ?thesis by (simp add: map_of_eq_None_iff)
qed

lemma planDocs_page:
  assumes "list_all entry_ok entries"
  shows "fst (planDocs entries stored b empty_page) = empty_page\<lparr>
    pgUps := filter (\<lambda>up. \<not> unchanged stored up) (chunk_docs b entries),
    pgDels := map entry_base (filter (\<lambda>e. ieData e = []) entries) @
      filter (\<lambda>i. i \<notin> set (map up_id (chunk_docs b entries)) \<and> recordBase i \<notin> set (map entry_base (filter (\<lambda>e. ieData e = []) entries))) (map fst stored)\<rparr>"
  by (simp add: planDocs_def Let_def plan_entries [OF assms] empty_page_def)

lemma find_rev_unique:
  assumes "distinct (map f xs)"
  shows "find (\<lambda>x. f x = k) (rev xs) = find (\<lambda>x. f x = k) xs"
proof (cases "find (\<lambda>x. f x = k) xs")
  case None
  then have "find (\<lambda>x. f x = k) (rev xs) = None" unfolding find_None_iff by simp
  then show ?thesis using None by simp
next
  case (Some x)
  then have x: "x \<in> set xs" "f x = k" by (auto dest: find_SomeD)
  then obtain y where y: "find (\<lambda>x. f x = k) (rev xs) = Some y" using find_None_iff [of "\<lambda>x. f x = k" "rev xs"] by (cases "find (\<lambda>x. f x = k) (rev xs)") auto
  then have "y \<in> set xs" "f y = k" by (auto dest: find_SomeD)
  then have "x = y" using x assms by (metis distinct_map inj_onD)
  then show ?thesis using y Some by simp
qed

lemma find_filter: "distinct (map f xs) \<Longrightarrow> find (\<lambda>x. f x = k) (filter P xs) =
    (case find (\<lambda>x. f x = k) xs of Some x \<Rightarrow> if P x then Some x else None | None \<Rightarrow> None)"
proof (induction xs)
  case (Cons x xs)
  have "f x \<notin> f ` set xs" using Cons.prems by simp
  then have "find (\<lambda>y. f y = f x) (filter P xs) = None" unfolding find_None_iff by (metis filter_is_subset image_eqI subsetD)
  then show ?case using Cons by auto
qed simp

lemma chunk_docs_found:
  assumes "find (\<lambda>up. up_id up = k) (chunk_docs b entries) = Some up"
  shows "\<exists>e n. e \<in> set entries \<and> ieData e \<noteq> [] \<and> up \<in> set (expandEntry e b) \<and> k = chunkDocId (entry_base e) n \<and>
    entry_base e \<in> set (map up_id (chunk_docs b entries))"
proof -
  from find_SomeD [OF assms] obtain e where e: "e \<in> set entries" "up \<in> set (expandEntry e b)" "up_id up = k" by (auto simp: chunk_docs_def)
  have "ieData e \<noteq> []" using e(2) by (auto simp: expandEntry_def)
  moreover have "0 < length (expandEntry e b)" using e(2) by (cases "expandEntry e b") auto
  then have "chunkDocId (entry_base e) 0 \<in> set (map up_id (expandEntry e b))" unfolding map_up_id by auto
  then have "entry_base e \<in> set (map up_id (chunk_docs b entries))" using e(1) by (auto simp: chunk_docs_def chunkDocId_def)
  ultimately show ?thesis using e up_id_entry by blast
qed

definition empty_bases :: "IndexEntry list \<Rightarrow> string list" where
  "empty_bases entries = map entry_base (filter (\<lambda>e. ieData e = []) entries)"

definition plan_dels :: "int \<Rightarrow> IndexEntry list \<Rightarrow> (string \<times> string) list \<Rightarrow> string list" where
  "plan_dels b entries stored = empty_bases entries @
     filter (\<lambda>i. i \<notin> set (map up_id (chunk_docs b entries)) \<and> recordBase i \<notin> set (empty_bases entries)) (map fst stored)"

lemma entry_doc_key: "entry_ok e \<Longrightarrow> doc_key (entry_base e)"
  unfolding doc_key_def entry_ok_def entry_base_def
  by (intro exI [of _ "ieObjectId e"] exI [of _ "ieDataset e"] exI [of _ "ieRecordId e"] exI [of _ 0]) (simp add: chunkDocId_def)

lemma doc_key_base:
  assumes "doc_key k"
  shows "recordBase (recordBase k) = recordBase k" "doc_key y \<Longrightarrow> in_range y (recordUpper y) k \<longleftrightarrow> y = k \<or> y = recordBase k"
    "printable (recordBase k)" "\<exists>n. k = chunkDocId (recordBase k) n"
proof -
  from assms obtain obj ds rec n where kk: "key_ok obj ds rec" "k = chunkDocId (docId obj ds rec) n" by (auto simp: doc_key_def)
  note pb = printable_docId [OF kk(1)]
  have base: "recordBase k = docId obj ds rec" unfolding kk(2) by (rule recordBase_chunkDocId [OF pb])
  show "recordBase (recordBase k) = recordBase k" using recordBase_chunkDocId [OF pb, of 0] unfolding base by (simp add: chunkDocId_def)
  show "printable (recordBase k)" "\<exists>n. k = chunkDocId (recordBase k) n" using pb kk(2) base by auto
  assume "doc_key y"
  from chunk_range [OF this pb, of n] show "in_range y (recordUpper y) k \<longleftrightarrow> y = k \<or> y = recordBase k" using kk(2) base by simp
qed

lemma recordBase_entry: "entry_ok e \<Longrightarrow> recordBase (entry_base e) = entry_base e"
  using recordBase_chunkDocId [OF entry_ok_base, of e 0] by (simp add: chunkDocId_def)

definition plan_ok :: "('c, Doc) anystore \<Rightarrow> 'c \<Rightarrow> IndexEntry list \<Rightarrow> (string \<times> string) list \<Rightarrow> bool" where
  "plan_ok S c entries stored \<longleftrightarrow> list_all entry_ok entries \<and> distinct (map entry_base entries) \<and> hashes_of S c entries stored \<and> keys_wf S c"

lemma plan_okD:
  assumes "plan_ok S c entries stored"
  shows "list_all entry_ok entries" "distinct (map entry_base entries)" "hashes_of S c entries stored" "keys_wf S c"
  using assms by (auto simp: plan_ok_def)

lemma stored_wf: "plan_ok S c entries stored \<Longrightarrow> i \<in> fst ` set stored \<Longrightarrow> doc_key i"
  unfolding plan_ok_def hashes_of_def keys_wf_def by force

lemma plan_dels_ok: "plan_ok S c entries stored \<Longrightarrow> list_all doc_key (plan_dels b entries stored)"
  using stored_wf [of S c entries stored] entry_doc_key plan_okD(1) [of S c entries stored] by (auto simp: plan_dels_def empty_bases_def list_all_iff)

lemma plan_keeps_new:
  assumes P: "plan_ok S c entries stored" and asm: "find (\<lambda>up. up_id up = k) (chunk_docs b entries) = Some up"
  shows "\<not> removed (plan_dels b entries stored) [] k"
proof -
  note ok = plan_okD(1) [OF P] and dist = plan_okD(2) [OF P] and st = plan_okD(3) [OF P] and wf = plan_okD(4) [OF P]
  from chunk_docs_found [OF asm] obtain e n where e: "e \<in> set entries" "ieData e \<noteq> []" "k = chunkDocId (entry_base e) n"
    "entry_base e \<in> set (map up_id (chunk_docs b entries))" by blast
  have pb: "printable (entry_base e)" using ok e(1) entry_ok_base by (simp add: list_all_iff)
  have k: "recordBase k = entry_base e" unfolding e(3) by (rule recordBase_chunkDocId [OF pb])
  have k_new: "k \<in> set (map up_id (chunk_docs b entries))" using find_SomeD [OF asm] by auto
  have "recordBase x \<noteq> entry_base e" if "x \<in> set (empty_bases entries)" for x
  proof -
    from that obtain e' where e': "e' \<in> set entries" "ieData e' = []" "x = entry_base e'" by (auto simp: empty_bases_def)
    then have "e' \<noteq> e" using e(2) by auto
    then have "entry_base e' \<noteq> entry_base e" using dist e(1) e'(1) by (metis distinct_map inj_onD)
    then show ?thesis using recordBase_entry ok e'(1,3) by (simp add: list_all_iff)
  qed
  then have "x \<noteq> k \<and> x \<noteq> entry_base e" if "x \<in> set (plan_dels b entries stored)" for x
    using that k_new e(4) k recordBase_entry ok e(1) by (auto simp: plan_dels_def list_all_iff)
  then show ?thesis using plan_dels_ok [OF P, of b] chunk_range [OF _ pb, of _ n] e(3) by (auto simp: removed_def list_ex_iff list_all_iff)
qed

lemma plan_removes_old:
  assumes P: "plan_ok S c entries stored" and asm: "find (\<lambda>up. up_id up = k) (chunk_docs b entries) = None" "asGet S c k = Some x"
    and "k \<in> fst ` set stored \<or> recordBase k \<in> set (map entry_base entries)"
  shows "removed (plan_dels b entries stored) [] k"
proof -
  note ok = plan_okD(1) [OF P] and dist = plan_okD(2) [OF P] and st = plan_okD(3) [OF P] and wf = plan_okD(4) [OF P]
  have kk: "doc_key k" using assms(3) wf by (auto simp: keys_wf_def)
  have k_new: "k \<notin> set (map up_id (chunk_docs b entries))" using assms(2) by (auto simp: find_None_iff)
  have "k \<in> set (plan_dels b entries stored) \<or> recordBase k \<in> set (plan_dels b entries stored)"
  proof (cases "recordBase k \<in> set (empty_bases entries)")
    case False
    have "k \<in> fst ` set stored"
    proof (rule disjE [OF assms(4)])
      assume "recordBase k \<in> set (map entry_base entries)"
      then obtain e where e: "e \<in> set entries" "recordBase k = entry_base e" by auto
      then have "ieData e \<noteq> []" using False by (force simp: empty_bases_def)
      moreover obtain n where "k = chunkDocId (entry_base e) n" using doc_key_base(4) [OF kk] e(2) by auto
      ultimately show ?thesis using st e(1) assms(3) unfolding hashes_of_def by metis
    qed
    then show ?thesis using False k_new by (simp add: plan_dels_def)
  qed (simp add: plan_dels_def)
  then obtain y where y: "y \<in> set (plan_dels b entries stored)" "y = k \<or> y = recordBase k" by blast
  then have "doc_key y" using plan_dels_ok [OF P, of b] by (simp add: list_all_iff)
  then show ?thesis using y doc_key_base(2) [OF kk] by (auto simp: removed_def list_ex_iff)
qed

lemma plan_keeps_rest:
  assumes P: "plan_ok S c entries stored" and asm: "asGet S c k = Some x" "\<not> (k \<in> fst ` set stored \<or> recordBase k \<in> set (map entry_base entries))"
  shows "\<not> removed (plan_dels b entries stored) [] k"
proof
  note ok = plan_okD(1) [OF P] and dist = plan_okD(2) [OF P] and st = plan_okD(3) [OF P] and wf = plan_okD(4) [OF P]
  assume "removed (plan_dels b entries stored) [] k"
  then obtain y where y: "y \<in> set (plan_dels b entries stored)" "in_range y (recordUpper y) k" by (auto simp: removed_def list_ex_iff)
  have kk: "doc_key k" using assms(2) wf by (auto simp: keys_wf_def)
  have "y = k \<or> y = recordBase k" using y plan_dels_ok [OF P, of b] doc_key_base(2) [OF kk] by (auto simp: list_all_iff)
  then have ybase: "recordBase y = recordBase k" using doc_key_base(1) [OF kk] by auto
  from y(1) consider (empty) "y \<in> set (empty_bases entries)" | (old) "y \<in> fst ` set stored" by (auto simp: plan_dels_def)
  then show False
  proof cases
    case empty
    then obtain e where e: "e \<in> set entries" "y = entry_base e" by (auto simp: empty_bases_def)
    then have "recordBase k = entry_base e" using ybase recordBase_entry ok by (simp add: list_all_iff)
    then have "recordBase k \<in> set (map entry_base entries)" using e(1) by simp
    then show False using assms(3) by simp
  next
    case old
    then show False using st assms(2,3) ybase unfolding hashes_of_def by metis
  qed
qed

lemma plan_unchanged:
  assumes P: "plan_ok S c entries stored" and asm: "find (\<lambda>up. up_id up = k) (chunk_docs b entries) = Some up"
  shows "unchanged stored up \<longleftrightarrow> (\<exists>d. asGet S c k = Some d \<and> dHash d = up_hash up)"
proof -
  note ok = plan_okD(1) [OF P] and dist = plan_okD(2) [OF P] and st = plan_okD(3) [OF P] and wf = plan_okD(4) [OF P]
  from chunk_docs_found [OF asm] obtain e n where e: "e \<in> set entries" "ieData e \<noteq> []" "k = chunkDocId (entry_base e) n" by blast
  have "k \<in> fst ` set stored" if "asGet S c k = Some d" for d
    using st e that unfolding hashes_of_def by metis
  moreover have "up_id up = k" using find_SomeD [OF asm] by simp
  ultimately show ?thesis unfolding unchanged_def up_hash_def [symmetric] map_of_hashes [OF st] by auto
qed

lemma plan_lands:
  assumes S: "any_store S" and P: "plan_ok S c entries stored"
  shows "asGet S (land_plan S m b entries stored c) k =
    (case find (\<lambda>up. up_id up = k) (chunk_docs b entries) of
       Some up \<Rightarrow> Some (keep_or_put m (asGet S c k) up)
     | None \<Rightarrow> if k \<in> fst ` set stored \<or> recordBase k \<in> set (map entry_base entries) then None else asGet S c k)"
proof -
  note ok = plan_okD(1) [OF P] and dist = plan_okD(2) [OF P]
  let ?new = "chunk_docs b entries"
  let ?ups = "filter (\<lambda>up. \<not> unchanged stored up) ?new"
  have ups_ok: "list_all up_ok ?ups" using ok entry_ok_up by (auto simp: list_all_iff chunk_docs_def)
  have dn: "distinct (map up_id ?new)" by (rule distinct_chunk_docs [OF ok dist])
  have main: "asGet S (land_plan S m b entries stored c) k =
      (if removed (plan_dels b entries stored) [] k then None else case find (\<lambda>up. up_id up = k) ?ups of Some up \<Rightarrow> Some (up_doc m up) | None \<Rightarrow> asGet S c k)"
    using page_documents_law [OF S ups_ok plan_dels_ok [OF P], of "[]" "[]" m b c k]
    unfolding land_plan_def planDocs_page [OF ok] plan_dels_def empty_bases_def
    by (simp add: empty_page_def find_rev_unique [OF distinct_map_filter [OF dn]])
  show ?thesis
  proof (cases "find (\<lambda>up. up_id up = k) ?new")
    case (Some up)
    then show ?thesis using main plan_keeps_new [OF P Some] plan_unchanged [OF P Some]
        find_filter [OF dn, of k "\<lambda>up. \<not> unchanged stored up"] by (auto simp: keep_or_put_def split: option.splits)
  next
    case None
    then have "find (\<lambda>up. up_id up = k) ?ups = None" by (auto simp: find_None_iff)
    then show ?thesis unfolding main using None plan_removes_old [OF P None] plan_keeps_rest [OF P, of k]
      by (cases "asGet S c k") auto
  qed
qed

text \<open>The page of one collection, landed on the text documents.\<close>

definition land_page :: "('c, Doc) anystore \<Rightarrow> bool \<Rightarrow> pageOps \<Rightarrow> 'c \<Rightarrow> 'c" where
  "land_page S m page = apply_docs S m (pgUps page) (pgDels page) (pgPrefixDels page) (pgTextPrefixDels page)"

lemma land_plan_page: "land_page S m (fst (planDocs entries stored b empty_page)) c = land_plan S m b entries stored c"
  by (simp add: land_page_def land_plan_def Let_def)

lemma prefix_docId:
  assumes "CHR '':'' \<notin> set obj \<and> CHR '':'' \<notin> set ds" "doc_key k"
  shows "prefix (obj @ '':'' @ ds @ '':'') k \<longleftrightarrow> (\<exists>rec. recordBase k = docId obj ds rec)"
proof
  assume p: "prefix (obj @ '':'' @ ds @ '':'') k"
  from assms(2) obtain o' d' r' n where k: "key_ok o' d' r'" "k = chunkDocId (docId o' d' r') n" by (auto simp: doc_key_def)
  have "prefix_key (obj @ '':'' @ ds @ '':'')" using assms(1) by (auto simp: prefix_key_def key_ok_def)
  from prefix_key_docId [OF k(1) this, of n] p k(2) have e: "obj @ '':'' @ ds @ '':'' = o' @ '':'' \<or> obj @ '':'' @ ds @ '':'' = o' @ '':'' @ d' @ '':''"
    by simp
  have c: "CHR '':'' \<notin> set obj" "CHR '':'' \<notin> set ds" "CHR '':'' \<notin> set o'" "CHR '':'' \<notin> set d'" using assms(1) k(1) by (auto simp: key_ok_def)
  from e have "obj = o' \<and> ds = d'"
  proof
    assume "obj @ '':'' @ ds @ '':'' = o' @ '':''"
    then show ?thesis using colon_split [OF c(1,3), of "ds @ '':''" "[]"] by simp
  next
    assume "obj @ '':'' @ ds @ '':'' = o' @ '':'' @ d' @ '':''"
    then show ?thesis using colon_split [OF c(1,3), of "ds @ '':''" "d' @ '':''"] colon_split [OF c(2,4), of "[]" "[]"] by simp
  qed
  then show "\<exists>rec. recordBase k = docId obj ds rec" using recordBase_chunkDocId [OF printable_docId [OF k(1)], of n] k(2) by auto
next
  assume "\<exists>rec. recordBase k = docId obj ds rec"
  then obtain rec n where "k = chunkDocId (docId obj ds rec) n" using doc_key_base(4) [OF assms(2)] by metis
  then show "prefix (obj @ '':'' @ ds @ '':'') k" using chunk_key_form [of obj ds rec n] by (auto simp: prefix_def)
qed

definition in_collection :: "string \<Rightarrow> string \<Rightarrow> IndexEntry \<Rightarrow> bool" where
  "in_collection obj ds e \<longleftrightarrow> ieObjectId e = obj \<and> ieDataset e = ds"

text \<open>What names a collection: an object id without a colon or a control byte, a dataset name without a colon.\<close>

definition collection_name :: "string \<Rightarrow> string \<Rightarrow> bool" where
  "collection_name obj ds \<longleftrightarrow> CHR '':'' \<notin> set obj \<and> CHR '':'' \<notin> set ds \<and> indexableId obj"

definition indexable :: "IndexEntry \<Rightarrow> bool" where
  "indexable e \<longleftrightarrow> indexableId (ieRecordId e) \<and> indexableId (ieDataset e)"

lemma indexableId_printable: "indexableId p = printable p"
  by (simp add: indexableId_def printable_def list_all_iff less_char_def less_eq_char_def not_less)

lemma indexable_ok: "collection_name obj ds \<Longrightarrow> in_collection obj ds e \<Longrightarrow> indexable e \<Longrightarrow> entry_ok e"
  by (auto simp: collection_name_def in_collection_def indexable_def entry_ok_def key_ok_def indexableId_printable)

text \<open>An entry that \<open>indexableId\<close> rejects leaves nothing in the plan.\<close>

lemma plan_skips: "\<exists>sk. fold (plan_entry stored b) entries acc = fold (plan_entry stored b) (filter indexable entries) acc\<lparr>paSkipped := sk\<rparr>"
proof (induction entries arbitrary: acc)
  case (Cons e es)
  have skip: "\<exists>sk'. fold (plan_entry stored b) xs (a\<lparr>paSkipped := sk\<rparr>) = fold (plan_entry stored b) xs a\<lparr>paSkipped := sk'\<rparr>" for xs a sk
  proof (induction xs arbitrary: a sk)
    case (Cons x xs)
    have "\<exists>sk'. plan_entry stored b x (a\<lparr>paSkipped := sk\<rparr>) = plan_entry stored b x a\<lparr>paSkipped := sk'\<rparr>"
      by (rule exI [of _ "paSkipped (plan_entry stored b x (a\<lparr>paSkipped := sk\<rparr>))"], rule planAcc.equality) (simp_all add: plan_entry_def Let_def)
    then show ?case using Cons.IH by auto
  qed auto
  show ?case
  proof (cases "indexable e")
    case False
    then have "plan_entry stored b e acc = acc\<lparr>paSkipped := paSkipped acc @ [ieDataset e @ '':'' @ ieRecordId e]\<rparr>"
      by (auto simp: plan_entry_def indexable_def)
    moreover obtain sk where "fold (plan_entry stored b) es (plan_entry stored b e acc) = fold (plan_entry stored b) (filter indexable es) (plan_entry stored b e acc)\<lparr>paSkipped := sk\<rparr>"
      using Cons.IH by blast
    moreover obtain sk' where "fold (plan_entry stored b) (filter indexable es) (acc\<lparr>paSkipped := paSkipped acc @ [ieDataset e @ '':'' @ ieRecordId e]\<rparr>) =
        fold (plan_entry stored b) (filter indexable es) acc\<lparr>paSkipped := sk'\<rparr>" using skip by blast
    ultimately show ?thesis using False by (intro exI [of _ sk]) simp
  qed (use Cons.IH in simp)
next
  case Nil
  show ?case by (rule exI [of _ "paSkipped acc"]) simp
qed

lemma planDocs_indexable: "fst (planDocs entries stored b page) = fst (planDocs (filter indexable entries) stored b page)"
proof -
  let ?a = "\<lparr>paUps = pgUps page, paDels = pgDels page, paSeen = [], paGone = [], paSkipped = []\<rparr>"
  obtain sk where "fold (plan_entry stored b) entries ?a = fold (plan_entry stored b) (filter indexable entries) ?a\<lparr>paSkipped := sk\<rparr>"
    using plan_skips [of stored b entries ?a] by blast
  then show ?thesis by (simp add: planDocs_def Let_def)
qed

lemma collection_bases:
  assumes "collection_name obj ds" "list_all (in_collection obj ds) entries" "list_all indexable entries" "distinct (map ieRecordId entries)"
  shows "list_all entry_ok entries \<and> distinct (map entry_base entries)"
proof -
  have "entry_base e = docId obj ds (ieRecordId e)" if "e \<in> set entries" for e
    using that assms(2) by (auto simp: list_all_iff in_collection_def entry_base_def)
  then have "map entry_base entries = map (docId obj ds) (map ieRecordId entries)" by simp
  moreover have "inj (docId obj ds)" by (auto simp: inj_def docId_def)
  ultimately have "distinct (map entry_base entries)" using assms(4) by (metis distinct_map inj_on_subset subset_UNIV)
  then show ?thesis using assms(2,3) indexable_ok [OF assms(1)] by (auto simp: list_all_iff)
qed

lemma range_keys: "any_store S \<Longrightarrow> fst ` set (asRange S lo hi c) = {k. in_range lo hi k \<and> asGet S c k \<noteq> None}"
  by (force simp: range_set)

lemma DocHashes_keys:
  assumes "any_store S" "p = q @ '':''"
  shows "fst ` set (DocHashes S c p) = {k. prefix p k \<and> asGet S c k \<noteq> None}"
    and "(k, h) \<in> set (DocHashes S c p) \<Longrightarrow> \<exists>d. asGet S c k = Some d \<and> dHash d = h"
proof -
  have "fst ` set (DocHashes S c p) = fst ` set (asRange S p (prefixUpper p) c)" by (force simp: DocHashes_def)
  then show "fst ` set (DocHashes S c p) = {k. prefix p k \<and> asGet S c k \<noteq> None}"
    unfolding range_keys [OF assms(1)] prefixUpper_exact [OF assms(2)] .
qed (auto simp: DocHashes_def range_set [OF assms(1)])

lemma collection_plan_ok:
  assumes "any_store S" "keys_wf S c" "collection_name obj ds" "list_all (in_collection obj ds) entries" "list_all indexable entries"
    "distinct (map ieRecordId entries)"
  shows "plan_ok S c entries (DocHashes S c (obj @ '':'' @ ds @ '':''))"
proof -
  let ?p = "obj @ '':'' @ ds @ '':''"
  have colons: "CHR '':'' \<notin> set obj \<and> CHR '':'' \<notin> set ds" using assms(3) by (simp add: collection_name_def)
  have keys: "fst ` set (DocHashes S c ?p) = {k. prefix ?p k \<and> asGet S c k \<noteq> None}"
    by (rule DocHashes_keys(1) [OF assms(1), of _ "obj @ '':'' @ ds"]) simp
  have hashes: "\<exists>d. asGet S c k = Some d \<and> dHash d = h" if "(k, h) \<in> set (DocHashes S c ?p)" for k h
    by (rule DocHashes_keys(2) [OF assms(1) _ that, of "obj @ '':'' @ ds"]) simp
  have "prefix ?p (chunkDocId (entry_base e) n)" if "e \<in> set entries" for e n
  proof -
    have "entry_base e = docId obj ds (ieRecordId e)" using that assms(4) by (auto simp: list_all_iff in_collection_def entry_base_def)
    then show ?thesis using chunk_key_form [of obj ds "ieRecordId e" n] by (auto simp: prefix_def)
  qed
  moreover have "prefix ?p k" if "asGet S c x \<noteq> None" "asGet S c k = Some d" "prefix ?p x" "recordBase k = recordBase x" for k x d
    using that assms(2) prefix_docId [OF colons, of x] prefix_docId [OF colons, of k] unfolding keys_wf_def by fastforce
  ultimately have "hashes_of S c entries (DocHashes S c ?p)" unfolding hashes_of_def keys using hashes by blast
  then show ?thesis using collection_bases [OF assms(3-6)] assms(2) by (simp add: plan_ok_def)
qed

text \<open>
  C33. Reconciling a collection leaves exactly its current documents. Whatever a coalescing chunker lists for a dataset of
  an object, record ids and dataset names of any bytes: after its page lands, the documents under that dataset are the chunk
  documents of the listed entries whose record id and dataset name hold no control byte, and no others; an entry with
  one is left out and touches no document. Each document has the hash of its text and title; one whose hash was that already is as it was, its vector
  included; the documents of every other object and dataset are not touched; and every document is still filed under
  the id of a record and a chunk, which is what the next page relies on. This is for an object id without a
  colon or control byte, a dataset name without a colon, and a chunker that lists a record once.
\<close>

theorem reconcile_exact:
  assumes "any_store S" "keys_wf S c" "collection_name obj ds" "list_all (in_collection obj ds) entries"
    and "distinct (map ieRecordId (filter indexable entries))"
    and "wkDocs w = S" "reconcile w c (\<lambda>_ _. Inr entries) ds obj cursor (empty_page, ls) = Inr (page, ls')"
  shows "(\<forall>k. asGet S (land_page S m page c) k =
      (if prefix (obj @ '':'' @ ds @ '':'') k
       then map_option (keep_or_put m (asGet S c k)) (find (\<lambda>up. up_id up = k) (chunk_docs (wkChunkRunes w) (filter indexable entries)))
       else asGet S c k)) \<and>
    keys_wf S (land_page S m page c)"
proof -
  let ?p = "obj @ '':'' @ ds @ '':''" and ?es = "filter indexable entries"
  let ?find = "\<lambda>k. find (\<lambda>up. up_id up = k) (chunk_docs (wkChunkRunes w) ?es)"
  have es: "list_all (in_collection obj ds) ?es" "list_all indexable ?es" using assms(4) by (auto simp: list_all_iff)
  have colons: "CHR '':'' \<notin> set obj \<and> CHR '':'' \<notin> set ds" using assms(3) by (simp add: collection_name_def)
  note ok = collection_plan_ok [OF assms(1-3) es assms(5)]
  have page: "page = fst (planDocs ?es (DocHashes S c ?p) (wkChunkRunes w) empty_page)"
    using assms(6,7) by (auto simp: reconcile_def plan_collection_def planDocs_indexable [of entries])
  have keys: "fst ` set (DocHashes S c ?p) = {k. prefix ?p k \<and> asGet S c k \<noteq> None}"
    by (rule DocHashes_keys(1) [OF assms(1), of _ "obj @ '':'' @ ds"]) simp
  have base: "prefix ?p k" if "asGet S c k = Some d" "recordBase k \<in> set (map entry_base ?es)" for k d
  proof -
    have "doc_key k" using that(1) assms(2) by (auto simp: keys_wf_def)
    moreover have "\<exists>rec. recordBase k = docId obj ds rec" using that(2) es(1) by (auto simp: list_all_iff in_collection_def entry_base_def)
    ultimately show ?thesis using prefix_docId [OF colons] by blast
  qed
  have new: "prefix ?p k \<and> doc_key k" if "?find k = Some up" for k up
  proof -
    from chunk_docs_found [OF that] obtain e n where e: "e \<in> set ?es" "k = chunkDocId (entry_base e) n" by blast
    have "entry_ok e" using e(1) es indexable_ok [OF assms(3)] by (auto simp: list_all_iff)
    then have "doc_key k" unfolding e(2) doc_key_def entry_ok_def entry_base_def by blast
    then show ?thesis using e es(1) chunk_key_form [of obj ds "ieRecordId e" n] by (auto simp: list_all_iff in_collection_def entry_base_def prefix_def)
  qed
  have law: "asGet S (land_page S m page c) k = (if prefix ?p k then map_option (keep_or_put m (asGet S c k)) (?find k) else asGet S c k)" for k
    unfolding page land_plan_page plan_lands [OF assms(1) ok] keys
    using base new by (cases "?find k"; cases "asGet S c k") auto
  then show ?thesis using assms(2) new by (auto simp: keys_wf_def split: if_splits)
qed

text \<open>
  A stream of changed records lands the same way: after the page of a per-record chunker, past the first page of a
  space, the documents of a streamed record are its current chunks, unchanged ones kept with their vectors, trailing
  chunks of a record that shrank and the documents of a removed one gone; every other document is not touched.
\<close>

theorem stream_exact:
  assumes "any_store S" "keys_wf S c" "list_all entry_ok entries" "distinct (map entry_base entries)" "wkDocs w = S" "0 < cursor"
    and "ckChunksSince ch obj cursor = Inr entries" "streamChunks w c ch obj cursor (empty_page, ls) = Inr (page, ls')"
  shows "asGet S (land_page S m page c) k =
    (if recordBase k \<in> set (map entry_base entries)
     then map_option (keep_or_put m (asGet S c k)) (find (\<lambda>up. up_id up = k) (chunk_docs (wkChunkRunes w) entries))
     else asGet S c k)"
proof -
  let ?stored = "DocHashesByRecords S c (stream_bases entries)" and ?find = "find (\<lambda>up. up_id up = k) (chunk_docs (wkChunkRunes w) entries)"
  have page: "page = fst (planDocs entries ?stored (wkChunkRunes w) empty_page)"
    using assms(5-8) by (auto simp: streamChunks_def Let_def)
  have sb: "set (stream_bases entries) = entry_base ` {e \<in> set entries. ieData e \<noteq> []}"
    using assms(3) entry_ok_indexable by (auto simp: stream_bases_def list_all_iff)
  have keys: "fst ` set ?stored = {k. asGet S c k \<noteq> None \<and> recordBase k \<in> set (stream_bases entries)}"
  proof -
    have "fst ` set ?stored = (\<Union>base \<in> set (stream_bases entries). fst ` set (asRange S base (recordUpper base) c))"
      by (force simp: DocHashesByRecords_def)
    also have "\<dots> = {k. asGet S c k \<noteq> None \<and> (\<exists>base \<in> set (stream_bases entries). in_range base (recordUpper base) k)}"
      unfolding range_keys [OF assms(1)] by auto
    also have "\<dots> = {k. asGet S c k \<noteq> None \<and> recordBase k \<in> set (stream_bases entries)}"
    proof -
      have "in_range base (recordUpper base) k \<longleftrightarrow> base = recordBase k"
        if "base \<in> set (stream_bases entries)" "asGet S c k = Some d" for base k d
      proof -
        from that(1) obtain e where e: "e \<in> set entries" "base = entry_base e" unfolding sb by auto
        then have b: "doc_key base" "recordBase base = base" using assms(3) entry_doc_key recordBase_entry by (auto simp: list_all_iff)
        have "doc_key k" using that(2) assms(2) by (auto simp: keys_wf_def)
        from doc_key_base(2) [OF this b(1)] show ?thesis using b(2) by auto
      qed
      then show ?thesis by blast
    qed
    finally show ?thesis .
  qed
  have "plan_ok S c entries ?stored"
  proof -
    have "\<exists>d. asGet S c k = Some d \<and> dHash d = h" if "(k, h) \<in> set ?stored" for k h
      using that by (auto simp: DocHashesByRecords_def range_set [OF assms(1)])
    moreover have "recordBase (chunkDocId (entry_base e) n) = entry_base e" if "e \<in> set entries" for e n
      using that assms(3) recordBase_chunkDocId entry_ok_base by (simp add: list_all_iff)
    ultimately have "hashes_of S c entries ?stored" unfolding hashes_of_def keys using sb by auto
    then show ?thesis using assms(2-4) by (simp add: plan_ok_def)
  qed
  note land = plan_lands [OF assms(1) this, of m "wkChunkRunes w" k]
  have new: "recordBase k \<in> set (map entry_base entries)" if "?find = Some up" for up
  proof -
    from chunk_docs_found [OF that] obtain e n where e: "e \<in> set entries" "k = chunkDocId (entry_base e) n" by blast
    then have "recordBase k = entry_base e" using assms(3) recordBase_chunkDocId entry_ok_base by (simp add: list_all_iff)
    then show ?thesis using e(1) by simp
  qed
  show ?thesis unfolding page land_plan_page land keys using new sb by (cases ?find) auto
qed

definition demo_worker :: "((string, Doc) fmap, (string, LinkDoc) fmap) worker" where
  "demo_worker = \<lparr>wkDocs = mapStore, wkLinks = mapStore, wkChunkRunes = 900\<rparr>"

lemma demo_chunks: "chunk_docs 900 [duEntry demo_up] = [demo_up]"
  by (simp add: chunk_docs_def expandEntry_def splitText_def demo_up_def Let_def chunk_title_def)

lemma demo_wf: "keys_wf mapStore fmempty" "collection_name ''o'' ''d''" "entry_ok (duEntry demo_up)"
  using demo_up_ok(1) by (simp_all add: keys_wf_def mapStore_def collection_name_def indexableId_def less_char_def entry_ok_def up_ok_def)

text \<open>Beside a record that has a document, one whose id ends in the separator of the chunk ids.\<close>

definition demo_listed :: "IndexEntry list" where
  "demo_listed = [duEntry demo_up, (duEntry demo_up)\<lparr>ieRecordId := ''r'' @ [CHR 0x1F], ieData := [120]\<rparr>]"

lemma demo_indexable: "filter indexable demo_listed = [duEntry demo_up]"
  by (simp add: demo_listed_def demo_up_def indexable_def indexableId_def less_char_def)

theorem reconcile_exact_witness:
  "\<exists>page ls. reconcile demo_worker fmempty (\<lambda>_ _. Inr demo_listed :: string + _) ''d'' ''o'' 3 (empty_page, \<lparr>olEdges = [], olScopes = []\<rparr>) = Inr (page, ls) \<and>
     asGet mapStore (land_page mapStore True page fmempty) ''o:d:r'' = Some (up_doc True demo_up) \<and> keys_wf mapStore (land_page mapStore True page fmempty)"
proof -
  obtain page ls where r: "reconcile demo_worker fmempty (\<lambda>_ _. Inr demo_listed :: string + _) ''d'' ''o'' 3 (empty_page, \<lparr>olEdges = [], olScopes = []\<rparr>) = Inr (page, ls)"
    by (simp add: reconcile_def plan_collection_def)
  have c: "list_all (in_collection ''o'' ''d'') demo_listed" by (simp add: in_collection_def demo_listed_def demo_up_def)
  from reconcile_exact [OF any_store_mapStore demo_wf(1,2) c _ _ r, of True] show ?thesis
    using r demo_chunks demo_up_ok(2) by (simp add: demo_indexable demo_worker_def keep_or_put_def mapStore_def)
qed

definition demo_chunker :: "string Chunker" where
  "demo_chunker = \<lparr>ckDataset = ''d'', ckTypeId = [], ckEvictDatasets = None, ckEvictText = None, ckReconcileAll = None, ckReconcile = None,
     ckChunksSince = (\<lambda>_ _. Inr [duEntry demo_up]), ckWholeLinks = False\<rparr>"

theorem stream_exact_witness:
  "\<exists>page ls. streamChunks demo_worker fmempty demo_chunker ''o'' 3 (empty_page, \<lparr>olEdges = [], olScopes = []\<rparr>) = Inr (page, ls) \<and>
     asGet mapStore (land_page mapStore True page fmempty) ''o:d:r'' = Some (up_doc True demo_up)"
proof -
  obtain page ls where r: "streamChunks demo_worker fmempty demo_chunker ''o'' 3 (empty_page, \<lparr>olEdges = [], olScopes = []\<rparr>) = Inr (page, ls)"
    by (simp add: streamChunks_def demo_chunker_def Let_def)
  have b: "recordBase ''o:d:r'' = entry_base (duEntry demo_up)" "entry_base (duEntry demo_up) = ''o:d:r''"
    using recordBase_entry [OF demo_wf(3)] by (simp_all add: entry_base_def docId_def demo_up_def)
  from stream_exact [OF any_store_mapStore demo_wf(1) _ _ _ _ _ r, of "[duEntry demo_up]" True "''o:d:r''"] show ?thesis
    using r demo_chunks demo_up_ok(2) demo_wf(3) b by (simp add: demo_worker_def demo_chunker_def keep_or_put_def mapStore_def)
qed

section \<open>What the difference of the edges leaves\<close>

definition land_links :: "('l, LinkDoc) anystore \<Rightarrow> pageOps \<Rightarrow> 'l \<Rightarrow> 'l" where
  "land_links L page c = snd (applyLinks L (pgPrefixDels page) (Some (pgLinks page)) c)"

definition edges_of :: "string \<Rightarrow> objectLinks \<Rightarrow> bool" where
  "edges_of obj ls \<longleftrightarrow> distinct (map fst (olEdges ls)) \<and>
     list_all (\<lambda>(i, e, seq). i = linkDocId e \<and> leObjectId e = obj) (olEdges ls)"

lemma get_dels: "any_store L \<Longrightarrow> asGet L (fold (asDel L) ids c) k = (if k \<in> set ids then None else asGet L c k)"
  by (induction ids arbitrary: c) (auto simp: get_del)

lemma covers_nothing [simp]: "\<not> covers (newRemovals [] []) i"
  by (simp add: covers_def newRemovals_def)

lemma get_put_links:
  assumes "any_store L" "distinct (map linkDocId ups)" "length seqs = length ups"
  shows "asGet L (put_links L (newRemovals [] []) \<lparr>loUps = ups, loSeqs = seqs, loDels = dels, loTouched = t\<rparr> c) k =
    (case map_of (zip (map linkDocId ups) (zip ups seqs)) k of Some (e, n) \<Rightarrow> Some (link_doc (Some n) e) | None \<Rightarrow> asGet L c k)"
  using assms(2,3)
proof (induction ups arbitrary: seqs rule: rev_induct)
  case Nil
  then show ?case by (simp add: put_links_def)
next
  case (snoc e ups)
  then obtain seqs' n where s: "seqs = seqs' @ [n]" "length seqs' = length ups" by (cases seqs rule: rev_cases) auto
  have less: "x < length seqs'" if "(x, y) \<in> set (enumerate 0 ups)" for x y using that s(2) by (auto simp: in_set_enumerate_eq)
  have "put_links L (newRemovals [] []) \<lparr>loUps = ups @ [e], loSeqs = seqs, loDels = dels, loTouched = t\<rparr> c =
      asPut L (linkDocId e) (link_doc (Some n) e) (put_links L (newRemovals [] []) \<lparr>loUps = ups, loSeqs = seqs', loDels = dels, loTouched = t\<rparr> c)"
  proof -
    have "fold (\<lambda>(i, e) c. asPut L (linkDocId e) (link_doc (if i < length seqs then Some (seqs ! i) else None) e) c) (enumerate 0 ups) c =
        fold (\<lambda>(i, e) c. asPut L (linkDocId e) (link_doc (if i < length seqs' then Some (seqs' ! i) else None) e) c) (enumerate 0 ups) c"
      by (intro fold_cong) (auto simp: s(1) nth_append dest: less)
    then show ?thesis using s(2) unfolding put_links_def LinkOps.select_convs s(1)
      by (simp add: enumerate_append_eq nth_append)
  qed
  moreover define xs where "xs = zip (map linkDocId ups) (zip ups seqs')"
  moreover have "map_of xs (linkDocId e) = None"
    using snoc.prems(1) by (auto simp: xs_def map_of_eq_None_iff dest!: set_zip_leftD)
  moreover have "zip (map linkDocId (ups @ [e])) (zip (ups @ [e]) seqs) = xs @ [(linkDocId e, e, n)]" using s by (simp add: xs_def)
  moreover have "asGet L (put_links L (newRemovals [] []) \<lparr>loUps = ups, loSeqs = seqs', loDels = dels, loTouched = t\<rparr> c) k =
      (case map_of xs k of Some (e, n) \<Rightarrow> Some (link_doc (Some n) e) | None \<Rightarrow> asGet L c k)"
    unfolding xs_def using snoc.IH [of seqs'] snoc.prems(1) s(2) by simp
  ultimately show ?case by (cases "k = linkDocId e") (simp_all add: get_put [OF assms(1)] map_add_def split: option.split)
qed

lemma diff_links_ops:
  assumes "olScopes ls \<noteq> [] \<or> olEdges ls \<noteq> []" "0 < cursor"
  shows "pgLinks (diffLinks stored cursor ls empty_page) =
    (let dels = filter (\<lambda>(i, key). map_of (olEdges ls) i = None \<and> list_ex (\<lambda>p. has_prefix p i) (olScopes ls)) stored;
         ups = filter (\<lambda>(i, up). map_of stored i = None) (olEdges ls)
     in \<lparr>loUps = map (\<lambda>x. fst (snd x)) ups, loSeqs = map (\<lambda>x. snd (snd x)) ups, loDels = map fst dels,
         loTouched = remdups (map snd dels @ map (\<lambda>x. linkTargetKey (leTarget (fst (snd x)))) ups)\<rparr>)"
    and "pgPrefixDels (diffLinks stored cursor ls empty_page) = []"
  using assms by (auto simp: diffLinks_def Let_def empty_page_def no_links_def case_prod_unfold)

lemma LinkIds_keys:
  assumes "any_store L" "CHR '':'' \<notin> set obj"
  shows "set (LinkIds L c (obj @ '':'')) = {(k, stored_key d) |k d. has_prefix (obj @ '':'') k \<and> asGet L c k = Some d}"
proof -
  have "set (LinkIds L c (obj @ '':'')) = (\<lambda>(k, d). (k, stored_key d)) ` {(k, d). has_prefix (obj @ '':'') k \<and> asGet L c k = Some d}"
    unfolding LinkIds_def set_map range_set [OF assms(1)] prefixUpper_exact [OF refl] by (simp add: has_prefix_iff prefix_def)
  then show ?thesis by auto
qed

lemma LinkIds_fst:
  assumes "any_store L"
  shows "fst ` set (LinkIds L c (obj @ '':'')) = {k. has_prefix (obj @ '':'') k \<and> asGet L c k \<noteq> None}"
proof -
  have "fst ` set (LinkIds L c (obj @ '':'')) = fst ` set (asRange L (obj @ '':'') (prefixUpper (obj @ '':'')) c)"
    by (simp add: LinkIds_def image_image case_prod_unfold)
  then show ?thesis unfolding range_keys [OF assms] prefixUpper_exact [OF refl] by (simp add: has_prefix_iff prefix_def)
qed

lemma map_of_filter_key: "map_of (filter (\<lambda>(k, v). Q k) xs) k = (if Q k then map_of xs k else None)"
  by (induction xs) auto

lemma link_under_object: "leObjectId e = obj \<Longrightarrow> has_prefix (obj @ '':'') (linkDocId e)"
  by (auto simp: has_prefix_iff linkDocId_def linkRecordPrefix_def docId_def)

text \<open>
  The edges of a changed object are those its records report: after its difference lands, an edge the records
  report is stored (as it was, or new with the record's change number), an edge stored under the object in a scope
  they replace and no longer reported is gone, and every other edge is not touched. The targets signalled
  are those of the edges that appeared or vanished, and no others.
\<close>

theorem diff_links_exact:
  assumes "any_store L" "CHR '':'' \<notin> set obj" "edges_of obj ls" "0 < cursor" "olScopes ls \<noteq> [] \<or> olEdges ls \<noteq> []"
    and "page = diffLinks (LinkIds L c (obj @ '':'')) cursor ls empty_page"
  shows "asGet L (land_links L page c) k =
      (case map_of (olEdges ls) k of
         Some (e, seq) \<Rightarrow> Some (case asGet L c k of Some d \<Rightarrow> d | None \<Rightarrow> link_doc (Some seq) e)
       | None \<Rightarrow> if has_prefix (obj @ '':'') k \<and> list_ex (\<lambda>p. has_prefix p k) (olScopes ls) then None else asGet L c k) \<and>
    set (loTouched (pgLinks page)) =
      {stored_key d |k d. asGet L c k = Some d \<and> asGet L (land_links L page c) k = None} \<union>
      {linkTargetKey (leTarget e) |k e seq. asGet L c k = None \<and> (k, e, seq) \<in> set (olEdges ls)}"
proof -
  let ?stored = "LinkIds L c (obj @ '':'')"
  note keys = LinkIds_keys [OF assms(1,2), of c]
  have in_stored: "map_of ?stored k = None \<longleftrightarrow> \<not> (has_prefix (obj @ '':'') k \<and> asGet L c k \<noteq> None)" for k
    unfolding map_of_eq_None_iff LinkIds_fst [OF assms(1)] by blast
  define dels where "dels = filter (\<lambda>(i, key). map_of (olEdges ls) i = None \<and> list_ex (\<lambda>p. has_prefix p i) (olScopes ls)) ?stored"
  define ups where "ups = filter (\<lambda>(i, up). map_of ?stored i = None) (olEdges ls)"
  have ops: "pgLinks page = \<lparr>loUps = map (\<lambda>x. fst (snd x)) ups, loSeqs = map (\<lambda>x. snd (snd x)) ups, loDels = map fst dels,
      loTouched = remdups (map snd dels @ map (\<lambda>x. linkTargetKey (leTarget (fst (snd x)))) ups)\<rparr>" "pgPrefixDels page = []"
    using diff_links_ops [OF assms(5,4)] unfolding assms(6) dels_def ups_def Let_def by auto
  have edge: "i = linkDocId e \<and> leObjectId e = obj" if "(i, e, seq) \<in> set (olEdges ls)" for i e seq
    using that assms(3) by (auto simp: edges_of_def list_all_iff)
  have ids: "map linkDocId (map (\<lambda>x. fst (snd x)) ups) = map fst ups" using edge by (fastforce simp: ups_def)
  have zipped: "zip (map fst ups) (zip (map (\<lambda>x. fst (snd x)) ups) (map (\<lambda>x. snd (snd x)) ups)) = ups"
    by (induction ups) auto
  have d: "distinct (map fst (olEdges ls))" "distinct (map fst ups)" using assms(3) by (auto simp: edges_of_def ups_def distinct_map_filter)
  have landed: "asGet L (land_links L page c) k = (case map_of ups k of Some (e, n) \<Rightarrow> Some (link_doc (Some n) e)
      | None \<Rightarrow> if k \<in> fst ` set dels then None else asGet L c k)" for k
  proof -
    have "distinct (map linkDocId (map (\<lambda>x. fst (snd x)) ups))" unfolding ids by (rule d(2))
    note put = get_put_links [OF assms(1) this, of "map (\<lambda>x. snd (snd x)) ups", unfolded ids zipped]
    show ?thesis unfolding land_links_def ops applyLinks_def evict_links_def
      by (simp add: put get_dels [OF assms(1)] split: option.split)
  qed
  have in_ups: "map_of ups k = (if map_of ?stored k = None then map_of (olEdges ls) k else None)" for k
    unfolding ups_def by (rule map_of_filter_key)
  have in_dels: "k \<in> fst ` set dels \<longleftrightarrow> has_prefix (obj @ '':'') k \<and> asGet L c k \<noteq> None \<and> map_of (olEdges ls) k = None \<and> list_ex (\<lambda>p. has_prefix p k) (olScopes ls)" for k
    unfolding dels_def by (force simp: keys)
  have own: "has_prefix (obj @ '':'') k" if "map_of (olEdges ls) k = Some x" for k x
    using edge [of k "fst x" "snd x"] map_of_SomeD [OF that] link_under_object by auto
  have 1: "asGet L (land_links L page c) k =
      (case map_of (olEdges ls) k of
         Some (e, seq) \<Rightarrow> Some (case asGet L c k of Some d \<Rightarrow> d | None \<Rightarrow> link_doc (Some seq) e)
       | None \<Rightarrow> if has_prefix (obj @ '':'') k \<and> list_ex (\<lambda>p. has_prefix p k) (olScopes ls) then None else asGet L c k)" for k
    unfolding landed in_ups in_stored in_dels using own [of k] by (cases "map_of (olEdges ls) k"; cases "asGet L c k") auto
  have del_keys: "snd ` set dels = {stored_key d |k d. asGet L c k = Some d \<and> asGet L (land_links L page c) k = None}"
  proof -
    have key: "\<exists>d. asGet L c k = Some d \<and> v = stored_key d" if "(k, v) \<in> set dels" for k v
      using that by (auto simp: dels_def keys)
    have gone: "asGet L c k \<noteq> None \<and> asGet L (land_links L page c) k = None \<longleftrightarrow> k \<in> fst ` set dels" for k
      unfolding 1 in_dels by (cases "map_of (olEdges ls) k") auto
    show ?thesis
    proof (intro set_eqI iffI)
      fix v assume "v \<in> snd ` set dels"
      then obtain k where k: "(k, v) \<in> set dels" by auto
      then have "k \<in> fst ` set dels" by force
      then show "v \<in> {stored_key d |k d. asGet L c k = Some d \<and> asGet L (land_links L page c) k = None}" using key [OF k] gone [of k] by auto
    next
      fix v assume "v \<in> {stored_key d |k d. asGet L c k = Some d \<and> asGet L (land_links L page c) k = None}"
      then obtain k d where k: "v = stored_key d" "asGet L c k = Some d" "asGet L (land_links L page c) k = None" by blast
      then have "k \<in> fst ` set dels" using gone [of k] by simp
      then obtain v' where v': "(k, v') \<in> set dels" by auto
      then have "v' = v" using key [OF v'] k by auto
      then show "v \<in> snd ` set dels" using v' by force
    qed
  qed
  have up_keys: "(\<lambda>x. linkTargetKey (leTarget (fst (snd x)))) ` set ups =
      {linkTargetKey (leTarget e) |k e seq. asGet L c k = None \<and> (k, e, seq) \<in> set (olEdges ls)}"
  proof -
    have "map_of ?stored k = None \<longleftrightarrow> asGet L c k = None" if "(k, e, seq) \<in> set (olEdges ls)" for k e seq
      unfolding in_stored using edge [OF that] link_under_object [of e obj] by simp
    then have "set ups = {(k, e, seq). (k, e, seq) \<in> set (olEdges ls) \<and> asGet L c k = None}" by (auto simp: ups_def)
    then show ?thesis by (auto simp: image_iff) metis+
  qed
  show ?thesis using 1 del_keys up_keys unfolding ops by simp
qed

definition demo_edge :: LinkEntry where
  "demo_edge = \<lparr>leObjectId = ''o'', leDataset = ''d'', leRecordId = ''r'', leTypeId = [], leField = [], leKind = LinkKindLink,
     leTarget = URI_zero\<lparr>uKind := KindObject, uSpaceId := ''s'', uObjectId := ''t''\<rparr>\<rparr>"

theorem diff_links_exact_witness:
  "asGet mapStore (land_links mapStore (diffLinks (LinkIds mapStore fmempty ''o:'') 3
     \<lparr>olEdges = [(linkDocId demo_edge, demo_edge, 9)], olScopes = []\<rparr> empty_page) fmempty) (linkDocId demo_edge) = Some (link_doc (Some 9) demo_edge)"
proof -
  let ?ls = "\<lparr>olEdges = [(linkDocId demo_edge, demo_edge, 9)], olScopes = []\<rparr>"
  have e: "edges_of ''o'' ?ls" by (simp add: edges_of_def demo_edge_def)
  have c: "CHR '':'' \<notin> set ''o''" by simp
  from diff_links_exact [OF any_store_mapStore c e, of 3 "diffLinks (LinkIds mapStore fmempty (''o'' @ '':'')) 3 ?ls empty_page" fmempty "linkDocId demo_edge"]
  show ?thesis by (simp add: mapStore_def)
qed

end
