(* ===== verification/IndexAdvance.thy ===== *)
theory IndexAdvance
  imports IndexWorker
begin

text \<open>
  The loops of a space's worker (src/internal/indexer/worker.go): the pages that advance the cursor over the change feed,
  the alignment of a stored index with the feed it was built from, and the rounds that embed pending documents.
  The feed, the collection of an object and the embedder are parameters; the faults of the store's calls are
  functions of the number of the page or round.
\<close>

section \<open>Pages of the change feed\<close>

record ObjectChange =
  ocObjectId :: string
  ocApplySeq :: nat
  ocDeleted :: bool

record ('c, 'l) SpaceIndex =
  siDocs :: 'c
  siLinks :: 'l
  siRow :: "CursorRow option"
  siLinksStamped :: bool

definition deleted_objects :: "ObjectChange list \<Rightarrow> string list" where
  "deleted_objects changes = map ocObjectId (filter ocDeleted changes)"

fun collect_changes :: "(string \<Rightarrow> pageOps \<Rightarrow> 'e + pageOps) \<Rightarrow> string list \<Rightarrow> string list \<Rightarrow> ObjectChange list \<Rightarrow> pageOps \<Rightarrow> 'e + pageOps" where
  "collect_changes collect deleted seen [] page = Inr page"
| "collect_changes collect deleted seen (ch # chs) page =
     (if ocObjectId ch \<in> set seen then collect_changes collect deleted seen chs page
      else if ocObjectId ch \<in> set deleted
      then collect_changes collect deleted (ocObjectId ch # seen) chs (page\<lparr>pgPrefixDels := pgPrefixDels page @ [ocObjectId ch @ '':'']\<rparr>)
      else case collect (ocObjectId ch) page of
        Inl e \<Rightarrow> Inl e
      | Inr page' \<Rightarrow> collect_changes collect deleted (ocObjectId ch # seen) chs page')"

definition hasIndexableText :: "DocUpsert list \<Rightarrow> bool" where
  "hasIndexableText ups = list_ex (\<lambda>up. duVector up = None \<and> ieData (duEntry up) \<noteq> []) ups"

text \<open>The settings of the worker and the errors its calls meet on a page.\<close>

record ('c, 'l, 'e) advancer =
  adDocs :: "('c, Doc) anystore"
  adLinks :: "('l, LinkDoc) anystore"
  adMarkPending :: bool
  adHasEmbedder :: bool
  adGeneration :: string
  adBatchLimit :: nat
  adBackfillFailed :: bool
  adSince :: "nat \<Rightarrow> nat \<Rightarrow> 'e + ObjectChange list"
  adCollect :: "('c, 'l) SpaceIndex \<Rightarrow> nat \<Rightarrow> string \<Rightarrow> pageOps \<Rightarrow> 'e + pageOps"
  adApplyFault :: "nat \<Rightarrow> 'e option"
  adCursorFault :: "nat \<Rightarrow> 'e option"
  adStampFault :: "nat \<Rightarrow> 'e option"

text \<open>The end of a page after its transaction: the cursor, and once per worker the layout stamp of the edges.\<close>

definition finish_page :: "('c, 'l, 'e) advancer \<Rightarrow> nat \<Rightarrow> nat \<Rightarrow> ('c, 'l) SpaceIndex \<Rightarrow> ('e + unit) \<times> ('c, 'l) SpaceIndex" where
  "finish_page A k cursor s =
     (case adCursorFault A k of
        Some e \<Rightarrow> (Inl e, s)
      | None \<Rightarrow>
          let s = s\<lparr>siRow := AdvanceCursor (adMarkPending A) cursor (adGeneration A) (siRow s)\<rparr>
          in if \<not> siLinksStamped s \<and> \<not> adBackfillFailed A
             then (case adStampFault A k of
                     Some e \<Rightarrow> (Inl e, s)
                   | None \<Rightarrow> (Inr (), s\<lparr>siRow := StampLinksVersion (siRow s), siLinksStamped := True\<rparr>))
             else (Inr (), s))"

definition advance_page :: "('c, 'l, 'e) advancer \<Rightarrow> nat \<Rightarrow> nat \<Rightarrow> ObjectChange list \<Rightarrow> ('c, 'l) SpaceIndex \<Rightarrow> ('e + (string list \<times> bool)) \<times> ('c, 'l) SpaceIndex" where
  "advance_page A k cursor changes s =
     (case collect_changes (adCollect A s cursor) (deleted_objects changes) [] changes empty_page of
        Inl e \<Rightarrow> (Inl e, s)
      | Inr page \<Rightarrow>
          (case ApplyPage (adDocs A) (adLinks A) (adMarkPending A) (adApplyFault A k) (pgUps page) (pgDels page)
                  (pgPrefixDels page) (pgTextPrefixDels page) (Some (pgLinks page)) (siDocs s, siLinks s) of
             (Inl e, _) \<Rightarrow> (Inl e, s)
           | (Inr touched, docs, links) \<Rightarrow>
               (case finish_page A k (ocApplySeq (last changes)) (s\<lparr>siDocs := docs, siLinks := links\<rparr>) of
                  (Inl e, s') \<Rightarrow> (Inl e, s')
                | (Inr _, s') \<Rightarrow> (Inr (touched, adHasEmbedder A \<and> hasIndexableText (pgUps page)), s'))))"

text \<open>The result: an error, or the targets signalled page by page and whether the embed loop was nudged.\<close>

partial_function (option) advance_loop :: "('c, 'l, 'e) advancer \<Rightarrow> nat \<Rightarrow> nat \<Rightarrow> string list list \<times> bool \<Rightarrow> ('c, 'l) SpaceIndex \<Rightarrow>
    (('e + string list list \<times> bool) \<times> ('c, 'l) SpaceIndex) option" where
  "advance_loop A k cursor acc s =
     (case adSince A cursor (adBatchLimit A) of
        Inl e \<Rightarrow> Some (Inl e, s)
      | Inr changes \<Rightarrow>
          if changes = [] then Some (Inr acc, s)
          else case advance_page A k cursor changes s of
            (Inl e, s') \<Rightarrow> Some (Inl e, s')
          | (Inr (touched, nudge), s') \<Rightarrow>
              let acc' = (if touched = [] then fst acc else fst acc @ [touched], snd acc \<or> nudge)
              in if length changes < adBatchLimit A then Some (Inr acc', s')
                 else advance_loop A (k + 1) (ocApplySeq (last changes)) acc' s')"

definition advancePages :: "('c, 'l, 'e) advancer \<Rightarrow> ('c, 'l) SpaceIndex \<Rightarrow> (('e + string list list \<times> bool) \<times> ('c, 'l) SpaceIndex) option" where
  "advancePages A s = advance_loop A 0 (fst (Cursor (siRow s))) ([], False) s"

section \<open>Alignment with the feed\<close>

text \<open>\<open>DropSpace\<close>: the three steps with the error each may meet.\<close>

definition DropSpace :: "('c, Doc) anystore \<Rightarrow> ('l, LinkDoc) anystore \<Rightarrow> 'e option \<times> 'e option \<times> 'e option \<Rightarrow> ('c, 'l) SpaceIndex \<Rightarrow> 'e option \<times> ('c, 'l) SpaceIndex" where
  "DropSpace S L faults s =
     (let (f1, f2, f3) = faults; s1 = s\<lparr>siDocs := asNone S\<rparr>; s2 = s1\<lparr>siLinks := asNone L\<rparr> in
      if f1 \<noteq> None then (f1, s) else if f2 \<noteq> None then (f2, s1) else if f3 \<noteq> None then (f3, s2) else (None, s2\<lparr>siRow := None\<rparr>))"

text \<open>
  \<open>generation\<close> and \<open>maxSeq\<close> are what the feed answers, \<open>dropFaults\<close> and \<open>resetFault\<close> the errors of the store;
  the result is the worker's generation and the space's index.
\<close>

definition alignIndex :: "('c, Doc) anystore \<Rightarrow> ('l, LinkDoc) anystore \<Rightarrow> 'e + string \<Rightarrow> 'e + nat \<Rightarrow> 'e option \<Rightarrow> 'e option \<times> 'e option \<times> 'e option \<Rightarrow> 'e option \<Rightarrow> ('c, 'l) SpaceIndex \<Rightarrow> string \<times> ('c, 'l) SpaceIndex" where
  "alignIndex S L generation maxSeq stampFault dropFaults resetFault s =
     (let (cursor, storedGen) = Cursor (siRow s) in
      case generation of
        Inl e \<Rightarrow> (storedGen, s)
      | Inr gen \<Rightarrow>
          let wgen = (if gen \<noteq> [] then gen else storedGen);
              dropped = (case DropSpace S L dropFaults s of
                  (Some e, s') \<Rightarrow> s'
                | (None, s') \<Rightarrow> if resetFault = None then s'\<lparr>siRow := SetCursor 0 wgen (siRow s')\<rparr> else s');
              keep = (if cursor > 0 \<and> storedGen = [] \<and> gen \<noteq> [] \<and> stampFault = None
                      then s\<lparr>siRow := SetCursor cursor gen (siRow s)\<rparr> else s)
          in if gen \<noteq> [] \<and> storedGen \<noteq> [] \<and> storedGen \<noteq> gen then (wgen, dropped)
             else if cursor > 0
             then (case maxSeq of Inl e \<Rightarrow> (wgen, s) | Inr mx \<Rightarrow> if cursor > mx then (wgen, dropped) else (wgen, keep))
             else (wgen, keep))"

section \<open>Rounds of embedding\<close>

text \<open>
  The loop runs beside the one that advances the space, so others write to the collection while it embeds:
  \<open>drWrites D k j\<close> is what they wrote in round \<open>k\<close> before its \<open>j\<close>-th chunk is landed or, for the number of its
  chunks, before the round ends.
\<close>

record ('c, 'e) drainer =
  drDocs :: "('c, Doc) anystore"
  drBatch :: nat
  drConc :: nat
  drEmbed :: "runes list \<Rightarrow> vector list \<times> 'e option"
  drFault :: "nat \<Rightarrow> 'e option"
  drWrites :: "nat \<Rightarrow> nat \<Rightarrow> 'c \<Rightarrow> 'c"

datatype 'e drain_error = DrainFault 'e | DrainStore "'e store_error" | DrainMeta meta_error | DrainEmbed 'e

fun pieces_of :: "nat \<Rightarrow> 'a list \<Rightarrow> 'a list list" where
  "pieces_of n xs = (if n = 0 \<or> xs = [] then [] else take n xs # pieces_of n (drop n xs))"

declare pieces_of.simps [simp del]

definition embed_chunk :: "(runes list \<Rightarrow> vector list \<times> 'e option) \<Rightarrow> (string \<times> runes) list \<Rightarrow> string list \<times> vector list \<times> 'e option" where
  "embed_chunk emb chunk = (map fst chunk, emb (map snd chunk))"

text \<open>The dimension the first embedded vector teaches.\<close>

definition learned_dim :: "(string list \<times> vector list \<times> 'e option) list \<Rightarrow> int option" where
  "learned_dim chunks =
     (case find (\<lambda>(ids, vecs, err). vecs \<noteq> [] \<and> hd vecs \<noteq> []) chunks of
        Some (ids, vecs, err) \<Rightarrow> Some (int (length (hd vecs))) | None \<Rightarrow> None)"

fun land_chunks :: "('c, Doc) anystore \<Rightarrow> (nat \<Rightarrow> 'c \<Rightarrow> 'c) \<Rightarrow> nat \<Rightarrow> (string list \<times> vector list \<times> 'e option) list \<Rightarrow> bool \<times> 'e option \<Rightarrow> 'c \<Rightarrow>
    ('e drain_error + bool \<times> 'e option) \<times> 'c" where
  "land_chunks S W j [] acc c = (Inr acc, W j c)"
| "land_chunks S W j ((ids, vecs, err) # chunks) (landed, firstErr) c =
     (let firstErr' = (if firstErr = None then err else firstErr) in
      if vecs = [] then land_chunks S W (j + 1) chunks (landed, firstErr') (W j c)
      else case SetVectors S None (take (length vecs) ids) vecs (W j c) of
        (Inl e, c') \<Rightarrow> (Inl (DrainStore e), c')
      | (Inr _, c') \<Rightarrow> land_chunks S W (j + 1) chunks (True, firstErr') c')"

definition drain_round :: "('c, 'e) drainer \<Rightarrow> nat \<Rightarrow> (string \<times> runes) list \<Rightarrow> Meta option \<times> StoreConf \<Rightarrow> 'c \<Rightarrow>
    ('e drain_error + Meta option \<times> StoreConf) \<times> 'c" where
  "drain_round D k todo meta c =
     (let chunks = map (embed_chunk (drEmbed D)) (pieces_of (drBatch D) todo) in
      case (case learned_dim chunks of None \<Rightarrow> Inr meta | Some dim \<Rightarrow> EnsureDim dim (fst meta) (snd meta)) of
        Inl e \<Rightarrow> (Inl (DrainMeta e), c)
      | Inr meta' \<Rightarrow>
          (case land_chunks (drDocs D) (drWrites D k) 0 chunks (False, None) c of
             (Inl e, c') \<Rightarrow> (Inl e, c')
           | (Inr (landed, firstErr), c') \<Rightarrow>
               if landed \<and> drFault D k \<noteq> None then (Inl (DrainFault (the (drFault D k))), c')
               else case firstErr of Some e \<Rightarrow> (Inl (DrainEmbed e), c') | None \<Rightarrow> (Inr meta', c')))"

partial_function (option) drain_loop :: "('c, 'e) drainer \<Rightarrow> nat \<Rightarrow> Meta option \<times> StoreConf \<Rightarrow> 'c \<Rightarrow>
    (('e drain_error + Meta option \<times> StoreConf) \<times> 'c) option" where
  "drain_loop D k meta c =
     (let todo = Pending (drDocs D) c (drBatch D * drConc D) in
      if todo = [] then Some (Inr meta, c)
      else case drain_round D k todo meta c of
        (Inl e, c') \<Rightarrow> Some (Inl e, c')
      | (Inr meta', c') \<Rightarrow>
          if length todo < drBatch D * drConc D then Some (Inr meta', c') else drain_loop D (k + 1) meta' c')"

definition drainRounds :: "('c, 'e) drainer \<Rightarrow> Meta option \<times> StoreConf \<Rightarrow> 'c \<Rightarrow> (('e drain_error + Meta option \<times> StoreConf) \<times> 'c) option" where
  "drainRounds D meta c = drain_loop D 0 meta c"

section \<open>The advance reaches the end of the feed\<close>

definition since_feed :: "ObjectChange list \<Rightarrow> nat \<Rightarrow> ObjectChange list" where
  "since_feed feed cursor = filter (\<lambda>ch. cursor < ocApplySeq ch) feed"

text \<open>The contract of \<open>ChangedSince\<close>: the changes past the cursor, ascending, at most the limit.\<close>

definition reads_feed :: "('c, 'l, 'e) advancer \<Rightarrow> ObjectChange list \<Rightarrow> bool" where
  "reads_feed A feed \<longleftrightarrow> sorted_wrt (<) (map ocApplySeq feed) \<and> 0 < adBatchLimit A \<and>
     (\<forall>cursor n. (\<exists>e. adSince A cursor n = Inl e) \<or> adSince A cursor n = Inr (take n (since_feed feed cursor)))"

lemma since_feed_sorted: "sorted_wrt (<) (map ocApplySeq feed) \<Longrightarrow> sorted_wrt (\<lambda>a b. ocApplySeq a < ocApplySeq b) (since_feed feed cursor)"
  by (simp add: since_feed_def sorted_wrt_filter sorted_wrt_map)

lemma since_feed_rest:
  assumes "sorted_wrt (<) (map ocApplySeq feed)" "take n (since_feed feed cursor) \<noteq> []"
  shows "cursor < ocApplySeq (last (take n (since_feed feed cursor)))"
    and "since_feed feed (ocApplySeq (last (take n (since_feed feed cursor)))) = drop n (since_feed feed cursor)"
proof -
  let ?xs = "since_feed feed cursor" and ?l = "last (take n (since_feed feed cursor))"
  have l: "?l \<in> set (take n ?xs)" using assms(2) by (rule last_in_set)
  then have "?l \<in> set ?xs" by (rule in_set_takeD)
  then show less: "cursor < ocApplySeq ?l" by (simp add: since_feed_def)
  have sorted: "sorted_wrt (\<lambda>a b. ocApplySeq a < ocApplySeq b) (take n ?xs @ drop n ?xs)" using since_feed_sorted [OF assms(1)] by simp
  have tk: "sorted_wrt (\<lambda>a b. ocApplySeq a < ocApplySeq b) (butlast (take n ?xs) @ [?l])" using assms(2) sorted unfolding sorted_wrt_append append_butlast_last_id [OF assms(2)] by simp
  have "\<not> ocApplySeq ?l < ocApplySeq ch" if "ch \<in> set (take n ?xs)" for ch
  proof -
    have "ch \<in> set (butlast (take n ?xs) @ [?l])" using that unfolding append_butlast_last_id [OF assms(2)] .
    then show ?thesis using tk unfolding sorted_wrt_append by (auto dest: less_imp_not_less)
  qed
  then have "filter (\<lambda>ch. ocApplySeq ?l < ocApplySeq ch) (take n ?xs) = []" by (simp add: filter_empty_conv)
  moreover have "filter (\<lambda>ch. ocApplySeq ?l < ocApplySeq ch) (drop n ?xs) = drop n ?xs"
    using sorted l unfolding sorted_wrt_append by (simp add: filter_id_conv)
  ultimately have "filter (\<lambda>ch. ocApplySeq ?l < ocApplySeq ch) (take n ?xs @ drop n ?xs) = drop n ?xs" by (simp only: filter_append append_Nil)
  moreover have "since_feed feed (ocApplySeq ?l) = filter (\<lambda>ch. ocApplySeq ?l < ocApplySeq ch) ?xs"
    unfolding since_feed_def filter_filter by (rule filter_cong [OF refl]) (use less [unfolded since_feed_def] in auto)
  ultimately show "since_feed feed (ocApplySeq ?l) = drop n ?xs" by (simp only: append_take_drop_id)
qed

abbreviation cursor_of :: "('c, 'l) SpaceIndex \<Rightarrow> nat" where
  "cursor_of s \<equiv> fst (Cursor (siRow s))"

lemma finish_page_cursor:
  assumes "finish_page A k n s = (r, s')"
  shows "cursor_of s' = n \<or> (\<exists>e. r = Inl e) \<and> cursor_of s' = cursor_of s"
  using assms by (auto simp: finish_page_def row_defs Let_def split: option.splits if_splits)

lemma advance_page_cursor:
  assumes "advance_page A k cursor changes s = (r, s')"
  shows "cursor_of s' = ocApplySeq (last changes) \<or> (\<exists>e. r = Inl e) \<and> cursor_of s' = cursor_of s"
  using assms finish_page_cursor [of A k "ocApplySeq (last changes)"]
  by (fastforce simp: advance_page_def split: sum.splits prod.splits)

lemma advance_loop_ends:
  assumes "reads_feed A feed"
  shows "cursor_of s = cursor \<Longrightarrow> \<exists>r s'. advance_loop A k cursor acc s = Some (r, s') \<and> cursor_of s \<le> cursor_of s' \<and>
    ((\<exists>e. r = Inl e) \<or> since_feed feed (cursor_of s') = [])"
proof (induction "length (since_feed feed cursor)" arbitrary: k cursor acc s rule: less_induct)
  case less
  have feed: "sorted_wrt (<) (map ocApplySeq feed)" "0 < adBatchLimit A" using assms by (auto simp: reads_feed_def)
  show ?case
  proof (cases "adSince A cursor (adBatchLimit A)")
    case (Inl e)
    then show ?thesis by (subst advance_loop.simps) simp
  next
    case (Inr changes)
    then have ch: "changes = take (adBatchLimit A) (since_feed feed cursor)" using assms unfolding reads_feed_def by (metis Inl_Inr_False sum.inject(2))
    show ?thesis
    proof (cases "changes = []")
      case True
      then have "since_feed feed cursor = []" using ch feed(2) by auto
      then show ?thesis using less.prems True Inr by (subst advance_loop.simps) simp
    next
      case False
      note rest = since_feed_rest [OF feed(1) False [unfolded ch], folded ch]
      obtain r s1 where page: "advance_page A k cursor changes s = (r, s1)" by (metis prod.exhaust)
      note cur = advance_page_cursor [OF page]
      show ?thesis
      proof (cases r)
        case (Inl e)
        then show ?thesis using page False Inr cur rest(1) less.prems by (subst advance_loop.simps) auto
      next
        case (Inr x)
        obtain touched nudge where x: "x = (touched, nudge)" by (cases x)
        have s1: "cursor_of s1 = ocApplySeq (last changes)" using cur Inr by simp
        let ?acc = "(if touched = [] then fst acc else fst acc @ [touched], snd acc \<or> nudge)"
        have step: "advance_loop A k cursor acc s = (if length changes < adBatchLimit A then Some (Inr ?acc, s1)
            else advance_loop A (k + 1) (ocApplySeq (last changes)) ?acc s1)"
          using \<open>adSince A cursor (adBatchLimit A) = Inr changes\<close> False page Inr x by (subst advance_loop.simps) (simp add: Let_def)
        show ?thesis
        proof (cases "length changes < adBatchLimit A")
          case True
          then have "drop (adBatchLimit A) (since_feed feed cursor) = []" unfolding ch by simp
          then have "since_feed feed (cursor_of s1) = []" unfolding s1 rest(2) .
          then show ?thesis using step True s1 rest(1) less.prems by simp
        next
          case False
          have "length (since_feed feed (ocApplySeq (last changes))) < length (since_feed feed cursor)"
            unfolding rest(2) using \<open>changes \<noteq> []\<close> feed(2) ch by (cases "since_feed feed cursor") auto
          from less.hyps [OF this s1, of "k + 1" ?acc] show ?thesis using step False s1 rest(1) less.prems by auto
        qed
      qed
    qed
  qed
qed

text \<open>
  C34. Advancing ends: over a feed that lists its changes in order, whatever faults the store or the chunkers report and
  whatever the chunkers yield, the loop returns after finitely many pages, never moves the cursor back,
  and when it returns without an error no change is left past the cursor.
\<close>

theorem advance_ends:
  assumes "reads_feed A feed"
  shows "\<exists>r s'. advancePages A s = Some (r, s') \<and> cursor_of s \<le> cursor_of s' \<and>
    ((\<exists>e. r = Inl e) \<or> since_feed feed (cursor_of s') = [])"
  unfolding advancePages_def by (rule advance_loop_ends [OF assms refl])

definition demo_feed :: "ObjectChange list" where
  "demo_feed = [\<lparr>ocObjectId = ''a'', ocApplySeq = 1, ocDeleted = False\<rparr>, \<lparr>ocObjectId = ''b'', ocApplySeq = 4, ocDeleted = True\<rparr>]"

definition demo_advancer :: "((string, Doc) fmap, (string, LinkDoc) fmap, string) advancer" where
  "demo_advancer = \<lparr>adDocs = mapStore, adLinks = mapStore, adMarkPending = True, adHasEmbedder = True, adGeneration = ''g'', adBatchLimit = 1,
     adBackfillFailed = False, adSince = (\<lambda>cursor n. Inr (take n (since_feed demo_feed cursor))), adCollect = (\<lambda>_ _ _ page. Inr page),
     adApplyFault = (\<lambda>_. None), adCursorFault = (\<lambda>_. None), adStampFault = (\<lambda>_. None)\<rparr>"

theorem advance_ends_witness:
  "reads_feed demo_advancer demo_feed \<and>
   (\<exists>r s'. advancePages demo_advancer \<lparr>siDocs = fmempty, siLinks = fmempty, siRow = None, siLinksStamped = False\<rparr> = Some (r, s') \<and>
      ((\<exists>e. r = Inl e) \<or> since_feed demo_feed (cursor_of s') = []))"
proof -
  have f: "reads_feed demo_advancer demo_feed" by (simp add: reads_feed_def demo_advancer_def demo_feed_def)
  from advance_ends [OF f] show ?thesis using f by blast
qed

section \<open>An aligned index\<close>

text \<open>
  Alignment leaves no index past its feed: when the feed answers and the store meets no fault, the cursor is then
  within the feed's numbering and the row carries the feed's generation if it has one and a cursor; an index of another
  generation, or past the end, starts over empty; any other keeps its documents, edges and cursor.
\<close>

theorem align_within_feed:
  assumes "alignIndex S L (Inr gen) (Inr mx) None (None, None, None) None s = (wgen, s')" "gen \<noteq> []"
  shows "cursor_of s' \<le> mx \<and> wgen = gen \<and> (0 < cursor_of s' \<longrightarrow> snd (Cursor (siRow s')) = gen) \<and>
    (if snd (Cursor (siRow s)) \<notin> {[], gen} \<or> mx < cursor_of s
     then siDocs s' = asNone S \<and> siLinks s' = asNone L \<and> cursor_of s' = 0
     else siDocs s' = siDocs s \<and> siLinks s' = siLinks s \<and> cursor_of s' = cursor_of s)"
  using assms by (auto simp: alignIndex_def DropSpace_def row_defs Let_def split: if_splits)

theorem align_within_feed_witness:
  "cursor_of (snd (alignIndex mapStore mapStore (Inr ''g'' :: string + _) (Inr 5) None (None, None, None) None
     \<lparr>siDocs = fmempty, siLinks = fmempty, siRow = Some \<lparr>crSeq = 9, crGen = ''g'', crEmbed = 9, crLinks = 2\<rparr>, siLinksStamped = False\<rparr>)) \<le> 5"
  using align_within_feed [of mapStore mapStore "''g''" 5 "\<lparr>siDocs = fmempty, siLinks = fmempty, siRow = Some \<lparr>crSeq = 9, crGen = ''g'', crEmbed = 9, crLinks = 2\<rparr>, siLinksStamped = False\<rparr>"]
  by (metis list.distinct(1) prod.exhaust_sel)

section \<open>The queue drains\<close>

text \<open>An embedder that answers: one vector of a fixed dimension per text, the one the store has or is to learn.\<close>

definition embeds_with :: "('c, 'e) drainer \<Rightarrow> (runes \<Rightarrow> vector) \<Rightarrow> nat \<Rightarrow> bool" where
  "embeds_with D g dm \<longleftrightarrow> 0 < dm \<and> (\<forall>t. length (g t) = dm) \<and> (\<forall>texts. drEmbed D texts = (map g texts, None)) \<and> (\<forall>k. drFault D k = None) \<and>
     0 < drBatch D \<and> 0 < drConc D"

lemma concat_pieces: "0 < n \<Longrightarrow> concat (pieces_of n xs) = xs \<and> [] \<notin> set (pieces_of n xs)"
proof (induction n xs rule: pieces_of.induct)
  case (1 n xs)
  then show ?case by (subst (1 2) pieces_of.simps) auto
qed

lemma SetVectors_zip: "length vecs = length ids \<Longrightarrow> SetVectors S None ids vecs c = (Inr (), fold (\<lambda>(i, v). asUpd S i (set_vector v)) (zip ids vecs) c)"
  by (simp add: SetVectors_def)

text \<open>What landing a round leaves when every chunk was embedded.\<close>

fun lands :: "('c, Doc) anystore \<Rightarrow> (nat \<Rightarrow> 'c \<Rightarrow> 'c) \<Rightarrow> (runes \<Rightarrow> vector) \<Rightarrow> nat \<Rightarrow> (string \<times> runes) list list \<Rightarrow> 'c \<Rightarrow> 'c" where
  "lands S W g j [] c = W j c"
| "lands S W g j (p # ps) c = lands S W g (j + 1) ps (fold (\<lambda>(k, t). asUpd S k (set_vector (g t))) p (W j c))"

lemma land_chunks_all:
  assumes "\<forall>texts. emb texts = (map g texts, None)" "[] \<notin> set ps"
  shows "land_chunks S W j (map (embed_chunk emb) ps) (b, None) c = (Inr (b \<or> ps \<noteq> [], None), lands S W g j ps c)"
  using assms(2)
proof (induction ps arbitrary: b c j)
  case (Cons p ps)
  have z: "zip (map fst p) (map (\<lambda>x. g (snd x)) p) = map (\<lambda>x. (fst x, g (snd x))) p" by (induction p) auto
  have "p \<noteq> []" using Cons.prems by auto
  then show ?case using Cons by (simp add: embed_chunk_def assms(1) SetVectors_zip z comp_def fold_map case_prod_unfold Let_def)
qed simp

lemma get_set_vectors:
  assumes "any_store S" "distinct (map fst todo)"
  shows "asGet S (fold (\<lambda>(k, t). asUpd S k (set_vector (g t))) todo c) k =
    (case map_of todo k of Some t \<Rightarrow> map_option (set_vector (g t)) (asGet S c k) | None \<Rightarrow> asGet S c k)"
  using assms(2)
proof (induction todo arbitrary: c)
  case (Cons x todo)
  obtain k' t where x: "x = (k', t)" by (cases x)
  have "map_of todo k' = None" using Cons.prems x by (simp add: map_of_eq_None_iff)
  then show ?case using Cons x by (auto simp: get_upd [OF assms(1)] split: option.splits)
qed simp

text \<open>A document that nobody else writes gets the vector of the text that was read.\<close>

lemma get_lands:
  assumes S: "any_store S" and W: "\<And>j c. asGet S (W j c) k = asGet S c k" and "distinct (map fst (concat ps))"
  shows "asGet S (lands S W g j ps c) k =
    (case map_of (concat ps) k of Some t \<Rightarrow> map_option (set_vector (g t)) (asGet S c k) | None \<Rightarrow> asGet S c k)"
  using assms(3)
proof (induction ps arbitrary: c j)
  case (Cons p ps)
  have d: "distinct (map fst p)" "distinct (map fst (concat ps))" "fst ` set p \<inter> fst ` set (concat ps) = {}" using Cons.prems by auto
  note get = get_set_vectors [OF S d(1), of g "W j c" k]
  show ?case
  proof (cases "map_of p k")
    case None
    then show ?thesis using Cons.IH [OF d(2)] get by (simp add: W map_add_def split: option.split)
  next
    case (Some t)
    then have "k \<in> fst ` set p" by (metis map_of_eq_None_iff option.distinct(1))
    then have "map_of (concat ps) k = None" using d(3) by (auto simp: map_of_eq_None_iff)
    then show ?thesis using Cons.IH [OF d(2)] get Some by (simp add: W map_add_def)
  qed
qed (simp add: W)

definition pending_keys :: "('c, Doc) anystore \<Rightarrow> 'c \<Rightarrow> string set" where
  "pending_keys S c = {k. \<exists>d. asGet S c k = Some d \<and> dPending d}"

lemma Pending_todo:
  assumes "any_store S" and todo_def: "todo = Pending S c n"
  shows "distinct (map fst todo)" "(k, t) \<in> set todo \<Longrightarrow> \<exists>d. asGet S c k = Some d \<and> dPending d \<and> t = docText d"
    "finite (pending_keys S c)" "length todo < n \<Longrightarrow> fst ` set todo = pending_keys S c" "todo = [] \<Longrightarrow> 0 < n \<Longrightarrow> pending_keys S c = {}"
proof -
  let ?all = "filter (\<lambda>(k, d). dPending d) (asAll S c)"
  have dk: "distinct (map fst (asAll S c))" using all_sorted [OF assms(1)] strict_sorted_iff by blast
  have keys: "fst ` set ?all = pending_keys S c" by (force simp: pending_keys_def all_set [OF assms(1)])
  have todo: "todo = take n (map (\<lambda>(k, d). (k, docText d)) ?all)" by (simp add: todo_def Pending_def)
  have fsts: "map fst todo = take n (map fst ?all)" by (simp add: todo comp_def case_prod_unfold flip: take_map)
  show "distinct (map fst todo)" unfolding fsts by (rule distinct_take) (rule distinct_map_filter [OF dk])
  show "\<exists>d. asGet S c k = Some d \<and> dPending d \<and> t = docText d" if "(k, t) \<in> set todo"
    using in_set_takeD [OF that [unfolded todo]] by (auto simp: all_set [OF assms(1)])
  show "finite (pending_keys S c)" unfolding keys [symmetric] by simp
  show "fst ` set todo = pending_keys S c" if "length todo < n"
  proof -
    have "length ?all \<le> n" using that unfolding todo by simp
    then have "map fst todo = map fst ?all" unfolding fsts by simp
    then show ?thesis using keys by (metis list.set_map)
  qed
  show "pending_keys S c = {}" if "todo = []" "0 < n"
  proof -
    have "?all = []" using that unfolding todo by simp
    then show ?thesis using keys by (metis empty_set image_empty)
  qed
qed

definition embedded_doc :: "(runes \<Rightarrow> vector) \<Rightarrow> Doc \<Rightarrow> Doc" where
  "embedded_doc g d = (if dPending d then set_vector (g (docText d)) d else d)"

lemma drain_round_lands:
  assumes "any_store S" "S = drDocs D" "embeds_with D g dm" "scDim (snd meta) = 0 \<or> scDim (snd meta) = int dm"
    and "todo = Pending S c (drBatch D * drConc D)" "todo \<noteq> []"
  shows "\<exists>meta' c'. drain_round D k todo meta c = (Inr meta', c') \<and> scDim (snd meta') = int dm \<and>
    (\<forall>x. (\<forall>j c. asGet S (drWrites D k j c) x = asGet S c x) \<longrightarrow>
       asGet S c' x = (if x \<in> fst ` set todo then map_option (embedded_doc g) (asGet S c x) else asGet S c x))"
proof -
  let ?ps = "pieces_of (drBatch D) todo"
  note E = assms(3) [unfolded embeds_with_def]
  have ps: "concat ?ps = todo" "[] \<notin> set ?ps" using concat_pieces [of "drBatch D" todo] E by auto
  obtain p pss where pp: "?ps = p # pss" using ps(1) assms(6) by (cases ?ps) auto
  obtain kt p' where "p = kt # p'" using ps(2) pp by (cases p) auto
  then have dim: "learned_dim (map (embed_chunk (drEmbed D)) ?ps) = Some (int dm)"
    using E pp by (auto simp: learned_dim_def embed_chunk_def)
  obtain meta' where m: "EnsureDim (int dm) (fst meta) (snd meta) = Inr meta'" "scDim (snd meta') = int dm"
    using assms(4) E by (cases meta) (auto simp: EnsureDim_def)
  define c' where "c' = lands S (drWrites D k) g 0 ?ps c"
  have land: "land_chunks (drDocs D) (drWrites D k) 0 (map (embed_chunk (drEmbed D)) ?ps) (False, None) c = (Inr (True, None), c')"
    using land_chunks_all [OF _ ps(2), of "drEmbed D" g S "drWrites D k" 0 False c] E pp unfolding c'_def assms(2) by simp
  have "drain_round D k todo meta c = (Inr meta', c')"
    unfolding drain_round_def Let_def dim land using m(1) E by simp
  moreover have "asGet S c' x = (if x \<in> fst ` set todo then map_option (embedded_doc g) (asGet S c x) else asGet S c x)"
    if x: "\<And>j c. asGet S (drWrites D k j c) x = asGet S c x" for x
  proof -
    have get: "asGet S c' x = (case map_of todo x of Some t \<Rightarrow> map_option (set_vector (g t)) (asGet S c x) | None \<Rightarrow> asGet S c x)"
      using get_lands [OF assms(1), of "drWrites D k" x ?ps g 0 c, OF x] Pending_todo(1) [OF assms(1,5)] unfolding c'_def ps(1) by simp
    show ?thesis
    proof (cases "map_of todo x")
      case None
      then have "x \<notin> fst ` set todo" by (simp add: map_of_eq_None_iff)
      then show ?thesis using get None by simp
    next
      case (Some t)
      then have "x \<in> fst ` set todo" by (metis map_of_eq_None_iff option.distinct(1))
      then show ?thesis using get Some Pending_todo(2) [OF assms(1,5) map_of_SomeD [OF Some]] by (auto simp: embedded_doc_def)
    qed
  qed
  ultimately show ?thesis using m(2) by blast
qed

text \<open>The documents nobody else writes while the loop runs, and the round from which nobody writes at all.\<close>

definition untouched :: "('c, 'e) drainer \<Rightarrow> string set" where
  "untouched D = {x. \<forall>k j c. asGet (drDocs D) (drWrites D k j c) x = asGet (drDocs D) c x}"

definition quiet_from :: "nat \<Rightarrow> ('c, 'e) drainer \<Rightarrow> bool" where
  "quiet_from N D \<longleftrightarrow> (\<forall>k j c x. N \<le> k \<longrightarrow> asGet (drDocs D) (drWrites D k j c) x = asGet (drDocs D) c x)"

lemma embedded_doc_idem [simp]: "embedded_doc g (embedded_doc g d) = embedded_doc g d"
  by (simp add: embedded_doc_def set_vector_def)

lemma drain_loop_ends:
  assumes S: "any_store S" "S = drDocs D" and E: "embeds_with D g dm" and N: "quiet_from N D"
  shows "scDim (snd meta) = 0 \<or> scDim (snd meta) = int dm \<Longrightarrow>
    \<exists>meta' c'. drain_loop D k meta c = Some (Inr meta', c') \<and> (\<forall>x \<in> untouched D. asGet S c' x = map_option (embedded_doc g) (asGet S c x))"
proof (induction "(N - k, card (pending_keys S c))" arbitrary: k meta c rule: wf_induct_rule [OF wf_lex_prod [OF wf_less_than wf_less_than]])
  case less: 1
  define todo where "todo = Pending S c (drBatch D * drConc D)"
  have pos: "0 < drBatch D * drConc D" using E by (simp add: embeds_with_def)
  note P = Pending_todo [OF S(1) todo_def]
  have plain: "map_option (embedded_doc g) (asGet S c x) = asGet S c x" if "x \<notin> pending_keys S c" for x
    using that by (cases "asGet S c x") (auto simp: pending_keys_def embedded_doc_def)
  show ?case
  proof (cases "todo = []")
    case True
    then have "drain_loop D k meta c = Some (Inr meta, c)" by (subst drain_loop.simps) (simp add: todo_def S(2) Let_def)
    then show ?thesis using P(5) [OF True pos] plain by auto
  next
    case False
    from drain_round_lands [OF S E less.prems todo_def False, of k] obtain meta1 c1 where
      r: "drain_round D k todo meta c = (Inr meta1, c1)" "scDim (snd meta1) = int dm"
      and get: "\<And>x. (\<And>j c. asGet S (drWrites D k j c) x = asGet S c x) \<Longrightarrow>
        asGet S c1 x = (if x \<in> fst ` set todo then map_option (embedded_doc g) (asGet S c x) else asGet S c x)" by blast
    have own: "asGet S c1 x = (if x \<in> fst ` set todo then map_option (embedded_doc g) (asGet S c x) else asGet S c x)" if "x \<in> untouched D" for x
      by (rule get) (use that S(2) in \<open>simp add: untouched_def\<close>)
    have step: "drain_loop D k meta c = (if length todo < drBatch D * drConc D then Some (Inr meta1, c1) else drain_loop D (k + 1) meta1 c1)"
      using False r(1) by (subst drain_loop.simps) (simp add: todo_def S(2) Let_def)
    show ?thesis
    proof (cases "length todo < drBatch D * drConc D")
      case True
      then have "asGet S c1 x = map_option (embedded_doc g) (asGet S c x)" if "x \<in> untouched D" for x
        using own [OF that] P(4) plain [of x] by auto
      then show ?thesis using step True by auto
    next
      case full: False
      have "((N - (k + 1), card (pending_keys S c1)), (N - k, card (pending_keys S c))) \<in> less_than <*lex*> less_than"
      proof (cases "k < N")
        case False
        have x: "asGet S c1 x = (if x \<in> fst ` set todo then map_option (embedded_doc g) (asGet S c x) else asGet S c x)" for x
          by (rule get) (use N False S(2) in \<open>simp add: quiet_from_def\<close>)
        obtain y where "y \<in> set todo" using \<open>todo \<noteq> []\<close> by (cases todo) auto
        then have "fst y \<in> pending_keys S c" "fst y \<notin> pending_keys S c1"
          using P(2) [of "fst y" "snd y"] x [of "fst y"] by (auto simp: pending_keys_def embedded_doc_def set_vector_def)
        moreover have "pending_keys S c1 \<subseteq> pending_keys S c"
          by (auto simp: pending_keys_def x embedded_doc_def set_vector_def split: if_splits)
        ultimately have "card (pending_keys S c1) < card (pending_keys S c)" by (intro psubset_card_mono [OF P(3)]) blast
        then show ?thesis using False by simp
      qed auto
      from less.hyps [OF this, of meta1] r(2) obtain meta' c' where
        "drain_loop D (k + 1) meta1 c1 = Some (Inr meta', c')" "\<forall>x \<in> untouched D. asGet S c' x = map_option (embedded_doc g) (asGet S c1 x)" by blast
      moreover have "map_option (embedded_doc g) (asGet S c1 x) = map_option (embedded_doc g) (asGet S c x)" if "x \<in> untouched D" for x
        unfolding own [OF that] by (simp add: option.map_comp comp_def)
      ultimately show ?thesis using step full by simp
    qed
  qed
qed

text \<open>
  C35. The queue drains, while the advance loop goes on writing to the same collection. Let the embedder answer every text
  with one vector of a fixed dimension, which is the one the store has or is to learn, let the store meet no fault, and
  let the others write nothing any more after some number of rounds. Then the rounds end without an error; and
  every document the others did not write meanwhile is no longer pending, has the vector of its own text if it was, and
  is as it was otherwise. (Of a document that was rewritten between the read and the landing this does not hold:
  \<open>stale_vector\<close>.)
\<close>

theorem queue_drains:
  assumes "any_store (drDocs D)" "embeds_with D g dm" "quiet_from N D" "scDim (snd meta) = 0 \<or> scDim (snd meta) = int dm"
  shows "\<exists>meta' c'. drainRounds D meta c = Some (Inr meta', c') \<and>
    (\<forall>x. (\<forall>k j c. asGet (drDocs D) (drWrites D k j c) x = asGet (drDocs D) c x) \<longrightarrow>
       asGet (drDocs D) c' x = map_option (\<lambda>d. if dPending d then set_vector (g (docText d)) d else d) (asGet (drDocs D) c x))"
  using drain_loop_ends [OF assms(1) refl assms(2,3,4), of 0 c] unfolding drainRounds_def untouched_def embedded_doc_def by simp

text \<open>Another document is rewritten while the first round embeds.\<close>

definition demo_drainer :: "((string, Doc) fmap, string) drainer" where
  "demo_drainer = \<lparr>drDocs = mapStore, drBatch = 2, drConc = 1, drEmbed = (\<lambda>texts. (map (\<lambda>t. [length t]) texts, None)), drFault = (\<lambda>_. None),
     drWrites = (\<lambda>k j c. if k = 0 then fmupd ''o:d:q'' (up_doc True demo_up) c else c)\<rparr>"

theorem queue_drains_witness:
  "\<exists>meta' c'. drainRounds demo_drainer (None, \<lparr>scDim = 0, scChunkRunes = 900\<rparr>) (fmupd ''o:d:r'' (up_doc True demo_up) fmempty) = Some (Inr meta', c') \<and>
     asGet mapStore c' ''o:d:r'' = Some (set_vector [2] (up_doc True demo_up))"
proof -
  let ?c = "fmupd ''o:d:r'' (up_doc True demo_up) fmempty"
  have s: "any_store (drDocs demo_drainer)" using any_store_mapStore by (simp add: demo_drainer_def)
  have e: "embeds_with demo_drainer (\<lambda>t. [length t]) 1" by (simp add: embeds_with_def demo_drainer_def)
  have q: "quiet_from 1 demo_drainer" by (simp add: quiet_from_def demo_drainer_def)
  have d: "dPending (up_doc True demo_up)" "docText (up_doc True demo_up) = [104, 105]"
    by (simp_all add: docText_up_doc) (simp_all add: up_doc_def demo_up_def shouldEmbed_def embedRule_def ScopeProps_def DatasetProp_def utf8_def utf8_rune_def Let_def)
  from queue_drains [OF s e q, of "(None, \<lparr>scDim = 0, scChunkRunes = 900\<rparr>)" ?c] obtain meta' c' where
    r: "drainRounds demo_drainer (None, \<lparr>scDim = 0, scChunkRunes = 900\<rparr>) ?c = Some (Inr meta', c')"
    and x: "\<And>x. (\<forall>k j c. asGet mapStore (drWrites demo_drainer k j c) x = asGet mapStore c x) \<Longrightarrow>
      asGet mapStore c' x = map_option (\<lambda>d. if dPending d then set_vector [length (docText d)] d else d) (asGet mapStore ?c x)"
    by (auto simp: demo_drainer_def)
  have "\<forall>k j c. asGet mapStore (drWrites demo_drainer k j c) ''o:d:r'' = asGet mapStore c ''o:d:r''"
    by (simp add: demo_drainer_def mapStore_def)
  from x [OF this] show ?thesis using r d by (simp add: mapStore_def numeral_2_eq_2)
qed

end
