(* ===== verification/SearchLegs.thy ===== *)
theory SearchLegs
  imports IndexEmbed
begin

text \<open>
  The two legs of a search (src/internal/indexer/host_filter.go, the reads of store.go, and \<open>vectorLeg\<close> and
  \<open>ftsLeg\<close> of indexer.go): the filter over a hit's host object, the cursor and the nearest-neighbour query over the
  store, and the loops that read each leg until its window is covered.

  The query engine of any-store is a parameter: given a filter it answers an error or rows, each an error or a
  document with its score (of the text) or its distance (of the vector); so is the parser of search clauses. What the
  legs rely on is that a row satisfies the conditions over scopes, objects and ids of its filter.
\<close>

definition bind_sum :: "'e + 'a \<Rightarrow> ('a \<Rightarrow> 'e + 'b) \<Rightarrow> 'e + 'b" where
  "bind_sum m f = (case m of Inl e \<Rightarrow> Inl e | Inr x \<Rightarrow> f x)"

lemma bind_sum_simps [simp]: "bind_sum (Inl e) f = Inl e" "bind_sum (Inr x) f = f x"
  by (simp_all add: bind_sum_def)

lemma bind_sum_Inr: "bind_sum m f = Inr y \<longleftrightarrow> (\<exists>x. m = Inr x \<and> f x = Inr y)"
  by (cases m) auto

section \<open>The filter over host objects\<close>

text \<open>\<open>Resolve\<close> with its bound, and \<open>Match\<close>, which answers the ids that satisfy the filter.\<close>

record 'e HostFilter =
  hfResolve :: "int \<Rightarrow> 'e + (string list \<times> bool)"
  hfMatch :: "string list \<Rightarrow> 'e + string list"

text \<open>
  \<open>objectsHostFilter\<close> (src/internal/server/handlers_search.go): the SDK's query over the objects is a parameter, which
  answers an error or an iterator, the documents \<open>Doc\<close> reads (each an error or an id) with the error \<open>Err\<close> tells
  after the last \<open>Next\<close>; \<open>None\<close> asks without a restriction of the ids.
\<close>

type_synonym 'e iter = "('e + string) list \<times> 'e option"

fun resolve_rows :: "(nat \<Rightarrow> 'e option) \<Rightarrow> int \<Rightarrow> ('e + string) list \<Rightarrow> 'e option \<Rightarrow> string list \<Rightarrow> 'e + (string list \<times> bool)" where
  "resolve_rows ctxErr mx [] fin ids = (case fin of None \<Rightarrow> Inr (ids, False) | Some e \<Rightarrow> Inl e)"
| "resolve_rows ctxErr mx (row # rows) fin ids =
     (if mx > 0 \<and> int (length ids) = mx then Inr (ids, True)
      else if length ids mod 256 = 0 \<and> ctxErr (length ids) \<noteq> None then Inl (the (ctxErr (length ids)))
      else case row of Inl e \<Rightarrow> Inl e | Inr i \<Rightarrow> resolve_rows ctxErr mx rows fin (ids @ [i]))"

fun collect_rows :: "('e + 'a) list \<Rightarrow> 'e + 'a list" where
  "collect_rows [] = Inr []"
| "collect_rows (row # rows) = bind_sum row (\<lambda>x. bind_sum (collect_rows rows) (\<lambda>xs. Inr (x # xs)))"

definition objectsHostFilter :: "(nat \<Rightarrow> 'e option) \<Rightarrow> (string list option \<Rightarrow> 'e + 'e iter) \<Rightarrow> 'e HostFilter" where
  "objectsHostFilter ctxErr queryObjects =
     \<lparr>hfResolve = (\<lambda>mx. bind_sum (queryObjects None) (\<lambda>(rows, fin). resolve_rows ctxErr mx rows fin [])),
      hfMatch = (\<lambda>ids. bind_sum (queryObjects (Some ids)) (\<lambda>(rows, fin).
        bind_sum (collect_rows rows) (\<lambda>matched. case fin of None \<Rightarrow> Inr matched | Some e \<Rightarrow> Inl e)))\<rparr>"

definition filterIdsMax :: int where "filterIdsMax = 256"
definition filterBatch :: nat where "filterBatch = 64"
definition filterScanRows :: nat where "filterScanRows = 5000"
definition filterScanRowsMax :: nat where "filterScanRowsMax = 100000"
definition filterMaterializeMax :: int where "filterMaterializeMax = 50000"
definition filterResidualMax :: int where "filterResidualMax = 9999"

text \<open>A nil set, of a request without a filter, is \<open>None\<close>. \<open>hsKnown\<close> has the objects looked up so far.\<close>

record 'e hostSet =
  hsFilter :: "'e HostFilter"
  hsList :: "string list"
  hsRes :: "string list option"
  hsExact :: bool
  hsTriedMax :: int
  hsSmall :: bool
  hsKnown :: "(string \<times> bool) list"

definition setExact :: "string list \<Rightarrow> 'e hostSet \<Rightarrow> 'e hostSet" where
  "setExact ids s =
     (let s = s\<lparr>hsList := ids, hsExact := True, hsKnown := []\<rparr>
      in if int (length ids) \<le> filterResidualMax then s\<lparr>hsRes := Some ids\<rparr> else s)"

definition newHostSet :: "'e HostFilter option \<Rightarrow> 'e + 'e hostSet option" where
  "newHostSet flt =
     (case flt of
        None \<Rightarrow> Inr None
      | Some f \<Rightarrow>
          bind_sum (hfResolve f filterIdsMax) (\<lambda>(ids, more').
            let s = \<lparr>hsFilter = f, hsList = [], hsRes = None, hsExact = False, hsTriedMax = 0, hsSmall = False, hsKnown = []\<rparr>
            in Inr (Some (if more' then s\<lparr>hsTriedMax := filterIdsMax\<rparr> else (setExact ids s)\<lparr>hsSmall := True\<rparr>))))"

definition residual :: "'e hostSet option \<Rightarrow> string list option" where
  "residual hs = (case hs of None \<Rightarrow> None | Some s \<Rightarrow> hsRes s)"

definition hint :: "'e hostSet option \<Rightarrow> bool" where
  "hint hs = (case hs of None \<Rightarrow> False | Some s \<Rightarrow> hsSmall s)"

definition lazy :: "'e hostSet option \<Rightarrow> bool" where
  "lazy hs = (case hs of None \<Rightarrow> False | Some s \<Rightarrow> hsRes s = None)"

definition empty_set :: "'e hostSet option \<Rightarrow> bool" where
  "empty_set hs = (case hs of None \<Rightarrow> False | Some s \<Rightarrow> hsSmall s \<and> hsList s = [])"

definition materialize :: "int \<Rightarrow> 'e hostSet option \<Rightarrow> 'e + 'e hostSet option" where
  "materialize mx hs =
     (case hs of
        None \<Rightarrow> Inr None
      | Some s \<Rightarrow>
          if hsExact s \<or> mx \<le> hsTriedMax s then Inr (Some s)
          else bind_sum (hfResolve (hsFilter s) mx) (\<lambda>(ids, more').
            Inr (Some (if more' then s\<lparr>hsTriedMax := mx\<rparr> else setExact ids s))))"

definition has :: "'e hostSet \<Rightarrow> string \<Rightarrow> bool" where
  "has s objectId = (if hsExact s then objectId \<in> set (hsList s) else map_of (hsKnown s) objectId = Some True)"

text \<open>The objects \<open>keep\<close> asks about: those of the hits not looked up yet, each once.\<close>

definition ask_ids :: "(string \<times> bool) list \<Rightarrow> 's Hit list \<Rightarrow> string list" where
  "ask_ids known hits = map hObjectId (dedup_by hObjectId (map fst known) hits)"

definition keep :: "'s Hit list \<Rightarrow> 'e hostSet option \<Rightarrow> 'e + ('s Hit list \<times> 'e hostSet option)" where
  "keep hits hs =
     (case hs of
        None \<Rightarrow> Inr (hits, None)
      | Some s \<Rightarrow>
          if hits = [] then Inr (hits, Some s)
          else bind_sum
            (let ask = ask_ids (hsKnown s) hits in
             if \<not> hsExact s \<and> ask \<noteq> []
             then bind_sum (hfMatch (hsFilter s) ask) (\<lambda>matched. Inr (s\<lparr>hsKnown := map (\<lambda>i. (i, i \<in> set matched)) ask @ hsKnown s\<rparr>))
             else Inr s)
            (\<lambda>s. Inr (filter (\<lambda>h. has s (hObjectId h)) hits, Some s)))"

section \<open>Queries over the store\<close>

record FTSQuery =
  fqQuery :: runes
  fqDefaultAnd :: bool
  fqRequire :: "runes list"
  fqExclude :: "runes list"
  fqFields :: "string list"

datatype TextOp = TextShould | TextMust | TextMustNot

text \<open>The filters the legs build; a clause is a parsed term with the role the leg gave it, if it gave one.\<close>

datatype 'cl filt =
    FText runes bool "string list" "(TextOp option \<times> 'cl) list"
  | FKnn vector int
  | FScopeIn "string list"
  | FObjectIdIn "string list"
  | FIdIn "string list"
  | FAnd "'cl filt" "'cl filt"

datatype 'e leg_error = ErrIndexNotReady | ErrNoIndex | ErrStore 'e | ErrHost 'e | ErrCtx 'e

datatype 'e coll_state = CollReady | CollMissing | CollNotReady | CollErr 'e

text \<open>
  What the legs read: \<open>stColl\<close> is what \<open>spaceCollRead\<close> finds, \<open>stFind\<close> a query with the planner's hint (and the
  number of the query, as the collection may change between two), \<open>stNoVector\<close> the answer of a collection without
  a vector index, \<open>stCtx\<close> the error of the context when a cursor has read so many rows.
\<close>

record ('cl, 's, 'e) searcher =
  stColl :: "'e coll_state"
  stFind :: "nat \<Rightarrow> 'cl filt \<Rightarrow> bool \<Rightarrow> 'e + ('e + Doc \<times> 's) list"
  stNoVector :: bool
  stDim :: int
  stParse :: "runes \<Rightarrow> 'cl list"
  stFloat :: "'s FloatOps"
  stCtx :: "nat \<Rightarrow> nat \<Rightarrow> 'e option"

definition appendClauses :: "(runes \<Rightarrow> 'cl list) \<Rightarrow> (TextOp option \<times> 'cl) list \<Rightarrow> runes list \<Rightarrow> TextOp \<Rightarrow> (TextOp option \<times> 'cl) list" where
  "appendClauses parse dst terms op = dst @ concat (map (\<lambda>t. map (\<lambda>c. (Some op, c)) (parse t)) terms)"

definition hitFromDoc :: "Doc \<Rightarrow> 's \<Rightarrow> 's Hit" where
  "hitFromDoc d score =
     \<lparr>hScope = dScope d, hObjectId = dObjectId d, hDataset = dDataset d, hRecordId = dRecordId d, hChunk = dChunk d,
      hData = docText d, hScore = score, hMatch = []\<rparr>"

definition with_scopes :: "string list \<Rightarrow> 'cl filt \<Rightarrow> 'cl filt" where
  "with_scopes scopes f = (if scopes = [] then f else FAnd f (FScopeIn scopes))"

definition with_residual :: "string list option \<Rightarrow> 'cl filt \<Rightarrow> 'cl filt" where
  "with_residual res f = (case res of None \<Rightarrow> f | Some ids \<Rightarrow> FAnd f (FObjectIdIn ids))"

definition lift_store :: "'e + 'a \<Rightarrow> 'e leg_error + 'a" where
  "lift_store r = (case r of Inl e \<Rightarrow> Inl (ErrStore e) | Inr x \<Rightarrow> Inr x)"

definition lift_host :: "'e + 'a \<Rightarrow> 'e leg_error + 'a" where
  "lift_host r = (case r of Inl e \<Rightarrow> Inl (ErrHost e) | Inr x \<Rightarrow> Inr x)"

text \<open>The cursor \<open>openFTS\<close> starts is the rows \<open>Next\<close> will yield, an error among them ending the leg.\<close>

definition openFTS :: "('cl, 's, 'e) searcher \<Rightarrow> nat \<Rightarrow> FTSQuery \<Rightarrow> string list \<Rightarrow> string list option \<Rightarrow> 'e leg_error + ('e + 's Hit) list" where
  "openFTS st rnd fq scopes res =
     (case stColl st of
        CollMissing \<Rightarrow> Inr []
      | CollNotReady \<Rightarrow> Inl ErrIndexNotReady
      | CollErr e \<Rightarrow> Inl (ErrStore e)
      | CollReady \<Rightarrow>
          let parse = stParse st;
              clauses = (if fqRequire fq \<noteq> [] \<or> fqExclude fq \<noteq> []
                then appendClauses parse (appendClauses parse (map (\<lambda>c. (None, c)) (parse (fqQuery fq))) (fqRequire fq) TextMust) (fqExclude fq) TextMustNot
                else []);
              f = with_residual res (with_scopes scopes (FText (fqQuery fq) (fqDefaultAnd fq) (fqFields fq) clauses))
          in bind_sum (lift_store (stFind st rnd f False)) (\<lambda>rows.
               Inr (map (\<lambda>row. case row of Inl e \<Rightarrow> Inl e | Inr (d, s) \<Rightarrow> Inr (hitFromDoc d s)) rows)))"

definition searchVector :: "('cl, 's::linorder, 'e) searcher \<Rightarrow> nat \<Rightarrow> vector \<Rightarrow> string list \<Rightarrow> int \<Rightarrow> 's \<Rightarrow> string list option \<Rightarrow> bool \<Rightarrow>
    'e leg_error + ('s Hit list \<times> int)" where
  "searchVector st rnd vec scopes limit minSim res hnt =
     (if stDim st = 0 then Inr ([], 0)
      else case stColl st of
        CollMissing \<Rightarrow> Inr ([], 0)
      | CollNotReady \<Rightarrow> Inl ErrIndexNotReady
      | CollErr e \<Rightarrow> Inl (ErrStore e)
      | CollReady \<Rightarrow>
          if stNoVector st then Inr ([], 0)
          else
            let F = stFloat st;
                f = with_residual res (with_scopes scopes (FKnn vec limit))
            in bind_sum (lift_store (stFind st rnd f (hnt \<and> res \<noteq> None))) (\<lambda>rows.
               bind_sum (lift_store (collect_rows rows)) (\<lambda>docs.
                 let hits = map (\<lambda>(d, dist). hitFromDoc d (fSub F (fNat F 1) dist)) docs;
                     flr = max (fNat F 0) minSim
                 in Inr (filter (\<lambda>h. flr < hScore h) hits, int (length hits)))))"

definition doc_id :: "Doc \<Rightarrow> string" where
  "doc_id d = chunkDocId (docId (dObjectId d) (dDataset d) (dRecordId d)) (dChunk d)"

definition FilterTerms :: "('cl, 's, 'e) searcher \<Rightarrow> nat \<Rightarrow> 's Hit list \<Rightarrow> runes list \<Rightarrow> runes list \<Rightarrow> 'e leg_error + 's Hit list" where
  "FilterTerms st rnd hits require exclude =
     (if hits = [] \<or> (require = [] \<and> exclude = []) then Inr hits
      else case stColl st of
        CollMissing \<Rightarrow> Inl ErrNoIndex
      | CollNotReady \<Rightarrow> Inl ErrIndexNotReady
      | CollErr e \<Rightarrow> Inl (ErrStore e)
      | CollReady \<Rightarrow>
          let parse = stParse st; keepMatched = (require \<noteq> []);
              clauses = (if keepMatched then appendClauses parse (appendClauses parse [] require TextMust) exclude TextMustNot
                         else appendClauses parse [] exclude TextShould)
          in bind_sum (lift_store (stFind st rnd (FAnd (FText [] False [] clauses) (FIdIn (map hitDocId hits))) False)) (\<lambda>rows.
             bind_sum (lift_store (collect_rows (take (length hits) rows))) (\<lambda>docs.
               let matched = map (\<lambda>(d, s). doc_id d) docs
               in Inr (filter (\<lambda>h. (hitDocId h \<in> set matched) = keepMatched) hits))))"

section \<open>The lexical leg\<close>

record legCover =
  lcFetch :: nat
  lcGroups :: nat

definition covered :: "legCover \<Rightarrow> 's Hit list \<Rightarrow> bool" where
  "covered cov hits \<longleftrightarrow> lcFetch cov \<le> length hits \<and> lcGroups cov \<le> countGroups hits"

definition maxLegFetch :: nat where "maxLegFetch = 1000"

definition withoutRecords :: "'s Hit list \<Rightarrow> string list \<Rightarrow> 's Hit list" where
  "withoutRecords hits skip = (if skip = [] then hits else filter (\<lambda>h. groupKey h \<notin> set skip) hits)"

text \<open>
  The state of the loop: \<open>seen\<close>, the record keys of the hits, is read off the hits. \<open>lzy\<close> is captured before the
  loop. One step of the loop consumes one row of the cursor.
\<close>

record ('s, 'e) ftsState =
  ftHits :: "'s Hit list"
  ftBatch :: "'s Hit list"
  ftRead :: nat
  ftBudget :: bool
  ftSet :: "'e hostSet option"

definition fts_covered :: "legCover \<Rightarrow> 's Hit list \<Rightarrow> bool" where
  "fts_covered cov hits \<longleftrightarrow> maxLegFetch \<le> length hits \<or> covered cov hits"

definition fts_flush :: "bool \<Rightarrow> string list \<Rightarrow> ('s, 'e) ftsState \<Rightarrow> 'e leg_error + ('s, 'e) ftsState" where
  "fts_flush lzy skip s =
     bind_sum (if lzy then lift_host (keep (ftBatch s) (ftSet s)) else Inr (ftBatch s, ftSet s)) (\<lambda>(kept, hs).
       Inr (s\<lparr>ftHits := ftHits s @ withoutRecords kept skip, ftBatch := [], ftSet := hs\<rparr>))"

definition is_exact :: "'e hostSet option \<Rightarrow> bool" where
  "is_exact hs = (case hs of None \<Rightarrow> False | Some s \<Rightarrow> hsExact s)"

text \<open>The rescue of a page still short after \<open>filterScanRows\<close> rows.\<close>

definition fts_rescue :: "bool \<Rightarrow> string list \<Rightarrow> ('s, 'e) ftsState \<Rightarrow> 'e leg_error + ('s, 'e) ftsState" where
  "fts_rescue lzy skip s =
     (if lzy \<and> ftRead s = filterScanRows \<and> \<not> is_exact (ftSet s)
      then bind_sum (fts_flush lzy skip s) (\<lambda>s.
           bind_sum (lift_host (materialize filterMaterializeMax (ftSet s))) (\<lambda>hs. Inr (s\<lparr>ftSet := hs\<rparr>)))
      else Inr s)"

fun fts_loop :: "(nat \<Rightarrow> 'e option) \<Rightarrow> legCover \<Rightarrow> bool \<Rightarrow> string list \<Rightarrow> ('e + 's Hit) list \<Rightarrow> ('s, 'e) ftsState \<Rightarrow> 'e leg_error + ('s, 'e) ftsState" where
  "fts_loop ctxErr cov lzy skip rows s =
     (if fts_covered cov (ftHits s) then Inr s
      else if lzy \<and> filterScanRowsMax \<le> ftRead s then Inr (s\<lparr>ftBudget := True\<rparr>)
      else bind_sum (fts_rescue lzy skip s) (\<lambda>s.
        if ftRead s mod 64 = 0 \<and> ctxErr (ftRead s) \<noteq> None then Inl (ErrCtx (the (ctxErr (ftRead s))))
        else case rows of
          [] \<Rightarrow> Inr s
        | Inl e # _ \<Rightarrow> Inl (ErrStore e)
        | Inr h # rows' \<Rightarrow>
            let s = s\<lparr>ftRead := ftRead s + 1, ftBatch := ftBatch s @ [h]\<rparr>
            in bind_sum (if \<not> lzy \<or> is_exact (ftSet s) \<or> filterBatch \<le> length (ftBatch s) then fts_flush lzy skip s else Inr s)
                 (fts_loop ctxErr cov lzy skip rows')))"

declare fts_loop.simps [simp del]

definition ftsLeg :: "('cl, 's, 'e) searcher \<Rightarrow> nat \<Rightarrow> FTSQuery \<Rightarrow> string list \<Rightarrow> legCover \<Rightarrow> 'e hostSet option \<Rightarrow> string list \<Rightarrow>
    'e leg_error + ('s Hit list \<times> bool \<times> 'e hostSet option)" where
  "ftsLeg st rnd fq scopes cov hs skip =
     bind_sum (openFTS st rnd fq scopes (residual hs)) (\<lambda>rows.
       let lzy = lazy hs in
       bind_sum (fts_loop (stCtx st rnd) cov lzy skip rows \<lparr>ftHits = [], ftBatch = [], ftRead = 0, ftBudget = False, ftSet = hs\<rparr>) (\<lambda>s.
       bind_sum (fts_flush lzy skip s) (\<lambda>s.
         Inr (take maxLegFetch (ftHits s), ftBudget s, ftSet s))))"

section \<open>The vector leg\<close>

definition vectorStop :: "legCover \<Rightarrow> 's Hit list \<Rightarrow> int \<Rightarrow> int \<Rightarrow> int \<Rightarrow> bool \<Rightarrow> bool \<Rightarrow> bool" where
  "vectorStop cov kept n k prevN floorDropped scoped =
     (if covered cov kept then True
      else if floorDropped then True
      else if n < k then \<not> scoped \<or> n \<le> prevN
      else int maxLegFetch \<le> k)"

text \<open>What a request asks of the vector leg.\<close>

record 's vecReq =
  vrVector :: vector
  vrScopes :: "string list"
  vrRequire :: "runes list"
  vrExclude :: "runes list"
  vrMinSim :: 's

text \<open>One round: the hits kept, the rows of the index before the floor, whether the floor dropped rows, and the set.\<close>

definition vec_round :: "('cl, 's::linorder, 'e) searcher \<Rightarrow> 's vecReq \<Rightarrow> string list option \<Rightarrow> bool \<Rightarrow> string list \<Rightarrow> nat \<Rightarrow> int \<Rightarrow> 'e hostSet option \<Rightarrow>
    'e leg_error + ('s Hit list \<times> int \<times> bool \<times> 'e hostSet option)" where
  "vec_round st req res hnt skip rnd k hs =
     bind_sum (searchVector st rnd (vrVector req) (vrScopes req) k (vrMinSim req) res hnt) (\<lambda>(raw, n).
     bind_sum (if vrRequire req \<noteq> [] \<or> vrExclude req \<noteq> [] then FilterTerms st rnd raw (vrRequire req) (vrExclude req) else Inr raw) (\<lambda>kept.
     bind_sum (if res = None \<and> hs \<noteq> None then lift_host (keep kept hs) else Inr (kept, hs)) (\<lambda>(kept, hs).
       Inr (withoutRecords kept skip, n, int (length raw) < n, hs))))"

partial_function (option) vec_loop :: "('cl, 's::linorder, 'e) searcher \<Rightarrow> 's vecReq \<Rightarrow> legCover \<Rightarrow> string list option \<Rightarrow> bool \<Rightarrow> string list \<Rightarrow>
    nat \<Rightarrow> int \<Rightarrow> int \<Rightarrow> 'e hostSet option \<Rightarrow> ('e leg_error + ('s Hit list \<times> bool \<times> 'e hostSet option)) option" where
  "vec_loop st req cov res hnt skip rnd k prevN hs =
     (case vec_round st req res hnt skip rnd k hs of
        Inl e \<Rightarrow> Some (Inl e)
      | Inr (kept, n, dropped, hs') \<Rightarrow>
          if vectorStop cov kept n k prevN dropped (vrScopes req \<noteq> [] \<or> res \<noteq> None)
          then Some (Inr (kept, res = None \<and> hs' \<noteq> None \<and> int maxLegFetch \<le> k \<and> \<not> covered cov kept, hs'))
          else vec_loop st req cov res hnt skip (rnd + 1) (min (k * 4) (int maxLegFetch)) n hs')"

definition vectorLeg :: "('cl, 's::linorder, 'e) searcher \<Rightarrow> 's vecReq \<Rightarrow> legCover \<Rightarrow> 'e hostSet option \<Rightarrow> string list \<Rightarrow>
    ('e leg_error + ('s Hit list \<times> bool \<times> 'e hostSet option)) option" where
  "vectorLeg st req cov hs skip =
     (case (if lazy hs then lift_host (materialize filterResidualMax hs) else Inr hs) of
        Inl e \<Rightarrow> Some (Inl e)
      | Inr hs' \<Rightarrow> vec_loop st req cov (residual hs') (hint hs') skip 0 (int (lcFetch cov)) (-1) hs')"

section \<open>The filter is kept\<close>

text \<open>
  What a filter answers for the objects \<open>P\<close>: \<open>Resolve\<close> lists only such objects, all of them unless it reports
  more, and \<open>Match\<close> names exactly those among the ids it was asked about.
\<close>

definition answers :: "(string \<Rightarrow> bool) \<Rightarrow> 'e HostFilter \<Rightarrow> bool" where
  "answers P f \<longleftrightarrow>
     (\<forall>n ids m. hfResolve f n = Inr (ids, m) \<longrightarrow> set ids \<subseteq> {i. P i} \<and> (m \<or> {i. P i} \<subseteq> set ids)) \<and>
     (\<forall>ask ids. hfMatch f ask = Inr ids \<longrightarrow> set ids \<inter> set ask = {i. P i} \<inter> set ask)"

definition set_ok :: "(string \<Rightarrow> bool) \<Rightarrow> 'e hostSet option \<Rightarrow> bool" where
  "set_ok P hs = (case hs of None \<Rightarrow> True | Some s \<Rightarrow>
     answers P (hsFilter s) \<and> (hsExact s \<longrightarrow> set (hsList s) = {i. P i}) \<and> pred_option (\<lambda>ids. set ids = {i. P i}) (hsRes s) \<and>
     list_all (\<lambda>(i, b). b = P i) (hsKnown s))"

definition admitted :: "(string \<Rightarrow> bool) \<Rightarrow> 'e hostSet option \<Rightarrow> 's Hit \<Rightarrow> bool" where
  "admitted P hs h \<longleftrightarrow> hs = None \<or> P (hObjectId h)"

lemma setExact_ok: "set_ok P (Some s) \<Longrightarrow> set ids = {i. P i} \<Longrightarrow> set_ok P (Some (setExact ids s))"
  by (simp add: set_ok_def setExact_def Let_def)

lemma newHostSet_ok:
  assumes "pred_option (answers P) flt" "newHostSet flt = Inr hs"
  shows "set_ok P hs" "hs = None \<longleftrightarrow> flt = None"
proof -
  have "set_ok P hs \<and> (hs = None \<longleftrightarrow> flt = None)"
  proof (cases flt)
    case None
    then show ?thesis using assms(2) by (simp add: newHostSet_def set_ok_def)
  next
    case (Some f)
    then obtain ids m where r: "hfResolve f filterIdsMax = Inr (ids, m)"
      and hs: "hs = Some (if m then \<lparr>hsFilter = f, hsList = [], hsRes = None, hsExact = False, hsTriedMax = filterIdsMax, hsSmall = False, hsKnown = []\<rparr>
        else (setExact ids \<lparr>hsFilter = f, hsList = [], hsRes = None, hsExact = False, hsTriedMax = 0, hsSmall = False, hsKnown = []\<rparr>)\<lparr>hsSmall := True\<rparr>)"
      using assms(2) by (auto simp: newHostSet_def bind_sum_Inr Let_def)
    have a: "answers P f" using assms(1) Some by simp
    have "set ids \<subseteq> {i. P i} \<and> (m \<or> {i. P i} \<subseteq> set ids)" using a r unfolding answers_def by blast
    then show ?thesis using a Some unfolding hs by (auto simp: set_ok_def setExact_def Let_def)
  qed
  then show "set_ok P hs" "hs = None \<longleftrightarrow> flt = None" by simp_all
qed

lemma materialize_ok:
  assumes "set_ok P hs" "materialize n hs = Inr hs'"
  shows "set_ok P hs'" "hs' = None \<longleftrightarrow> hs = None"
proof -
  have "set_ok P hs' \<and> (hs' = None \<longleftrightarrow> hs = None)"
  proof (cases hs)
    case None
    then show ?thesis using assms by (simp add: materialize_def)
  next
    case (Some s)
    show ?thesis
    proof (cases "hsExact s \<or> n \<le> hsTriedMax s")
      case True
      then show ?thesis using assms Some by (simp add: materialize_def)
    next
      case False
      then obtain ids m where r: "hfResolve (hsFilter s) n = Inr (ids, m)" and hs': "hs' = Some (if m then s\<lparr>hsTriedMax := n\<rparr> else setExact ids s)"
        using assms(2) Some by (auto simp: materialize_def bind_sum_Inr)
      have "set ids \<subseteq> {i. P i} \<and> (m \<or> {i. P i} \<subseteq> set ids)" using assms(1) Some r unfolding set_ok_def answers_def by fastforce
      then have "\<not> m \<Longrightarrow> set ids = {i. P i}" by auto
      then show ?thesis using assms(1) Some setExact_ok [of P s ids] unfolding hs' by (auto simp: set_ok_def)
    qed
  qed
  then show "set_ok P hs'" "hs' = None \<longleftrightarrow> hs = None" by simp_all
qed

lemma dedup_by_keys: "k \<in> key ` set xs \<Longrightarrow> k \<notin> set seen \<Longrightarrow> k \<in> key ` set (dedup_by key seen xs)"
proof (induction xs arbitrary: seen)
  case (Cons a xs)
  then show ?case using Cons.IH [of seen] Cons.IH [of "key a # seen"] by (cases "k = key a") auto
qed simp

lemma map_of_known: "list_all (\<lambda>(i, b). b = P i) known \<Longrightarrow> map_of known i = (if i \<in> fst ` set known then Some (P i) else None)"
  by (induction known) auto

text \<open>\<open>keep\<close> judges every hit: what it returns is the hits of the objects \<open>P\<close>, in order.\<close>

lemma keep_exact:
  assumes "set_ok P hs" "keep hits hs = Inr (kept, hs')"
  shows "kept = filter (admitted P hs) hits" "set_ok P hs'" "hs' = None \<longleftrightarrow> hs = None"
proof -
  have "kept = filter (admitted P hs) hits \<and> set_ok P hs' \<and> (hs' = None \<longleftrightarrow> hs = None)"
  proof (cases "hs = None \<or> hits = []")
    case True
    then show ?thesis using assms by (auto simp: keep_def admitted_def split: option.splits)
  next
    case False
    then obtain s where s: "hs = Some s" "hits \<noteq> []" by auto
    let ?ask = "ask_ids (hsKnown s) hits"
    have P: "answers P (hsFilter s)" "list_all (\<lambda>(i, b). b = P i) (hsKnown s)" "hsExact s \<Longrightarrow> set (hsList s) = {i. P i}"
      using assms(1) s(1) by (auto simp: set_ok_def)
    obtain s1 where s1: "(if \<not> hsExact s \<and> ?ask \<noteq> [] then bind_sum (hfMatch (hsFilter s) ?ask) (\<lambda>matched. Inr (s\<lparr>hsKnown := map (\<lambda>i. (i, i \<in> set matched)) ?ask @ hsKnown s\<rparr>)) else Inr s) = Inr s1"
      "kept = filter (\<lambda>h. has s1 (hObjectId h)) hits" "hs' = Some s1"
      using assms(2) s unfolding keep_def Let_def by (auto simp: bind_sum_Inr)
    have all: "hObjectId h \<in> set ?ask \<union> fst ` set (hsKnown s)" if "h \<in> set hits" for h
      using dedup_by_keys [of "hObjectId h" hObjectId hits "map fst (hsKnown s)"] that by (auto simp: ask_ids_def)
    have ok1: "set_ok P (Some s1) \<and> (hsExact s1 \<or> (\<forall>h \<in> set hits. hObjectId h \<in> fst ` set (hsKnown s1)))"
    proof (cases "\<not> hsExact s \<and> ?ask \<noteq> []")
      case True
      then obtain m where m: "hfMatch (hsFilter s) ?ask = Inr m" "s1 = s\<lparr>hsKnown := map (\<lambda>i. (i, i \<in> set m)) ?ask @ hsKnown s\<rparr>"
        using s1(1) by (auto simp: bind_sum_Inr)
      have "set m \<inter> set ?ask = {i. P i} \<inter> set ?ask" using P(1) m(1) unfolding answers_def by blast
      then have "list_all (\<lambda>(i, b). b = P i) (hsKnown s1)" using P(2) m(2) by (auto simp: list_all_iff)
      moreover have "fst ` set (hsKnown s1) = set ?ask \<union> fst ` set (hsKnown s)" unfolding m(2) by (simp add: image_Un image_image)
      ultimately show ?thesis using assms(1) s(1) m(2) all by (auto simp: set_ok_def)
    next
      case False
      then have "s1 = s" using s1(1) by (simp split: if_splits)
      then show ?thesis using False all assms(1) s(1) by auto
    qed
    have "has s1 (hObjectId h) = admitted P hs h" if "h \<in> set hits" for h
      using ok1 that s(1) map_of_known [of P "hsKnown s1" "hObjectId h"] by (auto simp: has_def admitted_def set_ok_def)
    then show ?thesis using s1(2,3) ok1 s(1) by (auto intro: filter_cong)
  qed
  then show "kept = filter (admitted P hs) hits" "set_ok P hs'" "hs' = None \<longleftrightarrow> hs = None" by simp_all
qed

text \<open>The filter of the search endpoint answers for the objects its query lists.\<close>

definition queries :: "(string \<Rightarrow> bool) \<Rightarrow> (string list option \<Rightarrow> 'e + 'e iter) \<Rightarrow> bool" where
  "queries P q \<longleftrightarrow>
     (\<forall>rows fin. q None = Inr (rows, fin) \<longrightarrow>
       (\<forall>i. Inr i \<in> set rows \<longrightarrow> P i) \<and> (fin \<noteq> None \<or> (\<exists>e. Inl e \<in> set rows) \<or> (\<forall>i. P i \<longrightarrow> Inr i \<in> set rows))) \<and>
     (\<forall>ids rows fin. q (Some ids) = Inr (rows, fin) \<longrightarrow>
       (\<forall>i. Inr i \<in> set rows \<longrightarrow> P i \<and> i \<in> set ids) \<and> (fin \<noteq> None \<or> (\<exists>e. Inl e \<in> set rows) \<or> (\<forall>i \<in> set ids. P i \<longrightarrow> Inr i \<in> set rows)))"

lemma collect_rows_Inr: "collect_rows rows = Inr xs \<Longrightarrow> rows = map Inr xs"
  by (induction rows arbitrary: xs) (auto simp: bind_sum_Inr)

lemma resolve_rows_ids:
  "resolve_rows ctxErr mx rows fin ids = Inr (ids', m) \<Longrightarrow>
    (\<exists>got. ids' = ids @ got \<and> (\<forall>i \<in> set got. Inr i \<in> set rows) \<and> (m \<or> fin = None \<and> rows = map Inr got))"
proof (induction ctxErr mx rows fin ids rule: resolve_rows.induct)
  case (2 ctxErr mx row rows fin ids)
  show ?case
  proof (cases "mx > 0 \<and> int (length ids) = mx")
    case False
    then obtain i where row: "row = Inr i" and r: "resolve_rows ctxErr mx rows fin (ids @ [i]) = Inr (ids', m)"
      using "2.prems" by (auto split: if_splits sum.splits)
    have c: "\<not> (length ids mod 256 = 0 \<and> ctxErr (length ids) \<noteq> None)" using "2.prems" False by (auto split: if_splits)
    from "2.IH" [OF False c row r] obtain got where "ids' = (ids @ [i]) @ got" "\<forall>x \<in> set got. Inr x \<in> set rows" "m \<or> fin = None \<and> rows = map Inr got" by blast
    then show ?thesis using row by (intro exI [of _ "i # got"]) auto
  qed (use "2.prems" in auto)
qed (auto split: option.splits)

lemma objects_filter_answers:
  assumes "queries P q"
  shows "answers P (objectsHostFilter ctxErr q)"
  unfolding answers_def
proof (intro conjI allI impI)
  fix n ids m assume "hfResolve (objectsHostFilter ctxErr q) n = Inr (ids, m)"
  then obtain rows fin where rows: "q None = Inr (rows, fin)" "resolve_rows ctxErr n rows fin [] = Inr (ids, m)"
    by (auto simp: objectsHostFilter_def bind_sum_Inr)
  note got = resolve_rows_ids [OF rows(2)]
  note rp = assms [unfolded queries_def, THEN conjunct1, rule_format, OF rows(1)]
  show "set ids \<subseteq> {i. P i}" "m \<or> {i. P i} \<subseteq> set ids" using got rp by auto
next
  fix ask ids assume "hfMatch (objectsHostFilter ctxErr q) ask = Inr ids"
  then obtain rows where rows: "q (Some ask) = Inr (rows, None)" "collect_rows rows = Inr ids"
    by (auto simp: objectsHostFilter_def bind_sum_Inr split: option.splits)
  note rp = assms [unfolded queries_def, THEN conjunct2, rule_format, OF rows(1)]
  show "set ids \<inter> set ask = {i. P i} \<inter> set ask" using rp collect_rows_Inr [OF rows(2)] by auto
qed

section \<open>What a leg returns\<close>

fun sat :: "'cl filt \<Rightarrow> Doc \<Rightarrow> bool" where
  "sat (FText _ _ _ _) d = True"
| "sat (FKnn _ _) d = True"
| "sat (FScopeIn scopes) d = (dScope d \<in> set scopes)"
| "sat (FObjectIdIn ids) d = (dObjectId d \<in> set ids)"
| "sat (FIdIn ids) d = (doc_id d \<in> set ids)"
| "sat (FAnd f g) d = (sat f d \<and> sat g d)"

text \<open>The engine's rows satisfy the conditions over ids, objects and scopes of its query.\<close>

definition engine_sound :: "('cl, 's, 'e) searcher \<Rightarrow> bool" where
  "engine_sound st \<longleftrightarrow> (\<forall>rnd f hnt rows d s. stFind st rnd f hnt = Inr rows \<longrightarrow> Inr (d, s) \<in> set rows \<longrightarrow> sat f d)"

lemma engine_soundD: "engine_sound st \<Longrightarrow> stFind st rnd f hnt = Inr rows \<Longrightarrow> Inr (d, s) \<in> set rows \<Longrightarrow> sat f d"
  unfolding engine_sound_def by blast

definition in_scopes :: "string list \<Rightarrow> 's Hit \<Rightarrow> bool" where
  "in_scopes scopes h \<longleftrightarrow> scopes = [] \<or> hScope h \<in> set scopes"

definition leg_hit :: "(string \<Rightarrow> bool) \<Rightarrow> 'e hostSet option \<Rightarrow> string list \<Rightarrow> string list \<Rightarrow> 's Hit \<Rightarrow> bool" where
  "leg_hit P hs scopes skip h \<longleftrightarrow> admitted P hs h \<and> in_scopes scopes h \<and> hMatch h = [] \<and> groupKey h \<notin> set skip"

definition found_by :: "(string \<Rightarrow> bool) \<Rightarrow> 'e hostSet option \<Rightarrow> string list \<Rightarrow> bool \<Rightarrow> 's Hit \<Rightarrow> bool" where
  "found_by P hs scopes lzy h \<longleftrightarrow> in_scopes scopes h \<and> hMatch h = [] \<and> (lzy \<or> admitted P hs h)"

lemma lift_simps [simp]: "lift_store r = Inr x \<longleftrightarrow> r = Inr x" "lift_host r = Inr x \<longleftrightarrow> r = Inr x"
  by (cases r; simp add: lift_store_def lift_host_def)+

lemma residual_hit:
  assumes "set_ok P hs" "sat (with_residual (residual hs) (with_scopes scopes f)) d"
  shows "found_by P hs scopes (lazy hs) (hitFromDoc d s)"
  using assms by (auto simp: found_by_def in_scopes_def admitted_def hitFromDoc_def residual_def lazy_def with_residual_def with_scopes_def set_ok_def
      split: option.splits if_splits)

lemma openFTS_rows:
  assumes "engine_sound st" "set_ok P hs" "openFTS st rnd fq scopes (residual hs) = Inr rows" "Inr h \<in> set rows"
  shows "found_by P hs scopes (lazy hs) h"
  using assms(3,4) residual_hit [OF assms(2), of scopes] assms(1) unfolding engine_sound_def openFTS_def Let_def
  by (fastforce simp: bind_sum_Inr split: coll_state.splits sum.splits)

definition fts_ok :: "(string \<Rightarrow> bool) \<Rightarrow> 'e hostSet option \<Rightarrow> string list \<Rightarrow> bool \<Rightarrow> string list \<Rightarrow> ('s, 'e) ftsState \<Rightarrow> bool" where
  "fts_ok P hs scopes lzy skip s \<longleftrightarrow> list_all (leg_hit P hs scopes skip) (ftHits s) \<and> list_all (found_by P hs scopes lzy) (ftBatch s) \<and>
     set_ok P (ftSet s) \<and> (ftSet s = None \<longleftrightarrow> hs = None)"

lemma withoutRecords_set: "set (withoutRecords hits skip) = {h \<in> set hits. groupKey h \<notin> set skip}"
  by (auto simp: withoutRecords_def)

lemma admitted_cong: "hs = None \<longleftrightarrow> hs' = None \<Longrightarrow> admitted P hs h \<longleftrightarrow> admitted P hs' h"
  by (simp add: admitted_def)

lemma fts_flush_ok:
  assumes "fts_ok P hs scopes lzy skip s" "fts_flush lzy skip s = Inr s'"
  shows "fts_ok P hs scopes lzy skip s'" "ftBatch s' = []"
proof -
  from assms(2) obtain kept hs1 where k: "(if lzy then lift_host (keep (ftBatch s) (ftSet s)) else Inr (ftBatch s, ftSet s)) = Inr (kept, hs1)"
    "s' = s\<lparr>ftHits := ftHits s @ withoutRecords kept skip, ftBatch := [], ftSet := hs1\<rparr>"
    by (auto simp: fts_flush_def bind_sum_Inr)
  have ok: "set_ok P (ftSet s)" "ftSet s = None \<longleftrightarrow> hs = None" "list_all (found_by P hs scopes lzy) (ftBatch s)" using assms(1) by (auto simp: fts_ok_def)
  have "set_ok P hs1 \<and> (hs1 = None \<longleftrightarrow> hs = None) \<and> (\<forall>h \<in> set kept. in_scopes scopes h \<and> hMatch h = [] \<and> admitted P hs h)"
  proof (cases lzy)
    case True
    then have "keep (ftBatch s) (ftSet s) = Inr (kept, hs1)" using k(1) by simp
    note k1 = keep_exact [OF ok(1) this]
    have "in_scopes scopes h \<and> hMatch h = [] \<and> admitted P hs h" if "h \<in> set kept" for h
      using that ok(3) k1(1) admitted_cong [OF ok(2), of P h] by (simp add: list_all_iff found_by_def)
    then show ?thesis using k1(2,3) ok(2) by simp
  next
    case False
    then show ?thesis using k(1) ok by (auto simp: list_all_iff found_by_def)
  qed
  then show "fts_ok P hs scopes lzy skip s'" using assms(1) unfolding k(2) by (auto simp: fts_ok_def list_all_iff leg_hit_def withoutRecords_set)
  show "ftBatch s' = []" using k(2) by simp
qed

lemma fts_rescue_ok:
  assumes "fts_ok P hs scopes lzy skip s" "fts_rescue lzy skip s = Inr s'"
  shows "fts_ok P hs scopes lzy skip s'"
proof (cases "lzy \<and> ftRead s = filterScanRows \<and> \<not> is_exact (ftSet s)")
  case True
  then obtain s1 hs1 where 1: "fts_flush lzy skip s = Inr s1" "materialize filterMaterializeMax (ftSet s1) = Inr hs1" "s' = s1\<lparr>ftSet := hs1\<rparr>"
    using assms(2) by (auto simp: fts_rescue_def bind_sum_Inr)
  have "fts_ok P hs scopes lzy skip s1" by (rule fts_flush_ok [OF assms(1) 1(1)])
  then show ?thesis using materialize_ok [OF _ 1(2), of P] unfolding 1(3) by (auto simp: fts_ok_def)
qed (use assms in \<open>auto simp: fts_rescue_def\<close>)

lemma fts_loop_ok:
  assumes "fts_loop ctxErr cov lzy skip rows s = Inr s'" "fts_ok P hs scopes lzy skip s" "\<And>h. Inr h \<in> set rows \<Longrightarrow> found_by P hs scopes lzy h"
  shows "fts_ok P hs scopes lzy skip s'"
  using assms
proof (induction rows arbitrary: s)
  case Nil
  show ?case
  proof (cases "fts_covered cov (ftHits s) \<or> lzy \<and> filterScanRowsMax \<le> ftRead s")
    case True
    then show ?thesis using Nil by (auto simp: fts_loop.simps [of _ _ _ _ "[]"] fts_ok_def split: if_splits)
  next
    case False
    then have "fts_rescue lzy skip s = Inr s'" using Nil.prems(1) unfolding fts_loop.simps [of _ _ _ _ "[]"]
      by (auto simp: bind_sum_Inr split: if_splits)
    then show ?thesis by (rule fts_rescue_ok [OF Nil.prems(2)])
  qed
next
  case (Cons row rows)
  show ?case
  proof (cases "fts_covered cov (ftHits s) \<or> lzy \<and> filterScanRowsMax \<le> ftRead s")
    case True
    then show ?thesis using Cons.prems by (auto simp: fts_loop.simps [of _ _ _ _ "row # rows"] fts_ok_def split: if_splits)
  next
    case False
    then obtain s1 h s2 where 1: "fts_rescue lzy skip s = Inr s1" "row = Inr h" and
      2: "(if \<not> lzy \<or> is_exact (ftSet s1) \<or> filterBatch \<le> length (ftBatch s1 @ [h]) then fts_flush lzy skip (s1\<lparr>ftRead := ftRead s1 + 1, ftBatch := ftBatch s1 @ [h]\<rparr>)
           else Inr (s1\<lparr>ftRead := ftRead s1 + 1, ftBatch := ftBatch s1 @ [h]\<rparr>)) = Inr s2" and
      3: "fts_loop ctxErr cov lzy skip rows s2 = Inr s'"
      using Cons.prems(1) unfolding fts_loop.simps [of _ _ _ _ "row # rows"]
      by (auto simp: bind_sum_Inr Let_def split: if_splits sum.splits)
    have "fts_ok P hs scopes lzy skip (s1\<lparr>ftRead := ftRead s1 + 1, ftBatch := ftBatch s1 @ [h]\<rparr>)"
      using fts_rescue_ok [OF Cons.prems(2) 1(1)] Cons.prems(3) 1(2) by (auto simp: fts_ok_def)
    then have "fts_ok P hs scopes lzy skip s2" using 2 fts_flush_ok(1) by (auto split: if_splits)
    then show ?thesis using Cons.IH [OF 3] Cons.prems(3) by simp
  qed
qed

lemma ftsLeg_ok:
  assumes "engine_sound st" "set_ok P hs" "ftsLeg st rnd fq scopes cov hs skip = Inr (hits, budget, hs')"
  shows "list_all (leg_hit P hs scopes skip) hits" "set_ok P hs'" "hs' = None \<longleftrightarrow> hs = None" "length hits \<le> maxLegFetch"
proof -
  from assms(3) obtain rows s1 s2 where o: "openFTS st rnd fq scopes (residual hs) = Inr rows"
    "fts_loop (stCtx st rnd) cov (lazy hs) skip rows \<lparr>ftHits = [], ftBatch = [], ftRead = 0, ftBudget = False, ftSet = hs\<rparr> = Inr s1"
    "fts_flush (lazy hs) skip s1 = Inr s2" "hits = take maxLegFetch (ftHits s2)" "hs' = ftSet s2"
    by (auto simp: ftsLeg_def bind_sum_Inr Let_def)
  have "fts_ok P hs scopes (lazy hs) skip s1"
    by (rule fts_loop_ok [OF o(2)]) (use assms(2) openFTS_rows [OF assms(1,2) o(1)] in \<open>auto simp: fts_ok_def\<close>)
  from fts_flush_ok(1) [OF this o(3)] have ok: "fts_ok P hs scopes (lazy hs) skip s2" .
  show "list_all (leg_hit P hs scopes skip) hits" using ok unfolding o(4) by (auto simp: fts_ok_def list_all_iff dest: in_set_takeD)
  show "set_ok P hs'" "hs' = None \<longleftrightarrow> hs = None" using ok unfolding o(5) by (auto simp: fts_ok_def)
  show "length hits \<le> maxLegFetch" unfolding o(4) by simp
qed

section \<open>The widening ends\<close>

lemma searchVector_hits:
  assumes "engine_sound st" "set_ok P hs" "searchVector st rnd v scopes k minSim (residual hs) hnt = Inr (raw, n)"
  shows "list_all (found_by P hs scopes (lazy hs)) raw" "0 \<le> n"
proof -
  show "0 \<le> n" using assms(3) by (auto simp: searchVector_def bind_sum_Inr Let_def split: if_splits coll_state.splits)
  show "list_all (found_by P hs scopes (lazy hs)) raw"
  proof (cases "stDim st \<noteq> 0 \<and> stColl st = CollReady \<and> \<not> stNoVector st")
    case False
    then show ?thesis using assms(3) by (auto simp: searchVector_def split: if_splits coll_state.splits)
  next
    case True
    then obtain rows docs where r: "stFind st rnd (with_residual (residual hs) (with_scopes scopes (FKnn v k))) (hnt \<and> residual hs \<noteq> None) = Inr rows"
      "collect_rows rows = Inr docs" "set raw \<subseteq> (\<lambda>(d, dist). hitFromDoc d (fSub (stFloat st) (fNat (stFloat st) 1) dist)) ` set docs"
      using assms(3) by (auto simp: searchVector_def bind_sum_Inr Let_def split: if_splits)
    have "found_by P hs scopes (lazy hs) (hitFromDoc d t)" if "(d, s) \<in> set docs" for d s t
    proof -
      have "Inr (d, s) \<in> set rows" using that collect_rows_Inr [OF r(2)] by simp
      from engine_soundD [OF assms(1) r(1) this] show ?thesis by (rule residual_hit [OF assms(2)])
    qed
    then have "\<forall>h \<in> (\<lambda>(d, dist). hitFromDoc d (fSub (stFloat st) (fNat (stFloat st) 1) dist)) ` set docs. found_by P hs scopes (lazy hs) h" by auto
    then show ?thesis using r(3) unfolding list_all_iff by blast
  qed
qed

lemma FilterTerms_subset: "FilterTerms st rnd hits req ex = Inr kept \<Longrightarrow> set kept \<subseteq> set hits"
  by (auto simp: FilterTerms_def bind_sum_Inr Let_def split: if_splits coll_state.splits)

lemma vec_round_ok:
  assumes "engine_sound st" "set_ok P hs" "set_ok P hs0" "hs = None \<longleftrightarrow> hs0 = None"
    and "vec_round st req (residual hs0) hnt skip rnd k hs = Inr (kept, n, dropped, hs')"
  shows "list_all (leg_hit P hs0 (vrScopes req) skip) kept" "set_ok P hs'" "hs' = None \<longleftrightarrow> hs0 = None" "0 \<le> n"
proof -
  from assms(5) obtain raw kept1 kept2 where r: "searchVector st rnd (vrVector req) (vrScopes req) k (vrMinSim req) (residual hs0) hnt = Inr (raw, n)"
    "(if vrRequire req \<noteq> [] \<or> vrExclude req \<noteq> [] then FilterTerms st rnd raw (vrRequire req) (vrExclude req) else Inr raw) = Inr kept1"
    "(if residual hs0 = None \<and> hs \<noteq> None then lift_host (keep kept1 hs) else Inr (kept1, hs)) = Inr (kept2, hs')"
    "kept = withoutRecords kept2 skip"
    by (auto simp: vec_round_def bind_sum_Inr)
  note raw = searchVector_hits [OF assms(1,3) r(1)]
  show "0 \<le> n" by (rule raw(2))
  have sub: "set kept1 \<subseteq> set raw" using r(2) FilterTerms_subset [of st rnd raw] by (simp split: if_splits)
  have "set_ok P hs' \<and> (hs' = None \<longleftrightarrow> hs0 = None) \<and> (\<forall>h \<in> set kept2. in_scopes (vrScopes req) h \<and> hMatch h = [] \<and> admitted P hs0 h)"
  proof (cases "residual hs0 = None \<and> hs \<noteq> None")
    case True
    then have k: "keep kept1 hs = Inr (kept2, hs')" using r(3) by simp
    note k1 = keep_exact [OF assms(2) k]
    have "in_scopes (vrScopes req) h \<and> hMatch h = [] \<and> admitted P hs0 h" if "h \<in> set kept2" for h
    proof -
      have "h \<in> set raw" "admitted P hs h" using that k1(1) sub by auto
      then show ?thesis using raw(1) admitted_cong [OF assms(4), of P h] by (simp add: list_all_iff found_by_def)
    qed
    then show ?thesis using k1(2,3) assms(4) by simp
  next
    case False
    then have "kept2 = kept1" "hs' = hs" using r(3) by auto
    moreover have "\<not> lazy hs0" using False assms(4) by (auto simp: lazy_def residual_def split: option.splits)
    ultimately show ?thesis using sub raw(1) assms(2,4) by (auto simp: list_all_iff found_by_def)
  qed
  then show "list_all (leg_hit P hs0 (vrScopes req) skip) kept" "set_ok P hs'" "hs' = None \<longleftrightarrow> hs0 = None"
    unfolding r(4) by (auto simp: list_all_iff leg_hit_def withoutRecords_set)
qed

text \<open>
  A round that goes on either widens \<open>k\<close> or, at the ceiling, has seen more rows than the round before, and fewer
  than \<open>k\<close>.
\<close>

definition vec_measure :: "int \<Rightarrow> int \<Rightarrow> nat" where
  "vec_measure k prevN = (if k < 1000 then nat (1000 - k) * 1002 + 1001 else if k = 1000 then nat (1000 - prevN) else 1002)"

lemma vec_measure_less:
  assumes "\<not> vectorStop cov kept n k prevN dropped scoped" "0 < k" "0 \<le> n"
  shows "vec_measure (min (k * 4) (int maxLegFetch)) n < vec_measure k prevN" "0 < min (k * 4) (int maxLegFetch)"
proof -
  have g: "n < k \<and> prevN < n \<or> k \<le> n \<and> k < 1000" using assms(1) by (auto simp: vectorStop_def maxLegFetch_def split: if_splits)
  show "0 < min (k * 4) (int maxLegFetch)" using assms(2) by (simp add: maxLegFetch_def)
  consider "k * 4 < 1000" | "k < 1000" "1000 \<le> k * 4" | "k = 1000" | "1000 < k" by linarith
  then show "vec_measure (min (k * 4) (int maxLegFetch)) n < vec_measure k prevN"
  proof cases
    case 1
    then have "nat (1000 - k * 4) < nat (1000 - k)" using assms(2) by linarith
    then show ?thesis using 1 assms(2) by (simp add: vec_measure_def maxLegFetch_def min_def)
  next
    case 2
    then have "min (k * 4) (int maxLegFetch) = 1000" by (simp add: maxLegFetch_def)
    moreover have "nat (1000 - n) < nat (1000 - k) * 1002 + 1001" using assms(3) by linarith
    ultimately show ?thesis using 2 by (simp add: vec_measure_def)
  qed (use g assms(3) in \<open>auto simp: vec_measure_def maxLegFetch_def min_def\<close>)
qed

definition leg_result :: "(string \<Rightarrow> bool) \<Rightarrow> 'e hostSet option \<Rightarrow> string list \<Rightarrow> string list \<Rightarrow> 'e leg_error + ('s Hit list \<times> bool \<times> 'e hostSet option) \<Rightarrow> bool" where
  "leg_result P hs scopes skip r =
     (case r of Inl e \<Rightarrow> True
      | Inr (hits, budget, hs') \<Rightarrow> list_all (leg_hit P hs scopes skip) hits \<and> set_ok P hs' \<and> (hs' = None \<longleftrightarrow> hs = None))"

lemma vec_loop_ok:
  assumes "engine_sound st" "set_ok P hs" "set_ok P hs0" "hs = None \<longleftrightarrow> hs0 = None" "0 < k"
  shows "\<exists>r. vec_loop st req cov (residual hs0) hnt skip rnd k prevN hs = Some r \<and> leg_result P hs0 (vrScopes req) skip r"
  using assms
proof (induction "vec_measure k prevN" arbitrary: k prevN rnd hs rule: less_induct)
  case less
  show ?case
  proof (cases "vec_round st req (residual hs0) hnt skip rnd k hs")
    case (Inl e)
    then show ?thesis by (simp add: vec_loop.simps [of st req cov "residual hs0" hnt skip rnd k] leg_result_def)
  next
    case (Inr q)
    obtain kept n dropped hs' where q: "q = (kept, n, dropped, hs')" by (cases q) auto
    note ok = vec_round_ok [OF less.prems(1,2,3,4) Inr [unfolded q]]
    show ?thesis
    proof (cases "vectorStop cov kept n k prevN dropped (vrScopes req \<noteq> [] \<or> residual hs0 \<noteq> None)")
      case True
      then show ?thesis using Inr q ok by (simp add: vec_loop.simps [of st req cov "residual hs0" hnt skip rnd k] leg_result_def)
    next
      case False
      note m = vec_measure_less [OF False less.prems(5) ok(4)]
      from less.hyps [OF m(1) less.prems(1) ok(2) less.prems(3) ok(3) m(2)] False Inr q
      show ?thesis by (simp add: vec_loop.simps [of st req cov "residual hs0" hnt skip rnd k])
    qed
  qed
qed

lemma leg_result_cong:
  assumes "hs1 = None \<longleftrightarrow> hs = None"
  shows "leg_result P hs1 scopes skip r = leg_result P hs scopes skip r"
  using assms by (simp add: leg_result_def leg_hit_def list_all_iff admitted_cong [OF assms] split: sum.splits prod.splits)

lemma vectorLeg_ok:
  assumes "engine_sound st" "set_ok P hs" "0 < lcFetch cov"
  shows "\<exists>r. vectorLeg st req cov hs skip = Some r \<and> leg_result P hs (vrScopes req) skip r"
proof (cases "if lazy hs then lift_host (materialize filterResidualMax hs) else Inr hs")
  case (Inl e)
  then show ?thesis by (simp add: vectorLeg_def leg_result_def)
next
  case (Inr hs1)
  have ok: "set_ok P hs1" "hs1 = None \<longleftrightarrow> hs = None"
    using Inr assms(2) materialize_ok [OF assms(2), of filterResidualMax hs1] by (auto split: if_splits)
  obtain r where r: "vec_loop st req cov (residual hs1) (hint hs1) skip 0 (int (lcFetch cov)) (-1) hs1 = Some r" "leg_result P hs1 (vrScopes req) skip r"
    using vec_loop_ok [OF assms(1) ok(1,1) _ , of "int (lcFetch cov)"] assms(3) by fastforce
  then show ?thesis using leg_result_cong [OF ok(2)] Inr by (auto simp: vectorLeg_def)
qed

section \<open>The lexical leg reads its cursor in order\<close>

text \<open>
  The hits are the rows read so far, less those the filter does not admit and those of the records already shown;
  the batch waits to be judged.
\<close>

definition leg_good :: "(string \<Rightarrow> bool) \<Rightarrow> 'e hostSet option \<Rightarrow> string list \<Rightarrow> 's Hit \<Rightarrow> bool" where
  "leg_good P hs skip h \<longleftrightarrow> admitted P hs h \<and> groupKey h \<notin> set skip"

definition fts_read :: "(string \<Rightarrow> bool) \<Rightarrow> 'e hostSet option \<Rightarrow> string list \<Rightarrow> 's Hit list \<Rightarrow> ('s, 'e) ftsState \<Rightarrow> bool" where
  "fts_read P hs skip pre s \<longleftrightarrow> ftHits s @ filter (leg_good P hs skip) (ftBatch s) = filter (leg_good P hs skip) pre \<and> ftRead s = length pre \<and>
     (ftBudget s \<longrightarrow> filterScanRowsMax \<le> length pre)"

lemma withoutRecords_filter: "withoutRecords (filter (admitted P hs) hits) skip = filter (leg_good P hs skip) hits"
  by (auto simp: withoutRecords_def leg_good_def intro: filter_cong)

lemma fts_flush_read:
  assumes "fts_ok P hs scopes lzy skip s" "fts_read P hs skip pre s" "fts_flush lzy skip s = Inr s'"
  shows "fts_read P hs skip pre s'"
proof -
  from assms(3) obtain kept hs1 where k: "(if lzy then lift_host (keep (ftBatch s) (ftSet s)) else Inr (ftBatch s, ftSet s)) = Inr (kept, hs1)"
    "s' = s\<lparr>ftHits := ftHits s @ withoutRecords kept skip, ftBatch := [], ftSet := hs1\<rparr>"
    by (auto simp: fts_flush_def bind_sum_Inr)
  have ok: "set_ok P (ftSet s)" "ftSet s = None \<longleftrightarrow> hs = None" "list_all (found_by P hs scopes lzy) (ftBatch s)" using assms(1) by (auto simp: fts_ok_def)
  have "kept = filter (admitted P hs) (ftBatch s)"
  proof (cases lzy)
    case True
    then have "keep (ftBatch s) (ftSet s) = Inr (kept, hs1)" using k(1) by simp
    from keep_exact(1) [OF ok(1) this] show ?thesis using admitted_cong [OF ok(2), of P] by (auto intro: filter_cong)
  next
    case False
    then show ?thesis using k(1) ok(3) by (simp add: found_by_def list_all_iff)
  qed
  then show ?thesis using assms(2) unfolding k(2) by (simp add: fts_read_def withoutRecords_filter)
qed

lemma fts_rescue_read:
  assumes "fts_ok P hs scopes lzy skip s" "fts_read P hs skip pre s" "fts_rescue lzy skip s = Inr s'"
  shows "fts_read P hs skip pre s'"
proof (cases "lzy \<and> ftRead s = filterScanRows \<and> \<not> is_exact (ftSet s)")
  case True
  then obtain s1 hs1 where 1: "fts_flush lzy skip s = Inr s1" "s' = s1\<lparr>ftSet := hs1\<rparr>"
    using assms(3) by (auto simp: fts_rescue_def bind_sum_Inr)
  show ?thesis using fts_flush_read [OF assms(1,2) 1(1)] unfolding 1(2) by (simp add: fts_read_def)
qed (use assms in \<open>auto simp: fts_rescue_def\<close>)

lemma fts_loop_read:
  assumes "fts_loop ctxErr cov lzy skip rows s = Inr s'" "fts_ok P hs scopes lzy skip s" "\<And>h. Inr h \<in> set rows \<Longrightarrow> found_by P hs scopes lzy h"
    and "fts_read P hs skip pre s"
  shows "\<exists>got rest. rows = map Inr got @ rest \<and> fts_read P hs skip (pre @ got) s' \<and> (rest = [] \<or> ftBudget s' \<or> fts_covered cov (ftHits s'))"
  using assms
proof (induction rows arbitrary: s pre)
  case Nil
  have "fts_read P hs skip pre s'"
  proof (cases "fts_covered cov (ftHits s) \<or> lzy \<and> filterScanRowsMax \<le> ftRead s")
    case True
    then show ?thesis using Nil by (auto simp: fts_loop.simps [of _ _ _ _ "[]"] fts_read_def split: if_splits)
  next
    case False
    then have "fts_rescue lzy skip s = Inr s'" using Nil.prems(1) unfolding fts_loop.simps [of _ _ _ _ "[]"]
      by (auto simp: bind_sum_Inr split: if_splits)
    then show ?thesis by (rule fts_rescue_read [OF Nil.prems(2,4)])
  qed
  then show ?case by simp
next
  case (Cons row rows)
  show ?case
  proof (cases "fts_covered cov (ftHits s) \<or> lzy \<and> filterScanRowsMax \<le> ftRead s")
    case True
    then have "fts_read P hs skip pre s' \<and> (ftBudget s' \<or> fts_covered cov (ftHits s'))" using Cons.prems(1,4)
      by (auto simp: fts_loop.simps [of _ _ _ _ "row # rows"] fts_read_def split: if_splits)
    then show ?thesis by (intro exI [of _ "[]"] exI [of _ "row # rows"]) simp
  next
    case False
    then obtain s1 h s2 where 1: "fts_rescue lzy skip s = Inr s1" "row = Inr h" and
      2: "(if \<not> lzy \<or> is_exact (ftSet s1) \<or> filterBatch \<le> length (ftBatch s1 @ [h]) then fts_flush lzy skip (s1\<lparr>ftRead := ftRead s1 + 1, ftBatch := ftBatch s1 @ [h]\<rparr>)
           else Inr (s1\<lparr>ftRead := ftRead s1 + 1, ftBatch := ftBatch s1 @ [h]\<rparr>)) = Inr s2" and
      3: "fts_loop ctxErr cov lzy skip rows s2 = Inr s'"
      using Cons.prems(1) unfolding fts_loop.simps [of _ _ _ _ "row # rows"]
      by (auto simp: bind_sum_Inr Let_def split: if_splits sum.splits)
    let ?s = "s1\<lparr>ftRead := ftRead s1 + 1, ftBatch := ftBatch s1 @ [h]\<rparr>"
    have ok: "fts_ok P hs scopes lzy skip ?s"
      using fts_rescue_ok [OF Cons.prems(2) 1(1)] Cons.prems(3) 1(2) by (auto simp: fts_ok_def)
    have rd: "fts_read P hs skip (pre @ [h]) ?s"
      using fts_rescue_read [OF Cons.prems(2,4) 1(1)] by (auto simp: fts_read_def)
    have "fts_ok P hs scopes lzy skip s2 \<and> fts_read P hs skip (pre @ [h]) s2"
      using 2 ok rd fts_flush_ok(1) [OF ok] fts_flush_read [OF ok rd] by (auto split: if_splits)
    then obtain got rest where "rows = map Inr got @ rest" "fts_read P hs skip ((pre @ [h]) @ got) s'" "rest = [] \<or> ftBudget s' \<or> fts_covered cov (ftHits s')"
      using Cons.IH [OF 3, of "pre @ [h]"] Cons.prems(3) by auto
    then show ?thesis using 1(2) by (intro exI [of _ "h # got"] exI [of _ rest]) simp
  qed
qed

lemma countGroups_append: "countGroups xs \<le> countGroups (xs @ ys)"
  unfolding countGroups_def by (rule card_mono) auto

lemma covered_append: "covered cov xs \<Longrightarrow> covered cov (xs @ ys)"
  unfolding covered_def using countGroups_append [of xs ys] by simp

lemma ftsLeg_read:
  assumes "engine_sound st" "set_ok P hs" "openFTS st rnd fq scopes (residual hs) = Inr rows" "ftsLeg st rnd fq scopes cov hs skip = Inr (hits, budget, hs')"
  shows "\<exists>got rest. rows = map Inr got @ rest \<and> hits = take maxLegFetch (filter (leg_good P hs skip) got) \<and>
    (budget \<longrightarrow> filterScanRowsMax \<le> length got) \<and> (rest = [] \<or> budget \<or> length hits = maxLegFetch \<or> covered cov hits)"
proof -
  from assms(3,4) obtain s1 s2 where f:
    "fts_loop (stCtx st rnd) cov (lazy hs) skip rows \<lparr>ftHits = [], ftBatch = [], ftRead = 0, ftBudget = False, ftSet = hs\<rparr> = Inr s1"
    "fts_flush (lazy hs) skip s1 = Inr s2" "hits = take maxLegFetch (ftHits s2)" "budget = ftBudget s2"
    by (auto simp: ftsLeg_def bind_sum_Inr Let_def)
  have 0: "fts_ok P hs scopes (lazy hs) skip \<lparr>ftHits = [], ftBatch = [], ftRead = 0, ftBudget = False, ftSet = hs\<rparr>"
    "fts_read P hs skip [] \<lparr>ftHits = [], ftBatch = [], ftRead = 0, ftBudget = False, ftSet = hs\<rparr>"
    using assms(2) by (auto simp: fts_ok_def fts_read_def)
  note found = openFTS_rows [OF assms(1,2,3)]
  obtain got rest where g: "rows = map Inr got @ rest" "fts_read P hs skip got s1" "rest = [] \<or> ftBudget s1 \<or> fts_covered cov (ftHits s1)"
    using fts_loop_read [OF f(1) 0(1) found 0(2)] by auto
  have "fts_read P hs skip got s2" by (rule fts_flush_read [OF fts_loop_ok [OF f(1) 0(1) found] g(2) f(2)])
  moreover have batch: "ftBatch s2 = []" by (rule fts_flush_ok(2) [OF fts_loop_ok [OF f(1) 0(1) found] f(2)])
  ultimately have h2: "ftHits s2 = filter (leg_good P hs skip) got" "ftBudget s2 \<longrightarrow> filterScanRowsMax \<le> length got" by (auto simp: fts_read_def)
  obtain more' where s2: "ftHits s2 = ftHits s1 @ more'" "ftBudget s2 = ftBudget s1" using f(2) by (auto simp: fts_flush_def bind_sum_Inr)
  have "rest = [] \<or> budget \<or> length hits = maxLegFetch \<or> covered cov hits"
  proof (cases "maxLegFetch \<le> length (ftHits s2)")
    case False
    then show ?thesis using g(3) s2 f(3,4) covered_append [of cov "ftHits s1" more'] by (auto simp: fts_covered_def)
  qed (simp add: f(3))
  then show ?thesis using g(1) h2 f(3,4) by auto
qed

lemma admitted_some: "hs \<noteq> None \<Longrightarrow> admitted P hs h \<longleftrightarrow> P (hObjectId h)"
  unfolding admitted_def by blast

text \<open>
  C38. The lexical leg under an object filter reads the engine's cursor in order and returns, up to 1000 hits, exactly
  the rows read whose object the filter matches and whose record is not already shown as a title: no match is lost
  between the batches, the rescue that materializes the set and the final flush. It stops short of the end of the
  cursor only with the window covered, with 1000 hits, or with the scan budget of 100000 rows spent, which it
  reports; the filter queries the space's objects, all at once or restricted to the ids of a batch.
\<close>

theorem lexical_leg_exact:
  assumes "engine_sound st" "queries P q" "newHostSet (Some (objectsHostFilter ctxErr q)) = Inr hs"
    and "openFTS st rnd fq scopes (residual hs) = Inr rows" "ftsLeg st rnd fq scopes cov hs skip = Inr (hits, budget, hs')"
  shows "\<exists>got rest. rows = map Inr got @ rest \<and>
    hits = take maxLegFetch (filter (\<lambda>h. P (hObjectId h) \<and> groupKey h \<notin> set skip) got) \<and> list_all (in_scopes scopes) hits \<and>
    (budget \<longrightarrow> filterScanRowsMax \<le> length got) \<and> (rest = [] \<or> budget \<or> length hits = maxLegFetch \<or> covered cov hits)"
proof -
  have hs: "set_ok P hs" "hs \<noteq> None" using newHostSet_ok [OF _ assms(3), of P] objects_filter_answers [OF assms(2)] by auto
  have good: "leg_good P hs skip = (\<lambda>h. P (hObjectId h) \<and> groupKey h \<notin> set skip)" by (simp add: fun_eq_iff leg_good_def admitted_some [OF hs(2)])
  have "list_all (in_scopes scopes) hits" using ftsLeg_ok(1) [OF assms(1) hs(1) assms(5)] by (auto simp: list_all_iff leg_hit_def)
  then show ?thesis using ftsLeg_read [OF assms(1) hs(1) assms(4,5), unfolded good] by blast
qed

definition demo_row :: "string \<Rightarrow> string \<Rightarrow> Doc" where
  "demo_row i r = \<lparr>dScope = ''basic'', dObjectId = i, dDataset = ''d'', dRecordId = r, dChunk = 0, dName = None, dData = Some [104], dTitle = [],
     dHash = [], dApplySeq = 1, dVector = None, dPending = False\<rparr>"

definition demo_searcher :: "(unit, int, string) searcher" where
  "demo_searcher = \<lparr>stColl = CollReady,
     stFind = (\<lambda>_ f _. Inr (map Inr (filter (\<lambda>(d, s). sat f d) [(demo_row ''a'' ''r'', 0), (demo_row ''b'' ''r'', 0), (demo_row ''a'' ''q'', 0)]))),
     stNoVector = False, stDim = 4, stParse = (\<lambda>_. [()]), stFloat = intFloats, stCtx = (\<lambda>_ _. None)\<rparr>"

definition demo_objects :: "string list option \<Rightarrow> string + string iter" where
  "demo_objects ids = Inr (case ids of None \<Rightarrow> [Inr ''a''] | Some l \<Rightarrow> map Inr (filter (\<lambda>i. i = ''a'') l), None)"

lemma demo_objects_ok: "queries (\<lambda>i. i = ''a'') demo_objects"
  by (auto simp: queries_def demo_objects_def)

lemma demo_searcher_sound: "engine_sound demo_searcher"
  by (auto simp: engine_sound_def demo_searcher_def split: if_splits)

definition demo_set :: "string hostSet option" where
  "demo_set = Some \<lparr>hsFilter = objectsHostFilter (\<lambda>_. None) demo_objects, hsList = [''a''], hsRes = Some [''a''], hsExact = True,
     hsTriedMax = 0, hsSmall = True, hsKnown = []\<rparr>"

lemma demo_set_new: "newHostSet (Some (objectsHostFilter (\<lambda>_. None) demo_objects)) = Inr demo_set"
  by (simp add: newHostSet_def objectsHostFilter_def demo_objects_def demo_set_def setExact_def filterIdsMax_def filterResidualMax_def Let_def)

definition demo_query :: FTSQuery where
  "demo_query = \<lparr>fqQuery = [104], fqDefaultAnd = False, fqRequire = [], fqExclude = [], fqFields = []\<rparr>"

lemma demo_leg:
  "ftsLeg demo_searcher 0 demo_query [''basic''] \<lparr>lcFetch = 30, lcGroups = 2\<rparr> demo_set [] =
     Inr ([hitFromDoc (demo_row ''a'' ''r'') 0, hitFromDoc (demo_row ''a'' ''q'') 0], False, demo_set)"
  "openFTS demo_searcher 0 demo_query [''basic''] (residual demo_set) =
     Inr [Inr (hitFromDoc (demo_row ''a'' ''r'') 0), Inr (hitFromDoc (demo_row ''a'' ''q'') 0)]"
  by (simp_all add: ftsLeg_def openFTS_def demo_searcher_def demo_query_def demo_set_def residual_def lazy_def with_residual_def with_scopes_def
      lift_store_def demo_row_def fts_loop.simps fts_covered_def fts_rescue_def fts_flush_def withoutRecords_def covered_def maxLegFetch_def Let_def)

theorem lexical_leg_exact_witness:
  "\<exists>got rest. [Inr (hitFromDoc (demo_row ''a'' ''r'') (0 :: int)), Inr (hitFromDoc (demo_row ''a'' ''q'') 0)] = map (Inr :: _ \<Rightarrow> string + _) got @ rest \<and>
    [hitFromDoc (demo_row ''a'' ''r'') 0, hitFromDoc (demo_row ''a'' ''q'') 0] =
      take maxLegFetch (filter (\<lambda>h. hObjectId h = ''a'' \<and> groupKey h \<notin> set []) got)"
  using lexical_leg_exact [OF demo_searcher_sound demo_objects_ok demo_set_new demo_leg(2,1)] by blast

text \<open>
  C39. The vector leg returns: the loop that widens \<open>k\<close> fourfold up to 1000 and asks the index again ends, whatever
  the index answers from round to round, since a round that goes on either widens or, at the ceiling, saw more rows
  than the round before. What it returns is an error of the store or the filter, or hits that are in the requested
  scopes, of objects the filter admits, and of no record already shown.
\<close>

theorem vector_leg_returns:
  assumes "engine_sound st" "pred_option (answers P) flt" "newHostSet flt = Inr hs" "0 < lcFetch cov"
  shows "\<exists>r. vectorLeg st req cov hs skip = Some r \<and>
    (case r of Inl e \<Rightarrow> True
     | Inr (hits, budget, hs') \<Rightarrow>
         list_all (\<lambda>h. (flt \<noteq> None \<longrightarrow> P (hObjectId h)) \<and> (vrScopes req = [] \<or> hScope h \<in> set (vrScopes req)) \<and> groupKey h \<notin> set skip) hits)"
proof -
  note hs = newHostSet_ok [OF assms(2,3)]
  obtain r where r: "vectorLeg st req cov hs skip = Some r" "leg_result P hs (vrScopes req) skip r" using vectorLeg_ok [OF assms(1) hs(1) assms(4)] by blast
  show ?thesis
  proof (cases r)
    case (Inr t)
    obtain hits budget hs' where "t = (hits, budget, hs')" by (cases t) auto
    then show ?thesis using r Inr hs(2) by (auto simp: leg_result_def list_all_iff leg_hit_def admitted_def in_scopes_def)
  qed (use r in simp)
qed

theorem vector_leg_returns_witness:
  "\<exists>r. vectorLeg demo_searcher \<lparr>vrVector = [], vrScopes = [''basic''], vrRequire = [], vrExclude = [], vrMinSim = 0\<rparr>
    \<lparr>lcFetch = 30, lcGroups = 2\<rparr> demo_set [] = Some r \<and>
    (case r of Inl e \<Rightarrow> True | Inr (hits, budget, hs') \<Rightarrow> list_all (\<lambda>h. hObjectId h = ''a'' \<and> hScope h = ''basic'') hits)"
proof -
  have a: "pred_option (answers (\<lambda>i. i = ''a'')) (Some (objectsHostFilter (\<lambda>_. None) demo_objects))" using objects_filter_answers [OF demo_objects_ok] by simp
  have b: "0 < lcFetch \<lparr>lcFetch = 30, lcGroups = 2\<rparr>" by simp
  show ?thesis using vector_leg_returns [OF demo_searcher_sound a demo_set_new b,
      of "\<lparr>vrVector = [], vrScopes = [''basic''], vrRequire = [], vrExclude = [], vrMinSim = 0\<rparr>" "[]"]
    by - (elim ex_forward conj_forward, assumption, auto split: sum.splits simp: list_all_iff)
qed

end
