(* ===== verification/SearchPage.thy ===== *)
theory SearchPage
  imports SearchLegs
begin

text \<open>
  A search (src/internal/indexer/titles.go and \<open>Search\<close> of indexer.go, the endpoint of
  src/internal/server/handlers_search.go): the title pass over the names, the two content legs fused into records, and
  the page of hits with their windowed text.

  Parameters besides those of the legs: the analyzer of the text index, the clause parser and the letter tables, the
  embedder, and the order in which a map is walked.
\<close>

record textOps =
  txLower :: "nat \<Rightarrow> nat"
  txWordRune :: "nat \<Rightarrow> bool"
  txAnalyze :: "runes \<Rightarrow> runes list"
  txClauses :: "runes \<Rightarrow> runes list"

definition SearchModeHybrid :: string where "SearchModeHybrid = ''hybrid''"
definition SearchModeFTS :: string where "SearchModeFTS = ''fts''"
definition SearchModeVector :: string where "SearchModeVector = ''vector''"
definition SearchModeTitle :: string where "SearchModeTitle = ''title''"
definition SearchMatchExact :: string where "SearchMatchExact = ''exact''"
definition SearchMatchPrefix :: string where "SearchMatchPrefix = ''prefix''"
definition SearchMatchPhrase :: string where "SearchMatchPhrase = ''phrase''"
definition SearchMatchWords :: string where "SearchMatchWords = ''words''"
definition VectorStatusUsed :: string where "VectorStatusUsed = ''used''"
definition VectorStatusUnavailable :: string where "VectorStatusUnavailable = ''unavailable''"
definition VectorStatusDisabled :: string where "VectorStatusDisabled = ''disabled''"
definition VectorStatusSkipped :: string where "VectorStatusSkipped = ''skipped''"
definition MaxSearchPassages :: int where "MaxSearchPassages = 10"
definition DefaultSearchMaxData :: int where "DefaultSearchMaxData = 512"
definition nameField :: string where "nameField = ''name''"

lemmas match_defs = SearchMatchExact_def SearchMatchPrefix_def SearchMatchPhrase_def SearchMatchWords_def
lemmas mode_defs = SearchModeHybrid_def SearchModeFTS_def SearchModeVector_def SearchModeTitle_def

record SearchRequest =
  rqQuery :: runes
  rqScopes :: "string list"
  rqLimit :: int
  rqMode :: string
  rqRequire :: "runes list"
  rqExclude :: "runes list"
  rqMaxData :: int
  rqPassages :: int

record 's SearchPassage =
  spChunk :: nat
  spData :: runes
  spDataOffset :: nat
  spDataTotal :: nat
  spScore :: 's

record 's SearchHit =
  shScope :: string
  shObjectId :: string
  shDataset :: string
  shRecordId :: string
  shChunk :: nat
  shData :: runes
  shDataOffset :: nat
  shDataTotal :: nat
  shScore :: 's
  shMatch :: string
  shPassages :: "'s SearchPassage list"

record 's SearchResponse =
  srHits :: "'s SearchHit list"
  srMode :: string
  srVectorStatus :: string
  srTruncated :: bool

section \<open>The title pass\<close>

record titleTier =
  ttSearch :: runes
  ttMatch :: string

definition quote :: "runes \<Rightarrow> runes" where
  "quote s = [34] @ concat (map (\<lambda>r. if r = 34 then [34, 34] else [r]) s) @ [34]"

definition titleTiers :: "textOps \<Rightarrow> runes \<Rightarrow> runes list \<times> titleTier list" where
  "titleTiers tx typed =
     (let terms = txAnalyze tx typed in
      if terms = [] then ([], [])
      else let star = (if typed \<noteq> [] \<and> isSpace (last typed) then [] else [42]);
               phrase = quote (spaced terms);
               tiers = [\<lparr>ttSearch = 94 # phrase, ttMatch = SearchMatchExact\<rparr>,
                        \<lparr>ttSearch = 94 # phrase @ star, ttMatch = SearchMatchPrefix\<rparr>,
                        \<lparr>ttSearch = phrase @ star, ttMatch = SearchMatchPhrase\<rparr>];
               quoted = map quote terms
           in (terms, if length terms > 1
                      then tiers @ [\<lparr>ttSearch = spaced (quoted[length quoted - 1 := last quoted @ star]), ttMatch = SearchMatchWords\<rparr>]
                      else tiers))"

definition titlesInScope :: "string list \<Rightarrow> bool" where
  "titlesInScope scopes \<longleftrightarrow> scopes = [] \<or> ScopeBasic \<in> set scopes"

definition foldName :: "textOps \<Rightarrow> runes \<Rightarrow> runes" where
  "foldName tx s = map (txLower tx) s"

text \<open>\<open>strings.Compare\<close> compares bytes, which for UTF-8 is the order of the code points.\<close>

definition titleCmp :: "textOps \<Rightarrow> 's::linorder Hit \<Rightarrow> 's Hit \<Rightarrow> int" where
  "titleCmp tx a b = cmpOr (cmpCompare (hScore b) (hScore a)) (cmpCompare (foldName tx (hData a)) (foldName tx (hData b)))"

text \<open>The objects seen are those of the hits.\<close>

fun take_titles :: "nat \<Rightarrow> string \<Rightarrow> 's Hit list \<Rightarrow> 's Hit list \<Rightarrow> 's Hit list" where
  "take_titles limit mtch [] hits = hits"
| "take_titles limit mtch (h # got) hits =
     (if hObjectId h \<in> hObjectId ` set hits then take_titles limit mtch got hits
      else let hits = hits @ [h\<lparr>hMatch := mtch\<rparr>]
           in if limit \<le> length hits then hits else take_titles limit mtch got hits)"

definition tier_query :: "SearchRequest \<Rightarrow> titleTier \<Rightarrow> FTSQuery" where
  "tier_query req tier = \<lparr>fqQuery = ttSearch tier, fqDefaultAnd = True, fqRequire = rqRequire req, fqExclude = rqExclude req, fqFields = [nameField]\<rparr>"

fun title_loop :: "textOps \<Rightarrow> ('cl, 's::linorder, 'e) searcher \<Rightarrow> SearchRequest \<Rightarrow> nat \<Rightarrow> runes list \<Rightarrow> nat \<Rightarrow> titleTier list \<Rightarrow>
    's Hit list \<Rightarrow> bool \<Rightarrow> 'e hostSet option \<Rightarrow> 'e leg_error + ('s Hit list \<times> bool \<times> 'e hostSet option)" where
  "title_loop tx st req limit terms rnd [] hits budgetOut hs = Inr (hits, budgetOut, hs)"
| "title_loop tx st req limit terms rnd (tier # tiers) hits budgetOut hs =
     (if limit \<le> length hits then Inr (hits, budgetOut, hs)
      else bind_sum (ftsLeg st rnd (tier_query req tier) [] \<lparr>lcFetch = limit, lcGroups = limit\<rparr> hs []) (\<lambda>(got, out, hs).
        let got = (if ttMatch tier = SearchMatchExact then filter (\<lambda>h. txAnalyze tx (hData h) = terms) got else got);
            got = SortFunc (titleCmp tx) got
        in title_loop tx st req limit terms (rnd + 1) tiers (take_titles limit (ttMatch tier) got hits) (budgetOut \<or> out) hs))"

definition titlePass :: "textOps \<Rightarrow> ('cl, 's::linorder, 'e) searcher \<Rightarrow> SearchRequest \<Rightarrow> nat \<Rightarrow> 'e hostSet option \<Rightarrow>
    'e leg_error + ('s Hit list \<times> bool \<times> 'e hostSet option)" where
  "titlePass tx st req limit hs =
     (let (terms, tiers) = titleTiers tx (rqQuery req) in
      if tiers = [] then Inr ([], False, hs)
      else title_loop tx st req limit terms 0 tiers [] False hs)"

definition shownRecords :: "'s Hit list \<Rightarrow> string list" where
  "shownRecords titles = map groupKey titles"

section \<open>The search\<close>

text \<open>
  The options of the indexer a search reads. \<open>soEmbed\<close> is the embedder, absent when none is configured, whose error
  is a failed or late embedding of the query; \<open>soGone\<close> is the error of the caller's context after one.
\<close>

record ('s, 'e) searchOpts =
  soEmbed :: "(runes \<Rightarrow> 'e + vector) option"
  soGone :: "'e option"
  soStopWords :: bool
  soFTSDefaultAnd :: bool
  soFtsWeight :: 's
  soVectorWeight :: 's
  soAdaptiveWeights :: bool
  soMinVectorSim :: 's

datatype 'e search_error = ErrLeg "'e leg_error" | ErrFilter 'e | ErrGone 'e | ErrNoEmbedder | ErrEmbedderUnavailable

definition bind_leg :: "'e leg_error + 'a \<Rightarrow> ('a \<Rightarrow> ('e search_error + 'b) option) \<Rightarrow> ('e search_error + 'b) option" where
  "bind_leg m f = (case m of Inl e \<Rightarrow> Some (Inl (ErrLeg e)) | Inr x \<Rightarrow> f x)"

text \<open>The query vector: \<open>None\<close> when the query was not embedded at the dimension of the index.\<close>

definition query_vector :: "('cl, 's, 'e) searcher \<Rightarrow> (runes \<Rightarrow> 'e + vector) \<Rightarrow> runes \<Rightarrow> vector option" where
  "query_vector st emb q =
     (case emb q of Inl e \<Rightarrow> None | Inr v \<Rightarrow> if stDim st > 0 \<and> int (length v) \<noteq> stDim st then None else Some v)"

text \<open>
  The vector side of the content legs: the mode and the status after it, the hits, the budget and the set. Without an
  embedder \<open>Search\<close> has left these modes already.
\<close>

definition vector_part :: "('s, 'e) searchOpts \<Rightarrow> ('cl, 's::linorder, 'e) searcher \<Rightarrow> SearchRequest \<Rightarrow> string \<Rightarrow> string \<Rightarrow> legCover \<Rightarrow>
    string list \<Rightarrow> 'e hostSet option \<Rightarrow> ('e search_error + (string \<times> string \<times> 's Hit list \<times> bool \<times> 'e hostSet option)) option" where
  "vector_part opts st req mode status cov shown hs =
     (if mode = SearchModeVector \<or> mode = SearchModeHybrid
      then case soEmbed opts of
          None \<Rightarrow> Some (Inl ErrNoEmbedder)
        | Some emb \<Rightarrow>
            (case query_vector st emb (rqQuery req) of
               None \<Rightarrow>
                 (case soGone opts of
                    Some e \<Rightarrow> Some (Inl (ErrGone e))
                  | None \<Rightarrow> if mode = SearchModeVector then Some (Inl ErrEmbedderUnavailable)
                            else Some (Inr (SearchModeFTS, VectorStatusUnavailable, [], False, hs)))
             | Some qv \<Rightarrow>
                 (case vectorLeg st \<lparr>vrVector = qv, vrScopes = rqScopes req, vrRequire = rqRequire req, vrExclude = rqExclude req,
                     vrMinSim = soMinVectorSim opts\<rparr> cov hs shown of
                    None \<Rightarrow> None
                  | Some r \<Rightarrow> bind_leg r (\<lambda>(hits, out, hs). Some (Inr (mode, VectorStatusUsed, hits, out, hs)))))
      else Some (Inr (mode, status, [], False, hs)))"

definition fts_query :: "textOps \<Rightarrow> ('s, 'e) searchOpts \<Rightarrow> SearchRequest \<Rightarrow> FTSQuery" where
  "fts_query tx opts req =
     \<lparr>fqQuery = (if soStopWords opts \<and> 34 \<notin> set (rqQuery req) then stripStopWords (txLower tx) (rqQuery req) else rqQuery req),
      fqDefaultAnd = soFTSDefaultAnd opts, fqRequire = rqRequire req, fqExclude = rqExclude req, fqFields = []\<rparr>"

definition fts_part :: "textOps \<Rightarrow> ('s, 'e) searchOpts \<Rightarrow> ('cl, 's, 'e) searcher \<Rightarrow> SearchRequest \<Rightarrow> string \<Rightarrow> legCover \<Rightarrow>
    string list \<Rightarrow> 'e hostSet option \<Rightarrow> 'e leg_error + ('s Hit list \<times> bool)" where
  "fts_part tx opts st req mode cov shown hs =
     (if mode = SearchModeFTS \<or> mode = SearchModeHybrid
      then bind_sum (ftsLeg st 4 (fts_query tx opts req) (rqScopes req) cov hs shown) (\<lambda>(hits, out, hs). Inr (hits, out))
      else Inr ([], False))"

text \<open>The maps \<open>fuseRRF\<close> and \<open>groupHits\<close> walk, each in its own order.\<close>

record 's visits =
  viFused :: "(string \<times> 's Hit \<times> 's) list \<Rightarrow> (string \<times> 's Hit \<times> 's) list"
  viGroups :: "(string \<times> 's Group) list \<Rightarrow> (string \<times> 's Group) list"

definition fused_hits :: "'s visits \<Rightarrow> ('s, 'e) searchOpts \<Rightarrow> 's::linorder FloatOps \<Rightarrow> string \<Rightarrow> nat \<Rightarrow> 's Hit list \<Rightarrow> 's Hit list \<Rightarrow> 's Hit list" where
  "fused_hits vi opts F mode fetch ftsHits vecHits =
     (if mode = SearchModeHybrid
      then let ftsW = (if soAdaptiveWeights opts then fMul F (soFtsWeight opts) (legConfidence F (take fetch ftsHits)) else soFtsWeight opts)
           in fuseRRF (viFused vi) F [ftsHits, vecHits] [ftsW, soVectorWeight opts] 0
      else if mode = SearchModeFTS then ftsHits
      else if mode = SearchModeVector then vecHits
      else [])"

text \<open>The content of the page: \<open>rest\<close> records of it at most.\<close>

definition content_part :: "textOps \<Rightarrow> 's visits \<Rightarrow> ('s, 'e) searchOpts \<Rightarrow> ('cl, 's::linorder, 'e) searcher \<Rightarrow> SearchRequest \<Rightarrow> string \<Rightarrow> string \<Rightarrow>
    nat \<Rightarrow> string list \<Rightarrow> 'e hostSet option \<Rightarrow> ('e search_error + (string \<times> string \<times> 's Group list \<times> bool)) option" where
  "content_part tx vi opts st req mode status rest shown hs =
     (let fetch = min (max (rest * 3) 30) 100 in
      case vector_part opts st req mode status \<lparr>lcFetch = fetch, lcGroups = rest\<rparr> shown hs of
        None \<Rightarrow> None
      | Some (Inl e) \<Rightarrow> Some (Inl e)
      | Some (Inr (mode, status, vecHits, vout, hs)) \<Rightarrow>
          bind_leg (fts_part tx opts st req mode \<lparr>lcFetch = fetch, lcGroups = 2 * rest\<rparr> shown hs) (\<lambda>(ftsHits, fout).
            Some (Inr (mode, status, groupHits (viGroups vi) (fused_hits vi opts (stFloat st) mode fetch ftsHits vecHits) rest (rqPassages req),
              vout \<or> fout))))"

definition window :: "textOps \<Rightarrow> SearchRequest \<Rightarrow> 's Hit \<Rightarrow> runes \<times> nat \<times> nat" where
  "window tx req h =
     snippet (txLower tx) (txWordRune tx) (hData h) (foldTerms (txLower tx) (snippetTerms (txLower tx) (txClauses tx) (rqQuery req) (rqRequire req)))
       (if rqMaxData req = 0 then DefaultSearchMaxData else rqMaxData req)"

definition searchHit :: "textOps \<Rightarrow> SearchRequest \<Rightarrow> 's Hit \<Rightarrow> 's SearchHit" where
  "searchHit tx req h =
     (let (data, offset, len) = window tx req h in
      \<lparr>shScope = hScope h, shObjectId = hObjectId h, shDataset = hDataset h, shRecordId = hRecordId h, shChunk = hChunk h, shData = data,
       shDataOffset = offset, shDataTotal = len, shScore = hScore h, shMatch = hMatch h, shPassages = []\<rparr>)"

definition group_hit :: "textOps \<Rightarrow> SearchRequest \<Rightarrow> 's Group \<Rightarrow> 's SearchHit" where
  "group_hit tx req g =
     (searchHit tx req (gHit g))\<lparr>shPassages := map (\<lambda>p. let (data, offset, len) = window tx req p in
        \<lparr>spChunk = hChunk p, spData = data, spDataOffset = offset, spDataTotal = len, spScore = hScore p\<rparr>) (gPassages g)\<rparr>"

definition page_limit :: "SearchRequest \<Rightarrow> nat" where
  "page_limit req = (if rqLimit req \<le> 0 then 10 else nat (rqLimit req))"

text \<open>The rest of the search after the title pass: the content legs when the page has room, and the reply.\<close>

definition search_reply :: "textOps \<Rightarrow> 's visits \<Rightarrow> ('s, 'e) searchOpts \<Rightarrow> ('cl, 's::linorder, 'e) searcher \<Rightarrow> SearchRequest \<Rightarrow> string \<Rightarrow> string \<Rightarrow>
    's Hit list \<times> bool \<times> 'e hostSet option \<Rightarrow> ('e search_error + 's SearchResponse) option" where
  "search_reply tx vi opts st req mode status = (\<lambda>(titles, tout, hs).
     let rest = page_limit req - length titles in
     case (if rest > 0 \<and> mode \<noteq> SearchModeTitle then content_part tx vi opts st req mode status rest (shownRecords titles) hs
           else Some (Inr (mode, status, [], False))) of
       None \<Rightarrow> None
     | Some (Inl e) \<Rightarrow> Some (Inl e)
     | Some (Inr (mode, status, groups, cout)) \<Rightarrow>
         Some (Inr \<lparr>srHits = map (searchHit tx req) titles @ map (group_hit tx req) groups, srMode = mode, srVectorStatus = status,
           srTruncated = ((tout \<or> cout) \<and> length titles + length groups < page_limit req)\<rparr>))"

definition Search :: "textOps \<Rightarrow> 's visits \<Rightarrow> ('s, 'e) searchOpts \<Rightarrow> ('cl, 's::linorder, 'e) searcher \<Rightarrow> SearchRequest \<Rightarrow> 'e HostFilter option \<Rightarrow>
    ('e search_error + 's SearchResponse) option" where
  "Search tx vi opts st req host =
     (case newHostSet host of
        Inl e \<Rightarrow> Some (Inl (ErrFilter e))
      | Inr hs \<Rightarrow>
          let mode = (if rqMode req = [] then SearchModeHybrid else rqMode req);
              status = (if soEmbed opts = None then VectorStatusDisabled else VectorStatusSkipped)
          in if empty_set hs then Some (Inr \<lparr>srHits = [], srMode = mode, srVectorStatus = status, srTruncated = False\<rparr>)
             else if soEmbed opts = None \<and> mode = SearchModeVector then Some (Inl ErrNoEmbedder)
             else
               let mode = (if soEmbed opts = None \<and> mode = SearchModeHybrid then SearchModeFTS else mode) in
               bind_leg (if mode \<noteq> SearchModeVector \<and> titlesInScope (rqScopes req) then titlePass tx st req (page_limit req) hs else Inr ([], False, hs))
                 (search_reply tx vi opts st req mode status))"

section \<open>The titles of a page\<close>

definition title_hit :: "(string \<Rightarrow> bool) \<Rightarrow> 'e hostSet option \<Rightarrow> 's Hit \<Rightarrow> bool" where
  "title_hit P hs h \<longleftrightarrow> admitted P hs h \<and> hMatch h \<in> {SearchMatchExact, SearchMatchPrefix, SearchMatchPhrase, SearchMatchWords}"

definition titles_ok :: "(string \<Rightarrow> bool) \<Rightarrow> 'e hostSet option \<Rightarrow> nat \<Rightarrow> 's Hit list \<Rightarrow> bool" where
  "titles_ok P hs limit hits \<longleftrightarrow> length hits \<le> limit \<and> distinct (map hObjectId hits) \<and> list_all (title_hit P hs) hits"

lemma take_titles_ok:
  assumes "titles_ok P hs limit hits" "length hits < limit" "list_all (admitted P hs) got"
    and "m \<in> {SearchMatchExact, SearchMatchPrefix, SearchMatchPhrase, SearchMatchWords}"
  shows "titles_ok P hs limit (take_titles limit m got hits)"
  using assms
proof (induction limit m got hits rule: take_titles.induct)
  case (2 limit m h got hits)
  show ?case
  proof (cases "hObjectId h \<in> hObjectId ` set hits")
    case True
    then show ?thesis using 2 by simp
  next
    case False
    have ok: "titles_ok P hs limit (hits @ [h\<lparr>hMatch := m\<rparr>])"
      using "2.prems" False unfolding titles_ok_def title_hit_def by (auto simp: admitted_def)
    show ?thesis
    proof (cases "limit \<le> length (hits @ [h\<lparr>hMatch := m\<rparr>])")
      case True
      then show ?thesis using ok False by simp
    next
      case lt: False
      have "titles_ok P hs limit (take_titles limit m got (hits @ [h\<lparr>hMatch := m\<rparr>]))"
        by (rule "2.IH"(2) [OF False refl lt ok]) (use lt "2.prems" in auto)
      then show ?thesis using lt False by simp
    qed
  qed
qed simp

lemma SortFunc_set: "set (SortFunc cmp xs) = set xs"
proof -
  have "set (insertBy cmp x ys) = insert x (set ys)" for x ys by (induction ys) auto
  then show ?thesis unfolding SortFunc_def by (induction xs) auto
qed

lemma title_loop_ok:
  assumes "engine_sound st" "list_all (\<lambda>t. ttMatch t \<in> {SearchMatchExact, SearchMatchPrefix, SearchMatchPhrase, SearchMatchWords}) tiers"
    and "set_ok P hs" "hs = None \<longleftrightarrow> hs0 = None" "titles_ok P hs0 limit hits"
    and "title_loop tx st req limit terms rnd tiers hits budget hs = Inr (titles, out, hs')"
  shows "titles_ok P hs0 limit titles \<and> set_ok P hs' \<and> (hs' = None \<longleftrightarrow> hs0 = None)"
  using assms
proof (induction tiers arbitrary: rnd hits budget hs)
  case (Cons tier tiers)
  show ?case
  proof (cases "limit \<le> length hits")
    case True
    then show ?thesis using Cons.prems by simp
  next
    case False
    obtain got out1 hs1 where leg: "ftsLeg st rnd (tier_query req tier) [] \<lparr>lcFetch = limit, lcGroups = limit\<rparr> hs [] = Inr (got, out1, hs1)"
      and loop: "title_loop tx st req limit terms (rnd + 1) tiers
        (take_titles limit (ttMatch tier) (SortFunc (titleCmp tx) (if ttMatch tier = SearchMatchExact then filter (\<lambda>h. txAnalyze tx (hData h) = terms) got else got)) hits)
        (budget \<or> out1) hs1 = Inr (titles, out, hs')"
      using Cons.prems(6) False by (auto simp: bind_sum_Inr Let_def simp del: title_loop.simps(1))
    note ok = ftsLeg_ok [OF Cons.prems(1,3) leg]
    let ?got = "SortFunc (titleCmp tx) (if ttMatch tier = SearchMatchExact then filter (\<lambda>h. txAnalyze tx (hData h) = terms) got else got)"
    have "admitted P hs0 h" if "h \<in> set ?got" for h
      using that ok(1) admitted_cong [OF Cons.prems(4), of P h] by (auto simp: list_all_iff leg_hit_def SortFunc_set split: if_splits)
    then have "list_all (admitted P hs0) ?got" by (simp add: list_all_iff)
    then have t: "titles_ok P hs0 limit (take_titles limit (ttMatch tier) ?got hits)"
      by (intro take_titles_ok) (use Cons.prems(2,5) False in auto)
    have n: "hs1 = None \<longleftrightarrow> hs0 = None" using ok(3) Cons.prems(4) by simp
    show ?thesis by (rule Cons.IH [OF Cons.prems(1) _ ok(2) n t loop]) (use Cons.prems(2) in simp)
  qed
qed simp

lemma titlePass_ok:
  assumes "engine_sound st" "set_ok P hs" "titlePass tx st req limit hs = Inr (titles, out, hs')"
  shows "titles_ok P hs limit titles" "set_ok P hs'" "hs' = None \<longleftrightarrow> hs = None"
proof -
  obtain terms tiers where t: "titleTiers tx (rqQuery req) = (terms, tiers)" by fastforce
  have m: "list_all (\<lambda>t. ttMatch t \<in> {SearchMatchExact, SearchMatchPrefix, SearchMatchPhrase, SearchMatchWords}) tiers"
    using t by (auto simp: titleTiers_def Let_def split: if_splits)
  have "titles_ok P hs limit titles \<and> set_ok P hs' \<and> (hs' = None \<longleftrightarrow> hs = None)"
  proof (cases "tiers = []")
    case True
    then show ?thesis using assms t by (simp add: titlePass_def titles_ok_def)
  next
    case False
    then have "title_loop tx st req limit terms 0 tiers [] False hs = Inr (titles, out, hs')" using assms(3) t by (simp add: titlePass_def)
    from title_loop_ok [OF assms(1) m assms(2) refl _ this] show ?thesis by (simp add: titles_ok_def)
  qed
  then show "titles_ok P hs limit titles" "set_ok P hs'" "hs' = None \<longleftrightarrow> hs = None" by simp_all
qed

section \<open>The content of a page\<close>

text \<open>A fused hit is a hit of a leg, rescored; a group is led by one of the hits, one group per record.\<close>

lemma fuse_lists_from:
  assumes "(k, h, s) \<in> set (fuse_lists F legs weights)"
  shows "h \<in> \<Union> (set ` set legs)"
proof -
  let ?ps = "filter (\<lambda>p. hitDocId (snd p) = k) (contribs F legs weights)"
  have "distinct (map fst (fuse_lists F legs weights))" unfolding fuse_lists_fold by (rule distinct_upserts) simp
  then have "map_of (fuse_lists F legs weights) k = Some (h, s)" using assms by (simp add: map_of_eq_Some_iff)
  then have e: "fold (\<lambda>p v. Some (acc_step F (fst p) (snd p) v)) ?ps None = Some (h, s)"
    unfolding fuse_lists_fold map_of_upserts by simp
  then obtain p ps where ps: "?ps = p # ps" by (cases ?ps) auto
  have "h = snd p" using e unfolding ps by (auto simp: acc_steps acc_step_def [of _ _ _ None])
  moreover have "p \<in> set ?ps" unfolding ps by simp
  ultimately show ?thesis unfolding contribs_hits [symmetric, of legs F weights] by auto
qed

lemma leg_hit_rescored: "leg_hit P hs scopes skip (h\<lparr>hScore := s\<rparr>) = leg_hit P hs scopes skip h"
  by (simp add: leg_hit_def admitted_def in_scopes_def groupKey_def)

lemma leg_hit_cong: "hs1 = None \<longleftrightarrow> hs = None \<Longrightarrow> leg_hit P hs1 scopes skip h = leg_hit P hs scopes skip h"
  by (simp add: leg_hit_def admitted_def)

lemma fused_from:
  assumes "rearranges (viFused vi)" "h \<in> set (fused_hits vi opts F mode fetch ftsHits vecHits)"
  shows "\<exists>h' \<in> set ftsHits \<union> set vecHits. \<exists>s. h = h'\<lparr>hScore := s\<rparr>"
proof (cases "mode = SearchModeHybrid")
  case True
  then obtain w where "h \<in> set (fuseRRF (viFused vi) F [ftsHits, vecHits] [w, soVectorWeight opts] 0)" using assms(2) by (auto simp: fused_hits_def Let_def)
  then obtain k h' s where "(k, h', s) \<in> set (fuse_lists F [ftsHits, vecHits] [w, soVectorWeight opts])" "h = h'\<lparr>hScore := s\<rparr>"
    using rearranges_set [OF assms(1)] by (auto simp: fuseRRF_def Let_def split: if_splits)
  then show ?thesis using fuse_lists_from [of k h' s F] by fastforce
next
  case False
  then have "h \<in> set ftsHits \<union> set vecHits" using assms(2) by (auto simp: fused_hits_def split: if_splits)
  then show ?thesis by (intro bexI [of _ h] exI [of _ "hScore h"]) auto
qed

lemma groupHits_page:
  assumes "rearranges visit"
  shows "distinct (map (\<lambda>g. groupKey (gHit g)) (groupHits visit hits limit passages))"
    and "g \<in> set (groupHits visit hits limit passages) \<Longrightarrow> gHit g \<in> set hits"
    and "0 < limit \<Longrightarrow> length (groupHits visit hits limit passages) \<le> limit"
proof -
  let ?m = "record_groups hits" and ?key = "\<lambda>g. groupKey (gHit g)"
  define out where "out = SortFunc groupCmp (map snd (visit ?m))"
  define cut where "cut = (if limit > 0 \<and> length out > limit then take limit out else out)"
  have page: "groupHits visit hits limit passages = map (cut_passages passages) cut" by (simp add: groupHits_def out_def cut_def Let_def)
  have same: "gHit (cut_passages passages g) = gHit g" for g by (simp add: cut_passages_def)
  have "mset out = mset (map snd ?m)" using assms unfolding out_def rearranges_def by (simp add: groups.mset_SortFunc)
  then have e: "distinct (map ?key out) = distinct (map ?key (map snd ?m))" by (rule distinct_map_mset)
  have f: "map ?key (map snd ?m) = map fst ?m" using record_group_ok [of _ _ hits] by fastforce
  have d: "distinct (map ?key out)" unfolding e f by (rule distinct_records)
  show "distinct (map ?key (groupHits visit hits limit passages))" unfolding page
    using d distinct_take [OF d, of limit] by (simp add: cut_def same comp_def take_map)
  show "0 < limit \<Longrightarrow> length (groupHits visit hits limit passages) \<le> limit" unfolding page by (simp add: cut_def)
  assume "g \<in> set (groupHits visit hits limit passages)"
  then obtain g' where g': "g' \<in> set out" "gHit g = gHit g'" unfolding page by (auto simp: cut_def same dest: in_set_takeD split: if_splits)
  then obtain k where "(k, g') \<in> set ?m" using rearranges_set [OF assms] unfolding out_def by (auto simp: SortFunc_set)
  from record_group_ok [OF this] have "mset (gHit g' # gPassages g') = mset (filter (\<lambda>h. groupKey h = k) hits)" by (simp add: group_ok_def)
  then show "gHit g \<in> set hits" using g'(2) by (metis filter_is_subset list.set_intros(1) mset_eq_setD subsetD)
qed

lemma vector_part_ok:
  assumes "engine_sound st" "set_ok P hs" "0 < lcFetch cov"
  shows "\<exists>r. vector_part opts st req mode status cov shown hs = Some r \<and>
    (case r of Inl e \<Rightarrow> True | Inr (mode', status', hits, out, hs') \<Rightarrow>
       list_all (leg_hit P hs (rqScopes req) shown) hits \<and> set_ok P hs' \<and> (hs' = None \<longleftrightarrow> hs = None))"
proof (cases "(mode = SearchModeVector \<or> mode = SearchModeHybrid) \<and> (\<exists>emb qv. soEmbed opts = Some emb \<and> query_vector st emb (rqQuery req) = Some qv)")
  case True
  then obtain emb qv where q: "soEmbed opts = Some emb" "query_vector st emb (rqQuery req) = Some qv" by blast
  obtain r where "vectorLeg st \<lparr>vrVector = qv, vrScopes = rqScopes req, vrRequire = rqRequire req, vrExclude = rqExclude req,
      vrMinSim = soMinVectorSim opts\<rparr> cov hs shown = Some r" "leg_result P hs (rqScopes req) shown r"
    using vectorLeg_ok [OF assms, of "\<lparr>vrVector = qv, vrScopes = rqScopes req, vrRequire = rqRequire req, vrExclude = rqExclude req,
      vrMinSim = soMinVectorSim opts\<rparr>" shown] by auto
  then show ?thesis using True q by (auto simp: vector_part_def bind_leg_def leg_result_def split: sum.splits)
next
  case False
  then show ?thesis using assms(2) by (auto simp: vector_part_def split: option.splits)
qed

lemma fts_part_ok:
  assumes "engine_sound st" "set_ok P hs1" "hs1 = None \<longleftrightarrow> hs = None" "fts_part tx opts st req mode cov shown hs1 = Inr (hits, out)"
  shows "list_all (leg_hit P hs (rqScopes req) shown) hits"
proof (cases "mode = SearchModeFTS \<or> mode = SearchModeHybrid")
  case True
  then obtain hs2 where "ftsLeg st 4 (fts_query tx opts req) (rqScopes req) cov hs1 shown = Inr (hits, out, hs2)"
    using assms(4) by (auto simp: fts_part_def bind_sum_Inr)
  from ftsLeg_ok(1) [OF assms(1,2) this] show ?thesis by (simp add: list_all_iff leg_hit_cong [OF assms(3)])
qed (use assms(4) in \<open>auto simp: fts_part_def\<close>)

lemma content_part_ok:
  assumes "engine_sound st" "set_ok P hs" "rearranges (viFused vi)" "rearranges (viGroups vi)" "0 < rest"
  shows "\<exists>r. content_part tx vi opts st req mode status rest shown hs = Some r \<and>
    (case r of Inl e \<Rightarrow> True
     | Inr (mode', status', groups, out) \<Rightarrow> length groups \<le> rest \<and> distinct (map (\<lambda>g. groupKey (gHit g)) groups) \<and>
         list_all (\<lambda>g. leg_hit P hs (rqScopes req) shown (gHit g)) groups)"
proof -
  define fetch where "fetch = min (max (rest * 3) 30) (100 :: nat)"
  have "0 < lcFetch \<lparr>lcFetch = fetch, lcGroups = rest\<rparr>" by (simp add: fetch_def)
  from vector_part_ok [OF assms(1,2) this] obtain r where r: "vector_part opts st req mode status \<lparr>lcFetch = fetch, lcGroups = rest\<rparr> shown hs = Some r"
    "case r of Inl e \<Rightarrow> True | Inr (mode', status', hits, out, hs') \<Rightarrow>
       list_all (leg_hit P hs (rqScopes req) shown) hits \<and> set_ok P hs' \<and> (hs' = None \<longleftrightarrow> hs = None)" by blast
  show ?thesis
  proof (cases r)
    case (Inl e)
    then show ?thesis using r(1) by (simp add: content_part_def fetch_def [symmetric] Let_def)
  next
    case (Inr t)
    obtain mode1 status1 vecHits vout hs1 where t: "t = (mode1, status1, vecHits, vout, hs1)" by (cases t) auto
    have ok: "list_all (leg_hit P hs (rqScopes req) shown) vecHits" "set_ok P hs1" "hs1 = None \<longleftrightarrow> hs = None" using r(2) Inr t by auto
    show ?thesis
    proof (cases "fts_part tx opts st req mode1 \<lparr>lcFetch = fetch, lcGroups = 2 * rest\<rparr> shown hs1")
      case (Inl e)
      then show ?thesis using r(1) Inr t by (simp add: content_part_def fetch_def [symmetric] Let_def bind_leg_def)
    next
      case fts: (Inr u)
      obtain ftsHits fout where u: "u = (ftsHits, fout)" by (cases u)
      let ?fused = "fused_hits vi opts (stFloat st) mode1 fetch ftsHits vecHits"
      have "list_all (leg_hit P hs (rqScopes req) shown) ftsHits" by (rule fts_part_ok [OF assms(1) ok(2,3) fts [unfolded u]])
      then have "leg_hit P hs (rqScopes req) shown h" if "h \<in> set ?fused" for h
        using fused_from [OF assms(3) that] ok(1) by (auto simp: list_all_iff leg_hit_rescored)
      then have "list_all (\<lambda>g. leg_hit P hs (rqScopes req) shown (gHit g)) (groupHits (viGroups vi) ?fused rest (rqPassages req))"
        using groupHits_page(2) [OF assms(4)] by (auto simp: list_all_iff)
      then show ?thesis using r(1) Inr t fts u groupHits_page(1,3) [OF assms(4)] assms(5)
        by (simp add: content_part_def fetch_def [symmetric] Let_def bind_leg_def)
    qed
  qed
qed

section \<open>The page\<close>

definition record_id :: "'s SearchHit \<Rightarrow> string \<times> string \<times> string" where
  "record_id h = (shObjectId h, shDataset h, shRecordId h)"

text \<open>What a page promises, its title hits first.\<close>

definition page_ok :: "(string \<Rightarrow> bool) \<Rightarrow> bool \<Rightarrow> SearchRequest \<Rightarrow> 's SearchResponse \<Rightarrow> bool" where
  "page_ok P filtered req resp \<longleftrightarrow>
     length (srHits resp) \<le> page_limit req \<and> distinct (map record_id (srHits resp)) \<and>
     list_all (\<lambda>h. filtered \<longrightarrow> P (shObjectId h)) (srHits resp) \<and>
     (\<exists>titles content. srHits resp = titles @ content \<and>
        list_all (\<lambda>h. shMatch h \<noteq> [] \<and> shPassages h = []) titles \<and> distinct (map shObjectId titles) \<and>
        list_all (\<lambda>h. shMatch h = [] \<and> (rqScopes req = [] \<or> shScope h \<in> set (rqScopes req))) content \<and>
        (titles = [] \<or> rqScopes req = [] \<or> ScopeBasic \<in> set (rqScopes req))) \<and>
     (srTruncated resp \<longrightarrow> length (srHits resp) < page_limit req)"

lemma searchHit_simps [simp]:
  "shObjectId (searchHit tx req h) = hObjectId h" "shMatch (searchHit tx req h) = hMatch h" "shScope (searchHit tx req h) = hScope h"
  "shDataset (searchHit tx req h) = hDataset h" "shRecordId (searchHit tx req h) = hRecordId h" "shPassages (searchHit tx req h) = []"
  by (simp_all add: searchHit_def Let_def split: prod.split)

lemma group_hit_simps [simp]:
  "shObjectId (group_hit tx req g) = hObjectId (gHit g)" "shMatch (group_hit tx req g) = hMatch (gHit g)" "shScope (group_hit tx req g) = hScope (gHit g)"
  "shDataset (group_hit tx req g) = hDataset (gHit g)" "shRecordId (group_hit tx req g) = hRecordId (gHit g)"
  by (simp_all add: group_hit_def)

definition key_of :: "string \<times> string \<times> string \<Rightarrow> string" where
  "key_of = (\<lambda>(obj, ds, r). docId obj ds r)"

lemma key_of_hits: "key_of (record_id (searchHit tx req h)) = groupKey h" "key_of (record_id (group_hit tx req g)) = groupKey (gHit g)"
  by (simp_all add: key_of_def record_id_def groupKey_def)

lemma distinct_of_map: "distinct (map f ys) \<Longrightarrow> distinct ys"
  by (simp add: distinct_map)

lemma page_distinct:
  assumes "distinct (map hObjectId titles)" "distinct (map (\<lambda>g. groupKey (gHit g)) groups)" "\<forall>g \<in> set groups. groupKey (gHit g) \<notin> groupKey ` set titles"
  shows "distinct (map record_id (map (searchHit tx req) titles @ map (group_hit tx req) groups))"
proof -
  have a: "distinct (map record_id (map (searchHit tx req) titles))"
    by (rule distinct_of_map [where f = fst]) (use assms(1) in \<open>simp add: record_id_def comp_def\<close>)
  have b: "distinct (map record_id (map (group_hit tx req) groups))"
    by (rule distinct_of_map [where f = key_of]) (use assms(2) in \<open>simp add: key_of_hits comp_def\<close>)
  have "record_id (group_hit tx req g) \<noteq> record_id (searchHit tx req h)" if "h \<in> set titles" "g \<in> set groups" for h g
  proof
    assume "record_id (group_hit tx req g) = record_id (searchHit tx req h)"
    then have "groupKey h = groupKey (gHit g)" by (metis key_of_hits)
    then show False using assms(3) that by (metis imageI)
  qed
  then have "set (map record_id (map (searchHit tx req) titles)) \<inter> set (map record_id (map (group_hit tx req) groups)) = {}" by force
  then show ?thesis using a b by (simp only: map_append distinct_append)
qed

lemma page_of_parts:
  assumes "titles_ok P hs (page_limit req) titles" "hs = None \<longleftrightarrow> \<not> filtered" "titles = [] \<or> titlesInScope (rqScopes req)"
    and "length groups \<le> page_limit req - length titles" "distinct (map (\<lambda>g. groupKey (gHit g)) groups)"
    and "list_all (\<lambda>g. leg_hit P hs (rqScopes req) (shownRecords titles) (gHit g)) groups"
    and "srHits resp = map (searchHit tx req) titles @ map (group_hit tx req) groups"
    and "srTruncated resp \<longrightarrow> length titles + length groups < page_limit req"
  shows "page_ok P filtered req resp"
proof -
  have t: "length titles \<le> page_limit req" "distinct (map hObjectId titles)" "\<forall>h \<in> set titles. title_hit P hs h"
    using assms(1) by (auto simp: titles_ok_def list_all_iff)
  have g: "admitted P hs (gHit g) \<and> in_scopes (rqScopes req) (gHit g) \<and> hMatch (gHit g) = [] \<and> groupKey (gHit g) \<notin> groupKey ` set titles"
    if "g \<in> set groups" for g using assms(6) that by (auto simp: list_all_iff leg_hit_def shownRecords_def)
  have "length (srHits resp) \<le> page_limit req" using t(1) assms(4) unfolding assms(7) by simp
  moreover have "distinct (map record_id (srHits resp))" unfolding assms(7) using t(2) assms(5) g by (intro page_distinct) auto
  moreover have "list_all (\<lambda>h. filtered \<longrightarrow> P (shObjectId h)) (srHits resp)"
    unfolding assms(7) using t(3) g assms(2) by (auto simp: list_all_iff title_hit_def admitted_def)
  moreover have "list_all (\<lambda>h. shMatch h \<noteq> [] \<and> shPassages h = []) (map (searchHit tx req) titles)"
    using t(3) by (auto simp: list_all_iff title_hit_def match_defs)
  moreover have "distinct (map shObjectId (map (searchHit tx req) titles))" using t(2) by (simp add: comp_def)
  moreover have "list_all (\<lambda>h. shMatch h = [] \<and> (rqScopes req = [] \<or> shScope h \<in> set (rqScopes req))) (map (group_hit tx req) groups)"
    using g by (auto simp: list_all_iff in_scopes_def)
  moreover have "map (searchHit tx req) titles = [] \<or> rqScopes req = [] \<or> ScopeBasic \<in> set (rqScopes req)"
    using assms(3) by (auto simp: titlesInScope_def)
  moreover have "srTruncated resp \<longrightarrow> length (srHits resp) < page_limit req" using assms(8) unfolding assms(7) by simp
  ultimately show ?thesis unfolding page_ok_def using assms(7) by blast
qed

text \<open>The page after the title pass.\<close>

lemma search_reply_ok:
  assumes "engine_sound st" "set_ok P hs" "hs = None \<longleftrightarrow> \<not> filtered" "rearranges (viFused vi)" "rearranges (viGroups vi)"
    and "titles_ok P hs (page_limit req) titles" "titles = [] \<or> titlesInScope (rqScopes req)"
  shows "\<exists>r. search_reply tx vi opts st req mode status (titles, tout, hs) = Some r \<and> (case r of Inl e \<Rightarrow> True | Inr resp \<Rightarrow> page_ok P filtered req resp)"
proof (cases "page_limit req - length titles > 0 \<and> mode \<noteq> SearchModeTitle")
  case True
  then have "0 < page_limit req - length titles" by simp
  from content_part_ok [OF assms(1,2,4,5) this] obtain c where
    c: "content_part tx vi opts st req mode status (page_limit req - length titles) (shownRecords titles) hs = Some c"
    "case c of Inl e \<Rightarrow> True
     | Inr (mode', status', groups, out) \<Rightarrow> length groups \<le> page_limit req - length titles \<and> distinct (map (\<lambda>g. groupKey (gHit g)) groups) \<and>
         list_all (\<lambda>g. leg_hit P hs (rqScopes req) (shownRecords titles) (gHit g)) groups" by blast
  show ?thesis
  proof (cases c)
    case (Inl e)
    then show ?thesis using True c(1) by (simp add: search_reply_def)
  next
    case (Inr t)
    obtain mode1 status1 groups cout where t: "t = (mode1, status1, groups, cout)" by (cases t) auto
    have "page_ok P filtered req \<lparr>srHits = map (searchHit tx req) titles @ map (group_hit tx req) groups, srMode = mode1, srVectorStatus = status1,
        srTruncated = ((tout \<or> cout) \<and> length titles + length groups < page_limit req)\<rparr>"
      by (rule page_of_parts [OF assms(6,3,7), of groups _ tx]) (use c(2) Inr t in auto)
    then show ?thesis using True c(1) Inr t by (simp add: search_reply_def)
  qed
next
  case False
  have "page_ok P filtered req \<lparr>srHits = map (searchHit tx req) titles @ map (group_hit tx req) [], srMode = mode, srVectorStatus = status,
      srTruncated = (tout \<and> length titles < page_limit req)\<rparr>"
    by (rule page_of_parts [OF assms(6,3,7), of "[]" _ tx]) simp_all
  then show ?thesis unfolding search_reply_def prod.case Let_def if_not_P [OF False] by simp
qed

lemma titles_of_search:
  assumes "engine_sound st" "set_ok P hs"
    and "(if b \<and> titlesInScope (rqScopes req) then titlePass tx st req (page_limit req) hs else Inr ([], False, hs)) = Inr (titles, tout, hs1)"
  shows "titles_ok P hs (page_limit req) titles \<and> set_ok P hs1 \<and> (hs1 = None \<longleftrightarrow> hs = None) \<and> (titles = [] \<or> titlesInScope (rqScopes req))"
proof (cases "b \<and> titlesInScope (rqScopes req)")
  case True
  then have "titlePass tx st req (page_limit req) hs = Inr (titles, tout, hs1)" using assms(3) by simp
  from titlePass_ok [OF assms(1,2) this] True show ?thesis by blast
next
  case False
  then have "(titles, tout, hs1) = ([], False, hs)" using assms(3) by (simp split: if_splits)
  then show ?thesis using assms(2) by (simp add: titles_ok_def)
qed

lemma titles_ok_cong: "hs1 = None \<longleftrightarrow> hs = None \<Longrightarrow> titles_ok P hs1 limit titles = titles_ok P hs limit titles"
  by (simp add: titles_ok_def title_hit_def list_all_iff admitted_cong [of hs1 hs])

lemma search_ok:
  assumes "engine_sound st" "pred_option (answers P) host" "rearranges (viFused vi)" "rearranges (viGroups vi)"
  shows "\<exists>r. Search tx vi opts st req host = Some r \<and> (case r of Inl e \<Rightarrow> True | Inr resp \<Rightarrow> page_ok P (host \<noteq> None) req resp)"
proof (cases "newHostSet host")
  case (Inl e)
  then show ?thesis by (simp add: Search_def)
next
  case (Inr hs)
  note hs = newHostSet_ok [OF assms(2) Inr]
  have ns: "hs = None \<longleftrightarrow> \<not> host \<noteq> None" using hs(2) by simp
  define mode where "mode = (if rqMode req = [] then SearchModeHybrid else rqMode req)"
  define mode1 where "mode1 = (if soEmbed opts = None \<and> mode = SearchModeHybrid then SearchModeFTS else mode)"
  define status where "status = (if soEmbed opts = None then VectorStatusDisabled else VectorStatusSkipped)"
  let ?titles = "if mode1 \<noteq> SearchModeVector \<and> titlesInScope (rqScopes req) then titlePass tx st req (page_limit req) hs else Inr ([], False, hs)"
  have search: "Search tx vi opts st req host =
      (if empty_set hs then Some (Inr \<lparr>srHits = [], srMode = mode, srVectorStatus = status, srTruncated = False\<rparr>)
       else if soEmbed opts = None \<and> mode = SearchModeVector then Some (Inl ErrNoEmbedder)
       else bind_leg ?titles (search_reply tx vi opts st req mode1 status))"
    unfolding Search_def Inr mode_def mode1_def status_def by (simp only: sum.case Let_def)
  consider "empty_set hs" | "\<not> empty_set hs" "soEmbed opts = None \<and> mode = SearchModeVector" | "\<not> empty_set hs" "\<not> (soEmbed opts = None \<and> mode = SearchModeVector)" by blast
  then show ?thesis
  proof cases
    case 1
    then show ?thesis unfolding search by (simp add: page_ok_def page_limit_def)
  next
    case 2
    then show ?thesis unfolding search by simp
  next
    case 3
    then have s: "Search tx vi opts st req host = bind_leg ?titles (search_reply tx vi opts st req mode1 status)" unfolding search by (simp only: if_False)
    show ?thesis
    proof (cases ?titles)
      case (Inl e)
      show ?thesis unfolding s Inl by (simp add: bind_leg_def)
    next
      case (Inr t)
      obtain titles tout hs1 where t: "t = (titles, tout, hs1)" by (cases t) auto
      note ok = titles_of_search [OF assms(1) hs(1) Inr [unfolded t]]
      then have n: "hs1 = None \<longleftrightarrow> hs = None" "set_ok P hs1" "titles = [] \<or> titlesInScope (rqScopes req)" by blast+
      have t1: "titles_ok P hs1 (page_limit req) titles" unfolding titles_ok_cong [OF n(1)] using ok by blast
      have f1: "hs1 = None \<longleftrightarrow> \<not> host \<noteq> None" using ns n(1) by simp
      show ?thesis unfolding s Inr t bind_leg_def sum.case by (rule search_reply_ok [OF assms(1) n(2) f1 assms(3,4) t1 n(3)])
    qed
  qed
qed

text \<open>
  C40. Every search ends, and the page it answers keeps the contract of the API: at most \<open>limit\<close> hits, every hit a
  different record (object, dataset, record id) although the titles and two legs are merged, every hit of an object the
  request's filter matches, the title hits first, one per object and only when the scopes admit names, every
  content hit in the requested scopes; a page reported truncated is short.
\<close>

theorem search_page:
  assumes "engine_sound st" "pred_option (answers P) host" "rearranges (viFused vi)" "rearranges (viGroups vi)"
  shows "\<exists>r. Search tx vi opts st req host = Some r \<and> (case r of Inl e \<Rightarrow> True | Inr resp \<Rightarrow> page_ok P (host \<noteq> None) req resp)"
  by (rule search_ok [OF assms])

definition demo_text :: textOps where
  "demo_text = \<lparr>txLower = id, txWordRune = (\<lambda>_. True), txAnalyze = words, txClauses = (\<lambda>s. [s])\<rparr>"

definition demo_opts :: "(int, string) searchOpts" where
  "demo_opts = \<lparr>soEmbed = None, soGone = None, soStopWords = True, soFTSDefaultAnd = False, soFtsWeight = 1, soVectorWeight = 1,
     soAdaptiveWeights = False, soMinVectorSim = 0\<rparr>"

definition demo_request :: SearchRequest where
  "demo_request = \<lparr>rqQuery = [104], rqScopes = [''basic''], rqLimit = 0, rqMode = [], rqRequire = [], rqExclude = [], rqMaxData = 0, rqPassages = 0\<rparr>"

lemma demo_tier: "ftsLeg demo_searcher rnd (tier_query demo_request t) [] \<lparr>lcFetch = 10, lcGroups = 10\<rparr> demo_set [] =
     Inr ([hitFromDoc (demo_row ''a'' ''r'') 0, hitFromDoc (demo_row ''a'' ''q'') 0], False, demo_set)"
  by (simp add: ftsLeg_def openFTS_def demo_searcher_def tier_query_def demo_set_def residual_def lazy_def with_residual_def with_scopes_def demo_request_def
      lift_store_def demo_row_def fts_loop.simps fts_covered_def fts_rescue_def fts_flush_def withoutRecords_def covered_def maxLegFetch_def Let_def)

lemma demo_words: "words [104] = [[104]]"
  by (simp add: words.simps isSpace_def Let_def)

lemma demo_titles: "titlePass demo_text demo_searcher demo_request 10 demo_set = Inr ([(hitFromDoc (demo_row ''a'' ''r'') 0)\<lparr>hMatch := ''exact''\<rparr>], False, demo_set)"
  by (simp add: titlePass_def titleTiers_def demo_text_def demo_request_def demo_tier [unfolded demo_request_def] demo_words SortFunc_def titleCmp_def hitFromDoc_def docText_def demo_row_def match_defs cmpOr_def cmpCompare_def foldName_def Let_def)

lemma demo_content: "ftsLeg demo_searcher 4 (fts_query demo_text demo_opts demo_request) [''basic''] \<lparr>lcFetch = 30, lcGroups = 18\<rparr> demo_set [''a:d:r''] =
     Inr ([hitFromDoc (demo_row ''a'' ''q'') 0], False, demo_set)"
  by (simp add: ftsLeg_def openFTS_def demo_searcher_def fts_query_def demo_set_def residual_def lazy_def with_residual_def with_scopes_def demo_request_def
      lift_store_def demo_row_def fts_loop.simps fts_covered_def fts_rescue_def fts_flush_def withoutRecords_def covered_def maxLegFetch_def Let_def
      hitFromDoc_def groupKey_def docId_def)

lemma demo_facts:
  "rqMode demo_request = []" "rqScopes demo_request = [''basic'']" "page_limit demo_request = 10" "soEmbed demo_opts = None" "\<not> empty_set demo_set"
  "shownRecords [(hitFromDoc (demo_row ''a'' ''r'') 0 :: int Hit)\<lparr>hMatch := ''exact''\<rparr>] = [''a:d:r'']"
  by (simp_all add: demo_request_def page_limit_def demo_opts_def empty_set_def demo_set_def shownRecords_def groupKey_def docId_def hitFromDoc_def demo_row_def)

lemma demo_groups:
  "content_part demo_text \<lparr>viFused = rev, viGroups = rev\<rparr> demo_opts demo_searcher demo_request ''fts'' status 9 [''a:d:r''] demo_set =
     Some (Inr (''fts'', status, [\<lparr>gHit = hitFromDoc (demo_row ''a'' ''q'') 0, gPassages = []\<rparr>], False))"
proof -
  have "fts_part demo_text demo_opts demo_searcher demo_request ''fts'' \<lparr>lcFetch = 30, lcGroups = 18\<rparr> [''a:d:r''] demo_set =
      Inr ([hitFromDoc (demo_row ''a'' ''q'') 0], False)"
    by (simp add: fts_part_def mode_defs demo_facts demo_content)
  moreover have "vector_part demo_opts demo_searcher demo_request ''fts'' status cov shown demo_set = Some (Inr (''fts'', status, [], False, demo_set))" for cov shown
    by (simp add: vector_part_def mode_defs)
  ultimately show ?thesis
    by (simp add: content_part_def bind_leg_def Let_def fused_hits_def mode_defs groupHits_def SortFunc_def group_step_def cut_passages_def demo_request_def)
qed

lemma demo_page:
  "\<exists>resp. Search demo_text \<lparr>viFused = rev, viGroups = rev\<rparr> demo_opts demo_searcher demo_request (Some (objectsHostFilter (\<lambda>_. None) demo_objects)) = Some (Inr resp) \<and>
    map record_id (srHits resp) = [(''a'', ''d'', ''r''), (''a'', ''d'', ''q'')]"
proof -
  let ?t = "(hitFromDoc (demo_row ''a'' ''r'') 0 :: int Hit)\<lparr>hMatch := ''exact''\<rparr>"
  have s: "search_reply demo_text \<lparr>viFused = rev, viGroups = rev\<rparr> demo_opts demo_searcher demo_request ''fts'' status ([?t], False, demo_set) =
      Some (Inr \<lparr>srHits = [searchHit demo_text demo_request ?t, group_hit demo_text demo_request \<lparr>gHit = hitFromDoc (demo_row ''a'' ''q'') 0, gPassages = []\<rparr>],
        srMode = ''fts'', srVectorStatus = status, srTruncated = False\<rparr>)" for status
    by (simp add: search_reply_def demo_facts demo_groups mode_defs Let_def)
  have "Search demo_text \<lparr>viFused = rev, viGroups = rev\<rparr> demo_opts demo_searcher demo_request (Some (objectsHostFilter (\<lambda>_. None) demo_objects)) =
      search_reply demo_text \<lparr>viFused = rev, viGroups = rev\<rparr> demo_opts demo_searcher demo_request ''fts'' VectorStatusDisabled ([?t], False, demo_set)"
    by (simp add: Search_def demo_set_new demo_facts demo_titles titlesInScope_def ScopeBasic_def mode_defs bind_leg_def Let_def)
  then show ?thesis using s by (simp add: record_id_def hitFromDoc_def demo_row_def)
qed

theorem search_page_witness:
  "\<exists>resp. Search demo_text \<lparr>viFused = rev, viGroups = rev\<rparr> demo_opts demo_searcher demo_request (Some (objectsHostFilter (\<lambda>_. None) demo_objects)) = Some (Inr resp) \<and>
    map record_id (srHits resp) = [(''a'', ''d'', ''r''), (''a'', ''d'', ''q'')] \<and> page_ok (\<lambda>i. i = ''a'') True demo_request resp"
proof -
  have a: "pred_option (answers (\<lambda>i. i = ''a'')) (Some (objectsHostFilter (\<lambda>_. None) demo_objects))" using objects_filter_answers [OF demo_objects_ok] by simp
  have v: "rearranges (viFused \<lparr>viFused = rev, viGroups = rev\<rparr>)" "rearranges (viGroups \<lparr>viFused = rev, viGroups = rev\<rparr>)" by (simp_all add: rearranges_def)
  have f: "(Some (objectsHostFilter (\<lambda>_. None) demo_objects) \<noteq> None) = True" by simp
  from demo_page obtain resp where r: "Search demo_text \<lparr>viFused = rev, viGroups = rev\<rparr> demo_opts demo_searcher demo_request (Some (objectsHostFilter (\<lambda>_. None) demo_objects)) = Some (Inr resp)"
    "map record_id (srHits resp) = [(''a'', ''d'', ''r''), (''a'', ''d'', ''q'')]" by (elim exE conjE)
  from search_page [OF demo_searcher_sound a v, of demo_text demo_opts demo_request] have "page_ok (\<lambda>i. i = ''a'') True demo_request resp"
    unfolding f r(1) by simp
  then show ?thesis using r by (intro exI conjI)
qed

section \<open>The endpoint\<close>

text \<open>
  \<open>search\<close> (src/internal/server/handlers_search.go) on a decoded body. An answer is a status with an error code, or the
  page. The parsed filter (none, a host filter or the code of its error) and the resolution of the space, with its
  error, are given.
\<close>

definition ValidScope :: "string \<Rightarrow> bool" where
  "ValidScope s \<longleftrightarrow> 0 < length s \<and> length s \<le> 64 \<and>
     list_all (\<lambda>c. (CHR ''a'' \<le> c \<and> c \<le> CHR ''z'') \<or> (CHR ''0'' \<le> c \<and> c \<le> CHR ''9'') \<or> c = CHR ''_'' \<or> c = CHR ''-'') s"

definition maxSearchLimit :: int where "maxSearchLimit = 100"

definition check_mode :: "SearchRequest \<Rightarrow> (nat \<times> string) option" where
  "check_mode req =
     (if rqMode req \<in> {[], SearchModeHybrid, SearchModeFTS, SearchModeVector} then None
      else if rqMode req = SearchModeTitle
      then (if rqScopes req \<noteq> [] \<or> rqPassages req \<noteq> 0 then Some (400, ''request.invalid_field'') else None)
      else Some (400, ''search.bad_mode''))"

definition check_request :: "SearchRequest \<Rightarrow> (nat \<times> string) + SearchRequest" where
  "check_request req =
     (if rqQuery req = [] then Inl (400, ''request.missing_field'')
      else case check_mode req of Some e \<Rightarrow> Inl e | None \<Rightarrow>
        if \<not> list_all ValidScope (rqScopes req) then Inl (400, ''search.bad_scope'')
        else if rqLimit req < 0 then Inl (400, ''request.bad'')
        else let req = (if rqLimit req > maxSearchLimit then req\<lparr>rqLimit := maxSearchLimit\<rparr> else req) in
          if rqMaxData req < -1 then Inl (400, ''request.invalid_field'')
          else if rqPassages req < 0 \<or> MaxSearchPassages < rqPassages req then Inl (400, ''request.invalid_field'')
          else Inr req)"

definition search_status :: "'e search_error \<Rightarrow> nat \<times> string" where
  "search_status e = (case e of
       ErrEmbedderUnavailable \<Rightarrow> (503, ''index.embedder_unavailable'')
     | ErrLeg ErrIndexNotReady \<Rightarrow> (503, ''index.not_ready'')
     | _ \<Rightarrow> (500, ''internal''))"

definition search :: "bool \<Rightarrow> textOps \<Rightarrow> 's visits \<Rightarrow> ('s, 'e) searchOpts \<Rightarrow> ('cl, 's::linorder, 'e) searcher \<Rightarrow> SearchRequest \<Rightarrow>
    string + 'e HostFilter option \<Rightarrow> (nat \<times> string) option \<Rightarrow> ((nat \<times> string) + 's SearchResponse) option" where
  "search enabled tx vi opts st req flt space =
     (case check_request req of
        Inl e \<Rightarrow> Some (Inl e)
      | Inr req \<Rightarrow>
          if \<not> enabled then Some (Inl (409, ''index.disabled''))
          else if rqMode req = SearchModeVector \<and> soEmbed opts = None then Some (Inl (400, ''index.no_embedder''))
          else case flt of Inl code \<Rightarrow> Some (Inl (400, code)) | Inr host \<Rightarrow>
            (case space of Some e \<Rightarrow> Some (Inl e) | None \<Rightarrow>
              (case Search tx vi opts st req host of
                 None \<Rightarrow> None
               | Some (Inl e) \<Rightarrow> Some (Inl (search_status e))
               | Some (Inr res) \<Rightarrow> Some (Inr res))))"

text \<open>
  The search endpoint always answers: with a page of at most 100 hits, at most the limit asked for, only to a request that has a query,
  a known mode, valid scopes and a limit that is not negative; otherwise with 400, 409, 500 or 503, or the error of the
  space's resolution. A missing embedder is a 400 of the request, never an internal error.
\<close>

theorem search_endpoint:
  assumes "engine_sound st" "case flt of Inl code \<Rightarrow> True | Inr host \<Rightarrow> pred_option (answers P) host" "rearranges (viFused vi)" "rearranges (viGroups vi)"
  shows "\<exists>r. search enabled tx vi opts st req flt space = Some r \<and>
    (case r of
       Inl e \<Rightarrow> fst e \<in> {400, 409, 500, 503} \<or> space = Some e
     | Inr resp \<Rightarrow> rqQuery req \<noteq> [] \<and> check_mode req = None \<and> list_all ValidScope (rqScopes req) \<and> 0 \<le> rqLimit req \<and>
         length (srHits resp) \<le> 100 \<and> (0 < rqLimit req \<longrightarrow> int (length (srHits resp)) \<le> rqLimit req)) \<and>
    (soEmbed opts = None \<and> rqMode req = SearchModeVector \<longrightarrow> (\<exists>e. r = Inl e \<and> fst e \<in> {400, 409}))"
proof (cases "check_request req")
  case (Inl e)
  then have "fst e = 400" by (auto simp: check_request_def check_mode_def Let_def split: if_splits option.splits)
  then show ?thesis using Inl by (cases e) (simp add: search_def)
next
  case (Inr req')
  have v: "rqQuery req \<noteq> [] \<and> check_mode req = None \<and> list_all ValidScope (rqScopes req) \<and> 0 \<le> rqLimit req"
    and req': "rqMode req' = rqMode req" "rqLimit req' = min 100 (rqLimit req)"
    using Inr by (auto simp: check_request_def Let_def maxSearchLimit_def split: if_splits option.splits)
  show ?thesis
  proof (cases "enabled \<and> \<not> (rqMode req' = SearchModeVector \<and> soEmbed opts = None) \<and> space = None \<and> (\<exists>host. flt = Inr host)")
    case False
    have "\<exists>e. search enabled tx vi opts st req flt space = Some (Inl e) \<and>
        (fst e \<in> {400, 409} \<or> space = Some e \<and> \<not> (rqMode req' = SearchModeVector \<and> soEmbed opts = None))"
    proof (cases "enabled \<and> \<not> (rqMode req' = SearchModeVector \<and> soEmbed opts = None)")
      case True
      then show ?thesis using True False Inr by (cases flt; cases space) (auto simp: search_def)
    qed (use Inr in \<open>auto simp: search_def\<close>)
    then obtain e where e: "search enabled tx vi opts st req flt space = Some (Inl e)"
      "fst e \<in> {400, 409} \<or> space = Some e \<and> \<not> (rqMode req' = SearchModeVector \<and> soEmbed opts = None)" by blast
    then show ?thesis using req'(1) by (intro exI [of _ "Inl e"]) auto
  next
    case True
    then obtain host where host: "flt = Inr host" by blast
    then have a: "pred_option (answers P) host" using assms(2) by simp
    obtain r where r: "Search tx vi opts st req' host = Some r" "case r of Inl e \<Rightarrow> True | Inr resp \<Rightarrow> page_ok P (host \<noteq> None) req' resp"
      using search_ok [OF assms(1) a assms(3,4), of tx opts req'] by blast
    have s: "search enabled tx vi opts st req flt space = Some (map_sum search_status id r)"
      using True Inr host r(1) by (auto simp: search_def split: sum.splits)
    show ?thesis
    proof (cases r)
      case (Inl e)
      have "fst (search_status e) \<in> {400, 409, 500, 503}" by (auto simp: search_status_def split: search_error.splits leg_error.splits)
      then show ?thesis using s Inl True req'(1) by auto
    next
      case (Inr resp)
      then have "length (srHits resp) \<le> page_limit req'" using r(2) by (simp add: page_ok_def)
      then show ?thesis using s Inr v True req' by (auto simp: page_limit_def min_def split: if_splits)
    qed
  qed
qed

theorem search_endpoint_witness:
  "\<exists>r. search True demo_text \<lparr>viFused = rev, viGroups = rev\<rparr> demo_opts demo_searcher (demo_request\<lparr>rqMode := SearchModeVector\<rparr>)
      (Inr (Some (objectsHostFilter (\<lambda>_. None) demo_objects))) None = Some r \<and> (\<exists>e. r = Inl e \<and> fst e \<in> {400, 409})"
proof -
  have a: "case (Inr (Some (objectsHostFilter (\<lambda>_. None) demo_objects)) :: string + string HostFilter option) of Inl code \<Rightarrow> True
      | Inr host \<Rightarrow> pred_option (answers (\<lambda>i. i = ''a'')) host" using objects_filter_answers [OF demo_objects_ok] by simp
  have v: "rearranges (viFused \<lparr>viFused = rev, viGroups = rev\<rparr>)" "rearranges (viGroups \<lparr>viFused = rev, viGroups = rev\<rparr>)" by (simp_all add: rearranges_def)
  have e: "soEmbed demo_opts = None \<and> rqMode (demo_request\<lparr>rqMode := SearchModeVector\<rparr>) = SearchModeVector" by (simp add: demo_opts_def)
  show ?thesis using search_endpoint [OF demo_searcher_sound a v, of True demo_text demo_opts "demo_request\<lparr>rqMode := SearchModeVector\<rparr>" None] e by blast
qed

end
