(* ===== verification/LocalStore.thy ===== *)
theory LocalStore
  imports AnyEnc
begin

text \<open>
  The device-local store (src/internal/localstore/localstore.go): the names of the local
  collections, the fence that keeps every name inside the \<open>l_\<close> tag, and the operations on
  collections. Local collections share the database of the SDK, so a name that escapes the tag would reach
  synced data.

  The database is any-store, which is not part of the repository: its state is a value of a type variable,
  the calls the sources make are the fields of \<open>anydb\<close>, and what its documentation promises is
  \<open>any_db\<close>, stated over a view that gives the documents and the indexes of each collection. A call
  may fail with any error. A write transaction works on the state it was given: a rollback, or a commit that
  fails, leaves that state.
\<close>

section \<open>Names\<close>

type_synonym Scope = string

definition ScopeAccount :: Scope where "ScopeAccount = ''account''"
definition ScopeSpace :: Scope where "ScopeSpace = ''space''"

definition sep :: char where "sep = CHR ''_''"
definition segAccount :: string where "segAccount = ''a''"
definition segSpace :: string where "segSpace = ''s''"
definition tagPrefix :: string where "tagPrefix = ''l'' @ [sep]"

definition lower_digit :: "char \<Rightarrow> bool" where
  "lower_digit c \<longleftrightarrow> byte_in CHR ''a'' CHR ''z'' c \<or> byte_in CHR ''0'' CHR ''9'' c"

definition nameRe :: "string \<Rightarrow> bool" where
  "nameRe s =
     (case s of
        [] \<Rightarrow> False
      | c # cs \<Rightarrow> lower_digit c \<and> length cs \<le> 63 \<and>
          list_all (\<lambda>x. lower_digit x \<or> x = CHR ''_'' \<or> x = CHR ''-'') cs)"

definition spaceIdRe :: "string \<Rightarrow> bool" where
  "spaceIdRe s \<longleftrightarrow>
     1 \<le> length s \<and> length s \<le> 256 \<and>
     list_all (\<lambda>c. byte_in CHR ''A'' CHR ''Z'' c \<or> lower_digit c \<or> c = CHR ''.'') s"

record Ref =
  rfScope :: Scope
  rfSpaceId :: string
  rfName :: string

datatype bad_ref = BadName string | SpaceIdNotAllowed | BadSpaceId string | BadScope string

definition ParseRef :: "Scope \<Rightarrow> string \<Rightarrow> string \<Rightarrow> bad_ref + Ref" where
  "ParseRef scope spaceId name =
     (if \<not> nameRe name then Inl (BadName name)
      else if scope = ScopeAccount then
        (if spaceId \<noteq> [] then Inl SpaceIdNotAllowed
         else Inr \<lparr>rfScope = ScopeAccount, rfSpaceId = [], rfName = name\<rparr>)
      else if scope = ScopeSpace then
        (if \<not> spaceIdRe spaceId then Inl (BadSpaceId spaceId)
         else Inr \<lparr>rfScope = ScopeSpace, rfSpaceId = spaceId, rfName = name\<rparr>)
      else Inl (BadScope scope))"

definition ok_ref :: "bad_ref + Ref \<Rightarrow> Ref option" where
  "ok_ref r = (case r of Inl _ \<Rightarrow> None | Inr ref \<Rightarrow> Some ref)"

definition ParseStorageName :: "string \<Rightarrow> Ref option" where
  "ParseStorageName s =
     (case cut_prefix tagPrefix s of
        None \<Rightarrow> None
      | Some rest \<Rightarrow>
          if sep \<notin> set rest then None
          else
            let seg = cut_before sep rest; rest = cut_after sep rest in
            if seg = segAccount then ok_ref (ParseRef ScopeAccount [] rest)
            else if seg = segSpace then
              (if sep \<notin> set rest then None
               else ok_ref (ParseRef ScopeSpace (cut_before sep rest) (cut_after sep rest)))
            else None)"

definition StorageName :: "Ref \<Rightarrow> string" where
  "StorageName r =
     (if rfScope r = ScopeSpace then tagPrefix @ segSpace @ [sep] @ rfSpaceId r @ [sep] @ rfName r
      else tagPrefix @ segAccount @ [sep] @ rfName r)"

definition listPrefix :: "Scope \<Rightarrow> string \<Rightarrow> string" where
  "listPrefix scope spaceId =
     (if scope = ScopeAccount then tagPrefix @ segAccount @ [sep]
      else if scope = ScopeSpace then
        (if spaceId = [] then tagPrefix @ segSpace @ [sep]
         else tagPrefix @ segSpace @ [sep] @ spaceId @ [sep])
      else tagPrefix)"

text \<open>The refs that \<open>ParseRef\<close> returns.\<close>

definition ref_ok :: "Ref \<Rightarrow> bool" where
  "ref_ok r \<longleftrightarrow> ParseRef (rfScope r) (rfSpaceId r) (rfName r) = Inr r"

lemma scopes_differ [simp]: "ScopeAccount \<noteq> ScopeSpace" "ScopeSpace \<noteq> ScopeAccount"
  by (simp_all add: ScopeAccount_def ScopeSpace_def)

lemma segs_differ [simp]: "segAccount \<noteq> segSpace" "segSpace \<noteq> segAccount" "sep \<notin> set segAccount" "sep \<notin> set segSpace"
  by (simp_all add: segAccount_def segSpace_def sep_def)

lemma spaceIdRe_no_sep: "spaceIdRe s \<Longrightarrow> sep \<notin> set s"
  by (auto simp: spaceIdRe_def list_all_iff sep_def lower_digit_def)

lemma ParseRef_ok: "ParseRef scope spaceId name = Inr r \<Longrightarrow> ref_ok r"
  by (auto simp: ref_ok_def ParseRef_def split: if_splits)

lemma ok_ref_Some [simp]: "ok_ref x = Some r \<longleftrightarrow> x = Inr r"
  by (cases x) (simp_all add: ok_ref_def)

lemma ref_ok_cases:
  assumes "ref_ok r"
  obtains (account) "r = \<lparr>rfScope = ScopeAccount, rfSpaceId = [], rfName = rfName r\<rparr>" "nameRe (rfName r)"
  | (space) "r = \<lparr>rfScope = ScopeSpace, rfSpaceId = rfSpaceId r, rfName = rfName r\<rparr>" "nameRe (rfName r)"
      "spaceIdRe (rfSpaceId r)"
proof -
  obtain sc sp nm where r: "r = \<lparr>rfScope = sc, rfSpaceId = sp, rfName = nm\<rparr>"
    by (metis Ref.surjective unit.exhaust)
  from assms show thesis
    by (auto simp: r ref_ok_def ParseRef_def intro: that split: if_splits)
qed

lemma ParseStorageName_StorageName: "ref_ok r \<Longrightarrow> ParseStorageName (StorageName r) = Some r"
proof (erule ref_ok_cases)
  assume r: "r = \<lparr>rfScope = ScopeAccount, rfSpaceId = [], rfName = rfName r\<rparr>" and n: "nameRe (rfName r)"
  have "StorageName r = tagPrefix @ (segAccount @ sep # rfName r)"
    by (subst r) (simp add: StorageName_def)
  with n r show ?thesis
    by (simp add: ParseStorageName_def ParseRef_def)
next
  assume r: "r = \<lparr>rfScope = ScopeSpace, rfSpaceId = rfSpaceId r, rfName = rfName r\<rparr>" and n: "nameRe (rfName r)"
    and s: "spaceIdRe (rfSpaceId r)"
  have "StorageName r = tagPrefix @ (segSpace @ sep # (rfSpaceId r @ sep # rfName r))"
    by (subst r) (simp add: StorageName_def)
  with n r s spaceIdRe_no_sep [OF s] show ?thesis
    by (simp add: ParseStorageName_def ParseRef_def)
qed

lemma cut_join: "c \<in> set s \<Longrightarrow> cut_before c s @ c # cut_after c s = s"
  by (induction s) (auto simp: cut_before_def cut_after_def)

lemma ParseStorageName_Some: "ParseStorageName s = Some r \<Longrightarrow> ref_ok r \<and> StorageName r = s"
proof -
  assume p: "ParseStorageName s = Some r"
  then obtain rest where s: "s = tagPrefix @ rest" and sep: "sep \<in> set rest"
    by (auto simp: ParseStorageName_def cut_prefix_Some split: option.splits if_splits)
  note cj = cut_join [OF sep]
  show ?thesis
  proof (cases "cut_before sep rest = segAccount")
    case True
    with p s sep have "ParseRef ScopeAccount [] (cut_after sep rest) = Inr r"
      by (simp add: ParseStorageName_def)
    with True cj s show ?thesis
      by (auto simp: ParseRef_def ref_ok_def StorageName_def split: if_splits)
  next
    case False
    with p s sep have q: "cut_before sep rest = segSpace" "sep \<in> set (cut_after sep rest)"
      "ParseRef ScopeSpace (cut_before sep (cut_after sep rest)) (cut_after sep (cut_after sep rest)) = Inr r"
      by (auto simp: ParseStorageName_def Let_def split: if_splits)
    from q(3) have "r = \<lparr>rfScope = ScopeSpace, rfSpaceId = cut_before sep (cut_after sep rest),
        rfName = cut_after sep (cut_after sep rest)\<rparr>" "ref_ok r"
      by (auto simp: ParseRef_def ref_ok_def split: if_splits)
    with q cj cut_join [OF q(2)] s show ?thesis by (simp add: StorageName_def)
  qed
qed

lemma StorageName_inj: "ref_ok r \<Longrightarrow> ref_ok r' \<Longrightarrow> StorageName r = StorageName r' \<longleftrightarrow> r = r'"
  by (metis ParseStorageName_StorageName option.inject)

text \<open>The names of local collections: the only ones this package addresses.\<close>

definition local_name :: "string \<Rightarrow> bool" where
  "local_name n \<longleftrightarrow> ParseStorageName n \<noteq> None"

lemma local_name_iff: "local_name n \<longleftrightarrow> (\<exists>r. ref_ok r \<and> n = StorageName r)"
  by (auto simp: local_name_def ParseStorageName_StorageName dest: ParseStorageName_Some)

lemma local_name_tagged: "local_name n \<Longrightarrow> has_prefix tagPrefix n"
  by (auto simp: local_name_def ParseStorageName_def has_prefix_def split: option.splits)

definition SinkTarget :: "string \<Rightarrow> Ref option" where
  "SinkTarget storageName = ParseStorageName storageName"

section \<open>The database\<close>

record IndexInfo =
  ixName :: string
  ixFields :: "string list"
  ixUnique :: bool
  ixSparse :: bool

datatype 'e db_err =
  ErrCollectionNotFound | ErrDocExists | ErrDocNotFound | ErrUniqueConstraint
| ErrGroupLimitExceeded | ErrAccumArrayLimitExceeded | ErrAggMemoryLimitExceeded
| ErrIndexMismatch | ErrInvalidIndexName | ErrIndexNotFound
| ErrAggregateIntoSource | ErrDocWithoutId | ErrMergeNoId | ErrMergeMatched | ErrMergeNotMatched
| ErrParse string string string
| ErrOther 'e

text \<open>
  \<open>dbIter\<close> is \<open>Find(filter).Iter\<close>: an error at once, or the documents and the error that ends the
  iteration, if one does. \<open>dbModifyId\<close> is \<open>UpsertId\<close> or \<open>UpdateId\<close>, by its flag; it
  returns the number of documents modified.
\<close>

record ('db, 'v, 'e) anydb =
  dbWriteTx :: "'db \<Rightarrow> 'e db_err option"
  dbReadTx :: "'db \<Rightarrow> 'e db_err option"
  dbCommit :: "'db \<Rightarrow> 'e db_err option"
  dbOpen :: "'db \<Rightarrow> string \<Rightarrow> 'e db_err option"
  dbCreate :: "'db \<Rightarrow> string \<Rightarrow> 'e db_err + 'db"
  dbDrop :: "'db \<Rightarrow> string \<Rightarrow> 'e db_err + 'db"
  dbNames :: "'db \<Rightarrow> 'e db_err + string list"
  dbCount :: "'db \<Rightarrow> string \<Rightarrow> 'v option \<Rightarrow> 'e db_err + nat"
  dbIndexes :: "'db \<Rightarrow> string \<Rightarrow> IndexInfo list"
  dbEnsureIndex :: "'db \<Rightarrow> string \<Rightarrow> IndexInfo list \<Rightarrow> 'e db_err + 'db"
  dbDropIndex :: "'db \<Rightarrow> string \<Rightarrow> string \<Rightarrow> 'e db_err + 'db"
  dbIter :: "'db \<Rightarrow> string \<Rightarrow> 'v option \<Rightarrow> 'e db_err + ('v list \<times> 'e db_err option)"
  dbFindId :: "'db \<Rightarrow> string \<Rightarrow> string \<Rightarrow> 'e db_err + 'v"
  dbInsert :: "'db \<Rightarrow> string \<Rightarrow> 'v list \<Rightarrow> 'e db_err + 'db"
  dbUpsertOne :: "'db \<Rightarrow> string \<Rightarrow> 'v \<Rightarrow> 'e db_err + 'db"
  dbModifyId :: "bool \<Rightarrow> 'db \<Rightarrow> string \<Rightarrow> string \<Rightarrow> 'v \<Rightarrow> 'e db_err + (nat \<times> 'db)"
  dbDeleteId :: "'db \<Rightarrow> string \<Rightarrow> string \<Rightarrow> 'e db_err + 'db"

text \<open>
  The view of a database: for each collection that exists, its documents by the value of their \<open>id\<close> and its indexes.
\<close>

record 'v dbcoll =
  dcDocs :: "'v \<Rightarrow> 'v option"
  dcIndexes :: "IndexInfo list"

type_synonym ('db, 'v) dbview = "'db \<Rightarrow> string \<Rightarrow> 'v dbcoll option"

definition frame :: "('db, 'v) dbview \<Rightarrow> 'db \<Rightarrow> string \<Rightarrow> 'db \<Rightarrow> bool" where
  "frame view d n d' \<longleftrightarrow> (\<forall>m. m \<noteq> n \<longrightarrow> view d' m = view d m)"

text \<open>What any-store promises of the calls that change a collection: they change that collection only.\<close>

definition db_frames :: "('db, 'v, 'e) anydb \<Rightarrow> ('db, 'v) dbview \<Rightarrow> bool" where
  "db_frames D view \<longleftrightarrow>
     (\<forall>d n d'. dbCreate D d n = Inr d' \<longrightarrow> frame view d n d') \<and>
     (\<forall>d n d'. dbDrop D d n = Inr d' \<longrightarrow> frame view d n d') \<and>
     (\<forall>d n ixs d'. dbEnsureIndex D d n ixs = Inr d' \<longrightarrow> frame view d n d') \<and>
     (\<forall>d n i d'. dbDropIndex D d n i = Inr d' \<longrightarrow> frame view d n d') \<and>
     (\<forall>d n vs d'. dbInsert D d n vs = Inr d' \<longrightarrow> frame view d n d') \<and>
     (\<forall>d n v d'. dbUpsertOne D d n v = Inr d' \<longrightarrow> frame view d n d') \<and>
     (\<forall>u d n i m k d'. dbModifyId D u d n i m = Inr (k, d') \<longrightarrow> frame view d n d') \<and>
     (\<forall>d n i d'. dbDeleteId D d n i = Inr d' \<longrightarrow> frame view d n d')"

text \<open>What the calls do to their own collection.\<close>

definition db_opens :: "('db, 'v, 'e) anydb \<Rightarrow> ('db, 'v) dbview \<Rightarrow> bool" where
  "db_opens D view \<longleftrightarrow>
     (\<forall>d n. (dbOpen D d n = None \<longrightarrow> view d n \<noteq> None) \<and>
            (dbOpen D d n = Some ErrCollectionNotFound \<longrightarrow> view d n = None))"

definition db_creates :: "('db, 'v, 'e) anydb \<Rightarrow> ('db, 'v) dbview \<Rightarrow> bool" where
  "db_creates D view \<longleftrightarrow>
     (\<forall>d n d'. dbCreate D d n = Inr d' \<longrightarrow> view d' n = Some \<lparr>dcDocs = Map.empty, dcIndexes = []\<rparr>)"

text \<open>
  An index that was asked for is there with its fields and options, under the name asked for; the database
  derives the name when none is given.
\<close>

definition index_stored :: "IndexInfo \<Rightarrow> IndexInfo list \<Rightarrow> bool" where
  "index_stored ix ixs \<longleftrightarrow>
     (\<exists>ix' \<in> set ixs. ixFields ix' = ixFields ix \<and> ixUnique ix' = ixUnique ix \<and> ixSparse ix' = ixSparse ix \<and>
        (ixName ix \<noteq> [] \<longrightarrow> ixName ix' = ixName ix))"

definition db_ensures :: "('db, 'v, 'e) anydb \<Rightarrow> ('db, 'v) dbview \<Rightarrow> bool" where
  "db_ensures D view \<longleftrightarrow>
     (\<forall>d n ixs d'. dbEnsureIndex D d n ixs = Inr d' \<longrightarrow>
        map_option dcDocs (view d' n) = map_option dcDocs (view d n) \<and>
        (\<forall>c. view d' n = Some c \<longrightarrow> (\<forall>ix \<in> set ixs. index_stored ix (dcIndexes c))))"

definition db_indexes :: "('db, 'v, 'e) anydb \<Rightarrow> ('db, 'v) dbview \<Rightarrow> bool" where
  "db_indexes D view \<longleftrightarrow>
     (\<forall>d n c. view d n = Some c \<longrightarrow> dbIndexes D d n = dcIndexes c \<and> (\<forall>ix \<in> set (dcIndexes c). ixFields ix \<noteq> []))"

definition doc_id :: "'v anyenc \<Rightarrow> 'v \<Rightarrow> 'v option" where
  "doc_id enc v = vget enc v [''id'']"

definition db_iterates :: "'v anyenc \<Rightarrow> ('db, 'v, 'e) anydb \<Rightarrow> ('db, 'v) dbview \<Rightarrow> bool" where
  "db_iterates enc D view \<longleftrightarrow>
     (\<forall>d n vs. dbIter D d n None = Inr (vs, None) \<longrightarrow>
        (\<forall>v \<in> set vs. vtyp enc v = TypeObject \<and> doc_id enc v \<noteq> None) \<and>
        distinct (map (\<lambda>v. the (doc_id enc v)) vs) \<and>
        map_option dcDocs (view d n) = Some (map_of (map (\<lambda>v. (the (doc_id enc v), v)) vs)))"

definition db_upserts :: "'v anyenc \<Rightarrow> ('db, 'v, 'e) anydb \<Rightarrow> ('db, 'v) dbview \<Rightarrow> bool" where
  "db_upserts enc D view \<longleftrightarrow>
     (\<forall>d n v d'. dbUpsertOne D d n v = Inr d' \<longrightarrow>
        (\<exists>c i. view d n = Some c \<and> doc_id enc v = Some i \<and> view d' n = Some (c\<lparr>dcDocs := (dcDocs c)(i \<mapsto> v)\<rparr>))) \<and>
     (\<forall>d n v. dbUpsertOne D d n v = Inl ErrDocWithoutId \<longrightarrow> doc_id enc v = None)"

definition db_deletes :: "(string \<Rightarrow> 'v) \<Rightarrow> ('db, 'v, 'e) anydb \<Rightarrow> ('db, 'v) dbview \<Rightarrow> bool" where
  "db_deletes str D view \<longleftrightarrow>
     (\<forall>d n i d'. dbDeleteId D d n i = Inr d' \<longrightarrow>
        (\<exists>c. view d n = Some c \<and> dcDocs c (str i) \<noteq> None \<and> view d' n = Some (c\<lparr>dcDocs := (dcDocs c)(str i := None)\<rparr>))) \<and>
     (\<forall>d n i. dbDeleteId D d n i = Inl ErrDocNotFound \<longrightarrow> map_option (\<lambda>c. dcDocs c (str i)) (view d n) \<in> {None, Some None})"

definition any_db :: "'v anyenc \<Rightarrow> (string \<Rightarrow> 'v) \<Rightarrow> ('db, 'v, 'e) anydb \<Rightarrow> ('db, 'v) dbview \<Rightarrow> bool" where
  "any_db enc str D view \<longleftrightarrow>
     db_frames D view \<and> db_opens D view \<and> db_creates D view \<and> db_ensures D view \<and> db_indexes D view \<and>
     db_iterates enc D view \<and> db_upserts enc D view \<and> db_deletes str D view"

section \<open>Operations on collections\<close>

datatype bad_export =
  NotGzip | BadManifest | ManifestNotObject | WrongFormat string int | BadCollection nat bad_ref
| StorageNameMismatch nat | NegativeCount nat | IndexWithoutFields nat
| Truncated nat nat | BadDocument nat | DocNotObject nat | DocWithoutId nat | DataPastEnd | BadTail

datatype 'e ls_error = ErrBadName bad_ref | ErrNotFound | ErrNotLocal string | ErrBadExport bad_export | ErrDb "'e db_err"

record Info =
  inRef :: Ref
  inCount :: nat
  inIndexes :: "IndexInfo list"

definition Ensure ::
  "('db, 'v, 'e) anydb \<Rightarrow> Ref \<Rightarrow> IndexInfo list \<Rightarrow> 'db \<Rightarrow> ('e db_err + bool) \<times> 'db" where
  "Ensure D ref indexes d =
     (let name = StorageName ref in
      case dbWriteTx D d of
        Some e \<Rightarrow> (Inl e, d)
      | None \<Rightarrow>
          (case (case dbOpen D d name of
                   None \<Rightarrow> Inr (False, d)
                 | Some ErrCollectionNotFound \<Rightarrow>
                     (case dbCreate D d name of Inl e \<Rightarrow> Inl e | Inr d1 \<Rightarrow> Inr (True, d1))
                 | Some e \<Rightarrow> Inl e) of
             Inl e \<Rightarrow> (Inl e, d)
           | Inr (created, d1) \<Rightarrow>
               (case (if indexes \<noteq> [] then dbEnsureIndex D d1 name indexes else Inr d1) of
                  Inl e \<Rightarrow> (Inl e, d)
                | Inr d2 \<Rightarrow>
                    (case dbCommit D d2 of Some e \<Rightarrow> (Inl e, d) | None \<Rightarrow> (Inr created, d2)))))"

definition Collection :: "('db, 'v, 'e) anydb \<Rightarrow> Ref \<Rightarrow> 'db \<Rightarrow> 'e ls_error option" where
  "Collection D ref d =
     (case dbOpen D d (StorageName ref) of
        Some ErrCollectionNotFound \<Rightarrow> Some ErrNotFound
      | Some e \<Rightarrow> Some (ErrDb e)
      | None \<Rightarrow> None)"

definition Drop :: "('db, 'v, 'e) anydb \<Rightarrow> Ref \<Rightarrow> 'db \<Rightarrow> 'e ls_error option \<times> 'db" where
  "Drop D ref d =
     (case Collection D ref d of
        Some e \<Rightarrow> (Some e, d)
      | None \<Rightarrow> (case dbDrop D d (StorageName ref) of Inl e \<Rightarrow> (Some (ErrDb e), d) | Inr d' \<Rightarrow> (None, d')))"

fun list_infos :: "('db, 'v, 'e) anydb \<Rightarrow> 'db \<Rightarrow> string \<Rightarrow> string list \<Rightarrow> 'e ls_error + Info list" where
  "list_infos D d pfx [] = Inr []"
| "list_infos D d pfx (name # names) =
     (if \<not> has_prefix pfx name then list_infos D d pfx names
      else case ParseStorageName name of
        None \<Rightarrow> list_infos D d pfx names
      | Some ref \<Rightarrow>
          (case dbOpen D d name of
             Some ErrCollectionNotFound \<Rightarrow> list_infos D d pfx names
           | Some e \<Rightarrow> Inl (ErrDb e)
           | None \<Rightarrow>
               (case dbCount D d name None of
                  Inl e \<Rightarrow> Inl (ErrDb e)
                | Inr count \<Rightarrow>
                    (case list_infos D d pfx names of
                       Inl e \<Rightarrow> Inl e
                     | Inr infos \<Rightarrow>
                         Inr (\<lparr>inRef = ref, inCount = count, inIndexes = dbIndexes D d name\<rparr> # infos)))))"

definition List :: "('db, 'v, 'e) anydb \<Rightarrow> Scope \<Rightarrow> string \<Rightarrow> 'db \<Rightarrow> 'e ls_error + Info list" where
  "List D scope spaceId d =
     (if scope \<noteq> [] \<and> scope \<noteq> ScopeAccount \<and> scope \<noteq> ScopeSpace then Inl (ErrBadName (BadScope scope))
      else if scope = ScopeAccount \<and> spaceId \<noteq> [] then Inl (ErrBadName SpaceIdNotAllowed)
      else if spaceId \<noteq> [] \<and> \<not> spaceIdRe spaceId then Inl (ErrBadName (BadSpaceId spaceId))
      else case dbNames D d of
        Inl e \<Rightarrow> Inl (ErrDb e)
      | Inr names \<Rightarrow> list_infos D d (listPrefix scope spaceId) names)"

section \<open>What the operations do\<close>

lemma frame_refl [simp]: "frame view d n d"
  by (simp add: frame_def)

lemma frame_trans: "frame view d n d1 \<Longrightarrow> frame view d1 n d2 \<Longrightarrow> frame view d n d2"
  by (simp add: frame_def)

lemma db_framesD:
  assumes "db_frames D view"
  shows "dbCreate D d n = Inr d' \<Longrightarrow> frame view d n d'"
    and "dbDrop D d n = Inr d' \<Longrightarrow> frame view d n d'"
    and "dbEnsureIndex D d n ixs = Inr d' \<Longrightarrow> frame view d n d'"
    and "dbDropIndex D d n i = Inr d' \<Longrightarrow> frame view d n d'"
    and "dbInsert D d n vs = Inr d' \<Longrightarrow> frame view d n d'"
    and "dbUpsertOne D d n v = Inr d' \<Longrightarrow> frame view d n d'"
    and "dbModifyId D u d n i m = Inr (k, d') \<Longrightarrow> frame view d n d'"
    and "dbDeleteId D d n i = Inr d' \<Longrightarrow> frame view d n d'"
  using assms unfolding db_frames_def by metis+

lemma any_dbD:
  assumes "any_db enc str D view"
  shows "db_frames D view" "db_opens D view" "db_creates D view" "db_ensures D view" "db_indexes D view"
    "db_iterates enc D view" "db_upserts enc D view" "db_deletes str D view"
  using assms by (simp_all add: any_db_def)

lemma Ensure_error: "Ensure D ref ixs d = (Inl e, d') \<Longrightarrow> d' = d"
  by (auto simp: Ensure_def Let_def split: option.splits db_err.splits sum.splits if_splits)

lemma Ensure_ok:
  assumes "Ensure D ref ixs d = (Inr created, d')"
  obtains (opened) d1 where "dbOpen D d (StorageName ref) = None" "\<not> created" "d1 = d"
      "(if ixs \<noteq> [] then dbEnsureIndex D d1 (StorageName ref) ixs else Inr d1) = Inr d'"
  | (made) d1 where "dbOpen D d (StorageName ref) = Some ErrCollectionNotFound" "created"
      "dbCreate D d (StorageName ref) = Inr d1"
      "(if ixs \<noteq> [] then dbEnsureIndex D d1 (StorageName ref) ixs else Inr d1) = Inr d'"
  using assms by (auto simp: Ensure_def Let_def split: option.splits db_err.splits sum.splits if_splits)

lemma Ensure_frame: "db_frames D view \<Longrightarrow> Ensure D ref ixs d = (r, d') \<Longrightarrow> frame view d (StorageName ref) d'"
proof (cases r)
  case (Inl e)
  moreover assume "Ensure D ref ixs d = (r, d')"
  ultimately show ?thesis using Ensure_error by (metis frame_refl)
next
  case (Inr created)
  moreover assume fr: "db_frames D view" and "Ensure D ref ixs d = (r, d')"
  ultimately have "Ensure D ref ixs d = (Inr created, d')" by simp
  then show ?thesis
    by (cases rule: Ensure_ok)
      (auto split: if_splits intro: frame_trans [OF db_framesD(1) [OF fr]] db_framesD(1,3) [OF fr])
qed

definition docs_of :: "('db, 'v) dbview \<Rightarrow> 'db \<Rightarrow> string \<Rightarrow> 'v \<Rightarrow> 'v option" where
  "docs_of view d n = (case view d n of None \<Rightarrow> Map.empty | Some c \<Rightarrow> dcDocs c)"

text \<open>
  What a query with a filter finds: the documents the condition holds of, which is a relation of the query
  language.
\<close>

definition db_selects :: "('v \<Rightarrow> 'v \<Rightarrow> bool) \<Rightarrow> ('db, 'v, 'e) anydb \<Rightarrow> ('db, 'v) dbview \<Rightarrow> bool" where
  "db_selects holds D view \<longleftrightarrow>
     (\<forall>d n f vs. dbIter D d n (Some f) = Inr (vs, None) \<longrightarrow> set vs = {v \<in> ran (docs_of view d n). holds f v})"

lemma docs_of_map: "map_option dcDocs (view d n) = Some m \<Longrightarrow> docs_of view d n = m"
  by (auto simp: docs_of_def)

lemma docs_of_cong: "map_option dcDocs (view d n) = map_option dcDocs (view d' n') \<Longrightarrow> docs_of view d n = docs_of view d' n'"
  by (auto simp: docs_of_def split: option.splits)

lemma ensured_indexes:
  assumes "db_ensures D view" "(if ixs \<noteq> [] then dbEnsureIndex D d1 n ixs else Inr d1) = Inr d'"
    "map_option dcDocs (view d1 n) = Some m"
  shows "\<exists>co. view d' n = Some co \<and> dcDocs co = m \<and> (\<forall>ix \<in> set ixs. index_stored ix (dcIndexes co))"
proof (cases "ixs = []")
  case False
  with assms(2) have ei: "dbEnsureIndex D d1 n ixs = Inr d'" by simp
  with assms have "map_option dcDocs (view d' n) = Some m" by (simp add: db_ensures_def)
  then obtain co where co: "view d' n = Some co" "dcDocs co = m" by auto
  with ei assms(1) show ?thesis by (simp add: db_ensures_def)
qed (use assms in auto)

lemma Ensure_contents:
  assumes c: "any_db enc str D view" and e: "Ensure D ref ixs d = (Inr created, d')"
  shows "created \<longleftrightarrow> view d (StorageName ref) = None"
    and "\<exists>co. view d' (StorageName ref) = Some co \<and> dcDocs co = docs_of view d (StorageName ref) \<and> (\<forall>ix \<in> set ixs. index_stored ix (dcIndexes co))"
proof -
  let ?n = "StorageName ref"
  note o = any_dbD(2) [OF c, unfolded db_opens_def, rule_format, of d ?n]
  from e show "created \<longleftrightarrow> view d ?n = None"
    by (cases rule: Ensure_ok) (use o in auto)
  from e show "\<exists>co. view d' ?n = Some co \<and> dcDocs co = docs_of view d ?n \<and> (\<forall>ix \<in> set ixs. index_stored ix (dcIndexes co))"
  proof (cases rule: Ensure_ok)
    case (opened d1)
    then obtain co where "view d ?n = Some co" using o by blast
    with ensured_indexes [OF any_dbD(4) [OF c] opened(4), of "docs_of view d ?n"] opened(3) show ?thesis
      by (simp add: docs_of_def)
  next
    case (made d1)
    have "view d ?n = None" using o made(1) by blast
    moreover have "map_option dcDocs (view d1 ?n) = Some Map.empty"
      using any_dbD(3) [OF c] made(3) by (simp add: db_creates_def)
    ultimately show ?thesis using ensured_indexes [OF any_dbD(4) [OF c] made(4)] by (simp add: docs_of_def)
  qed
qed

lemma Drop_frame: "db_frames D view \<Longrightarrow> Drop D ref d = (r, d') \<Longrightarrow> frame view d (StorageName ref) d'"
  by (auto simp: Drop_def db_framesD(2) split: option.splits sum.splits)

subsection \<open>Listing\<close>

definition in_scope :: "Scope \<Rightarrow> string \<Rightarrow> Ref \<Rightarrow> bool" where
  "in_scope scope spaceId r \<longleftrightarrow>
     (scope = [] \<or> rfScope r = scope) \<and> (scope = ScopeSpace \<and> spaceId \<noteq> [] \<longrightarrow> rfSpaceId r = spaceId)"

lemma cut_unique:
  assumes "(c :: char) \<notin> set a" "c \<notin> set b"
  shows "a @ c # x = b @ c # y \<longleftrightarrow> a = b \<and> x = y"
proof
  assume "a @ c # x = b @ c # y"
  then show "a = b \<and> x = y"
    using arg_cong [of "a @ c # x" "b @ c # y" "cut_before c"] cut_before_append [OF assms(1)] cut_before_append [OF assms(2)]
    by (metis append_same_eq same_append_eq list.inject)
qed simp

lemma listPrefix_exact:
  assumes r: "ref_ok r" and sc: "scope \<in> {[], ScopeAccount, ScopeSpace}" and sp: "spaceId = [] \<or> spaceIdRe spaceId"
  shows "has_prefix (listPrefix scope spaceId) (StorageName r) \<longleftrightarrow> in_scope scope spaceId r"
  using r
proof (cases rule: ref_ok_cases)
  case account
  have n: "StorageName r = tagPrefix @ ''a'' @ sep # rfName r"
    by (subst account) (simp add: StorageName_def segAccount_def)
  have "rfScope r = ScopeAccount" by (subst account) simp
  with sc n show ?thesis
    by (auto simp: listPrefix_def in_scope_def has_prefix_iff segAccount_def segSpace_def ScopeAccount_def ScopeSpace_def)
next
  case space
  have n: "StorageName r = tagPrefix @ ''s'' @ sep # rfSpaceId r @ sep # rfName r"
    by (subst space) (simp add: StorageName_def segSpace_def)
  have rs: "rfScope r = ScopeSpace" by (subst space) simp
  have "(\<exists>t. rfSpaceId r @ sep # rfName r = spaceId @ sep # t) \<longleftrightarrow> rfSpaceId r = spaceId" if "spaceId \<noteq> []"
    using cut_unique [OF spaceIdRe_no_sep [OF space(3)]] spaceIdRe_no_sep [of spaceId] sp that by auto
  with sc n rs show ?thesis
    by (auto simp: listPrefix_def in_scope_def has_prefix_iff segAccount_def segSpace_def ScopeAccount_def ScopeSpace_def)
qed

lemma list_infos_refs:
  "list_infos D d pfx names = Inr infos \<Longrightarrow>
     map inRef infos = List.map_filter ParseStorageName
       (filter (\<lambda>n. has_prefix pfx n \<and> (local_name n \<longrightarrow> dbOpen D d n = None)) names)"
proof (induction D d pfx names arbitrary: infos rule: list_infos.induct)
  case (2 D d pfx name names)
  then show ?case
    by (auto simp: List.map_filter_simps local_name_def split: if_splits option.splits db_err.splits sum.splits)
qed (simp add: List.map_filter_simps)

lemma list_infos_opened:
  "list_infos D d pfx names = Inr infos \<Longrightarrow> n \<in> set names \<Longrightarrow> has_prefix pfx n \<Longrightarrow> local_name n \<Longrightarrow>
     dbOpen D d n \<in> {None, Some ErrCollectionNotFound}"
  by (induction D d pfx names arbitrary: infos rule: list_infos.induct)
    (auto simp: local_name_def split: if_splits option.splits db_err.splits sum.splits)

lemma List_exact:
  assumes db: "db_opens D view" and ls: "List D scope spaceId d = Inr infos"
    and names: "dbNames D d = Inr names" "set names = {n. view d n \<noteq> None}"
  shows "inRef ` set infos = {r. ref_ok r \<and> view d (StorageName r) \<noteq> None \<and> in_scope scope spaceId r}"
proof -
  let ?p = "listPrefix scope spaceId"
  from ls names have li: "list_infos D d ?p names = Inr infos" and sc: "scope \<in> {[], ScopeAccount, ScopeSpace}"
    and sp: "spaceId = [] \<or> spaceIdRe spaceId"
    by (auto simp: List_def split: if_splits)
  have op: "view d n \<noteq> None \<longleftrightarrow> dbOpen D d n = None" if "n \<in> set names" "has_prefix ?p n" "local_name n" for n
    using list_infos_opened [OF li that] db by (auto simp: db_opens_def)
  have "r \<in> inRef ` set infos \<longleftrightarrow> ref_ok r \<and> view d (StorageName r) \<noteq> None \<and> in_scope scope spaceId r" for r
  proof -
    have "r \<in> inRef ` set infos \<longleftrightarrow> r \<in> set (map inRef infos)" by simp
    also have "\<dots> \<longleftrightarrow> (\<exists>n \<in> set names. has_prefix ?p n \<and> (local_name n \<longrightarrow> dbOpen D d n = None) \<and> ParseStorageName n = Some r)"
      unfolding list_infos_refs [OF li] in_map_filter by auto
    also have "\<dots> \<longleftrightarrow> ref_ok r \<and> view d (StorageName r) \<noteq> None \<and> has_prefix ?p (StorageName r)"
    proof
      assume "\<exists>n \<in> set names. has_prefix ?p n \<and> (local_name n \<longrightarrow> dbOpen D d n = None) \<and> ParseStorageName n = Some r"
      then show "ref_ok r \<and> view d (StorageName r) \<noteq> None \<and> has_prefix ?p (StorageName r)"
        using names(2) by (auto dest!: ParseStorageName_Some)
    next
      assume r: "ref_ok r \<and> view d (StorageName r) \<noteq> None \<and> has_prefix ?p (StorageName r)"
      then have "local_name (StorageName r)" "ParseStorageName (StorageName r) = Some r" "StorageName r \<in> set names"
        using names(2) by (auto simp: local_name_iff ParseStorageName_StorageName)
      with op r show "\<exists>n \<in> set names. has_prefix ?p n \<and> (local_name n \<longrightarrow> dbOpen D d n = None) \<and> ParseStorageName n = Some r"
        by (intro bexI [of _ "StorageName r"]) auto
    qed
    finally show ?thesis using listPrefix_exact [OF _ sc sp] by auto
  qed
  then show ?thesis by auto
qed

text \<open>
  Local collections are named without ambiguity and inside the tag. A reference that \<open>ParseRef\<close> accepts is read
  back from its storage name, two of them never share a storage name, and a storage name that is read as
  a reference is the storage name of that reference, so it carries the \<open>l_\<close> tag: no other name can be
  addressed, neither by a request nor inside a pipeline.
\<close>

theorem storage_names:
  "(\<exists>scope spaceId name. ParseRef scope spaceId name = Inr r) \<and> SinkTarget s = Some r' \<Longrightarrow>
     ParseStorageName (StorageName r) = Some r \<and>
     (StorageName r = StorageName r' \<longleftrightarrow> r = r') \<and>
     StorageName r' = s \<and> has_prefix tagPrefix s"
proof (elim exE conjE)
  fix scope spaceId name
  assume r: "ParseRef scope spaceId name = Inr r" and r': "SinkTarget s = Some r'"
  have ok: "ref_ok r" by (rule ParseRef_ok [OF r])
  have ok': "ref_ok r'" "StorageName r' = s"
    using ParseStorageName_Some r' by (auto simp: SinkTarget_def)
  then have "has_prefix tagPrefix s"
    using local_name_tagged local_name_iff by blast
  with ok' ParseStorageName_StorageName [OF ok] StorageName_inj [OF ok ok'(1)] show ?thesis by simp
qed

theorem storage_names_witness:
  "ParseStorageName (StorageName \<lparr>rfScope = ScopeSpace, rfSpaceId = ''bafy.net'', rfName = ''my_notes''\<rparr>) =
     Some \<lparr>rfScope = ScopeSpace, rfSpaceId = ''bafy.net'', rfName = ''my_notes''\<rparr> \<and>
   StorageName \<lparr>rfScope = ScopeSpace, rfSpaceId = ''bafy.net'', rfName = ''my_notes''\<rparr> = ''l_s_bafy.net_my_notes'' \<and>
   has_prefix tagPrefix ''l_a_notes'' \<and>
   SinkTarget ''objects'' = None \<and> SinkTarget ''l_x_notes'' = None"
proof -
  have 1: "ParseRef ScopeSpace ''bafy.net'' ''my_notes'' =
      Inr \<lparr>rfScope = ScopeSpace, rfSpaceId = ''bafy.net'', rfName = ''my_notes''\<rparr>"
    by code_simp
  have 2: "SinkTarget ''l_a_notes'' = Some \<lparr>rfScope = ScopeAccount, rfSpaceId = [], rfName = ''notes''\<rparr>"
    by code_simp
  have 3: "StorageName \<lparr>rfScope = ScopeSpace, rfSpaceId = ''bafy.net'', rfName = ''my_notes''\<rparr> = ''l_s_bafy.net_my_notes''"
    by code_simp
  have 4: "SinkTarget ''objects'' = None" "SinkTarget ''l_x_notes'' = None"
    by code_simp+
  show ?thesis using storage_names [OF conjI, OF _ 2] 1 3 4 by metis
qed

end
