(* ===== verification/LocalExport.thy ===== *)
theory LocalExport
  imports LocalStore
begin

text \<open>
  Export and import of the local store (src/internal/localstore/export.go): the manifest, the stream of documents
  behind it, and its reading back.

  The value codec, the value stream and gzip are not part of the repository. A value is made and read with the
  functions of \<open>codec\<close>; a stream is the list of values written to it, and a reader gives a list of values and
  the way it ends. \<open>codec_laws\<close> is what the codec promises: a field of an object that was made is read back.
\<close>

section \<open>Values\<close>

text \<open>\<open>cdInt\<close> is \<open>GetInt(path...)\<close>, \<open>cdFloat\<close> is \<open>int64(GetFloat64(path...))\<close>.\<close>

record 'v codec =
  cdEnc :: "'v anyenc"
  cdInt :: "'v \<Rightarrow> string list \<Rightarrow> int"
  cdFloat :: "'v \<Rightarrow> string list \<Rightarrow> int"
  mkString :: "string \<Rightarrow> 'v"
  mkInt :: "int \<Rightarrow> 'v"
  mkFloat :: "int \<Rightarrow> 'v"
  mkBool :: "bool \<Rightarrow> 'v"
  mkArray :: "'v list \<Rightarrow> 'v"
  mkObject :: "(string \<times> 'v) list \<Rightarrow> 'v"

text \<open>Numbers are 64-bit floats: whole numbers below \<open>2 ^ 53\<close> survive.\<close>

definition exact_int :: "int \<Rightarrow> bool" where
  "exact_int i \<longleftrightarrow> \<bar>i\<bar> < 2 ^ 53"

definition codec_laws :: "'v codec \<Rightarrow> bool" where
  "codec_laws C \<longleftrightarrow>
     (\<forall>fs. vtyp (cdEnc C) (mkObject C fs) = TypeObject) \<and>
     (\<forall>s. vstr (cdEnc C) (mkString C s) [] = s) \<and>
     (\<forall>i. exact_int i \<longrightarrow> cdInt C (mkInt C i) [] = i) \<and>
     (\<forall>i. exact_int i \<longrightarrow> cdFloat C (mkFloat C i) [] = i) \<and>
     (\<forall>b. vbool (cdEnc C) (mkBool C b) [] = b) \<and>
     (\<forall>vs. varray (cdEnc C) (mkArray C vs) [] = vs) \<and>
     (\<forall>fs k. vstr (cdEnc C) (mkObject C fs) [k] = (case map_of fs k of None \<Rightarrow> [] | Some v \<Rightarrow> vstr (cdEnc C) v [])) \<and>
     (\<forall>fs k. cdInt C (mkObject C fs) [k] = (case map_of fs k of None \<Rightarrow> 0 | Some v \<Rightarrow> cdInt C v [])) \<and>
     (\<forall>fs k. cdFloat C (mkObject C fs) [k] = (case map_of fs k of None \<Rightarrow> 0 | Some v \<Rightarrow> cdFloat C v [])) \<and>
     (\<forall>fs k. vbool (cdEnc C) (mkObject C fs) [k] = (case map_of fs k of None \<Rightarrow> False | Some v \<Rightarrow> vbool (cdEnc C) v [])) \<and>
     (\<forall>fs k. varray (cdEnc C) (mkObject C fs) [k] = (case map_of fs k of None \<Rightarrow> [] | Some v \<Rightarrow> varray (cdEnc C) v []))"

section \<open>The manifest\<close>

definition FormatName :: string where "FormatName = ''any-local-export''"
definition FormatVersion :: int where "FormatVersion = 1"
definition importChunk :: nat where "importChunk = 256"

record ManifestIndex =
  miName :: string
  miFields :: "string list"
  miUnique :: bool
  miSparse :: bool

record ManifestCollection =
  mcRef :: Ref
  mcStorageName :: string
  mcCount :: int
  mcIndexes :: "ManifestIndex list"

record Manifest =
  mfFormat :: string
  mfVersion :: int
  mfExportedAt :: int
  mfCollections :: "ManifestCollection list"

definition index_value :: "'v codec \<Rightarrow> ManifestIndex \<Rightarrow> 'v" where
  "index_value C ix =
     mkObject C
       [(''name'', mkString C (miName ix)),
        (''fields'', mkArray C (map (mkString C) (miFields ix))),
        (''unique'', mkBool C (miUnique ix)),
        (''sparse'', mkBool C (miSparse ix))]"

definition collection_value :: "'v codec \<Rightarrow> ManifestCollection \<Rightarrow> 'v" where
  "collection_value C mc =
     mkObject C
       ([(''scope'', mkString C (rfScope (mcRef mc)))] @
        (if rfSpaceId (mcRef mc) \<noteq> [] then [(''spaceId'', mkString C (rfSpaceId (mcRef mc)))] else []) @
        [(''name'', mkString C (rfName (mcRef mc))),
         (''storageName'', mkString C (mcStorageName mc)),
         (''count'', mkInt C (mcCount mc)),
         (''indexes'', mkArray C (map (index_value C) (mcIndexes mc)))])"

definition manifestValue :: "'v codec \<Rightarrow> Manifest \<Rightarrow> 'v" where
  "manifestValue C m =
     mkObject C
       [(''format'', mkString C (mfFormat m)),
        (''version'', mkInt C (mfVersion m)),
        (''exportedAt'', mkFloat C (mfExportedAt m)),
        (''collections'', mkArray C (map (collection_value C) (mfCollections m)))]"

fun indexes_of :: "'v codec \<Rightarrow> nat \<Rightarrow> 'v list \<Rightarrow> bad_export + ManifestIndex list" where
  "indexes_of C i [] = Inr []"
| "indexes_of C i (iv # ivs) =
     (let ix = \<lparr>miName = vstr (cdEnc C) iv [''name''],
                miFields = map (\<lambda>f. vstr (cdEnc C) f []) (varray (cdEnc C) iv [''fields'']),
                miUnique = vbool (cdEnc C) iv [''unique''], miSparse = vbool (cdEnc C) iv [''sparse'']\<rparr> in
      if miFields ix = [] then Inl (IndexWithoutFields i)
      else (case indexes_of C i ivs of Inl e \<Rightarrow> Inl e | Inr ixs \<Rightarrow> Inr (ix # ixs)))"

definition collection_of :: "'v codec \<Rightarrow> nat \<Rightarrow> 'v \<Rightarrow> bad_export + ManifestCollection" where
  "collection_of C i cv =
     (let str = (\<lambda>k. vstr (cdEnc C) cv [k]) in
      case ParseRef (str ''scope'') (str ''spaceId'') (str ''name'') of
        Inl e \<Rightarrow> Inl (BadCollection i e)
      | Inr ref \<Rightarrow>
          if str ''storageName'' \<noteq> StorageName ref then Inl (StorageNameMismatch i)
          else if cdInt C cv [''count''] < 0 then Inl (NegativeCount i)
          else (case indexes_of C i (varray (cdEnc C) cv [''indexes'']) of
                  Inl e \<Rightarrow> Inl e
                | Inr ixs \<Rightarrow>
                    Inr \<lparr>mcRef = ref, mcStorageName = str ''storageName'', mcCount = cdInt C cv [''count''],
                         mcIndexes = ixs\<rparr>))"

fun collections_of :: "'v codec \<Rightarrow> nat \<Rightarrow> 'v list \<Rightarrow> bad_export + ManifestCollection list" where
  "collections_of C i [] = Inr []"
| "collections_of C i (cv # cvs) =
     (case collection_of C i cv of
        Inl e \<Rightarrow> Inl e
      | Inr mc \<Rightarrow> (case collections_of C (i + 1) cvs of Inl e \<Rightarrow> Inl e | Inr mcs \<Rightarrow> Inr (mc # mcs)))"

definition manifestOf :: "'v codec \<Rightarrow> 'v \<Rightarrow> bad_export + Manifest" where
  "manifestOf C v =
     (if vtyp (cdEnc C) v \<noteq> TypeObject then Inl ManifestNotObject
      else
        let format = vstr (cdEnc C) v [''format'']; version = cdInt C v [''version''] in
        if format \<noteq> FormatName \<or> version \<noteq> FormatVersion then Inl (WrongFormat format version)
        else (case collections_of C 0 (varray (cdEnc C) v [''collections'']) of
                Inl e \<Rightarrow> Inl e
              | Inr mcs \<Rightarrow>
                  Inr \<lparr>mfFormat = format, mfVersion = version, mfExportedAt = cdFloat C v [''exportedAt''],
                       mfCollections = mcs\<rparr>))"

definition mc_ok :: "ManifestCollection \<Rightarrow> bool" where
  "mc_ok mc \<longleftrightarrow>
     ref_ok (mcRef mc) \<and> mcStorageName mc = StorageName (mcRef mc) \<and> 0 \<le> mcCount mc \<and> exact_int (mcCount mc) \<and>
     (\<forall>ix \<in> set (mcIndexes mc). miFields ix \<noteq> [])"

definition manifest_ok :: "Manifest \<Rightarrow> bool" where
  "manifest_ok m \<longleftrightarrow>
     mfFormat m = FormatName \<and> mfVersion m = FormatVersion \<and> exact_int (mfExportedAt m) \<and>
     (\<forall>mc \<in> set (mfCollections m). mc_ok mc)"

lemma codec_reads:
  assumes "codec_laws C"
  shows "vtyp (cdEnc C) (mkObject C fs) = TypeObject"
    and "vstr (cdEnc C) (mkString C s) [] = s"
    and "exact_int i \<Longrightarrow> cdInt C (mkInt C i) [] = i"
    and "exact_int i \<Longrightarrow> cdFloat C (mkFloat C i) [] = i"
    and "vbool (cdEnc C) (mkBool C b) [] = b"
    and "varray (cdEnc C) (mkArray C vs) [] = vs"
    and "vstr (cdEnc C) (mkObject C fs) [k] = (case map_of fs k of None \<Rightarrow> [] | Some v \<Rightarrow> vstr (cdEnc C) v [])"
    and "cdInt C (mkObject C fs) [k] = (case map_of fs k of None \<Rightarrow> 0 | Some v \<Rightarrow> cdInt C v [])"
    and "cdFloat C (mkObject C fs) [k] = (case map_of fs k of None \<Rightarrow> 0 | Some v \<Rightarrow> cdFloat C v [])"
    and "vbool (cdEnc C) (mkObject C fs) [k] = (case map_of fs k of None \<Rightarrow> False | Some v \<Rightarrow> vbool (cdEnc C) v [])"
    and "varray (cdEnc C) (mkObject C fs) [k] = (case map_of fs k of None \<Rightarrow> [] | Some v \<Rightarrow> varray (cdEnc C) v [])"
  using assms by (simp_all add: codec_laws_def)

lemma indexes_of_value:
  "codec_laws C \<Longrightarrow> (\<forall>ix \<in> set ixs. miFields ix \<noteq> []) \<Longrightarrow> indexes_of C i (map (index_value C) ixs) = Inr ixs"
  by (induction ixs) (simp_all add: index_value_def codec_reads Let_def comp_def)

lemma collection_of_value: "codec_laws C \<Longrightarrow> mc_ok mc \<Longrightarrow> collection_of C i (collection_value C mc) = Inr mc"
proof -
  assume C: "codec_laws C" and ok: "mc_ok mc"
  have "ParseRef (rfScope (mcRef mc)) (rfSpaceId (mcRef mc)) (rfName (mcRef mc)) = Inr (mcRef mc)"
    using ok by (simp add: mc_ok_def ref_ok_def)
  moreover have "indexes_of C i (map (index_value C) (mcIndexes mc)) = Inr (mcIndexes mc)"
    using ok by (intro indexes_of_value [OF C]) (simp add: mc_ok_def)
  ultimately show ?thesis using ok
    by (cases "rfSpaceId (mcRef mc) = []")
      (simp_all add: collection_of_def collection_value_def codec_reads [OF C] mc_ok_def Let_def)
qed

lemma collections_of_value:
  "codec_laws C \<Longrightarrow> (\<forall>mc \<in> set mcs. mc_ok mc) \<Longrightarrow> collections_of C i (map (collection_value C) mcs) = Inr mcs"
  by (induction mcs arbitrary: i) (simp_all add: collection_of_value)

lemma manifestOf_value: "codec_laws C \<Longrightarrow> manifest_ok m \<Longrightarrow> manifestOf C (manifestValue C m) = Inr m"
  by (simp add: manifestOf_def manifestValue_def codec_reads manifest_ok_def collections_of_value
      exact_int_def FormatVersion_def Let_def)

text \<open>Every collection of a manifest that is read is a local one.\<close>

lemma collection_of_ok: "collection_of C i cv = Inr mc \<Longrightarrow> ref_ok (mcRef mc) \<and> 0 \<le> mcCount mc"
  by (auto simp: collection_of_def Let_def split: sum.splits if_splits intro: ParseRef_ok)

lemma collections_of_ok:
  "collections_of C i cvs = Inr mcs \<Longrightarrow> mc \<in> set mcs \<Longrightarrow> ref_ok (mcRef mc) \<and> 0 \<le> mcCount mc"
  by (induction C i cvs arbitrary: mcs rule: collections_of.induct)
    (auto dest: collection_of_ok split: sum.splits)

lemma manifestOf_ok:
  "manifestOf C v = Inr m \<Longrightarrow> mc \<in> set (mfCollections m) \<Longrightarrow> ref_ok (mcRef mc) \<and> 0 \<le> mcCount mc"
  by (auto simp: manifestOf_def Let_def dest: collections_of_ok split: sum.splits if_splits)

section \<open>Export\<close>

text \<open>
  The sections of an export, in the order of the first occurrence of each reference. \<open>seen\<close> holds the storage names
  met so far.
\<close>

definition to_manifest_index :: "IndexInfo \<Rightarrow> ManifestIndex" where
  "to_manifest_index info =
     \<lparr>miName = ixName info, miFields = ixFields info, miUnique = ixUnique info, miSparse = ixSparse info\<rparr>"

fun export_sections :: "('db, 'v, 'e) anydb \<Rightarrow> 'db \<Rightarrow> string list \<Rightarrow> Ref list \<Rightarrow> 'e ls_error + ManifestCollection list" where
  "export_sections D d seen [] = Inr []"
| "export_sections D d seen (ref # refs) =
     (let name = StorageName ref in
      if name \<in> set seen then export_sections D d seen refs
      else case dbOpen D d name of
        Some ErrCollectionNotFound \<Rightarrow> Inl ErrNotFound
      | Some e \<Rightarrow> Inl (ErrDb e)
      | None \<Rightarrow>
          (case dbCount D d name None of
             Inl e \<Rightarrow> Inl (ErrDb e)
           | Inr count \<Rightarrow>
               (case export_sections D d (name # seen) refs of
                  Inl e \<Rightarrow> Inl e
                | Inr mcs \<Rightarrow>
                    Inr (\<lparr>mcRef = ref, mcStorageName = name, mcCount = int count,
                          mcIndexes = map to_manifest_index (dbIndexes D d name)\<rparr> # mcs))))"

text \<open>
  The stream writer: \<open>xwWrite vs\<close> is the error of writing the last value of \<open>vs\<close> after the ones before it,
  \<open>xwClose\<close> the error of \<open>Flush\<close> or of closing gzip.
\<close>

record ('v, 'e) xwriter =
  xwWrite :: "'v list \<Rightarrow> 'e db_err option"
  xwClose :: "'v list \<Rightarrow> 'e db_err option"

datatype 'e export_error = ExportFailed "'e ls_error" | SectionFailed string "'e db_err" | CountedIterated string int nat

fun write_docs :: "('v, 'e) xwriter \<Rightarrow> 'v list \<Rightarrow> 'v list \<Rightarrow> 'e db_err + 'v list" where
  "write_docs W out [] = Inr out"
| "write_docs W out (v # vs) =
     (case xwWrite W (out @ [v]) of Some e \<Rightarrow> Inl e | None \<Rightarrow> write_docs W (out @ [v]) vs)"

definition exportSection ::
  "('db, 'v, 'e) anydb \<Rightarrow> ('v, 'e) xwriter \<Rightarrow> 'db \<Rightarrow> string \<Rightarrow> 'v list \<Rightarrow> 'e db_err + (nat \<times> 'v list)" where
  "exportSection D W d name out =
     (case dbIter D d name None of
        Inl e \<Rightarrow> Inl e
      | Inr (vs, stop) \<Rightarrow>
          (case write_docs W out vs of
             Inl e \<Rightarrow> Inl e
           | Inr out' \<Rightarrow> (case stop of Some e \<Rightarrow> Inl e | None \<Rightarrow> Inr (length vs, out'))))"

fun write_sections ::
  "('db, 'v, 'e) anydb \<Rightarrow> ('v, 'e) xwriter \<Rightarrow> 'db \<Rightarrow> ManifestCollection list \<Rightarrow> 'v list \<Rightarrow> 'e export_error + 'v list" where
  "write_sections D W d [] out = Inr out"
| "write_sections D W d (mc # mcs) out =
     (case exportSection D W d (mcStorageName mc) out of
        Inl e \<Rightarrow> Inl (SectionFailed (mcStorageName mc) e)
      | Inr (n, out') \<Rightarrow>
          if int n \<noteq> mcCount mc then Inl (CountedIterated (mcStorageName mc) (mcCount mc) n)
          else write_sections D W d mcs out')"

definition Export ::
  "'v codec \<Rightarrow> ('db, 'v, 'e) anydb \<Rightarrow> ('v, 'e) xwriter \<Rightarrow> int \<Rightarrow> Ref list \<Rightarrow> 'db \<Rightarrow> 'e export_error + 'v list" where
  "Export C D W now refs d =
     (case dbReadTx D d of
        Some e \<Rightarrow> Inl (ExportFailed (ErrDb e))
      | None \<Rightarrow>
          (case export_sections D d [] refs of
             Inl e \<Rightarrow> Inl (ExportFailed e)
           | Inr mcs \<Rightarrow>
               let m = \<lparr>mfFormat = FormatName, mfVersion = FormatVersion, mfExportedAt = now, mfCollections = mcs\<rparr>;
                   mv = manifestValue C m in
               (case xwWrite W [mv] of
                  Some e \<Rightarrow> Inl (ExportFailed (ErrDb e))
                | None \<Rightarrow>
                    (case write_sections D W d mcs [mv] of
                       Inl e \<Rightarrow> Inl e
                     | Inr out \<Rightarrow>
                         (case xwClose W out of Some e \<Rightarrow> Inl (ExportFailed (ErrDb e)) | None \<Rightarrow> Inr out)))))"

section \<open>Import\<close>

datatype rd_end = RdEOF | RdUnexpectedEOF | RdBad

datatype 'e import_error = ImportError Ref "'e ls_error" | ImportPlain "'e ls_error"

definition importIndexes :: "ManifestIndex list \<Rightarrow> IndexInfo list" where
  "importIndexes ixs =
     map (\<lambda>ix. \<lparr>ixName = miName ix, ixFields = miFields ix, ixUnique = miUnique ix, ixSparse = miSparse ix\<rparr>) ixs"

text \<open>The documents of one transaction: \<open>k\<close> of them, \<open>i\<close> the number of the next one.\<close>

fun import_docs ::
  "'v codec \<Rightarrow> ('db, 'v, 'e) anydb \<Rightarrow> rd_end \<Rightarrow> string \<Rightarrow> nat \<Rightarrow> nat \<Rightarrow> nat \<Rightarrow> 'v list \<Rightarrow> 'db \<Rightarrow> 'e ls_error + ('v list \<times> 'db)" where
  "import_docs C D rend name count i 0 vs d = Inr (vs, d)"
| "import_docs C D rend name count i (Suc k) [] d =
     Inl (ErrBadExport (if rend = RdBad then BadDocument i else Truncated i count))"
| "import_docs C D rend name count i (Suc k) (v # vs) d =
     (if vtyp (cdEnc C) v \<noteq> TypeObject then Inl (ErrBadExport (DocNotObject i))
      else case dbUpsertOne D d name v of
        Inl ErrDocWithoutId \<Rightarrow> Inl (ErrBadExport (DocWithoutId i))
      | Inl e \<Rightarrow> Inl (ErrDb e)
      | Inr d' \<Rightarrow> import_docs C D rend name count (i + 1) k vs d')"

function import_section ::
  "'v codec \<Rightarrow> ('db, 'v, 'e) anydb \<Rightarrow> rd_end \<Rightarrow> string \<Rightarrow> nat \<Rightarrow> nat \<Rightarrow> 'v list \<Rightarrow> 'db \<Rightarrow> ('e ls_error + 'v list) \<times> 'db" where
  "import_section C D rend name count dn vs d =
     (if count \<le> dn then (Inr vs, d)
      else
        let n = min (count - dn) importChunk in
        case dbWriteTx D d of
          Some e \<Rightarrow> (Inl (ErrDb e), d)
        | None \<Rightarrow>
            (case import_docs C D rend name count dn n vs d of
               Inl e \<Rightarrow> (Inl e, d)
             | Inr (vs', d') \<Rightarrow>
                 (case dbCommit D d' of
                    Some e \<Rightarrow> (Inl (ErrDb e), d)
                  | None \<Rightarrow> import_section C D rend name count (dn + n) vs' d')))"
  by pat_completeness auto
termination
  by (relation "measure (\<lambda>(C, D, rend, name, count, dn, vs, d). count - dn)") (auto simp: importChunk_def)

declare import_section.simps [simp del]

definition importSection ::
  "'v codec \<Rightarrow> ('db, 'v, 'e) anydb \<Rightarrow> rd_end \<Rightarrow> string \<Rightarrow> nat \<Rightarrow> 'v list \<Rightarrow> 'db \<Rightarrow> ('e ls_error + 'v list) \<times> 'db" where
  "importSection C D rend name count vs d = import_section C D rend name count 0 vs d"

definition import_collection ::
  "'v codec \<Rightarrow> ('db, 'v, 'e) anydb \<Rightarrow> rd_end \<Rightarrow> ManifestCollection \<Rightarrow> 'v list \<Rightarrow> 'db \<Rightarrow> ('e ls_error + (Info \<times> 'v list)) \<times> 'db" where
  "import_collection C D rend mc vs d =
     (let ref = mcRef mc in
      case Ensure D ref (importIndexes (mcIndexes mc)) d of
        (Inl e, d1) \<Rightarrow> (Inl (ErrDb e), d1)
      | (Inr _, d1) \<Rightarrow>
          (case Collection D ref d1 of
             Some e \<Rightarrow> (Inl e, d1)
           | None \<Rightarrow>
               (case importSection C D rend (StorageName ref) (nat (mcCount mc)) vs d1 of
                  (Inl e, d2) \<Rightarrow> (Inl e, d2)
                | (Inr vs', d2) \<Rightarrow>
                    (case dbCount D d2 (StorageName ref) None of
                       Inl e \<Rightarrow> (Inl (ErrDb e), d2)
                     | Inr count \<Rightarrow>
                         (Inr (\<lparr>inRef = ref, inCount = count, inIndexes = dbIndexes D d2 (StorageName ref)\<rparr>, vs'), d2)))))"

fun import_collections ::
  "'v codec \<Rightarrow> ('db, 'v, 'e) anydb \<Rightarrow> rd_end \<Rightarrow> ManifestCollection list \<Rightarrow> Info list \<Rightarrow> 'v list \<Rightarrow> 'db \<Rightarrow>
     Info list \<times> 'e import_error option \<times> 'db" where
  "import_collections C D rend [] out vs d =
     (out,
      (if vs \<noteq> [] then Some (ImportPlain (ErrBadExport DataPastEnd))
       else if rend \<noteq> RdEOF then Some (ImportPlain (ErrBadExport BadTail)) else None), d)"
| "import_collections C D rend (mc # mcs) out vs d =
     (case import_collection C D rend mc vs d of
        (Inl e, d') \<Rightarrow> (out, Some (ImportError (mcRef mc) e), d')
      | (Inr (info, vs'), d') \<Rightarrow> import_collections C D rend mcs (out @ [info]) vs' d')"

text \<open>\<open>file\<close> is what the reader makes of the body: nothing when it is not gzip.\<close>

definition Import ::
  "'v codec \<Rightarrow> ('db, 'v, 'e) anydb \<Rightarrow> ('v list \<times> rd_end) option \<Rightarrow> 'db \<Rightarrow> Info list \<times> 'e import_error option \<times> 'db" where
  "Import C D file d =
     (case file of
        None \<Rightarrow> ([], Some (ImportPlain (ErrBadExport NotGzip)), d)
      | Some ([], _) \<Rightarrow> ([], Some (ImportPlain (ErrBadExport BadManifest)), d)
      | Some (mv # vs, rend) \<Rightarrow>
          (case manifestOf C mv of
             Inl e \<Rightarrow> ([], Some (ImportPlain (ErrBadExport e)), d)
           | Inr m \<Rightarrow> import_collections C D rend (mfCollections m) [] vs d))"

section \<open>Import stays inside the fence\<close>

lemma import_docs_frame:
  "db_frames D view \<Longrightarrow> import_docs C D rend name count i k vs d = Inr (vs', d') \<Longrightarrow> frame view d name d'"
proof (induction C D rend name count i k vs d rule: import_docs.induct)
  case (3 C D rend name count i k v vs d)
  then obtain d1 where d1: "dbUpsertOne D d name v = Inr d1" "import_docs C D rend name count (i + 1) k vs d1 = Inr (vs', d')"
    "vtyp (cdEnc C) v = TypeObject"
    by (auto split: if_splits sum.splits db_err.splits)
  with 3 show ?case by (auto intro: frame_trans [OF db_framesD(6)])
qed auto

lemma import_section_frame:
  "db_frames D view \<Longrightarrow> import_section C D rend name count dn vs d = (r, d') \<Longrightarrow> frame view d name d'"
proof (induction C D rend name count dn vs d arbitrary: r d' rule: import_section.induct)
  case (1 C D rend name count dn vs d)
  show ?case
  proof (cases "count \<le> dn")
    case True
    with "1.prems" show ?thesis by (simp add: import_section.simps)
  next
    case False
    note IH = "1.IH" [OF False refl]
    have eq: "import_section C D rend name count dn vs d =
       (case dbWriteTx D d of
          Some e \<Rightarrow> (Inl (ErrDb e), d)
        | None \<Rightarrow>
            (case import_docs C D rend name count dn (min (count - dn) importChunk) vs d of
               Inl e \<Rightarrow> (Inl e, d)
             | Inr (vs', d') \<Rightarrow>
                 (case dbCommit D d' of
                    Some e \<Rightarrow> (Inl (ErrDb e), d)
                  | None \<Rightarrow> import_section C D rend name count (dn + min (count - dn) importChunk) vs' d')))"
      using False by (subst import_section.simps) (simp add: Let_def)
    from "1.prems"(2) show ?thesis unfolding eq
      by (auto split: option.splits sum.splits prod.splits
        intro: IH [OF _ _ refl _ "1.prems"(1)] frame_trans [OF import_docs_frame [OF "1.prems"(1)]])
  qed
qed

lemma import_collection_frame:
  assumes fr: "db_frames D view" and i: "import_collection C D rend mc vs d = (r, d')"
  shows "frame view d (StorageName (mcRef mc)) d'"
proof -
  obtain r1 d1 where e: "Ensure D (mcRef mc) (importIndexes (mcIndexes mc)) d = (r1, d1)" by fastforce
  obtain r2 d2 where s: "importSection C D rend (StorageName (mcRef mc)) (nat (mcCount mc)) vs d1 = (r2, d2)" by fastforce
  from Ensure_frame [OF fr e] have 1: "frame view d (StorageName (mcRef mc)) d1" .
  from s have "frame view d1 (StorageName (mcRef mc)) d2"
    unfolding importSection_def by (rule import_section_frame [OF fr])
  with 1 have 2: "frame view d (StorageName (mcRef mc)) d2" by (rule frame_trans)
  have "d' = d1 \<or> d' = d2"
    using i e s by (auto simp: import_collection_def Let_def split: sum.splits option.splits prod.splits)
  with 1 2 show ?thesis by auto
qed

text \<open>What a change inside the fence leaves alone.\<close>

definition fenced :: "('db, 'v) dbview \<Rightarrow> 'db \<Rightarrow> 'db \<Rightarrow> bool" where
  "fenced view d d' \<longleftrightarrow> (\<forall>n. \<not> local_name n \<longrightarrow> view d' n = view d n)"

lemma fenced_refl [simp]: "fenced view d d"
  by (simp add: fenced_def)

lemma fenced_trans: "fenced view d d1 \<Longrightarrow> fenced view d1 d2 \<Longrightarrow> fenced view d d2"
  by (simp add: fenced_def)

lemma frame_fenced: "frame view d (StorageName r) d' \<Longrightarrow> ref_ok r \<Longrightarrow> fenced view d d'"
  unfolding frame_def fenced_def using local_name_iff by blast

lemma import_collections_fenced:
  "db_frames D view \<Longrightarrow> (\<forall>mc \<in> set mcs. ref_ok (mcRef mc)) \<Longrightarrow>
     import_collections C D rend mcs out vs d = (infos, e, d') \<Longrightarrow> fenced view d d'"
proof (induction C D rend mcs out vs d arbitrary: infos e d' rule: import_collections.induct)
  case (2 C D rend mc mcs out vs d)
  obtain r d1 where i: "import_collection C D rend mc vs d = (r, d1)" by fastforce
  from frame_fenced [OF import_collection_frame [OF "2.prems"(1) i]] "2.prems"(2)
  have f: "fenced view d d1" by simp
  show ?case
  proof (cases r)
    case (Inl x)
    with "2.prems"(3) i f show ?thesis by simp
  next
    case (Inr p)
    obtain info vs' where p: "p = (info, vs')" by fastforce
    with "2.prems"(3) i Inr have "import_collections C D rend mcs (out @ [info]) vs' d1 = (infos, e, d')" by simp
    from "2.IH" [OF i [symmetric] Inr p [symmetric] "2.prems"(1) _ this] "2.prems"(2) have "fenced view d1 d'" by simp
    with f show ?thesis by (rule fenced_trans)
  qed
qed simp

lemma Import_fenced:
  assumes "db_frames D view" "Import C D file d = (infos, e, d')"
  shows "fenced view d d'"
proof -
  have "\<forall>mc \<in> set (mfCollections m). ref_ok (mcRef mc)" if "manifestOf C mv = Inr m" for mv m
    using manifestOf_ok [OF that] by blast
  with assms show ?thesis
    by (auto simp: Import_def split: option.splits list.splits prod.splits sum.splits
      intro: import_collections_fenced)
qed

section \<open>What an import of an export does\<close>

definition overlay :: "'v anyenc \<Rightarrow> ('v \<Rightarrow> 'v option) \<Rightarrow> 'v list \<Rightarrow> 'v \<Rightarrow> 'v option" where
  "overlay enc m vs = foldl (\<lambda>m v. m(the (doc_id enc v) \<mapsto> v)) m vs"

lemma overlay_append: "overlay enc m (xs @ ys) = overlay enc (overlay enc m xs) ys"
  by (simp add: overlay_def)

lemma overlay_map_of:
  "distinct (map (\<lambda>v. the (doc_id enc v)) vs) \<Longrightarrow>
     overlay enc m vs = m ++ map_of (map (\<lambda>v. (the (doc_id enc v), v)) vs)"
proof (induction vs arbitrary: m)
  case (Cons v vs)
  then have ni: "the (doc_id enc v) \<notin> dom (map_of (map (\<lambda>v. (the (doc_id enc v), v)) vs))"
    by (auto simp: dom_map_of_conv_image_fst)
  have "overlay enc m (v # vs) = overlay enc (m(the (doc_id enc v) \<mapsto> v)) vs"
    by (simp add: overlay_def)
  also have "\<dots> = m(the (doc_id enc v) \<mapsto> v) ++ map_of (map (\<lambda>v. (the (doc_id enc v), v)) vs)"
    using Cons by simp
  also have "\<dots> = m ++ map_of (map (\<lambda>v. (the (doc_id enc v), v)) (v # vs))"
    using ni by (simp add: map_add_upd_left)
  finally show ?case .
qed (simp add: overlay_def)

definition importable :: "'v anyenc \<Rightarrow> 'v list \<Rightarrow> bool" where
  "importable enc vs \<longleftrightarrow> (\<forall>v \<in> set vs. vtyp enc v = TypeObject \<and> doc_id enc v \<noteq> None)"

definition upserted :: "'v anyenc \<Rightarrow> ('db, 'v) dbview \<Rightarrow> string \<Rightarrow> 'v list \<Rightarrow> 'db \<Rightarrow> 'db \<Rightarrow> bool" where
  "upserted enc view name vs d d' \<longleftrightarrow>
     frame view d name d' \<and> docs_of view d' name = overlay enc (docs_of view d name) vs"

lemma upserted_append: "upserted enc view n xs d d1 \<Longrightarrow> upserted enc view n ys d1 d2 \<Longrightarrow> upserted enc view n (xs @ ys) d d2"
  by (auto simp: upserted_def overlay_append intro: frame_trans)

lemma upserted_one:
  assumes "any_db enc str D view" "dbUpsertOne D d n v = Inr d'"
  shows "upserted enc view n [v] d d'"
  using assms db_framesD(6) [OF any_dbD(1) [OF assms(1)] assms(2)] any_dbD(7) [OF assms(1)]
  by (fastforce simp: upserted_def overlay_def docs_of_def db_upserts_def)

lemma import_docs_contents:
  assumes "any_db (cdEnc C) str D view"
  shows "importable (cdEnc C) xs \<Longrightarrow>
     (case import_docs C D rend n count i (length xs) (xs @ rest) d of
        Inl e \<Rightarrow> \<exists>x. e = ErrDb x
      | Inr (vs, d') \<Rightarrow> vs = rest \<and> upserted (cdEnc C) view n xs d d')"
proof (induction xs arbitrary: i d)
  case Nil
  show ?case by (simp add: upserted_def overlay_def)
next
  case (Cons v xs)
  then have v: "vtyp (cdEnc C) v = TypeObject" "doc_id (cdEnc C) v \<noteq> None" and xs: "importable (cdEnc C) xs"
    by (auto simp: importable_def)
  show ?case
  proof (cases "dbUpsertOne D d n v")
    case (Inl e)
    moreover have "e \<noteq> ErrDocWithoutId"
      using any_dbD(7) [OF assms] Inl v(2) by (auto simp: db_upserts_def)
    ultimately show ?thesis using v by (cases e) simp_all
  next
    case (Inr d1)
    with Cons.IH [OF xs, of d1 "i + 1"] v upserted_append [OF upserted_one [OF assms Inr]] show ?thesis
      by (auto split: sum.splits prod.splits)
  qed
qed

lemma import_section_contents:
  assumes db: "any_db (cdEnc C) str D view"
  shows "importable (cdEnc C) xs \<Longrightarrow> length xs = count - dn \<Longrightarrow> vs = xs @ rest \<Longrightarrow>
     (case import_section C D rend n count dn vs d of
        (Inl e, d') \<Rightarrow> \<exists>x. e = ErrDb x
      | (Inr vs, d') \<Rightarrow> vs = rest \<and> upserted (cdEnc C) view n xs d d')"
proof (induction "count - dn" arbitrary: dn xs vs d rule: less_induct)
  case less
  show ?case
  proof (cases "count \<le> dn")
    case True
    with less.prems show ?thesis by (simp add: import_section.simps upserted_def overlay_def)
  next
    case False
    let ?k = "min (count - dn) importChunk"
    let ?a = "take ?k xs" and ?b = "drop ?k xs"
    have k: "0 < ?k" using False by (simp add: importChunk_def)
    have a: "importable (cdEnc C) ?a" "importable (cdEnc C) ?b" "length ?a = ?k"
      using less.prems by (auto simp: importable_def dest: in_set_takeD in_set_dropD)
    have vs: "vs = ?a @ (?b @ rest)" using less.prems by simp
    have eq: "import_section C D rend n count dn vs d =
       (case dbWriteTx D d of
          Some e \<Rightarrow> (Inl (ErrDb e), d)
        | None \<Rightarrow>
            (case import_docs C D rend n count dn ?k (?a @ (?b @ rest)) d of
               Inl e \<Rightarrow> (Inl e, d)
             | Inr (vs', d') \<Rightarrow>
                 (case dbCommit D d' of
                    Some e \<Rightarrow> (Inl (ErrDb e), d)
                  | None \<Rightarrow> import_section C D rend n count (dn + ?k) vs' d')))"
      unfolding vs [symmetric] using False by (subst import_section.simps) (simp add: Let_def)
    note docs = import_docs_contents [OF db a(1), where rend = rend and n = n and count = count and i = dn and rest = "?b @ rest" and d = d, unfolded a(3)]
    show ?thesis
    proof (cases "import_docs C D rend n count dn ?k (?a @ (?b @ rest)) d")
      case (Inl e)
      with docs show ?thesis unfolding eq by (auto split: option.splits)
    next
      case (Inr p)
      then obtain d1 where i: "import_docs C D rend n count dn ?k (?a @ (?b @ rest)) d = Inr (?b @ rest, d1)"
        and u: "upserted (cdEnc C) view n ?a d d1"
        using docs by (cases p) auto
      have "count - (dn + ?k) < count - dn" "length ?b = count - (dn + ?k)"
        using False k less.prems(2) by auto
      from less.hyps [OF this(1) a(2) this(2) refl, of d1] upserted_append [OF u, of ?b]
      have "case import_section C D rend n count (dn + ?k) (?b @ rest) d1 of
          (Inl e, d') \<Rightarrow> \<exists>x. e = ErrDb x
        | (Inr vs, d') \<Rightarrow> vs = rest \<and> upserted (cdEnc C) view n xs d d'"
        by (auto split: prod.splits sum.splits)
      with i show ?thesis unfolding eq by (auto split: option.splits)
    qed
  qed
qed

lemma Ensure_docs:
  assumes db: "any_db enc str D view" and e: "Ensure D ref ixs d = (Inr created, d')"
  shows "upserted enc view (StorageName ref) [] d d'" and "view d' (StorageName ref) \<noteq> None"
  using Ensure_contents(2) [OF db e] Ensure_frame [OF any_dbD(1) [OF db] e]
  by (auto simp: upserted_def overlay_def docs_of_def)

lemma import_collection_contents:
  assumes db: "any_db (cdEnc C) str D view" and xs: "importable (cdEnc C) xs" "mcCount mc = int (length xs)"
  shows "case import_collection C D rend mc (xs @ rest) d of
           (Inl e, d') \<Rightarrow> \<exists>x. e = ErrDb x
         | (Inr (info, vs), d') \<Rightarrow>
             vs = rest \<and> inRef info = mcRef mc \<and> upserted (cdEnc C) view (StorageName (mcRef mc)) xs d d'"
proof -
  let ?n = "StorageName (mcRef mc)"
  obtain r d1 where e: "Ensure D (mcRef mc) (importIndexes (mcIndexes mc)) d = (r, d1)" by fastforce
  show ?thesis
  proof (cases r)
    case (Inl x)
    with e show ?thesis by (simp add: import_collection_def Let_def)
  next
    case (Inr created)
    note en = Ensure_docs [OF db e [unfolded Inr]]
    have coll: "Collection D (mcRef mc) d1 \<noteq> Some ErrNotFound"
      using any_dbD(2) [OF db] en(2) by (auto simp: Collection_def db_opens_def split: option.splits db_err.splits)
    have sec: "case importSection C D rend ?n (nat (mcCount mc)) (xs @ rest) d1 of
        (Inl e, d') \<Rightarrow> \<exists>x. e = ErrDb x
      | (Inr vs, d') \<Rightarrow> vs = rest \<and> upserted (cdEnc C) view ?n xs d1 d'"
      unfolding importSection_def using xs by (intro import_section_contents [OF db]) auto
    have "\<exists>x. z = ErrDb x" if "Collection D (mcRef mc) d1 = Some z" for z
      using coll that by (auto simp: Collection_def split: option.splits db_err.splits)
    with e sec upserted_append [OF en(1), of xs] show ?thesis
      by (auto simp: import_collection_def Let_def Inr split: option.splits sum.splits prod.splits)
  qed
qed

definition section_ok :: "'v codec \<Rightarrow> ManifestCollection \<Rightarrow> 'v list \<Rightarrow> bool" where
  "section_ok C mc vs \<longleftrightarrow> importable (cdEnc C) vs \<and> mcCount mc = int (length vs)"

lemma import_collections_contents:
  assumes db: "any_db (cdEnc C) str D view"
  shows "list_all2 (section_ok C) mcs vss \<Longrightarrow> distinct (map (\<lambda>mc. StorageName (mcRef mc)) mcs) \<Longrightarrow>
     import_collections C D RdEOF mcs out (concat vss) d = (infos, e, d') \<Longrightarrow>
     (case e of
        None \<Rightarrow>
          map inRef infos = map inRef out @ map mcRef mcs \<and>
          (\<forall>n. docs_of view d' n =
             (case map_of (zip (map (\<lambda>mc. StorageName (mcRef mc)) mcs) vss) n of
                None \<Rightarrow> docs_of view d n | Some vs \<Rightarrow> overlay (cdEnc C) (docs_of view d n) vs))
      | Some (ImportError r x) \<Rightarrow> r \<in> mcRef ` set mcs \<and> (\<exists>y. x = ErrDb y)
      | Some (ImportPlain x) \<Rightarrow> False)"
proof (induction mcs vss arbitrary: out d rule: list_all2_induct)
  case Nil
  then show ?case by auto
next
  case (Cons mc mcs vs vss)
  let ?n = "\<lambda>mc. StorageName (mcRef mc)"
  obtain r d1 where i: "import_collection C D RdEOF mc (vs @ concat vss) d = (r, d1)" by fastforce
  from Cons.hyps(1) have "importable (cdEnc C) vs" "mcCount mc = int (length vs)" by (simp_all add: section_ok_def)
  note con = import_collection_contents [OF db this, where rend = RdEOF and rest = "concat vss" and d = d, unfolded i]
  show ?case
  proof (cases r)
    case (Inl x)
    with Cons.prems(2) i con show ?thesis by auto
  next
    case (Inr p)
    with con obtain info where p: "r = Inr (info, concat vss)" and info: "inRef info = mcRef mc"
      and u: "upserted (cdEnc C) view (?n mc) vs d d1"
      by (cases p) auto
    with Cons.prems(2) i have rest: "import_collections C D RdEOF mcs (out @ [info]) (concat vss) d1 = (infos, e, d')"
      by simp
    from Cons.prems(1) have dis: "distinct (map ?n mcs)" and new: "?n mc \<notin> set (map ?n mcs)" by simp_all
    have len: "length (map ?n mcs) = length vss" using Cons.hyps(2) by (simp add: list_all2_lengthD)
    have none: "map_of (zip (map ?n mcs) vss) (?n mc) = None"
      using new map_of_zip_is_None [OF len] by blast
    have d1: "docs_of view d1 m = (if m = ?n mc then overlay (cdEnc C) (docs_of view d m) vs else docs_of view d m)" for m
      using u by (simp add: upserted_def frame_def docs_of_def)
    note IH = Cons.IH [OF dis rest]
    show ?thesis
    proof (cases e)
      case None
      with IH info none show ?thesis by (simp add: d1 split: option.splits)
    next
      case (Some z)
      with IH show ?thesis by (auto split: import_error.splits)
    qed
  qed
qed

lemma export_sections_refs:
  "export_sections D d seen refs = Inr mcs \<Longrightarrow> map mcRef mcs = dedup_by StorageName seen refs"
  by (induction D d seen refs arbitrary: mcs rule: export_sections.induct)
    (auto simp: Let_def split: if_splits option.splits db_err.splits sum.splits)

lemma export_sections_found:
  "export_sections D d seen refs = Inr mcs \<Longrightarrow>
     (\<forall>mc \<in> set mcs. mcStorageName mc = StorageName (mcRef mc) \<and> dbOpen D d (StorageName (mcRef mc)) = None \<and>
     (\<exists>k. dbCount D d (StorageName (mcRef mc)) None = Inr k \<and> mcCount mc = int k) \<and>
     mcIndexes mc = map to_manifest_index (dbIndexes D d (StorageName (mcRef mc))))"
proof (induction D d seen refs arbitrary: mcs rule: export_sections.induct)
  case (2 D d seen ref refs)
  show ?case
  proof (cases "StorageName ref \<in> set seen")
    case True
    with 2 show ?thesis by (simp add: Let_def)
  next
    case False
    with "2.prems" obtain k mcs' where s: "dbOpen D d (StorageName ref) = None"
      "dbCount D d (StorageName ref) None = Inr k" "export_sections D d (StorageName ref # seen) refs = Inr mcs'"
      "mcs = \<lparr>mcRef = ref, mcStorageName = StorageName ref, mcCount = int k,
         mcIndexes = map to_manifest_index (dbIndexes D d (StorageName ref))\<rparr> # mcs'"
      by (auto simp: Let_def split: option.splits db_err.splits sum.splits)
    with "2.IH"(2) [OF refl False s(1) s(2) s(3)] show ?thesis by simp
  qed
qed simp

lemma export_sections_ok:
  "export_sections D d seen refs = Inr mcs \<Longrightarrow> mc \<in> set mcs \<Longrightarrow>
     mcStorageName mc = StorageName (mcRef mc) \<and> mcRef mc \<in> set refs \<and> dbOpen D d (StorageName (mcRef mc)) = None \<and>
     (\<exists>k. dbCount D d (StorageName (mcRef mc)) None = Inr k \<and> mcCount mc = int k) \<and>
     mcIndexes mc = map to_manifest_index (dbIndexes D d (StorageName (mcRef mc)))"
proof -
  assume s: "export_sections D d seen refs = Inr mcs" and mc: "mc \<in> set mcs"
  from mc have "mcRef mc \<in> set (map mcRef mcs)" by simp
  then have "mcRef mc \<in> set refs"
    unfolding export_sections_refs [OF s] by (rule subsetD [OF dedup_by_subset])
  with export_sections_found [OF s] mc show ?thesis by simp
qed

lemma write_docs_out: "write_docs W out vs = Inr out' \<Longrightarrow> out' = out @ vs"
  by (induction W out vs rule: write_docs.induct) (auto split: option.splits)

lemma write_sections_out:
  "write_sections D W d mcs out = Inr out' \<Longrightarrow>
     \<exists>vss. out' = out @ concat vss \<and>
       list_all2 (\<lambda>mc vs. dbIter D d (mcStorageName mc) None = Inr (vs, None) \<and> mcCount mc = int (length vs)) mcs vss"
proof (induction D W d mcs out rule: write_sections.induct)
  case (2 D W d mc mcs out)
  then obtain n out1 where s: "exportSection D W d (mcStorageName mc) out = Inr (n, out1)" "int n = mcCount mc"
    "write_sections D W d mcs out1 = Inr out'"
    by (auto split: sum.splits prod.splits if_splits)
  then obtain vs where v: "dbIter D d (mcStorageName mc) None = Inr (vs, None)" "n = length vs" "out1 = out @ vs"
    by (auto simp: exportSection_def split: sum.splits prod.splits option.splits dest: write_docs_out)
  from "2.IH" [OF s(1) refl _ s(3)] s(2) obtain vss where
    "out' = out1 @ concat vss"
    "list_all2 (\<lambda>mc vs. dbIter D d (mcStorageName mc) None = Inr (vs, None) \<and> mcCount mc = int (length vs)) mcs vss"
    by auto
  with v s(2) show ?case by (intro exI [of _ "vs # vss"]) auto
qed auto

text \<open>An export of \<open>refs\<close>: a manifest and, behind it, the documents of each section.\<close>

lemma Export_out:
  assumes C: "codec_laws C" and db: "any_db (cdEnc C) str D view" and refs: "\<forall>r \<in> set refs. ref_ok r"
    and ex: "exact_int now" "\<forall>r \<in> set refs. \<forall>k. dbCount D d (StorageName r) None = Inr k \<longrightarrow> exact_int (int k)"
    and x: "Export C D W now refs d = Inr out"
  obtains mcs vss where "out = manifestValue C \<lparr>mfFormat = FormatName, mfVersion = FormatVersion, mfExportedAt = now,
      mfCollections = mcs\<rparr> # concat vss"
    and "manifest_ok \<lparr>mfFormat = FormatName, mfVersion = FormatVersion, mfExportedAt = now, mfCollections = mcs\<rparr>"
    and "map mcRef mcs = dedup_by StorageName [] refs"
    and "list_all2 (\<lambda>mc vs. dbIter D d (StorageName (mcRef mc)) None = Inr (vs, None) \<and> section_ok C mc vs) mcs vss"
proof -
  from x obtain mcs where s: "export_sections D d [] refs = Inr mcs"
    and w: "write_sections D W d mcs [manifestValue C \<lparr>mfFormat = FormatName, mfVersion = FormatVersion,
      mfExportedAt = now, mfCollections = mcs\<rparr>] = Inr out"
    by (auto simp: Export_def Let_def split: option.splits sum.splits)
  from write_sections_out [OF w] obtain vss where vss: "out = manifestValue C \<lparr>mfFormat = FormatName,
      mfVersion = FormatVersion, mfExportedAt = now, mfCollections = mcs\<rparr> # concat vss"
    "list_all2 (\<lambda>mc vs. dbIter D d (mcStorageName mc) None = Inr (vs, None) \<and> mcCount mc = int (length vs)) mcs vss"
    by auto
  note ok = export_sections_ok [OF s]
  have "mc_ok mc" if "mc \<in> set mcs" for mc
  proof -
    from ok [OF that] obtain k where k: "dbCount D d (StorageName (mcRef mc)) None = Inr k" "mcCount mc = int k"
      and r: "mcRef mc \<in> set refs" "mcStorageName mc = StorageName (mcRef mc)"
      and o: "dbOpen D d (StorageName (mcRef mc)) = None"
      and i: "mcIndexes mc = map to_manifest_index (dbIndexes D d (StorageName (mcRef mc)))"
      by blast
    from o any_dbD(2) [OF db] obtain co where co: "view d (StorageName (mcRef mc)) = Some co" by (auto simp: db_opens_def)
    have "\<forall>ix \<in> set (mcIndexes mc). miFields ix \<noteq> []"
      using any_dbD(5) [OF db] co unfolding i by (auto simp: db_indexes_def to_manifest_index_def)
    with k r refs ex(2) show ?thesis by (simp add: mc_ok_def)
  qed
  then have "manifest_ok \<lparr>mfFormat = FormatName, mfVersion = FormatVersion, mfExportedAt = now, mfCollections = mcs\<rparr>"
    using ex(1) by (simp add: manifest_ok_def)
  moreover have "list_all2 (\<lambda>mc vs. dbIter D d (StorageName (mcRef mc)) None = Inr (vs, None) \<and> section_ok C mc vs) mcs vss"
  proof (rule list.rel_mono_strong [OF vss(2)])
    fix mc vs
    assume "mc \<in> set mcs" and i: "dbIter D d (mcStorageName mc) None = Inr (vs, None) \<and> mcCount mc = int (length vs)"
    then have "mcStorageName mc = StorageName (mcRef mc)" using ok by blast
    with i any_dbD(6) [OF db] show "dbIter D d (StorageName (mcRef mc)) None = Inr (vs, None) \<and> section_ok C mc vs"
      by (auto simp: section_ok_def importable_def db_iterates_def)
  qed
  ultimately show thesis using that vss(1) export_sections_refs [OF s] by blast
qed

text \<open>
  C21. An export read back is the documents of the exported collections, laid over what was there. The file of an export of
  accepted references, imported into any state of the database, is always read: the import stops only on an error of
  the database, on one of the exported collections, and never finds the file itself bad. When it completes, it reports each exported
  collection once, in the order asked for; every document of an exported collection is there under its id, documents with
  other ids stay, and every other collection keeps its documents. A second import leaves the documents as they are.
  Assumed: what any-store documents of its calls (\<open>any_db\<close>), that the codec reads back what it wrote
  (\<open>codec_laws\<close>), and that the time and the counts are exact in a floating point number.
\<close>

theorem export_import:
  assumes "codec_laws C" and "any_db (cdEnc C) (mkString C) D view" and "\<forall>r \<in> set refs. ref_ok r"
    and "exact_int now" and "\<forall>r \<in> set refs. \<forall>k. dbCount D d (StorageName r) None = Inr k \<longrightarrow> exact_int (int k)"
    and "Export C D W now refs d = Inr out"
    and "Import C D (Some (out, RdEOF)) d2 = (infos, e, d3)"
  shows "case e of
      None \<Rightarrow>
        map inRef infos = dedup_by StorageName [] refs \<and>
        (\<forall>n. docs_of view d3 n =
           (if n \<in> StorageName ` set refs then docs_of view d2 n ++ docs_of view d n else docs_of view d2 n)) \<and>
        (\<forall>infos' d4. Import C D (Some (out, RdEOF)) d3 = (infos', None, d4) \<longrightarrow> docs_of view d4 = docs_of view d3)
    | Some (ImportError r x) \<Rightarrow> r \<in> set refs \<and> (\<exists>y. x = ErrDb y)
    | Some (ImportPlain x) \<Rightarrow> False"
proof -
  obtain mcs vss where out: "out = manifestValue C \<lparr>mfFormat = FormatName, mfVersion = FormatVersion, mfExportedAt = now,
      mfCollections = mcs\<rparr> # concat vss"
    and ok: "manifest_ok \<lparr>mfFormat = FormatName, mfVersion = FormatVersion, mfExportedAt = now, mfCollections = mcs\<rparr>"
    and refs: "map mcRef mcs = dedup_by StorageName [] refs"
    and vss: "list_all2 (\<lambda>mc vs. dbIter D d (StorageName (mcRef mc)) None = Inr (vs, None) \<and> section_ok C mc vs) mcs vss"
    by (rule Export_out [OF assms(1-6)])
  let ?n = "\<lambda>mc. StorageName (mcRef mc)"
  have names: "map ?n mcs = map StorageName (dedup_by StorageName [] refs)"
    unfolding refs [symmetric] by simp
  have dis: "distinct (map ?n mcs)" unfolding names by (rule dedup_by_distinct)
  have dom: "set (map ?n mcs) = StorageName ` set refs"
    unfolding names set_map using dedup_by_set [of StorageName "[]" refs] by simp
  have sec: "list_all2 (section_ok C) mcs vss" by (rule list_all2_mono [OF vss]) simp
  have docs: "docs_of view d (?n mc) = map_of (map (\<lambda>v. (the (doc_id (cdEnc C) v), v)) vs)"
    "overlay (cdEnc C) m vs = m ++ docs_of view d (?n mc)" if "(mc, vs) \<in> set (zip mcs vss)" for mc vs m
  proof -
    from vss that have i: "dbIter D d (?n mc) None = Inr (vs, None)" by (auto simp: list_all2_iff)
    with any_dbD(6) [OF assms(2)] have "distinct (map (\<lambda>v. the (doc_id (cdEnc C) v)) vs)"
      "map_option dcDocs (view d (?n mc)) = Some (map_of (map (\<lambda>v. (the (doc_id (cdEnc C) v), v)) vs))"
      by (simp_all add: db_iterates_def)
    then show "docs_of view d (?n mc) = map_of (map (\<lambda>v. (the (doc_id (cdEnc C) v), v)) vs)"
      "overlay (cdEnc C) m vs = m ++ docs_of view d (?n mc)"
      by (simp_all add: docs_of_map overlay_map_of)
  qed
  have eff: "case e of
      None \<Rightarrow> map inRef infos = dedup_by StorageName [] refs \<and>
        (\<forall>n. docs_of view d3 n =
           (if n \<in> StorageName ` set refs then docs_of view d2 n ++ docs_of view d n else docs_of view d2 n))
    | Some (ImportError r x) \<Rightarrow> r \<in> set refs \<and> (\<exists>y. x = ErrDb y)
    | Some (ImportPlain x) \<Rightarrow> False"
    if "Import C D (Some (out, RdEOF)) d2 = (infos, e, d3)" for d2 infos e d3
  proof -
    from that have "import_collections C D RdEOF mcs [] (concat vss) d2 = (infos, e, d3)"
      by (simp add: Import_def out manifestOf_value [OF assms(1) ok])
    note con = import_collections_contents [OF assms(2) sec dis this]
    have "(case map_of (zip (map ?n mcs) vss) n of None \<Rightarrow> m | Some vs \<Rightarrow> overlay (cdEnc C) m vs) =
        (if n \<in> StorageName ` set refs then m ++ docs_of view d n else m)" for n m
    proof (cases "map_of (zip (map ?n mcs) vss) n")
      case None
      then have "n \<notin> set (map ?n mcs)"
        using vss by (simp add: map_of_zip_is_None list_all2_lengthD)
      with dom None show ?thesis by simp
    next
      case (Some vs)
      then obtain mc where mc: "(mc, vs) \<in> set (zip mcs vss)" "n = ?n mc"
        by (auto dest!: map_of_SomeD simp: zip_map1)
      then have "n \<in> set (map ?n mcs)" by (auto dest: set_zip_leftD)
      with dom Some docs(2) [OF mc(1)] mc(2) show ?thesis by simp
    qed
    moreover have "mcRef ` set mcs \<subseteq> set refs"
      using dedup_by_subset [of StorageName "[]" refs] unfolding refs [symmetric] by simp
    ultimately show ?thesis using con refs by (cases e) (auto split: import_error.splits)
  qed
  have again: "docs_of view d4 = docs_of view d3" if "e = None" "Import C D (Some (out, RdEOF)) d3 = (infos', None, d4)" for infos' d4
    using eff [OF assms(7)] eff [OF that(2)] that(1) by (auto simp: fun_eq_iff map_add_def split: option.splits)
  show ?thesis using eff [OF assms(7)] again by (cases e) (auto split: import_error.splits)
qed

section \<open>A database in memory\<close>

text \<open>A codec and a database to evaluate the operations on.\<close>

datatype mval = MStr string | MInt int | MBool bool | MArr "mval list" | MObj "(string \<times> mval) list"

fun mget :: "mval \<Rightarrow> string list \<Rightarrow> mval option" where
  "mget v [] = Some v"
| "mget (MObj fs) (k # ks) = (case map_of fs k of None \<Rightarrow> None | Some v \<Rightarrow> mget v ks)"
| "mget _ (k # ks) = None"

definition menc :: "mval anyenc" where
  "menc =
     \<lparr>vtyp = (\<lambda>v. case v of MStr _ \<Rightarrow> TypeString | MInt _ \<Rightarrow> TypeNumber | MBool b \<Rightarrow> (if b then TypeTrue else TypeFalse)
        | MArr _ \<Rightarrow> TypeArray | MObj _ \<Rightarrow> TypeObject),
      vbytes = (\<lambda>v. case v of MStr s \<Rightarrow> s | _ \<Rightarrow> []),
      vvisit = (\<lambda>v. case v of MObj fs \<Rightarrow> fs | _ \<Rightarrow> []),
      vget = mget,
      vstr = (\<lambda>v ks. case mget v ks of Some (MStr s) \<Rightarrow> s | _ \<Rightarrow> []),
      varray = (\<lambda>v ks. case mget v ks of Some (MArr vs) \<Rightarrow> vs | _ \<Rightarrow> []),
      vbool = (\<lambda>v ks. case mget v ks of Some (MBool b) \<Rightarrow> b | _ \<Rightarrow> False)\<rparr>"

definition mcodec :: "mval codec" where
  "mcodec =
     \<lparr>cdEnc = menc,
      cdInt = (\<lambda>v ks. case mget v ks of Some (MInt i) \<Rightarrow> i | _ \<Rightarrow> 0),
      cdFloat = (\<lambda>v ks. case mget v ks of Some (MInt i) \<Rightarrow> i | _ \<Rightarrow> 0),
      mkString = MStr, mkInt = MInt, mkFloat = MInt, mkBool = MBool, mkArray = MArr, mkObject = MObj\<rparr>"

lemma mcodec_laws: "codec_laws mcodec"
  by (auto simp: codec_laws_def mcodec_def menc_def split: option.split)

text \<open>A collection is its documents, newest first, and its indexes.\<close>

type_synonym mdb = "(string \<times> mval list \<times> IndexInfo list) list"

definition mid :: "mval \<Rightarrow> mval" where
  "mid v = the (doc_id menc v)"

definition mdocs :: "mval list \<Rightarrow> mval list" where
  "mdocs vs = dedup_by mid [] (filter (\<lambda>v. doc_id menc v \<noteq> None) vs)"

definition mindexes :: "IndexInfo list \<Rightarrow> IndexInfo list" where
  "mindexes ixs = filter (\<lambda>ix. ixFields ix \<noteq> []) ixs"

definition mview :: "(mdb, mval) dbview" where
  "mview d n = map_option (\<lambda>(vs, ixs). \<lparr>dcDocs = map_of (map (\<lambda>v. (mid v, v)) (mdocs vs)), dcIndexes = mindexes ixs\<rparr>) (map_of d n)"

definition mchange :: "mdb \<Rightarrow> string \<Rightarrow> (mval list \<times> IndexInfo list \<Rightarrow> unit db_err + (mval list \<times> IndexInfo list)) \<Rightarrow> unit db_err + mdb" where
  "mchange d n f =
     (case map_of d n of
        None \<Rightarrow> Inl ErrCollectionNotFound
      | Some c \<Rightarrow> (case f c of Inl e \<Rightarrow> Inl e | Inr c' \<Rightarrow> Inr (AList.update n c' d)))"

definition mupsert :: "mval \<Rightarrow> mval list \<times> IndexInfo list \<Rightarrow> unit db_err + (mval list \<times> IndexInfo list)" where
  "mupsert v c = (if doc_id menc v = None then Inl ErrDocWithoutId else Inr (v # fst c, snd c))"

definition minsert :: "mval list \<Rightarrow> mval list \<times> IndexInfo list \<Rightarrow> unit db_err + (mval list \<times> IndexInfo list)" where
  "minsert vs c =
     (if \<exists>v \<in> set vs. doc_id menc v = None then Inl ErrDocWithoutId
      else if \<exists>v \<in> set vs. mid v \<in> mid ` set (mdocs (fst c)) then Inl ErrDocExists
      else Inr (rev vs @ fst c, snd c))"

definition mdelete :: "string \<Rightarrow> mval list \<times> IndexInfo list \<Rightarrow> unit db_err + (mval list \<times> IndexInfo list)" where
  "mdelete i c =
     (if MStr i \<notin> mid ` set (mdocs (fst c)) then Inl ErrDocNotFound
      else Inr (filter (\<lambda>v. doc_id menc v \<noteq> Some (MStr i)) (fst c), snd c))"

definition mname :: "IndexInfo \<Rightarrow> IndexInfo" where
  "mname ix = (if ixName ix = [] then ix\<lparr>ixName := join_with CHR '','' (ixFields ix)\<rparr> else ix)"

definition mensure :: "IndexInfo list \<Rightarrow> mval list \<times> IndexInfo list \<Rightarrow> unit db_err + (mval list \<times> IndexInfo list)" where
  "mensure ixs c = (if \<exists>ix \<in> set ixs. ixFields ix = [] then Inl ErrInvalidIndexName else Inr (fst c, map mname ixs @ snd c))"

definition mholds :: "mval \<Rightarrow> mval \<Rightarrow> bool" where
  "mholds f v = (case f of MObj fs \<Rightarrow> list_all (\<lambda>(k, x). mget v [k] = Some x) fs | _ \<Rightarrow> False)"

definition mfind :: "mval option \<Rightarrow> mval list \<Rightarrow> mval list" where
  "mfind flt vs = (case flt of None \<Rightarrow> vs | Some f \<Rightarrow> filter (mholds f) vs)"

definition mem_db :: "(mdb, mval, unit) anydb" where
  "mem_db =
     \<lparr>dbWriteTx = (\<lambda>_. None), dbReadTx = (\<lambda>_. None), dbCommit = (\<lambda>_. None),
      dbOpen = (\<lambda>d n. if map_of d n = None then Some ErrCollectionNotFound else None),
      dbCreate = (\<lambda>d n. Inr (AList.update n ([], []) d)),
      dbDrop = (\<lambda>d n. Inr (AList.delete n d)),
      dbNames = (\<lambda>d. Inr (map fst d)),
      dbCount = (\<lambda>d n f. Inr (case map_of d n of None \<Rightarrow> 0 | Some c \<Rightarrow> length (mdocs (fst c)))),
      dbIndexes = (\<lambda>d n. case map_of d n of None \<Rightarrow> [] | Some c \<Rightarrow> mindexes (snd c)),
      dbEnsureIndex = (\<lambda>d n ixs. mchange d n (mensure ixs)),
      dbDropIndex = (\<lambda>d n i. mchange d n (\<lambda>c. Inr (fst c, filter (\<lambda>ix. ixName ix \<noteq> i) (snd c)))),
      dbIter = (\<lambda>d n f. case map_of d n of None \<Rightarrow> Inl ErrCollectionNotFound | Some c \<Rightarrow> Inr (mfind f (mdocs (fst c)), None)),
      dbFindId = (\<lambda>d n i. case map_of d n of None \<Rightarrow> Inl ErrCollectionNotFound
        | Some c \<Rightarrow> (case map_of (map (\<lambda>v. (mid v, v)) (mdocs (fst c))) (MStr i) of None \<Rightarrow> Inl ErrDocNotFound | Some v \<Rightarrow> Inr v)),
      dbInsert = (\<lambda>d n vs. mchange d n (minsert vs)),
      dbUpsertOne = (\<lambda>d n v. mchange d n (mupsert v)),
      dbModifyId = (\<lambda>u d n i m. case mchange d n (mupsert (MObj [(''id'', MStr i), (''set'', m)])) of Inl e \<Rightarrow> Inl e | Inr d' \<Rightarrow> Inr (1, d')),
      dbDeleteId = (\<lambda>d n i. mchange d n (mdelete i))\<rparr>"

lemma mchange_view:
  "mchange d n f = Inr d' \<Longrightarrow> \<exists>c c'. map_of d n = Some c \<and> f c = Inr c' \<and> map_of d' = (map_of d)(n \<mapsto> c')"
  by (auto simp: mchange_def update_conv' split: option.splits sum.splits)

lemma mchange_frame: "mchange d n f = Inr d' \<Longrightarrow> frame mview d n d'"
  by (auto simp: frame_def mview_def dest!: mchange_view)

lemma mem_frame_update: "frame mview d n (AList.update n c d)" "frame mview d n (AList.delete n d)"
  by (simp_all add: frame_def mview_def update_conv' delete_conv')

lemma mem_frames: "db_frames mem_db mview"
  by (auto simp: db_frames_def mem_db_def mem_frame_update intro: mchange_frame split: sum.splits)

lemma doc_id_object: "doc_id menc v \<noteq> None \<Longrightarrow> vtyp menc v = TypeObject"
  by (cases v) (simp_all add: doc_id_def menc_def)

lemma map_of_dedup:
  "map_of (map (\<lambda>v. (key v, v)) (dedup_by key seen vs)) k =
     (if k \<in> set seen then None else map_of (map (\<lambda>v. (key v, v)) vs) k)"
  by (induction key seen vs rule: dedup_by.induct) auto

lemma mdocs_Cons:
  "doc_id menc v \<noteq> None \<Longrightarrow>
     map_of (map (\<lambda>v. (mid v, v)) (mdocs (v # vs))) = (map_of (map (\<lambda>v. (mid v, v)) (mdocs vs)))(mid v \<mapsto> v)"
  by (rule ext) (simp add: mdocs_def map_of_dedup)

lemma mdocs_filter:
  "map_of (map (\<lambda>v. (mid v, v)) (mdocs (filter (\<lambda>v. doc_id menc v \<noteq> Some i) vs))) =
     (map_of (map (\<lambda>v. (mid v, v)) (mdocs vs)))(i := None)"
proof (rule ext)
  fix k
  have "map_of (map (\<lambda>v. (mid v, v)) (filter (\<lambda>v. doc_id menc v \<noteq> None) (filter (\<lambda>v. doc_id menc v \<noteq> Some i) vs))) k =
      (if k = i then None else map_of (map (\<lambda>v. (mid v, v)) (filter (\<lambda>v. doc_id menc v \<noteq> None) vs)) k)"
  proof (induction vs)
    case (Cons a vs)
    then show ?case by (cases "doc_id menc a") (auto simp: mid_def)
  qed simp
  then show "map_of (map (\<lambda>v. (mid v, v)) (mdocs (filter (\<lambda>v. doc_id menc v \<noteq> Some i) vs))) k =
      ((map_of (map (\<lambda>v. (mid v, v)) (mdocs vs)))(i := None)) k"
    by (simp add: mdocs_def map_of_dedup)
qed

lemma mem_lookup: "map_of (map (\<lambda>v. (mid v, v)) vs) k = None \<longleftrightarrow> k \<notin> mid ` set vs"
  by (simp add: map_of_eq_None_iff image_image)

lemma mem_found: "(\<exists>y. map_of (map (\<lambda>v. (mid v, v)) vs) k = Some y) \<longleftrightarrow> k \<in> mid ` set vs"
  using mem_lookup [of vs k] by (cases "map_of (map (\<lambda>v. (mid v, v)) vs) k") auto

lemma mid_Some: "doc_id menc v = Some i \<Longrightarrow> mid v = i"
  by (simp add: mid_def)

lemma mname_stored:
  assumes "ix \<in> set ixs" "ixFields ix \<noteq> []"
  shows "index_stored ix (mindexes (map mname ixs @ ys))"
proof -
  have "mname ix \<in> set (mindexes (map mname ixs @ ys))"
    using assms by (auto simp: mindexes_def mname_def)
  then show ?thesis unfolding index_stored_def by (rule rev_bexI) (simp add: mname_def)
qed

lemma mem_any_db: "any_db (cdEnc mcodec) (mkString mcodec) mem_db mview"
proof -
  have "db_opens mem_db mview" "db_creates mem_db mview" "db_indexes mem_db mview"
    by (auto simp: db_opens_def db_creates_def db_indexes_def mem_db_def mview_def update_conv' mdocs_def mindexes_def)
  moreover have "db_ensures mem_db mview"
    by (auto simp: db_ensures_def mem_db_def mview_def mensure_def mname_stored dest!: mchange_view split: if_split_asm)
  moreover have "db_iterates menc mem_db mview"
  proof -
    have "vtyp menc v = TypeObject \<and> doc_id menc v \<noteq> None" if "v \<in> set (mdocs vs)" for v vs
      using that dedup_by_subset [of mid "[]"] doc_id_object by (fastforce simp: mdocs_def)
    moreover have "distinct (map (\<lambda>v. the (doc_id menc v)) (mdocs vs))" for vs
      using dedup_by_distinct [of mid "[]"] by (simp add: mdocs_def mid_def [abs_def])
    ultimately show ?thesis
      by (simp add: db_iterates_def mem_db_def mview_def mid_def mfind_def split: option.splits)
  qed
  moreover have "db_upserts menc mem_db mview"
    by (auto simp: db_upserts_def mem_db_def mview_def mupsert_def mdocs_Cons mid_Some mchange_def update_conv'
      split: if_splits option.splits sum.splits)
  moreover have "db_deletes MStr mem_db mview"
    by (auto simp: db_deletes_def mem_db_def mview_def mdelete_def mdocs_filter mchange_def mem_lookup mem_found update_conv'
      split: if_splits option.splits sum.splits)
  ultimately show ?thesis using mem_frames by (simp add: any_db_def mcodec_def)
qed

lemma mem_selects: "db_selects mholds mem_db mview"
proof -
  have "ran (map_of (map (\<lambda>v. (mid v, v)) (mdocs vs))) = set (mdocs vs)" for vs
  proof -
    have "distinct (map fst (map (\<lambda>v. (mid v, v)) (mdocs vs)))"
      using dedup_by_distinct [of mid "[]"] by (simp add: mdocs_def comp_def)
    then show ?thesis by (simp only: ran_distinct) (simp add: image_image)
  qed
  then show ?thesis
    by (auto simp: db_selects_def mem_db_def docs_of_def mview_def mfind_def split: option.splits)
qed

definition mdoc :: "string \<Rightarrow> string \<Rightarrow> mval" where
  "mdoc i t = MObj [(''id'', MStr i), (''t'', MStr t)]"

definition ok_writer :: "(mval, unit) xwriter" where
  "ok_writer = \<lparr>xwWrite = (\<lambda>_. None), xwClose = (\<lambda>_. None)\<rparr>"

definition notes_ref :: Ref where
  "notes_ref = \<lparr>rfScope = ScopeAccount, rfSpaceId = [], rfName = ''notes''\<rparr>"

definition old_db :: mdb where
  "old_db = [(''l_a_notes'', ([mdoc ''1'' ''new'', mdoc ''2'' ''two''], [])), (''objects'', ([mdoc ''o'' ''synced''], []))]"

definition new_db :: mdb where
  "new_db = [(''l_a_notes'', ([mdoc ''1'' ''old'', mdoc ''3'' ''three''], []))]"

definition notes_file :: "mval list" where
  "notes_file = (case Export mcodec mem_db ok_writer 1700 [notes_ref, notes_ref] old_db of Inr out \<Rightarrow> out | Inl _ \<Rightarrow> [])"

theorem export_import_witness:
  "fst (snd (Import mcodec mem_db (Some (notes_file, RdEOF)) new_db)) = None \<and>
   map inRef (fst (Import mcodec mem_db (Some (notes_file, RdEOF)) new_db)) = [notes_ref] \<and>
   map (docs_of mview (snd (snd (Import mcodec mem_db (Some (notes_file, RdEOF)) new_db))) ''l_a_notes'' \<circ> MStr) [''1'', ''2'', ''3''] =
     [Some (mdoc ''1'' ''new''), Some (mdoc ''2'' ''two''), Some (mdoc ''3'' ''three'')] \<and>
   docs_of mview (snd (snd (Import mcodec mem_db (Some (notes_file, RdEOF)) new_db))) ''objects'' = Map.empty"
proof -
  let ?im = "Import mcodec mem_db (Some (notes_file, RdEOF)) new_db"
  obtain infos e d3 where im: "?im = (infos, e, d3)" by (cases ?im) auto
  have ex: "Export mcodec mem_db ok_writer 1700 [notes_ref, notes_ref] old_db = Inr notes_file"
    by code_simp
  have e: "fst (snd ?im) = None" by code_simp
  have r: "ref_ok notes_ref" by code_simp
  have n: "StorageName notes_ref = ''l_a_notes''" by code_simp
  have k: "exact_int (int k)" if "dbCount mem_db old_db (StorageName notes_ref) None = Inr k" for k
  proof -
    have "dbCount mem_db old_db ''l_a_notes'' None = Inr 2" by code_simp
    with that show ?thesis by (simp add: n exact_int_def)
  qed
  have docs: "map (docs_of mview old_db ''l_a_notes'' \<circ> MStr) [''1'', ''2'', ''3''] =
      [Some (mdoc ''1'' ''new''), Some (mdoc ''2'' ''two''), None]"
    "map (docs_of mview new_db ''l_a_notes'' \<circ> MStr) [''1'', ''2'', ''3''] =
      [Some (mdoc ''1'' ''old''), None, Some (mdoc ''3'' ''three'')]"
    by code_simp+
  have none: "docs_of mview new_db ''objects'' = Map.empty"
    by (simp add: docs_of_def mview_def new_db_def)
  have "case e of
      None \<Rightarrow>
        map inRef infos = dedup_by StorageName [] [notes_ref, notes_ref] \<and>
        (\<forall>n. docs_of mview d3 n =
           (if n \<in> StorageName ` set [notes_ref, notes_ref] then docs_of mview new_db n ++ docs_of mview old_db n
            else docs_of mview new_db n)) \<and>
        (\<forall>infos' d4. Import mcodec mem_db (Some (notes_file, RdEOF)) d3 = (infos', None, d4) \<longrightarrow>
           docs_of mview d4 = docs_of mview d3)
    | Some (ImportError r x) \<Rightarrow> r \<in> set [notes_ref, notes_ref] \<and> (\<exists>y. x = ErrDb y)
    | Some (ImportPlain x) \<Rightarrow> False"
    by (rule export_import [OF mcodec_laws mem_any_db _ _ _ ex im]) (use r k in \<open>auto simp: exact_int_def\<close>)
  with e im n docs none show ?thesis by (simp add: map_add_def)
qed

end
