(* ===== verification/ServerErrors.thy ===== *)
theory ServerErrors
  imports Processes AnyEnc
begin

text \<open>
  How the server answers an error (src/internal/server/errors.go, handlers_common.go, handlers_spaces.go, techspace.go):
  the envelope of a status and a code, and the maps from the errors of the SDK to it.

  An error of the SDK is seen through \<open>errors.Is\<close>: the sentinels it wraps, with its message. The messages and the details of
  an envelope are not modelled.
\<close>

datatype sentinel =
  CtxCanceled | CtxDeadlineExceeded
| ErrReadOnlySpace | ErrUnsupported | ErrIsTechSpace | ErrTypeRequired | ErrWrongSlot | ErrMetaType
| ErrRecordDeleted | ErrDatasetUndeletable | ErrObjectDeleted | ErrSpaceNotTracked | ErrObjectNotFound
| ErrCRDTVersionNewer | ErrDatasetNotDeclared | ErrDatasetNotShared | ErrRecordIdOfAnotherObject
| ErrValidation | ErrSpaceUnknown | ErrSpaceNotAccepted | ErrSpaceDeleted | ErrIsDerivedSpace

datatype validation_reason = ReasonKindMismatch | ReasonUnknownProperty | ReasonTypeNotImplemented | ReasonReservedCarrier | ReasonOther

text \<open>\<open>seParse\<close> is the \<open>query.ParseError\<close> in the chain: whether it is \<open>ErrUnknownOperator\<close>.\<close>

record sdk_error =
  seIs :: "sentinel list"
  seReason :: "validation_reason option"
  seMessage :: string
  seParse :: "bool option"

definition is_err :: "sdk_error \<Rightarrow> sentinel \<Rightarrow> bool" where
  "is_err e s \<longleftrightarrow> s \<in> set (seIs e)"

definition codeForStatus :: "nat \<Rightarrow> string" where
  "codeForStatus s =
     (if s = 400 then ''request.bad''
      else if s = 404 then ''request.not_found''
      else if s = 405 then ''request.method_not_allowed''
      else if s = 413 then ''request.too_large''
      else if s = 501 then ''sdk.not_implemented''
      else if s = 503 then ''server.unavailable''
      else ''internal'')"

text \<open>\<open>errorHandler\<close> answers an error a handler returned, unless the response is under way.\<close>

definition errorHandler :: "bool \<Rightarrow> nat option \<Rightarrow> api_error option" where
  "errorHandler committed httpCode =
     (if committed then None
      else Some (case httpCode of None \<Rightarrow> ApiError 500 ''internal'' | Some s \<Rightarrow> ApiError s (codeForStatus s)))"

definition filterParseError :: "bool \<Rightarrow> api_error" where
  "filterParseError unknownOp = ApiError 400 (if unknownOp then ''filter.unknown_operator'' else ''filter.invalid'')"

definition unsupportedError :: "sdk_error \<Rightarrow> api_error option" where
  "unsupportedError e =
     (if is_err e ErrUnsupported \<or> is_err e ErrIsTechSpace then Some (ApiError 405 ''space.unsupported'') else None)"

definition unknownDatasetError :: "sdk_error \<Rightarrow> api_error option" where
  "unknownDatasetError e =
     (if index_sub ''unknown dataset'' (seMessage e) = None \<and> index_sub ''no handler for dataset'' (seMessage e) = None \<and>
         index_sub ''SDK-internal'' (seMessage e) = None
      then None else Some (ApiError 400 ''dataset.unknown''))"

definition sdkValidationError :: "sdk_error \<Rightarrow> api_error" where
  "sdkValidationError e =
     ApiError 400
       (case seReason e of
          Some ReasonKindMismatch \<Rightarrow> ''property.kind_mismatch''
        | Some ReasonUnknownProperty \<Rightarrow> ''property.not_found''
        | Some ReasonTypeNotImplemented \<Rightarrow> ''dataset.not_declared''
        | Some ReasonReservedCarrier \<Rightarrow> ''type.reserved_carrier''
        | _ \<Rightarrow> ''dataset.validation'')"

definition sdkOpError :: "sdk_error \<Rightarrow> api_error" where
  "sdkOpError e =
     (if is_err e CtxCanceled \<or> is_err e CtxDeadlineExceeded then ApiError 503 ''server.unavailable''
      else if is_err e ErrReadOnlySpace then ApiError 403 ''space.read_only''
      else case unsupportedError e of
        Some resp \<Rightarrow> resp
      | None \<Rightarrow>
          if is_err e ErrTypeRequired then ApiError 400 ''membership.type_required''
          else if is_err e ErrWrongSlot then ApiError 400 ''membership.wrong_slot''
          else if is_err e ErrMetaType then ApiError 400 ''membership.meta_type''
          else if is_err e ErrRecordDeleted then ApiError 410 ''record.deleted''
          else if is_err e ErrDatasetUndeletable then ApiError 409 ''dataset.undeletable''
          else if is_err e ErrObjectDeleted then ApiError 410 ''object.deleted''
          else if is_err e ErrSpaceNotTracked then ApiError 404 ''space.not_found''
          else if is_err e ErrObjectNotFound then ApiError 404 ''object.not_found''
          else if is_err e ErrCRDTVersionNewer then ApiError 409 ''sdk.crdt_version_newer''
          else if is_err e ErrDatasetNotDeclared then ApiError 400 ''dataset.not_declared''
          else if is_err e ErrDatasetNotShared then ApiError 400 ''dataset.not_shared''
          else if is_err e ErrRecordIdOfAnotherObject then ApiError 400 ''record.wrong_object''
          else if is_err e ErrValidation then sdkValidationError e
          else case unknownDatasetError e of
            Some resp \<Rightarrow> resp
          | None \<Rightarrow>
              (case seParse e of
                 Some unknownOp \<Rightarrow> filterParseError unknownOp
               | None \<Rightarrow> ApiError 500 ''internal''))"

definition spaceError :: "sdk_error \<Rightarrow> api_error" where
  "spaceError e =
     (if is_err e CtxCanceled \<or> is_err e CtxDeadlineExceeded then ApiError 503 ''server.unavailable''
      else case unsupportedError e of
        Some resp \<Rightarrow> resp
      | None \<Rightarrow>
          if is_err e ErrSpaceUnknown then ApiError 404 ''space.not_found''
          else if is_err e ErrSpaceNotAccepted then ApiError 409 ''space.not_accepted''
          else if is_err e ErrSpaceDeleted then ApiError 409 ''space.deleted''
          else if is_err e ErrIsDerivedSpace then ApiError 409 ''space.derived_undeletable''
          else ApiError 500 ''internal'')"

section \<open>Request bodies\<close>

text \<open>A body as the fastjson handlers see it.\<close>

datatype 'v body = NoBody | BadJson | Body 'v

text \<open>The keys of a body outside the accepted set are refused; \<open>None\<close> lets the body through.\<close>

definition checkUnknownFields :: "'v anyenc \<Rightarrow> string list \<Rightarrow> 'v option \<Rightarrow> api_error option" where
  "checkUnknownFields J accepted body =
     (case body of
        None \<Rightarrow> None
      | Some root \<Rightarrow>
          if vtyp J root \<noteq> TypeObject then Some (ApiError 400 ''request.schema'')
          else if filter (\<lambda>k. k \<notin> set accepted) (map fst (vvisit J root)) = [] then None
          else Some (ApiError 400 ''request.unknown_field''))"

lemma checkUnknownFields_None:
  "checkUnknownFields J accepted (Some root) = None \<longleftrightarrow>
     vtyp J root = TypeObject \<and> (\<forall>(k, v) \<in> set (vvisit J root). k \<in> set accepted)"
  by (auto simp: checkUnknownFields_def filter_empty_conv)

end
