(* ===== verification/LocalHandlers.thy ===== *)
theory LocalHandlers
  imports LocalExport ServerErrors Projection
begin

text \<open>
  The HTTP handlers of the local store (src/internal/server/handlers_local.go).

  A handler is a function of the environment, the request and the state of the database; it gives the reply and the state
  afterwards. The environment holds what the sources call outside the repository: the database, the JSON values of a
  body and their accessors, the parsers of the query language, the aggregation engine, and the spaces of the
  SDK.
\<close>

section \<open>The environment\<close>

text \<open>
  \<open>leJ\<close> are the accessors of a JSON value, \<open>leParseDoc\<close> is \<open>anyenc.ParseJson\<close> of its text, \<open>leIndexList\<close>
  is \<open>json.Unmarshal\<close> into a list of indexes, \<open>leCondition\<close>, \<open>leModifier\<close> and \<open>leSort\<close> are the parsers of
  package \<open>query\<close>, \<open>leFind\<close> runs a query with its filter, sort keys, limit and offset. \<open>leAggCount\<close> runs a pipeline
  that ends in a sink.
\<close>

datatype condition_verdict = CondOk | CondParseError bool | CondOther

type_synonym agg_limits = "int option \<times> int option \<times> int option"

record ('db, 'v, 'e) localEnv =
  leEnabled :: bool
  leDB :: "('db, 'v, 'e) anydb"
  leC :: "'v codec"
  leJ :: "'v anyenc"
  leInt :: "'v \<Rightarrow> string list \<Rightarrow> int"
  leSpace :: "string \<Rightarrow> sdk_error option"
  leSdk :: "'e \<Rightarrow> sdk_error"
  leSetId :: "'v \<Rightarrow> string \<Rightarrow> 'v"
  leParseDoc :: "'v \<Rightarrow> 'v option"
  leToJson :: "'v \<Rightarrow> 'v"
  leIndexList :: "'v \<Rightarrow> IndexInfo list option"
  leCondition :: "'v \<Rightarrow> condition_verdict"
  leModifier :: "'v \<Rightarrow> 'e db_err option"
  leSort :: "string list \<Rightarrow> 'e db_err option"
  leFind :: "'db \<Rightarrow> string \<Rightarrow> 'v option \<Rightarrow> string list \<Rightarrow> nat \<Rightarrow> nat \<Rightarrow> 'e db_err + ('v list \<times> 'e db_err option)"
  leProjRaw :: "'v \<Rightarrow> proj_raw option"
  leTree :: "'v \<Rightarrow> json"
  leExplain :: "'db \<Rightarrow> string \<Rightarrow> 'v \<Rightarrow> agg_limits \<Rightarrow> 'e db_err + string"
  leAggCount :: "'db \<Rightarrow> string \<Rightarrow> 'v \<Rightarrow> agg_limits \<Rightarrow> ('e db_err + nat) \<times> 'db"
  leAggIter :: "'db \<Rightarrow> string \<Rightarrow> 'v \<Rightarrow> agg_limits \<Rightarrow> 'e db_err + ('v list \<times> 'e db_err option)"
  leGrammar :: "string list \<times> string list"

definition localMaxDocs :: nat where "localMaxDocs = 1000"
definition localWriteChunk :: nat where "localWriteChunk = 256"
definition localQueryDefaultLimit :: nat where "localQueryDefaultLimit = 100"
definition localQueryMaxLimit :: nat where "localQueryMaxLimit = 1000"

definition localCollFields :: "string list" where "localCollFields = [''scope'', ''spaceId'', ''name'']"
definition localEnsureFields :: "string list" where "localEnsureFields = localCollFields @ [''indexes'']"
definition localDocsFields :: "string list" where "localDocsFields = [''coll'', ''docs'']"
definition localUpdateFields :: "string list" where "localUpdateFields = [''coll'', ''id'', ''modifier'', ''upsert'']"
definition localDeleteFields :: "string list" where "localDeleteFields = [''coll'', ''ids'', ''filter'']"
definition localGetFields :: "string list" where "localGetFields = [''coll'', ''id'']"
definition localQueryFields :: "string list" where
  "localQueryFields = [''coll'', ''filter'', ''sort'', ''limit'', ''offset'', ''includeTotal'', ''projection'']"
definition localAggregateFields :: "string list" where
  "localAggregateFields = [''coll'', ''pipeline'', ''groupLimit'', ''accumArrayLimit'', ''memoryLimitBytes'', ''explain'']"
definition localIndexesFields :: "string list" where "localIndexesFields = [''coll'', ''ensure'', ''drop'']"

record LocalCollectionInfo =
  lciScope :: string
  lciSpaceId :: string
  lciName :: string
  lciStorageName :: string
  lciCount :: nat
  lciIndexes :: "IndexInfo list"

datatype 'v local_reply =
  MetaReply "string list" "string list"
| ListReply "LocalCollectionInfo list"
| EnsureReply nat bool LocalCollectionInfo
| NoContent
| IdsReply "string list"
| UpdateReply bool 'v
| DeleteReply nat
| RecordReply 'v
| QueryReply "json list" "(nat \<times> bool) option"
| PlanReply string
| WrittenReply nat
| RecordsReply "'v list"
| IndexesReply "IndexInfo list"
| FileReply "'v list"
| ConnectionAborted

section \<open>Errors and bodies\<close>

definition localDisabled :: api_error where "localDisabled = ApiError 409 ''local.disabled''"

definition plain_sdk :: sdk_error where
  "plain_sdk = \<lparr>seIs = [], seReason = None, seMessage = [], seParse = None\<rparr>"

definition localError :: "('e \<Rightarrow> sdk_error) \<Rightarrow> 'e ls_error \<Rightarrow> api_error" where
  "localError sdk err =
     (case err of
        ErrNotFound \<Rightarrow> ApiError 404 ''local.collection_not_found''
      | ErrBadName _ \<Rightarrow> ApiError 400 ''local.bad_name''
      | ErrNotLocal _ \<Rightarrow> ApiError 400 ''local.bad_sink_target''
      | ErrBadExport _ \<Rightarrow> sdkOpError plain_sdk
      | ErrDb e \<Rightarrow>
          (case e of
             ErrDocExists \<Rightarrow> ApiError 409 ''local.duplicate_id''
           | ErrDocNotFound \<Rightarrow> ApiError 404 ''local.doc_not_found''
           | ErrUniqueConstraint \<Rightarrow> ApiError 409 ''local.unique_violation''
           | ErrGroupLimitExceeded \<Rightarrow> ApiError 400 ''local.limit_exceeded''
           | ErrAccumArrayLimitExceeded \<Rightarrow> ApiError 400 ''local.limit_exceeded''
           | ErrAggMemoryLimitExceeded \<Rightarrow> ApiError 400 ''local.limit_exceeded''
           | ErrIndexMismatch \<Rightarrow> ApiError 400 ''local.bad_index''
           | ErrInvalidIndexName \<Rightarrow> ApiError 400 ''local.bad_index''
           | ErrAggregateIntoSource \<Rightarrow> ApiError 400 ''local.bad_pipeline''
           | ErrDocWithoutId \<Rightarrow> ApiError 400 ''local.bad_pipeline''
           | ErrMergeNoId \<Rightarrow> ApiError 400 ''local.bad_pipeline''
           | ErrMergeMatched \<Rightarrow> ApiError 400 ''local.bad_pipeline''
           | ErrMergeNotMatched \<Rightarrow> ApiError 400 ''local.bad_pipeline''
           | ErrParse source path op \<Rightarrow>
               ApiError 400
                 (if source = ''pipeline'' then ''local.bad_pipeline''
                  else if source = ''modifier'' then ''local.bad_modifier''
                  else if source = ''sort'' then ''local.bad_sort''
                  else ''local.bad_filter'')
           | ErrCollectionNotFound \<Rightarrow> sdkOpError plain_sdk
           | ErrIndexNotFound \<Rightarrow> sdkOpError plain_sdk
           | ErrOther x \<Rightarrow> sdkOpError (sdk x)))"

definition missing_field :: api_error where "missing_field = ApiError 400 ''request.missing_field''"
definition bad_schema :: api_error where "bad_schema = ApiError 400 ''request.schema''"

definition localBody :: "('db, 'v, 'e) localEnv \<Rightarrow> string list \<Rightarrow> 'v body \<Rightarrow> api_error + 'v" where
  "localBody E accepted body =
     (case body of
        NoBody \<Rightarrow> Inl (ApiError 400 ''request.bad_json'')
      | BadJson \<Rightarrow> Inl (ApiError 400 ''request.bad_json'')
      | Body rt \<Rightarrow> (case checkUnknownFields (leJ E) accepted (Some rt) of Some e \<Rightarrow> Inl e | None \<Rightarrow> Inr rt))"

definition localRef :: "string \<Rightarrow> string \<Rightarrow> string \<Rightarrow> api_error + Ref" where
  "localRef scope spaceId name =
     (case ParseRef scope spaceId name of Inl _ \<Rightarrow> Inl (ApiError 400 ''local.bad_name'') | Inr ref \<Rightarrow> Inr ref)"

definition localRefFromValue :: "('db, 'v, 'e) localEnv \<Rightarrow> 'v option \<Rightarrow> bool \<Rightarrow> api_error + Ref" where
  "localRefFromValue E v strict =
     (case v of
        None \<Rightarrow> Inl missing_field
      | Some v \<Rightarrow>
          if vtyp (leJ E) v \<noteq> TypeObject then Inl missing_field
          else case (if strict then checkUnknownFields (leJ E) localCollFields (Some v) else None) of
            Some e \<Rightarrow> Inl e
          | None \<Rightarrow>
              localRef (vstr (leJ E) v [''scope'']) (vstr (leJ E) v [''spaceId'']) (vstr (leJ E) v [''name'']))"

definition localSpaceCheck :: "('db, 'v, 'e) localEnv \<Rightarrow> Ref \<Rightarrow> api_error option" where
  "localSpaceCheck E ref = (if rfScope ref \<noteq> ScopeSpace then None else map_option spaceError (leSpace E (rfSpaceId ref)))"

text \<open>The reference and the body of a request on an existing collection.\<close>

definition resolveLocal ::
  "('db, 'v, 'e) localEnv \<Rightarrow> string list \<Rightarrow> bool \<Rightarrow> 'v body \<Rightarrow> 'db \<Rightarrow> api_error + (Ref \<times> 'v)" where
  "resolveLocal E accepted write body d =
     (if \<not> leEnabled E then Inl localDisabled
      else case localBody E accepted body of
        Inl e \<Rightarrow> Inl e
      | Inr rt \<Rightarrow>
          (case localRefFromValue E (vget (leJ E) rt [''coll'']) True of
             Inl e \<Rightarrow> Inl e
           | Inr ref \<Rightarrow>
               (case (if write then localSpaceCheck E ref else None) of
                  Some e \<Rightarrow> Inl e
                | None \<Rightarrow>
                    (case Collection (leDB E) ref d of
                       Some e \<Rightarrow> Inl (localError (leSdk E) e)
                     | None \<Rightarrow> Inr (ref, rt)))))"

definition localInfoToAPI :: "Info \<Rightarrow> LocalCollectionInfo" where
  "localInfoToAPI info =
     \<lparr>lciScope = rfScope (inRef info), lciSpaceId = rfSpaceId (inRef info), lciName = rfName (inRef info),
      lciStorageName = StorageName (inRef info), lciCount = inCount info, lciIndexes = inIndexes info\<rparr>"

section \<open>Collections\<close>

definition localMeta :: "('db, 'v, 'e) localEnv \<Rightarrow> api_error + 'v local_reply" where
  "localMeta E = (if \<not> leEnabled E then Inl localDisabled else Inr (MetaReply (fst (leGrammar E)) (snd (leGrammar E))))"

definition query_scope :: "string \<Rightarrow> string \<Rightarrow> Scope" where
  "query_scope scope spaceId = (if spaceId \<noteq> [] \<and> scope = [] then ScopeSpace else scope)"

definition localCollectionsList :: "('db, 'v, 'e) localEnv \<Rightarrow> string \<Rightarrow> string \<Rightarrow> 'db \<Rightarrow> api_error + 'v local_reply" where
  "localCollectionsList E scope spaceId d =
     (if \<not> leEnabled E then Inl localDisabled
      else case List (leDB E) (query_scope scope spaceId) spaceId d of
        Inl e \<Rightarrow> Inl (localError (leSdk E) e)
      | Inr infos \<Rightarrow> Inr (ListReply (map localInfoToAPI infos)))"

definition localIndexesFromValue :: "('db, 'v, 'e) localEnv \<Rightarrow> 'v option \<Rightarrow> api_error + IndexInfo list" where
  "localIndexesFromValue E v =
     (case v of
        None \<Rightarrow> Inr []
      | Some v \<Rightarrow>
          if vtyp (leJ E) v = TypeNull then Inr []
          else case leIndexList E v of
            None \<Rightarrow> Inl bad_schema
          | Some ixs \<Rightarrow> if list_ex (\<lambda>ix. ixFields ix = []) ixs then Inl bad_schema else Inr ixs)"

definition localCollectionsEnsure ::
  "('db, 'v, 'e) localEnv \<Rightarrow> 'v body \<Rightarrow> 'db \<Rightarrow> (api_error + 'v local_reply) \<times> 'db" where
  "localCollectionsEnsure E body d =
     (if \<not> leEnabled E then (Inl localDisabled, d)
      else case localBody E localEnsureFields body of
        Inl e \<Rightarrow> (Inl e, d)
      | Inr rt \<Rightarrow>
          (case localRefFromValue E (Some rt) False of
             Inl e \<Rightarrow> (Inl e, d)
           | Inr ref \<Rightarrow>
               (case localSpaceCheck E ref of
                  Some e \<Rightarrow> (Inl e, d)
                | None \<Rightarrow>
                    (case localIndexesFromValue E (vget (leJ E) rt [''indexes'']) of
                       Inl e \<Rightarrow> (Inl e, d)
                     | Inr ixs \<Rightarrow>
                         (case Ensure (leDB E) ref ixs d of
                            (Inl e, d') \<Rightarrow> (Inl (localError (leSdk E) (ErrDb e)), d')
                          | (Inr created, d') \<Rightarrow>
                              ((case Collection (leDB E) ref d' of
                                  Some e \<Rightarrow> Inl (localError (leSdk E) e)
                                | None \<Rightarrow>
                                    (case dbCount (leDB E) d' (StorageName ref) None of
                                       Inl e \<Rightarrow> Inl (localError (leSdk E) (ErrDb e))
                                     | Inr count \<Rightarrow>
                                         Inr (EnsureReply (if created then 201 else 200) created
                                           (localInfoToAPI \<lparr>inRef = ref, inCount = count,
                                              inIndexes = dbIndexes (leDB E) d' (StorageName ref)\<rparr>)))), d'))))))"

definition localCollectionsDrop ::
  "('db, 'v, 'e) localEnv \<Rightarrow> string \<Rightarrow> string \<Rightarrow> string \<Rightarrow> 'db \<Rightarrow> (api_error + 'v local_reply) \<times> 'db" where
  "localCollectionsDrop E scope spaceId name d =
     (if \<not> leEnabled E then (Inl localDisabled, d)
      else case localRef scope spaceId name of
        Inl e \<Rightarrow> (Inl e, d)
      | Inr ref \<Rightarrow>
          (case Drop (leDB E) ref d of
             (Some e, d') \<Rightarrow> (Inl (localError (leSdk E) e), d')
           | (None, d') \<Rightarrow> (Inr NoContent, d')))"

section \<open>Writing documents\<close>

text \<open>\<open>mint i\<close> is the random id made for the element \<open>i\<close>, if it carries none.\<close>

definition docs_item :: "('db, 'v, 'e) localEnv \<Rightarrow> string \<Rightarrow> 'v \<Rightarrow> api_error + (string \<times> 'v)" where
  "docs_item E fresh item =
     (let J = leJ E; minted = Inr (fresh, leSetId E item fresh) in
      case vget J item [''id''] of
        None \<Rightarrow> minted
      | Some idv \<Rightarrow>
          if vtyp J idv = TypeNull then minted
          else if vtyp J idv = TypeString then (if vbytes J idv = [] then Inl bad_schema else Inr (vbytes J idv, item))
          else Inl bad_schema)"

fun docs_loop ::
  "('db, 'v, 'e) localEnv \<Rightarrow> (nat \<Rightarrow> string) \<Rightarrow> nat \<Rightarrow> 'v list \<Rightarrow> api_error + ('v list \<times> string list)" where
  "docs_loop E mint i [] = Inr ([], [])"
| "docs_loop E mint i (item # items) =
     (if vtyp (leJ E) item \<noteq> TypeObject then Inl bad_schema
      else case docs_item E (mint i) item of
        Inl e \<Rightarrow> Inl e
      | Inr (docId, item') \<Rightarrow>
          (case leParseDoc E item' of
             None \<Rightarrow> Inl bad_schema
           | Some doc \<Rightarrow>
               (case docs_loop E mint (i + 1) items of
                  Inl e \<Rightarrow> Inl e
                | Inr (docs, ids) \<Rightarrow> Inr (doc # docs, docId # ids))))"

definition localDocsFromValue ::
  "('db, 'v, 'e) localEnv \<Rightarrow> (nat \<Rightarrow> string) \<Rightarrow> 'v option \<Rightarrow> api_error + ('v list \<times> string list)" where
  "localDocsFromValue E mint v =
     (case v of
        None \<Rightarrow> Inl missing_field
      | Some v \<Rightarrow>
          if vtyp (leJ E) v \<noteq> TypeArray then Inl missing_field
          else let arr = varray (leJ E) v [] in
            if arr = [] then Inl missing_field
            else if length arr > localMaxDocs then Inl (ApiError 400 ''local.too_many_docs'')
            else docs_loop E mint 0 arr)"

function localWriteChunks ::
  "('v list \<Rightarrow> 'db \<Rightarrow> 'e db_err option \<times> 'db) \<Rightarrow> 'v list \<Rightarrow> 'db \<Rightarrow> 'e db_err option \<times> 'db" where
  "localWriteChunks fn docs d =
     (if docs = [] then (None, d)
      else case fn (take localWriteChunk docs) d of
        (Some e, d') \<Rightarrow> (Some e, d')
      | (None, d') \<Rightarrow> localWriteChunks fn (drop localWriteChunk docs) d')"
  by pat_completeness auto
termination
  by (relation "measure (\<lambda>(fn, docs, d). length docs)") (auto simp: localWriteChunk_def)

declare localWriteChunks.simps [simp del]

definition insert_chunk :: "('db, 'v, 'e) anydb \<Rightarrow> string \<Rightarrow> 'v list \<Rightarrow> 'db \<Rightarrow> 'e db_err option \<times> 'db" where
  "insert_chunk D name chunk d = (case dbInsert D d name chunk of Inl e \<Rightarrow> (Some e, d) | Inr d' \<Rightarrow> (None, d'))"

fun upsert_all :: "('db, 'v, 'e) anydb \<Rightarrow> string \<Rightarrow> 'v list \<Rightarrow> 'db \<Rightarrow> 'e db_err + 'db" where
  "upsert_all D name [] d = Inr d"
| "upsert_all D name (doc # docs) d =
     (case dbUpsertOne D d name doc of Inl e \<Rightarrow> Inl e | Inr d' \<Rightarrow> upsert_all D name docs d')"

definition upsert_chunk :: "('db, 'v, 'e) anydb \<Rightarrow> string \<Rightarrow> 'v list \<Rightarrow> 'db \<Rightarrow> 'e db_err option \<times> 'db" where
  "upsert_chunk D name chunk d =
     (case dbWriteTx D d of
        Some e \<Rightarrow> (Some e, d)
      | None \<Rightarrow>
          (case upsert_all D name chunk d of
             Inl e \<Rightarrow> (Some e, d)
           | Inr d' \<Rightarrow> (case dbCommit D d' of Some e \<Rightarrow> (Some e, d) | None \<Rightarrow> (None, d'))))"

definition local_write ::
  "('db, 'v, 'e) localEnv \<Rightarrow> (string \<Rightarrow> 'v list \<Rightarrow> 'db \<Rightarrow> 'e db_err option \<times> 'db) \<Rightarrow> (nat \<Rightarrow> string) \<Rightarrow> 'v body \<Rightarrow> 'db \<Rightarrow>
     (api_error + 'v local_reply) \<times> 'db" where
  "local_write E chunk mint body d =
     (case resolveLocal E localDocsFields True body d of
        Inl e \<Rightarrow> (Inl e, d)
      | Inr (ref, rt) \<Rightarrow>
          (case localDocsFromValue E mint (vget (leJ E) rt [''docs'']) of
             Inl e \<Rightarrow> (Inl e, d)
           | Inr (docs, ids) \<Rightarrow>
               (case localWriteChunks (chunk (StorageName ref)) docs d of
                  (Some e, d') \<Rightarrow> (Inl (localError (leSdk E) (ErrDb e)), d')
                | (None, d') \<Rightarrow> (Inr (IdsReply ids), d'))))"

definition localInsert ::
  "('db, 'v, 'e) localEnv \<Rightarrow> (nat \<Rightarrow> string) \<Rightarrow> 'v body \<Rightarrow> 'db \<Rightarrow> (api_error + 'v local_reply) \<times> 'db" where
  "localInsert E mint body d = local_write E (insert_chunk (leDB E)) mint body d"

definition localUpsert ::
  "('db, 'v, 'e) localEnv \<Rightarrow> (nat \<Rightarrow> string) \<Rightarrow> 'v body \<Rightarrow> 'db \<Rightarrow> (api_error + 'v local_reply) \<times> 'db" where
  "localUpsert E mint body d = local_write E (upsert_chunk (leDB E)) mint body d"

definition localUpdate :: "('db, 'v, 'e) localEnv \<Rightarrow> 'v body \<Rightarrow> 'db \<Rightarrow> (api_error + 'v local_reply) \<times> 'db" where
  "localUpdate E body d =
     (case resolveLocal E localUpdateFields True body d of
        Inl e \<Rightarrow> (Inl e, d)
      | Inr (ref, rt) \<Rightarrow>
          let D = leDB E; n = StorageName ref; docId = vstr (leJ E) rt [''id'']; fail = (\<lambda>e. (Inl (localError (leSdk E) (ErrDb e)), d)) in
          if docId = [] then (Inl missing_field, d)
          else case vget (leJ E) rt [''modifier''] of
            None \<Rightarrow> (Inl missing_field, d)
          | Some modv \<Rightarrow>
              if vtyp (leJ E) modv \<noteq> TypeObject then (Inl missing_field, d)
              else case leModifier E modv of
                Some e \<Rightarrow> fail e
              | None \<Rightarrow>
                  (case dbWriteTx D d of
                     Some e \<Rightarrow> fail e
                   | None \<Rightarrow>
                       (case dbModifyId D (vbool (leJ E) rt [''upsert'']) d n docId modv of
                          Inl e \<Rightarrow> fail e
                        | Inr (modified, d1) \<Rightarrow>
                            (case dbFindId D d1 n docId of
                               Inl e \<Rightarrow> fail e
                             | Inr doc \<Rightarrow>
                                 (case dbCommit D d1 of
                                    Some e \<Rightarrow> fail e
                                  | None \<Rightarrow> (Inr (UpdateReply (modified > 0) (leToJson E doc)), d1))))))"

section \<open>Deleting documents\<close>

text \<open>The deletes of one transaction, and the chunks of a request.\<close>

fun delete_all :: "('db, 'v, 'e) anydb \<Rightarrow> string \<Rightarrow> nat \<Rightarrow> string list \<Rightarrow> 'db \<Rightarrow> 'e db_err + (nat \<times> 'db)" where
  "delete_all D name deleted [] d = Inr (deleted, d)"
| "delete_all D name deleted (i # ids) d =
     (case dbDeleteId D d name i of
        Inl ErrDocNotFound \<Rightarrow> delete_all D name deleted ids d
      | Inl e \<Rightarrow> Inl e
      | Inr d' \<Rightarrow> delete_all D name (deleted + 1) ids d')"

function delete_chunks :: "('db, 'v, 'e) anydb \<Rightarrow> string \<Rightarrow> nat \<Rightarrow> string list \<Rightarrow> 'db \<Rightarrow> ('e db_err + nat) \<times> 'db" where
  "delete_chunks D name deleted ids d =
     (if ids = [] then (Inr deleted, d)
      else case dbWriteTx D d of
        Some e \<Rightarrow> (Inl e, d)
      | None \<Rightarrow>
          (case delete_all D name deleted (take localWriteChunk ids) d of
             Inl e \<Rightarrow> (Inl e, d)
           | Inr (deleted', d') \<Rightarrow>
               (case dbCommit D d' of
                  Some e \<Rightarrow> (Inl e, d)
                | None \<Rightarrow> delete_chunks D name deleted' (drop localWriteChunk ids) d')))"
  by pat_completeness auto
termination
  by (relation "measure (\<lambda>(D, name, deleted, ids, d). length ids)") (auto simp: localWriteChunk_def)

declare delete_chunks.simps [simp del]

definition checkFilter :: "('db, 'v, 'e) localEnv \<Rightarrow> 'v \<Rightarrow> api_error option" where
  "checkFilter E rt =
     (case vget (leJ E) rt [''filter''] of
        None \<Rightarrow> None
      | Some f \<Rightarrow>
          if vtyp (leJ E) f = TypeNull then None
          else case leCondition E f of
            CondOk \<Rightarrow> None
          | CondParseError unknownOp \<Rightarrow> Some (filterParseError unknownOp)
          | CondOther \<Rightarrow> Some (ApiError 400 ''filter.invalid''))"

definition present :: "'v anyenc \<Rightarrow> 'v option \<Rightarrow> bool" where
  "present J v = (case v of None \<Rightarrow> False | Some v \<Rightarrow> vtyp J v \<noteq> TypeNull)"

text \<open>The ids a delete names: the ones of its list, or the ones of the documents its filter finds.\<close>

definition delete_ids :: "('db, 'v, 'e) localEnv \<Rightarrow> Ref \<Rightarrow> 'v \<Rightarrow> 'db \<Rightarrow> api_error + string list" where
  "delete_ids E ref rt d =
     (let J = leJ E; idsv = vget J rt [''ids'']; flt = vget J rt [''filter''] in
      if present J idsv = present J flt then Inl missing_field
      else if present J idsv then
        (if vtyp J (the idsv) \<noteq> TypeArray then Inl bad_schema
         else let arr = varray J (the idsv) [] in
           if list_ex (\<lambda>v. vtyp J v \<noteq> TypeString) arr then Inl bad_schema else Inr (map (vbytes J) arr))
      else case checkFilter E rt of
        Some e \<Rightarrow> Inl e
      | None \<Rightarrow>
          (case dbIter (leDB E) d (StorageName ref) flt of
             Inl e \<Rightarrow> Inl (localError (leSdk E) (ErrDb e))
           | Inr (docs, Some e) \<Rightarrow> Inl (localError (leSdk E) (ErrDb e))
           | Inr (docs, None) \<Rightarrow> Inr (map (\<lambda>doc. vstr (cdEnc (leC E)) doc [''id'']) docs)))"

definition localDelete :: "('db, 'v, 'e) localEnv \<Rightarrow> 'v body \<Rightarrow> 'db \<Rightarrow> (api_error + 'v local_reply) \<times> 'db" where
  "localDelete E body d =
     (case resolveLocal E localDeleteFields False body d of
        Inl e \<Rightarrow> (Inl e, d)
      | Inr (ref, rt) \<Rightarrow>
          (case delete_ids E ref rt d of
             Inl e \<Rightarrow> (Inl e, d)
           | Inr ids \<Rightarrow>
               (case delete_chunks (leDB E) (StorageName ref) 0 ids d of
                  (Inl e, d') \<Rightarrow> (Inl (localError (leSdk E) (ErrDb e)), d')
                | (Inr deleted, d') \<Rightarrow> (Inr (DeleteReply deleted), d'))))"

section \<open>Reading documents\<close>

definition localGet :: "('db, 'v, 'e) localEnv \<Rightarrow> 'v body \<Rightarrow> 'db \<Rightarrow> api_error + 'v local_reply" where
  "localGet E body d =
     (case resolveLocal E localGetFields False body d of
        Inl e \<Rightarrow> Inl e
      | Inr (ref, rt) \<Rightarrow>
          let docId = vstr (leJ E) rt [''id''] in
          if docId = [] then Inl missing_field
          else case dbFindId (leDB E) d (StorageName ref) docId of
            Inl e \<Rightarrow> Inl (localError (leSdk E) (ErrDb e))
          | Inr doc \<Rightarrow> Inr (RecordReply (leToJson E doc)))"

definition query_limit :: "('db, 'v, 'e) localEnv \<Rightarrow> 'v \<Rightarrow> nat" where
  "query_limit E rt =
     (case vget (leJ E) rt [''limit''] of
        None \<Rightarrow> localQueryDefaultLimit
      | Some v \<Rightarrow> if leInt E v [] > 0 then min (nat (leInt E v [])) localQueryMaxLimit else localQueryDefaultLimit)"

definition query_offset :: "('db, 'v, 'e) localEnv \<Rightarrow> 'v \<Rightarrow> nat" where
  "query_offset E rt =
     (case vget (leJ E) rt [''offset''] of
        None \<Rightarrow> 0
      | Some v \<Rightarrow> if leInt E v [] > 0 then nat (leInt E v []) else 0)"

definition localQuery :: "('db, 'v, 'e) localEnv \<Rightarrow> 'v body \<Rightarrow> 'db \<Rightarrow> api_error + 'v local_reply" where
  "localQuery E body d =
     (case resolveLocal E localQueryFields False body d of
        Inl e \<Rightarrow> Inl e
      | Inr (ref, rt) \<Rightarrow>
          (case checkFilter E rt of
             Some e \<Rightarrow> Inl e
           | None \<Rightarrow>
               (case parseProjection True (leProjRaw E rt) of
                  Inl _ \<Rightarrow> Inl (ApiError 400 ''request.invalid_field'')
                | Inr proj \<Rightarrow>
                    let J = leJ E; n = StorageName ref; fail = (\<lambda>e. Inl (localError (leSdk E) (ErrDb e)));
                        shaper = \<lparr>shProj = proj, shStrip = []\<rparr>;
                        flt = (if present J (vget J rt [''filter'']) then vget J rt [''filter''] else None);
                        keys = map (\<lambda>v. vstr J v []) (varray J rt [''sort'']);
                        limit = query_limit E rt; offset = query_offset E rt in
                    (case (if keys \<noteq> [] then leSort E keys else None) of
                       Some e \<Rightarrow> fail e
                     | None \<Rightarrow>
                         (case leFind E d n flt keys limit offset of
                            Inl e \<Rightarrow> fail e
                          | Inr (docs, Some e) \<Rightarrow> fail e
                          | Inr (docs, None) \<Rightarrow>
                              let records = List.map_filter (\<lambda>doc. shaper_record shaper (Some (leTree E doc))) docs in
                              if vbool J rt [''includeTotal''] then
                                (case dbCount (leDB E) d n flt of
                                   Inl e \<Rightarrow> fail e
                                 | Inr count \<Rightarrow> Inr (QueryReply records (Some (count, offset + length records < count))))
                              else Inr (QueryReply records None))))))"

section \<open>Pipelines\<close>

definition requirePipeline :: "'v anyenc \<Rightarrow> 'v \<Rightarrow> api_error + 'v" where
  "requirePipeline J rt =
     (case vget J rt [''pipeline''] of
        None \<Rightarrow> Inl missing_field
      | Some p \<Rightarrow>
          if vtyp J p = TypeNull then Inl missing_field
          else if vtyp J p \<noteq> TypeArray then Inl bad_schema
          else Inr p)"

text \<open>What the walk over the fields of a stage has found: a sink, the last collection named and whether by \<open>$lookup\<close>, the pipelines
  of \<open>$facet\<close>.\<close>

record 'v stage_seen =
  ssSink :: bool
  ssTarget :: "string option"
  ssLookup :: bool
  ssFacets :: "'v list"

definition stage_field :: "'v anyenc \<Rightarrow> string \<times> 'v \<Rightarrow> 'v stage_seen \<Rightarrow> 'v stage_seen" where
  "stage_field J kv st =
     (let key = fst kv; v = snd kv in
      if key = ''$out'' then
        (let st = st\<lparr>ssSink := True\<rparr> in
         if vtyp J v = TypeString then st\<lparr>ssTarget := Some (vbytes J v)\<rparr> else st)
      else if key = ''$merge'' then
        (let st = st\<lparr>ssSink := True\<rparr> in
         if vtyp J v = TypeString then st\<lparr>ssTarget := Some (vbytes J v)\<rparr>
         else if vtyp J v = TypeObject then
           (case vget J v [''into''] of
              None \<Rightarrow> st
            | Some into \<Rightarrow> if vtyp J into = TypeString then st\<lparr>ssTarget := Some (vbytes J into)\<rparr> else st)
         else st)
      else if key = ''$lookup'' then
        (case vget J v [''from''] of
           None \<Rightarrow> st
         | Some from \<Rightarrow>
             if vtyp J from = TypeString then st\<lparr>ssTarget := Some (vbytes J from), ssLookup := True\<rparr> else st)
      else if key = ''$facet'' \<and> vtyp J v = TypeObject then
        st\<lparr>ssFacets := ssFacets st @ filter (\<lambda>sub. vtyp J sub = TypeArray) (map snd (vvisit J v))\<rparr>
      else st)"

definition see_stage :: "'v anyenc \<Rightarrow> 'v \<Rightarrow> 'v stage_seen" where
  "see_stage J stage =
     fold (stage_field J) (vvisit J stage) \<lparr>ssSink = False, ssTarget = None, ssLookup = False, ssFacets = []\<rparr>"

text \<open>The checks on the collection a stage names.\<close>

definition target_error :: "('db, 'v, 'e) localEnv \<Rightarrow> Ref \<Rightarrow> 'db \<Rightarrow> 'v stage_seen \<Rightarrow> api_error option" where
  "target_error E source d st =
     (case ssTarget st of
        None \<Rightarrow> None
      | Some target \<Rightarrow>
          (case SinkTarget target of
             None \<Rightarrow> Some (localError (leSdk E) (ErrNotLocal target))
           | Some ref \<Rightarrow>
               if ssLookup st then (if ref \<noteq> source then Some (ApiError 400 ''local.bad_pipeline'') else None)
               else case localSpaceCheck E ref of
                 Some e \<Rightarrow> Some e
               | None \<Rightarrow> map_option (localError (leSdk E)) (Collection (leDB E) ref d)))"

definition first_error :: "api_error option list \<Rightarrow> api_error option" where
  "first_error es = (case filter (\<lambda>e. e \<noteq> None) es of [] \<Rightarrow> None | e # _ \<Rightarrow> e)"

text \<open>
  The walk, over the stages of a pipeline and, through \<open>$facet\<close>, the pipelines inside it. The parser refuses a text nested
  deeper than 300 values, so 300 levels are enough.
\<close>

fun pipeline_targets ::
  "('db, 'v, 'e) localEnv \<Rightarrow> Ref \<Rightarrow> 'db \<Rightarrow> nat \<Rightarrow> 'v list \<Rightarrow> bool \<times> api_error option" where
  "pipeline_targets E source d 0 stages = (False, None)"
| "pipeline_targets E source d (Suc k) [] = (False, None)"
| "pipeline_targets E source d (Suc k) (stage # stages) =
     (if vtyp (leJ E) stage \<noteq> TypeObject then pipeline_targets E source d (Suc k) stages
      else
        let st = see_stage (leJ E) stage in
        case first_error (map (\<lambda>sub. snd (pipeline_targets E source d k (varray (leJ E) sub []))) (ssFacets st)) of
          Some e \<Rightarrow> (ssSink st, Some e)
        | None \<Rightarrow>
            (case target_error E source d st of
               Some e \<Rightarrow> (ssSink st, Some e)
             | None \<Rightarrow>
                 let r = pipeline_targets E source d (Suc k) stages in (ssSink st \<or> fst r, snd r)))"

definition maxJSONDepth :: nat where "maxJSONDepth = 300"

definition localPipelineTargets :: "('db, 'v, 'e) localEnv \<Rightarrow> 'v \<Rightarrow> Ref \<Rightarrow> 'db \<Rightarrow> bool \<times> api_error option" where
  "localPipelineTargets E pipeline source d = pipeline_targets E source d maxJSONDepth (varray (leJ E) pipeline [])"

definition localAggregate :: "('db, 'v, 'e) localEnv \<Rightarrow> 'v body \<Rightarrow> 'db \<Rightarrow> (api_error + 'v local_reply) \<times> 'db" where
  "localAggregate E body d =
     (case resolveLocal E localAggregateFields False body d of
        Inl e \<Rightarrow> (Inl e, d)
      | Inr (ref, rt) \<Rightarrow>
          (case requirePipeline (leJ E) rt of
             Inl e \<Rightarrow> (Inl e, d)
           | Inr pipeline \<Rightarrow>
               (case localPipelineTargets E pipeline ref d of
                  (_, Some e) \<Rightarrow> (Inl e, d)
                | (hasSink, None) \<Rightarrow>
                    let n = StorageName ref; fail = (\<lambda>e. Inl (localError (leSdk E) (ErrDb e)));
                        opt = (\<lambda>k. map_option (\<lambda>v. leInt E v []) (vget (leJ E) rt [k]));
                        limits = (opt ''groupLimit'', opt ''accumArrayLimit'', opt ''memoryLimitBytes'') in
                    if vbool (leJ E) rt [''explain''] then
                      ((case leExplain E d n pipeline limits of Inl e \<Rightarrow> fail e | Inr p \<Rightarrow> Inr (PlanReply p)), d)
                    else if hasSink then
                      (case leAggCount E d n pipeline limits of
                         (Inl e, d') \<Rightarrow> (fail e, d')
                       | (Inr written, d') \<Rightarrow> (Inr (WrittenReply written), d'))
                    else
                      ((case leAggIter E d n pipeline limits of
                          Inl e \<Rightarrow> fail e
                        | Inr (docs, Some e) \<Rightarrow> fail e
                        | Inr (docs, None) \<Rightarrow> Inr (RecordsReply (map (leToJson E) docs))), d))))"

section \<open>Indexes, export and import\<close>

fun drop_indexes :: "('db, 'v, 'e) localEnv \<Rightarrow> string \<Rightarrow> 'v list \<Rightarrow> 'db \<Rightarrow> api_error option \<times> 'db" where
  "drop_indexes E n [] d = (None, d)"
| "drop_indexes E n (v # vs) d =
     (let name = vstr (leJ E) v [] in
      if name = [] then (Some bad_schema, d)
      else case dbDropIndex (leDB E) d n name of
        Inl ErrIndexNotFound \<Rightarrow> drop_indexes E n vs d
      | Inl e \<Rightarrow> (Some (localError (leSdk E) (ErrDb e)), d)
      | Inr d' \<Rightarrow> drop_indexes E n vs d')"

definition localIndexes :: "('db, 'v, 'e) localEnv \<Rightarrow> 'v body \<Rightarrow> 'db \<Rightarrow> (api_error + 'v local_reply) \<times> 'db" where
  "localIndexes E body d =
     (case resolveLocal E localIndexesFields True body d of
        Inl e \<Rightarrow> (Inl e, d)
      | Inr (ref, rt) \<Rightarrow>
          let n = StorageName ref in
          (case localIndexesFromValue E (vget (leJ E) rt [''ensure'']) of
             Inl e \<Rightarrow> (Inl e, d)
           | Inr ixs \<Rightarrow>
               (case drop_indexes E n (varray (leJ E) rt [''drop'']) d of
                  (Some e, d1) \<Rightarrow> (Inl e, d1)
                | (None, d1) \<Rightarrow>
                    (case (if ixs \<noteq> [] then dbEnsureIndex (leDB E) d1 n ixs else Inr d1) of
                       Inl e \<Rightarrow> (Inl (localError (leSdk E) (ErrDb e)), d1)
                     | Inr d2 \<Rightarrow> (Inr (IndexesReply (dbIndexes (leDB E) d2 n)), d2)))))"

text \<open>\<open>strings.TrimSpace\<close>: the white space of Unicode, as its UTF-8 bytes, off both ends.\<close>

definition white_spaces :: "string list" where
  "white_spaces = map (map char_of)
     ([[9], [10], [11], [12], [13], [32], [0xC2, 0x85], [0xC2, 0xA0], [0xE1, 0x9A, 0x80]] @
      map (\<lambda>b. [0xE2, 0x80, b]) ([0x80 ..< 0x8B] @ [0xA8, 0xA9, 0xAF]) @ [[0xE2, 0x81, 0x9F], [0xE3, 0x80, 0x80 :: nat]])"

function trim_front :: "string list \<Rightarrow> string \<Rightarrow> string" where
  "trim_front spaces s =
     (case find (\<lambda>sp. sp \<noteq> [] \<and> has_prefix sp s) spaces of
        None \<Rightarrow> s
      | Some sp \<Rightarrow> trim_front spaces (drop (length sp) s))"
  by pat_completeness auto
termination
  by (relation "measure (\<lambda>(spaces, s). length s)") (auto dest!: find_SomeD simp: has_prefix_iff)

declare trim_front.simps [simp del]

definition TrimSpace :: "string \<Rightarrow> string" where
  "TrimSpace s = rev (trim_front (map rev white_spaces) (rev (trim_front white_spaces s)))"

fun export_refs :: "('db, 'v, 'e) localEnv \<Rightarrow> Scope \<Rightarrow> string \<Rightarrow> 'db \<Rightarrow> string list \<Rightarrow> api_error + Ref list" where
  "export_refs E scope spaceId d [] = Inr []"
| "export_refs E scope spaceId d (nm # nms) =
     (let name = TrimSpace nm in
      if name = [] then export_refs E scope spaceId d nms
      else case localRef scope spaceId name of
        Inl e \<Rightarrow> Inl e
      | Inr ref \<Rightarrow>
          (case Collection (leDB E) ref d of
             Some e \<Rightarrow> Inl (localError (leSdk E) e)
           | None \<Rightarrow>
               (case export_refs E scope spaceId d nms of Inl e \<Rightarrow> Inl e | Inr refs \<Rightarrow> Inr (ref # refs))))"

text \<open>\<open>started\<close> is whether a byte reached the connection before the export failed.\<close>

definition localExport ::
  "('db, 'v, 'e) localEnv \<Rightarrow> ('v, 'e) xwriter \<Rightarrow> int \<Rightarrow> bool \<Rightarrow> string \<Rightarrow> string \<Rightarrow> string \<Rightarrow> 'db \<Rightarrow> api_error + 'v local_reply" where
  "localExport E W now started scope spaceId names d =
     (if \<not> leEnabled E then Inl localDisabled
      else
        let scope = query_scope scope spaceId in
        case (if names = [] then
                (case List (leDB E) scope spaceId d of
                   Inl e \<Rightarrow> Inl (localError (leSdk E) e)
                 | Inr infos \<Rightarrow>
                     if infos = [] then Inl (ApiError 404 ''local.collection_not_found'') else Inr (map inRef infos))
              else
                (case export_refs E scope spaceId d (split_on CHR '','' names) of
                   Inl e \<Rightarrow> Inl e
                 | Inr refs \<Rightarrow> if refs = [] then Inl missing_field else Inr refs)) of
          Inl e \<Rightarrow> Inl e
        | Inr refs \<Rightarrow>
            (case Export (leC E) (leDB E) W now refs d of
               Inr out \<Rightarrow> Inr (FileReply out)
             | Inl err \<Rightarrow>
                 if started then Inr ConnectionAborted
                 else Inl (case err of
                     ExportFailed e \<Rightarrow> localError (leSdk E) e
                   | SectionFailed _ e \<Rightarrow> localError (leSdk E) (ErrDb e)
                   | CountedIterated _ _ _ \<Rightarrow> sdkOpError plain_sdk)))"

definition localImport ::
  "('db, 'v, 'e) localEnv \<Rightarrow> ('v list \<times> rd_end) option \<Rightarrow> 'db \<Rightarrow> (api_error + 'v local_reply) \<times> 'db" where
  "localImport E file d =
     (if \<not> leEnabled E then (Inl localDisabled, d)
      else case Import (leC E) (leDB E) file d of
        (infos, None, d') \<Rightarrow> (Inr (ListReply (map localInfoToAPI infos)), d')
      | (infos, Some err, d') \<Rightarrow>
          (Inl (case (case err of ImportError _ e \<Rightarrow> e | ImportPlain e \<Rightarrow> e) of
              ErrBadExport _ \<Rightarrow> ApiError 400 ''local.bad_export''
            | e \<Rightarrow> localError (leSdk E) e), d'))"

section \<open>The routes\<close>

datatype ('v, 'e) local_request =
  GetMeta
| GetCollections string string
| PutCollections "'v body"
| DeleteCollections string string string
| PostInsert "nat \<Rightarrow> string" "'v body"
| PostUpsert "nat \<Rightarrow> string" "'v body"
| PostUpdate "'v body"
| PostDelete "'v body"
| PostGet "'v body"
| PostQuery "'v body"
| PostAggregate "'v body"
| PostIndexes "'v body"
| GetExport "('v, 'e) xwriter" int bool string string string
| PostImport "('v list \<times> rd_end) option"

fun serve_local :: "('db, 'v, 'e) localEnv \<Rightarrow> ('v, 'e) local_request \<Rightarrow> 'db \<Rightarrow> (api_error + 'v local_reply) \<times> 'db" where
  "serve_local E GetMeta d = (localMeta E, d)"
| "serve_local E (GetCollections scope spaceId) d = (localCollectionsList E scope spaceId d, d)"
| "serve_local E (PutCollections body) d = localCollectionsEnsure E body d"
| "serve_local E (DeleteCollections scope spaceId name) d = localCollectionsDrop E scope spaceId name d"
| "serve_local E (PostInsert mint body) d = localInsert E mint body d"
| "serve_local E (PostUpsert mint body) d = localUpsert E mint body d"
| "serve_local E (PostUpdate body) d = localUpdate E body d"
| "serve_local E (PostDelete body) d = localDelete E body d"
| "serve_local E (PostGet body) d = (localGet E body d, d)"
| "serve_local E (PostQuery body) d = (localQuery E body d, d)"
| "serve_local E (PostAggregate body) d = localAggregate E body d"
| "serve_local E (PostIndexes body) d = localIndexes E body d"
| "serve_local E (GetExport W now started scope spaceId names) d = (localExport E W now started scope spaceId names d, d)"
| "serve_local E (PostImport file) d = localImport E file d"

section \<open>Every change stays inside the fence\<close>

text \<open>
  The collections a pipeline writes, as the engine reads it: a stage is an object with one operator, and only \<open>$out\<close> and \<open>$merge\<close>
  at the top level write. \<open>agg_sinks\<close> is what the engine promises: it writes no other collection.
\<close>

definition sink_name :: "'v anyenc \<Rightarrow> string \<Rightarrow> 'v \<Rightarrow> string option" where
  "sink_name J key v =
     (if key = ''$out'' then (if vtyp J v = TypeString then Some (vbytes J v) else None)
      else if key = ''$merge'' then
        (if vtyp J v = TypeString then Some (vbytes J v)
         else if vtyp J v = TypeObject then
           (case vget J v [''into''] of
              None \<Rightarrow> None | Some into \<Rightarrow> if vtyp J into = TypeString then Some (vbytes J into) else None)
         else None)
      else None)"

definition stage_sink :: "'v anyenc \<Rightarrow> 'v \<Rightarrow> string option" where
  "stage_sink J stage =
     (if vtyp J stage = TypeObject \<and> length (vvisit J stage) = 1
      then sink_name J (fst (hd (vvisit J stage))) (snd (hd (vvisit J stage))) else None)"

definition sink_names :: "'v anyenc \<Rightarrow> 'v \<Rightarrow> string list" where
  "sink_names J pipeline = List.map_filter (stage_sink J) (varray J pipeline [])"

definition agg_sinks :: "('db, 'v, 'e) localEnv \<Rightarrow> ('db, 'v) dbview \<Rightarrow> bool" where
  "agg_sinks E view \<longleftrightarrow>
     (\<forall>d n p lims r d'. leAggCount E d n p lims = (r, d') \<longrightarrow>
        (\<forall>m. m \<notin> set (sink_names (leJ E) p) \<longrightarrow> view d' m = view d m))"

lemma pipeline_targets_stage:
  "pipeline_targets E source d (Suc k) stages = (b, None) \<Longrightarrow> stage \<in> set stages \<Longrightarrow> vtyp (leJ E) stage = TypeObject \<Longrightarrow>
     target_error E source d (see_stage (leJ E) stage) = None"
proof (induction stages arbitrary: b)
  case (Cons s stages)
  have rest: "\<exists>b. pipeline_targets E source d (Suc k) stages = (b, None)"
    using Cons.prems(1) by (auto simp: Let_def prod_eq_iff split: if_splits option.splits)
  show ?case
  proof (cases "stage = s")
    case True
    with Cons.prems(1,3) show ?thesis by (auto simp: Let_def split: option.splits)
  next
    case False
    with Cons rest show ?thesis by auto
  qed
qed simp

lemma sink_name_seen:
  assumes "sink_name J key v = Some n"
  shows "stage_field J (key, v) st = st\<lparr>ssSink := True, ssTarget := Some n\<rparr>"
proof (cases "key = ''$out''")
  case True
  with assms show ?thesis by (simp add: sink_name_def stage_field_def split: if_split_asm)
next
  case False
  with assms have "key = ''$merge''" by (simp only: sink_name_def split: if_split_asm) simp_all
  with assms show ?thesis by (simp add: sink_name_def stage_field_def split: if_split_asm option.split_asm)
qed

lemma stage_sink_seen:
  assumes "stage_sink J stage = Some n"
  shows "vtyp J stage = TypeObject" "ssTarget (see_stage J stage) = Some n" "\<not> ssLookup (see_stage J stage)"
proof -
  from assms have l: "vtyp J stage = TypeObject" "length (vvisit J stage) = 1"
    and s: "sink_name J (fst (hd (vvisit J stage))) (snd (hd (vvisit J stage))) = Some n"
    by (simp_all add: stage_sink_def split: if_split_asm)
  from l(2) obtain kv where kv: "vvisit J stage = [kv]" by (auto simp: length_Suc_conv)
  with s sink_name_seen [of J "fst kv" "snd kv" n] show "ssTarget (see_stage J stage) = Some n" "\<not> ssLookup (see_stage J stage)"
    by (simp_all add: see_stage_def)
  show "vtyp J stage = TypeObject" by (rule l(1))
qed

lemma sink_names_fenced:
  assumes "localPipelineTargets E pipeline source d = (b, None)" "n \<in> set (sink_names (leJ E) pipeline)"
  shows "local_name n \<and> (\<exists>ref. SinkTarget n = Some ref \<and> localSpaceCheck E ref = None \<and> Collection (leDB E) ref d = None)"
proof -
  from assms(2) obtain stage where st: "stage \<in> set (varray (leJ E) pipeline [])" "stage_sink (leJ E) stage = Some n"
    by (auto simp: sink_names_def in_map_filter)
  have "maxJSONDepth = Suc 299" by (simp add: maxJSONDepth_def)
  with assms(1) have "pipeline_targets E source d (Suc 299) (varray (leJ E) pipeline []) = (b, None)"
    by (simp add: localPipelineTargets_def)
  from pipeline_targets_stage [OF this st(1) stage_sink_seen(1) [OF st(2)]] stage_sink_seen(2,3) [OF st(2)]
  show ?thesis
    by (auto simp: target_error_def local_name_def SinkTarget_def split: option.splits)
qed

lemma localRef_ok: "localRef scope spaceId name = Inr ref \<Longrightarrow> ref_ok ref"
  by (auto simp: localRef_def intro: ParseRef_ok split: sum.splits)

lemma localRefFromValue_ok: "localRefFromValue E v strict = Inr ref \<Longrightarrow> ref_ok ref"
  by (auto simp: localRefFromValue_def intro: localRef_ok split: option.splits if_splits)

lemma resolveLocal_ok:
  "resolveLocal E accepted write body d = Inr (ref, rt) \<Longrightarrow> ref_ok ref \<and> Collection (leDB E) ref d = None"
  by (auto simp: resolveLocal_def intro: localRefFromValue_ok split: if_splits sum.splits option.splits)

lemma localWriteChunks_step:
  assumes "docs \<noteq> []"
  shows "localWriteChunks fn docs d =
     (case fn (take localWriteChunk docs) d of
        (Some e, d') \<Rightarrow> (Some e, d')
      | (None, d') \<Rightarrow> localWriteChunks fn (drop localWriteChunk docs) d')"
  using assms by (subst localWriteChunks.simps) simp

lemma localWriteChunks_frame:
  assumes fn: "\<And>chunk d e d'. fn chunk d = (e, d') \<Longrightarrow> frame view d n d'"
  shows "localWriteChunks fn docs d = (e, d') \<Longrightarrow> frame view d n d'"
proof (induction "length docs" arbitrary: docs d rule: less_induct)
  case less
  show ?case
  proof (cases "docs = []")
    case True
    with less.prems show ?thesis by (simp add: localWriteChunks.simps)
  next
    case False
    then have len: "length (drop localWriteChunk docs) < length docs" by (simp add: localWriteChunk_def)
    obtain e1 d1 where f: "fn (take localWriteChunk docs) d = (e1, d1)" by fastforce
    from fn [OF f] less.prems f less.hyps [OF len, of d1] show ?thesis
      unfolding localWriteChunks_step [OF False] by (cases e1) (auto intro: frame_trans)
  qed
qed

lemma insert_chunk_frame: "db_frames D view \<Longrightarrow> insert_chunk D n chunk d = (e, d') \<Longrightarrow> frame view d n d'"
  by (auto simp: insert_chunk_def intro: db_framesD(5) split: sum.splits)

lemma upsert_all_frame: "db_frames D view \<Longrightarrow> upsert_all D n docs d = Inr d' \<Longrightarrow> frame view d n d'"
  by (induction D n docs d rule: upsert_all.induct)
    (auto intro: frame_trans [OF db_framesD(6)] split: sum.splits)

lemma upsert_chunk_frame: "db_frames D view \<Longrightarrow> upsert_chunk D n chunk d = (e, d') \<Longrightarrow> frame view d n d'"
  by (auto simp: upsert_chunk_def intro: upsert_all_frame split: sum.splits option.splits)

lemma delete_all_frame: "db_frames D view \<Longrightarrow> delete_all D n k ids d = Inr (k', d') \<Longrightarrow> frame view d n d'"
  by (induction D n k ids d rule: delete_all.induct)
    (auto intro: frame_trans [OF db_framesD(8)] split: sum.splits db_err.splits)

lemma delete_chunks_frame: "db_frames D view \<Longrightarrow> delete_chunks D n k ids d = (r, d') \<Longrightarrow> frame view d n d'"
proof (induction D n k ids d arbitrary: r d' rule: delete_chunks.induct)
  case (1 D n k ids d)
  show ?case
  proof (cases "ids = []")
    case True
    with "1.prems" show ?thesis by (simp add: delete_chunks.simps)
  next
    case False
    from "1.prems"(2) False show ?thesis
      by (subst (asm) delete_chunks.simps)
        (auto split: option.splits sum.splits prod.splits
          intro: frame_trans [OF delete_all_frame [OF "1.prems"(1)]] "1.IH" [OF False _ _ refl _ "1.prems"(1)])
  qed
qed

lemma drop_indexes_frame: "db_frames (leDB E) view \<Longrightarrow> drop_indexes E n vs d = (e, d') \<Longrightarrow> frame view d n d'"
  by (induction E n vs d rule: drop_indexes.induct)
    (auto simp: Let_def intro: frame_trans [OF db_framesD(4)] split: if_splits sum.splits db_err.splits)

lemma resolved_fenced:
  assumes "resolveLocal E accepted write body d = Inr (ref, rt)" "frame view d (StorageName ref) d'"
  shows "fenced view d d'"
  using frame_fenced [OF assms(2)] resolveLocal_ok [OF assms(1)] by simp

lemma local_write_fenced:
  assumes chunk: "\<And>n docs d e d'. chunk n docs d = (e, d') \<Longrightarrow> frame view d n d'"
    and w: "local_write E chunk mint body d = (r, d')"
  shows "fenced view d d'"
proof (cases "resolveLocal E localDocsFields True body d")
  case (Inr p)
  obtain ref rt where p: "p = (ref, rt)" by fastforce
  note res = Inr [unfolded p]
  show ?thesis
  proof (cases "localDocsFromValue E mint (vget (leJ E) rt [''docs''])")
    case (Inr q)
    obtain docs ids where q: "q = (docs, ids)" by fastforce
    obtain e d1 where c: "localWriteChunks (chunk (StorageName ref)) docs d = (e, d1)" by fastforce
    have "d' = d1" using w res Inr q c by (cases e) (simp_all add: local_write_def)
    with resolved_fenced [OF res localWriteChunks_frame [OF chunk c]] show ?thesis by simp
  qed (use w res in \<open>simp add: local_write_def\<close>)
qed (use w in \<open>simp add: local_write_def\<close>)

lemma localUpdate_fenced:
  assumes fr: "db_frames (leDB E) view" and u: "localUpdate E body d = (r, d')"
  shows "fenced view d d'"
proof (cases "resolveLocal E localUpdateFields True body d")
  case (Inr p)
  obtain ref rt where p: "p = (ref, rt)" by fastforce
  note res = Inr [unfolded p]
  from u res have "d' = d \<or> (\<exists>m k. dbModifyId (leDB E) (vbool (leJ E) rt [''upsert'']) d (StorageName ref)
      (vstr (leJ E) rt [''id'']) m = Inr (k, d'))"
    by (auto simp: localUpdate_def Let_def split: if_split_asm option.split_asm sum.split_asm)
  then show ?thesis
    using resolved_fenced [OF res db_framesD(7) [OF fr]] by auto
qed (use u in \<open>simp add: localUpdate_def\<close>)

lemma localDelete_fenced:
  assumes fr: "db_frames (leDB E) view" and u: "localDelete E body d = (r, d')"
  shows "fenced view d d'"
proof (cases "resolveLocal E localDeleteFields False body d")
  case (Inr p)
  obtain ref rt where p: "p = (ref, rt)" by fastforce
  note res = Inr [unfolded p]
  show ?thesis
  proof (cases "delete_ids E ref rt d")
    case (Inr ids)
    obtain q d1 where c: "delete_chunks (leDB E) (StorageName ref) 0 ids d = (q, d1)" by fastforce
    have "d' = d1" using u res Inr c by (cases q) (simp_all add: localDelete_def)
    with resolved_fenced [OF res delete_chunks_frame [OF fr c]] show ?thesis by simp
  qed (use u res in \<open>simp add: localDelete_def\<close>)
qed (use u in \<open>simp add: localDelete_def\<close>)

lemma localIndexes_fenced:
  assumes fr: "db_frames (leDB E) view" and u: "localIndexes E body d = (r, d')"
  shows "fenced view d d'"
proof (cases "resolveLocal E localIndexesFields True body d")
  case (Inr p)
  obtain ref rt where p: "p = (ref, rt)" by fastforce
  note res = Inr [unfolded p]
  show ?thesis
  proof (cases "localIndexesFromValue E (vget (leJ E) rt [''ensure''])")
    case (Inr ixs)
    obtain e d1 where c: "drop_indexes E (StorageName ref) (varray (leJ E) rt [''drop'']) d = (e, d1)" by fastforce
    note f1 = drop_indexes_frame [OF fr c]
    have "d' = d1 \<or> dbEnsureIndex (leDB E) d1 (StorageName ref) ixs = Inr d'"
      using u res Inr c by (cases e) (auto simp: localIndexes_def Let_def split: sum.split_asm if_split_asm)
    with f1 frame_trans [OF f1 db_framesD(3) [OF fr]] have "frame view d (StorageName ref) d'" by auto
    then show ?thesis by (rule resolved_fenced [OF res])
  qed (use u res in \<open>simp add: localIndexes_def Let_def\<close>)
qed (use u in \<open>simp add: localIndexes_def\<close>)

lemma localCollectionsEnsure_fenced:
  assumes fr: "db_frames (leDB E) view" and u: "localCollectionsEnsure E body d = (r, d')"
  shows "fenced view d d'"
proof -
  have "d' = d \<or> (\<exists>ref ixs r'. ref_ok ref \<and> Ensure (leDB E) ref ixs d = (r', d'))"
    using u by (auto simp: localCollectionsEnsure_def dest: localRefFromValue_ok
        split: if_split_asm sum.split_asm option.split_asm prod.split_asm)
  with frame_fenced [OF Ensure_frame [OF fr]] show ?thesis by auto
qed

lemma localCollectionsDrop_fenced:
  assumes fr: "db_frames (leDB E) view" and u: "localCollectionsDrop E scope spaceId name d = (r, d')"
  shows "fenced view d d'"
proof -
  have "d' = d \<or> (\<exists>ref r'. ref_ok ref \<and> Drop (leDB E) ref d = (r', d'))"
    using u by (auto simp: localCollectionsDrop_def dest: localRef_ok
        split: if_split_asm sum.split_asm option.split_asm prod.split_asm)
  with frame_fenced [OF Drop_frame [OF fr]] show ?thesis by auto
qed

lemma localAggregate_writes:
  assumes ag: "agg_sinks E view" and u: "localAggregate E body d = (r, d')" and n: "view d' n \<noteq> view d n"
  shows "local_name n \<and> (\<exists>ref. SinkTarget n = Some ref \<and> localSpaceCheck E ref = None \<and> Collection (leDB E) ref d = None)"
proof (cases "resolveLocal E localAggregateFields False body d")
  case (Inr p)
  obtain ref rt where p: "p = (ref, rt)" by fastforce
  note res = Inr [unfolded p]
  show ?thesis
  proof (cases "requirePipeline (leJ E) rt")
    case (Inr pl)
    obtain b e where t: "localPipelineTargets E pl ref d = (b, e)" by fastforce
    have e: "e = None" and c: "\<exists>lims r'. leAggCount E d (StorageName ref) pl lims = (r', d')"
      using u n res Inr t by (auto simp: localAggregate_def Let_def split: option.split_asm if_split_asm sum.split_asm prod.split_asm)
    from c ag n have "n \<in> set (sink_names (leJ E) pl)" unfolding agg_sinks_def by blast
    with sink_names_fenced [OF t [unfolded e]] show ?thesis by simp
  qed (use u n res in \<open>simp add: localAggregate_def\<close>)
qed (use u n in \<open>simp add: localAggregate_def\<close>)

lemma localImport_fenced: "db_frames (leDB E) view \<Longrightarrow> localImport E file d = (r, d') \<Longrightarrow> fenced view d d'"
  by (auto simp: localImport_def intro: Import_fenced split: if_split_asm prod.split_asm option.split_asm)

lemma serve_local_fenced:
  assumes "db_frames (leDB E) view" "agg_sinks E view"
  shows "fenced view d (snd (serve_local E req d))"
proof (cases req)
  case (PutCollections body)
  with localCollectionsEnsure_fenced [OF assms(1) prod.collapse [symmetric]] show ?thesis by simp
next
  case (DeleteCollections scope spaceId name)
  with localCollectionsDrop_fenced [OF assms(1) prod.collapse [symmetric]] show ?thesis by simp
next
  case (PostInsert mint body)
  with local_write_fenced [OF insert_chunk_frame [OF assms(1)] prod.collapse [symmetric]] show ?thesis
    by (simp add: localInsert_def)
next
  case (PostUpsert mint body)
  with local_write_fenced [OF upsert_chunk_frame [OF assms(1)] prod.collapse [symmetric]] show ?thesis
    by (simp add: localUpsert_def)
next
  case (PostUpdate body)
  with localUpdate_fenced [OF assms(1) prod.collapse [symmetric]] show ?thesis by simp
next
  case (PostDelete body)
  with localDelete_fenced [OF assms(1) prod.collapse [symmetric]] show ?thesis by simp
next
  case (PostAggregate body)
  have "local_name n" if "view (snd (localAggregate E body d)) n \<noteq> view d n" for n
    using localAggregate_writes [OF assms(2) prod.collapse [symmetric] that] by blast
  with PostAggregate show ?thesis by (auto simp: fenced_def)
next
  case (PostIndexes body)
  with localIndexes_fenced [OF assms(1) prod.collapse [symmetric]] show ?thesis by simp
next
  case (PostImport body)
  with localImport_fenced [OF assms(1) prod.collapse [symmetric]] show ?thesis by simp
qed simp_all

definition serve_all :: "('db, 'v, 'e) localEnv \<Rightarrow> ('v, 'e) local_request list \<Rightarrow> 'db \<Rightarrow> 'db" where
  "serve_all E reqs d = fold (\<lambda>req d. snd (serve_local E req d)) reqs d"

lemma serve_all_fenced:
  assumes "db_frames (leDB E) view" "agg_sinks E view"
  shows "fenced view d (serve_all E reqs d)"
  unfolding serve_all_def
proof (induction reqs arbitrary: d)
  case (Cons req reqs)
  from fenced_trans [OF serve_local_fenced [OF assms] Cons.IH] show ?case by simp
qed simp

text \<open>
  C20. The local store never touches synced data. Whatever requests arrive on its routes, in whatever order, with whatever bodies,
  pipelines and files, every collection whose name is not the storage name of a local reference is as it
  was. A pipeline that writes does so only to local collections, whose space is live and that existed before: a sink
  never creates one.
\<close>

theorem local_fence:
  assumes "db_frames (leDB E) view" and "agg_sinks E view" and "db_opens (leDB E) view"
  shows "(\<forall>n. \<not> local_name n \<longrightarrow> view (serve_all E reqs d) n = view d n) \<and>
    (\<forall>n. view (snd (localAggregate E body d)) n \<noteq> view d n \<longrightarrow>
       view d n \<noteq> None \<and> (\<exists>ref. ref_ok ref \<and> StorageName ref = n \<and> localSpaceCheck E ref = None))"
proof (intro conjI allI impI)
  fix n
  assume "\<not> local_name n"
  with serve_all_fenced [OF assms(1,2)] show "view (serve_all E reqs d) n = view d n"
    unfolding fenced_def by blast
next
  fix n
  assume "view (snd (localAggregate E body d)) n \<noteq> view d n"
  from localAggregate_writes [OF assms(2) prod.collapse [symmetric] this] obtain ref
    where s: "SinkTarget n = Some ref" and sp: "localSpaceCheck E ref = None" and c: "Collection (leDB E) ref d = None"
    by blast
  from s have r: "ref_ok ref" "StorageName ref = n"
    by (auto simp: SinkTarget_def dest: ParseStorageName_Some)
  from c r(2) have "dbOpen (leDB E) d n = None"
    by (auto simp: Collection_def split: option.split_asm db_err.split_asm)
  with assms(3) show "view d n \<noteq> None" unfolding db_opens_def by blast
  from r sp show "\<exists>ref. ref_ok ref \<and> StorageName ref = n \<and> localSpaceCheck E ref = None" by blast
qed

section \<open>What a write leaves\<close>

text \<open>An insert stores documents whose ids are new.\<close>

definition fresh :: "'v anyenc \<Rightarrow> ('db, 'v) dbview \<Rightarrow> string \<Rightarrow> 'v list \<Rightarrow> 'db \<Rightarrow> bool" where
  "fresh enc view n vs d \<longleftrightarrow> (\<forall>v \<in> set vs. docs_of view d n (the (doc_id enc v)) = None)"

definition db_inserts :: "'v anyenc \<Rightarrow> ('db, 'v, 'e) anydb \<Rightarrow> ('db, 'v) dbview \<Rightarrow> bool" where
  "db_inserts enc D view \<longleftrightarrow>
     (\<forall>d n vs d'. dbInsert D d n vs = Inr d' \<longrightarrow> fresh enc view n vs d \<and> upserted enc view n vs d d')"

lemma overlay_None: "overlay enc m vs i = None \<Longrightarrow> m i = None"
proof (induction vs arbitrary: m)
  case (Cons v vs)
  from Cons.prems have "overlay enc (m(the (doc_id enc v) \<mapsto> v)) vs i = None" by (simp add: overlay_def)
  from Cons.IH [OF this] show ?case by (simp split: if_split_asm)
qed (simp add: overlay_def)

lemma fresh_append:
  "fresh enc view n xs d \<Longrightarrow> upserted enc view n xs d d1 \<Longrightarrow> fresh enc view n ys d1 \<Longrightarrow> fresh enc view n (xs @ ys) d"
  by (auto simp: fresh_def upserted_def dest: overlay_None)

lemma take_chunks: "take (k * j) (drop k xs) = drop k (take (k * Suc j) xs)" "take k xs @ drop k (take (k * Suc j) xs) = take (k * Suc j) xs"
proof -
  show "take (k * j) (drop k xs) = drop k (take (k * Suc j) xs)" by (simp add: take_drop add.commute)
  have "take k (take (k * Suc j) xs) = take k xs" by (simp add: min_def)
  then show "take k xs @ drop k (take (k * Suc j) xs) = take (k * Suc j) xs" by (metis append_take_drop_id)
qed

lemma localWriteChunks_contents:
  assumes ok: "\<And>chunk d d'. fn chunk d = (None, d') \<Longrightarrow> upserted enc view n chunk d d' \<and> (ins \<longrightarrow> fresh enc view n chunk d)"
    and err: "\<And>chunk d x d'. fn chunk d = (Some x, d') \<Longrightarrow> d' = d"
  shows "localWriteChunks fn docs d = (e, d') \<Longrightarrow>
    \<exists>m. upserted enc view n m d d' \<and> (ins \<longrightarrow> fresh enc view n m d) \<and>
      (case e of None \<Rightarrow> m = docs | Some _ \<Rightarrow> \<exists>j. m = take (localWriteChunk * j) docs)"
proof (induction "length docs" arbitrary: docs d rule: less_induct)
  case less
  show ?case
  proof (cases "docs = []")
    case True
    with less.prems show ?thesis
      by (intro exI [of _ "[]"]) (simp add: localWriteChunks.simps upserted_def overlay_def fresh_def)
  next
    case False
    let ?a = "take localWriteChunk docs" and ?b = "drop localWriteChunk docs"
    have len: "length ?b < length docs" using False by (simp add: localWriteChunk_def)
    obtain e1 d1 where f: "fn ?a d = (e1, d1)" by fastforce
    show ?thesis
    proof (cases e1)
      case (Some x)
      with less.prems f err [of ?a d x d1] have "e = Some x" "d' = d"
        unfolding localWriteChunks_step [OF False] by simp_all
      then show ?thesis
        by (intro exI [of _ "[]"]) (auto simp: upserted_def overlay_def fresh_def intro: exI [of _ 0])
    next
      case None
      with less.prems f have r: "localWriteChunks fn ?b d1 = (e, d')"
        unfolding localWriteChunks_step [OF False] by simp
      from ok [OF f [unfolded None]] have u: "upserted enc view n ?a d d1" and fr: "ins \<longrightarrow> fresh enc view n ?a d" by auto
      from less.hyps [OF len r] obtain m where m: "upserted enc view n m d1 d'" "ins \<longrightarrow> fresh enc view n m d1"
        "case e of None \<Rightarrow> m = ?b | Some _ \<Rightarrow> \<exists>j. m = take (localWriteChunk * j) ?b"
        by blast
      have "case e of None \<Rightarrow> ?a @ m = docs | Some _ \<Rightarrow> \<exists>j. ?a @ m = take (localWriteChunk * j) docs"
      proof (cases e)
        case (Some x)
        with m(3) obtain j where "m = take (localWriteChunk * j) ?b" by auto
        then have "?a @ m = take (localWriteChunk * Suc j) docs" by (simp only: take_chunks)
        then have "\<exists>j. ?a @ m = take (localWriteChunk * j) docs" by (rule exI)
        with Some show ?thesis by (simp only: option.case)
      qed (use m(3) in simp)
      with upserted_append [OF u m(1)] fresh_append [OF _ u] fr m(2) show ?thesis
        by (intro exI [of _ "?a @ m"]) auto
    qed
  qed
qed

lemma upsert_all_contents:
  "any_db enc str D view \<Longrightarrow> upsert_all D n docs d = Inr d' \<Longrightarrow> upserted enc view n docs d d'"
proof (induction docs arbitrary: d)
  case (Cons v docs)
  then obtain d1 where "dbUpsertOne D d n v = Inr d1" "upsert_all D n docs d1 = Inr d'"
    by (auto split: sum.splits)
  with Cons upserted_append [OF upserted_one [OF Cons.prems(1)], of d n v d1 docs d'] show ?case by simp
qed (simp add: upserted_def overlay_def)

lemma upsert_chunk_contents:
  "any_db enc str D view \<Longrightarrow> upsert_chunk D n chunk d = (None, d') \<Longrightarrow> upserted enc view n chunk d d'"
  "upsert_chunk D n chunk d = (Some x, d') \<Longrightarrow> d' = d"
  by (auto simp: upsert_chunk_def intro: upsert_all_contents split: option.splits sum.splits)

lemma insert_chunk_contents:
  "db_inserts enc D view \<Longrightarrow> insert_chunk D n chunk d = (None, d') \<Longrightarrow>
     upserted enc view n chunk d d' \<and> fresh enc view n chunk d"
  "insert_chunk D n chunk d = (Some x, d') \<Longrightarrow> d' = d"
  by (auto simp: insert_chunk_def db_inserts_def split: sum.splits)

lemma local_write_exact:
  assumes res: "resolveLocal E localDocsFields True body d = Inr (ref, rt)"
    and docs: "localDocsFromValue E mint (vget (leJ E) rt [''docs'']) = Inr (docs, ids)"
    and ok: "\<And>chunk d d'. ch (StorageName ref) chunk d = (None, d') \<Longrightarrow>
      upserted enc view (StorageName ref) chunk d d' \<and> (ins \<longrightarrow> fresh enc view (StorageName ref) chunk d)"
    and err: "\<And>chunk d x d'. ch (StorageName ref) chunk d = (Some x, d') \<Longrightarrow> d' = d"
    and w: "local_write E ch mint body d = (r, d')"
  shows "\<exists>m. upserted enc view (StorageName ref) m d d' \<and> (ins \<longrightarrow> fresh enc view (StorageName ref) m d) \<and>
      (case r of Inr reply \<Rightarrow> reply = IdsReply ids \<and> m = docs | Inl _ \<Rightarrow> \<exists>j. m = take (localWriteChunk * j) docs)"
proof -
  obtain e d1 where c: "localWriteChunks (ch (StorageName ref)) docs d = (e, d1)" by fastforce
  have "\<exists>m. upserted enc view (StorageName ref) m d d1 \<and> (ins \<longrightarrow> fresh enc view (StorageName ref) m d) \<and>
      (case e of None \<Rightarrow> m = docs | Some _ \<Rightarrow> \<exists>j. m = take (localWriteChunk * j) docs)"
    using ok err c by (rule localWriteChunks_contents)
  then obtain m where m:
    "upserted enc view (StorageName ref) m d d1" "ins \<longrightarrow> fresh enc view (StorageName ref) m d"
    "case e of None \<Rightarrow> m = docs | Some _ \<Rightarrow> \<exists>j. m = take (localWriteChunk * j) docs"
    by blast
  show ?thesis
  proof (cases e)
    case None
    with w res docs c have "r = Inr (IdsReply ids)" "d' = d1" by (simp_all add: local_write_def)
    with m None show ?thesis by (intro exI [of _ m]) simp
  next
    case (Some x)
    with w res docs c have "r = Inl (localError (leSdk E) (ErrDb x))" "d' = d1" by (simp_all add: local_write_def)
    with m Some show ?thesis by (intro exI [of _ m]) simp
  qed
qed

section \<open>What a delete leaves\<close>

definition removed :: "(string \<Rightarrow> 'v) \<Rightarrow> ('db, 'v) dbview \<Rightarrow> string \<Rightarrow> string list \<Rightarrow> 'db \<Rightarrow> 'db \<Rightarrow> bool" where
  "removed str view n ids d d' \<longleftrightarrow>
     frame view d n d' \<and> (\<forall>i. docs_of view d' n i = (if i \<in> str ` set ids then None else docs_of view d n i))"

definition found :: "(string \<Rightarrow> 'v) \<Rightarrow> ('db, 'v) dbview \<Rightarrow> string \<Rightarrow> string list \<Rightarrow> 'db \<Rightarrow> nat" where
  "found str view n ids d = card {i \<in> str ` set ids. docs_of view d n i \<noteq> None}"

lemma removed_Nil [simp]: "removed str view n [] d d"
  by (simp add: removed_def)

lemma removed_append:
  "removed str view n xs d d1 \<Longrightarrow> removed str view n ys d1 d2 \<Longrightarrow> removed str view n (xs @ ys) d d2"
  by (auto simp: removed_def intro: frame_trans)

lemma found_append:
  assumes "removed str view n xs d d1"
  shows "found str view n (xs @ ys) d = found str view n xs d + found str view n ys d1"
proof -
  let ?A = "{i \<in> str ` set xs. docs_of view d n i \<noteq> None}" and ?B = "{i \<in> str ` set ys. docs_of view d1 n i \<noteq> None}"
  have "{i \<in> str ` set (xs @ ys). docs_of view d n i \<noteq> None} = ?A \<union> ?B"
    using assms by (auto simp: removed_def)
  moreover have "?A \<inter> ?B = {}" using assms by (auto simp: removed_def)
  moreover have "finite ?A" "finite ?B" by simp_all
  ultimately show ?thesis by (simp only: found_def card_Un_disjoint)
qed

lemma delete_one:
  assumes db: "any_db enc str D view" and d: "dbDeleteId D d n i = Inr d'"
  shows "removed str view n [i] d d'" "found str view n [i] d = 1"
proof -
  from any_dbD(8) [OF db] d obtain c where c: "view d n = Some c" "dcDocs c (str i) \<noteq> None"
    "view d' n = Some (c\<lparr>dcDocs := (dcDocs c)(str i := None)\<rparr>)"
    unfolding db_deletes_def by blast
  with db_framesD(8) [OF any_dbD(1) [OF db] d] show "removed str view n [i] d d'"
    by (simp add: removed_def docs_of_def)
  have "{j \<in> str ` set [i]. docs_of view d n j \<noteq> None} = {str i}"
    using c by (auto simp: docs_of_def)
  then show "found str view n [i] d = 1" by (simp add: found_def)
qed

lemma delete_missing:
  assumes db: "any_db enc str D view" and d: "dbDeleteId D d n i = Inl ErrDocNotFound"
  shows "removed str view n [i] d d" "found str view n [i] d = 0"
proof -
  have "map_option (\<lambda>c. dcDocs c (str i)) (view d n) \<in> {None, Some None}"
    using any_dbD(8) [OF db] d unfolding db_deletes_def by blast
  then have "docs_of view d n (str i) = None"
    by (cases "view d n") (simp_all add: docs_of_def)
  then show "removed str view n [i] d d" "found str view n [i] d = 0"
    by (auto simp: removed_def found_def)
qed

lemma delete_all_contents:
  assumes db: "any_db enc str D view"
  shows "delete_all D n k ids d = Inr (k', d') \<Longrightarrow> removed str view n ids d d' \<and> k' = k + found str view n ids d"
proof (induction ids arbitrary: k d)
  case Nil
  then show ?case by (simp add: found_def)
next
  case (Cons i ids)
  consider (gone) "dbDeleteId D d n i = Inl ErrDocNotFound" "delete_all D n k ids d = Inr (k', d')"
    | (hit) d1 where "dbDeleteId D d n i = Inr d1" "delete_all D n (k + 1) ids d1 = Inr (k', d')"
    using Cons.prems by (auto split: sum.splits db_err.splits)
  then show ?case
  proof cases
    case gone
    with Cons.IH [OF gone(2)] removed_append [OF delete_missing(1) [OF db gone(1)], of ids d']
      found_append [OF delete_missing(1) [OF db gone(1)], of ids] delete_missing(2) [OF db gone(1)]
    show ?thesis by simp
  next
    case hit
    with Cons.IH [OF hit(2)] removed_append [OF delete_one(1) [OF db hit(1)], of ids d']
      found_append [OF delete_one(1) [OF db hit(1)], of ids] delete_one(2) [OF db hit(1)]
    show ?thesis by simp
  qed
qed

lemma delete_chunks_contents:
  assumes db: "any_db enc str D view"
  shows "delete_chunks D n k ids d = (r, d') \<Longrightarrow>
    \<exists>m. removed str view n m d d' \<and>
      (case r of Inr k' \<Rightarrow> m = ids \<and> k' = k + found str view n ids d | Inl _ \<Rightarrow> \<exists>j. m = take (localWriteChunk * j) ids)"
proof (induction "length ids" arbitrary: ids k d rule: less_induct)
  case less
  show ?case
  proof (cases "ids = []")
    case True
    with less.prems show ?thesis by (auto simp: delete_chunks.simps found_def intro: exI [of _ "[]"])
  next
    case False
    let ?a = "take localWriteChunk ids" and ?b = "drop localWriteChunk ids"
    have len: "length ?b < length ids" using False by (simp add: localWriteChunk_def)
    have stop: ?thesis if "r = Inl x" "d' = d" for x
      using that by (intro exI [of _ "[]"]) (auto intro: exI [of _ 0])
    from less.prems False consider (stop) x where "r = Inl x" "d' = d"
      | (go) k1 d1 where "delete_all D n k ?a d = Inr (k1, d1)" "delete_chunks D n k1 ?b d1 = (r, d')"
      by (subst (asm) delete_chunks.simps) (auto split: option.split_asm sum.split_asm prod.split_asm)
    then show ?thesis
    proof cases
      case (go k1 d1)
      from delete_all_contents [OF db go(1)] have a: "removed str view n ?a d d1" and k1: "k1 = k + found str view n ?a d" by auto
      from less.hyps [OF len go(2)] obtain m where m: "removed str view n m d1 d'"
        "case r of Inr k' \<Rightarrow> m = ?b \<and> k' = k1 + found str view n ?b d1 | Inl _ \<Rightarrow> \<exists>j. m = take (localWriteChunk * j) ?b"
        by blast
      have "case r of Inr k' \<Rightarrow> ?a @ m = ids \<and> k' = k + found str view n ids d
          | Inl _ \<Rightarrow> \<exists>j. ?a @ m = take (localWriteChunk * j) ids"
      proof (cases r)
        case (Inl x)
        with m(2) obtain j where "m = take (localWriteChunk * j) ?b" by auto
        then have "?a @ m = take (localWriteChunk * Suc j) ids" by (simp only: take_chunks)
        then have "\<exists>j. ?a @ m = take (localWriteChunk * j) ids" by (rule exI)
        with Inl show ?thesis by (simp only: sum.case)
      next
        case (Inr k')
        with m(2) k1 found_append [OF a, of ?b] show ?thesis by simp
      qed
      with removed_append [OF a m(1)] show ?thesis by (intro exI [of _ "?a @ m"]) auto
    qed (rule stop)
  qed
qed

section \<open>The properties of writes and deletes\<close>

text \<open>
  What the JSON accessors promise of ids: a document with a string for its id has that id when it is stored,
  and an id that was set is the id of the object.
\<close>

definition json_ids :: "('db, 'v, 'e) localEnv \<Rightarrow> (string \<Rightarrow> 'v) \<Rightarrow> bool" where
  "json_ids E str \<longleftrightarrow>
     (\<forall>v x doc. vget (leJ E) v [''id''] = Some x \<longrightarrow> vtyp (leJ E) x = TypeString \<longrightarrow> leParseDoc E v = Some doc \<longrightarrow>
        doc_id (cdEnc (leC E)) doc = Some (str (vbytes (leJ E) x))) \<and>
     (\<forall>v s. vtyp (leJ E) v = TypeObject \<longrightarrow>
        (\<exists>x. vget (leJ E) (leSetId E v s) [''id''] = Some x \<and> vtyp (leJ E) x = TypeString \<and> vbytes (leJ E) x = s))"

text \<open>
  The documents and ids a request with the elements \<open>items\<close> stands for: one each, in order, the document
  being the element itself under its own string id, or the element with the id minted for its place.
\<close>

definition own_id :: "('db, 'v, 'e) localEnv \<Rightarrow> 'v \<Rightarrow> string option" where
  "own_id E item =
     (case vget (leJ E) item [''id''] of None \<Rightarrow> None
      | Some x \<Rightarrow> if vtyp (leJ E) x = TypeNull then None else Some (vbytes (leJ E) x))"

definition stands_for ::
  "('db, 'v, 'e) localEnv \<Rightarrow> (string \<Rightarrow> 'v) \<Rightarrow> string \<Rightarrow> 'v \<Rightarrow> 'v \<Rightarrow> string \<Rightarrow> bool" where
  "stands_for E str minted item doc i \<longleftrightarrow>
     doc_id (cdEnc (leC E)) doc = Some (str i) \<and>
     (case own_id E item of
        Some j \<Rightarrow> i = j \<and> i \<noteq> [] \<and> leParseDoc E item = Some doc
      | None \<Rightarrow> i = minted \<and> leParseDoc E (leSetId E item minted) = Some doc)"

lemma docs_item_stands:
  assumes "json_ids E str" "vtyp (leJ E) item = TypeObject" "docs_item E minted item = Inr (i, item')"
    "leParseDoc E item' = Some doc"
  shows "stands_for E str minted item doc i"
  using assms by (fastforce simp: docs_item_def stands_for_def own_id_def json_ids_def Let_def
      split: option.splits if_splits)

lemma docs_loop_stands:
  assumes "json_ids E str"
  shows "docs_loop E mint n items = Inr (docs, ids) \<Longrightarrow>
    length docs = length items \<and> length ids = length items \<and>
    (\<forall>j < length items. stands_for E str (mint (n + j)) (items ! j) (docs ! j) (ids ! j))"
proof (induction items arbitrary: n docs ids)
  case (Cons item items)
  then obtain i item' doc docs' ids' where s: "vtyp (leJ E) item = TypeObject" "docs_item E (mint n) item = Inr (i, item')"
    "leParseDoc E item' = Some doc" "docs_loop E mint (n + 1) items = Inr (docs', ids')" "docs = doc # docs'" "ids = i # ids'"
    by (auto split: if_splits sum.splits prod.splits option.splits)
  from docs_item_stands [OF assms s(1-3)] Cons.IH [OF s(4)] show ?case
    unfolding s(5,6) by (simp add: All_less_Suc2)
qed simp

lemma localDocsFromValue_stands:
  assumes "json_ids E str" "localDocsFromValue E mint v = Inr (docs, ids)"
  shows "\<exists>a. v = Some a \<and> length docs = length (varray (leJ E) a []) \<and> length ids = length (varray (leJ E) a []) \<and>
    (\<forall>j < length (varray (leJ E) a []). stands_for E str (mint j) (varray (leJ E) a [] ! j) (docs ! j) (ids ! j))"
  using assms(2) docs_loop_stands [OF assms(1), of mint 0]
  by (auto simp: localDocsFromValue_def Let_def split: option.splits if_splits)

lemma write_stores:
  assumes "any_db (cdEnc (leC E)) str (leDB E) view" and "db_inserts (cdEnc (leC E)) (leDB E) view"
    and "resolveLocal E localDocsFields True body d = Inr (ref, rt)"
    and "localDocsFromValue E mint (vget (leJ E) rt [''docs'']) = Inr (docs, ids)"
    and "req \<in> {PostInsert mint body, PostUpsert mint body}" and "serve_local E req d = (r, d')"
  shows "\<exists>stored.
      docs_of view d' (StorageName ref) = overlay (cdEnc (leC E)) (docs_of view d (StorageName ref)) stored \<and>
      (\<forall>n. n \<noteq> StorageName ref \<longrightarrow> view d' n = view d n) \<and>
      (req = PostInsert mint body \<longrightarrow>
         (\<forall>v \<in> set stored. docs_of view d (StorageName ref) (the (doc_id (cdEnc (leC E)) v)) = None)) \<and>
      (case r of
         Inr reply \<Rightarrow> reply = IdsReply ids \<and> stored = docs
       | Inl _ \<Rightarrow> \<exists>k. stored = take (localWriteChunk * k) docs)"
proof (cases "req = PostInsert mint body")
  case True
  with assms(6) have w: "local_write E (insert_chunk (leDB E)) mint body d = (r, d')" by (simp add: localInsert_def)
  have "\<exists>m. upserted (cdEnc (leC E)) view (StorageName ref) m d d' \<and>
      (True \<longrightarrow> fresh (cdEnc (leC E)) view (StorageName ref) m d) \<and>
      (case r of Inr reply \<Rightarrow> reply = IdsReply ids \<and> m = docs | Inl _ \<Rightarrow> \<exists>j. m = take (localWriteChunk * j) docs)"
    using assms(3,4) _ _ w
    by (rule local_write_exact) (simp_all add: insert_chunk_contents(1) [OF assms(2)] insert_chunk_contents(2))
  then show ?thesis unfolding upserted_def frame_def fresh_def by blast
next
  case False
  with assms(5,6) have w: "local_write E (upsert_chunk (leDB E)) mint body d = (r, d')" by (auto simp: localUpsert_def)
  have "\<exists>m. upserted (cdEnc (leC E)) view (StorageName ref) m d d' \<and>
      (False \<longrightarrow> fresh (cdEnc (leC E)) view (StorageName ref) m d) \<and>
      (case r of Inr reply \<Rightarrow> reply = IdsReply ids \<and> m = docs | Inl _ \<Rightarrow> \<exists>j. m = take (localWriteChunk * j) docs)"
    using assms(3,4) _ _ w
    by (rule local_write_exact) (simp_all add: upsert_chunk_contents(1) [OF assms(1)] upsert_chunk_contents(2))
  with False show ?thesis unfolding upserted_def frame_def by blast
qed

text \<open>
  C22. A write on an existing collection stores exactly the documents of its request, or the whole chunks before the
  one that failed. A request that does not stand for documents is refused and changes nothing. Otherwise there is one
  document for each element, in order: the element itself under the string it carries as its id, or, when it carries
  none, the element with a minted id. When an insert or an upsert answers with the ids, every one of these documents is
  stored under its id, in the order given; when it fails, the documents of some whole number of chunks of 256 are
  stored and no others. In both cases the other documents of the collection and every other collection are as they
  were, and an insert never replaced a document. Assumed: what any-store documents of its calls (\<open>any_db\<close>,
  \<open>db_inserts\<close>), and that reading a document keeps the id it was given (\<open>json_ids\<close>).
\<close>

theorem writes_exact:
  assumes "any_db (cdEnc (leC E)) str (leDB E) view" and "db_inserts (cdEnc (leC E)) (leDB E) view"
    and "json_ids E str"
    and "resolveLocal E localDocsFields True body d = Inr (ref, rt)"
    and "req \<in> {PostInsert mint body, PostUpsert mint body}" and "serve_local E req d = (r, d')"
  shows "case localDocsFromValue E mint (vget (leJ E) rt [''docs'']) of
      Inl e \<Rightarrow> r = Inl e \<and> d' = d
    | Inr (docs, ids) \<Rightarrow>
        (\<exists>a. vget (leJ E) rt [''docs''] = Some a \<and>
           length docs = length (varray (leJ E) a []) \<and> length ids = length (varray (leJ E) a []) \<and>
           (\<forall>j < length (varray (leJ E) a []). stands_for E str (mint j) (varray (leJ E) a [] ! j) (docs ! j) (ids ! j))) \<and>
        (\<exists>stored.
           docs_of view d' (StorageName ref) = overlay (cdEnc (leC E)) (docs_of view d (StorageName ref)) stored \<and>
           (\<forall>n. n \<noteq> StorageName ref \<longrightarrow> view d' n = view d n) \<and>
           (req = PostInsert mint body \<longrightarrow>
              (\<forall>v \<in> set stored. docs_of view d (StorageName ref) (the (doc_id (cdEnc (leC E)) v)) = None)) \<and>
           (case r of
              Inr reply \<Rightarrow> reply = IdsReply ids \<and> stored = docs
            | Inl _ \<Rightarrow> \<exists>k. stored = take (localWriteChunk * k) docs))"
proof (cases "localDocsFromValue E mint (vget (leJ E) rt [''docs''])")
  case (Inl e)
  with assms(4-6) show ?thesis by (auto simp: localInsert_def localUpsert_def local_write_def)
next
  case (Inr p)
  then obtain docs ids where docs: "localDocsFromValue E mint (vget (leJ E) rt [''docs'']) = Inr (docs, ids)"
    by (cases p) simp
  show ?thesis
    unfolding docs sum.case prod.case
    by (intro conjI localDocsFromValue_stands [OF assms(3) docs] write_stores [OF assms(1,2,4) docs assms(5,6)])
qed

lemma delete_removes:
  assumes "any_db (cdEnc (leC E)) str (leDB E) view"
    and "resolveLocal E localDeleteFields False body d = Inr (ref, rt)"
    and "delete_ids E ref rt d = Inr ids" and "localDelete E body d = (r, d')"
  shows "\<exists>gone.
      (\<forall>i. docs_of view d' (StorageName ref) i = (if i \<in> str ` set gone then None else docs_of view d (StorageName ref) i)) \<and>
      (\<forall>n. n \<noteq> StorageName ref \<longrightarrow> view d' n = view d n) \<and>
      (case r of
         Inr reply \<Rightarrow>
           gone = ids \<and> reply = DeleteReply (card {i \<in> str ` set ids. docs_of view d (StorageName ref) i \<noteq> None})
       | Inl _ \<Rightarrow> \<exists>k. gone = take (localWriteChunk * k) ids)"
proof -
  obtain q d1 where c: "delete_chunks (leDB E) (StorageName ref) 0 ids d = (q, d1)" by fastforce
  from delete_chunks_contents [OF assms(1) c] obtain m where m: "removed str view (StorageName ref) m d d1"
    "case q of Inr k' \<Rightarrow> m = ids \<and> k' = 0 + found str view (StorageName ref) ids d | Inl _ \<Rightarrow> \<exists>j. m = take (localWriteChunk * j) ids"
    by blast
  have "d' = d1 \<and> (case q of Inr k \<Rightarrow> r = Inr (DeleteReply k) | Inl x \<Rightarrow> r = Inl (localError (leSdk E) (ErrDb x)))"
    using assms(2-4) c by (cases q) (simp_all add: localDelete_def)
  with m show ?thesis
    by (intro exI [of _ m]) (cases q; simp add: removed_def frame_def found_def)
qed

lemma delete_ids_named:
  assumes "db_selects holds (leDB E) view" "delete_ids E ref rt d = Inr ids"
  shows "if present (leJ E) (vget (leJ E) rt [''ids''])
    then \<exists>a. vget (leJ E) rt [''ids''] = Some a \<and> ids = map (vbytes (leJ E)) (varray (leJ E) a [])
    else \<exists>f. vget (leJ E) rt [''filter''] = Some f \<and>
      set ids = {vstr (cdEnc (leC E)) v [''id''] |v. v \<in> ran (docs_of view d (StorageName ref)) \<and> holds f v}"
proof (cases "present (leJ E) (vget (leJ E) rt [''ids''])")
  case True
  with assms(2) show ?thesis by (auto simp: delete_ids_def Let_def present_def split: if_splits option.splits)
next
  case False
  with assms(2) obtain f docs where f: "vget (leJ E) rt [''filter''] = Some f"
    and it: "dbIter (leDB E) d (StorageName ref) (Some f) = Inr (docs, None)"
    and ids: "ids = map (\<lambda>doc. vstr (cdEnc (leC E)) doc [''id'']) docs"
    by (auto simp: delete_ids_def Let_def present_def split: if_splits option.splits sum.splits prod.splits)
  from it assms(1) have "set docs = {v \<in> ran (docs_of view d (StorageName ref)). holds f v}"
    by (simp add: db_selects_def)
  with False f ids show ?thesis by auto
qed

text \<open>
  C23. A delete removes exactly the documents it names. A request that names none in a valid way is refused and changes
  nothing. The ids named are the ones its list gives, in order, or those of the documents its filter holds of, each read
  as a string: a document whose id is not a string reads as the empty id and is not removed. When the delete answers,
  every document whose id is one of the ids named is gone, all others stay, no other collection changed, and the count
  is the number of documents removed, an id named twice or absent counting for nothing. When it fails, the ids of some
  whole number of chunks of 256 were removed. Assumed: what any-store documents of its calls (\<open>any_db\<close>,
  \<open>db_selects\<close>).
\<close>

theorem deletes_exact:
  assumes "any_db (cdEnc (leC E)) str (leDB E) view" and "db_selects holds (leDB E) view"
    and "resolveLocal E localDeleteFields False body d = Inr (ref, rt)" and "localDelete E body d = (r, d')"
  shows "case delete_ids E ref rt d of
      Inl e \<Rightarrow> r = Inl e \<and> d' = d
    | Inr ids \<Rightarrow>
        (if present (leJ E) (vget (leJ E) rt [''ids''])
         then \<exists>a. vget (leJ E) rt [''ids''] = Some a \<and> ids = map (vbytes (leJ E)) (varray (leJ E) a [])
         else \<exists>f. vget (leJ E) rt [''filter''] = Some f \<and>
           set ids = {vstr (cdEnc (leC E)) v [''id''] |v. v \<in> ran (docs_of view d (StorageName ref)) \<and> holds f v}) \<and>
        (\<exists>gone.
           (\<forall>i. docs_of view d' (StorageName ref) i = (if i \<in> str ` set gone then None else docs_of view d (StorageName ref) i)) \<and>
           (\<forall>n. n \<noteq> StorageName ref \<longrightarrow> view d' n = view d n) \<and>
           (case r of
              Inr reply \<Rightarrow>
                gone = ids \<and> reply = DeleteReply (card {i \<in> str ` set ids. docs_of view d (StorageName ref) i \<noteq> None})
            | Inl _ \<Rightarrow> \<exists>k. gone = take (localWriteChunk * k) ids))"
proof (cases "delete_ids E ref rt d")
  case (Inl e)
  with assms(3,4) show ?thesis by (auto simp: localDelete_def)
next
  case (Inr ids)
  show ?thesis
    unfolding Inr sum.case
    by (intro conjI delete_ids_named [OF assms(2) Inr] delete_removes [OF assms(1,3) Inr assms(4)])
qed

section \<open>An environment in memory\<close>

definition mem_count :: "mdb \<Rightarrow> string \<Rightarrow> mval \<Rightarrow> agg_limits \<Rightarrow> (unit db_err + nat) \<times> mdb" where
  "mem_count d n p lims =
     (case sink_names menc p of
        [] \<Rightarrow> (Inr 0, d)
      | m # _ \<Rightarrow> (case mchange d m (mupsert (mdoc ''r'' n)) of Inl e \<Rightarrow> (Inl e, d) | Inr d' \<Rightarrow> (Inr 1, d')))"

definition mem_env :: "(mdb, mval, unit) localEnv" where
  "mem_env =
     \<lparr>leEnabled = True, leDB = mem_db, leC = mcodec, leJ = menc, leInt = cdInt mcodec,
      leSpace = (\<lambda>i. if i = ''live'' then None
        else Some \<lparr>seIs = [ErrSpaceUnknown], seReason = None, seMessage = [], seParse = None\<rparr>),
      leSdk = (\<lambda>_. plain_sdk),
      leSetId = (\<lambda>v s. case v of MObj fs \<Rightarrow> MObj ((''id'', MStr s) # fs) | _ \<Rightarrow> v),
      leParseDoc = Some, leToJson = id, leIndexList = (\<lambda>_. None), leCondition = (\<lambda>_. CondOk),
      leModifier = (\<lambda>_. None), leSort = (\<lambda>_. None),
      leFind = (\<lambda>d n f keys l off. dbIter mem_db d n f), leProjRaw = (\<lambda>_. None), leTree = (\<lambda>_. JObj []),
      leExplain = (\<lambda>_ _ _ _. Inr ''scan''), leAggCount = mem_count, leAggIter = (\<lambda>_ _ _ _. Inr ([], None)),
      leGrammar = ([], [])\<rparr>"

lemma mem_env_simps:
  "leDB mem_env = mem_db" "leC mem_env = mcodec" "leJ mem_env = menc" "leAggCount mem_env = mem_count"
  by (simp_all add: mem_env_def)

lemma mem_agg_sinks: "agg_sinks mem_env mview"
proof -
  have "mview d' m = mview d m" if "mem_count d n p lims = (r, d')" "m \<notin> set (sink_names menc p)" for d n p lims r d' m
    using that mchange_frame by (auto simp: mem_count_def frame_def split: list.splits sum.splits)
  then show ?thesis unfolding agg_sinks_def mem_env_simps by blast
qed

lemma mem_docs_rev:
  "\<forall>v \<in> set vs. doc_id menc v \<noteq> None \<Longrightarrow>
     map_of (map (\<lambda>v. (mid v, v)) (mdocs (rev vs @ ws))) = overlay menc (map_of (map (\<lambda>v. (mid v, v)) (mdocs ws))) vs"
proof (induction vs arbitrary: ws)
  case (Cons v vs)
  then have "map_of (map (\<lambda>v. (mid v, v)) (mdocs (rev vs @ v # ws))) =
      overlay menc ((map_of (map (\<lambda>v. (mid v, v)) (mdocs ws)))(mid v \<mapsto> v)) vs"
    by (simp add: mdocs_Cons)
  then show ?case by (simp add: overlay_def mid_def)
qed (simp add: overlay_def)

lemma mem_inserts: "db_inserts menc mem_db mview"
proof -
  have "fresh menc mview n vs d \<and> upserted menc mview n vs d d'" if i: "mchange d n (minsert vs) = Inr d'" for d n vs d'
  proof -
    from i obtain c where c: "map_of d n = Some c" "\<forall>v \<in> set vs. doc_id menc v \<noteq> None"
      "\<forall>v \<in> set vs. mid v \<notin> mid ` set (mdocs (fst c))" "map_of d' = (map_of d)(n \<mapsto> (rev vs @ fst c, snd c))"
      by (auto simp: minsert_def dest!: mchange_view split: if_split_asm)
    then show ?thesis using mchange_frame [OF i]
      by (cases c) (auto simp: fresh_def upserted_def docs_of_def mview_def mem_docs_rev mid_def [symmetric] mem_lookup)
  qed
  then show ?thesis by (simp add: db_inserts_def mem_db_def)
qed

lemma mem_json_ids: "json_ids mem_env (mkString mcodec)"
proof -
  have "x = MStr (vbytes menc x)" if "vtyp menc x = TypeString" for x
    using that by (cases x) (simp_all add: menc_def split: if_split_asm)
  then have "doc_id menc v = Some (MStr (vbytes menc x))"
    if "vget menc v [''id''] = Some x" "vtyp menc x = TypeString" for v x
    using that by (metis doc_id_def)
  moreover have "\<exists>x. vget menc (case v of MObj fs \<Rightarrow> MObj ((''id'', MStr s) # fs) | _ \<Rightarrow> v) [''id''] = Some x \<and>
      vtyp menc x = TypeString \<and> vbytes menc x = s" if "vtyp menc v = TypeObject" for v s
    using that by (cases v) (simp_all add: menc_def split: if_split_asm)
  ultimately show ?thesis by (simp add: json_ids_def mem_env_def mcodec_def)
qed

definition notes_coll :: mval where
  "notes_coll = MObj [(''scope'', MStr ''account''), (''name'', MStr ''notes'')]"

definition agg_body :: "string \<Rightarrow> mval body" where
  "agg_body target = Body (MObj [(''coll'', notes_coll), (''pipeline'', MArr [MObj [(''$merge'', MObj [(''into'', MStr target)])]])])"

theorem local_fence_witness:
  "mview (serve_all mem_env [PostAggregate (agg_body ''objects''), PostAggregate (agg_body ''l_a_notes''),
      PostImport (Some (notes_file, RdEOF))] old_db) ''objects'' = mview old_db ''objects'' \<and>
   fst (localAggregate mem_env (agg_body ''objects'') old_db) = Inl (ApiError 400 ''local.bad_sink_target'') \<and>
   fst (localAggregate mem_env (agg_body ''l_a_new'') old_db) = Inl (ApiError 404 ''local.collection_not_found'') \<and>
   fst (localAggregate mem_env (agg_body ''l_a_notes'') old_db) = Inr (WrittenReply 1)"
proof -
  have ob: "\<not> local_name ''objects''" by code_simp
  have "db_frames (leDB mem_env) mview" "db_opens (leDB mem_env) mview"
    using any_dbD(1,2) [OF mem_any_db] by (simp_all add: mem_env_simps)
  from local_fence [OF this(1) mem_agg_sinks this(2), of "[PostAggregate (agg_body ''objects''), PostAggregate (agg_body ''l_a_notes''),
      PostImport (Some (notes_file, RdEOF))]" old_db undefined] ob
  have "mview (serve_all mem_env [PostAggregate (agg_body ''objects''), PostAggregate (agg_body ''l_a_notes''),
      PostImport (Some (notes_file, RdEOF))] old_db) ''objects'' = mview old_db ''objects''"
    by blast
  moreover have "fst (localAggregate mem_env (agg_body ''objects'') old_db) = Inl (ApiError 400 ''local.bad_sink_target'')"
    "fst (localAggregate mem_env (agg_body ''l_a_new'') old_db) = Inl (ApiError 404 ''local.collection_not_found'')"
    "fst (localAggregate mem_env (agg_body ''l_a_notes'') old_db) = Inr (WrittenReply 1)"
    by code_simp+
  ultimately show ?thesis by simp
qed

definition insert_body :: "mval body" where
  "insert_body = Body (MObj [(''coll'', notes_coll), (''docs'', MArr [mdoc ''5'' ''five'', MObj [(''t'', MStr ''six'')]])])"

theorem writes_exact_witness:
  "fst (localInsert mem_env (\<lambda>_. ''ab'') insert_body old_db) = Inr (IdsReply [''5'', ''ab'']) \<and>
   docs_of mview (snd (localInsert mem_env (\<lambda>_. ''ab'') insert_body old_db)) ''l_a_notes'' (MStr ''5'') = Some (mdoc ''5'' ''five'') \<and>
   docs_of mview (snd (localInsert mem_env (\<lambda>_. ''ab'') insert_body old_db)) ''l_a_notes'' (MStr ''ab'') = Some (mdoc ''ab'' ''six'') \<and>
   docs_of mview (snd (localInsert mem_env (\<lambda>_. ''ab'') insert_body old_db)) ''l_a_notes'' (MStr ''1'') = Some (mdoc ''1'' ''new'')"
proof -
  let ?docs = "[mdoc ''5'' ''five'', mdoc ''ab'' ''six'']"
  obtain rt where rt: "insert_body = Body rt" by (simp add: insert_body_def)
  have res: "resolveLocal mem_env localDocsFields True insert_body old_db = Inr (notes_ref, rt)"
    using rt unfolding insert_body_def by (simp only: body.inject) (erule subst, code_simp)
  have docs: "localDocsFromValue mem_env (\<lambda>_. ''ab'') (vget (leJ mem_env) rt [''docs'']) = Inr (?docs, [''5'', ''ab''])"
    using rt unfolding insert_body_def by (simp only: body.inject) (erule subst, code_simp)
  obtain r d' where s: "serve_local mem_env (PostInsert (\<lambda>_. ''ab'') insert_body) old_db = (r, d')" by fastforce
  have r: "fst (serve_local mem_env (PostInsert (\<lambda>_. ''ab'') insert_body) old_db) = Inr (IdsReply [''5'', ''ab''])"
    by code_simp
  have n: "StorageName notes_ref = ''l_a_notes''" by code_simp
  have db: "any_db (cdEnc (leC mem_env)) (mkString mcodec) (leDB mem_env) mview" "db_inserts (cdEnc (leC mem_env)) (leDB mem_env) mview"
    using mem_any_db mem_inserts by (simp_all add: mem_env_simps mcodec_def)
  have old: "docs_of mview old_db ''l_a_notes'' (MStr ''1'') = Some (mdoc ''1'' ''new'')" by code_simp
  have ids: "the (doc_id (cdEnc (leC mem_env)) (mdoc i t)) = MStr i" for i t
    by (simp add: mem_env_simps mcodec_def doc_id_def mdoc_def menc_def)
  from writes_exact [OF db mem_json_ids res _ s] docs r s n have "docs_of mview d' ''l_a_notes'' =
      overlay (cdEnc (leC mem_env)) (docs_of mview old_db ''l_a_notes'') ?docs"
    by auto
  then have "docs_of mview d' ''l_a_notes'' = (docs_of mview old_db ''l_a_notes'')
      (MStr ''5'' \<mapsto> mdoc ''5'' ''five'', MStr ''ab'' \<mapsto> mdoc ''ab'' ''six'')"
    by (simp add: overlay_def ids)
  with r s old show ?thesis by simp
qed

text \<open>A document with an id that is not a string, as an import or a sink may store it, survives a delete of everything.\<close>

definition odd_db :: mdb where
  "odd_db = [(''l_a_notes'', ([mdoc ''1'' ''new'', MObj [(''id'', MInt 7)]], []))]"

definition delete_body :: "mval body" where
  "delete_body = Body (MObj [(''coll'', notes_coll), (''filter'', MObj [])])"

theorem deletes_exact_witness:
  "fst (localDelete mem_env delete_body odd_db) = Inr (DeleteReply 1) \<and>
   docs_of mview (snd (localDelete mem_env delete_body odd_db)) ''l_a_notes'' (MStr ''1'') = None \<and>
   docs_of mview (snd (localDelete mem_env delete_body odd_db)) ''l_a_notes'' (MInt 7) = Some (MObj [(''id'', MInt 7)])"
proof -
  obtain rt where rt: "delete_body = Body rt" by (simp add: delete_body_def)
  have res: "resolveLocal mem_env localDeleteFields False delete_body odd_db = Inr (notes_ref, rt)"
    using rt unfolding delete_body_def by (simp only: body.inject) (erule subst, code_simp)
  have ids: "delete_ids mem_env notes_ref rt odd_db = Inr [''1'', []]"
    using rt unfolding delete_body_def by (simp only: body.inject) (erule subst, code_simp)
  obtain r d' where s: "localDelete mem_env delete_body odd_db = (r, d')" by fastforce
  have r: "fst (localDelete mem_env delete_body odd_db) = Inr (DeleteReply 1)" by code_simp
  have n: "StorageName notes_ref = ''l_a_notes''" by code_simp
  have db: "any_db (cdEnc (leC mem_env)) (mkString mcodec) (leDB mem_env) mview"
    using mem_any_db by (simp add: mem_env_simps)
  have old: "docs_of mview odd_db ''l_a_notes'' (MInt 7) = Some (MObj [(''id'', MInt 7)])" by code_simp
  have "db_selects mholds (leDB mem_env) mview" using mem_selects by (simp add: mem_env_simps)
  from deletes_exact [OF db this res s] ids r s n old show ?thesis by (auto simp: mcodec_def)
qed

end
