(* ===== verification/Descriptors.thy ===== *)
theory Descriptors
  imports IndexLinks Complex_Main
begin

text \<open>
  Property and field descriptors (src/internal/server/descriptor.go): the checks on a descriptor when a definition is
  created, on the paths and values of a PATCH, and on the values written to a property.

  A JSON value is a tree; an object keeps its members in the order of the text, a key that occurs twice included. What the sources
  call outside the repository, and the parsers of Go's library, are the fields of \<open>descEnv\<close>. The texts of the reasons are not
  modelled: an error is its code.
\<close>

section \<open>JSON\<close>

datatype jv = JvNull | JvBool bool | JvNum string | JvStr string | JvArr "jv list" | JvObj "(string \<times> jv) list"

text \<open>
  \<open>deFloat\<close> is \<open>GetFloat64\<close> of a number, \<open>deNumOk\<close> whether \<open>json.Unmarshal\<close> takes it, \<open>deMillis\<close> its
  conversion to \<open>int64\<close>; \<open>deCondition\<close> is \<open>query.ParseCondition\<close>, \<open>deScheme\<close> the scheme
  \<open>url.Parse\<close> finds, \<open>deTime\<close> is \<open>time.Parse(time.RFC3339Nano)\<close> in nanoseconds since 1970.
\<close>

record descEnv =
  deFloat :: "string \<Rightarrow> rat"
  deNumOk :: "string \<Rightarrow> bool"
  deMillis :: "string \<Rightarrow> int"
  deCondition :: "string \<Rightarrow> bool"
  deScheme :: "string \<Rightarrow> string option"
  deTime :: "string \<Rightarrow> int option"

text \<open>\<open>Get\<close> of a key: the first member with it.\<close>

fun jv_get :: "jv \<Rightarrow> string \<Rightarrow> jv option" where
  "jv_get (JvObj kvs) k = map_of kvs k"
| "jv_get _ k = None"

text \<open>\<open>string(v.GetStringBytes(k))\<close>.\<close>

definition jv_str :: "jv \<Rightarrow> string \<Rightarrow> string" where
  "jv_str v k = (case jv_get v k of Some (JvStr s) \<Rightarrow> s | _ \<Rightarrow> [])"

definition fastjsonString :: "jv \<Rightarrow> string option" where
  "fastjsonString v = (case v of JvStr s \<Rightarrow> Some s | _ \<Rightarrow> None)"

text \<open>\<open>json.Unmarshal\<close> into an \<open>any\<close>: the last of several members with one key stays.\<close>

fun json_any :: "jv \<Rightarrow> jv" where
  "json_any (JvArr vs) = JvArr (map json_any vs)"
| "json_any (JvObj kvs) = JvObj (foldl (\<lambda>m (k, v). AList.update k v m) [] (map (\<lambda>(k, v). (k, json_any v)) kvs))"
| "json_any v = v"

fun decodes :: "descEnv \<Rightarrow> jv \<Rightarrow> bool" where
  "decodes E (JvNum n) = deNumOk E n"
| "decodes E (JvArr vs) = list_all (decodes E) vs"
| "decodes E (JvObj kvs) = list_all (\<lambda>(k, v). decodes E v) kvs"
| "decodes E v = True"

fun is_obj :: "jv \<Rightarrow> bool" where
  "is_obj (JvObj _) = True"
| "is_obj _ = False"

fun first_some :: "'a option list \<Rightarrow> 'a option" where
  "first_some [] = None"
| "first_some (None # xs) = first_some xs"
| "first_some (Some x # xs) = Some x"

lemma first_some_None [simp]: "first_some xs = None \<longleftrightarrow> (\<forall>x \<in> set xs. x = None)"
  by (induction xs rule: first_some.induct) auto

lemma first_some_single [simp]: "first_some [x] = x"
  by (cases x) auto

section \<open>The vocabulary\<close>

definition propFieldXKey :: string where "propFieldXKey = ''x-key''"
definition propFieldXFormat :: string where "propFieldXFormat = ''x-format''"
definition wireXFormat :: string where "wireXFormat = ''xFormat''"

definition xfType :: string where "xfType = ''type''"
definition xfIcon :: string where "xfIcon = ''icon''"
definition xfPos :: string where "xfPos = ''pos''"
definition xfOptions :: string where "xfOptions = ''options''"
definition xfRelation :: string where "xfRelation = ''relation''"
definition xfConfig :: string where "xfConfig = ''config''"
definition xfLinks :: string where "xfLinks = ''links''"
definition xfValidate :: string where "xfValidate = ''validate''"
definition xfCompute :: string where "xfCompute = ''compute''"
definition xfRelationTargets :: string where "xfRelationTargets = ''targetTypes''"
definition xfRelationFilter :: string where "xfRelationFilter = ''filter''"
definition xfConfigMultiple :: string where "xfConfigMultiple = ''multiple''"
definition xfConfigMax :: string where "xfConfigMax = ''max''"
definition MetaIndexKey :: string where "MetaIndexKey = ''index''"

lemmas xf_defs [simp] = xfType_def xfIcon_def xfPos_def xfOptions_def xfRelation_def xfConfig_def xfLinks_def
  xfValidate_def xfCompute_def

definition slugTags :: string where "slugTags = ''tags''"

definition slugKinds :: "string \<Rightarrow> string option" where
  "slugKinds = map_of
     ([(s, ''string''). s \<leftarrow> [''text'', ''longtext'', ''markdown'', ''url'', ''email'', ''phone'']] @
      [(s, ''array''). s \<leftarrow> [''choice'', ''relation'', ''member'']] @
      [(s, ''number''). s \<leftarrow> [''number'', ''currency'', ''percent'', ''rating'', ''duration'']] @
      [(''checkbox'', ''boolean''), (''date'', ''datetime''), (''datetime'', ''datetime'')] @
      [(s, ''object''). s \<leftarrow> [''period'', ''money'', ''geo'']])"

text \<open>Whether there is a reason against a slug on a property of a kind; the empty kind is one not declared.\<close>

definition slugKindMismatch :: "string \<Rightarrow> string \<Rightarrow> bool" where
  "slugKindMismatch slug kind =
     (if slug = slugTags then True
      else case slugKinds slug of None \<Rightarrow> False | Some want \<Rightarrow> \<not> (kind = [] \<or> want = kind))"

definition linkModeKinds :: "string \<Rightarrow> string option" where
  "linkModeKinds = map_of [(LinkModeOne, ''string''), (LinkModeMany, ''array''), (LinkModeMarkdown, ''string'')]"

definition linkModeMismatch :: "string \<Rightarrow> string \<Rightarrow> bool" where
  "linkModeMismatch mode kind =
     (case linkModeKinds mode of None \<Rightarrow> False | Some want \<Rightarrow> \<not> (kind = [] \<or> want = kind))"

text \<open>Reading a stored descriptor.\<close>

definition xfSlug :: "jv \<Rightarrow> string" where
  "xfSlug xf = jv_str xf xfType"

definition xf_config :: "jv \<Rightarrow> string \<Rightarrow> jv option" where
  "xf_config xf key = (case jv_get xf xfConfig of None \<Rightarrow> None | Some cfg \<Rightarrow> jv_get cfg key)"

definition xfConfigBool :: "jv \<Rightarrow> string \<Rightarrow> bool" where
  "xfConfigBool xf key \<longleftrightarrow> xf_config xf key = Some (JvBool True)"

definition xfConfigNumber :: "descEnv \<Rightarrow> jv \<Rightarrow> string \<Rightarrow> rat option" where
  "xfConfigNumber E xf key = (case xf_config xf key of Some (JvNum n) \<Rightarrow> Some (deFloat E n) | _ \<Rightarrow> None)"

section \<open>A descriptor at the definition\<close>

datatype dcode = DInvalidField | DFormatInvalid | DPropImmutable | DDatasetImmutable

text \<open>A key no path could address.\<close>

definition bad_key :: "string \<Rightarrow> bool" where
  "bad_key k \<longleftrightarrow> k = [] \<or> CHR ''.'' \<in> set k \<or> has_prefix ''$'' k"

fun checkDescriptorKeys :: "jv \<Rightarrow> dcode option" where
  "checkDescriptorKeys (JvObj kvs) =
     first_some (map (\<lambda>(k, v). if bad_key k then Some DInvalidField else checkDescriptorKeys v) kvs)"
| "checkDescriptorKeys (JvArr vs) = first_some (map checkDescriptorKeys vs)"
| "checkDescriptorKeys _ = None"

definition wantString :: "jv \<Rightarrow> dcode option" where
  "wantString v = (if fastjsonString v = None then Some DInvalidField else None)"

definition nonempty_string :: "jv \<Rightarrow> bool" where
  "nonempty_string v \<longleftrightarrow> (case fastjsonString v of None \<Rightarrow> False | Some s \<Rightarrow> s \<noteq> [])"

definition option_leaf :: "string list \<Rightarrow> bool" where
  "option_leaf segs \<longleftrightarrow>
     length segs = 4 \<and> segs ! 2 = ''meta'' \<or>
     length segs = 3 \<and> (segs ! 2 = ''name'' \<or> segs ! 2 = ''color'' \<or> segs ! 2 = ''pos'')"

definition relation_leaf :: "descEnv \<Rightarrow> string \<Rightarrow> jv \<Rightarrow> dcode option" where
  "relation_leaf E m v =
     (if m = xfRelationTargets then
        (case v of
           JvArr els \<Rightarrow> if list_all nonempty_string els then None else Some DInvalidField
         | _ \<Rightarrow> Some DInvalidField)
      else if m = xfRelationFilter then
        (case v of JvStr s \<Rightarrow> if deCondition E s then None else Some DFormatInvalid | _ \<Rightarrow> Some DInvalidField)
      else Some DInvalidField)"

fun is_scalar :: "jv \<Rightarrow> bool" where
  "is_scalar (JvStr _) = True"
| "is_scalar (JvNum _) = True"
| "is_scalar (JvBool _) = True"
| "is_scalar _ = False"

definition checkDescriptorLeaf :: "descEnv \<Rightarrow> string list \<Rightarrow> jv \<Rightarrow> dcode option" where
  "checkDescriptorLeaf E segs v =
     (let head = hd segs in
      if head = xfType then
        (case v of
           JvStr s \<Rightarrow> if s = [] then Some DFormatInvalid else if s = slugTags then Some DFormatInvalid else None
         | _ \<Rightarrow> Some DInvalidField)
      else if head = xfIcon \<or> head = xfPos then wantString v
      else if head = xfLinks then
        (if length segs \<noteq> 1 then Some DInvalidField
         else case v of JvStr s \<Rightarrow> if ValidLinkMode s then None else Some DFormatInvalid | _ \<Rightarrow> Some DInvalidField)
      else if head = xfOptions then (if option_leaf segs then wantString v else Some DInvalidField)
      else if head = xfRelation then (if length segs \<noteq> 2 then Some DInvalidField else relation_leaf E (segs ! 1) v)
      else if head = xfConfig then
        (if length segs \<noteq> 2 then Some DInvalidField else if is_scalar v then None else Some DInvalidField)
      else if head = xfValidate \<or> head = xfCompute then Some DFormatInvalid
      else None)"

text \<open>One entry of \<open>options\<close>: an object of the option leaves, with \<open>meta\<close> an object of strings.\<close>

definition checkOptionEntry :: "descEnv \<Rightarrow> string \<Rightarrow> jv \<Rightarrow> dcode option" where
  "checkOptionEntry E key entry =
     (if key = [] then Some DInvalidField
      else case entry of
        JvObj leaves \<Rightarrow>
          first_some (map (\<lambda>(lk, leaf).
            if lk = ''meta'' then
              (case leaf of
                 JvObj mkvs \<Rightarrow> first_some (map (\<lambda>(mk, mv). checkDescriptorLeaf E [xfOptions, key, ''meta'', mk] mv) mkvs)
               | _ \<Rightarrow> Some DInvalidField)
            else checkDescriptorLeaf E [xfOptions, key, lk] leaf) leaves)
      | _ \<Rightarrow> Some DInvalidField)"

definition checkOptionsObject :: "descEnv \<Rightarrow> jv \<Rightarrow> dcode option" where
  "checkOptionsObject E v =
     (case v of
        JvObj kvs \<Rightarrow> first_some (map (\<lambda>(key, entry). checkOptionEntry E key entry) kvs)
      | _ \<Rightarrow> Some DInvalidField)"

definition checkMemberObject :: "descEnv \<Rightarrow> string \<Rightarrow> jv \<Rightarrow> string list option \<Rightarrow> dcode option" where
  "checkMemberObject E member v allowed =
     (case v of
        JvObj kvs \<Rightarrow>
          first_some (map (\<lambda>(key, leaf).
            if (case allowed of None \<Rightarrow> False | Some ks \<Rightarrow> key \<notin> set ks) then Some DInvalidField
            else checkDescriptorLeaf E [member, key] leaf) kvs)
      | _ \<Rightarrow> Some DInvalidField)"

text \<open>The check of one member of the descriptor.\<close>

definition checkTopMember :: "descEnv \<Rightarrow> string \<Rightarrow> jv \<Rightarrow> dcode option" where
  "checkTopMember E key v =
     (if key = xfType \<or> key = xfIcon \<or> key = xfPos \<or> key = xfLinks then checkDescriptorLeaf E [key] v
      else if key = xfOptions then checkOptionsObject E v
      else if key = xfRelation then checkMemberObject E key v (Some [xfRelationTargets, xfRelationFilter])
      else if key = xfConfig then checkMemberObject E key v None
      else if key = xfValidate \<or> key = xfCompute then Some DFormatInvalid
      else None)"

datatype raw_json = RawAbsent | RawBad | RawJson jv

definition validateDescriptor :: "descEnv \<Rightarrow> raw_json \<Rightarrow> string \<Rightarrow> dcode + jv option" where
  "validateDescriptor E raw kind =
     (case raw of
        RawAbsent \<Rightarrow> Inr None
      | RawBad \<Rightarrow> Inl DInvalidField
      | RawJson JvNull \<Rightarrow> Inr None
      | RawJson v \<Rightarrow>
          (case v of
             JvObj kvs \<Rightarrow>
               (case checkDescriptorKeys v of
                  Some e \<Rightarrow> Inl e
                | None \<Rightarrow>
                    (case first_some (map (\<lambda>(key, x). checkTopMember E key x) kvs) of
                       Some e \<Rightarrow> Inl e
                     | None \<Rightarrow>
                         if jv_str v xfType \<noteq> [] \<and> slugKindMismatch (jv_str v xfType) kind then Inl DFormatInvalid
                         else if jv_str v xfLinks \<noteq> [] \<and> linkModeMismatch (jv_str v xfLinks) kind then Inl DFormatInvalid
                         else if \<not> decodes E v then Inl DInvalidField
                         else Inr (Some (json_any v))))
           | _ \<Rightarrow> Inl DInvalidField))"

section \<open>A PATCH\<close>

definition splitPatchPath :: "string \<Rightarrow> dcode + string list" where
  "splitPatchPath path =
     (if path = [] then Inl DInvalidField
      else
        let segs = split_on CHR ''.'' path in
        if list_ex (\<lambda>s. s = [] \<or> has_prefix ''$'' s) segs then Inl DInvalidField else Inr segs)"

definition trim_prefix :: "string \<Rightarrow> string \<Rightarrow> string" where
  "trim_prefix p s = (case cut_prefix p s of None \<Rightarrow> s | Some r \<Rightarrow> r)"

definition xformatPatchPath :: "string list \<Rightarrow> string \<Rightarrow> bool \<Rightarrow> dcode + string" where
  "xformatPatchPath segs path forSet =
     (let storage = propFieldXFormat @ trim_prefix wireXFormat path;
          container = (if forSet then Inl DInvalidField else Inr storage); n = length segs in
      if n = 1 then container
      else
        let m = segs ! 1 in
        if m = xfType \<or> m = xfIcon \<or> m = xfPos then (if n \<noteq> 2 then Inl DInvalidField else Inr storage)
        else if m = xfOptions then
          (if n \<le> 3 then container
           else if segs ! 3 = ''name'' \<or> segs ! 3 = ''color'' \<or> segs ! 3 = ''pos'' then
             (if n \<noteq> 4 then Inl DInvalidField else Inr storage)
           else if segs ! 3 = ''meta'' then
             (if n = 4 then container else if n = 5 then Inr storage else Inl DInvalidField)
           else Inl DInvalidField)
        else if m = xfRelation then
          (if n = 2 then container
           else if n \<noteq> 3 \<or> (segs ! 2 \<noteq> xfRelationTargets \<and> segs ! 2 \<noteq> xfRelationFilter) then Inl DInvalidField
           else Inr storage)
        else if m = xfConfig then
          (if n = 2 then container else if n = 3 then Inr storage else Inl DInvalidField)
        else if m = xfValidate \<or> m = xfCompute then (if forSet then Inl DFormatInvalid else Inr storage)
        else Inr storage)"

definition patchPathToStorage :: "string \<Rightarrow> bool \<Rightarrow> dcode + string" where
  "patchPathToStorage path forSet =
     (case splitPatchPath path of
        Inl e \<Rightarrow> Inl e
      | Inr segs \<Rightarrow>
          let head = hd segs; n = length segs in
          if head = ''name'' \<or> head = ''description'' then (if n \<noteq> 1 then Inl DInvalidField else Inr path)
          else if head = ''xKey'' then (if n \<noteq> 1 then Inl DInvalidField else Inr propFieldXKey)
          else if head = ''meta'' then
            (if n = 1 then (if forSet then Inl DInvalidField else Inr path)
             else if n = 2 \<and> segs ! 1 = MetaIndexKey then Inr path
             else Inl DInvalidField)
          else if head = wireXFormat then xformatPatchPath segs path forSet
          else if head \<in> set [''kind'', ''scope'', ''items'', ''properties'', ''key'', ''id''] then Inl DPropImmutable
          else Inl DInvalidField)"

definition fieldPatchPathToStorage :: "string \<Rightarrow> bool \<Rightarrow> dcode + string" where
  "fieldPatchPathToStorage path forSet =
     (case splitPatchPath path of
        Inl e \<Rightarrow> Inl e
      | Inr segs \<Rightarrow>
          let head = hd segs in
          if head = ''name'' \<or> head = ''description'' then (if length segs \<noteq> 1 then Inl DInvalidField else Inr path)
          else if head = wireXFormat then xformatPatchPath segs path forSet
          else Inl DDatasetImmutable)"

text \<open>\<open>raw\<close> is the value of a set, nothing when it is not JSON.\<close>

definition patchSetValue :: "descEnv \<Rightarrow> string \<Rightarrow> jv option \<Rightarrow> dcode + jv" where
  "patchSetValue E storagePath raw =
     (let segs = split_on CHR ''.'' storagePath in
      case raw of
        None \<Rightarrow> Inl DInvalidField
      | Some v \<Rightarrow>
          if hd segs \<noteq> propFieldXFormat then
            (case v of JvStr s \<Rightarrow> Inr (JvStr s) | _ \<Rightarrow> Inl DInvalidField)
          else if is_obj v then Inl DInvalidField
          else case checkDescriptorKeys v of
            Some e \<Rightarrow> Inl e
          | None \<Rightarrow>
              (case (if length segs > 1 then checkDescriptorLeaf E (tl segs) v else None) of
                 Some e \<Rightarrow> Inl e
               | None \<Rightarrow> if \<not> decodes E v then Inl DInvalidField else Inr (json_any v)))"

text \<open>
  The decisions of the two handlers on a PATCH, up to the call of the SDK: what a request sets, in the order its map is
  walked, and unsets, each at its storage path; then the rules that need the stored definition. A slug and a links
  marker must fit the kind the definition is pinned to, and a handle must be free.
\<close>

datatype patch_error = PatchCode dcode | PatchMissingField | PatchXKeyConflict | PatchNotFound

fun patch_sets ::
  "descEnv \<Rightarrow> (string \<Rightarrow> bool \<Rightarrow> dcode + string) \<Rightarrow> (string \<times> jv option) list \<Rightarrow> dcode + (string \<times> jv) list" where
  "patch_sets E toStorage [] = Inr []"
| "patch_sets E toStorage ((path, raw) # sets) =
     (case toStorage path True of
        Inl e \<Rightarrow> Inl e
      | Inr sp \<Rightarrow>
          (case patchSetValue E sp raw of
             Inl e \<Rightarrow> Inl e
           | Inr x \<Rightarrow>
               (case patch_sets E toStorage sets of Inl e \<Rightarrow> Inl e | Inr kvs \<Rightarrow> Inr ((sp, x) # kvs))))"

fun patch_unsets :: "(string \<Rightarrow> bool \<Rightarrow> dcode + string) \<Rightarrow> string list \<Rightarrow> dcode + string list" where
  "patch_unsets toStorage [] = Inr []"
| "patch_unsets toStorage (path # paths) =
     (case toStorage path False of
        Inl e \<Rightarrow> Inl e
      | Inr sp \<Rightarrow> (case patch_unsets toStorage paths of Inl e \<Rightarrow> Inl e | Inr sps \<Rightarrow> Inr (sp # sps)))"

definition patch_body ::
  "descEnv \<Rightarrow> (string \<Rightarrow> bool \<Rightarrow> dcode + string) \<Rightarrow> (string \<times> jv option) list \<Rightarrow> string list \<Rightarrow>
   patch_error + ((string \<times> jv) list \<times> string list)" where
  "patch_body E toStorage sets unsets =
     (if sets = [] \<and> unsets = [] then Inl PatchMissingField
      else case patch_sets E toStorage sets of
        Inl e \<Rightarrow> Inl (PatchCode e)
      | Inr kvs \<Rightarrow> (case patch_unsets toStorage unsets of Inl e \<Rightarrow> Inl (PatchCode e) | Inr sps \<Rightarrow> Inr (kvs, sps)))"

text \<open>The string a patch stores at a path, empty when it stores none.\<close>

definition patched_string :: "(string \<times> jv) list \<Rightarrow> string \<Rightarrow> string" where
  "patched_string kvs sp = (case map_of kvs sp of Some (JvStr s) \<Rightarrow> s | _ \<Rightarrow> [])"

definition slug_path :: string where "slug_path = propFieldXFormat @ ''.'' @ xfType"
definition links_path :: string where "links_path = propFieldXFormat @ ''.'' @ xfLinks"

definition slug_misfit :: "(string \<times> jv) list \<Rightarrow> string \<Rightarrow> bool" where
  "slug_misfit kvs kind \<longleftrightarrow> patched_string kvs slug_path \<noteq> [] \<and> slugKindMismatch (patched_string kvs slug_path) kind"

definition links_misfit :: "(string \<times> jv) list \<Rightarrow> string \<Rightarrow> bool" where
  "links_misfit kvs kind \<longleftrightarrow> patched_string kvs links_path \<noteq> [] \<and> linkModeMismatch (patched_string kvs links_path) kind"

text \<open>A dataset field: \<open>known\<close> are the ids and kinds of the fields of its dataset.\<close>

definition typePatchDatasetField ::
  "descEnv \<Rightarrow> (string \<times> string) list \<Rightarrow> string \<Rightarrow> (string \<times> jv option) list \<Rightarrow> string list \<Rightarrow>
   patch_error + ((string \<times> jv) list \<times> string list)" where
  "typePatchDatasetField E known fieldId sets unsets =
     (case patch_body E fieldPatchPathToStorage sets unsets of
        Inl e \<Rightarrow> Inl e
      | Inr (kvs, sps) \<Rightarrow>
          (case map_of (rev known) fieldId of
             None \<Rightarrow> Inl PatchNotFound
           | Some kind \<Rightarrow>
               if slug_misfit kvs kind \<or> links_misfit kvs kind then Inl (PatchCode DFormatInvalid) else Inr (kvs, sps)))"

text \<open>A property: \<open>defs\<close> are the properties of its type.\<close>

record PropertyDef =
  pdId :: string
  pdXKey :: string
  pdKind :: string
  pdXFormat :: jv

definition typePatchProperty ::
  "descEnv \<Rightarrow> PropertyDef list \<Rightarrow> string \<Rightarrow> (string \<times> jv option) list \<Rightarrow> string list \<Rightarrow>
   patch_error + ((string \<times> jv) list \<times> string list)" where
  "typePatchProperty E defs propId sets unsets =
     (case patch_body E patchPathToStorage sets unsets of
        Inl e \<Rightarrow> Inl e
      | Inr (kvs, sps) \<Rightarrow>
          let newXKey = patched_string kvs propFieldXKey in
          if newXKey \<noteq> [] \<and> list_ex (\<lambda>def. pdXKey def = newXKey \<and> pdId def \<noteq> propId) defs then Inl PatchXKeyConflict
          else if list_ex (\<lambda>def. pdId def = propId \<and> slug_misfit kvs (pdKind def)) defs then Inl (PatchCode DFormatInvalid)
          else if list_ex (\<lambda>def. pdId def = propId \<and> links_misfit kvs (pdKind def)) defs then Inl (PatchCode DFormatInvalid)
          else Inr (kvs, sps))"

section \<open>Values\<close>

text \<open>The instant of \<open>{"$date": ...}\<close>, in nanoseconds since 1970, or the reason it is none.\<close>

definition datetimeValue :: "descEnv \<Rightarrow> jv \<Rightarrow> int option" where
  "datetimeValue E v =
     (case v of
        JvObj kvs \<Rightarrow>
          (case map_of kvs ''$date'' of
             None \<Rightarrow> None
           | Some dv \<Rightarrow>
               if length kvs \<noteq> 1 then None
               else (case dv of
                   JvStr s \<Rightarrow> deTime E s
                 | JvNum n \<Rightarrow> Some (deMillis E n * 1000000)
                 | _ \<Rightarrow> None))
      | _ \<Rightarrow> None)"

definition day_nanos :: int where "day_nanos = 24 * 3600 * 1000000000"

text \<open>
  The walk over the members of a compound value: the first bad member is the answer, and the marks of the others
  accumulate.
\<close>

fun visit_members :: "('s \<Rightarrow> string \<Rightarrow> jv \<Rightarrow> 's option) \<Rightarrow> 's \<Rightarrow> (string \<times> jv) list \<Rightarrow> 's option" where
  "visit_members f s [] = Some s"
| "visit_members f s ((k, v) # kvs) = (case f s k v of None \<Rightarrow> None | Some s' \<Rightarrow> visit_members f s' kvs)"

definition period_member :: "descEnv \<Rightarrow> int option \<times> int option \<Rightarrow> string \<Rightarrow> jv \<Rightarrow> (int option \<times> int option) option" where
  "period_member E s k v =
     (if k = ''from'' then (case datetimeValue E v of None \<Rightarrow> None | Some t \<Rightarrow> Some (Some t, snd s))
      else if k = ''to'' then (case datetimeValue E v of None \<Rightarrow> None | Some t \<Rightarrow> Some (fst s, Some t))
      else None)"

text \<open>The value checks answer whether the value fits.\<close>

definition checkPeriodValue :: "descEnv \<Rightarrow> jv \<Rightarrow> bool" where
  "checkPeriodValue E v =
     (case v of
        JvObj kvs \<Rightarrow>
          (case visit_members (period_member E) (None, None) kvs of
             None \<Rightarrow> False
           | Some (None, None) \<Rightarrow> False
           | Some (Some from, Some to) \<Rightarrow> from \<le> to
           | Some _ \<Rightarrow> True)
      | _ \<Rightarrow> False)"

definition money_member :: "bool \<times> bool \<Rightarrow> string \<Rightarrow> jv \<Rightarrow> (bool \<times> bool) option" where
  "money_member s k v =
     (if k = ''amount'' then (case v of JvNum _ \<Rightarrow> Some (True, snd s) | _ \<Rightarrow> None)
      else if k = ''currency'' then (if nonempty_string v then Some (fst s, True) else None)
      else None)"

definition checkMoneyValue :: "jv \<Rightarrow> bool" where
  "checkMoneyValue v =
     (case v of JvObj kvs \<Rightarrow> visit_members money_member (False, False) kvs = Some (True, True) | _ \<Rightarrow> False)"

definition num_within :: "descEnv \<Rightarrow> rat \<Rightarrow> jv \<Rightarrow> bool" where
  "num_within E b v = (case v of JvNum n \<Rightarrow> - b \<le> deFloat E n \<and> deFloat E n \<le> b | _ \<Rightarrow> False)"

definition geo_member :: "descEnv \<Rightarrow> bool \<times> bool \<Rightarrow> string \<Rightarrow> jv \<Rightarrow> (bool \<times> bool) option" where
  "geo_member E s k v =
     (if k = ''lat'' then (if num_within E 90 v then Some (True, snd s) else None)
      else if k = ''lng'' then (if num_within E 180 v then Some (fst s, True) else None)
      else None)"

definition checkGeoValue :: "descEnv \<Rightarrow> jv \<Rightarrow> bool" where
  "checkGeoValue E v =
     (case v of JvObj kvs \<Rightarrow> visit_members (geo_member E) (False, False) kvs = Some (True, True) | _ \<Rightarrow> False)"

definition list_value :: "jv \<Rightarrow> jv \<Rightarrow> (string \<Rightarrow> bool) \<Rightarrow> bool" where
  "list_value xf v ok =
     (case v of
        JvArr els \<Rightarrow>
          list_all (\<lambda>el. case fastjsonString el of None \<Rightarrow> False | Some s \<Rightarrow> ok s) els \<and>
          \<not> (length els > 1 \<and> \<not> xfConfigBool xf xfConfigMultiple)
      | _ \<Rightarrow> False)"

text \<open>\<open>strings.IndexByte(s, '@')\<close> and the other conditions on an address.\<close>

definition email_ok :: "string \<Rightarrow> bool" where
  "email_ok s =
     (case index_sub ''@'' s of
        None \<Rightarrow> False
      | Some i \<Rightarrow>
          \<not> (i = 0 \<or> i = length s - 1 \<or> length (filter (\<lambda>c. c = CHR ''@'') s) \<noteq> 1 \<or>
             list_ex (\<lambda>c. c \<in> set [CHR '' '', char_of (9 :: nat), char_of (10 :: nat)]) s))"

definition checkDescriptorValue :: "descEnv \<Rightarrow> string \<Rightarrow> jv \<Rightarrow> jv \<Rightarrow> bool" where
  "checkDescriptorValue E slug xf v =
     (let str = fastjsonString v; num = (case v of JvNum n \<Rightarrow> Some (deFloat E n) | _ \<Rightarrow> None) in
      if slug = ''text'' \<or> slug = ''longtext'' \<or> slug = ''phone'' then str \<noteq> None
      else if slug = ''markdown'' then str \<noteq> None
      else if slug = ''url'' then
        (case str of None \<Rightarrow> False | Some s \<Rightarrow> (case deScheme E s of None \<Rightarrow> False | Some sch \<Rightarrow> sch \<noteq> []))
      else if slug = ''email'' then (case str of None \<Rightarrow> False | Some s \<Rightarrow> email_ok s)
      else if slug = ''choice'' then list_value xf v (\<lambda>s. s \<noteq> [])
      else if slug = ''relation'' then list_value xf v IsPropertyValueRef
      else if slug = ''member'' then list_value xf v IsIdentityValueRef
      else if slug = ''number'' \<or> slug = ''currency'' \<or> slug = ''percent'' \<or> slug = ''duration'' then num \<noteq> None
      else if slug = ''rating'' then
        (case num of
           None \<Rightarrow> False
         | Some f \<Rightarrow>
             (case xfConfigNumber E xf xfConfigMax of None \<Rightarrow> True | Some mx \<Rightarrow> \<not> (f < 0 \<or> f > mx)))
      else if slug = ''checkbox'' then (case v of JvBool _ \<Rightarrow> True | _ \<Rightarrow> False)
      else if slug = ''date'' then (case datetimeValue E v of None \<Rightarrow> False | Some ts \<Rightarrow> ts mod day_nanos = 0)
      else if slug = ''datetime'' then datetimeValue E v \<noteq> None
      else if slug = ''period'' then checkPeriodValue E v
      else if slug = ''money'' then checkMoneyValue v
      else if slug = ''geo'' then checkGeoValue E v
      else True)"

text \<open>
  The definitions with a slug by id, a later one over an earlier; and the first entry of the patch, in the order the map is
  walked, whose value does not fit.
\<close>

definition slugged_defs :: "PropertyDef list \<Rightarrow> string \<Rightarrow> PropertyDef option" where
  "slugged_defs defs = map_of (rev (map (\<lambda>d. (pdId d, d)) (filter (\<lambda>d. xfSlug (pdXFormat d) \<noteq> []) defs)))"

fun validateDescriptorValues :: "descEnv \<Rightarrow> PropertyDef list \<Rightarrow> (string \<times> jv) list \<Rightarrow> (string \<times> string) option" where
  "validateDescriptorValues E defs [] = None"
| "validateDescriptorValues E defs ((propId, v) # patch) =
     (case slugged_defs defs propId of
        None \<Rightarrow> validateDescriptorValues E defs patch
      | Some d \<Rightarrow>
          if v = JvNull then validateDescriptorValues E defs patch
          else
            let slug = xfSlug (pdXFormat d) in
            if checkDescriptorValue E slug (pdXFormat d) v then validateDescriptorValues E defs patch
            else Some (propId, slug))"

definition xformatToWire :: "jv option \<Rightarrow> jv option" where
  "xformatToWire xf = (case xf of Some (JvObj kvs) \<Rightarrow> if kvs = [] then None else Some (JvObj kvs) | _ \<Rightarrow> None)"

section \<open>A PATCH accepts what a definition would\<close>

text \<open>The value with one leaf at a path.\<close>

fun nest :: "string list \<Rightarrow> jv \<Rightarrow> jv" where
  "nest [] v = v"
| "nest (k # ks) v = JvObj [(k, nest ks v)]"

lemma checkDescriptorKeys_nest:
  "checkDescriptorKeys (nest ks v) = (if list_ex bad_key ks then Some DInvalidField else checkDescriptorKeys v)"
  by (induction ks) (auto split: option.split)

lemma decodes_nest [simp]: "decodes E (nest ks v) = decodes E v"
  by (induction ks) auto

lemma json_any_nest [simp]: "json_any (nest ks v) = nest ks (json_any v)"
  by (induction ks) auto

lemma nest_obj: "ks \<noteq> [] \<Longrightarrow> is_obj (nest ks v)"
  by (cases ks) auto

lemma obj_leaf:
  assumes "is_obj v"
  shows "fastjsonString v = None" "wantString v = Some DInvalidField" "relation_leaf E m v = Some DInvalidField" "\<not> is_scalar v"
  using assms by (cases v; simp add: fastjsonString_def wantString_def relation_leaf_def)+

lemma not_obj_cases: "\<not> is_obj v \<Longrightarrow> (case v of JvObj kvs \<Rightarrow> f kvs | _ \<Rightarrow> x) = x"
  by (cases v) auto

lemma Cons_cases3:
  obtains "ks = []" | k where "ks = [k]" | k k' where "ks = [k, k']" | k k' k'' ks' where "ks = k # k' # k'' # ks'"
  by (metis list.exhaust)

lemma option_entry_nest:
  assumes "\<not> is_obj v" "opt \<noteq> []"
  shows "checkOptionEntry E opt (nest ks v) = None \<longleftrightarrow>
    ks \<noteq> [] \<and> option_leaf (xfOptions # opt # ks) \<and> wantString v = None"
proof (cases ks)
  case Nil
  with assms show ?thesis by (simp add: checkOptionEntry_def not_obj_cases)
next
  case (Cons lk rest)
  note lk = Cons
  show ?thesis
  proof (cases "lk = ''meta''")
    case True
    show ?thesis
    proof (cases rest)
      case Nil
      with lk True assms show ?thesis by (simp add: checkOptionEntry_def not_obj_cases option_leaf_def)
    next
      case (Cons mk more)
      have "checkDescriptorLeaf E [xfOptions, opt, ''meta'', mk] (nest more v) = wantString (nest more v)"
        by (simp add: checkDescriptorLeaf_def option_leaf_def)
      moreover have "wantString (nest more v) = None \<longleftrightarrow> more = [] \<and> wantString v = None"
        using obj_leaf(2) [OF nest_obj] by (cases "more = []") auto
      ultimately show ?thesis using lk True Cons assms(2)
        by (simp add: checkOptionEntry_def option_leaf_def)
    qed
  next
    case False
    have leaf: "checkDescriptorLeaf E [xfOptions, opt, lk] x =
        (if lk = ''name'' \<or> lk = ''color'' \<or> lk = ''pos'' then wantString x else Some DInvalidField)" for x
      by (simp add: checkDescriptorLeaf_def option_leaf_def)
    have "wantString (nest rest v) = None \<longleftrightarrow> rest = [] \<and> wantString v = None"
      using obj_leaf(2) [OF nest_obj] by (cases "rest = []") auto
    with lk False assms(2) leaf show ?thesis
      by (auto simp: checkOptionEntry_def option_leaf_def)
  qed
qed

lemma nest_Cons_obj: "nest (k # ks) v = JvObj [(k, nest ks v)]"
  by simp

lemma member_scalar_nest:
  assumes "\<not> is_obj v" "m \<in> {xfType, xfIcon, xfPos, xfLinks}"
  shows "checkTopMember E m (nest ks v) = None \<longleftrightarrow> ks = [] \<and> checkDescriptorLeaf E [m] v = None"
  using assms(2) by (cases ks) (auto simp: checkTopMember_def checkDescriptorLeaf_def wantString_def fastjsonString_def)

lemma member_options_nest:
  assumes "\<not> is_obj v" "[] \<notin> set ks"
  shows "checkTopMember E xfOptions (nest ks v) = None \<longleftrightarrow> checkDescriptorLeaf E (xfOptions # ks) v = None"
proof (cases ks)
  case Nil
  with assms(1) show ?thesis
    by (simp add: checkTopMember_def checkOptionsObject_def not_obj_cases checkDescriptorLeaf_def option_leaf_def)
next
  case (Cons opt rest)
  with assms have "opt \<noteq> []" by auto
  from option_entry_nest [OF assms(1) this, of E rest] Cons show ?thesis
    by (auto simp: checkTopMember_def checkOptionsObject_def checkDescriptorLeaf_def option_leaf_def)
qed

lemma member_relation_nest:
  assumes "\<not> is_obj v"
  shows "checkTopMember E xfRelation (nest ks v) = None \<longleftrightarrow> checkDescriptorLeaf E (xfRelation # ks) v = None"
proof (cases ks rule: Cons_cases3)
  case (2 k)
  then show ?thesis
    by (simp add: checkTopMember_def checkMemberObject_def checkDescriptorLeaf_def relation_leaf_def xfRelationTargets_def
        xfRelationFilter_def)
next
  case (3 k k')
  then show ?thesis
    by (simp add: checkTopMember_def checkMemberObject_def checkDescriptorLeaf_def relation_leaf_def)
next
  case (4 k k' k'' ks')
  then show ?thesis
    by (simp add: checkTopMember_def checkMemberObject_def checkDescriptorLeaf_def relation_leaf_def)
qed (use assms in \<open>simp add: checkTopMember_def checkMemberObject_def not_obj_cases checkDescriptorLeaf_def\<close>)

lemma member_config_nest:
  assumes "\<not> is_obj v"
  shows "checkTopMember E xfConfig (nest ks v) = None \<longleftrightarrow> checkDescriptorLeaf E (xfConfig # ks) v = None"
proof (cases ks rule: Cons_cases3)
  case (2 k)
  then show ?thesis
    by (simp add: checkTopMember_def checkMemberObject_def checkDescriptorLeaf_def)
next
  case (3 k k')
  then show ?thesis
    by (simp add: checkTopMember_def checkMemberObject_def checkDescriptorLeaf_def)
next
  case (4 k k' k'' ks')
  then show ?thesis
    by (simp add: checkTopMember_def checkMemberObject_def checkDescriptorLeaf_def)
qed (use assms in \<open>simp add: checkTopMember_def checkMemberObject_def not_obj_cases checkDescriptorLeaf_def\<close>)

text \<open>The paths a set may name are those of a leaf.\<close>

lemma set_path_iff:
  "(\<exists>sp. xformatPatchPath (wireXFormat # m # ks) path True = Inr sp) \<longleftrightarrow>
     (if m = xfType \<or> m = xfIcon \<or> m = xfPos then ks = []
      else if m = xfOptions then option_leaf (m # ks)
      else if m = xfRelation then length ks = 1 \<and> (hd ks = xfRelationTargets \<or> hd ks = xfRelationFilter)
      else if m = xfConfig then length ks = 1
      else m \<noteq> xfValidate \<and> m \<noteq> xfCompute)"
proof (cases "m = xfOptions")
  case True
  then show ?thesis
    by (cases ks rule: Cons_cases3) (auto simp: xformatPatchPath_def Let_def option_leaf_def)
next
  case False
  note o = this
  show ?thesis
  proof (cases "m = xfRelation \<or> m = xfConfig")
    case True
    then show ?thesis
      by (cases ks rule: Cons_cases3) (auto simp: xformatPatchPath_def Let_def)
  next
    case False
    with o show ?thesis by (auto simp: xformatPatchPath_def Let_def)
  qed
qed

lemma set_path_storage:
  "xformatPatchPath segs path True = Inr sp \<Longrightarrow> sp = propFieldXFormat @ trim_prefix wireXFormat path"
  by (auto simp: xformatPatchPath_def Let_def split: if_split_asm)

lemma member_nest:
  assumes v: "\<not> is_obj v" and ks: "[] \<notin> set ks"
  shows "checkTopMember E m (nest ks v) = None \<longleftrightarrow>
    (\<exists>sp. xformatPatchPath (wireXFormat # m # ks) path True = Inr sp) \<and> checkDescriptorLeaf E (m # ks) v = None"
proof -
  consider "m \<in> {xfType, xfIcon, xfPos, xfLinks}" | "m = xfOptions" | "m = xfRelation" | "m = xfConfig"
    | "m = xfValidate \<or> m = xfCompute"
    | "m \<notin> {xfType, xfIcon, xfPos, xfLinks, xfOptions, xfRelation, xfConfig, xfValidate, xfCompute}"
    by blast
  then show ?thesis
  proof cases
    case 1
    then show ?thesis unfolding set_path_iff member_scalar_nest [OF v 1]
      by (auto simp: checkDescriptorLeaf_def)
  next
    case 2
    have "checkDescriptorLeaf E (xfOptions # ks) v = None \<Longrightarrow> option_leaf (xfOptions # ks)"
      by (simp add: checkDescriptorLeaf_def split: if_split_asm)
    with 2 show ?thesis unfolding set_path_iff 2 member_options_nest [OF v ks] by auto
  next
    case 3
    have "checkDescriptorLeaf E (xfRelation # ks) v = None \<Longrightarrow>
        length ks = 1 \<and> (hd ks = xfRelationTargets \<or> hd ks = xfRelationFilter)"
      by (cases ks) (auto simp: checkDescriptorLeaf_def relation_leaf_def split: if_split_asm)
    with 3 show ?thesis unfolding set_path_iff 3 member_relation_nest [OF v] by auto
  next
    case 4
    have "checkDescriptorLeaf E (xfConfig # ks) v = None \<Longrightarrow> length ks = 1"
      by (simp add: checkDescriptorLeaf_def split: if_split_asm)
    with 4 show ?thesis unfolding set_path_iff 4 member_config_nest [OF v] by auto
  next
    case 5
    then show ?thesis unfolding set_path_iff by (auto simp: checkTopMember_def)
  next
    case 6
    then show ?thesis unfolding set_path_iff by (auto simp: checkTopMember_def checkDescriptorLeaf_def)
  qed
qed

lemma split_path:
  "\<forall>s \<in> set segs. CHR ''.'' \<notin> set s \<Longrightarrow> split_on CHR ''.'' (join_with CHR ''.'' (wireXFormat # segs)) = wireXFormat # segs"
  by (rule split_on_join) (auto simp: wireXFormat_def)

lemma trim_storage:
  "propFieldXFormat @ trim_prefix wireXFormat (join_with CHR ''.'' (wireXFormat # k # segs)) =
     join_with CHR ''.'' (propFieldXFormat # k # segs)"
  by (simp add: trim_prefix_def)

lemma split_storage:
  "\<forall>s \<in> set segs. CHR ''.'' \<notin> set s \<Longrightarrow>
     split_on CHR ''.'' (join_with CHR ''.'' (propFieldXFormat # segs)) = propFieldXFormat # segs"
  by (rule split_on_join) (auto simp: propFieldXFormat_def)

lemma create_nest:
  "validateDescriptor E (RawJson (nest (k # ks) v)) [] =
     (case checkDescriptorKeys (nest (k # ks) v) of
        Some e \<Rightarrow> Inl e
      | None \<Rightarrow> (case checkTopMember E k (nest ks v) of
          Some e \<Rightarrow> Inl e | None \<Rightarrow> if \<not> decodes E v then Inl DInvalidField else Inr (Some (nest (k # ks) (json_any v)))))"
proof -
  let ?o = "JvObj [(k, nest ks v)]"
  have links: "\<not> linkModeMismatch m []" for m
    by (simp add: linkModeMismatch_def split: option.split)
  have slug: "checkTopMember E k (nest ks v) \<noteq> None" if "jv_str ?o xfType \<noteq> []" "slugKindMismatch (jv_str ?o xfType) []"
  proof -
    from that(1) have k: "k = xfType" by (auto simp: jv_str_def split: if_split_asm)
    with that(1) obtain s where s: "nest ks v = JvStr s" by (auto simp: jv_str_def split: jv.splits)
    with that(2) k have "s = slugTags"
      by (auto simp: jv_str_def slugKindMismatch_def split: if_split_asm option.splits)
    with k s show ?thesis by (simp add: checkTopMember_def checkDescriptorLeaf_def slugTags_def)
  qed
  have dec: "decodes E ?o = decodes E v" "json_any ?o = nest (k # ks) (json_any v)"
    by simp_all
  have fs: "first_some (map (\<lambda>(key, x). checkTopMember E key x) [(k, nest ks v)]) = checkTopMember E k (nest ks v)"
    by simp
  show ?thesis
    unfolding nest_Cons_obj validateDescriptor_def raw_json.case jv.case dec fs
    using slug links by (auto split: option.split simp del: checkDescriptorKeys.simps)
qed

lemma leaf_like_create:
  assumes "\<not> is_obj v" and "\<forall>s \<in> set (k # ks). CHR ''.'' \<notin> set s"
  shows "(case fieldPatchPathToStorage (join_with CHR ''.'' (wireXFormat # k # ks)) True of
       Inl e \<Rightarrow> None
     | Inr sp \<Rightarrow> (case patchSetValue E sp (Some v) of Inl e \<Rightarrow> None | Inr x \<Rightarrow> Some (JvObj [(k, nest ks x)]))) =
    (case validateDescriptor E (RawJson (nest (k # ks) v)) [] of Inl e \<Rightarrow> None | Inr xf \<Rightarrow> xf) \<and>
    patchPathToStorage (join_with CHR ''.'' (wireXFormat # k # ks)) True =
      fieldPatchPathToStorage (join_with CHR ''.'' (wireXFormat # k # ks)) True"
proof -
  let ?path = "join_with CHR ''.'' (wireXFormat # k # ks)"
  have segs: "split_on CHR ''.'' ?path = wireXFormat # k # ks" using assms(2) by (rule split_path)
  have ne: "?path \<noteq> []" by (simp add: wireXFormat_def)
  have sp: "splitPatchPath ?path = (if list_ex bad_key (k # ks) then Inl DInvalidField else Inr (wireXFormat # k # ks))"
  proof -
    have w: "\<not> (wireXFormat = [] \<or> has_prefix ''$'' wireXFormat)" by (simp add: wireXFormat_def has_prefix_def)
    have b: "list_ex (\<lambda>s. s = [] \<or> has_prefix ''$'' s) (k # ks) = list_ex bad_key (k # ks)"
      using assms(2) by (auto simp: list_ex_iff bad_key_def)
    show ?thesis unfolding splitPatchPath_def segs Let_def using ne w b by simp
  qed
  have hd: "wireXFormat \<noteq> ''name''" "wireXFormat \<noteq> ''description''" "wireXFormat \<noteq> ''xKey''" "wireXFormat \<noteq> ''meta''"
    by (simp_all add: wireXFormat_def)
  have path: "fieldPatchPathToStorage ?path True =
      (if list_ex bad_key (k # ks) then Inl DInvalidField else xformatPatchPath (wireXFormat # k # ks) ?path True)"
    "patchPathToStorage ?path True = fieldPatchPathToStorage ?path True"
    using hd by (simp_all add: fieldPatchPathToStorage_def patchPathToStorage_def sp Let_def del: join_with.simps)
  show ?thesis
  proof (cases "list_ex bad_key (k # ks)")
    case True
    have "checkDescriptorKeys (nest (k # ks) v) = Some DInvalidField"
      unfolding checkDescriptorKeys_nest using True by simp
    then show ?thesis using path True by (simp add: validateDescriptor_def del: checkDescriptorKeys.simps)
  next
    case False
    then have nk: "[] \<notin> set ks" by (auto simp: list_ex_iff bad_key_def)
    have keys: "checkDescriptorKeys (nest (k # ks) v) = checkDescriptorKeys v"
      unfolding checkDescriptorKeys_nest using False by simp
    let ?st = "join_with CHR ''.'' (propFieldXFormat # k # ks)"
    have stored: "xformatPatchPath (wireXFormat # k # ks) ?path True = Inr st \<Longrightarrow> st = ?st" for st
      using set_path_storage trim_storage by metis
    have sst: "split_on CHR ''.'' ?st = propFieldXFormat # k # ks" using assms(2) by (rule split_storage)
    have set: "patchSetValue E ?st (Some v) =
        (case checkDescriptorKeys v of
           Some e \<Rightarrow> Inl e
         | None \<Rightarrow> (case checkDescriptorLeaf E (k # ks) v of
             Some e \<Rightarrow> Inl e | None \<Rightarrow> if \<not> decodes E v then Inl DInvalidField else Inr (json_any v)))"
      unfolding patchSetValue_def sst Let_def list.sel option.case using assms(1) by simp
    have create: "validateDescriptor E (RawJson (nest (k # ks) v)) [] =
        (case checkDescriptorKeys v of
           Some e \<Rightarrow> Inl e
         | None \<Rightarrow> (case checkTopMember E k (nest ks v) of
             Some e \<Rightarrow> Inl e | None \<Rightarrow> if \<not> decodes E v then Inl DInvalidField else Inr (Some (nest (k # ks) (json_any v)))))"
      using create_nest [of E k ks v] unfolding keys by simp
    note mem = member_nest [OF assms(1) nk, of E k ?path]
    show ?thesis
    proof (cases "checkTopMember E k (nest ks v)")
      case None
      with mem obtain st where "xformatPatchPath (wireXFormat # k # ks) ?path True = Inr st"
        "checkDescriptorLeaf E (k # ks) v = None" by blast
      with stored have "xformatPatchPath (wireXFormat # k # ks) ?path True = Inr ?st" by blast
      with None False path set create \<open>checkDescriptorLeaf E (k # ks) v = None\<close> show ?thesis
        by (auto split: option.split)
    next
      case (Some e)
      with mem have no: "xformatPatchPath (wireXFormat # k # ks) ?path True = Inr st \<Longrightarrow> checkDescriptorLeaf E (k # ks) v \<noteq> None" for st
        by auto
      show ?thesis
      proof (cases "xformatPatchPath (wireXFormat # k # ks) ?path True")
        case (Inl x)
        with Some False path create show ?thesis by (auto split: option.split)
      next
        case (Inr st)
        with stored no have "st = ?st" "checkDescriptorLeaf E (k # ks) v \<noteq> None" by blast+
        with Inr Some False path set create show ?thesis by (auto split: option.split)
      qed
    qed
  qed
qed

text \<open>A leaf that does not fit the kind is refused at creation as well.\<close>

definition leaf_misfit :: "string \<Rightarrow> string list \<Rightarrow> jv \<Rightarrow> bool" where
  "leaf_misfit kind segs v \<longleftrightarrow>
     (case v of
        JvStr s \<Rightarrow> s \<noteq> [] \<and> (segs = [xfType] \<and> slugKindMismatch s kind \<or> segs = [xfLinks] \<and> linkModeMismatch s kind)
      | _ \<Rightarrow> False)"

lemma nest_str [simp]: "jv_str (JvObj [(k, nest ks v)]) m = (if k = m \<and> ks = [] then (case v of JvStr s \<Rightarrow> s | _ \<Rightarrow> []) else [])"
  by (cases ks) (auto simp: jv_str_def split: jv.split)

lemma leaf_misfit_str:
  "leaf_misfit kind (k # ks) v \<longleftrightarrow>
     (let xf = JvObj [(k, nest ks v)] in
      jv_str xf xfType \<noteq> [] \<and> slugKindMismatch (jv_str xf xfType) kind \<or>
      jv_str xf xfLinks \<noteq> [] \<and> linkModeMismatch (jv_str xf xfLinks) kind)"
  unfolding Let_def nest_str by (cases v) (auto simp: leaf_misfit_def)

lemma create_kind:
  "validateDescriptor E (RawJson (nest (k # ks) v)) kind = Inr xf \<longleftrightarrow>
     \<not> leaf_misfit kind (k # ks) v \<and> validateDescriptor E (RawJson (nest (k # ks) v)) [] = Inr xf"
proof -
  let ?o = "JvObj [(k, nest ks v)]"
  have undeclared: "\<not> slugKindMismatch s []" if "\<not> slugKindMismatch s kind" for s
    using that by (auto simp: slugKindMismatch_def split: option.splits if_splits)
  have links: "\<not> linkModeMismatch m []" for m
    by (simp add: linkModeMismatch_def split: option.split)
  define a where "a = checkDescriptorKeys ?o"
  define t where "t = first_some (map (\<lambda>(key, x). checkTopMember E key x) [(k, nest ks v)])"
  have eq: "validateDescriptor E (RawJson (nest (k # ks) v)) c =
      (case a of Some e \<Rightarrow> Inl e
       | None \<Rightarrow> (case t of Some e \<Rightarrow> Inl e
          | None \<Rightarrow> if leaf_misfit c (k # ks) v then Inl DFormatInvalid
                    else if \<not> decodes E ?o then Inl DInvalidField else Inr (Some (json_any ?o))))" for c
    unfolding nest_Cons_obj validateDescriptor_def raw_json.case jv.case leaf_misfit_str Let_def a_def t_def
    by (simp del: checkDescriptorKeys.simps nest_str first_some_single list.map split: option.split)
  have none: "\<not> leaf_misfit [] (k # ks) v" if "\<not> leaf_misfit kind (k # ks) v"
    using that undeclared links unfolding leaf_misfit_str Let_def by blast
  show ?thesis
    unfolding eq using none by (cases a; cases t) simp_all
qed

lemma patched_one: "patched_string [(sp, x)] sp' = (if sp = sp' then (case x of JvStr s \<Rightarrow> s | _ \<Rightarrow> []) else [])"
  by (auto simp: patched_string_def)

lemma json_any_str: "\<not> is_obj v \<Longrightarrow> json_any v = JvStr s \<longleftrightarrow> v = JvStr s"
  by (cases v) auto

lemma storage_eq:
  assumes "\<forall>s \<in> set (k # ks). CHR ''.'' \<notin> set s"
  shows "join_with CHR ''.'' (propFieldXFormat # k # ks) = slug_path \<longleftrightarrow> k # ks = [xfType]"
    and "join_with CHR ''.'' (propFieldXFormat # k # ks) = links_path \<longleftrightarrow> k # ks = [xfLinks]"
    and "join_with CHR ''.'' (propFieldXFormat # k # ks) \<noteq> propFieldXKey"
proof -
  have split: "split_on CHR ''.'' (join_with CHR ''.'' (propFieldXFormat # k # ks)) = propFieldXFormat # k # ks"
    by (rule split_storage [OF assms])
  have one: "split_on CHR ''.'' slug_path = [propFieldXFormat, xfType]" "split_on CHR ''.'' links_path = [propFieldXFormat, xfLinks]"
    "split_on CHR ''.'' propFieldXKey = [propFieldXKey]" by code_simp+
  show "join_with CHR ''.'' (propFieldXFormat # k # ks) = slug_path \<longleftrightarrow> k # ks = [xfType]"
    using split one(1) by (auto simp: slug_path_def)
  show "join_with CHR ''.'' (propFieldXFormat # k # ks) = links_path \<longleftrightarrow> k # ks = [xfLinks]"
    using split one(2) by (auto simp: links_path_def)
  show "join_with CHR ''.'' (propFieldXFormat # k # ks) \<noteq> propFieldXKey"
    using split one(3) by auto
qed

lemma one_misfit:
  assumes "\<forall>s \<in> set (k # ks). CHR ''.'' \<notin> set s" "\<not> is_obj v"
  shows "slug_misfit [(join_with CHR ''.'' (propFieldXFormat # k # ks), json_any v)] kind \<or>
      links_misfit [(join_with CHR ''.'' (propFieldXFormat # k # ks), json_any v)] kind \<longleftrightarrow> leaf_misfit kind (k # ks) v"
  using assms(2) unfolding slug_misfit_def links_misfit_def patched_one storage_eq [OF assms(1)]
  by (cases v) (auto simp: leaf_misfit_def)

lemma patchSetValue_json: "patchSetValue E sp (Some v) = Inr x \<Longrightarrow> hd (split_on CHR ''.'' sp) = propFieldXFormat \<Longrightarrow> x = json_any v"
  by (auto simp: patchSetValue_def Let_def split: option.splits if_splits)

lemma nest_eq: "nest ks x = nest ks y \<longleftrightarrow> x = y"
  by (induction ks) auto

text \<open>One set, before the rules on the kind.\<close>

lemma patch_body_one:
  assumes "\<not> is_obj v" and dots: "\<forall>s \<in> set (k # ks). CHR ''.'' \<notin> set s"
  shows "patch_body E fieldPatchPathToStorage [(join_with CHR ''.'' (wireXFormat # k # ks), Some v)] [] = Inr p \<longleftrightarrow>
      p = ([(join_with CHR ''.'' (propFieldXFormat # k # ks), json_any v)], []) \<and>
      validateDescriptor E (RawJson (nest (k # ks) v)) [] = Inr (Some (nest (k # ks) (json_any v)))"
    and "patch_body E patchPathToStorage [(join_with CHR ''.'' (wireXFormat # k # ks), Some v)] [] =
      patch_body E fieldPatchPathToStorage [(join_with CHR ''.'' (wireXFormat # k # ks), Some v)] []"
proof -
  let ?path = "join_with CHR ''.'' (wireXFormat # k # ks)" and ?st = "join_with CHR ''.'' (propFieldXFormat # k # ks)"
  note leaf = leaf_like_create [OF assms, of E]
  have st: "sp = ?st" if "fieldPatchPathToStorage ?path True = Inr sp" for sp
  proof -
    have "xformatPatchPath (wireXFormat # k # ks) ?path True = Inr sp"
      using that split_path [OF dots]
      by (auto simp: fieldPatchPathToStorage_def splitPatchPath_def Let_def wireXFormat_def split: if_split_asm)
    then show ?thesis using set_path_storage trim_storage by metis
  qed
  have hd: "hd (split_on CHR ''.'' ?st) = propFieldXFormat" using split_storage [OF dots] by simp
  show "patch_body E fieldPatchPathToStorage [(?path, Some v)] [] = Inr p \<longleftrightarrow>
      p = ([(?st, json_any v)], []) \<and> validateDescriptor E (RawJson (nest (k # ks) v)) [] = Inr (Some (nest (k # ks) (json_any v)))"
  proof (cases "fieldPatchPathToStorage ?path True")
    case (Inl e)
    with leaf show ?thesis by (auto simp: patch_body_def split: sum.splits)
  next
    case (Inr sp)
    with st have sp: "fieldPatchPathToStorage ?path True = Inr ?st" by blast
    show ?thesis
    proof (cases "patchSetValue E ?st (Some v)")
      case (Inl e)
      with leaf sp show ?thesis by (auto simp: patch_body_def split: sum.splits)
    next
      case (Inr x)
      with patchSetValue_json [OF Inr hd] leaf sp show ?thesis by (auto simp: patch_body_def split: sum.splits)
    qed
  qed
  show "patch_body E patchPathToStorage [(?path, Some v)] [] = patch_body E fieldPatchPathToStorage [(?path, Some v)] []"
    using leaf by (cases "fieldPatchPathToStorage ?path True") (auto simp: patch_body_def simp del: join_with.simps split: sum.split)
qed

text \<open>
  C24. A PATCH accepts a leaf exactly when a definition of the same kind that carries only that leaf is accepted. For
  every path below \<open>xFormat\<close>, every value that is not an object, and whatever kind the stored definition is pinned to (also
  none), a request that sets that one path, of a dataset field or of a property, passes to the SDK exactly when creating
  the definition with that kind and that value at that path would be accepted, and what it stores is then the same
  value at the same place: the rules that a slug and a links marker put on the kind are the same on both ways. So no
  client can bring a descriptor, leaf by leaf, to a leaf the create refuses, nor is a leaf the create takes out of the
  reach of a PATCH. Assumed: no member of the path has a dot, and the definition is found.
\<close>

theorem patch_like_create:
  assumes "\<not> is_obj v" and "\<forall>s \<in> set (k # ks). CHR ''.'' \<notin> set s"
    and "map_of (rev known) fieldId = Some kind"
    and "list_ex (\<lambda>def. pdId def = propId) defs" and "list_all (\<lambda>def. pdId def = propId \<longrightarrow> pdKind def = kind) defs"
  shows "(typePatchDatasetField E known fieldId [(join_with CHR ''.'' (wireXFormat # k # ks), Some v)] [] =
        Inr ([(join_with CHR ''.'' (propFieldXFormat # k # ks), x)], []) \<longleftrightarrow>
      validateDescriptor E (RawJson (nest (k # ks) v)) kind = Inr (Some (nest (k # ks) x))) \<and>
    (typePatchProperty E defs propId [(join_with CHR ''.'' (wireXFormat # k # ks), Some v)] [] =
        Inr ([(join_with CHR ''.'' (propFieldXFormat # k # ks), x)], []) \<longleftrightarrow>
      validateDescriptor E (RawJson (nest (k # ks) v)) kind = Inr (Some (nest (k # ks) x)))"
proof -
  let ?sets = "[(join_with CHR ''.'' (wireXFormat # k # ks), Some v)]"
  let ?st = "join_with CHR ''.'' (propFieldXFormat # k # ks)"
  note body = patch_body_one [OF assms(1,2), of E] and misfit = one_misfit [OF assms(2,1)]
  have create: "validateDescriptor E (RawJson (nest (k # ks) v)) kind = Inr (Some (nest (k # ks) x)) \<longleftrightarrow>
      \<not> leaf_misfit kind (k # ks) v \<and> x = json_any v \<and>
      validateDescriptor E (RawJson (nest (k # ks) v)) [] = Inr (Some (nest (k # ks) (json_any v)))"
    unfolding create_kind [where kind = kind] using create_nest [of E k ks v]
    by (auto simp: nest_eq simp del: nest.simps checkDescriptorKeys.simps split: option.splits if_splits)
  show ?thesis
  proof (cases "patch_body E fieldPatchPathToStorage ?sets []")
    case (Inl e)
    with body(1) [of "([(?st, json_any v)], [])"]
    have "validateDescriptor E (RawJson (nest (k # ks) v)) [] \<noteq> Inr (Some (nest (k # ks) (json_any v)))" by simp
    moreover have "typePatchDatasetField E known fieldId ?sets [] = Inl e" "typePatchProperty E defs propId ?sets [] = Inl e"
      unfolding typePatchDatasetField_def typePatchProperty_def body(2) Inl by simp_all
    ultimately show ?thesis unfolding create by simp
  next
    case (Inr q)
    with body(1) [of q] have q: "q = ([(?st, json_any v)], [])"
      and ok: "validateDescriptor E (RawJson (nest (k # ks) v)) [] = Inr (Some (nest (k # ks) (json_any v)))" by simp_all
    let ?kvs = "[(?st, json_any v)]"
    have some: "list_ex (\<lambda>def. pdId def = propId \<and> P (pdKind def)) defs \<longleftrightarrow> P kind" for P
      using assms(4,5) by (auto simp: list_ex_iff list_all_iff)
    have key: "patched_string ?kvs propFieldXKey = []"
      unfolding patched_one using storage_eq(3) [OF assms(2)] by simp
    have "typePatchDatasetField E known fieldId ?sets [] =
        (if leaf_misfit kind (k # ks) v then Inl (PatchCode DFormatInvalid) else Inr (?kvs, []))"
      unfolding typePatchDatasetField_def Inr q sum.case prod.case assms(3) option.case misfit by (rule refl)
    moreover have "typePatchProperty E defs propId ?sets [] =
        (if leaf_misfit kind (k # ks) v then Inl (PatchCode DFormatInvalid) else Inr (?kvs, []))"
      unfolding typePatchProperty_def body(2) Inr q sum.case prod.case Let_def key
        some [of "slug_misfit ?kvs"] some [of "links_misfit ?kvs"] misfit [of kind, symmetric] by simp
    ultimately show ?thesis unfolding create using ok by auto
  qed
qed

definition sample_env :: descEnv where
  "sample_env = \<lparr>deFloat = (\<lambda>n. of_nat (length n)), deNumOk = (\<lambda>_. True), deMillis = (\<lambda>n. int (length n)),
     deCondition = (\<lambda>s. s \<noteq> []), deScheme = (\<lambda>s. if has_prefix ''http:'' s then Some ''http'' else Some []),
     deTime = (\<lambda>s. if s = ''2024-01-02T00:00:00Z'' then Some (19724 * day_nanos) else None)\<rparr>"

theorem patch_like_create_witness:
  "typePatchProperty sample_env [\<lparr>pdId = ''p1'', pdXKey = [], pdKind = ''number'', pdXFormat = JvNull\<rparr>] ''p1''
     [(''xFormat.type'', Some (JvStr ''rating''))] [] = Inr ([(''x-format.type'', JvStr ''rating'')], []) \<and>
   validateDescriptor sample_env (RawJson (nest [''type''] (JvStr ''rating''))) ''number'' =
     Inr (Some (nest [''type''] (JvStr ''rating''))) \<and>
   typePatchProperty sample_env [\<lparr>pdId = ''p1'', pdXKey = [], pdKind = ''string'', pdXFormat = JvNull\<rparr>] ''p1''
     [(''xFormat.type'', Some (JvStr ''rating''))] [] = Inl (PatchCode DFormatInvalid)"
proof -
  let ?def = "\<lparr>pdId = ''p1'', pdXKey = [], pdKind = ''number'', pdXFormat = JvNull\<rparr>"
  have p: "join_with CHR ''.'' (wireXFormat # ''type'' # []) = ''xFormat.type''"
    "join_with CHR ''.'' (propFieldXFormat # ''type'' # []) = ''x-format.type''"
    by (simp_all add: wireXFormat_def propFieldXFormat_def)
  have create: "validateDescriptor sample_env (RawJson (nest [''type''] (JvStr ''rating''))) ''number'' =
      Inr (Some (nest [''type''] (JvStr ''rating'')))" by code_simp
  have h: "\<not> is_obj (JvStr ''rating'')" "\<forall>s \<in> set (''type'' # []). CHR ''.'' \<notin> set s"
    "map_of (rev [(''f1'', ''number'')]) ''f1'' = Some ''number''"
    "list_ex (\<lambda>def. pdId def = ''p1'') [?def]" "list_all (\<lambda>def. pdId def = ''p1'' \<longrightarrow> pdKind def = ''number'') [?def]"
    by simp_all
  have "typePatchProperty sample_env [\<lparr>pdId = ''p1'', pdXKey = [], pdKind = ''string'', pdXFormat = JvNull\<rparr>] ''p1''
     [(''xFormat.type'', Some (JvStr ''rating''))] [] = Inl (PatchCode DFormatInvalid)" by code_simp
  with patch_like_create [OF h, of sample_env "JvStr ''rating''", unfolded p] create show ?thesis by blast
qed

text \<open>Two members with one key: the check of the kind reads the first slug, the stored descriptor keeps the last.\<close>

lemma duplicate_slug_escapes:
  "validateDescriptor E (RawJson (JvObj [(''type'', JvStr ''text''), (''type'', JvStr ''rating'')])) ''string'' =
     Inr (Some (JvObj [(''type'', JvStr ''rating'')])) \<and>
   slugKindMismatch ''rating'' ''string''"
  by (simp add: validateDescriptor_def checkTopMember_def checkDescriptorLeaf_def slugTags_def jv_str_def bad_key_def
      has_prefix_def slugKindMismatch_def slugKinds_def)

section \<open>Which values fit\<close>

text \<open>What a value of each slug has to be, said without the walks of the code.\<close>

definition strings_value :: "jv \<Rightarrow> jv \<Rightarrow> (string \<Rightarrow> bool) \<Rightarrow> bool" where
  "strings_value xf v ok \<longleftrightarrow>
     (\<exists>els. v = JvArr (map JvStr els) \<and> (\<forall>s \<in> set els. ok s) \<and> (length els \<le> 1 \<or> xfConfigBool xf xfConfigMultiple))"

definition instant_at :: "descEnv \<Rightarrow> (string \<times> jv) list \<Rightarrow> string \<Rightarrow> int option" where
  "instant_at E kvs k = (case map_of (rev kvs) k of None \<Rightarrow> None | Some v \<Rightarrow> datetimeValue E v)"

definition value_fits :: "descEnv \<Rightarrow> string \<Rightarrow> jv \<Rightarrow> jv \<Rightarrow> bool" where
  "value_fits E slug xf v \<longleftrightarrow>
     (slug \<in> set [''text'', ''longtext'', ''phone'', ''markdown''] \<longrightarrow> (\<exists>s. v = JvStr s)) \<and>
     (slug = ''url'' \<longrightarrow> (\<exists>s sch. v = JvStr s \<and> deScheme E s = Some sch \<and> sch \<noteq> [])) \<and>
     (slug = ''email'' \<longrightarrow>
        (\<exists>name dom. v = JvStr (name @ ''@'' @ dom) \<and> name \<noteq> [] \<and> dom \<noteq> [] \<and>
           (\<forall>c \<in> set (name @ dom). c \<noteq> CHR ''@'' \<and> c \<noteq> CHR '' '' \<and> c \<noteq> char_of (9 :: nat) \<and> c \<noteq> char_of (10 :: nat)))) \<and>
     (slug = ''choice'' \<longrightarrow> strings_value xf v (\<lambda>s. s \<noteq> [])) \<and>
     (slug = ''relation'' \<longrightarrow> strings_value xf v IsPropertyValueRef) \<and>
     (slug = ''member'' \<longrightarrow> strings_value xf v IsIdentityValueRef) \<and>
     (slug \<in> set [''number'', ''currency'', ''percent'', ''duration''] \<longrightarrow> (\<exists>n. v = JvNum n)) \<and>
     (slug = ''rating'' \<longrightarrow>
        (\<exists>n. v = JvNum n \<and> (\<forall>mx. xfConfigNumber E xf xfConfigMax = Some mx \<longrightarrow> 0 \<le> deFloat E n \<and> deFloat E n \<le> mx))) \<and>
     (slug = ''checkbox'' \<longrightarrow> (\<exists>b. v = JvBool b)) \<and>
     (slug = ''date'' \<longrightarrow> (\<exists>ts. datetimeValue E v = Some ts \<and> day_nanos dvd ts)) \<and>
     (slug = ''datetime'' \<longrightarrow> (\<exists>ts. datetimeValue E v = Some ts)) \<and>
     (slug = ''period'' \<longrightarrow>
        (\<exists>kvs. v = JvObj kvs \<and> kvs \<noteq> [] \<and>
           (\<forall>(k, x) \<in> set kvs. (k = ''from'' \<or> k = ''to'') \<and> datetimeValue E x \<noteq> None) \<and>
           (\<forall>a b. instant_at E kvs ''from'' = Some a \<and> instant_at E kvs ''to'' = Some b \<longrightarrow> a \<le> b))) \<and>
     (slug = ''money'' \<longrightarrow>
        (\<exists>kvs. v = JvObj kvs \<and> fst ` set kvs = {''amount'', ''currency''} \<and>
           (\<forall>(k, x) \<in> set kvs. if k = ''amount'' then (\<exists>n. x = JvNum n) else nonempty_string x))) \<and>
     (slug = ''geo'' \<longrightarrow>
        (\<exists>kvs. v = JvObj kvs \<and> fst ` set kvs = {''lat'', ''lng''} \<and>
           (\<forall>(k, x) \<in> set kvs. if k = ''lat'' then num_within E 90 x else num_within E 180 x)))"

lemma list_value_iff: "list_value xf v ok \<longleftrightarrow> strings_value xf v ok"
proof (cases v)
  case (JvArr els)
  have "(\<forall>el \<in> set els. case fastjsonString el of None \<Rightarrow> False | Some s \<Rightarrow> ok s) \<longleftrightarrow> (\<exists>ss. els = map JvStr ss \<and> (\<forall>s \<in> set ss. ok s))"
  proof (induction els)
    case (Cons el els)
    show ?case
    proof (cases el)
      case (JvStr s)
      have "(\<exists>ss. el # els = map JvStr ss \<and> (\<forall>s \<in> set ss. ok s)) \<longleftrightarrow>
          ok s \<and> (\<exists>ss. els = map JvStr ss \<and> (\<forall>s \<in> set ss. ok s))"
      proof
        assume "ok s \<and> (\<exists>ss. els = map JvStr ss \<and> (\<forall>s \<in> set ss. ok s))"
        then obtain ss where "els = map JvStr ss" "\<forall>s \<in> set (s # ss). ok s" by auto
        with JvStr show "\<exists>ss. el # els = map JvStr ss \<and> (\<forall>s \<in> set ss. ok s)" by (intro exI [of _ "s # ss"]) simp
      qed (auto simp: JvStr Cons_eq_map_conv)
      with Cons JvStr show ?thesis by (simp add: fastjsonString_def)
    qed (auto simp: fastjsonString_def Cons_eq_map_conv)
  qed simp
  with JvArr show ?thesis
    by (auto simp: list_value_def strings_value_def list_all_iff)
qed (auto simp: list_value_def strings_value_def)

lemma visit_money:
  "visit_members money_member s kvs = Some s' \<longleftrightarrow>
     (\<forall>(k, x) \<in> set kvs. k = ''amount'' \<and> (\<exists>n. x = JvNum n) \<or> k = ''currency'' \<and> nonempty_string x) \<and>
     s' = (fst s \<or> ''amount'' \<in> fst ` set kvs, snd s \<or> ''currency'' \<in> fst ` set kvs)"
proof (induction kvs arbitrary: s)
  case Nil
  show ?case by (cases s) auto
next
  case (Cons kv kvs)
  obtain k x where kv: "kv = (k, x)" by fastforce
  consider "k = ''amount''" | "k = ''currency''" | "k \<noteq> ''amount''" "k \<noteq> ''currency''" by blast
  then show ?case
  proof cases
    case 1
    with Cons kv show ?thesis by (cases x) (auto simp: money_member_def)
  next
    case 2
    with Cons kv show ?thesis by (auto simp: money_member_def)
  next
    case 3
    with kv show ?thesis by (simp add: money_member_def)
  qed
qed

lemma visit_geo:
  "visit_members (geo_member E) s kvs = Some s' \<longleftrightarrow>
     (\<forall>(k, x) \<in> set kvs. k = ''lat'' \<and> num_within E 90 x \<or> k = ''lng'' \<and> num_within E 180 x) \<and>
     s' = (fst s \<or> ''lat'' \<in> fst ` set kvs, snd s \<or> ''lng'' \<in> fst ` set kvs)"
proof (induction kvs arbitrary: s)
  case Nil
  show ?case by (cases s) auto
next
  case (Cons kv kvs)
  obtain k x where kv: "kv = (k, x)" by fastforce
  consider "k = ''lat''" | "k = ''lng''" | "k \<noteq> ''lat''" "k \<noteq> ''lng''" by blast
  then show ?case
  proof cases
    case 1
    with Cons kv show ?thesis by (auto simp: geo_member_def)
  next
    case 2
    with Cons kv show ?thesis by (auto simp: geo_member_def)
  next
    case 3
    with kv show ?thesis by (simp add: geo_member_def)
  qed
qed

lemma visit_period:
  "visit_members (period_member E) s kvs = Some s' \<longleftrightarrow>
     (\<forall>(k, x) \<in> set kvs. (k = ''from'' \<or> k = ''to'') \<and> datetimeValue E x \<noteq> None) \<and>
     s' = (case map_of (rev kvs) ''from'' of None \<Rightarrow> fst s | Some x \<Rightarrow> datetimeValue E x,
           case map_of (rev kvs) ''to'' of None \<Rightarrow> snd s | Some x \<Rightarrow> datetimeValue E x)"
proof (induction kvs arbitrary: s)
  case Nil
  show ?case by (cases s) auto
next
  case (Cons kv kvs)
  obtain k x where kv: "kv = (k, x)" by fastforce
  consider "k = ''from''" | "k = ''to''" | "k \<noteq> ''from''" "k \<noteq> ''to''" by blast
  then show ?case
  proof cases
    case 1
    with Cons kv show ?thesis
      by (cases "datetimeValue E x") (auto simp: period_member_def map_add_def split: option.split)
  next
    case 2
    with Cons kv show ?thesis
      by (cases "datetimeValue E x") (auto simp: period_member_def map_add_def split: option.split)
  next
    case 3
    with kv show ?thesis by (simp add: period_member_def)
  qed
qed

lemma two_keys:
  assumes "a \<noteq> b"
  shows "(\<forall>(k, x) \<in> set kvs. k = a \<and> P x \<or> k = b \<and> Q x) \<and> a \<in> fst ` set kvs \<and> b \<in> fst ` set kvs \<longleftrightarrow>
    fst ` set kvs = {a, b} \<and> (\<forall>(k, x) \<in> set kvs. if k = a then P x else Q x)"
proof
  assume l: "(\<forall>(k, x) \<in> set kvs. k = a \<and> P x \<or> k = b \<and> Q x) \<and> a \<in> fst ` set kvs \<and> b \<in> fst ` set kvs"
  then have "fst ` set kvs \<subseteq> {a, b}" by fastforce
  with l have "fst ` set kvs = {a, b}" by blast
  moreover have "\<forall>(k, x) \<in> set kvs. if k = a then P x else Q x" using l assms by fastforce
  ultimately show "fst ` set kvs = {a, b} \<and> (\<forall>(k, x) \<in> set kvs. if k = a then P x else Q x)" ..
next
  assume r: "fst ` set kvs = {a, b} \<and> (\<forall>(k, x) \<in> set kvs. if k = a then P x else Q x)"
  have "k = a \<and> P x \<or> k = b \<and> Q x" if kx: "(k, x) \<in> set kvs" for k x
  proof -
    have "k \<in> {a, b}" using r kx image_eqI [of k fst "(k, x)" "set kvs"] by simp
    moreover have "if k = a then P x else Q x" using r kx by blast
    ultimately show ?thesis by (auto split: if_split_asm)
  qed
  with r show "(\<forall>(k, x) \<in> set kvs. k = a \<and> P x \<or> k = b \<and> Q x) \<and> a \<in> fst ` set kvs \<and> b \<in> fst ` set kvs" by blast
qed

lemma fits_money: "checkMoneyValue v \<longleftrightarrow>
    (\<exists>kvs. v = JvObj kvs \<and> fst ` set kvs = {''amount'', ''currency''} \<and>
       (\<forall>(k, x) \<in> set kvs. if k = ''amount'' then (\<exists>n. x = JvNum n) else nonempty_string x))"
proof (cases v)
  case (JvObj kvs)
  note two_keys [of "''amount''" "''currency''" kvs "\<lambda>x. \<exists>n. x = JvNum n" nonempty_string]
  with JvObj show ?thesis by (simp add: checkMoneyValue_def visit_money)
qed (simp_all add: checkMoneyValue_def)

lemma fits_geo: "checkGeoValue E v \<longleftrightarrow>
    (\<exists>kvs. v = JvObj kvs \<and> fst ` set kvs = {''lat'', ''lng''} \<and>
       (\<forall>(k, x) \<in> set kvs. if k = ''lat'' then num_within E 90 x else num_within E 180 x))"
proof (cases v)
  case (JvObj kvs)
  note two_keys [of "''lat''" "''lng''" kvs "num_within E 90" "num_within E 180"]
  with JvObj show ?thesis by (simp add: checkGeoValue_def visit_geo)
qed (simp_all add: checkGeoValue_def)

lemma fits_period: "checkPeriodValue E v \<longleftrightarrow>
    (\<exists>kvs. v = JvObj kvs \<and> kvs \<noteq> [] \<and>
       (\<forall>(k, x) \<in> set kvs. (k = ''from'' \<or> k = ''to'') \<and> datetimeValue E x \<noteq> None) \<and>
       (\<forall>a b. instant_at E kvs ''from'' = Some a \<and> instant_at E kvs ''to'' = Some b \<longrightarrow> a \<le> b))"
proof (cases v)
  case (JvObj kvs)
  let ?ok = "\<forall>(k, x) \<in> set kvs. (k = ''from'' \<or> k = ''to'') \<and> datetimeValue E x \<noteq> None"
  let ?f = "instant_at E kvs ''from''" and ?t = "instant_at E kvs ''to''"
  have vis: "visit_members (period_member E) (None, None) kvs = (if ?ok then Some (?f, ?t) else None)"
  proof (cases ?ok)
    case True
    then have "visit_members (period_member E) (None, None) kvs = Some (?f, ?t)"
      unfolding visit_period by (simp add: instant_at_def split: option.split)
    with True show ?thesis by simp
  next
    case False
    then have "visit_members (period_member E) (None, None) kvs \<noteq> Some s'" for s'
      unfolding visit_period by blast
    with False show ?thesis by (simp add: not_Some_eq [symmetric] del: not_Some_eq)
  qed
  have some: "kvs = [] \<longleftrightarrow> ?f = None \<and> ?t = None" if ?ok
  proof (cases kvs)
    case (Cons kv kvs')
    obtain k x where "kv = (k, x)" by fastforce
    with Cons that have kv: "kv = (k, x)" "k = ''from'' \<or> k = ''to''" "(k, x) \<in> set kvs" by simp_all
    then have "map_of (rev kvs) k \<noteq> None" by (auto simp: map_of_eq_None_iff intro!: image_eqI [of k fst "(k, x)"])
    then obtain y where y: "map_of (rev kvs) k = Some y" by blast
    then have "(k, y) \<in> set kvs" by (auto dest: map_of_SomeD)
    with that have "datetimeValue E y \<noteq> None" by blast
    with y kv(2) have "\<not> (?f = None \<and> ?t = None)" by (auto simp: instant_at_def)
    with Cons show ?thesis by simp
  qed (simp add: instant_at_def)
  show ?thesis
  proof (cases ?ok)
    case True
    with JvObj vis some [OF True] show ?thesis
      by (cases ?f; cases ?t) (auto simp: checkPeriodValue_def)
  next
    case False
    with JvObj vis show ?thesis by (auto simp: checkPeriodValue_def)
  qed
qed (simp_all add: checkPeriodValue_def)

lemma index_at: "c \<notin> set a \<Longrightarrow> index_sub [c] (a @ c # b) = Some (length a)"
  by (induction a) (auto simp: has_prefix_def)

lemma email_ok_iff: "email_ok s \<longleftrightarrow>
    (\<exists>name dom. s = name @ ''@'' @ dom \<and> name \<noteq> [] \<and> dom \<noteq> [] \<and>
       (\<forall>c \<in> set (name @ dom). c \<noteq> CHR ''@'' \<and> c \<noteq> CHR '' '' \<and> c \<noteq> char_of (9 :: nat) \<and> c \<noteq> char_of (10 :: nat)))"
proof
  assume ok: "email_ok s"
  then obtain i where i: "index_sub ''@'' s = Some i" "i \<noteq> 0" "i \<noteq> length s - 1"
    "length (filter (\<lambda>c. c = CHR ''@'') s) = 1"
    "\<forall>c \<in> set s. c \<noteq> CHR '' '' \<and> c \<noteq> char_of (9 :: nat) \<and> c \<noteq> char_of (10 :: nat)"
    by (auto simp: email_ok_def list_ex_iff split: option.splits)
  from index_sub_Some [OF i(1)] obtain dom where d: "drop i s = CHR ''@'' # dom" by (auto simp: has_prefix_iff)
  have s: "s = take i s @ ''@'' @ dom" using d by (metis append_Cons append_Nil append_take_drop_id)
  have len: "length (drop i s) = Suc (length dom)" using d by simp
  have "filter (\<lambda>c. c = CHR ''@'') (take i s) = [] \<and> filter (\<lambda>c. c = CHR ''@'') dom = []"
    using i(4) by (subst (asm) s) simp
  then have at: "\<forall>c \<in> set (take i s @ dom). c \<noteq> CHR ''@''" by (auto simp: filter_empty_conv)
  have "set (take i s @ dom) \<subseteq> set s" using arg_cong [OF s, of set] by auto
  moreover have "take i s \<noteq> []" using i(2) len by auto
  moreover have "dom \<noteq> []" using i(3) len by auto
  ultimately show "\<exists>name dom. s = name @ ''@'' @ dom \<and> name \<noteq> [] \<and> dom \<noteq> [] \<and>
       (\<forall>c \<in> set (name @ dom). c \<noteq> CHR ''@'' \<and> c \<noteq> CHR '' '' \<and> c \<noteq> char_of (9 :: nat) \<and> c \<noteq> char_of (10 :: nat))"
    using s at i(5) by blast
next
  assume "\<exists>name dom. s = name @ ''@'' @ dom \<and> name \<noteq> [] \<and> dom \<noteq> [] \<and>
       (\<forall>c \<in> set (name @ dom). c \<noteq> CHR ''@'' \<and> c \<noteq> CHR '' '' \<and> c \<noteq> char_of (9 :: nat) \<and> c \<noteq> char_of (10 :: nat))"
  then obtain name dom where e: "s = name @ CHR ''@'' # dom" "name \<noteq> []" "dom \<noteq> []"
    "\<forall>c \<in> set (name @ dom). c \<noteq> CHR ''@'' \<and> c \<noteq> CHR '' '' \<and> c \<noteq> char_of (9 :: nat) \<and> c \<noteq> char_of (10 :: nat)"
    by auto
  have i: "index_sub ''@'' s = Some (length name)" unfolding e(1) using e(4) by (intro index_at) auto
  have f: "filter (\<lambda>c. c = CHR ''@'') name = []" "filter (\<lambda>c. c = CHR ''@'') dom = []"
    using e(4) by (auto simp: filter_empty_conv)
  have b: "\<not> list_ex (\<lambda>c. c \<in> set [CHR '' '', char_of (9 :: nat), char_of (10 :: nat)]) s"
  proof -
    let ?W = "set [CHR '' '', char_of (9 :: nat), char_of (10 :: nat)]"
    have "c \<notin> ?W" if "c \<in> set (name @ dom)" for c
      using e(4) that by (simp only: list.set insert_iff empty_iff simp_thms de_Morgan_disj)
    moreover have "CHR ''@'' \<notin> ?W" by code_simp
    ultimately have "c \<notin> ?W" if "c \<in> set s" for c
      using that unfolding e(1) set_append list.set(2) Un_iff insert_iff by metis
    then show ?thesis unfolding list_ex_iff by blast
  qed
  have "length (filter (\<lambda>c. c = CHR ''@'') s) = 1" unfolding e(1) filter_append filter.simps f by simp
  moreover have "length name \<noteq> length s - 1" using e(1,3) by (cases dom) auto
  ultimately show "email_ok s" using b e(2) by (simp only: email_ok_def i option.case length_0_conv simp_thms)
qed

lemma exists_string: "(\<exists>s. v = JvStr s \<and> (\<exists>n d. s = f n d \<and> P n d)) \<longleftrightarrow> (\<exists>n d. v = JvStr (f n d) \<and> P n d)"
  by blast

lemma email_case: "(\<exists>s. v = JvStr s \<and> email_ok s) \<longleftrightarrow>
    (\<exists>name dom. v = JvStr (name @ ''@'' @ dom) \<and> name \<noteq> [] \<and> dom \<noteq> [] \<and>
       (\<forall>c \<in> set (name @ dom). c \<noteq> CHR ''@'' \<and> c \<noteq> CHR '' '' \<and> c \<noteq> char_of (9 :: nat) \<and> c \<noteq> char_of (10 :: nat)))"
  unfolding email_ok_iff by (rule exists_string)

lemma nine_cases:
  assumes "a \<Longrightarrow> P" and "b \<Longrightarrow> P" and "c \<Longrightarrow> P" and "d \<Longrightarrow> P" and "e \<Longrightarrow> P" and "f \<Longrightarrow> P"
    and "g \<Longrightarrow> P" and "h \<Longrightarrow> P" and "i \<Longrightarrow> P"
    and "\<not> a \<Longrightarrow> \<not> b \<Longrightarrow> \<not> c \<Longrightarrow> \<not> d \<Longrightarrow> \<not> e \<Longrightarrow> \<not> f \<Longrightarrow> \<not> g \<Longrightarrow> \<not> h \<Longrightarrow> \<not> i \<Longrightarrow> P"
  shows P
proof (rule ccontr)
  assume n: "\<not> P"
  have "\<not> a" using n assms(1) by (rule contrapos_nn)
  have "\<not> b" using n assms(2) by (rule contrapos_nn)
  have "\<not> c" using n assms(3) by (rule contrapos_nn)
  have "\<not> d" using n assms(4) by (rule contrapos_nn)
  have "\<not> e" using n assms(5) by (rule contrapos_nn)
  have "\<not> f" using n assms(6) by (rule contrapos_nn)
  have "\<not> g" using n assms(7) by (rule contrapos_nn)
  have "\<not> h" using n assms(8) by (rule contrapos_nn)
  have "\<not> i" using n assms(9) by (rule contrapos_nn)
  show False by (rule notE [OF n], rule assms(10)) fact+
qed

lemma check_value_iff: "checkDescriptorValue E slug xf v \<longleftrightarrow> value_fits E slug xf v"
proof -
  have str: "fastjsonString v = Some s \<longleftrightarrow> v = JvStr s" for s by (cases v) (auto simp: fastjsonString_def)
  have strN: "(\<exists>s. fastjsonString v = Some s) \<longleftrightarrow> (\<exists>s. v = JvStr s)" by (cases v) (auto simp: fastjsonString_def)
  have num: "(\<exists>y. (case v of JvNum n \<Rightarrow> Some (deFloat E n) | _ \<Rightarrow> None) = Some y) \<longleftrightarrow> (\<exists>n. v = JvNum n)" by (cases v) auto
  have cs: "(case fastjsonString v of None \<Rightarrow> False | Some s \<Rightarrow> P s) \<longleftrightarrow> (\<exists>s. v = JvStr s \<and> P s)" for P
    by (cases v) (auto simp: fastjsonString_def)
  show ?thesis
  proof (rule nine_cases [where a = "slug \<in> set [''text'', ''longtext'', ''phone'', ''markdown'']" and b = "slug = ''url''"
      and c = "slug = ''email''" and d = "slug \<in> set [''choice'', ''relation'', ''member'']"
      and e = "slug \<in> set [''number'', ''currency'', ''percent'', ''duration'']" and f = "slug = ''rating''"
      and g = "slug = ''checkbox''" and h = "slug \<in> set [''date'', ''datetime'']"
      and i = "slug \<in> set [''period'', ''money'', ''geo'']"], goal_cases)
    case 1
    then show ?thesis
      by (simp only: list.set insert_iff empty_iff simp_thms, elim disjE;
          simp add: checkDescriptorValue_def value_fits_def strN)
  next
    case 2
    show ?thesis unfolding 2
      by (simp add: checkDescriptorValue_def value_fits_def cs) (auto split: option.splits)
  next
    case 3
    show ?thesis unfolding 3 by (simp add: checkDescriptorValue_def value_fits_def cs email_case)
  next
    case 4
    then show ?thesis
      by (simp only: list.set insert_iff empty_iff simp_thms, elim disjE;
          simp add: checkDescriptorValue_def value_fits_def list_value_iff)
  next
    case 5
    then show ?thesis
      by (simp only: list.set insert_iff empty_iff simp_thms, elim disjE;
          simp add: checkDescriptorValue_def value_fits_def num)
  next
    case 6
    show ?thesis unfolding 6
      by (cases v) (auto simp: checkDescriptorValue_def value_fits_def split: option.split)
  next
    case 7
    show ?thesis unfolding 7
      by (cases v) (simp_all add: checkDescriptorValue_def value_fits_def)
  next
    case 8
    then show ?thesis
      by (simp only: list.set insert_iff empty_iff simp_thms, elim disjE;
          simp add: checkDescriptorValue_def value_fits_def dvd_eq_mod_eq_0 split: option.split)
  next
    case 9
    then show ?thesis
      by (simp only: list.set insert_iff empty_iff simp_thms, elim disjE;
          simp add: checkDescriptorValue_def value_fits_def fits_period fits_money fits_geo)
  next
    case 10
    then show ?thesis by (simp add: checkDescriptorValue_def value_fits_def)
  qed
qed

text \<open>
  Property values are checked for exactly the shape of their slug. A patch passes the check if and only if each of its values is
  null, belongs to no property with a slug, or has the shape the slug of its property's current definition stands for: one address for an email, plain
  object references for a relation and member references for a member, one element unless \<open>config.multiple\<close>, a number
  up to \<open>config.max\<close> for a rating, midnight for a date, an end not before its start for a period, both parts and
  nothing else for money and for a place. When it does not pass, the answer names a value of the patch that does not fit
  and its slug.
\<close>

theorem values_checked:
  "case validateDescriptorValues E defs patch of
     None \<Rightarrow>
       (\<forall>(p, v) \<in> set patch. v = JvNull \<or>
          (case slugged_defs defs p of
             None \<Rightarrow> True | Some d \<Rightarrow> value_fits E (xfSlug (pdXFormat d)) (pdXFormat d) v))
   | Some (p, slug) \<Rightarrow>
       (\<exists>v d. (p, v) \<in> set patch \<and> v \<noteq> JvNull \<and> slugged_defs defs p = Some d \<and> slug = xfSlug (pdXFormat d) \<and>
          \<not> value_fits E slug (pdXFormat d) v)"
proof (induction patch)
  case (Cons pv patch)
  obtain p v where pv: "pv = (p, v)" by fastforce
  show ?case
  proof (cases "slugged_defs defs p")
    case None
    with Cons pv show ?thesis by (auto split: option.splits)
  next
    case (Some d)
    show ?thesis
    proof (cases "v = JvNull \<or> checkDescriptorValue E (xfSlug (pdXFormat d)) (pdXFormat d) v")
      case True
      with Some Cons pv show ?thesis
        by (auto simp: Let_def check_value_iff split: option.splits)
    next
      case False
      with Some pv show ?thesis by (auto simp: Let_def check_value_iff)
    qed
  qed
qed simp

text \<open>An email property given one address, and the same property given two.\<close>

theorem values_checked_witness:
  "let xf = JvObj [(''type'', JvStr ''email'')];
       defs = [\<lparr>pdId = ''p'', pdXKey = [], pdKind = ''string'', pdXFormat = xf\<rparr>] in
   validateDescriptorValues sample_env defs [(''p'', JvStr ''a@b''), (''q'', JvNum ''1'')] = None \<and>
   value_fits sample_env ''email'' xf (JvStr ''a@b'') \<and>
   validateDescriptorValues sample_env defs [(''p'', JvStr ''a@b,c@d'')] = Some (''p'', ''email'') \<and>
   \<not> value_fits sample_env ''email'' xf (JvStr ''a@b,c@d'')"
proof -
  define xf where "xf = JvObj [(''type'', JvStr ''email'')]"
  define defs where "defs = [\<lparr>pdId = ''p'', pdXKey = [], pdKind = ''string'', pdXFormat = xf\<rparr>]"
  have 1: "validateDescriptorValues sample_env defs [(''p'', JvStr ''a@b''), (''q'', JvNum ''1'')] = None"
    and 2: "validateDescriptorValues sample_env defs [(''p'', JvStr ''a@b,c@d'')] = Some (''p'', ''email'')"
    and d: "slugged_defs defs ''p'' = Some \<lparr>pdId = ''p'', pdXKey = [], pdKind = ''string'', pdXFormat = xf\<rparr>"
    and s: "xfSlug xf = ''email''"
    unfolding defs_def xf_def by code_simp+
  from values_checked [where E = sample_env and defs = defs and patch = "[(''p'', JvStr ''a@b''), (''q'', JvNum ''1'')]"]
  have "value_fits sample_env ''email'' xf (JvStr ''a@b'')" unfolding 1 by (simp add: d s)
  moreover from values_checked [where E = sample_env and defs = defs and patch = "[(''p'', JvStr ''a@b,c@d'')]"]
  have "\<not> value_fits sample_env ''email'' xf (JvStr ''a@b,c@d'')" unfolding 2 by (simp add: d s)
  ultimately show ?thesis using 1 2 by (simp add: Let_def defs_def xf_def)
qed

end
