(* ===== verification/IndexChunkers.thy ===== *)
theory IndexChunkers
  imports IndexWorker SearchPage ChatReading
begin

text \<open>
  The chunkers of the search index (src/internal/index): the windowed reader every chunker uses (stream.go), the
  membership of an objects row (index.go), the chunker of property values (prop.go), of the collections a module serves
  (module.go) and of runtime datasets (schema.go), and the two modules: chat messages (src/internal/chat/chunker.go) and
  the windows of a document (src/internal/editor/chunker.go).

  A space as a chunker reads it is a record of what its SDK calls answer. The decoded schema document of a dataset, the
  printing of numbers and instants and the runes of a byte string are parameters. A query that fails after some
  documents fails as a whole, as its caller drops the page.
\<close>

section \<open>The interfaces\<close>

record 'v renderEnv =
  reEnc :: "'v anyenc"
  reInt :: "'v \<Rightarrow> string list \<Rightarrow> int"
  reNumber :: "'v \<Rightarrow> string"
  reTime :: "'v \<Rightarrow> string option"
  reRunes :: "string \<Rightarrow> runes"

datatype PropertyKind = PropertyKindString | PropertyKindArray | PropertyKindNumber | PropertyKindDatetime
  | PropertyKindBoolean | PropertyKindNull | PropertyKindObject

record PropDef =
  pfId :: string
  pfXKey :: string
  pfName :: string
  pfKind :: PropertyKind
  pfIndex :: string
  pfXFormat :: "(string \<Rightarrow> dyn option) option"

text \<open>What \<open>x-search.text\<close> decodes to: nothing, a string, strings, or neither.\<close>

datatype raw_text = RawEmpty | RawString string | RawStrings "string list" | RawOther

record schemaDoc =
  scTitle :: string
  scText :: raw_text
  scScope :: string
  scProperties :: "(string \<times> (string \<Rightarrow> dyn option) option) list"

record DatasetSchema =
  dsName :: string
  dsOwners :: "string list"
  dsModule :: string
  dsShared :: bool
  dsDoc :: "schemaDoc option"

text \<open>
  \<open>spRow\<close> is the objects row, tombstone included; \<open>spQuery\<close> and \<open>spObjects\<close> are the queries of
  \<open>RecordsSince\<close> over a dataset and over the objects row, past a cursor.
\<close>

record ('v, 'e) idxSpace =
  spId :: string
  spDatasets :: "DatasetSchema list"
  spTypes :: "'e + (string \<times> bool) list"
  spCollections :: "'e + (string \<times> bool) list"
  spProperties :: "string \<Rightarrow> 'e + PropDef list"
  spRow :: "string \<Rightarrow> 'e + 'v option"
  spQuery :: "string \<Rightarrow> string \<Rightarrow> nat \<Rightarrow> 'e + 'v option list"
  spObjects :: "string \<Rightarrow> nat \<Rightarrow> 'e + 'v option list"
  spPlainRecordId :: "string \<Rightarrow> string \<Rightarrow> string"

section \<open>Reading records\<close>

definition ApplySeqField :: string where "ApplySeqField = ''_applySeq''"
definition deletedAtField :: string where "deletedAtField = ''_deletedAt''"
definition MetaTypeLabel :: string where "MetaTypeLabel = ''__type__''"
definition MetaCollectionLabel :: string where "MetaCollectionLabel = ''__collection__''"
definition ScopeChat :: string where "ScopeChat = ''chat''"

definition IsDeleted :: "'v anyenc \<Rightarrow> 'v \<Rightarrow> bool" where
  "IsDeleted enc rec \<longleftrightarrow> vget enc rec [deletedAtField] \<noteq> None"

text \<open>\<open>uint64(doc.GetInt(...))\<close>.\<close>

definition apply_seq :: "'v renderEnv \<Rightarrow> 'v \<Rightarrow> nat" where
  "apply_seq R rec = unat (word_of_int (reInt R rec [ApplySeqField]) :: 64 word)"

definition RecordsSince :: "'v renderEnv \<Rightarrow> 'e + 'v option list \<Rightarrow> ('v \<Rightarrow> nat \<Rightarrow> IndexEntry list) \<Rightarrow> 'e + IndexEntry list" where
  "RecordsSince R q yields =
     (case q of
        Inl e \<Rightarrow> Inl e
      | Inr docs \<Rightarrow> Inr (concat (map (\<lambda>rec. yields rec (apply_seq R rec)) (List.map_filter id docs))))"

definition Members :: "'v anyenc \<Rightarrow> 'v option \<Rightarrow> string list" where
  "Members enc row =
     (case row of
        None \<Rightarrow> []
      | Some r \<Rightarrow>
          let t = vstr enc r [''any'', ''type''] in
          (if t = [] then []
           else t # (if t = MetaTypeLabel \<or> t = MetaCollectionLabel then [vstr enc r [''id'']] else [])) @
          map (vbytes enc) (varray enc r [''any'', ''collections'']))"

section \<open>Rendering values\<close>

definition renderDateTime :: "'v renderEnv \<Rightarrow> 'v option \<Rightarrow> string" where
  "renderDateTime R v =
     (case v of
        None \<Rightarrow> []
      | Some x \<Rightarrow> if vtyp (reEnc R) x \<noteq> TypeDateTime then [] else case reTime R x of None \<Rightarrow> [] | Some s \<Rightarrow> s)"

definition NL1 :: char where "NL1 = CHR 0x0A"

text \<open>The elements of an array that \<open>renderPropValue\<close> keeps, and those \<open>renderSearchValue\<close> does.\<close>

definition prop_part :: "'v renderEnv \<Rightarrow> 'v \<Rightarrow> string option" where
  "prop_part R el =
     (if vtyp (reEnc R) el = TypeString then Some (vbytes (reEnc R) el)
      else if vtyp (reEnc R) el = TypeNumber then Some (reNumber R el)
      else None)"

definition search_part :: "'v renderEnv \<Rightarrow> 'v \<Rightarrow> string option" where
  "search_part R el =
     (if vtyp (reEnc R) el = TypeDateTime
      then (let s = renderDateTime R (Some el) in if s = [] then None else Some s)
      else prop_part R el)"

definition renderPropValue :: "'v renderEnv \<Rightarrow> 'v option \<Rightarrow> PropertyKind \<Rightarrow> string" where
  "renderPropValue R v kind =
     (case v of
        None \<Rightarrow> []
      | Some x \<Rightarrow>
          (case kind of
             PropertyKindDatetime \<Rightarrow> renderDateTime R v
           | PropertyKindString \<Rightarrow> if vtyp (reEnc R) x = TypeString then vbytes (reEnc R) x else []
           | PropertyKindNumber \<Rightarrow> if vtyp (reEnc R) x = TypeNumber then reNumber R x else []
           | PropertyKindArray \<Rightarrow> join_with NL1 (List.map_filter (prop_part R) (varray (reEnc R) x []))
           | _ \<Rightarrow> []))"

definition fieldValue :: "'v anyenc \<Rightarrow> 'v \<Rightarrow> string \<Rightarrow> 'v option" where
  "fieldValue enc rec field = (if field = [] then None else vget enc rec [field])"

definition renderSearchValue :: "'v renderEnv \<Rightarrow> 'v option \<Rightarrow> string" where
  "renderSearchValue R v =
     (case v of
        None \<Rightarrow> []
      | Some x \<Rightarrow>
          (case vtyp (reEnc R) x of
             TypeString \<Rightarrow> vbytes (reEnc R) x
           | TypeNumber \<Rightarrow> reNumber R x
           | TypeDateTime \<Rightarrow> renderDateTime R v
           | TypeArray \<Rightarrow> join_with NL1 (List.map_filter (search_part R) (varray (reEnc R) x []))
           | _ \<Rightarrow> []))"

text \<open>\<open>strings.Join(parts, "\n\n")\<close>.\<close>

fun join_paragraphs :: "string list \<Rightarrow> string" where
  "join_paragraphs [] = []"
| "join_paragraphs [p] = p"
| "join_paragraphs (p # ps) = p @ [NL1, NL1] @ join_paragraphs ps"

definition renderTextFields :: "'v renderEnv \<Rightarrow> 'v \<Rightarrow> string list \<Rightarrow> string" where
  "renderTextFields R rec fs =
     join_paragraphs (filter (\<lambda>s. s \<noteq> []) (map (\<lambda>f. renderSearchValue R (fieldValue (reEnc R) rec f)) fs))"

definition joinTitleText :: "string \<Rightarrow> string \<Rightarrow> string" where
  "joinTitleText title txt = (if title = [] then txt else if txt = [] then title else title @ [NL1] @ txt)"

section \<open>Property values\<close>

definition MetaIndexNone :: string where "MetaIndexNone = ''none''"
definition DescriptionPropRecordId :: string where "DescriptionPropRecordId = ''description''"
definition propCatalogTTL :: int where "propCatalogTTL = 30 * 10 ^ 9"

record indexedProp =
  ipTypeId :: string
  ipPropId :: string
  ipName :: string
  ipScope :: string
  ipKind :: PropertyKind
  ipLinkMode :: string

definition resolveIndexedProp :: "string \<Rightarrow> PropDef \<Rightarrow> indexedProp \<times> bool" where
  "resolveIndexedProp typeId d =
     (let name = (if pfName d = [] then pfXKey d else pfName d);
          p = \<lparr>ipTypeId = typeId, ipPropId = pfId d, ipName = name, ipScope = [], ipKind = pfKind d, ipLinkMode = []\<rparr> in
      if pfIndex d = MetaIndexNone then (p, False)
      else if pfIndex d \<noteq> [] \<and> \<not> ValidScope (pfIndex d) then (p, False)
      else if pfKind d \<in> {PropertyKindString, PropertyKindArray, PropertyKindNumber, PropertyKindDatetime}
      then (p\<lparr>ipScope := (if pfIndex d = [] then ScopeProps else pfIndex d)\<rparr>, True)
      else (p, False))"

definition catalog_prop :: "string \<Rightarrow> PropDef \<Rightarrow> indexedProp option" where
  "catalog_prop ownerId d =
     (let r = resolveIndexedProp ownerId d;
          p = (fst r)\<lparr>ipLinkMode := LinkMode (pfXFormat d)\<rparr>;
          p = (if snd r then p else p\<lparr>ipScope := []\<rparr>)
      in if snd r \<or> ipLinkMode p \<noteq> [] then Some p else None)"

fun owner_props :: "('v, 'e) idxSpace \<Rightarrow> string list \<Rightarrow> 'e + indexedProp list" where
  "owner_props sp [] = Inr []"
| "owner_props sp (ownerId # owners) =
     (case spProperties sp ownerId of
        Inl e \<Rightarrow> Inl e
      | Inr defs \<Rightarrow>
          (case owner_props sp owners of
             Inl e \<Rightarrow> Inl e
           | Inr ps \<Rightarrow> Inr (List.map_filter (catalog_prop ownerId) defs @ ps)))"

definition resolve_props :: "('v, 'e) idxSpace \<Rightarrow> 'e + indexedProp list" where
  "resolve_props sp =
     (case spTypes sp of
        Inl e \<Rightarrow> Inl e
      | Inr types \<Rightarrow>
          (case spCollections sp of
             Inl e \<Rightarrow> Inl e
           | Inr colls \<Rightarrow> owner_props sp (map fst (filter (\<lambda>t. \<not> snd t) types) @ map fst (filter (\<lambda>c. \<not> snd c) colls))))"

text \<open>The chunker: its snapshots by space, with the time each was taken, and the types it leaves out.\<close>

record PropChunker =
  pcCache :: "string \<Rightarrow> (int \<times> indexedProp list) option"
  pcExclude :: "string list"

definition NewPropChunker :: "string list \<Rightarrow> PropChunker" where
  "NewPropChunker excludeTypeIds =
     \<lparr>pcCache = Map.empty, pcExclude = MetaTypeLabel # MetaCollectionLabel # excludeTypeIds\<rparr>"

definition Invalidate :: "string \<Rightarrow> PropChunker \<Rightarrow> PropChunker" where
  "Invalidate spaceId c = c\<lparr>pcCache := (pcCache c)(spaceId := None)\<rparr>"

text \<open>\<open>now\<close> is read at the lookup, \<open>now'\<close> when the new snapshot is stored.\<close>

definition prop_catalog :: "int \<Rightarrow> int \<Rightarrow> ('v, 'e) idxSpace \<Rightarrow> PropChunker \<Rightarrow> ('e + indexedProp list) \<times> PropChunker" where
  "prop_catalog now now' sp c =
     (case pcCache c (spId sp) of
        Some (at, props) \<Rightarrow>
          if now - at < propCatalogTTL then (Inr props, c)
          else (case resolve_props sp of
                  Inl e \<Rightarrow> (Inl e, c)
                | Inr ps \<Rightarrow> (Inr ps, c\<lparr>pcCache := (pcCache c)(spId sp \<mapsto> (now', ps))\<rparr>))
      | None \<Rightarrow>
          (case resolve_props sp of
             Inl e \<Rightarrow> (Inl e, c)
           | Inr ps \<Rightarrow> (Inr ps, c\<lparr>pcCache := (pcCache c)(spId sp \<mapsto> (now', ps))\<rparr>)))"

definition prop_entry :: "'v renderEnv \<Rightarrow> string \<Rightarrow> string \<Rightarrow> nat \<Rightarrow> string list \<Rightarrow> 'v \<Rightarrow> indexedProp \<Rightarrow> IndexEntry" where
  "prop_entry R spaceId objectId seq attached rec p =
     (let val = vget (reEnc R) rec [ipTypeId p, ipPropId p];
          on = ipTypeId p \<in> set attached;
          links = (if on \<and> ipLinkMode p \<noteq> []
                   then map (\<lambda>l. l\<lparr>leTypeId := ipTypeId p\<rparr>)
                          (ValueLinks (reEnc R) spaceId objectId DatasetProp (ipPropId p) (ipLinkMode p) val)
                   else []);
          v = (if on \<and> ipScope p \<noteq> [] then renderPropValue R val (ipKind p) else []);
          named = on \<and> ipScope p \<noteq> [] \<and> v \<noteq> [] \<and> ipName p \<noteq> [] in
      \<lparr>ieScope = ipScope p, ieObjectId = objectId, ieDataset = DatasetProp, ieRecordId = ipPropId p,
       ieData = reRunes R (if named then ipName p @ '': '' @ v else v),
       ieTitle = reRunes R (if named then ipName p else []), ieApplySeq = seq, ieLinks = links\<rparr>)"

definition builtin_entry :: "'v renderEnv \<Rightarrow> string \<Rightarrow> nat \<Rightarrow> 'v \<Rightarrow> string \<Rightarrow> string \<Rightarrow> IndexEntry" where
  "builtin_entry R objectId seq rec recordId key =
     \<lparr>ieScope = ScopeBasic, ieObjectId = objectId, ieDataset = DatasetProp, ieRecordId = recordId,
      ieData = reRunes R (vstr (reEnc R) rec [''any'', key]), ieTitle = reRunes R [], ieApplySeq = seq, ieLinks = []\<rparr>"

definition prop_row :: "'v renderEnv \<Rightarrow> string list \<Rightarrow> indexedProp list \<Rightarrow> string \<Rightarrow> string \<Rightarrow> 'v \<Rightarrow> nat \<Rightarrow> IndexEntry list" where
  "prop_row R exclude props spaceId objectId rec seq =
     (let attached = Members (reEnc R) (Some rec) in
      if IsDeleted (reEnc R) rec then []
      else if list_ex (\<lambda>ex. ex \<in> set attached) exclude then []
      else builtin_entry R objectId seq rec NamePropRecordId ''name'' #
           builtin_entry R objectId seq rec DescriptionPropRecordId ''description'' #
           map (prop_entry R spaceId objectId seq attached rec) props)"

definition prop_ChunksSince ::
  "'v renderEnv \<Rightarrow> int \<Rightarrow> int \<Rightarrow> ('v, 'e) idxSpace \<Rightarrow> string \<Rightarrow> nat \<Rightarrow> PropChunker \<Rightarrow> ('e + IndexEntry list) \<times> PropChunker" where
  "prop_ChunksSince R now now' sp objectId since c =
     (case prop_catalog now now' sp c of
        (Inl e, c) \<Rightarrow> (Inl e, c)
      | (Inr props, c) \<Rightarrow>
          (RecordsSince R (spObjects sp objectId since) (prop_row R (pcExclude c) props (spId sp) objectId), c))"

section \<open>Catalogs and what left them\<close>

text \<open>
  The state of the two chunkers whose datasets are defined at run time: by space, the names seen in the catalog, those that
  left it, and the catalog handed from \<open>EvictDatasets\<close> to the stream that follows it.
\<close>

record 'cat dynChunker =
  dcKnown :: "string \<Rightarrow> string list"
  dcRetired :: "string \<Rightarrow> string list"
  dcPending :: "string \<Rightarrow> 'cat option"

definition newChunker :: "'cat dynChunker" where
  "newChunker = \<lparr>dcKnown = (\<lambda>_. []), dcRetired = (\<lambda>_. []), dcPending = Map.empty\<rparr>"

definition trackRetired :: "string \<Rightarrow> string list \<Rightarrow> 'cat dynChunker \<Rightarrow> 'cat dynChunker" where
  "trackRetired spaceId names c =
     (let known = dcKnown c spaceId;
          retired = dcRetired c spaceId @ filter (\<lambda>n. n \<notin> set names \<and> n \<notin> set (dcRetired c spaceId)) known
      in c\<lparr>dcKnown := (dcKnown c)(spaceId := known @ filter (\<lambda>n. n \<notin> set known) (remdups names)),
           dcRetired := (dcRetired c)(spaceId := filter (\<lambda>n. n \<notin> set names) retired)\<rparr>)"

section \<open>Runtime datasets\<close>

definition DatasetSchemaVirtual :: string where "DatasetSchemaVirtual = ''schema''"

definition RecordsModule :: string where "RecordsModule = ''records''"

record schemaDataset =
  sdName :: string
  sdTypeId :: string
  sdTitleField :: string
  sdTextFields :: "string list"
  sdScope :: string
  sdSearchable :: bool
  sdLinkFields :: "(string \<times> string) list"
  sdShared :: bool

record schemaCatalog =
  catSearchable :: "schemaDataset list"
  catUnsearchable :: "string list"

definition schema_skip :: "string list \<Rightarrow> string list" where
  "schema_skip staticDatasets = DatasetProp # DatasetSchemaVirtual # staticDatasets"

definition parseSearchTextFields :: "raw_text \<Rightarrow> string list option" where
  "parseSearchTextFields raw =
     (case raw of
        RawEmpty \<Rightarrow> Some []
      | RawString s \<Rightarrow> Some (if s = [] then [] else [s])
      | RawStrings keys \<Rightarrow> Some (filter (\<lambda>k. k \<noteq> []) keys)
      | RawOther \<Rightarrow> None)"

definition link_fields :: "schemaDoc \<Rightarrow> (string \<times> string) list" where
  "link_fields doc = filter (\<lambda>fm. snd fm \<noteq> []) (map (\<lambda>(f, xf). (f, LinkMode xf)) (scProperties doc))"

text \<open>A dataset of the catalog: not this chunker's (\<open>None\<close>), only its name, or resolved.\<close>

definition parse_dataset :: "string list \<Rightarrow> DatasetSchema \<Rightarrow> (string + schemaDataset) option" where
  "parse_dataset skip ds =
     (if length (dsOwners ds) \<noteq> 1 \<or> dsModule ds \<noteq> [] \<and> dsModule ds \<noteq> RecordsModule \<or> dsName ds \<in> set skip \<or>
         CHR '':'' \<in> set (dsName ds) then None
      else case dsDoc ds of
        None \<Rightarrow> Some (Inl (dsName ds))
      | Some doc \<Rightarrow>
          let sd = \<lparr>sdName = dsName ds, sdTypeId = hd (dsOwners ds), sdTitleField = [], sdTextFields = [], sdScope = [],
                    sdSearchable = False, sdLinkFields = link_fields doc, sdShared = dsShared ds\<rparr>;
              scope = (if scScope doc = [] then ScopeBasic else scScope doc) in
          (case parseSearchTextFields (scText doc) of
             Some fs \<Rightarrow>
               if (scTitle doc = [] \<and> fs = []) \<or> \<not> ValidScope scope
               then Some (if link_fields doc = [] then Inl (dsName ds) else Inr sd)
               else Some (Inr (sd\<lparr>sdTitleField := scTitle doc, sdTextFields := fs, sdScope := scope, sdSearchable := True\<rparr>))
           | None \<Rightarrow> Some (if link_fields doc = [] then Inl (dsName ds) else Inr sd)))"

definition parseSchemaDatasets :: "string list \<Rightarrow> DatasetSchema list \<Rightarrow> schemaCatalog" where
  "parseSchemaDatasets skip list =
     (let rs = List.map_filter (parse_dataset skip) list in
      \<lparr>catSearchable = List.map_filter (\<lambda>r. case r of Inr sd \<Rightarrow> Some sd | Inl _ \<Rightarrow> None) rs,
       catUnsearchable = List.map_filter (\<lambda>r. case r of Inl n \<Rightarrow> Some n | Inr _ \<Rightarrow> None) rs\<rparr>)"

definition catalog_names :: "schemaCatalog \<Rightarrow> string list" where
  "catalog_names cat = map sdName (catSearchable cat) @ catUnsearchable cat"

definition schema_resolve :: "string list \<Rightarrow> ('v, 'e) idxSpace \<Rightarrow> schemaCatalog dynChunker \<Rightarrow> schemaCatalog \<times> schemaCatalog dynChunker" where
  "schema_resolve skip sp c =
     (let cat = parseSchemaDatasets skip (spDatasets sp) in (cat, trackRetired (spId sp) (catalog_names cat) c))"

definition schema_EvictText :: "string list \<Rightarrow> ('v, 'e) idxSpace \<Rightarrow> string list \<Rightarrow> schemaCatalog dynChunker \<Rightarrow> string list \<times> schemaCatalog dynChunker" where
  "schema_EvictText skip sp attached c =
     (let r = schema_resolve skip sp c in
      (map sdName (filter (\<lambda>ds. \<not> sdSearchable ds \<and> sdTypeId ds \<in> set attached) (catSearchable (fst r))), snd r))"

definition schema_dropped :: "schemaCatalog \<Rightarrow> string list \<Rightarrow> string list" where
  "schema_dropped cat attached =
     map sdName (filter (\<lambda>ds. sdTypeId ds \<notin> set attached) (catSearchable cat)) @ catUnsearchable cat"

definition schema_EvictDatasets :: "string list \<Rightarrow> ('v, 'e) idxSpace \<Rightarrow> string list \<Rightarrow> schemaCatalog dynChunker \<Rightarrow> string list \<times> schemaCatalog dynChunker" where
  "schema_EvictDatasets skip sp attached c =
     (let r = schema_resolve skip sp c; cat = fst r; c = snd r in
      (schema_dropped cat attached @ dcRetired c (spId sp), c\<lparr>dcPending := (dcPending c)(spId sp \<mapsto> cat)\<rparr>))"

definition field_links :: "'v renderEnv \<Rightarrow> string \<Rightarrow> string \<Rightarrow> string \<Rightarrow> string \<Rightarrow> 'v \<Rightarrow> string \<times> string \<Rightarrow> LinkEntry list" where
  "field_links R spaceId objectId name recordId rec fm =
     map (\<lambda>l. l\<lparr>leField := fst fm\<rparr>)
       (ValueLinks (reEnc R) spaceId objectId name recordId (snd fm) (fieldValue (reEnc R) rec (fst fm)))"

definition schema_entry :: "'v renderEnv \<Rightarrow> ('v, 'e) idxSpace \<Rightarrow> string \<Rightarrow> schemaDataset \<Rightarrow> 'v \<Rightarrow> nat \<Rightarrow> IndexEntry" where
  "schema_entry R sp objectId ds rec seq =
     (let rid = vstr (reEnc R) rec [''id''];
          recordId = (if sdShared ds then spPlainRecordId sp objectId rid else rid);
          live = \<not> IsDeleted (reEnc R) rec;
          title = (if live \<and> sdSearchable ds then renderSearchValue R (fieldValue (reEnc R) rec (sdTitleField ds)) else []);
          txt = (if live \<and> sdSearchable ds then renderTextFields R rec (sdTextFields ds) else []) in
      \<lparr>ieScope = sdScope ds, ieObjectId = objectId, ieDataset = sdName ds, ieRecordId = recordId,
       ieData = reRunes R (joinTitleText title txt), ieTitle = reRunes R title, ieApplySeq = seq,
       ieLinks = (if live then concat (map (field_links R (spId sp) objectId (sdName ds) recordId rec) (sdLinkFields ds)) else [])\<rparr>)"

definition schema_active :: "schemaCatalog \<Rightarrow> string list \<Rightarrow> schemaDataset list" where
  "schema_active cat attached = filter (\<lambda>ds. sdTypeId ds \<in> set attached) (catSearchable cat)"

fun schema_stream :: "'v renderEnv \<Rightarrow> ('v, 'e) idxSpace \<Rightarrow> string \<Rightarrow> nat \<Rightarrow> schemaDataset list \<Rightarrow> 'e + IndexEntry list" where
  "schema_stream R sp objectId since [] = Inr []"
| "schema_stream R sp objectId since (ds # dss) =
     (case RecordsSince R (spQuery sp objectId (sdName ds) since) (\<lambda>rec seq. [schema_entry R sp objectId ds rec seq]) of
        Inl e \<Rightarrow> Inl e
      | Inr es \<Rightarrow> (case schema_stream R sp objectId since dss of Inl e \<Rightarrow> Inl e | Inr es' \<Rightarrow> Inr (es @ es')))"

text \<open>The catalog handed over, taken out of the state, or a fresh one.\<close>

definition take_pending :: "(('v, 'e) idxSpace \<Rightarrow> 'cat dynChunker \<Rightarrow> 'cat \<times> 'cat dynChunker) \<Rightarrow> ('v, 'e) idxSpace \<Rightarrow> 'cat dynChunker \<Rightarrow> 'cat \<times> 'cat dynChunker" where
  "take_pending resolve sp c =
     (let c' = c\<lparr>dcPending := (dcPending c)(spId sp := None)\<rparr> in
      case dcPending c (spId sp) of Some cat \<Rightarrow> (cat, c') | None \<Rightarrow> resolve sp c')"

definition schema_ChunksSince ::
  "'v renderEnv \<Rightarrow> string list \<Rightarrow> ('v, 'e) idxSpace \<Rightarrow> string \<Rightarrow> nat \<Rightarrow> schemaCatalog dynChunker \<Rightarrow> ('e + IndexEntry list) \<times> schemaCatalog dynChunker" where
  "schema_ChunksSince R skip sp objectId since c =
     (let r = take_pending (schema_resolve skip) sp c; cat = fst r; c = snd r in
      if catSearchable cat = [] then (Inr [], c)
      else case spRow sp objectId of
        Inl e \<Rightarrow> (Inl e, c)
      | Inr None \<Rightarrow> (Inr [], c)
      | Inr (Some row) \<Rightarrow>
          if IsDeleted (reEnc R) row then (Inr [], c)
          else (schema_stream R sp objectId since (schema_active cat (Members (reEnc R) (Some row))), c))"

section \<open>Collections of a module\<close>

record moduleCatalog =
  mcOwners :: "string \<Rightarrow> string list"
  mcNames :: "string list"

definition module_resolve :: "string \<Rightarrow> ('v, 'e) idxSpace \<Rightarrow> moduleCatalog dynChunker \<Rightarrow> moduleCatalog \<times> moduleCatalog dynChunker" where
  "module_resolve module sp c =
     (let dss = filter (\<lambda>ds. dsModule ds = module) (spDatasets sp);
          names = sort (map dsName dss) in
      (\<lparr>mcOwners = (\<lambda>n. case map_of (rev (map (\<lambda>ds. (dsName ds, dsOwners ds)) dss)) n of None \<Rightarrow> [] | Some os \<Rightarrow> os),
        mcNames = names\<rparr>,
       trackRetired (spId sp) names c))"

definition holds :: "string list \<Rightarrow> string list \<Rightarrow> bool" where
  "holds owners attached \<longleftrightarrow> list_ex (\<lambda>ow. ow \<in> set attached) owners"

definition module_dropped :: "moduleCatalog \<Rightarrow> string list \<Rightarrow> string list" where
  "module_dropped cat attached = filter (\<lambda>n. \<not> holds (mcOwners cat n) attached) (mcNames cat)"

definition module_EvictDatasets :: "string \<Rightarrow> ('v, 'e) idxSpace \<Rightarrow> string list \<Rightarrow> moduleCatalog dynChunker \<Rightarrow> string list \<times> moduleCatalog dynChunker" where
  "module_EvictDatasets module sp attached c =
     (let r = module_resolve module sp c; cat = fst r; c = snd r in
      (module_dropped cat attached @ dcRetired c (spId sp), c\<lparr>dcPending := (dcPending c)(spId sp \<mapsto> cat)\<rparr>))"

definition module_held :: "moduleCatalog \<Rightarrow> string list \<Rightarrow> string list" where
  "module_held cat attached = filter (\<lambda>n. holds (mcOwners cat n) attached) (mcNames cat)"

definition active :: "'v anyenc \<Rightarrow> string \<Rightarrow> ('v, 'e) idxSpace \<Rightarrow> string \<Rightarrow> moduleCatalog dynChunker \<Rightarrow> ('e + string list) \<times> moduleCatalog dynChunker" where
  "active enc module sp objectId c =
     (let r = take_pending (module_resolve module) sp c; cat = fst r; c = snd r in
      if mcNames cat = [] then (Inr [], c)
      else case spRow sp objectId of
        Inl e \<Rightarrow> (Inl e, c)
      | Inr None \<Rightarrow> (Inr [], c)
      | Inr (Some row) \<Rightarrow>
          if IsDeleted enc row then (Inr [], c) else (Inr (module_held cat (Members enc (Some row))), c))"

text \<open>The shape of a module: a stream past the cursor, or the full set of entries.\<close>

datatype ('v, 'e) module_shape =
  ModuleStream "('v, 'e) idxSpace \<Rightarrow> string \<Rightarrow> string \<Rightarrow> nat \<Rightarrow> 'e + IndexEntry list"
| ModuleReconcile "('v, 'e) idxSpace \<Rightarrow> string \<Rightarrow> string \<Rightarrow> 'e + IndexEntry list"

definition shape_run :: "('v, 'e) module_shape \<Rightarrow> ('v, 'e) idxSpace \<Rightarrow> string \<Rightarrow> nat \<Rightarrow> string \<Rightarrow> 'e + IndexEntry list" where
  "shape_run shape sp objectId since coll =
     (case shape of ModuleStream f \<Rightarrow> f sp objectId coll since | ModuleReconcile f \<Rightarrow> f sp objectId coll)"

fun each_collection :: "(string \<Rightarrow> 'e + 'a) \<Rightarrow> string list \<Rightarrow> 'e + (string \<times> 'a) list" where
  "each_collection f [] = Inr []"
| "each_collection f (coll # colls) =
     (case f coll of
        Inl e \<Rightarrow> Inl e
      | Inr x \<Rightarrow> (case each_collection f colls of Inl e \<Rightarrow> Inl e | Inr xs \<Rightarrow> Inr ((coll, x) # xs)))"

definition module_ChunksSince ::
  "'v anyenc \<Rightarrow> string \<Rightarrow> ('v, 'e) module_shape \<Rightarrow> ('v, 'e) idxSpace \<Rightarrow> string \<Rightarrow> nat \<Rightarrow> moduleCatalog dynChunker \<Rightarrow> ('e + IndexEntry list) \<times> moduleCatalog dynChunker" where
  "module_ChunksSince enc module shape sp objectId since c =
     (case active enc module sp objectId c of
        (Inl e, c) \<Rightarrow> (Inl e, c)
      | (Inr colls, c) \<Rightarrow>
          (case each_collection (shape_run shape sp objectId since) colls of
             Inl e \<Rightarrow> (Inl e, c)
           | Inr sets \<Rightarrow> (Inr (concat (map snd sets)), c)))"

text \<open>The sets by collection, in the order the collections were read; a collection appears once in the map.\<close>

definition ReconcileAll ::
  "'v anyenc \<Rightarrow> string \<Rightarrow> (('v, 'e) idxSpace \<Rightarrow> string \<Rightarrow> string \<Rightarrow> 'e + IndexEntry list) \<Rightarrow> ('v, 'e) idxSpace \<Rightarrow> string \<Rightarrow>
     moduleCatalog dynChunker \<Rightarrow> ('e + (string \<times> IndexEntry list) list) \<times> moduleCatalog dynChunker" where
  "ReconcileAll enc module rc sp objectId c =
     (case active enc module sp objectId c of
        (Inl e, c) \<Rightarrow> (Inl e, c)
      | (Inr colls, c) \<Rightarrow> (each_collection (rc sp objectId) colls, c))"

definition Reconciles :: "('v, 'e) module_shape \<Rightarrow> bool" where
  "Reconciles shape = (case shape of ModuleReconcile _ \<Rightarrow> True | ModuleStream _ \<Rightarrow> False)"

section \<open>Chat messages\<close>

definition attachment_refs :: "'v anyenc \<Rightarrow> 'v \<Rightarrow> string list" where
  "attachment_refs enc rec =
     (case vget enc rec [FieldAttachments] of
        Some att \<Rightarrow>
          if vtyp enc att = TypeObject
          then filter (\<lambda>l. l \<noteq> []) (map (\<lambda>(_, a). vstr enc a [FieldAttachmentLink]) (vvisit enc att))
          else []
      | None \<Rightarrow> [])"

definition message_refs :: "'v anyenc \<Rightarrow> 'v \<Rightarrow> string list" where
  "message_refs enc rec =
     attachment_refs enc rec @ filter (\<lambda>l. l \<noteq> []) [vstr enc rec [FieldAgent, FieldAgentDebugLink]]"

definition message_kind :: "LinkEntry \<Rightarrow> LinkEntry" where
  "message_kind e = e\<lparr>leKind := (if uKind (leTarget e) = KindIdentity then LinkKindMention else LinkKindLink)\<rparr>"

text \<open>\<open>ValueLinks\<close> of an array of the references is \<open>refLinks\<close> of them; the loop skips what was seen.\<close>

definition MessageLinks :: "'v anyenc \<Rightarrow> string \<Rightarrow> string \<Rightarrow> string \<Rightarrow> string \<Rightarrow> 'v \<Rightarrow> LinkEntry list" where
  "MessageLinks enc spaceId objectId collection msgId rec =
     (let out = TextLinks spaceId objectId collection msgId (vstr enc rec [ChatHandler.FieldText]);
          refs = message_refs enc rec in
      if refs = [] then out
      else out @ map message_kind
             (dedup_by (\<lambda>e. URI_String (leTarget e)) (map (\<lambda>e. URI_String (leTarget e)) out)
                (refLinks spaceId objectId collection msgId refs)))"

definition messageData :: "'v anyenc \<Rightarrow> 'v \<Rightarrow> string" where
  "messageData enc rec = vstr enc rec [ChatHandler.FieldText]"

definition message_entry :: "'v renderEnv \<Rightarrow> string \<Rightarrow> string \<Rightarrow> string \<Rightarrow> 'v \<Rightarrow> nat \<Rightarrow> IndexEntry" where
  "message_entry R spaceId objectId collection rec seq =
     (let enc = reEnc R; rid = vstr enc rec [''id'']; live = \<not> IsDeleted enc rec in
      \<lparr>ieScope = ScopeChat, ieObjectId = objectId, ieDataset = collection, ieRecordId = rid,
       ieData = reRunes R (if live then messageData enc rec else []), ieTitle = reRunes R [], ieApplySeq = seq,
       ieLinks = (if live then MessageLinks enc spaceId objectId collection rid rec else [])\<rparr>)"

definition streamMessages :: "'v renderEnv \<Rightarrow> ('v, 'e) idxSpace \<Rightarrow> string \<Rightarrow> string \<Rightarrow> nat \<Rightarrow> 'e + IndexEntry list" where
  "streamMessages R sp objectId collection since =
     RecordsSince R (spQuery sp objectId collection since) (\<lambda>rec seq. [message_entry R (spId sp) objectId collection rec seq])"

section \<open>Windows of a document\<close>

definition block_links :: "(string \<Rightarrow> envelope option) \<Rightarrow> string \<Rightarrow> string \<Rightarrow> string \<Rightarrow> 'v Block list \<Rightarrow> string \<Rightarrow> LinkEntry list" where
  "block_links unmarshal spaceId objectId collection blocks i =
     (case map_of (rev (filter (\<lambda>(_, ls). ls \<noteq> [])
             (map (\<lambda>b. (blkId b, BlockLinks unmarshal spaceId objectId collection b)) (filter (\<lambda>b. blkText b \<noteq> []) blocks)))) i of
        None \<Rightarrow> [] | Some ls \<Rightarrow> ls)"

definition window_entry :: "(string \<Rightarrow> runes) \<Rightarrow> (string \<Rightarrow> LinkEntry list) \<Rightarrow> string \<Rightarrow> string \<Rightarrow> Window \<Rightarrow> IndexEntry" where
  "window_entry rn links objectId collection w =
     \<lparr>ieScope = ScopeBasic, ieObjectId = objectId, ieDataset = collection, ieRecordId = windowRecordPrefix @ AnchorId w,
      ieData = rn (winText w), ieTitle = rn (winTitle w), ieApplySeq = 0, ieLinks = concat (map links (BlockIds w))\<rparr>"

text \<open>\<open>listing\<close> is what \<open>List\<close> answers for the collection.\<close>

definition windowEntries ::
  "(string \<Rightarrow> runes) \<Rightarrow> (string \<Rightarrow> envelope option) \<Rightarrow> (string \<Rightarrow> string \<Rightarrow> 'e + 'b Block list) \<Rightarrow> ('v, 'e) idxSpace \<Rightarrow> string \<Rightarrow> string \<Rightarrow> 'e + IndexEntry list" where
  "windowEntries rn unmarshal listing sp objectId collection =
     (case listing objectId collection of
        Inl e \<Rightarrow> Inl e
      | Inr blocks \<Rightarrow>
          Inr (map (window_entry rn (block_links unmarshal (spId sp) objectId collection blocks) objectId collection) (Windows blocks)))"

section \<open>What the catalog evicts and what it streams\<close>

lemma known_tracked [simp]: "set (dcKnown (trackRetired s ns c) s') = (if s' = s then set (dcKnown c s) \<union> set ns else set (dcKnown c s'))"
  by (auto simp: trackRetired_def Let_def)

lemma retired_tracked [simp]:
  "set (dcRetired (trackRetired s ns c) s') = (if s' = s then (set (dcRetired c s) \<union> set (dcKnown c s)) - set ns else set (dcRetired c s'))"
  by (auto simp: trackRetired_def Let_def)

lemma pending_tracked [simp]: "dcPending (trackRetired s ns c) = dcPending c"
  by (simp add: trackRetired_def Let_def)

text \<open>
  The contract of a chunker over a catalog: an object's membership divides the names of a catalog into those whose datasets it
  holds and those it does not.
\<close>

locale catalog_gate =
  fixes names :: "'cat \<Rightarrow> string list"
    and held :: "'cat \<Rightarrow> string list \<Rightarrow> string list"
    and dropped :: "'cat \<Rightarrow> string list \<Rightarrow> string list"
  assumes split: "set (held cat att) \<union> set (dropped cat att) = set (names cat)"
    and apart: "distinct (names cat) \<Longrightarrow> set (held cat att) \<inter> set (dropped cat att) = {}"
begin

lemma evicts_exactly:
  assumes "distinct (names cat)" and "set (dcRetired c s) \<subseteq> set (dcKnown c s)"
  shows "set (dropped cat att @ dcRetired (trackRetired s (names cat) c) s) =
    (set (dcKnown c s) \<union> set (names cat)) - set (held cat att)"
proof -
  note s = split [of cat att] and a = apart [OF assms(1), of att]
  have "set (dropped cat att) = set (names cat) - set (held cat att)" using s a by blast
  moreover have "set (held cat att) \<subseteq> set (names cat)" using s by blast
  ultimately show ?thesis using assms(2) by auto
qed

lemma tracked_subset:
  "set (dcRetired c s) \<subseteq> set (dcKnown c s) \<Longrightarrow>
    set (dcRetired (trackRetired s' (names cat) c) s) \<subseteq> set (dcKnown (trackRetired s' (names cat) c) s)"
  by auto

end

interpretation schema_gate: catalog_gate catalog_names "\<lambda>cat att. map sdName (schema_active cat att)" schema_dropped
proof
  fix cat :: schemaCatalog and att :: "string list"
  show "set (map sdName (schema_active cat att)) \<union> set (schema_dropped cat att) = set (catalog_names cat)"
    by (auto simp: schema_active_def schema_dropped_def catalog_names_def)
  assume d: "distinct (catalog_names cat)"
  show "set (map sdName (schema_active cat att)) \<inter> set (schema_dropped cat att) = {}"
  proof (rule ccontr)
    assume "set (map sdName (schema_active cat att)) \<inter> set (schema_dropped cat att) \<noteq> {}"
    then obtain x where x: "x \<in> set (catSearchable cat)" "sdTypeId x \<in> set att" "sdName x \<in> set (schema_dropped cat att)"
      by (auto simp: schema_active_def)
    from d have dd: "distinct (map sdName (catSearchable cat))" "sdName x \<notin> set (catUnsearchable cat)"
      using x(1) by (auto simp: catalog_names_def)
    with x(3) obtain y where "y \<in> set (catSearchable cat)" "sdTypeId y \<notin> set att" "sdName y = sdName x"
      by (auto simp: schema_dropped_def)
    with x dd(1) show False by (auto simp: distinct_map inj_on_def)
  qed
qed

interpretation module_gate: catalog_gate mcNames module_held module_dropped
  by unfold_locales (auto simp: module_held_def module_dropped_def)

text \<open>A catalog has no name twice when the space has none.\<close>

lemma parse_dataset_name:
  "parse_dataset skip ds = Some r \<Longrightarrow> (case r of Inl n \<Rightarrow> n | Inr sd \<Rightarrow> sdName sd) = dsName ds"
  by (auto simp: parse_dataset_def Let_def split: if_splits option.splits)

lemma catalog_names_Cons:
  "set (catalog_names (parseSchemaDatasets skip (ds # dss))) =
     (case parse_dataset skip ds of None \<Rightarrow> {} | Some r \<Rightarrow> {dsName ds}) \<union> set (catalog_names (parseSchemaDatasets skip dss))"
  by (auto simp: parseSchemaDatasets_def catalog_names_def Let_def List.map_filter_simps dest: parse_dataset_name split: option.splits sum.splits)

lemma catalog_names_sub: "set (catalog_names (parseSchemaDatasets skip dss)) \<subseteq> set (map dsName dss)"
proof (induction dss)
  case Nil
  show ?case by (simp add: parseSchemaDatasets_def catalog_names_def List.map_filter_simps)
next
  case (Cons ds dss)
  then show ?case unfolding catalog_names_Cons by (auto split: option.splits)
qed

lemma catalog_names_distinct: "distinct (map dsName dss) \<Longrightarrow> distinct (catalog_names (parseSchemaDatasets skip dss))"
proof (induction dss)
  case Nil
  show ?case by (simp add: parseSchemaDatasets_def catalog_names_def List.map_filter_simps)
next
  case (Cons ds dss)
  have n: "dsName ds \<notin> set (catalog_names (parseSchemaDatasets skip dss))"
    using Cons.prems catalog_names_sub [of skip dss] by auto
  from Cons have d: "distinct (catalog_names (parseSchemaDatasets skip dss))" by simp
  show ?case
  proof (cases "parse_dataset skip ds")
    case None
    with d show ?thesis by (simp add: parseSchemaDatasets_def catalog_names_def List.map_filter_simps)
  next
    case (Some r)
    then show ?thesis
      using d n parse_dataset_name [OF Some]
      by (cases r) (auto simp: parseSchemaDatasets_def catalog_names_def List.map_filter_simps Let_def)
  qed
qed

text \<open>What the worker does with an object of a page: evict, evict the texts, stream.\<close>

type_synonym ('v, 'e) chunk_call = "('v, 'e) idxSpace \<times> string list \<times> string \<times> nat"

definition schema_page :: "'v renderEnv \<Rightarrow> string list \<Rightarrow> ('v, 'e) chunk_call \<Rightarrow> schemaCatalog dynChunker \<Rightarrow> schemaCatalog dynChunker" where
  "schema_page R skip p c =
     (case p of (sp, attached, objectId, since) \<Rightarrow>
        snd (schema_ChunksSince R skip sp objectId since
          (snd (schema_EvictText skip sp attached (snd (schema_EvictDatasets skip sp attached c))))))"

definition schema_pages :: "'v renderEnv \<Rightarrow> string list \<Rightarrow> ('v, 'e) chunk_call list \<Rightarrow> schemaCatalog dynChunker" where
  "schema_pages R skip ps = fold (schema_page R skip) ps newChunker"

text \<open>The runtime names the catalogs of a space have had.\<close>

definition schema_seen :: "string list \<Rightarrow> string \<Rightarrow> ('v, 'e) chunk_call list \<Rightarrow> string set" where
  "schema_seen skip spaceId ps =
     set (concat (map (\<lambda>p. catalog_names (parseSchemaDatasets skip (spDatasets (fst p)))) (filter (\<lambda>p. spId (fst p) = spaceId) ps)))"

lemma schema_stream_state: "snd (schema_ChunksSince R skip sp objectId since c) = snd (take_pending (schema_resolve skip) sp c)"
  by (auto simp: schema_ChunksSince_def Let_def split: sum.split option.split)

lemma schema_evict_state:
  "snd (schema_EvictDatasets skip sp attached c) =
     (let c = trackRetired (spId sp) (catalog_names (parseSchemaDatasets skip (spDatasets sp))) c in
      c\<lparr>dcPending := (dcPending c)(spId sp \<mapsto> parseSchemaDatasets skip (spDatasets sp))\<rparr>)"
  by (simp add: schema_EvictDatasets_def schema_resolve_def Let_def)

lemma schema_page_state:
  "schema_page R skip (sp, attached, objectId, since) c =
     (let ns = catalog_names (parseSchemaDatasets skip (spDatasets sp));
          c = trackRetired (spId sp) ns (trackRetired (spId sp) ns c) in
      c\<lparr>dcPending := (dcPending c)(spId sp := None)\<rparr>)"
  by (simp add: schema_page_def schema_stream_state take_pending_def schema_EvictText_def schema_resolve_def schema_evict_state Let_def)
     (simp add: trackRetired_def Let_def)

lemma schema_pages_state:
  "set (dcKnown (schema_pages R skip ps) s) = schema_seen skip s ps \<and>
   set (dcRetired (schema_pages R skip ps) s) \<subseteq> set (dcKnown (schema_pages R skip ps) s) \<and>
   dcPending (schema_pages R skip ps) = Map.empty"
proof (induction ps rule: rev_induct)
  case Nil
  show ?case by (simp add: schema_pages_def newChunker_def schema_seen_def)
next
  case (snoc p ps)
  obtain sp attached objectId since where p: "p = (sp, attached, objectId, since)" by (cases p) auto
  have step: "schema_pages R skip (ps @ [p]) = schema_page R skip p (schema_pages R skip ps)" by (simp add: schema_pages_def)
  have seen: "schema_seen skip s (ps @ [p]) = schema_seen skip s ps \<union>
      (if spId sp = s then set (catalog_names (parseSchemaDatasets skip (spDatasets sp))) else {})"
    by (auto simp: schema_seen_def p)
  show ?case unfolding step seen unfolding p schema_page_state Let_def using snoc.IH by auto
qed

lemma RecordsSince_entries:
  "RecordsSince R q (\<lambda>rec seq. [f rec seq]) = Inr es \<longleftrightarrow>
     (\<exists>docs. q = Inr docs \<and> es = map (\<lambda>rec. f rec (apply_seq R rec)) (List.map_filter id docs))"
  by (auto simp: RecordsSince_def split: sum.splits)

lemma schema_stream_entries:
  "schema_stream R sp objectId since dss = Inr es \<Longrightarrow>
     e \<in> set es \<longleftrightarrow> (\<exists>ds \<in> set dss. \<exists>docs rec. spQuery sp objectId (sdName ds) since = Inr docs \<and> Some rec \<in> set docs \<and>
       e = schema_entry R sp objectId ds rec (apply_seq R rec))"
proof (induction dss arbitrary: es)
  case (Cons ds dss)
  obtain es1 es2 where es: "RecordsSince R (spQuery sp objectId (sdName ds) since) (\<lambda>rec seq. [schema_entry R sp objectId ds rec seq]) = Inr es1"
    "schema_stream R sp objectId since dss = Inr es2" "es = es1 @ es2"
    using Cons.prems by (auto split: sum.splits)
  from es(1) obtain docs where docs: "spQuery sp objectId (sdName ds) since = Inr docs"
    "es1 = map (\<lambda>rec. schema_entry R sp objectId ds rec (apply_seq R rec)) (List.map_filter id docs)"
    unfolding RecordsSince_entries by blast
  have "e \<in> set es1 \<longleftrightarrow> (\<exists>rec. Some rec \<in> set docs \<and> e = schema_entry R sp objectId ds rec (apply_seq R rec))"
    unfolding docs(2) by (auto simp: in_map_filter)
  with docs(1) es(3) Cons.IH [OF es(2)] show ?case by auto
qed simp

lemma schema_stream_answers:
  "schema_stream R sp objectId since dss = Inr es \<Longrightarrow> ds \<in> set dss \<Longrightarrow> \<exists>docs. spQuery sp objectId (sdName ds) since = Inr docs"
  by (induction dss arbitrary: es) (auto simp: RecordsSince_def split: sum.splits)

lemma schema_entry_simps [simp]:
  "ieDataset (schema_entry R sp objectId ds rec seq) = sdName ds" "ieObjectId (schema_entry R sp objectId ds rec seq) = objectId"
  by (simp_all add: schema_entry_def Let_def)

text \<open>
  C36. The runtime datasets a page of an object evicts, and no page evicts what it writes. Call served those
  datasets of the present catalog that declare a text or a link to index and whose owner type is attached to the
  object. Whatever pages the process has handled since it started, the names \<open>EvictDatasets\<close> answers for the object are exactly the runtime
  names the catalogs of its space have had in those pages and have now, less the served ones: a dataset of a type
  not attached is evicted, one of an attached type that declares neither too, and a definition that went away stays evicted
  until the process ends (the retired names are memory: docs/13-index.md, ``a restart forgets the retired set''). Every
  entry the stream that follows reports is of the object and of a served dataset. This is for a catalog that
  has a name once, and for an objects row that still has the types the page was gated with when the stream reads it.
\<close>

theorem schema_gate_exact:
  assumes "distinct (map dsName (spDatasets sp))"
    and "schema_EvictDatasets skip sp attached (schema_pages R skip ps) = (evicted, c)"
    and "schema_ChunksSince R skip sp objectId since c = (Inr es, c')"
    and "case spRow sp objectId of Inr (Some row) \<Rightarrow> set (Members (reEnc R) (Some row)) = set attached | _ \<Rightarrow> True"
  shows "let served = set (map sdName (schema_active (parseSchemaDatasets skip (spDatasets sp)) attached)) in
    set evicted = schema_seen skip (spId sp) (ps @ [(sp, attached, objectId, since)]) - served \<and>
    (\<forall>e \<in> set es. ieObjectId e = objectId \<and> ieDataset e \<in> served)"
proof -
  let ?cat = "parseSchemaDatasets skip (spDatasets sp)"
  let ?c = "schema_pages R skip ps"
  note st = schema_pages_state [of R skip ps "spId sp"]
  have ev: "evicted = schema_dropped ?cat attached @ dcRetired (trackRetired (spId sp) (catalog_names ?cat) ?c) (spId sp)"
    using assms(2) by (simp add: schema_EvictDatasets_def schema_resolve_def Let_def)
  have c: "c = (trackRetired (spId sp) (catalog_names ?cat) ?c)\<lparr>dcPending := Map.empty(spId sp \<mapsto> ?cat)\<rparr>"
    using schema_evict_state [of skip sp attached ?c] assms(2) st by (simp add: Let_def)
  have "set evicted = (set (dcKnown ?c (spId sp)) \<union> set (catalog_names ?cat)) - set (map sdName (schema_active ?cat attached))"
    unfolding ev by (rule schema_gate.evicts_exactly [OF catalog_names_distinct [OF assms(1)]]) (use st in blast)
  moreover have "schema_seen skip (spId sp) (ps @ [(sp, attached, objectId, since)]) = schema_seen skip (spId sp) ps \<union> set (catalog_names ?cat)"
    by (auto simp: schema_seen_def)
  moreover have "ieObjectId e = objectId \<and> ieDataset e \<in> set (map sdName (schema_active ?cat attached))" if e: "e \<in> set es" for e
  proof -
    have tp: "fst (take_pending (schema_resolve skip) sp c) = ?cat" by (simp add: c take_pending_def)
    obtain row where row: "spRow sp objectId = Inr (Some row)"
      "schema_stream R sp objectId since (schema_active ?cat (Members (reEnc R) (Some row))) = Inr es"
      using assms(3) e by (auto simp: schema_ChunksSince_def tp Let_def split: if_splits sum.splits option.splits)
    have "schema_active ?cat (Members (reEnc R) (Some row)) = schema_active ?cat attached"
      using assms(4) row(1) by (simp add: schema_active_def)
    with schema_stream_entries [OF row(2), of e] e show ?thesis by auto
  qed
  ultimately show ?thesis using st by (simp add: Let_def)
qed

section \<open>What a record contributes\<close>

lemma sublist_after: "sublist p x \<Longrightarrow> sublist p (u @ x)"
  by (auto simp: sublist_def) (metis append.assoc)

lemma sublist_paragraphs: "p \<in> set ps \<Longrightarrow> sublist p (join_paragraphs ps)"
proof (induction ps rule: join_paragraphs.induct)
  case (3 p' q ps)
  show ?case
  proof (cases "p = p'")
    case True
    then show ?thesis by (simp add: sublist_append_rightI)
  next
    case False
    with 3 have "sublist p (join_paragraphs (q # ps))" by simp
    from sublist_after [OF this, of "p' @ [NL1, NL1]"] show ?thesis by simp
  qed
qed auto

lemma paragraphs_empty: "\<forall>p \<in> set ps. p \<noteq> [] \<Longrightarrow> join_paragraphs ps = [] \<longleftrightarrow> ps = []"
  by (induction ps rule: join_paragraphs.induct) auto

lemma renderTextFields_empty: "renderTextFields R rec fs = [] \<longleftrightarrow> (\<forall>f \<in> set fs. renderSearchValue R (fieldValue (reEnc R) rec f) = [])"
  unfolding renderTextFields_def by (subst paragraphs_empty) (auto simp: filter_empty_conv)

lemma sublist_rendered:
  "f \<in> set fs \<Longrightarrow> sublist (renderSearchValue R (fieldValue (reEnc R) rec f)) (renderTextFields R rec fs)"
  by (cases "renderSearchValue R (fieldValue (reEnc R) rec f) = []") (auto simp: renderTextFields_def intro!: sublist_paragraphs)

lemma joined_empty: "joinTitleText t x = [] \<longleftrightarrow> t = [] \<and> x = []"
  by (simp add: joinTitleText_def)

lemma joined_title: "prefix t (joinTitleText t x)"
  by (simp add: joinTitleText_def)

lemma joined_text: "sublist x (joinTitleText t x)"
  using sublist_after [of x x "t @ [NL1]"] by (simp add: joinTitleText_def)

lemma schema_entry_texts:
  "\<exists>t d. ieTitle (schema_entry R sp ob ds rec seq) = reRunes R t \<and> ieData (schema_entry R sp ob ds rec seq) = reRunes R d \<and> prefix t d \<and>
    (d = [] \<longleftrightarrow> IsDeleted (reEnc R) rec \<or> \<not> sdSearchable ds \<or> (\<forall>f \<in> set (sdTitleField ds # sdTextFields ds). renderSearchValue R (fieldValue (reEnc R) rec f) = [])) \<and>
    (\<not> IsDeleted (reEnc R) rec \<longrightarrow> sdSearchable ds \<longrightarrow> (\<forall>f \<in> set (sdTitleField ds # sdTextFields ds). sublist (renderSearchValue R (fieldValue (reEnc R) rec f)) d))"
proof (cases "\<not> IsDeleted (reEnc R) rec \<and> sdSearchable ds")
  case True
  let ?rv = "\<lambda>f. renderSearchValue R (fieldValue (reEnc R) rec f)"
  let ?t = "?rv (sdTitleField ds)" and ?x = "renderTextFields R rec (sdTextFields ds)"
  have "sublist (?rv f) (joinTitleText ?t ?x)" if "f \<in> set (sdTitleField ds # sdTextFields ds)" for f
    using that joined_title [of ?t ?x] joined_text [of ?x ?t] sublist_rendered [of f "sdTextFields ds" R rec]
    by (auto simp: intro: sublist_order.order_trans)
  with True show ?thesis
    by (intro exI [of _ ?t] exI [of _ "joinTitleText ?t ?x"])
       (simp add: schema_entry_def Let_def joined_empty joined_title renderTextFields_empty)
next
  case False
  then show ?thesis
    by (intro exI [of _ "[]"]) (auto simp: schema_entry_def Let_def joinTitleText_def)
qed

lemma TextLinks_source: "l \<in> set (TextLinks sp ob ds rc t) \<Longrightarrow> leRecordId l = rc \<and> leDataset l = ds \<and> leObjectId l = ob"
  unfolding TextLinks_def by (auto simp: mk_edge_def)

lemma refLinks_source: "l \<in> set (refLinks sp ob ds rc rs) \<Longrightarrow> leRecordId l = rc \<and> leDataset l = ds \<and> leObjectId l = ob"
  unfolding refLinks_def by (auto simp: mk_edge_def)

lemma ValueLinks_source:
  assumes "l \<in> set (ValueLinks enc sp ob ds rc mode v)"
  shows "leRecordId l = rc \<and> leDataset l = ds \<and> leObjectId l = ob"
proof -
  obtain t rs where "l \<in> set (TextLinks sp ob ds rc t) \<or> l \<in> set (refLinks sp ob ds rc rs)"
    using assms unfolding ValueLinks_def by (simp split: option.splits if_split_asm; blast)
  then show ?thesis using TextLinks_source refLinks_source by blast
qed

lemma schema_entry_links:
  assumes "l \<in> set (ieLinks (schema_entry R sp ob ds rec seq))"
  shows "\<not> IsDeleted (reEnc R) rec \<and> (\<exists>mode. (leField l, mode) \<in> set (sdLinkFields ds)) \<and>
     leRecordId l = ieRecordId (schema_entry R sp ob ds rec seq) \<and> leDataset l = sdName ds \<and> leObjectId l = ob"
proof -
  let ?rid = "ieRecordId (schema_entry R sp ob ds rec seq)"
  have live: "\<not> IsDeleted (reEnc R) rec" and
    "l \<in> set (concat (map (field_links R (spId sp) ob (sdName ds) ?rid rec) (sdLinkFields ds)))"
    using assms by (auto simp: schema_entry_def Let_def split: if_splits)
  then obtain fm where fm: "fm \<in> set (sdLinkFields ds)" "l \<in> set (field_links R (spId sp) ob (sdName ds) ?rid rec fm)" by auto
  then obtain l0 where l0: "l0 \<in> set (ValueLinks (reEnc R) (spId sp) ob (sdName ds) ?rid (snd fm) (fieldValue (reEnc R) rec (fst fm)))"
    "l = l0\<lparr>leField := fst fm\<rparr>" unfolding field_links_def by auto
  from ValueLinks_source [OF l0(1)] l0(2) have "leRecordId l = ?rid \<and> leDataset l = sdName ds \<and> leObjectId l = ob" "leField l = fst fm" by simp_all
  moreover have "(fst fm, snd fm) \<in> set (sdLinkFields ds)" using fm(1) by simp
  ultimately show ?thesis using live by metis
qed

text \<open>
  A record of a runtime dataset is in the index with exactly its mapped fields. The stream of an object reports one
  entry for each record past the cursor of each dataset the object holds and no other; the entry removes the record
  (it has no text) exactly when the record is deleted, the dataset has no search mapping or every mapped field
  renders empty; otherwise each mapped field's rendering is contained in the text, whose front is the title; and its edges come from the
  link fields of the live record, under the record's own id.
\<close>

theorem schema_records_exact:
  assumes "\<forall>s. reRunes R s = [] \<longleftrightarrow> s = []"
    and "take_pending (schema_resolve skip) sp c = (cat, c1)" and "spRow sp objectId = Inr (Some row)" and "\<not> IsDeleted (reEnc R) row"
    and "schema_ChunksSince R skip sp objectId since c = (Inr es, c')"
  shows "(\<forall>ds \<in> set (schema_active cat (Members (reEnc R) (Some row))). \<exists>docs. spQuery sp objectId (sdName ds) since = Inr docs \<and>
      (\<forall>rec. Some rec \<in> set docs \<longrightarrow> schema_entry R sp objectId ds rec (apply_seq R rec) \<in> set es)) \<and>
    (\<forall>e \<in> set es. \<exists>ds \<in> set (schema_active cat (Members (reEnc R) (Some row))). \<exists>docs rec.
      spQuery sp objectId (sdName ds) since = Inr docs \<and> Some rec \<in> set docs \<and> e = schema_entry R sp objectId ds rec (apply_seq R rec) \<and>
      (ieData e = [] \<longleftrightarrow> IsDeleted (reEnc R) rec \<or> \<not> sdSearchable ds \<or>
         (\<forall>f \<in> set (sdTitleField ds # sdTextFields ds). renderSearchValue R (fieldValue (reEnc R) rec f) = [])) \<and>
      (\<exists>t d. ieTitle e = reRunes R t \<and> ieData e = reRunes R d \<and> prefix t d \<and>
         (ieData e \<noteq> [] \<longrightarrow> (\<forall>f \<in> set (sdTitleField ds # sdTextFields ds). sublist (renderSearchValue R (fieldValue (reEnc R) rec f)) d))) \<and>
      (\<forall>l \<in> set (ieLinks e). \<not> IsDeleted (reEnc R) rec \<and> (\<exists>mode. (leField l, mode) \<in> set (sdLinkFields ds)) \<and>
         leRecordId l = ieRecordId e \<and> leDataset l = ieDataset e \<and> leObjectId l = objectId))"
proof -
  let ?act = "schema_active cat (Members (reEnc R) (Some row))"
  have st: "schema_stream R sp objectId since ?act = Inr es"
    using assms(2-5) by (auto simp: schema_ChunksSince_def Let_def schema_active_def split: if_splits sum.splits)
  have ent: "e \<in> set es \<longleftrightarrow> (\<exists>ds \<in> set ?act. \<exists>docs rec. spQuery sp objectId (sdName ds) since = Inr docs \<and> Some rec \<in> set docs \<and>
      e = schema_entry R sp objectId ds rec (apply_seq R rec))" for e
    by (rule schema_stream_entries [OF st])
  show ?thesis
  proof (intro conjI ballI)
    fix ds assume "ds \<in> set ?act"
    with schema_stream_answers [OF st this] ent
    show "\<exists>docs. spQuery sp objectId (sdName ds) since = Inr docs \<and>
      (\<forall>rec. Some rec \<in> set docs \<longrightarrow> schema_entry R sp objectId ds rec (apply_seq R rec) \<in> set es)" by blast
  next
    fix e assume "e \<in> set es"
    then obtain ds docs rec where e: "ds \<in> set ?act" "spQuery sp objectId (sdName ds) since = Inr docs" "Some rec \<in> set docs"
      "e = schema_entry R sp objectId ds rec (apply_seq R rec)" unfolding ent by blast
    obtain t d where td: "ieTitle e = reRunes R t" "ieData e = reRunes R d" "prefix t d"
      "d = [] \<longleftrightarrow> IsDeleted (reEnc R) rec \<or> \<not> sdSearchable ds \<or>
         (\<forall>f \<in> set (sdTitleField ds # sdTextFields ds). renderSearchValue R (fieldValue (reEnc R) rec f) = [])"
      "\<not> IsDeleted (reEnc R) rec \<longrightarrow> sdSearchable ds \<longrightarrow>
         (\<forall>f \<in> set (sdTitleField ds # sdTextFields ds). sublist (renderSearchValue R (fieldValue (reEnc R) rec f)) d)"
      using schema_entry_texts [of R sp objectId ds rec "apply_seq R rec"] unfolding e(4) by blast
    have 1: "ieData e = [] \<longleftrightarrow> IsDeleted (reEnc R) rec \<or> \<not> sdSearchable ds \<or>
         (\<forall>f \<in> set (sdTitleField ds # sdTextFields ds). renderSearchValue R (fieldValue (reEnc R) rec f) = [])"
      unfolding td(2) td(4) [symmetric] using assms(1) by blast
    moreover have "\<exists>t d. ieTitle e = reRunes R t \<and> ieData e = reRunes R d \<and> prefix t d \<and>
         (ieData e \<noteq> [] \<longrightarrow> (\<forall>f \<in> set (sdTitleField ds # sdTextFields ds). sublist (renderSearchValue R (fieldValue (reEnc R) rec f)) d))"
      using td(1-3,5) 1 by blast
    moreover have "\<forall>l \<in> set (ieLinks e). \<not> IsDeleted (reEnc R) rec \<and> (\<exists>mode. (leField l, mode) \<in> set (sdLinkFields ds)) \<and>
         leRecordId l = ieRecordId e \<and> leDataset l = ieDataset e \<and> leObjectId l = objectId"
      using schema_entry_links unfolding e(4) by fastforce
    ultimately show "\<exists>ds \<in> set ?act. \<exists>docs rec.
      spQuery sp objectId (sdName ds) since = Inr docs \<and> Some rec \<in> set docs \<and> e = schema_entry R sp objectId ds rec (apply_seq R rec) \<and>
      (ieData e = [] \<longleftrightarrow> IsDeleted (reEnc R) rec \<or> \<not> sdSearchable ds \<or>
         (\<forall>f \<in> set (sdTitleField ds # sdTextFields ds). renderSearchValue R (fieldValue (reEnc R) rec f) = [])) \<and>
      (\<exists>t d. ieTitle e = reRunes R t \<and> ieData e = reRunes R d \<and> prefix t d \<and>
         (ieData e \<noteq> [] \<longrightarrow> (\<forall>f \<in> set (sdTitleField ds # sdTextFields ds). sublist (renderSearchValue R (fieldValue (reEnc R) rec f)) d))) \<and>
      (\<forall>l \<in> set (ieLinks e). \<not> IsDeleted (reEnc R) rec \<and> (\<exists>mode. (leField l, mode) \<in> set (sdLinkFields ds)) \<and>
         leRecordId l = ieRecordId e \<and> leDataset l = ieDataset e \<and> leObjectId l = objectId)"
      using e by blast
  qed
qed

section \<open>What a row contributes\<close>

lemma catalog_exclude: "prop_catalog now now' sp c = (r, c1) \<Longrightarrow> pcExclude c1 = pcExclude c"
  by (auto simp: prop_catalog_def split: option.splits sum.splits if_splits)

lemma prop_entry_data:
  assumes "\<forall>s. reRunes R s = [] \<longleftrightarrow> s = []"
  shows "ieData (prop_entry R spaceId ob seq att row p) \<noteq> [] \<longleftrightarrow>
    ipTypeId p \<in> set att \<and> ipScope p \<noteq> [] \<and> renderPropValue R (vget (reEnc R) row [ipTypeId p, ipPropId p]) (ipKind p) \<noteq> []"
  using assms by (auto simp: prop_entry_def Let_def)

lemma prop_entry_ids [simp]:
  "ieRecordId (prop_entry R spaceId ob seq att row p) = ipPropId p" "ieScope (prop_entry R spaceId ob seq att row p) = ipScope p"
  by (simp_all add: prop_entry_def Let_def)

lemma prop_entry_rest:
  "\<forall>l \<in> set (ieLinks (prop_entry R spaceId ob seq att row p)). leTypeId l = ipTypeId p \<and> ipTypeId p \<in> set att \<and> ipLinkMode p \<noteq> []"
  by (auto simp: prop_entry_def Let_def split: if_splits)

text \<open>A property that asked to be left out, or has no text and no references, is not in the catalog.\<close>

lemma catalog_prop_out:
  "pfIndex d = MetaIndexNone \<Longrightarrow> LinkMode (pfXFormat d) = [] \<Longrightarrow> catalog_prop ow d = None"
  by (simp add: catalog_prop_def resolveIndexedProp_def Let_def)

lemma catalog_prop_scope:
  "catalog_prop ow d = Some p \<Longrightarrow> ipPropId p = pfId d \<and> ipTypeId p = ow \<and> (ipScope p = [] \<or> ValidScope (ipScope p)) \<and>
     (pfIndex d = MetaIndexNone \<longrightarrow> ipScope p = [])"
proof -
  assume p: "catalog_prop ow d = Some p"
  have "ValidScope ScopeProps" by code_simp
  with p show ?thesis
    by (auto simp: catalog_prop_def resolveIndexedProp_def Let_def split: if_splits)
qed

text \<open>
  An entry is reported only for the built-in names and for properties of the catalog: for a property that was indexed and
  is opted out later no removal is reported, so the documents of its values stay.
\<close>

lemma opted_out_stays:
  assumes "prop_ChunksSince R now now' sp ob since c = (Inr es, c')" and "prop_catalog now now' sp c = (Inr props, c1)"
    and "e \<in> set es"
  shows "ieRecordId e \<in> {NamePropRecordId, DescriptionPropRecordId} \<union> ipPropId ` set props"
  using assms by (auto simp: prop_ChunksSince_def RecordsSince_def prop_row_def builtin_entry_def prop_entry_def Let_def split: sum.splits if_splits)

text \<open>An object whose type became one that is left out reports nothing, so what was indexed of it before stays.\<close>

lemma excluded_stays:
  assumes "prop_ChunksSince R now now' sp ob since c = (Inr es, c')" and "spObjects sp ob since = Inr [Some row]"
    and "ex \<in> set (pcExclude c)" and "ex \<in> set (Members (reEnc R) (Some row))"
  shows "es = []"
proof -
  obtain props c1 where cat: "prop_catalog now now' sp c = (Inr props, c1)"
    using assms(1) by (cases "prop_catalog now now' sp c") (auto simp: prop_ChunksSince_def split: sum.splits)
  have "es = prop_row R (pcExclude c1) props (spId sp) ob row (apply_seq R row)"
    using assms(1,2) by (auto simp: prop_ChunksSince_def cat RecordsSince_def List.map_filter_simps)
  then show ?thesis using assms(3,4) catalog_exclude [OF cat] by (auto simp: prop_row_def Let_def list_ex_iff)
qed

text \<open>
  A row contributes one entry for every property of the catalog. Unless the row is deleted or has an excluded member
  (then there is no entry), the stream reports the built-in name and description and then one entry per catalog property, in the
  catalog's order; the entry of a property has a text exactly when the property is text-indexed, its owner is among the members of the
  row and the value renders to something, and removes the property's documents otherwise; edges come only from an
  attached owner, under it.
\<close>

theorem prop_values_exact:
  assumes "\<forall>s. reRunes R s = [] \<longleftrightarrow> s = []"
    and "prop_catalog now now' sp c = (Inr props, c1)"
    and "prop_ChunksSince R now now' sp objectId since c = (Inr es, c')"
    and "spObjects sp objectId since = Inr [Some row]"
  shows "let members = set (Members (reEnc R) (Some row)) in
    if IsDeleted (reEnc R) row \<or> set (pcExclude c) \<inter> members \<noteq> {} then es = []
    else map ieRecordId es = NamePropRecordId # DescriptionPropRecordId # map ipPropId props \<and>
      list_all2 (\<lambda>p e. ieScope e = ipScope p \<and>
          (ieData e \<noteq> [] \<longleftrightarrow> ipTypeId p \<in> members \<and> ipScope p \<noteq> [] \<and>
             renderPropValue R (vget (reEnc R) row [ipTypeId p, ipPropId p]) (ipKind p) \<noteq> []) \<and>
          (\<forall>l \<in> set (ieLinks e). leTypeId l = ipTypeId p \<and> ipTypeId p \<in> members))
        props (drop 2 es)"
proof -
  have es: "es = prop_row R (pcExclude c) props (spId sp) objectId row (apply_seq R row)"
    using assms(2-4) catalog_exclude [OF assms(2)] by (simp add: prop_ChunksSince_def RecordsSince_def List.map_filter_simps)
  let ?out = "IsDeleted (reEnc R) row \<or> set (pcExclude c) \<inter> set (Members (reEnc R) (Some row)) \<noteq> {}"
  show ?thesis
  proof (cases ?out)
    case True
    then show ?thesis by (auto simp: es prop_row_def Let_def list_ex_iff)
  next
    case False
    let ?att = "Members (reEnc R) (Some row)"
    have "list_ex (\<lambda>ex. ex \<in> set ?att) (pcExclude c) = False" using False by (auto simp: list_ex_iff)
    then have "es = builtin_entry R objectId (apply_seq R row) row NamePropRecordId ''name'' #
        builtin_entry R objectId (apply_seq R row) row DescriptionPropRecordId ''description'' #
        map (prop_entry R (spId sp) objectId (apply_seq R row) ?att row) props"
      using False by (simp add: es prop_row_def Let_def)
    then have "map ieRecordId es = NamePropRecordId # DescriptionPropRecordId # map ipPropId props"
      "drop 2 es = map (prop_entry R (spId sp) objectId (apply_seq R row) ?att row) props"
      by (simp_all add: builtin_entry_def comp_def)
    moreover have "list_all2 (\<lambda>p e. ieScope e = ipScope p \<and>
          (ieData e \<noteq> [] \<longleftrightarrow> ipTypeId p \<in> set ?att \<and> ipScope p \<noteq> [] \<and>
             renderPropValue R (vget (reEnc R) row [ipTypeId p, ipPropId p]) (ipKind p) \<noteq> []) \<and>
          (\<forall>l \<in> set (ieLinks e). leTypeId l = ipTypeId p \<and> ipTypeId p \<in> set ?att))
        props (map (prop_entry R (spId sp) objectId (apply_seq R row) ?att row) props)"
      unfolding list_all2_conv_all_nth using prop_entry_data [OF assms(1)] by (auto dest: bspec [OF prop_entry_rest])
    ultimately show ?thesis using False by (simp only: Let_def if_False simp_thms)
  qed
qed

section \<open>What a message and a document contribute\<close>

lemma message_kind_simps [simp]:
  "leTarget (message_kind e) = leTarget e" "leObjectId (message_kind e) = leObjectId e" "leDataset (message_kind e) = leDataset e"
  "leRecordId (message_kind e) = leRecordId e"
  by (simp_all add: message_kind_def)

lemma edges_okD:
  "edges_ok sp ob ds rc us es \<Longrightarrow> e \<in> set es \<Longrightarrow>
     canonical_uri (leTarget e) \<and> \<not> isSelf (leTarget e) sp ob \<and> leObjectId e = ob \<and> leDataset e = ds \<and> leRecordId e = rc"
  "edges_ok sp ob ds rc us es \<Longrightarrow> u \<in> set us \<Longrightarrow> URI_Canonical u sp = Some c \<Longrightarrow> \<not> isSelf c sp ob \<Longrightarrow> \<exists>e \<in> set es. leTarget e = c"
  by (simp_all add: edges_ok_def)

text \<open>Two lists of edges of one source, the second without what the first has.\<close>

lemma edges_ok_merge:
  assumes a: "edges_ok sp ob ds rc us xs" and b: "edges_ok sp ob ds rc vs ys"
  defines "key \<equiv> \<lambda>e. URI_String (leTarget e)"
  shows "edges_ok sp ob ds rc (us @ vs) (xs @ map message_kind (dedup_by key (map key xs) ys))"
proof -
  let ?d = "dedup_by key (map key xs) ys"
  have sub: "set ?d \<subseteq> set ys" by (rule dedup_by_subset)
  have keys: "key ` set ?d = key ` set ys - key ` set xs" by (simp add: dedup_by_set)
  have "distinct (map key (xs @ map message_kind ?d))"
    using a keys dedup_by_distinct [of key "map key xs" ys] by (auto simp: edges_ok_def key_def comp_def)
  moreover have "\<exists>e \<in> set (xs @ map message_kind ?d). leTarget e = c"
    if v: "v \<in> set vs" "URI_Canonical v sp = Some c" "\<not> isSelf c sp ob" for v c
  proof -
    obtain y where y: "y \<in> set ys" "leTarget y = c" using edges_okD(2) [OF b v] by blast
    have "key y \<in> key ` (set xs \<union> set ?d)" using keys y(1) by (simp add: image_Un)
    then obtain z where z: "key y = key z" "z \<in> set xs \<union> set ?d" by (rule imageE)
    have "canonical_uri (leTarget z)" "canonical_uri (leTarget y)"
      using z(2) y(1) sub edges_okD(1) [OF a, of z] edges_okD(1) [OF b, of z] edges_okD(1) [OF b, of y] by auto
    from canonical_inj [OF this] z(1) y(2) have "leTarget z = c" by (simp add: key_def)
    with z(2) message_kind_simps(1) [of z] show ?thesis by (auto simp del: message_kind_simps)
  qed
  moreover have "\<forall>e \<in> set (xs @ map message_kind ?d). canonical_uri (leTarget e) \<and> \<not> isSelf (leTarget e) sp ob \<and>
      leObjectId e = ob \<and> leDataset e = ds \<and> leRecordId e = rc"
    using edges_okD(1) [OF a] edges_okD(1) [OF b] sub by auto
  moreover have "\<exists>e \<in> set (xs @ map message_kind ?d). leTarget e = c"
    if "u \<in> set us" "URI_Canonical u sp = Some c" "\<not> isSelf c sp ob" for u c
    using edges_okD(2) [OF a that] by auto
  ultimately show ?thesis unfolding edges_ok_def key_def set_append by blast
qed

lemma message_kind_text: "e \<in> set (TextLinks sp ob ds rc t) \<Longrightarrow> message_kind e = e"
  by (auto simp: TextLinks_def message_kind_def mk_edge_def)

text \<open>
  The edges of a message are those of its text, its attachments and its agent's link. Each target is canonical and
  appears once, none is the source object, all carry the message as their source; no reference of the text, no
  \<open>link\<close> of an attachment and no debug link that parses and has a canonical form is missing; and an edge is a mention exactly
  when it points to an identity.
\<close>

theorem message_edges_exact:
  assumes "seg_ok spaceId"
  shows "edges_ok spaceId ob ds rc (ExtractLinks (vstr enc rec [ChatHandler.FieldText]) @ parsed_refs (message_refs enc rec))
      (MessageLinks enc spaceId ob ds rc rec) \<and>
    (\<forall>e \<in> set (MessageLinks enc spaceId ob ds rc rec).
       leKind e = (if uKind (leTarget e) = KindIdentity then LinkKindMention else LinkKindLink))"
proof
  let ?t = "TextLinks spaceId ob ds rc (vstr enc rec [ChatHandler.FieldText])"
  let ?r = "refLinks spaceId ob ds rc (message_refs enc rec)"
  have m: "MessageLinks enc spaceId ob ds rc rec =
      ?t @ map message_kind (dedup_by (\<lambda>e. URI_String (leTarget e)) (map (\<lambda>e. URI_String (leTarget e)) ?t) ?r)"
    by (simp add: MessageLinks_def Let_def refLinks_def parsed_refs_def edge_targets_def List.map_filter_simps)
  from edges_ok_merge [OF TextLinks_ok [OF assms] refLinks_ok [OF assms]]
  show "edges_ok spaceId ob ds rc (ExtractLinks (vstr enc rec [ChatHandler.FieldText]) @ parsed_refs (message_refs enc rec))
      (MessageLinks enc spaceId ob ds rc rec)" unfolding m .
  have "leKind (message_kind e) = (if uKind (leTarget e) = KindIdentity then LinkKindMention else LinkKindLink)" for e
    by (simp add: message_kind_def)
  moreover from this have "leKind e = (if uKind (leTarget e) = KindIdentity then LinkKindMention else LinkKindLink)" if "e \<in> set ?t" for e
    using message_kind_text [OF that] by metis
  ultimately show "\<forall>e \<in> set (MessageLinks enc spaceId ob ds rc rec).
       leKind e = (if uKind (leTarget e) = KindIdentity then LinkKindMention else LinkKindLink)" unfolding m by auto
qed

text \<open>A blank text has no reference.\<close>

lemma trim_left_sub: "set (trim_left_space s) \<subseteq> set s"
proof (induction s rule: trim_left_space.induct)
  case (2 a s)
  then show ?case unfolding trim_left_space.simps(2) by (auto simp del: trim_left_space.simps split: list.split; blast)
qed simp

lemma trim_rev_sub: "set (trim_rev_space s) \<subseteq> set s"
proof (induction s rule: trim_rev_space.induct)
  case (2 a s)
  then show ?case unfolding trim_rev_space.simps(2) by (auto simp del: trim_rev_space.simps split: list.split; blast)
qed simp

lemma TrimSpace_sub: "set (MarkdownSplit.TrimSpace s) \<subseteq> set s"
  using trim_rev_sub [of "rev (trim_left_space s)"] trim_left_sub [of s] by (auto simp: MarkdownSplit.TrimSpace_def)

lemma no_scheme: "CHR ''a'' \<notin> set s \<Longrightarrow> ExtractLinks s = []"
proof -
  assume a: "CHR ''a'' \<notin> set s"
  have "\<not> occurs_at s i" for i
  proof
    assume "occurs_at s i"
    then have "CHR ''a'' \<in> set (drop i s)" by (auto simp: occurs_at_def has_prefix_iff uri_prefix_def)
    with a show False using set_drop_subset [of i s] by blast
  qed
  then show ?thesis by (simp add: ExtractLinks_def extract_from_eq List.map_filter_simps)
qed

lemma blank_block_links:
  assumes "CHR ''a'' \<notin> set (blkText b)" and "CHR ''<'' \<notin> set (blkText b)"
  shows "BlockLinks unm sp ob ds b = []"
proof -
  have "TextLinks sp ob ds (blkId b) (blkText b) = []"
    by (simp add: TextLinks_def no_scheme [OF assms(1)] edge_targets_def List.map_filter_simps)
  moreover have "embedLink unm sp ob ds b = None"
  proof -
    have "\<not> has_prefix envelopeOpen (MarkdownSplit.TrimSpace (blkText b))"
      using assms(2) TrimSpace_sub [of "blkText b"] by (auto simp: has_prefix_iff envelopeOpen_def)
    then show ?thesis by (simp add: embedLink_def Let_def)
  qed
  ultimately show ?thesis by (simp add: BlockLinks_def Let_def)
qed

lemma blank_no_marker: "isBlank s \<Longrightarrow> CHR ''a'' \<notin> set s \<and> CHR ''<'' \<notin> set s"
proof -
  assume "isBlank s"
  moreover have "\<not> (asciiSpace CHR ''a'' \<or> high CHR ''a'')" "\<not> (asciiSpace CHR ''<'' \<or> high CHR ''<'')" by code_simp+
  ultimately show ?thesis using isBlank_bytes unfolding list_all_iff by blast
qed

lemma subset_join: "t \<in> set ts \<Longrightarrow> set t \<subseteq> set (join_with c ts)"
  by (induction c ts rule: join_with.induct) auto

lemma blank_run_links: "isBlank (run_text g) \<Longrightarrow> b \<in> set g \<Longrightarrow> BlockLinks unm sp ob ds b = []"
proof (rule blank_block_links)
  assume b: "isBlank (run_text g)" "b \<in> set g"
  have "set (blkText b) \<subseteq> set (run_text g)"
  proof (cases "blkText b = []")
    case False
    with b(2) show ?thesis unfolding run_text_def by (intro subset_join) auto
  qed simp
  with blank_no_marker [OF b(1)] show "CHR ''a'' \<notin> set (blkText b)" "CHR ''<'' \<notin> set (blkText b)" by auto
qed

lemma block_links_of:
  assumes "distinct (map blkId blocks)" and "b \<in> set blocks"
  shows "block_links unm sp ob ds blocks (blkId b) = BlockLinks unm sp ob ds b"
proof -
  let ?f = "\<lambda>b. (blkId b, BlockLinks unm sp ob ds b)"
  let ?kvs = "filter (\<lambda>(_, ls). ls \<noteq> []) (map ?f (filter (\<lambda>b. blkText b \<noteq> []) blocks))"
  have "distinct (map fst (map ?f (filter (\<lambda>b. blkText b \<noteq> []) blocks)))"
    using assms(1) by (simp add: comp_def distinct_map_filter)
  then have d: "distinct (map fst (rev ?kvs))" by (simp add: rev_map [symmetric] distinct_map_filter)
  show ?thesis
  proof (cases "BlockLinks unm sp ob ds b = []")
    case True
    have "map_of (rev ?kvs) (blkId b) = None"
    proof (rule ccontr)
      assume "map_of (rev ?kvs) (blkId b) \<noteq> None"
      then obtain ls where "map_of (rev ?kvs) (blkId b) = Some ls" by blast
      then have "(blkId b, ls) \<in> set ?kvs" by (auto dest: map_of_SomeD)
      then obtain b' where "b' \<in> set blocks" "blkId b' = blkId b" "BlockLinks unm sp ob ds b' \<noteq> []" by auto
      with assms True show False by (auto simp: distinct_map inj_on_def)
    qed
    with True show ?thesis by (simp add: block_links_def)
  next
    case False
    then have "blkText b \<noteq> []" using blank_block_links [of b unm sp ob ds] by auto
    with assms(2) False have "(blkId b, BlockLinks unm sp ob ds b) \<in> set (rev ?kvs)" by auto
    from map_of_is_SomeI [OF d this] show ?thesis by (simp add: block_links_def)
  qed
qed

lemma blank_around: "isBlank (s @ NL1 # t) \<Longrightarrow> isBlank s \<and> isBlank t"
proof (induction s rule: isBlank.induct)
  case 1
  have "asciiSpace NL1" by code_simp
  with 1 show ?case by simp
next
  case (2 a s)
  have nl: "\<not> space2 b NL1" "\<not> space3 b NL1 c" "\<not> space3 b c NL1" for b c
    by (auto simp: NL1_def space2_def space3_def)
  show ?case
  proof (cases "asciiSpace a")
    case True
    with 2 show ?thesis by simp
  next
    case a: False
    show ?thesis
    proof (cases s)
      case Nil
      with 2(4) a nl show ?thesis by (auto split: list.splits)
    next
      case b: (Cons b s')
      show ?thesis
      proof (cases "space2 a b")
        case True
        with 2(2) [OF a b True] 2(4) a b show ?thesis by simp
      next
        case nb: False
        show ?thesis
        proof (cases s')
          case Nil
          with 2(4) a b nb nl show ?thesis by simp
        next
          case c: (Cons c s'')
          with 2(3) [OF a b nb c] 2(4) a b nb show ?thesis by simp
        qed
      qed
    qed
  qed
qed

lemma blank_join: "isBlank (join_with NL1 ts) \<Longrightarrow> t \<in> set ts \<Longrightarrow> isBlank t"
  by (induction NL1 ts rule: join_with.induct) (auto dest: blank_around)

lemma blank_run: "isBlank (run_text g) \<Longrightarrow> b \<in> set g \<Longrightarrow> isBlank (blkText b)"
  using blank_join [of "filter (\<lambda>t. t \<noteq> []) (map blkText g)" "blkText b"]
  by (cases "blkText b = []") (auto simp: run_text_def NL1_def)

lemma sublist_join: "t \<in> set ts \<Longrightarrow> sublist t (join_with c ts)"
proof (induction c ts rule: join_with.induct)
  case (3 c s u ts)
  show ?case
  proof (cases "t = s")
    case False
    with 3 have "sublist t (join_with c (u # ts))" by simp
    from sublist_after [OF this, of "s @ [c]"] show ?thesis by simp
  qed (simp add: sublist_append_rightI)
qed auto

text \<open>
  C37. The windows of a document lose neither a text nor an edge. For a document whose blocks have different ids, the entries of
  its windows have different record ids; their edges, in order, are exactly the edges of the document's blocks, in document
  order, each once; and the text of every block that is not blank is contained in the text of an entry.
\<close>

theorem document_entries_exact:
  assumes "distinct (map blkId blocks)" and "listing ob coll = Inr blocks"
    and "windowEntries rn unm listing sp ob coll = Inr es"
  shows "distinct (map ieRecordId es) \<and>
    concat (map ieLinks es) = concat (map (BlockLinks unm (spId sp) ob coll) blocks) \<and>
    (\<forall>b \<in> set blocks. isBlank (blkText b) \<or> (\<exists>e \<in> set es. \<exists>d. ieData e = rn d \<and> sublist (blkText b) d))"
proof -
  let ?bl = "block_links unm (spId sp) ob coll blocks"
  obtain runs where runs: "cut_into blocks runs (Windows blocks)" using Windows_partition by blast
  then have c: "concat runs = blocks" "Windows blocks = map window_of (filter (\<lambda>g. \<not> isBlank (run_text g)) runs)"
    and ne: "\<forall>g \<in> set runs. g \<noteq> []" by (auto simp: cut_into_def run_ok_def list_all_iff)
  let ?kept = "filter (\<lambda>g. \<not> isBlank (run_text g)) runs"
  have es: "es = map (\<lambda>g. window_entry rn ?bl ob coll (window_of g)) ?kept"
    using assms(2,3) c(2) by (auto simp: windowEntries_def)
  have sub: "set g \<subseteq> set blocks" if "g \<in> set runs" for g using that c(1) by auto
  have "concat (map ?bl (map blkId g)) = concat (map (BlockLinks unm (spId sp) ob coll) g)" if "g \<in> set runs" for g
  proof -
    have m: "map (?bl \<circ> blkId) g = map (BlockLinks unm (spId sp) ob coll) g"
      using sub [OF that] block_links_of [OF assms(1)] by (auto intro!: map_cong)
    show ?thesis unfolding map_map m ..
  qed
  then have "map (\<lambda>g. ieLinks (window_entry rn ?bl ob coll (window_of g))) ?kept =
      map (\<lambda>g. concat (map (BlockLinks unm (spId sp) ob coll) g)) ?kept"
    by (intro map_cong) (auto simp: window_entry_def window_of_def)
  then have "concat (map ieLinks es) = concat (map (\<lambda>g. concat (map (BlockLinks unm (spId sp) ob coll) g)) ?kept)"
    by (simp only: es map_map comp_def)
  also have "\<dots> = concat (map (\<lambda>g. concat (map (BlockLinks unm (spId sp) ob coll) g)) runs)"
  proof (induction runs)
    case (Cons g runs)
    have "isBlank (run_text g) \<Longrightarrow> concat (map (BlockLinks unm (spId sp) ob coll) g) = []" using blank_run_links by auto
    with Cons show ?case by auto
  qed simp
  also have "\<dots> = concat (map (BlockLinks unm (spId sp) ob coll) (concat runs))" by (induction runs) simp_all
  finally have links: "concat (map ieLinks es) = concat (map (BlockLinks unm (spId sp) ob coll) blocks)" by (simp add: c(1))
  have "distinct (map (\<lambda>g. blkId (hd g)) gs)" if "distinct (map blkId (concat gs))" "\<forall>g \<in> set gs. g \<noteq> []" for gs :: "'a Block list list"
    using that
  proof (induction gs)
    case (Cons g gs)
    have "blkId (hd g) \<noteq> blkId (hd h)" if h: "h \<in> set gs" for h
    proof -
      have "hd h \<in> set (concat gs)" "hd g \<in> set g" using Cons.prems(2) h hd_in_set by fastforce+
      moreover have "blkId ` set g \<inter> blkId ` set (concat gs) = {}" using Cons.prems(1) by simp
      ultimately show ?thesis by blast
    qed
    with Cons show ?case by auto
  qed simp
  from this [of runs] assms(1) c(1) ne have "distinct (map (\<lambda>g. blkId (hd g)) runs)" by simp
  then have "distinct (map (\<lambda>g. blkId (hd g)) ?kept)" by (rule distinct_map_filter)
  then have ids: "distinct (map ieRecordId es)" by (simp add: es window_entry_def window_of_def comp_def distinct_map inj_on_def)
  have covered: "isBlank (blkText b) \<or> (\<exists>e \<in> set es. \<exists>d. ieData e = rn d \<and> sublist (blkText b) d)" if b: "b \<in> set blocks" for b
  proof -
    from b c(1) obtain g where g: "g \<in> set runs" "b \<in> set g" by auto
    show ?thesis
    proof (cases "isBlank (run_text g)")
      case True
      with blank_run [OF _ g(2)] show ?thesis by blast
    next
      case False
      with g(1) have "window_entry rn ?bl ob coll (window_of g) \<in> set es" by (auto simp: es)
      moreover have "sublist (blkText b) (run_text g)"
        using g(2) by (cases "blkText b = []") (auto simp: run_text_def intro!: sublist_join)
      moreover have "ieData (window_entry rn ?bl ob coll (window_of g)) = rn (run_text g)" by (simp add: window_entry_def window_of_def)
      ultimately show ?thesis by blast
    qed
  qed
  show ?thesis using ids links covered by blast
qed

section \<open>Instances\<close>

definition demo_render :: "tree renderEnv" where
  "demo_render = \<lparr>reEnc = tree_enc, reInt = (\<lambda>_ _. 7), reNumber = (\<lambda>_. ''0''), reTime = (\<lambda>_. None), reRunes = ascii\<rparr>"

lemma demo_runes: "\<forall>s. reRunes demo_render s = [] \<longleftrightarrow> s = []"
  by (simp add: demo_render_def ascii_def)

definition demo_dataset :: "string \<Rightarrow> string \<Rightarrow> DatasetSchema" where
  "demo_dataset name ow =
     \<lparr>dsName = name, dsOwners = [ow], dsModule = [], dsShared = False,
      dsDoc = Some \<lparr>scTitle = ''title'', scText = RawStrings [''body'', ''note''], scScope = [], scProperties = []\<rparr>\<rparr>"

definition demo_row_of :: "string \<Rightarrow> tree" where
  "demo_row_of t = TObj [(''id'', TStr ''o1''), (''any'', TObj [(''type'', TStr t), (''name'', TStr ''One'')]),
     (''tt'', TObj [(''p1'', TStr ''red'')])]"

definition demo_task :: tree where
  "demo_task = TObj [(''id'', TStr ''r1''), (''title'', TStr ''Plan''), (''note'', TStr ''soon'')]"

definition demo_space :: "DatasetSchema list \<Rightarrow> (tree, unit) idxSpace" where
  "demo_space dss =
     \<lparr>spId = ''sp'', spDatasets = dss, spTypes = Inr [(''tt'', False), (''base'', True)], spCollections = Inr [],
      spProperties = (\<lambda>_. Inr [\<lparr>pfId = ''p1'', pfXKey = ''colour'', pfName = [], pfKind = PropertyKindString, pfIndex = [], pfXFormat = None\<rparr>,
        \<lparr>pfId = ''p2'', pfXKey = ''size'', pfName = [], pfKind = PropertyKindNumber, pfIndex = [], pfXFormat = None\<rparr>]),
      spRow = (\<lambda>_. Inr (Some (demo_row_of ''tt''))), spQuery = (\<lambda>_ ds _. Inr (if ds = ''tasks'' then [Some demo_task] else [])),
      spObjects = (\<lambda>_ _. Inr [Some (demo_row_of ''tt'')]), spPlainRecordId = (\<lambda>_ i. i)\<rparr>"

definition demo_before :: "(tree, unit) idxSpace" where
  "demo_before = demo_space [demo_dataset ''gone'' ''tt'', demo_dataset ''tasks'' ''tt'']"

definition demo_now :: "(tree, unit) idxSpace" where
  "demo_now = demo_space [demo_dataset ''notes'' ''nn'', demo_dataset ''tasks'' ''tt'']"

text \<open>A definition that went away, one of another type, and the one the object holds.\<close>

theorem schema_gate_exact_witness:
  "set (fst (schema_EvictDatasets [] demo_now [''tt''] (schema_pages demo_render [] [(demo_before, [''tt''], ''o1'', 0)]))) =
     {''gone'', ''notes''} \<and>
   schema_seen [] ''sp'' [(demo_before, [''tt''], ''o1'', 0 :: nat), (demo_now, [''tt''], ''o1'', 0)] = {''gone'', ''notes'', ''tasks''}"
proof -
  let ?c = "schema_pages demo_render [] [(demo_before, [''tt''], ''o1'', 0)]"
  obtain ev c where ev: "schema_EvictDatasets [] demo_now [''tt''] ?c = (ev, c)" by fastforce
  have c: "c = snd (schema_EvictDatasets [] demo_now [''tt''] ?c)" by (simp add: ev)
  obtain es where es: "fst (schema_ChunksSince demo_render [] demo_now ''o1'' 0 (snd (schema_EvictDatasets [] demo_now [''tt''] ?c))) = Inr es"
    and held: "set (map sdName (schema_active (parseSchemaDatasets [] (spDatasets demo_now)) [''tt''])) = {''tasks''}"
    and seen: "schema_seen [] ''sp'' [(demo_before, [''tt''], ''o1'', 0 :: nat), (demo_now, [''tt''], ''o1'', 0)] = {''gone'', ''notes'', ''tasks''}"
    and row: "spRow demo_now ''o1'' = Inr (Some (demo_row_of ''tt''))" "set (Members tree_enc (Some (demo_row_of ''tt''))) = {''tt''}"
    and ds: "distinct (map dsName (spDatasets demo_now))" "spId demo_now = ''sp''"
  proof -
    have 1: "fst (schema_ChunksSince demo_render [] demo_now ''o1'' 0 (snd (schema_EvictDatasets [] demo_now [''tt''] ?c))) =
        Inr [schema_entry demo_render demo_now ''o1'' (hd (schema_active (parseSchemaDatasets [] (spDatasets demo_now)) [''tt''])) demo_task 7]"
      by code_simp
    have 2: "set (map sdName (schema_active (parseSchemaDatasets [] (spDatasets demo_now)) [''tt''])) = {''tasks''}"
      "schema_seen [] ''sp'' [(demo_before, [''tt''], ''o1'', 0 :: nat), (demo_now, [''tt''], ''o1'', 0)] = {''gone'', ''notes'', ''tasks''}"
      "set (Members tree_enc (Some (demo_row_of ''tt''))) = {''tt''}" "distinct (map dsName (spDatasets demo_now))"
      by code_simp+
    have 3: "spRow demo_now ''o1'' = Inr (Some (demo_row_of ''tt''))" "spId demo_now = ''sp''" by (simp_all add: demo_now_def demo_space_def)
    show thesis by (rule that [OF 1 2(1,2) 3(1) 2(3,4) 3(2)])
  qed
  obtain c' where ch: "schema_ChunksSince demo_render [] demo_now ''o1'' 0 c = (Inr es, c')"
    using es unfolding c [symmetric] by (metis prod.collapse)
  have "reEnc demo_render = tree_enc" by (simp add: demo_render_def)
  with schema_gate_exact [OF ds(1) ev ch] row held seen ds(2)
  have "set ev = {''gone'', ''notes'', ''tasks''} - {''tasks''}" by (simp add: Let_def)
  then show ?thesis using seen by (simp add: ev) (simp add: insert_Diff_if)
qed

text \<open>Two built-in texts, a coloured object and a size it has not.\<close>

theorem prop_values_exact_witness:
  "map ieRecordId (case fst (prop_ChunksSince demo_render 0 0 demo_now ''o1'' 0 (NewPropChunker [])) of Inr es \<Rightarrow> es | Inl _ \<Rightarrow> []) =
     [''name'', ''description'', ''p1'', ''p2''] \<and>
   map ieData (case fst (prop_ChunksSince demo_render 0 0 demo_now ''o1'' 0 (NewPropChunker [])) of Inr es \<Rightarrow> es | Inl _ \<Rightarrow> []) =
     [ascii ''One'', [], ascii ''colour: red'', []]"
proof -
  let ?c = "NewPropChunker []" and ?m = "Members (reEnc demo_render) (Some (demo_row_of ''tt''))"
  have d: "map ieData (case fst (prop_ChunksSince demo_render 0 0 demo_now ''o1'' 0 ?c) of Inr es \<Rightarrow> es | Inl _ \<Rightarrow> []) =
     [ascii ''One'', [], ascii ''colour: red'', []]" by code_simp
  then obtain es c' where es: "prop_ChunksSince demo_render 0 0 demo_now ''o1'' 0 ?c = (Inr es, c')"
    by (cases "prop_ChunksSince demo_render 0 0 demo_now ''o1'' 0 ?c") (auto split: sum.splits)
  then obtain props c1 where cat: "prop_catalog 0 0 demo_now ?c = (Inr props, c1)"
    by (cases "prop_catalog 0 0 demo_now ?c") (auto simp: prop_ChunksSince_def split: sum.splits)
  have "case fst (prop_catalog 0 0 demo_now ?c) of Inr ps \<Rightarrow> map ipPropId ps = [''p1'', ''p2''] | Inl _ \<Rightarrow> False" by code_simp
  with cat have ids: "map ipPropId props = [''p1'', ''p2'']" by simp
  have row: "spObjects demo_now ''o1'' 0 = Inr [Some (demo_row_of ''tt'')]" by (simp add: demo_now_def demo_space_def)
  have "\<not> (IsDeleted (reEnc demo_render) (demo_row_of ''tt'') \<or> set (pcExclude ?c) \<inter> set ?m \<noteq> {})" by code_simp
  with prop_values_exact [OF demo_runes cat es row] have "map ieRecordId es = NamePropRecordId # DescriptionPropRecordId # map ipPropId props"
    by (simp add: Let_def)
  then show ?thesis using d by (simp add: es ids NamePropRecordId_def DescriptionPropRecordId_def)
qed

theorem schema_records_exact_witness:
  "map (\<lambda>e. (ieDataset e, ieRecordId e, ieTitle e))
     (case fst (schema_ChunksSince demo_render [] demo_now ''o1'' 0 newChunker) of Inr es \<Rightarrow> es | Inl _ \<Rightarrow> []) =
     [(''tasks'', ''r1'', ascii ''Plan'')] \<and>
   (\<exists>e d. fst (schema_ChunksSince demo_render [] demo_now ''o1'' 0 newChunker) = Inr [e] \<and> ieData e = ascii d \<and> sublist ''soon'' d)"
proof -
  let ?cat = "parseSchemaDatasets [] (spDatasets demo_now)"
  let ?act = "schema_active ?cat (Members (reEnc demo_render) (Some (demo_row_of ''tt'')))"
  have d: "map (\<lambda>e. (ieDataset e, ieRecordId e, ieTitle e))
     (case fst (schema_ChunksSince demo_render [] demo_now ''o1'' 0 newChunker) of Inr es \<Rightarrow> es | Inl _ \<Rightarrow> []) =
     [(''tasks'', ''r1'', ascii ''Plan'')]" by code_simp
  then obtain es c' where es: "schema_ChunksSince demo_render [] demo_now ''o1'' 0 newChunker = (Inr es, c')"
    by (cases "schema_ChunksSince demo_render [] demo_now ''o1'' 0 newChunker") (auto split: sum.splits)
  obtain c1 where tp: "take_pending (schema_resolve []) demo_now newChunker = (?cat, c1)"
    by (simp add: take_pending_def schema_resolve_def newChunker_def Let_def)
  have row: "spRow demo_now ''o1'' = Inr (Some (demo_row_of ''tt''))" by (simp add: demo_now_def demo_space_def)
  have live: "\<not> IsDeleted (reEnc demo_render) (demo_row_of ''tt'')" by code_simp
  obtain e where e: "es = [e]" "ieTitle e = ascii ''Plan''" using d by (auto simp: es split: list.splits)
  have "case fst (schema_ChunksSince demo_render [] demo_now ''o1'' 0 newChunker) of Inr es \<Rightarrow> ieData (hd es) \<noteq> [] | Inl _ \<Rightarrow> False" by code_simp
  then have ne: "ieData e \<noteq> []" by (simp add: es e)
  have act: "map (\<lambda>ds. (sdName ds, sdTextFields ds)) ?act = [(''tasks'', [''body'', ''note''])]" by code_simp
  have q: "spQuery demo_now ''o1'' ''tasks'' 0 = Inr [Some demo_task]" by (simp add: demo_now_def demo_space_def)
  have soon: "renderSearchValue demo_render (fieldValue (reEnc demo_render) demo_task ''note'') = ''soon''" by code_simp
  have "e \<in> set es" by (simp add: e)
  from bspec [OF conjunct2 [OF schema_records_exact [OF demo_runes tp row live es]] this]
  obtain ds docs rec d0 where r: "ds \<in> set ?act" "spQuery demo_now ''o1'' (sdName ds) 0 = Inr docs" "Some rec \<in> set docs"
    "ieData e = reRunes demo_render d0"
    "ieData e \<noteq> [] \<longrightarrow> (\<forall>f \<in> set (sdTitleField ds # sdTextFields ds). sublist (renderSearchValue demo_render (fieldValue (reEnc demo_render) rec f)) d0)"
    by (elim bexE exE conjE) (rule that)
  have "(sdName ds, sdTextFields ds) = (''tasks'', [''body'', ''note''])" 
  proof -
    have "(sdName ds, sdTextFields ds) \<in> set (map (\<lambda>ds. (sdName ds, sdTextFields ds)) ?act)" unfolding set_map using r(1) by (rule image_eqI [OF refl])
    then show ?thesis unfolding act by simp
  qed
  with r(5) ne have "sublist (renderSearchValue demo_render (fieldValue (reEnc demo_render) rec ''note'')) d0" by simp
  moreover have "rec = demo_task" using r(2,3) q \<open>(sdName ds, sdTextFields ds) = _\<close> by auto
  ultimately have "sublist ''soon'' d0" using soon by simp
  moreover have "ieData e = ascii d0" using r(4) by (simp add: demo_render_def)
  ultimately have "\<exists>e d. fst (schema_ChunksSince demo_render [] demo_now ''o1'' 0 newChunker) = Inr [e] \<and> ieData e = ascii d \<and> sublist ''soon'' d"
    by (intro exI [of _ e] exI [of _ d0] conjI) (simp add: es e)
  with d show ?thesis ..
qed

theorem message_edges_exact_witness:
  "map (\<lambda>e. (leKind e, URI_String (leTarget e)))
     (MessageLinks tree_enc ''spc.k'' ''src'' ''chat_messages'' ''m1''
        (TObj [(''text'', TStr ''see any://objectOne''),
               (''attachments'', TObj [(''a1'', TObj [(''link'', TStr ''any://objectTwo'')]), (''a2'', TObj [(''link'', TStr ''https://x'')]),
                  (''a3'', TObj [(''link'', TStr ''any://objectOne'')])])])) =
     [(LinkKindLink, ''any://o/spc.k/objectOne''), (LinkKindLink, ''any://o/spc.k/objectTwo'')] \<and>
   edges_ok ''spc.k'' ''src'' ''chat_messages'' ''m1'' (ExtractLinks ''see any://objectOne'')
     (MessageLinks tree_enc ''spc.k'' ''src'' ''chat_messages'' ''m1'' (TObj [(''text'', TStr ''see any://objectOne'')]))"
proof
  have s: "seg_ok ''spc.k''" by code_simp
  show "map (\<lambda>e. (leKind e, URI_String (leTarget e)))
     (MessageLinks tree_enc ''spc.k'' ''src'' ''chat_messages'' ''m1''
        (TObj [(''text'', TStr ''see any://objectOne''),
               (''attachments'', TObj [(''a1'', TObj [(''link'', TStr ''any://objectTwo'')]), (''a2'', TObj [(''link'', TStr ''https://x'')]),
                  (''a3'', TObj [(''link'', TStr ''any://objectOne'')])])])) =
     [(LinkKindLink, ''any://o/spc.k/objectOne''), (LinkKindLink, ''any://o/spc.k/objectTwo'')]" by code_simp
  let ?r = "TObj [(''text'', TStr ''see any://objectOne'')]"
  have "vstr tree_enc ?r [ChatHandler.FieldText] = ''see any://objectOne''" "message_refs tree_enc ?r = []" by code_simp+
  with message_edges_exact [OF s, of "''src''" "''chat_messages''" "''m1''" tree_enc ?r]
  show "edges_ok ''spc.k'' ''src'' ''chat_messages'' ''m1'' (ExtractLinks ''see any://objectOne'') (MessageLinks tree_enc ''spc.k'' ''src'' ''chat_messages'' ''m1'' ?r)"
    by (simp add: parsed_refs_def List.map_filter_simps)
qed

theorem document_entries_exact_witness:
  "let blocks = [(demo_block ''b1'' [] ''1'')\<lparr>blkText := ''see any://objectOne''\<rparr>, (demo_block ''b2'' [] ''2'')\<lparr>blkText := '' ''\<rparr>] in
   case windowEntries ascii (\<lambda>_. None) (\<lambda>_ _. Inr blocks :: unit + tree Block list) demo_now ''o1'' ''editor_blocks'' of
     Inl _ \<Rightarrow> False
   | Inr es \<Rightarrow> map ieRecordId es = [''win_b1''] \<and>
       concat (map ieLinks es) = concat (map (BlockLinks (\<lambda>_. None) ''sp'' ''o1'' ''editor_blocks'') blocks)"
proof -
  define blocks where "blocks = [(demo_block ''b1'' [] ''1'')\<lparr>blkText := ''see any://objectOne''\<rparr>, (demo_block ''b2'' [] ''2'')\<lparr>blkText := '' ''\<rparr>]"
  let ?l = "\<lambda>_ _. Inr blocks :: unit + tree Block list"
  obtain es where es: "windowEntries ascii (\<lambda>_. None) ?l demo_now ''o1'' ''editor_blocks'' = Inr es" by (simp add: windowEntries_def)
  have "distinct (map blkId blocks)" unfolding blocks_def by code_simp
  from document_entries_exact [OF this _ es] have "concat (map ieLinks es) = concat (map (BlockLinks (\<lambda>_. None) (spId demo_now) ''o1'' ''editor_blocks'') blocks)" by simp
  moreover have "spId demo_now = ''sp''" by (simp add: demo_now_def demo_space_def)
  moreover have "case windowEntries ascii (\<lambda>_. None) ?l demo_now ''o1'' ''editor_blocks'' of Inl _ \<Rightarrow> False | Inr es \<Rightarrow> map ieRecordId es = [''win_b1'']"
    unfolding blocks_def by code_simp
  ultimately show ?thesis by (simp add: Let_def es flip: blocks_def)
qed

end
