(* ===== verification/Catalog.thy ===== *)
theory Catalog
  imports Descriptors
begin

text \<open>
  The usecase catalog (src/internal/catalog/catalog.go): the decoding of its source, the validation that collects every
  problem, the setup order of a usecase with its dependencies, and the groups the \<open>supersedes\<close> edges form.

  A problem is its path and its code; the message is not modelled. A path is the list of its steps, which
  \<open>fmt.Sprintf\<close> renders with dots and brackets. A descriptor (\<open>json.RawMessage\<close>) is absent or a JSON tree, and
  a Go map is the list of its members in the order a loop over it meets them.
\<close>

section \<open>Problems\<close>

datatype seg = Key string | Idx nat

type_synonym path = "seg list"

datatype code = CodeBadYAML | CodeUnknownField | CodeBadId | CodeDuplicate | CodeMissing | CodeBadField |
  CodeUnknownUsecase | CodeCycle | CodeBrokenLink | CodeBadMiniapp

type_synonym Problems = "(path \<times> code) list"

text \<open>A path below another: \<open>at_key p k i\<close> is \<open>p.k[i]\<close>.\<close>

definition at_key :: "path \<Rightarrow> string \<Rightarrow> nat \<Rightarrow> path" where
  "at_key p k i = p @ [Key k, Idx i]"

definition sub_key :: "path \<Rightarrow> string \<Rightarrow> path" where
  "sub_key p k = p @ [Key k]"

text \<open>The checks of a list's elements, each with its index, in order.\<close>

definition each :: "(nat \<Rightarrow> 'a \<Rightarrow> Problems) \<Rightarrow> 'a list \<Rightarrow> Problems" where
  "each f xs = concat (map (\<lambda>(i, x). f i x) (enumerate 0 xs))"

definition flag :: "bool \<Rightarrow> path \<Rightarrow> code \<Rightarrow> Problems" where
  "flag c p e = (if c then [(p, e)] else [])"

lemma flag_nil [simp]: "flag c p e = [] \<longleftrightarrow> \<not> c"
  by (simp add: flag_def)

lemma each_nil: "each f xs = [] \<longleftrightarrow> (\<forall>i < length xs. f i (xs ! i) = [])"
  by (simp add: each_def all_set_conv_all_nth nth_enumerate_eq)

section \<open>The source\<close>

text \<open>
  A decoded YAML value: \<open>YAny\<close> is a mapping with a key that is no string (\<open>map[any]any\<close>), \<open>YLeaf\<close> a scalar. The
  target types are the structs of package api, by name, slices, and \<open>SFree\<close> for what the walk does not enter: scalars,
  maps, \<open>json.RawMessage\<close> and types with a decoding of their own.
\<close>

datatype yv = YNull | YLeaf string | YSeq "yv list" | YMap "(string \<times> yv) list" | YAny

datatype struct = GDocument | GUsecase | GBundle | GTypeDecl | GCollectionDecl | GProperty | GPart | GDataset | GSearch | GField | GShape | GIndex

datatype schema = SStruct struct | SSlice schema | SFree

definition free :: "string list \<Rightarrow> (string \<times> schema) list" where
  "free ks = map (\<lambda>k. (k, SFree)) ks"

text \<open>The JSON names of each struct's fields, with their types.\<close>

fun structFields :: "struct \<Rightarrow> (string \<times> schema) list" where
  "structFields GDocument = [(''usecases'', SSlice (SStruct GUsecase))]"
| "structFields GUsecase = free [''id'', ''name'', ''description''] @
     [(''requires'', SSlice SFree), (''bundles'', SSlice (SStruct GBundle))]"
| "structFields GBundle = free [''id'', ''name'', ''description'', ''derived'', ''hidden'', ''rootType'', ''miniapp'', ''superseded''] @
     [(''type'', SStruct GTypeDecl), (''collection'', SStruct GCollectionDecl), (''parts'', SSlice (SStruct GPart)),
      (''supersedes'', SSlice SFree)]"
| "structFields GTypeDecl = free [''xKey'', ''layout''] @ [(''properties'', SSlice (SStruct GProperty))]"
| "structFields GCollectionDecl = free [''xKey'', ''meta''] @ [(''properties'', SSlice (SStruct GProperty))]"
| "structFields GProperty = free [''name'', ''description'', ''xKey'', ''kind'', ''meta'', ''xFormat'', ''scope'']"
| "structFields GPart = free [''key'', ''name'', ''icon'', ''pos'', ''hidden'', ''ui''] @
     [(''uses'', SSlice SFree), (''datasets'', SSlice (SStruct GDataset))]"
| "structFields GDataset = free [''key'', ''module'', ''displayName'', ''description'', ''dynamic'', ''idRule'', ''idPattern'',
      ''idMaxLen'', ''deleteBy'', ''skipHistory'', ''shared''] @
     [(''search'', SStruct GSearch), (''fields'', SSlice (SStruct GField)), (''indexes'', SSlice (SStruct GIndex))]"
| "structFields GSearch = free [''title'', ''text'', ''scope'']"
| "structFields GField = free [''key'', ''name'', ''description'', ''kind'', ''scope'', ''required'', ''mutableBy'', ''stamp'', ''xFormat''] @
     [(''shape'', SStruct GShape)]"
| "structFields GShape = free [''kind'', ''properties''] @ [(''items'', SStruct GShape)]"
| "structFields GIndex = free [''key'', ''sparse''] @ [(''fields'', SSlice SFree)]"

definition sortedKeys :: "(string \<times> 'a) list \<Rightarrow> (string \<times> 'a) list" where
  "sortedKeys m = sort_key fst m"

lemma set_sortedKeys [simp]: "set (sortedKeys m) = set m"
  by (simp add: sortedKeys_def)

lemma yv_member_size: "(k, v) \<in> set m \<Longrightarrow> size v < Suc (size_list (size_prod (\<lambda>_. 0) size) m)"
  by (induction m) auto

lemma yv_elem_size: "(i, v) \<in> set (enumerate n xs) \<Longrightarrow> size v < Suc (size_list size xs)"
  using size_list_estimation[of v xs "size v" size]
  by (metis enumerate_eq_zip in_set_enumerate_eq le_imp_less_Suc order_refl set_zip_rightD size_list_estimation')

function nonStringKeys :: "path \<Rightarrow> yv \<Rightarrow> Problems" where
  "nonStringKeys p YAny = [(p, CodeBadField)]"
| "nonStringKeys p (YMap m) = concat (map (\<lambda>(k, v). nonStringKeys (sub_key p k) v) (sortedKeys m))"
| "nonStringKeys p (YSeq xs) = concat (map (\<lambda>(i, v). nonStringKeys (p @ [Idx i]) v) (enumerate 0 xs))"
| "nonStringKeys p YNull = []"
| "nonStringKeys p (YLeaf s) = []"
  by pat_completeness auto
termination
  by (relation "measure (size o snd)") (auto dest: yv_member_size yv_elem_size)

function unknownKeys :: "path \<Rightarrow> yv \<Rightarrow> schema \<Rightarrow> Problems" where
  "unknownKeys p YAny t = []"
| "unknownKeys p (YMap m) (SStruct s) =
     concat (map (\<lambda>(k, v).
       case map_of (structFields s) k of
         None \<Rightarrow> [(sub_key p k, CodeUnknownField)]
       | Some t \<Rightarrow> unknownKeys (sub_key p k) v t) (sortedKeys m))"
| "unknownKeys p YNull (SStruct s) = []"
| "unknownKeys p (YLeaf x) (SStruct s) = [(p, CodeBadField)]"
| "unknownKeys p (YSeq x) (SStruct s) = [(p, CodeBadField)]"
| "unknownKeys p (YSeq xs) (SSlice t) =
     concat (map (\<lambda>(i, v). unknownKeys (p @ [Idx i]) v t) (enumerate 0 xs))"
| "unknownKeys p YNull (SSlice t) = []"
| "unknownKeys p (YLeaf x) (SSlice t) = [(p, CodeBadField)]"
| "unknownKeys p (YMap x) (SSlice t) = [(p, CodeBadField)]"
| "unknownKeys p YNull SFree = []"
| "unknownKeys p (YLeaf x) SFree = []"
| "unknownKeys p (YSeq x) SFree = []"
| "unknownKeys p (YMap x) SFree = []"
  by pat_completeness auto
termination
  by (relation "measure (size o fst o snd)") (auto dest: yv_member_size yv_elem_size)

section \<open>The catalog\<close>

record DatasetDraft =
  dsKey :: string
  dsModule :: string
  dsDeleteBy :: string
  dsFields :: "(string \<times> string \<times> string) list" \<comment> \<open>key, stamp, mutableBy\<close>
  dsSearch :: "(string \<times> string list) option" \<comment> \<open>title, text\<close>

record PartDraft =
  ptKey :: string
  ptDatasets :: "DatasetDraft list"

record PropertyDraft =
  prXKey :: string
  prKind :: string
  prMeta :: "(string \<times> string) list"
  prXFormat :: "jv option"

record CatalogType =
  tyXKey :: string
  tyLayout :: "jv option"
  tyProperties :: "PropertyDraft list"

record CatalogCollection =
  coXKey :: string
  coProperties :: "PropertyDraft list"
  coMeta :: "(string \<times> jv) list"

record CatalogBundle =
  cbId :: string
  cbName :: string
  cbHidden :: bool
  cbRootType :: string
  cbType :: "CatalogType option"
  cbCollection :: "CatalogCollection option"
  cbMiniapp :: "(string \<times> jv) list option"
  cbParts :: "PartDraft list"
  cbSupersedes :: "string list"
  cbSuperseded :: bool

record CatalogUsecase =
  cuId :: string
  cuName :: string
  cuRequires :: "string list"
  cuBundles :: "CatalogBundle list"

record Options =
  KnownTypeIds :: "string list"
  RootTypeIds :: "string list"

section \<open>Grammars\<close>

definition lower :: "char \<Rightarrow> bool" where
  "lower c \<longleftrightarrow> byte_in CHR ''a'' CHR ''z'' c"

definition digit :: "char \<Rightarrow> bool" where
  "digit c \<longleftrightarrow> byte_in CHR ''0'' CHR ''9'' c"

definition alpha :: "char \<Rightarrow> bool" where
  "alpha c \<longleftrightarrow> lower c \<or> byte_in CHR ''A'' CHR ''Z'' c"

text \<open>A first byte of one class, then any number of another: the shape of \<open>slugRe\<close>, \<open>xKeyRe\<close> and \<open>propRe\<close>.\<close>

fun word_of :: "(char \<Rightarrow> bool) \<Rightarrow> (char \<Rightarrow> bool) \<Rightarrow> string \<Rightarrow> bool" where
  "word_of first rest [] = False"
| "word_of first rest (c # s) = (first c \<and> list_all rest s)"

definition slug_rest :: "char \<Rightarrow> bool" where
  "slug_rest c \<longleftrightarrow> lower c \<or> digit c \<or> c = CHR ''-''"

definition slugRe :: "string \<Rightarrow> bool" where
  "slugRe = word_of lower slug_rest"

definition xKeyRe :: "string \<Rightarrow> bool" where
  "xKeyRe = word_of lower (\<lambda>c. lower c \<or> digit c \<or> c = CHR ''_'')"

definition propRe :: "string \<Rightarrow> bool" where
  "propRe = word_of alpha (\<lambda>c. alpha c \<or> digit c \<or> c = CHR ''_'')"

definition bundleRe :: "string \<Rightarrow> bool" where
  "bundleRe s = (case cut_prefix ''system:'' s of
     None \<Rightarrow> False
   | Some rest \<Rightarrow> slugRe (takeWhile slug_rest rest) \<and>
       (case cut_prefix ''/v'' (dropWhile slug_rest rest) of
          None \<Rightarrow> False
        | Some n \<Rightarrow> word_of (byte_in CHR ''1'' CHR ''9'') digit n))"

section \<open>Descriptors and meta\<close>

text \<open>\<open>xformatMap\<close>: the members of a descriptor that is an object, nothing for any other.\<close>

definition xformatMap :: "jv option \<Rightarrow> jv option" where
  "xformatMap raw = (case raw of Some (JvObj kvs) \<Rightarrow> Some (JvObj kvs) | _ \<Rightarrow> None)"

definition relationTargets :: "jv option \<Rightarrow> string list" where
  "relationTargets raw = (case xformatMap raw of None \<Rightarrow> []
     | Some xf \<Rightarrow> (case jv_get xf ''relation'' of
         Some (JvObj rel) \<Rightarrow> (case jv_get (JvObj rel) ''targetTypes'' of
            Some (JvArr vs) \<Rightarrow> concat (map (\<lambda>v. case v of JvStr s \<Rightarrow> [s] | _ \<Rightarrow> []) vs)
          | _ \<Rightarrow> [])
       | _ \<Rightarrow> []))"

definition hasLayout :: "jv option \<Rightarrow> bool" where
  "hasLayout raw \<longleftrightarrow> raw \<noteq> None \<and> raw \<noteq> Some JvNull"

text \<open>\<open>CheckMetaEntry\<close> (src/internal/api/meta_entry.go): whether the entry is fine.\<close>

definition CheckMetaEntry :: "string \<Rightarrow> jv \<Rightarrow> bool \<Rightarrow> bool" where
  "CheckMetaEntry k v nilOK =
     (if k = [] \<or> 64 < length k \<or> CHR ''.'' \<in> set k \<or> CHR ''$'' \<in> set k then False
      else case v of JvStr _ \<Rightarrow> True | JvBool _ \<Rightarrow> True | JvNum _ \<Rightarrow> True | JvNull \<Rightarrow> nilOK | _ \<Rightarrow> False)"

definition validateMeta :: "path \<Rightarrow> (string \<times> jv) list \<Rightarrow> Problems" where
  "validateMeta mp meta = concat (map (\<lambda>(k, v). flag (\<not> CheckMetaEntry k v False) (sub_key mp k) CodeBadField) meta)"

section \<open>Properties and parts\<close>

text \<open>What the loop over the properties has seen so far is what precedes the property in the list.\<close>

definition check_relation :: "path \<Rightarrow> jv option \<Rightarrow> Problems" where
  "check_relation pp raw = (case xformatMap raw of None \<Rightarrow> []
     | Some xf \<Rightarrow>
         let xfp = sub_key pp ''xFormat''; rp = sub_key xfp ''relation''; isRel = jv_get xf ''type'' = Some (JvStr ''relation'') in
         (case jv_get xf ''relation'' of
            Some (JvObj rel) \<Rightarrow>
              flag (jv_get (JvObj rel) ''filter'' \<noteq> None) (sub_key rp ''filter'') CodeBadField @
              flag (isRel \<and> relationTargets raw = []) (sub_key rp ''targetTypes'') CodeMissing
          | _ \<Rightarrow> flag isRel rp CodeMissing))"

definition check_property :: "path \<Rightarrow> string list \<Rightarrow> PropertyDraft \<Rightarrow> Problems" where
  "check_property pp seen pr =
     (if prXKey pr = [] then [(sub_key pp ''xKey'', CodeMissing)]
      else if \<not> propRe (prXKey pr) then [(sub_key pp ''xKey'', CodeBadId)]
      else flag (prXKey pr \<in> set seen) (sub_key pp ''xKey'') CodeDuplicate) @
     flag (prKind pr = []) (sub_key pp ''kind'') CodeMissing @
     concat (map (\<lambda>(k, v). flag (k \<noteq> ''index'') (pp @ [Key ''meta'', Key k]) CodeBadField) (prMeta pr)) @
     check_relation pp (prXFormat pr)"

definition validateProperties :: "path \<Rightarrow> PropertyDraft list \<Rightarrow> Problems" where
  "validateProperties tp props =
     each (\<lambda>pi pr. check_property (at_key tp ''properties'' pi) (map prXKey (take pi props)) pr) props"

definition canonicalCollection :: "string \<Rightarrow> string" where
  "canonicalCollection m =
     (if m = ''editor'' then ''editor_blocks'' else if m = ''chat'' then ''chat_messages'' else [])"

text \<open>\<open>module\<close> and \<open>key\<close> of a dataset, with their defaults.\<close>

definition ds_module :: "DatasetDraft \<Rightarrow> string" where
  "ds_module ds = (if dsModule ds = [] then ''records'' else dsModule ds)"

definition ds_key :: "DatasetDraft \<Rightarrow> string" where
  "ds_key ds = (if dsKey ds = [] then canonicalCollection (ds_module ds) else dsKey ds)"

definition check_gates :: "path \<Rightarrow> DatasetDraft \<Rightarrow> Problems" where
  "check_gates dp ds =
     (if list_ex (\<lambda>(k, stamp, mb). stamp = ''creator'') (dsFields ds) then []
      else flag (dsDeleteBy ds = ''author'') (sub_key dp ''deleteBy'') CodeBadField @
           flag (find (\<lambda>(k, stamp, mb). mb = ''author'' \<and> k \<noteq> []) (dsFields ds) \<noteq> None) (sub_key dp ''fields'') CodeBadField)"

definition check_search :: "path \<Rightarrow> DatasetDraft \<Rightarrow> Problems" where
  "check_search dp ds = (case dsSearch ds of None \<Rightarrow> []
     | Some (title, texts) \<Rightarrow>
         if dsFields ds = [] then []
         else let declared = map fst (dsFields ds); sp = sub_key dp ''search'' in
           flag (title \<noteq> [] \<and> title \<notin> set declared) (sub_key sp ''title'') CodeBadField @
           concat (map (\<lambda>t. flag (t \<notin> set declared) (sub_key sp ''text'') CodeBadField) texts))"

definition check_dataset :: "path \<Rightarrow> string set \<Rightarrow> DatasetDraft \<Rightarrow> Problems" where
  "check_dataset dp datasetKeys ds =
     (let m = ds_module ds; key = ds_key ds in
      flag (m \<notin> {''records'', ''editor'', ''chat''}) (sub_key dp ''module'') CodeBadField @
      flag (m = ''chat'' \<and> key \<noteq> canonicalCollection m) (sub_key dp ''key'') CodeBadField @
      flag (m \<noteq> ''records'' \<and> dsFields ds \<noteq> []) (sub_key dp ''fields'') CodeBadField @
      flag (m \<noteq> ''records'' \<and> dsDeleteBy ds \<noteq> [] \<and> dsDeleteBy ds \<noteq> ''anyone'') (sub_key dp ''deleteBy'') CodeBadField @
      (if key = [] \<and> m = ''records'' then [(sub_key dp ''key'', CodeMissing)]
       else flag (key \<noteq> [] \<and> key \<in> datasetKeys) (sub_key dp ''key'') CodeDuplicate) @
      check_gates dp ds @ check_search dp ds)"

text \<open>The datasets of one part: \<open>datasetKeys\<close> runs across the parts, an empty key is never in it.\<close>

fun check_datasets :: "path \<Rightarrow> nat \<Rightarrow> string set \<Rightarrow> DatasetDraft list \<Rightarrow> Problems \<times> string set" where
  "check_datasets p i keys [] = ([], keys)"
| "check_datasets p i keys (ds # dss) =
     (let (ps, keys') = check_datasets p (Suc i) (if ds_key ds = [] then keys else insert (ds_key ds) keys) dss in
      (check_dataset (at_key p ''datasets'' i) keys ds @ ps, keys'))"

fun validateParts :: "path \<Rightarrow> nat \<Rightarrow> string set \<Rightarrow> string set \<Rightarrow> PartDraft list \<Rightarrow> Problems" where
  "validateParts pp i partKeys datasetKeys [] = []"
| "validateParts pp i partKeys datasetKeys (pt # pts) =
     (let p = pp @ [Idx i];
          (ps, datasetKeys') = check_datasets p 0 datasetKeys (ptDatasets pt) in
      (if \<not> xKeyRe (ptKey pt) then [(sub_key p ''key'', CodeBadId)]
       else flag (ptKey pt \<in> partKeys) (sub_key p ''key'') CodeDuplicate) @
      ps @ validateParts pp (Suc i) (insert (ptKey pt) partKeys) datasetKeys' pts)"

section \<open>The dependency graph\<close>

text \<open>
  The lookup maps \<open>validate\<close> fills: \<open>byId\<close> holds the index of the first usecase with an id, \<open>types\<close> the usecase of
  each handle, \<open>superseded\<close> the ids another bundle supersedes.
\<close>

record CatalogState =
  Usecases :: "CatalogUsecase list"
  byId :: "string \<Rightarrow> nat option"
  types :: "string \<Rightarrow> string option"
  superseded :: "string set"

definition GetUsecase :: "CatalogState \<Rightarrow> string \<Rightarrow> CatalogUsecase option" where
  "GetUsecase c x = map_option (\<lambda>i. Usecases c ! i) (byId c x)"

text \<open>
  \<open>c.Usecases[c.byId[id]]\<close>: an id the map does not have reads index 0.
\<close>

definition usecase_at :: "CatalogState \<Rightarrow> string \<Rightarrow> CatalogUsecase" where
  "usecase_at c x = Usecases c ! (case byId c x of Some i \<Rightarrow> i | None \<Rightarrow> 0)"

text \<open>
  The depth-first walk of \<open>Order\<close>, over \<open>seen\<close> and \<open>out\<close>; the fuel bounds the depth of the recursion.
\<close>

primrec order_walk :: "(string \<Rightarrow> string list) \<Rightarrow> nat \<Rightarrow> string \<Rightarrow> string set \<times> string list \<Rightarrow> string set \<times> string list" where
  "order_walk adj 0 x st = st"
| "order_walk adj (Suc n) x st =
     (if x \<in> fst st then st
      else let st' = fold (order_walk adj n) (adj x) (insert x (fst st), snd st) in (fst st', snd st' @ [x]))"

text \<open>Every id the walk can meet: the ids of the usecases and what they require.\<close>

definition ids_of :: "CatalogState \<Rightarrow> string list" where
  "ids_of c = concat (map (\<lambda>u. cuId u # cuRequires u) (Usecases c))"

definition Order :: "CatalogState \<Rightarrow> string \<Rightarrow> CatalogUsecase list option" where
  "Order c x = (if byId c x = None then None
     else Some (map (usecase_at c)
       (snd (order_walk (\<lambda>i. cuRequires (usecase_at c i)) (length (x # ids_of c)) x ({}, [])))))"

text \<open>\<open>closure\<close>: the same walk, a node noted before what it requires, and an unknown id a leaf.\<close>

definition known_requires :: "CatalogState \<Rightarrow> string \<Rightarrow> string list" where
  "known_requires c x = (case byId c x of Some i \<Rightarrow> cuRequires (Usecases c ! i) | None \<Rightarrow> [])"

primrec closure_walk :: "(string \<Rightarrow> string list) \<Rightarrow> nat \<Rightarrow> string \<Rightarrow> string list \<Rightarrow> string list" where
  "closure_walk adj 0 x out = out"
| "closure_walk adj (Suc n) x out =
     (if x \<in> set out then out else fold (closure_walk adj n) (adj x) (out @ [x]))"

definition catalog_closure :: "CatalogState \<Rightarrow> string \<Rightarrow> string list" where
  "catalog_closure c x = closure_walk (known_requires c) (length (x # ids_of c)) x []"

text \<open>
  \<open>findCycles\<close>: the walk over colours, the stack of the grey ids (its top first), the cycles reported so far.
  A requirement no usecase has is skipped.
\<close>

record cycleState =
  grey :: "string list"
  black :: "string set"
  reported :: "string list list"
  cycleProblems :: Problems

definition cycle_found :: "path \<Rightarrow> string \<Rightarrow> cycleState \<Rightarrow> cycleState" where
  "cycle_found p r st =
     (let cycle = r # rev (takeWhile (\<lambda>y. y \<noteq> r) (grey st)) @ [r] in
      if cycle \<in> set (reported st) then st
      else st\<lparr>reported := cycle # reported st, cycleProblems := cycleProblems st @ [(p, CodeCycle)]\<rparr>)"

primrec visit :: "CatalogState \<Rightarrow> nat \<Rightarrow> string \<Rightarrow> cycleState \<Rightarrow> cycleState" where
  "visit c 0 x st = st"
| "visit c (Suc n) x st =
     (let p = [Key ''usecases'', Idx (case byId c x of Some i \<Rightarrow> i | None \<Rightarrow> 0), Key ''requires''];
          st' = fold (\<lambda>r st.
            if byId c r = None then st
            else if r \<in> set (grey st) then cycle_found p r st
            else if r \<in> black st then st
            else visit c n r st) (cuRequires (usecase_at c x)) (st\<lparr>grey := x # grey st\<rparr>) in
      st'\<lparr>grey := tl (grey st'), black := insert x (black st')\<rparr>)"

definition findCycles :: "CatalogState \<Rightarrow> Problems" where
  "findCycles c = cycleProblems (fold (\<lambda>u st.
     if byId c (cuId u) \<noteq> None \<and> cuId u \<notin> set (grey st) \<and> cuId u \<notin> black st
     then visit c (length (Usecases c)) (cuId u) st else st) (Usecases c)
     \<lparr>grey = [], black = {}, reported = [], cycleProblems = []\<rparr>)"

section \<open>Supersede groups\<close>

record SupersedeGroup =
  Old :: "string list"
  New :: "string list"

definition OldKept :: "SupersedeGroup \<Rightarrow> string set \<Rightarrow> bool" where
  "OldKept g installed = list_ex (\<lambda>x. x \<in> installed) (Old g)"

definition NewAny :: "SupersedeGroup \<Rightarrow> string set \<Rightarrow> bool" where
  "NewAny g installed = list_ex (\<lambda>x. x \<in> installed) (New g)"

text \<open>
  \<open>find\<close> of the union-find, with path compression: the representative and the parents after it. It may run forever on
  parents that form a cycle.
\<close>

partial_function (option) uf_find :: "(string \<Rightarrow> string option) \<Rightarrow> string \<Rightarrow> (string \<times> (string \<Rightarrow> string option)) option" where
  "uf_find parent x = (case parent x of
     None \<Rightarrow> Some (x, parent(x \<mapsto> x))
   | Some p \<Rightarrow>
       if p = x then Some (x, parent)
       else Option.bind (uf_find parent p) (\<lambda>rp. Some (fst rp, (snd rp)(x \<mapsto> fst rp))))"

declare uf_find.simps [code]

definition uf_union :: "string \<times> string \<Rightarrow> (string \<Rightarrow> string option) \<Rightarrow> (string \<Rightarrow> string option) option" where
  "uf_union e parent = (case uf_find parent (snd e) of None \<Rightarrow> None
     | Some (ro, parent1) \<Rightarrow> (case uf_find parent1 (fst e) of None \<Rightarrow> None
         | Some (rn, parent2) \<Rightarrow> Some (parent2(ro \<mapsto> rn))))"

fun uf_unions :: "(string \<times> string) list \<Rightarrow> (string \<Rightarrow> string option) \<Rightarrow> (string \<Rightarrow> string option) option" where
  "uf_unions [] parent = Some parent"
| "uf_unions (e # es) parent = (case uf_union e parent of None \<Rightarrow> None | Some parent' \<Rightarrow> uf_unions es parent')"

text \<open>
  The groups: one per representative (\<open>byRoot\<close>), and the representative of every linked bundle. \<open>c.groups\<close> points into
  \<open>byRoot\<close>, so a bundle's group is the one its representative has in the end.
\<close>

record groupState =
  uf :: "string \<Rightarrow> string option"
  byRoot :: "string \<Rightarrow> SupersedeGroup option"
  groupOf :: "string \<Rightarrow> string option"

definition group_bundle :: "string set \<Rightarrow> string \<Rightarrow> groupState \<Rightarrow> groupState option" where
  "group_bundle olds x st = (if uf st x = None then Some st
     else (case uf_find (uf st) x of None \<Rightarrow> None
       | Some (r, parent) \<Rightarrow>
           let g = (case byRoot st r of Some g \<Rightarrow> g | None \<Rightarrow> \<lparr>Old = [], New = []\<rparr>);
               g' = (if x \<in> olds then g\<lparr>Old := Old g @ [x]\<rparr> else g\<lparr>New := New g @ [x]\<rparr>) in
           Some \<lparr>uf = parent, byRoot = (byRoot st)(r \<mapsto> g'), groupOf = (groupOf st)(x \<mapsto> r)\<rparr>))"

fun group_bundles :: "string set \<Rightarrow> string list \<Rightarrow> groupState \<Rightarrow> groupState option" where
  "group_bundles olds [] st = Some st"
| "group_bundles olds (x # xs) st = (case group_bundle olds x st of None \<Rightarrow> None | Some st' \<Rightarrow> group_bundles olds xs st')"

text \<open>\<open>es\<close> are the edges (the superseding bundle, the superseded one) in the order the loops over the maps meet them.\<close>

definition groupSupersedes :: "(string \<times> string) list \<Rightarrow> string set \<Rightarrow> string list \<Rightarrow> groupState option" where
  "groupSupersedes es olds bundles = (case uf_unions es (\<lambda>_. None) of None \<Rightarrow> None
     | Some parent \<Rightarrow> group_bundles olds bundles \<lparr>uf = parent, byRoot = (\<lambda>_. None), groupOf = (\<lambda>_. None)\<rparr>)"

definition group_of :: "groupState \<Rightarrow> string \<Rightarrow> SupersedeGroup option" where
  "group_of st x = (case groupOf st x of None \<Rightarrow> None | Some r \<Rightarrow> byRoot st r)"

definition bundle_ids :: "CatalogUsecase list \<Rightarrow> string list" where
  "bundle_ids us = concat (map (\<lambda>u. map cbId (cuBundles u)) us)"

definition supersede_edges :: "CatalogUsecase list \<Rightarrow> (string \<times> string) list" where
  "supersede_edges us = concat (map (\<lambda>u. concat (map (\<lambda>b. map (Pair (cbId b)) (cbSupersedes b)) (cuBundles u))) us)"

section \<open>Validation\<close>

text \<open>
  What the walk over the usecases carries: the problems, the lookup maps, the usecase of each bundle id, and the bundles
  that hold each handle.
\<close>

record vstate =
  vProblems :: Problems
  vById :: "string \<Rightarrow> nat option"
  vTypes :: "string \<Rightarrow> string option"
  vXkeys :: "string \<Rightarrow> string list"
  vBundleIds :: "string \<Rightarrow> string option"

definition report :: "Problems \<Rightarrow> vstate \<Rightarrow> vstate" where
  "report ps st = st\<lparr>vProblems := vProblems st @ ps\<rparr>"

definition sharesHandle :: "(string \<times> string) set \<Rightarrow> string \<Rightarrow> string \<Rightarrow> bool" where
  "sharesHandle edges a b \<longleftrightarrow> (a, b) \<in> edges \<or> (b, a) \<in> edges"

text \<open>\<open>holderNotSharing\<close>: the first holder the claimant may not share the handle with.\<close>

definition holderNotSharing :: "(string \<times> string) set \<Rightarrow> string list \<Rightarrow> string \<Rightarrow> string option" where
  "holderNotSharing edges holders bid = find (\<lambda>h. \<not> sharesHandle edges bid h) holders"

definition validateHandle :: "string set \<Rightarrow> (string \<times> string) set \<Rightarrow> path \<Rightarrow> string \<Rightarrow> string \<Rightarrow> string \<Rightarrow> vstate \<Rightarrow> vstate" where
  "validateHandle known edges tp usecase bid xKey st =
     (if \<not> xKeyRe xKey then report [(sub_key tp ''xKey'', CodeBadId)] st
      else if xKey \<in> known then report [(sub_key tp ''xKey'', CodeDuplicate)] st
      else if holderNotSharing edges (vXkeys st xKey) bid \<notin> {None, Some []} then report [(sub_key tp ''xKey'', CodeDuplicate)] st
      else st\<lparr>vXkeys := (vXkeys st)(xKey := vXkeys st xKey @ [bid]), vTypes := (vTypes st)(xKey \<mapsto> usecase)\<rparr>)"

definition validateType :: "string set \<Rightarrow> (string \<times> string) set \<Rightarrow> path \<Rightarrow> string \<Rightarrow> string \<Rightarrow> CatalogType \<Rightarrow> vstate \<Rightarrow> vstate" where
  "validateType known edges tp usecase bid t st =
     report (validateProperties tp (tyProperties t)) (validateHandle known edges tp usecase bid (tyXKey t) st)"

definition validateCollection :: "string set \<Rightarrow> (string \<times> string) set \<Rightarrow> path \<Rightarrow> string \<Rightarrow> string \<Rightarrow> CatalogCollection \<Rightarrow> vstate \<Rightarrow> vstate" where
  "validateCollection known edges cp usecase bid t st =
     report (validateProperties cp (coProperties t)) (validateHandle known edges cp usecase bid (coXKey t) st)"

definition check_bundle_id :: "path \<Rightarrow> string \<Rightarrow> string \<Rightarrow> vstate \<Rightarrow> vstate" where
  "check_bundle_id bp usecase bid st =
     (if \<not> bundleRe bid then report [(sub_key bp ''id'', CodeBadId)] st
      else if vBundleIds st bid \<noteq> None then report [(sub_key bp ''id'', CodeDuplicate)] st
      else st\<lparr>vBundleIds := (vBundleIds st)(bid \<mapsto> usecase)\<rparr>)"

definition maxNameBytes :: nat where "maxNameBytes = 1024"
definition maxParts :: nat where "maxParts = 32"
definition maxProperties :: nat where "maxProperties = 64"

definition opt_length :: "('a \<Rightarrow> 'b list) \<Rightarrow> 'a option \<Rightarrow> nat" where
  "opt_length f x = (case x of None \<Rightarrow> 0 | Some a \<Rightarrow> length (f a))"

definition bundle_declares :: "CatalogBundle \<Rightarrow> bool" where
  "bundle_declares b \<longleftrightarrow> cbType b \<noteq> None \<or> cbCollection b \<noteq> None \<or> cbParts b \<noteq> []"

text \<open>The checks of a bundle's shape, from its name to its root type.\<close>

definition check_shape :: "string set \<Rightarrow> path \<Rightarrow> CatalogBundle \<Rightarrow> Problems" where
  "check_shape rootTypes bp b =
     (let declares = bundle_declares b in
      (if cbName b = [] then [(sub_key bp ''name'', CodeMissing)]
       else flag (maxNameBytes < length (cbName b)) (sub_key bp ''name'') CodeBadField) @
      flag (maxParts < length (cbParts b)) (sub_key bp ''parts'') CodeBadField @
      flag (maxProperties < opt_length tyProperties (cbType b)) (bp @ [Key ''type'', Key ''properties'']) CodeBadField @
      flag (maxProperties < opt_length coProperties (cbCollection b)) (bp @ [Key ''collection'', Key ''properties'']) CodeBadField @
      flag (\<not> declares \<and> cbMiniapp b = None) bp CodeMissing @
      flag (cbType b \<noteq> None \<and> cbCollection b \<noteq> None) (sub_key bp ''collection'') CodeBadField @
      flag (cbCollection b \<noteq> None \<and> cbParts b \<noteq> []) (sub_key bp ''parts'') CodeBadField @
      flag (cbHidden b \<and> \<not> declares) (sub_key bp ''hidden'') CodeBadField @
      (if declares \<and> cbRootType b \<noteq> [] then [(sub_key bp ''rootType'', CodeBadField)]
       else if \<not> declares \<and> cbRootType b = [] then [(sub_key bp ''rootType'', CodeMissing)]
       else flag (\<not> declares \<and> cbRootType b \<notin> rootTypes) (sub_key bp ''rootType'') CodeBadField))"

definition check_supersedes :: "(string \<times> string) set \<Rightarrow> path \<Rightarrow> CatalogUsecase \<Rightarrow> CatalogBundle \<Rightarrow> Problems" where
  "check_supersedes edges bp u b =
     each (\<lambda>si old.
       let sp = at_key bp ''supersedes'' si in
       if old = cbId b then [(sp, CodeCycle)]
       else if old \<in> set (take si (cbSupersedes b)) then [(sp, CodeDuplicate)]
       else if old \<notin> set (map cbId (cuBundles u)) then [(sp, CodeBrokenLink)]
       else flag (old \<in> fst ` edges) sp CodeBadField) (cbSupersedes b)"

definition check_miniapp :: "path \<Rightarrow> CatalogBundle \<Rightarrow> Problems" where
  "check_miniapp bp b = (case cbMiniapp b of None \<Rightarrow> []
     | Some m \<Rightarrow> (case map_of m ''bundle'' of None \<Rightarrow> []
         | Some v \<Rightarrow> flag (v \<noteq> JvStr (cbId b)) (bp @ [Key ''miniapp'', Key ''bundle'']) CodeBadMiniapp))"

definition check_bundle :: "Options \<Rightarrow> string set \<Rightarrow> (string \<times> string) set \<Rightarrow> CatalogUsecase \<Rightarrow> path \<Rightarrow> CatalogBundle \<Rightarrow> vstate \<Rightarrow> vstate" where
  "check_bundle opts known edges u bp b st =
     (let st1 = report (check_shape (set (RootTypeIds opts)) bp b) (check_bundle_id bp (cuId u) (cbId b) st);
          st2 = (case cbType b of None \<Rightarrow> st1
            | Some t \<Rightarrow> report (flag (cbId b \<notin> snd ` edges \<and> \<not> hasLayout (tyLayout t) \<and> cbParts b = []) (sub_key bp ''type'') CodeBadField)
                (validateType known edges (sub_key bp ''type'') (cuId u) (cbId b) t st1));
          st3 = (case cbCollection b of None \<Rightarrow> st2
            | Some t \<Rightarrow> report (validateMeta (bp @ [Key ''collection'', Key ''meta'']) (coMeta t))
                (validateCollection known edges (sub_key bp ''collection'') (cuId u) (cbId b) t st2)) in
      report (check_supersedes edges bp u b @ check_miniapp bp b @
        validateParts (sub_key bp ''parts'') 0 {} {} (cbParts b)) st3)"

definition check_requires :: "path \<Rightarrow> CatalogUsecase \<Rightarrow> Problems" where
  "check_requires up u =
     each (\<lambda>ri r. flag (r = cuId u) (at_key up ''requires'' ri) CodeCycle @
       flag (r \<in> set (take ri (cuRequires u))) (at_key up ''requires'' ri) CodeDuplicate) (cuRequires u)"

definition check_usecase_id :: "path \<Rightarrow> nat \<Rightarrow> string \<Rightarrow> vstate \<Rightarrow> vstate" where
  "check_usecase_id up ui x st =
     (if \<not> slugRe x then report [(sub_key up ''id'', CodeBadId)] st
      else if vById st x \<noteq> None then report [(sub_key up ''id'', CodeDuplicate)] st
      else st\<lparr>vById := (vById st)(x \<mapsto> ui)\<rparr>)"

definition check_usecase :: "Options \<Rightarrow> string set \<Rightarrow> (string \<times> string) set \<Rightarrow> nat \<Rightarrow> CatalogUsecase \<Rightarrow> vstate \<Rightarrow> vstate" where
  "check_usecase opts known edges ui u st =
     (let up = [Key ''usecases'', Idx ui];
          st1 = report (flag (cuName u = []) (sub_key up ''name'') CodeMissing @
                  flag (cuBundles u = []) (sub_key up ''bundles'') CodeMissing @ check_requires up u)
                (check_usecase_id up ui (cuId u) st) in
      fold (\<lambda>(bi, b). check_bundle opts known edges u (at_key up ''bundles'' bi) b) (enumerate 0 (cuBundles u)) st1)"

text \<open>The links: relation targets and \<open>meta.defaultType\<close> of a bundle, against what the usecase reaches.\<close>

definition type_keys :: "CatalogUsecase list \<Rightarrow> string set" where
  "type_keys us = set (concat (map (\<lambda>u. concat (map (\<lambda>b. case cbType b of None \<Rightarrow> [] | Some t \<Rightarrow> [tyXKey t]) (cuBundles u))) us))"

definition usecase_reach :: "CatalogState \<Rightarrow> string \<Rightarrow> string \<Rightarrow> bool" where
  "usecase_reach c x xk = (case types c xk of None \<Rightarrow> False | Some owner \<Rightarrow> owner \<in> set (catalog_closure c x))"

definition check_default :: "Options \<Rightarrow> CatalogState \<Rightarrow> (string \<Rightarrow> bool) \<Rightarrow> path \<Rightarrow> CatalogBundle \<Rightarrow> Problems" where
  "check_default opts c reach bp b = (case cbCollection b of None \<Rightarrow> []
     | Some t \<Rightarrow> (case map_of (coMeta t) ''defaultType'' of None \<Rightarrow> []
         | Some dt \<Rightarrow>
             let dp = bp @ [Key ''collection'', Key ''meta'', Key ''defaultType''] in
             (case dt of
                JvStr xk \<Rightarrow>
                  flag (\<not> (xk \<in> set (RootTypeIds opts) \<or> (reach xk \<and> xk \<in> type_keys (Usecases c)))) dp CodeBrokenLink
              | _ \<Rightarrow> [(dp, CodeBadField)])))"

definition declaredProperties :: "CatalogBundle \<Rightarrow> (PropertyDraft list \<times> string) option" where
  "declaredProperties b = (case cbType b of
     Some t \<Rightarrow> Some (tyProperties t, ''type'')
   | None \<Rightarrow> (case cbCollection b of Some t \<Rightarrow> Some (coProperties t, ''collection'') | None \<Rightarrow> None))"

definition check_targets :: "string set \<Rightarrow> (string \<Rightarrow> bool) \<Rightarrow> path \<Rightarrow> CatalogBundle \<Rightarrow> Problems" where
  "check_targets known reach bp b = (case declaredProperties b of None \<Rightarrow> []
     | Some (props, grp) \<Rightarrow>
         each (\<lambda>pi pr. each (\<lambda>ti target. flag (\<not> reach target \<and> target \<notin> known)
           (at_key (at_key (sub_key bp grp) ''properties'' pi @ [Key ''xFormat'', Key ''relation'']) ''targetTypes'' ti)
           CodeBrokenLink) (relationTargets (prXFormat pr))) props)"

definition check_links :: "Options \<Rightarrow> string set \<Rightarrow> CatalogState \<Rightarrow> Problems" where
  "check_links opts known c =
     each (\<lambda>ui u. if byId c (cuId u) = None then []
       else let reach = usecase_reach c (cuId u) in
         each (\<lambda>bi b. let bp = at_key [Key ''usecases'', Idx ui] ''bundles'' bi in
           check_default opts c reach bp b @ check_targets known reach bp b) (cuBundles u)) (Usecases c)"

definition known_ids :: "Options \<Rightarrow> string set" where
  "known_ids opts = {''any'', ''type'', ''collection''} \<union> set (KnownTypeIds opts)"

definition mark_superseded :: "string set \<Rightarrow> CatalogUsecase \<Rightarrow> CatalogUsecase" where
  "mark_superseded olds u = u\<lparr>cuBundles := map (\<lambda>b. b\<lparr>cbSuperseded := cbId b \<in> olds\<rparr>) (cuBundles u)\<rparr>"

definition declared_superseded :: "CatalogUsecase list \<Rightarrow> Problems" where
  "declared_superseded us =
     each (\<lambda>ui u. each (\<lambda>bi b. flag (cbSuperseded b)
       (at_key [Key ''usecases'', Idx ui] ''bundles'' bi @ [Key ''superseded'']) CodeBadField) (cuBundles u)) us"

definition unknown_requires :: "CatalogState \<Rightarrow> Problems" where
  "unknown_requires c =
     each (\<lambda>ui u. each (\<lambda>ri r. flag (byId c r = None) (at_key [Key ''usecases'', Idx ui] ''requires'' ri) CodeUnknownUsecase)
       (cuRequires u)) (Usecases c)"

definition validate :: "Options \<Rightarrow> CatalogUsecase list \<Rightarrow> CatalogState \<times> Problems" where
  "validate opts us0 =
     (let known = known_ids opts;
          edges = set (supersede_edges us0);
          us = map (mark_superseded (snd ` edges)) us0;
          st = fold (\<lambda>(ui, u). check_usecase opts known edges ui u) (enumerate 0 us)
            \<lparr>vProblems = flag (us0 = []) [Key ''usecases''] CodeMissing @ declared_superseded us0,
             vById = (\<lambda>_. None), vTypes = (\<lambda>_. None), vXkeys = (\<lambda>_. []), vBundleIds = (\<lambda>_. None)\<rparr>;
          c = \<lparr>Usecases = us, byId = vById st, types = vTypes st, superseded = snd ` edges\<rparr> in
      (c, vProblems st @ unknown_requires c @ findCycles c @ check_links opts known c))"

text \<open>
  \<open>decode\<close> and \<open>Load\<close>. \<open>parsed\<close> is what \<open>yaml.Unmarshal\<close> gives (nothing for an error), \<open>typed\<close> the
  \<open>json.Marshal\<close> and the typed decoding of it.
\<close>

definition decode :: "(yv \<Rightarrow> CatalogUsecase list option) \<Rightarrow> yv option \<Rightarrow> Problems + CatalogUsecase list" where
  "decode typed parsed = (case parsed of
     None \<Rightarrow> Inl [([], CodeBadYAML)]
   | Some YNull \<Rightarrow> Inl [([], CodeMissing)]
   | Some raw \<Rightarrow>
       (let problems = nonStringKeys [] raw @ unknownKeys [] raw (SStruct GDocument) in
        if problems \<noteq> [] then Inl problems
        else (case typed raw of None \<Rightarrow> Inl [([], CodeBadYAML)] | Some us \<Rightarrow> Inr us)))"

definition Load :: "(yv \<Rightarrow> CatalogUsecase list option) \<Rightarrow> yv option \<Rightarrow> Options \<Rightarrow> CatalogState option \<times> Problems" where
  "Load typed parsed opts = (case decode typed parsed of
     Inl ps \<Rightarrow> (None, ps)
   | Inr us \<Rightarrow> (case validate opts us of (c, ps) \<Rightarrow> (Some c, ps)))"

end
