(* ===== verification/CatalogOrder.thy ===== *)
theory CatalogOrder
  imports Catalog
begin

text \<open>
  The graph algorithms of the catalog: what the walk of \<open>Order\<close> adds, that \<open>findCycles\<close> reports nothing exactly when the
  requirements have no cycle, and that the union-find of \<open>groupSupersedes\<close> yields the connected components.
\<close>

section \<open>The walk of Order\<close>

definition adj_edges :: "('a \<Rightarrow> 'a list) \<Rightarrow> ('a \<times> 'a) set" where
  "adj_edges adj = {(x, y). y \<in> set (adj x)}"

definition topo :: "('a \<Rightarrow> 'a list) \<Rightarrow> 'a list \<Rightarrow> bool" where
  "topo adj out \<longleftrightarrow> (\<forall>i < length out. set (adj (out ! i)) \<subseteq> set (take i out))"

lemma adj_edges_iff [simp]: "(x, y) \<in> adj_edges adj \<longleftrightarrow> y \<in> set (adj x)"
  by (simp add: adj_edges_def)

lemma topo_Nil [simp]: "topo adj []"
  by (simp add: topo_def)

lemma topo_snoc [simp]: "topo adj (out @ [x]) \<longleftrightarrow> topo adj out \<and> set (adj x) \<subseteq> set out"
proof -
  have "(\<forall>i < Suc (length out). P i) \<longleftrightarrow> (\<forall>i < length out. P i) \<and> P (length out)" for P
    using less_Suc_eq by auto
  then show ?thesis by (auto simp: topo_def nth_append)
qed

text \<open>
  What a walk from \<open>xs\<close> does to the nodes seen and the nodes out: it appends the nodes \<open>new\<close>, each once, all of them
  reachable; it leaves no requirement of a new node unseen; and when no cycle runs through the nodes still open, it keeps the
  output in an order that puts a node after what it requires.
\<close>

definition walk_adds :: "('a \<Rightarrow> 'a list) \<Rightarrow> 'a set \<Rightarrow> 'a set \<Rightarrow> 'a list \<Rightarrow> 'a set \<Rightarrow> 'a list \<Rightarrow> bool" where
  "walk_adds adj xs seen out seen' new \<longleftrightarrow>
     seen' = seen \<union> set new \<and> distinct new \<and> set new \<inter> seen = {} \<and> xs \<subseteq> seen' \<and>
     set new \<subseteq> (adj_edges adj)\<^sup>* `` xs \<and> (\<forall>y \<in> set new. set (adj y) \<subseteq> seen') \<and>
     (acyclic (adj_edges adj) \<and> (\<forall>g \<in> seen - set out. \<forall>x \<in> xs. (g, x) \<in> (adj_edges adj)\<^sup>+) \<and> topo adj out
        \<longrightarrow> topo adj (out @ new))"

lemma walk_adds_empty: "walk_adds adj {} seen out seen []"
  by (simp add: walk_adds_def)

lemma walk_adds_trans:
  assumes "walk_adds adj {x} seen out seen1 new1" "walk_adds adj xs seen1 (out @ new1) seen2 new2"
  shows "walk_adds adj (insert x xs) seen out seen2 (new1 @ new2)"
proof -
  let ?E = "adj_edges adj"
  have 1: "seen1 = seen \<union> set new1" "distinct new1" "set new1 \<inter> seen = {}" "x \<in> seen1"
    "set new1 \<subseteq> ?E\<^sup>* `` {x}" "\<forall>y \<in> set new1. set (adj y) \<subseteq> seen1"
    and t1: "acyclic ?E \<and> (\<forall>g \<in> seen - set out. (g, x) \<in> ?E\<^sup>+) \<and> topo adj out \<longrightarrow> topo adj (out @ new1)"
    using assms(1) by (auto simp: walk_adds_def)
  have 2: "seen2 = seen1 \<union> set new2" "distinct new2" "set new2 \<inter> seen1 = {}" "xs \<subseteq> seen2"
    "set new2 \<subseteq> ?E\<^sup>* `` xs" "\<forall>y \<in> set new2. set (adj y) \<subseteq> seen2"
    and t2: "acyclic ?E \<and> (\<forall>g \<in> seen1 - set (out @ new1). \<forall>x \<in> xs. (g, x) \<in> ?E\<^sup>+) \<and> topo adj (out @ new1) \<longrightarrow>
      topo adj ((out @ new1) @ new2)"
    using assms(2) unfolding walk_adds_def by blast+
  have "set (new1 @ new2) \<subseteq> ?E\<^sup>* `` insert x xs" using 1(5) 2(5) by auto
  moreover have "\<forall>y \<in> set (new1 @ new2). set (adj y) \<subseteq> seen2" using 1(6) 2(1,6) by auto
  moreover have "topo adj (out @ new1 @ new2)"
    if "acyclic ?E" "\<forall>g \<in> seen - set out. \<forall>z \<in> insert x xs. (g, z) \<in> ?E\<^sup>+" "topo adj out"
  proof -
    have "topo adj (out @ new1)" using t1 that by simp
    moreover have "\<forall>g \<in> seen1 - set (out @ new1). \<forall>z \<in> xs. (g, z) \<in> ?E\<^sup>+" using that 1(1) by auto
    ultimately show ?thesis using t2 that(1) by simp
  qed
  ultimately show ?thesis using 1 2 unfolding walk_adds_def by auto
qed

lemma walk_fold:
  assumes one: "\<And>x seen out. x \<in> U \<Longrightarrow> seen \<subseteq> U \<Longrightarrow> card (U - seen) \<le> n \<Longrightarrow> set out \<subseteq> seen \<Longrightarrow>
      \<exists>seen' new. order_walk adj n x (seen, out) = (seen', out @ new) \<and> walk_adds adj {x} seen out seen' new"
    and U: "finite U" "\<And>x. x \<in> U \<Longrightarrow> set (adj x) \<subseteq> U"
  shows "set xs \<subseteq> U \<Longrightarrow> seen \<subseteq> U \<Longrightarrow> card (U - seen) \<le> n \<Longrightarrow> set out \<subseteq> seen \<Longrightarrow>
      \<exists>seen' new. fold (order_walk adj n) xs (seen, out) = (seen', out @ new) \<and> walk_adds adj (set xs) seen out seen' new"
proof (induction xs arbitrary: seen out)
  case Nil
  then show ?case using walk_adds_empty by fastforce
next
  case (Cons x xs)
  then obtain s1 n1 where 1: "order_walk adj n x (seen, out) = (s1, out @ n1)" "walk_adds adj {x} seen out s1 n1"
    using one[of x seen out] by auto
  have reach: "(adj_edges adj)\<^sup>* `` {x} \<subseteq> U"
  proof -
    have "y \<in> U" if "(x, y) \<in> (adj_edges adj)\<^sup>*" for y
      using that by (induction rule: rtrancl_induct) (use Cons.prems U in auto)
    then show ?thesis by auto
  qed
  have s1: "s1 \<subseteq> U" "seen \<subseteq> s1" "set (out @ n1) \<subseteq> s1"
    using 1(2) Cons.prems reach by (auto simp: walk_adds_def)
  have "card (U - s1) \<le> n"
    using card_mono[of "U - seen" "U - s1"] U s1 Cons.prems by (meson Diff_mono finite_Diff order_refl order_trans)
  from Cons.IH[OF _ s1(1) this s1(3)] Cons.prems obtain s2 n2 where
    2: "fold (order_walk adj n) xs (s1, out @ n1) = (s2, (out @ n1) @ n2)" "walk_adds adj (set xs) s1 (out @ n1) s2 n2" by auto
  then show ?case using 1 walk_adds_trans[OF 1(2) 2(2)] by auto
qed

lemma order_walk_adds:
  assumes U: "finite U" "\<And>x. x \<in> U \<Longrightarrow> set (adj x) \<subseteq> U"
  shows "x \<in> U \<Longrightarrow> seen \<subseteq> U \<Longrightarrow> card (U - seen) \<le> n \<Longrightarrow> set out \<subseteq> seen \<Longrightarrow>
      \<exists>seen' new. order_walk adj n x (seen, out) = (seen', out @ new) \<and> walk_adds adj {x} seen out seen' new"
proof (induction n arbitrary: x seen out)
  case 0
  then have "x \<in> seen" using U by (auto simp: card_eq_0_iff)
  then have "walk_adds adj {x} seen out seen []" by (auto simp: walk_adds_def)
  then show ?case by auto
next
  case (Suc n)
  show ?case
  proof (cases "x \<in> seen")
    case True
    then have "walk_adds adj {x} seen out seen []" by (auto simp: walk_adds_def)
    then show ?thesis using True by auto
  next
    case False
    let ?E = "adj_edges adj"
    have "card (U - insert x seen) \<le> n"
      using Suc.prems False by (metis DiffI Diff_insert Diff_insert2 Suc_le_mono U(1) card.remove finite_Diff)
    moreover have "set (adj x) \<subseteq> U" "insert x seen \<subseteq> U" "set out \<subseteq> insert x seen" using Suc.prems U by auto
    ultimately obtain s1 new where f: "fold (order_walk adj n) (adj x) (insert x seen, out) = (s1, out @ new)"
      and w: "walk_adds adj (set (adj x)) (insert x seen) out s1 new"
      using walk_fold[of U n adj "adj x" "insert x seen" out] Suc.IH U by blast
    have w': "s1 = insert x seen \<union> set new" "distinct new" "set new \<inter> insert x seen = {}" "set (adj x) \<subseteq> s1"
      "set new \<subseteq> ?E\<^sup>* `` set (adj x)" "\<forall>y \<in> set new. set (adj y) \<subseteq> s1"
      and t: "acyclic ?E \<and> (\<forall>g \<in> insert x seen - set out. \<forall>z \<in> set (adj x). (g, z) \<in> ?E\<^sup>+) \<and> topo adj out \<longrightarrow> topo adj (out @ new)"
      using w unfolding walk_adds_def by blast+
    have "set (new @ [x]) \<subseteq> ?E\<^sup>* `` {x}"
    proof -
      have "(x, y) \<in> ?E\<^sup>*" if "z \<in> set (adj x)" "(z, y) \<in> ?E\<^sup>*" for y z
        using converse_rtrancl_into_rtrancl[of x z ?E y] that by simp
      then show ?thesis using w'(5) by auto
    qed
    moreover have "topo adj (out @ new @ [x])"
      if a: "acyclic ?E" "\<forall>g \<in> seen - set out. (g, x) \<in> ?E\<^sup>+" "topo adj out"
    proof -
      have "\<forall>g \<in> insert x seen - set out. \<forall>z \<in> set (adj x). (g, z) \<in> ?E\<^sup>+"
        using a(2) by (auto intro: trancl_into_trancl)
      then have "topo adj (out @ new)" using t a by blast
      moreover have "set (adj x) \<subseteq> set (out @ new)"
      proof
        fix z assume z: "z \<in> set (adj x)"
        show "z \<in> set (out @ new)"
        proof (rule ccontr)
          assume "z \<notin> set (out @ new)"
          then have "z = x \<or> z \<in> seen - set out" using z w'(1,4) by auto
          then have "(x, x) \<in> ?E\<^sup>+" using z a(2) by (auto intro: trancl_into_trancl2)
          then show False using a(1) by (simp add: acyclic_def)
        qed
      qed
      ultimately show ?thesis by (simp flip: append_assoc)
    qed
    ultimately have "walk_adds adj {x} seen out s1 (new @ [x])"
      using w' False Suc.prems unfolding walk_adds_def by auto
    then show ?thesis using f False by auto
  qed
qed

lemma order_walk_last:
  assumes "x \<notin> seen" "order_walk adj (Suc n) x (seen, out) = (seen', out')"
  shows "last out' = x \<and> out' \<noteq> []"
  using assms by (auto simp: Let_def)

lemma closure_walk_sees:
  "fst (order_walk adj n x (set out, out')) = set (closure_walk adj n x out)"
proof (induction n arbitrary: x out out')
  case (Suc n)
  have "fst (fold (order_walk adj n) xs (set out, out')) = set (fold (closure_walk adj n) xs out)" for xs out out'
  proof (induction xs arbitrary: out out')
    case (Cons y ys)
    obtain s o' where so: "order_walk adj n y (set out, out') = (s, o')" by fastforce
    then have "s = set (closure_walk adj n y out)" using Suc.IH[of y out out'] by simp
    then show ?case using so Cons.IH by simp
  qed simp
  from this[of "adj x" "out @ [x]" out'] show ?case by (auto simp: Let_def)
qed simp

lemma walk_from_nothing:
  assumes U: "finite U" "\<And>x. x \<in> U \<Longrightarrow> set (adj x) \<subseteq> U" and x: "x \<in> U" "card U \<le> n"
  shows "\<exists>new. order_walk adj n x ({}, []) = (set new, new) \<and> distinct new \<and> set new = (adj_edges adj)\<^sup>* `` {x} \<and>
    (acyclic (adj_edges adj) \<longrightarrow> topo adj new)"
proof -
  obtain new where w: "order_walk adj n x ({}, []) = (set new, new)" "distinct new" "x \<in> set new"
    "set new \<subseteq> (adj_edges adj)\<^sup>* `` {x}" "\<forall>y \<in> set new. set (adj y) \<subseteq> set new"
    "acyclic (adj_edges adj) \<longrightarrow> topo adj new"
    using order_walk_adds[of U adj x "{}" n "[]"] assms by (auto simp: walk_adds_def)
  have "y \<in> set new" if "(x, y) \<in> (adj_edges adj)\<^sup>*" for y
    using that by (induction rule: rtrancl_induct) (use w in auto)
  then show ?thesis using w by blast
qed

section \<open>Cycles\<close>

definition cycle_adj :: "CatalogState \<Rightarrow> string \<Rightarrow> string list" where
  "cycle_adj c x = filter (\<lambda>r. byId c r \<noteq> None) (cuRequires (usecase_at c x))"

definition step_cycle :: "CatalogState \<Rightarrow> nat \<Rightarrow> path \<Rightarrow> string \<Rightarrow> cycleState \<Rightarrow> cycleState" where
  "step_cycle c n p r st =
     (if byId c r = None then st
      else if r \<in> set (grey st) then cycle_found p r st
      else if r \<in> black st then st
      else visit c n r st)"

lemma visit_Suc:
  "visit c (Suc n) x st =
     (let p = [Key ''usecases'', Idx (case byId c x of Some i \<Rightarrow> i | None \<Rightarrow> 0), Key ''requires''];
          st' = fold (step_cycle c n p) (cuRequires (usecase_at c x)) (st\<lparr>grey := x # grey st\<rparr>) in
      st'\<lparr>grey := tl (grey st'), black := insert x (black st')\<rparr>)"
  by (simp add: step_cycle_def[abs_def])

lemma cycle_found_simps [simp]:
  "grey (cycle_found p r st) = grey st" "black (cycle_found p r st) = black st"
  by (simp_all add: cycle_found_def Let_def)

text \<open>Without a cycle nothing is reported.\<close>

lemma visit_acyclic:
  assumes "acyclic (adj_edges (cycle_adj c))"
  shows "\<forall>g \<in> set (grey st). (g, x) \<in> (adj_edges (cycle_adj c))\<^sup>+ \<Longrightarrow>
    grey (visit c n x st) = grey st \<and> cycleProblems (visit c n x st) = cycleProblems st"
proof (induction n arbitrary: x st)
  case (Suc n)
  let ?E = "adj_edges (cycle_adj c)"
  have step: "grey (step_cycle c n p r st) = grey st \<and> cycleProblems (step_cycle c n p r st) = cycleProblems st"
    if r: "r \<in> set (cuRequires (usecase_at c x))" and g: "\<forall>g \<in> set (grey st). (g, x) \<in> ?E\<^sup>*" for p r st
  proof (cases "byId c r = None")
    case False
    then have e: "(x, r) \<in> ?E" using r by (simp add: cycle_adj_def)
    then have gr: "\<forall>g \<in> set (grey st). (g, r) \<in> ?E\<^sup>+" using g by (meson rtrancl_into_trancl1)
    then have "r \<notin> set (grey st)" using assms by (auto simp: acyclic_def)
    then show ?thesis using Suc.IH[OF gr] by (simp add: step_cycle_def)
  qed (simp add: step_cycle_def)
  have fold: "grey (fold (step_cycle c n p) rs st) = grey st \<and> cycleProblems (fold (step_cycle c n p) rs st) = cycleProblems st"
    if "set rs \<subseteq> set (cuRequires (usecase_at c x))" "\<forall>g \<in> set (grey st). (g, x) \<in> ?E\<^sup>*" for p rs st
    using that by (induction rs arbitrary: st) (auto simp: step)
  have "\<forall>g \<in> set (grey (st\<lparr>grey := x # grey st\<rparr>)). (g, x) \<in> ?E\<^sup>*" using Suc.prems by (auto intro: trancl_into_rtrancl)
  from fold[OF order_refl this] show ?case by (simp add: visit_Suc Let_def del: visit.simps)
qed simp

text \<open>
  What a visit leaves: the colours closed off, and, as long as nothing was reported, the black ids in an order in which
  each follows what it requires.
\<close>

definition cycle_inv :: "CatalogState \<Rightarrow> cycleState \<Rightarrow> bool" where
  "cycle_inv c st \<longleftrightarrow> black st \<subseteq> dom (byId c) \<and> set (grey st) \<inter> black st = {} \<and>
     (cycleProblems st = [] \<longrightarrow> reported st = [] \<and> (\<exists>bl. set bl = black st \<and> topo (cycle_adj c) bl))"

definition cycle_step :: "cycleState \<Rightarrow> cycleState \<Rightarrow> bool" where
  "cycle_step st st' \<longleftrightarrow> grey st' = grey st \<and> black st \<subseteq> black st' \<and> (cycleProblems st' = [] \<longrightarrow> cycleProblems st = [])"

lemma cycle_step_refl [simp]: "cycle_step st st"
  by (simp add: cycle_step_def)

lemma cycle_step_trans: "cycle_step a b \<Longrightarrow> cycle_step b d \<Longrightarrow> cycle_step a d"
  by (auto simp: cycle_step_def)

lemma cycle_found_step:
  assumes "cycle_inv c st" "r \<in> set (grey st)"
  shows "cycle_inv c (cycle_found p r st) \<and> cycle_step st (cycle_found p r st) \<and> cycleProblems (cycle_found p r st) \<noteq> []"
  using assms by (auto simp: cycle_found_def cycle_inv_def cycle_step_def Let_def)

lemma visit_step:
  assumes fin: "finite (dom (byId c))"
  shows "x \<in> dom (byId c) \<Longrightarrow> x \<notin> set (grey st) \<union> black st \<Longrightarrow> cycle_inv c st \<Longrightarrow>
    card (dom (byId c) - (set (grey st) \<union> black st)) \<le> n \<Longrightarrow>
    cycle_inv c (visit c n x st) \<and> cycle_step st (visit c n x st) \<and> x \<in> black (visit c n x st)"
proof (induction n arbitrary: x st)
  case 0
  then have "dom (byId c) \<subseteq> set (grey st) \<union> black st" using fin by (simp add: card_eq_0_iff)
  then show ?case using 0 by blast
next
  case (Suc n)
  let ?rest = "\<lambda>st. card (dom (byId c) - (set (grey st) \<union> black st))"
  have mono: "?rest st' \<le> ?rest st" if "cycle_step st st'" for st st' :: cycleState
    using that fin by (intro card_mono) (auto simp: cycle_step_def)
  have step: "cycle_inv c (step_cycle c n p r st) \<and> cycle_step st (step_cycle c n p r st) \<and>
      (cycleProblems (step_cycle c n p r st) = [] \<and> byId c r \<noteq> None \<longrightarrow> r \<in> black (step_cycle c n p r st))"
    if "cycle_inv c st" "?rest st \<le> n" for p r st
  proof -
    consider "byId c r = None" | "byId c r \<noteq> None" "r \<in> set (grey st)" | "byId c r \<noteq> None" "r \<notin> set (grey st)" "r \<in> black st"
      | "byId c r \<noteq> None" "r \<notin> set (grey st)" "r \<notin> black st" by blast
    then show ?thesis
    proof cases
      case 2 then show ?thesis using cycle_found_step[OF that(1), of r p] by (auto simp: step_cycle_def)
    next
      case 4 then show ?thesis using Suc.IH[of r st] that by (auto simp: step_cycle_def dom_def)
    qed (use that in \<open>simp_all add: step_cycle_def\<close>)
  qed
  have fold: "cycle_inv c (fold (step_cycle c n p) rs st) \<and> cycle_step st (fold (step_cycle c n p) rs st) \<and>
      (cycleProblems (fold (step_cycle c n p) rs st) = [] \<longrightarrow>
        {r \<in> set rs. byId c r \<noteq> None} \<subseteq> black (fold (step_cycle c n p) rs st))"
    if "cycle_inv c st" "?rest st \<le> n" for p rs st
    using that
  proof (induction rs arbitrary: st)
    case (Cons r rs)
    let ?s = "step_cycle c n p r st"
    note a = step[OF Cons.prems, of p r]
    then have "?rest ?s \<le> n" using mono[of st ?s] Cons.prems(2) by linarith
    with Cons.IH[of ?s] a have b: "cycle_inv c (fold (step_cycle c n p) rs ?s)" "cycle_step ?s (fold (step_cycle c n p) rs ?s)"
      "cycleProblems (fold (step_cycle c n p) rs ?s) = [] \<longrightarrow>
        {r \<in> set rs. byId c r \<noteq> None} \<subseteq> black (fold (step_cycle c n p) rs ?s)" by auto
    show ?case using a b cycle_step_trans[of st ?s] by (auto simp: cycle_step_def)
  qed simp
  let ?p = "[Key ''usecases'', Idx (case byId c x of Some i \<Rightarrow> i | None \<Rightarrow> 0), Key ''requires'']"
  let ?start = "st\<lparr>grey := x # grey st\<rparr>"
  let ?st = "fold (step_cycle c n ?p) (cuRequires (usecase_at c x)) ?start"
  have inv0: "cycle_inv c ?start" using Suc.prems by (auto simp: cycle_inv_def)
  have "dom (byId c) - (set (grey ?start) \<union> black ?start) = dom (byId c) - (set (grey st) \<union> black st) - {x}" by auto
  then have "?rest ?start \<le> n" using Suc.prems fin by (simp add: card_Diff_singleton_if)
  from fold[OF inv0 this, of ?p "cuRequires (usecase_at c x)"]
  have f: "cycle_inv c ?st" "cycle_step ?start ?st"
    "cycleProblems ?st = [] \<longrightarrow> {r \<in> set (cuRequires (usecase_at c x)). byId c r \<noteq> None} \<subseteq> black ?st" by auto
  have grey: "grey ?st = x # grey st" using f(2) by (simp add: cycle_step_def)
  let ?st' = "?st\<lparr>grey := tl (grey ?st), black := insert x (black ?st)\<rparr>"
  have "\<exists>bl. set bl = insert x (black ?st) \<and> topo (cycle_adj c) bl" if "cycleProblems ?st = []"
  proof -
    obtain bl where bl: "set bl = black ?st" "topo (cycle_adj c) bl" using f(1) \<open>cycleProblems ?st = []\<close> by (auto simp: cycle_inv_def)
    have "set (cycle_adj c x) \<subseteq> set bl" using f(3) \<open>cycleProblems ?st = []\<close> bl(1) by (auto simp: cycle_adj_def)
    then have "topo (cycle_adj c) (bl @ [x])" using bl(2) by simp
    moreover have "set (bl @ [x]) = insert x (black ?st)" using bl(1) by simp
    ultimately show ?thesis by blast
  qed
  then have "cycle_inv c ?st'" using f(1) grey Suc.prems by (auto simp: cycle_inv_def)
  moreover have "cycle_step st ?st'" using f(2) by (auto simp: cycle_step_def)
  moreover have "visit c (Suc n) x st = ?st'" by (simp add: visit_Suc Let_def del: visit.simps)
  ultimately show ?case by simp
qed

lemma topo_rank:
  assumes "topo adj bl"
  shows "\<exists>rank :: 'a \<Rightarrow> nat. \<forall>x \<in> set bl. \<forall>y \<in> set (adj x). y \<in> set bl \<and> rank y < rank x"
proof (intro exI ballI)
  fix x y assume x: "x \<in> set bl" and y: "y \<in> set (adj x)"
  let ?r = "\<lambda>x. LEAST i. i < length bl \<and> bl ! i = x"
  obtain i where i: "i < length bl" "bl ! i = x" "?r x = i"
    using LeastI_ex[of "\<lambda>i. i < length bl \<and> bl ! i = x"] x by (auto simp: in_set_conv_nth)
  then have "y \<in> set (take i bl)" using assms y by (auto simp: topo_def)
  then obtain j where j: "j < i" "bl ! j = y" "j < length bl" by (auto simp: in_set_conv_nth)
  then have "?r y \<le> j" by (intro Least_le) auto
  then show "y \<in> set bl \<and> ?r y < ?r x" using j i by auto
qed

lemma topo_acyclic:
  assumes "topo adj bl" "\<And>x y. y \<in> set (adj x) \<Longrightarrow> y \<in> set bl"
  shows "acyclic (adj_edges adj)"
proof -
  obtain rank :: "'a \<Rightarrow> nat" where rank: "\<forall>x \<in> set bl. \<forall>y \<in> set (adj x). y \<in> set bl \<and> rank y < rank x"
    using topo_rank[OF assms(1)] by blast
  have "x \<in> set bl \<longrightarrow> rank y < rank x \<and> y \<in> set bl" if "(x, y) \<in> (adj_edges adj)\<^sup>+" for x y
    using that by (induction rule: trancl_induct) (use rank in force)+
  moreover have "y \<in> set bl" if "(x, y) \<in> (adj_edges adj)\<^sup>+" for x y
    using that by (induction rule: trancl_induct) (use assms(2) in auto)
  ultimately show ?thesis by (auto simp: acyclic_def)
qed

definition cycle_start :: "CatalogState \<Rightarrow> CatalogUsecase \<Rightarrow> cycleState \<Rightarrow> cycleState" where
  "cycle_start c u st = (if byId c (cuId u) \<noteq> None \<and> cuId u \<notin> set (grey st) \<and> cuId u \<notin> black st
     then visit c (length (Usecases c)) (cuId u) st else st)"

lemma findCycles_eq:
  "findCycles c = cycleProblems (fold (cycle_start c) (Usecases c) \<lparr>grey = [], black = {}, reported = [], cycleProblems = []\<rparr>)"
  by (simp add: findCycles_def cycle_start_def[abs_def])

lemma no_cycle_no_report:
  assumes "acyclic (adj_edges (cycle_adj c))"
  shows "findCycles c = []"
proof -
  have "cycleProblems (fold (cycle_start c) us st) = cycleProblems st" if "grey st = []" for us st
    using that
  proof (induction us arbitrary: st)
    case (Cons u us)
    have "grey (cycle_start c u st) = [] \<and> cycleProblems (cycle_start c u st) = cycleProblems st"
      using visit_acyclic[OF assms, of st "cuId u"] Cons.prems by (simp add: cycle_start_def)
    then show ?case using Cons.IH by simp
  qed simp
  then show ?thesis by (simp add: findCycles_eq)
qed

lemma no_report_acyclic:
  assumes ids: "dom (byId c) = cuId ` set (Usecases c)" and clean: "findCycles c = []"
  shows "acyclic (adj_edges (cycle_adj c))"
proof -
  have fin: "finite (dom (byId c))" using ids by simp
  have card: "card (dom (byId c) - (set (grey st) \<union> black st)) \<le> length (Usecases c)" for st
    by (metis Diff_subset card_image_le card_length card_mono dual_order.trans fin finite_set ids)
  have "cycle_inv c (fold (cycle_start c) us st) \<and> cycle_step st (fold (cycle_start c) us st) \<and>
      cuId ` set us \<subseteq> black (fold (cycle_start c) us st)"
    if "grey st = []" "cycle_inv c st" "cuId ` set us \<subseteq> dom (byId c)" for us st
    using that
  proof (induction us arbitrary: st)
    case (Cons u us)
    let ?s = "cycle_start c u st"
    have a: "cycle_inv c ?s \<and> cycle_step st ?s \<and> cuId u \<in> black ?s"
    proof (cases "cuId u \<in> black st")
      case False
      moreover have "cuId u \<in> dom (byId c)" "cuId u \<notin> set (grey st) \<union> black st" using False Cons.prems by auto
      ultimately show ?thesis using visit_step[OF fin _ _ Cons.prems(2) card] Cons.prems(1) by (auto simp: cycle_start_def)
    qed (use Cons.prems in \<open>simp add: cycle_start_def\<close>)
    then have "grey ?s = []" using Cons.prems by (simp add: cycle_step_def)
    with Cons.IH[of ?s] a Cons.prems have b: "cycle_inv c (fold (cycle_start c) us ?s)" "cycle_step ?s (fold (cycle_start c) us ?s)"
      "cuId ` set us \<subseteq> black (fold (cycle_start c) us ?s)" by auto
    moreover have "cuId u \<in> black (fold (cycle_start c) us ?s)" using a b(2) by (auto simp: cycle_step_def)
    ultimately show ?case using a cycle_step_trans[of st ?s] by auto
  qed simp
  moreover have "cycle_inv c \<lparr>grey = [], black = {}, reported = [], cycleProblems = []\<rparr>"
    by (auto simp: cycle_inv_def intro: exI[of _ "[]"])
  ultimately have f: "cycle_inv c (fold (cycle_start c) (Usecases c) \<lparr>grey = [], black = {}, reported = [], cycleProblems = []\<rparr>)"
    "cuId ` set (Usecases c) \<subseteq> black (fold (cycle_start c) (Usecases c) \<lparr>grey = [], black = {}, reported = [], cycleProblems = []\<rparr>)"
    using ids by simp_all
  then obtain bl where bl: "set bl = dom (byId c)" "topo (cycle_adj c) bl"
    using clean ids by (auto simp: cycle_inv_def findCycles_eq)
  then show ?thesis using topo_acyclic[OF bl(2)] by (auto simp: cycle_adj_def)
qed

section \<open>Supersede groups\<close>

text \<open>The bundles the edges connect, in either direction.\<close>

definition conn :: "(string \<times> string) set \<Rightarrow> (string \<times> string) set" where
  "conn E = (E \<union> E\<inverse>)\<^sup>*"

lemma conn_sym: "(x, y) \<in> conn E \<Longrightarrow> (y, x) \<in> conn E"
  unfolding conn_def by (metis converse_Un converse_converse rtrancl_converse converse_iff Un_commute)

lemma conn_trans: "(x, y) \<in> conn E \<Longrightarrow> (y, z) \<in> conn E \<Longrightarrow> (x, z) \<in> conn E"
  unfolding conn_def by (rule rtrancl_trans)

lemma conn_mono: "E \<subseteq> F \<Longrightarrow> conn E \<subseteq> conn F"
  unfolding conn_def by (intro rtrancl_mono) auto

lemma conn_edge: "(x, y) \<in> E \<Longrightarrow> (x, y) \<in> conn E"
  unfolding conn_def by auto

text \<open>
  The invariant of the union-find: \<open>f\<close> gives each id its representative (an id without a parent is its own), \<open>d\<close>
  decreases from an id to its parent, so the chains end.
\<close>

definition uf_inv :: "(string \<Rightarrow> string option) \<Rightarrow> (string \<Rightarrow> string) \<Rightarrow> (string \<Rightarrow> nat) \<Rightarrow> bool" where
  "uf_inv P f d \<longleftrightarrow>
     (\<forall>x p. P x = Some p \<longrightarrow> P p \<noteq> None \<and> f p = f x \<and> (p \<noteq> x \<longrightarrow> d p < d x)) \<and>
     (\<forall>x. P x \<noteq> None \<longrightarrow> P (f x) = Some (f x)) \<and> (\<forall>x. P x = None \<or> P x = Some x \<longrightarrow> f x = x)"

lemma uf_inv_parent: "uf_inv P f d \<Longrightarrow> P x = Some p \<Longrightarrow> P p \<noteq> None \<and> f p = f x \<and> (p \<noteq> x \<longrightarrow> d p < d x)"
  unfolding uf_inv_def by blast

lemma uf_inv_rep: "uf_inv P f d \<Longrightarrow> P x \<noteq> None \<Longrightarrow> P (f x) = Some (f x)"
  unfolding uf_inv_def by blast

lemma uf_inv_own: "uf_inv P f d \<Longrightarrow> P x = None \<or> P x = Some x \<Longrightarrow> f x = x"
  unfolding uf_inv_def by blast

lemma uf_inv_le:
  assumes "uf_inv P f d"
  shows "P x \<noteq> None \<Longrightarrow> d (f x) \<le> d x \<and> (f x \<noteq> x \<longrightarrow> d (f x) < d x)"
proof (induction "d x" arbitrary: x rule: less_induct)
  case less
  obtain p where p: "P x = Some p" using less.prems by auto
  then have q: "P p \<noteq> None" "f p = f x" "p \<noteq> x \<longrightarrow> d p < d x" using uf_inv_parent[OF assms p] by auto
  show ?case
  proof (cases "p = x")
    case True
    then show ?thesis using p uf_inv_own[OF assms, of x] by simp
  next
    case False
    then show ?thesis using less.hyps[of p] q by auto
  qed
qed

lemma uf_inv_upd:
  assumes "uf_inv P f d" "f p = f x" "P p = Some p \<or> p = x" "p \<noteq> x \<Longrightarrow> d p < d x" "f x = p"
  shows "uf_inv (P(x \<mapsto> p)) f d"
proof -
  note P = uf_inv_parent[OF assms(1)] and Q = uf_inv_rep[OF assms(1)] uf_inv_own[OF assms(1)]
  show ?thesis
    unfolding uf_inv_def
  proof (intro conjI allI impI)
    fix y q assume "(P(x \<mapsto> p)) y = Some q"
    then consider "y = x" "q = p" | "y \<noteq> x" "P y = Some q" by (auto split: if_splits)
    then show "(P(x \<mapsto> p)) q \<noteq> None" "f q = f y" "q \<noteq> y \<Longrightarrow> d q < d y"
      by (cases; use P[of y q] assms(2-5) in auto)+
  next
    fix y assume "(P(x \<mapsto> p)) y \<noteq> None"
    then show "(P(x \<mapsto> p)) (f y) = Some (f y)" using Q(1)[of y] Q(2)[of "f y"] assms(2-5) by (cases "y = x") auto
  next
    fix y assume "(P(x \<mapsto> p)) y = None \<or> (P(x \<mapsto> p)) y = Some y"
    then show "f y = y" using Q(2)[of y] assms(2-5) by (auto split: if_splits)
  qed
qed

lemma uf_find_inv:
  assumes "uf_inv P f d"
  shows "\<exists>P'. uf_find P x = Some (f x, P') \<and> uf_inv P' f d \<and> dom P' = insert x (dom P)"
  using assms
proof (induction "d x" arbitrary: x P rule: less_induct)
  case less
  note inv = less.prems
  consider "P x = None" | "P x = Some x" | p where "P x = Some p" "p \<noteq> x" by fastforce
  then show ?case
  proof cases
    case 1
    have fx: "f x = x" using uf_inv_own[OF inv] 1 by simp
    have "uf_inv (P(x \<mapsto> x)) f d" by (rule uf_inv_upd[OF inv]) (use fx in auto)
    moreover note fx
    ultimately show ?thesis using 1 by (simp add: uf_find.simps)
  next
    case 2
    then show ?thesis using inv uf_inv_own[OF inv, of x] by (auto simp: uf_find.simps insert_absorb dom_def)
  next
    case 3
    then have p: "d p < d x" "f p = f x" "P p \<noteq> None" using uf_inv_parent[OF inv] by auto
    from less.hyps[OF p(1) inv] p obtain P' where P': "uf_find P p = Some (f x, P')" "uf_inv P' f d" "dom P' = dom P"
      by (auto simp: insert_absorb dom_def)
    have x: "P' x \<noteq> None" using P'(3) 3 by (auto simp: dom_def)
    have r: "P' (f x) = Some (f x)" using uf_inv_rep[OF P'(2) x] .
    have le: "f x \<noteq> x \<longrightarrow> d (f x) < d x" using uf_inv_le[OF P'(2) x] by simp
    have "f (f x) = f x" using uf_inv_own[OF P'(2)] r by simp
    then have "uf_inv (P'(x \<mapsto> f x)) f d" by (intro uf_inv_upd[OF P'(2), of "f x" x]) (use r le in auto)
    then show ?thesis using 3 P' x by (auto simp: uf_find.simps insert_absorb dom_def)
  qed
qed

definition uf_classes :: "(string \<Rightarrow> string option) \<Rightarrow> (string \<Rightarrow> string) \<Rightarrow> (string \<times> string) set \<Rightarrow> bool" where
  "uf_classes P f E \<longleftrightarrow> (\<exists>d. uf_inv P f d) \<and> dom P = Field E \<and> (\<forall>x y. f x = f y \<longleftrightarrow> (x, y) \<in> conn E)"

lemma uf_classes_empty: "uf_classes (\<lambda>_. None) (\<lambda>x. x) {}"
  by (auto simp: uf_classes_def uf_inv_def conn_def)

lemma uf_union_classes:
  assumes "uf_classes P f E"
  shows "\<exists>P' f'. uf_union e P = Some P' \<and> uf_classes P' f' (insert e E)"
proof -
  obtain n old where e: "e = (n, old)" by fastforce
  obtain d where inv: "uf_inv P f d" and cl: "\<And>x y. f x = f y \<longleftrightarrow> (x, y) \<in> conn E" and dom: "dom P = Field E"
    using assms by (auto simp: uf_classes_def)
  obtain P1 where P1: "uf_find P old = Some (f old, P1)" "uf_inv P1 f d" "dom P1 = insert old (dom P)"
    using uf_find_inv[OF inv] by blast
  obtain P2 where P2: "uf_find P1 n = Some (f n, P2)" "uf_inv P2 f d" "dom P2 = insert n (insert old (dom P))"
    using uf_find_inv[OF P1(2), of n] P1(3) by auto
  let ?P = "P2(f old \<mapsto> f n)" and ?f = "\<lambda>y. if f y = f old then f n else f y"
  let ?d = "\<lambda>y. if f y = f old then d y + d (f n) + 1 else d y"
  have r: "P2 (f old) = Some (f old)" "P2 (f n) = Some (f n)" "f (f old) = f old" "f (f n) = f n"
    using uf_inv_rep[OF P2(2), of old] uf_inv_rep[OF P2(2), of n] uf_inv_own[OF P2(2)] P2(3) by blast+
  note P = uf_inv_parent[OF P2(2)] and Q = uf_inv_rep[OF P2(2)] uf_inv_own[OF P2(2)]
  have "uf_inv ?P ?f ?d"
    unfolding uf_inv_def
  proof (intro conjI allI impI)
    fix x p assume "?P x = Some p"
    then consider "x = f old" "p = f n" | "x \<noteq> f old" "P2 x = Some p" by (auto split: if_splits)
    then have "?P p \<noteq> None \<and> ?f p = ?f x \<and> (p \<noteq> x \<longrightarrow> ?d p < ?d x)"
    proof cases
      case 1
      then show ?thesis using r by auto
    next
      case 2
      then show ?thesis using P[OF 2(2)] by auto
    qed
    then show "?P p \<noteq> None" "?f p = ?f x" "p \<noteq> x \<Longrightarrow> ?d p < ?d x" by blast+
  next
    fix x assume "?P x \<noteq> None"
    then show "?P (?f x) = Some (?f x)" using Q(1)[of x] r by (auto split: if_splits)
  next
    fix x assume "?P x = None \<or> ?P x = Some x"
    then show "?f x = x" using Q(2)[of x] r by (auto split: if_splits)
  qed
  moreover have "dom ?P = Field (insert e E)"
    using P2(3) r dom by (auto simp: e Field_def dom_def)
  moreover have "?f x = ?f y \<longleftrightarrow> (x, y) \<in> conn (insert e E)" for x y
  proof
    assume "(x, y) \<in> conn (insert e E)"
    then show "?f x = ?f y"
      unfolding conn_def
    proof (induction rule: rtrancl_induct)
      case (step y z)
      then consider "(y, z) = (n, old) \<or> (z, y) = (n, old)" | "(y, z) \<in> E \<or> (z, y) \<in> E" by (auto simp: e)
      then have "?f y = ?f z"
      proof cases
        case 2
        then have "f y = f z" using cl conn_edge conn_sym by blast
        then show ?thesis by simp
      qed auto
      then show ?case using step by simp
    qed simp
  next
    have up: "f u = f v \<Longrightarrow> (u, v) \<in> conn (insert e E)" for u v
      using cl conn_mono[of E "insert e E"] by blast
    have no: "(n, old) \<in> conn (insert e E)" "(old, n) \<in> conn (insert e E)"
      using conn_edge[of n old "insert e E"] conn_sym by (auto simp: e)
    assume "?f x = ?f y"
    then consider "f x = f y" | "f x = f old" "f y = f n" | "f x = f n" "f y = f old" by (auto split: if_splits)
    then show "(x, y) \<in> conn (insert e E)"
      by cases (use up no conn_trans in \<open>metis\<close>)+
  qed
  ultimately have "uf_classes ?P ?f (insert e E)" unfolding uf_classes_def by blast
  then show ?thesis using P1 P2 by (auto simp: uf_union_def e)
qed

lemma uf_unions_classes:
  "uf_classes P f E \<Longrightarrow> \<exists>P' f'. uf_unions es P = Some P' \<and> uf_classes P' f' (set es \<union> E)"
proof (induction es arbitrary: P f E)
  case (Cons e es)
  obtain P' f' where 1: "uf_union e P = Some P'" "uf_classes P' f' (insert e E)" using uf_union_classes[OF Cons.prems] by blast
  from Cons.IH[OF 1(2)] 1(1) show ?case by auto
qed auto

text \<open>The groups after the bundles \<open>xs\<close>.\<close>

definition groups_after :: "(string \<Rightarrow> string) \<Rightarrow> string set \<Rightarrow> string set \<Rightarrow> string list \<Rightarrow> groupState \<Rightarrow> bool" where
  "groups_after f L olds xs st \<longleftrightarrow>
     (\<exists>d. uf_inv (uf st) f d) \<and> dom (uf st) = L \<and>
     (\<forall>r. byRoot st r = (if \<exists>x \<in> set xs. x \<in> L \<and> f x = r
        then Some \<lparr>Old = filter (\<lambda>x. x \<in> L \<and> f x = r \<and> x \<in> olds) xs, New = filter (\<lambda>x. x \<in> L \<and> f x = r \<and> x \<notin> olds) xs\<rparr>
        else None)) \<and>
     (\<forall>x. groupOf st x = (if x \<in> set xs \<and> x \<in> L then Some (f x) else None))"

lemma group_bundle_after:
  assumes "groups_after f L olds xs st"
  shows "\<exists>st'. group_bundle olds x st = Some st' \<and> groups_after f L olds (xs @ [x]) st'"
proof (cases "uf st x = None")
  case True
  then have "x \<notin> L" using assms by (auto simp: groups_after_def)
  then show ?thesis using True assms by (auto simp: group_bundle_def groups_after_def)
next
  case False
  obtain d where d: "uf_inv (uf st) f d" using assms by (auto simp: groups_after_def)
  have x: "x \<in> L" using assms False by (auto simp: groups_after_def)
  from uf_find_inv[OF d, of x] x assms obtain P' where
    P': "uf_find (uf st) x = Some (f x, P')" "uf_inv P' f d" "dom P' = L"
    by (auto simp: groups_after_def insert_absorb)
  let ?sel = "\<lambda>Q ys. filter (\<lambda>y. y \<in> L \<and> f y = f x \<and> Q y) ys"
  have g: "(case byRoot st (f x) of Some g \<Rightarrow> g | None \<Rightarrow> \<lparr>Old = [], New = []\<rparr>) =
      \<lparr>Old = ?sel (\<lambda>y. y \<in> olds) xs, New = ?sel (\<lambda>y. y \<notin> olds) xs\<rparr>"
  proof (cases "\<exists>y \<in> set xs. y \<in> L \<and> f y = f x")
    case False
    then have "?sel Q xs = []" for Q by (auto simp: filter_empty_conv)
    then show ?thesis using False assms by (auto simp: groups_after_def)
  qed (use assms in \<open>simp add: groups_after_def\<close>)
  let ?g = "\<lparr>Old = ?sel (\<lambda>y. y \<in> olds) (xs @ [x]), New = ?sel (\<lambda>y. y \<notin> olds) (xs @ [x])\<rparr>"
  let ?st = "\<lparr>uf = P', byRoot = (byRoot st)(f x \<mapsto> ?g), groupOf = (groupOf st)(x \<mapsto> f x)\<rparr>"
  have "group_bundle olds x st = Some ?st"
    using False P'(1) x by (auto simp: group_bundle_def g Let_def)
  moreover have "groups_after f L olds (xs @ [x]) ?st"
  proof -
    have "byRoot ?st r = (if \<exists>y \<in> set (xs @ [x]). y \<in> L \<and> f y = r
        then Some \<lparr>Old = filter (\<lambda>y. y \<in> L \<and> f y = r \<and> y \<in> olds) (xs @ [x]),
          New = filter (\<lambda>y. y \<in> L \<and> f y = r \<and> y \<notin> olds) (xs @ [x])\<rparr> else None)" for r
      by (cases "r = f x") (use assms x in \<open>auto simp: groups_after_def\<close>)
    moreover have "groupOf ?st y = (if y \<in> set (xs @ [x]) \<and> y \<in> L then Some (f y) else None)" for y
      using assms x by (auto simp: groups_after_def)
    ultimately show ?thesis using P' unfolding groups_after_def by auto
  qed
  ultimately show ?thesis by blast
qed

lemma group_bundles_after:
  "groups_after f L olds xs st \<Longrightarrow> \<exists>st'. group_bundles olds ys st = Some st' \<and> groups_after f L olds (xs @ ys) st'"
proof (induction ys arbitrary: xs st)
  case (Cons y ys)
  obtain st' where 1: "group_bundle olds y st = Some st'" "groups_after f L olds (xs @ [y]) st'"
    using group_bundle_after[OF Cons.prems] by blast
  from Cons.IH[OF 1(2)] 1(1) show ?case by auto
qed simp

text \<open>The group of a bundle is its connected component, each half in the order of the declarations.\<close>

definition component :: "(string \<times> string) set \<Rightarrow> string set \<Rightarrow> string list \<Rightarrow> string \<Rightarrow> SupersedeGroup" where
  "component E olds bundles x =
     \<lparr>Old = filter (\<lambda>y. (x, y) \<in> conn E \<and> y \<in> olds) bundles, New = filter (\<lambda>y. (x, y) \<in> conn E \<and> y \<notin> olds) bundles\<rparr>"

lemma conn_field: "(x, y) \<in> conn E \<Longrightarrow> x \<in> Field E \<Longrightarrow> y \<in> Field E"
  unfolding conn_def by (erule rtranclE) (auto simp: Field_def)

lemma groups_connected:
  "\<exists>st. groupSupersedes es olds bundles = Some st \<and>
     (\<forall>x. group_of st x = (if x \<in> set bundles \<and> x \<in> Field (set es) then Some (component (set es) olds bundles x) else None))"
proof -
  obtain P f where u: "uf_unions es (\<lambda>_. None) = Some P" "uf_classes P f (set es)"
    using uf_unions_classes[OF uf_classes_empty, of es] by auto
  have "groups_after f (Field (set es)) olds [] \<lparr>uf = P, byRoot = (\<lambda>_. None), groupOf = (\<lambda>_. None)\<rparr>"
    using u(2) by (simp add: groups_after_def uf_classes_def)
  from group_bundles_after[OF this, of bundles] obtain st where
    st: "group_bundles olds bundles \<lparr>uf = P, byRoot = (\<lambda>_. None), groupOf = (\<lambda>_. None)\<rparr> = Some st"
    "groups_after f (Field (set es)) olds bundles st" by auto
  have f: "y \<in> Field (set es) \<and> f y = f x \<longleftrightarrow> (x, y) \<in> conn (set es)" if "x \<in> Field (set es)" for x y
    using u(2) that conn_field[of x y "set es"] conn_sym[of x y "set es"] conn_sym[of y x "set es"]
    by (auto simp: uf_classes_def)
  have "group_of st x = (if x \<in> set bundles \<and> x \<in> Field (set es) then Some (component (set es) olds bundles x) else None)" for x
  proof (cases "x \<in> set bundles \<and> x \<in> Field (set es)")
    case True
    then have "groupOf st x = Some (f x)" "byRoot st (f x) = Some
       \<lparr>Old = filter (\<lambda>y. y \<in> Field (set es) \<and> f y = f x \<and> y \<in> olds) bundles,
        New = filter (\<lambda>y. y \<in> Field (set es) \<and> f y = f x \<and> y \<notin> olds) bundles\<rparr>"
      using st(2) by (auto simp: groups_after_def)
    moreover have "filter (\<lambda>y. y \<in> Field (set es) \<and> f y = f x \<and> Q y) bundles = filter (\<lambda>y. (x, y) \<in> conn (set es) \<and> Q y) bundles" for Q
      by (rule filter_cong[OF refl]) (metis f True)
    ultimately show ?thesis using True by (simp add: group_of_def component_def)
  next
    case False
    then show ?thesis using st(2) by (auto simp: groups_after_def group_of_def)
  qed
  then show ?thesis using u(1) st(1) by (auto simp: groupSupersedes_def)
qed

end
