(* ===== verification/CatalogSetup.thy ===== *)
theory CatalogSetup
  imports CatalogOrder
begin

text \<open>
  What a catalog without problems guarantees the setup of a usecase (src/internal/catalog/catalog.go, the walk of
  src/internal/server/handlers_catalog.go): the order of the usecases, the bundles covered in a space, the handles and links.
\<close>

section \<open>A clean validation\<close>

lemma vProblems_report [simp]: "vProblems (report ps st) = vProblems st @ ps"
  by (simp add: report_def)

lemma report_simps [simp]:
  "vById (report ps st) = vById st" "vTypes (report ps st) = vTypes st"
  "vXkeys (report ps st) = vXkeys st" "vBundleIds (report ps st) = vBundleIds st"
  by (simp_all add: report_def)

text \<open>The handles a bundle declares.\<close>

definition handles :: "CatalogBundle \<Rightarrow> string list" where
  "handles b = (case cbType b of Some t \<Rightarrow> [tyXKey t] | None \<Rightarrow> []) @ (case cbCollection b of Some t \<Rightarrow> [coXKey t] | None \<Rightarrow> [])"

definition holders :: "(string \<times> CatalogBundle) list \<Rightarrow> string \<Rightarrow> string list" where
  "holders bs x = concat (map (\<lambda>(u, b). map (\<lambda>_. cbId b) (filter (\<lambda>y. y = x) (handles b))) bs)"

lemma holders_append [simp]: "holders (bs @ bs') x = holders bs x @ holders bs' x"
  by (simp add: holders_def)

lemma holders_Nil [simp]: "holders [] x = []"
  by (simp add: holders_def)

definition shared :: "(string \<times> string) set \<Rightarrow> string list \<Rightarrow> bool" where
  "shared edges hs \<longleftrightarrow> [] \<notin> set hs \<and> sorted_wrt (\<lambda>h h'. sharesHandle edges h' h) hs"

lemma shared_Nil [simp]: "shared edges []"
  by (simp add: shared_def)

lemma shared_snoc:
  assumes "shared edges hs" "b \<noteq> []" "holderNotSharing edges hs b \<in> {None, Some []}"
  shows "shared edges (hs @ [b])"
proof -
  have "\<forall>h \<in> set hs. sharesHandle edges b h"
  proof (rule ccontr)
    assume "\<not> (\<forall>h \<in> set hs. sharesHandle edges b h)"
    then obtain h where h: "holderNotSharing edges hs b = Some h"
      unfolding holderNotSharing_def by (metis find_None_iff not_None_eq)
    then have "h \<in> set hs" by (auto simp: holderNotSharing_def find_Some_iff)
    then show False using h assms by (auto simp: shared_def)
  qed
  then show ?thesis using assms by (simp add: shared_def sorted_wrt_append)
qed

text \<open>What a stretch of the walk over the bundles \<open>bs\<close> has done when it found no problem.\<close>

definition walked :: "string set \<Rightarrow> (string \<times> string) set \<Rightarrow> (string \<times> CatalogBundle) list \<Rightarrow> vstate \<Rightarrow> vstate \<Rightarrow> bool" where
  "walked known edges bs st st' \<longleftrightarrow>
     vProblems st = [] \<and>
     (\<forall>p \<in> set bs. set (handles (snd p)) \<inter> known = {} \<and> cbId (snd p) \<noteq> []) \<and>
     (\<forall>x. vXkeys st' x = vXkeys st x @ holders bs x) \<and>
     (\<forall>x. shared edges (vXkeys st x) \<longrightarrow> shared edges (vXkeys st' x)) \<and>
     (\<forall>x. vTypes st' x = vTypes st x \<or> (\<exists>(u, b) \<in> set bs. x \<in> set (handles b) \<and> vTypes st' x = Some u)) \<and>
     (\<forall>(u, b) \<in> set bs. \<forall>x \<in> set (handles b). vTypes st' x \<noteq> None) \<and>
     (\<forall>x. vTypes st x \<noteq> None \<longrightarrow> vTypes st' x \<noteq> None) \<and>
     distinct (map (cbId \<circ> snd) bs) \<and> dom (vBundleIds st) \<inter> cbId ` snd ` set bs = {} \<and>
     dom (vBundleIds st') = dom (vBundleIds st) \<union> cbId ` snd ` set bs"

lemma walked_Nil: "vProblems st = [] \<Longrightarrow> walked known edges [] st st"
  by (simp add: walked_def)

lemma walkedD:
  assumes "walked known edges bs st st'"
  shows "vProblems st = []"
    and "\<forall>p \<in> set bs. set (handles (snd p)) \<inter> known = {} \<and> cbId (snd p) \<noteq> []"
    and "\<forall>x. vXkeys st' x = vXkeys st x @ holders bs x"
    and "\<forall>x. shared edges (vXkeys st x) \<longrightarrow> shared edges (vXkeys st' x)"
    and "\<forall>x. vTypes st' x = vTypes st x \<or> (\<exists>(u, b) \<in> set bs. x \<in> set (handles b) \<and> vTypes st' x = Some u)"
    and "\<forall>(u, b) \<in> set bs. \<forall>x \<in> set (handles b). vTypes st' x \<noteq> None"
    and "\<forall>x. vTypes st x \<noteq> None \<longrightarrow> vTypes st' x \<noteq> None"
    and "distinct (map (cbId \<circ> snd) bs)" and "dom (vBundleIds st) \<inter> cbId ` snd ` set bs = {}"
    and "dom (vBundleIds st') = dom (vBundleIds st) \<union> cbId ` snd ` set bs"
  using assms unfolding walked_def by - (elim conjE, assumption)+

lemma walked_append:
  assumes a: "walked known edges bs st st1" and b: "walked known edges bs' st1 st2"
  shows "walked known edges (bs @ bs') st st2"
  unfolding walked_def
proof (intro conjI)
  show "\<forall>x. vTypes st2 x = vTypes st x \<or> (\<exists>(u, b) \<in> set (bs @ bs'). x \<in> set (handles b) \<and> vTypes st2 x = Some u)"
  proof
    fix x
    have "vTypes st2 x = vTypes st1 x \<or> (\<exists>(u, b) \<in> set bs'. x \<in> set (handles b) \<and> vTypes st2 x = Some u)"
      using walkedD(5)[OF b] by (rule spec)
    moreover have "vTypes st1 x = vTypes st x \<or> (\<exists>(u, b) \<in> set bs. x \<in> set (handles b) \<and> vTypes st1 x = Some u)"
      using walkedD(5)[OF a] by (rule spec)
    ultimately show "vTypes st2 x = vTypes st x \<or> (\<exists>(u, b) \<in> set (bs @ bs'). x \<in> set (handles b) \<and> vTypes st2 x = Some u)"
      by (elim disjE) (simp_all add: bex_Un)
  qed
  have ids: "set (map (cbId \<circ> snd) bs) = cbId ` snd ` set bs" "set (map (cbId \<circ> snd) bs') = cbId ` snd ` set bs'" by auto
  show "distinct (map (cbId \<circ> snd) (bs @ bs'))"
    using walkedD(8)[OF a] walkedD(8)[OF b] walkedD(9)[OF b] walkedD(10)[OF a] ids
    by (simp only: map_append distinct_append) blast
  show "dom (vBundleIds st) \<inter> cbId ` snd ` set (bs @ bs') = {}"
    using walkedD(9)[OF a] walkedD(9)[OF b] walkedD(10)[OF a] by (simp only: set_append image_Un) blast
  show "dom (vBundleIds st2) = dom (vBundleIds st) \<union> cbId ` snd ` set (bs @ bs')"
    using walkedD(10)[OF a] walkedD(10)[OF b] by (simp only: set_append image_Un) blast
  show "\<forall>(u, b) \<in> set (bs @ bs'). \<forall>x \<in> set (handles b). vTypes st2 x \<noteq> None"
  proof
    fix p assume p: "p \<in> set (bs @ bs')"
    show "case p of (u, b) \<Rightarrow> \<forall>x \<in> set (handles b). vTypes st2 x \<noteq> None"
    proof (cases "p \<in> set bs'")
      case True
      then show ?thesis using walkedD(6)[OF b] by (rule bspec[rotated])
    next
      case False
      then have "p \<in> set bs" using p by simp
      then have "case p of (u, b) \<Rightarrow> \<forall>x \<in> set (handles b). vTypes st1 x \<noteq> None" using walkedD(6)[OF a] by (rule bspec[rotated])
      then show ?thesis using walkedD(7)[OF b] by (simp split: prod.splits)
    qed
  qed
  show "\<forall>p \<in> set (bs @ bs'). set (handles (snd p)) \<inter> known = {} \<and> cbId (snd p) \<noteq> []"
    using walkedD(2)[OF a] walkedD(2)[OF b] by (simp add: ball_Un)
  show "\<forall>x. vXkeys st2 x = vXkeys st x @ holders (bs @ bs') x" using walkedD(3)[OF a] walkedD(3)[OF b] by simp
  show "\<forall>x. shared edges (vXkeys st x) \<longrightarrow> shared edges (vXkeys st2 x)" using walkedD(4)[OF a] walkedD(4)[OF b] by blast
  show "\<forall>x. vTypes st x \<noteq> None \<longrightarrow> vTypes st2 x \<noteq> None" using walkedD(7)[OF a] walkedD(7)[OF b] by blast
qed (rule walkedD(1)[OF a])

lemma validateHandle_clean:
  assumes "vProblems (validateHandle known edges tp usecase bid xKey st) = []"
  shows "vProblems st = [] \<and> xKeyRe xKey \<and> xKey \<notin> known \<and> holderNotSharing edges (vXkeys st xKey) bid \<in> {None, Some []} \<and>
    validateHandle known edges tp usecase bid xKey st =
      st\<lparr>vXkeys := (vXkeys st)(xKey := vXkeys st xKey @ [bid]), vTypes := (vTypes st)(xKey \<mapsto> usecase)\<rparr>"
  using assms by (auto simp: validateHandle_def split: if_splits)

lemma validateHandle_byId [simp]: "vById (validateHandle known edges tp usecase bid xKey st) = vById st"
  by (simp add: validateHandle_def)

lemma check_bundle_byId [simp]: "vById (check_bundle opts known edges u bp b st) = vById st"
  by (simp add: check_bundle_def Let_def validateType_def validateCollection_def check_bundle_id_def split: option.splits)

text \<open>The checks of one bundle that look at nothing but the bundle.\<close>

definition bundle_clean :: "Options \<Rightarrow> (string \<times> string) set \<Rightarrow> CatalogUsecase \<Rightarrow> path \<Rightarrow> CatalogBundle \<Rightarrow> bool" where
  "bundle_clean opts edges u bp b \<longleftrightarrow> bundleRe (cbId b) \<and> check_shape (set (RootTypeIds opts)) bp b = [] \<and>
     check_supersedes edges bp u b = [] \<and> check_miniapp bp b = [] \<and> validateParts (sub_key bp ''parts'') 0 {} {} (cbParts b) = []"

lemma bundleRe_nonempty: "bundleRe s \<Longrightarrow> s \<noteq> []"
  by (auto simp: bundleRe_def)

lemma check_bundle_clean:
  assumes "vProblems (check_bundle opts known edges u bp b st) = []"
  shows "bundle_clean opts edges u bp b \<and> walked known edges [(cuId u, b)] st (check_bundle opts known edges u bp b st)"
proof -
  let ?bid = "check_bundle_id bp (cuId u) (cbId b) st"
  let ?start = "report (check_shape (set (RootTypeIds opts)) bp b) ?bid"
  have shape: "cbType b = None \<or> cbCollection b = None" if "check_shape (set (RootTypeIds opts)) bp b = []"
    using that by (auto simp: check_shape_def Let_def)
  have idc: "vProblems st = [] \<and> bundleRe (cbId b) \<and> vBundleIds st (cbId b) = None \<and>
      ?bid = st\<lparr>vBundleIds := (vBundleIds st)(cbId b \<mapsto> cuId u)\<rparr>" if "vProblems ?bid = []"
    using that by (auto simp: check_bundle_id_def split: if_splits)
  consider "cbType b = None" "cbCollection b = None" | t where "cbType b = Some t" "cbCollection b = None"
    | t where "cbType b = None" "cbCollection b = Some t" | t t' where "cbType b = Some t" "cbCollection b = Some t'"
    by fastforce
  then show ?thesis
  proof cases
    case 1
    then have p: "vProblems ?bid = []" "check_shape (set (RootTypeIds opts)) bp b = []" "check_supersedes edges bp u b = []"
      "check_miniapp bp b = []" "validateParts (sub_key bp ''parts'') 0 {} {} (cbParts b) = []"
      using assms by (auto simp: check_bundle_def Let_def)
    moreover have "handles b = []" using 1 by (simp add: handles_def)
    ultimately show ?thesis using 1 idc bundleRe_nonempty
      by (auto simp: check_bundle_def Let_def bundle_clean_def walked_def holders_def)
  next
    case (2 t)
    let ?h = "validateHandle known edges (sub_key bp ''type'') (cuId u) (cbId b) (tyXKey t) ?start"
    have p: "vProblems ?h = []" "check_supersedes edges bp u b = []"
      "check_miniapp bp b = []" "validateParts (sub_key bp ''parts'') 0 {} {} (cbParts b) = []"
      using assms 2 by (auto simp: check_bundle_def Let_def validateType_def)
    note v = validateHandle_clean[OF p(1)]
    have s: "vProblems ?bid = []" "check_shape (set (RootTypeIds opts)) bp b = []" using v by auto
    have h: "handles b = [tyXKey t]" using 2 by (simp add: handles_def)
    show ?thesis using 2 idc[OF s(1)] bundleRe_nonempty v p s h shared_snoc[of edges "vXkeys st (tyXKey t)" "cbId b"]
      by (auto simp: check_bundle_def Let_def bundle_clean_def walked_def holders_def validateType_def)
  next
    case (3 t)
    let ?h = "validateHandle known edges (sub_key bp ''collection'') (cuId u) (cbId b) (coXKey t) ?start"
    have p: "vProblems ?h = []" "check_supersedes edges bp u b = []"
      "check_miniapp bp b = []" "validateParts (sub_key bp ''parts'') 0 {} {} (cbParts b) = []"
      using assms 3 by (auto simp: check_bundle_def Let_def validateCollection_def)
    note v = validateHandle_clean[OF p(1)]
    have s: "vProblems ?bid = []" "check_shape (set (RootTypeIds opts)) bp b = []" using v by auto
    have h: "handles b = [coXKey t]" using 3 by (simp add: handles_def)
    show ?thesis using 3 idc[OF s(1)] bundleRe_nonempty v p s h shared_snoc[of edges "vXkeys st (coXKey t)" "cbId b"]
      by (auto simp: check_bundle_def Let_def bundle_clean_def walked_def holders_def validateCollection_def)
  next
    case (4 t t')
    let ?h = "validateHandle known edges (sub_key bp ''type'') (cuId u) (cbId b) (tyXKey t) ?start"
    have "vProblems (validateHandle known edges (sub_key bp ''collection'') (cuId u) (cbId b) (coXKey t')
       (report (flag (cbId b \<notin> snd ` edges \<and> \<not> hasLayout (tyLayout t) \<and> cbParts b = []) (sub_key bp ''type'') CodeBadField)
         (report (validateProperties (sub_key bp ''type'') (tyProperties t)) ?h))) = []"
      using assms 4 by (auto simp: check_bundle_def Let_def validateType_def validateCollection_def)
    from validateHandle_clean[OF this] have "vProblems ?h = []" by auto
    from validateHandle_clean[OF this] have "check_shape (set (RootTypeIds opts)) bp b = []" by auto
    then show ?thesis using shape 4 by simp
  qed
qed

definition pairs :: "CatalogUsecase list \<Rightarrow> (string \<times> CatalogBundle) list" where
  "pairs us = concat (map (\<lambda>u. map (Pair (cuId u)) (cuBundles u)) us)"

lemma pairs_simps [simp]: "pairs [] = []" "pairs (u # us) = map (Pair (cuId u)) (cuBundles u) @ pairs us"
  by (simp_all add: pairs_def)

lemma fold_bundles_clean:
  "vProblems (fold (\<lambda>(bi, b). check_bundle opts known edges u (at_key up ''bundles'' bi) b) (enumerate k bs) st) = [] \<Longrightarrow>
   (\<forall>b \<in> set bs. \<exists>bp. bundle_clean opts edges u bp b) \<and>
   walked known edges (map (Pair (cuId u)) bs) st
     (fold (\<lambda>(bi, b). check_bundle opts known edges u (at_key up ''bundles'' bi) b) (enumerate k bs) st)"
proof (induction bs arbitrary: k st)
  case Nil
  then show ?case by (simp add: walked_Nil)
next
  case (Cons b bs)
  let ?s = "check_bundle opts known edges u (at_key up ''bundles'' k) b st"
  from Cons.IH[of "Suc k" ?s] Cons.prems have
    r: "\<forall>b \<in> set bs. \<exists>bp. bundle_clean opts edges u bp b"
      "walked known edges (map (Pair (cuId u)) bs) ?s
        (fold (\<lambda>(bi, b). check_bundle opts known edges u (at_key up ''bundles'' bi) b) (enumerate (Suc k) bs) ?s)" by simp_all
  have "vProblems ?s = []" using walkedD(1)[OF r(2)] .
  from check_bundle_clean[OF this] walked_append[OF _ r(2), of "[(cuId u, b)]" st] r(1)
  show ?case by auto
qed

lemma fold_bundles_byId [simp]:
  "vById (fold (\<lambda>(bi, b). check_bundle opts known edges u (at_key up ''bundles'' bi) b) (enumerate k bs) st) = vById st"
  by (induction bs arbitrary: k st) auto

definition usecase_clean :: "Options \<Rightarrow> (string \<times> string) set \<Rightarrow> CatalogUsecase \<Rightarrow> bool" where
  "usecase_clean opts edges u \<longleftrightarrow> slugRe (cuId u) \<and> cuName u \<noteq> [] \<and> cuBundles u \<noteq> [] \<and> (\<exists>up. check_requires up u = []) \<and>
     (\<forall>b \<in> set (cuBundles u). \<exists>bp. bundle_clean opts edges u bp b)"

lemma walked_start:
  assumes "walked known edges bs st1 st2" "vProblems st = []" "vXkeys st1 = vXkeys st" "vTypes st1 = vTypes st" "vBundleIds st1 = vBundleIds st"
  shows "walked known edges bs st st2"
  unfolding walked_def using walkedD[OF assms(1), unfolded assms(3-5)] assms(2) by (intro conjI)

lemma check_usecase_clean:
  assumes "vProblems (check_usecase opts known edges ui u st) = []"
  shows "usecase_clean opts edges u \<and> vById st (cuId u) = None \<and>
    vById (check_usecase opts known edges ui u st) = (vById st)(cuId u \<mapsto> ui) \<and>
    walked known edges (map (Pair (cuId u)) (cuBundles u)) st (check_usecase opts known edges ui u st)"
proof -
  let ?up = "[Key ''usecases'', Idx ui]"
  let ?id = "check_usecase_id ?up ui (cuId u) st"
  let ?rep = "report (flag (cuName u = []) (sub_key ?up ''name'') CodeMissing @
                  flag (cuBundles u = []) (sub_key ?up ''bundles'') CodeMissing @ check_requires ?up u) ?id"
  let ?final = "fold (\<lambda>(bi, b). check_bundle opts known edges u (at_key ?up ''bundles'' bi) b) (enumerate 0 (cuBundles u)) ?rep"
  have e: "check_usecase opts known edges ui u st = ?final" by (simp add: check_usecase_def Let_def)
  have f: "\<forall>b \<in> set (cuBundles u). \<exists>bp. bundle_clean opts edges u bp b" "walked known edges (map (Pair (cuId u)) (cuBundles u)) ?rep ?final"
    using fold_bundles_clean[of opts known edges u ?up 0 "cuBundles u" ?rep] assms by (simp_all add: e)
  have p: "vProblems ?id = []" "cuName u \<noteq> []" "cuBundles u \<noteq> []" "check_requires ?up u = []" using walkedD(1)[OF f(2)] by auto
  then have i: "slugRe (cuId u)" "vById st (cuId u) = None" "?id = st\<lparr>vById := (vById st)(cuId u \<mapsto> ui)\<rparr>" "vProblems st = []"
    by (auto simp: check_usecase_id_def split: if_splits)
  have "walked known edges (map (Pair (cuId u)) (cuBundles u)) st ?final"
    by (rule walked_start[OF f(2) i(4)]) (simp_all add: i(3))
  then show ?thesis unfolding e using f(1) p i by (auto simp: usecase_clean_def)
qed

lemma fold_usecases_clean:
  "vProblems (fold (\<lambda>(ui, u). check_usecase opts known edges ui u) (enumerate k us) st) = [] \<Longrightarrow>
   st' = fold (\<lambda>(ui, u). check_usecase opts known edges ui u) (enumerate k us) st \<Longrightarrow>
   (\<forall>u \<in> set us. usecase_clean opts edges u) \<and> walked known edges (pairs us) st st' \<and>
   distinct (map cuId us) \<and> dom (vById st) \<inter> cuId ` set us = {} \<and>
   (\<forall>i < length us. vById st' (cuId (us ! i)) = Some (k + i)) \<and> (\<forall>x. x \<notin> cuId ` set us \<longrightarrow> vById st' x = vById st x)"
proof (induction us arbitrary: k st)
  case Nil
  then show ?case by (simp add: walked_Nil)
next
  case (Cons u us)
  let ?s = "check_usecase opts known edges k u st"
  have r: "(\<forall>u \<in> set us. usecase_clean opts edges u) \<and> walked known edges (pairs us) ?s st' \<and>
     distinct (map cuId us) \<and> dom (vById ?s) \<inter> cuId ` set us = {} \<and>
     (\<forall>i < length us. vById st' (cuId (us ! i)) = Some (Suc k + i)) \<and> (\<forall>x. x \<notin> cuId ` set us \<longrightarrow> vById st' x = vById ?s x)"
    by (rule Cons.IH) (use Cons.prems in simp_all)
  have "vProblems ?s = []" using r walkedD(1) by blast
  note c = check_usecase_clean[OF this]
  have w: "walked known edges (pairs (u # us)) st st'" using walked_append c r by (metis pairs_simps(2))
  have dom: "dom (vById ?s) = insert (cuId u) (dom (vById st))" using c by auto
  have "vById st' (cuId ((u # us) ! i)) = Some (k + i)" if "i < length (u # us)" for i
    using that r c dom by (cases i) auto
  then show ?case using r c w dom by auto
qed

lemma mark_simps [simp]:
  "cuId (mark_superseded olds u) = cuId u" "cuRequires (mark_superseded olds u) = cuRequires u"
  "map cbId (cuBundles (mark_superseded olds u)) = map cbId (cuBundles u)"
  by (simp_all add: mark_superseded_def comp_def)

lemma edges_marked [simp]: "supersede_edges (map (mark_superseded olds) us) = supersede_edges us"
  by (simp add: supersede_edges_def mark_superseded_def comp_def)

definition requires :: "CatalogState \<Rightarrow> (string \<times> string) set" where
  "requires c = {(cuId u, r) | u r. u \<in> set (Usecases c) \<and> r \<in> set (cuRequires u)}"

definition catalog_edges :: "CatalogState \<Rightarrow> (string \<times> string) set" where
  "catalog_edges c = set (supersede_edges (Usecases c))"

text \<open>What a catalog without problems is.\<close>

definition sound_catalog :: "Options \<Rightarrow> CatalogState \<Rightarrow> bool" where
  "sound_catalog opts c \<longleftrightarrow>
     Usecases c \<noteq> [] \<and> distinct (map cuId (Usecases c)) \<and>
     (\<forall>x i. byId c x = Some i \<longleftrightarrow> i < length (Usecases c) \<and> cuId (Usecases c ! i) = x) \<and>
     snd ` requires c \<subseteq> cuId ` set (Usecases c) \<and> acyclic (adj_edges (cycle_adj c)) \<and>
     superseded c = snd ` catalog_edges c \<and>
     (\<forall>u \<in> set (Usecases c). usecase_clean opts (catalog_edges c) u) \<and>
     distinct (map (cbId \<circ> snd) (pairs (Usecases c))) \<and>
     (\<forall>p \<in> set (pairs (Usecases c)). set (handles (snd p)) \<inter> known_ids opts = {}) \<and>
     (\<forall>x. shared (catalog_edges c) (holders (pairs (Usecases c)) x)) \<and>
     (\<forall>x. types c x = None \<or> (\<exists>(u, b) \<in> set (pairs (Usecases c)). x \<in> set (handles b) \<and> types c x = Some u)) \<and>
     check_links opts (known_ids opts) c = []"

lemma validate_sound:
  assumes "validate opts us0 = (c, [])"
  shows "sound_catalog opts c"
proof -
  let ?edges = "set (supersede_edges us0)"
  let ?us = "map (mark_superseded (snd ` ?edges)) us0"
  let ?init = "\<lparr>vProblems = flag (us0 = []) [Key ''usecases''] CodeMissing @ declared_superseded us0,
             vById = (\<lambda>_. None), vTypes = (\<lambda>_. None), vXkeys = (\<lambda>_. []), vBundleIds = (\<lambda>_. None)\<rparr>"
  define st where "st = fold (\<lambda>(ui, u). check_usecase opts (known_ids opts) ?edges ui u) (enumerate 0 ?us) ?init"
  have c: "c = \<lparr>Usecases = ?us, byId = vById st, types = vTypes st, superseded = snd ` ?edges\<rparr>"
    and clean: "vProblems st = []" "unknown_requires c = []" "findCycles c = []" "check_links opts (known_ids opts) c = []"
    using assms unfolding validate_def Let_def st_def[symmetric] by auto
  have e: "catalog_edges c = ?edges" by (simp add: catalog_edges_def c)
  from fold_usecases_clean[of opts "known_ids opts" ?edges 0 ?us ?init st] clean(1)
  have f: "\<forall>u \<in> set ?us. usecase_clean opts ?edges u" "walked (known_ids opts) ?edges (pairs ?us) ?init st"
    "distinct (map cuId ?us)" "\<forall>i < length ?us. vById st (cuId (?us ! i)) = Some i"
    "\<forall>x. x \<notin> cuId ` set ?us \<longrightarrow> vById st x = None" by (simp_all add: st_def)
  have ne: "us0 \<noteq> []" using walkedD(1)[OF f(2)] by auto
  have byId: "byId c x = Some i \<longleftrightarrow> i < length (Usecases c) \<and> cuId (Usecases c ! i) = x" for x i
  proof
    assume a: "byId c x = Some i"
    then have "x \<in> cuId ` set (Usecases c)" using f(5) unfolding c by (metis CatalogState.simps(1,2) option.distinct(1))
    then obtain j where "j < length ?us" "cuId (?us ! j) = x" unfolding c by (auto simp: in_set_conv_nth)
    then show "i < length (Usecases c) \<and> cuId (Usecases c ! i) = x" using a f(4) unfolding c by auto
  next
    assume "i < length (Usecases c) \<and> cuId (Usecases c ! i) = x"
    then show "byId c x = Some i" using f(4) unfolding c by auto
  qed
  have dom: "dom (byId c) = cuId ` set (Usecases c)"
    by (auto simp: byId in_set_conv_nth dom_def image_iff) (metis nth_mem)+
  have "r \<in> dom (byId c)" if "u \<in> set (Usecases c)" "r \<in> set (cuRequires u)" for u r
    using clean(2) that by (force simp: unknown_requires_def each_nil in_set_conv_nth)
  then have "snd ` requires c \<subseteq> cuId ` set (Usecases c)" unfolding dom requires_def by auto
  moreover have "acyclic (adj_edges (cycle_adj c))" by (rule no_report_acyclic[OF dom clean(3)])
  moreover have "shared ?edges (holders (pairs ?us) x)" for x using walkedD(3,4)[OF f(2)] by simp
  moreover have "\<forall>x. vTypes st x = None \<or> (\<exists>(u, b) \<in> set (pairs ?us). x \<in> set (handles b) \<and> vTypes st x = Some u)"
    using walkedD(5)[OF f(2)] by simp
  moreover have "\<forall>p \<in> set (pairs ?us). set (handles (snd p)) \<inter> known_ids opts = {}" using walkedD(2)[OF f(2)] by blast
  ultimately show ?thesis
    unfolding sound_catalog_def e using f(1,3) walkedD(8)[OF f(2)] byId clean(4) ne by (simp add: c)
qed

lemma soundD:
  assumes "sound_catalog opts c"
  shows "Usecases c \<noteq> []" and "distinct (map cuId (Usecases c))"
    and "\<forall>x i. byId c x = Some i \<longleftrightarrow> i < length (Usecases c) \<and> cuId (Usecases c ! i) = x"
    and "snd ` requires c \<subseteq> cuId ` set (Usecases c)" and "acyclic (adj_edges (cycle_adj c))"
    and "superseded c = snd ` catalog_edges c"
    and "\<forall>u \<in> set (Usecases c). usecase_clean opts (catalog_edges c) u"
    and "distinct (map (cbId \<circ> snd) (pairs (Usecases c)))"
    and "\<forall>p \<in> set (pairs (Usecases c)). set (handles (snd p)) \<inter> known_ids opts = {}"
    and "\<forall>x. shared (catalog_edges c) (holders (pairs (Usecases c)) x)"
    and "\<forall>x. types c x = None \<or> (\<exists>(u, b) \<in> set (pairs (Usecases c)). x \<in> set (handles b) \<and> types c x = Some u)"
    and "check_links opts (known_ids opts) c = []"
  using assms unfolding sound_catalog_def by - (elim conjE, assumption)+

lemma sound_usecase_at:
  assumes "sound_catalog opts c" "u \<in> set (Usecases c)"
  shows "usecase_at c (cuId u) = u \<and> byId c (cuId u) \<noteq> None"
proof -
  obtain i where "i < length (Usecases c)" "Usecases c ! i = u" using assms(2) by (auto simp: in_set_conv_nth)
  moreover from this have "byId c (cuId u) = Some i" using soundD(3)[OF assms(1)] by simp
  ultimately show ?thesis by (simp add: usecase_at_def)
qed

lemma sound_dom:
  assumes "sound_catalog opts c"
  shows "dom (byId c) = cuId ` set (Usecases c)"
proof -
  have b: "byId c x = Some i \<longleftrightarrow> i < length (Usecases c) \<and> cuId (Usecases c ! i) = x" for x i
    using soundD(3)[OF assms] by simp
  show ?thesis by (force simp: b dom_def in_set_conv_nth)
qed

lemma sound_cycle_adj:
  assumes "sound_catalog opts c"
  shows "cycle_adj c x = cuRequires (usecase_at c x)"
proof -
  have ne: "Usecases c \<noteq> []" and r: "snd ` requires c \<subseteq> dom (byId c)" using soundD(1,4)[OF assms] sound_dom[OF assms] by auto
  have "usecase_at c x \<in> set (Usecases c)"
    using ne soundD(3)[OF assms] by (auto simp: usecase_at_def split: option.splits)
  then have "\<forall>y \<in> set (cuRequires (usecase_at c x)). byId c y \<noteq> None" using r by (force simp: requires_def)
  then show ?thesis by (simp add: cycle_adj_def)
qed

lemma requires_reach:
  assumes s: "sound_catalog opts c" and x: "x \<in> cuId ` set (Usecases c)"
  shows "(adj_edges (cycle_adj c))\<^sup>* `` {x} = (requires c)\<^sup>* `` {x} \<and> (requires c)\<^sup>* `` {x} \<subseteq> cuId ` set (Usecases c)"
proof -
  have e: "(y, z) \<in> adj_edges (cycle_adj c) \<longleftrightarrow> (y, z) \<in> requires c" if y: "y \<in> cuId ` set (Usecases c)" for y z
  proof -
    obtain u where u: "u \<in> set (Usecases c)" "y = cuId u" using y by auto
    have uniq: "v = u" if v: "v \<in> set (Usecases c)" "cuId v = cuId u" for v
    proof -
      have "usecase_at c (cuId v) = v" using sound_usecase_at[OF s v(1)] ..
      moreover have "usecase_at c (cuId v) = usecase_at c (cuId u)" using v(2) by (rule arg_cong)
      moreover have "usecase_at c (cuId u) = u" using sound_usecase_at[OF s u(1)] ..
      ultimately show ?thesis by (metis (no_types))
    qed
    have "cycle_adj c y = cuRequires u" using u sound_usecase_at[OF s u(1)] by (simp add: sound_cycle_adj[OF s])
    moreover have "(y, z) \<in> requires c \<longleftrightarrow> z \<in> set (cuRequires u)"
    proof
      assume "(y, z) \<in> requires c"
      then obtain v where "v \<in> set (Usecases c)" "cuId v = y" "z \<in> set (cuRequires v)" by (auto simp: requires_def)
      moreover from this(1,2) have "v = u" using uniq[of v] u(2) by blast
      ultimately show "z \<in> set (cuRequires u)" by blast
    next
      assume "z \<in> set (cuRequires u)"
      then show "(y, z) \<in> requires c" using u by (auto simp: requires_def)
    qed
    ultimately show ?thesis by simp
  qed
  have snd: "z \<in> cuId ` set (Usecases c)" if "(y, z) \<in> requires c" for y z
    using soundD(4)[OF s] that by (metis image_subset_iff snd_conv)
  have "(x, z) \<in> (requires c)\<^sup>* \<and> z \<in> cuId ` set (Usecases c)" if "(x, z) \<in> (adj_edges (cycle_adj c))\<^sup>*" for z
    using that by (induction rule: rtrancl_induct) (use x e snd in \<open>auto intro: rtrancl_into_rtrancl\<close>)
  moreover have "(x, z) \<in> (adj_edges (cycle_adj c))\<^sup>* \<and> z \<in> cuId ` set (Usecases c)" if "(x, z) \<in> (requires c)\<^sup>*" for z
    using that by (induction rule: rtrancl_induct) (use x e snd in \<open>auto intro: rtrancl_into_rtrancl\<close>)
  ultimately show ?thesis by auto
qed

lemma length_ids_of: "length (Usecases c) \<le> length (ids_of c)"
proof -
  have "length us \<le> length (concat (map (\<lambda>u. cuId u # cuRequires u) us))" for us by (induction us) auto
  then show ?thesis by (simp add: ids_of_def)
qed

text \<open>The walk of \<open>Order\<close> in a sound catalog.\<close>

lemma sound_walk:
  assumes s: "sound_catalog opts c" and x: "x \<in> cuId ` set (Usecases c)"
  shows "\<exists>new. order_walk (cycle_adj c) (length (x # ids_of c)) x ({}, []) = (set new, new) \<and> distinct new \<and>
    set new = (requires c)\<^sup>* `` {x} \<and> topo (cycle_adj c) new \<and> new \<noteq> [] \<and> last new = x"
proof -
  let ?U = "cuId ` set (Usecases c)"
  have U: "finite ?U" "\<And>y. y \<in> ?U \<Longrightarrow> set (cycle_adj c y) \<subseteq> ?U"
    using sound_dom[OF s] by (auto simp: cycle_adj_def)
  have "card ?U \<le> length (x # ids_of c)"
    using card_image_le[of "set (Usecases c)" cuId] card_length[of "Usecases c"] length_ids_of[of c] by simp
  from walk_from_nothing[of ?U "cycle_adj c", OF U x this] obtain new where
    w: "order_walk (cycle_adj c) (length (x # ids_of c)) x ({}, []) = (set new, new)" "distinct new"
      "set new = (adj_edges (cycle_adj c))\<^sup>* `` {x}" "acyclic (adj_edges (cycle_adj c)) \<longrightarrow> topo (cycle_adj c) new"
    by blast
  have a: "acyclic (adj_edges (cycle_adj c))" using soundD(5)[OF s] .
  have n: "order_walk (cycle_adj c) (length (x # ids_of c)) x ({}, []) = (set new, new)" "distinct new"
      "set new = (requires c)\<^sup>* `` {x}" "topo (cycle_adj c) new"
    using w a requires_reach[OF s x] by auto
  then show ?thesis using order_walk_last[of x "{}" "cycle_adj c" "length (ids_of c)" "[]" "set new" new] by auto
qed

lemma Load_sound:
  assumes "Load typed parsed opts = (Some c, [])"
  shows "sound_catalog opts c"
  using assms validate_sound by (auto simp: Load_def split: sum.splits prod.splits)

lemma Order_sound:
  assumes s: "sound_catalog opts c" and u: "u \<in> set (Usecases c)"
  shows "\<exists>us. Order c (cuId u) = Some us \<and> distinct (map cuId us) \<and>
    set us = {v \<in> set (Usecases c). (cuId u, cuId v) \<in> (requires c)\<^sup>*} \<and> us \<noteq> [] \<and> last us = u \<and>
    (\<forall>i < length us. set (cuRequires (us ! i)) \<subseteq> set (map cuId (take i us)))"
proof -
  have x: "cuId u \<in> cuId ` set (Usecases c)" using u by simp
  obtain new where n: "order_walk (cycle_adj c) (length (cuId u # ids_of c)) (cuId u) ({}, []) = (set new, new)" "distinct new"
      "set new = (requires c)\<^sup>* `` {cuId u}" "topo (cycle_adj c) new" "new \<noteq> []" "last new = cuId u"
    using sound_walk[OF s x] by blast
  have adj: "(\<lambda>i. cuRequires (usecase_at c i)) = cycle_adj c" by (rule ext) (rule sound_cycle_adj[OF s, symmetric])
  let ?us = "map (usecase_at c) new"
  have O: "Order c (cuId u) = Some ?us" using sound_usecase_at[OF s u] n(1) by (simp add: Order_def adj)
  have sub: "set new \<subseteq> cuId ` set (Usecases c)" using n(3) requires_reach[OF s x] by simp
  then have id: "map cuId ?us = new" using sound_usecase_at[OF s] by (auto simp: comp_def intro!: map_idI)
  have "set ?us = {v \<in> set (Usecases c). (cuId u, cuId v) \<in> (requires c)\<^sup>*}"
  proof (intro equalityI subsetI)
    fix v assume "v \<in> set ?us"
    then obtain y where y: "y \<in> set new" "v = usecase_at c y" by auto
    then obtain w where "w \<in> set (Usecases c)" "y = cuId w" using sub by auto
    then show "v \<in> {v \<in> set (Usecases c). (cuId u, cuId v) \<in> (requires c)\<^sup>*}" using y n(3) sound_usecase_at[OF s] by auto
  next
    fix v assume "v \<in> {v \<in> set (Usecases c). (cuId u, cuId v) \<in> (requires c)\<^sup>*}"
    then show "v \<in> set ?us" using n(3) sound_usecase_at[OF s, of v] by (metis (mono_tags, lifting) Image_singleton_iff imageI mem_Collect_eq set_map)
  qed
  moreover have "last ?us = u" using n(5,6) sound_usecase_at[OF s u] by (simp add: last_map)
  moreover have "set (cuRequires (?us ! i)) \<subseteq> set (map cuId (take i ?us))" if "i < length ?us" for i
    using n(4) that by (simp only: take_map[symmetric] id) (simp add: topo_def sound_cycle_adj[OF s])
  ultimately show ?thesis using O id n(2,5) by (metis (no_types, lifting) map_is_Nil_conv)
qed

lemma closure_sound:
  assumes s: "sound_catalog opts c" and x: "x \<in> cuId ` set (Usecases c)"
  shows "set (catalog_closure c x) = (requires c)\<^sup>* `` {x}"
proof -
  have adj: "known_requires c y = cycle_adj c y" if "y \<in> cuId ` set (Usecases c)" for y
    using that sound_dom[OF s] by (auto simp: known_requires_def sound_cycle_adj[OF s] usecase_at_def split: option.splits)
  let ?U = "cuId ` set (Usecases c)"
  have U: "finite ?U" "\<And>y. y \<in> ?U \<Longrightarrow> set (known_requires c y) \<subseteq> ?U"
    using sound_dom[OF s] by (auto simp: adj cycle_adj_def)
  have "card ?U \<le> length (x # ids_of c)"
    using card_image_le[of "set (Usecases c)" cuId] card_length[of "Usecases c"] length_ids_of[of c] by simp
  from walk_from_nothing[of ?U "known_requires c", OF U x this] obtain new where
    n: "order_walk (known_requires c) (length (x # ids_of c)) x ({}, []) = (set new, new)"
      "set new = (adj_edges (known_requires c))\<^sup>* `` {x}" by blast
  have e: "(x, y) \<in> (adj_edges (known_requires c))\<^sup>* \<longleftrightarrow> (x, y) \<in> (adj_edges (cycle_adj c))\<^sup>*" for y
  proof
    assume "(x, y) \<in> (adj_edges (known_requires c))\<^sup>*"
    then have "(x, y) \<in> (adj_edges (cycle_adj c))\<^sup>* \<and> y \<in> ?U"
      by (induction rule: rtrancl_induct) (use x adj U in \<open>auto intro: rtrancl_into_rtrancl\<close>)
    then show "(x, y) \<in> (adj_edges (cycle_adj c))\<^sup>*" ..
  next
    assume "(x, y) \<in> (adj_edges (cycle_adj c))\<^sup>*"
    then have "(x, y) \<in> (adj_edges (known_requires c))\<^sup>* \<and> y \<in> ?U"
      by (induction rule: rtrancl_induct) (use x adj U in \<open>auto intro: rtrancl_into_rtrancl\<close>)
    then show "(x, y) \<in> (adj_edges (known_requires c))\<^sup>*" ..
  qed
  have "set (catalog_closure c x) = set new"
    using closure_walk_sees[of "known_requires c" "length (x # ids_of c)" x "[]" "[]"] n(1) by (simp add: catalog_closure_def)
  then show ?thesis using n(2) e requires_reach[OF s x] by auto
qed

section \<open>Setup\<close>

text \<open>
  A bundle ready to install (\<open>compiledBundle\<close> of src/internal/server/catalog.go): the bundle, its usecase, whether another one
  supersedes it, and its group.
\<close>

record compiledBundle =
  cmBundle :: CatalogBundle
  cmUsecase :: string
  cmSuperseded :: bool
  cmGroup :: "SupersedeGroup option"

definition compileBundle :: "CatalogState \<Rightarrow> groupState \<Rightarrow> CatalogUsecase \<Rightarrow> CatalogBundle \<Rightarrow> compiledBundle" where
  "compileBundle c st u b =
     \<lparr>cmBundle = b, cmUsecase = cuId u, cmSuperseded = (cbId b \<in> superseded c), cmGroup = group_of st (cbId b)\<rparr>"

definition compiledOrder :: "CatalogState \<Rightarrow> groupState \<Rightarrow> string \<Rightarrow> compiledBundle list option" where
  "compiledOrder c st x = map_option (\<lambda>us. concat (map (\<lambda>u. map (compileBundle c st u) (cuBundles u)) us)) (Order c x)"

definition walksBundle :: "compiledBundle \<Rightarrow> string set \<Rightarrow> bool" where
  "walksBundle cb have = (case cmGroup cb of None \<Rightarrow> True | Some g \<Rightarrow> cmSuperseded cb = OldKept g have)"

text \<open>The bundles the walk of \<open>catalogSetup\<close> covers in a space with the installed bundles \<open>have\<close>.\<close>

definition setupInstalls :: "CatalogState \<Rightarrow> groupState \<Rightarrow> string \<Rightarrow> string set \<Rightarrow> CatalogBundle list option" where
  "setupInstalls c st x have = map_option (\<lambda>cbs. map cmBundle (filter (\<lambda>cb. walksBundle cb have) cbs)) (compiledOrder c st x)"

text \<open>
  \<open>supersededInstalled\<close>: which bundles the space has. \<open>read1\<close> and \<open>read2\<close> are what the two listings of the registry
  answer, \<open>converged\<close> what the wait between them does; an error is \<open>Inl None\<close> when the registry is not synced and the
  listing's own otherwise.
\<close>

definition group_settled :: "SupersedeGroup list \<Rightarrow> string set \<Rightarrow> bool" where
  "group_settled groups have = list_all (\<lambda>g. OldKept g have \<or> NewAny g have) groups"

definition supersededInstalled :: "compiledBundle list \<Rightarrow> 'e + string list \<Rightarrow> bool \<Rightarrow> bool \<Rightarrow> 'e + string list \<Rightarrow> 'e option + string set" where
  "supersededInstalled cbs read1 converged isOwner read2 =
     (let groups = concat (map (\<lambda>cb. case cmGroup cb of None \<Rightarrow> [] | Some g \<Rightarrow> [g]) cbs) in
      if groups = [] then Inr {}
      else (case read1 of Inl e \<Rightarrow> Inl (Some e)
        | Inr rows \<Rightarrow>
            if group_settled groups (set rows) then Inr (set rows)
            else if \<not> converged \<and> \<not> isOwner then Inl None
            else (case read2 of Inl e \<Rightarrow> Inl (Some e) | Inr rows2 \<Rightarrow> Inr (set rows2))))"

section \<open>The shape of a space\<close>

lemma sound_bundle:
  assumes "sound_catalog opts c" "u \<in> set (Usecases c)" "b \<in> set (cuBundles u)"
  shows "\<exists>bp. bundle_clean opts (catalog_edges c) u bp b"
  using soundD(7)[OF assms(1)] assms(2,3) unfolding usecase_clean_def by blast

lemma in_pairs: "(x, b) \<in> set (pairs us) \<longleftrightarrow> (\<exists>u \<in> set us. x = cuId u \<and> b \<in> set (cuBundles u))"
  by (auto simp: pairs_def)

lemma supersede_edgesD:
  assumes "(a, b) \<in> set (supersede_edges us)"
  shows "\<exists>u \<in> set us. \<exists>x \<in> set (cuBundles u). cbId x = a \<and> b \<in> set (cbSupersedes x)"
  using assms by (auto simp: supersede_edges_def)

lemma sound_edge:
  assumes s: "sound_catalog opts c" and e: "(a, b) \<in> catalog_edges c"
  shows "b \<noteq> a \<and> b \<notin> fst ` catalog_edges c \<and> a \<notin> snd ` catalog_edges c"
proof -
  have *: "b \<noteq> a \<and> b \<notin> fst ` catalog_edges c" if "(a, b) \<in> catalog_edges c" for a b
  proof -
    from that obtain u x where u: "u \<in> set (Usecases c)" "x \<in> set (cuBundles u)" "cbId x = a" "b \<in> set (cbSupersedes x)"
      using supersede_edgesD unfolding catalog_edges_def by metis
    from sound_bundle[OF s u(1,2)] obtain bp where "check_supersedes (catalog_edges c) bp u x = []" by (auto simp: bundle_clean_def)
    moreover obtain i where "i < length (cbSupersedes x)" "cbSupersedes x ! i = b" using u(4) by (auto simp: in_set_conv_nth)
    ultimately show ?thesis using u(3) unfolding check_supersedes_def each_nil Let_def
      by (metis (no_types, lifting) flag_nil list.distinct(1))
  qed
  have "a \<notin> snd ` catalog_edges c"
  proof
    assume "a \<in> snd ` catalog_edges c"
    then obtain z where "(z, a) \<in> catalog_edges c" by auto
    then have "a \<notin> fst ` catalog_edges c" using * by blast
    then show False using e by force
  qed
  then show ?thesis using * e by blast
qed

lemma sound_bundle_unique:
  assumes s: "sound_catalog opts c" and "p \<in> set (pairs (Usecases c))" "q \<in> set (pairs (Usecases c))" "cbId (snd p) = cbId (snd q)"
  shows "p = q"
  using soundD(8)[OF s] assms(2-4) unfolding distinct_map inj_on_def by (metis comp_apply)

lemma set_holders: "set (holders bs h) = (cbId \<circ> snd) ` {p \<in> set bs. h \<in> set (handles (snd p))}"
proof (induction bs)
  case (Cons p bs)
  have "holders (p # bs) h = map (\<lambda>_. cbId (snd p)) (filter (\<lambda>y. y = h) (handles (snd p))) @ holders bs h"
    by (simp add: holders_def split_beta)
  moreover have "{q \<in> set (p # bs). h \<in> set (handles (snd q))} =
      (if h \<in> set (handles (snd p)) then {p} else {}) \<union> {q \<in> set bs. h \<in> set (handles (snd q))}" by auto
  ultimately show ?case using Cons by (auto simp: image_Un)
qed simp

text \<open>Two bundles with a handle in common: one supersedes the other.\<close>

lemma sound_shared:
  assumes s: "sound_catalog opts c" and p: "p \<in> set (pairs (Usecases c))" "h \<in> set (handles (snd p))"
    and q: "q \<in> set (pairs (Usecases c))" "h \<in> set (handles (snd q))" and ne: "cbId (snd p) \<noteq> cbId (snd q)"
  shows "sharesHandle (catalog_edges c) (cbId (snd p)) (cbId (snd q))"
proof -
  let ?l = "holders (pairs (Usecases c)) h"
  have mem: "cbId (snd r) \<in> set ?l" if "r \<in> set (pairs (Usecases c))" "h \<in> set (handles (snd r))" for r
    unfolding set_holders using that by (intro image_eqI[of _ _ r]) simp_all
  have srt: "sorted_wrt (\<lambda>h h'. sharesHandle (catalog_edges c) h' h) ?l" using soundD(10)[OF s] by (simp add: shared_def)
  obtain i where i: "i < length ?l" "?l ! i = cbId (snd p)" using mem[OF p] by (auto simp: in_set_conv_nth)
  obtain j where j: "j < length ?l" "?l ! j = cbId (snd q)" using mem[OF q] by (auto simp: in_set_conv_nth)
  consider "i < j" | "j < i" using i j ne by (metis linorder_neqE_nat)
  then show ?thesis
  proof cases
    case 1
    then show ?thesis using sorted_wrt_nth_less[OF srt 1 j(1)] i j by (auto simp: sharesHandle_def)
  next
    case 2
    then show ?thesis using sorted_wrt_nth_less[OF srt 2 i(1)] i j by (auto simp: sharesHandle_def)
  qed
qed

lemma bundle_handles_distinct:
  assumes "bundle_clean opts edges u bp b"
  shows "distinct (handles b)"
proof -
  have "cbType b = None \<or> cbCollection b = None"
    using assms by (auto simp: bundle_clean_def check_shape_def Let_def)
  then show ?thesis by (auto simp: handles_def split: option.splits)
qed

lemma walks_exactly_one:
  assumes s: "sound_catalog opts c" and es: "set es = catalog_edges c"
    and g: "groupSupersedes es (superseded c) (bundle_ids (Usecases c)) = Some st"
    and a: "(u, a) \<in> set (pairs (Usecases c))" and b: "(v, b) \<in> set (pairs (Usecases c))" and e: "(cbId a, cbId b) \<in> catalog_edges c"
  shows "walksBundle (compileBundle c st u' a) have \<longleftrightarrow> \<not> walksBundle (compileBundle c st v' b) have"
proof -
  have ids: "cbId a \<in> set (bundle_ids (Usecases c))" "cbId b \<in> set (bundle_ids (Usecases c))"
    using a b unfolding in_pairs bundle_ids_def by auto
  have f: "cbId a \<in> Field (set es)" "cbId b \<in> Field (set es)" using e es by (auto simp: Field_def)
  obtain st' where "groupSupersedes es (superseded c) (bundle_ids (Usecases c)) = Some st'"
    "\<forall>x. group_of st' x = (if x \<in> set (bundle_ids (Usecases c)) \<and> x \<in> Field (set es)
       then Some (component (set es) (superseded c) (bundle_ids (Usecases c)) x) else None)"
    using groups_connected by blast
  then have gr: "group_of st x = (if x \<in> set (bundle_ids (Usecases c)) \<and> x \<in> Field (set es)
       then Some (component (set es) (superseded c) (bundle_ids (Usecases c)) x) else None)" for x
    using g by simp
  have ab: "(cbId a, cbId b) \<in> conn (set es)" using e es by (simp add: conn_edge)
  have iff: "(cbId a, y) \<in> conn (set es) \<longleftrightarrow> (cbId b, y) \<in> conn (set es)" for y
    using ab conn_sym conn_trans by blast
  have "component (set es) (superseded c) (bundle_ids (Usecases c)) (cbId a) =
      component (set es) (superseded c) (bundle_ids (Usecases c)) (cbId b)" by (simp add: component_def iff)
  then have "group_of st (cbId a) = group_of st (cbId b)" "group_of st (cbId a) \<noteq> None" using gr ids f by simp_all
  moreover have "cbId a \<notin> superseded c" "cbId b \<in> superseded c"
    using sound_edge[OF s e] soundD(6)[OF s] e by force+
  ultimately show ?thesis by (auto simp: walksBundle_def compileBundle_def)
qed

lemma distinct_concat_by:
  assumes "distinct (map f xs)" "\<forall>x \<in> set xs. distinct (g x)"
    and "\<forall>x \<in> set xs. \<forall>y \<in> set xs. f x \<noteq> f y \<longrightarrow> set (g x) \<inter> set (g y) = {}"
  shows "distinct (concat (map g xs))"
  using assms
proof (induction xs)
  case (Cons x xs)
  have "f x \<noteq> f y" if "y \<in> set xs" for y using Cons.prems(1) that by auto
  then have "set (g x) \<inter> set (concat (map g xs)) = {}" using Cons.prems(3) by fastforce
  then show ?case using Cons by simp
qed simp

lemma setupInstalls_filter:
  assumes "Order c x = Some us" "setupInstalls c st x have = Some bs"
  shows "bs = concat (map (\<lambda>u. filter (\<lambda>b. walksBundle (compileBundle c st u b) have) (cuBundles u)) us)"
proof -
  have "map cmBundle (filter (\<lambda>cb. walksBundle cb have) (concat (map (\<lambda>u. map (compileBundle c st u) (cuBundles u)) us))) =
     concat (map (\<lambda>u. filter (\<lambda>b. walksBundle (compileBundle c st u b) have) (cuBundles u)) us)" for us
    by (induction us) (simp_all add: filter_map comp_def compileBundle_def)
  then show ?thesis using assms by (simp add: setupInstalls_def compiledOrder_def)
qed

section \<open>A usecase is set up after what it requires\<close>

definition demo_options :: Options where
  "demo_options = \<lparr>KnownTypeIds = [''page''], RootTypeIds = [''page'']\<rparr>"

definition demo_bundle :: "string \<Rightarrow> CatalogBundle" where
  "demo_bundle x = \<lparr>cbId = x, cbName = ''n'', cbHidden = False, cbRootType = [], cbType = None, cbCollection = None,
     cbMiniapp = None, cbParts = [], cbSupersedes = [], cbSuperseded = False\<rparr>"

definition demo_type :: "string \<Rightarrow> PropertyDraft list \<Rightarrow> CatalogType" where
  "demo_type h ps = \<lparr>tyXKey = h, tyLayout = Some (JvObj []), tyProperties = ps\<rparr>"

definition demo_relation :: "string \<Rightarrow> PropertyDraft" where
  "demo_relation t = \<lparr>prXKey = ''who'', prKind = ''string'', prMeta = [],
     prXFormat = Some (JvObj [(''type'', JvStr ''relation''), (''relation'', JvObj [(''targetTypes'', JvArr [JvStr t])])])\<rparr>"

definition demo_usecases :: "CatalogUsecase list" where
  "demo_usecases =
    [\<lparr>cuId = ''tasks'', cuName = ''T'', cuRequires = [''people''],
       cuBundles = [(demo_bundle ''system:task/v1'')\<lparr>cbType := Some (demo_type ''task'' [demo_relation ''person''])\<rparr>]\<rparr>,
     \<lparr>cuId = ''people'', cuName = ''P'', cuRequires = [],
       cuBundles = [(demo_bundle ''system:person/v1'')\<lparr>cbType := Some (demo_type ''person'' [])\<rparr>,
                    (demo_bundle ''system:person/v2'')\<lparr>cbType := Some (demo_type ''person'' []), cbSupersedes := [''system:person/v1'']\<rparr>]\<rparr>]"

definition demo_load :: "CatalogState option \<times> Problems" where
  "demo_load = Load (\<lambda>_. Some demo_usecases) (Some (YMap [])) demo_options"

lemma demo_clean: "snd demo_load = []"
  by code_simp

lemma demo_loaded: "\<exists>c. demo_load = (Some c, [])"
proof -
  have "fst demo_load \<noteq> None"
    using demo_clean by (simp add: demo_load_def Load_def decode_def split: prod.split)
  then show ?thesis using demo_clean by (metis option.collapse prod.collapse)
qed

definition demo_tasks :: CatalogUsecase where
  "demo_tasks = mark_superseded {''system:person/v1''} (demo_usecases ! 0)"

definition demo_people :: CatalogUsecase where
  "demo_people = mark_superseded {''system:person/v1''} (demo_usecases ! 1)"

lemma demo_state: "Usecases (the (fst demo_load)) = [demo_tasks, demo_people]"
  by code_simp

lemma demo_order: "Order (the (fst demo_load)) ''tasks'' = Some [demo_people, demo_tasks]"
  by code_simp

lemma demo_installs:
  "map (\<lambda>have. map_option (map cbId) (setupInstalls (the (fst demo_load))
      (the (groupSupersedes (supersede_edges (Usecases (the (fst demo_load)))) (superseded (the (fst demo_load)))
         (bundle_ids (Usecases (the (fst demo_load)))))) ''tasks'' have)) [{}, {''system:person/v1''}] =
   [Some [''system:person/v2'', ''system:task/v1''], Some [''system:person/v1'', ''system:task/v1'']]"
  by code_simp

lemma Order_in:
  assumes s: "sound_catalog opts c" and o: "Order c x = Some us"
  shows "set us \<subseteq> set (Usecases c) \<and> distinct (map cuId us) \<and> (\<forall>u \<in> set us. (x, cuId u) \<in> (requires c)\<^sup>*) \<and>
    (\<forall>v \<in> set (Usecases c). (x, cuId v) \<in> (requires c)\<^sup>* \<longrightarrow> v \<in> set us)"
proof -
  have "x \<in> dom (byId c)" using o by (auto simp: Order_def split: if_splits)
  then obtain w where "w \<in> set (Usecases c)" "x = cuId w" using sound_dom[OF s] by auto
  then show ?thesis using Order_sound[OF s, of w] o by auto
qed

lemma walked_ids_distinct:
  assumes s: "sound_catalog opts c" and "set us \<subseteq> set (Usecases c)" "distinct (map cuId us)"
  shows "distinct (map cbId (concat (map (\<lambda>u. filter (P u) (cuBundles u)) us)))"
  using assms(2,3)
proof (induction us)
  case (Cons u us)
  have p: "(cuId v, b) \<in> set (pairs (Usecases c))" if "v \<in> set (u # us)" "b \<in> set (cuBundles v)" for v b
    using that Cons.prems(1) unfolding in_pairs by auto
  have "distinct (map cbId (cuBundles u))"
  proof -
    obtain l r where "Usecases c = l @ u # r" using Cons.prems(1) by (meson list.set_intros(1) split_list subset_iff)
    then show ?thesis using soundD(8)[OF s] by (simp add: pairs_def comp_def)
  qed
  then have "distinct (map cbId (filter (P u) (cuBundles u)))" by (rule distinct_map_filter)
  moreover have "cbId b \<noteq> cbId b'" if "b \<in> set (cuBundles u)" "v \<in> set us" "b' \<in> set (cuBundles v)" for b b' v
  proof
    assume "cbId b = cbId b'"
    then have "(cuId u, b) = (cuId v, b')"
      using sound_bundle_unique[OF s p[of u b] p[of v b']] that by simp
    then show False using Cons.prems(2) that(2) by auto
  qed
  ultimately show ?case using Cons by auto
qed simp

lemma sound_target:
  assumes s: "sound_catalog opts c" and u: "u \<in> set (Usecases c)" and b: "b \<in> set (cuBundles u)"
    and d: "declaredProperties b = Some (props, grp)" and pr: "pr \<in> set props" and t: "t \<in> set (relationTargets (prXFormat pr))"
  shows "t \<in> known_ids opts \<or> usecase_reach c (cuId u) t"
proof -
  obtain i j k l where i: "i < length (Usecases c)" "Usecases c ! i = u" and j: "j < length (cuBundles u)" "cuBundles u ! j = b"
    and k: "k < length props" "props ! k = pr" and l: "l < length (relationTargets (prXFormat pr))" "relationTargets (prXFormat pr) ! l = t"
    using u b pr t by (metis in_set_conv_nth)
  have "byId c (cuId u) \<noteq> None" using sound_usecase_at[OF s u] ..
  then have "check_targets (known_ids opts) (usecase_reach c (cuId u)) (at_key [Key ''usecases'', Idx i] ''bundles'' j) b = []"
    using soundD(12)[OF s] i j by (auto simp: check_links_def each_nil Let_def)
  then show ?thesis using d k l by (auto simp: check_targets_def each_nil)
qed

lemma reach_in_order:
  assumes s: "sound_catalog opts c" and o: "Order c x = Some us" and u: "u \<in> set us" and r: "usecase_reach c (cuId u) t"
  shows "\<exists>v \<in> set us. \<exists>b' \<in> set (cuBundles v). t \<in> set (handles b')"
proof -
  note in_order = Order_in[OF s o]
  have u': "cuId u \<in> cuId ` set (Usecases c)" "(x, cuId u) \<in> (requires c)\<^sup>*" using in_order u by auto
  obtain owner where w: "types c t = Some owner" "owner \<in> set (catalog_closure c (cuId u))"
    using r by (auto simp: usecase_reach_def split: option.splits)
  from soundD(11)[OF s] have "types c t = None \<or> (\<exists>(u, b) \<in> set (pairs (Usecases c)). t \<in> set (handles b) \<and> types c t = Some u)"
    by (rule spec)
  then obtain b where b: "(owner, b) \<in> set (pairs (Usecases c))" "t \<in> set (handles b)" using w(1) by (auto simp: split_beta)
  then obtain v where v: "v \<in> set (Usecases c)" "owner = cuId v" "b \<in> set (cuBundles v)" unfolding in_pairs by blast
  have "(cuId u, cuId v) \<in> (requires c)\<^sup>*" using w(2) closure_sound[OF s u'(1)] v(2) by simp
  then have "v \<in> set us" using in_order v(1) u'(2) by (meson rtrancl_trans)
  then show ?thesis using v(3) b(2) by blast
qed

text \<open>
  C25. A usecase is set up after everything it requires. In a catalog that loads without a problem, the setup order of a
  usecase consists of exactly the usecases it transitively requires and itself, each once; every usecase comes after all it
  requires, and the requested one is last.
\<close>

theorem setup_order:
  assumes "Load typed parsed opts = (Some c, [])" and "u \<in> set (Usecases c)"
  shows "\<exists>us. Order c (cuId u) = Some us \<and> distinct (map cuId us) \<and>
    set us = {v \<in> set (Usecases c). (cuId u, cuId v) \<in> (requires c)\<^sup>*} \<and> us \<noteq> [] \<and> last us = u \<and>
    (\<forall>i < length us. set (cuRequires (us ! i)) \<subseteq> set (map cuId (take i us)))"
  using Order_sound[OF Load_sound[OF assms(1)] assms(2)] .

text \<open>
  C26. Setup never gives a space the same handle twice. In a catalog that loads without a problem, the grouping of the bundles
  ends for every order in which the loops over the maps meet the edges; and whatever a space has installed, the bundles setup
  covers there declare different handles, and of a bundle and one it supersedes setup covers exactly one.
\<close>

theorem setup_one_shape:
  assumes "Load typed parsed opts = (Some c, [])" and "set es = catalog_edges c" and "Order c x = Some us"
  shows "\<exists>st. groupSupersedes es (superseded c) (bundle_ids (Usecases c)) = Some st \<and>
    (\<exists>bs. setupInstalls c st x have = Some bs \<and> distinct (concat (map handles bs)) \<and>
      (\<forall>u \<in> set us. \<forall>a \<in> set (cuBundles u). \<forall>b \<in> set (cuBundles u).
         (cbId a, cbId b) \<in> catalog_edges c \<longrightarrow> (a \<in> set bs \<longleftrightarrow> b \<notin> set bs)))"
proof -
  have s: "sound_catalog opts c" by (rule Load_sound[OF assms(1)])
  obtain st where g: "groupSupersedes es (superseded c) (bundle_ids (Usecases c)) = Some st" using groups_connected by blast
  obtain bs where bs: "setupInstalls c st x have = Some bs" using assms(3) by (simp add: setupInstalls_def compiledOrder_def)
  note f = setupInstalls_filter[OF assms(3) bs]
  have us: "set us \<subseteq> set (Usecases c)" "distinct (map cuId us)" using Order_in[OF s assms(3)] by auto
  have walks: "walksBundle (compileBundle c st u b) have \<longleftrightarrow> walksBundle (compileBundle c st v b) have" for u v b
    by (simp add: walksBundle_def compileBundle_def split: option.split)
  have mem: "b \<in> set bs \<longleftrightarrow> walksBundle (compileBundle c st u b) have" if "u \<in> set us" "b \<in> set (cuBundles u)" for u b
    using that walks unfolding f by auto
  have one: "a \<in> set bs \<longleftrightarrow> b \<notin> set bs"
    if "u \<in> set us" "v \<in> set us" "a \<in> set (cuBundles u)" "b \<in> set (cuBundles v)" "(cbId a, cbId b) \<in> catalog_edges c" for u v a b
    using walks_exactly_one[OF s assms(2) g, of "cuId u" a "cuId v" b] that us(1) mem in_pairs by (metis subsetD)
  have src: "\<exists>u \<in> set us. b \<in> set (cuBundles u) \<and> (cuId u, b) \<in> set (pairs (Usecases c))" if "b \<in> set bs" for b
    using that us(1) unfolding f in_pairs by auto
  have "distinct (concat (map handles bs))"
  proof (rule distinct_concat_by[where f = cbId])
    show "distinct (map cbId bs)" unfolding f by (rule walked_ids_distinct[OF s us])
    show "\<forall>b \<in> set bs. distinct (handles b)"
      using src sound_bundle[OF s] us(1) bundle_handles_distinct by (metis subsetD)
    show "\<forall>a \<in> set bs. \<forall>b \<in> set bs. cbId a \<noteq> cbId b \<longrightarrow> set (handles a) \<inter> set (handles b) = {}"
    proof (intro ballI impI equals0I)
      fix a b h assume ab: "a \<in> set bs" "b \<in> set bs" "cbId a \<noteq> cbId b" and h: "h \<in> set (handles a) \<inter> set (handles b)"
      from src[OF ab(1)] obtain u where u: "u \<in> set us" "a \<in> set (cuBundles u)" "(cuId u, a) \<in> set (pairs (Usecases c))" by blast
      from src[OF ab(2)] obtain v where v: "v \<in> set us" "b \<in> set (cuBundles v)" "(cuId v, b) \<in> set (pairs (Usecases c))" by blast
      have "sharesHandle (catalog_edges c) (cbId a) (cbId b)" using sound_shared[OF s u(3) _ v(3), of h] h ab(3) by simp
      then show False using one[OF u(1) v(1) u(2) v(2)] one[OF v(1) u(1) v(2) u(2)] ab by (auto simp: sharesHandle_def)
    qed
  qed
  then show ?thesis using g bs one by blast
qed

text \<open>Both ends of a supersede edge are bundles of one usecase.\<close>

lemma edge_ends:
  assumes s: "sound_catalog opts c" and e: "(a, b) \<in> catalog_edges c"
  shows "\<exists>u \<in> set (Usecases c). \<exists>x \<in> set (cuBundles u). \<exists>y \<in> set (cuBundles u). cbId x = a \<and> cbId y = b"
proof -
  from e obtain u x where u: "u \<in> set (Usecases c)" "x \<in> set (cuBundles u)" "cbId x = a" "b \<in> set (cbSupersedes x)"
    using supersede_edgesD unfolding catalog_edges_def by metis
  from sound_bundle[OF s u(1,2)] obtain bp where "check_supersedes (catalog_edges c) bp u x = []" by (auto simp: bundle_clean_def)
  moreover obtain i where "i < length (cbSupersedes x)" "cbSupersedes x ! i = b" using u(4) by (auto simp: in_set_conv_nth)
  ultimately have "b \<in> set (map cbId (cuBundles u))" unfolding check_supersedes_def each_nil Let_def
    by (metis (no_types, lifting) flag_nil list.distinct(1))
  with u show ?thesis by auto
qed

text \<open>A bundle of the order that setup passes over has a bundle of its usecase in its place.\<close>

lemma passed_over:
  assumes s: "sound_catalog opts c" and es: "set es = catalog_edges c"
    and g: "groupSupersedes es (superseded c) (bundle_ids (Usecases c)) = Some st"
    and o: "Order c x = Some us" and bs: "setupInstalls c st x have = Some bs"
    and v: "v \<in> set us" "b \<in> set (cuBundles v)" and out: "b \<notin> set bs"
  shows "\<exists>a \<in> set (cuBundles v). a \<in> set bs \<and> ((cbId a, cbId b) \<in> catalog_edges c \<or> (cbId b, cbId a) \<in> catalog_edges c)"
proof -
  note f = setupInstalls_filter[OF o bs]
  have us: "set us \<subseteq> set (Usecases c)" using Order_in[OF s o] by blast
  have bp: "(cuId v, b) \<in> set (pairs (Usecases c))" using v us unfolding in_pairs by blast
  have walks: "walksBundle (compileBundle c st u b) have \<longleftrightarrow> walksBundle (compileBundle c st w b) have" for u w b
    by (simp add: walksBundle_def compileBundle_def split: option.split)
  have mem: "a \<in> set bs" if "a \<in> set (cuBundles v)" "walksBundle (compileBundle c st v a) have" for a
    using that v(1) unfolding f by auto
  have no: "\<not> walksBundle (compileBundle c st v b) have" using out v unfolding f by auto
  then have "group_of st (cbId b) \<noteq> None" by (auto simp: walksBundle_def compileBundle_def split: option.splits)
  moreover obtain st' where "groupSupersedes es (superseded c) (bundle_ids (Usecases c)) = Some st'"
    "\<forall>x. group_of st' x = (if x \<in> set (bundle_ids (Usecases c)) \<and> x \<in> Field (set es)
       then Some (component (set es) (superseded c) (bundle_ids (Usecases c)) x) else None)"
    using groups_connected by blast
  ultimately have "cbId b \<in> Field (catalog_edges c)" using g es by (auto split: if_splits)
  then obtain y where y: "(y, cbId b) \<in> catalog_edges c \<or> (cbId b, y) \<in> catalog_edges c" by (auto simp: Field_def)
  then obtain u a b' where u: "u \<in> set (Usecases c)" "a \<in> set (cuBundles u)" "b' \<in> set (cuBundles u)" "cbId a = y" "cbId b' = cbId b"
    using edge_ends[OF s] by metis
  have "(cuId u, b') = (cuId v, b)"
    using sound_bundle_unique[OF s _ bp, of "(cuId u, b')"] u unfolding in_pairs by auto
  moreover have "u = v" using calculation soundD(2)[OF s] u(1) v(1) us by (auto simp: distinct_map dest: inj_onD)
  ultimately have a: "a \<in> set (cuBundles v)" "(cuId v, a) \<in> set (pairs (Usecases c))"
    using u unfolding in_pairs by auto
  from y have "walksBundle (compileBundle c st v a) have"
    using walks_exactly_one[OF s es g a(2) bp] walks_exactly_one[OF s es g bp a(2)] no u(4) by blast
  with mem a(1) y u(4) show ?thesis by blast
qed

text \<open>
  C27. What the relations of a catalog name is there once a usecase is set up, or has been replaced. In a catalog that
  loads without a problem, every target of a relation a bundle declares is the id of a type registered with the
  server, or the handle of a bundle of a usecase in the same setup order, which setup covers in the space, or which
  it passes over because it covers a bundle of the same usecase in its place: one that supersedes it, or that it
  supersedes. The target may be a type or a collection, and the bundle in the place of the other need not
  declare the handle (lemma \<open>superseded_target_absent\<close>).
\<close>

theorem links_resolve:
  assumes "Load typed parsed opts = (Some c, [])" and "set es = catalog_edges c"
    and "Order c x = Some us" and "u \<in> set us" and "b \<in> set (cuBundles u)"
    and "declaredProperties b = Some (props, grp)" and "pr \<in> set props" and "t \<in> set (relationTargets (prXFormat pr))"
  shows "\<exists>st bs. groupSupersedes es (superseded c) (bundle_ids (Usecases c)) = Some st \<and>
    setupInstalls c st x have = Some bs \<and>
    (t \<in> known_ids opts \<or>
     (\<exists>v \<in> set us. \<exists>b' \<in> set (cuBundles v). t \<in> set (handles b') \<and>
        (b' \<in> set bs \<or>
         (\<exists>a \<in> set (cuBundles v). a \<in> set bs \<and>
            ((cbId a, cbId b') \<in> catalog_edges c \<or> (cbId b', cbId a) \<in> catalog_edges c)))))"
proof -
  have s: "sound_catalog opts c" by (rule Load_sound[OF assms(1)])
  have u: "u \<in> set (Usecases c)" using Order_in[OF s assms(3)] assms(4) by auto
  obtain st where g: "groupSupersedes es (superseded c) (bundle_ids (Usecases c)) = Some st" using groups_connected by blast
  obtain bs where bs: "setupInstalls c st x have = Some bs" using assms(3) by (simp add: setupInstalls_def compiledOrder_def)
  have "t \<in> known_ids opts \<or> usecase_reach c (cuId u) t" by (rule sound_target[OF s u assms(5-8)])
  moreover have "\<exists>v \<in> set us. \<exists>b' \<in> set (cuBundles v). t \<in> set (handles b')" if "usecase_reach c (cuId u) t"
    by (rule reach_in_order[OF s assms(3,4) that])
  moreover note passed_over[OF s assms(2) g assms(3) bs]
  ultimately show ?thesis using g bs by (intro exI[of _ st] exI[of _ bs]) blast
qed

text \<open>
  A catalog without a problem in which a relation targets the handle of a superseded bundle, and the bundle that
  supersedes it has another: a space set up for the first time has no type of that handle.
\<close>

definition renamed_usecases :: "CatalogUsecase list" where
  "renamed_usecases =
    [\<lparr>cuId = ''tasks'', cuName = ''T'', cuRequires = [],
       cuBundles = [(demo_bundle ''system:task/v1'')\<lparr>cbType := Some (demo_type ''task'' [demo_relation ''person''])\<rparr>,
                    (demo_bundle ''system:person/v1'')\<lparr>cbType := Some (demo_type ''person'' [])\<rparr>,
                    (demo_bundle ''system:person/v2'')\<lparr>cbType := Some (demo_type ''human'' []), cbSupersedes := [''system:person/v1'']\<rparr>]\<rparr>]"

lemma superseded_target_absent:
  "(let (co, ps) = Load (\<lambda>_. Some renamed_usecases) (Some (YMap [])) demo_options;
        c = the co;
        st = the (groupSupersedes (supersede_edges (Usecases c)) (superseded c) (bundle_ids (Usecases c)));
        bs = the (setupInstalls c st ''tasks'' {})
    in ps = [] \<and> map cbId bs = [''system:task/v1'', ''system:person/v2''] \<and>
       ''person'' \<notin> set (concat (map handles bs)) \<and> ''person'' \<notin> known_ids demo_options)"
  by code_simp

section \<open>Witnesses\<close>

theorem setup_order_witness:
  "\<exists>c us. demo_load = (Some c, []) \<and> Order c ''tasks'' = Some us \<and> map cuId us = [''people'', ''tasks''] \<and>
     set (cuRequires (us ! 1)) \<subseteq> set (map cuId (take 1 us))"
proof -
  obtain c where c: "demo_load = (Some c, [])" using demo_loaded by blast
  have u: "demo_tasks \<in> set (Usecases c)" using demo_state unfolding c by simp
  have t: "cuId demo_tasks = ''tasks''" "cuId demo_people = ''people''" by code_simp+
  from setup_order[OF c[unfolded demo_load_def] u] obtain us where us: "Order c ''tasks'' = Some us"
    "\<forall>i < length us. set (cuRequires (us ! i)) \<subseteq> set (map cuId (take i us))" unfolding t by blast
  have "us = [demo_people, demo_tasks]" using demo_order us(1) unfolding c by simp
  then have "map cuId us = [''people'', ''tasks'']" "set (cuRequires (us ! 1)) \<subseteq> set (map cuId (take 1 us))"
    using us(2)[rule_format, of 1] t by simp_all
  then show ?thesis using c us(1) by (intro exI conjI)
qed

theorem setup_one_shape_witness:
  "\<exists>c st bs. demo_load = (Some c, []) \<and>
     groupSupersedes (supersede_edges (Usecases c)) (superseded c) (bundle_ids (Usecases c)) = Some st \<and>
     setupInstalls c st ''tasks'' {''system:person/v1''} = Some bs \<and>
     map cbId bs = [''system:person/v1'', ''system:task/v1''] \<and> distinct (concat (map handles bs))"
proof -
  obtain c where c: "demo_load = (Some c, [])" using demo_loaded by blast
  have o: "Order c ''tasks'' = Some [demo_people, demo_tasks]" using demo_order unfolding c by (simp only: fst_conv option.sel)
  from setup_one_shape[OF c[unfolded demo_load_def] _ o, of "supersede_edges (Usecases c)" "{''system:person/v1''}"]
  obtain st bs where st: "groupSupersedes (supersede_edges (Usecases c)) (superseded c) (bundle_ids (Usecases c)) = Some st"
    "setupInstalls c st ''tasks'' {''system:person/v1''} = Some bs" "distinct (concat (map handles bs))"
    unfolding catalog_edges_def by blast
  have "map cbId bs = [''system:person/v1'', ''system:task/v1'']" using demo_installs st(1,2) unfolding c by simp
  then show ?thesis using c st by (intro exI conjI)
qed

theorem links_resolve_witness:
  "\<exists>c us st bs. demo_load = (Some c, []) \<and> Order c ''tasks'' = Some us \<and>
     groupSupersedes (supersede_edges (Usecases c)) (superseded c) (bundle_ids (Usecases c)) = Some st \<and>
     setupInstalls c st ''tasks'' {} = Some bs \<and>
     (''person'' \<in> known_ids demo_options \<or>
      (\<exists>v \<in> set us. \<exists>b \<in> set (cuBundles v). ''person'' \<in> set (handles b) \<and>
         (b \<in> set bs \<or> (\<exists>a \<in> set (cuBundles v). a \<in> set bs \<and>
            ((cbId a, cbId b) \<in> catalog_edges c \<or> (cbId b, cbId a) \<in> catalog_edges c)))))"
proof -
  obtain c where c: "demo_load = (Some c, [])" using demo_loaded by blast
  have o: "Order c ''tasks'' = Some [demo_people, demo_tasks]" using demo_order unfolding c by (simp only: fst_conv option.sel)
  have b: "hd (cuBundles demo_tasks) \<in> set (cuBundles demo_tasks)" by code_simp
  have u: "demo_tasks \<in> set [demo_people, demo_tasks]" by simp
  have d: "declaredProperties (hd (cuBundles demo_tasks)) = Some ([demo_relation ''person''], ''type'')" by code_simp
  have pr: "demo_relation ''person'' \<in> set [demo_relation ''person'']" by simp
  have t: "''person'' \<in> set (relationTargets (prXFormat (demo_relation ''person'')))" by code_simp
  have es: "set (supersede_edges (Usecases c)) = catalog_edges c" by (simp add: catalog_edges_def)
  note links_resolve[OF c[unfolded demo_load_def] es o u b d pr t, of "{}"]
  then show ?thesis using c o by blast
qed

end
