(* ===== verification/Bundles.thy ===== *)
theory Bundles
  imports Prelude
begin

text \<open>
  The bundles resolver (src/internal/bundles/bundles.go): installing a bundle or adopting the install a space has, and deleting
  the losing roots of one.

  The SDK is the record \<open>sdk\<close> of the calls the resolver makes: each is handed the state of the world and answers with the state
  after it, so what other devices write in between is part of its answer. The clock and the timers are calls as well. Of an install
  the fields the resolver looks at are modelled, not those it only hands to the SDK; the wrapping of errors with the bundle id is
  left out.
\<close>

section \<open>Rows, installs and errors\<close>

text \<open>A row of the registry (\<open>space.Bundle\<close>), and the answers of the resolver; \<open>SdkErr\<close> is any other error of the SDK.\<close>

record Row =
  bRootId :: string
  bDerived :: bool
  bRoots :: "string list"
  bLosers :: "string list"

definition noRow :: Row where
  "noRow = \<lparr>bRootId = [], bDerived = False, bRoots = [], bLosers = []\<rparr>"

datatype 'e berr = ErrNotInstalled | ErrRootNotLocal | ErrRegistryNotSynced | ErrLoserNotReady | ErrBundleNotLoser |
  XKeyConflict string string | SdkErr 'e

datatype role = Owner | Admin | Writer | Reader | Guest

definition may_write :: "role \<Rightarrow> bool" where
  "may_write r \<longleftrightarrow> r \<in> {Owner, Admin, Writer}"

record Install =
  inId :: string
  inRootCollections :: "string list"
  inDerived :: bool
  inXKey :: string
  inParts :: "string list"
  inProperties :: "string list"
  inCollection :: bool

definition DeclaresType :: "Install \<Rightarrow> bool" where
  "DeclaresType i \<longleftrightarrow> \<not> inCollection i \<and> (inParts i \<noteq> [] \<or> inProperties i \<noteq> [] \<or> inXKey i \<noteq> [])"

definition DeclaresCollection :: "Install \<Rightarrow> bool" where
  "DeclaresCollection i \<longleftrightarrow> inCollection i \<and> (inProperties i \<noteq> [] \<or> inXKey i \<noteq> [])"

definition Declares :: "Install \<Rightarrow> bool" where
  "Declares i \<longleftrightarrow> DeclaresType i \<or> DeclaresCollection i"

definition ReservedId :: "string \<Rightarrow> bool" where
  "ReservedId x = has_prefix ''system:'' x"

section \<open>The SDK\<close>

text \<open>
  \<open>sBundlesGet\<close> answers nothing for \<open>ErrBundleUnknown\<close> and \<open>sObjectsGet\<close> for \<open>ErrNotFound\<close>, and the row's collections
  otherwise; \<open>sPeers\<close> the connected network, local and global peers; \<open>sIndexRow\<close> the roots and the root of the raw row;
  \<open>sEnsure\<close> the row, whether the call registered it, and the root the callback minted; \<open>sResolveLoser\<close> answers
  \<open>Some None\<close> for \<open>ErrLoserNotSynced\<close> and \<open>sUninstall\<close> for \<open>ErrBundleUnknown\<close>.
\<close>

record ('w, 'e) sdk =
  sSpace :: string
  sRole :: role
  sBundlesGet :: "string \<Rightarrow> 'w \<Rightarrow> ('e + Row option) \<times> 'w"
  sObjectsGet :: "string \<Rightarrow> 'w \<Rightarrow> ('e + string list option) \<times> 'w"
  sParts :: "string \<Rightarrow> 'w \<Rightarrow> ('e + string list) \<times> 'w"
  sTypesGet :: "string \<Rightarrow> 'w \<Rightarrow> ('e + string) \<times> 'w"
  sCollectionsGet :: "string \<Rightarrow> 'w \<Rightarrow> ('e + string) \<times> 'w"
  sProperties :: "string \<Rightarrow> 'w \<Rightarrow> ('e + string list) \<times> 'w"
  sList :: "'w \<Rightarrow> ('e + Row list) \<times> 'w"
  sPeers :: "'w \<Rightarrow> (nat \<times> nat \<times> nat) \<times> 'w"
  sWaitIndexSynced :: "int \<Rightarrow> 'w \<Rightarrow> 'e option \<times> 'w"
  sIndexRow :: "string \<Rightarrow> 'w \<Rightarrow> ('e + (string list \<times> string) option) \<times> 'w"
  sUninstall :: "string \<Rightarrow> 'w \<Rightarrow> 'e option option \<times> 'w"
  sTypesList :: "'w \<Rightarrow> ('e + (string \<times> string) list) \<times> 'w"
  sCollectionsList :: "'w \<Rightarrow> ('e + (string \<times> string) list) \<times> 'w"
  sDerivedRootId :: "string \<Rightarrow> 'w \<Rightarrow> ('e + string) \<times> 'w"
  sEnsure :: "Install \<Rightarrow> 'w \<Rightarrow> ('e + Row \<times> bool \<times> string) \<times> 'w"
  sResolveLoser :: "string \<Rightarrow> string \<Rightarrow> 'w \<Rightarrow> 'e option option \<times> 'w"
  sQuiescent :: "string \<Rightarrow> 'w \<Rightarrow> bool \<times> 'w"
  sNow :: "'w \<Rightarrow> int \<times> 'w"
  sAfter :: "int \<Rightarrow> 'w \<Rightarrow> bool \<times> 'w" \<comment> \<open>whether the time passed before the context ended\<close>

text \<open>The resolver: the first observation of each loser, the retries in flight, and the world.\<close>

record 'w resolver =
  Grace :: int
  RetryDelay :: int
  IndexWait :: int
  OfflineIndexWait :: int
  firstSeen :: "string \<Rightarrow> int option"
  retrying :: "string set"
  rw :: 'w

definition call :: "('w \<Rightarrow> 'a \<times> 'w) \<Rightarrow> 'w resolver \<Rightarrow> 'a \<times> 'w resolver" where
  "call f r = (case f (rw r) of (a, w) \<Rightarrow> (a, r\<lparr>rw := w\<rparr>))"

definition loser_key :: "('w, 'e) sdk \<Rightarrow> string \<Rightarrow> string" where
  "loser_key S x = sSpace S @ ''/'' @ x"

text \<open>\<open>NewResolver\<close>; times are in seconds.\<close>

definition NewResolver :: "int \<Rightarrow> 'w \<Rightarrow> 'w resolver" where
  "NewResolver g w = \<lparr>Grace = g, RetryDelay = 30, IndexWait = 30, OfflineIndexWait = 3, firstSeen = (\<lambda>_. None), retrying = {}, rw = w\<rparr>"

definition Reset :: "'w resolver \<Rightarrow> 'w resolver" where
  "Reset r = r\<lparr>firstSeen := (\<lambda>_. None), retrying := {}\<rparr>"

section \<open>Losers\<close>

definition see :: "int \<Rightarrow> string \<Rightarrow> (string \<Rightarrow> int option) \<Rightarrow> string \<Rightarrow> int option" where
  "see now k m = (if m k = None then m(k \<mapsto> now) else m)"

definition observe :: "('w, 'e) sdk \<Rightarrow> Row \<Rightarrow> 'w resolver \<Rightarrow> 'w resolver" where
  "observe S b r = (if bLosers b = [] then r
     else (case call (sNow S) r of (now, r1) \<Rightarrow>
       r1\<lparr>firstSeen := fold (\<lambda>l. see now (loser_key S l)) (bLosers b) (firstSeen r1)\<rparr>))"

definition ready :: "('w, 'e) sdk \<Rightarrow> string \<Rightarrow> 'w resolver \<Rightarrow> bool \<times> 'w resolver" where
  "ready S x r =
     (let k = loser_key S x;
          r1 = (case firstSeen r k of Some _ \<Rightarrow> r
            | None \<Rightarrow> (case call (sNow S) r of (now, r1) \<Rightarrow> r1\<lparr>firstSeen := see now k (firstSeen r1)\<rparr>)) in
      case call (sNow S) r1 of (now, r2) \<Rightarrow>
        if now - the (firstSeen r2 k) \<ge> Grace r then call (sQuiescent S x) r2 else (False, r2))"

definition forget :: "('w, 'e) sdk \<Rightarrow> string \<Rightarrow> 'w resolver \<Rightarrow> 'w resolver" where
  "forget S x r = r\<lparr>firstSeen := (firstSeen r)(loser_key S x := None)\<rparr>"

section \<open>Reading the registry\<close>

definition GetBundle :: "('w, 'e) sdk \<Rightarrow> string \<Rightarrow> 'w resolver \<Rightarrow> ('e berr + Row) \<times> 'w resolver" where
  "GetBundle S x r = (case call (sBundlesGet S x) r of
     (Inl e, r1) \<Rightarrow> (Inl (SdkErr e), r1)
   | (Inr None, r1) \<Rightarrow> (Inl ErrNotInstalled, r1)
   | (Inr (Some b), r1) \<Rightarrow> (Inr b, observe S b r1))"

definition rootLocal :: "('w, 'e) sdk \<Rightarrow> string \<Rightarrow> 'w resolver \<Rightarrow> 'e berr option \<times> 'w resolver" where
  "rootLocal S x r = (case call (sObjectsGet S x) r of
     (Inl e, r1) \<Rightarrow> (Some (SdkErr e), r1)
   | (Inr None, r1) \<Rightarrow> (Some ErrRootNotLocal, r1)
   | (Inr (Some _), r1) \<Rightarrow> (None, r1))"

definition ListBundles :: "('w, 'e) sdk \<Rightarrow> 'w resolver \<Rightarrow> ('e berr + Row list) \<times> 'w resolver" where
  "ListBundles S r = (case call (sList S) r of
     (Inl e, r1) \<Rightarrow> (Inl (SdkErr e), r1)
   | (Inr rows, r1) \<Rightarrow> (Inr rows, fold (observe S) rows r1))"

text \<open>\<open>Roots\<close>: every root ever claimed, off the raw row.\<close>

definition Roots :: "('w, 'e) sdk \<Rightarrow> string \<Rightarrow> 'w \<Rightarrow> ('e + string set) \<times> 'w" where
  "Roots S x w = (case sIndexRow S x w of
     (Inl e, w1) \<Rightarrow> (Inl e, w1)
   | (Inr None, w1) \<Rightarrow> (Inr {}, w1)
   | (Inr (Some (rs, root)), w1) \<Rightarrow> (Inr (set rs \<union> (if root = [] then {} else {root})), w1))"

text \<open>\<open>adopt\<close> answers a row next to its error.\<close>

definition adopt :: "('w, 'e) sdk \<Rightarrow> string \<Rightarrow> 'w resolver \<Rightarrow> (Row \<times> 'e berr option) \<times> 'w resolver" where
  "adopt S x r = (case GetBundle S x r of
     (Inl e, r1) \<Rightarrow> ((noRow, Some e), r1)
   | (Inr b, r1) \<Rightarrow>
       if bRootId b = [] then ((noRow, Some ErrNotInstalled), r1)
       else (case rootLocal S (bRootId b) r1 of (e, r2) \<Rightarrow> ((b, e), r2)))"

definition tryAdopt :: "('w, 'e) sdk \<Rightarrow> Install \<Rightarrow> 'w resolver \<Rightarrow> ('e berr + Row \<times> bool) \<times> 'w resolver" where
  "tryAdopt S inst r = (case adopt S (inId inst) r of
     ((b, None), r1) \<Rightarrow> (Inr (b, True), r1)
   | ((b, Some ErrNotInstalled), r1) \<Rightarrow> (Inr (noRow, False), r1)
   | ((b, Some e), r1) \<Rightarrow>
       if inDerived inst \<and> bDerived b \<and> e = ErrRootNotLocal then (Inr (b, False), r1) else (Inl e, r1))"

section \<open>Installing\<close>

text \<open>
  \<open>settled\<close>: whether the adopted install needs nothing. The four probes in the order of the code: each answers whether what the
  request declares is missing, or nothing when a read fails (then the install is adopted as it is).
\<close>

definition probe :: "bool \<Rightarrow> ('a \<Rightarrow> bool) \<Rightarrow> ('w \<Rightarrow> ('e + 'a) \<times> 'w) \<Rightarrow> 'w resolver \<Rightarrow> bool option \<times> 'w resolver" where
  "probe wanted miss f r = (if \<not> wanted then (Some False, r)
     else (case call f r of (Inl e, r1) \<Rightarrow> (None, r1) | (Inr a, r1) \<Rightarrow> (Some (miss a), r1)))"

text \<open>A read for which \<open>ErrNotFound\<close> is an error like any other.\<close>

definition found_row :: "('w \<Rightarrow> ('e + 'a option) \<times> 'w) \<Rightarrow> 'w \<Rightarrow> ('e option + 'a) \<times> 'w" where
  "found_row f w = (case f w of (Inl e, w1) \<Rightarrow> (Inl (Some e), w1) | (Inr None, w1) \<Rightarrow> (Inl None, w1) | (Inr (Some a), w1) \<Rightarrow> (Inr a, w1))"

fun probes :: "('w resolver \<Rightarrow> bool option \<times> 'w resolver) list \<Rightarrow> 'w resolver \<Rightarrow> bool option \<times> 'w resolver" where
  "probes [] r = (Some False, r)"
| "probes (p # ps) r = (case p r of (Some False, r1) \<Rightarrow> probes ps r1 | (x, r1) \<Rightarrow> (x, r1))"

definition missing :: "('w, 'e) sdk \<Rightarrow> Install \<Rightarrow> Row \<Rightarrow> 'w resolver \<Rightarrow> bool option \<times> 'w resolver" where
  "missing S inst b =
     (let x = bRootId b in probes
      [probe (inRootCollections inst \<noteq> [] \<and> (inDerived inst \<and> bDerived b \<or> Declares inst))
         (\<lambda>have. \<not> set (inRootCollections inst) \<subseteq> set have) (found_row (sObjectsGet S x)),
       probe (inParts inst \<noteq> []) (\<lambda>defs. defs = []) (sParts S x),
       probe (inXKey inst \<noteq> []) (\<lambda>xkey. xkey = []) (if inCollection inst then sCollectionsGet S x else sTypesGet S x),
       probe (inProperties inst \<noteq> []) (\<lambda>have. \<not> set (inProperties inst) \<subseteq> set have) (sProperties S x)])"

definition install_settled :: "('w, 'e) sdk \<Rightarrow> Install \<Rightarrow> Row \<Rightarrow> 'w resolver \<Rightarrow> bool \<times> 'w resolver" where
  "install_settled S inst b r = (case missing S inst b r of
     (None, r1) \<Rightarrow> (True, r1) | (Some m, r1) \<Rightarrow> (\<not> m \<or> \<not> may_write (sRole S), r1))"

text \<open>\<open>waitFor\<close>: the offline bound while no peer is connected.\<close>

definition waitFor :: "'w resolver \<Rightarrow> nat \<times> nat \<times> nat \<Rightarrow> int" where
  "waitFor r peers = (if peers = (0, 0, 0) then OfflineIndexWait r else IndexWait r)"

definition waitSynced :: "('w, 'e) sdk \<Rightarrow> 'w resolver \<Rightarrow> 'e option \<times> 'w resolver" where
  "waitSynced S r = (case call (sPeers S) r of (peers, r1) \<Rightarrow> call (sWaitIndexSynced S (waitFor r1 peers)) r1)"

definition WaitConverged :: "('w, 'e) sdk \<Rightarrow> 'w resolver \<Rightarrow> bool \<times> 'w resolver" where
  "WaitConverged S r = (case waitSynced S r of (v, r1) \<Rightarrow> (v = None, r1))"

text \<open>\<open>oneWait\<close>: the wait's verdict, once it has been asked.\<close>

definition oneWait :: "('w, 'e) sdk \<Rightarrow> 'e option option \<Rightarrow> 'w resolver \<Rightarrow> 'e option option \<times> 'w resolver" where
  "oneWait S memo r = (case memo of Some v \<Rightarrow> (Some v, r)
     | None \<Rightarrow> (case waitSynced S r of (v, r1) \<Rightarrow> (Some v, r1)))"

definition converge :: "('w, 'e) sdk \<Rightarrow> Install \<Rightarrow> 'e option option \<Rightarrow> 'w resolver \<Rightarrow> ('e berr option \<times> 'e option option) \<times> 'w resolver" where
  "converge S inst memo r = (case oneWait S memo r of
     (memo', r1) \<Rightarrow>
       ((if memo' = Some None \<or> inDerived inst \<or> sRole S = Owner then None else Some ErrRegistryNotSynced, memo'), r1))"

text \<open>The request to the SDK and what the call means for the caller.\<close>

definition install :: "('w, 'e) sdk \<Rightarrow> Install \<Rightarrow> 'w resolver \<Rightarrow> (Row \<times> bool \<times> 'e berr option) \<times> 'w resolver" where
  "install S inst r = (case call (sEnsure S inst) r of
     (Inl e, r1) \<Rightarrow> ((noRow, False, Some (SdkErr e)), r1)
   | (Inr (b, registered, created), r1) \<Rightarrow>
       let installed = (if inDerived inst \<or> Declares inst then registered
             else registered \<and> created \<noteq> [] \<and> bRootId b = created) in
       (case rootLocal S (bRootId b) (observe S b r1) of
          (Some e, r2) \<Rightarrow> ((b, False, Some e), r2)
        | (None, r2) \<Rightarrow> ((b, installed, None), r2)))"

text \<open>\<open>adopted && settled(existing)\<close>.\<close>

definition adoptable :: "('w, 'e) sdk \<Rightarrow> Install \<Rightarrow> Row \<times> bool \<Rightarrow> 'w resolver \<Rightarrow> bool \<times> 'w resolver" where
  "adoptable S inst ex r = (if snd ex then install_settled S inst (fst ex) r else (False, r))"

definition ensure :: "('w, 'e) sdk \<Rightarrow> (Install \<Rightarrow> 'w \<Rightarrow> 'e berr option \<times> 'w) \<Rightarrow> Install \<Rightarrow> 'e option option \<Rightarrow> 'w resolver \<Rightarrow>
    ((Row \<times> bool \<times> 'e berr option) \<times> 'e option option) \<times> 'w resolver" where
  "ensure S before inst memo r = (case tryAdopt S inst r of
     (Inl e, r1) \<Rightarrow> (((noRow, False, Some e), memo), r1)
   | (Inr ex, r1) \<Rightarrow>
     (case adoptable S inst ex r1 of
        (True, r2) \<Rightarrow> (((fst ex, False, None), memo), r2)
      | (False, r2) \<Rightarrow>
        if bRootId (fst ex) \<noteq> [] then (case install S inst r2 of (a, r3) \<Rightarrow> ((a, memo), r3))
        else (case converge S inst memo r2 of
            ((Some e, memo'), r3) \<Rightarrow> (((noRow, False, Some e), memo'), r3)
          | ((None, memo'), r3) \<Rightarrow>
            (case tryAdopt S inst r3 of
               (Inl e, r4) \<Rightarrow> (((noRow, False, Some e), memo'), r4)
             | (Inr ex', r4) \<Rightarrow>
               (case adoptable S inst ex' r4 of
                  (True, r5) \<Rightarrow> (((fst ex', False, None), memo'), r5)
                | (False, r5) \<Rightarrow>
                  (case (if bRootId (fst ex') = [] then call (before inst) r5 else (None, r5)) of
                     (Some e, r6) \<Rightarrow> (((noRow, False, Some e), memo'), r6)
                   | (None, r6) \<Rightarrow> (case install S inst r6 of (a, r7) \<Rightarrow> ((a, memo'), r7))))))))"

definition EnsureBundle :: "('w, 'e) sdk \<Rightarrow> Install \<Rightarrow> 'w resolver \<Rightarrow> (Row \<times> bool \<times> 'e berr option) \<times> 'w resolver" where
  "EnsureBundle S inst r = (case ensure S (\<lambda>_ w. (None, w)) inst None r of ((a, _), r1) \<Rightarrow> (a, r1))"

text \<open>\<open>Setup\<close>: the results up to the first failure, and that failure with its install.\<close>

fun setup_from :: "('w, 'e) sdk \<Rightarrow> (Install \<Rightarrow> 'w \<Rightarrow> 'e berr option \<times> 'w) \<Rightarrow> Install list \<Rightarrow> 'e option option \<Rightarrow> 'w resolver \<Rightarrow>
    ((Install \<times> Row \<times> bool) list \<times> (Install \<times> 'e berr) option) \<times> 'w resolver" where
  "setup_from S before [] memo r = (([], None), r)"
| "setup_from S before (inst # insts) memo r = (case ensure S before inst memo r of
     (((b, installed, Some e), memo'), r1) \<Rightarrow> (([], Some (inst, e)), r1)
   | (((b, installed, None), memo'), r1) \<Rightarrow>
       (case setup_from S before insts memo' r1 of ((rs, f), r2) \<Rightarrow> (((inst, b, installed) # rs, f), r2)))"

definition Setup :: "('w, 'e) sdk \<Rightarrow> (Install \<Rightarrow> 'w \<Rightarrow> 'e berr option \<times> 'w) \<Rightarrow> Install list \<Rightarrow> 'w resolver \<Rightarrow>
    ((Install \<times> Row \<times> bool) list \<times> (Install \<times> 'e berr) option) \<times> 'w resolver" where
  "Setup S before insts r = setup_from S before insts None r"

section \<open>Resolving losers\<close>

definition Resolve :: "('w, 'e) sdk \<Rightarrow> string \<Rightarrow> string \<Rightarrow> 'w resolver \<Rightarrow> 'e berr option \<times> 'w resolver" where
  "Resolve S x loser r = (case GetBundle S x r of
     (Inl e, r1) \<Rightarrow> (Some e, r1)
   | (Inr b, r1) \<Rightarrow>
       if loser = bRootId b \<or> loser \<notin> set (bRoots b) then (Some ErrBundleNotLoser, r1)
       else if loser \<notin> set (bLosers b) then (None, forget S loser r1)
       else (case ready S loser r1 of
          (False, r2) \<Rightarrow> (Some ErrLoserNotReady, r2)
        | (True, r2) \<Rightarrow> (case call (sResolveLoser S x loser) r2 of
             (Some None, r3) \<Rightarrow> (Some ErrLoserNotReady, r3)
           | (Some (Some e), r3) \<Rightarrow> (Some (SdkErr e), r3)
           | (None, r3) \<Rightarrow> (None, forget S loser r3))))"

definition retryMaxDelay :: int where "retryMaxDelay = 600"
definition retryAttempts :: nat where "retryAttempts = 6"

text \<open>The loop of \<open>ResolveRetry\<close>, with the attempts left.\<close>

fun retry_loop :: "('w, 'e) sdk \<Rightarrow> string \<Rightarrow> string \<Rightarrow> int \<Rightarrow> nat \<Rightarrow> 'w resolver \<Rightarrow> 'w resolver" where
  "retry_loop S x loser delay 0 r = r"
| "retry_loop S x loser delay (Suc n) r = (case call (sAfter S delay) r of
     (False, r1) \<Rightarrow> r1
   | (True, r1) \<Rightarrow> (case Resolve S x loser r1 of
       (e, r2) \<Rightarrow> if e \<in> {None, Some ErrBundleNotLoser, Some ErrNotInstalled} then r2
         else retry_loop S x loser (min (delay * 2) retryMaxDelay) n r2))"

definition ResolveRetry :: "('w, 'e) sdk \<Rightarrow> string \<Rightarrow> string \<Rightarrow> 'w resolver \<Rightarrow> 'w resolver" where
  "ResolveRetry S x loser r =
     (let k = sSpace S @ ''/'' @ x @ ''/'' @ loser in
      if k \<in> retrying r then r
      else let r1 = retry_loop S x loser (RetryDelay r) retryAttempts (r\<lparr>retrying := insert k (retrying r)\<rparr>) in
        r1\<lparr>retrying := retrying r1 - {k}\<rparr>)"

text \<open>\<open>Uninstall\<close>: the observations of the swept roots are forgotten.\<close>

definition Uninstall :: "('w, 'e) sdk \<Rightarrow> string \<Rightarrow> 'w resolver \<Rightarrow> 'e berr option \<times> 'w resolver" where
  "Uninstall S x r = (case call (sUninstall S x) r of
     (Some None, r1) \<Rightarrow> (Some ErrNotInstalled, r1)
   | (Some (Some e), r1) \<Rightarrow> (Some (SdkErr e), r1)
   | (None, r1) \<Rightarrow> (case call (Roots S x) r1 of
        (Inl e, r2) \<Rightarrow> (None, r2)
      | (Inr roots, r2) \<Rightarrow> (None, r2\<lparr>firstSeen := (\<lambda>k. if k \<in> loser_key S ` roots then None else firstSeen r2 k)\<rparr>)))"

section \<open>The rules of a catalog install\<close>

text \<open>
  \<open>catalogBeforeInstall\<close> (src/internal/server/handlers_catalog.go): a type or collection that holds the handle, by its xKey or
  its id, is in the way, unless it is a root of the bundle itself. The roots are read when the first such definition is met.
\<close>

definition own_roots :: "('w, 'e) sdk \<Rightarrow> Install \<Rightarrow> 'w \<Rightarrow> ('e + string set) \<times> 'w" where
  "own_roots S inst w = (case Roots S (inId inst) w of
     (Inl e, w1) \<Rightarrow> (Inl e, w1)
   | (Inr own, w1) \<Rightarrow>
       if \<not> inDerived inst then (Inr own, w1)
       else (case sDerivedRootId S (inId inst) w1 of (Inl e, w2) \<Rightarrow> (Inl e, w2) | (Inr x, w2) \<Rightarrow> (Inr (insert x own), w2)))"

definition catalogBeforeInstall :: "('w, 'e) sdk \<Rightarrow> Install \<Rightarrow> 'w \<Rightarrow> 'e berr option \<times> 'w" where
  "catalogBeforeInstall S inst w =
     (if inXKey inst = [] \<or> \<not> may_write (sRole S) then (None, w)
      else (case sTypesList S w of
        (Inl e, w1) \<Rightarrow> (Some (SdkErr e), w1)
      | (Inr ts, w1) \<Rightarrow> (case sCollectionsList S w1 of
          (Inl e, w2) \<Rightarrow> (Some (SdkErr e), w2)
        | (Inr cs, w2) \<Rightarrow>
            let holders = filter (\<lambda>(x, xkey). xkey = inXKey inst \<or> x = inXKey inst) (ts @ cs) in
            if holders = [] then (None, w2)
            else (case own_roots S inst w2 of
               (Inl e, w3) \<Rightarrow> (Some (SdkErr e), w3)
             | (Inr own, w3) \<Rightarrow> (case find (\<lambda>(x, _). x \<notin> own) holders of
                  None \<Rightarrow> (None, w3) | Some (x, _) \<Rightarrow> (Some (XKeyConflict (inXKey inst) x), w3))))))"

section \<open>When an install writes\<close>

text \<open>
  That a call reaches the SDK's \<open>Ensure\<close>: its result depends on what \<open>Ensure\<close> would answer. The same for \<open>ResolveLoser\<close>.
\<close>

definition calls_ensure :: "('w, 'e) sdk \<Rightarrow> (Install \<Rightarrow> 'w \<Rightarrow> 'e berr option \<times> 'w) \<Rightarrow> Install \<Rightarrow> 'e option option \<Rightarrow> 'w resolver \<Rightarrow> bool" where
  "calls_ensure S before inst memo r \<longleftrightarrow>
     (\<exists>f g. ensure (S\<lparr>sEnsure := f\<rparr>) before inst memo r \<noteq> ensure (S\<lparr>sEnsure := g\<rparr>) before inst memo r)"

definition deletes :: "('w, 'e) sdk \<Rightarrow> string \<Rightarrow> string \<Rightarrow> 'w resolver \<Rightarrow> bool" where
  "deletes S x loser r \<longleftrightarrow> (\<exists>f g. Resolve (S\<lparr>sResolveLoser := f\<rparr>) x loser r \<noteq> Resolve (S\<lparr>sResolveLoser := g\<rparr>) x loser r)"

lemma reads_update [simp]:
  "loser_key (S\<lparr>sEnsure := f\<rparr>) = loser_key S" "loser_key (S\<lparr>sResolveLoser := h\<rparr>) = loser_key S"
  "observe (S\<lparr>sEnsure := f\<rparr>) = observe S" "observe (S\<lparr>sResolveLoser := h\<rparr>) = observe S"
  "GetBundle (S\<lparr>sEnsure := f\<rparr>) = GetBundle S" "GetBundle (S\<lparr>sResolveLoser := h\<rparr>) = GetBundle S"
  "rootLocal (S\<lparr>sEnsure := f\<rparr>) = rootLocal S"
  "tryAdopt (S\<lparr>sEnsure := f\<rparr>) = tryAdopt S"
  "install_settled (S\<lparr>sEnsure := f\<rparr>) = install_settled S" "adoptable (S\<lparr>sEnsure := f\<rparr>) = adoptable S"
  "oneWait (S\<lparr>sEnsure := f\<rparr>) = oneWait S" "converge (S\<lparr>sEnsure := f\<rparr>) = converge S"
  "ready (S\<lparr>sResolveLoser := h\<rparr>) = ready S" "forget (S\<lparr>sResolveLoser := h\<rparr>) = forget S"
  unfolding fun_eq_iff
  by (simp_all add: loser_key_def observe_def GetBundle_def rootLocal_def tryAdopt_def adopt_def install_settled_def missing_def adoptable_def
      oneWait_def waitSynced_def converge_def ready_def forget_def cong: prod.case_cong sum.case_cong option.case_cong if_cong)

lemma tryAdopt_adopted:
  assumes "tryAdopt S inst r = (Inr ex, r1)"
  shows "(snd ex \<longrightarrow> bRootId (fst ex) \<noteq> []) \<and> (\<not> snd ex \<and> bRootId (fst ex) \<noteq> [] \<longrightarrow> inDerived inst)"
  using assms by (auto simp: tryAdopt_def adopt_def noRow_def split: prod.splits sum.splits option.splits berr.splits if_splits)

lemma settled_reader: "\<not> may_write (sRole S) \<Longrightarrow> fst (install_settled S inst b r)"
  by (auto simp: install_settled_def split: prod.splits option.splits)

text \<open>
  C28. An install is never made blind. When a call reaches the SDK's \<open>Ensure\<close>, the registry was read; if the read named an
  install the caller can adopt, the caller may write; otherwise the install is derived, or the caller owns the space, or the
  registry has converged since (in this call or an earlier one of the same setup).
\<close>

theorem install_gated:
  assumes "calls_ensure S before inst memo r"
  shows "\<exists>ex r1. tryAdopt S inst r = (Inr ex, r1) \<and>
    (if snd ex then may_write (sRole S)
     else inDerived inst \<or> sRole S = Owner \<or> fst (oneWait S memo r1) = Some None)"
proof -
  obtain f g where ne: "ensure (S\<lparr>sEnsure := f\<rparr>) before inst memo r \<noteq> ensure (S\<lparr>sEnsure := g\<rparr>) before inst memo r"
    using assms by (auto simp: calls_ensure_def)
  obtain a r1 where t: "tryAdopt S inst r = (a, r1)" by fastforce
  then obtain ex where a: "a = Inr ex" using ne by (cases a) (auto simp: ensure_def)
  note e = tryAdopt_adopted[OF t[unfolded a]]
  show ?thesis
  proof (cases "snd ex")
    case True
    have "may_write (sRole S)"
    proof (rule ccontr)
      assume "\<not> may_write (sRole S)"
      then obtain r2 where "adoptable S inst ex r1 = (True, r2)"
        using settled_reader[of S inst "fst ex" r1] True by (cases "install_settled S inst (fst ex) r1") (auto simp: adoptable_def)
      then show False using ne t a by (simp add: ensure_def)
    qed
    then show ?thesis using t a True by (intro exI[of _ ex] exI[of _ r1]) simp
  next
    case False
    have "inDerived inst \<or> sRole S = Owner \<or> fst (oneWait S memo r1) = Some None"
    proof (rule ccontr)
      assume no: "\<not> ?thesis"
      then have "bRootId (fst ex) = []" using e False by blast
      moreover obtain memo' r2 where "oneWait S memo r1 = (memo', r2)" by fastforce
      ultimately show False using ne t a no False by (simp add: ensure_def adoptable_def converge_def)
    qed
    then show ?thesis using t a False by (intro exI[of _ ex] exI[of _ r1]) simp
  qed
qed

section \<open>The window of a loser\<close>

text \<open>An observation, once made, keeps its time.\<close>

lemma see_keeps: "m k = Some t \<Longrightarrow> see now k' m k = Some t"
  by (auto simp: see_def)

lemma see_sees: "see now k m k \<noteq> None"
  by (simp add: see_def)

lemma fold_see_keeps: "m k = Some t \<Longrightarrow> fold (\<lambda>l. see now (g l)) ls m k = Some t"
  by (induction ls arbitrary: m) (auto simp: see_keeps)

lemma fold_see_sees: "l \<in> set ls \<Longrightarrow> fold (\<lambda>l. see now (g l)) ls m (g l) \<noteq> None"
proof (induction ls arbitrary: m)
  case (Cons a ls)
  show ?case
  proof (cases "a = l")
    case True
    obtain t where "see now (g l) m (g l) = Some t" using see_sees by blast
    then have "fold (\<lambda>l. see now (g l)) ls (see now (g l) m) (g l) = Some t" by (rule fold_see_keeps)
    then show ?thesis using True by simp
  next
    case False
    then show ?thesis using Cons by simp
  qed
qed simp

definition keeps :: "string \<Rightarrow> 'w resolver \<Rightarrow> 'w resolver \<Rightarrow> bool" where
  "keeps k r r' \<longleftrightarrow> Grace r' = Grace r \<and> (\<forall>t. firstSeen r k = Some t \<longrightarrow> firstSeen r' k = Some t)"

lemma keeps_refl [simp]: "keeps k r r"
  by (simp add: keeps_def)

lemma keeps_trans: "keeps k r r1 \<Longrightarrow> keeps k r1 r2 \<Longrightarrow> keeps k r r2"
  by (simp add: keeps_def)

lemma keeps_call: "keeps k r (snd (call f r))"
  by (auto simp: call_def keeps_def split: prod.splits)

lemma keeps_observe: "keeps k r (observe S b r)"
  by (auto simp: observe_def call_def keeps_def fold_see_keeps split: prod.splits)

lemma keeps_bind:
  "keeps k r (snd p) \<Longrightarrow> (\<And>a r1. keeps k r1 (snd (G a r1))) \<Longrightarrow> keeps k r (snd (case p of (a, r1) \<Rightarrow> G a r1))"
  by (auto simp: split_beta intro: keeps_trans)

lemma keeps_option:
  "keeps k r (snd A) \<Longrightarrow> (\<And>e. keeps k r (snd (B e))) \<Longrightarrow> keeps k r (snd (case x of None \<Rightarrow> A | Some e \<Rightarrow> B e))"
  by (simp split: option.split)

lemma keeps_sum:
  "(\<And>e. keeps k r (snd (A e))) \<Longrightarrow> (\<And>e. keeps k r (snd (B e))) \<Longrightarrow> keeps k r (snd (case x of Inl e \<Rightarrow> A e | Inr e \<Rightarrow> B e))"
  by (simp split: sum.split)

lemma keeps_bool:
  "keeps k r (snd A) \<Longrightarrow> keeps k r (snd B) \<Longrightarrow> keeps k r (snd (case x of True \<Rightarrow> A | False \<Rightarrow> B))"
  by (simp split: bool.split)

lemma keeps_if: "keeps k r (snd A) \<Longrightarrow> keeps k r (snd B) \<Longrightarrow> keeps k r (snd (if x then A else B))"
  by simp

text \<open>A pair that is no state: an answer of several parts.\<close>

lemma keeps_pair:
  fixes q :: "'c \<times> 'd option"
  shows "(\<And>x y. keeps k r (snd (G x y))) \<Longrightarrow> keeps k r (snd (case q of (x, y) \<Rightarrow> G x y))"
  by (simp split: prod.split)

lemma keeps_answer: "keeps k r (snd (a, r))"
  by simp

lemmas keeps_intros = keeps_bind keeps_call keeps_option keeps_sum keeps_bool keeps_if keeps_pair keeps_answer

lemma keeps_Get: "keeps k r (snd (GetBundle S x r))"
  unfolding GetBundle_def by (intro keeps_bind keeps_call) (auto simp: keeps_observe split: sum.split option.split)

lemma keeps_rootLocal: "keeps k r (snd (rootLocal S x r))"
  unfolding rootLocal_def by (intro keeps_bind keeps_call) (auto split: sum.split option.split)

lemma keeps_List: "keeps k r (snd (ListBundles S r))"
proof -
  have "keeps k r (fold (observe S) rows r)" for rows r
    by (induction rows arbitrary: r) (auto intro: keeps_trans keeps_observe)
  then show ?thesis unfolding ListBundles_def by (intro keeps_bind keeps_call) (auto split: sum.split)
qed

lemma keeps_adopt: "keeps k r (snd (adopt S x r))"
  unfolding adopt_def
  by (intro keeps_bind keeps_Get) (auto simp: split_beta keeps_rootLocal split: sum.split)

lemma keeps_tryAdopt: "keeps k r (snd (tryAdopt S inst r))"
  unfolding tryAdopt_def by (intro keeps_bind keeps_adopt) (auto split: prod.split option.split berr.split)

lemma keeps_probe: "keeps k r (snd (probe w m f r))"
  unfolding probe_def by (auto simp del: split_paired_All intro!: keeps_bind keeps_call split: sum.split)

lemma keeps_probes: "\<forall>p \<in> set ps. \<forall>r. keeps k r (snd (p r)) \<Longrightarrow> keeps k r (snd (probes ps r))"
proof (induction ps arbitrary: r)
  case (Cons p ps)
  obtain a r1 where p: "p r = (a, r1)" by fastforce
  then have "keeps k r r1" using Cons.prems by (metis list.set_intros(1) snd_conv)
  then show ?case using p Cons.IH[of r1] Cons.prems keeps_trans by (cases a) (auto split: bool.splits)
qed simp

lemma keeps_adoptable: "keeps k r (snd (adoptable S inst ex r))"
proof -
  have "keeps k r (snd (missing S inst b r))" for b
    unfolding missing_def Let_def by (rule keeps_probes) (auto simp: keeps_probe)
  then have "keeps k r (snd (install_settled S inst b r))" for b
    unfolding install_settled_def by (intro keeps_intros)
  then show ?thesis by (simp add: adoptable_def)
qed

lemma keeps_waitSynced: "keeps k r (snd (waitSynced S r))"
  unfolding waitSynced_def by (intro keeps_bind keeps_call)

lemma keeps_oneWait: "keeps k r (snd (oneWait S memo r))"
  unfolding oneWait_def by (auto split: option.split intro!: keeps_bind keeps_waitSynced)

lemma keeps_converge: "keeps k r (snd (converge S inst memo r))"
  unfolding converge_def by (intro keeps_bind keeps_oneWait) simp

lemma keeps_install: "keeps k r (snd (install S inst r))"
  unfolding install_def
proof (intro keeps_bind keeps_call)
  fix a :: "'b + Row \<times> bool \<times> string" and r1 :: "'a resolver"
  have "keeps k r1 (snd (case rootLocal S (bRootId b) (observe S b r1) of (e, r2) \<Rightarrow> case e of Some e \<Rightarrow> ((b, False, Some e), r2) | None \<Rightarrow> ((b, i, None), r2)))" for b i
    by (rule keeps_bind) (auto intro: keeps_trans keeps_observe keeps_rootLocal split: option.split)
  then show "keeps k r1 (snd (case a of Inl e \<Rightarrow> ((noRow, False, Some (SdkErr e)), r1)
      | Inr (b, registered, created) \<Rightarrow>
        let installed = if inDerived inst \<or> Declares inst then registered else registered \<and> created \<noteq> [] \<and> bRootId b = created in
        case rootLocal S (bRootId b) (observe S b r1) of (e, r2) \<Rightarrow> case e of None \<Rightarrow> ((b, installed, None), r2) | Some e \<Rightarrow> ((b, False, Some e), r2)))"
    by (simp add: Let_def split: sum.split prod.split)
qed

lemma keeps_ensure: "keeps k r (snd (ensure S before inst memo r))"
  unfolding ensure_def
  by (intro keeps_intros keeps_tryAdopt keeps_adoptable keeps_converge keeps_install)

lemma keeps_setup_from: "keeps k r (snd (setup_from S before insts memo r))"
proof (induction insts arbitrary: memo r)
  case (Cons inst insts)
  have rest: "keeps k r1 (snd (case setup_from S before insts memo' r1 of ((rs, f), r2) \<Rightarrow> ((x # rs, f), r2)))" for x memo' r1
    by (rule keeps_bind[OF Cons.IH]) (simp split: prod.split)
  show ?case
    unfolding setup_from.simps
  proof (rule keeps_bind[OF keeps_ensure], goal_cases)
    case (1 a r1)
    obtain b installed e memo' where a: "a = ((b, installed, e), memo')" by (metis prod.collapse)
    show ?case unfolding a using rest by (cases e) simp_all
  qed
qed simp

lemma keeps_Setup: "keeps k r (snd (Setup S before insts r))"
  by (simp add: Setup_def keeps_setup_from)

lemma keeps_ready: "keeps k r (snd (ready S x r))"
proof -
  have 1: "keeps k r (case firstSeen r k' of Some _ \<Rightarrow> r
      | None \<Rightarrow> (case call (sNow S) r of (now, r1) \<Rightarrow> r1\<lparr>firstSeen := see now k' (firstSeen r1)\<rparr>))" for k'
    by (auto simp: call_def keeps_def see_keeps split: option.split prod.split)
  show ?thesis
    unfolding ready_def Let_def
    by (rule keeps_trans[OF 1[of "loser_key S x"]], intro keeps_intros)
qed

lemma keeps_Resolve: "k \<noteq> loser_key S loser \<Longrightarrow> keeps k r (snd (Resolve S x loser r))"
proof -
  assume "k \<noteq> loser_key S loser"
  then have f: "keeps k r (forget S loser r)" for r by (simp add: forget_def keeps_def)
  have g: "keeps k r (snd (a, forget S loser r))" for r :: "'a resolver" and a :: "'b berr option"
    by (simp add: f)
  show ?thesis
    unfolding Resolve_def by (intro keeps_intros keeps_Get keeps_ready g)
qed

text \<open>What a server does with the resolver while a client decides about a loser.\<close>

datatype op = ReadBundle string | ReadAll | InstallOne Install | InstallAll "Install list" | ResolveOther string string

fun run_op :: "('w, 'e) sdk \<Rightarrow> (Install \<Rightarrow> 'w \<Rightarrow> 'e berr option \<times> 'w) \<Rightarrow> op \<Rightarrow> 'w resolver \<Rightarrow> 'w resolver" where
  "run_op S before (ReadBundle x) r = snd (GetBundle S x r)"
| "run_op S before ReadAll r = snd (ListBundles S r)"
| "run_op S before (InstallOne inst) r = snd (EnsureBundle S inst r)"
| "run_op S before (InstallAll insts) r = snd (Setup S before insts r)"
| "run_op S before (ResolveOther x loser) r = snd (Resolve S x loser r)"

lemma keeps_Ensure: "keeps k r (snd (EnsureBundle S inst r))"
  unfolding EnsureBundle_def by (rule keeps_bind[OF keeps_ensure]) (auto split: prod.split)

lemma keeps_run:
  assumes "\<forall>x l. ResolveOther x l \<in> set ops \<longrightarrow> loser_key S l \<noteq> k"
  shows "keeps k r (fold (run_op S before) ops r)"
  using assms
proof (induction ops arbitrary: r)
  case (Cons p ops)
  have "keeps k r (run_op S before p r)"
    using Cons.prems by (cases p) (auto simp: keeps_Get keeps_List keeps_Ensure keeps_Setup intro!: keeps_Resolve)
  then show ?case using Cons keeps_trans by fastforce
qed simp

lemma Get_sees:
  assumes "GetBundle S x r = (Inr b, r1)" "loser \<in> set (bLosers b)"
  shows "firstSeen r1 (loser_key S loser) \<noteq> None"
proof -
  have "bLosers b \<noteq> []" using assms(2) by auto
  then have "firstSeen (observe S b r2) (loser_key S loser) \<noteq> None" for r2
    using fold_see_sees[OF assms(2), of _ "loser_key S"] by (auto simp: observe_def simp del: not_None_eq split: prod.split)
  then show ?thesis using assms(1) by (auto simp: GetBundle_def simp del: not_None_eq split: prod.splits sum.splits option.splits)
qed

lemma deletes_ready:
  assumes "deletes S x loser r"
  shows "\<exists>b r1 r2. GetBundle S x r = (Inr b, r1) \<and> loser \<noteq> bRootId b \<and> loser \<in> set (bRoots b) \<and> loser \<in> set (bLosers b) \<and>
    ready S loser r1 = (True, r2)"
proof -
  obtain f g where ne: "Resolve (S\<lparr>sResolveLoser := f\<rparr>) x loser r \<noteq> Resolve (S\<lparr>sResolveLoser := g\<rparr>) x loser r"
    using assms by (auto simp: deletes_def)
  obtain a r1 where G: "GetBundle S x r = (a, r1)" by fastforce
  then obtain b where a: "a = Inr b" using ne by (cases a) (auto simp: Resolve_def)
  have l: "loser \<noteq> bRootId b" "loser \<in> set (bRoots b)" "loser \<in> set (bLosers b)"
    using ne G a by (auto simp: Resolve_def split: if_splits)
  obtain y r2 where R: "ready S loser r1 = (y, r2)" by fastforce
  then have "y = True" using ne G a l by (cases y) (auto simp: Resolve_def)
  then show ?thesis using G l R unfolding a by (intro exI[of _ b] exI[of _ r1] exI[of _ r2]) simp
qed

text \<open>
  C29. A losing root is deleted only once it has install_settled. When a call reaches the SDK's \<open>ResolveLoser\<close>, the registry lists the root
  as a loser and not as the winner, the SDK reports it quiescent, and the clock has passed the first observation of the loser by
  at least the grace period - the first one, whatever else was read, installed or resolved since.
\<close>

theorem loser_window:
  assumes "firstSeen r (loser_key S loser) = Some t"
    and "\<forall>x l. ResolveOther x l \<in> set ops \<longrightarrow> loser_key S l \<noteq> loser_key S loser"
    and "deletes S x loser (fold (run_op S before) ops r)"
  shows "\<exists>b r1 now w. GetBundle S x (fold (run_op S before) ops r) = (Inr b, r1) \<and>
    loser \<noteq> bRootId b \<and> loser \<in> set (bRoots b) \<and> loser \<in> set (bLosers b) \<and>
    sNow S (rw r1) = (now, w) \<and> now - t \<ge> Grace r \<and> fst (sQuiescent S loser w)"
proof -
  let ?r = "fold (run_op S before) ops r" and ?k = "loser_key S loser"
  obtain b r1 r2 where d: "GetBundle S x ?r = (Inr b, r1)" "loser \<noteq> bRootId b" "loser \<in> set (bRoots b)" "loser \<in> set (bLosers b)"
    "ready S loser r1 = (True, r2)" using deletes_ready[OF assms(3)] by blast
  have "keeps ?k r r1"
    using keeps_run[OF assms(2)] keeps_Get[of ?k ?r S x] d(1) keeps_trans by (metis snd_conv)
  then have t: "firstSeen r1 ?k = Some t" "Grace r1 = Grace r" using assms(1) by (auto simp: keeps_def)
  obtain now w where n: "sNow S (rw r1) = (now, w)" by fastforce
  have "now - t \<ge> Grace r \<and> fst (sQuiescent S loser w)"
    using d(5) t n by (auto simp: ready_def call_def Let_def split: if_splits prod.splits)
  then show ?thesis using d n by blast
qed

section \<open>Witnesses\<close>

text \<open>A world that is its clock: each reading advances it. The bundle \<open>b\<close> has a winner and a loser, \<open>c\<close> is not installed.\<close>

definition demo_sdk :: "role \<Rightarrow> (int, unit) sdk" where
  "demo_sdk role = \<lparr>sSpace = ''s'', sRole = role,
     sBundlesGet = (\<lambda>x w. (Inr (if x = ''b'' then Some \<lparr>bRootId = ''r'', bDerived = False, bRoots = [''r'', ''l''], bLosers = [''l'']\<rparr> else None), w)),
     sObjectsGet = (\<lambda>x w. (Inr (Some []), w)), sParts = (\<lambda>x w. (Inr [], w)), sTypesGet = (\<lambda>x w. (Inr [], w)),
     sCollectionsGet = (\<lambda>x w. (Inr [], w)), sProperties = (\<lambda>x w. (Inr [], w)), sList = (\<lambda>w. (Inr [], w)),
     sPeers = (\<lambda>w. ((1, 0, 0), w)), sWaitIndexSynced = (\<lambda>t w. (None, w)), sIndexRow = (\<lambda>x w. (Inr None, w)),
     sUninstall = (\<lambda>x w. (None, w)), sTypesList = (\<lambda>w. (Inr [], w)), sCollectionsList = (\<lambda>w. (Inr [], w)),
     sDerivedRootId = (\<lambda>x w. (Inr [], w)), sEnsure = (\<lambda>i w. (Inl (), w)), sResolveLoser = (\<lambda>x l w. (None, w)),
     sQuiescent = (\<lambda>x w. (True, w)), sNow = (\<lambda>w. (w, w + 200)), sAfter = (\<lambda>d w. (True, w))\<rparr>"

definition demo_install :: Install where
  "demo_install = \<lparr>inId = ''c'', inRootCollections = [], inDerived = False, inXKey = [], inParts = [], inProperties = [], inCollection = False\<rparr>"

lemmas demo_eval = demo_sdk_def demo_install_def call_def NewResolver_def GetBundle_def observe_def adopt_def tryAdopt_def rootLocal_def
  loser_key_def see_def noRow_def

lemma demo_tryAdopt:
  "tryAdopt (demo_sdk Writer) demo_install (NewResolver 300 0) = (Inr (noRow, False), NewResolver 300 0)"
  by (simp add: demo_eval)

lemma demo_calls: "calls_ensure (demo_sdk Writer) (\<lambda>_ w. (None, w)) demo_install None (NewResolver 300 0)"
  unfolding calls_ensure_def
proof (intro exI notI)
  let ?f = "\<lambda>i w. (Inl (), w) :: (unit + Row \<times> bool \<times> string) \<times> int" and ?g = "\<lambda>i w. (Inl (), w + 1) :: (unit + Row \<times> bool \<times> string) \<times> int"
  assume "ensure ((demo_sdk Writer)\<lparr>sEnsure := ?f\<rparr>) (\<lambda>_ w. (None, w)) demo_install None (NewResolver 300 0) =
    ensure ((demo_sdk Writer)\<lparr>sEnsure := ?g\<rparr>) (\<lambda>_ w. (None, w)) demo_install None (NewResolver 300 0)"
  then show False
    by (simp add: ensure_def adoptable_def converge_def oneWait_def waitSynced_def waitFor_def install_def demo_eval)
qed

theorem install_gated_witness:
  "calls_ensure (demo_sdk Writer) (\<lambda>_ w. (None, w)) demo_install None (NewResolver 300 0) \<and>
   fst (tryAdopt (demo_sdk Writer) demo_install (NewResolver 300 0)) = Inr (noRow, False) \<and>
   fst (oneWait (demo_sdk Writer) None (NewResolver 300 0)) = Some None"
proof -
  have "\<not> inDerived demo_install" "sRole (demo_sdk Writer) \<noteq> Owner" by (simp_all add: demo_install_def demo_sdk_def)
  then have "fst (oneWait (demo_sdk Writer) None (NewResolver 300 0)) = Some None"
    using install_gated[OF demo_calls] demo_tryAdopt by auto
  then show ?thesis using demo_calls demo_tryAdopt by simp
qed

definition demo_seen :: "int resolver" where
  "demo_seen = snd (GetBundle (demo_sdk Owner) ''b'' (NewResolver 300 0))"

lemma demo_deletes: "deletes (demo_sdk Owner) ''b'' ''l'' (fold (run_op (demo_sdk Owner) (\<lambda>_ w. (None, w))) [ReadAll] demo_seen)"
  unfolding deletes_def
proof (intro exI notI)
  let ?f = "\<lambda>x l w. (None, w) :: unit option option \<times> int" and ?g = "\<lambda>x l w. (Some None, w) :: unit option option \<times> int"
  let ?r = "fold (run_op (demo_sdk Owner) (\<lambda>_ w. (None, w))) [ReadAll] demo_seen"
  assume "Resolve ((demo_sdk Owner)\<lparr>sResolveLoser := ?f\<rparr>) ''b'' ''l'' ?r = Resolve ((demo_sdk Owner)\<lparr>sResolveLoser := ?g\<rparr>) ''b'' ''l'' ?r"
  then show False by (simp add: Resolve_def ListBundles_def ready_def demo_seen_def demo_eval)
qed

theorem loser_window_witness:
  "firstSeen demo_seen (loser_key (demo_sdk Owner) ''l'') = Some 0 \<and>
   (\<exists>b r1 now w. GetBundle (demo_sdk Owner) ''b'' (fold (run_op (demo_sdk Owner) (\<lambda>_ w. (None, w))) [ReadAll] demo_seen) = (Inr b, r1) \<and>
     ''l'' \<in> set (bLosers b) \<and> sNow (demo_sdk Owner) (rw r1) = (now, w) \<and> now \<ge> 300)"
proof -
  have t: "firstSeen demo_seen (loser_key (demo_sdk Owner) ''l'') = Some 0" "Grace demo_seen = 300"
    by (simp_all add: demo_seen_def demo_eval)
  have "\<forall>x l. ResolveOther x l \<in> set [ReadAll] \<longrightarrow> loser_key (demo_sdk Owner) l \<noteq> loser_key (demo_sdk Owner) ''l''" by simp
  from loser_window[OF t(1) this demo_deletes] t show ?thesis by fastforce
qed

end
