(* ===== verification/Spec2Isabelle.thy ===== *)
theory Spec2Isabelle
  imports EventBridge EngineGate ChatReading MarkdownDelete IndexLinks PushService MarkdownWrite Projection IndexAdvance SearchPage
    LocalHandlers Descriptors IndexChunkers CatalogSetup Bundles
begin

text \<open>
  A verification development of the \<open>any\<close> server (the Go sources under src/).

  \<^bold>\<open>The program.\<close> A local HTTP server gives applications access to spaces of synchronised objects.
  The synchronisation itself is the any-sync SDK, a library the sources call. The server's own logic is what sits
  between the two: references between objects, an event bus with a bridge to the network's pub/sub, a
  registry of running processes, the gate that drains requests before the engine is replaced, the handlers
  that decide which changes of chat messages and document blocks are accepted on every replica, the
  conversion between markdown documents and block records with its diff and conditional write, the projection of
  query results, descriptors of properties, a catalog of bundles and their installation, a store of local collections,
  push notifications, and a local search index: what a record contributes to it, how a worker keeps it in step with
  the change feed, and how a query is answered from it.

  \<^bold>\<open>The theories.\<close>

  \<^item> \<^verbatim>\<open>Prelude\<close>: byte strings, the parts of Go's \<open>strings\<close> package in use, and the locale
    \<open>safe_machine\<close> of a step relation with an invariant, which the state machines below interpret.

  \<^item> \<^verbatim>\<open>AnyUri\<close> (src/anyuri): builders, parser, printer, canonical keys, and the scanners for links and
    mentions. A parsed reference prints and parses back to itself; the scanners find exactly the references
    their specification describes.

  \<^item> \<^verbatim>\<open>EventHub\<close>, \<^verbatim>\<open>EventTopics\<close>, \<^verbatim>\<open>EventBridge\<close> (src/internal/server/events_hub.go, events_topics.go,
    events_bridge.go, handlers_events.go): the hub keeps subscriptions with bounded channels, the topics map
    filters to interest patterns, the bridge counts the patterns that live subscriptions need. No
    sequence of operations panics; what a subscriber gets is what it asked for, in order; the reference counts
    are exact in every reachable state, and an acquisition that fails leaves nothing behind; an event published
    on the network reaches a subscriber once.

  \<^item> \<^verbatim>\<open>Processes\<close> (src/internal/server/processes.go, handlers_processes.go): the process view as a tap of
    the hub (locale \<open>hub_tap\<close>, interpreted on \<open>process_apply\<close>), its expiry and its handlers.

  \<^item> \<^verbatim>\<open>EngineGate\<close> (src/internal/server/gate.go): generations of admitted requests. A drain ends exactly
    when a closed generation is empty, for all interleavings.

  \<^item> \<^verbatim>\<open>AnyEnc\<close>, \<^verbatim>\<open>ChatHandler\<close>, \<^verbatim>\<open>ChatReading\<close> (src/internal/chat): the accessors of document values (the
    codec is a record of functions every definition takes), the messages handler with all its validators, and
    the unread verdicts. The accepted payloads are characterised exactly, creator fields are the signer's,
    and only an author or the owner of a reaction key changes a message.

  \<^item> \<^verbatim>\<open>MarkdownSplit\<close>, \<^verbatim>\<open>MarkdownConvert\<close>, \<^verbatim>\<open>MarkdownMatch\<close>, \<^verbatim>\<open>MarkdownDelete\<close>, \<^verbatim>\<open>MarkdownDiff\<close>,
    \<^verbatim>\<open>MarkdownWrite\<close> (src/internal/markdown): the splitter as a family of block consumers (locale
    \<open>block_consumer\<close>, interpreted on each of them), the typed blocks, targeted edits, the diff, and the write
    path. Splitting undoes joining; headings and code blocks render to text that parses back; an edit replaces
    exactly the spans it matched or reports why not; the diff keeps a longest common subsequence; a save that
    succeeds leaves a document that renders as the new content, conditionally on the read it was computed from.

  \<^item> \<^verbatim>\<open>EditorBlocks\<close>, \<^verbatim>\<open>IndexLinks\<close> (src/internal/editor, src/internal/index/links.go): the block handler,
    the document order of a listing, the allocation of positions, the link edges of texts, values and blocks
    (locale \<open>edge_source\<close>), and the search windows of a document.

  \<^item> \<^verbatim>\<open>PushTopics\<close>, \<^verbatim>\<open>PushService\<close> (src/internal/push): the topics of an account and of a message, the
    notifications the chat hooks enqueue, the device token, the reconcile round and the delivery queue.
    Who is notified follows the modes, the owner of an agent included; a muted chat stays silent, a failed
    read of settings never unmutes, and a round that is complete leaves the node with the desired subscriptions.

  \<^item> \<^verbatim>\<open>Projection\<close> (src/internal/server/projection.go, projection_shape.go): the parsed field list as a tree of
    marks, the records, version maps and operations it shapes, and the server's blocklist. A projected record has
    exactly the selected fields, and an operation is delivered, narrowed or dropped as its path is selected.

  \<^item> \<^verbatim>\<open>SearchText\<close>, \<^verbatim>\<open>SearchRank\<close> (src/internal/indexer/chunk.go, stopwords.go, snippet.go, rrf.go): the chunks of a
    record, the window around a match, rank fusion and the records of a page. The chunks keep every word within
    the bound, fusion and grouping do not depend on the order of a map (locale \<open>sort_order\<close>, interpreted on the
    comparison of hits and of groups).

  \<^item> \<^verbatim>\<open>IndexStore\<close>, \<^verbatim>\<open>IndexEmbed\<close> (src/internal/indexer/store.go, links_store.go, links.go, embed_backfill.go): pages of
    documents and edges over any-store (locale \<open>any_store\<close>, interpreted on finite maps), the cursor row, the
    metadata pins, the queue of documents awaiting a vector and its sweep. A page leaves exactly the documents it
    describes, a removal wins over an upsert; a cursor row that asks for no sweep vouches that every document is
    embedded or queued, along every run of pages, cursors, sweeps and vectors that may end between any two of its
    transactions, but for the documents of a page whose run had no embedder and ended before its cursor landed.

  \<^item> \<^verbatim>\<open>IndexWorker\<close>, \<^verbatim>\<open>IndexAdvance\<close> (src/internal/indexer/worker.go): the plan of a page against the stored hashes, the
    diff of edges, the walk over the change feed, the alignment with a rebuilt feed and the draining of the embed
    queue. After a page the stored documents and edges of an object are those its chunkers report, entries
    with a control byte in their id left out; the walk ends with the cursor at the end of the feed; a queue whose embedder
    answers is drained of the documents that nobody else writes meanwhile.

  \<^item> \<^verbatim>\<open>IndexChunkers\<close> (src/internal/index, src/internal/chat/chunker.go, src/internal/editor/chunker.go): what the
    chunkers report of an object - its properties, the records of the datasets its types declare, messages and windows of a
    document - and which datasets they evict. The datasets evicted are those known to the process that the object does not have
    indexed, a message and a document report every edge their content has.

  \<^item> \<^verbatim>\<open>SearchLegs\<close>, \<^verbatim>\<open>SearchPage\<close> (src/internal/indexer/host_filter.go, indexer.go, titles.go,
    src/internal/server/handlers_search.go): the filter over host objects, the lexical and the vector leg, the title pass, the
    page and the endpoint. The lexical leg returns exactly the matching rows it read, the widening of the vector leg
    ends, and a page has at most the requested number of different records, all admitted by the filter.

  \<^item> \<^verbatim>\<open>LocalStore\<close>, \<^verbatim>\<open>LocalExport\<close>, \<^verbatim>\<open>ServerErrors\<close>, \<^verbatim>\<open>LocalHandlers\<close> (src/internal/localstore,
    src/internal/server/handlers_local.go, errors.go, handlers_common.go): references and storage names, the fence in front of
    the database the SDK shares with the local store, the export stream and its import, the mapping of errors and
    all handlers. No sequence of requests changes a collection outside the local names, an aggregation writes
    only to an existing local collection, an export imported elsewhere overlays exactly the exported documents.

  \<^item> \<^verbatim>\<open>Descriptors\<close> (src/internal/server/descriptor.go, and of handlers_types.go the decisions of a PATCH): the
    vocabulary of property and field descriptors, their check at a definition and at a patch, with the rules a slug
    puts on the kind, and the check of values against a slug. Setting one leaf by a patch is accepted exactly when a
    definition of the same kind with that leaf alone is, and stores the same.

  \<^item> \<^verbatim>\<open>Catalog\<close>, \<^verbatim>\<open>CatalogOrder\<close>, \<^verbatim>\<open>CatalogSetup\<close> (src/internal/catalog/catalog.go, src/internal/api/meta_entry.go,
    src/internal/server/catalog.go, handlers_catalog.go): the validation of the usecase catalog, its dependency graph, the
    supersede groups by union-find, and the bundles a setup covers. A catalog without problems has acyclic requirements, no
    space is given a handle twice, and a link names a type or a bundle that a setup covers or passes over for another.

  \<^item> \<^verbatim>\<open>Bundles\<close> (src/internal/bundles/bundles.go): adopting or installing a bundle and deleting losing roots, over the
    calls of the SDK. An install is never made against a registry that may hide one, and a loser is deleted only after the grace
    period since it was first seen.

  \<^bold>\<open>State and effects.\<close> A struct is a record and an operation answers the new value; operations under a lock
  are single steps, and calls that leave the lock are separate steps, so that properties of the hub, the bridge,
  the gate, the process view and the push service hold for every interleaving. Errors and panics are values.
  What the SDK, the network or a clock answers is an argument or a field of an environment record, and so is what
  a map iteration meets first.

  \<^bold>\<open>Bounds.\<close> The loops of the sources recurse on what is left and terminate by a measure. \<open>treeOrder\<close> walks
  with a depth of one more than the number of blocks, which no chain of parents exceeds; a write is
  tried \<open>maxWriteAttempts\<close> = 3 times and a notification \<open>notifyAttempts\<close> = 6 times, as in the
  sources. The walks over the catalog's requirements carry a depth of the number of ids, which no chain of unseen ids
  exceeds. Integers are naturals or integers where the sources bound them by lengths, by explicit limits, or count
  what cannot reach the bound.

  \<^bold>\<open>Parameters.\<close> The codec of document values, the position allocator (with the laws \<open>lexid_laws\<close> of
  its package), Unicode normalisation and letter tables, the hashes \<open>sha256\<close> and \<open>xxh3\<close>, the similarity of two
  texts, the JSON codecs of frames and envelopes; for the search index any-store (the laws \<open>any_store\<close> of a sorted
  map, and \<open>engine_sound\<close> of its queries), its analyzer and clause parser, float arithmetic on a linear order, the
  chunkers, the change feed and the embedder; for bundles the calls of the SDK. A property that needs a law of one of them states it as a
  hypothesis, and its witness discharges it for a concrete instance.

  \<^bold>\<open>Not modelled.\<close> The HTTP plumbing and the handlers that only forward to the SDK, the command line, the
  client and the platform bindings (one call per method); the layout of any-store's indexes and the embedding
  models (a database and native inference); the goroutines and timers around the index worker; configuration,
  the gate of descriptors in the catalog's compilation and the heals after a setup; the handlers of types and
  datasets beyond the decisions of a PATCH, and the data views.
\<close>

end
